(* ===== verification/Prelude.thy ===== *)
theory Prelude
  imports Main "HOL-Library.Word" "HOL-Library.Monad_Syntax"
begin

text \<open>
  Shared vocabulary of the development.

  \<^item> The fixed-width integers of the C sources are words: \<open>uint8_t\<close> is \<open>u8\<close>, \<open>uint16_t\<close> is \<open>u16\<close>,
    \<open>uint32_t\<close> and \<open>unsigned int\<close> are \<open>u32\<close>, \<open>uint64_t\<close> and \<open>size_t\<close> (LP64) are \<open>u64\<close>.
  \<^item> A C function that may read or write outside an object, or that may fail an \<open>assert\<close>, returns an
    \<open>option\<close>: \<open>None\<close> is the fault (undefined behaviour or abort), \<open>Some r\<close> the normal return of \<open>r\<close>.
    Negative \<open>errno\<close> results are ordinary values of the sum type \<open>errno + 'a\<close>.
  \<^item> Arrays are lists read with \<open>get_at\<close> and written with \<open>put_at\<close>, which fault out of range.
  \<^item> \<open>ring xs r n\<close> is the sequence of \<open>n\<close> elements that starts at index \<open>r\<close> of a circular array;
    the queues abstract to it.
\<close>

unbundle bit_operations_syntax

section \<open>Machine integers and results\<close>

type_synonym u8 = "8 word"
type_synonym u16 = "16 word"
type_synonym u32 = "32 word"
type_synonym u64 = "64 word"

datatype errno = EINVAL | ENOMEM | ENOSPC | E2BIG | EILSEQ | ENOENT | EEXIST | ERANGE | EAGAIN | EBADF | ENOBUFS

type_synonym 'a res = "errno + 'a"

named_theorems ring_simps \<open>facts about circular sequences\<close>
named_theorems mem_simps \<open>facts about checked array accesses\<close>

lemma unat_inj [simp]: "unat a = unat b \<longleftrightarrow> a = b"
  by (rule word_unat_eq_iff [symmetric])

lemma unat_u32_less: "unat (x :: u32) < 4294967296"
  using unsigned_less [of x] by simp

lemma unat_u64_less: "unat (x :: u64) < 18446744073709551616"
  using unsigned_less [of x] by simp

lemma unat_ucast_up [simp]: "unat (ucast (x :: u32) :: u64) = unat x"
  using unat_u32_less [of x] by (simp add: unsigned_ucast_eq take_bit_nat_eq_self_iff)

lemma unat_add_u32: "unat (a :: u32) + unat b < 4294967296 \<Longrightarrow> unat (a + b) = unat a + unat b"
  by (simp add: unat_word_ariths)

lemma of_nat_u64_eq: "m < 2 ^ 64 \<Longrightarrow> n < 2 ^ 64 \<Longrightarrow> (of_nat m :: u64) = of_nat n \<longleftrightarrow> m = n"
  by (simp add: word_of_nat_eq_iff take_bit_nat_eq_self)

lemma sint_small: "unat (w :: u32) < 2 ^ 31 \<Longrightarrow> sint w = int (unat w)"
proof -
  assume "unat w < 2 ^ 31"
  then have "int (unat w) < int (2 ^ 31)" by (simp only: of_nat_less_iff)
  then have "signed_take_bit 31 (uint w) = uint w" by (intro signed_take_bit_int_eq_self) (simp_all add: order_trans [OF _ unsigned_greater_eq])
  then show ?thesis by (simp add: sint_uint)
qed

lemma u8_eqI:
  fixes a b :: u8
  assumes "bit a 0 = bit b 0" "bit a 1 = bit b 1" "bit a 2 = bit b 2" "bit a 3 = bit b 3"
    "bit a 4 = bit b 4" "bit a 5 = bit b 5" "bit a 6 = bit b 6" "bit a 7 = bit b 7"
  shows "a = b"
proof (rule bit_word_eqI)
  fix n assume "n < LENGTH(8)"
  then have "n \<in> {0, 1, 2, 3, 4, 5, 6, 7}" by auto
  then show "bit a n = bit b n" using assms by auto
qed

lemma unat_u8_less: "unat (x :: u8) < 256"
  using unsigned_less [of x] by simp

lemma u8_or_add:
  fixes a b :: u8
  assumes "a AND b = 0" "unat a + unat b < 256"
  shows "unat (a OR b) = unat a + unat b"
proof -
  have "a OR b = a + b" using assms(1) by (simp add: disjunctive_add_eq_or)
  then show ?thesis using assms(2) by (simp add: unat_word_ariths)
qed

lemma u8_no_bit: "8 \<le> n \<Longrightarrow> \<not> bit (x :: u8) n"
  using bit_imp_le_length [of x n] by auto

lemma all_idx_update:
  assumes "\<forall>j<length xs. P j (xs ! j)" "P i x"
  shows "\<forall>j<length xs. P j (xs[i := x] ! j)"
proof (intro allI impI)
  fix j assume "j < length xs"
  then show "P j (xs[i := x] ! j)" using assms by (cases "j = i") simp_all
qed

section \<open>Checked array accesses\<close>

lemma bind_ext: "(\<And>x. f x = g x) \<Longrightarrow> Option.bind m f = Option.bind m g"
  by (cases m) auto

definition get_at :: "'a list \<Rightarrow> nat \<Rightarrow> 'a option" where
  "get_at xs i = (if i < length xs then Some (xs ! i) else None)"

definition put_at :: "'a list \<Rightarrow> nat \<Rightarrow> 'a \<Rightarrow> 'a list option" where
  "put_at xs i v = (if i < length xs then Some (xs[i := v]) else None)"

lemma get_at_in [mem_simps]: "i < length xs \<Longrightarrow> get_at xs i = Some (xs ! i)"
  by (simp add: get_at_def)

lemma put_at_in [mem_simps]: "i < length xs \<Longrightarrow> put_at xs i v = Some (xs[i := v])"
  by (simp add: put_at_def)

lemma get_at_eq_Some [simp]: "get_at xs i = Some v \<longleftrightarrow> i < length xs \<and> xs ! i = v"
  by (auto simp: get_at_def)

lemma put_at_eq_Some [simp]: "put_at xs i v = Some ys \<longleftrightarrow> i < length xs \<and> ys = xs[i := v]"
  by (auto simp: put_at_def)

lemma get_at_eq_None [simp]: "get_at xs i = None \<longleftrightarrow> length xs \<le> i"
  by (auto simp: get_at_def)

lemma put_at_eq_None [simp]: "put_at xs i v = None \<longleftrightarrow> length xs \<le> i"
  by (auto simp: put_at_def)

lemma drop_eq_ConsD:
  assumes "drop s xs = c # v"
  shows "s < length xs" "xs ! s = c" "drop (Suc s) xs = v"
  using assms by (metis drop_eq_Nil linorder_not_less list.distinct(1)) (use assms in \<open>metis nth_via_drop\<close>, use assms in \<open>metis drop_Suc list.sel(3) tl_drop\<close>)

section \<open>Circular sequences\<close>

definition ring :: "'a list \<Rightarrow> nat \<Rightarrow> nat \<Rightarrow> 'a list" where
  "ring xs r n = map (\<lambda>i. xs ! ((r + i) mod length xs)) [0..<n]"

lemma length_ring [simp]: "length (ring xs r n) = n"
  by (simp add: ring_def)

lemma ring_0 [simp]: "ring xs r 0 = []"
  by (simp add: ring_def)

lemma ring_eq_Nil [simp]: "ring xs r n = [] \<longleftrightarrow> n = 0"
  by (simp add: ring_def)

lemma ring_Suc [ring_simps]:
  "ring xs r (Suc n) = xs ! (r mod length xs) # ring xs (Suc r mod length xs) n"
proof (rule nth_equalityI)
  fix i assume "i < length (ring xs r (Suc n))"
  then show "ring xs r (Suc n) ! i = (xs ! (r mod length xs) # ring xs (Suc r mod length xs) n) ! i"
    by (cases i) (simp_all add: ring_def mod_simps del: upt_Suc)
qed simp

lemma add_mod_split:
  fixes a :: nat
  assumes "a < L" "i < L"
  shows "(a + i) mod L = (if a + i < L then a + i else a + i - L)"
  using assms by (simp add: mod_if)

lemma add_mod_inj:
  fixes r :: nat
  assumes eq: "(r + i) mod L = (r + j) mod L" and "i < L" "j < L"
  shows "i = j"
proof -
  have "r mod L < L" using assms by simp
  moreover have "(r mod L + i) mod L = (r mod L + j) mod L"
    using eq by (simp add: mod_simps)
  ultimately show ?thesis
    using assms(2,3) by (auto simp: add_mod_split split: if_splits)
qed

lemma ring_cong_outside:
  assumes "n < length xs"
  shows "ring (xs[(r + n) mod length xs := x]) r n = ring xs r n"
proof -
  have "(r + n) mod length xs \<noteq> (r + i) mod length xs" if "i < n" for i
    using add_mod_inj [of r i "length xs" n] that assms by auto
  then show ?thesis
    by (auto simp: ring_def)
qed

lemma ring_Suc_last: "ring xs r (Suc n) = ring xs r n @ [xs ! ((r + n) mod length xs)]"
  by (simp add: ring_def)

lemma ring_snoc [ring_simps]:
  assumes "n < length xs"
  shows "ring (xs[(r + n) mod length xs := x]) r (Suc n) = ring xs r n @ [x]"
proof -
  have "(r + n) mod length xs < length xs"
    using assms by (intro mod_less_divisor) linarith
  then show ?thesis
    using assms ring_cong_outside [OF assms, of r x] by (simp add: ring_Suc_last)
qed

text \<open>The index step \<open>i + 1, or 0 at the size\<close> is addition modulo the size; it cannot overflow.\<close>

lemma unat_next_index:
  fixes i s :: "'w :: len word"
  assumes "i < s"
  shows "unat (if i + 1 = s then 0 else i + 1) = Suc (unat i) mod unat s"
proof -
  have lt: "unat i < unat s" using assms by (simp add: word_less_nat_alt)
  then have "Suc (unat i) < 2 ^ LENGTH('w)" using unsigned_less [of s, where 'a = nat] by linarith
  then have suc: "unat (i + 1) = Suc (unat i)"
    by (simp add: unat_word_ariths)
  show ?thesis
  proof (cases "i + 1 = s")
    case True
    then show ?thesis using suc by auto
  next
    case False
    then have "Suc (unat i) \<noteq> unat s" using suc by (metis unat_inj)
    then show ?thesis using suc False lt by simp
  qed
qed

lemma next_index_less:
  fixes i s :: "'w :: len word"
  assumes "i < s"
  shows "(if i + 1 = s then 0 else i + 1) < s"
proof -
  have "0 < unat s" using assms by (simp add: word_less_nat_alt)
  then show ?thesis
    unfolding word_less_nat_alt unat_next_index [OF assms] by simp
qed

text \<open>Occupancy arithmetic on two indices \<open>r\<close>, \<open>w\<close> of a circular array of \<open>L\<close> slots.\<close>

lemma occ_index:
  fixes r w L :: nat
  assumes "r < L" "w < L"
  shows "(r + (w + L - r) mod L) mod L = w"
proof -
  have "(r + (w + L - r) mod L) mod L = (r + (w + L - r)) mod L" by (simp add: mod_simps)
  also have "r + (w + L - r) = w + L" using assms by simp
  finally show ?thesis using assms by simp
qed

lemma occ_full:
  fixes r w L :: nat
  assumes "r < L" "w < L"
  shows "Suc w mod L = r \<longleftrightarrow> (w + L - r) mod L = L - 1"
  using assms by (auto simp: mod_if)

lemma occ_enq:
  fixes r w L :: nat
  assumes "r < L" "w < L" "Suc w mod L \<noteq> r"
  shows "(Suc w mod L + L - r) mod L = Suc ((w + L - r) mod L)"
  using assms by (auto simp: mod_if)

lemma occ_deq:
  fixes r w L :: nat
  assumes "r < L" "w < L" "r \<noteq> w"
  shows "(w + L - r) mod L = Suc ((w + L - Suc r mod L) mod L)"
  using assms by (auto simp: mod_if)

lemma occ_empty:
  fixes r w L :: nat
  assumes "r < L" "w < L"
  shows "(w + L - r) mod L = 0 \<longleftrightarrow> r = w"
  using assms by (auto simp: mod_if)

end
