(* ===== verification/Fifo_Spec.thy ===== *)
theory Fifo_Spec
  imports Prelude
begin

text \<open>
  The contract of a bounded first-in first-out queue and what its clients may rely on.

  \<^item> \<open>spec_step\<close>/\<open>spec_run\<close> are the abstract queue: a list and a capacity.
  \<^item> The locale \<open>bounded_fifo\<close> states what an implementation promises of one \<open>enq\<close> and one \<open>deq\<close>;
    inside it, whole sequences of operations are shown to agree with the abstract queue.
    \<open>FastQueue\<close> and \<open>SpscQueue\<close> interpret it on the queues of \<open>inc/fast\<close>.
\<close>

section \<open>The abstract bounded queue\<close>

datatype 'a fifo_op = Enq 'a | Deq

datatype 'a fifo_reply = Accepted | Full | Got 'a | Empty

fun spec_step :: "nat \<Rightarrow> 'a fifo_op \<Rightarrow> 'a list \<Rightarrow> 'a fifo_reply \<times> 'a list" where
  "spec_step c (Enq x) xs = (if length xs < c then (Accepted, xs @ [x]) else (Full, xs))"
| "spec_step c Deq [] = (Empty, [])"
| "spec_step c Deq (x # xs) = (Got x, xs)"

fun spec_run :: "nat \<Rightarrow> 'a fifo_op list \<Rightarrow> 'a list \<Rightarrow> 'a fifo_reply list \<times> 'a list" where
  "spec_run c [] xs = ([], xs)"
| "spec_run c (op # ops) xs =
     (let (r, xs') = spec_step c op xs; (rs, xs'') = spec_run c ops xs' in (r # rs, xs''))"

text \<open>What went in (the elements of the accepted enqueues) and what came out, in order.\<close>

fun accepted :: "'a fifo_op list \<Rightarrow> 'a fifo_reply list \<Rightarrow> 'a list" where
  "accepted (Enq x # ops) (Accepted # rs) = x # accepted ops rs"
| "accepted (_ # ops) (_ # rs) = accepted ops rs"
| "accepted _ _ = []"

fun delivered :: "'a fifo_reply list \<Rightarrow> 'a list" where
  "delivered (Got x # rs) = x # delivered rs"
| "delivered (_ # rs) = delivered rs"
| "delivered [] = []"

lemma spec_run_fifo:
  assumes "spec_run c ops xs = (rs, ys)"
  shows "xs @ accepted ops rs = delivered rs @ ys"
  using assms
proof (induction ops arbitrary: xs rs)
  case (Cons op ops)
  obtain r xs' where step: "spec_step c op xs = (r, xs')" by fastforce
  obtain rs' where run: "spec_run c ops xs' = (rs', ys)" and rs: "rs = r # rs'"
    using Cons.prems step by (auto simp: Let_def split: prod.splits)
  have IH: "xs' @ accepted ops rs' = delivered rs' @ ys"
    using run by (rule Cons.IH)
  show ?case
    using step IH rs by (cases "(c, op, xs)" rule: spec_step.cases) (auto split: if_splits)
qed simp

section \<open>Sequences of operations on an implementation\<close>

fun fifo_step ::
  "('a \<Rightarrow> 'q \<Rightarrow> (bool \<times> 'q) option) \<Rightarrow> ('q \<Rightarrow> ('a option \<times> 'q) option) \<Rightarrow>
   'a fifo_op \<Rightarrow> 'q \<Rightarrow> ('a fifo_reply \<times> 'q) option" where
  "fifo_step enq deq (Enq x) q =
     map_option (\<lambda>(ok, q'). (if ok then Accepted else Full, q')) (enq x q)"
| "fifo_step enq deq Deq q =
     map_option (\<lambda>(r, q'). (case r of None \<Rightarrow> Empty | Some x \<Rightarrow> Got x, q')) (deq q)"

fun fifo_run ::
  "('a \<Rightarrow> 'q \<Rightarrow> (bool \<times> 'q) option) \<Rightarrow> ('q \<Rightarrow> ('a option \<times> 'q) option) \<Rightarrow>
   'a fifo_op list \<Rightarrow> 'q \<Rightarrow> ('a fifo_reply list \<times> 'q) option" where
  "fifo_run enq deq [] q = Some ([], q)"
| "fifo_run enq deq (op # ops) q =
     do { (r, q') \<leftarrow> fifo_step enq deq op q;
          (rs, q'') \<leftarrow> fifo_run enq deq ops q';
          Some (r # rs, q'') }"

section \<open>The contract\<close>

locale bounded_fifo =
  fixes enq :: "'a \<Rightarrow> 'q \<Rightarrow> (bool \<times> 'q) option"
    and deq :: "'q \<Rightarrow> ('a option \<times> 'q) option"
    and contents :: "'q \<Rightarrow> 'a list"
    and cap :: "'q \<Rightarrow> nat"
    and invar :: "'q \<Rightarrow> bool"
  assumes fits: "invar q \<Longrightarrow> length (contents q) \<le> cap q"
    and enq_room: "invar q \<Longrightarrow> length (contents q) < cap q \<Longrightarrow>
      \<exists>q'. enq x q = Some (True, q') \<and> invar q' \<and> contents q' = contents q @ [x] \<and> cap q' = cap q"
    and enq_full: "invar q \<Longrightarrow> length (contents q) = cap q \<Longrightarrow> enq x q = Some (False, q)"
    and deq_some: "invar q \<Longrightarrow> contents q = x # xs \<Longrightarrow>
      \<exists>q'. deq q = Some (Some x, q') \<and> invar q' \<and> contents q' = xs \<and> cap q' = cap q"
    and deq_empty: "invar q \<Longrightarrow> contents q = [] \<Longrightarrow> deq q = Some (None, q)"
begin

lemma step_refines:
  assumes "invar q"
  shows "\<exists>r q'. fifo_step enq deq op q = Some (r, q') \<and> invar q' \<and> cap q' = cap q \<and>
           spec_step (cap q) op (contents q) = (r, contents q')"
proof (cases op)
  case (Enq x)
  show ?thesis
  proof (cases "length (contents q) < cap q")
    case True
    then show ?thesis using Enq enq_room [OF assms True, of x] by auto
  next
    case False
    with fits [OF assms] have "length (contents q) = cap q" by simp
    then show ?thesis using Enq enq_full [OF assms, of x] assms by auto
  qed
next
  case Deq
  show ?thesis
  proof (cases "contents q")
    case Nil
    then show ?thesis using Deq deq_empty [OF assms] assms by auto
  next
    case (Cons x xs)
    then show ?thesis using Deq deq_some [OF assms Cons] by auto
  qed
qed

lemma run_refines:
  assumes "invar q"
  shows "\<exists>rs q'. fifo_run enq deq ops q = Some (rs, q') \<and> invar q' \<and> cap q' = cap q \<and>
           spec_run (cap q) ops (contents q) = (rs, contents q')"
  using assms
proof (induction ops arbitrary: q)
  case (Cons op ops)
  obtain r q1 where 1: "fifo_step enq deq op q = Some (r, q1)" "invar q1" "cap q1 = cap q"
      "spec_step (cap q) op (contents q) = (r, contents q1)"
    using step_refines [OF Cons.prems] by blast
  obtain rs q2 where 2: "fifo_run enq deq ops q1 = Some (rs, q2)" "invar q2" "cap q2 = cap q1"
      "spec_run (cap q1) ops (contents q1) = (rs, contents q2)"
    using Cons.IH [OF 1(2)] by blast
  show ?case using 1 2 by auto
qed simp

lemma run_fifo_order:
  assumes "invar q"
  shows "\<exists>rs q'. fifo_run enq deq ops q = Some (rs, q') \<and>
           contents q @ accepted ops rs = delivered rs @ contents q' \<and>
           length (contents q') \<le> cap q"
  using run_refines [OF assms, of ops] spec_run_fifo fits by fastforce

end

end
