(* ===== verification/FastQueue.thy ===== *)
theory FastQueue
  imports Fifo_Spec
begin

text \<open>
  The bounded FIFO of \<open>inc/fast/queue.h\<close>: a circular array with a read and a write index, both
  \<open>uint32_t\<close>, one slot always unused. The header \<open>__fast_queue\<close> is the record \<open>fast_queue\<close>; a queue
  type made by \<open>FQ_TYPE\<close> is the record \<open>fq\<close> (header and element array). An access to \<open>fq_elem\<close> out of
  range is a fault (\<open>None\<close>).
\<close>

record fast_queue =
  fq_rd :: u32
  fq_wr :: u32
  fq_sz :: u32

record 'a fq =
  fq_q :: fast_queue
  fq_elem :: "'a list"

definition FQ_INIT :: "'a fq \<Rightarrow> u32 \<Rightarrow> 'a fq" where
  "FQ_INIT Q n = Q\<lparr>fq_q := (fq_q Q)\<lparr>fq_rd := 0, fq_wr := 0, fq_sz := n\<rparr>\<rparr>"

definition q_full_p :: "fast_queue \<Rightarrow> bool" where
  "q_full_p h = (let w = fq_wr h + 1; w = (if w = fq_sz h then 0 else w) in fq_rd h = w)"

definition q_empty_p :: "fast_queue \<Rightarrow> bool" where
  "q_empty_p h = (fq_rd h = fq_wr h)"

definition q_size :: "fast_queue \<Rightarrow> u32" where
  "q_size h = (if fq_rd h < fq_wr h then fq_wr h - fq_rd h
               else if fq_rd h > fq_wr h then fq_sz h - fq_rd h + fq_wr h
               else 0)"

text \<open>\<open>__next_wr\<close>: the index to write (the out-parameter) and the new header, or a full queue.\<close>

definition next_wr :: "fast_queue \<Rightarrow> (u32 \<times> fast_queue) option" where
  "next_wr h = (let w = fq_wr h; nwr = w + 1; nwr = (if nwr = fq_sz h then 0 else nwr) in
     if nwr \<noteq> fq_rd h then Some (w, h\<lparr>fq_wr := nwr\<rparr>) else None)"

definition next_rd :: "fast_queue \<Rightarrow> (u32 \<times> fast_queue) option" where
  "next_rd h = (let r = fq_rd h in
     if r = fq_wr h then None
     else (let nrd = r + 1; nrd = (if nrd = fq_sz h then 0 else nrd) in Some (r, h\<lparr>fq_rd := nrd\<rparr>)))"

definition FQ_ENQ :: "'a \<Rightarrow> 'a fq \<Rightarrow> (bool \<times> 'a fq) option" where
  "FQ_ENQ e Q = (case next_wr (fq_q Q) of
       Some (w, h) \<Rightarrow> do { xs \<leftarrow> put_at (fq_elem Q) (unat w) e; Some (True, \<lparr>fq_q = h, fq_elem = xs\<rparr>) }
     | None \<Rightarrow> Some (False, Q))"

definition FQ_DEQ :: "'a fq \<Rightarrow> ('a option \<times> 'a fq) option" where
  "FQ_DEQ Q = (case next_rd (fq_q Q) of
       Some (r, h) \<Rightarrow> do { e \<leftarrow> get_at (fq_elem Q) (unat r); Some (Some e, Q\<lparr>fq_q := h\<rparr>) }
     | None \<Rightarrow> Some (None, Q))"

definition FQ_RESET :: "'a fq \<Rightarrow> 'a fq" where
  "FQ_RESET Q = Q\<lparr>fq_q := (fq_q Q)\<lparr>fq_rd := 0, fq_wr := 0\<rparr>\<rparr>"

section \<open>Invariant and abstraction\<close>

definition fq_inv :: "'a fq \<Rightarrow> bool" where
  "fq_inv Q \<longleftrightarrow> length (fq_elem Q) = unat (fq_sz (fq_q Q)) \<and> fq_rd (fq_q Q) < fq_sz (fq_q Q) \<and> fq_wr (fq_q Q) < fq_sz (fq_q Q)"

definition fq_count :: "fast_queue \<Rightarrow> nat" where
  "fq_count h = (unat (fq_wr h) + unat (fq_sz h) - unat (fq_rd h)) mod unat (fq_sz h)"

definition fq_contents :: "'a fq \<Rightarrow> 'a list" where
  "fq_contents Q = ring (fq_elem Q) (unat (fq_rd (fq_q Q))) (fq_count (fq_q Q))"

definition fq_cap :: "'a fq \<Rightarrow> nat" where
  "fq_cap Q = unat (fq_sz (fq_q Q)) - 1"

lemma fq_inv_nat:
  assumes "fq_inv Q"
  shows "unat (fq_rd (fq_q Q)) < unat (fq_sz (fq_q Q))" "unat (fq_wr (fq_q Q)) < unat (fq_sz (fq_q Q))"
    "length (fq_elem Q) = unat (fq_sz (fq_q Q))"
  using assms by (simp_all add: fq_inv_def word_less_nat_alt)

lemma fq_count_less: "fq_inv Q \<Longrightarrow> fq_count (fq_q Q) < unat (fq_sz (fq_q Q))"
  using fq_inv_nat by (fastforce simp: fq_count_def)

text \<open>The size reported by \<open>__q_size\<close> is the number of elements of the abstract queue.\<close>

lemma q_size_count:
  assumes "fq_inv Q"
  shows "unat (q_size (fq_q Q)) = fq_count (fq_q Q)"
proof -
  note b = fq_inv_nat [OF assms]
  consider "fq_rd (fq_q Q) < fq_wr (fq_q Q)" | "fq_wr (fq_q Q) < fq_rd (fq_q Q)" | "fq_rd (fq_q Q) = fq_wr (fq_q Q)" by force
  then show ?thesis
  proof cases
    case 1
    then show ?thesis using b
      by (simp add: q_size_def fq_count_def word_less_nat_alt unat_sub_if_size mod_if)
  next
    case 2
    have "fq_rd (fq_q Q) \<le> fq_sz (fq_q Q)" using assms by (auto simp: fq_inv_def)
    then have "unat (fq_sz (fq_q Q) - fq_rd (fq_q Q)) = unat (fq_sz (fq_q Q)) - unat (fq_rd (fq_q Q))"
      by (simp add: unat_sub)
    with unat_u32_less [of "fq_sz (fq_q Q)"] have "unat (fq_sz (fq_q Q) - fq_rd (fq_q Q) + fq_wr (fq_q Q)) =
        unat (fq_sz (fq_q Q)) - unat (fq_rd (fq_q Q)) + unat (fq_wr (fq_q Q))"
      using 2 b by (subst unat_add_u32) (simp_all add: word_less_nat_alt)
    with 2 show ?thesis using b
      by (auto simp: q_size_def fq_count_def word_less_nat_alt mod_if)
  next
    case 3
    then show ?thesis using b by (simp add: q_size_def fq_count_def)
  qed
qed

lemma next_wr_cases:
  assumes "fq_inv Q"
  shows "next_wr (fq_q Q) =
    (if Suc (unat (fq_wr (fq_q Q))) mod unat (fq_sz (fq_q Q)) = unat (fq_rd (fq_q Q)) then None
     else Some (fq_wr (fq_q Q), (fq_q Q)\<lparr>fq_wr := (if fq_wr (fq_q Q) + 1 = fq_sz (fq_q Q) then 0 else fq_wr (fq_q Q) + 1)\<rparr>))"
proof -
  have "fq_wr (fq_q Q) < fq_sz (fq_q Q)" using assms by (simp add: fq_inv_def)
  note ix = unat_next_index [OF this]
  have "(if fq_wr (fq_q Q) + 1 = fq_sz (fq_q Q) then 0 else fq_wr (fq_q Q) + 1) = fq_rd (fq_q Q) \<longleftrightarrow>
      Suc (unat (fq_wr (fq_q Q))) mod unat (fq_sz (fq_q Q)) = unat (fq_rd (fq_q Q))"
    unfolding ix [symmetric] by (simp only: unat_inj)
  then show ?thesis by (simp only: next_wr_def Let_def) simp
qed

lemma next_rd_cases:
  assumes "fq_inv Q"
  shows "next_rd (fq_q Q) =
    (if unat (fq_rd (fq_q Q)) = unat (fq_wr (fq_q Q)) then None
     else Some (fq_rd (fq_q Q), (fq_q Q)\<lparr>fq_rd :=
            (if fq_rd (fq_q Q) + 1 = fq_sz (fq_q Q) then 0 else fq_rd (fq_q Q) + 1)\<rparr>))"
  by (simp add: next_rd_def Let_def)

lemma FQ_ENQ_room:
  assumes inv: "fq_inv Q" and room: "length (fq_contents Q) < fq_cap Q"
  shows "\<exists>Q'. FQ_ENQ x Q = Some (True, Q') \<and> fq_inv Q' \<and>
            fq_contents Q' = fq_contents Q @ [x] \<and> fq_cap Q' = fq_cap Q"
proof -
  let ?h = "fq_q Q"
  let ?r = "unat (fq_rd ?h)" and ?w = "unat (fq_wr ?h)" and ?L = "unat (fq_sz ?h)"
  let ?nw = "if fq_wr ?h + 1 = fq_sz ?h then 0 else fq_wr ?h + 1"
  note b = fq_inv_nat [OF inv]
  have wlt: "fq_wr ?h < fq_sz ?h" using inv by (simp add: fq_inv_def)
  have nf: "Suc ?w mod ?L \<noteq> ?r"
    using room occ_full [OF b(1,2)] by (simp add: fq_contents_def fq_count_def fq_cap_def)
  define Q' where "Q' = \<lparr>fq_q = ?h\<lparr>fq_wr := ?nw\<rparr>, fq_elem = (fq_elem Q)[?w := x]\<rparr>"
  have enq: "FQ_ENQ x Q = Some (True, Q')"
    using nf b by (simp add: FQ_ENQ_def next_wr_cases [OF inv] Q'_def mem_simps)
  have inv': "fq_inv Q'"
    using inv next_index_less [OF wlt] by (simp add: Q'_def fq_inv_def)
  have cnt: "fq_count (fq_q Q') = Suc (fq_count ?h)"
    using occ_enq [OF b(1,2) nf] by (simp add: Q'_def fq_count_def unat_next_index [OF wlt])
  have ix: "(?r + fq_count ?h) mod length (fq_elem Q) = ?w"
    using occ_index [OF b(1,2)] b(3) by (simp add: fq_count_def)
  have "fq_contents Q' = fq_contents Q @ [x]"
    using ring_snoc [of "fq_count ?h" "fq_elem Q" ?r x, unfolded ix] fq_count_less [OF inv] b(3) cnt
    by (simp add: fq_contents_def) (simp add: Q'_def)
  then show ?thesis
    using enq inv' by (simp add: Q'_def fq_cap_def)
qed

lemma FQ_ENQ_full:
  assumes inv: "fq_inv Q" and full: "length (fq_contents Q) = fq_cap Q"
  shows "FQ_ENQ x Q = Some (False, Q)"
  using full occ_full [OF fq_inv_nat(1,2) [OF inv]]
  by (simp add: FQ_ENQ_def next_wr_cases [OF inv] fq_contents_def fq_count_def fq_cap_def)

lemma FQ_DEQ_some:
  assumes inv: "fq_inv Q" and ne: "fq_contents Q = x # xs"
  shows "\<exists>Q'. FQ_DEQ Q = Some (Some x, Q') \<and> fq_inv Q' \<and> fq_contents Q' = xs \<and> fq_cap Q' = fq_cap Q"
proof -
  let ?h = "fq_q Q"
  let ?r = "unat (fq_rd ?h)" and ?w = "unat (fq_wr ?h)" and ?L = "unat (fq_sz ?h)"
  let ?nr = "if fq_rd ?h + 1 = fq_sz ?h then 0 else fq_rd ?h + 1"
  note b = fq_inv_nat [OF inv]
  have rlt: "fq_rd ?h < fq_sz ?h" using inv by (simp add: fq_inv_def)
  have "fq_count ?h \<noteq> 0" using ne by (metis fq_contents_def list.distinct(1) ring_0)
  then have neq: "?r \<noteq> ?w" using occ_empty [OF b(1,2)] by (simp add: fq_count_def)
  define Q' where "Q' = Q\<lparr>fq_q := ?h\<lparr>fq_rd := ?nr\<rparr>\<rparr>"
  have inv': "fq_inv Q'"
    using inv next_index_less [OF rlt] by (simp add: Q'_def fq_inv_def)
  have cnt: "fq_count ?h = Suc (fq_count (fq_q Q'))"
    using occ_deq [OF b(1,2) neq] by (simp add: Q'_def fq_count_def unat_next_index [OF rlt])
  have "fq_contents Q = fq_elem Q ! ?r # fq_contents Q'"
    using b by (simp add: fq_contents_def cnt ring_Suc) (simp add: Q'_def unat_next_index [OF rlt])
  then have x: "fq_elem Q ! ?r = x" and xs: "fq_contents Q' = xs" using ne by simp_all
  have "FQ_DEQ Q = Some (Some x, Q')"
    using neq b x by (simp add: FQ_DEQ_def next_rd_cases [OF inv] Q'_def mem_simps)
  then show ?thesis
    using inv' xs by (simp add: Q'_def fq_cap_def)
qed

lemma FQ_DEQ_empty:
  assumes inv: "fq_inv Q" and e: "fq_contents Q = []"
  shows "FQ_DEQ Q = Some (None, Q)"
  using e occ_empty [OF fq_inv_nat(1,2) [OF inv]]
  by (simp add: FQ_DEQ_def next_rd_cases [OF inv] fq_contents_def fq_count_def)

interpretation fq: bounded_fifo FQ_ENQ FQ_DEQ fq_contents fq_cap fq_inv
proof unfold_locales
  fix Q :: "'a fq" assume "fq_inv Q"
  then show "length (fq_contents Q) \<le> fq_cap Q"
    using fq_count_less [of Q] by (simp add: fq_contents_def fq_cap_def)
qed (fact FQ_ENQ_room FQ_ENQ_full FQ_DEQ_some FQ_DEQ_empty)+

section \<open>Properties\<close>

lemma FQ_INIT_inv:
  assumes "0 < n" "length (fq_elem Q) = unat n"
  shows "fq_inv (FQ_INIT Q n) \<and> fq_contents (FQ_INIT Q n) = [] \<and> fq_cap (FQ_INIT Q n) = unat n - 1"
  using assms by (simp add: FQ_INIT_def fq_inv_def fq_contents_def fq_count_def fq_cap_def)

lemma fq_predicates:
  assumes "fq_inv Q"
  shows "unat (q_size (fq_q Q)) = length (fq_contents Q) \<and>
         (q_empty_p (fq_q Q) \<longleftrightarrow> fq_contents Q = []) \<and>
         (q_full_p (fq_q Q) \<longleftrightarrow> length (fq_contents Q) = fq_cap Q)"
proof -
  note b = fq_inv_nat [OF assms]
  have wlt: "fq_wr (fq_q Q) < fq_sz (fq_q Q)" using assms by (simp add: fq_inv_def)
  have "q_full_p (fq_q Q) \<longleftrightarrow>
      unat (if fq_wr (fq_q Q) + 1 = fq_sz (fq_q Q) then 0 else fq_wr (fq_q Q) + 1) = unat (fq_rd (fq_q Q))"
    by (simp only: unat_inj) (auto simp: q_full_p_def Let_def)
  also have "\<dots> \<longleftrightarrow> length (fq_contents Q) = fq_cap Q"
    using occ_full [OF b(1,2)] by (simp only: unat_next_index [OF wlt]) (simp add: fq_contents_def fq_count_def fq_cap_def)
  finally have full: "q_full_p (fq_q Q) \<longleftrightarrow> length (fq_contents Q) = fq_cap Q" .
  have "q_empty_p (fq_q Q) \<longleftrightarrow> fq_contents Q = []"
    using occ_empty [OF b(1,2)] by (auto simp: q_empty_p_def fq_contents_def fq_count_def)
  with full show ?thesis using q_size_count [OF assms] by (simp add: fq_contents_def)
qed

text \<open>
  C11: for any sequence of enqueues and dequeues on a freshly initialised queue of \<open>n\<close> slots, no access
  leaves the element array, every reply is the one of an abstract FIFO of capacity \<open>n - 1\<close>, and the
  elements delivered, followed by those still queued, are the accepted elements in order. Afterwards \<open>FQ_SIZE\<close> is the number of
  queued elements, \<open>FQ_EMPTY_P\<close> holds exactly when there is none and \<open>FQ_FULL_P\<close> exactly when \<open>n - 1\<close> are queued.
\<close>
theorem fq_run_is_bounded_fifo:
  assumes "0 < n" "length (fq_elem Q) = unat n"
  shows "\<exists>rs Q'. fifo_run FQ_ENQ FQ_DEQ ops (FQ_INIT Q n) = Some (rs, Q') \<and> fq_inv Q' \<and>
           spec_run (unat n - 1) ops [] = (rs, fq_contents Q') \<and>
           accepted ops rs = delivered rs @ fq_contents Q' \<and>
           unat (q_size (fq_q Q')) = length (fq_contents Q') \<and> (q_empty_p (fq_q Q') \<longleftrightarrow> fq_contents Q' = []) \<and>
           (q_full_p (fq_q Q') \<longleftrightarrow> length (fq_contents Q') = unat n - 1)"
proof -
  note init = FQ_INIT_inv [OF assms]
  then obtain rs Q' where r: "fifo_run FQ_ENQ FQ_DEQ ops (FQ_INIT Q n) = Some (rs, Q')" "fq_inv Q'"
      "spec_run (unat n - 1) ops [] = (rs, fq_contents Q')" "fq_cap Q' = unat n - 1"
    using fq.run_refines [of "FQ_INIT Q n" ops] by auto
  moreover have "accepted ops rs = delivered rs @ fq_contents Q'" using spec_run_fifo [OF r(3)] by simp
  ultimately show ?thesis using fq_predicates [OF r(2)] by auto
qed

theorem fq_run_is_bounded_fifo_witness:
  "\<exists>rs Q'. fifo_run FQ_ENQ FQ_DEQ [Enq 7, Deq, Deq]
       (FQ_INIT \<lparr>fq_q = \<lparr>fq_rd = 9, fq_wr = 4, fq_sz = 0\<rparr>, fq_elem = [0, 0, 0 :: nat]\<rparr> 3) = Some (rs, Q') \<and>
     fq_inv Q' \<and> spec_run (unat (3 :: u32) - 1) [Enq 7, Deq, Deq] [] = (rs, fq_contents Q') \<and>
     accepted [Enq 7, Deq, Deq] rs = delivered rs @ fq_contents Q'"
  using fq_run_is_bounded_fifo [of 3 "\<lparr>fq_q = \<lparr>fq_rd = 9, fq_wr = 4, fq_sz = 0\<rparr>, fq_elem = [0, 0, 0 :: nat]\<rparr>" "[Enq 7, Deq, Deq]"]
  by (simp only: length_Cons list.size fq.select_convs) auto

end
