(* ===== verification/SpscQueue.thy ===== *)
theory SpscQueue
  imports Fifo_Spec
begin

text \<open>
  The single-producer, single-consumer queue of \<open>inc/fast/spsc_bounded_queue.h\<close>. One thread enqueues and one dequeues; a step of
  a thread is one access to the shared memory (a load or store of \<open>rd\<close> or \<open>wr\<close>, or the access to the element array), and the steps of
  the two interleave freely (sequential consistency). The control points of \<open>SPSCQ_ENQ\<close> and \<open>SPSCQ_DEQ\<close>, with the
  macros' local variables, are the constructors of \<open>producer\<close> and \<open>consumer\<close>. \<open>uint_fast32_t\<close> has 64 bits (LP64 with glibc), \<open>sz\<close> has 32.
\<close>

record spscq =
  sp_rd :: u64
  sp_wr :: u64
  sp_sz :: u32

record 'a spsc =
  sp_q :: spscq
  sp_elem :: "'a list"

datatype 'a producer = P_rest | P_load 'a | P_check 'a u64 u64 | P_put 'a u64 u64 | P_publish 'a u64 | P_ret bool

datatype 'a consumer = C_rest | C_load | C_check u64 | C_get u64 | C_publish u64 'a | C_ret "'a option"

definition spscq_init :: "u64 \<Rightarrow> spscq" where
  "spscq_init n = \<lparr>sp_rd = 0, sp_wr = 0, sp_sz = ucast n\<rparr>"

definition SPSCQ_INIT :: "'a spsc \<Rightarrow> u64 \<Rightarrow> 'a spsc" where
  "SPSCQ_INIT Q n = Q\<lparr>sp_q := spscq_init n\<rparr>"

text \<open>\<open>NEWZA\<close> gives zeroed elements.\<close>

definition SPSCQ_DYN_INIT :: "'a \<Rightarrow> u64 \<Rightarrow> 'a spsc" where
  "SPSCQ_DYN_INIT zero n = \<lparr>sp_q = spscq_init n, sp_elem = replicate (unat n) zero\<rparr>"

definition SPSCQ_RESET :: "'a spsc \<Rightarrow> 'a spsc" where
  "SPSCQ_RESET Q = Q\<lparr>sp_q := (sp_q Q)\<lparr>sp_rd := 0, sp_wr := 0\<rparr>\<rparr>"

definition spscq_full_p :: "spscq \<Rightarrow> bool" where
  "spscq_full_p q = (let wr = 1 + sp_wr q; wr = (if wr = ucast (sp_sz q) then 0 else wr) in wr = sp_rd q)"

definition spscq_empty_p :: "spscq \<Rightarrow> bool" where
  "spscq_empty_p q = (let rd = sp_rd q in rd = sp_wr q)"

definition spscq_size :: "spscq \<Rightarrow> u32" where
  "spscq_size q =
    (let rd = sp_rd q; wr = sp_wr q;
         n = (if rd < wr then wr - rd else if wr < rd then ucast (sp_sz q) - rd + wr else 0)
     in ucast n)"

definition set_wr :: "u64 \<Rightarrow> 'a spsc \<Rightarrow> 'a spsc" where
  "set_wr v Q = Q\<lparr>sp_q := (sp_q Q)\<lparr>sp_wr := v\<rparr>\<rparr>"

definition set_rd :: "u64 \<Rightarrow> 'a spsc \<Rightarrow> 'a spsc" where
  "set_rd v Q = Q\<lparr>sp_q := (sp_q Q)\<lparr>sp_rd := v\<rparr>\<rparr>"

fun prod_step :: "'a producer \<Rightarrow> 'a spsc \<Rightarrow> ('a producer \<times> 'a spsc) option" where
  "prod_step (P_load e) Q =
    (let wr = sp_wr (sp_q Q); nwr = wr + 1; nwr = (if nwr = ucast (sp_sz (sp_q Q)) then 0 else nwr)
     in Some (P_check e wr nwr, Q))"
| "prod_step (P_check e wr nwr) Q = Some (if nwr \<noteq> sp_rd (sp_q Q) then P_put e wr nwr else P_ret False, Q)"
| "prod_step (P_put e wr nwr) Q = do { xs \<leftarrow> put_at (sp_elem Q) (unat wr) e; Some (P_publish e nwr, Q\<lparr>sp_elem := xs\<rparr>) }"
| "prod_step (P_publish e nwr) Q = Some (P_ret True, set_wr nwr Q)"
| "prod_step p Q = Some (p, Q)"

fun cons_step :: "'a consumer \<Rightarrow> 'a spsc \<Rightarrow> ('a consumer \<times> 'a spsc) option" where
  "cons_step C_load Q = Some (C_check (sp_rd (sp_q Q)), Q)"
| "cons_step (C_check rd) Q = Some (if rd \<noteq> sp_wr (sp_q Q) then C_get rd else C_ret None, Q)"
| "cons_step (C_get rd) Q =
    do { e \<leftarrow> get_at (sp_elem Q) (unat rd);
         let rd = rd + 1 in let rd = (if rd = ucast (sp_sz (sp_q Q)) then 0 else rd) in Some (C_publish rd e, Q) }"
| "cons_step (C_publish rd e) Q = Some (C_ret (Some e), set_rd rd Q)"
| "cons_step c Q = Some (c, Q)"

text \<open>An operation that is not interleaved: four steps of its thread.\<close>

definition SPSCQ_ENQ :: "'a \<Rightarrow> 'a spsc \<Rightarrow> (bool \<times> 'a spsc) option" where
  "SPSCQ_ENQ e Q =
    do { (p, Q) \<leftarrow> prod_step (P_load e) Q; (p, Q) \<leftarrow> prod_step p Q; (p, Q) \<leftarrow> prod_step p Q; (p, Q) \<leftarrow> prod_step p Q;
         Some (p = P_ret True, Q) }"

definition SPSCQ_DEQ :: "'a spsc \<Rightarrow> ('a option \<times> 'a spsc) option" where
  "SPSCQ_DEQ Q =
    do { (c, Q) \<leftarrow> cons_step C_load Q; (c, Q) \<leftarrow> cons_step c Q; (c, Q) \<leftarrow> cons_step c Q; (c, Q) \<leftarrow> cons_step c Q;
         Some (case c of C_ret r \<Rightarrow> r | _ \<Rightarrow> None, Q) }"

section \<open>The two threads together\<close>

record 'a spsys =
  sy_q :: "'a spsc"
  sy_p :: "'a producer"
  sy_c :: "'a consumer"

text \<open>What a scheduler may do: let a thread call its operation (which a thread that is inside one ignores) or take a step.\<close>

datatype 'a act = Call_enq 'a | Call_deq | Step_prod | Step_cons

fun p_resting :: "'a producer \<Rightarrow> bool" where
  "p_resting P_rest \<longleftrightarrow> True"
| "p_resting (P_ret b) \<longleftrightarrow> True"
| "p_resting p \<longleftrightarrow> False"

fun c_resting :: "'a consumer \<Rightarrow> bool" where
  "c_resting C_rest \<longleftrightarrow> True"
| "c_resting (C_ret b) \<longleftrightarrow> True"
| "c_resting p \<longleftrightarrow> False"

text \<open>The points at which the operations take effect, with the replies they will return.\<close>

fun p_event :: "'a producer \<Rightarrow> 'a producer \<Rightarrow> ('a fifo_op \<times> 'a fifo_reply) list" where
  "p_event (P_check e wr nwr) (P_ret b) = [(Enq e, if b then Accepted else Full)]"
| "p_event (P_publish e nwr) (P_ret b) = [(Enq e, if b then Accepted else Full)]"
| "p_event p p' = []"

fun c_event :: "'a consumer \<Rightarrow> 'a consumer \<Rightarrow> ('a fifo_op \<times> 'a fifo_reply) list" where
  "c_event (C_check rd) (C_ret r) = [(Deq, case r of None \<Rightarrow> Empty | Some v \<Rightarrow> Got v)]"
| "c_event (C_publish rd e) (C_ret r) = [(Deq, case r of None \<Rightarrow> Empty | Some v \<Rightarrow> Got v)]"
| "c_event p p' = []"

fun spsc_act :: "'a act \<Rightarrow> 'a spsys \<Rightarrow> (('a fifo_op \<times> 'a fifo_reply) list \<times> 'a spsys) option" where
  "spsc_act (Call_enq e) s = Some ([], if p_resting (sy_p s) then s\<lparr>sy_p := P_load e\<rparr> else s)"
| "spsc_act Call_deq s = Some ([], if c_resting (sy_c s) then s\<lparr>sy_c := C_load\<rparr> else s)"
| "spsc_act Step_prod s =
    do { (p, Q) \<leftarrow> prod_step (sy_p s) (sy_q s); Some (p_event (sy_p s) p, s\<lparr>sy_q := Q, sy_p := p\<rparr>) }"
| "spsc_act Step_cons s =
    do { (c, Q) \<leftarrow> cons_step (sy_c s) (sy_q s); Some (c_event (sy_c s) c, s\<lparr>sy_q := Q, sy_c := c\<rparr>) }"

fun spsc_exec :: "'a act list \<Rightarrow> 'a spsys \<Rightarrow> (('a fifo_op \<times> 'a fifo_reply) list \<times> 'a spsys) option" where
  "spsc_exec [] s = Some ([], s)"
| "spsc_exec (a # as) s = do { (ev, s) \<leftarrow> spsc_act a s; (evs, s) \<leftarrow> spsc_exec as s; Some (ev @ evs, s) }"

section \<open>Invariant\<close>

abbreviation (input) sp_len :: "'a spsc \<Rightarrow> nat" where
  "sp_len Q \<equiv> unat (sp_sz (sp_q Q))"

definition nxt :: "'a spsc \<Rightarrow> u64 \<Rightarrow> u64" where
  "nxt Q i = (if i + 1 = ucast (sp_sz (sp_q Q)) then 0 else i + 1)"

definition sp_inv :: "'a spsc \<Rightarrow> bool" where
  "sp_inv Q \<longleftrightarrow> length (sp_elem Q) = sp_len Q \<and> unat (sp_rd (sp_q Q)) < sp_len Q \<and> unat (sp_wr (sp_q Q)) < sp_len Q"

definition sp_count :: "'a spsc \<Rightarrow> nat" where
  "sp_count Q = (unat (sp_wr (sp_q Q)) + sp_len Q - unat (sp_rd (sp_q Q))) mod sp_len Q"

definition sp_contents :: "'a spsc \<Rightarrow> 'a list" where
  "sp_contents Q = ring (sp_elem Q) (unat (sp_rd (sp_q Q))) (sp_count Q)"

definition sp_cap :: "'a spsc \<Rightarrow> nat" where
  "sp_cap Q = sp_len Q - 1"

text \<open>What each thread may rely on at its control point, whatever the other does.\<close>

fun p_ok :: "'a spsc \<Rightarrow> 'a producer \<Rightarrow> bool" where
  "p_ok Q (P_check e w n) \<longleftrightarrow> w = sp_wr (sp_q Q) \<and> n = nxt Q w"
| "p_ok Q (P_put e w n) \<longleftrightarrow> w = sp_wr (sp_q Q) \<and> n = nxt Q w \<and> n \<noteq> sp_rd (sp_q Q)"
| "p_ok Q (P_publish e n) \<longleftrightarrow> n = nxt Q (sp_wr (sp_q Q)) \<and> n \<noteq> sp_rd (sp_q Q) \<and> sp_elem Q ! unat (sp_wr (sp_q Q)) = e"
| "p_ok Q p \<longleftrightarrow> True"

fun c_ok :: "'a spsc \<Rightarrow> 'a consumer \<Rightarrow> bool" where
  "c_ok Q (C_check r) \<longleftrightarrow> r = sp_rd (sp_q Q)"
| "c_ok Q (C_get r) \<longleftrightarrow> r = sp_rd (sp_q Q) \<and> r \<noteq> sp_wr (sp_q Q)"
| "c_ok Q (C_publish n v) \<longleftrightarrow> n = nxt Q (sp_rd (sp_q Q)) \<and> sp_rd (sp_q Q) \<noteq> sp_wr (sp_q Q) \<and> sp_elem Q ! unat (sp_rd (sp_q Q)) = v"
| "c_ok Q c \<longleftrightarrow> True"

lemma unat_nxt:
  assumes "unat i < sp_len Q"
  shows "unat (nxt Q i) = Suc (unat i) mod sp_len Q"
  using unat_next_index [of i "ucast (sp_sz (sp_q Q))"] assms by (simp add: nxt_def word_less_nat_alt)

lemma nxt_eq_iff: "unat i < sp_len Q \<Longrightarrow> nxt Q i = j \<longleftrightarrow> Suc (unat i) mod sp_len Q = unat j"
  by (metis unat_nxt unat_inj)

text \<open>The two stores that move an index act as the abstract queue does.\<close>

lemma publish_enq:
  assumes inv: "sp_inv Q" and n: "nxt Q (sp_wr (sp_q Q)) \<noteq> sp_rd (sp_q Q)" and e: "sp_elem Q ! unat (sp_wr (sp_q Q)) = e"
  defines "Q' \<equiv> set_wr (nxt Q (sp_wr (sp_q Q))) Q"
  shows "sp_inv Q' \<and> sp_contents Q' = sp_contents Q @ [e] \<and> sp_count Q < sp_cap Q"
proof -
  let ?r = "unat (sp_rd (sp_q Q))" and ?w = "unat (sp_wr (sp_q Q))"
  have b: "?r < sp_len Q" "?w < sp_len Q" "length (sp_elem Q) = sp_len Q" using inv by (auto simp: sp_inv_def)
  have nf: "Suc ?w mod sp_len Q \<noteq> ?r" using n nxt_eq_iff [OF b(2)] by simp
  have c: "sp_count Q' = Suc (sp_count Q)"
    using occ_enq [OF b(1,2) nf] by (simp add: Q'_def sp_count_def set_wr_def unat_nxt [OF b(2)])
  have ix: "(?r + sp_count Q) mod length (sp_elem Q) = ?w" using occ_index [OF b(1,2)] b(3) by (simp add: sp_count_def)
  have "ring (sp_elem Q) ?r (Suc (sp_count Q)) = ring (sp_elem Q) ?r (sp_count Q) @ [e]"
    by (simp add: ring_Suc_last ix e)
  then have "sp_contents Q' = sp_contents Q @ [e]" using c by (simp add: sp_contents_def) (simp add: Q'_def set_wr_def)
  moreover have "sp_inv Q'" using b unat_nxt [OF b(2)] by (simp add: sp_inv_def Q'_def set_wr_def)
  moreover have "sp_count Q < sp_len Q" using b by (simp add: sp_count_def)
  moreover have "sp_count Q \<noteq> sp_len Q - 1" using occ_full [OF b(1,2)] nf by (simp add: sp_count_def)
  ultimately show ?thesis by (simp add: sp_cap_def)
qed

lemma publish_deq:
  assumes inv: "sp_inv Q" and n: "sp_rd (sp_q Q) \<noteq> sp_wr (sp_q Q)"
  defines "Q' \<equiv> set_rd (nxt Q (sp_rd (sp_q Q))) Q"
  shows "sp_inv Q' \<and> sp_contents Q = sp_elem Q ! unat (sp_rd (sp_q Q)) # sp_contents Q'"
proof -
  let ?r = "unat (sp_rd (sp_q Q))" and ?w = "unat (sp_wr (sp_q Q))"
  have b: "?r < sp_len Q" "?w < sp_len Q" "length (sp_elem Q) = sp_len Q" using inv by (auto simp: sp_inv_def)
  have "?r \<noteq> ?w" using n by simp
  then have c: "sp_count Q = Suc (sp_count Q')"
    using occ_deq [OF b(1,2)] by (simp add: Q'_def sp_count_def set_rd_def unat_nxt [OF b(1)])
  have "sp_contents Q = sp_elem Q ! ?r # sp_contents Q'"
    using b by (simp add: sp_contents_def c ring_Suc) (simp add: Q'_def set_rd_def unat_nxt [OF b(1)])
  moreover have "sp_inv Q'" using b unat_nxt [OF b(1)] by (simp add: sp_inv_def Q'_def set_rd_def)
  ultimately show ?thesis by simp
qed

lemma spsc_full_iff:
  assumes "sp_inv Q"
  shows "nxt Q (sp_wr (sp_q Q)) = sp_rd (sp_q Q) \<longleftrightarrow> sp_count Q = sp_cap Q"
  using assms occ_full [of "unat (sp_rd (sp_q Q))" "sp_len Q" "unat (sp_wr (sp_q Q))"] nxt_eq_iff [of "sp_wr (sp_q Q)" Q]
  by (simp add: sp_inv_def sp_count_def sp_cap_def)

lemma spsc_empty_iff:
  assumes "sp_inv Q"
  shows "sp_rd (sp_q Q) = sp_wr (sp_q Q) \<longleftrightarrow> sp_contents Q = []"
  using assms occ_empty [of "unat (sp_rd (sp_q Q))" "sp_len Q" "unat (sp_wr (sp_q Q))"]
  by (simp add: sp_inv_def sp_count_def sp_contents_def)

lemma put_keeps:
  assumes inv: "sp_inv Q"
  shows "sp_contents (Q\<lparr>sp_elem := (sp_elem Q)[unat (sp_wr (sp_q Q)) := e]\<rparr>) = sp_contents Q"
proof -
  have b: "unat (sp_rd (sp_q Q)) < sp_len Q" "unat (sp_wr (sp_q Q)) < sp_len Q" "length (sp_elem Q) = sp_len Q"
    using inv by (auto simp: sp_inv_def)
  have ix: "(unat (sp_rd (sp_q Q)) + sp_count Q) mod length (sp_elem Q) = unat (sp_wr (sp_q Q))"
    using occ_index [OF b(1,2)] b(3) by (simp add: sp_count_def)
  have "sp_count Q < length (sp_elem Q)" using b by (simp add: sp_count_def)
  from ring_cong_outside [OF this, of "unat (sp_rd (sp_q Q))" e] show ?thesis
    by (simp add: ix) (simp add: sp_contents_def sp_count_def)
qed

lemma prod_step_ok:
  assumes inv: "sp_inv Q" and p: "p_ok Q p" and c: "c_ok Q c"
  shows "\<exists>p' Q'. prod_step p Q = Some (p', Q') \<and> sp_inv Q' \<and> p_ok Q' p' \<and> c_ok Q' c \<and> sp_cap Q' = sp_cap Q \<and>
    spec_run (sp_cap Q) (map fst (p_event p p')) (sp_contents Q) = (map snd (p_event p p'), sp_contents Q')"
proof (cases p)
  case (P_load e)
  then show ?thesis using inv c by (auto simp: nxt_def Let_def)
next
  case (P_check e w n)
  show ?thesis
  proof (cases "n = sp_rd (sp_q Q)")
    case True
    then have "length (sp_contents Q) = sp_cap Q" using P_check p spsc_full_iff [OF inv] by (auto simp: sp_contents_def)
    then show ?thesis using P_check True inv c by simp
  next
    case False
    then show ?thesis using P_check inv c p by simp
  qed
next
  case (P_put e w n)
  define Q' where "Q' = Q\<lparr>sp_elem := (sp_elem Q)[unat (sp_wr (sp_q Q)) := e]\<rparr>"
  have w: "unat (sp_wr (sp_q Q)) < length (sp_elem Q)" using inv by (simp add: sp_inv_def)
  have "sp_inv Q'" "sp_cap Q' = sp_cap Q" "p_ok Q' (P_publish e n)" using inv P_put p w by (auto simp: Q'_def sp_inv_def sp_cap_def nxt_def)
  moreover have "c_ok Q' c" using c by (cases c) (auto simp: Q'_def nxt_def)
  moreover have "sp_contents Q' = sp_contents Q" using put_keeps [OF inv] by (simp add: Q'_def)
  moreover have "prod_step p Q = Some (P_publish e n, Q')" using P_put p w by (simp add: Q'_def mem_simps)
  ultimately show ?thesis using P_put by auto
next
  case (P_publish e n)
  define Q' where "Q' = set_wr n Q"
  have n: "n = nxt Q (sp_wr (sp_q Q))" "n \<noteq> sp_rd (sp_q Q)" "sp_elem Q ! unat (sp_wr (sp_q Q)) = e" using p P_publish by auto
  have "sp_inv Q' \<and> sp_contents Q' = sp_contents Q @ [e] \<and> sp_count Q < sp_cap Q"
    unfolding Q'_def n(1) by (rule publish_enq [OF inv _ n(3)]) (use n in simp)
  moreover have "c_ok Q' c" using c n(2) by (cases c) (auto simp: Q'_def set_wr_def nxt_def)
  moreover have "sp_cap Q' = sp_cap Q" by (simp add: Q'_def sp_cap_def set_wr_def)
  ultimately show ?thesis using P_publish by (simp add: Q'_def sp_contents_def)
qed (use inv c in auto)

lemma cons_step_ok:
  assumes inv: "sp_inv Q" and p: "p_ok Q p" and c: "c_ok Q c"
  shows "\<exists>c' Q'. cons_step c Q = Some (c', Q') \<and> sp_inv Q' \<and> p_ok Q' p \<and> c_ok Q' c' \<and> sp_cap Q' = sp_cap Q \<and>
    spec_run (sp_cap Q) (map fst (c_event c c')) (sp_contents Q) = (map snd (c_event c c'), sp_contents Q')"
proof (cases c)
  case (C_check r)
  then show ?thesis using c p inv spsc_empty_iff [OF inv] by (cases "r = sp_wr (sp_q Q)") auto
next
  case (C_get r)
  then have "unat r < length (sp_elem Q)" using inv c by (simp add: sp_inv_def)
  then show ?thesis using C_get c p inv by (auto simp: mem_simps nxt_def Let_def)
next
  case (C_publish n v)
  define Q' where "Q' = set_rd n Q"
  have n: "n = nxt Q (sp_rd (sp_q Q))" "sp_rd (sp_q Q) \<noteq> sp_wr (sp_q Q)" "sp_elem Q ! unat (sp_rd (sp_q Q)) = v" using c C_publish by auto
  have d: "sp_inv Q' \<and> sp_contents Q = v # sp_contents Q'"
    using publish_deq [OF inv n(2)] n by (simp add: Q'_def)
  have b: "unat (sp_rd (sp_q Q)) < sp_len Q" "unat (sp_wr (sp_q Q)) < sp_len Q" using inv by (auto simp: sp_inv_def)
  have "nxt Q (sp_wr (sp_q Q)) \<noteq> n"
  proof
    assume "nxt Q (sp_wr (sp_q Q)) = n"
    then have "(1 + unat (sp_wr (sp_q Q))) mod sp_len Q = (1 + unat (sp_rd (sp_q Q))) mod sp_len Q"
      using n(1) unat_nxt [OF b(1)] unat_nxt [OF b(2)] by simp
    from add_mod_inj [OF this b(2,1)] show False using n(2) by simp
  qed
  then have "p_ok Q' p" using p by (cases p) (auto simp: Q'_def set_rd_def nxt_def)
  moreover have "sp_cap Q' = sp_cap Q" by (simp add: Q'_def sp_cap_def set_rd_def)
  ultimately show ?thesis using C_publish d by (simp add: Q'_def)
qed (use inv p in auto)

definition sys_ok :: "'a spsys \<Rightarrow> bool" where
  "sys_ok s \<longleftrightarrow> sp_inv (sy_q s) \<and> p_ok (sy_q s) (sy_p s) \<and> c_ok (sy_q s) (sy_c s)"

lemma spsc_act_ok:
  assumes "sys_ok s"
  shows "\<exists>ev s'. spsc_act a s = Some (ev, s') \<and> sys_ok s' \<and> sp_cap (sy_q s') = sp_cap (sy_q s) \<and>
    spec_run (sp_cap (sy_q s)) (map fst ev) (sp_contents (sy_q s)) = (map snd ev, sp_contents (sy_q s'))"
proof (cases a)
  case Step_prod
  then show ?thesis using prod_step_ok [of "sy_q s" "sy_p s" "sy_c s"] assms by (auto simp: sys_ok_def)
next
  case Step_cons
  then show ?thesis using cons_step_ok [of "sy_q s" "sy_p s" "sy_c s"] assms by (auto simp: sys_ok_def)
qed (use assms in \<open>auto simp: sys_ok_def\<close>)

lemma spec_run_append:
  assumes "spec_run c xs q = (rs, q')" "spec_run c ys q' = (rs', q'')"
  shows "spec_run c (xs @ ys) q = (rs @ rs', q'')"
  using assms
proof (induction xs arbitrary: q rs)
  case (Cons x xs)
  obtain r q1 where 1: "spec_step c x q = (r, q1)" by fastforce
  obtain rs1 where 2: "spec_run c xs q1 = (rs1, q')" "rs = r # rs1" using Cons.prems(1) 1 by (cases "spec_run c xs q1") auto
  show ?case using Cons.IH [OF 2(1) Cons.prems(2)] 1 2(2) by simp
qed simp

lemma spsc_exec_ok:
  assumes "sys_ok s"
  shows "\<exists>evs s'. spsc_exec as s = Some (evs, s') \<and> sys_ok s' \<and> sp_cap (sy_q s') = sp_cap (sy_q s) \<and>
    spec_run (sp_cap (sy_q s)) (map fst evs) (sp_contents (sy_q s)) = (map snd evs, sp_contents (sy_q s'))"
  using assms
proof (induction as arbitrary: s)
  case (Cons a as)
  obtain ev s1 where 1: "spsc_act a s = Some (ev, s1)" "sys_ok s1" "sp_cap (sy_q s1) = sp_cap (sy_q s)"
    "spec_run (sp_cap (sy_q s)) (map fst ev) (sp_contents (sy_q s)) = (map snd ev, sp_contents (sy_q s1))"
    using spsc_act_ok [OF Cons.prems] by blast
  obtain evs s2 where 2: "spsc_exec as s1 = Some (evs, s2)" "sys_ok s2" "sp_cap (sy_q s2) = sp_cap (sy_q s1)"
    "spec_run (sp_cap (sy_q s1)) (map fst evs) (sp_contents (sy_q s1)) = (map snd evs, sp_contents (sy_q s2))"
    using Cons.IH [OF 1(2)] by blast
  show ?case using 1 2 spec_run_append [OF 1(4) 2(4) [unfolded 1(3)]] by simp
qed simp

section \<open>Uninterrupted operations\<close>

lemma SPSCQ_ENQ_eq:
  assumes inv: "sp_inv Q"
  shows "SPSCQ_ENQ e Q = (if sp_count Q = sp_cap Q then Some (False, Q)
    else Some (True, set_wr (nxt Q (sp_wr (sp_q Q))) (Q\<lparr>sp_elem := (sp_elem Q)[unat (sp_wr (sp_q Q)) := e]\<rparr>)))"
proof -
  have "unat (sp_wr (sp_q Q)) < length (sp_elem Q)" using inv by (simp add: sp_inv_def)
  then show ?thesis
    using spsc_full_iff [OF inv] by (auto simp: SPSCQ_ENQ_def Let_def mem_simps simp flip: nxt_def)
qed

lemma SPSCQ_DEQ_eq:
  assumes inv: "sp_inv Q"
  shows "SPSCQ_DEQ Q = (if sp_contents Q = [] then Some (None, Q)
    else Some (Some (sp_elem Q ! unat (sp_rd (sp_q Q))), set_rd (nxt Q (sp_rd (sp_q Q))) Q))"
proof -
  have "unat (sp_rd (sp_q Q)) < length (sp_elem Q)" using inv by (simp add: sp_inv_def)
  then show ?thesis
    using spsc_empty_iff [OF inv] by (auto simp: SPSCQ_DEQ_def Let_def mem_simps simp flip: nxt_def)
qed

interpretation sp: bounded_fifo SPSCQ_ENQ SPSCQ_DEQ sp_contents sp_cap sp_inv
proof unfold_locales
  fix Q :: "'a spsc" and x y :: 'a and xs
  assume inv: "sp_inv Q"
  then have b: "unat (sp_wr (sp_q Q)) < length (sp_elem Q)" "sp_count Q \<le> sp_cap Q"
    by (auto simp: sp_inv_def sp_count_def sp_cap_def less_eq_Suc_le [symmetric] intro: Suc_leI) (metis Suc_pred less_Suc_eq_le mod_less_divisor not_gr0 less_nat_zero_code)
  then show "length (sp_contents Q) \<le> sp_cap Q" by (simp add: sp_contents_def)
  show "\<exists>Q'. SPSCQ_ENQ x Q = Some (True, Q') \<and> sp_inv Q' \<and> sp_contents Q' = sp_contents Q @ [x] \<and> sp_cap Q' = sp_cap Q"
    if room: "length (sp_contents Q) < sp_cap Q"
  proof -
    define Q1 where "Q1 = Q\<lparr>sp_elem := (sp_elem Q)[unat (sp_wr (sp_q Q)) := x]\<rparr>"
    have q1: "sp_inv Q1" "sp_q Q1 = sp_q Q" "sp_elem Q1 ! unat (sp_wr (sp_q Q1)) = x" "nxt Q1 = nxt Q"
      using inv b by (auto simp: Q1_def sp_inv_def nxt_def)
    have n: "sp_count Q \<noteq> sp_cap Q" using room by (simp add: sp_contents_def)
    then have "nxt Q1 (sp_wr (sp_q Q1)) \<noteq> sp_rd (sp_q Q1)" using spsc_full_iff [OF inv] q1 by simp
    from publish_enq [OF q1(1) this q1(3)] show ?thesis
      using n put_keeps [OF inv, of x] SPSCQ_ENQ_eq [OF inv, of x]
      by (simp add: q1(2,4) flip: Q1_def) (simp add: sp_cap_def set_wr_def Q1_def)
  qed
  show "SPSCQ_ENQ x Q = Some (False, Q)" if "length (sp_contents Q) = sp_cap Q"
    using that SPSCQ_ENQ_eq [OF inv] by (simp add: sp_contents_def)
  show "\<exists>Q'. SPSCQ_DEQ Q = Some (Some y, Q') \<and> sp_inv Q' \<and> sp_contents Q' = xs \<and> sp_cap Q' = sp_cap Q"
    if ne: "sp_contents Q = y # xs"
    using publish_deq [OF inv] ne SPSCQ_DEQ_eq [OF inv] spsc_empty_iff [OF inv] by (simp add: sp_cap_def set_rd_def)
  show "SPSCQ_DEQ Q = Some (None, Q)" if "sp_contents Q = []" using that SPSCQ_DEQ_eq [OF inv] by simp
qed

section \<open>Properties\<close>

lemma spscq_size_count:
  assumes "sp_inv Q"
  shows "unat (spscq_size (sp_q Q)) = sp_count Q"
proof -
  define r w L where "r = sp_rd (sp_q Q)" "w = sp_wr (sp_q Q)" "L = (ucast (sp_sz (sp_q Q)) :: u64)"
  define n where "n = (if r < w then w - r else if w < r then L - r + w else 0)"
  have b: "unat r < unat L" "unat w < unat L" "unat L = sp_len Q" using assms by (auto simp: sp_inv_def r_w_L_def)
  have L: "unat L < 2 ^ 32" using b(3) unat_u32_less [of "sp_sz (sp_q Q)"] by simp
  have "unat n = (unat w + unat L - unat r) mod unat L"
  proof (cases "w < r")
    case True
    then have wr: "unat w < unat r" by (simp add: word_less_nat_alt)
    have "r \<le> L" using b(1) by (simp add: word_le_nat_alt)
    then have d: "unat (L - r) = unat L - unat r" by (rule unat_sub)
    have "unat (L - r) + unat w < 2 ^ 64" using d L wr b(1) by simp
    then have "unat (L - r + w) = unat L - unat r + unat w" unfolding d [symmetric] unat_word_ariths by simp
    moreover have "unat L - unat r + unat w = unat w + unat L - unat r" "unat w + unat L - unat r < unat L" using wr b(1) by linarith+
    moreover have "n = L - r + w" using True by (auto simp: n_def)
    ultimately show ?thesis by simp
  next
    case False
    then have le: "r \<le> w" by simp
    then have "n = w - r" by (auto simp: n_def)
    then have "unat n = unat w - unat r" using unat_sub [OF le] by simp
    moreover have e: "unat w + unat L - unat r = (unat w - unat r) + unat L" using le unfolding word_le_nat_alt by linarith
    have "(unat w + unat L - unat r) mod unat L = unat w - unat r" unfolding e using b(2) by simp
    ultimately show ?thesis by (simp only:)
  qed
  then have n: "unat n = sp_count Q" using b(3) by (simp add: sp_count_def r_w_L_def)
  moreover have "sp_count Q < unat L" unfolding sp_count_def b(3) [symmetric] using b(1) by (intro mod_less_divisor) linarith
  ultimately have "unat n < 2 ^ 32" using L by linarith
  then have "unat (ucast n :: u32) = unat n" by (simp add: unsigned_ucast_eq take_bit_nat_eq_self_iff)
  moreover have "spscq_size (sp_q Q) = ucast n" unfolding spscq_size_def Let_def n_def r_w_L_def ..
  ultimately show ?thesis using n by simp
qed

lemma SPSCQ_INIT_ok:
  assumes "0 < unat n" "unat n < 2 ^ 32" "length (sp_elem Q) = unat n"
  shows "sp_inv (SPSCQ_INIT Q n)" "sp_contents (SPSCQ_INIT Q n) = []" "sp_cap (SPSCQ_INIT Q n) = unat n - 1"
proof -
  have "unat (ucast n :: u32) = unat n" using assms(2) by (simp add: unsigned_ucast_eq take_bit_nat_eq_self_iff)
  then show "sp_inv (SPSCQ_INIT Q n)" "sp_contents (SPSCQ_INIT Q n) = []" "sp_cap (SPSCQ_INIT Q n) = unat n - 1"
    using assms by (simp_all add: SPSCQ_INIT_def spscq_init_def sp_inv_def sp_contents_def sp_count_def sp_cap_def)
qed

text \<open>
  C8: Linearizability. For every schedule of one producer and one consumer on a fresh queue of \<open>n\<close> slots, no access leaves the
  element array, the producer never writes the slot that the consumer reads, and the replies, taken in the order of the steps at which
  the operations take effect, are those of an abstract FIFO of capacity \<open>n - 1\<close>: nothing is lost, duplicated or
  reordered, an enqueue fails only on a full and a dequeue only on an empty queue. Between any two steps \<open>SPSCQ_SIZE\<close>, \<open>SPSCQ_FULL_P\<close> and
  \<open>SPSCQ_EMPTY_P\<close> describe the abstract queue.
\<close>

theorem spsc_linearizable:
  assumes "0 < unat n" "unat n < 2 ^ 32" "length (sp_elem Q) = unat n"
  shows "\<exists>evs s. spsc_exec acts \<lparr>sy_q = SPSCQ_INIT Q n, sy_p = P_rest, sy_c = C_rest\<rparr> = Some (evs, s) \<and>
    spec_run (unat n - 1) (map fst evs) [] = (map snd evs, sp_contents (sy_q s)) \<and>
    accepted (map fst evs) (map snd evs) = delivered (map snd evs) @ sp_contents (sy_q s) \<and>
    (\<forall>e w w' r. sy_p s = P_put e w w' \<longrightarrow> sy_c s = C_get r \<longrightarrow> w \<noteq> r) \<and>
    unat (spscq_size (sp_q (sy_q s))) = length (sp_contents (sy_q s)) \<and>
    (spscq_empty_p (sp_q (sy_q s)) \<longleftrightarrow> sp_contents (sy_q s) = []) \<and>
    (spscq_full_p (sp_q (sy_q s)) \<longleftrightarrow> length (sp_contents (sy_q s)) = unat n - 1)"
proof -
  define s0 where "s0 = \<lparr>sy_q = SPSCQ_INIT Q n, sy_p = P_rest, sy_c = C_rest\<rparr>"
  have s0: "sys_ok s0" "sp_cap (sy_q s0) = unat n - 1" "sp_contents (sy_q s0) = []"
    using SPSCQ_INIT_ok [OF assms] by (auto simp: s0_def sys_ok_def)
  obtain evs s where s: "spsc_exec acts s0 = Some (evs, s)" "sys_ok s" "sp_cap (sy_q s) = unat n - 1"
    "spec_run (unat n - 1) (map fst evs) [] = (map snd evs, sp_contents (sy_q s))"
    using spsc_exec_ok [OF s0(1), of acts] unfolding s0(2,3) by blast
  have inv: "sp_inv (sy_q s)" using s(2) by (simp add: sys_ok_def)
  have "spscq_full_p (sp_q (sy_q s)) \<longleftrightarrow> length (sp_contents (sy_q s)) = unat n - 1"
    using spsc_full_iff [OF inv] s(3) by (simp add: spscq_full_p_def sp_contents_def nxt_def Let_def add.commute [of 1])
  moreover have "spscq_empty_p (sp_q (sy_q s)) \<longleftrightarrow> sp_contents (sy_q s) = []"
    using spsc_empty_iff [OF inv] by (simp add: spscq_empty_p_def Let_def)
  moreover have "unat (spscq_size (sp_q (sy_q s))) = length (sp_contents (sy_q s))"
    using spscq_size_count [OF inv] by (simp add: sp_contents_def)
  moreover have "\<forall>e w w' r. sy_p s = P_put e w w' \<longrightarrow> sy_c s = C_get r \<longrightarrow> w \<noteq> r" using s(2) by (auto simp: sys_ok_def)
  moreover have "accepted (map fst evs) (map snd evs) = delivered (map snd evs) @ sp_contents (sy_q s)"
    using spec_run_fifo [OF s(4)] by simp
  ultimately show ?thesis using s(1,4) unfolding s0_def by blast
qed

theorem spsc_linearizable_witness:
  "\<exists>evs s. spsc_exec [Call_enq 7, Call_deq, Step_prod, Step_cons, Step_prod, Step_cons, Step_prod, Step_prod]
       \<lparr>sy_q = SPSCQ_INIT \<lparr>sp_q = \<lparr>sp_rd = 5, sp_wr = 6, sp_sz = 0\<rparr>, sp_elem = [0, 0, 0 :: nat]\<rparr> 3, sy_p = P_rest, sy_c = C_rest\<rparr> = Some (evs, s) \<and>
     accepted (map fst evs) (map snd evs) = delivered (map snd evs) @ sp_contents (sy_q s)"
proof -
  have "length (sp_elem \<lparr>sp_q = \<lparr>sp_rd = 5, sp_wr = 6, sp_sz = 0\<rparr>, sp_elem = [0, 0, 0 :: nat]\<rparr>) = unat (3 :: u64)" by simp
  then obtain evs s where "spsc_exec [Call_enq 7, Call_deq, Step_prod, Step_cons, Step_prod, Step_cons, Step_prod, Step_prod]
       \<lparr>sy_q = SPSCQ_INIT \<lparr>sp_q = \<lparr>sp_rd = 5, sp_wr = 6, sp_sz = 0\<rparr>, sp_elem = [0, 0, 0 :: nat]\<rparr> 3, sy_p = P_rest, sy_c = C_rest\<rparr> = Some (evs, s)"
      "accepted (map fst evs) (map snd evs) = delivered (map snd evs) @ sp_contents (sy_q s)"
    using spsc_linearizable [of 3 "\<lparr>sp_q = \<lparr>sp_rd = 5, sp_wr = 6, sp_sz = 0\<rparr>, sp_elem = [0, 0, 0 :: nat]\<rparr>"
        "[Call_enq 7, Call_deq, Step_prod, Step_cons, Step_prod, Step_cons, Step_prod, Step_prod]"] by simp blast
  then show ?thesis by blast
qed

end
