(* ===== verification/Encdec.thy ===== *)
theory Encdec
  imports Prelude
begin

text \<open>
  The fixed-width encoders and decoders of \<open>inc/fast/encdec.h\<close>. A \<open>uint8_t *buf\<close> that walks over a
  buffer is a \<open>cursor\<close>: the bytes of the object and the current offset; \<open>*buf++ = v\<close> is \<open>put_byte\<close>,
  which faults when the offset is outside the object. A decoder reads at an offset of a byte list.
\<close>

record cursor =
  cu_mem :: "u8 list"
  cu_pos :: nat

definition put_byte :: "u8 \<Rightarrow> cursor \<Rightarrow> cursor option" where
  "put_byte v c = do { m \<leftarrow> put_at (cu_mem c) (cu_pos c) v; Some (c\<lparr>cu_mem := m, cu_pos := Suc (cu_pos c)\<rparr>) }"

section \<open>Encoders\<close>

definition enc_LE_u16 :: "cursor \<Rightarrow> u16 \<Rightarrow> cursor option" where
  "enc_LE_u16 buf v = do {
     buf \<leftarrow> put_byte (ucast (0xff AND v)) buf;
     put_byte (ucast (0xff AND drop_bit 8 v)) buf }"

definition enc_BE_u16 :: "cursor \<Rightarrow> u16 \<Rightarrow> cursor option" where
  "enc_BE_u16 buf v = do {
     buf \<leftarrow> put_byte (ucast (0xff AND drop_bit 8 v)) buf;
     put_byte (ucast (0xff AND v)) buf }"

definition enc_LE_u32 :: "cursor \<Rightarrow> u32 \<Rightarrow> cursor option" where
  "enc_LE_u32 buf v = do {
     buf \<leftarrow> put_byte (ucast (0xff AND v)) buf;
     buf \<leftarrow> put_byte (ucast (0xff AND drop_bit 8 v)) buf;
     buf \<leftarrow> put_byte (ucast (0xff AND drop_bit 16 v)) buf;
     put_byte (ucast (0xff AND drop_bit 24 v)) buf }"

definition enc_BE_u32 :: "cursor \<Rightarrow> u32 \<Rightarrow> cursor option" where
  "enc_BE_u32 buf v = do {
     buf \<leftarrow> put_byte (ucast (0xff AND drop_bit 24 v)) buf;
     buf \<leftarrow> put_byte (ucast (0xff AND drop_bit 16 v)) buf;
     buf \<leftarrow> put_byte (ucast (0xff AND drop_bit 8 v)) buf;
     put_byte (ucast (0xff AND v)) buf }"

definition enc_LE_u64 :: "cursor \<Rightarrow> u64 \<Rightarrow> cursor option" where
  "enc_LE_u64 buf v = do {
     buf \<leftarrow> put_byte (ucast (0xff AND v)) buf;
     buf \<leftarrow> put_byte (ucast (0xff AND drop_bit 8 v)) buf;
     buf \<leftarrow> put_byte (ucast (0xff AND drop_bit 16 v)) buf;
     buf \<leftarrow> put_byte (ucast (0xff AND drop_bit 24 v)) buf;
     buf \<leftarrow> put_byte (ucast (0xff AND drop_bit 32 v)) buf;
     buf \<leftarrow> put_byte (ucast (0xff AND drop_bit 40 v)) buf;
     buf \<leftarrow> put_byte (ucast (0xff AND drop_bit 48 v)) buf;
     put_byte (ucast (0xff AND drop_bit 56 v)) buf }"

definition enc_BE_u64 :: "cursor \<Rightarrow> u64 \<Rightarrow> cursor option" where
  "enc_BE_u64 buf v = do {
     buf \<leftarrow> put_byte (ucast (0xff AND drop_bit 56 v)) buf;
     buf \<leftarrow> put_byte (ucast (0xff AND drop_bit 48 v)) buf;
     buf \<leftarrow> put_byte (ucast (0xff AND drop_bit 40 v)) buf;
     buf \<leftarrow> put_byte (ucast (0xff AND drop_bit 32 v)) buf;
     buf \<leftarrow> put_byte (ucast (0xff AND drop_bit 24 v)) buf;
     buf \<leftarrow> put_byte (ucast (0xff AND drop_bit 16 v)) buf;
     buf \<leftarrow> put_byte (ucast (0xff AND drop_bit 8 v)) buf;
     put_byte (ucast (0xff AND v)) buf }"

section \<open>Decoders\<close>

definition dec_LE_u16 :: "u8 list \<Rightarrow> nat \<Rightarrow> u16 option" where
  "dec_LE_u16 m p = do {
     b0 \<leftarrow> get_at m p; b1 \<leftarrow> get_at m (p + 1);
     Some (ucast b0 OR push_bit 8 (ucast b1)) }"

definition dec_BE_u16 :: "u8 list \<Rightarrow> nat \<Rightarrow> u16 option" where
  "dec_BE_u16 m p = do {
     b0 \<leftarrow> get_at m p; b1 \<leftarrow> get_at m (p + 1);
     Some (ucast b1 OR push_bit 8 (ucast b0)) }"

definition dec_LE_u32 :: "u8 list \<Rightarrow> nat \<Rightarrow> u32 option" where
  "dec_LE_u32 m p = do {
     b0 \<leftarrow> get_at m p; b1 \<leftarrow> get_at m (p + 1); b2 \<leftarrow> get_at m (p + 2); b3 \<leftarrow> get_at m (p + 3);
     Some (ucast b0 OR push_bit 8 (ucast b1) OR push_bit 16 (ucast b2) OR push_bit 24 (ucast b3)) }"

definition dec_BE_u32 :: "u8 list \<Rightarrow> nat \<Rightarrow> u32 option" where
  "dec_BE_u32 m p = do {
     b0 \<leftarrow> get_at m p; b1 \<leftarrow> get_at m (p + 1); b2 \<leftarrow> get_at m (p + 2); b3 \<leftarrow> get_at m (p + 3);
     Some (ucast b3 OR push_bit 8 (ucast b2) OR push_bit 16 (ucast b1) OR push_bit 24 (ucast b0)) }"

definition dec_LE_u64 :: "u8 list \<Rightarrow> nat \<Rightarrow> u64 option" where
  "dec_LE_u64 m p = do {
     b0 \<leftarrow> get_at m p; b1 \<leftarrow> get_at m (p + 1); b2 \<leftarrow> get_at m (p + 2); b3 \<leftarrow> get_at m (p + 3);
     b4 \<leftarrow> get_at m (p + 4); b5 \<leftarrow> get_at m (p + 5); b6 \<leftarrow> get_at m (p + 6); b7 \<leftarrow> get_at m (p + 7);
     Some (ucast b0 OR push_bit 8 (ucast b1) OR push_bit 16 (ucast b2) OR push_bit 24 (ucast b3)
       OR push_bit 32 (ucast b4) OR push_bit 40 (ucast b5) OR push_bit 48 (ucast b6)
       OR push_bit 56 (ucast b7)) }"

definition dec_BE_u64 :: "u8 list \<Rightarrow> nat \<Rightarrow> u64 option" where
  "dec_BE_u64 m p = do {
     b0 \<leftarrow> get_at m p; b1 \<leftarrow> get_at m (p + 1); b2 \<leftarrow> get_at m (p + 2); b3 \<leftarrow> get_at m (p + 3);
     b4 \<leftarrow> get_at m (p + 4); b5 \<leftarrow> get_at m (p + 5); b6 \<leftarrow> get_at m (p + 6); b7 \<leftarrow> get_at m (p + 7);
     Some (ucast b7 OR push_bit 8 (ucast b6) OR push_bit 16 (ucast b5) OR push_bit 24 (ucast b4)
       OR push_bit 32 (ucast b3) OR push_bit 40 (ucast b2) OR push_bit 48 (ucast b1)
       OR push_bit 56 (ucast b0)) }"

section \<open>What an encoder writes\<close>

text \<open>
  \<open>put_bytes bs\<close> is the effect of a run of \<open>*buf++ = b\<close>: it succeeds exactly when the bytes fit and
  then replaces the window at the cursor. Every encoder is such a run on a list of byte lanes.
\<close>

fun put_bytes :: "u8 list \<Rightarrow> cursor \<Rightarrow> cursor option" where
  "put_bytes [] c = Some c"
| "put_bytes (b # bs) c = do { c \<leftarrow> put_byte b c; put_bytes bs c }"

lemma put_bytes_Some:
  "put_bytes bs c =
     (if cu_pos c + length bs \<le> length (cu_mem c) \<or> bs = []
      then Some (c\<lparr>cu_mem := take (cu_pos c) (cu_mem c) @ bs @ drop (cu_pos c + length bs) (cu_mem c), cu_pos := cu_pos c + length bs\<rparr>)
      else None)"
proof (induction bs arbitrary: c)
  case Nil
  then show ?case by simp
next
  case (Cons b bs)
  show ?case
  proof (cases "cu_pos c < length (cu_mem c)")
    case True
    define c' where "c' = c\<lparr>cu_mem := (cu_mem c)[cu_pos c := b], cu_pos := Suc (cu_pos c)\<rparr>"
    have "put_bytes (b # bs) c = put_bytes bs c'"
      using True by (simp add: put_byte_def c'_def mem_simps)
    moreover have "take (Suc (cu_pos c)) ((cu_mem c)[cu_pos c := b]) = take (cu_pos c) (cu_mem c) @ [b]"
      using True by (simp add: take_Suc_conv_app_nth)
    ultimately show ?thesis
      using True Cons.IH [of c'] by (auto simp: c'_def Suc_leI)
  next
    case False
    then show ?thesis by (simp add: put_byte_def put_at_def)
  qed
qed

lemma put_bytes_fits:
  "cu_pos c + length bs \<le> length (cu_mem c) \<Longrightarrow>
   put_bytes bs c = Some (c\<lparr>cu_mem := take (cu_pos c) (cu_mem c) @ bs @ drop (cu_pos c + length bs) (cu_mem c),
                             cu_pos := cu_pos c + length bs\<rparr>)"
  by (simp add: put_bytes_Some)

lemma put_bytes_append:
  "put_bytes (as @ bs) c = do { c \<leftarrow> put_bytes as c; put_bytes bs c }"
  by (induction as arbitrary: c) (auto split: bind_splits)

lemma put_bytes_eta: "put_bytes [b] = put_byte b"
  "put_bytes (b # c # cs) = (\<lambda>m. put_byte b m \<bind> put_bytes (c # cs))"
proof -
  have "put_bytes [] = Some" by (simp add: fun_eq_iff)
  then show "put_bytes [b] = put_byte b" by (intro ext) simp
qed (simp add: fun_eq_iff)

section \<open>The contract of an encoder/decoder pair\<close>

text \<open>The loops over arrays of \<open>src/pack.c\<close> run an encoder or a decoder element by element.\<close>

fun enc_all :: "(cursor \<Rightarrow> 'v \<Rightarrow> cursor option) \<Rightarrow> 'v list \<Rightarrow> cursor \<Rightarrow> cursor option" where
  "enc_all enc [] c = Some c"
| "enc_all enc (v # vs) c = do { c \<leftarrow> enc c v; enc_all enc vs c }"

fun dec_all :: "(u8 list \<Rightarrow> nat \<Rightarrow> 'v option) \<Rightarrow> nat \<Rightarrow> nat \<Rightarrow> u8 list \<Rightarrow> nat \<Rightarrow> 'v list option" where
  "dec_all dec w 0 m p = Some []"
| "dec_all dec w (Suc n) m p = do { v \<leftarrow> dec m p; vs \<leftarrow> dec_all dec w n m (p + w); Some (v # vs) }"

locale codec =
  fixes enc :: "cursor \<Rightarrow> 'v \<Rightarrow> cursor option"
    and dec :: "u8 list \<Rightarrow> nat \<Rightarrow> 'v option"
    and width :: nat
    and lanes :: "'v \<Rightarrow> u8 list"
  assumes enc_lanes: "enc c v = put_bytes (lanes v) c"
    and length_lanes: "length (lanes v) = width"
    and dec_lanes: "dec (xs @ lanes v @ ys) (length xs) = Some v"
    and dec_fault: "length m < p + width \<Longrightarrow> dec m p = None"
begin

lemma enc_all_lanes: "enc_all enc vs = put_bytes (concat (map lanes vs))"
proof (induction vs)
  case (Cons v vs)
  have "enc_all enc (v # vs) = (\<lambda>c. put_bytes (lanes v) c \<bind> enc_all enc vs)"
    by (simp add: fun_eq_iff enc_lanes)
  then show ?case by (simp add: Cons.IH put_bytes_append fun_eq_iff)
qed (simp add: fun_eq_iff)

lemma length_all_lanes: "length (concat (map lanes vs)) = length vs * width"
  by (induction vs) (simp_all add: length_lanes)

lemma dec_all_lanes: "dec_all dec width (length vs) (xs @ concat (map lanes vs) @ ys) (length xs) = Some vs"
proof (induction vs arbitrary: xs)
  case (Cons v vs)
  have "dec (xs @ lanes v @ concat (map lanes vs) @ ys) (length xs) = Some v"
    by (rule dec_lanes)
  moreover have "dec_all dec width (length vs) (xs @ lanes v @ concat (map lanes vs) @ ys)
      (length xs + width) = Some vs"
    using Cons.IH [of "xs @ lanes v"] by (simp add: length_lanes)
  ultimately show ?case by simp
qed simp

lemma enc_all_fits:
  assumes "cu_pos c + length vs * width \<le> length (cu_mem c)"
  shows "enc_all enc vs c = Some (c\<lparr>cu_mem := take (cu_pos c) (cu_mem c) @ concat (map lanes vs) @
             drop (cu_pos c + length vs * width) (cu_mem c), cu_pos := cu_pos c + length vs * width\<rparr>)"
  using put_bytes_fits [of c "concat (map lanes vs)"] assms
  by (simp add: enc_all_lanes length_all_lanes)

lemma enc_all_fault:
  assumes "length (cu_mem c) < cu_pos c + length vs * width" "vs \<noteq> []" "0 < width"
  shows "enc_all enc vs c = None"
proof -
  have "concat (map lanes vs) \<noteq> []"
    using assms(2,3) length_all_lanes [of vs] by (metis length_0_conv mult_is_0 not_gr_zero)
  then show ?thesis
    using assms(1) by (auto simp: enc_all_lanes put_bytes_Some length_all_lanes)
qed

lemma roundtrip:
  assumes "cu_pos c + length vs * width \<le> length (cu_mem c)"
  shows "\<exists>c'. enc_all enc vs c = Some c' \<and> cu_pos c' = cu_pos c + length vs * width \<and>
           length (cu_mem c') = length (cu_mem c) \<and>
           take (cu_pos c) (cu_mem c') = take (cu_pos c) (cu_mem c) \<and>
           drop (cu_pos c') (cu_mem c') = drop (cu_pos c') (cu_mem c) \<and>
           dec_all dec width (length vs) (cu_mem c') (cu_pos c) = Some vs"
proof -
  let ?m = "take (cu_pos c) (cu_mem c) @ concat (map lanes vs) @ drop (cu_pos c + length vs * width) (cu_mem c)"
  have "cu_pos c \<le> length (cu_mem c)" using assms by linarith
  then have "dec_all dec width (length vs) ?m (cu_pos c) = Some vs"
    using dec_all_lanes [of vs "take (cu_pos c) (cu_mem c)"] by simp
  then show ?thesis
    using enc_all_fits [OF assms] assms \<open>cu_pos c \<le> length (cu_mem c)\<close>
    by (simp add: length_all_lanes)
qed

end

section \<open>The six codecs\<close>

definition le16 :: "u16 \<Rightarrow> u8 list" where
  "le16 v = map (\<lambda>i. ucast (drop_bit (8 * i) v)) [0..<2]"

definition le32 :: "u32 \<Rightarrow> u8 list" where
  "le32 v = map (\<lambda>i. ucast (drop_bit (8 * i) v)) [0..<4]"

definition le64 :: "u64 \<Rightarrow> u8 list" where
  "le64 v = map (\<lambda>i. ucast (drop_bit (8 * i) v)) [0..<8]"

lemma ucast_mask8: "(ucast (mask 8 AND x) :: u8) = ucast x"
  by (rule bit_word_eqI) (auto simp: bit_simps dest: bit_imp_le_length)

lemma ucast_lane [simp]:
  "(ucast (0xff AND x :: u16) :: u8) = ucast x" "(ucast (0xff AND y :: u32) :: u8) = ucast y"
  "(ucast (0xff AND z :: u64) :: u8) = ucast z"
  using ucast_mask8 [of x] ucast_mask8 [of y] ucast_mask8 [of z] by (simp_all add: mask_eq_exp_minus_1)

lemmas lanes_unfold = le16_def le32_def le64_def upt_rec [of _ "numeral _"]

text \<open>Joining one more byte lane extends the known low bits of a word by eight.\<close>

lemma lane_first: "(ucast (ucast v :: u8) :: 'a::len word) = take_bit 8 v"
  by (rule bit_word_eqI) (auto simp: bit_simps)

lemma lane_next:
  "take_bit n v OR push_bit n (take_bit 8 (drop_bit n v)) = take_bit (n + 8) (v :: 'a::len word)"
  by (rule bit_word_eqI) (auto simp: bit_simps)

lemma lane_full: "take_bit (LENGTH('a)) v = (v :: 'a::len word)"
  by (rule bit_word_eqI) (auto simp: bit_simps)

lemmas lane_joins = lane_first lane_next [of 8, simplified] lane_next [of 16, simplified]
  lane_next [of 24, simplified] lane_next [of 32, simplified] lane_next [of 40, simplified]
  lane_next [of 48, simplified] lane_next [of 56, simplified]

lemma join_le16: "ucast (ucast v :: u8) OR push_bit 8 (ucast (ucast (drop_bit 8 v) :: u8)) = (v :: u16)"
  using lane_full [of v] by (simp add: lane_joins)

lemma join_le32:
  "ucast (ucast v :: u8) OR push_bit 8 (ucast (ucast (drop_bit 8 v) :: u8))
     OR push_bit 16 (ucast (ucast (drop_bit 16 v) :: u8)) OR push_bit 24 (ucast (ucast (drop_bit 24 v) :: u8))
   = (v :: u32)"
  using lane_full [of v] by (simp add: lane_joins or.assoc [symmetric])

lemma join_le64:
  "ucast (ucast v :: u8) OR push_bit 8 (ucast (ucast (drop_bit 8 v) :: u8))
     OR push_bit 16 (ucast (ucast (drop_bit 16 v) :: u8)) OR push_bit 24 (ucast (ucast (drop_bit 24 v) :: u8))
     OR push_bit 32 (ucast (ucast (drop_bit 32 v) :: u8)) OR push_bit 40 (ucast (ucast (drop_bit 40 v) :: u8))
     OR push_bit 48 (ucast (ucast (drop_bit 48 v) :: u8)) OR push_bit 56 (ucast (ucast (drop_bit 56 v) :: u8))
   = (v :: u64)"
  using lane_full [of v] by (simp add: lane_joins or.assoc [symmetric])

lemmas join_lanes = join_le16 join_le32 join_le64

lemma get_at_after: "get_at (xs @ ys) (length xs) = get_at ys 0" "get_at (xs @ ys) (length xs + i) = get_at ys i"
  by (auto simp: get_at_def nth_append)

interpretation le16: codec enc_LE_u16 dec_LE_u16 2 le16
  by unfold_locales
     (auto simp: enc_LE_u16_def dec_LE_u16_def lanes_unfold put_bytes_eta get_at_after get_at_def nth_append join_lanes
       simp del: put_bytes.simps)

interpretation be16: codec enc_BE_u16 dec_BE_u16 2 "\<lambda>v. rev (le16 v)"
  by unfold_locales
     (auto simp: enc_BE_u16_def dec_BE_u16_def lanes_unfold put_bytes_eta get_at_after get_at_def nth_append join_lanes
       simp del: put_bytes.simps)

interpretation le32: codec enc_LE_u32 dec_LE_u32 4 le32
  by unfold_locales
     (auto simp: enc_LE_u32_def dec_LE_u32_def lanes_unfold put_bytes_eta get_at_after get_at_def nth_append join_lanes
       simp del: put_bytes.simps)

interpretation be32: codec enc_BE_u32 dec_BE_u32 4 "\<lambda>v. rev (le32 v)"
  by unfold_locales
     (auto simp: enc_BE_u32_def dec_BE_u32_def lanes_unfold put_bytes_eta get_at_after get_at_def nth_append join_lanes
       simp del: put_bytes.simps)

interpretation le64: codec enc_LE_u64 dec_LE_u64 8 le64
  by unfold_locales
     (auto simp: enc_LE_u64_def dec_LE_u64_def lanes_unfold put_bytes_eta get_at_after get_at_def nth_append join_lanes
       simp del: put_bytes.simps)

interpretation be64: codec enc_BE_u64 dec_BE_u64 8 "\<lambda>v. rev (le64 v)"
  by unfold_locales
     (auto simp: enc_BE_u64_def dec_BE_u64_def lanes_unfold put_bytes_eta get_at_after get_at_def nth_append join_lanes
       simp del: put_bytes.simps)

section \<open>Properties\<close>

text \<open>
  \<open>codec_roundtrip enc dec w vs c\<close>: encoding the values \<open>vs\<close> at the cursor \<open>c\<close> succeeds, advances the
  cursor by \<open>w\<close> bytes per value, changes no byte before or after that window, and decoding there gives
  \<open>vs\<close> back.
\<close>

definition codec_roundtrip ::
  "(cursor \<Rightarrow> 'v \<Rightarrow> cursor option) \<Rightarrow> (u8 list \<Rightarrow> nat \<Rightarrow> 'v option) \<Rightarrow> nat \<Rightarrow> 'v list \<Rightarrow> cursor \<Rightarrow> bool" where
  "codec_roundtrip enc dec w vs c \<longleftrightarrow>
     (\<exists>c'. enc_all enc vs c = Some c' \<and> cu_pos c' = cu_pos c + length vs * w \<and>
           length (cu_mem c') = length (cu_mem c) \<and>
           take (cu_pos c) (cu_mem c') = take (cu_pos c) (cu_mem c) \<and>
           drop (cu_pos c') (cu_mem c') = drop (cu_pos c') (cu_mem c) \<and>
           dec_all dec w (length vs) (cu_mem c') (cu_pos c) = Some vs)"

text \<open>
  Every encoder of \<open>encdec.h\<close> is inverted by its decoder, in both byte orders and for 16, 32 and 64
  bit values, on arrays of any length, and neither touches a byte outside the encoded window.
\<close>
theorem encdec_roundtrip:
  assumes "cu_pos c + 8 * n \<le> length (cu_mem c)"
    and "length v16 = n" "length v32 = n" "length v64 = n"
  shows "codec_roundtrip enc_LE_u16 dec_LE_u16 2 v16 c \<and> codec_roundtrip enc_BE_u16 dec_BE_u16 2 v16 c \<and>
         codec_roundtrip enc_LE_u32 dec_LE_u32 4 v32 c \<and> codec_roundtrip enc_BE_u32 dec_BE_u32 4 v32 c \<and>
         codec_roundtrip enc_LE_u64 dec_LE_u64 8 v64 c \<and> codec_roundtrip enc_BE_u64 dec_BE_u64 8 v64 c"
  unfolding codec_roundtrip_def using assms
  by (intro conjI le16.roundtrip be16.roundtrip le32.roundtrip be32.roundtrip le64.roundtrip be64.roundtrip) simp_all

theorem encdec_roundtrip_witness:
  "codec_roundtrip enc_BE_u32 dec_BE_u32 4 [0xdeadbeef] \<lparr>cu_mem = replicate 12 0, cu_pos = 2\<rparr> \<and>
   enc_BE_u32 \<lparr>cu_mem = [0, 0, 0, 0, 0, 0], cu_pos = 1\<rparr> 0xdeadbeef =
     Some \<lparr>cu_mem = [0, 0xde, 0xad, 0xbe, 0xef, 0], cu_pos = 5\<rparr>"
proof -
  have "codec_roundtrip enc_BE_u32 dec_BE_u32 4 [0xdeadbeef] \<lparr>cu_mem = replicate 12 0, cu_pos = 2\<rparr>"
    using encdec_roundtrip [of "\<lparr>cu_mem = replicate 12 0, cu_pos = 2\<rparr>" 1 "[7]" "[0xdeadbeef]" "[9]"] by simp
  moreover have "enc_BE_u32 \<lparr>cu_mem = [0, 0, 0, 0, 0, 0], cu_pos = 1\<rparr> 0xdeadbeef =
     Some \<lparr>cu_mem = [0, 0xde, 0xad, 0xbe, 0xef, 0], cu_pos = 5\<rparr>"
    by (simp add: enc_BE_u32_def put_byte_def put_at_def)
  ultimately show ?thesis by simp
qed

end
