(* ===== verification/Bits.thy ===== *)
theory Bits
  imports Prelude
begin

text \<open>
  The bit-twiddling macros of \<open>inc/utils/typeutils.h\<close> (\<open>NEXTPOW2\<close>, \<open>_ALIGN_UP\<close>) and the compiler
  builtin \<open>__builtin_ctz\<close>, with the facts the hash tables, filters and queues use.
\<close>

definition NEXTPOW2 :: "u64 \<Rightarrow> u64" where
  "NEXTPOW2 v = (let n = v - 1;
     n = n OR drop_bit 1 n;
     n = n OR drop_bit 2 n;
     n = n OR drop_bit 4 n;
     n = n OR drop_bit 8 n;
     n = n OR drop_bit 16 n;
     n = n OR drop_bit 32 n
     in n + 1)"

text \<open>On a \<open>uint32_t\<close> argument the macro casts its 64 bit result back with \<open>typeof(v)\<close>.\<close>

definition NEXTPOW2_u32 :: "u32 \<Rightarrow> u32" where
  "NEXTPOW2_u32 v = ucast (NEXTPOW2 (ucast v))"

definition ALIGN_UP :: "u64 \<Rightarrow> u64 \<Rightarrow> u64" where
  "ALIGN_UP v n = (let z = n - 1 in (v + z) AND NOT z)"

text \<open>\<open>__builtin_ctz\<close>: the index of the lowest set bit; the C builtin is undefined at 0.\<close>

definition ctz :: "'a::len word \<Rightarrow> nat" where
  "ctz p = length (takeWhile (\<lambda>i. \<not> bit p i) [0..<LENGTH('a)])"

section \<open>Smearing the top bit\<close>

definition smeared :: "nat \<Rightarrow> u64 \<Rightarrow> u64 \<Rightarrow> bool" where
  "smeared m x y \<longleftrightarrow> (\<forall>i. bit y i \<longleftrightarrow> (\<exists>d<m. bit x (i + d)))"

lemma smeared_1: "smeared 1 x x"
  by (simp add: smeared_def)

lemma smeared_double:
  assumes "smeared m x y"
  shows "smeared (2 * m) x (y OR drop_bit m y)"
  unfolding smeared_def
proof
  fix i
  have "bit (y OR drop_bit m y) i \<longleftrightarrow> bit y i \<or> bit y (i + m)"
    by (simp add: bit_simps add.commute)
  also have "\<dots> \<longleftrightarrow> (\<exists>d<m. bit x (i + d)) \<or> (\<exists>d<m. bit x (i + (m + d)))"
    using assms by (simp add: smeared_def add.assoc)
  also have "\<dots> \<longleftrightarrow> (\<exists>d<2 * m. bit x (i + d))"
  proof
    assume "(\<exists>d<m. bit x (i + d)) \<or> (\<exists>d<m. bit x (i + (m + d)))"
    then show "\<exists>d<2 * m. bit x (i + d)"
      by (metis add_less_cancel_left mult_2 trans_less_add1)
  next
    assume "\<exists>d<2 * m. bit x (i + d)"
    then obtain d where d: "d < 2 * m" "bit x (i + d)" by blast
    show "(\<exists>d<m. bit x (i + d)) \<or> (\<exists>d<m. bit x (i + (m + d)))"
    proof (cases "d < m")
      case False
      then have "d - m < m" "bit x (i + (m + (d - m)))" using d by auto
      then show ?thesis by blast
    qed (use d in blast)
  qed
  finally show "bit (y OR drop_bit m y) i \<longleftrightarrow> (\<exists>d<2 * m. bit x (i + d))" .
qed

lemma NEXTPOW2_smear: "\<exists>y. NEXTPOW2 v = y + 1 \<and> smeared 64 (v - 1) y"
proof -
  define n0 where "n0 = v - 1"
  define n1 where "n1 = n0 OR drop_bit 1 n0"
  define n2 where "n2 = n1 OR drop_bit 2 n1"
  define n3 where "n3 = n2 OR drop_bit 4 n2"
  define n4 where "n4 = n3 OR drop_bit 8 n3"
  define n5 where "n5 = n4 OR drop_bit 16 n4"
  define n6 where "n6 = n5 OR drop_bit 32 n5"
  note defs = n6_def n5_def n4_def n3_def n2_def n1_def n0_def
  have s1: "smeared 2 n0 n1" using smeared_double [OF smeared_1] by (simp add: n1_def)
  have s2: "smeared 4 n0 n2" using smeared_double [OF s1] by (simp add: n2_def)
  have s3: "smeared 8 n0 n3" using smeared_double [OF s2] by (simp add: n3_def)
  have s4: "smeared 16 n0 n4" using smeared_double [OF s3] by (simp add: n4_def)
  have s5: "smeared 32 n0 n5" using smeared_double [OF s4] by (simp add: n5_def)
  have s6: "smeared 64 n0 n6" using smeared_double [OF s5] by (simp add: n6_def)
  have "NEXTPOW2 v = n6 + 1" by (simp add: NEXTPOW2_def Let_def defs)
  with s6 show ?thesis by (auto simp: n0_def)
qed

text \<open>The smeared word is the mask up to the highest set bit.\<close>

definition bitlen :: "u64 \<Rightarrow> nat" where
  "bitlen x = (if x = 0 then 0 else Suc (Max {i. bit x i}))"

lemma finite_bits: "finite {i. bit (x :: 'a::len word) i}"
  by (rule finite_subset [of _ "{..<LENGTH('a)}"]) (auto dest: bit_imp_le_length)

lemma bitlen_top:
  assumes "x \<noteq> 0"
  shows "bit x (bitlen x - 1)" "bit x i \<Longrightarrow> i < bitlen x"
proof -
  have "{i. bit x i} \<noteq> {}" using assms by (auto simp: bit_eq_iff)
  then show "bit x (bitlen x - 1)"
    using Max_in [OF finite_bits [of x]] assms by (simp add: bitlen_def)
  show "i < bitlen x" if "bit x i"
    using Max_ge [OF finite_bits [of x]] that assms by (simp add: bitlen_def less_Suc_eq_le)
qed

lemma bitlen_bounds: "bitlen x \<le> 64" "unat x < 2 ^ bitlen x" "x \<noteq> 0 \<Longrightarrow> 2 ^ (bitlen x - 1) \<le> unat x"
proof -
  have *: "bit x i \<Longrightarrow> i < bitlen x" for i
    using bitlen_top(2) [of x i] by (cases "x = 0") auto
  show "bitlen x \<le> 64"
  proof (cases "x = 0")
    case False
    then show ?thesis
      using bit_imp_le_length [OF bitlen_top(1) [OF False]] by simp
  qed (simp add: bitlen_def)
  have "take_bit (bitlen x) x = x"
    by (rule bit_word_eqI) (use * in \<open>auto simp: bit_simps\<close>)
  then show "unat x < 2 ^ bitlen x"
    by (metis take_bit_nat_less_exp unsigned_take_bit_eq)
  show "2 ^ (bitlen x - 1) \<le> unat x" if "x \<noteq> 0"
  proof (rule ccontr)
    assume "\<not> 2 ^ (bitlen x - 1) \<le> unat x"
    then have "\<not> bit (unat x) (bitlen x - 1)" by (simp add: bit_iff_odd)
    then show False using bitlen_top(1) [OF that] by (simp add: bit_unsigned_iff)
  qed
qed

lemma smeared_64_mask:
  assumes "smeared 64 x y"
  shows "y = mask (bitlen x)"
proof (rule bit_word_eqI)
  fix i assume "i < LENGTH(64)"
  then have i: "i < 64" by simp
  show "bit y i = bit (mask (bitlen x) :: u64) i"
  proof (cases "x = 0")
    case True
    then show ?thesis using assms by (simp add: smeared_def bitlen_def)
  next
    case False
    have "bit y i \<longleftrightarrow> i < bitlen x"
    proof
      assume "bit y i"
      then obtain d where "bit x (i + d)" using assms by (auto simp: smeared_def)
      then show "i < bitlen x" using bitlen_top(2) [OF False] by fastforce
    next
      assume "i < bitlen x"
      then have "bit x (i + (bitlen x - 1 - i))" "bitlen x - 1 - i < 64"
        using bitlen_top(1) [OF False] bitlen_bounds(1) [of x] by auto
      then show "bit y i" using assms unfolding smeared_def by blast
    qed
    then show ?thesis using i by (simp add: bit_simps)
  qed
qed

lemma unat_exp_u64: "e < 64 \<Longrightarrow> unat (2 ^ e :: u64) = 2 ^ e"
proof -
  assume "e < 64"
  then have "(2 :: nat) ^ e < 2 ^ 64" by (intro power_strict_increasing) simp_all
  then show ?thesis
    using unat_of_nat [of "2 ^ e", where 'a = 64] by simp
qed

lemma NEXTPOW2_exp: "NEXTPOW2 v = 2 ^ bitlen (v - 1)"
proof -
  obtain y where "NEXTPOW2 v = y + 1" "smeared 64 (v - 1) y" using NEXTPOW2_smear by blast
  then show ?thesis using smeared_64_mask [of "v - 1" y] by (simp add: mask_eq_exp_minus_1)
qed

lemma unat_pred_u64: "1 \<le> unat (v :: u64) \<Longrightarrow> unat (v - 1) = unat v - 1"
  by (simp add: unat_sub word_le_nat_alt)

text \<open>Counting trailing zeros.\<close>

lemma ctz_props:
  fixes p :: "'a::len word"
  assumes "p \<noteq> 0"
  shows "bit p (ctz p)" "ctz p < LENGTH('a)"
proof -
  let ?P = "\<lambda>i. \<not> bit p i"
  obtain i where i: "bit p i" using assms by (auto simp: bit_eq_iff)
  then have "i < LENGTH('a)" by (rule bit_imp_le_length)
  then have ex: "\<exists>x\<in>set [0..<LENGTH('a)]. \<not> ?P x" using i by auto
  then have len: "length (takeWhile ?P [0..<LENGTH('a)]) < length [0..<LENGTH('a)]"
    by (metis length_takeWhile_le linorder_not_less order.not_eq_order_implies_strict
        takeWhile_eq_all_conv takeWhile_eq_take take_all)
  then show lt: "ctz p < LENGTH('a)" by (simp add: ctz_def)
  from nth_length_takeWhile [OF len] lt show "bit p (ctz p)" by (simp add: ctz_def)
qed

lemma ctz_least: "i < ctz p \<Longrightarrow> \<not> bit p i"
proof -
  assume i: "i < ctz p"
  let ?P = "\<lambda>i. \<not> bit p i" and ?xs = "[0..<LENGTH('a)]"
  have len: "i < length (takeWhile ?P ?xs)" using i by (simp add: ctz_def)
  then have "takeWhile ?P ?xs ! i = ?xs ! i" by (rule takeWhile_nth)
  moreover have "i < LENGTH('a)" using len length_takeWhile_le [of ?P ?xs] by simp
  ultimately show ?thesis using nth_mem [OF len] by (metis add_0 nth_upt set_takeWhileD)
qed

lemma clear_bit_less:
  fixes p :: "'a::len word"
  assumes "bit p j"
  shows "unat (p AND NOT (push_bit j 1)) < unat p"
proof -
  have j: "j < LENGTH('a)" using assms by (rule bit_imp_le_length)
  have "p AND NOT (push_bit j 1) \<le> p" by (rule word_and_le2)
  moreover have "p AND NOT (push_bit j 1) \<noteq> p"
  proof
    assume "p AND NOT (push_bit j 1) = p"
    then have "bit (p AND NOT (push_bit j 1)) j" using assms by simp
    then show False using j by (simp add: bit_simps)
  qed
  ultimately have "p AND NOT (push_bit j 1) < p" by (rule order.not_eq_order_implies_strict [rotated])
  then show ?thesis by (simp only: word_less_nat_alt)
qed

section \<open>Alignment\<close>

lemma and_not_mask: "w AND NOT (mask e) = push_bit e (drop_bit e w :: 'a::len word)"
  by (rule bit_word_eqI) (auto simp: bit_simps)

lemma unat_push_drop: "unat (push_bit e (drop_bit e w) :: u64) = unat w div 2 ^ e * 2 ^ e"
proof -
  have "unat w div 2 ^ e * 2 ^ e \<le> unat w" by (rule div_times_less_eq_dividend)
  then have "unat w div 2 ^ e * 2 ^ e < 2 ^ 64"
    using order_le_less_trans [OF _ unat_u64_less [of w]] by simp
  moreover have "unat (push_bit e (drop_bit e w) :: u64) = take_bit 64 (push_bit e (drop_bit e (unat w)))"
    using unat_u64_less [of w]
    by (simp only: unsigned_push_bit_eq unsigned_drop_bit_eq) (simp add: take_bit_nat_eq_self)
  ultimately show ?thesis
    by (simp only: push_bit_eq_mult drop_bit_eq_div take_bit_nat_eq_self)
qed

lemma ALIGN_UP_exp:
  assumes "e < 64" "unat v + (2 ^ e - 1) < 2 ^ 64"
  shows "unat (ALIGN_UP v (2 ^ e)) = (unat v + (2 ^ e - 1)) div 2 ^ e * 2 ^ e"
proof -
  have m: "(2 ^ e - 1 :: u64) = mask e" by (simp add: mask_eq_exp_minus_1)
  have um: "unat (mask e :: u64) = 2 ^ e - 1"
    using assms(1) unat_pred_u64 [of "2 ^ e"] by (simp add: m [symmetric] unat_exp_u64)
  have "unat (v + mask e) = unat v + (2 ^ e - 1)"
    using assms(2) um by (simp add: unat_word_ariths)
  then show ?thesis
    by (simp add: ALIGN_UP_def Let_def m and_not_mask unat_push_drop)
qed

lemma NEXTPOW2_char:
  assumes "1 \<le> unat v" "unat v \<le> 2 ^ 63"
  shows "unat (NEXTPOW2 v) = 2 ^ bitlen (v - 1) \<and> unat v \<le> 2 ^ bitlen (v - 1) \<and>
         (\<forall>e'. unat v \<le> 2 ^ e' \<longrightarrow> bitlen (v - 1) \<le> e')"
proof -
  let ?e = "bitlen (v - 1)"
  note b = bitlen_bounds [of "v - 1"]
  have pred: "unat (v - 1) = unat v - 1" using assms(1) by (rule unat_pred_u64)
  have least: "?e \<le> e'" if "unat v \<le> 2 ^ e'" for e'
  proof (cases "v - 1 = 0")
    case True
    then show ?thesis by (simp add: bitlen_def)
  next
    case False
    have "(2 :: nat) ^ (?e - 1) < 2 ^ e'"
      using b(3) [OF False] that pred assms(1) by linarith
    then show ?thesis by simp
  qed
  then have "?e \<le> 63" using assms(2) by blast
  then have "unat (NEXTPOW2 v) = 2 ^ ?e" by (simp add: NEXTPOW2_exp unat_exp_u64)
  moreover have "unat v \<le> 2 ^ ?e" using b(2) pred assms(1) by linarith
  ultimately show ?thesis using least by blast
qed

lemma NEXTPOW2_u32_range:
  assumes "1 \<le> unat v" "unat v \<le> 2 ^ 31"
  shows "1 \<le> unat (NEXTPOW2_u32 v)" "unat (NEXTPOW2_u32 v) \<le> 2 ^ 31" "unat v \<le> unat (NEXTPOW2_u32 v)"
proof -
  let ?w = "ucast v :: u64"
  have w: "unat ?w = unat v" by simp
  have c: "unat (NEXTPOW2 ?w) = 2 ^ bitlen (?w - 1)" "unat v \<le> 2 ^ bitlen (?w - 1)" "bitlen (?w - 1) \<le> 31"
    using NEXTPOW2_char [of ?w] assms w by (auto simp del: One_nat_def)
  then have "(2 :: nat) ^ bitlen (?w - 1) \<le> 2 ^ 31" by (intro power_increasing) simp_all
  moreover from this have "unat (NEXTPOW2_u32 v) = 2 ^ bitlen (?w - 1)"
    using c(1,3) by (simp add: NEXTPOW2_u32_def unsigned_ucast_eq take_bit_nat_eq_self)
  ultimately show "1 \<le> unat (NEXTPOW2_u32 v)" "unat (NEXTPOW2_u32 v) \<le> 2 ^ 31" "unat v \<le> unat (NEXTPOW2_u32 v)"
    using c(2) by simp_all
qed

section \<open>Properties\<close>

text \<open>
  For \<open>1 \<le> v \<le> 2^63\<close>, \<open>NEXTPOW2 v\<close> is the least power of two that is not below \<open>v\<close>.
\<close>
theorem NEXTPOW2_least:
  assumes "1 \<le> unat v" "unat v \<le> 2 ^ 63"
  shows "\<exists>e. unat (NEXTPOW2 v) = 2 ^ e \<and> unat v \<le> 2 ^ e \<and> (\<forall>e'. unat v \<le> 2 ^ e' \<longrightarrow> e \<le> e')"
  using NEXTPOW2_char [OF assms] by blast

theorem NEXTPOW2_least_witness:
  "\<exists>e. unat (NEXTPOW2 100) = 2 ^ e \<and> unat (100 :: u64) \<le> 2 ^ e \<and> (\<forall>e'. unat (100 :: u64) \<le> 2 ^ e' \<longrightarrow> e \<le> e')"
  by (rule NEXTPOW2_least) simp_all

text \<open>
  On a \<open>uint32_t\<close> above \<open>2^31\<close> the cast back to the argument's type loses the result: \<open>NEXTPOW2\<close> is 0.
\<close>
theorem NEXTPOW2_u32_overflow:
  assumes "2 ^ 31 < unat v"
  shows "NEXTPOW2_u32 v = 0"
proof -
  let ?x = "ucast v :: u64"
  have ux: "unat ?x = unat v" by (simp add: unsigned_ucast_eq take_bit_nat_eq_self_iff order_less_trans [OF unat_u32_less])
  let ?e = "bitlen (?x - 1)"
  note b = bitlen_bounds [of "?x - 1"]
  have pred: "unat (?x - 1) = unat v - 1" using assms ux by (simp add: unat_pred_u64)
  have "(2 :: nat) ^ 31 < 2 ^ ?e" using b(2) pred assms by linarith
  then have lo: "32 \<le> ?e" using power_less_imp_less_exp [of "2 :: nat" 31 ?e] by simp
  have "(ucast (2 ^ ?e :: u64) :: u32) = 0"
    using lo by (intro bit_word_eqI) (auto simp: bit_simps)
  then show ?thesis by (simp add: NEXTPOW2_u32_def NEXTPOW2_exp)
qed

theorem NEXTPOW2_u32_overflow_witness: "NEXTPOW2_u32 0x80000001 = 0"
  by (rule NEXTPOW2_u32_overflow) simp

end
