(* ===== verification/FastHT_Match.thy ===== *)
theory FastHT_Match
  imports Bits Encdec
begin

text \<open>
  The two implementations of \<open>__find_matches\<close> of \<open>src/hashtable/fast-ht.c\<close>, selected by the platform: the
  vector one (\<open>inc/fast/simd.h\<close>, intrinsics by their documented lane-wise meaning) and the bit-trick
  fallback. Both get seven 8 bit fingerprints in a word and return a bit mask of the slots that may
  match. The locale \<open>matcher\<close> is what the table relies on: no matching slot is missed.
\<close>

type_synonym matcher = "u64 \<Rightarrow> u8 \<Rightarrow> u8"

definition find_matches_swar :: matcher where
  "find_matches_swar fps h2 =
    (let splat = 0x0101010101010101 * ucast h2;
         m = fps XOR splat;
         x = ((m - 0x0101010101010101) AND NOT m) AND 0x8080808080808080
     in ucast (0x7f AND drop_bit 56 (x * 0x0002040810204081)))"

text \<open>128 bit vectors are lists of 16 bytes, least significant first.\<close>

definition SIMD_SET_EPI64X :: "u64 \<Rightarrow> u64 \<Rightarrow> u8 list" where
  "SIMD_SET_EPI64X hi lo = le64 lo @ le64 hi"

definition SIMD_SET1_EPI8 :: "u8 \<Rightarrow> u8 list" where
  "SIMD_SET1_EPI8 b = replicate 16 b"

definition SIMD_CMPEQ_EPI8 :: "u8 list \<Rightarrow> u8 list \<Rightarrow> u8 list" where
  "SIMD_CMPEQ_EPI8 a b = map2 (\<lambda>x y. if x = y then 0xff else 0) a b"

definition SIMD_MOVEMASK_EPI8 :: "u8 list \<Rightarrow> u32" where
  "SIMD_MOVEMASK_EPI8 v = horner_sum of_bool 2 (map (\<lambda>x. bit x 7) v)"

definition find_matches_simd :: matcher where
  "find_matches_simd fps h2 =
    (let h2v = SIMD_SET_EPI64X 0 fps;
         qv = SIMD_SET1_EPI8 h2
     in ucast (0x7f AND SIMD_MOVEMASK_EPI8 (SIMD_CMPEQ_EPI8 h2v qv)))"

section \<open>The vector matcher is exact\<close>

lemma simd_hit:
  assumes j: "j < 7"
  shows "bit (find_matches_simd fps h2) j \<longleftrightarrow> ucast (drop_bit (8 * j) fps) = h2"
proof -
  have "bit (0x7f :: u32) j" using j by (auto simp: less_Suc_eq numeral_eq_Suc)
  then show ?thesis
    using j unfolding find_matches_simd_def Let_def SIMD_SET_EPI64X_def SIMD_SET1_EPI8_def SIMD_CMPEQ_EPI8_def
      SIMD_MOVEMASK_EPI8_def
    by (auto simp: bit_simps bit_horner_sum_bit_word_iff le64_def nth_append split: if_splits)
qed

section \<open>The bit-trick matcher misses nothing\<close>

lemma borrow_bit:
  fixes m d :: u64
  assumes n: "n + 8 \<le> 64" and z: "take_bit (n + 8) m = take_bit n m"
    and lo: "2 ^ n \<le> uint d mod 2 ^ (n + 8)" and hi: "uint d mod 2 ^ (n + 8) \<le> 2 ^ (n + 7)"
  shows "bit (m - d) (n + 7)"
proof -
  define A where "A = uint m mod 2 ^ (n + 8)"
  define D where "D = uint d mod 2 ^ (n + 8)"
  have "uint (take_bit (n + 8) m) = uint (take_bit n m)" using z by simp
  then have "A = uint m mod 2 ^ n"
    by (simp only: unsigned_take_bit_eq) (simp add: A_def take_bit_eq_mod)
  then have A: "0 \<le> A" "A < 2 ^ n" by (simp_all add: A_def)
  have D: "2 ^ n \<le> D" "D \<le> 2 ^ (n + 7)" using lo hi by (simp_all add: D_def)
  have "uint (m - d) = (uint m - uint d) mod 2 ^ 64"
    by (simp add: uint_word_ariths)
  then have "uint (m - d) mod 2 ^ (n + 8) = (uint m - uint d) mod 2 ^ (n + 8)"
    using mod_mod_cancel [OF le_imp_power_dvd [OF n, of "2 :: int"], of "uint m - uint d"] by simp
  also have "\<dots> = (A - D) mod 2 ^ (n + 8)"
    by (simp add: A_def D_def mod_simps)
  also have "\<dots> = (A - D + 2 ^ (n + 8)) mod 2 ^ (n + 8)" by simp
  also have "\<dots> = A - D + 2 ^ (n + 8)"
    using A D by (intro mod_pos_pos_trivial) (simp_all add: power_add)
  finally have v: "uint (m - d) mod 2 ^ (n + 8) = A - D + 2 ^ (n + 8)" .
  have "bit (take_bit (n + 8) (uint (m - d))) (n + 7)"
  proof -
    have "(A - D + 2 ^ (n + 8)) div 2 ^ (n + 7) = 1"
      using A D by (intro div_pos_geq [THEN trans]) (simp_all add: power_add div_pos_pos_trivial)
    then show ?thesis by (simp add: bit_iff_odd take_bit_eq_mod v)
  qed
  then show ?thesis
    using n by (simp add: bit_take_bit_iff bit_unsigned_iff)
qed

lemma and_exp: "x AND 2 ^ n = of_bool (bit x n) * (2 ^ n :: 'a::len word)"
  by (rule bit_word_eqI) (auto simp: bit_simps)

lemma msb_lanes:
  fixes x :: u64
  shows "x AND 0x8080808080808080 =
     of_bool (bit x 7) * 0x80 OR of_bool (bit x 15) * 0x8000 OR of_bool (bit x 23) * 0x800000
     OR of_bool (bit x 31) * 0x80000000 OR of_bool (bit x 39) * 0x8000000000 OR of_bool (bit x 47) * 0x800000000000
     OR of_bool (bit x 55) * 0x80000000000000 OR of_bool (bit x 63) * 0x8000000000000000"
proof -
  have "(0x8080808080808080 :: u64) = 0x80 OR 0x8000 OR 0x800000 OR 0x80000000 OR 0x8000000000 OR 0x800000000000
      OR 0x80000000000000 OR 0x8000000000000000" by simp
  then show ?thesis
    using and_exp [of x 7] and_exp [of x 15] and_exp [of x 23] and_exp [of x 31] and_exp [of x 39]
      and_exp [of x 47] and_exp [of x 55] and_exp [of x 63]
    by (simp only: bit.conj_disj_distrib) simp
qed

lemma gather_mult:
  "0x7f AND drop_bit 56 ((of_bool b0 * 0x80 OR of_bool b1 * 0x8000 OR of_bool b2 * 0x800000
     OR of_bool b3 * 0x80000000 OR of_bool b4 * 0x8000000000 OR of_bool b5 * 0x800000000000
     OR of_bool b6 * 0x80000000000000 OR of_bool b7 * 0x8000000000000000) * 0x0002040810204081 :: u64) =
   of_bool b0 OR of_bool b1 * 2 OR of_bool b2 * 4 OR of_bool b3 * 8 OR of_bool b4 * 16 OR of_bool b5 * 32
     OR of_bool b6 * 64"
  by (cases b0; cases b1; cases b2; cases b3; cases b4; cases b5; cases b6; cases b7; simp)


lemma splat_div:
  fixes h :: int
  assumes C: "C = (K * 256 + 1) * P + B" and "0 \<le> h" "h < 256" "0 \<le> B" "B * 255 < P"
  shows "C * h div P mod 256 = h"
proof -
  have "B * h \<le> B * 255" using assms by (intro mult_left_mono) simp_all
  then have Bh: "0 \<le> B * h" "B * h < P" using assms by (simp_all add: order_le_less_trans)
  have P: "0 < P" using Bh by linarith
  have "((K * 256 + 1) * P + B) * h = B * h + (K * 256 * h + h) * P"
    by (simp add: algebra_simps)
  then have "((K * 256 + 1) * P + B) * h div P = B * h div P + (K * 256 * h + h)"
    using P by simp
  also have "B * h div P = 0" using Bh by (rule div_pos_pos_trivial)
  finally have "((K * 256 + 1) * P + B) * h div P mod 256 = (h + 256 * (K * h)) mod 256"
    by (simp add: algebra_simps)
  then show ?thesis unfolding C using assms(2,3) by simp
qed

lemma splat_byte:
  fixes h2 :: u8
  assumes "j < 7"
  shows "ucast (drop_bit (8 * j) (0x0101010101010101 * ucast h2 :: u64)) = h2"
proof -
  define h where "h = uint h2"
  have h: "0 \<le> h" "h < 256" using uint_lt2p [of h2] by (simp_all add: h_def)
  have c: "uint (ucast h2 :: u64) = h"
    using h by (simp add: unsigned_ucast_eq take_bit_int_eq_self h_def)
  have "uint (0x0101010101010101 * ucast h2 :: u64) = 0x0101010101010101 * h"
    using h by (simp add: uint_word_ariths c)
  then have "uint (ucast (drop_bit (8 * j) (0x0101010101010101 * ucast h2 :: u64)) :: u8) =
      0x0101010101010101 * h div 2 ^ (8 * j) mod 256"
    using h by (simp only: unsigned_ucast_eq unsigned_drop_bit_eq) (simp add: take_bit_eq_mod drop_bit_eq_div)
  also have "\<dots> = h"
  proof -
    consider "j = 0" | "j = 1" | "j = 2" | "j = 3" | "j = 4" | "j = 5" | "j = 6" using assms by fastforce
    then show ?thesis
    proof cases
      case 1
      show ?thesis unfolding 1 by (rule splat_div [of _ 282578800148737 _ 0]) (use h in simp_all)
    next
      case 2
      show ?thesis unfolding 2 by (rule splat_div [of _ 1103823438081 _ 1]) (use h in simp_all)
    next
      case 3
      show ?thesis unfolding 3 by (rule splat_div [of _ 4311810305 _ 257]) (use h in simp_all)
    next
      case 4
      show ?thesis unfolding 4 by (rule splat_div [of _ 16843009 _ 65793]) (use h in simp_all)
    next
      case 5
      show ?thesis unfolding 5 by (rule splat_div [of _ 65793 _ 16843009]) (use h in simp_all)
    next
      case 6
      show ?thesis unfolding 6 by (rule splat_div [of _ 257 _ 4311810305]) (use h in simp_all)
    next
      case 7
      show ?thesis unfolding 7 by (rule splat_div [of _ 1 _ 1103823438081]) (use h in simp_all)
    qed
  qed
  finally show ?thesis by (simp add: h_def word_uint_eq_iff)
qed

lemma swar_hit:
  fixes fps :: u64
  assumes j: "j < 7" and eq: "ucast (drop_bit (8 * j) fps) = h2"
  shows "bit (find_matches_swar fps h2) j"
proof -
  define splat where "splat = (0x0101010101010101 * ucast h2 :: u64)"
  define m where "m = fps XOR splat"
  define x where "x = (m - 0x0101010101010101) AND NOT m"
  have lane: "bit (w :: u64) (8 * j + i) = bit (ucast (drop_bit (8 * j) w) :: u8) i" if "i < 8" for i w
    using that by (simp add: bit_simps)
  have zero: "\<not> bit m (8 * j + i)" if "i < 8" for i
    using lane [OF that, of fps] lane [OF that, of splat] eq splat_byte [OF j, of h2]
    by (simp add: m_def bit_simps splat_def)
  have tz: "take_bit (8 * j + 8) m = take_bit (8 * j) m"
  proof (rule bit_word_eqI)
    fix i
    show "bit (take_bit (8 * j + 8) m) i = bit (take_bit (8 * j) m) i"
      using zero [of "i - 8 * j"] by (cases "i < 8 * j") (auto simp: bit_simps)
  qed
  have cases: "j = 0 \<or> j = 1 \<or> j = 2 \<or> j = 3 \<or> j = 4 \<or> j = 5 \<or> j = 6" using j by auto
  have ones: "2 ^ (8 * j) \<le> uint (0x0101010101010101 :: u64) mod 2 ^ (8 * j + 8)"
    "uint (0x0101010101010101 :: u64) mod 2 ^ (8 * j + 8) \<le> 2 ^ (8 * j + 7)"
    using cases by (elim disjE; simp)+
  have "bit (m - 0x0101010101010101) (8 * j + 7)"
    using borrow_bit [OF _ tz ones] j by simp
  then have "bit x (8 * j + 7)"
    using zero [of 7] j by (simp add: x_def bit_simps)
  then show ?thesis
    using cases unfolding find_matches_swar_def Let_def splat_def [symmetric] m_def [symmetric] x_def [symmetric]
      msb_lanes gather_mult
    by (elim disjE) (simp_all add: bit_simps)
qed

section \<open>The contract of a matcher\<close>

locale matcher =
  fixes fm :: matcher
  assumes hit: "j < 7 \<Longrightarrow> ucast (drop_bit (8 * j) fps) = h2 \<Longrightarrow> bit (fm fps h2) j"

interpretation swar: matcher find_matches_swar
  by unfold_locales (rule swar_hit)

interpretation simd: matcher find_matches_simd
  by unfold_locales (simp add: simd_hit)

section \<open>Properties\<close>

text \<open>
  C38: a slot whose fingerprint byte equals the searched byte is reported by both matchers; the vector
  matcher reports no other slot, so the fallback reports every slot the vector matcher reports.
\<close>
theorem find_matches_complete:
  assumes "j < 7"
  shows "(bit (find_matches_simd fps h2) j \<longleftrightarrow> ucast (drop_bit (8 * j) fps) = h2) \<and>
         (bit (find_matches_simd fps h2) j \<longrightarrow> bit (find_matches_swar fps h2) j)"
  using simd_hit [OF assms] swar.hit [OF assms] by blast

theorem find_matches_complete_witness:
  "bit (find_matches_simd 0x00aabb00aa0000 0xaa) 2 \<and> bit (find_matches_swar 0x00aabb00aa0000 0xaa) 2"
proof -
  have "ucast (drop_bit (8 * 2) (0x00aabb00aa0000 :: u64)) = (0xaa :: u8)" by simp
  then show ?thesis using find_matches_complete [of 2 "0x00aabb00aa0000" "0xaa"] by simp
qed

end
