(* ===== verification/Map_Spec.thy ===== *)
theory Map_Spec
  imports Prelude
begin

text \<open>
  What the repository's hash tables promise: the abstract map operations, and the locale
  \<open>hash_map\<close> a table is interpreted in. A run of operations on a table then returns exactly what
  the same run returns on the abstract map, and never faults within the table's operation budget.
\<close>

text \<open>
  Forward simulation, for any component with one step function: a run of the code returns what the same
  run of the specification returns. \<open>tinv n s\<close> says that \<open>s\<close> is well formed after at most \<open>n\<close> operations; the law
  holds while \<open>n\<close> is below \<open>budget\<close>.
\<close>

fun spec_ops :: "('o \<Rightarrow> 'a \<Rightarrow> 'r \<times> 'a) \<Rightarrow> 'o list \<Rightarrow> 'a \<Rightarrow> 'r list \<times> 'a" where
  "spec_ops astep [] a = ([], a)"
| "spec_ops astep (x # xs) a =
    (let (r, a) = astep x a; (rs, a) = spec_ops astep xs a in (r # rs, a))"

fun table_ops ::
  "('o \<Rightarrow> 's \<Rightarrow> ('r \<times> 's) option) \<Rightarrow> 'o list \<Rightarrow> 's \<Rightarrow> ('r list \<times> 's) option" where
  "table_ops step [] s = Some ([], s)"
| "table_ops step (x # xs) s =
    do { (r, s) \<leftarrow> step x s; (rs, s) \<leftarrow> table_ops step xs s; Some (r # rs, s) }"

locale simulation =
  fixes cstep :: "'o \<Rightarrow> 's \<Rightarrow> ('r \<times> 's) option" and astep :: "'o \<Rightarrow> 'a \<Rightarrow> 'r \<times> 'a"
    and tinv :: "nat \<Rightarrow> 's \<Rightarrow> bool" and abst :: "'s \<Rightarrow> 'a" and valid :: "'o \<Rightarrow> bool" and budget :: nat
  assumes step: "tinv n s \<Longrightarrow> n < budget \<Longrightarrow> valid x \<Longrightarrow>
      \<exists>r s'. cstep x s = Some (r, s') \<and> tinv (Suc n) s' \<and> (r, abst s') = astep x (abst s)"
begin

theorem run_refines:
  assumes "tinv n s" "n + length xs \<le> budget" "list_all valid xs"
  shows "\<exists>rs s'. table_ops cstep xs s = Some (rs, s') \<and> tinv (n + length xs) s' \<and>
                 (rs, abst s') = spec_ops astep xs (abst s)"
  using assms
proof (induction xs arbitrary: n s)
  case (Cons x xs)
  then obtain r s1 where 1: "cstep x s = Some (r, s1)" "tinv (Suc n) s1" "(r, abst s1) = astep x (abst s)"
    using step [of n s x] by auto
  from Cons.IH [OF 1(2)] Cons.prems obtain rs s2 where
    2: "table_ops cstep xs s1 = Some (rs, s2)" "tinv (Suc n + length xs) s2"
       "(rs, abst s2) = spec_ops astep xs (abst s1)"
    by auto
  then show ?case using 1 by (simp add: 1(3) [symmetric] 2(3) [symmetric])
qed simp

end

section \<open>Hash tables\<close>

text \<open>\<open>Probe\<close> inserts an absent key and returns the value of a present one; \<open>'e\<close> is what the call takes from its
  environment (the random salt of a split).\<close>

datatype ('e, 'k, 'v) map_op =
    Probe 'e 'k 'v
  | Find 'k
  | Replace 'k 'v
  | Remove 'k

datatype 'v map_res = Val "'v option" | Done bool

fun spec_op :: "('e, 'k, 'v) map_op \<Rightarrow> ('k \<rightharpoonup> 'v) \<Rightarrow> 'v map_res \<times> ('k \<rightharpoonup> 'v)" where
  "spec_op (Probe e k v) m = (Val (m k), if m k = None then m(k \<mapsto> v) else m)"
| "spec_op (Find k) m = (Val (m k), m)"
| "spec_op (Replace k v) m = (Done (m k \<noteq> None), if m k = None then m else m(k \<mapsto> v))"
| "spec_op (Remove k) m = (Val (m k), m(k := None))"

fun op_ok :: "('k \<Rightarrow> bool) \<Rightarrow> ('v \<Rightarrow> bool) \<Rightarrow> ('e, 'k, 'v) map_op \<Rightarrow> bool" where
  "op_ok okk okv (Probe e k v) \<longleftrightarrow> okk k \<and> okv v"
| "op_ok okk okv (Find k) \<longleftrightarrow> okk k"
| "op_ok okk okv (Replace k v) \<longleftrightarrow> okk k \<and> okv v"
| "op_ok okk okv (Remove k) \<longleftrightarrow> okk k"

text \<open>One operation of a concrete table, by its four functions (\<open>None\<close> is a fault).\<close>

fun table_op ::
  "('e \<Rightarrow> 's \<Rightarrow> 'k \<Rightarrow> 'v \<Rightarrow> ('v option \<times> 's) option) \<Rightarrow> ('s \<Rightarrow> 'k \<Rightarrow> 'v option option) \<Rightarrow>
   ('s \<Rightarrow> 'k \<Rightarrow> 'v \<Rightarrow> (bool \<times> 's) option) \<Rightarrow> ('s \<Rightarrow> 'k \<Rightarrow> ('v option \<times> 's) option) \<Rightarrow>
   ('e, 'k, 'v) map_op \<Rightarrow> 's \<Rightarrow> ('v map_res \<times> 's) option" where
  "table_op probe look repl rmv (Probe e k v) s = map_option (apfst Val) (probe e s k v)"
| "table_op probe look repl rmv (Find k) s = map_option (\<lambda>r. (Val r, s)) (look s k)"
| "table_op probe look repl rmv (Replace k v) s = map_option (apfst Done) (repl s k v)"
| "table_op probe look repl rmv (Remove k) s = map_option (apfst Val) (rmv s k)"

text \<open>
  The contract: \<open>tinv n s\<close> says that \<open>s\<close> is a well-formed table after at most \<open>n\<close> operations; the laws hold
  while \<open>n\<close> is below \<open>budget\<close>.
\<close>

locale hash_map =
  fixes okk :: "'k \<Rightarrow> bool" and okv :: "'v \<Rightarrow> bool" and budget :: nat
    and tinv :: "nat \<Rightarrow> 's \<Rightarrow> bool" and absm :: "'s \<Rightarrow> 'k \<rightharpoonup> 'v"
    and probe :: "'e \<Rightarrow> 's \<Rightarrow> 'k \<Rightarrow> 'v \<Rightarrow> ('v option \<times> 's) option"
    and look :: "'s \<Rightarrow> 'k \<Rightarrow> 'v option option"
    and repl :: "'s \<Rightarrow> 'k \<Rightarrow> 'v \<Rightarrow> (bool \<times> 's) option"
    and rmv :: "'s \<Rightarrow> 'k \<Rightarrow> ('v option \<times> 's) option"
  assumes mono: "tinv n s \<Longrightarrow> tinv (Suc n) s"
    and find_law: "tinv n s \<Longrightarrow> okk k \<Longrightarrow> look s k = Some (absm s k)"
    and probe_old: "tinv n s \<Longrightarrow> okk k \<Longrightarrow> absm s k = Some w \<Longrightarrow> probe e s k v = Some (Some w, s)"
    and probe_new: "tinv n s \<Longrightarrow> n < budget \<Longrightarrow> okk k \<Longrightarrow> okv v \<Longrightarrow> absm s k = None \<Longrightarrow>
      \<exists>s'. probe e s k v = Some (None, s') \<and> tinv (Suc n) s' \<and> absm s' = (absm s)(k \<mapsto> v)"
    and repl_law: "tinv n s \<Longrightarrow> okk k \<Longrightarrow> okv v \<Longrightarrow>
      \<exists>s'. repl s k v = Some (absm s k \<noteq> None, s') \<and> tinv n s' \<and>
           absm s' = (if absm s k = None then absm s else (absm s)(k \<mapsto> v))"
    and rmv_law: "tinv n s \<Longrightarrow> okk k \<Longrightarrow>
      \<exists>s'. rmv s k = Some (absm s k, s') \<and> tinv n s' \<and> absm s' = (absm s)(k := None)"
begin

abbreviation step where "step \<equiv> table_op probe look repl rmv"

lemma step_refines:
  assumes "tinv n s" "n < budget" "op_ok okk okv x"
  shows "\<exists>r s'. step x s = Some (r, s') \<and> tinv (Suc n) s' \<and> (r, absm s') = spec_op x (absm s)"
proof (cases x)
  case (Probe e k v)
  show ?thesis
  proof (cases "absm s k")
    case None
    then show ?thesis using probe_new [OF assms(1,2), of k v e] assms(3) Probe by auto
  next
    case (Some w)
    then show ?thesis using probe_old [OF assms(1), of k w e v] mono [OF assms(1)] assms(3) Probe by auto
  qed
next
  case (Find k)
  then show ?thesis using find_law [OF assms(1), of k] mono [OF assms(1)] assms(3) by auto
next
  case (Replace k v)
  then show ?thesis using repl_law [OF assms(1), of k v] mono assms(3) by fastforce
next
  case (Remove k)
  then show ?thesis using rmv_law [OF assms(1), of k] mono assms(3) by fastforce
qed

end

sublocale hash_map \<subseteq> sim: simulation step spec_op tinv absm "op_ok okk okv" budget
  by unfold_locales (rule step_refines)

end
