(* ===== verification/Buckets.thy ===== *)
theory Buckets
  imports Prelude "HOL-Library.Multiset"
begin

text \<open>
  Tables of buckets, whatever a bucket is: \<open>ent b\<close> lists the key-value entries of a bucket \<open>b\<close>, and every key is in
  the bucket its hash index selects. The facts both hash tables of the repository use: what an update of
  one bucket does to the entries of the table, and that a lookup may look at one bucket only.
\<close>

definition entries :: "('b \<Rightarrow> 'e list) \<Rightarrow> 'b list \<Rightarrow> 'e list" where
  "entries ent bs = concat (map ent bs)"

definition hashed :: "('b \<Rightarrow> ('k \<times> 'v) list) \<Rightarrow> ('k \<Rightarrow> nat) \<Rightarrow> 'b list \<Rightarrow> bool" where
  "hashed ent idx bs \<longleftrightarrow>
     (\<forall>i<length bs. distinct (map fst (ent (bs ! i))) \<and> (\<forall>k\<in>fst ` set (ent (bs ! i)). idx k = i))"

section \<open>Entry lists as maps\<close>

lemma distinct_fst_mset: "mset xs = mset ys \<Longrightarrow> distinct (map fst xs) \<longleftrightarrow> distinct (map fst ys)"
  by (metis mset_eq_imp_distinct_iff mset_map)

lemma map_of_distinct_mset:
  assumes "mset xs = mset ys" "distinct (map fst xs)"
  shows "map_of xs = map_of ys"
proof -
  have "distinct (map fst ys)" using assms distinct_fst_mset by blast
  moreover have "set xs = set ys" using assms(1) by (rule mset_eq_setD)
  ultimately show ?thesis using assms(2) by (simp add: map_of_inject_set)
qed

lemma map_of_add:
  assumes "mset xs' = add_mset (k, v) (mset xs)" "distinct (map fst xs')"
  shows "map_of xs' = (map_of xs)(k \<mapsto> v)" "map_of xs k = None"
proof -
  have ms: "mset xs' = mset ((k, v) # xs)" using assms(1) by simp
  show "map_of xs' = (map_of xs)(k \<mapsto> v)"
    using map_of_distinct_mset [OF ms assms(2)] by (simp add: fun_upd_def)
  show "map_of xs k = None"
    using assms(2) distinct_fst_mset [OF ms] by (simp add: map_of_eq_None_iff)
qed

lemma mset_exchange:
  fixes a b c d x y :: "'a multiset"
  assumes "a + b = c + d" "d + x = b + y"
  shows "a + x = c + y"
proof -
  have "b + (a + x) = a + b + x" by (simp add: ac_simps)
  also have "\<dots> = c + (d + x)" using assms(1) by (simp add: ac_simps)
  also have "\<dots> = b + (c + y)" using assms(2) by (simp add: ac_simps)
  finally show ?thesis by simp
qed

text \<open>One entry is dropped (\<open>nv = None\<close>) or gets a new value.\<close>

lemma entry_swap:
  assumes ms: "mset ae' + {#(k, w)#} = mset ae + (case nv of None \<Rightarrow> {#} | Some v \<Rightarrow> {#(k, v)#})"
    and d: "distinct (map fst ae)" and w: "map_of ae k = Some w"
  shows "map_of ae' = (map_of ae)(k := nv)" "distinct (map fst ae')"
    "Suc (length ae') = length ae + (if nv = None then 0 else 1)"
proof -
  obtain r where ae: "mset ae = mset ((k, w) # r)"
  proof -
    from split_list [OF map_of_SomeD [OF w]] obtain xs ys where "ae = xs @ (k, w) # ys" by blast
    then show ?thesis using that [of "xs @ ys"] by simp
  qed
  have dr: "distinct (map fst ((k, w) # r))" using d distinct_fst_mset [OF ae] by simp
  have m: "map_of ae = (map_of r)(k \<mapsto> w)" by (rule map_of_add(1) [OF _ d]) (use ae in simp)
  let ?es = "case nv of None \<Rightarrow> r | Some v \<Rightarrow> (k, v) # r"
  have ae': "mset ae' = mset ?es" using ms ae by (cases nv) simp_all
  have de: "distinct (map fst ?es)" using dr by (cases nv) simp_all
  then show "distinct (map fst ae')" using distinct_fst_mset [OF ae'] by simp
  from map_of_distinct_mset [OF ae' this] have "map_of ae' = map_of ?es" .
  moreover have "map_of r k = None" using dr by (simp add: map_of_eq_None_iff)
  ultimately show "map_of ae' = (map_of ae)(k := nv)" using m by (cases nv) (auto simp: fun_eq_iff)
  show "Suc (length ae') = length ae + (if nv = None then 0 else 1)"
    using mset_eq_length [OF ae'] mset_eq_length [OF ae] by (cases nv) simp_all
qed

section \<open>Tables\<close>

lemma entries_simps [simp]: "entries ent [] = []" "entries ent (b # bs) = ent b @ entries ent bs"
  by (simp_all add: entries_def)

lemma entries_append: "entries ent (xs @ ys) = entries ent xs @ entries ent ys"
  by (simp add: entries_def)

lemma entries_update:
  "i < length bs \<Longrightarrow> mset (entries ent (bs[i := b])) + mset (ent (bs ! i)) = mset (entries ent bs) + mset (ent b)"
proof (induction bs arbitrary: i)
  case (Cons x bs)
  then show ?case by (cases i) (simp_all add: ac_simps)
qed simp

lemma entries_add:
  assumes "i < length bs" "mset (ent b) = add_mset e (mset (ent (bs ! i)))"
  shows "mset (entries ent (bs[i := b])) = add_mset e (mset (entries ent bs))"
  using entries_update [OF assms(1), of ent b] assms(2) by simp

lemma in_entries: "e \<in> set (entries ent bs) \<longleftrightarrow> (\<exists>i<length bs. e \<in> set (ent (bs ! i)))"
  by (simp add: entries_def set_conv_nth [of bs]) blast

lemma keys_entries: "fst ` set (entries ent bs) = (\<Union>i<length bs. fst ` set (ent (bs ! i)))"
proof -
  have "set (entries ent bs) = (\<Union>i<length bs. set (ent (bs ! i)))"
    by (auto simp: in_entries)
  then show ?thesis by (simp add: image_UN)
qed

lemma keys_distinct_from:
  assumes "\<forall>i<length bs. distinct (map fst (ent (bs ! i))) \<and> (\<forall>k\<in>fst ` set (ent (bs ! i)). idx k = i + m)"
  shows "distinct (map fst (entries ent bs))"
  using assms
proof (induction bs arbitrary: m)
  case (Cons b bs)
  have b: "distinct (map fst (ent b))" "\<forall>k\<in>fst ` set (ent b). idx k = m"
    using Cons.prems [rule_format, of 0] by simp_all
  have tl: "\<forall>i<length bs. distinct (map fst (ent (bs ! i))) \<and> (\<forall>k\<in>fst ` set (ent (bs ! i)). idx k = i + Suc m)"
  proof (intro allI impI)
    fix i assume "i < length bs"
    then show "distinct (map fst (ent (bs ! i))) \<and> (\<forall>k\<in>fst ` set (ent (bs ! i)). idx k = i + Suc m)"
      using Cons.prems [rule_format, of "Suc i"] by simp
  qed
  have "fst ` set (ent b) \<inter> fst ` set (entries ent bs) = {}"
  proof (rule ccontr)
    assume "\<not> ?thesis"
    then obtain k where "k \<in> fst ` set (ent b)" "k \<in> fst ` set (entries ent bs)" by blast
    then obtain i where "i < length bs" "k \<in> fst ` set (ent (bs ! i))" "idx k = m"
      using b(2) unfolding keys_entries by blast
    then show False using tl by auto
  qed
  then show ?case using b(1) Cons.IH [OF tl] by simp
qed simp

lemma hashed_distinct: "hashed ent idx bs \<Longrightarrow> distinct (map fst (entries ent bs))"
  using keys_distinct_from [of bs ent idx 0] by (simp add: hashed_def)

lemma hashed_lookup:
  assumes ok: "hashed ent idx bs" and j: "idx k < length bs"
  shows "map_of (entries ent bs) k = map_of (ent (bs ! idx k)) k"
proof -
  have d: "distinct (map fst (ent (bs ! idx k)))" using ok j by (simp add: hashed_def)
  have "(k, v) \<in> set (entries ent bs) \<longleftrightarrow> (k, v) \<in> set (ent (bs ! idx k))" for v
    using ok j by (force simp: in_entries hashed_def)
  then have "map_of (entries ent bs) k = Some v \<longleftrightarrow> map_of (ent (bs ! idx k)) k = Some v" for v
    using hashed_distinct [OF ok] d by simp
  then show ?thesis by (metis option.exhaust)
qed

lemma hashed_update:
  assumes "hashed ent idx bs" "distinct (map fst (ent b))" "\<forall>k\<in>fst ` set (ent b). idx k = i"
  shows "hashed ent idx (bs[i := b])"
  unfolding hashed_def
proof (intro allI impI)
  fix j assume "j < length (bs[i := b])"
  then show "distinct (map fst (ent (bs[i := b] ! j))) \<and> (\<forall>k\<in>fst ` set (ent (bs[i := b] ! j)). idx k = j)"
    using assms by (cases "j = i") (simp_all add: hashed_def)
qed

end
