(* ===== verification/FastHT.thy ===== *)
theory FastHT
  imports FastHT_Match Map_Spec Buckets
begin

text \<open>
  The cache-friendly hash table of \<open>src/hashtable/fast-ht.c\<close>: buckets of \<open>bag\<close>s with seven slots and a
  fingerprint word. Structures are records over lists; a \<open>void *\<close> value is its address (\<open>u64\<close>, 0 is
  NULL); a singly linked list of bags is a list with the head first. The functions that call
  \<open>__find_matches\<close> take the selected implementation (\<open>FastHT_Match\<close>) as the argument \<open>fm\<close>. Random salts (\<open>getentropy\<close>) are arguments.
\<close>

abbreviation (input) "FASTHT_BAGSZ \<equiv> (7 :: nat)"

record bag =
  bg_fp :: u64
  bg_hk :: "u64 list"
  bg_hv :: "u64 list"

record hb =
  hb_head :: "bag list"
  hb_nodes :: u32
  hb_bags :: u32

record ht =
  ht_b :: "hb list"
  ht_n :: u64
  ht_salt :: u64
  ht_fill :: u64
  ht_maxfill :: u64
  ht_nodes :: u64
  ht_splits :: u32
  ht_bagmax :: u32
  ht_maxn :: u32

text \<open>Zeroed memory from \<open>__alloc\<close>.\<close>

definition zero_bag :: bag where
  "zero_bag = \<lparr>bg_fp = 0, bg_hk = replicate FASTHT_BAGSZ 0, bg_hv = replicate FASTHT_BAGSZ 0\<rparr>"

definition zero_hb :: hb where
  "zero_hb = \<lparr>hb_head = [], hb_nodes = 0, hb_bags = 0\<rparr>"

section \<open>Fingerprints\<close>

definition fp_slots :: "u64 \<Rightarrow> u64" where  \<comment> \<open>\<open>__fp\<close>\<close>
  "fp_slots fp = fp AND (push_bit 56 1 - 1)"

definition fp_h2 :: "u64 \<Rightarrow> u64" where  \<comment> \<open>\<open>__h2\<close>\<close>
  "fp_h2 fp = fp AND 0xff"

definition fp_control :: "u64 \<Rightarrow> u8" where  \<comment> \<open>\<open>__control\<close>\<close>
  "fp_control fp = ucast (0x7f AND drop_bit 56 fp)"

section \<open>Hashing\<close>

definition hashmix :: "u64 \<Rightarrow> u64" where
  "hashmix h = (let h = h XOR drop_bit 23 h;
                    h = h * 0x2127599bf4325c37;
                    h = h XOR drop_bit 47 h in h)"

definition fht_hash :: "u64 \<Rightarrow> u64 \<Rightarrow> u64 \<Rightarrow> u64" where  \<comment> \<open>\<open>__hash\<close>\<close>
  "fht_hash hv n salt =
    (let m = 0x880355f21e6d1965;
         hv = hv XOR (hashmix hv XOR salt);
         hv = hv * m
     in (n - 1) AND hv)"

definition update_fp :: "u64 \<Rightarrow> u64 \<Rightarrow> nat \<Rightarrow> u64" where
  "update_fp fp k slot =
    (let ctrl = fp_control fp AND NOT (push_bit slot 1);
         h2 = push_bit (8 * slot) (k AND 0xff) OR fp_h2 fp
     in h2 OR push_bit 56 (ucast ctrl))"

definition clear_fp :: "u64 \<Rightarrow> nat \<Rightarrow> u64" where
  "clear_fp fp slot =
    (let ctrl = fp_control fp OR push_bit slot 1;
         h2 = fp_h2 fp AND NOT (push_bit (8 * slot) 0xff)
     in h2 OR push_bit 56 (ucast ctrl))"

section \<open>Bags\<close>

text \<open>The loop over the candidate slots \<open>p\<close>, lowest first.\<close>

function probe_slots :: "u64 list \<Rightarrow> u64 \<Rightarrow> u16 \<Rightarrow> nat option" where
  "probe_slots hk k p =
    (if p = 0 then None
     else let j = ctz p; p' = p AND NOT (push_bit j 1)
          in if hk ! j = k then Some j else probe_slots hk k p')"
  by pat_completeness auto
termination
  by (relation "measure (\<lambda>(hk, k, p). unat p)") (use clear_bit_less ctz_props(1) in auto)

declare probe_slots.simps [simp del]

definition candidates :: "matcher \<Rightarrow> u64 \<Rightarrow> u64 \<Rightarrow> u16" where
  "candidates fm fp k =
    (let m = ucast (fm (fp_slots fp) (ucast (fp_h2 k)))
     in m AND (NOT (ucast (fp_control fp)) AND 0x7f))"

definition find_key :: "matcher \<Rightarrow> bag \<Rightarrow> u64 \<Rightarrow> (nat \<times> u64) option" where
  "find_key fm g k =
    (case probe_slots (bg_hk g) k (candidates fm (bg_fp g) k) of
       Some j \<Rightarrow> Some (j, bg_hv g ! j)
     | None \<Rightarrow> None)"

definition find_empty_slot :: "bag \<Rightarrow> nat option" where
  "find_empty_slot g =
    (let p = fp_control (bg_fp g) in if p \<noteq> 0 then Some (ctz p) else None)"

text \<open>
  \<open>__find_key_or_add\<close>: \<open>Inl (j, val)\<close> when the key is in slot \<open>j\<close> (the C result is \<open>j \<ge> 0\<close>), else
  \<open>Inr slot\<close> with the empty slot left in \<open>r->slot\<close> (\<open>None\<close> for -1).
\<close>

definition find_key_or_add :: "matcher \<Rightarrow> bag \<Rightarrow> u64 \<Rightarrow> (nat \<times> u64) + nat option" where
  "find_key_or_add fm g k =
    (let control = fp_control (bg_fp g) in
     case probe_slots (bg_hk g) k (candidates fm (bg_fp g) k) of
       Some j \<Rightarrow> Inl (j, bg_hv g ! j)
     | None \<Rightarrow> Inr (if control \<noteq> 0 then Some (ctz control) else None))"

section \<open>Buckets\<close>

text \<open>
  The loop of \<open>__insert\<close> over the bags: \<open>Inl val\<close> when a bag has the key, else \<open>Inr\<close> of the first bag
  with an empty slot (its position in the list, and the slot).
\<close>

fun insert_scan :: "matcher \<Rightarrow> bag list \<Rightarrow> nat \<Rightarrow> u64 \<Rightarrow> (nat \<times> nat) option \<Rightarrow> u64 + (nat \<times> nat) option" where
  "insert_scan fm [] i k bg = Inr bg"
| "insert_scan fm (g # gs) i k bg =
    (case find_key_or_add fm g k of
       Inl (j, val) \<Rightarrow> Inl val
     | Inr slot \<Rightarrow> insert_scan fm gs (Suc i) k
         (case (bg, slot) of (None, Some s) \<Rightarrow> Some (i, s) | _ \<Rightarrow> bg))"

definition fill_slot :: "bag \<Rightarrow> nat \<Rightarrow> u64 \<Rightarrow> u64 \<Rightarrow> bag" where
  "fill_slot g slot k v = g\<lparr>bg_fp := update_fp (bg_fp g) k slot,
                            bg_hk := (bg_hk g)[slot := k], bg_hv := (bg_hv g)[slot := v]\<rparr>"

text \<open>\<open>__insert\<close>: the returned pointer (0 when inserted) and the new bucket.\<close>

definition fht_insert :: "matcher \<Rightarrow> hb \<Rightarrow> u64 \<Rightarrow> u64 \<Rightarrow> u64 \<times> hb" where
  "fht_insert fm b k v =
    (case insert_scan fm (hb_head b) 0 k None of
       Inl val \<Rightarrow> (val, b)
     | Inr bg \<Rightarrow>
        let (b, i, slot) =
              (case bg of
                 Some (i, s) \<Rightarrow> (b, i, s)
               | None \<Rightarrow> (b\<lparr>hb_head := zero_bag # hb_head b, hb_bags := hb_bags b + 1\<rparr>, 0, 0));
            g = fill_slot (hb_head b ! i) slot k v
        in (0, b\<lparr>hb_head := (hb_head b)[i := g], hb_nodes := hb_nodes b + 1\<rparr>))"

definition new_bag_insert :: "hb \<Rightarrow> u64 \<Rightarrow> u64 \<Rightarrow> hb" where
  "new_bag_insert b k v =
     b\<lparr>hb_bags := hb_bags b + 1, hb_nodes := hb_nodes b + 1,
       hb_head := fill_slot zero_bag 0 k v # hb_head b\<rparr>"

text \<open>\<open>__insert_quick\<close>; \<open>None\<close> is its failing assertion.\<close>

definition insert_quick :: "hb \<Rightarrow> u64 \<Rightarrow> u64 \<Rightarrow> hb option" where
  "insert_quick b k v =
    (case hb_head b of
       [] \<Rightarrow> Some (new_bag_insert b k v)
     | g # gs \<Rightarrow>
        (case find_empty_slot g of
           Some j \<Rightarrow> if bg_hk g ! j = 0
                     then Some (b\<lparr>hb_head := fill_slot g j k v # gs, hb_nodes := hb_nodes b + 1\<rparr>)
                     else None
         | None \<Rightarrow> Some (new_bag_insert b k v)))"

text \<open>\<open>__findx\<close>: the bag (position), slot and value of the key.\<close>

fun findx :: "matcher \<Rightarrow> bag list \<Rightarrow> nat \<Rightarrow> u64 \<Rightarrow> (nat \<times> nat \<times> u64) option" where
  "findx fm [] i hk = None"
| "findx fm (g # gs) i hk =
    (case find_key fm g hk of
       Some (j, val) \<Rightarrow> Some (i, j, val)
     | None \<Rightarrow> findx fm gs (Suc i) hk)"

section \<open>Resizing\<close>

record resize_state =
  rs_b :: "hb list"
  rs_maxbags :: u64
  rs_maxn :: u64
  rs_fill :: u64

definition resize_one :: "u64 \<Rightarrow> u64 \<Rightarrow> u64 \<Rightarrow> u64 \<Rightarrow> resize_state \<Rightarrow> resize_state option" where
  "resize_one n salt p v st =
    (let j = unat (fht_hash p n salt) in
     do { x \<leftarrow> get_at (rs_b st) j;
          x \<leftarrow> insert_quick x p v;
          b \<leftarrow> put_at (rs_b st) j x;
          Some (st\<lparr>rs_b := b,
                   rs_maxbags := (if ucast (hb_bags x) > rs_maxbags st then ucast (hb_bags x) else rs_maxbags st),
                   rs_maxn := (if ucast (hb_nodes x) > rs_maxn st then ucast (hb_nodes x) else rs_maxn st),
                   rs_fill := (if hb_nodes x = 1 then rs_fill st + 1 else rs_fill st)\<rparr>) })"

fun resize_slots :: "u64 \<Rightarrow> u64 \<Rightarrow> bag \<Rightarrow> nat list \<Rightarrow> resize_state \<Rightarrow> resize_state option" where
  "resize_slots n salt g [] st = Some st"
| "resize_slots n salt g (i # is) st =
    (if bit (fp_control (bg_fp g)) i then resize_slots n salt g is st
     else let p = bg_hk g ! i in
       if p \<noteq> 0 then do { st \<leftarrow> resize_one n salt p (bg_hv g ! i) st; resize_slots n salt g is st }
       else resize_slots n salt g is st)"

fun resize_bags :: "u64 \<Rightarrow> u64 \<Rightarrow> bag list \<Rightarrow> resize_state \<Rightarrow> resize_state option" where
  "resize_bags n salt [] st = Some st"
| "resize_bags n salt (g # gs) st =
    do { st \<leftarrow> resize_slots n salt g [0..<FASTHT_BAGSZ] st; resize_bags n salt gs st }"

fun resize_buckets :: "u64 \<Rightarrow> u64 \<Rightarrow> hb list \<Rightarrow> resize_state \<Rightarrow> resize_state option" where
  "resize_buckets n salt [] st = Some st"
| "resize_buckets n salt (x # xs) st =
    do { st \<leftarrow> resize_bags n salt (hb_head x) st; resize_buckets n salt xs st }"

text \<open>
  \<open>__NEWZA(hb, n)\<close>: the byte count \<open>n * sizeof(hb)\<close> (16 bytes each) must be representable; beyond that
  the allocation is short or refused, a fault.
\<close>

definition newza_hb :: "u64 \<Rightarrow> hb list option" where
  "newza_hb n = (if unat n * 16 < 2 ^ 64 then Some (replicate (unat n) zero_hb) else None)"

definition fht_resize :: "u64 \<Rightarrow> ht \<Rightarrow> ht option" where
  "fht_resize salt h =
    (let n = ht_n h * 2 in
     do { b \<leftarrow> newza_hb n;
          st \<leftarrow> resize_buckets n salt (ht_b h)
                 \<lparr>rs_b = b, rs_maxbags = 0, rs_maxn = 0, rs_fill = 0\<rparr>;
          Some (h\<lparr>ht_salt := salt, ht_n := n, ht_b := rs_b st, ht_bagmax := ucast (rs_maxbags st),
                  ht_maxn := ucast (rs_maxn st), ht_fill := rs_fill st\<rparr>) })"

section \<open>Public API\<close>

definition ht_init :: "u32 \<Rightarrow> u32 \<Rightarrow> u64 \<Rightarrow> ht" where
  "ht_init sz maxfill salt =
    (let sz = (if sz = 0 then 128 else if sz AND (sz - 1) \<noteq> 0 then NEXTPOW2_u32 sz else sz);
         maxfill = (if maxfill = 0 then 85 else maxfill)
     in \<lparr>ht_b = replicate (unat sz) zero_hb, ht_n = ucast sz, ht_salt = salt, ht_fill = 0,
         ht_maxfill = ucast maxfill, ht_nodes = 0, ht_splits = 0, ht_bagmax = 0, ht_maxn = 0\<rparr>)"

text \<open>\<open>ht_fini\<close> frees every bag and the bucket array and zeroes the header.\<close>

definition ht_fini :: "ht \<Rightarrow> ht" where
  "ht_fini h = \<lparr>ht_b = [], ht_n = 0, ht_salt = 0, ht_fill = 0, ht_maxfill = 0, ht_nodes = 0,
                ht_splits = 0, ht_bagmax = 0, ht_maxn = 0\<rparr>"

definition ht_new :: "u32 \<Rightarrow> u32 \<Rightarrow> u64 \<Rightarrow> ht" where
  "ht_new sz maxfill salt = ht_init sz maxfill salt"

text \<open>\<open>ht_del\<close>: nothing is left of the table (\<open>None\<close>) once its header is freed.\<close>

definition ht_del :: "ht \<Rightarrow> ht option" where
  "ht_del h = (let h = ht_fini h in None)"

definition bucket_of :: "ht \<Rightarrow> u64 \<Rightarrow> nat" where
  "bucket_of h k = unat (fht_hash k (ht_n h) (ht_salt h))"

text \<open>The two halves of \<open>ht_probe\<close> after an insertion: the split when the fill grows past the limit, and the
  statistics.\<close>

definition probe_split :: "u64 \<Rightarrow> u64 \<Rightarrow> ht \<times> hb \<Rightarrow> (ht \<times> hb) option" where
  "probe_split salt k = (\<lambda>(h, b).
    if hb_nodes b = 1 then
      let h = h\<lparr>ht_fill := ht_fill h + 1\<rparr>;
          fpct = (ht_fill h * 100) div ht_n h
      in if fpct > ht_maxfill h then
           do { h \<leftarrow> fht_resize salt (h\<lparr>ht_splits := ht_splits h + 1\<rparr>);
                b \<leftarrow> get_at (ht_b h) (bucket_of h k);
                Some (h, b) }
         else Some (h, b)
    else Some (h, b))"

definition note_max :: "ht \<Rightarrow> hb \<Rightarrow> ht" where
  "note_max h b =
    (let h = (if hb_bags b > ht_bagmax h then h\<lparr>ht_bagmax := hb_bags b\<rparr> else h)
     in if hb_nodes b > ht_maxn h then h\<lparr>ht_maxn := hb_nodes b\<rparr> else h)"

definition ht_probe :: "matcher \<Rightarrow> u64 \<Rightarrow> ht \<Rightarrow> u64 \<Rightarrow> u64 \<Rightarrow> (u64 \<times> ht) option" where
  "ht_probe fm salt h k v =
    do { let i = bucket_of h k;
         b \<leftarrow> get_at (ht_b h) i;
         let (nv, b) = fht_insert fm b k v;
         bs \<leftarrow> put_at (ht_b h) i b;
         let h = h\<lparr>ht_b := bs\<rparr>;
         if nv \<noteq> 0 then Some (nv, h)
         else do {
           (h, b) \<leftarrow> probe_split salt k (h\<lparr>ht_nodes := ht_nodes h + 1\<rparr>, b);
           Some (0, note_max h b) } }"

definition ht_find :: "matcher \<Rightarrow> ht \<Rightarrow> u64 \<Rightarrow> u64 option option" where
  "ht_find fm h k =
    do { b \<leftarrow> get_at (ht_b h) (bucket_of h k);
         Some (map_option (\<lambda>(i, j, val). val) (findx fm (hb_head b) 0 k)) }"

definition ht_replace :: "matcher \<Rightarrow> ht \<Rightarrow> u64 \<Rightarrow> u64 \<Rightarrow> (bool \<times> ht) option" where
  "ht_replace fm h k val =
    do { let x = bucket_of h k;
         b \<leftarrow> get_at (ht_b h) x;
         case findx fm (hb_head b) 0 k of
           Some (i, slot, _) \<Rightarrow>
             let g = hb_head b ! i;
                 g = g\<lparr>bg_hv := (bg_hv g)[slot := val]\<rparr>
             in Some (True, h\<lparr>ht_b := (ht_b h)[x := b\<lparr>hb_head := (hb_head b)[i := g]\<rparr>]\<rparr>)
         | None \<Rightarrow> Some (False, h) }"

definition ht_remove :: "matcher \<Rightarrow> ht \<Rightarrow> u64 \<Rightarrow> (u64 option \<times> ht) option" where
  "ht_remove fm h k =
    do { let x = bucket_of h k;
         b \<leftarrow> get_at (ht_b h) x;
         case findx fm (hb_head b) 0 k of
           Some (i, slot, val) \<Rightarrow>
             let g = hb_head b ! i;
                 g = g\<lparr>bg_fp := clear_fp (bg_fp g) slot,
                       bg_hk := (bg_hk g)[slot := 0], bg_hv := (bg_hv g)[slot := 0]\<rparr>;
                 b = b\<lparr>hb_head := (hb_head b)[i := g], hb_nodes := hb_nodes b - 1\<rparr>
             in Some (Some val, h\<lparr>ht_b := (ht_b h)[x := b], ht_nodes := ht_nodes h - 1\<rparr>)
         | None \<Rightarrow> Some (None, h) }"

section \<open>What a bag holds\<close>

text \<open>
  \<open>__alloc\<close> zeroes a new bag, and a zero control byte means "all slots occupied". A bag therefore only
  ever uses slot 0; every reachable bag has one of the two shapes below.
\<close>

definition occ_bag :: "u64 \<Rightarrow> u64 \<Rightarrow> bag" where
  "occ_bag k v = \<lparr>bg_fp = k AND 0xff, bg_hk = k # replicate 6 0, bg_hv = v # replicate 6 0\<rparr>"

definition free_bag :: bag where
  "free_bag = \<lparr>bg_fp = 0x100000000000000, bg_hk = replicate 7 0, bg_hv = replicate 7 0\<rparr>"

definition bag_entry :: "bag \<Rightarrow> (u64 \<times> u64) option" where
  "bag_entry g = (if bg_hk g ! 0 = 0 then None else Some (bg_hk g ! 0, bg_hv g ! 0))"

fun bag_of :: "(u64 \<times> u64) option \<Rightarrow> bag" where
  "bag_of None = free_bag"
| "bag_of (Some (k, v)) = occ_bag k v"

definition bag_ok :: "bag \<Rightarrow> bool" where
  "bag_ok g \<longleftrightarrow> g = bag_of (bag_entry g)"

lemma low_byte_mask: "(0xff :: u64) = mask 8"
  by (simp add: mask_eq_exp_minus_1)

lemma ctrl_mask: "(0x7f :: u64) = mask 7"
  by (simp add: mask_eq_exp_minus_1)

lemma fp_low_byte [simp]:
  "fp_control (k AND 0xff) = 0" "fp_slots (k AND 0xff) = k AND 0xff" "fp_h2 (k AND 0xff) = k AND 0xff"
proof -
  have "drop_bit 56 (k AND mask 8) = (0 :: u64)"
    by (rule bit_word_eqI) (auto simp: bit_simps)
  then show "fp_control (k AND 0xff) = 0" by (simp add: fp_control_def low_byte_mask)
  have "(push_bit 56 1 - 1 :: u64) = mask 56" by (simp add: mask_eq_exp_minus_1)
  moreover have "(k AND mask 8) AND mask 56 = k AND mask 8"
    by (rule bit_word_eqI) (auto simp: bit_simps)
  ultimately show "fp_slots (k AND 0xff) = k AND 0xff" by (simp add: fp_slots_def low_byte_mask)
  show "fp_h2 (k AND 0xff) = k AND 0xff" by (simp add: fp_h2_def and.assoc)
qed

lemma fp_zero [simp]: "fp_control 0 = 0" "fp_h2 0 = 0"
  by (simp_all add: fp_control_def fp_h2_def)

lemma fp_free [simp]: "fp_control 0x100000000000000 = 1" "fp_h2 0x100000000000000 = 0"
  by (simp_all add: fp_control_def fp_h2_def)

lemma fill_slot_zero: "fill_slot zero_bag 0 k v = occ_bag k v"
  by (simp add: fill_slot_def zero_bag_def occ_bag_def update_fp_def Let_def numeral_eq_Suc)

lemma fill_slot_free: "fill_slot free_bag 0 k v = occ_bag k v"
  by (simp add: fill_slot_def free_bag_def occ_bag_def update_fp_def Let_def numeral_eq_Suc)

lemma clear_slot_occ:
  "(occ_bag k v)\<lparr>bg_fp := clear_fp (bg_fp (occ_bag k v)) 0, bg_hk := (bg_hk (occ_bag k v))[0 := 0],
                 bg_hv := (bg_hv (occ_bag k v))[0 := 0]\<rparr> = free_bag"
proof -
  have "(k AND 0xff) AND NOT 0xff = (0 :: u64)"
    by (simp add: and.assoc)
  then have "clear_fp (k AND 0xff) 0 = 0x100000000000000"
    by (simp add: clear_fp_def Let_def)
  then show ?thesis by (simp add: occ_bag_def free_bag_def numeral_eq_Suc)
qed

lemma bag_entry_simps [simp]:
  "k \<noteq> 0 \<Longrightarrow> bag_entry (occ_bag k v) = Some (k, v)" "bag_entry free_bag = None"
  by (simp_all add: bag_entry_def occ_bag_def free_bag_def)

lemma bag_ok_simps [simp]: "k \<noteq> 0 \<Longrightarrow> bag_ok (occ_bag k v)" "bag_ok free_bag"
  by (simp_all add: bag_ok_def)

lemma bag_ok_cases:
  assumes "bag_ok g"
  obtains (Free) "g = free_bag" "bag_entry g = None"
    | (Occ) k v where "g = occ_bag k v" "k \<noteq> 0" "bag_entry g = Some (k, v)"
  using assms by (cases "bag_entry g") (auto simp: bag_ok_def bag_entry_def split: if_splits)

section \<open>Searching the slots\<close>

lemma probe_slots_None: "probe_slots hk k p = None \<longleftrightarrow> (\<forall>j. bit p j \<longrightarrow> hk ! j \<noteq> k)"
proof (induction hk k p rule: probe_slots.induct)
  case (1 hk k p)
  show ?case
  proof (cases "p = 0")
    case True
    then show ?thesis by (simp add: probe_slots.simps)
  next
    case False
    note c = ctz_props [OF False]
    show ?thesis
    proof (cases "hk ! ctz p = k")
      case True
      then show ?thesis using False c by (auto simp: probe_slots.simps [of hk k p] Let_def)
    next
      case neq: False
      have "probe_slots hk k p = probe_slots hk k (p AND NOT (push_bit (ctz p) 1))"
        using False neq by (simp add: probe_slots.simps [of hk k p] Let_def)
      moreover have "bit (p AND NOT (push_bit (ctz p) 1)) j \<longleftrightarrow> bit p j \<and> j \<noteq> ctz p" for j
        by (auto simp: bit_simps dest: bit_imp_le_length)
      ultimately show ?thesis using 1 False neq by (auto simp: Let_def)
    qed
  qed
qed

lemma probe_slots_Some: "probe_slots hk k p = Some j \<Longrightarrow> bit p j \<and> hk ! j = k"
proof (induction hk k p rule: probe_slots.induct)
  case (1 hk k p)
  show ?case
  proof (cases "p = 0")
    case True
    then show ?thesis using "1.prems" by (simp add: probe_slots.simps)
  next
    case False
    show ?thesis
    proof (cases "hk ! ctz p = k")
      case True
      then show ?thesis
        using "1.prems" False ctz_props [OF False] by (auto simp: probe_slots.simps [of hk k p] Let_def)
    next
      case neq: False
      have "probe_slots hk k p = probe_slots hk k (p AND NOT (push_bit (ctz p) 1))"
        using False neq by (simp add: probe_slots.simps [of hk k p] Let_def)
      then show ?thesis using 1 False neq by (auto simp: Let_def bit_simps)
    qed
  qed
qed

lemma candidates_less: "bit (candidates fm fp k) j \<Longrightarrow> j < 7"
proof -
  have "(0x7f :: u16) = mask 7" by (simp add: mask_eq_exp_minus_1)
  then show "bit (candidates fm fp k) j \<Longrightarrow> j < 7"
    by (simp add: candidates_def Let_def bit_simps)
qed

lemma tail_slots: "1 \<le> j \<Longrightarrow> j < 7 \<Longrightarrow> (x # replicate 6 (0 :: u64)) ! j = 0"
  by (cases j) simp_all

context matcher
begin

lemma probe_occ:
  assumes "k \<noteq> 0"
  shows "probe_slots (bg_hk (occ_bag k' v)) k (candidates fm (bg_fp (occ_bag k' v)) k) =
         (if k = k' then Some 0 else None)"
proof (cases "k = k'")
  case True
  have "bit (candidates fm (k' AND 0xff) k) 0"
  proof -
    have "ucast (drop_bit (8 * 0) (k' AND 0xff)) = (ucast (fp_h2 k) :: u8)"
      using True by (simp add: fp_h2_def)
    from hit [OF _ this] have "bit (fm (k' AND 0xff) (ucast (fp_h2 k))) 0" by simp
    then show ?thesis by (simp add: candidates_def Let_def bit_simps)
  qed
  then have "probe_slots (bg_hk (occ_bag k' v)) k (candidates fm (bg_fp (occ_bag k' v)) k) \<noteq> None"
    using True by (auto simp: probe_slots_None occ_bag_def)
  then obtain j where j: "probe_slots (bg_hk (occ_bag k' v)) k (candidates fm (bg_fp (occ_bag k' v)) k) = Some j"
    by blast
  from probe_slots_Some [OF j] have "j < 7" "(k' # replicate 6 0) ! j = k"
    using candidates_less by (auto simp: occ_bag_def)
  then have "j = 0" using tail_slots [of j k'] assms by (cases j) auto
  then show ?thesis using True j by simp
next
  case False
  have "(k' # replicate 6 0) ! j \<noteq> k" if "j < 7" for j
    using tail_slots [of j k'] that assms False by (cases j) auto
  then show ?thesis
    using False candidates_less by (auto simp: probe_slots_None occ_bag_def)
qed

lemma probe_free:
  assumes "k \<noteq> 0"
  shows "probe_slots (bg_hk free_bag) k (candidates fm (bg_fp free_bag) k) = None"
  using assms candidates_less by (fastforce simp: probe_slots_None free_bag_def)

lemma find_key_ok:
  assumes "bag_ok g" "k \<noteq> 0"
  shows "find_key fm g k = (case bag_entry g of Some (k', v) \<Rightarrow> (if k = k' then Some (0, v) else None) | None \<Rightarrow> None)"
  using assms(1)
proof (cases rule: bag_ok_cases)
  case Free
  then show ?thesis using probe_free [OF assms(2)] by (simp add: find_key_def)
next
  case (Occ k' v)
  then show ?thesis using probe_occ [OF assms(2), of k' v] by (simp add: find_key_def occ_bag_def)
qed

lemma find_key_or_add_ok:
  assumes "bag_ok g" "k \<noteq> 0"
  shows "find_key_or_add fm g k =
    (case bag_entry g of Some (k', v) \<Rightarrow> (if k = k' then Inl (0, v) else Inr None) | None \<Rightarrow> Inr (Some 0))"
  using assms(1)
proof (cases rule: bag_ok_cases)
  case Free
  have "ctz (1 :: u8) = 0" by (simp add: ctz_def upt_rec)
  then show ?thesis using Free probe_free [OF assms(2)] by (simp add: find_key_or_add_def free_bag_def Let_def)
next
  case (Occ k' v)
  then show ?thesis using probe_occ [OF assms(2), of k' v]
    by (simp add: find_key_or_add_def occ_bag_def)
qed

end

section \<open>What a bucket holds\<close>

abbreviation occs :: "bag list \<Rightarrow> (u64 \<times> u64) list" where
  "occs gs \<equiv> List.map_filter bag_entry gs"

definition bent :: "bag \<Rightarrow> (u64 \<times> u64) multiset" where
  "bent g = (case bag_entry g of None \<Rightarrow> {#} | Some e \<Rightarrow> {#e#})"

definition hb_ok :: "hb \<Rightarrow> bool" where
  "hb_ok b \<longleftrightarrow> (\<forall>g\<in>set (hb_head b). bag_ok g) \<and> distinct (map fst (occs (hb_head b))) \<and>
     (\<forall>(k, v)\<in>set (occs (hb_head b)). k \<noteq> 0 \<and> v \<noteq> 0) \<and>
     hb_nodes b = of_nat (length (occs (hb_head b))) \<and> hb_bags b = of_nat (length (hb_head b))"

lemma occs_Cons: "mset (occs (g # gs)) = bent g + mset (occs gs)"
  by (simp add: map_filter_simps bent_def split: option.splits)

lemma occs_update:
  "i < length gs \<Longrightarrow> mset (occs (gs[i := g])) + bent (gs ! i) = mset (occs gs) + bent g"
proof (induction gs arbitrary: i)
  case (Cons x gs)
  show ?case
  proof (cases i)
    case 0
    then show ?thesis by (simp only: nth_Cons_0 list_update_code occs_Cons ac_simps)
  next
    case (Suc j)
    with Cons have "mset (occs (gs[j := g])) + bent (gs ! j) = mset (occs gs) + bent g" by simp
    with Suc show ?thesis by (simp only: nth_Cons_Suc list_update_code occs_Cons union_assoc)
  qed
qed simp

lemma bent_simps [simp]: "k \<noteq> 0 \<Longrightarrow> bent (occ_bag k v) = {#(k, v)#}" "bent free_bag = {#}"
  by (simp_all add: bent_def)

lemma hb_ok_add:
  assumes ok: "hb_ok b" and k: "k \<noteq> 0" and v: "v \<noteq> 0" and new: "k \<notin> fst ` set (occs (hb_head b))"
    and hd: "\<forall>g\<in>set (hb_head b'). bag_ok g"
    and ms: "mset (occs (hb_head b')) = add_mset (k, v) (mset (occs (hb_head b)))"
    and nd: "hb_nodes b' = hb_nodes b + 1" and bg: "hb_bags b' = of_nat (length (hb_head b'))"
  shows "hb_ok b'"
proof -
  have ms': "mset (occs (hb_head b')) = mset ((k, v) # occs (hb_head b))" using ms by simp
  have "distinct (map fst ((k, v) # occs (hb_head b)))" using ok new by (simp add: hb_ok_def)
  then have "distinct (map fst (occs (hb_head b')))" using distinct_fst_mset [OF ms'] by simp
  moreover have "set (occs (hb_head b')) = set ((k, v) # occs (hb_head b))"
    using ms' by (rule mset_eq_setD)
  moreover have "length (occs (hb_head b')) = Suc (length (occs (hb_head b)))"
    using ms' by (metis length_Cons size_mset)
  ultimately show ?thesis using ok k v hd nd bg by (auto simp: hb_ok_def)
qed

context matcher
begin

lemma findx_absent:
  assumes "\<forall>g\<in>set gs. bag_ok g" "k \<noteq> 0" "k \<notin> fst ` set (occs gs)"
  shows "findx fm gs i k = None"
  using assms
proof (induction gs arbitrary: i)
  case (Cons g gs)
  then show ?case
    using find_key_ok [of g k] by (force simp: map_filter_simps split: option.splits)
qed (simp add: map_filter_simps)

lemma findx_present:
  assumes "\<forall>g\<in>set gs. bag_ok g" "k \<noteq> 0" "map_of (occs gs) k = Some v"
  shows "\<exists>p<length gs. findx fm gs i k = Some (i + p, 0, v) \<and> gs ! p = occ_bag k v"
  using assms
proof (induction gs arbitrary: i)
  case (Cons g gs)
  then have gs: "\<forall>g\<in>set gs. bag_ok g" and "bag_ok g" by simp_all
  note fk = find_key_ok [OF \<open>bag_ok g\<close> \<open>k \<noteq> 0\<close>]
  from \<open>bag_ok g\<close> show ?case
  proof (cases rule: bag_ok_cases)
    case Free
    then have "map_of (occs gs) k = Some v" using Cons.prems(3) by (simp add: map_filter_simps)
    from Cons.IH [OF gs \<open>k \<noteq> 0\<close> this, of "Suc i"] Free fk show ?thesis by force
  next
    case (Occ k' v')
    show ?thesis
    proof (cases "k = k'")
      case True
      then show ?thesis using Occ Cons.prems(3) fk by (auto simp: map_filter_simps)
    next
      case False
      then have "map_of (occs gs) k = Some v" using Occ Cons.prems(3) by (simp add: map_filter_simps)
      from Cons.IH [OF gs \<open>k \<noteq> 0\<close> this, of "Suc i"] False Occ fk show ?thesis by force
    qed
  qed
qed (simp add: map_filter_simps)

lemma insert_scan_present:
  assumes "\<forall>g\<in>set gs. bag_ok g" "k \<noteq> 0" "map_of (occs gs) k = Some v"
  shows "insert_scan fm gs i k bg = Inl v"
  using assms
proof (induction gs arbitrary: i bg)
  case (Cons g gs)
  then have "bag_ok g" by simp
  note fk = find_key_or_add_ok [OF \<open>bag_ok g\<close> \<open>k \<noteq> 0\<close>]
  from \<open>bag_ok g\<close> show ?case
    using Cons fk by (cases rule: bag_ok_cases) (auto simp: map_filter_simps split: if_splits)
qed (simp add: map_filter_simps)

lemma insert_scan_kept:
  assumes "\<forall>g\<in>set gs. bag_ok g" "k \<noteq> 0" "k \<notin> fst ` set (occs gs)"
  shows "insert_scan fm gs i k (Some x) = Inr (Some x)"
  using assms
proof (induction gs arbitrary: i)
  case (Cons g gs)
  then have "bag_ok g" by simp
  note fk = find_key_or_add_ok [OF \<open>bag_ok g\<close> \<open>k \<noteq> 0\<close>]
  from \<open>bag_ok g\<close> show ?case
    using Cons fk by (cases rule: bag_ok_cases) (auto simp: map_filter_simps)
qed simp

lemma insert_scan_absent:
  assumes "\<forall>g\<in>set gs. bag_ok g" "k \<noteq> 0" "k \<notin> fst ` set (occs gs)"
  shows "insert_scan fm gs i k None = Inr None \<or>
         (\<exists>p<length gs. insert_scan fm gs i k None = Inr (Some (i + p, 0)) \<and> gs ! p = free_bag)"
  using assms
proof (induction gs arbitrary: i)
  case (Cons g gs)
  then have "bag_ok g" by simp
  note fk = find_key_or_add_ok [OF \<open>bag_ok g\<close> \<open>k \<noteq> 0\<close>]
  from \<open>bag_ok g\<close> show ?case
  proof (cases rule: bag_ok_cases)
    case Free
    then have "insert_scan fm gs (Suc i) k (Some (i, 0)) = Inr (Some (i, 0))"
      using Cons.prems by (intro insert_scan_kept) (auto simp: map_filter_simps)
    then show ?thesis using Free fk by auto
  next
    case (Occ k' v')
    then have "k \<noteq> k'" "k \<notin> fst ` set (occs gs)" using Cons.prems(3) by (auto simp: map_filter_simps)
    with Cons.IH [of "Suc i"] Cons.prems Occ fk show ?thesis by force
  qed
qed simp

lemma fht_insert_present:
  assumes "hb_ok b" "k \<noteq> 0" "map_of (occs (hb_head b)) k = Some v'"
  shows "fht_insert fm b k v = (v', b)"
  using assms insert_scan_present [of "hb_head b" k v' 0 None]
  by (simp add: fht_insert_def hb_ok_def)

lemma fht_insert_absent:
  assumes ok: "hb_ok b" and k: "k \<noteq> 0" and v: "v \<noteq> 0" and abs: "k \<notin> fst ` set (occs (hb_head b))"
  shows "\<exists>b'. fht_insert fm b k v = (0, b') \<and> hb_ok b' \<and>
              mset (occs (hb_head b')) = add_mset (k, v) (mset (occs (hb_head b)))"
proof -
  let ?gs = "hb_head b"
  have gs: "\<forall>g\<in>set ?gs. bag_ok g" using ok by (simp add: hb_ok_def)
  note step = hb_ok_add [OF ok k v abs]
  from insert_scan_absent [OF gs k abs, of 0] show ?thesis
  proof (elim disjE exE conjE)
    assume sc: "insert_scan fm ?gs 0 k None = Inr None"
    let ?b = "b\<lparr>hb_head := occ_bag k v # ?gs, hb_bags := hb_bags b + 1, hb_nodes := hb_nodes b + 1\<rparr>"
    have "fht_insert fm b k v = (0, ?b)"
      by (simp add: fht_insert_def sc fill_slot_zero)
    moreover have "mset (occs (hb_head ?b)) = add_mset (k, v) (mset (occs ?gs))"
      using k by (simp add: occs_Cons)
    moreover have "hb_ok ?b" using gs k ok calculation(2) by (intro step) (auto simp: hb_ok_def)
    ultimately show ?thesis by blast
  next
    fix p assume p: "p < length ?gs" and sc: "insert_scan fm ?gs 0 k None = Inr (Some (0 + p, 0))"
      and fr: "?gs ! p = free_bag"
    let ?b = "b\<lparr>hb_head := ?gs[p := occ_bag k v], hb_nodes := hb_nodes b + 1\<rparr>"
    have "fht_insert fm b k v = (0, ?b)"
      using sc fr by (simp add: fht_insert_def fill_slot_free)
    moreover have "mset (occs (hb_head ?b)) = add_mset (k, v) (mset (occs ?gs))"
      using occs_update [OF p, of "occ_bag k v"] k fr by simp
    moreover have "hb_ok ?b"
      using gs k ok calculation(2) set_update_subset_insert [of ?gs p "occ_bag k v"]
      by (intro step) (auto simp: hb_ok_def)
    ultimately show ?thesis by blast
  qed
qed

end

section \<open>What a table holds\<close>

abbreviation hb_ent :: "hb \<Rightarrow> (u64 \<times> u64) list" where
  "hb_ent b \<equiv> occs (hb_head b)"

abbreviation all_entries :: "hb list \<Rightarrow> (u64 \<times> u64) list" where
  "all_entries bs \<equiv> entries hb_ent bs"

definition tbl_ok :: "u64 \<Rightarrow> u64 \<Rightarrow> hb list \<Rightarrow> bool" where
  "tbl_ok n salt bs \<longleftrightarrow> length bs = unat n \<and>
     (\<forall>i<length bs. hb_ok (bs ! i) \<and>
        (\<forall>k\<in>fst ` set (occs (hb_head (bs ! i))). unat (fht_hash k n salt) = i))"

definition ht_inv :: "ht \<Rightarrow> bool" where
  "ht_inv h \<longleftrightarrow> 0 < ht_n h \<and> tbl_ok (ht_n h) (ht_salt h) (ht_b h) \<and>
     ht_nodes h = of_nat (length (all_entries (ht_b h)))"

definition ht_abs :: "ht \<Rightarrow> u64 \<rightharpoonup> u64" where
  "ht_abs h = map_of (all_entries (ht_b h))"

lemma fht_hash_less: "0 < n \<Longrightarrow> unat (fht_hash k n salt) < unat n"
proof -
  assume "0 < n"
  then have "unat (n - 1) = unat n - 1" "0 < unat n"
    by (simp_all add: unat_minus_one word_gt_0 unat_gt_0)
  moreover have "unat ((n - 1) AND x) \<le> unat (n - 1)" for x
    using word_and_le2 [of "n - 1" x] by (simp add: word_le_nat_alt)
  ultimately show ?thesis by (simp add: fht_hash_def Let_def) (metis Suc_pred le_imp_less_Suc)
qed

lemma tbl_ok_hashed: "tbl_ok n salt bs \<Longrightarrow> hashed hb_ent (\<lambda>k. unat (fht_hash k n salt)) bs"
  by (simp add: tbl_ok_def hashed_def hb_ok_def)

lemmas tbl_ok_distinct = hashed_distinct [OF tbl_ok_hashed]

lemma tbl_lookup:
  assumes ok: "tbl_ok n salt bs" and n: "0 < n"
  shows "map_of (all_entries bs) k = map_of (hb_ent (bs ! unat (fht_hash k n salt))) k"
    and "unat (fht_hash k n salt) < length bs"
proof -
  show j: "unat (fht_hash k n salt) < length bs"
    using ok n fht_hash_less [OF n] by (simp add: tbl_ok_def)
  show "map_of (all_entries bs) k = map_of (hb_ent (bs ! unat (fht_hash k n salt))) k"
    using hashed_lookup [OF tbl_ok_hashed [OF ok]] j by simp
qed

lemma tbl_ok_update:
  assumes ok: "tbl_ok n salt bs" and b: "hb_ok b" and i: "i < length bs"
    and ks: "\<forall>k\<in>fst ` set (occs (hb_head b)). unat (fht_hash k n salt) = i"
  shows "tbl_ok n salt (bs[i := b])"
  using assms by (auto simp: tbl_ok_def nth_list_update)

lemma tbl_ok_fresh: "tbl_ok n salt (replicate (unat n) zero_hb)" "all_entries (replicate m zero_hb) = []"
  by (auto simp: tbl_ok_def zero_hb_def hb_ok_def entries_def)

section \<open>Resizing keeps the content\<close>

lemma insert_quick_ok:
  assumes ok: "hb_ok b" and k: "k \<noteq> 0" and v: "v \<noteq> 0" and new: "k \<notin> fst ` set (occs (hb_head b))"
  shows "\<exists>b'. insert_quick b k v = Some b' \<and> hb_ok b' \<and>
              mset (occs (hb_head b')) = add_mset (k, v) (mset (occs (hb_head b)))"
proof -
  note step = hb_ok_add [OF ok k v new]
  have gs: "\<forall>g\<in>set (hb_head b). bag_ok g" and bags: "hb_bags b = of_nat (length (hb_head b))"
    using ok by (simp_all add: hb_ok_def)
  have fresh: ?thesis if "insert_quick b k v = Some (new_bag_insert b k v)"
  proof -
    let ?b = "new_bag_insert b k v"
    have hd: "hb_head ?b = occ_bag k v # hb_head b" by (simp add: new_bag_insert_def fill_slot_zero)
    have ms: "mset (occs (hb_head ?b)) = add_mset (k, v) (mset (occs (hb_head b)))"
      unfolding hd using k by (simp add: occs_Cons)
    have "hb_ok ?b" by (rule step [OF _ ms]) (use gs k bags in \<open>simp_all add: new_bag_insert_def fill_slot_zero\<close>)
    with ms that show ?thesis by blast
  qed
  show ?thesis
  proof (cases "hb_head b")
    case Nil
    then show ?thesis by (intro fresh) (simp add: insert_quick_def)
  next
    case (Cons g gs')
    then have "bag_ok g" using gs by simp
    then show ?thesis
    proof (cases rule: bag_ok_cases)
      case Free
      let ?b = "b\<lparr>hb_head := occ_bag k v # gs', hb_nodes := hb_nodes b + 1\<rparr>"
      have "find_empty_slot g = Some 0"
        using Free(1) by (simp add: find_empty_slot_def free_bag_def ctz_def upt_rec)
      then have iq: "insert_quick b k v = Some ?b"
        using Cons Free(1) by (simp add: insert_quick_def fill_slot_free) (simp add: free_bag_def)
      have ms: "mset (occs (hb_head ?b)) = add_mset (k, v) (mset (occs (hb_head b)))"
        unfolding Cons using Free k by simp
      have "hb_ok ?b" by (rule step [OF _ ms]) (use gs k bags Cons in simp_all)
      with iq ms show ?thesis by blast
    next
      case (Occ k' v')
      then show ?thesis using Cons by (intro fresh) (simp add: insert_quick_def find_empty_slot_def occ_bag_def)
    qed
  qed
qed

fun resize_list :: "u64 \<Rightarrow> u64 \<Rightarrow> (u64 \<times> u64) list \<Rightarrow> resize_state \<Rightarrow> resize_state option" where
  "resize_list n salt [] st = Some st"
| "resize_list n salt ((k, v) # es) st = do { st \<leftarrow> resize_one n salt k v st; resize_list n salt es st }"

lemma resize_list_append:
  "resize_list n salt (xs @ ys) st = do { st \<leftarrow> resize_list n salt xs st; resize_list n salt ys st }"
  by (induction n salt xs st rule: resize_list.induct)
     (auto intro: Option.bind_cong)

lemma resize_slots_ok:
  assumes "bag_ok g"
  shows "resize_slots n salt g [0..<7] st = resize_list n salt (occs [g]) st"
  using assms
proof (cases rule: bag_ok_cases)
  case Free
  then show ?thesis by (simp add: free_bag_def upt_rec numeral_eq_Suc)
next
  case (Occ k v)
  then show ?thesis by (auto simp: occ_bag_def upt_rec numeral_eq_Suc intro: bind_ext)
qed

lemma resize_bags_ok:
  "\<forall>g\<in>set gs. bag_ok g \<Longrightarrow> resize_bags n salt gs st = resize_list n salt (occs gs) st"
proof (induction gs arbitrary: st)
  case (Cons g gs)
  have "occs (g # gs) = occs [g] @ occs gs" by (simp split: option.splits)
  then show ?case using Cons resize_slots_ok [of g]
    by (simp only: resize_list_append resize_bags.simps) (auto intro: bind_ext)
qed simp

lemma resize_buckets_ok:
  "\<forall>b\<in>set bs. hb_ok b \<Longrightarrow> resize_buckets n salt bs st = resize_list n salt (all_entries bs) st"
  by (induction bs arbitrary: st)
     (auto simp: entries_def resize_list_append resize_bags_ok hb_ok_def intro: bind_ext)

lemma resize_one_ok:
  assumes ok: "tbl_ok n salt (rs_b st)" and n: "0 < n" and k: "k \<noteq> 0" and v: "v \<noteq> 0"
    and new: "k \<notin> fst ` set (all_entries (rs_b st))"
  shows "\<exists>st'. resize_one n salt k v st = Some st' \<and> tbl_ok n salt (rs_b st') \<and>
               mset (all_entries (rs_b st')) = add_mset (k, v) (mset (all_entries (rs_b st))) \<and>
               unat (rs_fill st') \<le> Suc (unat (rs_fill st))"
proof -
  let ?j = "unat (fht_hash k n salt)"
  let ?b = "rs_b st ! ?j"
  note j = tbl_lookup(2) [OF ok n, of k]
  have b: "hb_ok ?b" "k \<notin> fst ` set (occs (hb_head ?b))"
    using ok j new unfolding tbl_ok_def keys_entries by blast+
  from insert_quick_ok [OF b(1) k v b(2)] obtain b' where
    b': "insert_quick ?b k v = Some b'" "hb_ok b'"
      "mset (occs (hb_head b')) = add_mset (k, v) (mset (occs (hb_head ?b)))" by blast
  have "fst ` set (occs (hb_head b')) = insert k (fst ` set (occs (hb_head ?b)))"
    using arg_cong [OF b'(3), of set_mset] by simp
  moreover have "\<forall>k'\<in>fst ` set (occs (hb_head ?b)). unat (fht_hash k' n salt) = ?j"
    using ok j unfolding tbl_ok_def by blast
  ultimately have "tbl_ok n salt ((rs_b st)[?j := b'])"
    by (intro tbl_ok_update [OF ok b'(2) j]) (erule ssubst, blast)
  moreover have "unat (x + 1) \<le> Suc (unat x)" for x :: u64
    by (simp add: unat_word_ariths)
  moreover have "resize_one n salt k v st = Some (st\<lparr>rs_b := (rs_b st)[?j := b'],
      rs_maxbags := (if ucast (hb_bags b') > rs_maxbags st then ucast (hb_bags b') else rs_maxbags st),
      rs_maxn := (if ucast (hb_nodes b') > rs_maxn st then ucast (hb_nodes b') else rs_maxn st),
      rs_fill := (if hb_nodes b' = 1 then rs_fill st + 1 else rs_fill st)\<rparr>)"
    using j b'(1) by (simp add: resize_one_def get_at_def put_at_def Let_def)
  ultimately show ?thesis using entries_add [of _ _ hb_ent, OF j b'(3)] by simp
qed

lemma resize_list_ok:
  assumes "tbl_ok n salt (rs_b st)" "0 < n" "distinct (map fst es)"
    "\<forall>(k, v)\<in>set es. k \<noteq> 0 \<and> v \<noteq> 0" "fst ` set es \<inter> fst ` set (all_entries (rs_b st)) = {}"
  shows "\<exists>st'. resize_list n salt es st = Some st' \<and> tbl_ok n salt (rs_b st') \<and>
               mset (all_entries (rs_b st')) = mset es + mset (all_entries (rs_b st)) \<and>
               unat (rs_fill st') \<le> unat (rs_fill st) + length es"
  using assms
proof (induction es arbitrary: st)
  case (Cons e es)
  obtain k v where e: "e = (k, v)" by (cases e)
  from resize_one_ok [of n salt st k v] Cons.prems e obtain st1 where
    1: "resize_one n salt k v st = Some st1" "tbl_ok n salt (rs_b st1)"
       "mset (all_entries (rs_b st1)) = add_mset (k, v) (mset (all_entries (rs_b st)))"
       "unat (rs_fill st1) \<le> Suc (unat (rs_fill st))" by auto
  have "set (all_entries (rs_b st1)) = insert (k, v) (set (all_entries (rs_b st)))"
    using arg_cong [OF 1(3), of set_mset] by simp
  then have "\<exists>st'. resize_list n salt es st1 = Some st' \<and> tbl_ok n salt (rs_b st') \<and>
               mset (all_entries (rs_b st')) = mset es + mset (all_entries (rs_b st1)) \<and>
               unat (rs_fill st') \<le> unat (rs_fill st1) + length es"
    using Cons.prems e 1(2) by (intro Cons.IH) auto
  then show ?case using 1 e by auto
qed simp

lemma tbl_ok_nonzero: "tbl_ok n salt bs \<Longrightarrow> \<forall>(k, v)\<in>set (all_entries bs). k \<noteq> 0 \<and> v \<noteq> 0"
  by (fastforce simp: tbl_ok_def in_entries hb_ok_def)

lemma fht_resize_ok:
  assumes inv: "ht_inv h" and n: "unat (ht_n h) < 2 ^ 59"
  shows "\<exists>h'. fht_resize salt h = Some h' \<and> ht_inv h' \<and>
              mset (all_entries (ht_b h')) = mset (all_entries (ht_b h)) \<and>
              unat (ht_n h') = 2 * unat (ht_n h) \<and> ht_maxfill h' = ht_maxfill h \<and>
              unat (ht_fill h') \<le> length (all_entries (ht_b h))"
proof -
  let ?n = "ht_n h * 2" and ?es = "all_entries (ht_b h)"
  have ok: "tbl_ok (ht_n h) (ht_salt h) (ht_b h)" and pos: "0 < ht_n h" using inv by (simp_all add: ht_inv_def)
  have un: "unat ?n = 2 * unat (ht_n h)" using n by (simp add: unat_word_ariths)
  have pos': "0 < ?n" using pos un by (simp add: word_less_nat_alt)
  have new: "newza_hb ?n = Some (replicate (unat ?n) zero_hb)" using n un by (simp add: newza_hb_def)
  let ?st = "\<lparr>rs_b = replicate (unat ?n) zero_hb, rs_maxbags = 0, rs_maxn = 0, rs_fill = 0\<rparr>"
  have hbs: "\<forall>b\<in>set (ht_b h). hb_ok b" using ok by (auto simp: tbl_ok_def in_set_conv_nth)
  have "\<exists>st'. resize_list ?n salt ?es ?st = Some st' \<and> tbl_ok ?n salt (rs_b st') \<and>
      mset (all_entries (rs_b st')) = mset ?es + mset (all_entries (rs_b ?st)) \<and>
      unat (rs_fill st') \<le> unat (rs_fill ?st) + length ?es"
    using tbl_ok_distinct [OF ok] tbl_ok_nonzero [OF ok] pos' tbl_ok_fresh
    by (intro resize_list_ok) simp_all
  then obtain st' where st': "resize_list ?n salt ?es ?st = Some st'" "tbl_ok ?n salt (rs_b st')"
      "mset (all_entries (rs_b st')) = mset ?es" "unat (rs_fill st') \<le> length ?es"
    using tbl_ok_fresh by auto
  have "length (all_entries (rs_b st')) = length ?es" using st'(3) by (metis size_mset)
  then show ?thesis
    using st' new un pos' inv resize_buckets_ok [OF hbs, of ?n salt ?st]
    by (simp add: fht_resize_def Let_def ht_inv_def)
qed

section \<open>Updates of one entry\<close>

lemma hb_okI:
  assumes "\<forall>g\<in>set (hb_head b). bag_ok g" "mset (occs (hb_head b)) = mset es" "distinct (map fst es)"
    "\<forall>(k, v)\<in>set es. k \<noteq> 0 \<and> v \<noteq> 0" "hb_nodes b = of_nat (length es)" "hb_bags b = of_nat (length (hb_head b))"
  shows "hb_ok b"
  using assms distinct_fst_mset [OF assms(2)] mset_eq_setD [OF assms(2)] mset_eq_length [OF assms(2)]
  by (simp add: hb_ok_def)

definition ht_wf :: "nat \<Rightarrow> ht \<Rightarrow> bool" where
  "ht_wf p h \<longleftrightarrow> ht_inv h \<and> length (all_entries (ht_b h)) \<le> p \<and> unat (ht_fill h) \<le> p \<and>
     unat (ht_n h) \<le> max (2 ^ 31) (100 * p) \<and> 1 \<le> ht_maxfill h"

lemma ht_bucket:
  fixes k :: u64
  assumes "ht_inv h"
  defines "b \<equiv> ht_b h ! bucket_of h k"
  shows "bucket_of h k < length (ht_b h)" "get_at (ht_b h) (bucket_of h k) = Some b" "hb_ok b"
    "ht_abs h k = map_of (occs (hb_head b)) k"
    "\<forall>k'\<in>fst ` set (occs (hb_head b)). unat (fht_hash k' (ht_n h) (ht_salt h)) = bucket_of h k"
proof -
  have ok: "tbl_ok (ht_n h) (ht_salt h) (ht_b h)" and pos: "0 < ht_n h" using assms by (simp_all add: ht_inv_def)
  show j: "bucket_of h k < length (ht_b h)" using tbl_lookup(2) [OF ok pos] by (simp add: bucket_of_def)
  then show "get_at (ht_b h) (bucket_of h k) = Some b" by (simp add: b_def)
  show "hb_ok b" "\<forall>k'\<in>fst ` set (occs (hb_head b)). unat (fht_hash k' (ht_n h) (ht_salt h)) = bucket_of h k"
    using ok j unfolding tbl_ok_def b_def by blast+
  show "ht_abs h k = map_of (occs (hb_head b)) k"
    using tbl_lookup(1) [OF ok pos, of k] by (simp add: ht_abs_def bucket_of_def b_def)
qed

text \<open>The bucket of \<open>k\<close> is replaced by one whose entries differ only in \<open>k\<close>.\<close>

lemma ht_update:
  assumes inv: "ht_inv h" and b: "hb_ok b"
    and ks: "fst ` set (occs (hb_head b)) \<subseteq> insert k (fst ` set (occs (hb_head (ht_b h ! bucket_of h k))))"
  shows "tbl_ok (ht_n h) (ht_salt h) ((ht_b h)[bucket_of h k := b])"
    and "mset (all_entries ((ht_b h)[bucket_of h k := b])) + mset (occs (hb_head (ht_b h ! bucket_of h k))) =
         mset (all_entries (ht_b h)) + mset (occs (hb_head b))"
proof -
  note bk = ht_bucket [OF inv, of k]
  have ok: "tbl_ok (ht_n h) (ht_salt h) (ht_b h)" using inv by (simp add: ht_inv_def)
  have "\<forall>k'\<in>fst ` set (occs (hb_head b)). unat (fht_hash k' (ht_n h) (ht_salt h)) = bucket_of h k"
    using ks bk(5) by (auto simp only: bucket_of_def)
  then show "tbl_ok (ht_n h) (ht_salt h) ((ht_b h)[bucket_of h k := b])"
    by (rule tbl_ok_update [OF ok b bk(1)])
  show "mset (all_entries ((ht_b h)[bucket_of h k := b])) + mset (occs (hb_head (ht_b h ! bucket_of h k))) =
         mset (all_entries (ht_b h)) + mset (occs (hb_head b))"
    by (rule entries_update [OF bk(1)])
qed

lemma note_max_simps [simp]:
  "ht_b (note_max h b) = ht_b h" "ht_n (note_max h b) = ht_n h" "ht_salt (note_max h b) = ht_salt h"
  "ht_fill (note_max h b) = ht_fill h" "ht_maxfill (note_max h b) = ht_maxfill h" "ht_nodes (note_max h b) = ht_nodes h"
  "ht_inv (note_max h b) = ht_inv h"
  by (simp_all add: note_max_def ht_inv_def Let_def)

lemma probe_split_ok:
  assumes inv: "ht_inv h" and len: "length (all_entries (ht_b h)) \<le> Suc p" and p: "p < 2 ^ 52"
    and fill: "unat (ht_fill h) \<le> p" and n: "unat (ht_n h) \<le> max (2 ^ 31) (100 * p)" and mf: "1 \<le> ht_maxfill h"
  shows "\<exists>h' b'. probe_split salt k (h, b) = Some (h', b') \<and> ht_inv h' \<and>
      mset (all_entries (ht_b h')) = mset (all_entries (ht_b h)) \<and> unat (ht_fill h') \<le> Suc p \<and>
      unat (ht_n h') \<le> max (2 ^ 31) (100 * Suc p) \<and> 1 \<le> ht_maxfill h'"
proof (cases "hb_nodes b = 1 \<and> ht_maxfill h < ((ht_fill h + 1) * 100) div ht_n h")
  case False
  have "unat (ht_fill h + 1) \<le> Suc p" using fill p by (simp add: unat_word_ariths)
  then show ?thesis using False assms by (auto simp: probe_split_def Let_def ht_inv_def)
next
  case True
  let ?h = "h\<lparr>ht_fill := ht_fill h + 1, ht_splits := ht_splits h + 1\<rparr>"
  have f1: "unat (ht_fill h + 1) = Suc (unat (ht_fill h))" using fill p by (simp add: unat_word_ariths)
  have f2: "unat ((ht_fill h + 1) * 100) = 100 * Suc (unat (ht_fill h))"
    using fill p f1 by (simp only: unat_word_ariths f1) simp
  have "1 < unat ((ht_fill h + 1) * 100) div unat (ht_n h)"
  proof -
    have "1 < ((ht_fill h + 1) * 100) div ht_n h" using True mf by (meson le_less_trans)
    then show ?thesis by (simp add: word_less_nat_alt unat_div)
  qed
  then have "2 \<le> 100 * Suc (unat (ht_fill h)) div unat (ht_n h)" unfolding f2 by simp
  then have "2 * unat (ht_n h) \<le> 100 * Suc (unat (ht_fill h))"
    by (metis less_eq_div_iff_mult_less_eq word_gt_0 unat_gt_0 inv ht_inv_def)
  then have n2: "2 * unat (ht_n h) \<le> 100 * Suc p" using fill by simp
  then have n59: "unat (ht_n ?h) < 2 ^ 59" using p by simp
  have "ht_inv ?h" using inv by (simp add: ht_inv_def)
  from fht_resize_ok [OF this n59, of salt] obtain h' where h': "fht_resize salt ?h = Some h'" "ht_inv h'"
     "mset (all_entries (ht_b h')) = mset (all_entries (ht_b h))" "unat (ht_n h') = 2 * unat (ht_n h)"
     "ht_maxfill h' = ht_maxfill h" "unat (ht_fill h') \<le> length (all_entries (ht_b h))" by auto
  have "probe_split salt k (h, b) = Some (h', ht_b h' ! bucket_of h' k)"
    using True h'(1) ht_bucket(1) [OF h'(2), of k] by (simp add: probe_split_def Let_def get_at_in)
  moreover have "unat (ht_n h') \<le> max (2 ^ 31) (100 * Suc p)" using n2 h'(4) by simp
  moreover have "unat (ht_fill h') \<le> Suc p" using h'(6) len by (rule le_trans)
  ultimately show ?thesis using h'(2,3,5) mf by (intro exI [of _ h']) auto
qed

lemma ht_rewrite:
  fixes k :: u64
  assumes inv: "ht_inv h" and k: "k \<noteq> 0" and old: "ht_abs h k = Some w"
    and i: "i < length (hb_head (ht_b h ! bucket_of h k))" "hb_head (ht_b h ! bucket_of h k) ! i = occ_bag k w"
    and g: "bag_ok g" "bag_entry g = map_option (Pair k) nv" and nv: "nv \<noteq> Some 0"
    and hd: "hb_head b' = (hb_head (ht_b h ! bucket_of h k))[i := g]" "hb_bags b' = hb_bags (ht_b h ! bucket_of h k)"
    and nd: "hb_nodes b' = (if nv = None then hb_nodes (ht_b h ! bucket_of h k) - 1 else hb_nodes (ht_b h ! bucket_of h k))"
  defines "bs' \<equiv> (ht_b h)[bucket_of h k := b']"
  shows "tbl_ok (ht_n h) (ht_salt h) bs'" "map_of (all_entries bs') = (map_of (all_entries (ht_b h)))(k := nv)"
    "Suc (length (all_entries bs')) = length (all_entries (ht_b h)) + (if nv = None then 0 else 1)"
proof -
  note bk = ht_bucket [OF inv, of k]
  let ?b = "ht_b h ! bucket_of h k"
  have bg: "bent g = (case nv of None \<Rightarrow> {#} | Some v \<Rightarrow> {#(k, v)#})" using g(2) by (cases nv) (simp_all add: bent_def)
  have ms: "mset (occs (hb_head b')) + {#(k, w)#} = mset (occs (hb_head ?b)) + (case nv of None \<Rightarrow> {#} | Some v \<Rightarrow> {#(k, v)#})"
    using occs_update [OF i(1), of g] i(2) k bg hd(1) by simp
  have db: "distinct (map fst (occs (hb_head ?b)))" using bk(3) by (simp add: hb_ok_def)
  have mb: "map_of (occs (hb_head ?b)) k = Some w" using old bk(4) by simp
  note sw = entry_swap [OF ms db mb]
  have set': "set (occs (hb_head b')) \<subseteq> set (occs (hb_head ?b)) \<union> set_option (map_option (Pair k) nv)"
    using arg_cong [OF ms, of set_mset] by (cases nv) auto
  have hb: "hb_ok b'"
  proof -
    have "\<forall>g\<in>set (hb_head b'). bag_ok g"
      using bk(3) g(1) hd(1) set_update_subset_insert [of "hb_head ?b" i g] by (auto simp: hb_ok_def)
    moreover have "\<forall>(k, v)\<in>set (occs (hb_head b')). k \<noteq> 0 \<and> v \<noteq> 0"
      using set' bk(3) k nv unfolding hb_ok_def by (cases nv) auto
    moreover have "hb_nodes b' = of_nat (length (occs (hb_head b')))"
    proof -
      have "(of_nat (Suc (length (occs (hb_head b')))) :: u32) =
          of_nat (length (occs (hb_head ?b)) + (if nv = None then 0 else 1))" by (simp only: sw(3))
      moreover have "hb_nodes ?b = of_nat (length (occs (hb_head ?b)))" using bk(3) by (simp add: hb_ok_def)
      ultimately show ?thesis using nd by (auto simp: algebra_simps split: if_splits)
    qed
    ultimately show ?thesis using sw(2) hd bk(3) by (simp add: hb_ok_def)
  qed
  have "fst ` set (occs (hb_head b')) \<subseteq> insert k (fst ` set (occs (hb_head ?b)))"
    using set' by (cases nv) auto
  note up = ht_update [OF inv hb this, folded bs'_def]
  show "tbl_ok (ht_n h) (ht_salt h) bs'" by (rule up(1))
  have ms_all: "mset (all_entries bs') + {#(k, w)#} =
      mset (all_entries (ht_b h)) + (case nv of None \<Rightarrow> {#} | Some v \<Rightarrow> {#(k, v)#})"
    by (rule mset_exchange [OF up(2) ms])
  have "distinct (map fst (all_entries (ht_b h)))" using inv tbl_ok_distinct by (auto simp: ht_inv_def)
  note e = entry_swap [OF ms_all this old [unfolded ht_abs_def]]
  show "map_of (all_entries bs') = (map_of (all_entries (ht_b h)))(k := nv)"
    "Suc (length (all_entries bs')) = length (all_entries (ht_b h)) + (if nv = None then 0 else 1)"
    by (rule e(1), rule e(3))
qed

context matcher
begin

lemma ht_find_ok: "ht_inv h \<Longrightarrow> k \<noteq> 0 \<Longrightarrow> ht_find fm h k = Some (ht_abs h k)"
proof -
  assume inv: "ht_inv h" and k: "k \<noteq> 0"
  note bk = ht_bucket [OF inv, of k]
  let ?gs = "hb_head (ht_b h ! bucket_of h k)"
  have gs: "\<forall>g\<in>set ?gs. bag_ok g" using bk(3) by (simp add: hb_ok_def)
  show ?thesis
  proof (cases "ht_abs h k")
    case None
    then have "findx fm ?gs 0 k = None"
      using bk(4) by (intro findx_absent [OF gs k]) (simp add: map_of_eq_None_iff)
    then show ?thesis using None bk(1) by (simp add: ht_find_def get_at_in)
  next
    case (Some v)
    then show ?thesis using findx_present [OF gs k, of v 0] bk(1,4) by (auto simp: ht_find_def get_at_in)
  qed
qed

lemma ht_probe_old:
  assumes inv: "ht_inv h" and k: "k \<noteq> 0" and old: "ht_abs h k = Some w"
  shows "ht_probe fm salt h k v = Some (w, h)" "w \<noteq> 0"
proof -
  note bk = ht_bucket [OF inv, of k]
  let ?b = "ht_b h ! bucket_of h k"
  have m: "map_of (occs (hb_head ?b)) k = Some w" using old bk(4) by simp
  then show w: "w \<noteq> 0" using bk(3) by (fastforce simp: hb_ok_def dest: map_of_SomeD)
  show "ht_probe fm salt h k v = Some (w, h)"
    using bk(1) fht_insert_present [OF bk(3) k m, of v] w
    by (simp add: ht_probe_def Let_def get_at_in put_at_in)
qed

lemma ht_probe_new:
  assumes wf: "ht_wf p h" and p: "p < 2 ^ 52" and k: "k \<noteq> 0" and v: "v \<noteq> 0" and new: "ht_abs h k = None"
  shows "\<exists>h'. ht_probe fm salt h k v = Some (0, h') \<and> ht_wf (Suc p) h' \<and> ht_abs h' = (ht_abs h)(k \<mapsto> v)"
proof -
  have inv: "ht_inv h" using wf by (simp add: ht_wf_def)
  note bk = ht_bucket [OF inv, of k]
  let ?b = "ht_b h ! bucket_of h k"
  have abs: "k \<notin> fst ` set (occs (hb_head ?b))" using new bk(4) by (simp add: map_of_eq_None_iff)
  from fht_insert_absent [OF bk(3) k v abs] obtain b where b: "fht_insert fm ?b k v = (0, b)" "hb_ok b"
    "mset (occs (hb_head b)) = add_mset (k, v) (mset (occs (hb_head ?b)))" by blast
  let ?h = "h\<lparr>ht_b := (ht_b h)[bucket_of h k := b], ht_nodes := ht_nodes h + 1\<rparr>"
  have "fst ` set (occs (hb_head b)) = insert k (fst ` set (occs (hb_head ?b)))"
    using arg_cong [OF b(3), of set_mset] by simp
  note up = ht_update [OF inv b(2) equalityD1 [OF this]]
  have ms: "mset (all_entries (ht_b ?h)) = add_mset (k, v) (mset (all_entries (ht_b h)))"
    using up(2) b(3) by simp
  have len: "length (all_entries (ht_b ?h)) = Suc (length (all_entries (ht_b h)))"
    using ms by (metis size_mset size_add_mset)
  have inv1: "ht_inv ?h" using inv up(1) len by (simp add: ht_inv_def)
  have "\<exists>h' b'. probe_split salt k (?h, b) = Some (h', b') \<and> ht_inv h' \<and>
      mset (all_entries (ht_b h')) = mset (all_entries (ht_b ?h)) \<and> unat (ht_fill h') \<le> Suc p \<and>
      unat (ht_n h') \<le> max (2 ^ 31) (100 * Suc p) \<and> 1 \<le> ht_maxfill h'"
    using inv1 len wf p by (intro probe_split_ok) (simp_all add: ht_wf_def)
  then obtain h' b' where h': "probe_split salt k (?h, b) = Some (h', b')" "ht_inv h'"
      "mset (all_entries (ht_b h')) = mset (all_entries (ht_b ?h))" "unat (ht_fill h') \<le> Suc p"
      "unat (ht_n h') \<le> max (2 ^ 31) (100 * Suc p)" "1 \<le> ht_maxfill h'" by blast
  have "ht_probe fm salt h k v = Some (0, note_max h' b')"
    using b(1) bk(1) h'(1) by (simp add: ht_probe_def get_at_in put_at_in)
  moreover have "length (all_entries (ht_b h')) \<le> Suc p"
    using len wf mset_eq_length [OF h'(3)] by (simp add: ht_wf_def)
  then have "ht_wf (Suc p) (note_max h' b')"
    using h' by (simp add: ht_wf_def)
  moreover have "distinct (map fst (all_entries (ht_b h')))"
    using h'(2) tbl_ok_distinct by (auto simp: ht_inv_def)
  then have "ht_abs (note_max h' b') = (ht_abs h)(k \<mapsto> v)"
    using map_of_add(1) [of "all_entries (ht_b h')" k v "all_entries (ht_b h)"] h'(3) ms by (simp add: ht_abs_def)
  ultimately show ?thesis by blast
qed

text \<open>The entry of a present key is overwritten by a bag \<open>g\<close> that holds its new value or nothing.\<close>

lemma ht_present:
  assumes inv: "ht_inv h" and k: "k \<noteq> 0" and old: "ht_abs h k = Some w"
  shows "\<exists>i. findx fm (hb_head (ht_b h ! bucket_of h k)) 0 k = Some (i, 0, w) \<and>
             i < length (hb_head (ht_b h ! bucket_of h k)) \<and> hb_head (ht_b h ! bucket_of h k) ! i = occ_bag k w"
proof -
  note bk = ht_bucket [OF inv, of k]
  have gs: "\<forall>g\<in>set (hb_head (ht_b h ! bucket_of h k)). bag_ok g" using bk(3) by (simp add: hb_ok_def)
  have m: "map_of (occs (hb_head (ht_b h ! bucket_of h k))) k = Some w" using old bk(4) by simp
  from findx_present [OF gs k m, of 0] show ?thesis by auto
qed

lemma ht_absent:
  assumes inv: "ht_inv h" and k: "k \<noteq> 0" and new: "ht_abs h k = None"
  shows "findx fm (hb_head (ht_b h ! bucket_of h k)) 0 k = None"
  using ht_bucket(3,4) [OF inv, of k] new
  by (intro findx_absent [OF _ k]) (auto simp: map_of_eq_None_iff hb_ok_def)

lemma ht_replace_ok:
  assumes wf: "ht_wf p h" and k: "k \<noteq> 0" and v: "v \<noteq> 0"
  shows "\<exists>h'. ht_replace fm h k v = Some (ht_abs h k \<noteq> None, h') \<and> ht_wf p h' \<and>
              ht_abs h' = (if ht_abs h k = None then ht_abs h else (ht_abs h)(k \<mapsto> v))"
proof -
  have inv: "ht_inv h" using wf by (simp add: ht_wf_def)
  note bk = ht_bucket [OF inv, of k]
  let ?b = "ht_b h ! bucket_of h k"
  show ?thesis
  proof (cases "ht_abs h k")
    case None
    then show ?thesis using ht_absent [OF inv k None] wf bk(1) by (simp add: ht_replace_def get_at_in Let_def)
  next
    case (Some w)
    from ht_present [OF inv k Some] obtain i where
      i: "findx fm (hb_head ?b) 0 k = Some (i, 0, w)" "i < length (hb_head ?b)" "hb_head ?b ! i = occ_bag k w" by blast
    let ?b' = "?b\<lparr>hb_head := (hb_head ?b)[i := occ_bag k v]\<rparr>"
    let ?h = "h\<lparr>ht_b := (ht_b h)[bucket_of h k := ?b']\<rparr>"
    have "(occ_bag k w)\<lparr>bg_hv := (bg_hv (occ_bag k w))[0 := v]\<rparr> = occ_bag k v"
      by (simp add: occ_bag_def)
    then have eq: "ht_replace fm h k v = Some (True, ?h)"
      using i bk(1) by (simp add: ht_replace_def get_at_in Let_def)
    note t = ht_rewrite [OF inv k Some i(2,3), of "occ_bag k v" "Some v" ?b']
    have "ht_wf p ?h" "ht_abs ?h = (ht_abs h)(k \<mapsto> v)"
      using t k v wf by (simp_all add: ht_wf_def ht_inv_def ht_abs_def)
    then show ?thesis using eq Some by simp
  qed
qed

lemma ht_remove_ok:
  assumes wf: "ht_wf p h" and k: "k \<noteq> 0"
  shows "\<exists>h'. ht_remove fm h k = Some (ht_abs h k, h') \<and> ht_wf p h' \<and> ht_abs h' = (ht_abs h)(k := None)"
proof -
  have inv: "ht_inv h" using wf by (simp add: ht_wf_def)
  note bk = ht_bucket [OF inv, of k]
  let ?b = "ht_b h ! bucket_of h k"
  show ?thesis
  proof (cases "ht_abs h k")
    case None
    then show ?thesis using ht_absent [OF inv k None] wf bk(1)
      by (simp add: ht_remove_def get_at_in Let_def fun_upd_idem)
  next
    case (Some w)
    from ht_present [OF inv k Some] obtain i where
      i: "findx fm (hb_head ?b) 0 k = Some (i, 0, w)" "i < length (hb_head ?b)" "hb_head ?b ! i = occ_bag k w" by blast
    let ?b' = "?b\<lparr>hb_head := (hb_head ?b)[i := free_bag], hb_nodes := hb_nodes ?b - 1\<rparr>"
    let ?h = "h\<lparr>ht_b := (ht_b h)[bucket_of h k := ?b'], ht_nodes := ht_nodes h - 1\<rparr>"
    have eq: "ht_remove fm h k = Some (Some w, ?h)"
      using i bk(1) clear_slot_occ [of k w] by (simp add: ht_remove_def get_at_in Let_def)
    note t = ht_rewrite [OF inv k Some i(2,3), of free_bag None ?b']
    have len: "length (all_entries (ht_b h)) = Suc (length (all_entries (ht_b ?h)))"
      using t(3) by simp
    have "ht_wf p ?h" "ht_abs ?h = (ht_abs h)(k := None)"
      using t len wf by (simp_all add: ht_wf_def ht_inv_def ht_abs_def)
    then show ?thesis using eq Some by simp
  qed
qed

end

text \<open>The pointer \<open>ht_probe\<close> returns is NULL when the key was inserted.\<close>

definition probe_result :: "(u64 \<times> ht) option \<Rightarrow> (u64 option \<times> ht) option" where
  "probe_result = map_option (apfst (\<lambda>r. if r = 0 then None else Some r))"

text \<open>Every matcher makes the table a hash map for non-zero keys and non-NULL values.\<close>

sublocale matcher \<subseteq> table: hash_map "\<lambda>k. k \<noteq> 0" "\<lambda>v. v \<noteq> 0" "2 ^ 52" ht_wf ht_abs
  "\<lambda>salt h k v. probe_result (ht_probe fm salt h k v)" "ht_find fm" "ht_replace fm" "ht_remove fm"
proof unfold_locales
  fix n h and k w v e :: u64
  show "ht_wf n h \<Longrightarrow> ht_wf (Suc n) h" by (auto simp: ht_wf_def)
  assume wf: "ht_wf n h" and k: "k \<noteq> 0"
  then have inv: "ht_inv h" by (simp add: ht_wf_def)
  show "ht_find fm h k = Some (ht_abs h k)" by (rule ht_find_ok [OF inv k])
  show "probe_result (ht_probe fm e h k v) = Some (Some w, h)" if "ht_abs h k = Some w"
    using ht_probe_old [OF inv k that] by (simp add: probe_result_def)
  show "\<exists>s'. ht_remove fm h k = Some (ht_abs h k, s') \<and> ht_wf n s' \<and> ht_abs s' = (ht_abs h)(k := None)"
    by (rule ht_remove_ok [OF wf k])
  assume v: "v \<noteq> 0"
  show "\<exists>s'. ht_replace fm h k v = Some (ht_abs h k \<noteq> None, s') \<and> ht_wf n s' \<and>
           ht_abs s' = (if ht_abs h k = None then ht_abs h else (ht_abs h)(k \<mapsto> v))"
    by (rule ht_replace_ok [OF wf k v])
  show "\<exists>s'. probe_result (ht_probe fm e h k v) = Some (None, s') \<and> ht_wf (Suc n) s' \<and> ht_abs s' = (ht_abs h)(k \<mapsto> v)"
    if "n < 2 ^ 52" "ht_abs h k = None"
    using ht_probe_new [OF wf that(1) k v that(2), of e] by (auto simp: probe_result_def)
qed

lemma ht_init_wf:
  assumes "unat sz \<le> 2 ^ 31"
  shows "ht_wf 0 (ht_init sz maxfill salt)" "ht_abs (ht_init sz maxfill salt) = Map.empty"
proof -
  let ?n = "if sz = 0 then 128 else if sz AND (sz - 1) \<noteq> 0 then NEXTPOW2_u32 sz else sz"
  have n: "1 \<le> unat ?n" "unat ?n \<le> 2 ^ 31"
    using NEXTPOW2_u32_range [of sz] assms by (auto simp: Suc_le_eq unat_gt_0)
  have c: "unat (ucast ?n :: u64) = unat ?n"
    by (rule unat_ucast_up)
  have "0 < (ucast ?n :: u64)" using c n(1) by (simp add: word_less_nat_alt)
  moreover have "1 \<le> (ucast (if maxfill = 0 then 85 else maxfill) :: u64)"
    by (simp add: word_le_nat_alt Suc_le_eq unat_gt_0)
  ultimately show "ht_wf 0 (ht_init sz maxfill salt)"
    using c n(2) tbl_ok_fresh(1) [of "ucast ?n" salt] tbl_ok_fresh(2)
    by (simp only: ht_wf_def ht_inv_def ht_init_def Let_def ht.simps) simp
  show "ht_abs (ht_init sz maxfill salt) = Map.empty"
    by (simp add: ht_abs_def ht_init_def Let_def tbl_ok_fresh(2))
qed

section \<open>Properties\<close>

text \<open>One call of the API, as an abstract operation.\<close>

abbreviation ht_op :: "matcher \<Rightarrow> (u64, u64, u64) map_op \<Rightarrow> ht \<Rightarrow> (u64 map_res \<times> ht) option" where
  "ht_op fm \<equiv> table_op (\<lambda>salt h k v. probe_result (ht_probe fm salt h k v)) (ht_find fm) (ht_replace fm) (ht_remove fm)"

lemma ht_run:
  assumes "fm = find_matches_swar \<or> fm = find_matches_simd" "unat sz \<le> 2 ^ 31" "length xs \<le> 2 ^ 52"
    "list_all (op_ok (\<lambda>k. k \<noteq> 0) (\<lambda>v. v \<noteq> 0)) xs"
  shows "\<exists>rs h'. table_ops (ht_op fm) xs (ht_init sz maxfill salt) = Some (rs, h') \<and>
     ht_wf (length xs) h' \<and> (rs, ht_abs h') = spec_ops spec_op xs Map.empty"
  using swar.table.sim.run_refines [of 0 "ht_init sz maxfill salt" xs]
    simd.table.sim.run_refines [of 0 "ht_init sz maxfill salt" xs] ht_init_wf [OF assms(2), of maxfill salt] assms
  by auto

text \<open>
  C1: with either matcher, any sequence of up to \<open>2^52\<close> calls of \<open>ht_probe\<close>, \<open>ht_find\<close>, \<open>ht_replace\<close> and
  \<open>ht_remove\<close> on a new table (requested size at most \<open>2^31\<close>, non-zero keys, non-NULL values, any salts drawn by the
  splits) runs without a fault and returns exactly what the abstract map returns; at the end the
  table holds the abstract map and \<open>nodes\<close> is its size.
\<close>
theorem ht_run_refines_map:
  assumes "fm = find_matches_swar \<or> fm = find_matches_simd" "unat sz \<le> 2 ^ 31" "length xs \<le> 2 ^ 52"
    "list_all (op_ok (\<lambda>k. k \<noteq> 0) (\<lambda>v. v \<noteq> 0)) xs"
  shows "\<exists>rs h'. table_ops (ht_op fm) xs (ht_init sz maxfill salt) = Some (rs, h') \<and>
     (rs, ht_abs h') = spec_ops spec_op xs Map.empty \<and> unat (ht_nodes h') = card (dom (ht_abs h'))"
proof -
  obtain rs h' where h': "table_ops (ht_op fm) xs (ht_init sz maxfill salt) = Some (rs, h')"
     "ht_wf (length xs) h'" "(rs, ht_abs h') = spec_ops spec_op xs Map.empty" using ht_run [OF assms] by blast
  have d: "distinct (map fst (all_entries (ht_b h')))"
    using h'(2) tbl_ok_distinct by (auto simp: ht_wf_def ht_inv_def)
  have "card (dom (ht_abs h')) = length (all_entries (ht_b h'))"
    unfolding ht_abs_def dom_map_of_conv_image_fst using distinct_card [OF d] by simp
  moreover have "unat (ht_nodes h') = length (all_entries (ht_b h'))"
    using h'(2) assms(3) by (simp add: ht_wf_def ht_inv_def unat_of_nat)
  ultimately show ?thesis using h' by auto
qed

theorem ht_run_refines_map_witness:
  "\<exists>h'. table_ops (ht_op find_matches_swar)
     [Probe 11 1 70, Probe 12 2 80, Probe 13 1 90, Find 1, Remove 1, Find 1, Replace 2 81, Find 2] (ht_init 2 0 5) =
     Some ([Val None, Val None, Val (Some 70), Val (Some 70), Val (Some 70), Val None, Done True, Val (Some 81)], h') \<and>
     ht_abs h' = [2 \<mapsto> 81] \<and> unat (ht_nodes h') = 1"
  using ht_run_refines_map [of find_matches_swar 2
     "[Probe 11 1 70, Probe 12 2 80, Probe 13 1 90, Find 1, Remove 1, Find 1, Replace 2 81, Find 2]" 0 5]
  by (auto simp: fun_upd_twist)

text \<open>
  C37: \<open>resize\<close> doubles the number of buckets of a well-formed table with fewer than \<open>2^59\<close> buckets, re-hashes every
  key with the new salt and keeps the content.
\<close>
theorem fht_resize_keeps:
  assumes "ht_inv h" "unat (ht_n h) < 2 ^ 59"
  shows "\<exists>h'. fht_resize salt h = Some h' \<and> ht_inv h' \<and> ht_abs h' = ht_abs h \<and>
              unat (ht_n h') = 2 * unat (ht_n h) \<and> ht_salt h' = salt"
proof -
  obtain h' where h': "fht_resize salt h = Some h'" "ht_inv h'"
    "mset (all_entries (ht_b h')) = mset (all_entries (ht_b h))" "unat (ht_n h') = 2 * unat (ht_n h)"
    using fht_resize_ok [OF assms, of salt] by blast
  have "distinct (map fst (all_entries (ht_b h')))"
    using h'(2) tbl_ok_distinct by (auto simp: ht_inv_def)
  then have "ht_abs h' = ht_abs h" unfolding ht_abs_def by (rule map_of_distinct_mset [OF h'(3)])
  moreover have "ht_salt h' = salt" using h'(1) by (auto simp: fht_resize_def Let_def split: bind_splits)
  ultimately show ?thesis using h' by blast
qed

theorem fht_resize_keeps_witness:
  "\<exists>rs h h'. table_ops (ht_op find_matches_swar) [Probe 11 1 70, Probe 12 2 80] (ht_init 4 0 7) = Some (rs, h) \<and>
     fht_resize 9 h = Some h' \<and> ht_abs h' = [1 \<mapsto> 70, 2 \<mapsto> 80] \<and> unat (ht_n h') = 2 * unat (ht_n h) \<and> ht_salt h' = 9"
proof -
  obtain rs h where h: "table_ops (ht_op find_matches_swar) [Probe 11 1 70, Probe 12 2 80] (ht_init 4 0 7) = Some (rs, h)"
      "ht_wf (Suc (Suc 0)) h" "ht_abs h = [1 \<mapsto> 70, 2 \<mapsto> 80]"
    using ht_run [of find_matches_swar 4 "[Probe 11 1 70, Probe 12 2 80]" 0 7] by auto
  then have "ht_inv h" "unat (ht_n h) < 2 ^ 59" by (auto simp: ht_wf_def)
  then show ?thesis using fht_resize_keeps [of h 9] h by auto
qed

text \<open>
  No sequence of calls on a new table ever puts a key in a slot other than slot 0 of a bag: \<open>__alloc\<close> zeroes the
  control byte of a new bag, which marks the slots 1 to 6 as taken, so a bag of seven slots holds at most
  one key.
\<close>
theorem bag_uses_one_slot:
  assumes "fm = find_matches_swar \<or> fm = find_matches_simd" "unat sz \<le> 2 ^ 31" "length xs \<le> 2 ^ 52"
    "list_all (op_ok (\<lambda>k. k \<noteq> 0) (\<lambda>v. v \<noteq> 0)) xs"
    and "table_ops (ht_op fm) xs (ht_init sz maxfill salt) = Some (rs, h')"
    and "b \<in> set (ht_b h')" "g \<in> set (hb_head b)" "1 \<le> j" "j < 7"
  shows "bg_hk g ! j = 0"
proof -
  have "ht_wf (length xs) h'" using ht_run [OF assms(1-4), of maxfill salt] assms(5) by auto
  then have "hb_ok b" using assms(6) by (auto simp: ht_wf_def ht_inv_def tbl_ok_def in_set_conv_nth)
  then have "bag_ok g" using assms(7) by (simp add: hb_ok_def)
  then show ?thesis
    using tail_slots [OF assms(8,9)] assms(9) by (cases rule: bag_ok_cases) (auto simp: occ_bag_def free_bag_def)
qed

theorem bag_uses_one_slot_witness:
  "\<exists>b g. b \<in> set (ht_b (snd (the (table_ops (ht_op find_matches_swar) [Probe 3 1 2] (ht_init 1 100 0))))) \<and>
     g \<in> set (hb_head b) \<and> bg_hk g ! 6 = 0"
proof -
  let ?r = "table_ops (ht_op find_matches_swar) [Probe 3 1 2] (ht_init 1 100 0)"
  let ?g = "occ_bag 1 2"
  have "fht_hash 1 1 0 = 0" by (simp add: fht_hash_def)
  then have r: "?r = Some ([Val None], (ht_init 1 100 0)\<lparr>ht_b := [\<lparr>hb_head = [?g], hb_nodes = 1, hb_bags = 1\<rparr>],
      ht_nodes := 1, ht_fill := 1, ht_bagmax := 1, ht_maxn := 1\<rparr>)"
    by (simp add: ht_init_def Let_def ht_probe_def bucket_of_def zero_hb_def fht_insert_def fill_slot_zero probe_split_def
        note_max_def probe_result_def get_at_def put_at_def)
  have "bg_hk ?g ! 6 = 0"
    by (rule bag_uses_one_slot [OF _ _ _ _ r, where b = "\<lparr>hb_head = [?g], hb_nodes = 1, hb_bags = 1\<rparr>"]) simp_all
  then show ?thesis unfolding r by auto
qed

end
