(* ===== verification/HashTab.thy ===== *)
theory HashTab
  imports Map_Spec Buckets Bits
begin

text \<open>
  The chained hash table of \<open>src/hashtable/hashtab.c\<close>. The element type \<open>'d\<close> stands for what the stored
  pointers point to; a pointer argument that may be NULL is an option. The policy's \<open>hash\<close> and \<open>cmp\<close> are
  arguments; whether an allocation succeeds is an argument of the call that makes it. A lock is held or free;
  locking a held lock never returns (\<open>None\<close>), as does a failing assertion. Calls of the destructor are recorded in
  \<open>tb_dtored\<close>.
\<close>

record 'd hash_node =
  nd_hash :: u32
  nd_data :: 'd

record 'd hash_bucket =
  bk_head :: "'d hash_node list"
  bk_count :: u64
  bk_held :: bool

record hash_table_stat =
  hs_size :: u64
  hs_nodes :: u64
  hs_fill :: u64
  hs_maxchainlen :: u64
  hs_splits :: u32
  hs_inserts :: u32
  hs_lookups :: u32
  hs_failed_lookups :: u32
  hs_replaces :: u32
  hs_deletes :: u32

record 'd hash_table =
  tb_buckets :: "'d hash_bucket list"
  tb_size :: u64
  tb_fillmax :: u64
  tb_random :: u32
  tb_dtor :: bool
  tb_dtored :: "'d list"
  tb_locking :: bool
  tb_held :: bool
  tb_stats :: hash_table_stat

record hash_table_policy =
  pl_fillmax :: u64
  pl_logsize :: u64
  pl_dtor :: bool
  pl_locking :: bool

datatype insert_mode = TAB_NODUP | TAB_REPLACE | TAB_PROBE

section \<open>Locks\<close>

text \<open>A lock manager without lock functions (\<open>on\<close> is false) does nothing.\<close>

definition lockmgr_lock :: "bool \<Rightarrow> bool \<Rightarrow> bool option" where
  "lockmgr_lock on held = (if on then (if held then None else Some True) else Some held)"

definition lockmgr_unlock :: "bool \<Rightarrow> bool \<Rightarrow> bool" where
  "lockmgr_unlock on held = (if on then False else held)"

section \<open>Creation\<close>

definition hashfunc :: "('d \<Rightarrow> u32) \<Rightarrow> 'd hash_table \<Rightarrow> 'd \<Rightarrow> u32" where
  "hashfunc hash tab key = tb_random tab XOR hash key"

definition slot_of :: "u64 \<Rightarrow> u32 \<Rightarrow> nat" where
  "slot_of sz hv = unat (ucast hv AND (sz - 1))"

definition zero_bucket :: "'d hash_bucket" where
  "zero_bucket = \<lparr>bk_head = [], bk_count = 0, bk_held = False\<rparr>"

definition zero_stat :: hash_table_stat where
  "zero_stat = \<lparr>hs_size = 0, hs_nodes = 0, hs_fill = 0, hs_maxchainlen = 0, hs_splits = 0, hs_inserts = 0,
     hs_lookups = 0, hs_failed_lookups = 0, hs_replaces = 0, hs_deletes = 0\<rparr>"

text \<open>
  \<open>hash_table_new\<close>: \<open>valid\<close> says that all the required pointers are given. The size is the \<open>int\<close> expression
  \<open>1 << i\<close>, undefined from \<open>i = 31\<close> on.
\<close>

definition hash_table_new ::
  "bool \<Rightarrow> hash_table_policy \<Rightarrow> bool \<Rightarrow> bool \<Rightarrow> u32 \<Rightarrow> 'd hash_table res option" where
  "hash_table_new valid tr alloc_tab alloc_buckets rnd =
    (if \<not> valid then Some (Inl EINVAL)
     else if \<not> alloc_tab then Some (Inl ENOMEM)
     else let i = (if pl_logsize tr = 0 \<or> 64 \<le> pl_logsize tr then 10 else unat (pl_logsize tr));
              fillmax = (if pl_fillmax tr = 0 \<or> 100 \<le> pl_fillmax tr then 80 else pl_fillmax tr)
          in if 31 \<le> i then None
             else if \<not> alloc_buckets then Some (Inl ENOMEM)
             else Some (Inr \<lparr>tb_buckets = replicate (2 ^ i) zero_bucket, tb_size = 2 ^ i, tb_fillmax = fillmax,
                        tb_random = rnd, tb_dtor = pl_dtor tr, tb_dtored = [], tb_locking = pl_locking tr,
                        tb_held = False, tb_stats = zero_stat\<rparr>))"

text \<open>\<open>hash_table_delete\<close>: the elements given to the destructor, in order.\<close>

definition hash_table_delete :: "'d hash_table \<Rightarrow> 'd list option" where
  "hash_table_delete tab =
    do { held \<leftarrow> lockmgr_lock (tb_locking tab) (tb_held tab);
         Some (if tb_dtor tab then concat (map (\<lambda>b. map nd_data (bk_head b)) (tb_buckets tab)) else []) }"

section \<open>Growing\<close>

fun resize_chain ::
  "u64 \<Rightarrow> 'd hash_node list \<Rightarrow> 'd hash_bucket list \<times> u64 \<times> u64 \<Rightarrow> ('d hash_bucket list \<times> u64 \<times> u64) option" where
  "resize_chain newsize [] st = Some st"
| "resize_chain newsize (p # ps) (bs, fill, mx) =
    do { let j = slot_of newsize (nd_hash p);
         newb \<leftarrow> get_at bs j;
         let newb = newb\<lparr>bk_head := p # bk_head newb, bk_count := bk_count newb + 1\<rparr>;
         bs \<leftarrow> put_at bs j newb;
         resize_chain newsize ps
           (bs, if bk_count newb = 1 then fill + 1 else fill, if bk_count newb > mx then bk_count newb else mx) }"

fun resize_all ::
  "bool \<Rightarrow> u64 \<Rightarrow> nat \<Rightarrow> 'd hash_bucket list \<Rightarrow> 'd hash_bucket list \<times> u64 \<times> u64 \<Rightarrow>
   ('d hash_bucket list \<times> u64 \<times> u64) option" where
  "resize_all on newsize i [] st = Some st"
| "resize_all on newsize i (b # old) st =
    do { held \<leftarrow> lockmgr_lock on (bk_held b);
         (bs, fill, mx) \<leftarrow> resize_chain newsize (bk_head b) st;
         newb \<leftarrow> get_at bs i;
         bs \<leftarrow> put_at bs i (newb\<lparr>bk_held := lockmgr_unlock on held\<rparr>);
         resize_all on newsize (Suc i) old (bs, fill, mx) }"

text \<open>\<open>resize\<close>; an array whose size in bytes (56 per bucket) is not representable is a fault.\<close>

definition tab_resize :: "bool \<Rightarrow> 'd hash_table \<Rightarrow> (unit res \<times> 'd hash_table) option" where
  "tab_resize alloc_buckets tab =
    (if \<not> alloc_buckets then Some (Inl ENOMEM, tab)
     else let newsize = push_bit 1 (tb_size tab) in
       if 2 ^ 64 \<le> unat newsize * 56 then None
       else do { (bs, fill, mx) \<leftarrow> resize_all (tb_locking tab) newsize 0 (tb_buckets tab)
                                    (replicate (unat newsize) zero_bucket, 0, 0);
                 let st = tb_stats tab;
                 Some (Inr (), tab\<lparr>tb_buckets := bs, tb_size := newsize,
                   tb_stats := st\<lparr>hs_splits := hs_splits st + 1, hs_maxchainlen := mx, hs_fill := fill\<rparr>\<rparr>) })"

section \<open>Insertion\<close>

definition node_matches :: "('d \<Rightarrow> 'd \<Rightarrow> int) \<Rightarrow> u32 \<Rightarrow> 'd \<Rightarrow> 'd hash_node \<Rightarrow> bool" where
  "node_matches cmp hv key p \<longleftrightarrow> nd_hash p = hv \<and> cmp key (nd_data p) = 0"

definition run_dtor :: "'d \<Rightarrow> 'd hash_table \<Rightarrow> 'd hash_table" where
  "run_dtor d tab = (if tb_dtor tab then tab\<lparr>tb_dtored := tb_dtored tab @ [d]\<rparr> else tab)"

text \<open>
  What a collision with node \<open>e\<close> does: the result, the data handed back through \<open>p_data\<close>, the node and the table.
\<close>

fun on_collision ::
  "insert_mode \<Rightarrow> 'd \<Rightarrow> 'd hash_node \<Rightarrow> 'd hash_table \<Rightarrow> unit res \<times> 'd \<times> 'd hash_node \<times> 'd hash_table" where
  "on_collision TAB_NODUP data e tab = (Inl EEXIST, nd_data e, e, tab)"
| "on_collision TAB_REPLACE data e tab =
    (let tab = run_dtor (nd_data e) tab; st = tb_stats tab
     in (Inr (), nd_data e, e\<lparr>nd_data := data\<rparr>, tab\<lparr>tb_stats := st\<lparr>hs_replaces := hs_replaces st + 1\<rparr>\<rparr>))"
| "on_collision TAB_PROBE data e tab = (Inr (), nd_data e, e, tab)"

text \<open>The second half of \<open>insert_internal\<close>, under the table lock: statistics and growth.\<close>

definition insert_account :: "bool \<Rightarrow> nat \<Rightarrow> 'd hash_table \<Rightarrow> (unit res \<times> 'd hash_table) option" where
  "insert_account alloc_buckets i tab =
    do { held \<leftarrow> lockmgr_lock (tb_locking tab) (tb_held tab);
         b \<leftarrow> get_at (tb_buckets tab) i;
         let b = b\<lparr>bk_count := bk_count b + 1\<rparr>;
         let st = tb_stats tab;
         let st = st\<lparr>hs_inserts := hs_inserts st + 1, hs_nodes := hs_nodes st + 1,
                     hs_maxchainlen := (if bk_count b > hs_maxchainlen st then bk_count b else hs_maxchainlen st)\<rparr>;
         let tab = tab\<lparr>tb_held := held, tb_buckets := (tb_buckets tab)[i := b], tb_stats := st\<rparr>;
         (r, tab) \<leftarrow>
           (if bk_count b = 1 then
              let st = tb_stats tab; st = st\<lparr>hs_fill := hs_fill st + 1\<rparr>; tab = tab\<lparr>tb_stats := st\<rparr>
              in if (hs_fill st * 100) div (tb_size tab + 1) > tb_fillmax tab
                 then tab_resize alloc_buckets tab
                 else Some (Inr (), tab)
            else Some (Inr (), tab));
         Some (r, tab\<lparr>tb_held := lockmgr_unlock (tb_locking tab) (tb_held tab)\<rparr>) }"

text \<open>On a collision, and when no node can be allocated, the bucket lock is not released (\<open>goto _done\<close>).\<close>

definition insert_internal ::
  "('d \<Rightarrow> u32) \<Rightarrow> ('d \<Rightarrow> 'd \<Rightarrow> int) \<Rightarrow> bool \<Rightarrow> bool \<Rightarrow> 'd hash_table \<Rightarrow> 'd \<Rightarrow> insert_mode \<Rightarrow>
   ((unit res \<times> 'd) \<times> 'd hash_table) option" where
  "insert_internal hash cmp alloc_node alloc_buckets tab data mode =
    do { let hv = hashfunc hash tab data;
         let i = slot_of (tb_size tab) hv;
         b \<leftarrow> get_at (tb_buckets tab) i;
         held \<leftarrow> lockmgr_lock (tb_locking tab) (bk_held b);
         let b = b\<lparr>bk_held := held\<rparr>;
         let miss = (\<lambda>p. \<not> node_matches cmp hv data p);
         case dropWhile miss (bk_head b) of
           e # es \<Rightarrow>
             let (r, old, e, tab) = on_collision mode data e tab;
                 b = b\<lparr>bk_head := takeWhile miss (bk_head b) @ e # es\<rparr>
             in Some ((r, old), tab\<lparr>tb_buckets := (tb_buckets tab)[i := b]\<rparr>)
         | [] \<Rightarrow>
             if \<not> alloc_node then Some ((Inl ENOMEM, data), tab\<lparr>tb_buckets := (tb_buckets tab)[i := b]\<rparr>)
             else
               let b = b\<lparr>bk_head := \<lparr>nd_hash = hv, nd_data = data\<rparr> # bk_head b,
                         bk_held := lockmgr_unlock (tb_locking tab) held\<rparr>
               in do { (r, tab) \<leftarrow> insert_account alloc_buckets i (tab\<lparr>tb_buckets := (tb_buckets tab)[i := b]\<rparr>);
                       Some ((r, data), tab) } }"

definition hash_table_insert ::
  "('d \<Rightarrow> u32) \<Rightarrow> ('d \<Rightarrow> 'd \<Rightarrow> int) \<Rightarrow> bool \<Rightarrow> bool \<Rightarrow> 'd hash_table \<Rightarrow> 'd option \<Rightarrow> (unit res \<times> 'd hash_table) option" where
  "hash_table_insert hash cmp an ab tab data =
    (case data of None \<Rightarrow> Some (Inl EINVAL, tab)
     | Some d \<Rightarrow> map_option (apfst fst) (insert_internal hash cmp an ab tab d TAB_NODUP))"

definition hash_table_replace ::
  "('d \<Rightarrow> u32) \<Rightarrow> ('d \<Rightarrow> 'd \<Rightarrow> int) \<Rightarrow> bool \<Rightarrow> bool \<Rightarrow> 'd hash_table \<Rightarrow> 'd option \<Rightarrow> (unit res \<times> 'd hash_table) option" where
  "hash_table_replace hash cmp an ab tab data =
    (case data of None \<Rightarrow> Some (Inl EINVAL, tab)
     | Some d \<Rightarrow> map_option (apfst fst) (insert_internal hash cmp an ab tab d TAB_REPLACE))"

definition hash_table_probe ::
  "('d \<Rightarrow> u32) \<Rightarrow> ('d \<Rightarrow> 'd \<Rightarrow> int) \<Rightarrow> bool \<Rightarrow> bool \<Rightarrow> 'd hash_table \<Rightarrow> 'd option \<Rightarrow> ('d option \<times> 'd hash_table) option" where
  "hash_table_probe hash cmp an ab tab data =
    (case data of None \<Rightarrow> Some (None, tab)
     | Some d \<Rightarrow> map_option (apfst (\<lambda>(r, old). if r = Inr () then Some old else None))
                   (insert_internal hash cmp an ab tab d TAB_PROBE))"

section \<open>Lookup and removal\<close>

definition hash_table_lookup ::
  "('d \<Rightarrow> u32) \<Rightarrow> ('d \<Rightarrow> 'd \<Rightarrow> int) \<Rightarrow> 'd hash_table \<Rightarrow> 'd option \<Rightarrow> ((bool res \<times> 'd option) \<times> 'd hash_table) option" where
  "hash_table_lookup hash cmp tab key =
    (case key of None \<Rightarrow> Some ((Inl EINVAL, None), tab)
     | Some k \<Rightarrow>
        do { let hv = hashfunc hash tab k;
             let i = slot_of (tb_size tab) hv;
             b \<leftarrow> get_at (tb_buckets tab) i;
             held \<leftarrow> lockmgr_lock (tb_locking tab) (bk_held b);
             let ret = map_option nd_data (find (node_matches cmp hv k) (bk_head b));
             let b = b\<lparr>bk_held := lockmgr_unlock (tb_locking tab) held\<rparr>;
             let st = tb_stats tab;
             let st = (if ret \<noteq> None then st\<lparr>hs_lookups := hs_lookups st + 1\<rparr>
                       else st\<lparr>hs_failed_lookups := hs_failed_lookups st + 1\<rparr>);
             Some ((Inr (ret \<noteq> None), ret), tab\<lparr>tb_buckets := (tb_buckets tab)[i := b], tb_stats := st\<rparr>) })"

text \<open>\<open>remove_node\<close>: \<open>cnt\<close> is the count of the bucket, \<open>chain\<close> its list once the node is unlinked.\<close>

definition remove_node ::
  "'d hash_table \<Rightarrow> u64 \<Rightarrow> 'd hash_node list \<Rightarrow> 'd \<Rightarrow> ('d hash_table \<times> u64) option" where
  "remove_node tab cnt chain d =
    (let tab = run_dtor d tab; st = tb_stats tab;
         st = st\<lparr>hs_deletes := hs_deletes st + 1, hs_nodes := hs_nodes st - 1\<rparr>;
         cnt = cnt - 1
     in if cnt = 0
        then (if chain = [] then Some (tab\<lparr>tb_stats := st\<lparr>hs_fill := hs_fill st - 1\<rparr>\<rparr>, cnt) else None)
        else (if chain \<noteq> [] then Some (tab\<lparr>tb_stats := st\<rparr>, cnt) else None))"

text \<open>
  The loop of \<open>hash_table_remove\<close> and \<open>hash_table_remove_if\<close> over a chain: \<open>kept\<close> is the part behind \<open>p_next\<close>. It returns the new
  chain, the table, the count and the data of the removed nodes.
\<close>

fun remove_loop ::
  "('d hash_node \<Rightarrow> bool) \<Rightarrow> 'd hash_node list \<Rightarrow> 'd hash_node list \<Rightarrow> 'd hash_table \<Rightarrow> u64 \<Rightarrow>
   ('d hash_node list \<times> 'd hash_table \<times> u64 \<times> 'd list) option" where
  "remove_loop P kept [] tab cnt = Some (kept, tab, cnt, [])"
| "remove_loop P kept (p # ps) tab cnt =
    (if P p then
       do { (tab, cnt) \<leftarrow> remove_node tab cnt (kept @ ps) (nd_data p);
            (chain, tab, cnt, gone) \<leftarrow> remove_loop P kept ps tab cnt;
            Some (chain, tab, cnt, nd_data p # gone) }
     else remove_loop P (kept @ [p]) ps tab cnt)"

definition remove_bucket ::
  "('d hash_node \<Rightarrow> bool) \<Rightarrow> nat \<Rightarrow> 'd hash_table \<Rightarrow> ('d list \<times> 'd hash_table) option" where
  "remove_bucket P i tab =
    do { b \<leftarrow> get_at (tb_buckets tab) i;
         held \<leftarrow> lockmgr_lock (tb_locking tab) (bk_held b);
         (chain, tab, cnt, gone) \<leftarrow> remove_loop P [] (bk_head b) tab (bk_count b);
         let b = b\<lparr>bk_head := chain, bk_count := cnt, bk_held := lockmgr_unlock (tb_locking tab) held\<rparr>;
         Some (gone, tab\<lparr>tb_buckets := (tb_buckets tab)[i := b]\<rparr>) }"

definition hash_table_remove ::
  "('d \<Rightarrow> u32) \<Rightarrow> ('d \<Rightarrow> 'd \<Rightarrow> int) \<Rightarrow> 'd hash_table \<Rightarrow> 'd option \<Rightarrow> ((unit res \<times> 'd option) \<times> 'd hash_table) option" where
  "hash_table_remove hash cmp tab key =
    (case key of None \<Rightarrow> Some ((Inl EINVAL, None), tab)
     | Some k \<Rightarrow>
        do { let hv = hashfunc hash tab k;
             (gone, tab) \<leftarrow> remove_bucket (node_matches cmp hv k) (slot_of (tb_size tab) hv) tab;
             Some (if gone = [] then (Inl ENOENT, None) else (Inr (), Some (last gone)), tab) })"

fun remove_if_loop ::
  "('d \<Rightarrow> bool) \<Rightarrow> nat list \<Rightarrow> nat \<Rightarrow> 'd hash_table \<Rightarrow> (nat \<times> 'd hash_table) option" where
  "remove_if_loop pred [] n tab = Some (n, tab)"
| "remove_if_loop pred (i # is) n tab =
    do { (gone, tab) \<leftarrow> remove_bucket (\<lambda>p. pred (nd_data p)) i tab;
         remove_if_loop pred is (n + length gone) tab }"

definition hash_table_remove_if :: "('d \<Rightarrow> bool) \<Rightarrow> 'd hash_table \<Rightarrow> (nat \<times> 'd hash_table) option" where
  "hash_table_remove_if pred tab =
    do { held \<leftarrow> lockmgr_lock (tb_locking tab) (tb_held tab);
         (n, tab) \<leftarrow> remove_if_loop pred [0..<unat (tb_size tab)] 0 (tab\<lparr>tb_held := held\<rparr>);
         Some (n, tab\<lparr>tb_held := lockmgr_unlock (tb_locking tab) (tb_held tab)\<rparr>) }"

text \<open>\<open>hash_table_apply\<close>: the sequence of elements the function is called on.\<close>

fun apply_loop :: "bool \<Rightarrow> 'd hash_bucket list \<Rightarrow> 'd list option" where
  "apply_loop on [] = Some []"
| "apply_loop on (b # bs) =
    do { held \<leftarrow> lockmgr_lock on (bk_held b);
         ds \<leftarrow> apply_loop on bs;
         Some (map nd_data (bk_head b) @ ds) }"

definition hash_table_apply :: "'d hash_table \<Rightarrow> 'd list option" where
  "hash_table_apply tab =
    do { held \<leftarrow> lockmgr_lock (tb_locking tab) (tb_held tab); apply_loop (tb_locking tab) (tb_buckets tab) }"

definition hash_table_stats :: "'d hash_table \<Rightarrow> hash_table_stat option" where
  "hash_table_stats tab =
    do { held \<leftarrow> lockmgr_lock (tb_locking tab) (tb_held tab);
         Some ((tb_stats tab)\<lparr>hs_size := tb_size tab\<rparr>) }"

section \<open>Well-formed tables\<close>

text \<open>
  \<open>key\<close> names the equivalence classes of the comparison function; equal elements must hash alike. \<open>hv\<close> below is the
  hash of a key after the table's random seed has been mixed in.
\<close>

definition policy_ok :: "('d \<Rightarrow> 'k) \<Rightarrow> ('k \<Rightarrow> u32) \<Rightarrow> ('d \<Rightarrow> u32) \<Rightarrow> ('d \<Rightarrow> 'd \<Rightarrow> int) \<Rightarrow> bool" where
  "policy_ok key hk hash cmp \<longleftrightarrow> (\<forall>a b. cmp a b = 0 \<longleftrightarrow> key a = key b) \<and> (\<forall>a. hash a = hk (key a))"

abbreviation (input) nkey :: "('d \<Rightarrow> 'k) \<Rightarrow> 'd hash_node \<Rightarrow> 'k" where
  "nkey key p \<equiv> key (nd_data p)"

definition bucket_ok :: "('d \<Rightarrow> 'k) \<Rightarrow> ('k \<Rightarrow> u32) \<Rightarrow> u64 \<Rightarrow> nat \<Rightarrow> 'd hash_bucket \<Rightarrow> bool" where
  "bucket_ok key hv sz i b \<longleftrightarrow> bk_count b = of_nat (length (bk_head b)) \<and> \<not> bk_held b \<and>
     (\<forall>p\<in>set (bk_head b). nd_hash p = hv (nkey key p) \<and> slot_of sz (hv (nkey key p)) = i) \<and>
     distinct (map (nkey key) (bk_head b))"

definition bks_ok :: "('d \<Rightarrow> 'k) \<Rightarrow> ('k \<Rightarrow> u32) \<Rightarrow> u64 \<Rightarrow> 'd hash_bucket list \<Rightarrow> bool" where
  "bks_ok key hv sz bs \<longleftrightarrow> length bs = unat sz \<and> (\<forall>i<length bs. bucket_ok key hv sz i (bs ! i))"

definition filled :: "'d hash_bucket list \<Rightarrow> nat" where
  "filled bs = length (filter (\<lambda>b. bk_head b \<noteq> []) bs)"

abbreviation all_nodes :: "'d hash_bucket list \<Rightarrow> 'd hash_node list" where
  "all_nodes bs \<equiv> entries bk_head bs"

definition bk_ent :: "('d \<Rightarrow> 'k) \<Rightarrow> 'd hash_bucket \<Rightarrow> ('k \<times> 'd) list" where
  "bk_ent key b = map (\<lambda>p. (nkey key p, nd_data p)) (bk_head b)"

definition tab_abs :: "('d \<Rightarrow> 'k) \<Rightarrow> 'd hash_table \<Rightarrow> 'k \<rightharpoonup> 'd" where
  "tab_abs key tab = map_of (entries (bk_ent key) (tb_buckets tab))"

definition seeded :: "u32 \<Rightarrow> ('k \<Rightarrow> u32) \<Rightarrow> 'k \<Rightarrow> u32" where
  "seeded rnd hk k = rnd XOR hk k"

abbreviation tab_hv :: "('k \<Rightarrow> u32) \<Rightarrow> 'd hash_table \<Rightarrow> 'k \<Rightarrow> u32" where
  "tab_hv hk tab \<equiv> seeded (tb_random tab) hk"

definition tab_inv :: "('d \<Rightarrow> 'k) \<Rightarrow> ('k \<Rightarrow> u32) \<Rightarrow> 'd hash_table \<Rightarrow> bool" where
  "tab_inv key hk tab \<longleftrightarrow> 0 < tb_size tab \<and> bks_ok key (tab_hv hk tab) (tb_size tab) (tb_buckets tab) \<and>
     hs_nodes (tb_stats tab) = of_nat (length (all_nodes (tb_buckets tab))) \<and>
     hs_fill (tb_stats tab) = of_nat (filled (tb_buckets tab))"

text \<open>
  The six counters of operations are \<open>int\<close>s in the source. \<open>counters_ok p\<close> bounds each of them by \<open>p\<close>, so while \<open>p\<close> is below \<open>2^31\<close> none of their
  increments overflows and the 32-bit word is the value of the \<open>int\<close>.
\<close>

definition counters_ok :: "nat \<Rightarrow> 'd hash_table \<Rightarrow> bool" where
  "counters_ok p tab \<longleftrightarrow> (let st = tb_stats tab in
     unat (hs_deletes st) + length (all_nodes (tb_buckets tab)) \<le> p \<and> unat (hs_splits st) \<le> p \<and> unat (hs_inserts st) \<le> p \<and>
     unat (hs_lookups st) \<le> p \<and> unat (hs_failed_lookups st) \<le> p \<and> unat (hs_replaces st) \<le> p)"

lemma unat_inc_le: "unat (w + 1) \<le> Suc (unat w)"
  by (simp add: unat_word_ariths)

lemma counters_ok_mono: "counters_ok p tab \<Longrightarrow> p \<le> q \<Longrightarrow> counters_ok q tab"
  by (auto simp: counters_ok_def Let_def)

lemma counters_ok_len: "counters_ok p tab \<Longrightarrow> length (all_nodes (tb_buckets tab)) \<le> p"
  by (auto simp: counters_ok_def Let_def)

definition tab_core :: "('d \<Rightarrow> 'k) \<Rightarrow> ('k \<Rightarrow> u32) \<Rightarrow> nat \<Rightarrow> 'd hash_table \<Rightarrow> bool" where
  "tab_core key hk p tab \<longleftrightarrow> tab_inv key hk tab \<and> counters_ok p tab \<and>
     unat (tb_size tab) \<le> max (2 ^ 30) (100 * p) \<and> 1 \<le> tb_fillmax tab"

definition tab_wf :: "('d \<Rightarrow> 'k) \<Rightarrow> ('k \<Rightarrow> u32) \<Rightarrow> nat \<Rightarrow> 'd hash_table \<Rightarrow> bool" where
  "tab_wf key hk p tab \<longleftrightarrow> tab_core key hk p tab \<and> \<not> tb_held tab"

lemma lock_free [simp]: "lockmgr_lock on False = Some on" "lockmgr_unlock on on = False" "lockmgr_unlock on False = False"
  by (simp_all add: lockmgr_lock_def lockmgr_unlock_def)

lemma slot_less: "0 < sz \<Longrightarrow> slot_of sz h < unat sz"
proof -
  assume "0 < sz"
  then have "unat (sz - 1) < unat sz"
    by (simp add: unat_minus_one word_gt_0 unat_gt_0)
  moreover have "unat (ucast h AND (sz - 1)) \<le> unat (sz - 1)"
    using word_and_le1 [of "ucast h" "sz - 1"] by (simp add: word_le_nat_alt)
  ultimately show ?thesis by (simp add: slot_of_def)
qed

lemma filled_update:
  "i < length bs \<Longrightarrow> filled (bs[i := b]) + (if bk_head (bs ! i) = [] then 0 else 1) =
     filled bs + (if bk_head b = [] then 0 else 1)"
proof (induction bs arbitrary: i)
  case (Cons x bs)
  show ?case
  proof (cases i)
    case (Suc j)
    then show ?thesis using Cons.prems Cons.IH [of j] by (simp add: filled_def split: if_splits)
  qed (simp add: filled_def)
qed simp

lemma filled_le: "filled bs \<le> length (all_nodes bs)"
proof (induction bs)
  case (Cons b bs)
  then show ?case by (cases "bk_head b") (auto simp: filled_def)
qed (simp add: filled_def)

lemma ent_nodes: "entries (bk_ent key) bs = map (\<lambda>p. (nkey key p, nd_data p)) (all_nodes bs)"
  by (induction bs) (simp_all add: bk_ent_def)

lemma bks_ok_hashed: "bks_ok key hv sz bs \<Longrightarrow> hashed (bk_ent key) (\<lambda>k. slot_of sz (hv k)) bs"
  unfolding hashed_def bks_ok_def bucket_ok_def bk_ent_def by (force simp: comp_def)

lemma bks_ok_distinct: "bks_ok key hv sz bs \<Longrightarrow> distinct (map (nkey key) (all_nodes bs))"
  using hashed_distinct [OF bks_ok_hashed] by (simp add: ent_nodes comp_def)

lemma bks_ok_update:
  assumes "bks_ok key hv sz bs" "bucket_ok key hv sz i b"
  shows "bks_ok key hv sz (bs[i := b])"
  using assms all_idx_update [of bs "bucket_ok key hv sz" i b] by (simp add: bks_ok_def)

lemma bks_ok_fresh: "bks_ok key hv sz (replicate (unat sz) zero_bucket)" "all_nodes (replicate n zero_bucket) = []"
  "filled (replicate n zero_bucket) = 0"
  by (auto simp: bks_ok_def bucket_ok_def zero_bucket_def entries_def filled_def)

lemma chain_le: "i < length bs \<Longrightarrow> length (bk_head (bs ! i)) \<le> length (all_nodes bs)"
  by (auto simp: entries_def length_concat intro!: member_le_sum_list)

section \<open>Adding a node\<close>

lemma push_node:
  assumes ok: "bks_ok key hv sz bs" and sz: "0 < sz" and p: "nd_hash p = hv (nkey key p)"
    and new: "nkey key p \<notin> nkey key ` set (all_nodes bs)" and len: "length (all_nodes bs) < 2 ^ 52"
  defines "j \<equiv> slot_of sz (nd_hash p)"
  defines "nb \<equiv> (bs ! j)\<lparr>bk_head := p # bk_head (bs ! j), bk_count := bk_count (bs ! j) + 1\<rparr>"
  shows "j < length bs" "bks_ok key hv sz (bs[j := nb])"
    "mset (all_nodes (bs[j := nb])) = add_mset p (mset (all_nodes bs))"
    "of_nat (filled (bs[j := nb])) = (if bk_count nb = 1 then of_nat (filled bs) + 1 else of_nat (filled bs) :: u64)"
proof -
  show j: "j < length bs" using slot_less [OF sz] ok by (simp add: j_def bks_ok_def)
  have b: "bucket_ok key hv sz j (bs ! j)" using ok j by (simp add: bks_ok_def)
  have "set (bk_head (bs ! j)) \<subseteq> set (all_nodes bs)" using j by (auto simp: in_entries)
  then have "nkey key p \<notin> nkey key ` set (bk_head (bs ! j))" using new by blast
  then have "bucket_ok key hv sz j nb" using b p by (auto simp: bucket_ok_def nb_def j_def)
  then show "bks_ok key hv sz (bs[j := nb])" by (rule bks_ok_update [OF ok])
  show "mset (all_nodes (bs[j := nb])) = add_mset p (mset (all_nodes bs))"
    by (rule entries_add [OF j]) (simp add: nb_def)
  have "length (bk_head (bs ! j)) < 2 ^ 52" using chain_le [OF j] len by simp
  then have "bk_count nb = 1 \<longleftrightarrow> bk_head (bs ! j) = []"
    using of_nat_u64_eq [of "length (bk_head (bs ! j))" 0] b by (simp add: nb_def bucket_ok_def)
  then show "of_nat (filled (bs[j := nb])) = (if bk_count nb = 1 then of_nat (filled bs) + 1 else of_nat (filled bs) :: u64)"
    using filled_update [OF j, of nb] by (auto simp: nb_def split: if_splits)
qed

lemma resize_chain_ok:
  assumes "bks_ok key hv sz bs" "0 < sz" "\<forall>p\<in>set ps. nd_hash p = hv (nkey key p)"
    "distinct (map (nkey key) (ps @ all_nodes bs))" "length ps + length (all_nodes bs) < 2 ^ 52"
  shows "\<exists>bs' mx'. resize_chain sz ps (bs, of_nat (filled bs), mx) = Some (bs', of_nat (filled bs'), mx') \<and>
     bks_ok key hv sz bs' \<and> mset (all_nodes bs') = mset ps + mset (all_nodes bs)"
  using assms
proof (induction ps arbitrary: bs mx)
  case (Cons p ps)
  let ?j = "slot_of sz (nd_hash p)"
  let ?nb = "(bs ! ?j)\<lparr>bk_head := p # bk_head (bs ! ?j), bk_count := bk_count (bs ! ?j) + 1\<rparr>"
  let ?bs = "bs[?j := ?nb]" and ?mx = "if bk_count ?nb > mx then bk_count ?nb else mx"
  have new: "nkey key p \<notin> nkey key ` set (all_nodes bs)" using Cons.prems(4) by simp
  note pn = push_node [OF Cons.prems(1,2) _ new]
  have pn: "?j < length bs" "bks_ok key hv sz ?bs" "mset (all_nodes ?bs) = add_mset p (mset (all_nodes bs))"
    "of_nat (filled ?bs) = (if bk_count ?nb = 1 then of_nat (filled bs) + 1 else of_nat (filled bs) :: u64)"
    using pn Cons.prems(3,5) by simp_all
  have ms: "mset (map (nkey key) (ps @ all_nodes ?bs)) = mset (map (nkey key) ((p # ps) @ all_nodes bs))"
    using pn(3) by simp
  have "distinct (map (nkey key) (ps @ all_nodes ?bs))"
    using Cons.prems(4) mset_eq_imp_distinct_iff [OF ms] by simp
  moreover have "length (all_nodes ?bs) = Suc (length (all_nodes bs))"
    using pn(3) by (metis size_add_mset size_mset)
  ultimately have "\<exists>bs' mx'. resize_chain sz ps (?bs, of_nat (filled ?bs), ?mx) = Some (bs', of_nat (filled bs'), mx') \<and>
     bks_ok key hv sz bs' \<and> mset (all_nodes bs') = mset ps + mset (all_nodes ?bs)"
    using Cons.prems pn(2) by (intro Cons.IH) simp_all
  moreover have "resize_chain sz (p # ps) (bs, of_nat (filled bs), mx) = resize_chain sz ps (?bs, of_nat (filled ?bs), ?mx)"
    using pn(1,4) by (simp add: get_at_in put_at_in Let_def)
  ultimately show ?case using pn(3) by simp
qed simp

lemma resize_all_ok:
  assumes "bks_ok key hv sz bs" "0 < sz" "\<forall>b\<in>set old. \<not> bk_held b" "i + length old \<le> unat sz"
    "\<forall>p\<in>set (all_nodes old). nd_hash p = hv (nkey key p)"
    "distinct (map (nkey key) (all_nodes old @ all_nodes bs))" "length (all_nodes old) + length (all_nodes bs) < 2 ^ 52"
  shows "\<exists>bs' mx'. resize_all on sz i old (bs, of_nat (filled bs), mx) = Some (bs', of_nat (filled bs'), mx') \<and>
     bks_ok key hv sz bs' \<and> mset (all_nodes bs') = mset (all_nodes old) + mset (all_nodes bs)"
  using assms
proof (induction old arbitrary: i bs mx)
  case (Cons b old)
  obtain bs1 mx1 where 1: "resize_chain sz (bk_head b) (bs, of_nat (filled bs), mx) = Some (bs1, of_nat (filled bs1), mx1)"
      "bks_ok key hv sz bs1" "mset (all_nodes bs1) = mset (bk_head b) + mset (all_nodes bs)"
  proof -
    have "distinct (map (nkey key) (bk_head b @ all_nodes bs))" using Cons.prems(6) by auto
    then show ?thesis
      using that resize_chain_ok [OF Cons.prems(1,2), of "bk_head b" mx] Cons.prems(5,7) by auto
  qed
  have i: "i < length bs1" using 1(2) Cons.prems(4) by (simp add: bks_ok_def)
  have "\<not> bk_held (bs1 ! i)" using 1(2) i by (simp add: bks_ok_def bucket_ok_def)
  then have "(bs1 ! i)\<lparr>bk_held := False\<rparr> = bs1 ! i" by (cases "bs1 ! i") simp
  then have same: "bs1[i := (bs1 ! i)\<lparr>bk_held := False\<rparr>] = bs1" by (simp add: list_update_id)
  have ms: "mset (map (nkey key) (all_nodes old @ all_nodes bs1)) = mset (map (nkey key) (all_nodes (b # old) @ all_nodes bs))"
    using 1(3) by simp
  have "distinct (map (nkey key) (all_nodes old @ all_nodes bs1))"
    using Cons.prems(6) mset_eq_imp_distinct_iff [OF ms] by simp
  moreover have "length (all_nodes bs1) = length (bk_head b) + length (all_nodes bs)"
    using 1(3) by (metis size_union size_mset)
  ultimately have "\<exists>bs' mx'. resize_all on sz (Suc i) old (bs1, of_nat (filled bs1), mx1) = Some (bs', of_nat (filled bs'), mx') \<and>
     bks_ok key hv sz bs' \<and> mset (all_nodes bs') = mset (all_nodes old) + mset (all_nodes bs1)"
    using Cons.prems 1(2) by (intro Cons.IH) simp_all
  moreover have "resize_all on sz i (b # old) (bs, of_nat (filled bs), mx) =
      resize_all on sz (Suc i) old (bs1, of_nat (filled bs1), mx1)"
    using 1(1) i same Cons.prems(3) by (simp add: get_at_in put_at_in)
  ultimately show ?case using 1(3) by (simp add: ac_simps)
qed simp

lemma tab_resize_ok:
  assumes inv: "tab_inv key hk tab" and len: "length (all_nodes (tb_buckets tab)) < 2 ^ 52" and sz: "unat (tb_size tab) < 2 ^ 57"
  shows "\<exists>tab'. tab_resize True tab = Some (Inr (), tab') \<and> tab_inv key hk tab' \<and>
     mset (all_nodes (tb_buckets tab')) = mset (all_nodes (tb_buckets tab)) \<and>
     unat (tb_size tab') = 2 * unat (tb_size tab) \<and> tb_fillmax tab' = tb_fillmax tab \<and>
     (\<forall>p. counters_ok p tab \<longrightarrow> unat (hs_splits (tb_stats tab)) < p \<longrightarrow> counters_ok p tab') \<and>
     tb_locking tab' = tb_locking tab \<and> tb_held tab' = tb_held tab \<and> tb_dtored tab' = tb_dtored tab \<and> tb_dtor tab' = tb_dtor tab"
proof -
  let ?n = "push_bit 1 (tb_size tab)" and ?bs = "tb_buckets tab" and ?hv = "tab_hv hk tab"
  have ok: "bks_ok key ?hv (tb_size tab) ?bs" and pos: "0 < tb_size tab" using inv by (simp_all add: tab_inv_def)
  have n: "unat ?n = 2 * unat (tb_size tab)" using sz by (simp add: push_bit_eq_mult unat_word_ariths)
  have pos': "0 < ?n" using pos n by (simp add: word_less_nat_alt)
  have nodes: "\<forall>p\<in>set (all_nodes ?bs). nd_hash p = ?hv (nkey key p)"
    using ok by (auto simp: in_entries bks_ok_def bucket_ok_def)
  have held: "\<forall>b\<in>set ?bs. \<not> bk_held b" using ok by (auto simp: in_set_conv_nth bks_ok_def bucket_ok_def)
  have l: "length ?bs = unat (tb_size tab)" using ok by (simp add: bks_ok_def)
  have "\<exists>bs' mx'. resize_all (tb_locking tab) ?n 0 ?bs (replicate (unat ?n) zero_bucket, of_nat (filled (replicate (unat ?n) zero_bucket :: 'a hash_bucket list)), 0) =
      Some (bs', of_nat (filled bs'), mx') \<and> bks_ok key ?hv ?n bs' \<and>
      mset (all_nodes bs') = mset (all_nodes ?bs) + mset (all_nodes (replicate (unat ?n) zero_bucket))"
    using pos' held nodes bks_ok_distinct [OF ok] len l n
    by (intro resize_all_ok bks_ok_fresh(1)) (simp_all add: bks_ok_fresh(2))
  then obtain bs' mx' where bs': "resize_all (tb_locking tab) ?n 0 ?bs (replicate (unat ?n) zero_bucket, 0, 0) =
      Some (bs', of_nat (filled bs'), mx')" "bks_ok key ?hv ?n bs'" "mset (all_nodes bs') = mset (all_nodes ?bs)"
    by (auto simp: bks_ok_fresh)
  have "unat ?n * 56 < 2 ^ 64" using n sz by simp
  then have eq: "tab_resize True tab = Some (Inr (), tab\<lparr>tb_buckets := bs', tb_size := ?n,
      tb_stats := (tb_stats tab)\<lparr>hs_splits := hs_splits (tb_stats tab) + 1, hs_maxchainlen := mx', hs_fill := of_nat (filled bs')\<rparr>\<rparr>)"
    using bs'(1) by (simp add: tab_resize_def Let_def)
  show ?thesis
    unfolding eq using inv pos' bs'(2,3) n mset_eq_length [OF bs'(3)] unat_inc_le [of "hs_splits (tb_stats tab)"]
    by (auto simp: tab_inv_def counters_ok_def Let_def)
qed

section \<open>Searching a chain\<close>

lemma dropWhile_none: "(\<forall>p\<in>set ps. Q p) \<Longrightarrow> dropWhile Q ps = []"
  by (simp add: dropWhile_eq_Nil_conv)

text \<open>In a well-formed bucket the nodes a search matches are those with the key.\<close>

lemma matches_iff:
  assumes pol: "policy_ok key hk hash cmp" and b: "bucket_ok key (tab_hv hk tab) sz i b" and p: "p \<in> set (bk_head b)"
  shows "node_matches cmp (hashfunc hash tab k) k p \<longleftrightarrow> nkey key p = key k"
  using assms by (auto simp: node_matches_def policy_ok_def bucket_ok_def hashfunc_def seeded_def)

lemma tab_bucket:
  fixes k :: 'd
  assumes inv: "tab_inv key hk tab" and pol: "policy_ok key hk hash cmp"
  defines "i \<equiv> slot_of (tb_size tab) (hashfunc hash tab k)"
  shows "i < length (tb_buckets tab)" "bucket_ok key (tab_hv hk tab) (tb_size tab) i (tb_buckets tab ! i)"
    "tab_abs key tab (key k) = map_of (bk_ent key (tb_buckets tab ! i)) (key k)"
proof -
  have ok: "bks_ok key (tab_hv hk tab) (tb_size tab) (tb_buckets tab)" and pos: "0 < tb_size tab"
    using inv by (simp_all add: tab_inv_def)
  have hv: "hashfunc hash tab k = tab_hv hk tab (key k)" using pol by (simp add: hashfunc_def seeded_def policy_ok_def)
  show i: "i < length (tb_buckets tab)" using slot_less [OF pos] ok by (simp add: i_def bks_ok_def)
  then show "bucket_ok key (tab_hv hk tab) (tb_size tab) i (tb_buckets tab ! i)" using ok by (simp add: bks_ok_def)
  show "tab_abs key tab (key k) = map_of (bk_ent key (tb_buckets tab ! i)) (key k)"
    using hashed_lookup [OF bks_ok_hashed [OF ok], of "key k"] i by (simp add: tab_abs_def i_def hv)
qed

lemma bk_ent_None: "map_of (bk_ent key b) k = None \<longleftrightarrow> (\<forall>p\<in>set (bk_head b). nkey key p \<noteq> k)"
  by (force simp: bk_ent_def map_of_eq_None_iff)

text \<open>The chain of a present key splits around its only node.\<close>

lemma bk_ent_Some:
  assumes "bucket_ok key hv sz i b" "map_of (bk_ent key b) k = Some d"
  shows "\<exists>xs p ys. bk_head b = xs @ p # ys \<and> nd_data p = d \<and> key d = k \<and> (\<forall>q\<in>set (xs @ ys). nkey key q \<noteq> k)"
proof -
  from map_of_SomeD [OF assms(2)] obtain p where p: "p \<in> set (bk_head b)" "nkey key p = k" "nd_data p = d"
    by (auto simp: bk_ent_def)
  from split_list [OF p(1)] obtain xs ys where "bk_head b = xs @ p # ys" by blast
  moreover from this have "distinct (map (nkey key) (xs @ p # ys))" using assms(1) by (simp add: bucket_ok_def)
  then have "k \<notin> nkey key ` set xs" "k \<notin> nkey key ` set ys" unfolding p(2) [symmetric] by simp_all
  then have "\<forall>q\<in>set (xs @ ys). nkey key q \<noteq> k" unfolding set_append by blast
  ultimately show ?thesis using p(2,3) by (intro exI [of _ xs] exI [of _ p] exI [of _ ys]) simp
qed

section \<open>Inserting a new key\<close>

lemma nodes_distinct_ent: "bks_ok key hv sz bs \<Longrightarrow> distinct (map fst (entries (bk_ent key) bs))"
  using bks_ok_distinct by (fastforce simp: ent_nodes comp_def)

lemma nodes_add_abs:
  assumes "mset (all_nodes bs') = add_mset p (mset (all_nodes bs))" "bks_ok key hv sz bs'"
  shows "map_of (entries (bk_ent key) bs') = (map_of (entries (bk_ent key) bs))(nkey key p \<mapsto> nd_data p)"
proof (rule map_of_add(1))
  show "distinct (map fst (entries (bk_ent key) bs'))" using nodes_distinct_ent [OF assms(2)] .
  show "mset (entries (bk_ent key) bs') = add_mset (nkey key p, nd_data p) (mset (entries (bk_ent key) bs))"
    using assms(1) by (simp add: ent_nodes)
qed

lemma nodes_same_abs:
  assumes "mset (all_nodes bs') = mset (all_nodes bs)" "bks_ok key hv sz bs'"
  shows "map_of (entries (bk_ent key) bs') = map_of (entries (bk_ent key) bs)"
  using assms nodes_distinct_ent [OF assms(2)] by (intro map_of_distinct_mset) (simp_all add: ent_nodes)

text \<open>The growth test of \<open>insert_internal\<close>.\<close>

definition grow :: "bool \<Rightarrow> 'd hash_table \<Rightarrow> (unit res \<times> 'd hash_table) option" where
  "grow ab tab = (if (hs_fill (tb_stats tab) * 100) div (tb_size tab + 1) > tb_fillmax tab then tab_resize ab tab
                  else Some (Inr (), tab))"

lemma grow_ok:
  assumes inv: "tab_inv key hk tab" and ctr: "counters_ok (Suc p) tab" "unat (hs_splits (tb_stats tab)) \<le> p" and p: "p < 2 ^ 50"
    and sz: "unat (tb_size tab) \<le> max (2 ^ 30) (100 * p)" and fm: "1 \<le> tb_fillmax tab"
  shows "\<exists>r tab'. grow ab tab = Some (r, tab') \<and> (r = Inr () \<or> \<not> ab \<and> r = Inl ENOMEM) \<and> tab_core key hk (Suc p) tab' \<and>
     mset (all_nodes (tb_buckets tab')) = mset (all_nodes (tb_buckets tab)) \<and>
     tb_locking tab' = tb_locking tab \<and> tb_held tab' = tb_held tab \<and> tb_dtored tab' = tb_dtored tab \<and> tb_dtor tab' = tb_dtor tab"
proof (cases "(hs_fill (tb_stats tab) * 100) div (tb_size tab + 1) > tb_fillmax tab")
  case False
  then show ?thesis using assms by (auto simp: grow_def tab_core_def)
next
  case True
  let ?f = "filled (tb_buckets tab)"
  note len = counters_ok_len [OF ctr(1)]
  have f: "?f \<le> Suc p" using filled_le [of "tb_buckets tab"] len by simp
  have uf: "unat (hs_fill (tb_stats tab) * 100) = 100 * ?f"
    using f p inv by (simp add: tab_inv_def unat_word_ariths unat_of_nat)
  have us: "unat (tb_size tab + 1) = Suc (unat (tb_size tab))"
    using sz p by (simp add: unat_word_ariths)
  have "1 < (hs_fill (tb_stats tab) * 100) div (tb_size tab + 1)" using True fm by (meson le_less_trans)
  then have "2 \<le> (100 * ?f) div Suc (unat (tb_size tab))"
    by (simp add: word_less_nat_alt unat_div uf us)
  then have "2 * Suc (unat (tb_size tab)) \<le> 100 * ?f"
    by (metis less_eq_div_iff_mult_less_eq zero_less_Suc)
  then have s2: "2 * unat (tb_size tab) \<le> 100 * Suc p" using f by simp
  have "unat (tb_size tab) < 2 ^ 57" using s2 p by simp
  moreover have "length (all_nodes (tb_buckets tab)) < 2 ^ 52" using len p by simp
  ultimately obtain tab' where t: "tab_resize True tab = Some (Inr (), tab')" "tab_inv key hk tab'"
     "mset (all_nodes (tb_buckets tab')) = mset (all_nodes (tb_buckets tab))"
     "unat (tb_size tab') = 2 * unat (tb_size tab)" "tb_fillmax tab' = tb_fillmax tab" "counters_ok (Suc p) tab'"
     "tb_locking tab' = tb_locking tab" "tb_held tab' = tb_held tab" "tb_dtored tab' = tb_dtored tab" "tb_dtor tab' = tb_dtor tab"
    using tab_resize_ok [OF inv] ctr le_imp_less_Suc by blast
  have "tab_core key hk (Suc p) tab'" using t s2 fm by (simp add: tab_core_def)
  then show ?thesis using True t inv ctr(1) sz fm by (cases ab) (auto simp: grow_def tab_resize_def tab_core_def)
qed

lemma insert_internal_absent:
  assumes "hv = hashfunc hash tab d" "i = slot_of (tb_size tab) hv" "i < length (tb_buckets tab)" "tb_buckets tab ! i = b"
    "\<not> bk_held b" "\<forall>p\<in>set (bk_head b). \<not> node_matches cmp hv d p"
  shows "insert_internal hash cmp True ab tab d mode =
     map_option (apfst (\<lambda>r. (r, d)))
       (insert_account ab i (tab\<lparr>tb_buckets := (tb_buckets tab)[i := b\<lparr>bk_head := \<lparr>nd_hash = hv, nd_data = d\<rparr> # bk_head b\<rparr>]\<rparr>))"
proof -
  have same: "b\<lparr>bk_head := xs, bk_held := False\<rparr> = b\<lparr>bk_head := xs\<rparr>" for xs using assms(5) by (cases b) simp
  show ?thesis
    using assms(3-5)
    by (simp add: same insert_internal_def Let_def get_at_in assms(1,2) [symmetric] dropWhile_none [OF assms(6)]
        map_option_case split: option.splits)
qed

lemma insert_account_eq:
  assumes "i < length (tb_buckets tab)" "tb_buckets tab ! i = b" "\<not> tb_held tab" "nb = b\<lparr>bk_count := bk_count b + 1\<rparr>"
    "st = (tb_stats tab)\<lparr>hs_inserts := hs_inserts (tb_stats tab) + 1, hs_nodes := hs_nodes (tb_stats tab) + 1,
      hs_maxchainlen := (if bk_count nb > hs_maxchainlen (tb_stats tab) then bk_count nb else hs_maxchainlen (tb_stats tab)),
      hs_fill := (if bk_count nb = 1 then hs_fill (tb_stats tab) + 1 else hs_fill (tb_stats tab))\<rparr>"
    "t = tab\<lparr>tb_held := tb_locking tab, tb_buckets := (tb_buckets tab)[i := nb], tb_stats := st\<rparr>"
    "(if bk_count nb = 1 then grow ab t else Some (Inr (), t)) = Some (r, t')" "tb_locking t' = tb_locking tab"
    "tb_held t' = tb_locking tab"
  shows "insert_account ab i tab = Some (r, t'\<lparr>tb_held := False\<rparr>)"
  using assms(3,7-9) unfolding assms(6,5,4)
  by (auto simp: insert_account_def Let_def get_at_in [OF assms(1)] assms(2) grow_def split: if_splits)

lemma tab_core_simps [simp]:
  "tab_core key hk p (tab\<lparr>tb_held := h\<rparr>) = tab_core key hk p tab" "tab_abs key (tab\<lparr>tb_held := h\<rparr>) = tab_abs key tab"
  by (simp_all add: tab_core_def tab_inv_def tab_abs_def counters_ok_def)

lemma insert_new_ok:
  assumes wf: "tab_wf key hk p tab" and pol: "policy_ok key hk hash cmp" and p: "p < 2 ^ 50"
    and new: "tab_abs key tab (key d) = None"
  shows "\<exists>r tab'. insert_internal hash cmp True ab tab d mode = Some ((r, d), tab') \<and>
     (r = Inr () \<or> \<not> ab \<and> r = Inl ENOMEM) \<and> tab_wf key hk (Suc p) tab' \<and>
     tab_abs key tab' = (tab_abs key tab)(key d \<mapsto> d) \<and> tb_locking tab' = tb_locking tab \<and> tb_dtored tab' = tb_dtored tab \<and>
     tb_dtor tab' = tb_dtor tab"
proof -
  have inv: "tab_inv key hk tab" and ctr: "counters_ok p tab" and nh: "\<not> tb_held tab"
    using wf by (simp_all add: tab_wf_def tab_core_def)
  note len = counters_ok_len [OF ctr]
  have ok: "bks_ok key (tab_hv hk tab) (tb_size tab) (tb_buckets tab)" and pos: "0 < tb_size tab"
    using inv by (simp_all add: tab_inv_def)
  define hv where "hv = hashfunc hash tab d"
  define i where "i = slot_of (tb_size tab) hv"
  define b where "b = tb_buckets tab ! i"
  define n where "n = \<lparr>nd_hash = hv, nd_data = d\<rparr>"
  define nb where "nb = b\<lparr>bk_head := n # bk_head b, bk_count := bk_count b + 1\<rparr>"
  define bs where "bs = (tb_buckets tab)[i := nb]"
  note bk = tab_bucket [OF inv pol, of d, folded hv_def, folded i_def, folded b_def]
  have miss: "\<forall>p\<in>set (bk_head b). \<not> node_matches cmp hv d p"
    using new bk(3) matches_iff [OF pol bk(2), of _ d] unfolding hv_def by (simp add: bk_ent_None)
  have held: "\<not> bk_held b" using bk(2) by (simp add: bucket_ok_def)
  have hn: "nd_hash n = tab_hv hk tab (nkey key n)"
    using pol by (simp add: n_def hv_def hashfunc_def seeded_def policy_ok_def)
  have fresh: "nkey key n \<notin> nkey key ` set (all_nodes (tb_buckets tab))"
    using new by (force simp: n_def tab_abs_def ent_nodes map_of_eq_None_iff)
  have ni: "slot_of (tb_size tab) (nd_hash n) = i" by (simp add: n_def i_def)
  have "length (all_nodes (tb_buckets tab)) < 2 ^ 52" using len p by simp
  note pn = push_node(2-4) [OF ok pos hn fresh this, unfolded ni, folded b_def, folded nb_def, folded bs_def]
  define st where "st = (tb_stats tab)\<lparr>hs_inserts := hs_inserts (tb_stats tab) + 1, hs_nodes := hs_nodes (tb_stats tab) + 1,
      hs_maxchainlen := (if bk_count nb > hs_maxchainlen (tb_stats tab) then bk_count nb else hs_maxchainlen (tb_stats tab)),
      hs_fill := (if bk_count nb = 1 then hs_fill (tb_stats tab) + 1 else hs_fill (tb_stats tab))\<rparr>"
  define t where "t = tab\<lparr>tb_held := tb_locking tab, tb_buckets := bs, tb_stats := st\<rparr>"
  have len': "length (all_nodes bs) = Suc (length (all_nodes (tb_buckets tab)))"
    using pn(2) by (metis size_add_mset size_mset)
  have inv': "tab_inv key hk t"
    using inv pn(1,3) len' by (simp add: tab_inv_def t_def st_def)
  have ctr': "counters_ok (Suc p) t" "unat (hs_splits (tb_stats t)) \<le> p"
    using ctr len' unat_inc_le [of "hs_inserts (tb_stats tab)"] by (simp_all add: counters_ok_def t_def st_def Let_def)
  have "\<exists>r tab'. (if bk_count nb = 1 then grow ab t else Some (Inr (), t)) = Some (r, tab') \<and>
     (r = Inr () \<or> \<not> ab \<and> r = Inl ENOMEM) \<and> tab_core key hk (Suc p) tab' \<and>
     mset (all_nodes (tb_buckets tab')) = mset (all_nodes bs) \<and>
     tb_locking tab' = tb_locking tab \<and> tb_held tab' = tb_locking tab \<and> tb_dtored tab' = tb_dtored tab \<and> tb_dtor tab' = tb_dtor tab"
  proof (cases "bk_count nb = 1")
    case True
    then show ?thesis using grow_ok [OF inv' ctr' p, of ab] wf by (auto simp: tab_wf_def tab_core_def t_def)
  next
    case False
    then show ?thesis using inv' ctr'(1) wf by (auto simp: tab_wf_def tab_core_def t_def)
  qed
  then obtain r tab' where r: "r = Inr () \<or> \<not> ab \<and> r = Inl ENOMEM"
     and t: "(if bk_count nb = 1 then grow ab t else Some (Inr (), t)) = Some (r, tab')"
     "tab_core key hk (Suc p) tab'" "mset (all_nodes (tb_buckets tab')) = mset (all_nodes bs)"
     "tb_locking tab' = tb_locking tab" "tb_held tab' = tb_locking tab" "tb_dtored tab' = tb_dtored tab" "tb_dtor tab' = tb_dtor tab" by blast
  let ?tab1 = "tab\<lparr>tb_buckets := (tb_buckets tab)[i := b\<lparr>bk_head := n # bk_head b\<rparr>]\<rparr>"
  have "insert_account ab i ?tab1 = Some (r, tab'\<lparr>tb_held := False\<rparr>)"
    by (rule insert_account_eq [of _ _ "b\<lparr>bk_head := n # bk_head b\<rparr>" nb st t])
       (use bk(1) nh t in \<open>simp_all add: nb_def st_def t_def bs_def\<close>)
  then have "insert_internal hash cmp True ab tab d mode = Some ((r, d), tab'\<lparr>tb_held := False\<rparr>)"
    using insert_internal_absent [OF hv_def i_def bk(1) b_def [symmetric] held miss, of ab mode] by (simp add: n_def)
  moreover have "bks_ok key (tab_hv hk tab') (tb_size tab') (tb_buckets tab')"
    using t(2) by (simp add: tab_core_def tab_inv_def)
  from nodes_same_abs [OF t(3) this] have "tab_abs key tab' = (tab_abs key tab)(key d \<mapsto> d)"
    using nodes_add_abs [OF pn(2,1)] by (simp add: tab_abs_def n_def)
  ultimately show ?thesis using r t by (auto simp: tab_wf_def)
qed

section \<open>Collisions\<close>

lemma collision_eq:
  assumes "hv = hashfunc hash tab d" "i = slot_of (tb_size tab) hv" "i < length (tb_buckets tab)" "tb_buckets tab ! i = b"
    "\<not> bk_held b" "bk_head b = xs @ e # ys" "\<forall>p\<in>set xs. \<not> node_matches cmp hv d p" "node_matches cmp hv d e"
  shows "insert_internal hash cmp an ab tab d mode =
     (case on_collision mode d e tab of (r, old, e', tab') \<Rightarrow>
        Some ((r, old), tab'\<lparr>tb_buckets := (tb_buckets tab')[i := b\<lparr>bk_held := tb_locking tab, bk_head := xs @ e' # ys\<rparr>]\<rparr>))"
proof -
  have tw: "takeWhile (\<lambda>p. \<not> node_matches cmp hv d p) (xs @ e # ys) = xs"
    "dropWhile (\<lambda>p. \<not> node_matches cmp hv d p) (xs @ e # ys) = e # ys"
    using assms(7,8) by (simp_all add: takeWhile_tail dropWhile_append)
  show ?thesis
    using assms(3-5)
    by (simp add: insert_internal_def Let_def get_at_in assms(1,2) [symmetric] assms(6) tw split: prod.splits)
qed

text \<open>The node of a present key.\<close>

lemma tab_present:
  assumes inv: "tab_inv key hk tab" and pol: "policy_ok key hk hash cmp" and old: "tab_abs key tab (key d) = Some w"
  defines "hv \<equiv> hashfunc hash tab d"
  defines "b \<equiv> tb_buckets tab ! slot_of (tb_size tab) hv"
  shows "\<exists>xs e ys. bk_head b = xs @ e # ys \<and> nd_data e = w \<and> key w = key d \<and> node_matches cmp hv d e \<and>
     (\<forall>p\<in>set (xs @ ys). \<not> node_matches cmp hv d p) \<and> \<not> bk_held b"
proof -
  note bk = tab_bucket [OF inv pol, of d, folded hv_def, folded b_def]
  from bk_ent_Some [OF bk(2)] bk(3) old obtain xs e ys where
    e: "bk_head b = xs @ e # ys" "nd_data e = w" "key w = key d" "\<forall>q\<in>set (xs @ ys). nkey key q \<noteq> key d" by metis
  have "node_matches cmp hv d p \<longleftrightarrow> nkey key p = key d" if "p \<in> set (bk_head b)" for p
    unfolding hv_def by (rule matches_iff [OF pol bk(2) that])
  then show ?thesis using e bk(2) by (intro exI [of _ xs] exI [of _ e] exI [of _ ys]) (auto simp: bucket_ok_def)
qed

lemma insert_dup_ok:
  assumes inv: "tab_inv key hk tab" and pol: "policy_ok key hk hash cmp" and old: "tab_abs key tab (key d) = Some w"
    and nolock: "\<not> tb_locking tab"
  shows "insert_internal hash cmp an ab tab d TAB_NODUP = Some ((Inl EEXIST, w), tab)"
    "insert_internal hash cmp an ab tab d TAB_PROBE = Some ((Inr (), w), tab)"
proof -
  note bk = tab_bucket [OF inv pol, of d]
  from tab_present [OF inv pol old] obtain xs e ys where
    e: "bk_head (tb_buckets tab ! slot_of (tb_size tab) (hashfunc hash tab d)) = xs @ e # ys" "nd_data e = w"
      "node_matches cmp (hashfunc hash tab d) d e" "\<forall>p\<in>set (xs @ ys). \<not> node_matches cmp (hashfunc hash tab d) d p"
      "\<not> bk_held (tb_buckets tab ! slot_of (tb_size tab) (hashfunc hash tab d))" by blast
  have same: "b\<lparr>bk_held := False, bk_head := bk_head b\<rparr> = b" if "\<not> bk_held b" for b :: "'a hash_bucket"
    using that by (cases b) simp
  note eq = collision_eq [OF refl refl bk(1) refl e(5,1) _ e(3), of an ab]
  show "insert_internal hash cmp an ab tab d TAB_NODUP = Some ((Inl EEXIST, w), tab)"
    "insert_internal hash cmp an ab tab d TAB_PROBE = Some ((Inr (), w), tab)"
    using eq e(2,4) nolock same [OF e(5), unfolded e(1)] by simp_all
qed

lemma insert_replace_ok:
  assumes wf: "tab_wf key hk n tab" and pol: "policy_ok key hk hash cmp" and old: "tab_abs key tab (key d) = Some w"
    and nolock: "\<not> tb_locking tab"
  shows "\<exists>tab'. insert_internal hash cmp an ab tab d TAB_REPLACE = Some ((Inr (), w), tab') \<and> tab_wf key hk (Suc n) tab' \<and>
     tab_abs key tab' = (tab_abs key tab)(key d \<mapsto> d) \<and> tb_locking tab' = tb_locking tab \<and>
     tb_dtored tab' = tb_dtored tab @ (if tb_dtor tab then [w] else [])"
proof -
  have inv: "tab_inv key hk tab" using wf by (simp add: tab_wf_def tab_core_def)
  have ok: "bks_ok key (tab_hv hk tab) (tb_size tab) (tb_buckets tab)" using inv by (simp add: tab_inv_def)
  define hv where "hv = hashfunc hash tab d"
  define i where "i = slot_of (tb_size tab) hv"
  define b where "b = tb_buckets tab ! i"
  note bk = tab_bucket [OF inv pol, of d, folded hv_def, folded i_def, folded b_def]
  from tab_present [OF inv pol old, folded hv_def, folded i_def, folded b_def] obtain xs e ys where
    e: "bk_head b = xs @ e # ys" "nd_data e = w" "key w = key d" "node_matches cmp hv d e"
      "\<forall>p\<in>set (xs @ ys). \<not> node_matches cmp hv d p" "\<not> bk_held b" by blast
  let ?e = "e\<lparr>nd_data := d\<rparr>"
  define nb where "nb = b\<lparr>bk_held := False, bk_head := xs @ ?e # ys\<rparr>"
  define bs where "bs = (tb_buckets tab)[i := nb]"
  have nb: "bucket_ok key (tab_hv hk tab) (tb_size tab) i nb"
  proof -
    have "\<forall>p\<in>set (bk_head b). nd_hash p = tab_hv hk tab (nkey key p) \<and> slot_of (tb_size tab) (tab_hv hk tab (nkey key p)) = i"
      using bk(2) unfolding bucket_ok_def by blast
    then have "\<forall>p\<in>set (xs @ ?e # ys). nd_hash p = tab_hv hk tab (nkey key p) \<and> slot_of (tb_size tab) (tab_hv hk tab (nkey key p)) = i"
      using e(1-3) by simp
    moreover have "map (nkey key) (xs @ ?e # ys) = map (nkey key) (bk_head b)" using e(1-3) by simp
    moreover have "length (xs @ ?e # ys) = length (bk_head b)" using e(1) by simp
    ultimately show ?thesis using bk(2) unfolding bucket_ok_def nb_def by (simp del: map_append length_append)
  qed
  then have ok': "bks_ok key (tab_hv hk tab) (tb_size tab) bs" unfolding bs_def by (rule bks_ok_update [OF ok])
  have "mset (entries (bk_ent key) bs) + mset (bk_ent key b) = mset (entries (bk_ent key) (tb_buckets tab)) + mset (bk_ent key nb)"
    unfolding bs_def b_def by (rule entries_update [OF bk(1)])
  then have ms: "mset (entries (bk_ent key) bs) + {#(key d, w)#} =
      mset (entries (bk_ent key) (tb_buckets tab)) + (case Some d of None \<Rightarrow> {#} | Some v \<Rightarrow> {#(key d, v)#})"
    using e(1-3) by (simp add: bk_ent_def nb_def)
  note sw = entry_swap [OF ms nodes_distinct_ent [OF ok] old [unfolded tab_abs_def]]
  have len: "length (all_nodes bs) = length (all_nodes (tb_buckets tab))"
    using sw(3) by (simp add: ent_nodes)
  have fl: "filled bs = filled (tb_buckets tab)"
    using filled_update [OF bk(1), of nb] e(1) by (simp add: bs_def nb_def b_def [symmetric])
  let ?tab = "tab\<lparr>tb_dtored := tb_dtored tab @ (if tb_dtor tab then [w] else []), tb_buckets := bs,
     tb_stats := (tb_stats tab)\<lparr>hs_replaces := hs_replaces (tb_stats tab) + 1\<rparr>\<rparr>"
  have "insert_internal hash cmp an ab tab d TAB_REPLACE = Some ((Inr (), w), ?tab)"
    using collision_eq [OF hv_def i_def bk(1) b_def [symmetric] e(6,1) _ e(4), of an ab TAB_REPLACE] e(2,5) nolock
    by (simp add: run_dtor_def Let_def bs_def nb_def)
  moreover have "counters_ok (Suc n) ?tab"
    using wf len unat_inc_le [of "hs_replaces (tb_stats tab)"] by (simp add: tab_wf_def tab_core_def counters_ok_def Let_def)
  then have "tab_wf key hk (Suc n) ?tab"
    using wf ok' len fl by (auto simp: tab_wf_def tab_core_def tab_inv_def)
  moreover have "tab_abs key ?tab = (tab_abs key tab)(key d \<mapsto> d)" using sw(1) by (simp add: tab_abs_def)
  ultimately show ?thesis by simp
qed

section \<open>Lookup\<close>

lemma lookup_ok:
  assumes wf: "tab_wf key hk n tab" and pol: "policy_ok key hk hash cmp"
  shows "\<exists>tab'. hash_table_lookup hash cmp tab (Some k) =
       Some ((Inr (tab_abs key tab (key k) \<noteq> None), tab_abs key tab (key k)), tab') \<and> tab_wf key hk (Suc n) tab' \<and>
     tab_abs key tab' = tab_abs key tab \<and> tb_locking tab' = tb_locking tab \<and> tb_dtored tab' = tb_dtored tab"
proof -
  have inv: "tab_inv key hk tab" using wf by (simp add: tab_wf_def tab_core_def)
  define hv where "hv = hashfunc hash tab k"
  define i where "i = slot_of (tb_size tab) hv"
  define b where "b = tb_buckets tab ! i"
  note bk = tab_bucket [OF inv pol, of k, folded hv_def, folded i_def, folded b_def]
  have held: "\<not> bk_held b" using bk(2) by (simp add: bucket_ok_def)
  have m: "node_matches cmp hv k p \<longleftrightarrow> nkey key p = key k" if "p \<in> set (bk_head b)" for p
    unfolding hv_def by (rule matches_iff [OF pol bk(2) that])
  have ret: "map_option nd_data (find (node_matches cmp hv k) (bk_head b)) = tab_abs key tab (key k)"
  proof (cases "tab_abs key tab (key k)")
    case None
    then have "\<forall>p\<in>set (bk_head b). \<not> node_matches cmp hv k p" using bk(3) m by (simp add: bk_ent_None)
    then have "find (node_matches cmp hv k) (bk_head b) = None" by (simp add: find_None_iff)
    then show ?thesis using None by simp
  next
    case (Some w)
    from tab_present [OF inv pol Some, folded hv_def, folded i_def, folded b_def] obtain xs e ys where
      e: "bk_head b = xs @ e # ys" "nd_data e = w" "node_matches cmp hv k e"
        "\<forall>p\<in>set (xs @ ys). \<not> node_matches cmp hv k p" by blast
    have "find (node_matches cmp hv k) (xs @ e # ys) = Some e"
      using e(3,4) by (induction xs) simp_all
    then show ?thesis using Some e by simp
  qed
  have same: "b\<lparr>bk_held := False\<rparr> = b" using held by (cases b) simp
  have bs: "(tb_buckets tab)[i := b] = tb_buckets tab" by (simp add: b_def)
  define st where "st = (if tab_abs key tab (key k) \<noteq> None then (tb_stats tab)\<lparr>hs_lookups := hs_lookups (tb_stats tab) + 1\<rparr>
     else (tb_stats tab)\<lparr>hs_failed_lookups := hs_failed_lookups (tb_stats tab) + 1\<rparr>)"
  have "hash_table_lookup hash cmp tab (Some k) =
      Some ((Inr (tab_abs key tab (key k) \<noteq> None), tab_abs key tab (key k)), tab\<lparr>tb_stats := st\<rparr>)"
    using bk(1) held ret [symmetric]
    by (cases "find (node_matches cmp hv k) (bk_head b)")
       (simp_all add: hash_table_lookup_def Let_def get_at_in hv_def [symmetric] i_def [symmetric] b_def [symmetric] bs same
        st_def)
  moreover have "counters_ok (Suc n) (tab\<lparr>tb_stats := st\<rparr>)"
    using wf unat_inc_le [of "hs_lookups (tb_stats tab)"] unat_inc_le [of "hs_failed_lookups (tb_stats tab)"]
    by (simp add: tab_wf_def tab_core_def counters_ok_def Let_def st_def)
  then have "tab_wf key hk (Suc n) (tab\<lparr>tb_stats := st\<rparr>)"
    using wf by (auto simp: tab_wf_def tab_core_def tab_inv_def st_def)
  ultimately show ?thesis by (auto simp: tab_abs_def)
qed

section \<open>Removal\<close>

lemma remove_loop_ok:
  assumes "cnt = of_nat (length kept + length ps)" "length kept + length ps < 2 ^ 64"
  shows "remove_loop P kept ps tab cnt =
    (let gone = map nd_data (filter P ps); chain = kept @ filter (\<lambda>p. \<not> P p) ps; st = tb_stats tab in
     Some (chain,
       tab\<lparr>tb_dtored := tb_dtored tab @ (if tb_dtor tab then gone else []),
           tb_stats := st\<lparr>hs_deletes := hs_deletes st + of_nat (length gone), hs_nodes := hs_nodes st - of_nat (length gone),
             hs_fill := (if gone \<noteq> [] \<and> chain = [] then hs_fill st - 1 else hs_fill st)\<rparr>\<rparr>,
       of_nat (length chain), gone))"
  using assms
proof (induction ps arbitrary: kept tab cnt)
  case (Cons p ps)
  show ?case
  proof (cases "P p")
    case True
    have c: "cnt - 1 = of_nat (length kept + length ps)" using Cons.prems(1) by simp
    have z: "cnt - 1 = 0 \<longleftrightarrow> kept @ ps = []"
      using of_nat_u64_eq [of "length kept + length ps" 0] Cons.prems(2) unfolding c by simp
    note IH = Cons.IH [OF c]
    show ?thesis
    proof (cases "kept @ ps = []")
      case nil: True
      then show ?thesis using z True by (simp add: remove_node_def run_dtor_def Let_def)
    next
      case False
      then have "filter P ps \<noteq> []" if "kept @ filter (\<lambda>p. \<not> P p) ps = []"
        using that by (cases ps) auto
      then show ?thesis
        using z True False IH Cons.prems(2) by (auto simp: remove_node_def run_dtor_def Let_def algebra_simps)
    qed
  next
    case False
    then show ?thesis using Cons.IH [of cnt "kept @ [p]"] Cons.prems by (simp add: Let_def)
  qed
qed (simp add: Let_def)

lemma remove_bucket_ok:
  assumes core: "tab_core key hk n tab" and i: "i < length (tb_buckets tab)" and n: "n < 2 ^ 64"
  defines "b \<equiv> tb_buckets tab ! i"
  shows "\<exists>tab' b'. remove_bucket P i tab = Some (map nd_data (filter P (bk_head b)), tab') \<and> tab_core key hk n tab' \<and>
     tb_buckets tab' = (tb_buckets tab)[i := b'] \<and> bk_head b' = filter (\<lambda>p. \<not> P p) (bk_head b) \<and>
     tb_locking tab' = tb_locking tab \<and> tb_held tab' = tb_held tab \<and> tb_size tab' = tb_size tab"
proof -
  have ok: "bks_ok key (tab_hv hk tab) (tb_size tab) (tb_buckets tab)" using core by (simp add: tab_core_def tab_inv_def)
  have bk: "bucket_ok key (tab_hv hk tab) (tb_size tab) i b" using ok i by (simp add: bks_ok_def b_def)
  let ?gone = "filter P (bk_head b)" and ?chain = "filter (\<lambda>p. \<not> P p) (bk_head b)"
  define b' where "b' = b\<lparr>bk_head := ?chain, bk_count := of_nat (length ?chain), bk_held := False\<rparr>"
  define bs where "bs = (tb_buckets tab)[i := b']"
  have b': "bucket_ok key (tab_hv hk tab) (tb_size tab) i b'"
    using bk by (simp add: bucket_ok_def b'_def distinct_map_filter)
  then have ok': "bks_ok key (tab_hv hk tab) (tb_size tab) bs" unfolding bs_def by (rule bks_ok_update [OF ok])
  have len: "length (all_nodes bs) + length (bk_head b) = length (all_nodes (tb_buckets tab)) + length ?chain"
    using arg_cong [OF entries_update [OF i, of bk_head b'], of size]
    by (simp add: bs_def b'_def b_def del: mset_filter)
  have split: "length ?gone + length ?chain = length (bk_head b)" by (rule sum_length_filter_compl)
  have l: "length (bk_head b) < 2 ^ 64"
    using chain_le [OF i] core n counters_ok_len [of n tab] by (simp add: tab_core_def b_def)
  let ?st = "tb_stats tab"
  define st where "st = ?st\<lparr>hs_deletes := hs_deletes ?st + of_nat (length ?gone), hs_nodes := hs_nodes ?st - of_nat (length ?gone),
      hs_fill := (if ?gone \<noteq> [] \<and> ?chain = [] then hs_fill ?st - 1 else hs_fill ?st)\<rparr>"
  define tab' where "tab' = tab\<lparr>tb_dtored := tb_dtored tab @ (if tb_dtor tab then map nd_data ?gone else []),
      tb_stats := st, tb_buckets := bs\<rparr>"
  have eq: "remove_bucket P i tab = Some (map nd_data ?gone, tab')"
    using remove_loop_ok [of "bk_count b" "[]" "bk_head b" P tab] bk l i
    by (simp add: remove_bucket_def get_at_in bucket_ok_def b_def [symmetric] Let_def tab'_def st_def bs_def b'_def)
  have nd: "hs_nodes ?st - of_nat (length ?gone) = (of_nat (length (all_nodes bs)) :: u64)"
  proof -
    have "length (all_nodes (tb_buckets tab)) = length (all_nodes bs) + length ?gone" using len split by simp
    then show ?thesis using core by (simp add: tab_core_def tab_inv_def)
  qed
  have fl: "(if ?gone \<noteq> [] \<and> ?chain = [] then hs_fill ?st - 1 else hs_fill ?st) = (of_nat (filled bs) :: u64)"
  proof -
    have "filled bs + (if bk_head b = [] then 0 else 1) = filled (tb_buckets tab) + (if ?chain = [] then 0 else 1)"
      using filled_update [OF i, of b'] by (simp add: bs_def b'_def b_def)
    moreover have "?gone \<noteq> [] \<and> ?chain = [] \<longleftrightarrow> bk_head b \<noteq> [] \<and> ?chain = []" using split by auto
    moreover have "bk_head b = [] \<Longrightarrow> ?chain = []" by simp
    moreover have "hs_fill ?st = of_nat (filled (tb_buckets tab))" using core by (simp add: tab_core_def tab_inv_def)
    moreover have "(of_nat (filled (tb_buckets tab)) :: u64) - 1 = of_nat (filled bs)" if "Suc (filled bs) = filled (tb_buckets tab)"
      unfolding that [symmetric] by simp
    ultimately show ?thesis by (auto split: if_splits)
  qed
  have "unat (hs_deletes ?st + of_nat (length ?gone)) \<le> unat (hs_deletes ?st) + length ?gone"
    by (simp add: unat_word_ariths unat_of_nat)
  then have "counters_ok n tab'"
    using core len split by (simp add: tab_core_def counters_ok_def Let_def tab'_def st_def)
  then have "tab_core key hk n tab'"
    using core ok' nd fl by (simp add: tab_core_def tab_inv_def tab'_def st_def)
  then show ?thesis using eq by (auto simp: tab'_def bs_def b'_def)
qed

lemma remove_ok:
  assumes wf: "tab_wf key hk n tab" and pol: "policy_ok key hk hash cmp" and n: "n < 2 ^ 64"
  shows "\<exists>tab'. hash_table_remove hash cmp tab (Some k) =
       Some (case tab_abs key tab (key k) of None \<Rightarrow> (Inl ENOENT, None) | Some w \<Rightarrow> (Inr (), Some w), tab') \<and>
     tab_wf key hk n tab' \<and> tab_abs key tab' = (tab_abs key tab)(key k := None) \<and> tb_locking tab' = tb_locking tab"
proof -
  have core: "tab_core key hk n tab" and inv: "tab_inv key hk tab" using wf by (simp_all add: tab_wf_def tab_core_def)
  have ok: "bks_ok key (tab_hv hk tab) (tb_size tab) (tb_buckets tab)" using inv by (simp add: tab_inv_def)
  define hv where "hv = hashfunc hash tab k"
  define i where "i = slot_of (tb_size tab) hv"
  define b where "b = tb_buckets tab ! i"
  let ?P = "node_matches cmp hv k"
  note bk = tab_bucket [OF inv pol, of k, folded hv_def, folded i_def, folded b_def]
  obtain tab' b' where t: "remove_bucket ?P i tab = Some (map nd_data (filter ?P (bk_head b)), tab')"
      "tab_core key hk n tab'" "tb_buckets tab' = (tb_buckets tab)[i := b']"
      "bk_head b' = filter (\<lambda>p. \<not> ?P p) (bk_head b)" "tb_locking tab' = tb_locking tab" "tb_held tab' = tb_held tab"
    using remove_bucket_ok [OF core bk(1) n, of ?P] unfolding b_def by blast
  have eq: "hash_table_remove hash cmp tab (Some k) =
      Some (if filter ?P (bk_head b) = [] then (Inl ENOENT, None) else (Inr (), Some (last (map nd_data (filter ?P (bk_head b))))), tab')"
    using t(1) by (simp add: hash_table_remove_def hv_def [symmetric] i_def [symmetric] Let_def)
  have wf': "tab_wf key hk n tab'" using wf t(2,6) by (simp add: tab_wf_def)
  have ms: "mset (entries (bk_ent key) (tb_buckets tab')) + mset (bk_ent key b) =
      mset (entries (bk_ent key) (tb_buckets tab)) + mset (bk_ent key b')"
    unfolding t(3) b_def by (rule entries_update [OF bk(1)])
  show ?thesis
  proof (cases "tab_abs key tab (key k)")
    case None
    have "\<forall>p\<in>set (bk_head b). \<not> ?P p"
      using None bk(3) matches_iff [OF pol bk(2), of _ k] unfolding hv_def by (simp add: bk_ent_None)
    then have f: "filter ?P (bk_head b) = []" "filter (\<lambda>p. \<not> ?P p) (bk_head b) = bk_head b"
      by (simp_all add: filter_empty_conv)
    then have "mset (entries (bk_ent key) (tb_buckets tab')) = mset (entries (bk_ent key) (tb_buckets tab))"
      using ms t(4) by (simp add: bk_ent_def)
    then have "map_of (entries (bk_ent key) (tb_buckets tab)) = map_of (entries (bk_ent key) (tb_buckets tab'))"
      using nodes_distinct_ent [OF ok] by (intro map_of_distinct_mset) simp_all
    then have "tab_abs key tab' = (tab_abs key tab)(key k := None)"
      using None by (simp add: tab_abs_def fun_upd_idem)
    then show ?thesis using eq f(1) None wf' t(5) by simp
  next
    case (Some w)
    from tab_present [OF inv pol Some, folded hv_def, folded i_def, folded b_def] obtain xs e ys where
      e: "bk_head b = xs @ e # ys" "nd_data e = w" "key w = key k" "?P e" "\<forall>p\<in>set (xs @ ys). \<not> ?P p" by blast
    have f: "filter ?P (bk_head b) = [e]" "filter (\<lambda>p. \<not> ?P p) (bk_head b) = xs @ ys"
      using e by (simp_all add: filter_empty_conv)
    have "mset (entries (bk_ent key) (tb_buckets tab')) + {#(key k, w)#} =
        mset (entries (bk_ent key) (tb_buckets tab)) + (case None of None \<Rightarrow> {#} | Some v \<Rightarrow> {#(key k, v)#})"
      using ms e(1-3) unfolding bk_ent_def t(4) f(2) by simp
    from entry_swap(1) [OF this nodes_distinct_ent [OF ok] Some [unfolded tab_abs_def]]
    have "tab_abs key tab' = (tab_abs key tab)(key k := None)" by (simp add: tab_abs_def)
    then show ?thesis using eq f(1) e(2) Some wf' t(5) by simp
  qed
qed

lemma remove_if_loop_ok:
  assumes "tab_core key hk n tab" "n < 2 ^ 64" "m = length (tb_buckets tab)" "i \<le> m"
  shows "\<exists>tab'. remove_if_loop pred [i..<m] c tab =
       Some (c + length (filter (\<lambda>p. pred (nd_data p)) (all_nodes (drop i (tb_buckets tab)))), tab') \<and>
     tab_core key hk n tab' \<and> tb_locking tab' = tb_locking tab \<and> tb_held tab' = tb_held tab \<and>
     all_nodes (tb_buckets tab') = all_nodes (take i (tb_buckets tab)) @
       filter (\<lambda>p. \<not> pred (nd_data p)) (all_nodes (drop i (tb_buckets tab)))"
  using assms
proof (induction "m - i" arbitrary: i c tab)
  case 0
  then show ?case by simp
next
  case (Suc x)
  let ?P = "\<lambda>p. pred (nd_data p)" and ?bs = "tb_buckets tab"
  have i: "i < length ?bs" using Suc.hyps(2) Suc.prems(3) by simp
  obtain tab1 b' where t: "remove_bucket ?P i tab = Some (map nd_data (filter ?P (bk_head (?bs ! i))), tab1)"
      "tab_core key hk n tab1" "tb_buckets tab1 = ?bs[i := b']" "bk_head b' = filter (\<lambda>p. \<not> ?P p) (bk_head (?bs ! i))"
      "tb_locking tab1 = tb_locking tab" "tb_held tab1 = tb_held tab"
    using remove_bucket_ok [OF Suc.prems(1) i Suc.prems(2), of ?P] by blast
  have d: "drop i ?bs = ?bs ! i # drop (Suc i) ?bs" using i by (simp add: Cons_nth_drop_Suc)
  have td: "take (Suc i) (tb_buckets tab1) = take i ?bs @ [b']" "drop (Suc i) (tb_buckets tab1) = drop (Suc i) ?bs"
    using i t(3) by (simp_all add: take_Suc_conv_app_nth)
  have "\<exists>tab'. remove_if_loop pred [Suc i..<m] (c + length (filter ?P (bk_head (?bs ! i)))) tab1 =
       Some (c + length (filter ?P (bk_head (?bs ! i))) + length (filter ?P (all_nodes (drop (Suc i) (tb_buckets tab1)))), tab') \<and>
     tab_core key hk n tab' \<and> tb_locking tab' = tb_locking tab1 \<and> tb_held tab' = tb_held tab1 \<and>
     all_nodes (tb_buckets tab') = all_nodes (take (Suc i) (tb_buckets tab1)) @
       filter (\<lambda>p. \<not> ?P p) (all_nodes (drop (Suc i) (tb_buckets tab1)))"
    using Suc.hyps(2) Suc.prems(2,3) t(2,3) i by (intro Suc.hyps(1)) simp_all
  moreover have "[i..<m] = i # [Suc i..<m]" using i Suc.prems(3) by (simp add: upt_conv_Cons)
  ultimately show ?case using t td d by (auto simp: entries_append)
qed

section \<open>The table as a map\<close>

datatype 'd tab_op = TInsert 'd | TReplace 'd | TProbe 'd | TLookup 'd | TRemove 'd

text \<open>
  What a call hands back. Of a removal only the data written through \<open>p_val\<close> is recorded, not the return code: \<open>hashtab.h\<close> documents true and false, the
  code returns 0 and \<open>-ENOENT\<close> (\<open>remove_returns_zero\<close> below).
\<close>

datatype 'd tab_res = Rc "unit res" | Item "'d option" | Looked "bool res \<times> 'd option" | Gone "'d option"

fun tab_step :: "('d \<Rightarrow> u32) \<Rightarrow> ('d \<Rightarrow> 'd \<Rightarrow> int) \<Rightarrow> 'd tab_op \<Rightarrow> 'd hash_table \<Rightarrow> ('d tab_res \<times> 'd hash_table) option" where
  "tab_step hash cmp (TInsert d) tab = map_option (apfst Rc) (hash_table_insert hash cmp True True tab (Some d))"
| "tab_step hash cmp (TReplace d) tab = map_option (apfst Rc) (hash_table_replace hash cmp True True tab (Some d))"
| "tab_step hash cmp (TProbe d) tab = map_option (apfst Item) (hash_table_probe hash cmp True True tab (Some d))"
| "tab_step hash cmp (TLookup k) tab = map_option (apfst Looked) (hash_table_lookup hash cmp tab (Some k))"
| "tab_step hash cmp (TRemove k) tab = map_option (apfst (\<lambda>(rc, val). Gone val)) (hash_table_remove hash cmp tab (Some k))"

fun tab_spec :: "('d \<Rightarrow> 'k) \<Rightarrow> 'd tab_op \<Rightarrow> ('k \<rightharpoonup> 'd) \<Rightarrow> 'd tab_res \<times> ('k \<rightharpoonup> 'd)" where
  "tab_spec key (TInsert d) m = (if m (key d) = None then (Rc (Inr ()), m(key d \<mapsto> d)) else (Rc (Inl EEXIST), m))"
| "tab_spec key (TReplace d) m = (Rc (Inr ()), m(key d \<mapsto> d))"
| "tab_spec key (TProbe d) m =
    (case m (key d) of None \<Rightarrow> (Item (Some d), m(key d \<mapsto> d)) | Some w \<Rightarrow> (Item (Some w), m))"
| "tab_spec key (TLookup k) m = (Looked (Inr (m (key k) \<noteq> None), m (key k)), m)"
| "tab_spec key (TRemove k) m = (Gone (m (key k)), m(key k := None))"

text \<open>
  The comment on \<open>hash_table_replace\<close> in \<open>hashtab.c\<close> reads "replace a node iff it exists" while \<open>hashtab.h\<close> documents that an absent key is inserted:
  sequences of calls in which every replaced key is present.
\<close>

fun replaces_present :: "('d \<Rightarrow> 'k) \<Rightarrow> 'd tab_op list \<Rightarrow> ('k \<rightharpoonup> 'd) \<Rightarrow> bool" where
  "replaces_present key [] m \<longleftrightarrow> True"
| "replaces_present key (x # xs) m \<longleftrightarrow>
    (case x of TReplace d \<Rightarrow> m (key d) \<noteq> None | _ \<Rightarrow> True) \<and> replaces_present key xs (snd (tab_spec key x m))"

lemma tab_wf_mono: "tab_wf key hk n tab \<Longrightarrow> tab_wf key hk (Suc n) tab"
  by (auto simp: tab_wf_def tab_core_def intro: counters_ok_mono)

lemma tab_step_refines:
  assumes wf: "tab_wf key hk n tab" and nl: "\<not> tb_locking tab" and n: "n < 2 ^ 50" and pol: "policy_ok key hk hash cmp"
  shows "\<exists>r tab'. tab_step hash cmp x tab = Some (r, tab') \<and> (tab_wf key hk (Suc n) tab' \<and> \<not> tb_locking tab') \<and>
     (r, tab_abs key tab') = tab_spec key x (tab_abs key tab)"
proof -
  have inv: "tab_inv key hk tab" using wf by (simp add: tab_wf_def tab_core_def)
  note new = insert_new_ok [OF wf pol n, of _ True] and dup = insert_dup_ok [OF inv pol _ nl, of _ _ True True]
    and repl = insert_replace_ok [OF wf pol _ nl, of _ _ True True]
  have n64: "n < 2 ^ 64" using n by simp
  show ?thesis
  proof (cases x)
    case (TInsert d)
    show ?thesis
    proof (cases "tab_abs key tab (key d)")
      case None
      then show ?thesis using new [of d TAB_NODUP] nl TInsert by (auto simp: hash_table_insert_def)
    next
      case (Some w)
      then show ?thesis using dup(1) [OF Some] wf nl TInsert tab_wf_mono by (auto simp: hash_table_insert_def)
    qed
  next
    case (TReplace d)
    show ?thesis
    proof (cases "tab_abs key tab (key d)")
      case None
      then show ?thesis using new [of d TAB_REPLACE] nl TReplace by (auto simp: hash_table_replace_def)
    next
      case (Some w)
      then show ?thesis using repl [OF Some] nl TReplace tab_wf_mono by (fastforce simp: hash_table_replace_def)
    qed
  next
    case (TProbe d)
    show ?thesis
    proof (cases "tab_abs key tab (key d)")
      case None
      then show ?thesis using new [of d TAB_PROBE] nl TProbe by (auto simp: hash_table_probe_def)
    next
      case (Some w)
      then show ?thesis using dup(2) [OF Some] wf nl TProbe tab_wf_mono by (auto simp: hash_table_probe_def)
    qed
  next
    case (TLookup k)
    then show ?thesis using lookup_ok [OF wf pol, of k] nl tab_wf_mono by fastforce
  next
    case (TRemove k)
    then show ?thesis using remove_ok [OF wf pol n64, of k] nl tab_wf_mono [of key hk n]
      by (auto split: option.splits)
  qed
qed

lemma tab_simulation:
  "policy_ok key hk hash cmp \<Longrightarrow>
   simulation (tab_step hash cmp) (tab_spec key) (\<lambda>n t. tab_wf key hk n t \<and> \<not> tb_locking t) (tab_abs key) (\<lambda>_. True) (2 ^ 50)"
  by (rule simulation.intro) (use tab_step_refines in blast)

lemma hash_table_new_ok:
  assumes "unat (pl_logsize tr) \<le> 30"
  shows "\<exists>tab. hash_table_new True tr True True rnd = Some (Inr tab) \<and> tab_wf key hk 0 tab \<and>
     tab_abs key tab = Map.empty \<and> tb_locking tab = pl_locking tr"
proof -
  define i where "i = (if pl_logsize tr = 0 \<or> 64 \<le> pl_logsize tr then 10 else unat (pl_logsize tr))"
  have i: "i \<le> 30" using assms by (simp add: i_def)
  have "(2 :: nat) ^ i \<le> 2 ^ 30" using i by (intro power_increasing) simp_all
  moreover have u: "unat (2 ^ i :: u64) = 2 ^ i" using i by (simp add: unat_exp_u64)
  moreover have "0 < (2 ^ i :: u64)" using u by (simp add: word_less_nat_alt)
  moreover have "(1 :: u64) \<le> (if pl_fillmax tr = 0 \<or> 100 \<le> pl_fillmax tr then 80 else pl_fillmax tr)"
    by (auto simp: word_le_nat_alt Suc_le_eq unat_gt_0)
  ultimately show ?thesis
    using i bks_ok_fresh(1) [of key _ "2 ^ i"]
    by (auto simp: hash_table_new_def Let_def i_def [symmetric] tab_wf_def tab_core_def tab_inv_def bks_ok_fresh zero_stat_def
        tab_abs_def ent_nodes counters_ok_def)
qed

section \<open>Properties\<close>

text \<open>
  C2: on a table created without locks, with a comparison function that decides equality of keys and a hash that
  respects it, any sequence of fewer than \<open>2^31\<close> calls of insert, replace (of keys that are present), probe, lookup and remove returns what the abstract
  map returns (for a removal, the element handed back), including \<open>-EEXIST\<close>, without a failing assertion; at the end \<open>nodes\<close> is the number of
  elements, \<open>fill\<close> the number of non-empty buckets, and no counter of operations exceeds the number of calls, so none of the \<open>int\<close>s overflowed. The random
  seed is arbitrary; allocations succeed.
\<close>
theorem hash_table_run_refines_map:
  assumes "policy_ok key hk hash cmp" "unat (pl_logsize tr) \<le> 30" "\<not> pl_locking tr" "length xs < 2 ^ 31" "replaces_present key xs Map.empty"
  shows "\<exists>tab rs tab'. hash_table_new True tr True True rnd = Some (Inr tab) \<and>
     table_ops (tab_step hash cmp) xs tab = Some (rs, tab') \<and>
     (rs, tab_abs key tab') = spec_ops (tab_spec key) xs Map.empty \<and>
     unat (hs_nodes (tb_stats tab')) = card (dom (tab_abs key tab')) \<and>
     hs_fill (tb_stats tab') = of_nat (filled (tb_buckets tab')) \<and> counters_ok (length xs) tab'"
proof -
  obtain tab where tab: "hash_table_new True tr True True rnd = Some (Inr tab)" "tab_wf key hk 0 tab"
    "tab_abs key tab = Map.empty" "tb_locking tab = pl_locking tr"
    using hash_table_new_ok [OF assms(2), of rnd key hk] by blast
  obtain rs tab' where t: "table_ops (tab_step hash cmp) xs tab = Some (rs, tab')" "tab_wf key hk (length xs) tab'"
    "(rs, tab_abs key tab') = spec_ops (tab_spec key) xs (tab_abs key tab)"
    using simulation.run_refines [OF tab_simulation [OF assms(1)], of 0 tab xs] tab(2,4) assms(3,4)
    by (auto simp: list_all_iff)
  have ok: "bks_ok key (tab_hv hk tab') (tb_size tab') (tb_buckets tab')" and ctr: "counters_ok (length xs) tab'" and
    st: "hs_nodes (tb_stats tab') = of_nat (length (all_nodes (tb_buckets tab')))" "hs_fill (tb_stats tab') = of_nat (filled (tb_buckets tab'))"
    using t(2) by (simp_all add: tab_wf_def tab_core_def tab_inv_def)
  have "card (dom (tab_abs key tab')) = length (all_nodes (tb_buckets tab'))"
    unfolding tab_abs_def dom_map_of_conv_image_fst
    using distinct_card [OF nodes_distinct_ent [OF ok]] by (simp add: ent_nodes image_image comp_def)
  moreover have "unat (hs_nodes (tb_stats tab')) = length (all_nodes (tb_buckets tab'))"
    using st(1) counters_ok_len [OF ctr] assms(4) by (simp add: unat_of_nat)
  ultimately show ?thesis using tab t st(2) ctr by auto
qed

theorem hash_table_run_refines_map_witness:
  "\<exists>tab tab'. hash_table_new True \<lparr>pl_fillmax = 0, pl_logsize = 2, pl_dtor = False, pl_locking = False\<rparr> True True 7 = Some (Inr tab) \<and>
     table_ops (tab_step (\<lambda>(a, b). word_of_nat a) (\<lambda>(a, b) (c, d). int a - int c))
       [TInsert (1, True), TInsert (5, False), TInsert (1, False), TLookup (5, True), TRemove (1, True), TRemove (1, True),
        TReplace (5, True), TProbe (5, False)] tab =
       Some ([Rc (Inr ()), Rc (Inr ()), Rc (Inl EEXIST), Looked (Inr True, Some (5, False)), Gone (Some (1, True)),
              Gone None, Rc (Inr ()), Item (Some (5 :: nat, True))], tab') \<and>
     unat (hs_nodes (tb_stats tab')) = 1"
proof -
  have p: "policy_ok fst word_of_nat (\<lambda>(a, b). word_of_nat a) (\<lambda>(a :: nat, b :: bool) (c, d). int a - int c)"
    by (simp add: policy_ok_def)
  show ?thesis
    using hash_table_run_refines_map [OF p, of "\<lparr>pl_fillmax = 0, pl_logsize = 2, pl_dtor = False, pl_locking = False\<rparr>"
        "[TInsert (1, True), TInsert (5, False), TInsert (1, False), TLookup (5, True), TRemove (1, True), TRemove (1, True),
        TReplace (5, True), TProbe (5, False)]" 7] by auto
qed

text \<open>A successful removal returns 0, the value documented for a failure, and a failed one \<open>-ENOENT\<close>, which is true as a C condition.\<close>

theorem remove_returns_zero:
  assumes "tab_wf key hk n tab" "policy_ok key hk hash cmp" "n < 2 ^ 64"
  shows "\<exists>tab'. hash_table_remove hash cmp tab (Some k) =
    Some (case tab_abs key tab (key k) of None \<Rightarrow> (Inl ENOENT, None) | Some w \<Rightarrow> (Inr (), Some w), tab')"
  using remove_ok [OF assms] by blast

text \<open>
  On a table with locks, inserting a key that is present returns \<open>-EEXIST\<close> without releasing the bucket lock: the next
  lookup, removal or insertion of that key by anybody never returns.
\<close>
theorem duplicate_insert_deadlocks:
  assumes "policy_ok key hk hash cmp" "tab_wf key hk n tab" "tb_locking tab" "tab_abs key tab (key d) = Some w"
  shows "\<exists>tab'. hash_table_insert hash cmp an ab tab (Some d) = Some (Inl EEXIST, tab') \<and>
     hash_table_lookup hash cmp tab' (Some d) = None \<and> hash_table_remove hash cmp tab' (Some d) = None \<and>
     hash_table_insert hash cmp an' ab' tab' (Some d) = None"
proof -
  have inv: "tab_inv key hk tab" using assms(2) by (simp add: tab_wf_def tab_core_def)
  define hv where "hv = hashfunc hash tab d"
  define i where "i = slot_of (tb_size tab) hv"
  define b where "b = tb_buckets tab ! i"
  note bk = tab_bucket [OF inv assms(1), of d, folded hv_def, folded i_def, folded b_def]
  from tab_present [OF inv assms(1,4), folded hv_def, folded i_def, folded b_def] obtain xs e ys where
    e: "bk_head b = xs @ e # ys" "nd_data e = w" "node_matches cmp hv d e" "\<forall>p\<in>set (xs @ ys). \<not> node_matches cmp hv d p"
      "\<not> bk_held b" by blast
  let ?b = "b\<lparr>bk_held := True, bk_head := xs @ e # ys\<rparr>"
  let ?tab = "tab\<lparr>tb_buckets := (tb_buckets tab)[i := ?b]\<rparr>"
  have ins: "hash_table_insert hash cmp an ab tab (Some d) = Some (Inl EEXIST, ?tab)"
    using collision_eq [OF hv_def i_def bk(1) b_def [symmetric] e(5,1) _ e(3), of an ab TAB_NODUP] e(4) assms(3)
    by (simp add: hash_table_insert_def)
  have hv': "hashfunc hash ?tab d = hv" by (simp add: hv_def hashfunc_def)
  have l: "lockmgr_lock (tb_locking ?tab) (bk_held ?b) = None" using assms(3) by (simp add: lockmgr_lock_def)
  have "hash_table_lookup hash cmp ?tab (Some d) = None"
    using bk(1) l by (simp add: hash_table_lookup_def hv' i_def [symmetric] get_at_in Let_def)
  moreover have "hash_table_remove hash cmp ?tab (Some d) = None"
    using l bk(1) by (simp add: hash_table_remove_def remove_bucket_def hv' i_def [symmetric] get_at_in Let_def)
  moreover have "hash_table_insert hash cmp an' ab' ?tab (Some d) = None"
    using l bk(1) by (simp add: hash_table_insert_def insert_internal_def hv' i_def [symmetric] get_at_in Let_def)
  ultimately show ?thesis using ins by blast
qed

text \<open>
  \<open>hash_table_remove_if\<close> removes exactly the elements that satisfy the predicate, returns their number and keeps the
  table well formed (statistics included).
\<close>
theorem remove_if_removes:
  assumes "tab_wf key hk n tab" "n < 2 ^ 64"
  shows "\<exists>tab'. hash_table_remove_if pred tab =
       Some (length (filter pred (map nd_data (all_nodes (tb_buckets tab)))), tab') \<and>
     tab_wf key hk n tab' \<and>
     map nd_data (all_nodes (tb_buckets tab')) = filter (\<lambda>d. \<not> pred d) (map nd_data (all_nodes (tb_buckets tab)))"
proof -
  have core: "tab_core key hk n (tab\<lparr>tb_held := h\<rparr>)" for h using assms(1) by (simp add: tab_wf_def)
  have len: "unat (tb_size tab) = length (tb_buckets (tab\<lparr>tb_held := h\<rparr>))" for h
    using assms(1) by (simp add: tab_wf_def tab_core_def tab_inv_def bks_ok_def)
  obtain tab' where t: "remove_if_loop pred [0..<unat (tb_size tab)] 0 (tab\<lparr>tb_held := tb_locking tab\<rparr>) =
       Some (length (filter (\<lambda>p. pred (nd_data p)) (all_nodes (tb_buckets tab))), tab')"
     "tab_core key hk n tab'" "tb_locking tab' = tb_locking tab" "tb_held tab' = tb_locking tab"
     "all_nodes (tb_buckets tab') = filter (\<lambda>p. \<not> pred (nd_data p)) (all_nodes (tb_buckets tab))"
    using remove_if_loop_ok [OF core [of "tb_locking tab"] assms(2) len [of "tb_locking tab"], of 0 pred 0] by auto
  have "hash_table_remove_if pred tab =
      Some (length (filter pred (map nd_data (all_nodes (tb_buckets tab)))), tab'\<lparr>tb_held := False\<rparr>)"
    using t(1,3,4) assms(1) by (simp add: hash_table_remove_if_def tab_wf_def filter_map comp_def)
  then show ?thesis using t(2,5) by (auto simp: tab_wf_def filter_map comp_def)
qed

text \<open>
  An insertion of a new key that fails to grow the table returns \<open>-ENOMEM\<close> although the element has been inserted: whatever the
  result, the key is in the table afterwards.
\<close>
theorem failed_growth_still_inserts:
  assumes "policy_ok key hk hash cmp" "tab_wf key hk n tab" "n < 2 ^ 50" "tab_abs key tab (key d) = None"
  shows "\<exists>r tab'. hash_table_insert hash cmp True False tab (Some d) = Some (r, tab') \<and>
     (r = Inr () \<or> r = Inl ENOMEM) \<and> tab_abs key tab' = (tab_abs key tab)(key d \<mapsto> d) \<and> tab_wf key hk (Suc n) tab'"
  using insert_new_ok [OF assms(2,1,3,4), of False TAB_NODUP] by (auto simp: hash_table_insert_def)

text \<open>A table with one key and a bucket to spare, for the witnesses.\<close>

definition one_key_tab :: "bool \<Rightarrow> nat hash_table" where
  "one_key_tab lk = \<lparr>tb_buckets = [zero_bucket, \<lparr>bk_head = [\<lparr>nd_hash = 1, nd_data = 1\<rparr>], bk_count = 1, bk_held = False\<rparr>],
     tb_size = 2, tb_fillmax = 80, tb_random = 0, tb_dtor = False, tb_dtored = [], tb_locking = lk, tb_held = False,
     tb_stats = zero_stat\<lparr>hs_nodes := 1, hs_fill := 1\<rparr>\<rparr>"

lemma one_key_tab_wf: "tab_wf id word_of_nat 1 (one_key_tab lk)" "tab_abs id (one_key_tab lk) = [1 \<mapsto> 1]"
  by (auto simp: one_key_tab_def tab_wf_def tab_core_def tab_inv_def bks_ok_def bucket_ok_def counters_ok_def zero_bucket_def zero_stat_def
      filled_def less_Suc_eq seeded_def slot_of_def tab_abs_def bk_ent_def fun_eq_iff)

lemma nat_policy: "policy_ok id word_of_nat (word_of_nat :: nat \<Rightarrow> u32) (\<lambda>a b. int a - int b)"
  by (simp add: policy_ok_def)

theorem duplicate_insert_deadlocks_witness:
  "\<exists>tab'. hash_table_insert word_of_nat (\<lambda>a b. int a - int b) True True (one_key_tab True) (Some 1) = Some (Inl EEXIST, tab') \<and>
     hash_table_lookup word_of_nat (\<lambda>a b. int a - int b) tab' (Some 1) = None"
proof -
  have "tb_locking (one_key_tab True)" by (simp add: one_key_tab_def)
  then show ?thesis
    using duplicate_insert_deadlocks [OF nat_policy one_key_tab_wf(1) _, of True 1 1 True True] one_key_tab_wf(2) [of True] by auto
qed

theorem remove_if_removes_witness:
  "\<exists>tab'. hash_table_remove_if (\<lambda>d. d = 1) (one_key_tab False) = Some (1, tab') \<and> map nd_data (all_nodes (tb_buckets tab')) = []"
  using remove_if_removes [OF one_key_tab_wf(1) [of False], of "\<lambda>d. d = 1"] by (auto simp: one_key_tab_def zero_bucket_def)

theorem failed_growth_still_inserts_witness:
  "\<exists>r tab'. hash_table_insert word_of_nat (\<lambda>a b. int a - int b) True False (one_key_tab False) (Some 2) = Some (r, tab') \<and>
     (r = Inr () \<or> r = Inl ENOMEM) \<and> tab_abs id tab' = [1 \<mapsto> 1, 2 \<mapsto> 2]"
  using failed_growth_still_inserts [OF nat_policy one_key_tab_wf(1), of False 2] one_key_tab_wf(2) [of False] by auto

end
