(* ===== verification/Pack.thy ===== *)
theory Pack
  imports Encdec
begin

text \<open>
  The template packer of \<open>src/pack.c\<close>. A format is the text before the terminating NUL. The variable arguments of
  \<open>Pack\<close> are a list: an integer, or a pointer with its address and what it points to. \<open>Unpack\<close> gets for every argument
  whether the pointer is valid and returns what it stores, in order; \<open>mem\<close> says whether its allocations succeed. Counts are \<open>nat\<close>: they come
  from one digit, a 32 bit argument or a string length, so the products with the element size do not wrap. What the
  buffer holds after an error is not modelled.
\<close>

datatype pelems = E8 "u8 list" | E16 "u16 list" | E32 "u32 list" | E64 "u64 list" | EStr "u8 list"

datatype parg = Val u64 | Ptr u64 pelems

datatype pout = OCount u32 | O8 "u8 list" | O16 "u16 list" | O32 "u32 list" | O64 "u64 list" | OStr "u8 list"

text \<open>The argument taken as an integer (\<open>(ptrdiff_t)arg\<close>).\<close>

fun as_word :: "parg \<Rightarrow> u64" where
  "as_word (Val w) = w"
| "as_word (Ptr a es) = a"

text \<open>What is read through a pointer; a pointer to something else is a fault.\<close>

fun elems8 :: "parg \<Rightarrow> u8 list option" where
  "elems8 (Ptr a (E8 xs)) = Some xs"
| "elems8 (Ptr a (EStr s)) = Some (s @ [0])"
| "elems8 x = None"

fun elems16 :: "parg \<Rightarrow> u16 list option" where
  "elems16 (Ptr a (E16 xs)) = Some xs"
| "elems16 x = None"

fun elems32 :: "parg \<Rightarrow> u32 list option" where
  "elems32 (Ptr a (E32 xs)) = Some xs"
| "elems32 x = None"

fun elems64 :: "parg \<Rightarrow> u64 list option" where
  "elems64 (Ptr a (E64 xs)) = Some xs"
| "elems64 x = None"

definition take_elems :: "nat \<Rightarrow> 'a list \<Rightarrow> 'a list option" where
  "take_elems n xs = (if n \<le> length xs then Some (take n xs) else None)"

text \<open>\<open>pd->ptr\<close> is the cursor; \<open>pd->end\<close> is the end of the buffer.\<close>

definition room :: "cursor \<Rightarrow> nat \<Rightarrow> bool" where
  "room pd n \<longleftrightarrow> cu_pos pd + n \<le> length (cu_mem pd)"

section \<open>Packers\<close>

definition b_pack :: "nat \<Rightarrow> parg \<Rightarrow> cursor \<Rightarrow> cursor option" where
  "b_pack num arg pd =
    (if num = 1 then put_byte (ucast (as_word arg AND 0xff)) pd
     else do { x \<leftarrow> elems8 arg; x \<leftarrow> take_elems num x; put_bytes x pd })"

text \<open>The common shape of the integer packers: a single value is the argument itself, more are an array.\<close>

definition int_pack ::
  "(cursor \<Rightarrow> 'v \<Rightarrow> cursor option) \<Rightarrow> (u64 \<Rightarrow> 'v) \<Rightarrow> (parg \<Rightarrow> 'v list option) \<Rightarrow> nat \<Rightarrow> parg \<Rightarrow> cursor \<Rightarrow> cursor option" where
  "int_pack enc conv elems num arg pd =
    (if num = 1 then enc pd (conv (as_word arg))
     else do { x \<leftarrow> elems arg; x \<leftarrow> take_elems num x; enc_all enc x pd })"

definition le_s_pack :: "nat \<Rightarrow> parg \<Rightarrow> cursor \<Rightarrow> cursor option" where
  "le_s_pack = int_pack enc_LE_u16 (\<lambda>zz. ucast (zz AND 0xffff)) elems16"

definition be_s_pack :: "nat \<Rightarrow> parg \<Rightarrow> cursor \<Rightarrow> cursor option" where
  "be_s_pack = int_pack enc_BE_u16 (\<lambda>zz. ucast (zz AND 0xffff)) elems16"

definition le_i_pack :: "nat \<Rightarrow> parg \<Rightarrow> cursor \<Rightarrow> cursor option" where
  "le_i_pack = int_pack enc_LE_u32 (\<lambda>zz. ucast (zz AND 0xffffffff)) elems32"

definition be_i_pack :: "nat \<Rightarrow> parg \<Rightarrow> cursor \<Rightarrow> cursor option" where
  "be_i_pack = int_pack enc_BE_u32 (\<lambda>zz. ucast (zz AND 0xffffffff)) elems32"

definition le_l_pack :: "nat \<Rightarrow> parg \<Rightarrow> cursor \<Rightarrow> cursor option" where
  "le_l_pack = int_pack enc_LE_u64 (\<lambda>x. x) elems64"

definition be_l_pack :: "nat \<Rightarrow> parg \<Rightarrow> cursor \<Rightarrow> cursor option" where
  "be_l_pack = int_pack enc_BE_u64 (\<lambda>x. x) elems64"

definition x_pack :: "nat \<Rightarrow> cursor \<Rightarrow> cursor res option" where
  "x_pack num pd =
    (if \<not> room pd num then Some (Inl EINVAL) else map_option Inr (put_bytes (replicate num 0) pd))"

text \<open>\<open>EStr s\<close> points to the bytes \<open>s\<close> and a NUL behind them; \<open>strlen\<close> stops at the first NUL.\<close>

definition strlen :: "u8 list \<Rightarrow> nat" where
  "strlen s = length (takeWhile (\<lambda>c. c \<noteq> 0) s)"

lemma strlen_nonzero [simp]: "0 \<notin> set s \<Longrightarrow> strlen s = length s"
  by (induction s) (simp_all add: strlen_def)

definition z_pack :: "nat \<Rightarrow> parg \<Rightarrow> cursor \<Rightarrow> cursor res option" where
  "z_pack n arg pd =
    (if n = 0 then None
     else if \<not> room pd n then Some (Inl ENOSPC)
     else case arg of
       Ptr a (EStr s) \<Rightarrow>
         let m = strlen s; z = (if m < n then m else n)
         in do { pd \<leftarrow> put_bytes (take z s) pd; map_option Inr (put_bytes (replicate (n - z) 0) pd) }
     | Ptr a es \<Rightarrow> None
     | Val w \<Rightarrow> if w = 0 then map_option Inr (put_bytes (replicate n 0) pd) else None)"

section \<open>Unpackers\<close>

definition b_unpack :: "bool \<Rightarrow> bool \<Rightarrow> nat \<Rightarrow> cursor \<Rightarrow> (pout \<times> cursor) res option" where
  "b_unpack mem alloc num pd =
    (if alloc \<and> \<not> mem then Some (Inl ENOMEM)
     else if room pd num
          then Some (Inr (O8 (take num (drop (cu_pos pd) (cu_mem pd))), pd\<lparr>cu_pos := cu_pos pd + num\<rparr>))
          else None)"

definition int_unpack ::
  "(u8 list \<Rightarrow> nat \<Rightarrow> 'v option) \<Rightarrow> nat \<Rightarrow> ('v list \<Rightarrow> pout) \<Rightarrow> bool \<Rightarrow> bool \<Rightarrow> nat \<Rightarrow> cursor \<Rightarrow> (pout \<times> cursor) res option" where
  "int_unpack dec w out mem alloc num pd =
    (if alloc \<and> \<not> mem then Some (Inl ENOMEM)
     else do { xs \<leftarrow> dec_all dec w num (cu_mem pd) (cu_pos pd);
               Some (Inr (out xs, pd\<lparr>cu_pos := cu_pos pd + num * w\<rparr>)) })"

definition le_s_unpack :: "bool \<Rightarrow> bool \<Rightarrow> nat \<Rightarrow> cursor \<Rightarrow> (pout \<times> cursor) res option" where
  "le_s_unpack = int_unpack dec_LE_u16 2 O16"

definition be_s_unpack :: "bool \<Rightarrow> bool \<Rightarrow> nat \<Rightarrow> cursor \<Rightarrow> (pout \<times> cursor) res option" where
  "be_s_unpack = int_unpack dec_BE_u16 2 O16"

definition le_i_unpack :: "bool \<Rightarrow> bool \<Rightarrow> nat \<Rightarrow> cursor \<Rightarrow> (pout \<times> cursor) res option" where
  "le_i_unpack = int_unpack dec_LE_u32 4 O32"

text \<open>\<open>be_i_unpack\<close> does not check its allocation and stores through the null pointer.\<close>

definition be_i_unpack :: "bool \<Rightarrow> bool \<Rightarrow> nat \<Rightarrow> cursor \<Rightarrow> (pout \<times> cursor) res option" where
  "be_i_unpack mem alloc num pd =
    (if alloc \<and> \<not> mem \<and> 0 < num then None else int_unpack dec_BE_u32 4 O32 True alloc num pd)"

definition le_l_unpack :: "bool \<Rightarrow> bool \<Rightarrow> nat \<Rightarrow> cursor \<Rightarrow> (pout \<times> cursor) res option" where
  "le_l_unpack = int_unpack dec_LE_u64 8 O64"

definition be_l_unpack :: "bool \<Rightarrow> bool \<Rightarrow> nat \<Rightarrow> cursor \<Rightarrow> (pout \<times> cursor) res option" where
  "be_l_unpack = int_unpack dec_BE_u64 8 O64"

definition x_unpack :: "nat \<Rightarrow> cursor \<Rightarrow> cursor res option" where
  "x_unpack num pd =
    (if \<not> room pd num then Some (Inl EINVAL) else Some (Inr (pd\<lparr>cu_pos := cu_pos pd + num\<rparr>)))"

text \<open>The loop \<open>while (*s++) if (s == pd->end) return -EINVAL;\<close> from position \<open>s\<close>.\<close>

function z_scan :: "u8 list \<Rightarrow> nat \<Rightarrow> nat res option" where
  "z_scan m s =
    (if length m \<le> s then None
     else if m ! s = 0 then Some (Inr (Suc s))
     else if Suc s = length m then Some (Inl EINVAL)
     else z_scan m (Suc s))"
  by pat_completeness auto
termination by (relation "measure (\<lambda>(m, s). length m - s)") auto

declare z_scan.simps [simp del]

definition z_unpack :: "bool \<Rightarrow> nat \<Rightarrow> cursor \<Rightarrow> (pout \<times> cursor) res option" where
  "z_unpack mem num pd =
    (let store = (\<lambda>s. let n = s - cu_pos pd in
           if \<not> mem then Inl ENOMEM
           else Inr (OStr (take n (drop (cu_pos pd) (cu_mem pd)) @ [0]), pd\<lparr>cu_pos := cu_pos pd + n\<rparr>))
     in if num = 0 then
          do { r \<leftarrow> z_scan (cu_mem pd) (cu_pos pd);
               Some (case r of Inl e \<Rightarrow> Inl e | Inr s \<Rightarrow> store s) }
        else if num > length (cu_mem pd) - cu_pos pd then Some (Inl ENOSPC)
        else Some (store (cu_pos pd + num)))"

section \<open>The packer tables\<close>

datatype ptype = PB | PX | PZ | PS | PI | PL

definition packer_types :: "(char \<times> ptype) list" where
  "packer_types =
    [(CHR ''b'', PB), (CHR ''B'', PB), (CHR ''x'', PX), (CHR ''z'', PZ), (CHR ''Z'', PZ), (CHR ''s'', PS), (CHR ''S'', PS),
     (CHR ''i'', PI), (CHR ''I'', PI), (CHR ''l'', PL), (CHR ''L'', PL), (CHR ''f'', PI), (CHR ''D'', PL)]"

text \<open>
  \<open>getpacker\<close> indexes a table of 123 entries with the character, with no bounds check: characters above \<open>z\<close> read outside
  it (\<open>None\<close>). \<open>Some None\<close> is the null result.
\<close>

definition getpacker :: "char \<Rightarrow> ptype option option" where
  "getpacker c = (if (122 :: nat) < of_char c then None else Some (map_of packer_types c))"

fun packer_size :: "ptype \<Rightarrow> nat" where
  "packer_size PB = 1"
| "packer_size PX = 0"
| "packer_size PZ = 1"
| "packer_size PS = 2"
| "packer_size PI = 4"
| "packer_size PL = 8"

fun do_pack :: "bool \<Rightarrow> ptype \<Rightarrow> nat \<Rightarrow> parg \<Rightarrow> cursor \<Rightarrow> cursor res option" where
  "do_pack be PB num arg pd = map_option Inr (b_pack num arg pd)"
| "do_pack be PX num arg pd = x_pack num pd"
| "do_pack be PZ num arg pd = z_pack num arg pd"
| "do_pack be PS num arg pd = map_option Inr (if be then be_s_pack num arg pd else le_s_pack num arg pd)"
| "do_pack be PI num arg pd = map_option Inr (if be then be_i_pack num arg pd else le_i_pack num arg pd)"
| "do_pack be PL num arg pd = map_option Inr (if be then be_l_pack num arg pd else le_l_pack num arg pd)"

fun do_unpack :: "bool \<Rightarrow> bool \<Rightarrow> ptype \<Rightarrow> bool \<Rightarrow> nat \<Rightarrow> cursor \<Rightarrow> (pout list \<times> cursor) res option" where
  "do_unpack mem be PB al num pd = map_option (map_sum id (apfst (\<lambda>x. [x]))) (b_unpack mem al num pd)"
| "do_unpack mem be PX al num pd = map_option (map_sum id (Pair [])) (x_unpack num pd)"
| "do_unpack mem be PZ al num pd = map_option (map_sum id (apfst (\<lambda>x. [x]))) (z_unpack mem num pd)"
| "do_unpack mem be PS al num pd = map_option (map_sum id (apfst (\<lambda>x. [x])))
     (if be then be_s_unpack mem al num pd else le_s_unpack mem al num pd)"
| "do_unpack mem be PI al num pd = map_option (map_sum id (apfst (\<lambda>x. [x])))
     (if be then be_i_unpack mem al num pd else le_i_unpack mem al num pd)"
| "do_unpack mem be PL al num pd = map_option (map_sum id (apfst (\<lambda>x. [x])))
     (if be then be_l_unpack mem al num pd else le_l_unpack mem al num pd)"

section \<open>Formats\<close>

definition isdigit :: "char \<Rightarrow> bool" where
  "isdigit c \<longleftrightarrow> 48 \<le> (of_char c :: nat) \<and> (of_char c :: nat) \<le> 57"

definition isspace :: "char \<Rightarrow> bool" where
  "isspace c \<longleftrightarrow> (of_char c :: nat) = 32 \<or> 9 \<le> (of_char c :: nat) \<and> (of_char c :: nat) \<le> 13"

definition digit :: "char \<Rightarrow> nat" where
  "digit c = of_char c - 48"

text \<open>
  The loop of \<open>__len_prefix\<close> from its second character on. It never reads another character into \<open>c\<close>, so \<open>v\<close> stays the
  second digit and the loop can only end with the overflow check.
\<close>

partial_function (option) len_loop :: "u64 \<Rightarrow> u64 \<Rightarrow> errno option" where
  "len_loop nn v =
    (if nn > 1844674407370955161 \<or> nn = 1844674407370955161 \<and> v > 5 then Some E2BIG
     else len_loop (nn * 10 + v) v)"

text \<open>
  One conversion of \<open>pack\<close>: character \<open>c\<close> with length prefix \<open>num\<close> (0 for none) and \<open>vnum\<close> from a preceding \<open>*\<close>. It returns
  the remaining arguments and the cursor.
\<close>

definition pack_sized :: "bool \<Rightarrow> ptype \<Rightarrow> nat \<Rightarrow> parg \<Rightarrow> parg list \<Rightarrow> cursor \<Rightarrow> (parg list \<times> cursor) res option" where
  "pack_sized be p num arg args pd =
    (if packer_size p > 0 \<and> \<not> room pd (num * packer_size p) then Some (Inl ENOSPC)
     else map_option (map_sum id (Pair args)) (do_pack be p num arg pd))"

definition pack_conv :: "bool \<Rightarrow> char \<Rightarrow> nat \<Rightarrow> u32 option \<Rightarrow> parg list \<Rightarrow> cursor \<Rightarrow> (parg list \<times> cursor) res option" where
  "pack_conv be c num vnum args pd =
    (if num > 0 \<and> vnum \<noteq> None then Some (Inl EINVAL)
     else do { p \<leftarrow> getpacker c;
       case p of
         None \<Rightarrow> Some (Inl ENOENT)
       | Some PX \<Rightarrow> pack_sized be PX num (Val 0) args pd
       | Some p \<Rightarrow>
          (case args of
             [] \<Rightarrow> None
           | arg # args \<Rightarrow>
              (case vnum of
                 Some n \<Rightarrow> if n = 0 then Some (Inr (args, pd)) else pack_sized be p (unat n) arg args pd
               | None \<Rightarrow>
                  if p = PZ then
                    if num = 0 \<and> arg \<noteq> Val 0 then
                      (case arg of Ptr a (EStr s) \<Rightarrow> pack_sized be p (1 + strlen s) arg args pd | _ \<Rightarrow> None)
                    else pack_sized be p num arg args pd
                  else pack_sized be p (if num = 0 then 1 else num) arg args pd)) })"

text \<open>
  The loop of \<open>pack\<close> over the format. A digit takes the next character as the conversion, unless that is a digit too or
  the format ends (then \<open>getpacker\<close> returns the zero entry and \<open>assert(p->pack)\<close> fails).
\<close>

fun pack_loop :: "bool \<Rightarrow> string \<Rightarrow> u32 option \<Rightarrow> parg list \<Rightarrow> cursor \<Rightarrow> cursor res option" where
  "pack_loop be [] vnum args pd = Some (Inr pd)"
| "pack_loop be (c # fmt) vnum args pd =
    (if isspace c then pack_loop be fmt vnum args pd
     else if c = CHR ''*'' then
       (if vnum \<noteq> None then Some (Inl EILSEQ)
        else case args of
          [] \<Rightarrow> None
        | a # args \<Rightarrow>
           let n = ucast (as_word a) :: u32 in
           if \<not> room pd 4 then Some (Inl ENOSPC)
           else do { r \<leftarrow> do_pack be PI 1 (Val (ucast n)) pd;
                     case r of Inl e \<Rightarrow> Some (Inl e) | Inr pd \<Rightarrow> pack_loop be fmt (Some n) args pd })
     else if isdigit c then
       (case fmt of
          [] \<Rightarrow> None
        | c' # fmt' \<Rightarrow>
           if isdigit c' then map_option Inl (len_loop (of_nat (digit c)) (of_nat (digit c')))
           else do { r \<leftarrow> pack_conv be c' (digit c) vnum args pd;
                     case r of Inl e \<Rightarrow> Some (Inl e) | Inr (args, pd) \<Rightarrow> pack_loop be fmt' None args pd })
     else do { r \<leftarrow> pack_conv be c 0 vnum args pd;
               case r of Inl e \<Rightarrow> Some (Inl e) | Inr (args, pd) \<Rightarrow> pack_loop be fmt None args pd })"

text \<open>The optional byte-order mark.\<close>

definition byte_order :: "string \<Rightarrow> bool \<times> string" where
  "byte_order fmt = (case fmt of
       c # rest \<Rightarrow> if c = CHR ''<'' then (False, rest) else if c = CHR ''>'' then (True, rest) else (False, fmt)
     | [] \<Rightarrow> (False, []))"

definition Pack :: "u8 list \<Rightarrow> string \<Rightarrow> parg list \<Rightarrow> (nat \<times> u8 list) res option" where
  "Pack buf fmt args =
    (let (be, fmt) = byte_order fmt in
     map_option (map_sum id (\<lambda>pd. (cu_pos pd, cu_mem pd))) (pack_loop be fmt None args \<lparr>cu_mem = buf, cu_pos = 0\<rparr>))"

text \<open>One conversion of \<open>unpack\<close>; \<open>args\<close> says which of the remaining pointers are valid.\<close>

definition unpack_conv ::
  "bool \<Rightarrow> bool \<Rightarrow> char \<Rightarrow> nat \<Rightarrow> u32 option \<Rightarrow> bool list \<Rightarrow> cursor \<Rightarrow> (bool list \<times> pout list \<times> cursor) res option" where
  "unpack_conv mem be c num vnum args pd =
    (let finish = (\<lambda>p num args.
           if packer_size p > 0 \<and> \<not> room pd (num * packer_size p) then Some (Inl ENOSPC)
           else map_option (map_sum id (Pair args)) (do_unpack mem be p (vnum \<noteq> None) num pd))
     in if num > 0 \<and> vnum \<noteq> None then Some (Inl EINVAL)
     else do { p \<leftarrow> getpacker c;
       case p of
         None \<Rightarrow> Some (Inl ENOENT)
       | Some PX \<Rightarrow> finish PX num args
       | Some p \<Rightarrow>
          (case args of
             [] \<Rightarrow> None
           | valid # args \<Rightarrow>
              if \<not> valid then Some (Inl EINVAL)
              else case vnum of
                 Some n \<Rightarrow> if n = 0 then Some (Inr (args, [], pd)) else finish p (unat n) args
               | None \<Rightarrow> finish p (if p \<noteq> PZ \<and> num = 0 then 1 else num) args) })"

fun unpack_loop :: "bool \<Rightarrow> bool \<Rightarrow> string \<Rightarrow> u32 option \<Rightarrow> bool list \<Rightarrow> cursor \<Rightarrow> (pout list \<times> cursor) res option" where
  "unpack_loop mem be [] vnum args pd = Some (if vnum \<noteq> None then Inl EINVAL else Inr ([], pd))"
| "unpack_loop mem be (c # fmt) vnum args pd =
    (if isspace c then unpack_loop mem be fmt vnum args pd
     else if c = CHR ''*'' then
       (if vnum \<noteq> None then Some (Inl EILSEQ)
        else case args of
          [] \<Rightarrow> None
        | valid # args \<Rightarrow>
           if \<not> valid then Some (Inl EINVAL)
           else if \<not> room pd 4 then Some (Inl ENOSPC)
           else do { n \<leftarrow> (if be then dec_BE_u32 else dec_LE_u32) (cu_mem pd) (cu_pos pd);
                     r \<leftarrow> unpack_loop mem be fmt (Some n) args (pd\<lparr>cu_pos := cu_pos pd + 4\<rparr>);
                     Some (map_sum id (apfst (\<lambda>xs. OCount n # xs)) r) })
     else if isdigit c then
       (case fmt of
          [] \<Rightarrow> None
        | c' # fmt' \<Rightarrow>
           if isdigit c' then map_option Inl (len_loop (of_nat (digit c)) (of_nat (digit c')))
           else do { r \<leftarrow> unpack_conv mem be c' (digit c) vnum args pd;
                     case r of Inl e \<Rightarrow> Some (Inl e)
                     | Inr (args, out, pd) \<Rightarrow>
                        do { r \<leftarrow> unpack_loop mem be fmt' None args pd;
                             Some (map_sum id (apfst (\<lambda>xs. out @ xs)) r) } })
     else do { r \<leftarrow> unpack_conv mem be c 0 vnum args pd;
               case r of Inl e \<Rightarrow> Some (Inl e)
               | Inr (args, out, pd) \<Rightarrow>
                  do { r \<leftarrow> unpack_loop mem be fmt None args pd;
                       Some (map_sum id (apfst (\<lambda>xs. out @ xs)) r) } })"

definition Unpack :: "bool \<Rightarrow> u8 list \<Rightarrow> string \<Rightarrow> bool list \<Rightarrow> (nat \<times> pout list) res option" where
  "Unpack mem buf fmt args =
    (let (be, fmt) = byte_order fmt in
     map_option (map_sum id (\<lambda>(out, pd). (cu_pos pd, out))) (unpack_loop mem be fmt None args \<lparr>cu_mem = buf, cu_pos = 0\<rparr>))"

section \<open>Well-formed formats and their encoding\<close>

text \<open>
  A format as a list of conversions with their values: counted arrays, variable-length arrays, strings, strings of a fixed
  length and padding. \<open>item_fmt\<close>, \<open>item_args\<close> and \<open>item_ptrs\<close> are how a caller writes them for \<open>Pack\<close> and \<open>Unpack\<close>.
\<close>

datatype item = Fix pelems | Vla pelems | Str "u8 list" | FixStr nat "u8 list" | Pad nat

fun elen :: "pelems \<Rightarrow> nat" where
  "elen (E8 xs) = length xs"
| "elen (E16 xs) = length xs"
| "elen (E32 xs) = length xs"
| "elen (E64 xs) = length xs"
| "elen (EStr s) = Suc (length s)"

fun echar :: "pelems \<Rightarrow> char" where
  "echar (E8 xs) = CHR ''B''"
| "echar (E16 xs) = CHR ''S''"
| "echar (E32 xs) = CHR ''I''"
| "echar (E64 xs) = CHR ''L''"
| "echar (EStr s) = CHR ''Z''"

fun etype :: "pelems \<Rightarrow> ptype" where
  "etype (E8 xs) = PB"
| "etype (E16 xs) = PS"
| "etype (E32 xs) = PI"
| "etype (E64 xs) = PL"
| "etype (EStr s) = PZ"

fun ebytes :: "bool \<Rightarrow> pelems \<Rightarrow> u8 list" where
  "ebytes be (E8 xs) = xs"
| "ebytes be (E16 xs) = concat (map (if be then \<lambda>v. rev (le16 v) else le16) xs)"
| "ebytes be (E32 xs) = concat (map (if be then \<lambda>v. rev (le32 v) else le32) xs)"
| "ebytes be (E64 xs) = concat (map (if be then \<lambda>v. rev (le64 v) else le64) xs)"
| "ebytes be (EStr s) = s @ [0]"


text \<open>The argument of a conversion: a single integer is passed by value.\<close>

fun eword :: "pelems \<Rightarrow> u64" where
  "eword (E8 xs) = ucast (hd xs)"
| "eword (E16 xs) = ucast (hd xs)"
| "eword (E32 xs) = ucast (hd xs)"
| "eword (E64 xs) = hd xs"
| "eword (EStr s) = 0"

definition earg :: "u64 \<Rightarrow> pelems \<Rightarrow> parg" where
  "earg a es = (if elen es = 1 then Val (eword es) else Ptr a es)"

fun ints :: "pelems \<Rightarrow> bool" where
  "ints (EStr s) = False"
| "ints es = True"

definition digit_char :: "nat \<Rightarrow> char" where
  "digit_char n = char_of (48 + n)"

definition fix_bytes :: "nat \<Rightarrow> u8 list \<Rightarrow> u8 list" where
  "fix_bytes n s = take n s @ replicate (n - length s) 0"

fun item_ok :: "item \<Rightarrow> bool" where
  "item_ok (Fix es) \<longleftrightarrow> ints es \<and> 1 \<le> elen es \<and> elen es \<le> 9"
| "item_ok (Vla es) \<longleftrightarrow> ints es \<and> elen es \<noteq> 1 \<and> elen es < 2 ^ 32"
| "item_ok (Str s) \<longleftrightarrow> 0 \<notin> set s"
| "item_ok (FixStr n s) \<longleftrightarrow> 1 \<le> n \<and> n \<le> 9 \<and> 0 \<notin> set s"
| "item_ok (Pad n) \<longleftrightarrow> n \<le> 9"

fun item_fmt :: "item \<Rightarrow> string" where
  "item_fmt (Fix es) = (if elen es = 1 then [echar es] else [digit_char (elen es), echar es])"
| "item_fmt (Vla es) = [CHR ''*'', echar es]"
| "item_fmt (Str s) = ''Z''"
| "item_fmt (FixStr n s) = [digit_char n, CHR ''Z'']"
| "item_fmt (Pad n) = [digit_char n, CHR ''x'']"

fun item_args :: "u64 \<Rightarrow> item \<Rightarrow> parg list" where
  "item_args a (Fix es) = [earg a es]"
| "item_args a (Vla es) = [Val (of_nat (elen es)), Ptr a es]"
| "item_args a (Str s) = [Ptr a (EStr s)]"
| "item_args a (FixStr n s) = [Ptr a (EStr s)]"
| "item_args a (Pad n) = []"


fun item_bytes :: "bool \<Rightarrow> item \<Rightarrow> u8 list" where
  "item_bytes be (Fix es) = ebytes be es"
| "item_bytes be (Vla es) = ebytes be (E32 [of_nat (elen es)]) @ ebytes be es"
| "item_bytes be (Str s) = s @ [0]"
| "item_bytes be (FixStr n s) = fix_bytes n s"
| "item_bytes be (Pad n) = replicate n 0"


definition advance :: "cursor \<Rightarrow> u8 list \<Rightarrow> cursor" where
  "advance pd bs = pd\<lparr>cu_mem := take (cu_pos pd) (cu_mem pd) @ bs @ drop (cu_pos pd + length bs) (cu_mem pd),
                      cu_pos := cu_pos pd + length bs\<rparr>"

section \<open>Characters\<close>

lemma of_digit_char: "n \<le> 9 \<Longrightarrow> (of_char (digit_char n) :: nat) = 48 + n"
  by (simp add: digit_char_def)

lemma digit_char_simps [simp]:
  assumes "n \<le> 9"
  shows "isdigit (digit_char n)" "\<not> isspace (digit_char n)" "digit (digit_char n) = n" "digit_char n \<noteq> CHR ''*''"
proof -
  note o = of_digit_char [OF assms]
  show "isdigit (digit_char n)" "\<not> isspace (digit_char n)" "digit (digit_char n) = n"
    using assms by (simp_all add: isdigit_def isspace_def digit_def o)
  show "digit_char n \<noteq> CHR ''*''"
  proof
    assume "digit_char n = CHR ''*''"
    then have "(of_char (digit_char n) :: nat) = of_char (CHR ''*'')" by simp
    then show False unfolding o by simp
  qed
qed

lemma conv_chars [simp]:
  "\<not> isspace (echar es)" "\<not> isdigit (echar es)" "echar es \<noteq> CHR ''*''" "getpacker (echar es) = Some (Some (etype es))"
  by (cases es; simp add: isspace_def isdigit_def getpacker_def packer_types_def)+

lemma conv_chars_xz [simp]:
  "\<not> isspace (CHR ''x'')" "\<not> isdigit (CHR ''x'')" "getpacker (CHR ''x'') = Some (Some PX)"
  "\<not> isspace (CHR ''Z'')" "\<not> isdigit (CHR ''Z'')" "getpacker (CHR ''Z'') = Some (Some PZ)"
  "\<not> isspace (CHR ''*'')"
  by (simp_all add: isspace_def isdigit_def getpacker_def packer_types_def)

section \<open>Encoding and decoding arrays\<close>

lemma room_advance: "put_bytes bs pd = (if room pd (length bs) \<or> bs = [] then Some (advance pd bs) else None)"
  by (simp add: put_bytes_Some room_def advance_def)

lemma length_ebytes: "ints es \<Longrightarrow> length (ebytes be es) = elen es * packer_size (etype es)"
  by (cases es) (simp_all add: le16.length_all_lanes be16.length_all_lanes le32.length_all_lanes be32.length_all_lanes
      le64.length_all_lanes be64.length_all_lanes)

lemma ucast_down_up:
  "(ucast ((ucast (x :: u8) :: u64) AND 0xff) :: u8) = x" "(ucast ((ucast (y :: u16) :: u64) AND 0xffff) :: u16) = y"
  "(ucast ((ucast (z :: u32) :: u64) AND 0xffffffff) :: u32) = z"
proof -
  have m: "(0xff :: u64) = mask 8" "(0xffff :: u64) = mask 16" "(0xffffffff :: u64) = mask 32"
    by (simp_all add: mask_eq_exp_minus_1)
  show "(ucast ((ucast (x :: u8) :: u64) AND 0xff) :: u8) = x" "(ucast ((ucast (y :: u16) :: u64) AND 0xffff) :: u16) = y"
    "(ucast ((ucast (z :: u32) :: u64) AND 0xffffffff) :: u32) = z"
    unfolding m by (rule bit_word_eqI; auto simp: bit_simps dest: bit_imp_le_length)+
qed

lemmas pack_defs = le_s_pack_def be_s_pack_def le_i_pack_def be_i_pack_def le_l_pack_def be_l_pack_def

lemmas all_lanes = le16.enc_all_lanes be16.enc_all_lanes le32.enc_all_lanes be32.enc_all_lanes le64.enc_all_lanes be64.enc_all_lanes

lemmas one_lanes = le16.enc_lanes be16.enc_lanes le32.enc_lanes be32.enc_lanes le64.enc_lanes be64.enc_lanes

lemma do_pack_array:
  assumes "ints es" "elen es \<noteq> 1"
  shows "do_pack be (etype es) (elen es) (Ptr a es) pd = map_option Inr (put_bytes (ebytes be es) pd)"
  using assms by (cases es) (simp_all add: b_pack_def take_elems_def pack_defs int_pack_def all_lanes)

lemma do_pack_value:
  assumes "ints es" "elen es = 1"
  shows "do_pack be (etype es) 1 (Val (eword es)) pd = map_option Inr (put_bytes (ebytes be es) pd)"
  using assms
  by (cases es) (auto simp: b_pack_def pack_defs int_pack_def length_Suc_conv ucast_down_up one_lanes put_bytes_eta
      simp del: put_bytes.simps)

lemma pack_sized_ok:
  assumes "ints es"
  shows "pack_sized be (etype es) (elen es) (earg a es) args pd =
    Some (if room pd (length (ebytes be es)) then Inr (args, advance pd (ebytes be es)) else Inl ENOSPC)"
proof -
  have d: "do_pack be (etype es) (elen es) (earg a es) pd = map_option Inr (put_bytes (ebytes be es) pd)"
    using do_pack_array [OF assms, of be a pd] do_pack_value [OF assms, of be pd] by (simp add: earg_def)
  have l: "elen es * packer_size (etype es) = length (ebytes be es)" using length_ebytes [OF assms, of be] by simp
  have "0 < packer_size (etype es)" by (cases es) simp_all
  then show ?thesis unfolding pack_sized_def d l by (simp add: room_advance)
qed

lemma length_advance [simp]: "room pd (length bs) \<Longrightarrow> length (cu_mem (advance pd bs)) = length (cu_mem pd)"
  by (simp add: advance_def room_def)

lemma cu_pos_advance [simp]: "cu_pos (advance pd bs) = cu_pos pd + length bs"
  by (simp add: advance_def)

lemma room_after: "room pd (length as) \<Longrightarrow> room (advance pd as) n \<longleftrightarrow> room pd (length as + n)"
  by (simp add: room_def add.assoc)

lemma advance_advance:
  assumes "room pd (length as + length bs)"
  shows "advance (advance pd as) bs = advance pd (as @ bs)"
  using assms by (simp add: advance_def room_def ac_simps)

lemma advance_Nil [simp]: "advance pd [] = pd"
  by (simp add: advance_def)

lemma put_bytes_two: "(put_bytes as pd \<bind> (\<lambda>pd. map_option f (put_bytes bs pd))) = map_option f (put_bytes (as @ bs) pd)"
  by (cases "put_bytes as pd") (simp_all add: put_bytes_append)

section \<open>Packing an item\<close>

lemma pack_item:
  assumes "item_ok it"
  shows "pack_loop be (item_fmt it @ fmt) None (item_args a it @ args) pd =
     (if room pd (length (item_bytes be it)) then pack_loop be fmt None args (advance pd (item_bytes be it))
      else Some (Inl (case it of Pad n \<Rightarrow> EINVAL | _ \<Rightarrow> ENOSPC)))"
proof (cases it)
  case (Fix es)
  have "etype es \<noteq> PX" "etype es \<noteq> PZ" using assms Fix by (cases es; simp)+
  then have "pack_conv be (echar es) n None (earg a es # args) pd = pack_sized be (etype es) (elen es) (earg a es) args pd"
    if "n = elen es \<or> n = 0 \<and> elen es = 1" for n
    using that assms Fix by (auto simp: pack_conv_def split: ptype.splits)
  then show ?thesis using assms Fix pack_sized_ok [of es be a args pd] by auto
next
  case (Vla es)
  have ty: "etype es \<noteq> PX" "etype es \<noteq> PZ" using assms Vla by (cases es; simp)+
  have un: "unat (of_nat (elen es) :: u32) = elen es" using assms Vla by (simp add: unat_of_nat)
  define n :: u32 where "n = of_nat (elen es)"
  have uc: "(ucast (of_nat (elen es) :: u64) :: u32) = n"
    by (rule bit_word_eqI) (auto simp: n_def bit_simps dest: bit_imp_le_length)
  have n0: "n = 0 \<longleftrightarrow> elen es = 0" using un unat_eq_zero by (metis n_def)
  let ?l = "ebytes be (E32 [n])"
  have l4: "length ?l = 4" using length_ebytes [of "E32 [n]" be] by simp
  have cnt: "do_pack be PI 1 (Val (ucast n)) pd = map_option Inr (put_bytes ?l pd)"
    using do_pack_value [of "E32 [n]" be pd] by simp
  have conv: "pack_conv be (echar es) 0 (Some n) (Ptr a es # args) pd' =
      Some (if room pd' (length (ebytes be es)) \<or> elen es = 0 then Inr (args, advance pd' (ebytes be es)) else Inl ENOSPC)" for pd'
  proof (cases "elen es = 0")
    case True
    then have "ebytes be es = []" using length_ebytes [of es be] assms Vla by simp
    then show ?thesis using True ty n0 by (simp add: pack_conv_def split: ptype.splits)
  next
    case False
    then show ?thesis
      using ty n0 un pack_sized_ok [of es be a args pd'] assms Vla
      by (auto simp: pack_conv_def earg_def n_def split: ptype.splits)
  qed
  have "room pd (4 + length (ebytes be es)) \<Longrightarrow> room pd 4" by (simp add: room_def)
  moreover have "elen es = 0 \<Longrightarrow> ebytes be es = []" using length_ebytes [of es be] assms Vla by simp
  ultimately show ?thesis
    using Vla conv cnt uc room_after [of pd ?l "length (ebytes be es)"] advance_advance [of pd ?l "ebytes be es"]
    by (auto simp: Let_def n_def [symmetric] room_advance l4 simp del: ebytes.simps)
next
  case (Str s)
  then show ?thesis
    using advance_advance [of pd s "[0]"] assms
    by (auto simp: pack_conv_def pack_sized_def z_pack_def room_advance room_def)
next
  case (FixStr n s)
  have "take (if length s < n then length s else n) s = take n s" "n - (if length s < n then length s else n) = n - length s"
    by simp_all
  then have "z_pack n (Ptr a (EStr s)) pd = (if room pd n then map_option Inr (put_bytes (fix_bytes n s) pd) else Some (Inl ENOSPC))"
    using FixStr assms by (simp add: z_pack_def fix_bytes_def Let_def put_bytes_two)
  moreover have "length (fix_bytes n s) = n" by (simp add: fix_bytes_def)
  ultimately show ?thesis
    using FixStr assms by (auto simp: pack_conv_def pack_sized_def room_advance)
next
  case (Pad n)
  then show ?thesis
    using assms by (simp add: pack_conv_def pack_sized_def x_pack_def room_advance)
qed

section \<open>Unpacking an item\<close>










lemma append_one [simp]: "(@) [x] = (#) x" "(@) [x, y] = (\<lambda>xs. x # y # xs)" "(@) [] = (\<lambda>xs. xs)"
  by (simp_all add: fun_eq_iff)





section \<open>Formats of several items\<close>

text \<open>Items with the addresses of their arrays; a string format starts with the byte-order mark.\<close>

definition fmt_of :: "bool \<Rightarrow> (u64 \<times> item) list \<Rightarrow> string" where
  "fmt_of be its = (if be then CHR ''>'' else CHR ''<'') # concat (map (item_fmt \<circ> snd) its)"

definition args_of :: "(u64 \<times> item) list \<Rightarrow> parg list" where
  "args_of its = concat (map (\<lambda>(a, it). item_args a it) its)"


definition bytes_of :: "bool \<Rightarrow> (u64 \<times> item) list \<Rightarrow> u8 list" where
  "bytes_of be its = concat (map (item_bytes be \<circ> snd) its)"


lemma pack_items:
  assumes "list_all (item_ok \<circ> snd) its"
  shows "if room pd (length (bytes_of be its)) \<or> its = []
    then pack_loop be (concat (map (item_fmt \<circ> snd) its)) None (args_of its) pd = Some (Inr (advance pd (bytes_of be its)))
    else \<exists>e. pack_loop be (concat (map (item_fmt \<circ> snd) its)) None (args_of its) pd = Some (Inl e) \<and> (e = ENOSPC \<or> e = EINVAL)"
  using assms
proof (induction its arbitrary: pd)
  case (Cons x its)
  obtain a it where x: "x = (a, it)" by (cases x)
  let ?b = "item_bytes be it"
  have eq: "pack_loop be (concat (map (item_fmt \<circ> snd) (x # its))) None (args_of (x # its)) pd =
     (if room pd (length ?b) then pack_loop be (concat (map (item_fmt \<circ> snd) its)) None (args_of its) (advance pd ?b)
      else Some (Inl (case it of Pad n \<Rightarrow> EINVAL | _ \<Rightarrow> ENOSPC)))"
    using pack_item [of it be "concat (map (item_fmt \<circ> snd) its)" a "args_of its" pd] Cons.prems x
    by (simp add: args_of_def)
  have bs: "bytes_of be (x # its) = ?b @ bytes_of be its" by (simp add: bytes_of_def x)
  show ?case
  proof (cases "room pd (length ?b)")
    case True
    show ?thesis
    proof (cases its)
      case Nil
      then show ?thesis using True eq by (simp add: bs bytes_of_def x)
    next
      case c: (Cons y ys)
      then show ?thesis
        using Cons.IH [of "advance pd ?b"] Cons.prems True room_after [OF True, of "length (bytes_of be its)"]
          advance_advance [of pd ?b "bytes_of be its"] unfolding eq bs by (simp split: if_splits)
    qed
  next
    case False
    then have "\<not> room pd (length (bytes_of be (x # its)))" by (simp add: room_def bs)
    then show ?thesis using False eq by (auto split: item.splits)
  qed
qed (simp add: bytes_of_def args_of_def)


lemma byte_order_fmt: "byte_order (fmt_of be its) = (be, concat (map (item_fmt \<circ> snd) its))"
  by (simp add: byte_order_def fmt_of_def)

section \<open>The length prefix\<close>

lemma len_loop_returns: "0 < unat nn \<or> 0 < unat v \<Longrightarrow> unat v \<le> 9 \<Longrightarrow> len_loop nn v = Some E2BIG"
proof (induction "2 ^ 64 - unat nn" arbitrary: nn rule: less_induct)
  case less
  show ?case
  proof (cases "nn > 1844674407370955161 \<or> nn = 1844674407370955161 \<and> v > 5")
    case True
    then show ?thesis by (subst len_loop.simps) simp
  next
    case False
    then have b: "unat nn \<le> 1844674407370955161" "unat nn = 1844674407370955161 \<Longrightarrow> unat v \<le> 5"
    proof -
      have u: "unat (1844674407370955161 :: u64) = 1844674407370955161" "unat (5 :: u64) = 5" by simp_all
      show "unat nn \<le> 1844674407370955161" using False u by (simp add: word_less_nat_alt)
      show "unat nn = 1844674407370955161 \<Longrightarrow> unat v \<le> 5"
        using False u by (metis word_less_nat_alt word_unat_eq_iff not_less)
    qed
    have "unat (nn * 10 + v) = unat nn * 10 + unat v"
    proof -
      have "unat nn * 10 + unat v < 2 ^ 64"
        using b less.prems(2) by (cases "unat nn = 1844674407370955161") simp_all
      then show ?thesis by (simp add: unat_word_ariths)
    qed
    then have "len_loop (nn * 10 + v) v = Some E2BIG"
      using less.prems unat_u64_less [of "nn * 10 + v"] by (intro less.hyps) auto
    then show ?thesis using False by (subst len_loop.simps) simp
  qed
qed

lemma len_loop_nonzero:
  assumes "len_loop nn v = Some e"
  shows "\<not> (nn = 0 \<and> v = 0)"
  by (rule len_loop.raw_induct [OF _ assms, where P = "\<lambda>nn v e. \<not> (nn = 0 \<and> v = 0)"]) (fastforce split: if_splits)

lemma len_loop_diverges: "len_loop 0 0 = None"
  using len_loop_nonzero by (cases "len_loop 0 0") auto

section \<open>Properties\<close>



text \<open>
  With the same formats and arguments \<open>Pack\<close> never writes outside the buffer and never aborts, whatever the buffer size: when the encoding
  does not fit it returns \<open>-ENOSPC\<close> or \<open>-EINVAL\<close>.
\<close>
theorem pack_short_buffer:
  assumes "list_all (item_ok \<circ> snd) its" "length buf < length (bytes_of be its)"
  shows "Pack buf (fmt_of be its) (args_of its) = Some (Inl ENOSPC) \<or> Pack buf (fmt_of be its) (args_of its) = Some (Inl EINVAL)"
proof -
  have "its \<noteq> []" using assms(2) by (auto simp: bytes_of_def)
  then show ?thesis
    using pack_items [OF assms(1), of "\<lparr>cu_mem = buf, cu_pos = 0\<rparr>" be] assms(2)
    by (auto simp: Pack_def byte_order_fmt room_def)
qed

theorem pack_short_buffer_witness:
  "Pack [1, 2, 3] (fmt_of False [(0, Fix (E32 [5]))]) (args_of [(0, Fix (E32 [5]))]) = Some (Inl ENOSPC) \<or>
   Pack [1, 2, 3] (fmt_of False [(0, Fix (E32 [5]))]) (args_of [(0, Fix (E32 [5]))]) = Some (Inl EINVAL)"
  using pack_short_buffer [of "[(0, Fix (E32 [5]))]" "[1, 2, 3]" False] by (simp add: bytes_of_def le32_def)

text \<open>
  A count of two or more digits never works: the second digit is read again and again until the overflow check fires, so both \<open>Pack\<close> and
  \<open>Unpack\<close> return \<open>-E2BIG\<close>, and for the prefix \<open>00\<close> they never return.
\<close>
theorem two_digit_count_fails:
  assumes "n \<le> 9" "m \<le> 9"
  shows "Pack buf (digit_char n # digit_char m # fmt) args = (if n = 0 \<and> m = 0 then None else Some (Inl E2BIG)) \<and>
     Unpack mem buf (digit_char n # digit_char m # fmt) ptrs = (if n = 0 \<and> m = 0 then None else Some (Inl E2BIG))"
proof -
  have o: "byte_order (digit_char n # digit_char m # fmt) = (False, digit_char n # digit_char m # fmt)"
  proof -
    have "(of_char (digit_char n) :: nat) \<noteq> of_char (CHR ''<'')" "(of_char (digit_char n) :: nat) \<noteq> of_char (CHR ''>'')"
      using assms(1) by (simp_all add: of_digit_char)
    then show ?thesis by (auto simp: byte_order_def)
  qed
  have l: "len_loop (of_nat n) (of_nat m) = (if n = 0 \<and> m = 0 then None else Some E2BIG)"
    using len_loop_returns [of "of_nat n" "of_nat m"] len_loop_diverges assms by (auto simp: unat_of_nat)
  show ?thesis using assms l by (simp add: Pack_def Unpack_def o)
qed

theorem two_digit_count_fails_witness:
  "Pack (replicate 100 0) (digit_char 1 # digit_char 2 # ''I'') [Ptr 4096 (E32 (replicate 12 1))] = Some (Inl E2BIG)"
  using two_digit_count_fails [of 1 2 "replicate 100 0" "''I''"] by simp

text \<open>
  A variable-length array of one element is not packed: the count 1 makes the packer take the pointer itself as the value, so the bytes
  after the count are the low bits of the array's address, whatever the array holds.
\<close>
theorem one_element_vla_packs_address:
  assumes "8 \<le> length buf"
  shows "Pack buf ''>*I'' [Val 1, Ptr a (E32 [x])] =
     Some (Inr (8, rev (le32 1) @ rev (le32 (ucast (a AND 0xffffffff))) @ drop 8 buf))"
proof -
  define pd where "pd = \<lparr>cu_mem = buf, cu_pos = 0\<rparr>"
  let ?l = "rev (le32 1)" and ?v = "rev (le32 (ucast (a AND 0xffffffff)))"
  have len: "length ?l = 4" "length ?v = 4" by (simp_all add: le32_def)
  have bo: "byte_order ''>*I'' = (True, ''*I'')" by (simp add: byte_order_def)
  have cnt: "do_pack True PI 1 (Val (ucast (1 :: u32))) pd = Some (Inr (advance pd ?l))"
    using do_pack_value [of "E32 [1]" True pd] assms len(1) by (simp add: room_advance room_def pd_def)
  have "room (advance pd ?l) 4" using assms len by (simp add: room_def advance_def pd_def)
  then have "do_pack True PI 1 (Ptr a (E32 [x])) (advance pd ?l) = Some (Inr (advance (advance pd ?l) ?v))"
    using len(2) by (simp add: be_i_pack_def int_pack_def be32.enc_lanes room_advance)
  moreover have "advance (advance pd ?l) ?v = advance pd (?l @ ?v)"
    using assms len by (intro advance_advance) (simp add: room_def pd_def)
  ultimately have "pack_loop True ''*I'' None [Val 1, Ptr a (E32 [x])] pd = Some (Inr (advance pd (?l @ ?v)))"
    using cnt \<open>room (advance pd ?l) 4\<close> assms conv_chars [of "E32 []"]
    by (simp add: pack_conv_def pack_sized_def room_def pd_def)
  then show ?thesis
    unfolding Pack_def bo using assms len by (simp add: pd_def [symmetric]) (simp add: advance_def pd_def)
qed

theorem one_element_vla_packs_address_witness:
  "Pack (replicate 8 0) ''>*I'' [Val 1, Ptr 0x7fff0010 (E32 [42])] = Some (Inr (8, [0, 0, 0, 1, 0x7f, 0xff, 0, 0x10]))"
  using one_element_vla_packs_address [of "replicate 8 0" "0x7fff0010" 42] by (simp add: le32_def upt_rec)

text \<open>
  \<open>Unpack\<close> of a NUL-terminated string that starts at the end of the buffer reads the byte behind the buffer.
\<close>
theorem unpack_string_at_end_overreads:
  assumes "length buf = 1"
  shows "Unpack mem buf ''1xZ'' [True] = None"
  using assms
  by (simp add: Unpack_def byte_order_def isspace_def isdigit_def digit_def unpack_conv_def x_unpack_def z_unpack_def Let_def room_def
      z_scan.simps)

theorem unpack_string_at_end_overreads_witness: "Unpack True [5] ''1xZ'' [True] = None"
  by (rule unpack_string_at_end_overreads) simp

end
