(* ===== verification/Bloom.thy ===== *)
theory Bloom
  imports Bits "HOL-Library.Multiset"
begin

text \<open>
  The Bloom filters of \<open>src/hashtable/bloom.c\<close>: standard, counting and scalable. The \<open>double\<close> computations that size the
  filters (\<open>make_k\<close>, the factor of \<open>make_m\<close>, \<open>make_n\<close>, the fill estimate and the tightening of the error rate, all over \<open>log\<close> and \<open>exp\<close> of the
  C library) are the fields of the argument \<open>fp\<close>; the type \<open>'e\<close> stands for \<open>double\<close>. Random salts, and what \<open>realloc\<close> leaves in new
  memory, are arguments. An access outside a bitmap, a division by zero and a failing assertion are faults (\<open>None\<close>).
\<close>

record 'e bloom =
  bl_m :: u64
  bl_k :: u64
  bl_salt :: u64
  bl_bitmap :: "u8 list"
  bl_size :: u64
  bl_bmsize :: u64
  bl_e :: 'e

record 'e scalable_bloom =
  sb_bfa :: "'e bloom list"
  sb_len :: u32
  sb_cap :: u32
  sb_scale :: u32
  sb_r :: 'e

datatype 'e filter =
    BLOOM_TYPE_COUNTING "'e bloom"
  | BLOOM_TYPE_QUICK "'e bloom"
  | BLOOM_TYPE_SCALE "'e scalable_bloom"

record 'e Bloom =
  B_filter :: "'e filter"
  B_n :: u64
  B_e :: 'e

record 'e fpfuns =
  make_k :: "'e \<Rightarrow> u64"
  bits_per_elem :: "'e \<Rightarrow> u64"
  make_n :: "u64 \<Rightarrow> 'e \<Rightarrow> u64"
  over_half :: "u64 \<Rightarrow> u64 \<Rightarrow> bool"
  tighten :: "'e \<Rightarrow> 'e \<Rightarrow> 'e"
  same_r :: "'e \<Rightarrow> 'e \<Rightarrow> bool"

definition make_m :: "'e fpfuns \<Rightarrow> u64 \<Rightarrow> 'e \<Rightarrow> u64" where
  "make_m fp n e = n * bits_per_elem fp e"

section \<open>Hashing and bit addressing\<close>

definition mix :: "u64 \<Rightarrow> u64" where
  "mix h = (let h = h XOR drop_bit 23 h; h = h * 0x2127599bf4325c37; h = h XOR drop_bit 47 h in h)"

definition hash_val :: "u64 \<Rightarrow> u64 \<Rightarrow> u64" where
  "hash_val v salt = (let m = 0x880355f21e6d1965; h = 8 * m; h = h XOR mix v; h = h * m in mix h XOR salt)"

text \<open>The slot of partition \<open>i\<close>: \<open>(h1 + i * h2) % b->m + i * b->m\<close>.\<close>

definition slot_index :: "'e bloom \<Rightarrow> u64 \<Rightarrow> nat \<Rightarrow> nat" where
  "slot_index b val i =
    (let z = hash_val val (bl_salt b); h1 = z AND 0xffffffff; h2 = drop_bit 32 z; i = of_nat i;
         k = (h1 + i * h2) mod bl_m b; j = k + i * bl_m b
     in unat j)"

definition testbit :: "u8 list \<Rightarrow> nat \<Rightarrow> bool option" where
  "testbit bm i = do { x \<leftarrow> get_at bm (i div 8); Some (x AND push_bit (i mod 8) 1 \<noteq> 0) }"

definition setbit :: "u8 list \<Rightarrow> nat \<Rightarrow> u8 list option" where
  "setbit bm i = do { x \<leftarrow> get_at bm (i div 8); put_at bm (i div 8) (x OR push_bit (i mod 8) 1) }"

section \<open>Standard filters\<close>

fun set_slots :: "u8 list \<Rightarrow> nat list \<Rightarrow> u8 list option" where
  "set_slots bm [] = Some bm"
| "set_slots bm (j # js) = do { bm \<leftarrow> setbit bm j; set_slots bm js }"

fun test_slots :: "u8 list \<Rightarrow> nat list \<Rightarrow> bool option" where
  "test_slots bm [] = Some True"
| "test_slots bm (j # js) = do { r \<leftarrow> testbit bm j; if r then test_slots bm js else Some False }"

text \<open>The slots the loops visit; with \<open>b->m = 0\<close> the first \<open>%\<close> is a division by zero.\<close>

definition slots :: "'e bloom \<Rightarrow> u64 \<Rightarrow> nat list option" where
  "slots b val = (if bl_k b \<noteq> 0 \<and> bl_m b = 0 then None else Some (map (slot_index b val) [0..<unat (bl_k b)]))"

definition standard_bloom_probe :: "'e bloom \<Rightarrow> u64 \<Rightarrow> 'e bloom option" where
  "standard_bloom_probe b val =
    do { js \<leftarrow> slots b val; bm \<leftarrow> set_slots (bl_bitmap b) js;
         Some (b\<lparr>bl_bitmap := bm, bl_size := bl_size b + 1\<rparr>) }"

definition standard_bloom_find :: "'e bloom \<Rightarrow> u64 \<Rightarrow> bool option" where
  "standard_bloom_find b val = do { js \<leftarrow> slots b val; test_slots (bl_bitmap b) js }"

definition standard_bloom_init :: "'e fpfuns \<Rightarrow> u64 \<Rightarrow> u64 \<Rightarrow> 'e \<Rightarrow> 'e bloom \<Rightarrow> 'e bloom option" where
  "standard_bloom_init fp salt n e b =
    (let k = make_k fp e; m = make_m fp n e in
     if k = 0 then None
     else let msub = m div k + (if m mod k > 0 then 1 else 0);
              nbits = ALIGN_UP (msub * k) 64;
              bytes = nbits div 8
          in Some (b\<lparr>bl_bitmap := replicate (unat bytes) 0, bl_k := k, bl_m := msub, bl_e := e, bl_bmsize := bytes,
                     bl_salt := salt\<rparr>))"

section \<open>Counting filters\<close>

fun inc_slots :: "u8 list \<Rightarrow> nat list \<Rightarrow> u8 list option" where
  "inc_slots bm [] = Some bm"
| "inc_slots bm (j # js) = do { x \<leftarrow> get_at bm j; bm \<leftarrow> put_at bm j (x + 1); inc_slots bm js }"

fun dec_slots :: "u8 list \<Rightarrow> nat list \<Rightarrow> bool \<Rightarrow> (bool \<times> u8 list) option" where
  "dec_slots bm [] r = Some (r, bm)"
| "dec_slots bm (j # js) r =
    do { x \<leftarrow> get_at bm j;
         if x \<noteq> 0 then do { bm \<leftarrow> put_at bm j (x - 1); dec_slots bm js True } else dec_slots bm js r }"

fun pos_slots :: "u8 list \<Rightarrow> nat list \<Rightarrow> bool option" where
  "pos_slots bm [] = Some True"
| "pos_slots bm (j # js) = do { x \<leftarrow> get_at bm j; if x = 0 then Some False else pos_slots bm js }"

definition counting_bloom_probe :: "'e bloom \<Rightarrow> u64 \<Rightarrow> 'e bloom option" where
  "counting_bloom_probe b val =
    do { js \<leftarrow> slots b val; bm \<leftarrow> inc_slots (bl_bitmap b) js;
         Some (b\<lparr>bl_bitmap := bm, bl_size := bl_size b + 1\<rparr>) }"

definition counting_bloom_remove :: "'e bloom \<Rightarrow> u64 \<Rightarrow> (bool \<times> 'e bloom) option" where
  "counting_bloom_remove b val =
    do { js \<leftarrow> slots b val; (r, bm) \<leftarrow> dec_slots (bl_bitmap b) js False;
         Some (r, b\<lparr>bl_bitmap := bm, bl_size := bl_size b - 1\<rparr>) }"

definition counting_bloom_find :: "'e bloom \<Rightarrow> u64 \<Rightarrow> bool option" where
  "counting_bloom_find b val = do { js \<leftarrow> slots b val; pos_slots (bl_bitmap b) js }"

definition counting_bloom_init :: "'e fpfuns \<Rightarrow> u64 \<Rightarrow> u64 \<Rightarrow> 'e \<Rightarrow> 'e bloom \<Rightarrow> 'e bloom option" where
  "counting_bloom_init fp salt n e b =
    (let k = make_k fp e; m = make_m fp n e in
     if k = 0 then None
     else let s = m div k + (if m mod k > 0 then 1 else 0); bytes = s * k
          in Some (b\<lparr>bl_bitmap := replicate (unat bytes) 0, bl_k := k, bl_m := s, bl_e := e, bl_bmsize := bytes,
                     bl_salt := salt\<rparr>))"

definition null_remov :: "'e filter \<Rightarrow> u64 \<Rightarrow> bool \<times> 'e filter" where
  "null_remov b v = (True, b)"

section \<open>Scalable filters\<close>

text \<open>\<open>maybe_grow_filter\<close>: \<open>fresh\<close> is what the memory added by \<open>realloc\<close> holds; the result is the index of the new filter.\<close>

definition maybe_grow_filter :: "'e bloom \<Rightarrow> 'e scalable_bloom \<Rightarrow> (nat \<times> 'e scalable_bloom) option" where
  "maybe_grow_filter fresh sb =
    do { sb \<leftarrow> (if sb_len sb = sb_cap sb then
                 let x = push_bit 1 (sb_cap sb) in
                 if x > sb_cap sb
                 then Some (sb\<lparr>sb_bfa := sb_bfa sb @ replicate (unat (x - sb_cap sb)) fresh, sb_cap := x\<rparr>)
                 else None
               else Some sb);
         Some (unat (sb_len sb), sb\<lparr>sb_len := sb_len sb + 1\<rparr>) }"

definition scalable_probe ::
  "'e fpfuns \<Rightarrow> u64 \<Rightarrow> 'e bloom \<Rightarrow> 'e scalable_bloom \<Rightarrow> u64 \<Rightarrow> 'e scalable_bloom option" where
  "scalable_probe fp salt fresh sb v =
    do { let i = sb_len sb - 1;
         if \<not> i < sb_len sb then None
         else do {
           f \<leftarrow> get_at (sb_bfa sb) (unat i);
           (i, f, sb) \<leftarrow>
             (if over_half fp (bl_size f) (bl_m f) then
                do { let e = tighten fp (bl_e f) (sb_r sb);
                     let m = bl_m f * bl_k f * ucast (sb_scale sb);
                     let n = make_n fp m e;
                     (i, sb) \<leftarrow> maybe_grow_filter fresh sb;
                     f \<leftarrow> get_at (sb_bfa sb) i;
                     f \<leftarrow> standard_bloom_init fp salt n e f;
                     Some (i, f, sb) }
              else Some (unat i, f, sb));
           f \<leftarrow> standard_bloom_probe f v;
           bfa \<leftarrow> put_at (sb_bfa sb) i f;
           Some (sb\<lparr>sb_bfa := bfa\<rparr>) } }"

fun find_from :: "'e bloom list \<Rightarrow> nat \<Rightarrow> u64 \<Rightarrow> bool option" where
  "find_from bfa 0 v = Some False"
| "find_from bfa (Suc i) v =
    do { f \<leftarrow> get_at bfa i; r \<leftarrow> standard_bloom_find f v; if r then Some True else find_from bfa i v }"

definition scalable_find :: "'e scalable_bloom \<Rightarrow> u64 \<Rightarrow> bool option" where
  "scalable_find sb v = (if sb_len sb = 0 then None else find_from (sb_bfa sb) (unat (sb_len sb)) v)"

section \<open>Public interface\<close>

definition zero_bloom :: "'e \<Rightarrow> 'e bloom" where
  "zero_bloom e0 = \<lparr>bl_m = 0, bl_k = 0, bl_salt = 0, bl_bitmap = [], bl_size = 0, bl_bmsize = 0, bl_e = e0\<rparr>"

text \<open>The zero of \<open>double\<close> is the argument \<open>e0\<close>, the tightening ratio 0.9 the argument \<open>r\<close>.\<close>

definition setup_scalable_bloom :: "'e \<Rightarrow> u32 \<Rightarrow> 'e scalable_bloom" where
  "setup_scalable_bloom e0 nfilt =
     \<lparr>sb_bfa = replicate (unat nfilt) (zero_bloom e0), sb_len = 1, sb_cap = nfilt, sb_scale = 0, sb_r = e0\<rparr>"

definition scalable_new :: "'e fpfuns \<Rightarrow> 'e \<Rightarrow> 'e \<Rightarrow> u64 \<Rightarrow> u64 \<Rightarrow> 'e \<Rightarrow> 'e Bloom option" where
  "scalable_new fp e0 r salt n e =
    do { let sb = (setup_scalable_bloom e0 8)\<lparr>sb_scale := 2, sb_r := r\<rparr>;
         f \<leftarrow> get_at (sb_bfa sb) 0;
         f \<leftarrow> standard_bloom_init fp salt n e f;
         Some \<lparr>B_filter = BLOOM_TYPE_SCALE (sb\<lparr>sb_bfa := (sb_bfa sb)[0 := f]\<rparr>), B_n = n, B_e = e\<rparr> }"

definition Standard_bloom_init ::
  "'e fpfuns \<Rightarrow> 'e \<Rightarrow> 'e \<Rightarrow> u64 \<Rightarrow> u64 \<Rightarrow> 'e \<Rightarrow> bool \<Rightarrow> 'e Bloom option" where
  "Standard_bloom_init fp e0 r salt n e scalable =
    (if scalable then scalable_new fp e0 r salt n e
     else do { f \<leftarrow> standard_bloom_init fp salt n e (zero_bloom e0);
               Some \<lparr>B_filter = BLOOM_TYPE_QUICK f, B_n = n, B_e = e\<rparr> })"

definition Counting_bloom_init :: "'e fpfuns \<Rightarrow> 'e \<Rightarrow> u64 \<Rightarrow> u64 \<Rightarrow> 'e \<Rightarrow> 'e Bloom option" where
  "Counting_bloom_init fp e0 salt n e =
    do { f \<leftarrow> counting_bloom_init fp salt n e (zero_bloom e0);
         Some \<lparr>B_filter = BLOOM_TYPE_COUNTING f, B_n = n, B_e = e\<rparr> }"

text \<open>The calls through the function pointers.\<close>

fun filter_probe :: "'e fpfuns \<Rightarrow> u64 \<Rightarrow> 'e bloom \<Rightarrow> 'e filter \<Rightarrow> u64 \<Rightarrow> 'e filter option" where
  "filter_probe fp salt fresh (BLOOM_TYPE_COUNTING b) v = map_option BLOOM_TYPE_COUNTING (counting_bloom_probe b v)"
| "filter_probe fp salt fresh (BLOOM_TYPE_QUICK b) v = map_option BLOOM_TYPE_QUICK (standard_bloom_probe b v)"
| "filter_probe fp salt fresh (BLOOM_TYPE_SCALE sb) v = map_option BLOOM_TYPE_SCALE (scalable_probe fp salt fresh sb v)"

fun filter_find :: "'e filter \<Rightarrow> u64 \<Rightarrow> bool option" where
  "filter_find (BLOOM_TYPE_COUNTING b) v = counting_bloom_find b v"
| "filter_find (BLOOM_TYPE_QUICK b) v = standard_bloom_find b v"
| "filter_find (BLOOM_TYPE_SCALE sb) v = scalable_find sb v"

fun filter_remov :: "'e filter \<Rightarrow> u64 \<Rightarrow> (bool \<times> 'e filter) option" where
  "filter_remov (BLOOM_TYPE_COUNTING b) v = map_option (map_prod id BLOOM_TYPE_COUNTING) (counting_bloom_remove b v)"
| "filter_remov b v = Some (null_remov b v)"

definition Bloom_probe :: "'e fpfuns \<Rightarrow> u64 \<times> 'e bloom \<Rightarrow> 'e Bloom \<Rightarrow> u64 \<Rightarrow> 'e Bloom option" where
  "Bloom_probe fp env b v = map_option (\<lambda>f. b\<lparr>B_filter := f\<rparr>) (filter_probe fp (fst env) (snd env) (B_filter b) v)"

definition Bloom_find :: "'e Bloom \<Rightarrow> u64 \<Rightarrow> bool option" where
  "Bloom_find b v = filter_find (B_filter b) v"

definition Bloom_remove :: "'e Bloom \<Rightarrow> u64 \<Rightarrow> (bool \<times> 'e Bloom) option" where
  "Bloom_remove b v = map_option (map_prod id (\<lambda>f. b\<lparr>B_filter := f\<rparr>)) (filter_remov (B_filter b) v)"

text \<open>\<open>bloom_eq\<close>; \<open>memcmp\<close> over \<open>bmsize\<close> bytes reads both bitmaps.\<close>

definition bloom_eq :: "'e bloom \<Rightarrow> 'e bloom \<Rightarrow> bool" where
  "bloom_eq a b \<longleftrightarrow> bl_m a = bl_m b \<and> bl_k a = bl_k b \<and> bl_salt a = bl_salt b \<and> bl_size a = bl_size b \<and>
     bl_bmsize a = bl_bmsize b \<and> take (unat (bl_bmsize a)) (bl_bitmap a) = take (unat (bl_bmsize a)) (bl_bitmap b)"

definition scaled_bloom_eq :: "'e fpfuns \<Rightarrow> 'e scalable_bloom \<Rightarrow> 'e scalable_bloom \<Rightarrow> bool" where
  "scaled_bloom_eq fp a b \<longleftrightarrow> sb_len a = sb_len b \<and> sb_scale a = sb_scale b \<and> same_r fp (sb_r a) (sb_r b) \<and>
     list_all (\<lambda>i. bloom_eq (sb_bfa a ! i) (sb_bfa b ! i)) [0..<unat (sb_len a)]"

fun Bloom_eq :: "'e fpfuns \<Rightarrow> 'e filter \<Rightarrow> 'e filter \<Rightarrow> bool" where
  "Bloom_eq fp (BLOOM_TYPE_SCALE a) (BLOOM_TYPE_SCALE b) = scaled_bloom_eq fp a b"
| "Bloom_eq fp (BLOOM_TYPE_COUNTING a) (BLOOM_TYPE_COUNTING b) = bloom_eq a b"
| "Bloom_eq fp (BLOOM_TYPE_QUICK a) (BLOOM_TYPE_QUICK b) = bloom_eq a b"
| "Bloom_eq fp a b = False"

section \<open>The slots of a value\<close>

text \<open>The \<open>k\<close> partitions of \<open>m\<close> slots lie within \<open>cap\<close> slots, with no wrap-around.\<close>

definition fits :: "nat \<Rightarrow> 'e bloom \<Rightarrow> bool" where
  "fits cap b \<longleftrightarrow> bl_m b \<noteq> 0 \<and> unat (bl_m b) * unat (bl_k b) \<le> cap \<and> unat (bl_m b) * unat (bl_k b) < 2 ^ 64"

definition slot_list :: "'e bloom \<Rightarrow> u64 \<Rightarrow> nat list" where
  "slot_list b v = map (slot_index b v) [0..<unat (bl_k b)]"

lemma slots_eq: "bl_m b \<noteq> 0 \<Longrightarrow> slots b v = Some (slot_list b v)"
  by (simp add: slots_def slot_list_def)

lemma slots_fits [simp]: "fits cap b \<Longrightarrow> slots b v = Some (slot_list b v)"
  by (simp add: slots_eq fits_def)

lemma slot_index_partition:
  assumes "fits cap b" "i < unat (bl_k b)"
  shows "\<exists>r<unat (bl_m b). slot_index b v i = r + i * unat (bl_m b)"
proof -
  define m where "m = bl_m b"
  define x where "x = ((hash_val v (bl_salt b) AND 0xffffffff) + of_nat i * drop_bit 32 (hash_val v (bl_salt b))) mod m"
  have m: "0 < unat m" using assms(1) by (simp add: fits_def m_def unat_gt_0)
  then have x: "unat x < unat m" by (simp add: x_def unat_mod)
  have "Suc i * unat m \<le> unat (bl_k b) * unat m" using assms(2) by (intro mult_le_mono1) simp
  then have le: "unat m + i * unat m < 2 ^ 64" using assms(1) by (simp add: fits_def m_def mult.commute)
  have i: "unat (of_nat i :: u64) = i"
    using assms(2) unat_u64_less [of "bl_k b"] by (simp add: unat_of_nat)
  have "unat (x + of_nat i * m) = unat x + i * unat m"
  proof -
    have "unat (of_nat i * m) = i * unat m" using le i by (simp add: unat_word_ariths)
    then show ?thesis using x le by (simp add: unat_word_ariths)
  qed
  then show ?thesis using x by (auto simp: slot_index_def Let_def m_def x_def)
qed

lemma slot_index_less:
  assumes "fits cap b" "i < unat (bl_k b)"
  shows "slot_index b v i < cap"
proof -
  obtain r where r: "r < unat (bl_m b)" "slot_index b v i = r + i * unat (bl_m b)"
    using slot_index_partition [OF assms] by blast
  have "Suc i * unat (bl_m b) \<le> unat (bl_k b) * unat (bl_m b)" using assms(2) by (intro mult_le_mono1) simp
  then show ?thesis using r assms(1) by (simp add: fits_def mult.commute)
qed

lemma slot_list_bound: "fits cap b \<Longrightarrow> \<forall>j\<in>set (slot_list b v). j < cap"
  by (auto simp: slot_list_def slot_index_less)

lemma slot_list_distinct:
  assumes "fits cap b"
  shows "distinct (slot_list b v)"
proof -
  have "slot_index b v i div unat (bl_m b) = i" if "i < unat (bl_k b)" for i
    using slot_index_partition [OF assms that, of v] by auto
  then have "inj_on (slot_index b v) {0..<unat (bl_k b)}"
    by (metis atLeastLessThan_iff inj_onI)
  then show ?thesis by (simp add: slot_list_def distinct_map)
qed

lemma slot_list_cong: "bl_m a = bl_m b \<Longrightarrow> bl_k a = bl_k b \<Longrightarrow> bl_salt a = bl_salt b \<Longrightarrow> slot_list a v = slot_list b v"
  by (simp add: slot_list_def slot_index_def)

section \<open>Standard filters hold bit sets\<close>

definition bits :: "u8 list \<Rightarrow> nat set" where
  "bits bm = {j. j < 8 * length bm \<and> bit (bm ! (j div 8)) (j mod 8)}"

lemma testbit_bits:
  assumes "j < 8 * length bm"
  shows "testbit bm j = Some (j \<in> bits bm)"
proof -
  have "j div 8 < length bm" using assms by linarith
  moreover have "(x AND push_bit n 1 \<noteq> 0) = bit x n" if "n < 8" for x :: u8 and n
    using that by (metis and_exp_eq_0_iff_not_bit push_bit_eq_mult mult_1)
  ultimately show ?thesis
    using assms by (simp add: testbit_def mem_simps bits_def del: push_bit_of_1)
qed

lemma setbit_bits:
  assumes "j < 8 * length bm"
  shows "\<exists>bm'. setbit bm j = Some bm' \<and> length bm' = length bm \<and> bits bm' = insert j (bits bm)"
proof -
  have j: "j div 8 < length bm" using assms by linarith
  have b: "bit (x OR push_bit n 1) i \<longleftrightarrow> bit x i \<or> i = n" if "n < 8" "i < 8" for x :: u8 and n i
    using that by (auto simp: bit_or_iff bit_exp_iff)
  have "(i \<in> bits (bm[j div 8 := bm ! (j div 8) OR push_bit (j mod 8) 1])) \<longleftrightarrow> i = j \<or> i \<in> bits bm" for i
  proof (cases "i div 8 = j div 8")
    case True
    then have "i mod 8 = j mod 8 \<longleftrightarrow> i = j" by (metis div_mult_mod_eq)
    then show ?thesis using True j assms by (auto simp: bits_def b simp del: push_bit_of_1)
  qed (use j in \<open>auto simp: bits_def\<close>)
  then show ?thesis using j by (auto simp: setbit_def mem_simps)
qed

lemma set_slots_bits:
  "\<forall>j\<in>set js. j < 8 * length bm \<Longrightarrow>
     \<exists>bm'. set_slots bm js = Some bm' \<and> length bm' = length bm \<and> bits bm' = bits bm \<union> set js"
proof (induction js arbitrary: bm)
  case (Cons j js)
  then obtain bm1 where 1: "setbit bm j = Some bm1" "length bm1 = length bm" "bits bm1 = insert j (bits bm)"
    using setbit_bits [of j bm] by auto
  with Cons.IH [of bm1] Cons.prems obtain bm2 where
    "set_slots bm1 js = Some bm2" "length bm2 = length bm1" "bits bm2 = bits bm1 \<union> set js" by auto
  then show ?case using 1 by auto
qed simp

lemma test_slots_bits: "\<forall>j\<in>set js. j < 8 * length bm \<Longrightarrow> test_slots bm js = Some (set js \<subseteq> bits bm)"
  by (induction js) (auto simp: testbit_bits)

definition std_inv :: "'e bloom \<Rightarrow> bool" where
  "std_inv b \<longleftrightarrow> fits (8 * length (bl_bitmap b)) b"

lemma std_inv_update [simp]: "length bm = length (bl_bitmap b) \<Longrightarrow> std_inv (b\<lparr>bl_bitmap := bm, bl_size := s\<rparr>) = std_inv b"
  by (simp add: std_inv_def fits_def)

lemma slot_list_update [simp]: "slot_list (b\<lparr>bl_bitmap := bm, bl_size := s\<rparr>) v = slot_list b v"
  by (rule slot_list_cong) simp_all

lemma standard_find_iff:
  "std_inv b \<Longrightarrow> standard_bloom_find b v = Some (set (slot_list b v) \<subseteq> bits (bl_bitmap b))"
  by (simp add: std_inv_def standard_bloom_find_def test_slots_bits slot_list_bound)

lemma standard_probe_bits:
  assumes "std_inv b"
  shows "\<exists>b'. standard_bloom_probe b v = Some b' \<and> std_inv b' \<and> bl_size b' = bl_size b + 1 \<and>
    bits (bl_bitmap b') = bits (bl_bitmap b) \<union> set (slot_list b v) \<and> (\<forall>w. slot_list b' w = slot_list b w)"
proof -
  have f: "fits (8 * length (bl_bitmap b)) b" using assms by (simp add: std_inv_def)
  obtain bm where "set_slots (bl_bitmap b) (slot_list b v) = Some bm" "length bm = length (bl_bitmap b)"
    "bits bm = bits (bl_bitmap b) \<union> set (slot_list b v)"
    using set_slots_bits slot_list_bound [OF f, of v] by blast
  then show ?thesis using f assms by (simp add: standard_bloom_probe_def)
qed

section \<open>Approximate sets\<close>

text \<open>
  The contract of a Bloom filter: an insertion into a filter with room succeeds, the inserted value is found from then on,
  and no value that was found is lost. \<open>env\<close> is what an insertion takes from its environment.
\<close>

fun add_all :: "('env \<Rightarrow> 's \<Rightarrow> 'v \<Rightarrow> 's option) \<Rightarrow> 's \<Rightarrow> ('env \<times> 'v) list \<Rightarrow> 's option" where
  "add_all add s [] = Some s"
| "add_all add s ((e, v) # vs) = do { s \<leftarrow> add e s v; add_all add s vs }"

text \<open>Every insertion of the run finds room.\<close>

fun roomy :: "('s \<Rightarrow> bool) \<Rightarrow> ('env \<Rightarrow> 's \<Rightarrow> 'v \<Rightarrow> 's option) \<Rightarrow> 's \<Rightarrow> ('env \<times> 'v) list \<Rightarrow> bool" where
  "roomy room add s [] \<longleftrightarrow> True"
| "roomy room add s ((e, v) # vs) \<longleftrightarrow> room s \<and> (case add e s v of None \<Rightarrow> True | Some s' \<Rightarrow> roomy room add s' vs)"

lemma add_all_map:
  assumes "\<And>e s v. add' e (f s) v = map_option f (add e s v)"
  shows "add_all add' (f s) vs = map_option f (add_all add s vs)"
proof (induction vs arbitrary: s)
  case (Cons ev vs)
  then show ?case by (cases ev; cases "add (fst ev) s (snd ev)") (auto simp: assms)
qed simp

lemma roomy_map:
  assumes "\<And>e s v. add' e (f s) v = map_option f (add e s v)" "\<And>s. room' (f s) = room s"
  shows "roomy room' add' (f s) vs = roomy room add s vs"
proof (induction vs arbitrary: s)
  case (Cons ev vs)
  then show ?case by (cases ev) (auto simp: assms split: option.splits)
qed simp

locale approx_set =
  fixes add :: "'env \<Rightarrow> 's \<Rightarrow> 'v \<Rightarrow> 's option" and has :: "'s \<Rightarrow> 'v \<Rightarrow> bool option"
    and finv :: "'s \<Rightarrow> bool" and room :: "'s \<Rightarrow> bool"
  assumes add_law: "finv s \<Longrightarrow> room s \<Longrightarrow>
      \<exists>s'. add e s v = Some s' \<and> finv s' \<and> has s' v = Some True \<and> (\<forall>w. has s w = Some True \<longrightarrow> has s' w = Some True)"
    and has_total: "finv s \<Longrightarrow> \<exists>r. has s v = Some r"
begin

theorem no_false_negatives:
  assumes "finv s" "roomy room add s vs"
  shows "\<exists>s'. add_all add s vs = Some s' \<and> finv s' \<and>
    (\<forall>v. v \<in> snd ` set vs \<or> has s v = Some True \<longrightarrow> has s' v = Some True)"
  using assms
proof (induction vs arbitrary: s)
  case (Cons ev vs)
  obtain e v where ev: "ev = (e, v)" by force
  with Cons.prems obtain s1 where s1: "add e s v = Some s1" "finv s1" "has s1 v = Some True"
    "\<forall>w. has s w = Some True \<longrightarrow> has s1 w = Some True"
    using add_law [of s e v] by auto
  from Cons.IH [OF s1(2)] Cons.prems s1(1) ev obtain s2 where
    "add_all add s1 vs = Some s2" "finv s2"
    "\<forall>v. v \<in> snd ` set vs \<or> has s1 v = Some True \<longrightarrow> has s2 v = Some True" by auto
  then show ?case using s1 ev by auto
qed simp

end

lemma standard_add_law:
  assumes "std_inv b"
  shows "\<exists>b'. standard_bloom_probe b v = Some b' \<and> std_inv b' \<and> standard_bloom_find b' v = Some True \<and>
    (\<forall>w. standard_bloom_find b w = Some True \<longrightarrow> standard_bloom_find b' w = Some True) \<and>
    bl_m b' = bl_m b \<and> bl_k b' = bl_k b \<and> bl_e b' = bl_e b"
proof -
  obtain b' where b': "standard_bloom_probe b v = Some b'" "std_inv b'"
    "bits (bl_bitmap b') = bits (bl_bitmap b) \<union> set (slot_list b v)" "\<forall>w. slot_list b' w = slot_list b w"
    using standard_probe_bits [OF assms, of v] by blast
  have "bl_m b' = bl_m b \<and> bl_k b' = bl_k b \<and> bl_e b' = bl_e b"
    using b'(1) by (auto simp: standard_bloom_probe_def bind_eq_Some_conv)
  then show ?thesis
    using b' assms by (auto simp: standard_find_iff)
qed

interpretation std: approx_set "\<lambda>e. standard_bloom_probe" standard_bloom_find std_inv "\<lambda>b. True"
  by unfold_locales (use standard_add_law standard_find_iff in blast)+

section \<open>Initialisation\<close>

text \<open>At least one partition and one bit, and sizes that a \<open>size_t\<close> holds with room for the rounding to whole words.\<close>

definition size_ok :: "'e fpfuns \<Rightarrow> u64 \<Rightarrow> 'e \<Rightarrow> bool" where
  "size_ok fp n e \<longleftrightarrow> make_k fp e \<noteq> 0 \<and> make_m fp n e \<noteq> 0 \<and> unat (make_m fp n e) + unat (make_k fp e) + 64 < 2 ^ 64"

definition sub_m :: "'e fpfuns \<Rightarrow> u64 \<Rightarrow> 'e \<Rightarrow> u64" where
  "sub_m fp n e = make_m fp n e div make_k fp e + (if make_m fp n e mod make_k fp e > 0 then 1 else 0)"

lemma ceil_div_u64:
  fixes m k :: u64
  assumes "k \<noteq> 0" "m \<noteq> 0" "unat m + unat k < 2 ^ 64"
  defines "s \<equiv> m div k + (if m mod k > 0 then 1 else 0)"
  shows "s \<noteq> 0 \<and> unat s * unat k < unat m + unat k"
proof -
  have k: "0 < unat k" and m: "0 < unat m" using assms by (simp_all add: unat_gt_0)
  have d: "unat m div unat k * unat k + unat m mod unat k = unat m" by simp
  have us: "unat s = unat m div unat k + (if 0 < unat m mod unat k then 1 else 0)"
  proof (cases "m mod k > 0")
    case True
    then have "0 < unat m mod unat k" by (metis unat_gt_0 unat_mod word_neq_0_conv)
    moreover have "unat m div unat k + 1 < 2 ^ 64"
      using assms(3) k div_le_dividend [of "unat m" "unat k"] by linarith
    ultimately show ?thesis using True by (simp add: s_def unat_word_ariths unat_div)
  next
    case False
    then have "\<not> 0 < unat m mod unat k" by (metis unat_gt_0 unat_mod word_neq_0_conv)
    then show ?thesis using False by (simp add: s_def unat_div)
  qed
  have "unat s * unat k < unat m + unat k"
  proof -
    define q t where "q = unat m div unat k" and "t = unat m mod unat k"
    have "q * unat k + t = unat m" "t < unat k" "unat s = q + (if 0 < t then 1 else 0)"
      using d k us by (simp_all add: q_def t_def)
    then show ?thesis by (cases "0 < t") (simp_all add: add_mult_distrib)
  qed
  moreover have "0 < unat s"
  proof (rule ccontr)
    assume "\<not> 0 < unat s"
    then have "unat m div unat k = 0" "unat m mod unat k = 0" by (auto simp: us split: if_splits)
    then show False using d m by simp
  qed
  ultimately show ?thesis by (simp add: unat_gt_0)
qed

lemma sub_m_ok:
  assumes "size_ok fp n e"
  shows "sub_m fp n e \<noteq> 0 \<and> unat (sub_m fp n e) * unat (make_k fp e) + 64 < 2 ^ 64"
  using ceil_div_u64 [of "make_k fp e" "make_m fp n e"] assms by (auto simp: size_ok_def sub_m_def)

lemma standard_init_inv:
  assumes "size_ok fp n e"
  shows "\<exists>b'. standard_bloom_init fp salt n e b = Some b' \<and> std_inv b' \<and> bits (bl_bitmap b') = {} \<and>
    bl_size b' = bl_size b \<and> bl_m b' = sub_m fp n e \<and> bl_k b' = make_k fp e \<and> bl_e b' = e"
proof -
  define k s where "k = make_k fp e" and "s = sub_m fp n e"
  have s: "s \<noteq> 0" "unat s * unat k + 64 < 2 ^ 64" "k \<noteq> 0"
    using sub_m_ok [OF assms] assms by (simp_all add: s_def k_def size_ok_def)
  then have sk: "unat (s * k) = unat s * unat k" by (simp add: unat_word_ariths)
  have al: "unat (ALIGN_UP (s * k) 64) = (unat s * unat k + 63) div 64 * 64"
    using ALIGN_UP_exp [of 6 "s * k"] s(2) sk by simp
  have "unat s * unat k \<le> 8 * unat (ALIGN_UP (s * k) 64 div 8)"
    by (simp add: unat_div al)
  moreover have "bits (replicate n 0) = {}" for n by (auto simp: bits_def less_mult_imp_div_less)
  ultimately show ?thesis
    using s by (simp add: standard_bloom_init_def Let_def k_def s_def sub_m_def std_inv_def fits_def)
qed

section \<open>Scalable filters\<close>

text \<open>The parameters of filter \<open>i\<close> follow from those of filter 0.\<close>

fun filter_plan :: "'e fpfuns \<Rightarrow> 'e \<Rightarrow> u64 \<Rightarrow> 'e \<Rightarrow> nat \<Rightarrow> u64 \<times> 'e" where
  "filter_plan fp r n e 0 = (n, e)"
| "filter_plan fp r n e (Suc i) =
    (let (n, e) = filter_plan fp r n e i; e' = tighten fp e r in (make_n fp (sub_m fp n e * make_k fp e * 2) e', e'))"

definition plan_ok :: "'e fpfuns \<Rightarrow> 'e \<Rightarrow> u64 \<Rightarrow> 'e \<Rightarrow> nat \<Rightarrow> bool" where
  "plan_ok fp r n e F \<longleftrightarrow> F \<le> 2 ^ 31 \<and> list_all (\<lambda>i. case filter_plan fp r n e i of (n, e) \<Rightarrow> size_ok fp n e) [0..<F]"

definition planned :: "'e fpfuns \<Rightarrow> u64 \<times> 'e \<Rightarrow> 'e bloom \<Rightarrow> bool" where
  "planned fp p f \<longleftrightarrow> std_inv f \<and> bl_m f = sub_m fp (fst p) (snd p) \<and> bl_k f = make_k fp (snd p) \<and> bl_e f = snd p"

definition sc_inv :: "'e fpfuns \<Rightarrow> 'e \<Rightarrow> u64 \<Rightarrow> 'e \<Rightarrow> 'e scalable_bloom \<Rightarrow> bool" where
  "sc_inv fp r n e sb \<longleftrightarrow> 0 < unat (sb_len sb) \<and> unat (sb_len sb) \<le> unat (sb_cap sb) \<and>
     length (sb_bfa sb) = unat (sb_cap sb) \<and> sb_scale sb = 2 \<and> sb_r sb = r \<and>
     (\<forall>i<unat (sb_len sb). planned fp (filter_plan fp r n e i) (sb_bfa sb ! i))"

text \<open>The last filter takes the value, or one of the first \<open>F\<close> filters is still to be used.\<close>

definition sc_room :: "'e fpfuns \<Rightarrow> nat \<Rightarrow> 'e scalable_bloom \<Rightarrow> bool" where
  "sc_room fp F sb \<longleftrightarrow> (let f = sb_bfa sb ! unat (sb_len sb - 1) in over_half fp (bl_size f) (bl_m f) \<longrightarrow> unat (sb_len sb) < F)"

definition same_set :: "'e bloom \<Rightarrow> 'e bloom \<Rightarrow> bool" where
  "same_set f g \<longleftrightarrow> (\<forall>v. standard_bloom_find f v = Some True \<longrightarrow> standard_bloom_find g v = Some True)"

lemma find_from_iff:
  assumes "\<forall>j<i. std_inv (bfa ! j)" "i \<le> length bfa"
  shows "find_from bfa i v = Some (\<exists>j<i. standard_bloom_find (bfa ! j) v = Some True)"
  using assms
proof (induction i)
  case (Suc i)
  obtain r where r: "standard_bloom_find (bfa ! i) v = Some r"
    using Suc.prems(1) std.has_total by blast
  show ?case using Suc r by (cases r) (auto simp: mem_simps less_Suc_eq)
qed simp

lemma scalable_find_iff:
  assumes "sc_inv fp r n e sb"
  shows "scalable_find sb v = Some (\<exists>j<unat (sb_len sb). standard_bloom_find (sb_bfa sb ! j) v = Some True)"
proof -
  have "sb_len sb \<noteq> 0" using assms by (auto simp: sc_inv_def)
  then show ?thesis using assms by (simp add: scalable_find_def sc_inv_def planned_def find_from_iff)
qed

lemma scalable_find_keeps:
  assumes "sc_inv fp r n e sb" "sc_inv fp r n e sb'" "unat (sb_len sb) \<le> unat (sb_len sb')"
    "\<forall>j<unat (sb_len sb). same_set (sb_bfa sb ! j) (sb_bfa sb' ! j)"
  shows "\<forall>w. scalable_find sb w = Some True \<longrightarrow> scalable_find sb' w = Some True"
proof (intro allI impI)
  fix w assume "scalable_find sb w = Some True"
  then obtain j where j: "j < unat (sb_len sb)" "standard_bloom_find (sb_bfa sb ! j) w = Some True"
    using scalable_find_iff [OF assms(1)] by auto
  then have "j < unat (sb_len sb')" "standard_bloom_find (sb_bfa sb' ! j) w = Some True"
    using assms(3,4) by (auto simp: same_set_def)
  then show "scalable_find sb' w = Some True"
    using scalable_find_iff [OF assms(2)] by auto
qed

lemma scalable_find_new:
  assumes "sc_inv fp r n e sb" "j < unat (sb_len sb)" "standard_bloom_find (sb_bfa sb ! j) v = Some True"
  shows "scalable_find sb v = Some True"
  using assms scalable_find_iff [OF assms(1), of v] by auto

lemma len_pred: "0 < unat (l :: u32) \<Longrightarrow> unat (l - 1) = unat l - 1 \<and> l - 1 < l"
  by (metis unat_gt_0 unat_minus_one word_less_nat_alt diff_less less_numeral_extra(1))

lemma maybe_grow_ok:
  assumes "sc_inv fp r n e sb" "unat (sb_len sb) < 2 ^ 31"
  shows "\<exists>sb'. maybe_grow_filter fresh sb = Some (unat (sb_len sb), sb') \<and> unat (sb_len sb') = Suc (unat (sb_len sb)) \<and>
    unat (sb_len sb') \<le> unat (sb_cap sb') \<and> length (sb_bfa sb') = unat (sb_cap sb') \<and>
    sb_scale sb' = sb_scale sb \<and> sb_r sb' = sb_r sb \<and> (\<forall>i<unat (sb_len sb). sb_bfa sb' ! i = sb_bfa sb ! i)"
proof -
  have l: "unat (sb_len sb + 1) = Suc (unat (sb_len sb))" using assms(2) by (simp add: unat_word_ariths)
  show ?thesis
  proof (cases "sb_len sb = sb_cap sb")
    case True
    have x: "unat (push_bit 1 (sb_cap sb)) = 2 * unat (sb_cap sb)"
      using True assms(2) by (simp add: push_bit_eq_mult unat_word_ariths)
    then have gt: "push_bit 1 (sb_cap sb) > sb_cap sb" using assms(1) True by (simp add: word_less_nat_alt sc_inv_def)
    have "unat (push_bit 1 (sb_cap sb) - sb_cap sb) = unat (sb_cap sb)"
      using x gt by (simp add: unat_sub word_le_nat_alt word_less_nat_alt)
    then show ?thesis
      using True gt x l assms(1) by (simp add: maybe_grow_filter_def Let_def sc_inv_def nth_append)
  next
    case False
    then have "unat (sb_len sb) < unat (sb_cap sb)"
      using assms(1) by (simp add: sc_inv_def le_less)
    then show ?thesis using False l assms(1) by (simp add: maybe_grow_filter_def sc_inv_def)
  qed
qed

lemma scalable_put:
  assumes "0 < unat (sb_len sb)" "unat (sb_len sb) \<le> unat (sb_cap sb)" "length (sb_bfa sb) = unat (sb_cap sb)"
    "sb_scale sb = 2" "sb_r sb = r"
    "\<forall>i<unat (sb_len sb) - 1. planned fp (filter_plan fp r n e i) (sb_bfa sb ! i)"
    "planned fp (filter_plan fp r n e (unat (sb_len sb) - 1)) f"
  shows "sc_inv fp r n e (sb\<lparr>sb_bfa := (sb_bfa sb)[unat (sb_len sb) - 1 := f]\<rparr>)"
  using assms by (auto simp: sc_inv_def nth_list_update)

lemma scalable_add_law:
  assumes ok: "plan_ok fp r n e F" and inv: "sc_inv fp r n e sb" and room: "sc_room fp F sb"
  shows "\<exists>sb'. scalable_probe fp salt fresh sb v = Some sb' \<and> sc_inv fp r n e sb' \<and> scalable_find sb' v = Some True \<and>
    (\<forall>w. scalable_find sb w = Some True \<longrightarrow> scalable_find sb' w = Some True)"
proof -
  define i where "i = unat (sb_len sb) - 1"
  define f where "f = sb_bfa sb ! i"
  have l: "0 < unat (sb_len sb)" "unat (sb_len sb) \<le> length (sb_bfa sb)" using inv by (auto simp: sc_inv_def)
  have i: "i < length (sb_bfa sb)" "unat (sb_len sb - 1) = i" "sb_len sb - 1 < sb_len sb" "i < unat (sb_len sb)"
    using l len_pred [OF l(1)] by (auto simp: i_def)
  have pf: "planned fp (filter_plan fp r n e i) f" using inv i(4) by (simp add: sc_inv_def f_def)
  show ?thesis
  proof (cases "over_half fp (bl_size f) (bl_m f)")
    case False
    obtain f' where f': "standard_bloom_probe f v = Some f'" "std_inv f'" "standard_bloom_find f' v = Some True"
      "\<forall>w. standard_bloom_find f w = Some True \<longrightarrow> standard_bloom_find f' w = Some True"
      "bl_m f' = bl_m f" "bl_k f' = bl_k f" "bl_e f' = bl_e f"
      using standard_add_law [of f v] pf by (auto simp: planned_def)
    define sb' where "sb' = sb\<lparr>sb_bfa := (sb_bfa sb)[i := f']\<rparr>"
    have "scalable_probe fp salt fresh sb v = Some sb'"
      using False f'(1) i by (simp add: scalable_probe_def mem_simps f_def [symmetric] sb'_def)
    moreover have inv': "sc_inv fp r n e sb'"
      unfolding sb'_def i_def by (rule scalable_put) (use inv pf f' in \<open>auto simp: sc_inv_def planned_def i_def\<close>)
    moreover have "scalable_find sb' v = Some True"
      by (rule scalable_find_new [OF inv', of i]) (use i f'(3) in \<open>simp_all add: sb'_def\<close>)
    moreover have "\<forall>w. scalable_find sb w = Some True \<longrightarrow> scalable_find sb' w = Some True"
      by (rule scalable_find_keeps [OF inv inv'])
        (use i(1) f'(4) in \<open>auto simp: sb'_def nth_list_update same_set_def f_def\<close>)
    ultimately show ?thesis by blast
  next
    case True
    define ne where "ne = filter_plan fp r n e (Suc i)"
    have F: "unat (sb_len sb) < F" using True room i by (simp add: sc_room_def Let_def f_def [symmetric])
    then have so: "size_ok fp (fst ne) (snd ne)" and F': "unat (sb_len sb) < 2 ^ 31"
      using ok l(1) by (auto simp: plan_ok_def list_all_iff ne_def i_def split: prod.splits)
    obtain sb1 where sb1: "maybe_grow_filter fresh sb = Some (unat (sb_len sb), sb1)"
      "unat (sb_len sb1) = Suc (unat (sb_len sb))"
      "unat (sb_len sb1) \<le> unat (sb_cap sb1)" "length (sb_bfa sb1) = unat (sb_cap sb1)"
      "sb_scale sb1 = 2" "sb_r sb1 = r" "\<forall>j<unat (sb_len sb). sb_bfa sb1 ! j = sb_bfa sb ! j"
      using maybe_grow_ok [OF inv F', of fresh] inv by (auto simp: sc_inv_def)
    obtain g where g: "standard_bloom_init fp salt (fst ne) (snd ne) (sb_bfa sb1 ! unat (sb_len sb)) = Some g"
      "std_inv g" "bl_m g = sub_m fp (fst ne) (snd ne)" "bl_k g = make_k fp (snd ne)" "bl_e g = snd ne"
      using standard_init_inv [OF so] by blast
    obtain g' where g': "standard_bloom_probe g v = Some g'" "std_inv g'" "standard_bloom_find g' v = Some True"
      "bl_m g' = bl_m g" "bl_k g' = bl_k g" "bl_e g' = bl_e g"
      using standard_add_law [OF g(2), of v] by blast
    define sb' where "sb' = sb1\<lparr>sb_bfa := (sb_bfa sb1)[unat (sb_len sb) := g']\<rparr>"
    have ne: "fst ne = make_n fp (bl_m f * bl_k f * 2) (snd ne)" "snd ne = tighten fp (bl_e f) r"
      using pf by (simp_all add: ne_def planned_def split_beta Let_def)
    have sc: "sb_scale sb = 2" "sb_r sb = r" using inv by (simp_all add: sc_inv_def)
    have "scalable_probe fp salt fresh sb v = Some sb'"
      using True sb1 g(1) g'(1) i
      by (simp add: scalable_probe_def Let_def mem_simps f_def [symmetric] sb'_def ne [symmetric] sc)
    moreover have inv': "sc_inv fp r n e sb'"
    proof -
      have "unat (sb_len sb) = Suc i" using l(1) by (simp add: i_def)
      then have pg: "planned fp (filter_plan fp r n e (unat (sb_len sb))) g'"
        using g g' by (simp only: planned_def ne_def)
      have "sc_inv fp r n e (sb1\<lparr>sb_bfa := (sb_bfa sb1)[unat (sb_len sb1) - 1 := g']\<rparr>)"
        by (rule scalable_put) (use inv sb1(2-7) pg in \<open>simp_all add: sc_inv_def\<close>)
      then show ?thesis by (simp add: sb'_def sb1(2))
    qed
    moreover have "scalable_find sb' v = Some True"
      by (rule scalable_find_new [OF inv', of "unat (sb_len sb)"]) (use sb1(2-4) g'(3) in \<open>simp_all add: sb'_def\<close>)
    moreover have "\<forall>w. scalable_find sb w = Some True \<longrightarrow> scalable_find sb' w = Some True"
      by (rule scalable_find_keeps [OF inv inv']) (use sb1 in \<open>auto simp: sb'_def same_set_def\<close>)
    ultimately show ?thesis by blast
  qed
qed

interpretation scal: approx_set "\<lambda>env. scalable_probe fp (fst env) (snd env)" scalable_find
    "\<lambda>sb. plan_ok fp r n e F \<and> sc_inv fp r n e sb" "sc_room fp F" for fp r n e F
proof unfold_locales
  show "plan_ok fp r n e F \<and> sc_inv fp r n e s \<Longrightarrow> sc_room fp F s \<Longrightarrow>
      \<exists>s'. scalable_probe fp (fst env) (snd env) s v = Some s' \<and> (plan_ok fp r n e F \<and> sc_inv fp r n e s') \<and>
           scalable_find s' v = Some True \<and> (\<forall>w. scalable_find s w = Some True \<longrightarrow> scalable_find s' w = Some True)"
    for s v env
    using scalable_add_law [of fp r n e F s "fst env" "snd env" v] by blast
  show "plan_ok fp r n e F \<and> sc_inv fp r n e s \<Longrightarrow> \<exists>r. scalable_find s v = Some r" for s v
    using scalable_find_iff [of fp r n e s v] by blast
qed

section \<open>No false negatives\<close>

definition Bloom_room :: "'e fpfuns \<Rightarrow> nat \<Rightarrow> 'e Bloom \<Rightarrow> bool" where
  "Bloom_room fp F b = (case B_filter b of BLOOM_TYPE_SCALE sb \<Rightarrow> sc_room fp F sb | _ \<Rightarrow> True)"

lemma scalable_new_inv:
  assumes "plan_ok fp r n e F" "0 < F"
  shows "\<exists>sb. scalable_new fp e0 r salt n e = Some \<lparr>B_filter = BLOOM_TYPE_SCALE sb, B_n = n, B_e = e\<rparr> \<and> sc_inv fp r n e sb"
proof -
  have "size_ok fp n e" using assms by (auto simp: plan_ok_def list_all_iff split: prod.splits)
  then obtain f where f: "standard_bloom_init fp salt n e (zero_bloom e0) = Some f" "std_inv f"
    "bl_m f = sub_m fp n e" "bl_k f = make_k fp e" "bl_e f = e"
    using standard_init_inv [of fp n e salt "zero_bloom e0"] by auto
  then show ?thesis
    by (simp add: scalable_new_def setup_scalable_bloom_def mem_simps sc_inv_def planned_def)
qed

text \<open>
  C27: A filter made by \<open>Standard_bloom_init\<close>, scalable or not, has no false negatives: as long as no insertion asks for a
  filter beyond those whose sizes fit (\<open>plan_ok\<close>), any sequence of insertions succeeds without an access outside a
  bitmap, and every inserted value is found afterwards, whatever the salts and whatever \<open>realloc\<close> leaves in new memory.
\<close>

theorem Bloom_no_false_negatives:
  assumes "plan_ok fp r n e F" "0 < F" "Standard_bloom_init fp e0 r salt n e scalable = Some b"
    "roomy (Bloom_room fp F) (Bloom_probe fp) b vs"
  shows "\<exists>b'. add_all (Bloom_probe fp) b vs = Some b' \<and> (\<forall>v\<in>snd ` set vs. Bloom_find b' v = Some True)"
proof (cases scalable)
  case True
  define mk where "mk = (\<lambda>sb :: 'a scalable_bloom. \<lparr>B_filter = BLOOM_TYPE_SCALE sb, B_n = n, B_e = e\<rparr>)"
  obtain sb where sb: "b = mk sb" "sc_inv fp r n e sb"
    using scalable_new_inv [OF assms(1,2), of e0 salt] assms(3) True by (auto simp: Standard_bloom_init_def mk_def)
  have mk: "Bloom_probe fp env (mk sb) v = map_option mk (scalable_probe fp (fst env) (snd env) sb v)"
    "Bloom_room fp F (mk sb) = sc_room fp F sb" "Bloom_find (mk sb) v = scalable_find sb v" for env sb v
    by (simp_all add: Bloom_probe_def Bloom_room_def Bloom_find_def mk_def option.map_comp comp_def)
  have "roomy (sc_room fp F) (\<lambda>env. scalable_probe fp (fst env) (snd env)) sb vs"
    using assms(4) roomy_map [where f = mk and add' = "Bloom_probe fp" and room' = "Bloom_room fp F"
        and add = "\<lambda>env. scalable_probe fp (fst env) (snd env)" and room = "sc_room fp F"] mk(1,2) sb(1) by simp
  then obtain sb' where "add_all (\<lambda>env. scalable_probe fp (fst env) (snd env)) sb vs = Some sb'"
    "\<forall>v\<in>snd ` set vs. scalable_find sb' v = Some True"
    using scal.no_false_negatives [of fp r n e F sb vs] assms(1) sb(2) by blast
  then show ?thesis
    using add_all_map [where f = mk and add' = "Bloom_probe fp" and add = "\<lambda>env. scalable_probe fp (fst env) (snd env)"]
    by (simp add: sb(1) mk(1,3))
next
  case False
  define mk where "mk = (\<lambda>f :: 'a bloom. \<lparr>B_filter = BLOOM_TYPE_QUICK f, B_n = n, B_e = e\<rparr>)"
  have "size_ok fp n e" using assms(1,2) by (auto simp: plan_ok_def list_all_iff split: prod.splits)
  then obtain f where f: "b = mk f" "std_inv f"
    using standard_init_inv [of fp n e salt "zero_bloom e0"] assms(3) False by (auto simp: Standard_bloom_init_def mk_def)
  have mk: "Bloom_probe fp env (mk f) v = map_option mk (standard_bloom_probe f v)"
    "Bloom_find (mk f) v = standard_bloom_find f v" for env f v
    by (simp_all add: Bloom_probe_def Bloom_find_def mk_def option.map_comp comp_def)
  have "roomy (\<lambda>b. True) (\<lambda>e :: u64 \<times> 'a bloom. standard_bloom_probe) f vs" for f
    by (induction vs arbitrary: f) (auto split: option.splits)
  then obtain f' where "add_all (\<lambda>e. standard_bloom_probe) f vs = Some f'"
    "\<forall>v\<in>snd ` set vs. standard_bloom_find f' v = Some True"
    using std.no_false_negatives [OF f(2), of vs] by blast
  then show ?thesis
    using add_all_map [where f = mk and add' = "Bloom_probe fp" and add = "\<lambda>env. standard_bloom_probe"]
    by (simp add: f(1) mk)
qed

definition fp_demo :: "nat fpfuns" where
  "fp_demo = \<lparr>make_k = (\<lambda>e. 2), bits_per_elem = (\<lambda>e. 4), make_n = (\<lambda>m e. m div 4), over_half = (\<lambda>s m. s > 1),
     tighten = (\<lambda>e r. e + r), same_r = (=)\<rparr>"

lemma fp_demo_plan: "plan_ok fp_demo 1 2 3 4"
proof -
  have "[0..<4] = [0, Suc 0, Suc (Suc 0), Suc (Suc (Suc 0))]" by (simp add: eval_nat_numeral)
  then show ?thesis by (simp add: plan_ok_def fp_demo_def size_ok_def make_m_def sub_m_def Let_def)
qed

definition env_demo :: "u64 \<times> nat bloom" where
  "env_demo = (5, (zero_bloom 0)\<lparr>bl_size := 7\<rparr>)"

theorem Bloom_no_false_negatives_witness:
  "\<exists>b b'. Standard_bloom_init fp_demo 0 1 9 2 3 True = Some b \<and>
     add_all (Bloom_probe fp_demo) b [(env_demo, 11), (env_demo, 12), (env_demo, 13)] = Some b' \<and>
     Bloom_find b' 11 = Some True \<and> Bloom_find b' 13 = Some True"
proof -
  have r: "(case Standard_bloom_init fp_demo 0 1 9 2 3 True of None \<Rightarrow> False
      | Some b \<Rightarrow> roomy (Bloom_room fp_demo 4) (Bloom_probe fp_demo) b [(env_demo, 11), (env_demo, 12), (env_demo, 13)])"
    by code_simp
  then obtain b where b: "Standard_bloom_init fp_demo 0 1 9 2 3 True = Some b"
    "roomy (Bloom_room fp_demo 4) (Bloom_probe fp_demo) b [(env_demo, 11), (env_demo, 12), (env_demo, 13)]"
    by (auto split: option.splits)
  show ?thesis
    using Bloom_no_false_negatives [OF fp_demo_plan _ b] b(1) by auto
qed

section \<open>Counting filters\<close>

text \<open>A counter holds, modulo 256, how many of the live values hit its slot.\<close>

definition hits :: "'e bloom \<Rightarrow> u64 multiset \<Rightarrow> nat \<Rightarrow> nat" where
  "hits b L j = size (filter_mset (\<lambda>v. j \<in> set (slot_list b v)) L)"

definition cnt_inv :: "u64 multiset \<Rightarrow> 'e bloom \<Rightarrow> bool" where
  "cnt_inv L b \<longleftrightarrow> fits (length (bl_bitmap b)) b \<and> bl_k b \<noteq> 0 \<and>
     (\<forall>j<length (bl_bitmap b). bl_bitmap b ! j = of_nat (hits b L j))"

lemma hits_update [simp]: "hits (b\<lparr>bl_bitmap := bm, bl_size := s\<rparr>) L j = hits b L j"
  by (simp add: hits_def)

lemma fits_update [simp]: "fits cap (b\<lparr>bl_bitmap := bm, bl_size := s\<rparr>) = fits cap b"
  by (simp add: fits_def)

lemma hits_le: "hits b L j \<le> size L"
  unfolding hits_def by (rule size_filter_mset_lesseq)

lemma hits_replicate: "hits b (replicate_mset c v) j = (if j \<in> set (slot_list b v) then c else 0)"
  by (induction c) (simp_all add: hits_def)

lemma inc_slots_eq:
  assumes "\<forall>j\<in>set js. j < length bm" "distinct js"
  shows "\<exists>bm'. inc_slots bm js = Some bm' \<and> length bm' = length bm \<and>
    (\<forall>i<length bm. bm' ! i = (if i \<in> set js then bm ! i + 1 else bm ! i))"
  using assms
proof (induction js arbitrary: bm)
  case (Cons j js)
  from Cons.IH [of "bm[j := bm ! j + 1]"] Cons.prems obtain bm' where
    "inc_slots (bm[j := bm ! j + 1]) js = Some bm'" "length bm' = length bm"
    "\<forall>i<length bm. bm' ! i = (if i \<in> set js then bm[j := bm ! j + 1] ! i + 1 else bm[j := bm ! j + 1] ! i)"
    by auto
  then show ?case using Cons.prems by (auto simp: mem_simps nth_list_update)
qed simp

lemma dec_slots_eq:
  assumes "\<forall>j\<in>set js. j < length bm \<and> bm ! j \<noteq> 0" "distinct js"
  shows "\<exists>bm'. dec_slots bm js r = Some (r \<or> js \<noteq> [], bm') \<and> length bm' = length bm \<and>
    (\<forall>i<length bm. bm' ! i = (if i \<in> set js then bm ! i - 1 else bm ! i))"
  using assms
proof (induction js arbitrary: bm r)
  case (Cons j js)
  have "\<forall>i\<in>set js. i < length (bm[j := bm ! j - 1]) \<and> bm[j := bm ! j - 1] ! i \<noteq> 0"
    using Cons.prems by (auto simp: nth_list_update)
  from Cons.IH [OF this, of True] Cons.prems obtain bm' where
    "dec_slots (bm[j := bm ! j - 1]) js True = Some (True, bm')" "length bm' = length bm"
    "\<forall>i<length bm. bm' ! i = (if i \<in> set js then bm[j := bm ! j - 1] ! i - 1 else bm[j := bm ! j - 1] ! i)"
    by auto
  then show ?case using Cons.prems by (auto simp: mem_simps nth_list_update)
qed simp

lemma pos_slots_eq: "\<forall>j\<in>set js. j < length bm \<Longrightarrow> pos_slots bm js = Some (\<forall>j\<in>set js. bm ! j \<noteq> 0)"
  by (induction js) (auto simp: mem_simps)

lemma counting_probe_inv:
  assumes "cnt_inv L b"
  shows "\<exists>b'. counting_bloom_probe b v = Some b' \<and> cnt_inv (add_mset v L) b'"
proof -
  have f: "fits (length (bl_bitmap b)) b" using assms by (simp add: cnt_inv_def)
  obtain bm where bm: "inc_slots (bl_bitmap b) (slot_list b v) = Some bm" "length bm = length (bl_bitmap b)"
    "\<forall>i<length (bl_bitmap b). bm ! i = (if i \<in> set (slot_list b v) then bl_bitmap b ! i + 1 else bl_bitmap b ! i)"
    using inc_slots_eq [OF slot_list_bound [OF f] slot_list_distinct [OF f]] by blast
  have "hits b (add_mset v L) i = (if i \<in> set (slot_list b v) then Suc (hits b L i) else hits b L i)" for i
    by (simp add: hits_def)
  then show ?thesis using f bm assms by (auto simp: counting_bloom_probe_def cnt_inv_def)
qed

lemma hits_mem: "v \<in># L \<Longrightarrow> j \<in> set (slot_list b v) \<Longrightarrow> 0 < hits b L j"
proof -
  assume "v \<in># L" "j \<in> set (slot_list b v)"
  then have "v \<in># filter_mset (\<lambda>v. j \<in> set (slot_list b v)) L" by simp
  then show ?thesis unfolding hits_def by (metis empty_iff nonempty_has_size set_mset_empty)
qed

lemma of_nat_u8_eq_0: "(of_nat n :: u8) = 0 \<longleftrightarrow> 256 dvd n"
  by (simp add: word_of_nat_eq_0_iff)

lemma hits_nonzero:
  assumes "v \<in># L" "size L < 256" "j \<in> set (slot_list b v)"
  shows "(of_nat (hits b L j) :: u8) \<noteq> 0"
  using hits_mem [OF assms(1,3)] hits_le [of b L j] assms(2) by (auto simp: of_nat_u8_eq_0 dest: dvd_imp_le)

lemma counting_remove_inv:
  assumes "cnt_inv L b" "v \<in># L" "size L < 256"
  shows "\<exists>b'. counting_bloom_remove b v = Some (True, b') \<and> cnt_inv (L - {#v#}) b'"
proof -
  have f: "fits (length (bl_bitmap b)) b" using assms by (simp add: cnt_inv_def)
  have nz: "\<forall>j\<in>set (slot_list b v). j < length (bl_bitmap b) \<and> bl_bitmap b ! j \<noteq> 0"
    using assms(1) slot_list_bound [OF f, of v] hits_nonzero [OF assms(2,3)] by (auto simp: cnt_inv_def)
  have ne: "slot_list b v \<noteq> []" using assms(1) by (simp add: cnt_inv_def slot_list_def unat_gt_0)
  obtain bm where bm: "dec_slots (bl_bitmap b) (slot_list b v) False = Some (True, bm)" "length bm = length (bl_bitmap b)"
    "\<forall>i<length (bl_bitmap b). bm ! i = (if i \<in> set (slot_list b v) then bl_bitmap b ! i - 1 else bl_bitmap b ! i)"
    using dec_slots_eq [OF nz slot_list_distinct [OF f], of False] ne by auto
  obtain L' where L: "L = add_mset v L'" using assms(2) by (auto dest: multi_member_split)
  have "hits b L i = (if i \<in> set (slot_list b v) then Suc (hits b (L - {#v#}) i) else hits b (L - {#v#}) i)" for i
    by (simp add: hits_def L)
  then have "\<forall>i<length bm. bm ! i = of_nat (hits b (L - {#v#}) i)"
    using bm(2,3) assms(1) by (simp add: cnt_inv_def)
  then show ?thesis using f bm(1,2) assms(1) by (simp add: counting_bloom_remove_def cnt_inv_def)
qed

lemma counting_find_iff:
  assumes "cnt_inv L b"
  shows "counting_bloom_find b v = Some (\<forall>j\<in>set (slot_list b v). \<not> 256 dvd hits b L j)"
proof -
  have f: "fits (length (bl_bitmap b)) b" using assms by (simp add: cnt_inv_def)
  then show ?thesis
    using assms slot_list_bound [OF f, of v]
    by (auto simp: counting_bloom_find_def pos_slots_eq cnt_inv_def of_nat_u8_eq_0)
qed

lemma counting_init_inv:
  assumes "size_ok fp n e"
  shows "\<exists>b'. counting_bloom_init fp salt n e b = Some b' \<and> cnt_inv {#} b'"
proof -
  define k s where "k = make_k fp e" and "s = sub_m fp n e"
  have s: "s \<noteq> 0" "unat s * unat k + 64 < 2 ^ 64" "k \<noteq> 0"
    using sub_m_ok [OF assms] assms by (simp_all add: s_def k_def size_ok_def)
  then have sk: "unat (s * k) = unat s * unat k" by (simp add: unat_word_ariths)
  then show ?thesis
    using s by (simp add: counting_bloom_init_def Let_def k_def s_def sub_m_def cnt_inv_def fits_def hits_def)
qed

text \<open>Insertions (\<open>Inl\<close>) and removals (\<open>Inr\<close>) in order; \<open>live\<close> is the multiset they leave, defined while only live values
  are removed and at most 255 are live at a time.\<close>

fun counting_run :: "'e fpfuns \<Rightarrow> u64 \<times> 'e bloom \<Rightarrow> 'e Bloom \<Rightarrow> (u64 + u64) list \<Rightarrow> 'e Bloom option" where
  "counting_run fp env b [] = Some b"
| "counting_run fp env b (Inl v # xs) = do { b \<leftarrow> Bloom_probe fp env b v; counting_run fp env b xs }"
| "counting_run fp env b (Inr v # xs) = do { (r, b) \<leftarrow> Bloom_remove b v; if r then counting_run fp env b xs else None }"

fun live :: "u64 multiset \<Rightarrow> (u64 + u64) list \<Rightarrow> u64 multiset option" where
  "live L [] = Some L"
| "live L (Inl v # xs) = (if size L < 255 then live (add_mset v L) xs else None)"
| "live L (Inr v # xs) = (if v \<in># L then live (L - {#v#}) xs else None)"

lemma counting_run_inv:
  assumes "cnt_inv L b" "size L < 256" "live L xs = Some L'"
  shows "\<exists>b'. counting_run fp env \<lparr>B_filter = BLOOM_TYPE_COUNTING b, B_n = n, B_e = e\<rparr> xs =
      Some \<lparr>B_filter = BLOOM_TYPE_COUNTING b', B_n = n, B_e = e\<rparr> \<and> cnt_inv L' b' \<and> size L' < 256"
  using assms
proof (induction L xs arbitrary: b rule: live.induct)
  case (2 L v xs)
  obtain b1 where b1: "counting_bloom_probe b v = Some b1" "cnt_inv (add_mset v L) b1"
    using counting_probe_inv [OF 2(2)] by blast
  with 2 show ?case by (auto simp: Bloom_probe_def split: if_splits)
next
  case (3 L v xs)
  then have v: "v \<in># L" by (auto split: if_splits)
  obtain b1 where b1: "counting_bloom_remove b v = Some (True, b1)" "cnt_inv (L - {#v#}) b1"
    using counting_remove_inv [OF 3(2) v 3(3)] by blast
  have "size (L - {#v#}) < 256" using 3(3) size_Diff1_le [of L v] by linarith
  with 3 v b1 show ?case by (auto simp: Bloom_remove_def)
qed simp

lemma Counting_bloom_init_inv:
  assumes "size_ok fp n e" "Counting_bloom_init fp e0 salt n e = Some b"
  obtains f where "b = \<lparr>B_filter = BLOOM_TYPE_COUNTING f, B_n = n, B_e = e\<rparr>" "cnt_inv {#} f"
  using counting_init_inv [OF assms(1), of salt "zero_bloom e0"] assms(2) by (auto simp: Counting_bloom_init_def)

text \<open>
  C28: A counting filter made by \<open>Counting_bloom_init\<close> tracks insertions and removals: while only values that are in it
  are removed and at most 255 are in it at a time, every call returns, every removal reports true, every value left in
  the filter is found, and a filter that has been emptied again reports no value at all.
\<close>

theorem Counting_bloom_tracks_live:
  assumes "size_ok fp n e" "Counting_bloom_init fp e0 salt n e = Some b" "live {#} xs = Some L"
  shows "\<exists>b'. counting_run fp env b xs = Some b' \<and> (\<forall>v\<in>#L. Bloom_find b' v = Some True) \<and>
    (L = {#} \<longrightarrow> (\<forall>v. Bloom_find b' v = Some False))"
proof -
  obtain f where f: "b = \<lparr>B_filter = BLOOM_TYPE_COUNTING f, B_n = n, B_e = e\<rparr>" "cnt_inv {#} f"
    using assms(1,2) by (rule Counting_bloom_init_inv)
  obtain f' where f': "counting_run fp env b xs = Some \<lparr>B_filter = BLOOM_TYPE_COUNTING f', B_n = n, B_e = e\<rparr>"
    "cnt_inv L f'" "size L < 256"
    using counting_run_inv [OF f(2) _ assms(3), of fp env n e] f(1) by auto
  have "slot_list f' v \<noteq> []" for v using f'(2) by (simp add: cnt_inv_def slot_list_def unat_gt_0)
  then have "L = {#} \<longrightarrow> (\<forall>v. counting_bloom_find f' v = Some False)"
    using counting_find_iff [OF f'(2)] by (auto simp: hits_def neq_Nil_conv)
  moreover have "\<forall>v\<in>#L. counting_bloom_find f' v = Some True"
    using counting_find_iff [OF f'(2)] hits_nonzero [OF _ f'(3)] by (auto simp: of_nat_u8_eq_0)
  ultimately show ?thesis using f'(1) by (simp add: Bloom_find_def)
qed

theorem Counting_bloom_tracks_live_witness:
  "\<exists>b b'. Counting_bloom_init fp_demo 0 7 2 3 = Some b \<and>
     counting_run fp_demo env_demo b [Inl 4, Inl 5, Inl 4, Inr 4, Inr 5] = Some b' \<and> Bloom_find b' 4 = Some True"
proof -
  have s: "size_ok fp_demo 2 3" by (simp add: size_ok_def make_m_def fp_demo_def)
  have l: "live {#} [Inl 4, Inl 5, Inl 4, Inr 4, Inr 5] = Some {#4#}" by simp
  obtain b where b: "Counting_bloom_init fp_demo 0 7 2 3 = Some b"
    using counting_init_inv [OF s, of 7 "zero_bloom 0"] by (auto simp: Counting_bloom_init_def)
  show ?thesis using Counting_bloom_tracks_live [OF s b l, of env_demo] b by auto
qed

text \<open>
  The counters are bytes that wrap around: after 256 insertions of the same value into an empty counting filter the
  value is reported absent, although it was inserted 256 times and never removed.
\<close>

theorem counting_counter_wraps:
  assumes "size_ok fp n e" "Counting_bloom_init fp e0 salt n e = Some b"
  shows "\<exists>b'. counting_run fp env b (replicate 256 (Inl v)) = Some b' \<and> Bloom_find b' v = Some False"
proof -
  define mk where "mk f = \<lparr>B_filter = BLOOM_TYPE_COUNTING f, B_n = n, B_e = e\<rparr>" for f :: "'a bloom"
  obtain f where f: "b = mk f" "cnt_inv {#} f"
    using assms(1,2) unfolding mk_def by (rule Counting_bloom_init_inv)
  have run: "\<exists>f'. counting_run fp env (mk f) (replicate c (Inl v)) = Some (mk f') \<and> cnt_inv (L + replicate_mset c v) f'"
    if "cnt_inv L f" for c f L
    using that
  proof (induction c arbitrary: f L)
    case (Suc c)
    obtain f1 where f1: "counting_bloom_probe f v = Some f1" "cnt_inv (add_mset v L) f1"
      using counting_probe_inv [OF Suc.prems] by blast
    then show ?case using Suc.IH [OF f1(2)] by (simp add: mk_def Bloom_probe_def)
  qed auto
  obtain f' where f': "counting_run fp env b (replicate 256 (Inl v)) = Some (mk f')" "cnt_inv (replicate_mset 256 v) f'"
    using run [OF f(2), of 256] f(1) by auto
  have "slot_list f' v \<noteq> []" using f'(2) by (simp add: cnt_inv_def slot_list_def unat_gt_0)
  moreover have "hits f' (replicate_mset 256 v) j = 256" if "j \<in> set (slot_list f' v)" for j
    using that by (simp add: hits_replicate)
  ultimately have "counting_bloom_find f' v = Some False"
    using counting_find_iff [OF f'(2), of v] by (auto simp: neq_Nil_conv)
  then show ?thesis using f'(1) by (simp add: Bloom_find_def mk_def)
qed

theorem counting_counter_wraps_witness:
  "\<exists>b b'. Counting_bloom_init fp_demo 0 7 2 3 = Some b \<and>
     counting_run fp_demo env_demo b (replicate 256 (Inl 4)) = Some b' \<and> Bloom_find b' 4 = Some False"
proof -
  have s: "size_ok fp_demo 2 3" by (simp add: size_ok_def make_m_def fp_demo_def)
  obtain b where b: "Counting_bloom_init fp_demo 0 7 2 3 = Some b"
    using counting_init_inv [OF s, of 7 "zero_bloom 0"] by (auto simp: Counting_bloom_init_def)
  show ?thesis using counting_counter_wraps [OF s b, of env_demo 4] b by blast
qed

section \<open>Equality\<close>

definition sized :: "'e bloom \<Rightarrow> bool" where
  "sized b \<longleftrightarrow> length (bl_bitmap b) = unat (bl_bmsize b)"

fun filter_sized :: "'e filter \<Rightarrow> bool" where
  "filter_sized (BLOOM_TYPE_SCALE sb) \<longleftrightarrow> unat (sb_len sb) \<le> length (sb_bfa sb) \<and> list_all sized (take (unat (sb_len sb)) (sb_bfa sb))"
| "filter_sized (BLOOM_TYPE_COUNTING b) \<longleftrightarrow> sized b"
| "filter_sized (BLOOM_TYPE_QUICK b) \<longleftrightarrow> sized b"

lemma slots_cong: "bl_m a = bl_m b \<Longrightarrow> bl_k a = bl_k b \<Longrightarrow> bl_salt a = bl_salt b \<Longrightarrow> slots a v = slots b v"
  by (simp add: slots_def slot_index_def)

lemma bloom_eq_sound:
  assumes "bloom_eq a b" "sized a" "sized b"
  shows "standard_bloom_find a v = standard_bloom_find b v \<and> counting_bloom_find a v = counting_bloom_find b v"
proof -
  have "bl_bitmap a = bl_bitmap b" using assms by (auto simp: bloom_eq_def sized_def)
  then show ?thesis
    using assms(1) slots_cong [of a b v] by (simp add: bloom_eq_def standard_bloom_find_def counting_bloom_find_def)
qed

lemma find_from_cong:
  assumes "\<forall>j<i. \<forall>v. standard_bloom_find (as ! j) v = standard_bloom_find (bs ! j) v" "i \<le> length as" "i \<le> length bs"
  shows "find_from as i v = find_from bs i v"
  using assms by (induction i) (simp_all add: mem_simps cong: if_cong)

text \<open>
  Filters that \<open>Bloom_eq\<close> declares equal answer every query alike, provided \<open>bmsize\<close> is the size of each bitmap.
\<close>

theorem Bloom_eq_same_answers:
  assumes "Bloom_eq fp a b" "filter_sized a" "filter_sized b"
  shows "filter_find a v = filter_find b v"
proof (cases "(fp, a, b)" rule: Bloom_eq.cases)
  case (1 fp a' b')
  then have "\<forall>j<unat (sb_len a'). bloom_eq (sb_bfa a' ! j) (sb_bfa b' ! j) \<and> sized (sb_bfa a' ! j) \<and> sized (sb_bfa b' ! j)"
    using assms by (auto simp: scaled_bloom_eq_def list_all_length)
  then have "find_from (sb_bfa a') (unat (sb_len a')) v = find_from (sb_bfa b') (unat (sb_len a')) v"
    using assms 1 bloom_eq_sound by (intro find_from_cong) (auto simp: scaled_bloom_eq_def)
  then show ?thesis using 1 assms by (simp add: scaled_bloom_eq_def scalable_find_def)
qed (use assms bloom_eq_sound in auto)

theorem Bloom_eq_same_answers_witness:
  "filter_find (BLOOM_TYPE_COUNTING (zero_bloom (0 :: nat))) 4 = filter_find (BLOOM_TYPE_COUNTING (zero_bloom (1 :: nat))) 4"
  by (rule Bloom_eq_same_answers [of fp_demo]) (simp_all add: bloom_eq_def sized_def zero_bloom_def)

end
