(* ===== verification/Fast_List.thy ===== *)
theory Fast_List
  imports Prelude
begin

text \<open>
  The intrusive lists of \<open>inc/fast/list.h\<close>. Nodes are addresses; the heap maps an address to the link fields stored there,
  and address 0 is the null pointer. A macro becomes a function on the list head and the heap, one assignment after the
  other. \<open>dl_rep h l xs\<close> says that the head \<open>l\<close> and the links in \<open>h\<close> form the doubly linked list \<open>xs\<close>; every operation is
  shown to act on \<open>xs\<close> as its name says and to leave the links of all other nodes alone.
\<close>

type_synonym addr = u64

record dl_link =
  dl_next :: addr
  dl_prev :: addr

record dl_head =
  dl_first :: addr
  dl_last :: addr

type_synonym dl_heap = "addr \<Rightarrow> dl_link"

definition set_next :: "addr \<Rightarrow> addr \<Rightarrow> dl_heap \<Rightarrow> dl_heap" where
  "set_next p v h = h(p := h p\<lparr>dl_next := v\<rparr>)"

definition set_prev :: "addr \<Rightarrow> addr \<Rightarrow> dl_heap \<Rightarrow> dl_heap" where
  "set_prev p v h = h(p := h p\<lparr>dl_prev := v\<rparr>)"

section \<open>Doubly linked lists\<close>

definition DL_INIT :: dl_head where
  "DL_INIT = \<lparr>dl_first = 0, dl_last = 0\<rparr>"

definition DL_EMPTY :: "dl_head \<Rightarrow> bool" where
  "DL_EMPTY l \<longleftrightarrow> dl_first l = 0"

definition DL_INSERT_HEAD :: "addr \<Rightarrow> dl_head \<times> dl_heap \<Rightarrow> dl_head \<times> dl_heap" where
  "DL_INSERT_HEAD elm s =
    (let (l, h) = s; h = set_next elm (dl_first l) h;
         (l, h) = (if dl_first l \<noteq> 0 then (l, set_prev (dl_first l) elm h) else (l\<lparr>dl_last := elm\<rparr>, h));
         l = l\<lparr>dl_first := elm\<rparr>; h = set_prev elm 0 h
     in (l, h))"

definition DL_INSERT_TAIL :: "addr \<Rightarrow> dl_head \<times> dl_heap \<Rightarrow> dl_head \<times> dl_heap" where
  "DL_INSERT_TAIL elm s =
    (let (l, h) = s; h = set_prev elm (dl_last l) h;
         (l, h) = (if dl_last l \<noteq> 0 then (l, set_next (dl_last l) elm h) else (l\<lparr>dl_first := elm\<rparr>, h));
         l = l\<lparr>dl_last := elm\<rparr>; h = set_next elm 0 h
     in (l, h))"

definition DL_INSERT_AFTER :: "addr \<Rightarrow> addr \<Rightarrow> dl_head \<times> dl_heap \<Rightarrow> dl_head \<times> dl_heap" where
  "DL_INSERT_AFTER inlist elm s =
    (let (l, h) = s; n = dl_next (h inlist); h = set_next elm n h;
         (l, h) = (if n \<noteq> 0 then (l, set_prev (dl_next (h inlist)) elm h) else (l\<lparr>dl_last := elm\<rparr>, h));
         h = set_prev elm inlist h; h = set_next inlist elm h
     in (l, h))"

definition DL_INSERT_BEFORE :: "addr \<Rightarrow> addr \<Rightarrow> dl_head \<times> dl_heap \<Rightarrow> dl_head \<times> dl_heap" where
  "DL_INSERT_BEFORE inlist elm s =
    (let (l, h) = s; p = dl_prev (h inlist); h = set_prev elm p h;
         (l, h) = (if p \<noteq> 0 then (l, set_next (dl_prev (h inlist)) elm h) else (l\<lparr>dl_first := elm\<rparr>, h));
         h = set_next elm inlist h; h = set_prev inlist elm h
     in (l, h))"

definition DL_REMOVE :: "addr \<Rightarrow> dl_head \<times> dl_heap \<Rightarrow> dl_head \<times> dl_heap" where
  "DL_REMOVE elm s =
    (let (l, h) = s;
         (l, h) = (if dl_next (h elm) \<noteq> 0 then (l, set_prev (dl_next (h elm)) (dl_prev (h elm)) h)
                    else (l\<lparr>dl_last := dl_prev (h elm)\<rparr>, h));
         (l, h) = (if dl_prev (h elm) \<noteq> 0 then (l, set_next (dl_prev (h elm)) (dl_next (h elm)) h)
                    else (l\<lparr>dl_first := dl_next (h elm)\<rparr>, h))
     in (l, h))"

definition DL_REMOVE_HEAD :: "dl_head \<times> dl_heap \<Rightarrow> addr \<times> dl_head \<times> dl_heap" where
  "DL_REMOVE_HEAD s =
    (let (l, h) = s; zz = dl_first l in
     if zz \<noteq> 0 then
       let l = l\<lparr>dl_first := dl_next (h zz)\<rparr> in
       if dl_first l \<noteq> 0 then (zz, l, set_prev (dl_first l) 0 h) else (zz, l\<lparr>dl_last := 0\<rparr>, h)
     else (zz, l, h))"

definition DL_REMOVE_TAIL :: "dl_head \<times> dl_heap \<Rightarrow> addr \<times> dl_head \<times> dl_heap" where
  "DL_REMOVE_TAIL s =
    (let (l, h) = s; zz = dl_last l in
     if zz \<noteq> 0 then
       let l = l\<lparr>dl_last := dl_prev (h zz)\<rparr> in
       if dl_last l \<noteq> 0 then (zz, l, set_next (dl_last l) 0 h) else (zz, l\<lparr>dl_first := 0\<rparr>, h)
     else (zz, l, h))"

text \<open>The result holds the new \<open>oldhead\<close>; \<open>newhead\<close> is emptied.\<close>

definition DL_APPEND_LIST :: "dl_head \<Rightarrow> dl_head \<Rightarrow> dl_heap \<Rightarrow> (dl_head \<times> dl_head) \<times> dl_heap" where
  "DL_APPEND_LIST old new h =
    (let (old, h) = (if dl_last old \<noteq> 0 then
                       let h = set_next (dl_last old) (dl_first new) h in
                       (old, if dl_first new \<noteq> 0 then set_prev (dl_first new) (dl_last old) h else h)
                     else (old\<lparr>dl_first := dl_first new\<rparr>, h));
         old = (if dl_last new \<noteq> 0 then old\<lparr>dl_last := dl_last new\<rparr> else old)
     in ((old, DL_INIT), h))"

definition DL_PREPEND_LIST :: "dl_head \<Rightarrow> dl_head \<Rightarrow> dl_heap \<Rightarrow> (dl_head \<times> dl_head) \<times> dl_heap" where
  "DL_PREPEND_LIST old new h =
    (let (old, h) = (if dl_first old \<noteq> 0 then
                       let h = set_prev (dl_first old) (dl_last new) h in
                       (old, if dl_last new \<noteq> 0 then set_next (dl_last new) (dl_first old) h else h)
                     else (old\<lparr>dl_last := dl_last new\<rparr>, h));
         old = (if dl_first new \<noteq> 0 then old\<lparr>dl_first := dl_first new\<rparr> else old)
     in ((old, DL_INIT), h))"

section \<open>Representation\<close>

definition first_or :: "addr list \<Rightarrow> addr \<Rightarrow> addr" where
  "first_or xs b = (case xs of [] \<Rightarrow> b | x # _ \<Rightarrow> x)"

definition last_or :: "addr \<Rightarrow> addr list \<Rightarrow> addr" where
  "last_or a xs = (if xs = [] then a else last xs)"

text \<open>A segment \<open>xs\<close> whose first node points back to \<open>a\<close> and whose last node points on to \<open>b\<close>.\<close>

fun dlseg :: "dl_heap \<Rightarrow> addr \<Rightarrow> addr list \<Rightarrow> addr \<Rightarrow> bool" where
  "dlseg h a [] b \<longleftrightarrow> True"
| "dlseg h a (x # xs) b \<longleftrightarrow> x \<noteq> 0 \<and> dl_prev (h x) = a \<and> dl_next (h x) = first_or xs b \<and> dlseg h x xs b"

definition dl_rep :: "dl_heap \<Rightarrow> dl_head \<Rightarrow> addr list \<Rightarrow> bool" where
  "dl_rep h l xs \<longleftrightarrow> distinct xs \<and> dlseg h 0 xs 0 \<and> dl_first l = first_or xs 0 \<and> dl_last l = last_or 0 xs"

lemma first_or_simps [simp]: "first_or [] b = b" "first_or (x # xs) b = x"
  by (simp_all add: first_or_def)

lemma last_or_simps [simp]: "last_or a [] = a" "last_or a (x # xs) = last_or x xs" "last_or a (xs @ [z]) = z"
  by (simp_all add: last_or_def)

lemma first_or_append: "first_or (xs @ ys) b = first_or xs (first_or ys b)"
  by (cases xs) simp_all

lemma last_or_append: "last_or a (xs @ ys) = last_or (last_or a xs) ys"
  by (induction xs arbitrary: a) simp_all

lemma set_next_simps [simp]:
  "dl_next (set_next p v h x) = (if x = p then v else dl_next (h x))" "dl_prev (set_next p v h x) = dl_prev (h x)"
  by (simp_all add: set_next_def)

lemma set_prev_simps [simp]:
  "dl_prev (set_prev p v h x) = (if x = p then v else dl_prev (h x))" "dl_next (set_prev p v h x) = dl_next (h x)"
  by (simp_all add: set_prev_def)

lemma set_link_other [simp]: "q \<noteq> p \<Longrightarrow> set_next p v h q = h q" "q \<noteq> p \<Longrightarrow> set_prev p v h q = h q"
  by (simp_all add: set_next_def set_prev_def)

lemma dlseg_nonnull: "dlseg h a xs b \<Longrightarrow> 0 \<notin> set xs"
  by (induction xs arbitrary: a) auto

lemma dlseg_append: "dlseg h a (xs @ ys) b \<longleftrightarrow> dlseg h a xs (first_or ys b) \<and> dlseg h (last_or a xs) ys b"
  by (induction xs arbitrary: a) (auto simp: first_or_append)

lemma dlseg_cong: "\<forall>x\<in>set xs. dl_next (h x) = dl_next (g x) \<and> dl_prev (h x) = dl_prev (g x) \<Longrightarrow> dlseg h a xs b = dlseg g a xs b"
  by (induction xs arbitrary: a) auto

lemma dlseg_set_next [simp]: "p \<notin> set xs \<Longrightarrow> dlseg (set_next p v h) a xs b = dlseg h a xs b"
  by (rule dlseg_cong) auto

lemma dlseg_set_prev [simp]: "p \<notin> set xs \<Longrightarrow> dlseg (set_prev p v h) a xs b = dlseg h a xs b"
  by (rule dlseg_cong) auto

lemma dl_rep_frame:
  assumes "\<forall>x\<in>set xs. g x = h x"
  shows "dl_rep g l xs = dl_rep h l xs"
proof -
  have "dlseg g 0 xs 0 = dlseg h 0 xs 0" using assms by (intro dlseg_cong) auto
  then show ?thesis by (simp add: dl_rep_def)
qed

lemma first_or_eq_0: "0 \<notin> set xs \<Longrightarrow> first_or xs 0 = 0 \<longleftrightarrow> xs = []"
  by (cases xs) auto

lemma last_or_eq_0: "0 \<notin> set xs \<Longrightarrow> last_or 0 xs = 0 \<longleftrightarrow> xs = []"
  by (cases xs rule: rev_cases) auto

lemma first_last_nonnull [simp]:
  "b \<noteq> 0 \<Longrightarrow> 0 \<notin> set xs \<Longrightarrow> first_or xs b \<noteq> 0" "a \<noteq> 0 \<Longrightarrow> 0 \<notin> set xs \<Longrightarrow> last_or a xs \<noteq> 0"
  by (cases xs; auto) (cases xs rule: rev_cases; auto)

section \<open>The operations act as list operations\<close>

lemmas dl_simps = dl_rep_def Let_def dlseg_append first_or_append last_or_append

lemma DL_INSERT_HEAD_rep:
  assumes "dl_rep h l xs" "p \<noteq> 0" "p \<notin> set xs" "DL_INSERT_HEAD p (l, h) = (l', h')"
  shows "dl_rep h' l' (p # xs) \<and> (\<forall>q. q \<notin> set (p # xs) \<longrightarrow> h' q = h q)"
  using assms by (cases xs) (auto simp: DL_INSERT_HEAD_def dl_simps)

lemma DL_INSERT_TAIL_rep:
  assumes "dl_rep h l xs" "p \<noteq> 0" "p \<notin> set xs" "DL_INSERT_TAIL p (l, h) = (l', h')"
  shows "dl_rep h' l' (xs @ [p]) \<and> (\<forall>q. q \<notin> set (p # xs) \<longrightarrow> h' q = h q)"
  using assms by (cases xs rule: rev_cases) (auto simp: DL_INSERT_TAIL_def dl_simps)

lemma DL_INSERT_AFTER_rep:
  assumes "dl_rep h l (xs @ x # ys)" "p \<noteq> 0" "p \<notin> set (xs @ x # ys)" "DL_INSERT_AFTER x p (l, h) = (l', h')"
  shows "dl_rep h' l' (xs @ x # p # ys) \<and> (\<forall>q. q \<notin> set (p # xs @ x # ys) \<longrightarrow> h' q = h q)"
  using assms by (cases ys) (auto simp: DL_INSERT_AFTER_def dl_simps)

lemma DL_INSERT_BEFORE_rep:
  assumes "dl_rep h l (xs @ x # ys)" "p \<noteq> 0" "p \<notin> set (xs @ x # ys)" "DL_INSERT_BEFORE x p (l, h) = (l', h')"
  shows "dl_rep h' l' (xs @ p # x # ys) \<and> (\<forall>q. q \<notin> set (p # xs @ x # ys) \<longrightarrow> h' q = h q)"
  using assms by (cases xs rule: rev_cases) (auto simp: DL_INSERT_BEFORE_def dl_simps)

lemma DL_REMOVE_rep:
  assumes "dl_rep h l (xs @ x # ys)" "DL_REMOVE x (l, h) = (l', h')"
  shows "dl_rep h' l' (xs @ ys) \<and> (\<forall>q. q \<notin> set (xs @ ys) \<longrightarrow> h' q = h q)"
  using assms by (cases xs rule: rev_cases; cases ys) (auto simp: DL_REMOVE_def dl_simps)

lemma DL_REMOVE_HEAD_rep:
  assumes "dl_rep h l xs" "DL_REMOVE_HEAD (l, h) = (z, l', h')"
  shows "z = first_or xs 0 \<and> dl_rep h' l' (tl xs) \<and> (\<forall>q. q \<notin> set (tl xs) \<longrightarrow> h' q = h q)"
proof (cases xs)
  case (Cons x ys)
  then show ?thesis using assms by (cases ys) (auto simp: DL_REMOVE_HEAD_def dl_simps)
qed (use assms in \<open>auto simp: DL_REMOVE_HEAD_def dl_simps\<close>)

lemma DL_REMOVE_TAIL_rep:
  assumes "dl_rep h l xs" "DL_REMOVE_TAIL (l, h) = (z, l', h')"
  shows "z = last_or 0 xs \<and> dl_rep h' l' (butlast xs) \<and> (\<forall>q. q \<notin> set (butlast xs) \<longrightarrow> h' q = h q)"
proof (cases xs rule: rev_cases)
  case (snoc ys x)
  then show ?thesis using assms by (cases ys rule: rev_cases) (auto simp: DL_REMOVE_TAIL_def dl_simps butlast_append)
qed (use assms in \<open>auto simp: DL_REMOVE_TAIL_def dl_simps\<close>)

lemma DL_APPEND_LIST_rep:
  assumes "dl_rep h l xs" "dl_rep h m ys" "set xs \<inter> set ys = {}" "DL_APPEND_LIST l m h = ((l', m'), h')"
  shows "dl_rep h' l' (xs @ ys) \<and> dl_rep h' m' [] \<and> (\<forall>q. q \<notin> set (xs @ ys) \<longrightarrow> h' q = h q)"
  using assms by (cases xs rule: rev_cases; cases ys) (auto simp: DL_APPEND_LIST_def DL_INIT_def dl_simps dest: dlseg_nonnull)

lemma DL_PREPEND_LIST_rep:
  assumes "dl_rep h l xs" "dl_rep h m ys" "set xs \<inter> set ys = {}" "DL_PREPEND_LIST l m h = ((l', m'), h')"
  shows "dl_rep h' l' (ys @ xs) \<and> dl_rep h' m' [] \<and> (\<forall>q. q \<notin> set (xs @ ys) \<longrightarrow> h' q = h q)"
  using assms by (cases xs; cases ys rule: rev_cases) (auto simp: DL_PREPEND_LIST_def DL_INIT_def dl_simps dest: dlseg_nonnull)

section \<open>Sequences of operations\<close>

datatype dl_op =
    Insert_head addr
  | Insert_tail addr
  | Insert_after addr addr
  | Insert_before addr addr
  | Remove_node addr
  | Remove_head
  | Remove_tail

text \<open>The pointer a macro returns; 0 for those that return none.\<close>

fun dl_step :: "dl_op \<Rightarrow> dl_head \<times> dl_heap \<Rightarrow> addr \<times> dl_head \<times> dl_heap" where
  "dl_step (Insert_head p) s = (0, DL_INSERT_HEAD p s)"
| "dl_step (Insert_tail p) s = (0, DL_INSERT_TAIL p s)"
| "dl_step (Insert_after x p) s = (0, DL_INSERT_AFTER x p s)"
| "dl_step (Insert_before x p) s = (0, DL_INSERT_BEFORE x p s)"
| "dl_step (Remove_node x) s = (0, DL_REMOVE x s)"
| "dl_step Remove_head s = DL_REMOVE_HEAD s"
| "dl_step Remove_tail s = DL_REMOVE_TAIL s"

fun list_after :: "addr \<Rightarrow> addr \<Rightarrow> addr list \<Rightarrow> addr list" where
  "list_after x p [] = []"
| "list_after x p (y # ys) = (if y = x then y # p # ys else y # list_after x p ys)"

fun list_before :: "addr \<Rightarrow> addr \<Rightarrow> addr list \<Rightarrow> addr list" where
  "list_before x p [] = []"
| "list_before x p (y # ys) = (if y = x then p # y # ys else y # list_before x p ys)"

fun list_step :: "dl_op \<Rightarrow> addr list \<Rightarrow> addr \<times> addr list" where
  "list_step (Insert_head p) xs = (0, p # xs)"
| "list_step (Insert_tail p) xs = (0, xs @ [p])"
| "list_step (Insert_after x p) xs = (0, list_after x p xs)"
| "list_step (Insert_before x p) xs = (0, list_before x p xs)"
| "list_step (Remove_node x) xs = (0, remove1 x xs)"
| "list_step Remove_head xs = (case xs of [] \<Rightarrow> (0, []) | x # ys \<Rightarrow> (x, ys))"
| "list_step Remove_tail xs = (if xs = [] then (0, []) else (last xs, butlast xs))"

text \<open>A node is inserted once at a time, and the node an operation names is in the list.\<close>

fun dl_ok :: "dl_op \<Rightarrow> addr list \<Rightarrow> bool" where
  "dl_ok (Insert_head p) xs \<longleftrightarrow> p \<noteq> 0 \<and> p \<notin> set xs"
| "dl_ok (Insert_tail p) xs \<longleftrightarrow> p \<noteq> 0 \<and> p \<notin> set xs"
| "dl_ok (Insert_after x p) xs \<longleftrightarrow> p \<noteq> 0 \<and> p \<notin> set xs \<and> x \<in> set xs"
| "dl_ok (Insert_before x p) xs \<longleftrightarrow> p \<noteq> 0 \<and> p \<notin> set xs \<and> x \<in> set xs"
| "dl_ok (Remove_node x) xs \<longleftrightarrow> x \<in> set xs"
| "dl_ok Remove_head xs \<longleftrightarrow> True"
| "dl_ok Remove_tail xs \<longleftrightarrow> True"

lemma list_after_split: "x \<notin> set xs \<Longrightarrow> list_after x p (xs @ x # ys) = xs @ x # p # ys"
  by (induction xs) auto

lemma list_before_split: "x \<notin> set xs \<Longrightarrow> list_before x p (xs @ x # ys) = xs @ p # x # ys"
  by (induction xs) auto

lemma dl_step_rep:
  assumes "dl_rep h l xs" "dl_ok x xs" "dl_step x (l, h) = (r, l', h')"
  shows "r = fst (list_step x xs) \<and> dl_rep h' l' (snd (list_step x xs))"
proof (cases x)
  case (Insert_after y p)
  obtain as bs where xs: "xs = as @ y # bs" "y \<notin> set as" using assms(2) Insert_after by (auto dest: split_list_first)
  then show ?thesis
    using DL_INSERT_AFTER_rep [of h l as y bs p l' h'] assms Insert_after by (simp add: list_after_split)
next
  case (Insert_before y p)
  obtain as bs where xs: "xs = as @ y # bs" "y \<notin> set as" using assms(2) Insert_before by (auto dest: split_list_first)
  then show ?thesis
    using DL_INSERT_BEFORE_rep [of h l as y bs p l' h'] assms Insert_before by (simp add: list_before_split)
next
  case (Remove_node y)
  obtain as bs where xs: "xs = as @ y # bs" "y \<notin> set as" using assms(2) Remove_node by (auto dest: split_list_first)
  then show ?thesis
    using DL_REMOVE_rep [of h l as y bs l' h'] assms Remove_node by (simp add: remove1_append)
next
  case Remove_head
  then show ?thesis using DL_REMOVE_HEAD_rep [of h l xs r l' h'] assms by (cases xs) auto
next
  case Remove_tail
  then show ?thesis using DL_REMOVE_TAIL_rep [of h l xs r l' h'] assms by (auto simp: last_or_def)
qed (use assms DL_INSERT_HEAD_rep [of h l xs _ l' h'] DL_INSERT_TAIL_rep [of h l xs _ l' h'] in auto)

fun dl_run :: "dl_op list \<Rightarrow> dl_head \<times> dl_heap \<Rightarrow> addr list \<times> dl_head \<times> dl_heap" where
  "dl_run [] s = ([], s)"
| "dl_run (x # xs) s = (let (r, s) = dl_step x s; (rs, s) = dl_run xs s in (r # rs, s))"

fun list_run :: "dl_op list \<Rightarrow> addr list \<Rightarrow> addr list \<times> addr list" where
  "list_run [] ys = ([], ys)"
| "list_run (x # xs) ys = (let (r, ys) = list_step x ys; (rs, ys) = list_run xs ys in (r # rs, ys))"

fun dl_oks :: "dl_op list \<Rightarrow> addr list \<Rightarrow> bool" where
  "dl_oks [] ys \<longleftrightarrow> True"
| "dl_oks (x # xs) ys \<longleftrightarrow> dl_ok x ys \<and> dl_oks xs (snd (list_step x ys))"

text \<open>
  C30: The doubly linked lists of \<open>list.h\<close> implement lists: started on any well-linked list, a sequence of insertions at
  either end and around a member, and of removals of members and at either end, returns the pointers that the same
  sequence returns on an abstract list and leaves the forward and backward links of exactly the resulting list.
\<close>

theorem dl_run_refines_list:
  assumes "dl_rep h l ys" "dl_oks xs ys" "dl_run xs (l, h) = (rs, l', h')"
  shows "rs = fst (list_run xs ys) \<and> dl_rep h' l' (snd (list_run xs ys))"
  using assms
proof (induction xs arbitrary: ys l h rs)
  case (Cons x xs)
  obtain r l1 h1 where 1: "dl_step x (l, h) = (r, l1, h1)" by (metis prod_cases3)
  then obtain rs1 where 2: "dl_run xs (l1, h1) = (rs1, l', h')" "rs = r # rs1"
    using Cons.prems(3) by (auto split: prod.splits)
  have s: "r = fst (list_step x ys)" "dl_rep h1 l1 (snd (list_step x ys))"
    using dl_step_rep [OF Cons.prems(1) _ 1] Cons.prems(2) by auto
  have "rs1 = fst (list_run xs (snd (list_step x ys))) \<and> dl_rep h' l' (snd (list_run xs (snd (list_step x ys))))"
    using Cons.IH [OF s(2) _ 2(1)] Cons.prems(2) by simp
  then show ?case by (simp add: 2(2) s(1) split_beta Let_def)
qed simp

theorem dl_run_refines_list_witness:
  "fst (dl_run [Insert_head 8, Insert_tail 16, Insert_before 16 24, Remove_node 8, Remove_tail, Remove_head, Remove_head]
     (DL_INIT, \<lambda>p. \<lparr>dl_next = p, dl_prev = 7\<rparr>)) = [0, 0, 0, 0, 16, 24, 0]"
proof -
  let ?xs = "[Insert_head 8, Insert_tail 16, Insert_before 16 24, Remove_node 8, Remove_tail, Remove_head, Remove_head]"
  let ?h = "\<lambda>p. \<lparr>dl_next = p, dl_prev = 7\<rparr>"
  obtain rs l' h' where r: "dl_run ?xs (DL_INIT, ?h) = (rs, l', h')" by (metis prod_cases3)
  have "dl_rep ?h DL_INIT []" by (simp add: dl_rep_def DL_INIT_def)
  moreover have "dl_oks ?xs []" by simp
  ultimately have "rs = fst (list_run ?xs [])" using dl_run_refines_list [OF _ _ r] by blast
  then show ?thesis by (simp only: r) simp
qed

section \<open>Queues of free nodes\<close>

text \<open>
  What an owner of nodes relies on when it keeps the unused ones in an intrusive queue: nodes enter at one end and leave at the
  other in order, and whatever is written into a node outside the queue leaves the queue intact.
\<close>

locale intrusive_queue =
  fixes put :: "addr \<Rightarrow> 'l \<times> (addr \<Rightarrow> 'n) \<Rightarrow> 'l \<times> (addr \<Rightarrow> 'n)"
    and take_node :: "'l \<times> (addr \<Rightarrow> 'n) \<Rightarrow> addr \<times> 'l \<times> (addr \<Rightarrow> 'n)"
    and rep :: "(addr \<Rightarrow> 'n) \<Rightarrow> 'l \<Rightarrow> addr list \<Rightarrow> bool"
  assumes frame: "\<forall>x\<in>set xs. g x = h x \<Longrightarrow> rep g l xs = rep h l xs"
    and nodes: "rep h l xs \<Longrightarrow> distinct xs \<and> 0 \<notin> set xs"
    and put_rep: "rep h l xs \<Longrightarrow> p \<noteq> 0 \<Longrightarrow> p \<notin> set xs \<Longrightarrow> put p (l, h) = (l', h') \<Longrightarrow> rep h' l' (p # xs)"
    and take_rep: "rep h l xs \<Longrightarrow> take_node (l, h) = (z, l', h') \<Longrightarrow> z = last_or 0 xs \<and> rep h' l' (butlast xs)"
begin

lemma overwrite: "p \<notin> set xs \<Longrightarrow> rep (h(p := n)) l xs = rep h l xs"
  by (rule frame) auto

lemma put_overwritten:
  assumes "rep h l xs" "p \<noteq> 0" "p \<notin> set xs" "put p (l, h(p := n)) = (l', h')"
  shows "rep h' l' (p # xs)"
  using put_rep [OF _ assms(2-4)] assms(1,3) overwrite by blast

lemma take_last:
  assumes "rep h l (ys @ [z])" "take_node (l, h) = (r, l', h')"
  shows "r = z \<and> z \<noteq> 0 \<and> z \<notin> set ys \<and> rep h' l' ys \<and> rep (h'(z := n)) l' ys"
proof -
  have "z \<noteq> 0" "z \<notin> set ys" using nodes [OF assms(1)] by auto
  then show ?thesis using take_rep [OF assms] overwrite [of z ys] by simp
qed

lemma take_empty: "rep h l [] \<Longrightarrow> take_node (l, h) = (r, l', h') \<Longrightarrow> r = 0 \<and> rep h' l' []"
  using take_rep [of h l "[]"] by simp

end

interpretation dlq: intrusive_queue DL_INSERT_HEAD DL_REMOVE_TAIL dl_rep
proof unfold_locales
  fix g h :: dl_heap and l l' h' xs p z
  show "\<forall>x\<in>set xs. g x = h x \<Longrightarrow> dl_rep g l xs = dl_rep h l xs" by (rule dl_rep_frame)
  show "dl_rep h l xs \<Longrightarrow> distinct xs \<and> 0 \<notin> set xs" using dlseg_nonnull by (auto simp: dl_rep_def)
  show "dl_rep h l xs \<Longrightarrow> p \<noteq> 0 \<Longrightarrow> p \<notin> set xs \<Longrightarrow> DL_INSERT_HEAD p (l, h) = (l', h') \<Longrightarrow> dl_rep h' l' (p # xs)"
    by (drule (3) DL_INSERT_HEAD_rep) simp
  show "dl_rep h l xs \<Longrightarrow> DL_REMOVE_TAIL (l, h) = (z, l', h') \<Longrightarrow> z = last_or 0 xs \<and> dl_rep h' l' (butlast xs)"
    by (drule (1) DL_REMOVE_TAIL_rep) simp
qed

end
