(* ===== verification/Alloc.thy ===== *)
theory Alloc
  imports Prelude
begin

text \<open>
  The allocation macros of \<open>inc/utils/new.h\<close> and block copies, as the growable components use them. The record \<open>venv\<close> holds what such a macro
  takes from its surroundings: the element size, the all-zero element, whether an allocation succeeds and what \<open>realloc\<close> leaves in
  new memory. The empty list also stands for a null or zero-sized array.
\<close>

record 'a venv =
  ve_sizeof :: u64
  ve_zero :: 'a
  ve_ok :: bool
  ve_junk :: "nat \<Rightarrow> 'a"

text \<open>The number of whole elements in \<open>n * sizeof(elem)\<close> bytes, a product that may wrap.\<close>

definition count_of :: "'a venv \<Rightarrow> u64 \<Rightarrow> nat" where
  "count_of E n = unat (n * ve_sizeof E) div unat (ve_sizeof E)"

definition NEWZA :: "'a venv \<Rightarrow> u64 \<Rightarrow> 'a list" where
  "NEWZA E n = (if ve_ok E then replicate (unat n) (ve_zero E) else [])"

definition RENEWA :: "'a venv \<Rightarrow> 'a list \<Rightarrow> u64 \<Rightarrow> 'a list" where
  "RENEWA E xs n =
    (if ve_ok E then take (count_of E n) xs @ map (ve_junk E) [length xs..<count_of E n] else [])"

text \<open>\<open>memset\<close> and \<open>memcpy\<close> on element ranges.\<close>

definition zero_fill :: "'a venv \<Rightarrow> 'a list \<Rightarrow> nat \<Rightarrow> nat \<Rightarrow> 'a list option" where
  "zero_fill E xs i k = (if i + k \<le> length xs then Some (take i xs @ replicate k (ve_zero E) @ drop (i + k) xs) else None)"

definition copy_into :: "'a list \<Rightarrow> nat \<Rightarrow> 'a list \<Rightarrow> nat \<Rightarrow> 'a list option" where
  "copy_into xs i ys k =
    (if i + k \<le> length xs \<and> k \<le> length ys then Some (take i xs @ take k ys @ drop (i + k) xs) else None)"

definition env_ok :: "'a venv \<Rightarrow> bool" where
  "env_ok E \<longleftrightarrow> ve_ok E \<and> 0 < unat (ve_sizeof E) \<and> unat (ve_sizeof E) \<le> 2 ^ 16"

lemma count_of_eq:
  assumes "env_ok E" "unat n \<le> 2 ^ 47"
  shows "count_of E n = unat n"
proof -
  have "unat n * unat (ve_sizeof E) \<le> 2 ^ 47 * 2 ^ 16" using assms by (intro mult_mono) (auto simp: env_ok_def)
  then have "unat (n * ve_sizeof E) = unat n * unat (ve_sizeof E)" by (simp add: unat_word_ariths)
  then show ?thesis using assms(1) by (simp add: count_of_def env_ok_def)
qed

lemma copy_into_eq: "i + k \<le> length xs \<Longrightarrow> k \<le> length ys \<Longrightarrow> copy_into xs i ys k = Some (take i xs @ take k ys @ drop (i + k) xs)"
  by (simp add: copy_into_def)

end
