(* ===== verification/Vect.thy ===== *)
theory Vect
  imports Alloc Map_Spec "HOL-Library.Multiset"
begin

text \<open>
  The growable vectors of \<open>inc/fast/vect.h\<close>. The array \<open>v_arr\<close> is a list of \<open>v_cap\<close> elements, of which the first \<open>v_size\<close> are the
  vector's. What a macro takes from its surroundings is the argument \<open>E\<close> (\<open>Alloc\<close>).
  Accesses outside the array, failing assertions, uses of a dangling pointer and loops that do not end are \<open>None\<close>.
\<close>

record 'a vect =
  v_size :: u64
  v_cap :: u64
  v_arr :: "'a list"

definition VECT_INIT :: "'a venv \<Rightarrow> u64 \<Rightarrow> 'a vect" where
  "VECT_INIT E n = (let cap = (if n = 0 then 16 else n) in \<lparr>v_size = 0, v_cap = cap, v_arr = NEWZA E cap\<rparr>)"

definition VECT_INIT_FROM :: "'a venv \<Rightarrow> 'a vect \<Rightarrow> 'a vect option" where
  "VECT_INIT_FROM E w =
    do { xs \<leftarrow> copy_into (NEWZA E (v_size w)) 0 (v_arr w) (count_of E (v_size w));
         Some \<lparr>v_size = v_size w, v_cap = v_size w, v_arr = xs\<rparr> }"

definition VECT_FINI :: "'a vect \<Rightarrow> 'a vect" where
  "VECT_FINI v = \<lparr>v_size = 0, v_cap = 0, v_arr = []\<rparr>"

definition VECT_SWAP :: "'a vect \<Rightarrow> 'a vect \<Rightarrow> 'a vect \<times> 'a vect" where
  "VECT_SWAP a b =
    (let c0 = v_cap a; c1 = v_size a; c2 = v_arr a in
     (a\<lparr>v_cap := v_cap b, v_size := v_size b, v_arr := v_arr b\<rparr>, b\<lparr>v_cap := c0, v_size := c1, v_arr := c2\<rparr>))"

text \<open>The loop \<open>do { n *= 2; } while (n < want)\<close>, which may not end.\<close>

partial_function (option) grow :: "u64 \<Rightarrow> u64 \<Rightarrow> u64 option" where
  "grow want n = (let n = n * 2 in if n < want then grow want n else Some n)"


definition vect_RESERVE :: "'a venv \<Rightarrow> 'a vect \<Rightarrow> u64 \<Rightarrow> 'a vect option" where
  "vect_RESERVE E v want =
    (if v_cap v \<le> want
     then do { n \<leftarrow> grow want (v_cap v);
               xs \<leftarrow> zero_fill E (RENEWA E (v_arr v) n) (unat (v_size v)) (count_of E (n - v_cap v));
               Some (v\<lparr>v_arr := xs, v_cap := n\<rparr>) }
     else Some v)"

definition VECT_RESERVE :: "'a venv \<Rightarrow> 'a vect \<Rightarrow> u64 \<Rightarrow> 'a vect option" where
  "VECT_RESERVE E v want = vect_RESERVE E v want"

definition VECT_ENSURE :: "'a venv \<Rightarrow> 'a vect \<Rightarrow> u64 \<Rightarrow> 'a vect option" where
  "VECT_ENSURE E v xtra = vect_RESERVE E v (xtra + v_size v)"

text \<open>\<open>VECT_GET_NEXT\<close> as it is used: the slot it names is assigned to.\<close>

definition VECT_GET_NEXT :: "'a vect \<Rightarrow> 'a \<Rightarrow> 'a vect option" where
  "VECT_GET_NEXT v e =
    do { xs \<leftarrow> put_at (v_arr v) (unat (v_size v)) e; Some (v\<lparr>v_arr := xs, v_size := v_size v + 1\<rparr>) }"

definition VECT_PUSH_BACK :: "'a venv \<Rightarrow> 'a vect \<Rightarrow> 'a \<Rightarrow> 'a vect option" where
  "VECT_PUSH_BACK E v e =
    do { v \<leftarrow> vect_RESERVE E v (v_size v + 1);
         xs \<leftarrow> put_at (v_arr v) (unat (v_size v)) e;
         Some (v\<lparr>v_arr := xs, v_size := v_size v + 1\<rparr>) }"

definition VECT_POP_BACK :: "'a vect \<Rightarrow> ('a \<times> 'a vect) option" where
  "VECT_POP_BACK v =
    (if v_size v > 0
     then do { e \<leftarrow> get_at (v_arr v) (unat (v_size v - 1)); Some (e, v\<lparr>v_size := v_size v - 1\<rparr>) }
     else None)"

fun shift_up :: "'a list \<Rightarrow> nat \<Rightarrow> 'a list option" where
  "shift_up xs 0 = Some xs"
| "shift_up xs (Suc p) = do { x \<leftarrow> get_at xs p; xs \<leftarrow> put_at xs (Suc p) x; shift_up xs p }"

definition VECT_PUSH_FRONT :: "'a venv \<Rightarrow> 'a vect \<Rightarrow> 'a \<Rightarrow> 'a vect option" where
  "VECT_PUSH_FRONT E v e =
    do { v \<leftarrow> vect_RESERVE E v (v_size v + 1);
         xs \<leftarrow> shift_up (v_arr v) (unat (v_size v));
         xs \<leftarrow> put_at xs 0 e;
         Some (v\<lparr>v_arr := xs, v_size := v_size v + 1\<rparr>) }"

function shift_down :: "'a list \<Rightarrow> nat \<Rightarrow> nat \<Rightarrow> 'a list option" where
  "shift_down xs p q =
    (if p < q then do { x \<leftarrow> get_at xs (p + 1); xs \<leftarrow> put_at xs p x; shift_down xs (p + 1) q } else Some xs)"
  by pat_completeness auto
termination by (relation "measure (\<lambda>(xs, p, e). e - p)") auto

declare shift_down.simps [simp del]

definition VECT_POP_FRONT :: "'a vect \<Rightarrow> ('a \<times> 'a vect) option" where
  "VECT_POP_FRONT v =
    (let n = v_size v - 1 in
     do { e \<leftarrow> get_at (v_arr v) 0; xs \<leftarrow> shift_down (v_arr v) 0 (unat n); Some (e, v\<lparr>v_arr := xs, v_size := n\<rparr>) })"

definition VECT_RESET :: "'a vect \<Rightarrow> 'a vect" where
  "VECT_RESET v = v\<lparr>v_size := 0\<rparr>"

definition VECT_COPY :: "'a venv \<Rightarrow> 'a vect \<Rightarrow> 'a vect \<Rightarrow> 'a vect option" where
  "VECT_COPY E d s =
    do { d \<leftarrow> vect_RESERVE E d (v_size s);
         xs \<leftarrow> copy_into (v_arr d) 0 (v_arr s) (count_of E (v_size s));
         Some (d\<lparr>v_arr := xs, v_size := v_size s\<rparr>) }"

definition VECT_APPEND_VECT :: "'a venv \<Rightarrow> 'a vect \<Rightarrow> 'a vect \<Rightarrow> 'a vect option" where
  "VECT_APPEND_VECT E d s =
    do { d \<leftarrow> vect_RESERVE E d (v_size d + v_size s);
         xs \<leftarrow> copy_into (v_arr d) (unat (v_size d)) (v_arr s) (count_of E (v_size s));
         Some (d\<lparr>v_arr := xs, v_size := v_size d + v_size s\<rparr>) }"

text \<open>\<open>qsort\<close>, as a function on the elements, is an argument.\<close>

definition VECT_SORT :: "('a list \<Rightarrow> 'a list) \<Rightarrow> 'a vect \<Rightarrow> 'a vect option" where
  "VECT_SORT qsort v = map_option (\<lambda>xs. v\<lparr>v_arr := xs\<rparr>)
    (copy_into (v_arr v) 0 (qsort (take (unat (v_size v)) (v_arr v))) (unat (v_size v)))"

text \<open>The random numbers drawn are the argument \<open>rnd\<close>; the loop counter of \<open>VECT_SHUFFLE\<close> is a signed \<open>int\<close>.\<close>

fun shuffle_loop :: "(nat \<Rightarrow> u64) \<Rightarrow> 'a list \<Rightarrow> nat \<Rightarrow> 'a list option" where
  "shuffle_loop rnd xs 0 = Some xs"
| "shuffle_loop rnd xs (Suc i) =
    (let j = unat (rnd (Suc i)) mod (Suc i + 1) in
     do { e \<leftarrow> get_at xs (Suc i); x \<leftarrow> get_at xs j; xs \<leftarrow> put_at xs (Suc i) x; xs \<leftarrow> put_at xs j e; shuffle_loop rnd xs i })"

definition VECT_SHUFFLE :: "(nat \<Rightarrow> u64) \<Rightarrow> 'a vect \<Rightarrow> 'a vect option" where
  "VECT_SHUFFLE rnd v =
    (let i = sint (ucast (v_size v - 1) :: u32) in
     map_option (\<lambda>xs. v\<lparr>v_arr := xs\<rparr>) (shuffle_loop rnd (v_arr v) (nat i)))"

fun copy_first :: "'a list \<Rightarrow> 'a list \<Rightarrow> nat \<Rightarrow> nat \<Rightarrow> 'a list option" where
  "copy_first xs ys i 0 = Some xs"
| "copy_first xs ys i (Suc k) = do { y \<leftarrow> get_at ys i; xs \<leftarrow> put_at xs i y; copy_first xs ys (i + 1) k }"

fun reservoir :: "(nat \<Rightarrow> u64) \<Rightarrow> u64 \<Rightarrow> 'a list \<Rightarrow> 'a list \<Rightarrow> nat \<Rightarrow> nat \<Rightarrow> 'a list option" where
  "reservoir rnd k xs ys i 0 = Some xs"
| "reservoir rnd k xs ys i (Suc n) =
    (let j = unat (rnd i) mod (i + 1) in
     do { xs \<leftarrow> (if j < unat k then do { y \<leftarrow> get_at ys i; put_at xs j y } else Some xs);
          reservoir rnd k xs ys (i + 1) n })"

text \<open>\<open>x_\<close> is read before the vector grows: once it has grown, the pointer dangles.\<close>

definition VECT_SAMPLE :: "'a venv \<Rightarrow> (nat \<Rightarrow> u64) \<Rightarrow> 'a vect \<Rightarrow> 'a vect \<Rightarrow> u64 \<Rightarrow> (bool \<times> 'a vect) option" where
  "VECT_SAMPLE E rnd d s k =
    (if k < v_size s
     then do { d' \<leftarrow> vect_RESERVE E d k;
               _ \<leftarrow> (if v_cap d \<le> k then None else Some ());
               xs \<leftarrow> copy_first (v_arr d') (v_arr s) 0 (unat k);
               xs \<leftarrow> reservoir rnd k xs (v_arr s) (unat k) (unat (v_size s) - unat k);
               Some (True, d'\<lparr>v_arr := xs, v_size := k\<rparr>) }
     else Some (False, d))"

definition VECT_RAND_ELEM :: "u64 \<Rightarrow> 'a vect \<Rightarrow> 'a option" where
  "VECT_RAND_ELEM rnd v = (if v_size v = 0 then None else get_at (v_arr v) (unat (rnd mod v_size v)))"

definition VECT_FIRST_ELEM :: "'a vect \<Rightarrow> 'a option" where
  "VECT_FIRST_ELEM v = get_at (v_arr v) 0"

definition VECT_LAST_ELEM :: "'a vect \<Rightarrow> 'a option" where
  "VECT_LAST_ELEM v = (if v_size v > 0 then get_at (v_arr v) (unat (v_size v - 1)) else None)"

definition VECT_POP :: "'a vect \<Rightarrow> 'a vect option" where
  "VECT_POP v = (if v_size v > 0 then Some (v\<lparr>v_size := v_size v - 1\<rparr>) else None)"

definition VECT_ELEM :: "'a vect \<Rightarrow> u64 \<Rightarrow> 'a option" where
  "VECT_ELEM v n = get_at (v_arr v) (unat n)"

definition VECT_LEN :: "'a vect \<Rightarrow> u64" where
  "VECT_LEN v = v_size v"

definition VECT_CAPACITY :: "'a vect \<Rightarrow> u64" where
  "VECT_CAPACITY v = v_cap v"

section \<open>Invariant\<close>

definition elems :: "'a vect \<Rightarrow> 'a list" where
  "elems v = take (unat (v_size v)) (v_arr v)"

definition vect_ok :: "'a vect \<Rightarrow> bool" where
  "vect_ok v \<longleftrightarrow> length (v_arr v) = unat (v_cap v) \<and> 0 < unat (v_cap v) \<and> unat (v_cap v) \<le> 2 ^ 47 \<and> unat (v_size v) \<le> unat (v_cap v)"

lemma length_elems: "vect_ok v \<Longrightarrow> length (elems v) = unat (v_size v)"
  by (simp add: vect_ok_def elems_def)

lemma grow_ends:
  assumes "0 < unat n" "unat n \<le> unat want" "unat want \<le> 2 ^ 46"
  shows "\<exists>m. grow want n = Some m \<and> unat want \<le> unat m \<and> unat n < unat m \<and> unat m \<le> 2 * unat want"
  using assms(1,2)
proof (induction "unat want - unat n" arbitrary: n rule: less_induct)
  case less
  have d: "unat (n * 2) = 2 * unat n" using less.prems assms(3) by (simp add: unat_word_ariths)
  show ?case
  proof (cases "n * 2 < want")
    case True
    then have lt: "2 * unat n < unat want" using d by (simp add: word_less_nat_alt)
    have "unat want - unat (n * 2) < unat want - unat n" using lt d less.prems by linarith
    from less.hyps [OF this] lt d less.prems
    obtain m where m: "grow want (n * 2) = Some m" "unat want \<le> unat m" "unat (n * 2) < unat m" "unat m \<le> 2 * unat want"
      by fastforce
    then have "unat n < unat m" using d by linarith
    with m True show ?thesis by (subst grow.simps) simp
  next
    case False
    then have "grow want n = Some (n * 2)" by (subst grow.simps) simp
    then show ?thesis using False d less.prems by (simp add: word_less_nat_alt)
  qed
qed

text \<open>A doubling loop that returns started from a positive number.\<close>

lemma grow_Some: "grow want n = Some m \<Longrightarrow> 0 < want \<Longrightarrow> n \<noteq> 0"
  by (rule grow.raw_induct [of "\<lambda>w n m. 0 < w \<longrightarrow> n \<noteq> 0" want n m, rule_format]) (fastforce simp: Let_def split: if_splits)+

lemma grow_0: "0 < want \<Longrightarrow> grow want 0 = None"
  using grow_Some [of want 0] by (cases "grow want 0") auto

lemma vect_RESERVE_ok:
  assumes E: "env_ok E" and v: "vect_ok v" and w: "unat want \<le> 2 ^ 46"
  shows "\<exists>v'. vect_RESERVE E v want = Some v' \<and> vect_ok v' \<and> unat want \<le> unat (v_cap v') \<and> v_size v' = v_size v \<and> elems v' = elems v"
proof (cases "v_cap v \<le> want")
  case False
  then show ?thesis using v by (simp add: vect_RESERVE_def word_le_nat_alt)
next
  case True
  then have cw: "0 < unat (v_cap v)" "unat (v_cap v) \<le> unat want" using v by (auto simp: vect_ok_def word_le_nat_alt)
  obtain m where m: "grow want (v_cap v) = Some m" "unat want \<le> unat m" "unat (v_cap v) < unat m" "unat m \<le> 2 * unat want"
    using grow_ends [OF cw w] by blast
  have sub: "unat (m - v_cap v) = unat m - unat (v_cap v)" using m(3) by (intro unat_sub) (simp add: word_le_nat_alt)
  have c: "count_of E m = unat m" "count_of E (m - v_cap v) = unat m - unat (v_cap v)"
    using count_of_eq [OF E, of m] count_of_eq [OF E, of "m - v_cap v"] m(4) w sub by auto
  have l: "length (v_arr v) = unat (v_cap v)" "unat (v_size v) \<le> unat (v_cap v)" using v by (auto simp: vect_ok_def)
  define xs where "xs = RENEWA E (v_arr v) m"
  have xs: "length xs = unat m" "take (unat (v_size v)) xs = elems v"
    using E l m(3) c by (auto simp: xs_def RENEWA_def env_ok_def elems_def)
  have fit: "unat (v_size v) + (unat m - unat (v_cap v)) \<le> unat m" using l m(3) by simp
  define ys where "ys = take (unat (v_size v)) xs @ replicate (unat m - unat (v_cap v)) (ve_zero E) @
      drop (unat (v_size v) + (unat m - unat (v_cap v))) xs"
  have "zero_fill E xs (unat (v_size v)) (unat m - unat (v_cap v)) = Some ys"
    using fit xs(1) by (simp add: zero_fill_def ys_def)
  then have r: "vect_RESERVE E v want = Some (v\<lparr>v_arr := ys, v_cap := m\<rparr>)"
    using True m(1) c by (simp add: vect_RESERVE_def flip: xs_def)
  have e: "length (elems v) = unat (v_size v)" using length_elems [OF v] .
  have "length ys = unat m" unfolding ys_def xs(2) using e fit xs(1) by simp
  moreover have "take (unat (v_size v)) ys = elems v" unfolding ys_def xs(2) using e by simp
  ultimately show ?thesis using r l m w by (simp add: vect_ok_def) (simp add: elems_def)
qed

lemma VECT_INIT_ok:
  assumes "env_ok E" "unat n \<le> 2 ^ 46"
  shows "vect_ok (VECT_INIT E n) \<and> elems (VECT_INIT E n) = []"
  using assms by (auto simp: VECT_INIT_def vect_ok_def elems_def NEWZA_def env_ok_def Let_def unat_gt_0)

text \<open>A vector whose array holds \<open>xs\<close> followed by anything.\<close>

lemma vect_okI:
  assumes "vect_ok v" "length ys = length (v_arr v)" "unat n \<le> unat (v_cap v)"
  shows "vect_ok (v\<lparr>v_arr := ys, v_size := n\<rparr>)" "elems (v\<lparr>v_arr := ys, v_size := n\<rparr>) = take (unat n) ys"
  using assms by (simp_all add: vect_ok_def elems_def)

lemma succ_size: "vect_ok v \<Longrightarrow> unat (v_size v + 1) = Suc (unat (v_size v))"
  by (simp add: vect_ok_def unat_word_ariths)

lemma pred_size: "v_size v > 0 \<Longrightarrow> unat (v_size v - 1) = unat (v_size v) - 1"
  by (metis unat_minus_one word_not_simps(1))

lemma VECT_PUSH_BACK_ok:
  assumes E: "env_ok E" and v: "vect_ok v" and n: "unat (v_size v) < 2 ^ 46"
  shows "\<exists>v'. VECT_PUSH_BACK E v e = Some v' \<and> vect_ok v' \<and> elems v' = elems v @ [e]"
proof -
  note s = succ_size [OF v]
  have "unat (v_size v + 1) \<le> 2 ^ 46" using n s by simp
  then obtain w where w: "vect_RESERVE E v (v_size v + 1) = Some w" "vect_ok w" "unat (v_size v + 1) \<le> unat (v_cap w)" "v_size w = v_size v"
    "elems w = elems v" using vect_RESERVE_ok [OF E v] by blast
  have l: "unat (v_size v) < length (v_arr w)" using w s by (simp add: vect_ok_def)
  then have "VECT_PUSH_BACK E v e = Some (w\<lparr>v_arr := (v_arr w)[unat (v_size v) := e], v_size := v_size v + 1\<rparr>)"
    using w by (simp add: VECT_PUSH_BACK_def mem_simps)
  moreover have "take (Suc (unat (v_size v))) ((v_arr w)[unat (v_size v) := e]) = elems w @ [e]"
    using l w(4) by (simp add: elems_def take_Suc_conv_app_nth)
  ultimately show ?thesis
    using vect_okI [OF w(2), of "(v_arr w)[unat (v_size v) := e]" "v_size v + 1"] w(3,5) s by simp
qed

lemma last_take_nth: "0 < n \<Longrightarrow> n \<le> length xs \<Longrightarrow> last (take n xs) = xs ! (n - 1)"
  by (cases n) (simp_all add: take_Suc_conv_app_nth)

lemma VECT_POP_BACK_ok:
  assumes v: "vect_ok v" and n: "0 < v_size v"
  shows "\<exists>v'. VECT_POP_BACK v = Some (last (elems v), v') \<and> vect_ok v' \<and> elems v' = butlast (elems v)"
proof -
  have p: "unat (v_size v - 1) = unat (v_size v) - 1" using pred_size [OF n] .
  have z: "0 < unat (v_size v)" using n by (simp add: word_less_nat_alt)
  have l: "unat (v_size v) \<le> length (v_arr v)" using v by (simp add: vect_ok_def)
  have "last (elems v) = v_arr v ! (unat (v_size v) - 1)"  using z l by (simp add: elems_def last_take_nth)
  moreover have "butlast (elems v) = take (unat (v_size v) - 1) (v_arr v)" using l by (simp add: elems_def butlast_take)
  moreover have "unat (v_size v) - 1 < length (v_arr v)" "unat (v_size v) - 1 \<le> unat (v_cap v)" using z l v by (auto simp: vect_ok_def)
  ultimately show ?thesis using n p vect_okI [OF v, of "v_arr v" "v_size v - 1"]
    by (simp add: VECT_POP_BACK_def mem_simps)
qed

lemma shift_up_eq: "p < length xs \<Longrightarrow> shift_up xs p = Some (take 1 xs @ take p xs @ drop (Suc p) xs)"
proof (induction p arbitrary: xs)
  case 0
  then show ?case by (simp add: append_take_drop_id [of 1, simplified])
next
  case (Suc p)
  have "take p xs @ xs ! p # drop (Suc (Suc p)) xs = take (Suc p) xs @ drop (Suc (Suc p)) xs"
    using Suc.prems by (simp add: take_Suc_conv_app_nth)
  moreover have "drop (Suc p) (xs[Suc p := xs ! p]) = xs ! p # drop (Suc (Suc p)) xs"
    using Suc.prems Cons_nth_drop_Suc [of "Suc p" "xs[Suc p := xs ! p]"] by simp
  ultimately show ?case using Suc by (simp add: mem_simps)
qed

lemma shift_down_eq: "p \<le> q \<Longrightarrow> q < length xs \<Longrightarrow> shift_down xs p q = Some (take p xs @ take (q - p) (drop (Suc p) xs) @ drop q xs)"
proof (induction xs p q rule: shift_down.induct)
  case (1 xs p q)
  show ?case
  proof (cases "p < q")
    case False
    then have "p = q" using 1 by simp
    then show ?thesis by (simp add: shift_down.simps)
  next
    case True
    define ys where "ys = xs[p := xs ! Suc p]"
    have "shift_down ys (Suc p) q = Some (take (Suc p) ys @ take (q - Suc p) (drop (Suc (Suc p)) ys) @ drop q ys)"
      using "1.IH" [OF True, of "xs ! Suc p" ys] True "1.prems" by (simp add: ys_def)
    moreover have "take (Suc p) ys = take p xs @ [xs ! Suc p]" "drop (Suc (Suc p)) ys = drop (Suc (Suc p)) xs" "drop q ys = drop q xs"
      using True "1.prems" by (simp_all add: ys_def take_Suc_conv_app_nth)
    moreover have "take (q - p) (drop (Suc p) xs) = xs ! Suc p # take (q - Suc p) (drop (Suc (Suc p)) xs)"
      using True "1.prems" by (simp add: Cons_nth_drop_Suc [of "Suc p" xs, symmetric] flip: Suc_diff_Suc)
    moreover have "shift_down xs p q = shift_down ys (Suc p) q"
      using True "1.prems" by (subst shift_down.simps) (simp add: ys_def mem_simps)
    ultimately show ?thesis by simp
  qed
qed

lemma VECT_PUSH_FRONT_ok:
  assumes E: "env_ok E" and v: "vect_ok v" and n: "unat (v_size v) < 2 ^ 46"
  shows "\<exists>v'. VECT_PUSH_FRONT E v e = Some v' \<and> vect_ok v' \<and> elems v' = e # elems v"
proof -
  note s = succ_size [OF v]
  have "unat (v_size v + 1) \<le> 2 ^ 46" using n s by simp
  then obtain w where w: "vect_RESERVE E v (v_size v + 1) = Some w" "vect_ok w" "unat (v_size v + 1) \<le> unat (v_cap w)" "v_size w = v_size v"
    "elems w = elems v" using vect_RESERVE_ok [OF E v] by blast
  have l: "unat (v_size v) < length (v_arr w)" using w s by (simp add: vect_ok_def)
  define ys where "ys = e # take (unat (v_size v)) (v_arr w) @ drop (Suc (unat (v_size v))) (v_arr w)"
  have "shift_up (v_arr w) (unat (v_size v)) = Some (take 1 (v_arr w) @ take (unat (v_size v)) (v_arr w) @ drop (Suc (unat (v_size v))) (v_arr w))"
    using l by (rule shift_up_eq)
  moreover obtain a as where "v_arr w = a # as" using l by (cases "v_arr w") auto
  then have "take 1 (v_arr w) = [a]" by simp
  ultimately have "VECT_PUSH_FRONT E v e = Some (w\<lparr>v_arr := ys, v_size := v_size v + 1\<rparr>)"
    using w by (simp add: VECT_PUSH_FRONT_def mem_simps ys_def)
  moreover have "length ys = length (v_arr w)" "take (Suc (unat (v_size v))) ys = e # elems w" using l w(4) by (auto simp: ys_def elems_def)
  ultimately show ?thesis using vect_okI [OF w(2), of ys "v_size v + 1"] w(3,5) s by simp
qed

lemma VECT_POP_FRONT_ok:
  assumes v: "vect_ok v" and n: "0 < v_size v"
  shows "\<exists>v'. VECT_POP_FRONT v = Some (hd (elems v), v') \<and> vect_ok v' \<and> elems v' = tl (elems v)"
proof -
  define k where "k = unat (v_size v) - 1"
  have p: "unat (v_size v - 1) = k" using pred_size [OF n] by (simp add: k_def)
  have z: "unat (v_size v) = Suc k" using n by (simp add: word_less_nat_alt k_def)
  have l: "k < length (v_arr v)" using v z by (simp add: vect_ok_def)
  then obtain a as where a: "v_arr v = a # as" by (cases "v_arr v") auto
  define ys where "ys = take k as @ drop k (v_arr v)"
  have "shift_down (v_arr v) 0 k = Some ys" using shift_down_eq [of 0 k "v_arr v"] l by (simp add: a ys_def)
  then have "VECT_POP_FRONT v = Some (a, v\<lparr>v_arr := ys, v_size := v_size v - 1\<rparr>)"
    using p a by (simp add: VECT_POP_FRONT_def Let_def mem_simps)
  moreover have "length ys = length (v_arr v)" "take k ys = take k as" using l a by (auto simp: ys_def)
  moreover have "elems v = a # take k as" using z a by (simp add: elems_def)
  moreover have "unat (v_size v - 1) \<le> unat (v_cap v)" using v z p by (simp add: vect_ok_def)
  ultimately show ?thesis using vect_okI [OF v, of ys "v_size v - 1"] p by simp
qed

lemma VECT_APPEND_VECT_ok:
  assumes E: "env_ok E" and v: "vect_ok v" "vect_ok u" and n: "unat (v_size v) + unat (v_size u) \<le> 2 ^ 46"
  shows "\<exists>v'. VECT_APPEND_VECT E v u = Some v' \<and> vect_ok v' \<and> elems v' = elems v @ elems u"
proof -
  have s: "unat (v_size v + v_size u) = unat (v_size v) + unat (v_size u)" using n by (simp add: unat_word_ariths)
  then have "unat (v_size v + v_size u) \<le> 2 ^ 46" using n by simp
  then obtain w where w: "vect_RESERVE E v (v_size v + v_size u) = Some w" "vect_ok w" "unat (v_size v + v_size u) \<le> unat (v_cap w)"
    "v_size w = v_size v" "elems w = elems v" using vect_RESERVE_ok [OF E v(1)] by blast
  have l: "unat (v_size v) + unat (v_size u) \<le> length (v_arr w)" "unat (v_size u) \<le> length (v_arr u)" using w v s by (simp_all add: vect_ok_def)
  have c: "count_of E (v_size u) = unat (v_size u)" using n by (intro count_of_eq [OF E]) simp
  define ys where "ys = elems w @ elems u @ drop (unat (v_size v) + unat (v_size u)) (v_arr w)"
  have "VECT_APPEND_VECT E v u = Some (w\<lparr>v_arr := ys, v_size := v_size v + v_size u\<rparr>)"
    using w l c by (simp add: VECT_APPEND_VECT_def copy_into_eq ys_def elems_def)
  moreover have "length ys = length (v_arr w)" "take (unat (v_size v) + unat (v_size u)) ys = elems w @ elems u"
    using l w(4) length_elems [OF w(2)] length_elems [OF v(2)] by (simp_all add: ys_def)
  ultimately show ?thesis using vect_okI [OF w(2), of ys "v_size v + v_size u"] w(3,5) s by simp
qed

lemma VECT_COPY_ok:
  assumes E: "env_ok E" and v: "vect_ok v" "vect_ok u" and n: "unat (v_size u) \<le> 2 ^ 46"
  shows "\<exists>v'. VECT_COPY E v u = Some v' \<and> vect_ok v' \<and> elems v' = elems u"
proof -
  obtain w where w: "vect_RESERVE E v (v_size u) = Some w" "vect_ok w" "unat (v_size u) \<le> unat (v_cap w)"
    using vect_RESERVE_ok [OF E v(1) n] by blast
  have l: "unat (v_size u) \<le> length (v_arr w)" "unat (v_size u) \<le> length (v_arr u)" using w v by (simp_all add: vect_ok_def)
  have c: "count_of E (v_size u) = unat (v_size u)" using n by (intro count_of_eq [OF E]) simp
  define ys where "ys = elems u @ drop (unat (v_size u)) (v_arr w)"
  have "VECT_COPY E v u = Some (w\<lparr>v_arr := ys, v_size := v_size u\<rparr>)"
    using w l c by (simp add: VECT_COPY_def copy_into_eq ys_def elems_def)
  moreover have "length ys = length (v_arr w)" "take (unat (v_size u)) ys = elems u"
    using l length_elems [OF v(2)] by (simp_all add: ys_def)
  ultimately show ?thesis using vect_okI [OF w(2), of ys "v_size u"] w(3) by simp
qed

section \<open>Sequences of operations\<close>

text \<open>The calls of a client, each with the surroundings of the call; the client asks for the length before it removes or reads.\<close>

datatype 'a vop =
    VPush "'a venv" 'a | VPop | VPushFront "'a venv" 'a | VPopFront | VReset | VReserve "'a venv" u64 | VEnsure "'a venv" u64
  | VCopy "'a venv" "'a vect" | VAppend "'a venv" "'a vect" | VElem u64 | VLast | VDrop | VLen

datatype 'a vres = VOk | VNo | VItem 'a | VNum nat

fun vect_op :: "'a vop \<Rightarrow> 'a vect \<Rightarrow> ('a vres \<times> 'a vect) option" where
  "vect_op (VPush E e) v = map_option (Pair VOk) (VECT_PUSH_BACK E v e)"
| "vect_op VPop v = (if VECT_LEN v = 0 then Some (VNo, v) else map_option (apfst VItem) (VECT_POP_BACK v))"
| "vect_op (VPushFront E e) v = map_option (Pair VOk) (VECT_PUSH_FRONT E v e)"
| "vect_op VPopFront v = (if VECT_LEN v = 0 then Some (VNo, v) else map_option (apfst VItem) (VECT_POP_FRONT v))"
| "vect_op VReset v = Some (VOk, VECT_RESET v)"
| "vect_op (VReserve E n) v = map_option (Pair VOk) (VECT_RESERVE E v n)"
| "vect_op (VEnsure E n) v = map_option (Pair VOk) (VECT_ENSURE E v n)"
| "vect_op (VCopy E u) v = map_option (Pair VOk) (VECT_COPY E v u)"
| "vect_op (VAppend E u) v = map_option (Pair VOk) (VECT_APPEND_VECT E v u)"
| "vect_op (VElem i) v = (if VECT_LEN v \<le> i then Some (VNo, v) else map_option (\<lambda>e. (VItem e, v)) (VECT_ELEM v i))"
| "vect_op VLast v = (if VECT_LEN v = 0 then Some (VNo, v) else map_option (\<lambda>e. (VItem e, v)) (VECT_LAST_ELEM v))"
| "vect_op VDrop v = (if VECT_LEN v = 0 then Some (VNo, v) else map_option (Pair VOk) (VECT_POP v))"
| "vect_op VLen v = Some (VNum (unat (VECT_LEN v)), v)"

fun vect_spec :: "'a vop \<Rightarrow> 'a list \<Rightarrow> 'a vres \<times> 'a list" where
  "vect_spec (VPush E e) xs = (VOk, xs @ [e])"
| "vect_spec VPop xs = (if xs = [] then (VNo, xs) else (VItem (last xs), butlast xs))"
| "vect_spec (VPushFront E e) xs = (VOk, e # xs)"
| "vect_spec VPopFront xs = (if xs = [] then (VNo, xs) else (VItem (hd xs), tl xs))"
| "vect_spec VReset xs = (VOk, [])"
| "vect_spec (VReserve E n) xs = (VOk, xs)"
| "vect_spec (VEnsure E n) xs = (VOk, xs)"
| "vect_spec (VCopy E u) xs = (VOk, elems u)"
| "vect_spec (VAppend E u) xs = (VOk, xs @ elems u)"
| "vect_spec (VElem i) xs = (if length xs \<le> unat i then VNo else VItem (xs ! unat i), xs)"
| "vect_spec VLast xs = (if xs = [] then VNo else VItem (last xs), xs)"
| "vect_spec VDrop xs = (if xs = [] then (VNo, xs) else (VOk, butlast xs))"
| "vect_spec VLen xs = (VNum (length xs), xs)"

fun vop_ok :: "'a vop \<Rightarrow> bool" where
  "vop_ok (VPush E e) \<longleftrightarrow> env_ok E"
| "vop_ok (VPushFront E e) \<longleftrightarrow> env_ok E"
| "vop_ok (VReserve E n) \<longleftrightarrow> env_ok E \<and> unat n \<le> 2 ^ 45"
| "vop_ok (VEnsure E n) \<longleftrightarrow> env_ok E \<and> unat n \<le> 2 ^ 45"
| "vop_ok (VCopy E u) \<longleftrightarrow> env_ok E \<and> vect_ok u \<and> unat (v_size u) \<le> 2 ^ 20"
| "vop_ok (VAppend E u) \<longleftrightarrow> env_ok E \<and> vect_ok u \<and> unat (v_size u) \<le> 2 ^ 20"
| "vop_ok x \<longleftrightarrow> True"

definition vect_inv :: "nat \<Rightarrow> 'a vect \<Rightarrow> bool" where
  "vect_inv n v \<longleftrightarrow> vect_ok v \<and> length (elems v) \<le> n * 2 ^ 20"

lemma empty_elems: "vect_ok v \<Longrightarrow> v_size v = 0 \<longleftrightarrow> elems v = []"
  by (auto simp: elems_def vect_ok_def unat_eq_0)

lemma elems_nth: "vect_ok v \<Longrightarrow> unat i < length (elems v) \<Longrightarrow> VECT_ELEM v i = Some (elems v ! unat i)"
  by (simp add: VECT_ELEM_def elems_def vect_ok_def mem_simps)

lemma VECT_LAST_ELEM_eq: "0 < v_size v \<Longrightarrow> map_option fst (VECT_POP_BACK v) = VECT_LAST_ELEM v"
  by (auto simp: VECT_POP_BACK_def VECT_LAST_ELEM_def get_at_def)

lemma VECT_POP_eq: "VECT_POP_BACK v = Some (e, v') \<Longrightarrow> VECT_POP v = Some v'"
  by (auto simp: VECT_POP_BACK_def VECT_POP_def split: if_splits bind_splits)

lemma vect_op_refines:
  assumes inv: "vect_inv n v" and n: "n < 2 ^ 25" and ok: "vop_ok x"
  shows "\<exists>r v'. vect_op x v = Some (r, v') \<and> vect_inv (Suc n) v' \<and> (r, elems v') = vect_spec x (elems v)"
proof -
  have v: "vect_ok v" and l: "length (elems v) \<le> n * 2 ^ 20" using inv by (auto simp: vect_inv_def)
  have s: "unat (v_size v) \<le> n * 2 ^ 20" using l length_elems [OF v] by simp
  then have b: "unat (v_size v) < 2 ^ 46" "unat (v_size v) \<le> 2 ^ 45" using n by simp_all
  have fin: "vect_inv (Suc n) v'" if "vect_ok v'" "length (elems v') \<le> length (elems v) + 2 ^ 20" for v'
    using that l by (simp add: vect_inv_def)
  have e: "0 < v_size v" "elems v \<noteq> []" if "v_size v \<noteq> 0" using that empty_elems [OF v] by (auto simp: word_gt_0)
  show ?thesis
  proof (cases x)
    case (VPush E a)
    then show ?thesis using VECT_PUSH_BACK_ok [of E v a] ok v b fin by fastforce
  next
    case VPop
    then show ?thesis using VECT_POP_BACK_ok [OF v] e fin v empty_elems [OF v] by (cases "v_size v = 0") (fastforce simp: VECT_LEN_def)+
  next
    case (VPushFront E a)
    then show ?thesis using VECT_PUSH_FRONT_ok [of E v a] ok v b fin by fastforce
  next
    case VPopFront
    then show ?thesis using VECT_POP_FRONT_ok [OF v] e fin v empty_elems [OF v] by (cases "v_size v = 0") (fastforce simp: VECT_LEN_def)+
  next
    case VReset
    have "vect_ok (VECT_RESET v)" "elems (VECT_RESET v) = []" using v by (simp_all add: VECT_RESET_def vect_ok_def elems_def)
    then show ?thesis using VReset fin [of "VECT_RESET v"] by simp
  next
    case (VReserve E k)
    then have "unat k \<le> 2 ^ 46" using ok by simp
    then show ?thesis using vect_RESERVE_ok [of E v k] VReserve ok v fin by (fastforce simp: VECT_RESERVE_def)
  next
    case (VEnsure E k)
    then have "unat (k + v_size v) \<le> 2 ^ 46" using ok b(2) by (simp add: unat_word_ariths)
    then show ?thesis using vect_RESERVE_ok [of E v "k + v_size v"] VEnsure ok v fin by (fastforce simp: VECT_ENSURE_def)
  next
    case (VCopy E u)
    then have "unat (v_size u) \<le> 2 ^ 46" "length (elems u) \<le> length (elems v) + 2 ^ 20" using ok length_elems [of u] by simp_all
    then show ?thesis using VECT_COPY_ok [of E v u] VCopy ok v fin by fastforce
  next
    case (VAppend E u)
    then have "unat (v_size v) + unat (v_size u) \<le> 2 ^ 46" "length (elems u) \<le> 2 ^ 20" using ok length_elems [of u] b(2) by simp_all
    then show ?thesis using VECT_APPEND_VECT_ok [of E v u] VAppend ok v fin by fastforce
  next
    case (VElem i)
    then show ?thesis using elems_nth [OF v, of i] fin [OF v] length_elems [OF v]
      by (auto simp: VECT_LEN_def word_le_nat_alt)
  next
    case VLast
    then show ?thesis using VECT_POP_BACK_ok [OF v] VECT_LAST_ELEM_eq [of v] e fin v empty_elems [OF v]
      by (cases "v_size v = 0") (fastforce simp: VECT_LEN_def)+
  next
    case VDrop
    then show ?thesis using VECT_POP_BACK_ok [OF v] VECT_POP_eq [of v] e fin v empty_elems [OF v]
      by (cases "v_size v = 0") (fastforce simp: VECT_LEN_def)+
  next
    case VLen
    then show ?thesis using fin [OF v] length_elems [OF v] by (simp add: VECT_LEN_def)
  qed
qed

interpretation vec: simulation vect_op vect_spec vect_inv elems vop_ok "2 ^ 25"
  by unfold_locales (rule vect_op_refines)

section \<open>Shuffling and sampling\<close>

lemma shuffle_loop_ok:
  assumes "i < length xs"
  shows "\<exists>ys. shuffle_loop rnd xs i = Some ys \<and> length ys = length xs \<and> mset ys = mset xs \<and> drop (Suc i) ys = drop (Suc i) xs"
  using assms
proof (induction i arbitrary: xs)
  case (Suc i)
  define j where "j = unat (rnd (Suc i)) mod (Suc i + 1)"
  have j: "j < Suc (Suc i)" unfolding j_def by (metis Suc_eq_plus1 mod_less_divisor zero_less_Suc)
  then have jl: "j < length xs" using Suc.prems by linarith
  define zs where "zs = xs[Suc i := xs ! j, j := xs ! Suc i]"
  have z: "length zs = length xs" "mset zs = mset xs" "drop (Suc (Suc i)) zs = drop (Suc (Suc i)) xs"
    using mset_swap [OF jl Suc.prems] j by (simp_all add: zs_def)
  obtain ys where ys: "shuffle_loop rnd zs i = Some ys" "length ys = length zs" "mset ys = mset zs" "drop (Suc i) ys = drop (Suc i) zs"
    using Suc.IH [of zs] Suc.prems z(1) by auto
  have "drop (Suc (Suc i)) ys = drop (Suc (Suc i)) zs" using arg_cong [OF ys(4), of "drop 1"] by simp
  moreover have "shuffle_loop rnd xs (Suc i) = shuffle_loop rnd zs i"
    unfolding shuffle_loop.simps Let_def j_def [symmetric] using Suc.prems jl by (simp add: zs_def mem_simps)
  ultimately show ?case using ys z by simp
qed simp

lemma VECT_SHUFFLE_ok:
  assumes v: "vect_ok v" and n: "unat (v_size v) \<le> 2 ^ 31"
  shows "\<exists>v'. VECT_SHUFFLE rnd v = Some v' \<and> vect_ok v' \<and> mset (elems v') = mset (elems v)"
proof -
  define k where "k = nat (sint (ucast (v_size v - 1) :: u32))"
  have l: "unat (v_size v) \<le> length (v_arr v)" "0 < length (v_arr v)" using v by (auto simp: vect_ok_def)
  have k: "k = unat (v_size v) - 1"
  proof (cases "v_size v = 0")
    case False
    then have z: "0 < v_size v" by (simp add: word_gt_0)
    have "unat (v_size v - 1) < 2 ^ 31" using pred_size [OF z] n z by (simp add: word_less_nat_alt)
    then have "unat (ucast (v_size v - 1) :: u32) = unat (v_size v - 1)" "unat (v_size v - 1) < 2 ^ 31"
      by (simp_all add: unsigned_ucast_eq take_bit_nat_eq_self_iff)
    then have "sint (ucast (v_size v - 1) :: u32) = int (unat (v_size v - 1))"
      using sint_small [of "ucast (v_size v - 1)"] by simp
    then show ?thesis using pred_size [OF z] by (simp add: k_def)
  next
    case True
    have "sint (ucast (- 1 :: u64) :: u32) \<le> 0" by code_simp
    then show ?thesis using True by (simp add: k_def)
  qed
  then have "k < length (v_arr v)" using l by linarith
  then obtain ys where ys: "shuffle_loop rnd (v_arr v) k = Some ys" "length ys = length (v_arr v)" "mset ys = mset (v_arr v)"
    "drop (Suc k) ys = drop (Suc k) (v_arr v)" using shuffle_loop_ok by blast
  have "drop (unat (v_size v)) ys = drop (unat (v_size v)) (v_arr v)"
  proof (cases "v_size v = 0")
    case True
    then show ?thesis using k ys(1) by simp
  next
    case False
    then have "Suc k = unat (v_size v)" using k by (simp add: unat_gt_0)
    then show ?thesis using ys(4) by simp
  qed
  then have "mset (take (unat (v_size v)) ys) = mset (take (unat (v_size v)) (v_arr v))"
    using ys(3) by (metis add_right_cancel append_take_drop_id mset_append)
  moreover have "VECT_SHUFFLE rnd v = Some (v\<lparr>v_arr := ys\<rparr>)" using ys(1) by (simp add: VECT_SHUFFLE_def Let_def flip: k_def)
  ultimately show ?thesis using v ys(2) by (simp add: vect_ok_def elems_def)
qed

lemma copy_first_eq: "i + k \<le> length xs \<Longrightarrow> i + k \<le> length ys \<Longrightarrow>
  copy_first xs ys i k = Some (take i xs @ take k (drop i ys) @ drop (i + k) xs)"
proof (induction k arbitrary: xs i)
  case (Suc k)
  have "take (Suc k) (drop i ys) = ys ! i # take k (drop (Suc i) ys)"
    using Suc.prems by (simp add: Cons_nth_drop_Suc [symmetric])
  then show ?case using Suc by (simp add: mem_simps take_Suc_conv_app_nth)
qed simp

lemma reservoir_ok:
  assumes "unat k \<le> i" "i + n = length ys" "unat k \<le> length xs" "mset (take (unat k) xs) \<subseteq># mset (take i ys)"
  shows "\<exists>zs. reservoir rnd k xs ys i n = Some zs \<and> length zs = length xs \<and> mset (take (unat k) zs) \<subseteq># mset ys"
  using assms
proof (induction n arbitrary: i xs)
  case (Suc n)
  define j where "j = unat (rnd i) mod (i + 1)"
  define xs' where "xs' = (if j < unat k then xs[j := ys ! i] else xs)"
  have len: "length xs' = length xs" by (simp add: xs'_def)
  have il: "i < length ys" using Suc.prems by simp
  then have t: "take (Suc i) ys = take i ys @ [ys ! i]" by (simp add: take_Suc_conv_app_nth)
  have "mset (take (unat k) xs') \<subseteq># mset (take (Suc i) ys)"
  proof (cases "j < unat k")
    case True
    then have "mset (take (unat k) xs') = add_mset (ys ! i) (mset (take (unat k) xs) - {#take (unat k) xs ! j#})"
      using Suc.prems(3) by (simp add: xs'_def take_update_swap mset_update)
    also have "\<dots> \<subseteq># add_mset (ys ! i) (mset (take i ys))"
      using Suc.prems(4) by (metis diff_subset_eq_self mset_subset_eq_add_mset_cancel subset_mset.order_trans)
    finally show ?thesis by (simp add: t)
  next
    case False
    then show ?thesis using Suc.prems(4) subset_mset.add_increasing2 [of "{#ys ! i#}"] by (simp add: xs'_def t)
  qed
  then obtain zs where "reservoir rnd k xs' ys (Suc i) n = Some zs" "length zs = length xs'" "mset (take (unat k) zs) \<subseteq># mset ys"
    using Suc.IH [of "Suc i" xs'] Suc.prems len by auto
  moreover have "reservoir rnd k xs ys i (Suc n) = reservoir rnd k xs' ys (Suc i) n"
    unfolding reservoir.simps Let_def j_def [symmetric] using il Suc.prems(3) by (simp add: mem_simps xs'_def)
  ultimately show ?case using len by simp
qed simp

lemma VECT_SAMPLE_ok:
  assumes d: "vect_ok d" and s: "vect_ok s" and k: "k < v_size s" "k < v_cap d"
  shows "\<exists>d'. VECT_SAMPLE E rnd d s k = Some (True, d') \<and> vect_ok d' \<and> length (elems d') = unat k \<and> mset (elems d') \<subseteq># mset (elems s)"
proof -
  have r: "vect_RESERVE E d k = Some d" using k(2) by (auto simp: vect_RESERVE_def)
  have l: "unat k < unat (v_size s)" "unat k < length (v_arr d)" "unat (v_size s) \<le> length (v_arr s)"
    using k d s by (auto simp: vect_ok_def word_less_nat_alt)
  define ys where "ys = elems s"
  define xs where "xs = take (unat k) (v_arr s) @ drop (unat k) (v_arr d)"
  have c: "copy_first (v_arr d) (v_arr s) 0 (unat k) = Some xs" using copy_first_eq [of 0 "unat k" "v_arr d" "v_arr s"] l by (simp add: xs_def)
  have ys: "length ys = unat (v_size s)" using length_elems [OF s] by (simp add: ys_def)
  have "mset (take (unat k) xs) \<subseteq># mset (take (unat k) ys)" using l by (simp add: xs_def ys_def elems_def)
  then obtain zs where zs: "reservoir rnd k xs ys (unat k) (unat (v_size s) - unat k) = Some zs" "length zs = length xs"
    "mset (take (unat k) zs) \<subseteq># mset ys"
    using reservoir_ok [of k "unat k" "unat (v_size s) - unat k" ys xs rnd] l ys by (auto simp: xs_def)
  have same: "reservoir rnd k xs (v_arr s) i n = reservoir rnd k xs ys i n" if "i + n \<le> unat (v_size s)" for xs i n
    using that
  proof (induction n arbitrary: xs i)
    case (Suc n)
    then have "get_at (v_arr s) i = get_at ys i" using ys l by (auto simp: get_at_def ys_def elems_def)
    then show ?case using Suc by (auto simp: Let_def intro!: bind_ext)
  qed simp
  have "VECT_SAMPLE E rnd d s k = Some (True, d\<lparr>v_arr := zs, v_size := k\<rparr>)"
    using k r c zs(1) same [of "unat k" "unat (v_size s) - unat k" xs] l by (simp add: VECT_SAMPLE_def)
  moreover have "length zs = length (v_arr d)" using zs(2) l by (simp add: xs_def)
  moreover have "unat k \<le> unat (v_cap d)" using k(2) by (simp add: word_less_nat_alt)
  ultimately show ?thesis using vect_okI [OF d, of zs k] zs(3) l(2) by (auto simp: ys_def)
qed

section \<open>Properties\<close>

text \<open>
  C9: A vector behaves as a list: for any sequence of up to \<open>2^25\<close> pushes and pops at both ends, resets, reservations, copies and appends of
  other vectors (of up to \<open>2^20\<close> elements), and reads, on a vector of elements of up to \<open>2^16\<close> bytes, no access leaves the array, the growth loop
  ends and every result is the one of the list, whatever \<open>realloc\<close> leaves in new memory. Allocations succeed, and the client asks for
  the length before it removes or reads.
\<close>

theorem vect_run_refines_list:
  assumes "env_ok E" "unat n \<le> 2 ^ 46" "length ops \<le> 2 ^ 25" "list_all vop_ok ops"
  shows "\<exists>rs v. table_ops vect_op ops (VECT_INIT E n) = Some (rs, v) \<and> (rs, elems v) = spec_ops vect_spec ops [] \<and>
    unat (VECT_LEN v) \<le> unat (VECT_CAPACITY v)"
proof -
  have "vect_inv 0 (VECT_INIT E n)" "elems (VECT_INIT E n) = []" using VECT_INIT_ok [OF assms(1,2)] by (auto simp: vect_inv_def)
  then show ?thesis using vec.run_refines [of 0 "VECT_INIT E n" ops] assms(3,4)
    by (auto simp: vect_inv_def vect_ok_def VECT_LEN_def VECT_CAPACITY_def)
qed

definition demo_env :: "nat venv" where
  "demo_env = \<lparr>ve_sizeof = 8, ve_zero = 0, ve_ok = True, ve_junk = (\<lambda>i. i + 100)\<rparr>"

theorem vect_run_refines_list_witness:
  "\<exists>v. table_ops vect_op [VPush demo_env 5, VPushFront demo_env 4, VPush demo_env 6, VPopFront, VPop, VPop, VPop] (VECT_INIT demo_env 1) =
     Some ([VOk, VOk, VOk, VItem 4, VItem 6, VItem 5, VNo], v)"
  using vect_run_refines_list [of demo_env 1 "[VPush demo_env 5, VPushFront demo_env 4, VPush demo_env 6, VPopFront, VPop, VPop, VPop]"]
  by (simp add: env_ok_def demo_env_def) blast

text \<open>
  \<open>VECT_SHUFFLE\<close> permutes the elements of a vector of up to \<open>2^31\<close> elements, and \<open>VECT_SAMPLE\<close> into a vector that need not
  grow returns \<open>k\<close> elements of the source, none taken twice, whatever the random numbers.
\<close>

theorem vect_shuffle_sample:
  assumes "vect_ok v" "unat (v_size v) \<le> 2 ^ 31" "vect_ok d" "k < v_size v" "k < v_cap d"
  shows "(\<exists>v'. VECT_SHUFFLE rnd v = Some v' \<and> mset (elems v') = mset (elems v)) \<and>
    (\<exists>d'. VECT_SAMPLE E rnd d v k = Some (True, d') \<and> length (elems d') = unat k \<and> mset (elems d') \<subseteq># mset (elems v))"
  using VECT_SHUFFLE_ok [OF assms(1,2), of rnd] VECT_SAMPLE_ok [OF assms(3,1,4,5), of E rnd] by blast

definition demo_vect :: "nat vect" where
  "demo_vect = \<lparr>v_size = 3, v_cap = 4, v_arr = [7, 8, 9, 0]\<rparr>"

theorem vect_shuffle_sample_witness:
  "\<exists>d'. VECT_SAMPLE demo_env (\<lambda>i. 1) demo_vect demo_vect 2 = Some (True, d') \<and> length (elems d') = 2 \<and> mset (elems d') \<subseteq># {#7, 8, 9#}"
  using vect_shuffle_sample [of demo_vect demo_vect 2 "\<lambda>i. 1" demo_env]
  by (simp add: vect_ok_def demo_vect_def elems_def)

text \<open>
  Two traps. A vector made by \<open>VECT_INIT_FROM\<close> from an empty one has capacity 0, and every later push loops forever;
  and \<open>VECT_SAMPLE\<close> into a vector whose capacity is not above \<open>k\<close> writes through a pointer to freed memory.
\<close>

theorem vect_traps:
  assumes "v_size w = 0"
  shows "(\<exists>v. VECT_INIT_FROM E w = Some v \<and> v_cap v = 0 \<and> VECT_PUSH_BACK E v e = None \<and> VECT_PUSH_FRONT E v e = None) \<and>
    (k < v_size s \<longrightarrow> v_cap d \<le> k \<longrightarrow> VECT_SAMPLE E rnd d s k = None)"
proof -
  have "VECT_INIT_FROM E w = Some \<lparr>v_size = 0, v_cap = 0, v_arr = []\<rparr>"
    using assms by (simp add: VECT_INIT_FROM_def NEWZA_def copy_into_def count_of_def)
  moreover have "vect_RESERVE E \<lparr>v_size = 0, v_cap = 0, v_arr = []\<rparr> 1 = None" by (simp add: vect_RESERVE_def grow_0)
  ultimately show ?thesis by (auto simp: VECT_PUSH_BACK_def VECT_PUSH_FRONT_def VECT_SAMPLE_def bind_eq_None_conv)
qed

theorem vect_traps_witness:
  "\<exists>v. VECT_INIT_FROM demo_env \<lparr>v_size = 0, v_cap = 4, v_arr = [1, 2, 3, 4]\<rparr> = Some v \<and> VECT_PUSH_BACK demo_env v 5 = None"
  using vect_traps [of "\<lparr>v_size = 0, v_cap = 4, v_arr = [1, 2, 3, 4]\<rparr>" demo_env 5] by simp blast

end
