(* ===== verification/Mempool.thy ===== *)
theory Mempool
  imports Fast_List Bits
begin

text \<open>
  The fixed-size object allocator of \<open>src/mempool.c\<close> (debug build, LP64). Addresses are 64-bit words. The heap holds the link
  fields that live in the first 16 bytes of a block while the block is on the free list; \<open>fill_memory\<close> and \<open>clear_memory\<close>
  overwrite them, and so may the client while it owns the block. The answer of the underlying allocator is an
  argument (0 when it refuses). A failing assertion and a call through a null function pointer are faults (\<open>None\<close>).
\<close>

record memchunk =
  ch_base :: addr
  free_area :: addr
  ch_end :: addr

datatype traits = Alloc_traits | Dummy_free | Null_traits

record mempool =
  mru_head :: dl_head
  block_size :: u64
  max_blocks :: u64
  min_units :: u64
  chunks :: "memchunk list"
  mp_traits :: traits

type_synonym pool_state = "mempool \<times> dl_heap"

abbreviation (input) "MINALIGNMENT \<equiv> (8 :: u64)"
abbreviation (input) "MIN_OBJ_SIZE \<equiv> (16 :: u32)"
abbreviation (input) "MEMPOOL_MIN_ALLOC_UNITS \<equiv> (4096 :: u32)"
abbreviation (input) "sizeof_memchunk \<equiv> (24 :: u64)"
abbreviation (input) "sizeof_mempool \<equiv> (72 :: u64)"

definition Isaligned_p :: "u64 \<Rightarrow> bool" where
  "Isaligned_p p \<longleftrightarrow> p AND (MINALIGNMENT - 1) = p"

definition Align :: "u64 \<Rightarrow> u64" where
  "Align p = (if Isaligned_p p then p else (p + MINALIGNMENT - 1) AND NOT (MINALIGNMENT - 1))"

text \<open>\<open>_Align(uint_t, x)\<close>: the result is cut to 32 bits.\<close>

definition Align_uint :: "u32 \<Rightarrow> u32" where
  "Align_uint x = ucast (Align (ucast x))"

definition new_chunk :: "addr \<Rightarrow> mempool \<Rightarrow> (bool \<times> mempool) option" where
  "new_chunk os a =
    (let chunk_size = block_size a * min_units a;
         alloc_size = sizeof_memchunk + chunk_size + MINALIGNMENT
     in if \<not> (chunk_size > block_size a \<and> chunk_size > min_units a) then None
        else if \<not> alloc_size > chunk_size then None
        else if mp_traits a \<noteq> Alloc_traits then None
        else if os = 0 then Some (False, a)
        else let free = Align (os + sizeof_memchunk);
                 ch = \<lparr>ch_base = os, free_area = free, ch_end = free + chunk_size\<rparr>
             in Some (True, a\<lparr>chunks := ch # chunks a\<rparr>))"

definition alloc_from_chunk :: "mempool \<Rightarrow> (addr \<times> mempool) option" where
  "alloc_from_chunk a =
    (case chunks a of
       [] \<Rightarrow> None
     | ch # rest \<Rightarrow>
         if free_area ch < ch_end ch
         then Some (free_area ch, a\<lparr>chunks := ch\<lparr>free_area := free_area ch + block_size a\<rparr> # rest\<rparr>)
         else Some (0, a))"

fun valid_blk_p :: "memchunk list \<Rightarrow> addr \<Rightarrow> bool" where
  "valid_blk_p [] p \<longleftrightarrow> False"
| "valid_blk_p (ch # rest) p \<longleftrightarrow> (ch_base ch + sizeof_memchunk \<le> p \<and> p < ch_end ch) \<or> valid_blk_p rest p"

definition clear_memory :: "addr \<Rightarrow> dl_heap \<Rightarrow> dl_heap" where
  "clear_memory p h = h(p := \<lparr>dl_next = 0x7777777777777777, dl_prev = 0x7777777777777777\<rparr>)"

definition fill_memory :: "addr \<Rightarrow> dl_heap \<Rightarrow> dl_heap" where
  "fill_memory p h = h(p := \<lparr>dl_next = 0xaaaaaaaaaaaaaaaa, dl_prev = 0xaaaaaaaaaaaaaaaa\<rparr>)"

definition clamp_size :: "u32 \<Rightarrow> u32" where
  "clamp_size bs = Align_uint (if bs < MIN_OBJ_SIZE then MIN_OBJ_SIZE else bs)"

definition real_init :: "u32 \<Rightarrow> u32 \<Rightarrow> u32 \<Rightarrow> addr \<Rightarrow> (errno + mempool) option" where
  "real_init bs maxb min_alloc_units os =
    (let bs = clamp_size bs;
         units = (if maxb \<noteq> 0 then maxb else if min_alloc_units = 0 then MEMPOOL_MIN_ALLOC_UNITS else min_alloc_units);
         a = \<lparr>mru_head = DL_INIT, block_size = ucast bs, max_blocks = ucast maxb, min_units = ucast units,
              chunks = [], mp_traits = Alloc_traits\<rparr>
     in do { (ok, a) \<leftarrow> new_chunk os a; Some (if ok then Inr a else Inl ENOMEM) })"

text \<open>The arguments \<open>a\<close> and \<open>tr\<close> may be null; \<open>tr\<close> says whether its \<open>alloc\<close> and \<open>free\<close> are set.\<close>

definition traits_ok :: "(bool \<times> bool) option \<Rightarrow> bool" where
  "traits_ok tr = (case tr of None \<Rightarrow> True | Some (al, fr) \<Rightarrow> al \<and> fr)"

definition mempool_init :: "addr \<Rightarrow> (bool \<times> bool) option \<Rightarrow> u32 \<Rightarrow> u32 \<Rightarrow> u32 \<Rightarrow> addr \<Rightarrow> (errno + mempool) option" where
  "mempool_init a tr bs maxb min_alloc_units os =
    (if a = 0 then Some (Inl EINVAL)
     else if \<not> traits_ok tr then Some (Inl EINVAL)
     else real_init bs maxb min_alloc_units os)"

text \<open>\<open>p\<close> is the answer of the allocator for the pool itself, stored through \<open>p_a\<close>.\<close>

definition mempool_new ::
  "addr \<Rightarrow> (bool \<times> bool) option \<Rightarrow> u32 \<Rightarrow> u32 \<Rightarrow> u32 \<Rightarrow> addr \<Rightarrow> addr \<Rightarrow> (errno + addr \<times> mempool) option" where
  "mempool_new p_a tr bs maxb min_alloc_units p os =
    (if p_a = 0 then Some (Inl EINVAL)
     else if \<not> traits_ok tr then Some (Inl EINVAL)
     else if p = 0 then Some (Inl ENOMEM)
     else map_option (map_sum id (\<lambda>a. (p, a))) (real_init bs maxb min_alloc_units os))"

definition mempool_init_from_mem :: "addr \<Rightarrow> u32 \<Rightarrow> addr \<Rightarrow> u32 \<Rightarrow> (errno + mempool) option" where
  "mempool_init_from_mem a bs pool poolsz =
    (let poolsize = ucast poolsz :: u64 in
     if \<not> (a \<noteq> 0 \<and> pool \<noteq> 0 \<and> poolsize \<noteq> 0) then Some (Inl EINVAL)
     else
       let bs = clamp_size bs;
           ptr = Align pool;
           poolsize = poolsize - (ptr - pool)
       in if poolsize < ucast bs + MINALIGNMENT + sizeof_memchunk then Some (Inl ENOMEM)
          else if bs = 0 then None
          else
            let base = ptr;
                poolsize = poolsize - sizeof_memchunk;
                ptr = ptr + sizeof_memchunk;
                end = ptr + poolsize;
                free = Align ptr;
                nblocks = ucast ((end - free) div ucast bs) :: u32;
                ch = \<lparr>ch_base = base, free_area = free, ch_end = free + ucast (nblocks * bs)\<rparr>
            in if \<not> ch_end ch \<le> end then None
               else Some (Inr \<lparr>mru_head = DL_INIT, block_size = ucast bs, max_blocks = ucast nblocks,
                               min_units = ucast nblocks, chunks = [ch], mp_traits = Dummy_free\<rparr>))"

definition mempool_new_from_mem :: "addr \<Rightarrow> u32 \<Rightarrow> addr \<Rightarrow> u32 \<Rightarrow> (errno + addr \<times> mempool) option" where
  "mempool_new_from_mem p_a bs pool poolsize =
    (if \<not> (p_a \<noteq> 0 \<and> pool \<noteq> 0 \<and> poolsize \<noteq> 0) then Some (Inl EINVAL)
     else
       let ptr = Align pool;
           poolsize = poolsize - ucast (ptr - pool);
           a = ptr;
           ptr = ptr + sizeof_mempool;
           poolsize = poolsize - ucast sizeof_mempool
       in map_option (map_sum id (\<lambda>st. (a, st))) (mempool_init_from_mem a bs ptr poolsize))"

text \<open>\<open>mempool_fini\<close> hands every chunk to \<open>traits.free\<close> (the list of addresses the underlying allocator gets back) and zeroes the pool.\<close>

definition freed :: "traits \<Rightarrow> addr list \<Rightarrow> addr list option" where
  "freed tr ps = (case tr of Alloc_traits \<Rightarrow> Some ps | Dummy_free \<Rightarrow> Some [] | Null_traits \<Rightarrow> if ps = [] then Some [] else None)"

definition mempool_fini :: "mempool \<Rightarrow> (addr list \<times> mempool) option" where
  "mempool_fini a =
    do { ps \<leftarrow> freed (mp_traits a) (map ch_base (chunks a));
         Some (ps, \<lparr>mru_head = DL_INIT, block_size = 0, max_blocks = 0, min_units = 0, chunks = [], mp_traits = Null_traits\<rparr>) }"

definition mempool_delete :: "addr \<Rightarrow> mempool \<Rightarrow> addr list option" where
  "mempool_delete p a =
    (if p = 0 then Some []
     else do { (ps, _) \<leftarrow> mempool_fini a; qs \<leftarrow> freed (mp_traits a) [p]; Some (ps @ qs) })"

definition mempool_alloc :: "addr \<Rightarrow> pool_state \<Rightarrow> (addr \<times> pool_state) option" where
  "mempool_alloc os s =
    (let (a, h) = s; (blk, mru, h) = DL_REMOVE_TAIL (mru_head a, h); a = a\<lparr>mru_head := mru\<rparr> in
     do { (p, a) \<leftarrow>
            (if blk \<noteq> 0 then Some (blk, a)
             else do {
               (p, a) \<leftarrow> alloc_from_chunk a;
               if p \<noteq> 0 \<or> max_blocks a \<noteq> 0 then Some (p, a)
               else do {
                 (ok, a) \<leftarrow> new_chunk os a;
                 if ok then alloc_from_chunk a else Some (p, a) } });
          Some (p, a, if p \<noteq> 0 then fill_memory p h else h) })"

definition mempool_free :: "addr \<Rightarrow> pool_state \<Rightarrow> pool_state option" where
  "mempool_free p s =
    (let (a, h) = s in
     if valid_blk_p (chunks a) p then
       let (mru, h) = DL_INSERT_HEAD p (mru_head a, clear_memory p h) in Some (a\<lparr>mru_head := mru\<rparr>, h)
     else None)"

definition mempool_block_size :: "mempool \<Rightarrow> u32" where
  "mempool_block_size a = ucast (block_size a)"

definition mempool_total_blocks :: "mempool \<Rightarrow> u32" where
  "mempool_total_blocks a = ucast (max_blocks a)"

definition stacked_alloc :: "addr \<Rightarrow> pool_state \<Rightarrow> u64 \<Rightarrow> (addr \<times> pool_state) option" where
  "stacked_alloc os s n = mempool_alloc os s"

definition stacked_free :: "pool_state \<Rightarrow> addr \<Rightarrow> pool_state option" where
  "stacked_free s p = mempool_free p s"

section \<open>Chunks\<close>

definition cstart :: "memchunk \<Rightarrow> nat" where
  "cstart ch = unat (Align (ch_base ch + sizeof_memchunk))"

text \<open>The chunk's blocks lie between its aligned start and its end, after the chunk's own header.\<close>

definition chunk_ok :: "nat \<Rightarrow> memchunk \<Rightarrow> bool" where
  "chunk_ok bs ch \<longleftrightarrow> 8 \<le> unat (ch_base ch) \<and> unat (ch_base ch) + 24 \<le> cstart ch \<and>
     unat (ch_base ch + sizeof_memchunk) = unat (ch_base ch) + 24 \<and> 8 dvd cstart ch \<and>
     cstart ch \<le> unat (free_area ch) \<and> unat (free_area ch) \<le> unat (ch_end ch) \<and>
     bs dvd unat (free_area ch) - cstart ch \<and> bs dvd unat (ch_end ch) - cstart ch"

definition foot :: "memchunk \<Rightarrow> nat set" where
  "foot ch = {unat (ch_base ch)..<unat (ch_end ch)}"

text \<open>The blocks handed out of the chunk so far.\<close>

definition carved :: "nat \<Rightarrow> memchunk \<Rightarrow> addr set" where
  "carved bs ch = {p. cstart ch \<le> unat p \<and> unat p < unat (free_area ch) \<and> bs dvd unat p - cstart ch}"

lemma unat_Align:
  assumes "8 \<le> unat p" "unat p + 7 < 2 ^ 64"
  shows "unat (Align p) = (unat p + 7) div 8 * 8"
proof -
  have "unat (p AND 7) < 8"
    using and_mask_less' [of 3 p] by (simp add: mask_eq_exp_minus_1 word_less_nat_alt)
  then have "\<not> Isaligned_p p" using assms(1) by (auto simp: Isaligned_p_def)
  then have "Align p = ALIGN_UP p (2 ^ 3)" by (simp add: Align_def ALIGN_UP_def Let_def add.commute)
  then show ?thesis using ALIGN_UP_exp [of 3 p] assms(2) by simp
qed

lemma dvd_between:
  fixes b x y :: nat
  assumes "b dvd x" "b dvd y" "x < y"
  shows "x + b \<le> y"
proof -
  have "b dvd y - x" using assms by (simp add: dvd_diff_nat)
  then have "b \<le> y - x" using assms(3) by (simp add: dvd_imp_le)
  then show ?thesis using assms(3) by simp
qed

lemma carved_room:
  assumes "chunk_ok bs ch" "p \<in> carved bs ch"
  shows "unat p + bs \<le> unat (free_area ch)"
proof -
  have "unat p - cstart ch + bs \<le> unat (free_area ch) - cstart ch"
    using assms by (intro dvd_between) (auto simp: carved_def chunk_ok_def)
  then show ?thesis using assms by (auto simp: carved_def chunk_ok_def)
qed

lemma carved_apart:
  assumes "p \<in> carved bs ch" "q \<in> carved bs ch" "p \<noteq> q"
  shows "unat p + bs \<le> unat q \<or> unat q + bs \<le> unat p"
proof -
  have "unat p \<noteq> unat q" using assms(3) by simp
  then have "unat p - cstart ch < unat q - cstart ch \<or> unat q - cstart ch < unat p - cstart ch"
    using assms(1,2) by (auto simp: carved_def simp del: unat_inj)
  then show ?thesis
    using assms(1,2) dvd_between [of bs "unat p - cstart ch" "unat q - cstart ch"]
      dvd_between [of bs "unat q - cstart ch" "unat p - cstart ch"] by (auto simp: carved_def)
qed

text \<open>Taking the next block of a chunk.\<close>

definition bump :: "u64 \<Rightarrow> memchunk \<Rightarrow> memchunk" where
  "bump bs ch = ch\<lparr>free_area := free_area ch + bs\<rparr>"

lemma bump_ok:
  assumes "chunk_ok (unat bs) ch" "free_area ch < ch_end ch" "0 < unat bs"
  shows "chunk_ok (unat bs) (bump bs ch)" "carved (unat bs) (bump bs ch) = insert (free_area ch) (carved (unat bs) ch)"
    "free_area ch \<notin> carved (unat bs) ch" "foot (bump bs ch) = foot ch" "cstart (bump bs ch) = cstart ch"
    "ch_end (bump bs ch) = ch_end ch" "free_area ch \<noteq> 0"
proof -
  define c f e b where "c = cstart ch" and "f = unat (free_area ch)" and "e = unat (ch_end ch)" and "b = unat bs"
  have 1: "c \<le> f" "f < e" "b dvd f - c" "b dvd e - c" "0 < b" "32 \<le> c"
    using assms by (auto simp: chunk_ok_def word_less_nat_alt c_def f_def e_def b_def)
  have "f - c + b \<le> e - c" by (rule dvd_between) (use 1 in auto)
  then have fb: "f + b \<le> e" using 1 by linarith
  have e: "e < 2 ^ 64" using unat_u64_less [of "ch_end ch"] by (simp add: e_def)
  have nf: "unat (free_area ch + bs) = f + b"
    using fb e by (simp add: unat_word_ariths f_def b_def)
  show s: "cstart (bump bs ch) = cstart ch" by (simp add: cstart_def bump_def)
  show "ch_end (bump bs ch) = ch_end ch" "foot (bump bs ch) = foot ch" by (simp_all add: bump_def foot_def)
  have "b dvd f + b - c" using 1 by (metis Nat.add_diff_assoc2 dvd_add dvd_refl)
  then show "chunk_ok (unat bs) (bump bs ch)"
    using assms(1) fb 1 nf s by (auto simp: chunk_ok_def bump_def c_def f_def e_def b_def)
  show "free_area ch \<notin> carved (unat bs) ch" by (simp add: carved_def)
  show "free_area ch \<noteq> 0" using 1 by (auto simp: f_def)
  have "unat p = f" if "c \<le> unat p" "unat p < f + b" "b dvd unat p - c" "\<not> unat p < f" for p :: addr
  proof (rule ccontr)
    assume "unat p \<noteq> f"
    then have "f - c + b \<le> unat p - c" using that 1 by (intro dvd_between) auto
    then show False using that by linarith
  qed
  then have "p \<in> carved b (bump bs ch) \<longleftrightarrow> p = free_area ch \<or> p \<in> carved b ch" for p
    using nf s 1 by (auto simp: carved_def bump_def c_def [symmetric] f_def [symmetric] simp flip: f_def)
      (metis f_def unat_inj)+
  then show "carved (unat bs) (bump bs ch) = insert (free_area ch) (carved (unat bs) ch)" by (auto simp: b_def)
qed

section \<open>The pool invariant\<close>

definition alloc_size :: "mempool \<Rightarrow> nat" where
  "alloc_size a = 24 + unat (block_size a) * unat (min_units a) + 8"

text \<open>What the pool relies on of the underlying allocator: it refuses, or returns memory that overlaps no chunk it
  handed out before and does not reach the end of the address space.\<close>

definition fresh_mem :: "mempool \<Rightarrow> addr \<Rightarrow> bool" where
  "fresh_mem a os \<longleftrightarrow> os = 0 \<or>
     (8 \<le> unat os \<and> unat os + alloc_size a < 2 ^ 64 \<and>
      list_all (\<lambda>ch. unat os + alloc_size a \<le> unat (ch_base ch) \<or> unat (ch_end ch) \<le> unat os) (chunks a))"

text \<open>\<open>L\<close> are the blocks the clients hold, \<open>xs\<close> those on the free list.\<close>

definition pool_geom :: "mempool \<Rightarrow> bool" where
  "pool_geom a \<longleftrightarrow> 16 \<le> unat (block_size a) \<and> 8 dvd unat (block_size a) \<and> chunks a \<noteq> [] \<and>
     (\<forall>ch\<in>set (chunks a). chunk_ok (unat (block_size a)) ch \<and>
        unat (ch_end ch) = cstart ch + unat (block_size a) * unat (min_units a)) \<and>
     sorted_wrt (\<lambda>c d. foot c \<inter> foot d = {}) (chunks a) \<and>
     (\<forall>ch\<in>set (tl (chunks a)). free_area ch = ch_end ch) \<and>
     (if max_blocks a = 0
      then mp_traits a = Alloc_traits \<and> 2 \<le> unat (min_units a) \<and> unat (min_units a) < 2 ^ 32 \<and> unat (block_size a) < 2 ^ 32
      else length (chunks a) = 1 \<and> max_blocks a = min_units a)"

definition blocks :: "mempool \<Rightarrow> addr set" where
  "blocks a = (\<Union>ch\<in>set (chunks a). carved (unat (block_size a)) ch)"

definition pool_inv :: "addr set \<Rightarrow> addr list \<Rightarrow> pool_state \<Rightarrow> bool" where
  "pool_inv L xs s \<longleftrightarrow> pool_geom (fst s) \<and> dl_rep (snd s) (mru_head (fst s)) xs \<and> set xs \<inter> L = {} \<and> set xs \<union> L = blocks (fst s)"

lemma foot_carved:
  assumes "chunk_ok bs ch" "p \<in> carved bs ch" "0 < bs"
  shows "{unat p..<unat p + bs} \<subseteq> foot ch" "p \<noteq> 0" "8 dvd bs \<longrightarrow> 8 dvd unat p"
proof -
  have u: "unat p + bs \<le> unat (free_area ch)" by (rule carved_room [OF assms(1,2)])
  then show "{unat p..<unat p + bs} \<subseteq> foot ch"
    using assms(1,2) by (auto simp: foot_def chunk_ok_def carved_def)
  show "p \<noteq> 0" using assms(1,2) by (auto simp: chunk_ok_def carved_def)
  have "unat p = cstart ch + (unat p - cstart ch)" using assms(2) by (simp add: carved_def)
  then show "8 dvd bs \<longrightarrow> 8 dvd unat p"
    using assms(1,2) unfolding chunk_ok_def carved_def by (metis (mono_tags, lifting) dvd_add dvd_trans mem_Collect_eq)
qed

definition apart :: "nat \<Rightarrow> addr set \<Rightarrow> bool" where
  "apart bs L \<longleftrightarrow> (\<forall>p\<in>L. \<forall>q\<in>L. p \<noteq> q \<longrightarrow> unat p + bs \<le> unat q \<or> unat q + bs \<le> unat p)"

lemma blocks_apart:
  assumes "pool_geom a"
  shows "apart (unat (block_size a)) (blocks a)"
  unfolding apart_def
proof (intro ballI impI)
  fix p q assume p: "p \<in> blocks a" and q: "q \<in> blocks a" and ne: "p \<noteq> q"
  define bs where "bs = unat (block_size a)"
  obtain i j where ij: "i < length (chunks a)" "j < length (chunks a)" "p \<in> carved bs (chunks a ! i)" "q \<in> carved bs (chunks a ! j)"
    using p q by (auto simp: blocks_def bs_def in_set_conv_nth)
  have ok: "chunk_ok bs (chunks a ! i)" "chunk_ok bs (chunks a ! j)" "0 < bs" using assms ij by (auto simp: pool_geom_def bs_def)
  show "unat p + unat (block_size a) \<le> unat q \<or> unat q + unat (block_size a) \<le> unat p"
  proof (cases "i = j")
    case True
    then show ?thesis using carved_apart [of p bs "chunks a ! i" q] ij ne by (simp add: bs_def)
  next
    case False
    have "\<forall>i j. i < j \<longrightarrow> j < length (chunks a) \<longrightarrow> foot (chunks a ! i) \<inter> foot (chunks a ! j) = {}"
      using assms by (simp add: pool_geom_def sorted_wrt_iff_nth_less)
    then have d: "foot (chunks a ! i) \<inter> foot (chunks a ! j) = {}"
      using False ij(1,2) by (metis Int_commute linorder_neqE_nat)
    have "{unat p..<unat p + bs} \<inter> {unat q..<unat q + bs} = {}"
      using foot_carved(1) [OF ok(1) ij(3) ok(3)] foot_carved(1) [OF ok(2) ij(4) ok(3)] d by blast
    then show ?thesis using ok(3) by (simp add: bs_def [symmetric] Int_atLeastLessThan) (auto simp: max_def min_def split: if_splits)
  qed
qed

lemma blocks_aligned: "pool_geom a \<Longrightarrow> p \<in> blocks a \<Longrightarrow> p \<noteq> 0 \<and> 8 dvd unat p"
  using foot_carved(2,3) by (fastforce simp: blocks_def pool_geom_def)

lemma valid_blk_p_iff:
  "valid_blk_p chs p \<longleftrightarrow> (\<exists>ch\<in>set chs. ch_base ch + sizeof_memchunk \<le> p \<and> p < ch_end ch)"
  by (induction chs) auto

lemma blocks_valid:
  assumes "pool_geom a" "p \<in> blocks a"
  shows "valid_blk_p (chunks a) p"
proof -
  obtain ch where ch: "ch \<in> set (chunks a)" "p \<in> carved (unat (block_size a)) ch" "chunk_ok (unat (block_size a)) ch"
    using assms by (auto simp: blocks_def pool_geom_def)
  then have "ch_base ch + sizeof_memchunk \<le> p" "p < ch_end ch"
    by (auto simp: carved_def chunk_ok_def word_le_nat_alt word_less_nat_alt)
  then show ?thesis using ch(1) by (auto simp: valid_blk_p_iff)
qed

text \<open>A block lies inside its chunk as a whole, and the chunk inside the memory that was requested for it.\<close>

lemma blocks_inside:
  assumes "pool_geom a" "p \<in> blocks a"
  shows "\<exists>ch\<in>set (chunks a). unat (ch_base ch) + 24 \<le> unat p \<and> unat p + unat (block_size a) \<le> unat (ch_end ch) \<and>
    unat (ch_end ch) \<le> unat (ch_base ch) + alloc_size a"
proof -
  obtain ch where ch: "ch \<in> set (chunks a)" "p \<in> carved (unat (block_size a)) ch" "chunk_ok (unat (block_size a)) ch"
      "unat (ch_end ch) = cstart ch + unat (block_size a) * unat (min_units a)"
    using assms by (auto simp: blocks_def pool_geom_def)
  have room: "unat p + unat (block_size a) \<le> unat (free_area ch)" by (rule carved_room [OF ch(3,2)])
  have base: "unat (ch_base ch + sizeof_memchunk) = unat (ch_base ch) + 24" using ch(3) by (simp add: chunk_ok_def)
  have "cstart ch \<le> unat (ch_base ch) + 24 + 8"
  proof (cases "unat (ch_base ch + sizeof_memchunk) + 7 < 2 ^ 64")
    case True
    then show ?thesis using unat_Align [of "ch_base ch + sizeof_memchunk"] base ch(3) by (simp add: cstart_def chunk_ok_def)
  next
    case False
    then show ?thesis using unat_u64_less [of "Align (ch_base ch + sizeof_memchunk)"] base by (simp add: cstart_def)
  qed
  then show ?thesis using ch room by (intro bexI [OF _ ch(1)]) (auto simp: carved_def chunk_ok_def alloc_size_def)
qed

section \<open>Operations\<close>

lemma chunk_sizes_ok:
  fixes bs units :: u64
  assumes "16 \<le> unat bs" "unat bs < 2 ^ 32" "2 \<le> unat units" "unat units < 2 ^ 32"
  shows "bs * units > bs \<and> bs * units > units \<and> 24 + bs * units + 8 > bs * units \<and>
    unat (bs * units) = unat bs * unat units \<and> unat bs < unat bs * unat units \<and> unat bs * unat units + 32 < 2 ^ 64"
proof -
  have "unat bs * unat units \<le> (2 ^ 32 - 1) * (2 ^ 32 - 1)"
    using assms(2,4) by (intro mult_le_mono) auto
  then have c: "unat bs * unat units + 32 < 2 ^ 64" by simp
  then have cs: "unat (bs * units) = unat bs * unat units" by (simp add: unat_word_ariths)
  have al: "unat (24 + bs * units + 8) = unat bs * unat units + 32" using c cs by (simp add: unat_word_ariths)
  have "unat bs < unat bs * unat units" "unat units < unat bs * unat units" using assms(1,3) by auto
  then show ?thesis using cs al c by (auto simp: word_less_nat_alt)
qed

lemma new_chunk_ok:
  assumes bs: "16 \<le> unat (block_size a)" "8 dvd unat (block_size a)" "unat (block_size a) < 2 ^ 32"
    and units: "2 \<le> unat (min_units a)" "unat (min_units a) < 2 ^ 32" and tr: "mp_traits a = Alloc_traits"
    and fr: "fresh_mem a os" and nz: "os \<noteq> 0"
  shows "\<exists>ch. new_chunk os a = Some (True, a\<lparr>chunks := ch # chunks a\<rparr>) \<and> chunk_ok (unat (block_size a)) ch \<and>
    free_area ch < ch_end ch \<and> unat (free_area ch) = cstart ch \<and>
    unat (ch_end ch) = cstart ch + unat (block_size a) * unat (min_units a) \<and> (\<forall>d\<in>set (chunks a). foot ch \<inter> foot d = {})"
proof -
  define b u c where "b = unat (block_size a)" and "u = unat (min_units a)" and "c = b * u"
  have sz: "block_size a * min_units a > block_size a" "block_size a * min_units a > min_units a"
    "24 + block_size a * min_units a + 8 > block_size a * min_units a" "unat (block_size a * min_units a) = c" "b < c" "c + 32 < 2 ^ 64"
    using chunk_sizes_ok [OF bs(1,3) units] by (simp_all add: c_def b_def u_def)
  have o: "8 \<le> unat os" "unat os + (c + 32) < 2 ^ 64"
    "\<forall>d\<in>set (chunks a). unat os + (c + 32) \<le> unat (ch_base d) \<or> unat (ch_end d) \<le> unat os"
    using fr nz by (auto simp: fresh_mem_def alloc_size_def list_all_iff c_def b_def u_def)
  have o24: "unat (os + 24) = unat os + 24" using o(2) by (simp add: unat_word_ariths)
  define f where "f = Align (os + 24)"
  have f: "unat f = (unat os + 31) div 8 * 8" using unat_Align [of "os + 24"] o o24 by (simp add: f_def)
  have f2: "unat os + 24 \<le> unat f" "unat f \<le> unat os + 31" by (simp_all add: f)
  have e: "unat (f + block_size a * min_units a) = unat f + c" using f2 o(2) sz(4) by (simp add: unat_word_ariths)
  define ch where "ch = \<lparr>ch_base = os, free_area = f, ch_end = f + block_size a * min_units a\<rparr>"
  have st: "cstart ch = unat f" by (simp add: cstart_def ch_def f_def)
  have "new_chunk os a = Some (True, a\<lparr>chunks := ch # chunks a\<rparr>)"
    using sz tr nz by (simp add: new_chunk_def Let_def ch_def f_def)
  moreover have "chunk_ok b ch"
    using o o24 f2 e f by (simp add: chunk_ok_def st) (simp add: ch_def e f c_def)
  moreover have "free_area ch < ch_end ch"
    using e sz(5) by (simp add: word_less_nat_alt ch_def)
  moreover have "\<forall>d\<in>set (chunks a). foot ch \<inter> foot d = {}"
  proof
    fix d assume "d \<in> set (chunks a)"
    then show "foot ch \<inter> foot d = {}" using o(3) f2(2) e by (fastforce simp: foot_def ch_def)
  qed
  ultimately show ?thesis
    using e st unfolding b_def u_def c_def by (intro exI [of _ ch]) (simp add: ch_def)
qed

lemma alloc_from_chunk_ok:
  assumes "pool_geom a" "chunks a = ch # rest" "free_area ch < ch_end ch"
  shows "\<exists>a'. alloc_from_chunk a = Some (free_area ch, a') \<and> pool_geom a' \<and> blocks a' = insert (free_area ch) (blocks a) \<and>
    free_area ch \<notin> blocks a \<and> free_area ch \<noteq> 0 \<and> mru_head a' = mru_head a \<and> block_size a' = block_size a \<and>
    max_blocks a' = max_blocks a \<and> min_units a' = min_units a"
proof -
  define bs where "bs = block_size a"
  have ok: "chunk_ok (unat bs) ch" "0 < unat bs" using assms(1,2) by (auto simp: pool_geom_def bs_def)
  note b = bump_ok [OF ok(1) assms(3) ok(2)]
  define a' where "a' = a\<lparr>chunks := bump bs ch # rest\<rparr>"
  have eq: "alloc_from_chunk a = Some (free_area ch, a')"
    using assms(2,3) by (simp add: alloc_from_chunk_def a'_def bump_def bs_def)
  have geom: "pool_geom a'"
    using assms(1,2) b by (auto simp: pool_geom_def a'_def bs_def)
  have bl: "blocks a' = insert (free_area ch) (blocks a)"
    using assms(2) b(2) by (auto simp: blocks_def a'_def bs_def)
  have "free_area ch \<notin> carved (unat bs) d" if "d \<in> set rest" for d
  proof
    assume "free_area ch \<in> carved (unat bs) d"
    then have "unat (free_area ch) \<in> foot d" "chunk_ok (unat bs) d"
      using that assms(1,2) foot_carved(1) [of "unat bs" d "free_area ch"] ok(2)
      by (auto simp: pool_geom_def bs_def)
    moreover have "unat (free_area ch) \<in> foot ch"
      using ok(1) assms(3) by (auto simp: foot_def chunk_ok_def word_less_nat_alt)
    ultimately show False using that assms(1,2) by (auto simp: pool_geom_def)
  qed
  then have "free_area ch \<notin> blocks a" using assms(2) b(3) by (auto simp: blocks_def bs_def)
  then show ?thesis using eq geom bl b(7) by (simp add: a'_def)
qed

lemma pool_geom_mru [simp]: "pool_geom (a\<lparr>mru_head := m\<rparr>) = pool_geom a" "blocks (a\<lparr>mru_head := m\<rparr>) = blocks a"
  by (simp_all add: pool_geom_def blocks_def)

text \<open>The chunk blocks are carved from is used up.\<close>

definition exhausted :: "mempool \<Rightarrow> bool" where
  "exhausted a \<longleftrightarrow> \<not> free_area (hd (chunks a)) < ch_end (hd (chunks a))"

lemma grow_pool_ok:
  assumes "pool_geom a" "exhausted a" "max_blocks a = 0" "fresh_mem a os" "os \<noteq> 0"
  shows "\<exists>a'. new_chunk os a = Some (True, a') \<and> pool_geom a' \<and> blocks a' = blocks a \<and> \<not> exhausted a' \<and> mru_head a' = mru_head a \<and>
    block_size a' = block_size a \<and> max_blocks a' = max_blocks a \<and> min_units a' = min_units a"
proof -
  have g: "16 \<le> unat (block_size a)" "8 dvd unat (block_size a)" "unat (block_size a) < 2 ^ 32"
    "2 \<le> unat (min_units a)" "unat (min_units a) < 2 ^ 32" "mp_traits a = Alloc_traits" "chunks a \<noteq> []"
    using assms(1,3) by (auto simp: pool_geom_def)
  obtain ch where ch: "new_chunk os a = Some (True, a\<lparr>chunks := ch # chunks a\<rparr>)" "chunk_ok (unat (block_size a)) ch"
    "free_area ch < ch_end ch" "unat (free_area ch) = cstart ch"
    "unat (ch_end ch) = cstart ch + unat (block_size a) * unat (min_units a)" "\<forall>d\<in>set (chunks a). foot ch \<inter> foot d = {}"
    using new_chunk_ok [OF g(1-6) assms(4,5)] by blast
  have "carved (unat (block_size a)) ch = {}" using ch(4) by (auto simp: carved_def)
  then have "blocks (a\<lparr>chunks := ch # chunks a\<rparr>) = blocks a" by (simp add: blocks_def)
  moreover have "free_area d = ch_end d" if "d \<in> set (chunks a)" for d
  proof (cases "d = hd (chunks a)")
    case True
    then have "chunk_ok (unat (block_size a)) d" using that assms(1) by (simp add: pool_geom_def)
    then show ?thesis
      using True assms(2) by (auto simp: exhausted_def chunk_ok_def word_less_nat_alt intro: unat_inj [THEN iffD1])
  next
    case False
    then have "d \<in> set (tl (chunks a))" using that g(7) by (cases "chunks a") auto
    then show ?thesis using assms(1) by (simp add: pool_geom_def)
  qed
  then have "pool_geom (a\<lparr>chunks := ch # chunks a\<rparr>)"
    using assms(1,3) ch by (simp add: pool_geom_def)
  ultimately show ?thesis using ch(1,3) by (simp add: exhausted_def)
qed

lemma refuse_ok:
  assumes "pool_geom a" "max_blocks a = 0"
  shows "new_chunk 0 a = Some (False, a)"
proof -
  have g: "16 \<le> unat (block_size a)" "8 dvd unat (block_size a)" "unat (block_size a) < 2 ^ 32"
    "2 \<le> unat (min_units a)" "unat (min_units a) < 2 ^ 32" "mp_traits a = Alloc_traits"
    using assms by (auto simp: pool_geom_def)
  then show ?thesis using chunk_sizes_ok [OF g(1,3-5)] by (simp add: new_chunk_def Let_def)
qed

lemma take_block_ok:
  assumes "pool_geom a" "\<not> exhausted a"
  shows "\<exists>p a'. alloc_from_chunk a = Some (p, a') \<and> p \<noteq> 0 \<and> pool_geom a' \<and> blocks a' = insert p (blocks a) \<and> p \<notin> blocks a \<and>
    mru_head a' = mru_head a \<and> block_size a' = block_size a \<and> max_blocks a' = max_blocks a \<and> min_units a' = min_units a"
proof -
  obtain ch rest where "chunks a = ch # rest" using assms(1) by (cases "chunks a") (auto simp: pool_geom_def)
  moreover from this have "free_area ch < ch_end ch" using assms(2) by (simp add: exhausted_def)
  ultimately show ?thesis using alloc_from_chunk_ok [OF assms(1)] by blast
qed

lemma take_block_none: "pool_geom a \<Longrightarrow> exhausted a \<Longrightarrow> alloc_from_chunk a = Some (0, a)"
  by (cases "chunks a") (auto simp: alloc_from_chunk_def exhausted_def pool_geom_def)

lemma dl_rep_fill: "p \<notin> set xs \<Longrightarrow> dl_rep (fill_memory p h) l xs = dl_rep h l xs"
  unfolding fill_memory_def by (rule dlq.overwrite)

definition pool_same :: "mempool \<Rightarrow> mempool \<Rightarrow> bool" where
  "pool_same a b \<longleftrightarrow> block_size a = block_size b \<and> max_blocks a = max_blocks b \<and> min_units a = min_units b"

text \<open>One allocation: it fails exactly when the free list is empty, the chunk is used up and no chunk may or can be added.\<close>

lemma mempool_alloc_inv:
  assumes "pool_inv L xs s" "fresh_mem (fst s) os"
  shows "\<exists>p s' xs'. mempool_alloc os s = Some (p, s') \<and> pool_same (fst s') (fst s) \<and>
    (p = 0 \<longleftrightarrow> xs = [] \<and> exhausted (fst s) \<and> (max_blocks (fst s) \<noteq> 0 \<or> os = 0)) \<and>
    p \<notin> L \<and> pool_inv (if p = 0 then L else insert p L) xs' s' \<and> (xs \<noteq> [] \<longrightarrow> p = last xs)"
proof -
  obtain a h where s: "s = (a, h)" by force
  obtain blk mru h1 where r: "DL_REMOVE_TAIL (mru_head a, h) = (blk, mru, h1)" by (metis prod_cases3)
  have inv: "pool_geom a" "dl_rep h (mru_head a) xs" "set xs \<inter> L = {}" "set xs \<union> L = blocks a"
    using assms(1) s by (auto simp: pool_inv_def)
  define a1 where "a1 = a\<lparr>mru_head := mru\<rparr>"
  have a1: "pool_geom a1" "blocks a1 = blocks a" "exhausted a1 = exhausted a" "max_blocks a1 = max_blocks a"
    "pool_same a1 a" "mru_head a1 = mru" "fresh_mem a1 os"
    using inv(1) assms(2) s by (auto simp: a1_def exhausted_def pool_same_def fresh_mem_def alloc_size_def)
  have n0: "0 \<notin> L" using inv blocks_aligned [OF inv(1), of 0] by auto
  show ?thesis
  proof (cases xs rule: rev_cases)
    case (snoc ys z)
    then have z: "blk = z" "z \<noteq> 0" "z \<notin> set ys" "dl_rep h1 mru ys" using dlq.take_last [OF _ r] inv(2) by auto
    have "mempool_alloc os s = Some (z, a1, fill_memory z h1)"
      using r z by (simp add: mempool_alloc_def s a1_def)
    moreover have "pool_inv (insert z L) ys (a1, fill_memory z h1)"
      using inv snoc z a1 by (auto simp: pool_inv_def dl_rep_fill)
    ultimately show ?thesis using z a1 inv(3) snoc s by auto
  next
    case Nil
    then have blk: "blk = 0" "dl_rep h1 mru []" using dlq.take_empty [OF _ r] inv(2) by auto
    show ?thesis
    proof (cases "exhausted a")
      case False
      obtain p a2 where p: "alloc_from_chunk a1 = Some (p, a2)" "p \<noteq> 0" "pool_geom a2" "blocks a2 = insert p (blocks a1)"
        "p \<notin> blocks a1" "mru_head a2 = mru" "pool_same a2 a1"
        using take_block_ok [OF a1(1)] False a1 by (auto simp: pool_same_def)
      have "mempool_alloc os s = Some (p, a2, fill_memory p h1)"
        using r blk p by (simp add: mempool_alloc_def s a1_def)
      moreover have "pool_inv (insert p L) [] (a2, fill_memory p h1)"
        using p a1 inv Nil blk by (auto simp: pool_inv_def dl_rep_fill)
      ultimately show ?thesis using p a1 inv False s Nil by (auto simp: pool_same_def)
    next
      case True
      then have f: "alloc_from_chunk a1 = Some (0, a1)" using a1 by (simp add: take_block_none)
      show ?thesis
      proof (cases "max_blocks a \<noteq> 0 \<or> os = 0")
        case fail: True
        have "new_chunk os a1 = Some (False, a1)" if "max_blocks a = 0"
        proof -
          have "new_chunk 0 a1 = Some (False, a1)"
            using refuse_ok [OF a1(1)] a1(4) that by simp
          then show ?thesis using fail that by simp
        qed
        then have "mempool_alloc os s = Some (0, a1, h1)"
          using r blk f a1(4) fail by (auto simp: mempool_alloc_def s a1_def)
        moreover have "pool_inv L [] (a1, h1)" using a1 inv Nil blk by (auto simp: pool_inv_def)
        ultimately show ?thesis using True fail s Nil a1 n0 by auto
      next
        case grow: False
        obtain a2 where g: "new_chunk os a1 = Some (True, a2)" "pool_geom a2" "blocks a2 = blocks a1" "\<not> exhausted a2"
          "mru_head a2 = mru" "pool_same a2 a1"
          using grow_pool_ok [OF a1(1) _ _ a1(7)] True grow a1 by (auto simp: pool_same_def)
        obtain p a3 where p: "alloc_from_chunk a2 = Some (p, a3)" "p \<noteq> 0" "pool_geom a3" "blocks a3 = insert p (blocks a2)"
          "p \<notin> blocks a2" "mru_head a3 = mru" "pool_same a3 a2"
          using take_block_ok [OF g(2,4)] g by (auto simp: pool_same_def)
        have "mempool_alloc os s = Some (p, a3, fill_memory p h1)"
          using r blk f g(1) p grow a1(4) by (simp add: mempool_alloc_def s a1_def)
        moreover have "pool_inv (insert p L) [] (a3, fill_memory p h1)"
          using p g a1 inv Nil blk by (auto simp: pool_inv_def dl_rep_fill)
        ultimately show ?thesis using p g a1 inv grow s Nil by (auto simp: pool_same_def)
      qed
    qed
  qed
qed

lemma mempool_free_inv:
  assumes "pool_inv L xs s" "p \<in> L"
  shows "\<exists>s'. mempool_free p s = Some s' \<and> pool_inv (L - {p}) (p # xs) s' \<and> pool_same (fst s') (fst s) \<and> chunks (fst s') = chunks (fst s)"
proof -
  obtain a h where s: "s = (a, h)" by force
  have inv: "pool_geom a" "dl_rep h (mru_head a) xs" "set xs \<inter> L = {}" "set xs \<union> L = blocks a"
    using assms(1) s by (auto simp: pool_inv_def)
  have p: "p \<in> blocks a" "p \<notin> set xs" "p \<noteq> 0" using assms(2) inv blocks_aligned by auto
  obtain mru h1 where i: "DL_INSERT_HEAD p (mru_head a, clear_memory p h) = (mru, h1)" by force
  then have "dl_rep h1 mru (p # xs)" using dlq.put_overwritten [OF inv(2) p(3,2)] by (simp add: clear_memory_def)
  then have "pool_inv (L - {p}) (p # xs) (a\<lparr>mru_head := mru\<rparr>, h1)"
    using inv assms(2) by (auto simp: pool_inv_def)
  then show ?thesis
    using blocks_valid [OF inv(1) p(1)] i by (simp add: mempool_free_def s pool_same_def)
qed

lemma client_write_inv:
  assumes "pool_inv L xs (a, h)" "p \<in> L"
  shows "pool_inv L xs (a, h(p := l))"
proof -
  have "dl_rep (h(p := l)) (mru_head a) xs = dl_rep h (mru_head a) xs"
    using assms by (intro dlq.overwrite) (auto simp: pool_inv_def)
  then show ?thesis using assms by (simp add: pool_inv_def)
qed

section \<open>Initialisation\<close>

lemma unat_clamp_size:
  assumes "unat bs \<le> 2 ^ 32 - 8"
  shows "unat (clamp_size bs) = (max 16 (unat bs) + 7) div 8 * 8"
proof -
  define c where "c = (if bs < 16 then 16 else bs)"
  have c: "unat c = max 16 (unat bs)" by (auto simp: c_def word_less_nat_alt max_def)
  have le: "unat c \<le> 2 ^ 32 - 8" "16 \<le> unat c" using assms c by auto
  have "unat (Align (ucast c)) = (unat c + 7) div 8 * 8"
    using unat_Align [of "ucast c"] le by simp
  moreover have "(unat c + 7) div 8 * 8 < 2 ^ 32"
    using le(1) div_times_less_eq_dividend [of "unat c + 7" 8] by simp
  ultimately have "unat (ucast (Align (ucast c)) :: u32) = (unat c + 7) div 8 * 8"
    by (simp add: unsigned_ucast_eq take_bit_nat_eq_self)
  then show ?thesis by (simp add: clamp_size_def Align_uint_def c_def [symmetric] c)
qed

definition eff_units :: "u32 \<Rightarrow> u32 \<Rightarrow> u32" where
  "eff_units maxb units = (if maxb \<noteq> 0 then maxb else if units = 0 then MEMPOOL_MIN_ALLOC_UNITS else units)"

definition init_ok :: "u32 \<Rightarrow> u32 \<Rightarrow> u32 \<Rightarrow> addr \<Rightarrow> bool" where
  "init_ok bs maxb units os \<longleftrightarrow> unat bs \<le> 2 ^ 32 - 8 \<and> 2 \<le> unat (eff_units maxb units) \<and> 8 \<le> unat os \<and>
     unat os + 32 + unat (clamp_size bs) * unat (eff_units maxb units) < 2 ^ 64"

lemma real_init_inv:
  assumes "init_ok bs maxb units os"
  shows "\<exists>a. real_init bs maxb units os = Some (Inr a) \<and> pool_inv {} [] (a, h) \<and> block_size a = ucast (clamp_size bs) \<and> max_blocks a = ucast maxb"
proof -
  define a where "a = \<lparr>mru_head = DL_INIT, block_size = ucast (clamp_size bs), max_blocks = ucast maxb,
    min_units = ucast (eff_units maxb units), chunks = [], mp_traits = Alloc_traits\<rparr>"
  have b: "16 \<le> unat (block_size a)" "8 dvd unat (block_size a)" "unat (block_size a) < 2 ^ 32"
    using assms unat_clamp_size [of bs] unat_u32_less [of "clamp_size bs"] by (auto simp: init_ok_def a_def)
  have u: "2 \<le> unat (min_units a)" "unat (min_units a) < 2 ^ 32"
    using assms unat_u32_less [of "eff_units maxb units"] by (auto simp: init_ok_def a_def)
  have t: "mp_traits a = Alloc_traits" "fresh_mem a os" "os \<noteq> 0"
    using assms by (auto simp: a_def fresh_mem_def alloc_size_def init_ok_def)
  obtain ch where ch: "new_chunk os a = Some (True, a\<lparr>chunks := [ch]\<rparr>)" "chunk_ok (unat (block_size a)) ch"
    "unat (free_area ch) = cstart ch" "unat (ch_end ch) = cstart ch + unat (block_size a) * unat (min_units a)"
    using new_chunk_ok [OF b u t] by (auto simp: a_def)
  have mx: "max_blocks a = 0 \<or> max_blocks a = min_units a" by (auto simp: a_def eff_units_def)
  have "pool_geom (a\<lparr>chunks := [ch]\<rparr>)"
    using b u t(1) ch mx by (auto simp: pool_geom_def)
  moreover have "blocks (a\<lparr>chunks := [ch]\<rparr>) = {}" using ch(3) by (auto simp: blocks_def carved_def)
  moreover have "dl_rep h (mru_head (a\<lparr>chunks := [ch]\<rparr>)) []" by (simp add: a_def dl_rep_def DL_INIT_def)
  ultimately have "pool_inv {} [] (a\<lparr>chunks := [ch]\<rparr>, h)" by (simp add: pool_inv_def)
  moreover have "real_init bs maxb units os = Some (Inr (a\<lparr>chunks := [ch]\<rparr>))"
    using ch(1) by (simp add: real_init_def Let_def a_def eff_units_def)
  ultimately show ?thesis by (auto simp: a_def)
qed

definition mem_ok :: "u32 \<Rightarrow> addr \<Rightarrow> u32 \<Rightarrow> bool" where
  "mem_ok bs pool poolsz \<longleftrightarrow> unat bs \<le> 2 ^ 32 - 8 \<and> 8 \<le> unat pool \<and> unat pool + unat poolsz < 2 ^ 64 \<and> 7 \<le> unat poolsz"

definition usable :: "addr \<Rightarrow> u32 \<Rightarrow> nat" where
  "usable pool poolsz = unat poolsz - (unat (Align pool) - unat pool)"

text \<open>All blocks of a pool in caller-supplied memory lie inside that memory.\<close>

lemma init_from_mem_inv:
  assumes "mem_ok bs pool poolsz" "unat (clamp_size bs) + 32 \<le> usable pool poolsz" "p \<noteq> 0"
  shows "\<exists>a. mempool_init_from_mem p bs pool poolsz = Some (Inr a) \<and> pool_inv {} [] (a, h) \<and> max_blocks a \<noteq> 0 \<and>
    foot (hd (chunks a)) \<subseteq> {unat pool..<unat pool + unat poolsz} \<and>
    unat (max_blocks a) = (usable pool poolsz - 24) div unat (clamp_size bs) \<and> unat (block_size a) = unat (clamp_size bs)"
proof -
  define b where "b = clamp_size bs"
  have ub: "unat b = (max 16 (unat bs) + 7) div 8 * 8" using assms(1) by (simp add: b_def mem_ok_def unat_clamp_size)
  then have b16: "16 \<le> unat b" "8 dvd unat b" by auto
  have pool: "8 \<le> unat pool" "unat pool + unat poolsz < 2 ^ 64" "7 \<le> unat poolsz" using assms(1) by (auto simp: mem_ok_def)
  define ptr where "ptr = Align pool"
  have ptr: "unat ptr = (unat pool + 7) div 8 * 8" using unat_Align [of pool] pool by (simp add: ptr_def)
  define d where "d = unat ptr - unat pool"
  have pd: "unat ptr = unat pool + d" "d \<le> 7" using ptr by (auto simp: d_def)
  have ps: "unat (ucast poolsz - (ptr - pool) :: u64) = unat poolsz - d"
  proof -
    have "unat (ptr - pool) = d" using pd by (simp add: unat_sub word_le_nat_alt)
    then show ?thesis using pd(2) pool(3) by (simp add: unat_sub word_le_nat_alt)
  qed
  define S where "S = unat poolsz - d"
  have S: "S < 2 ^ 32" using unat_u32_less [of poolsz] by (simp add: S_def)
  have chk: "unat (ucast b + 8 + 24 :: u64) = unat b + 32"
    using unat_u32_less [of b] by (simp add: unat_word_ariths)
  have ge: "unat b + 32 \<le> S" using assms(2) by (simp add: usable_def b_def S_def d_def ptr_def)
  have p24: "unat (ptr + 24) = unat ptr + 24" using pd S_def ge pool(2) by (simp add: unat_word_ariths)
  define e where "e = ptr + 24 + (ucast poolsz - (ptr - pool) - 24)"
  have ue: "unat e = unat pool + unat poolsz"
  proof -
    have "unat (ucast poolsz - (ptr - pool) - 24 :: u64) = S - 24" using ps ge by (simp add: unat_sub word_le_nat_alt S_def)
    then show ?thesis using p24 pd ge S_def pool by (simp add: e_def unat_word_ariths)
  qed
  define f where "f = Align (ptr + 24)"
  have uf: "unat f = unat ptr + 24"
  proof -
    have "(unat (ptr + 24) + 7) div 8 * 8 = unat ptr + 24" unfolding p24 ptr by presburger
    then show ?thesis using unat_Align [of "ptr + 24"] p24 pd ge S_def pool(2) by (simp add: f_def)
  qed
  define n where "n = (ucast ((e - f) div ucast b) :: u32)"
  have ef: "unat (e - f) = S - 24" using ue uf pd ge S_def by (simp add: unat_sub word_le_nat_alt)
  have un: "unat n = (S - 24) div unat b"
  proof -
    have "(S - 24) div unat b < 2 ^ 32" using S div_le_dividend [of "S - 24" "unat b"] by linarith
    then show ?thesis by (simp add: n_def unsigned_ucast_eq unat_div ef take_bit_nat_eq_self)
  qed
  have nb: "unat (n * b) = unat n * unat b" "unat n * unat b \<le> S - 24"
  proof -
    show le: "unat n * unat b \<le> S - 24" by (simp add: un)
    then show "unat (n * b) = unat n * unat b" using S by (simp add: unat_word_ariths)
  qed
  have n1: "1 \<le> unat n"
    using div_le_mono [of "unat b" "S - 24" "unat b"] ge b16(1) by (simp add: un)
  have ce: "unat (f + ucast (n * b)) = unat f + unat n * unat b"
    using nb uf pd ge S_def pool(2) by (simp add: unat_word_ariths)
  define ch where "ch = \<lparr>ch_base = ptr, free_area = f, ch_end = f + ucast (n * b)\<rparr>"
  have bn: "b \<noteq> 0" using b16(1) by auto
  define a where "a = \<lparr>mru_head = DL_INIT, block_size = ucast b, max_blocks = ucast n, min_units = ucast n,
    chunks = [ch], mp_traits = Dummy_free\<rparr>"
  have init: "mempool_init_from_mem p bs pool poolsz = Some (Inr a)"
  proof -
    have "pool \<noteq> 0" "(ucast poolsz :: u64) \<noteq> 0" using pool by (auto simp: unat_gt_0 simp flip: unat_ucast_up)
    moreover have "\<not> ucast poolsz - (ptr - pool) < ucast b + 8 + (24 :: u64)"
      using ge ps chk by (simp add: word_less_nat_alt S_def)
    moreover have "f + ucast (n * b) \<le> e"
      using ce ue uf nb(2) pd ge S_def by (simp add: word_le_nat_alt)
    ultimately show ?thesis
      using assms(3) bn by (simp add: mempool_init_from_mem_def Let_def ptr_def [symmetric] b_def [symmetric]
          e_def [symmetric] f_def [symmetric] n_def [symmetric] ch_def a_def)
  qed
  have st: "cstart ch = unat f" by (simp add: cstart_def ch_def f_def)
  have f8: "8 dvd unat f" unfolding uf ptr by simp
  have ok: "chunk_ok (unat b) ch" using p24 uf ce pd(1) pool(1) f8 by (simp add: chunk_ok_def st) (simp add: ch_def ce)
  have nz: "(ucast n :: u64) \<noteq> 0" using n1 by (auto simp: unat_gt_0 simp flip: unat_ucast_up unat_0)
  then have "pool_geom a" using ok b16 ce st by (simp add: pool_geom_def a_def) (simp add: ch_def mult.commute)
  moreover have "blocks a = {}" using st by (auto simp: blocks_def carved_def a_def ch_def)
  moreover have "dl_rep h (mru_head a) []" by (simp add: a_def dl_rep_def DL_INIT_def)
  moreover have "foot (hd (chunks a)) \<subseteq> {unat pool..<unat pool + unat poolsz}"
    using nb(2) uf pd ge S_def by (auto simp: foot_def a_def ch_def ce)
  moreover have "S = usable pool poolsz" by (simp add: S_def d_def usable_def ptr_def)
  ultimately show ?thesis using nz init un by (auto simp: pool_inv_def a_def b_def)
qed

lemma init_from_mem_small:
  assumes "mem_ok bs pool poolsz" "usable pool poolsz < unat (clamp_size bs) + 32" "p \<noteq> 0"
  shows "mempool_init_from_mem p bs pool poolsz = Some (Inl ENOMEM)"
proof -
  have pool: "8 \<le> unat pool" "unat pool + unat poolsz < 2 ^ 64" "7 \<le> unat poolsz" using assms(1) by (auto simp: mem_ok_def)
  have A: "unat (Align pool) = (unat pool + 7) div 8 * 8" using unat_Align [of pool] pool by simp
  define d where "d = unat (Align pool) - unat pool"
  have d: "unat (Align pool) = unat pool + d" "d \<le> 7" using A by (auto simp: d_def)
  have "unat (Align pool - pool) = d" using d by (simp add: unat_sub word_le_nat_alt)
  moreover have "usable pool poolsz = unat poolsz - d" by (simp add: usable_def d_def)
  ultimately have "unat (ucast poolsz - (Align pool - pool) :: u64) = usable pool poolsz"
    using d(2) pool(3) by (simp add: unat_sub word_le_nat_alt)
  moreover have "unat (ucast (clamp_size bs) + 8 + 24 :: u64) = unat (clamp_size bs) + 32"
    using unat_u32_less [of "clamp_size bs"] by (simp add: unat_word_ariths)
  ultimately have "ucast poolsz - (Align pool - pool) < ucast (clamp_size bs) + 8 + (24 :: u64)"
    using assms(2) by (simp add: word_less_nat_alt)
  moreover have "pool \<noteq> 0" "(ucast poolsz :: u64) \<noteq> 0" using pool by (auto simp: unat_gt_0 simp flip: unat_ucast_up)
  ultimately show ?thesis using assms(3) by (simp add: mempool_init_from_mem_def Let_def)
qed

section \<open>Reachable pools\<close>

text \<open>The states a pool passes through, with the blocks its clients hold: clients free only blocks they hold, and write
  only into them.\<close>

inductive pool_reach :: "pool_state \<Rightarrow> addr set \<Rightarrow> bool" where
  init: "init_ok bs maxb units os \<Longrightarrow> mempool_init p tr bs maxb units os = Some (Inr a) \<Longrightarrow> pool_reach (a, h) {}"
| init_mem: "mem_ok bs pool poolsz \<Longrightarrow> mempool_init_from_mem p bs pool poolsz = Some (Inr a) \<Longrightarrow> pool_reach (a, h) {}"
| alloc: "pool_reach s L \<Longrightarrow> fresh_mem (fst s) os \<Longrightarrow> mempool_alloc os s = Some (p, s') \<Longrightarrow>
    pool_reach s' (if p = 0 then L else insert p L)"
| free: "pool_reach s L \<Longrightarrow> p \<in> L \<Longrightarrow> mempool_free p s = Some s' \<Longrightarrow> pool_reach s' (L - {p})"
| client: "pool_reach (a, h) L \<Longrightarrow> p \<in> L \<Longrightarrow> pool_reach (a, h(p := l)) L"

lemma pool_reach_inv: "pool_reach s L \<Longrightarrow> \<exists>xs. pool_inv L xs s"
proof (induction rule: pool_reach.induct)
  case (init bs maxb units os p tr a h)
  then have "real_init bs maxb units os = Some (Inr a)" by (auto simp: mempool_init_def split: if_splits)
  then show ?case using real_init_inv [OF init(1), of h] by auto
next
  case (init_mem bs pool poolsz p a h)
  then have "p \<noteq> 0" by (auto simp: mempool_init_from_mem_def)
  then show ?case
    using init_from_mem_inv [OF init_mem(1), of p h] init_from_mem_small [OF init_mem(1), of p] init_mem(2)
    by (cases "unat (clamp_size bs) + 32 \<le> usable pool poolsz") auto
next
  case (alloc s L os p s')
  then show ?case using mempool_alloc_inv [of L _ s os] by fastforce
next
  case (free s L p s')
  then show ?case using mempool_free_inv [of L _ s p] by fastforce
next
  case (client a h L p l)
  then show ?case using client_write_inv by blast
qed

text \<open>
  C3: Memory safety of the pool: in every reachable state no call faults; every block a client holds is aligned and lies as a whole, from its first
  byte to its last, between the header and the end of a chunk, which is no longer than a header, \<open>min_units\<close> blocks and 8 bytes for the alignment (what \<open>new_chunk\<close> requests); the blocks held are at least a
  block size apart; and a successful allocation returns a block no client holds, whatever clients wrote into the blocks they held.
\<close>

theorem mempool_safe:
  assumes "pool_reach s L" "fresh_mem (fst s) os"
  shows "apart (unat (block_size (fst s))) L \<and>
    (\<forall>p\<in>L. p \<noteq> 0 \<and> 8 dvd unat p \<and> valid_blk_p (chunks (fst s)) p \<and>
      (\<exists>ch\<in>set (chunks (fst s)). unat (ch_base ch) + 24 \<le> unat p \<and> unat p + unat (block_size (fst s)) \<le> unat (ch_end ch) \<and>
         unat (ch_end ch) \<le> unat (ch_base ch) + alloc_size (fst s))) \<and>
    (\<exists>p s'. mempool_alloc os s = Some (p, s') \<and> p \<notin> L) \<and> (\<forall>p\<in>L. \<exists>s'. mempool_free p s = Some s')"
proof -
  obtain xs where inv: "pool_inv L xs s" using pool_reach_inv [OF assms(1)] by blast
  then have g: "pool_geom (fst s)" "L \<subseteq> blocks (fst s)" by (auto simp: pool_inv_def)
  have "apart (unat (block_size (fst s))) L"
    using blocks_apart [OF g(1)] g(2) by (auto simp: apart_def)
  moreover have "\<forall>p\<in>L. p \<noteq> 0 \<and> 8 dvd unat p \<and> valid_blk_p (chunks (fst s)) p"
    using blocks_aligned [OF g(1)] blocks_valid [OF g(1)] g(2) by blast
  moreover note blocks_inside [OF g(1)]
  ultimately show ?thesis
    using mempool_alloc_inv [OF inv assms(2)] mempool_free_inv [OF inv] g(2) by blast
qed

lemma demo_reach:
  "\<exists>a. pool_reach (a, h) {} \<and> block_size a = 24 \<and> max_blocks a = 2"
proof -
  have c: "clamp_size 20 = 24" by (simp add: clamp_size_def Align_uint_def Align_def Isaligned_p_def)
  have ok: "init_ok 20 2 0 0x10000" by (simp add: init_ok_def eff_units_def c)
  obtain a where a: "real_init 20 2 0 0x10000 = Some (Inr a)" "block_size a = 24" "max_blocks a = 2"
    using real_init_inv [OF ok] by (auto simp: c)
  then have "mempool_init 8 None 20 2 0 0x10000 = Some (Inr a)" by (simp add: mempool_init_def traits_ok_def)
  then show ?thesis using pool_reach.init [OF ok] a by blast
qed

definition demo_heap :: dl_heap where
  "demo_heap = (\<lambda>p. \<lparr>dl_next = p, dl_prev = p\<rparr>)"



section \<open>Capacity\<close>

lemma card_carved:
  assumes "chunk_ok bs ch" "0 < bs"
  shows "card (carved bs ch) = (unat (free_area ch) - cstart ch) div bs"
proof -
  define c f where "c = cstart ch" and "f = unat (free_area ch)"
  have cf: "c \<le> f" "f < 2 ^ 64" "bs dvd f - c"
    using assms(1) unat_u64_less [of "free_area ch"] by (auto simp: chunk_ok_def c_def f_def)
  define g where "g i = (of_nat (c + i * bs) :: addr)" for i
  have lt: "c + i * bs < f" if "i < (f - c) div bs" for i
  proof -
    have "Suc i * bs \<le> (f - c) div bs * bs" using that by (intro mult_le_mono1) simp
    also have "\<dots> \<le> f - c" by simp
    finally show ?thesis using assms(2) cf(1) by simp
  qed
  have ug: "unat (g i) = c + i * bs" if "i < (f - c) div bs" for i
    using lt [OF that] cf(2) unfolding g_def unat_of_nat by simp
  have "carved bs ch = g ` {..<(f - c) div bs}"
  proof (intro equalityI subsetI)
    fix p assume "p \<in> carved bs ch"
    then have p: "c \<le> unat p" "unat p < f" "bs dvd unat p - c" by (auto simp: carved_def c_def f_def)
    then obtain i where i: "unat p - c = i * bs" by (metis dvd_def mult.commute)
    then have "i * bs < (f - c) div bs * bs" using p cf(3) by (simp add: dvd_div_mult_self)
    then have "i < (f - c) div bs" by simp
    moreover from this have "unat (g i) = unat p" using ug i p(1) by simp
    ultimately show "p \<in> g ` {..<(f - c) div bs}" by (auto simp: image_iff)
  next
    fix p assume "p \<in> g ` {..<(f - c) div bs}"
    then obtain i where "p = g i" "i < (f - c) div bs" by auto
    then show "p \<in> carved bs ch" using ug [of i] lt [of i] by (simp add: carved_def c_def f_def)
  qed
  moreover have "inj_on g {..<(f - c) div bs}"
  proof (rule inj_onI)
    fix i j assume "i \<in> {..<(f - c) div bs}" "j \<in> {..<(f - c) div bs}" "g i = g j"
    then have "c + i * bs = c + j * bs" using ug by (metis lessThan_iff)
    then show "i = j" using assms(2) by simp
  qed
  ultimately show ?thesis by (simp add: card_image c_def f_def)
qed

lemma full_iff:
  assumes "pool_inv L xs s" "max_blocks (fst s) \<noteq> 0"
  shows "xs = [] \<and> exhausted (fst s) \<longleftrightarrow> card L = unat (max_blocks (fst s))" "card L \<le> unat (max_blocks (fst s))"
proof -
  define a where "a = fst s"
  define bs where "bs = unat (block_size a)"
  have inv: "pool_geom a" "dl_rep (snd s) (mru_head a) xs" "set xs \<inter> L = {}" "set xs \<union> L = blocks a"
    using assms(1) by (auto simp: pool_inv_def a_def)
  obtain ch where ch: "chunks a = [ch]" "max_blocks a = min_units a"
    using inv(1) assms(2) by (auto simp: pool_geom_def a_def length_Suc_conv)
  have ok: "chunk_ok bs ch" "0 < bs" "unat (ch_end ch) = cstart ch + bs * unat (max_blocks a)"
    using inv(1) ch by (auto simp: pool_geom_def bs_def)
  define k where "k = (unat (free_area ch) - cstart ch) div bs"
  have k: "card (blocks a) = k" using card_carved [OF ok(1,2)] ch(1) by (simp add: blocks_def bs_def k_def)
  have kf: "unat (free_area ch) = cstart ch + bs * k" using ok(1) by (simp add: k_def chunk_ok_def)
  have kmax: "k \<le> unat (max_blocks a)" using ok kf by (simp add: chunk_ok_def)
  have ex: "exhausted a \<longleftrightarrow> k = unat (max_blocks a)"
    using ch(1) kf ok kmax by (auto simp: exhausted_def word_less_nat_alt)
  have fin: "finite (blocks a)" using inv(4) by (metis List.finite_set finite_code)
  have cL: "card L + length xs = k"
  proof -
    have "finite L" using fin inv(4) by (metis finite_Un)
    moreover have "distinct xs" using inv(2) by (simp add: dl_rep_def)
    ultimately show ?thesis
      using k inv(3,4) card_Un_disjoint [of "set xs" L] by (simp add: distinct_card)
  qed
  show "xs = [] \<and> exhausted (fst s) \<longleftrightarrow> card L = unat (max_blocks (fst s))"
    using cL ex kmax by (auto simp: a_def)
  show "card L \<le> unat (max_blocks (fst s))" using cL kmax by (simp add: a_def)
qed

text \<open>
  C33: Capacity: a pool limited to \<open>max_blocks\<close> blocks, whether it works out of allocated memory or out of a region the
  caller supplied, never has more than that many blocks out, and an allocation fails exactly when all of them are out. An
  unlimited pool fails only when it needs a new chunk and the underlying allocator refuses.
\<close>

theorem mempool_capacity:
  assumes "pool_reach s L" "fresh_mem (fst s) os" "mempool_alloc os s = Some (p, s')"
  shows "if max_blocks (fst s) = 0 then p = 0 \<longrightarrow> os = 0
    else card L \<le> unat (max_blocks (fst s)) \<and> (p = 0 \<longleftrightarrow> card L = unat (max_blocks (fst s)))"
proof -
  obtain xs where inv: "pool_inv L xs s" using pool_reach_inv [OF assms(1)] by blast
  have p: "p = 0 \<longleftrightarrow> xs = [] \<and> exhausted (fst s) \<and> (max_blocks (fst s) \<noteq> 0 \<or> os = 0)"
    using mempool_alloc_inv [OF inv assms(2)] assms(3) by auto
  then show ?thesis using full_iff [OF inv] by auto
qed

theorem mempool_capacity_witness:
  "\<exists>a p s'. pool_reach (a, demo_heap) {} \<and> max_blocks a = 2 \<and> mempool_alloc 0 (a, demo_heap) = Some (p, s') \<and> p \<noteq> 0"
proof -
  obtain a where a: "pool_reach (a, demo_heap) {}" "max_blocks a = 2" using demo_reach by blast
  have f: "fresh_mem (fst (a, demo_heap)) 0" by (simp add: fresh_mem_def)
  obtain p s' where p: "mempool_alloc 0 (a, demo_heap) = Some (p, s')"
    using pool_reach_inv [OF a(1)] mempool_alloc_inv [OF _ f] by blast
  show ?thesis using mempool_capacity [OF a(1) f p] a p by auto
qed

lemma alloc_room:
  assumes "pool_reach s L" "max_blocks (fst s) = 2" "card L < 2"
  shows "\<exists>p s'. mempool_alloc 0 s = Some (p, s') \<and> pool_reach s' (insert p L) \<and> p \<notin> L \<and> max_blocks (fst s') = 2"
proof -
  obtain xs where inv: "pool_inv L xs s" using pool_reach_inv [OF assms(1)] by blast
  have f: "fresh_mem (fst s) 0" by (simp add: fresh_mem_def)
  have full: "\<not> (xs = [] \<and> exhausted (fst s))" using full_iff(1) [OF inv] assms(2,3) by simp
  obtain p s' where p: "mempool_alloc 0 s = Some (p, s')" "pool_same (fst s') (fst s)" "p \<noteq> 0" "p \<notin> L"
    using mempool_alloc_inv [OF inv f] full by blast
  then show ?thesis using pool_reach.alloc [OF assms(1) f p(1)] assms(2) by (simp add: pool_same_def)
qed

text \<open>Two blocks are held in the state of the witness.\<close>

theorem mempool_safe_witness:
  "\<exists>s p q. pool_reach s {p, q} \<and> p \<noteq> q \<and>
     (unat p + unat (block_size (fst s)) \<le> unat q \<or> unat q + unat (block_size (fst s)) \<le> unat p) \<and>
     (\<exists>ch\<in>set (chunks (fst s)). unat p + unat (block_size (fst s)) \<le> unat (ch_end ch)) \<and> (\<exists>s'. mempool_free p s = Some s')"
proof -
  obtain a where a: "pool_reach (a, demo_heap) {}" "max_blocks a = 2" using demo_reach by blast
  then obtain q s1 where 1: "pool_reach s1 {q}" "max_blocks (fst s1) = 2" using alloc_room [OF a(1)] by auto
  then obtain p s2 where 2: "pool_reach s2 {p, q}" "p \<noteq> q" using alloc_room [OF 1(1)] by auto
  have "fresh_mem (fst s2) 0" by (simp add: fresh_mem_def)
  note safe = mempool_safe [OF 2(1) this]
  have "apart (unat (block_size (fst s2))) {p, q}" using safe by blast
  then have "unat p + unat (block_size (fst s2)) \<le> unat q \<or> unat q + unat (block_size (fst s2)) \<le> unat p" using 2(2) by (simp add: apart_def)
  moreover have "\<exists>ch\<in>set (chunks (fst s2)). unat p + unat (block_size (fst s2)) \<le> unat (ch_end ch)" "\<exists>s'. mempool_free p s2 = Some s'"
    using safe by blast+
  ultimately show ?thesis using 2 by blast
qed

section \<open>Order of reuse\<close>

text \<open>
  The free list called MRU is a queue: of two blocks freed one after the other into a pool whose free list is empty,
  the next allocation returns the one freed first, the least recently used.
\<close>

theorem free_list_is_fifo:
  assumes "pool_reach s L" "DL_EMPTY (mru_head (fst s))" "p \<in> L" "q \<in> L" "p \<noteq> q"
    "mempool_free p s = Some s1" "mempool_free q s1 = Some s2" "fresh_mem (fst s2) os"
  shows "\<exists>s3. mempool_alloc os s2 = Some (p, s3)"
proof -
  obtain xs where i0: "pool_inv L xs s" using pool_reach_inv [OF assms(1)] by blast
  then have "xs = []"
    using assms(2) dlseg_nonnull [of "snd s" 0 xs 0] first_or_eq_0 [of xs] by (auto simp: pool_inv_def dl_rep_def DL_EMPTY_def)
  then have i1: "pool_inv (L - {p}) [p] s1" using mempool_free_inv [OF i0 assms(3)] assms(6) by auto
  have i2: "pool_inv (L - {p} - {q}) [q, p] s2" using mempool_free_inv [OF i1, of q] assms(4,5,7) by auto
  show ?thesis using mempool_alloc_inv [OF i2 assms(8)] by auto
qed

theorem free_list_is_fifo_witness:
  "\<exists>s p q s1 s2 s3. p \<noteq> q \<and> mempool_free p s = Some s1 \<and> mempool_free q s1 = Some s2 \<and> mempool_alloc 0 s2 = Some (p, s3)"
proof -
  obtain a where a: "pool_reach (a, demo_heap) {}" "max_blocks a = 2" using demo_reach by blast
  then obtain p s1 where 1: "pool_reach s1 {p}" "max_blocks (fst s1) = 2" using alloc_room [OF a(1)] by auto
  then obtain q s2 where 2: "pool_reach s2 {q, p}" "max_blocks (fst s2) = 2" "q \<noteq> p" using alloc_room [OF 1(1)] by auto
  obtain xs where inv: "pool_inv {q, p} xs s2" using pool_reach_inv [OF 2(1)] by blast
  then have "xs = []" using full_iff(1) [OF inv] 2(2,3) by simp
  then have e: "DL_EMPTY (mru_head (fst s2))" using inv by (simp add: pool_inv_def dl_rep_def DL_EMPTY_def)
  obtain s3 where 3: "mempool_free p s2 = Some s3" "pool_inv ({q, p} - {p}) (p # xs) s3"
    using mempool_free_inv [OF inv, of p] by auto
  obtain s4 where 4: "mempool_free q s3 = Some s4" using mempool_free_inv [OF 3(2), of q] 2(3) by auto
  have "fresh_mem (fst s4) 0" by (simp add: fresh_mem_def)
  then have "\<exists>s5. mempool_alloc 0 s4 = Some (p, s5)" using 2(3) by (intro free_list_is_fifo [OF 2(1) e _ _ _ 3(1) 4]) auto
  then show ?thesis using 2(3) 3(1) 4 by metis
qed

section \<open>Faults\<close>

text \<open>
  A pool of one block cannot be made: when \<open>max\<close> is 1, or \<open>max\<close> is 0 and the allocation granularity is 1, the overflow
  guard of \<open>new_chunk\<close> takes the exact size for an overflow and the process aborts.
\<close>

theorem one_block_pool_aborts:
  assumes "p \<noteq> 0" "traits_ok tr" "maxb = 1 \<or> maxb = 0 \<and> units = 1"
  shows "mempool_init p tr bs maxb units os = None"
  using assms by (auto simp: mempool_init_def real_init_def new_chunk_def Let_def)

theorem one_block_pool_aborts_witness: "mempool_init 4096 None 64 1 0 8192 = None"
  by (rule one_block_pool_aborts) (simp_all add: traits_ok_def)

text \<open>
  \<open>mempool_new_from_mem\<close> subtracts the size of its own header from the region's size without a check: given an
  aligned region smaller than that header it succeeds, with a pool that believes it owns more than 2 GB of blocks.
\<close>

theorem small_region_underflows:
  assumes "p_a \<noteq> 0" "8 dvd unat pool" "8 \<le> unat pool" "unat pool + 2 ^ 33 < 2 ^ 64" "0 < unat poolsz" "unat poolsz < 72"
    "unat bs \<le> 2 ^ 20"
  shows "\<exists>a. mempool_new_from_mem p_a bs pool poolsz = Some (Inr (pool, a)) \<and>
    2 ^ 31 < unat (max_blocks a) * unat (block_size a)"
proof -
  have al: "Align pool = pool"
  proof -
    have "unat (Align pool) = unat pool" using unat_Align [of pool] assms(2-4) by (auto elim!: dvdE)
    then show ?thesis by simp
  qed
  define q z where "q = pool + 72" and "z = poolsz - 72"
  have q: "unat q = unat pool + 72" using assms(4) by (simp add: q_def unat_word_ariths)
  have z: "unat z = 2 ^ 32 - 72 + unat poolsz" 
    using assms(6) by (simp add: z_def unat_sub_if')
  have "unat (clamp_size bs) = (max 16 (unat bs) + 7) div 8 * 8" using assms(7) by (simp add: unat_clamp_size)
  then have c: "16 \<le> unat (clamp_size bs)" "unat (clamp_size bs) \<le> 2 ^ 20 + 8" using assms(7) by auto
  have Aq: "Align q = q"
  proof -
    have "unat (Align q) = unat q" using unat_Align [of q] assms(2-4) q by (auto elim!: dvdE)
    then show ?thesis by simp
  qed
  have u: "usable q z = unat z" by (simp add: usable_def Aq)
  have "mem_ok bs q z" using assms(3,4,6,7) q z by (simp add: mem_ok_def)
  moreover have "unat (clamp_size bs) + 32 \<le> usable q z" using c u z by simp
  moreover have "pool \<noteq> 0" using assms(3) by auto
  ultimately obtain a where a: "mempool_init_from_mem pool bs q z = Some (Inr a)"
    "unat (max_blocks a) = (unat z - 24) div unat (clamp_size bs)" "unat (block_size a) = unat (clamp_size bs)"
    using init_from_mem_inv [of bs q z pool] u by auto
  have "mempool_new_from_mem p_a bs pool poolsz = Some (Inr (pool, a))"
    using a(1) assms(1,5) \<open>pool \<noteq> 0\<close> by (auto simp: mempool_new_from_mem_def Let_def al q_def z_def)
  moreover have "2 ^ 31 < unat (max_blocks a) * unat (block_size a)"
  proof -
    have "unat z - 24 = unat (max_blocks a) * unat (block_size a) + (unat z - 24) mod unat (clamp_size bs)"
      by (simp add: a(2,3))
    moreover have "(unat z - 24) mod unat (clamp_size bs) < unat (clamp_size bs)" using c(1) by simp
    ultimately show ?thesis using z c(2) by simp
  qed
  ultimately show ?thesis by blast
qed

theorem small_region_underflows_witness:
  "\<exists>a. mempool_new_from_mem 8 64 0x10000 64 = Some (Inr (0x10000, a)) \<and> 2 ^ 31 < unat (max_blocks a) * unat (block_size a)"
  by (rule small_region_underflows) simp_all

end
