(* ===== verification/Xorfilter.thy ===== *)
theory Xorfilter
  imports Prelude
begin

text \<open>
  The Xor filters of \<open>src/hashtable/xorfilter.c\<close>. The msz of a third of the table, a \<open>double\<close> computation over the number of
  keys, is the argument \<open>sz\<close>; \<open>seeds\<close> are the random numbers drawn, one per attempt. Vectors are lists with their end on
  the right. A peeling loop that did not end, an access outside an array and a division by zero are \<open>None\<close>.
\<close>

record fpidx =
  fp_i :: u32
  fp_j :: u32
  fp_k :: u32

record xorset =
  xs_mask :: u64
  xs_n :: u64

record keyidx =
  ki_hash :: u64
  ki_idx :: u64

datatype fingerprints = Fp8 "u8 list" | Fp16 "u16 list"

record Xorfilter =
  xf_fp :: fingerprints
  xf_seed :: u64
  xf_size :: u32
  xf_n :: u32

section \<open>Hashing\<close>

definition xmix :: "u64 \<Rightarrow> u64" where
  "xmix h = (let h = h XOR drop_bit 23 h; h = h * 0x2127599bf4325c37 in h XOR drop_bit 47 h)"

definition rmix :: "u64 \<Rightarrow> u64" where
  "rmix h = (let h = push_bit 27 h OR drop_bit (64 - 27) h in h XOR drop_bit 32 h)"

definition hashkey :: "u64 \<Rightarrow> u64 \<Rightarrow> u64" where
  "hashkey v salt = (let m = 0x880355f21e6d1965; h = salt XOR (8 * m); h = h XOR xmix v; h = h * m in xmix h)"

definition geth0 :: "u64 \<Rightarrow> u32 \<Rightarrow> u32" where
  "geth0 h msz = ucast (h mod ucast msz)"

definition geth1 :: "u64 \<Rightarrow> u32 \<Rightarrow> u32" where
  "geth1 h msz = ucast (rmix h mod ucast msz)"

definition geth2 :: "u64 \<Rightarrow> u32 \<Rightarrow> u32" where
  "geth2 h msz = ucast (rmix (rmix h) mod ucast msz)"

definition hash3 :: "u64 \<Rightarrow> u32 \<Rightarrow> fpidx option" where
  "hash3 h msz =
    (if msz = 0 then None
     else Some \<lparr>fp_i = geth0 h msz, fp_j = geth1 h msz + msz, fp_k = geth2 h msz + 2 * msz\<rparr>)"

definition xfp8 :: "u64 \<Rightarrow> u8" where
  "xfp8 h = ucast (0xff AND (h XOR drop_bit 32 h))"

definition xfp16 :: "u64 \<Rightarrow> u16" where
  "xfp16 h = ucast (0xffff AND (h XOR drop_bit 32 h))"

section \<open>Construction\<close>

definition add_at :: "xorset list \<Rightarrow> nat \<Rightarrow> u64 \<Rightarrow> xorset list option" where
  "add_at H i h =
    do { x \<leftarrow> get_at H i; put_at H i \<lparr>xs_mask = xs_mask x XOR h, xs_n = xs_n x + 1\<rparr> }"

fun count_keys :: "u64 list \<Rightarrow> u32 \<Rightarrow> xorset list \<Rightarrow> xorset list option" where
  "count_keys [] msz H = Some H"
| "count_keys (h # hs) msz H =
    do { z \<leftarrow> hash3 h msz;
         H \<leftarrow> add_at H (unat (fp_i z)) h;
         H \<leftarrow> add_at H (unat (fp_j z)) h;
         H \<leftarrow> add_at H (unat (fp_k z)) h;
         count_keys hs msz H }"

definition initial_q :: "xorset list \<Rightarrow> keyidx list" where
  "initial_q H =
    map (\<lambda>i. \<lparr>ki_hash = xs_mask (H ! i), ki_idx = of_nat i\<rparr>) (filter (\<lambda>i. xs_n (H ! i) = 1) [0..<length H])"

definition update_q :: "u64 \<Rightarrow> u32 \<Rightarrow> keyidx list \<times> xorset list \<Rightarrow> (keyidx list \<times> xorset list) option" where
  "update_q h i s =
    (let (q, xs) = s in
     do { x \<leftarrow> get_at xs (unat i);
          let x = \<lparr>xs_mask = xs_mask x XOR h, xs_n = xs_n x - 1\<rparr>;
          xs \<leftarrow> put_at xs (unat i) x;
          Some (if xs_n x = 1 then q @ [\<lparr>ki_hash = xs_mask x, ki_idx = ucast i\<rparr>] else q, xs) })"

partial_function (option) peel ::
  "u32 \<Rightarrow> keyidx list \<Rightarrow> keyidx list \<Rightarrow> xorset list \<Rightarrow> keyidx list option" where
  "peel msz q stack H =
    (if q = [] then Some stack
     else do {
       x \<leftarrow> get_at H (unat (ki_idx (last q)));
       if xs_n x \<noteq> 1 then peel msz (butlast q) stack H
       else do {
         z \<leftarrow> hash3 (ki_hash (last q)) msz;
         s \<leftarrow> update_q (ki_hash (last q)) (fp_i z) (butlast q, H);
         s \<leftarrow> update_q (ki_hash (last q)) (fp_j z) s;
         s \<leftarrow> update_q (ki_hash (last q)) (fp_k z) s;
         peel msz (fst s) (stack @ [last q]) (snd s) } })"

text \<open>One attempt with a given seed: the stack, in the order its elements were pushed.\<close>

definition attempt :: "u32 \<Rightarrow> u64 list \<Rightarrow> nat \<Rightarrow> u64 \<Rightarrow> keyidx list option" where
  "attempt msz keys cap seed =
    do { H \<leftarrow> count_keys (map (\<lambda>k. hashkey k seed) keys) msz (replicate cap \<lparr>xs_mask = 0, xs_n = 0\<rparr>);
         peel msz (initial_q H) [] H }"

text \<open>The attempts left, starting with the \<open>t\<close>-th seed; no attempt left gives the empty stack.\<close>

fun init_loop :: "(nat \<Rightarrow> u64) \<Rightarrow> u32 \<Rightarrow> u64 list \<Rightarrow> nat \<Rightarrow> nat \<Rightarrow> nat \<Rightarrow> (u64 \<times> keyidx list) option" where
  "init_loop seeds msz keys cap 0 t = Some (0, [])"
| "init_loop seeds msz keys cap (Suc left) t =
    do { stack \<leftarrow> attempt msz keys cap (seeds t);
         if length stack = length keys then Some (seeds t, stack) else init_loop seeds msz keys cap left (Suc t) }"

definition max_attempts :: nat where
  "max_attempts = 1000001"

definition xorfilter_init :: "(nat \<Rightarrow> nat) \<Rightarrow> (nat \<Rightarrow> u64) \<Rightarrow> u64 list \<Rightarrow> (u64 \<times> keyidx list) option" where
  "xorfilter_init sz seeds keys =
    (let msz = sz (length keys) in init_loop seeds (of_nat msz) keys (3 * msz) max_attempts 0)"

section \<open>Filters\<close>

fun fill_fp :: "(u64 \<Rightarrow> 'w::len word) \<Rightarrow> u32 \<Rightarrow> keyidx list \<Rightarrow> 'w word list \<Rightarrow> 'w word list option" where
  "fill_fp fp msz [] b = Some b"
| "fill_fp fp msz (ki # rest) b =
    do { z \<leftarrow> hash3 (ki_hash ki) msz;
         x \<leftarrow> get_at b (unat (fp_i z)); y \<leftarrow> get_at b (unat (fp_j z)); w \<leftarrow> get_at b (unat (fp_k z));
         b \<leftarrow> put_at b (unat (ki_idx ki)) (fp (ki_hash ki) XOR x XOR y XOR w);
         fill_fp fp msz rest b }"

text \<open>\<open>Some None\<close> is the null pointer. The stack is consumed from its end.\<close>

definition Xorfilter_new8 :: "(nat \<Rightarrow> nat) \<Rightarrow> (nat \<Rightarrow> u64) \<Rightarrow> u64 list \<Rightarrow> Xorfilter option option" where
  "Xorfilter_new8 sz seeds keys =
    do { (seed, stack) \<leftarrow> xorfilter_init sz seeds keys;
         if stack = [] then Some None
         else do {
           let msz = of_nat (sz (length keys));
           b \<leftarrow> fill_fp xfp8 msz (rev stack) (replicate (length stack * 3) 0);
           Some (Some \<lparr>xf_fp = Fp8 b, xf_seed = seed, xf_size = msz, xf_n = of_nat (length keys)\<rparr>) } }"

definition Xorfilter_new16 :: "(nat \<Rightarrow> nat) \<Rightarrow> (nat \<Rightarrow> u64) \<Rightarrow> u64 list \<Rightarrow> Xorfilter option option" where
  "Xorfilter_new16 sz seeds keys =
    do { (seed, stack) \<leftarrow> xorfilter_init sz seeds keys;
         if stack = [] then Some None
         else do {
           let msz = of_nat (sz (length keys));
           b \<leftarrow> fill_fp xfp16 msz (rev stack) (replicate (length stack * 3) 0);
           Some (Some \<lparr>xf_fp = Fp16 b, xf_seed = seed, xf_size = msz, xf_n = of_nat (length keys)\<rparr>) } }"

definition fp_match :: "(u64 \<Rightarrow> 'w::len word) \<Rightarrow> 'w word list \<Rightarrow> u64 \<Rightarrow> fpidx \<Rightarrow> bool option" where
  "fp_match fp b h z =
    do { x \<leftarrow> get_at b (unat (fp_i z)); y \<leftarrow> get_at b (unat (fp_j z)); w \<leftarrow> get_at b (unat (fp_k z));
         Some (fp h = x XOR y XOR w) }"

definition Xorfilter_contains :: "Xorfilter \<Rightarrow> u64 \<Rightarrow> bool option" where
  "Xorfilter_contains x key =
    (let h = hashkey key (xf_seed x) in
     do { z \<leftarrow> hash3 h (xf_size x);
          case xf_fp x of Fp16 b \<Rightarrow> fp_match xfp16 b h z | Fp8 b \<Rightarrow> fp_match xfp8 b h z })"

definition xorfilter_size :: "Xorfilter \<Rightarrow> u64" where
  "xorfilter_size x =
    (let sz = ucast (3 * xf_size x) in case xf_fp x of Fp16 _ \<Rightarrow> sz * 2 | Fp8 _ \<Rightarrow> sz)"

section \<open>The three slots of a hash\<close>

definition slots3 :: "u32 \<Rightarrow> u64 \<Rightarrow> nat list" where
  "slots3 msz h = (case hash3 h msz of None \<Rightarrow> [] | Some z \<Rightarrow> [unat (fp_i z), unat (fp_j z), unat (fp_k z)])"

definition sane_size :: "u32 \<Rightarrow> bool" where
  "sane_size msz \<longleftrightarrow> msz \<noteq> 0 \<and> 3 * unat msz < 2 ^ 32"

lemma unat_geth: "msz \<noteq> 0 \<Longrightarrow> unat (ucast ((x :: u64) mod ucast (msz :: u32)) :: u32) < unat msz"
proof -
  assume "msz \<noteq> 0"
  then have m: "0 < unat msz" by (simp add: unat_gt_0)
  have l: "unat (x mod ucast msz) < unat msz" using m by (simp add: unat_mod)
  then have "unat (x mod ucast msz) < 2 ^ 32" using unat_u32_less [of msz] by simp
  then have "unat (ucast (x mod ucast msz) :: u32) = unat (x mod ucast msz)"
    by (simp add: unsigned_ucast_eq take_bit_nat_eq_self)
  then show ?thesis using l by simp
qed

lemma hash3_slots:
  assumes "sane_size msz"
  obtains z i j k where "hash3 h msz = Some z" "slots3 msz h = [i, j, k]" "unat (fp_i z) = i" "unat (fp_j z) = j" "unat (fp_k z) = k"
    "i < unat msz" "unat msz \<le> j" "j < 2 * unat msz" "2 * unat msz \<le> k" "k < 3 * unat msz"
proof -
  have nz: "msz \<noteq> 0" and lim: "3 * unat msz < 2 ^ 32" using assms by (auto simp: sane_size_def)
  define z where "z = \<lparr>fp_i = geth0 h msz, fp_j = geth1 h msz + msz, fp_k = geth2 h msz + 2 * msz\<rparr>"
  have z: "hash3 h msz = Some z" using nz by (simp add: hash3_def z_def)
  have g: "unat (geth0 h msz) < unat msz" "unat (geth1 h msz) < unat msz" "unat (geth2 h msz) < unat msz"
    using nz by (simp_all add: geth0_def geth1_def geth2_def unat_geth)
  have 1: "unat (geth1 h msz + msz) = unat (geth1 h msz) + unat msz"
    using g(2) lim by (intro unat_add_u32) simp
  have m2: "unat (2 * msz) = 2 * unat msz" using lim by (simp add: unat_word_ariths)
  then have 2: "unat (geth2 h msz + 2 * msz) = unat (geth2 h msz) + 2 * unat msz"
    using g(3) lim by (subst unat_add_u32) simp_all
  show ?thesis
    by (rule that [OF z, of "unat (fp_i z)" "unat (fp_j z)" "unat (fp_k z)"]) (use g 1 2 in \<open>simp_all add: slots3_def z, simp_all add: z_def\<close>)
qed

lemma slots3_facts:
  assumes "sane_size msz"
  shows "distinct (slots3 msz h) \<and> length (slots3 msz h) = 3 \<and> (\<forall>i\<in>set (slots3 msz h). i < 3 * unat msz)"
proof -
  obtain z i j k where "slots3 msz h = [i, j, k]" "i < unat msz" "unat msz \<le> j" "j < 2 * unat msz" "2 * unat msz \<le> k" "k < 3 * unat msz"
    using hash3_slots [OF assms] by metis
  then show ?thesis by auto
qed

section \<open>Tables\<close>

text \<open>\<open>hits msz R i\<close>: the hashes of \<open>R\<close> that touch slot \<open>i\<close>.\<close>

definition hits :: "u32 \<Rightarrow> u64 list \<Rightarrow> nat \<Rightarrow> u64 list" where
  "hits msz R i = filter (\<lambda>h. i \<in> set (slots3 msz h)) R"

definition xor_list :: "u64 list \<Rightarrow> u64" where
  "xor_list hs = foldr (XOR) hs 0"

definition cell :: "u64 list \<Rightarrow> xorset" where
  "cell hs = \<lparr>xs_mask = xor_list hs, xs_n = of_nat (length hs)\<rparr>"

definition tab_ok :: "u32 \<Rightarrow> u64 list \<Rightarrow> xorset list \<Rightarrow> bool" where
  "tab_ok msz R H \<longleftrightarrow> length H = 3 * unat msz \<and> (\<forall>i<length H. H ! i = cell (hits msz R i))"

lemma xor_list_simps [simp]: "xor_list [] = 0" "xor_list (h # hs) = h XOR xor_list hs"
  by (simp_all add: xor_list_def)

lemma xor_list_remove1: "h \<in> set hs \<Longrightarrow> xor_list (remove1 h hs) = xor_list hs XOR h"
proof (induction hs)
  case (Cons x hs)
  then show ?case by (auto simp: ac_simps)
qed simp

lemma cell_add: "\<lparr>xs_mask = xs_mask (cell hs) XOR h, xs_n = xs_n (cell hs) + 1\<rparr> = cell (h # hs)"
  by (simp add: cell_def xor.commute)

lemma cell_del:
  assumes "h \<in> set hs"
  shows "\<lparr>xs_mask = xs_mask (cell hs) XOR h, xs_n = xs_n (cell hs) - 1\<rparr> = cell (remove1 h hs)"
proof -
  have "1 \<le> length hs" using assms by (cases hs) auto
  then have "(of_nat (length hs - 1) :: u64) = of_nat (length hs) - 1" by (simp add: of_nat_diff)
  then show ?thesis using assms xor_list_remove1 [OF assms] by (simp add: cell_def length_remove1)
qed

lemma hits_remove1:
  "hits msz (remove1 h R) i = (if i \<in> set (slots3 msz h) then remove1 h (hits msz R i) else hits msz R i)"
  by (induction R) (auto simp: hits_def)

lemma tab_okD: "tab_ok msz R H \<Longrightarrow> i < 3 * unat msz \<Longrightarrow> H ! i = cell (hits msz R i)"
  by (simp add: tab_ok_def)

lemma add_at_eq: "i < length H \<Longrightarrow> add_at H i h = Some (H[i := \<lparr>xs_mask = xs_mask (H ! i) XOR h, xs_n = xs_n (H ! i) + 1\<rparr>])"
  by (simp add: add_at_def mem_simps)

lemma count_key_step:
  assumes "sane_size msz" "tab_ok msz R H"
  shows "\<exists>H'. count_keys (h # hs) msz H = count_keys hs msz H' \<and> tab_ok msz (h # R) H'"
proof -
  obtain z i j k where z: "hash3 h msz = Some z" "slots3 msz h = [i, j, k]" "unat (fp_i z) = i" "unat (fp_j z) = j" "unat (fp_k z) = k"
    "i < unat msz" "unat msz \<le> j" "j < 2 * unat msz" "2 * unat msz \<le> k" "k < 3 * unat msz"
    using hash3_slots [OF assms(1)] by metis
  have len: "length H = 3 * unat msz" using assms(2) by (simp add: tab_ok_def)
  define up where "up x = \<lparr>xs_mask = xs_mask x XOR h, xs_n = xs_n x + 1\<rparr>" for x :: xorset
  have ne: "i \<noteq> j" "j \<noteq> k" "i \<noteq> k" using z by auto
  define H' where "H' = H[i := up (H ! i), j := up (H ! j), k := up (H ! k)]"
  have "count_keys (h # hs) msz H = count_keys hs msz H'"
    using z len ne by (simp add: add_at_eq H'_def up_def)
  moreover have "H' ! m = cell (hits msz (h # R) m)" if "m < length H" for m
  proof -
    have "H ! m = cell (hits msz R m)" using that assms(2) by (simp add: tab_ok_def)
    then show ?thesis
      using that ne z(2) cell_add [of "hits msz R m" h] by (auto simp: H'_def nth_list_update up_def hits_def)
  qed
  ultimately show ?thesis using len by (auto simp: tab_ok_def H'_def)
qed

lemma count_keys_ok:
  assumes "sane_size msz" "tab_ok msz R H"
  shows "\<exists>H'. count_keys hs msz H = Some H' \<and> tab_ok msz (rev hs @ R) H'"
  using assms(2)
proof (induction hs arbitrary: R H)
  case (Cons h hs)
  from count_key_step [OF assms(1) Cons.prems] obtain H1 where
    "count_keys (h # hs) msz H = count_keys hs msz H1" "tab_ok msz (h # R) H1" by blast
  with Cons.IH [of "h # R" H1] show ?case by auto
qed simp

lemma tab_ok_zero: "tab_ok msz [] (replicate (3 * unat msz) \<lparr>xs_mask = 0, xs_n = 0\<rparr>)"
  by (simp add: tab_ok_def hits_def cell_def)

section \<open>Peeling\<close>

definition entry_ok :: "u32 \<Rightarrow> u64 list \<Rightarrow> keyidx \<Rightarrow> bool" where
  "entry_ok msz R e \<longleftrightarrow> unat (ki_idx e) < 3 * unat msz \<and>
     (hits msz R (unat (ki_idx e)) = [] \<or> hits msz R (unat (ki_idx e)) = [ki_hash e])"

text \<open>\<open>ks\<close> peels \<open>R\<close> down to \<open>R'\<close>: each entry is the only hash left in its slot when it is pushed.\<close>

fun peeled :: "u32 \<Rightarrow> keyidx list \<Rightarrow> u64 list \<Rightarrow> u64 list \<Rightarrow> bool" where
  "peeled msz [] R R' \<longleftrightarrow> R' = R"
| "peeled msz (e # ks) R R' \<longleftrightarrow> unat (ki_idx e) < 3 * unat msz \<and> hits msz R (unat (ki_idx e)) = [ki_hash e] \<and>
     peeled msz ks (remove1 (ki_hash e) R) R'"

lemma hits_sole: "hits msz R i = [h] \<Longrightarrow> h \<in> set R \<and> i \<in> set (slots3 msz h) \<and> i \<notin> (\<Union>h'\<in>set (remove1 h R). set (slots3 msz h'))"
proof -
  assume 1: "hits msz R i = [h]"
  then have m: "h \<in> set R" "i \<in> set (slots3 msz h)" by (auto simp: hits_def filter_eq_Cons_iff)
  then have "hits msz (remove1 h R) i = []" using 1 by (simp add: hits_remove1)
  then show ?thesis using m by (auto simp: hits_def filter_empty_conv)
qed

lemma cell_n_eq_1: "length hs < 2 ^ 64 \<Longrightarrow> xs_n (cell hs) = 1 \<longleftrightarrow> (\<exists>h. hs = [h])"
  using of_nat_u64_eq [of "length hs" 1] by (auto simp: cell_def length_Suc_conv)

lemma hits_len: "length (hits msz R i) \<le> length R"
  by (simp add: hits_def)

lemma update_q_eq:
  assumes "unat i < length xs"
  shows "update_q h i (q, xs) =
    (let x = \<lparr>xs_mask = xs_mask (xs ! unat i) XOR h, xs_n = xs_n (xs ! unat i) - 1\<rparr>
     in Some (q @ (if xs_n x = 1 then [\<lparr>ki_hash = xs_mask x, ki_idx = ucast i\<rparr>] else []), xs[unat i := x]))"
  using assms by (simp add: update_q_def mem_simps Let_def)

lemma update3_ok:
  assumes sane: "sane_size msz" and tab: "tab_ok msz R H" and h: "h \<in> set R" and len: "length R < 2 ^ 64" and z: "hash3 h msz = Some z"
  shows "\<exists>new H'. (do { s \<leftarrow> update_q h (fp_i z) (q, H); s \<leftarrow> update_q h (fp_j z) s; update_q h (fp_k z) s }) = Some (q @ new, H') \<and>
    tab_ok msz (remove1 h R) H' \<and> length new \<le> 3 \<and> (\<forall>e\<in>set new. entry_ok msz (remove1 h R) e)"
proof -
  obtain i j k where s: "slots3 msz h = [i, j, k]" "unat (fp_i z) = i" "unat (fp_j z) = j" "unat (fp_k z) = k"
    "i < unat msz" "unat msz \<le> j" "j < 2 * unat msz" "2 * unat msz \<le> k" "k < 3 * unat msz"
    using hash3_slots [OF sane, of h] z by (metis option.inject)
  have lH: "length H = 3 * unat msz" using tab by (simp add: tab_ok_def)
  have ne: "i \<noteq> j" "j \<noteq> k" "i \<noteq> k" using s by auto
  define dn where "dn x = \<lparr>xs_mask = xs_mask x XOR h, xs_n = xs_n x - 1\<rparr>" for x :: xorset
  define ent where "ent n x = (if xs_n x = 1 then [\<lparr>ki_hash = xs_mask x, ki_idx = ucast n\<rparr>] else [])" for n :: u32 and x :: xorset
  define H' where "H' = H[i := dn (H ! i), j := dn (H ! j), k := dn (H ! k)]"
  define new where "new = ent (fp_i z) (H' ! i) @ ent (fp_j z) (H' ! j) @ ent (fp_k z) (H' ! k)"
  have H': "H' ! i = dn (H ! i)" "H' ! j = dn (H ! j)" "H' ! k = dn (H ! k)" using s ne lH by (simp_all add: H'_def)
  have run: "(do { s \<leftarrow> update_q h (fp_i z) (q, H); s \<leftarrow> update_q h (fp_j z) s; update_q h (fp_k z) s }) = Some (q @ new, H')"
    using s ne lH by (simp add: update_q_eq Let_def new_def ent_def H' dn_def) (simp add: H'_def dn_def)
  have tab': "H' ! m = cell (hits msz (remove1 h R) m)" if "m < length H" for m
  proof (cases "m \<in> set (slots3 msz h)")
    case True
    then have "h \<in> set (hits msz R m)" using h by (simp add: hits_def)
    then have "dn (H ! m) = cell (hits msz (remove1 h R) m)"
      using cell_del [of h "hits msz R m"] tab_okD [OF tab] that lH True by (simp add: dn_def hits_remove1)
    then show ?thesis using True s(1) H' by auto
  next
    case False
    then show ?thesis using s(1) tab_okD [OF tab, of m] that lH by (simp add: H'_def hits_remove1)
  qed
  then have ok: "tab_ok msz (remove1 h R) H'" using lH by (simp add: tab_ok_def H'_def)
  have ent: "\<forall>e\<in>set (ent n (H' ! m)). entry_ok msz (remove1 h R) e" if "unat n = m" "m < length H" for n m
  proof -
    have "length (hits msz (remove1 h R) m) < 2 ^ 64"
      using hits_len [of msz "remove1 h R" m] len h by (simp add: length_remove1)
    then show ?thesis using that tab' [OF that(2)] lH cell_n_eq_1
      by (auto simp: ent_def entry_ok_def split: if_splits) (auto simp: cell_def)
  qed
  have "\<forall>e\<in>set new. entry_ok msz (remove1 h R) e"
    unfolding new_def using ent [OF s(2)] ent [OF s(3)] ent [OF s(4)] s(5-9) lH by auto
  moreover have "length new \<le> 3" by (simp add: new_def ent_def)
  ultimately show ?thesis using run ok by blast
qed

lemma entry_ok_remove:
  assumes "entry_ok msz R e" "h \<in> set R"
  shows "entry_ok msz (remove1 h R) e"
proof (cases "unat (ki_idx e) \<in> set (slots3 msz h)")
  case True
  then have "h \<in> set (hits msz R (unat (ki_idx e)))" using assms(2) by (simp add: hits_def)
  then show ?thesis using assms(1) True by (auto simp: entry_ok_def hits_remove1)
next
  case False
  then show ?thesis using assms(1) by (simp add: entry_ok_def hits_remove1)
qed

text \<open>The loop ends: every round shortens the queue or peels a hash, which adds at most three entries.\<close>

lemma peel_ok:
  assumes "sane_size msz" "tab_ok msz R H" "length R < 2 ^ 64" "\<forall>e\<in>set q. entry_ok msz R e"
  shows "\<exists>ks R'. peel msz q stack H = Some (stack @ ks) \<and> peeled msz ks R R'"
  using assms(2-4)
proof (induction "length q + 4 * length R" arbitrary: q R H stack rule: less_induct)
  case less
  show ?case
  proof (cases q rule: rev_cases)
    case Nil
    then show ?thesis by (subst peel.simps) (auto intro: exI [of _ "[]"])
  next
    case (snoc p e)
    define i where "i = unat (ki_idx e)"
    have e: "entry_ok msz R e" "\<forall>e\<in>set p. entry_ok msz R e" using less.prems(3) snoc by auto
    then have i: "i < length H" "H ! i = cell (hits msz R i)"
      using less.prems(1) by (auto simp: entry_ok_def i_def tab_ok_def)
    have l: "length (hits msz R i) < 2 ^ 64" using hits_len [of msz R i] less.prems(2) by simp
    show ?thesis
    proof (cases "xs_n (H ! i) = 1")
      case False
      then have "peel msz q stack H = peel msz p stack H"
        using i by (subst peel.simps) (simp add: snoc mem_simps i_def)
      then show ?thesis using less.hyps [of p R H stack] less.prems e(2) snoc by simp
    next
      case True
      then have sole: "hits msz R i = [ki_hash e]"
        using e(1) cell_n_eq_1 [OF l] i(2) by (auto simp: entry_ok_def i_def)
      then have h: "ki_hash e \<in> set R" using hits_sole by blast
      obtain z where z: "hash3 (ki_hash e) msz = Some z" using hash3_slots [OF assms(1)] by metis
      obtain new H' where u: "(do { s \<leftarrow> update_q (ki_hash e) (fp_i z) (p, H); s \<leftarrow> update_q (ki_hash e) (fp_j z) s;
          update_q (ki_hash e) (fp_k z) s }) = Some (p @ new, H')" "tab_ok msz (remove1 (ki_hash e) R) H'" "length new \<le> 3"
          "\<forall>e'\<in>set new. entry_ok msz (remove1 (ki_hash e) R) e'"
        using update3_ok [OF assms(1) less.prems(1) h less.prems(2) z] by blast
      have "peel msz q stack H = peel msz (p @ new) (stack @ [e]) H'"
        using True i z u(1) by (subst peel.simps) (simp add: snoc mem_simps i_def bind_eq_Some_conv, auto)
      moreover have "\<forall>e'\<in>set (p @ new). entry_ok msz (remove1 (ki_hash e) R) e'"
        using e(2) u(4) entry_ok_remove [OF _ h] by auto
      moreover have "length (remove1 (ki_hash e) R) < length R" "length (remove1 (ki_hash e) R) = length R - 1"
        using h length_pos_if_in_set [OF h] by (auto simp: length_remove1)
      ultimately obtain ks R' where "peel msz q stack H = Some ((stack @ [e]) @ ks)" "peeled msz ks (remove1 (ki_hash e) R) R'"
        using less.hyps [of "p @ new" "remove1 (ki_hash e) R" H' "stack @ [e]"] u(2,3) less.prems(2) snoc by fastforce
      then show ?thesis
        using sole i(1) less.prems(1) by (intro exI [of _ "e # ks"] exI [of _ R']) (simp add: i_def tab_ok_def)
    qed
  qed
qed

lemma peeled_length: "peeled msz ks R R' \<Longrightarrow> length R = length ks + length R'"
proof (induction ks arbitrary: R)
  case (Cons e ks)
  then have "ki_hash e \<in> set R" using hits_sole by auto
  then have "0 < length R" "length (remove1 (ki_hash e) R) = length R - 1"
    using length_pos_if_in_set [of "ki_hash e" R] by (simp_all add: length_remove1)
  moreover have "length (remove1 (ki_hash e) R) = length ks + length R'" using Cons.IH Cons.prems by simp
  ultimately show ?case unfolding length_Cons by linarith
qed simp

text \<open>A hash that occurs twice is never peeled.\<close>

lemma peeled_duplicate:
  assumes "peeled msz ks R R'" "2 \<le> count_list R h" "slots3 msz h \<noteq> []"
  shows "2 \<le> count_list R' h"
  using assms(1,2)
proof (induction ks arbitrary: R)
  case (Cons e ks)
  have sole: "hits msz R (unat (ki_idx e)) = [ki_hash e]" using Cons.prems(1) by simp
  have "ki_hash e \<noteq> h"
  proof
    assume "ki_hash e = h"
    then have "unat (ki_idx e) \<in> set (slots3 msz h)" using hits_sole [OF sole] by simp
    then have "count_list (hits msz R (unat (ki_idx e))) h = count_list R h"
      by (induction R) (auto simp: hits_def)
    then show False using sole Cons.prems(2) \<open>ki_hash e = h\<close> by simp
  qed
  then have "count_list (remove1 (ki_hash e) R) h = count_list R h" by (induction R) auto
  then show ?case using Cons.IH [of "remove1 (ki_hash e) R"] Cons.prems by simp
qed simp

section \<open>Fingerprints\<close>

definition xor3 :: "'w::len word list \<Rightarrow> nat list \<Rightarrow> 'w word" where
  "xor3 b js = foldr (\<lambda>j x. b ! j XOR x) js 0"

lemma fill_fp_append: "fill_fp fp msz (xs @ ys) b = Option.bind (fill_fp fp msz xs b) (fill_fp fp msz ys)"
  by (induction xs arbitrary: b) (auto intro!: bind_ext simp: Option.bind_assoc)

lemma fill_one:
  assumes "sane_size msz" "3 * unat msz \<le> length b" "unat (ki_idx e) \<in> set (slots3 msz (ki_hash e))" "b ! unat (ki_idx e) = 0"
  shows "\<exists>v. fill_fp fp msz [e] b = Some (b[unat (ki_idx e) := v]) \<and>
    xor3 (b[unat (ki_idx e) := v]) (slots3 msz (ki_hash e)) = fp (ki_hash e)"
proof -
  obtain z i j k where z: "hash3 (ki_hash e) msz = Some z" "slots3 msz (ki_hash e) = [i, j, k]"
    "unat (fp_i z) = i" "unat (fp_j z) = j" "unat (fp_k z) = k"
    "i < unat msz" "unat msz \<le> j" "j < 2 * unat msz" "2 * unat msz \<le> k" "k < 3 * unat msz"
    using hash3_slots [OF assms(1)] by metis
  define n where "n = unat (ki_idx e)"
  have n: "n = i \<or> n = j \<or> n = k" "n < length b" "b ! n = 0" using assms(2-4) z by (auto simp: n_def)
  have ne: "i \<noteq> j" "j \<noteq> k" "i \<noteq> k" and lt: "i < length b" "j < length b" "k < length b" using z assms(2) by auto
  show ?thesis
    using z(1-5) n ne lt
    by (intro exI [of _ "fp (ki_hash e) XOR b ! i XOR b ! j XOR b ! k"])
      (auto simp: mem_simps xor3_def n_def [symmetric] nth_list_update ac_simps)
qed

lemma xor3_cong: "\<forall>j\<in>set js. b ! j = c ! j \<Longrightarrow> xor3 b js = xor3 c js"
  by (induction js) (auto simp: xor3_def)

lemma fill_fp_ok:
  assumes sane: "sane_size msz" and len: "3 * unat msz \<le> length b"
  shows "peeled msz ks R [] \<Longrightarrow> b = replicate (length b) 0 \<Longrightarrow>
    \<exists>b'. fill_fp fp msz (rev ks) b = Some b' \<and> length b' = length b \<and>
      (\<forall>h\<in>set R. xor3 b' (slots3 msz h) = fp h) \<and>
      (\<forall>i<length b. i \<notin> (\<Union>h\<in>set R. set (slots3 msz h)) \<longrightarrow> b' ! i = 0)"
proof (induction ks arbitrary: R)
  case Nil
  then show ?case by (auto intro: nth_replicate elim: ssubst)
next
  case (Cons e ks)
  define n where "n = unat (ki_idx e)"
  define R1 where "R1 = remove1 (ki_hash e) R"
  have sole: "hits msz R n = [ki_hash e]" and p: "peeled msz ks R1 []" and n: "n < 3 * unat msz"
    using Cons.prems(1) by (simp_all add: n_def R1_def)
  note s = hits_sole [OF sole, folded R1_def]
  obtain b1 where b1: "fill_fp fp msz (rev ks) b = Some b1" "length b1 = length b"
    "\<forall>h\<in>set R1. xor3 b1 (slots3 msz h) = fp h" "\<forall>i<length b. i \<notin> (\<Union>h\<in>set R1. set (slots3 msz h)) \<longrightarrow> b1 ! i = 0"
    using Cons.IH [OF p Cons.prems(2)] by blast
  have "b1 ! n = 0" using b1(4) s n len by auto
  then obtain v where v: "fill_fp fp msz [e] b1 = Some (b1[n := v])" "xor3 (b1[n := v]) (slots3 msz (ki_hash e)) = fp (ki_hash e)"
    using fill_one [OF sane, of b1 e fp] s b1(2) len by (auto simp: n_def)
  have "xor3 (b1[n := v]) (slots3 msz h) = fp h" if "h \<in> set R" for h
  proof (cases "h \<in> set R1")
    case True
    then have "n \<notin> set (slots3 msz h)" using s by auto
    then have "xor3 (b1[n := v]) (slots3 msz h) = xor3 b1 (slots3 msz h)" by (intro xor3_cong) (metis nth_list_update_neq)
    then show ?thesis using b1(3) True by simp
  next
    case False
    then have "h = ki_hash e" using that unfolding R1_def by (metis in_set_remove1)
    then show ?thesis using v(2) by simp
  qed
  moreover have "\<forall>i<length b. i \<notin> (\<Union>h\<in>set R. set (slots3 msz h)) \<longrightarrow> b1[n := v] ! i = 0"
  proof (intro allI impI)
    fix i assume i: "i < length b" "i \<notin> (\<Union>h\<in>set R. set (slots3 msz h))"
    then have "i \<noteq> n" "i \<notin> (\<Union>h\<in>set R1. set (slots3 msz h))" using s set_remove1_subset [of "ki_hash e" R] by (auto simp: R1_def)
    then show "b1[n := v] ! i = 0" using b1(4) i(1) by simp
  qed
  ultimately show ?case using b1(1,2) v(1) by (simp add: fill_fp_append)
qed

lemma fp_match_xor3:
  assumes "sane_size msz" "hash3 h msz = Some z" "3 * unat msz \<le> length b"
  shows "fp_match fp b h z = Some (fp h = xor3 b (slots3 msz h))"
proof -
  obtain i j k where "slots3 msz h = [i, j, k]" "unat (fp_i z) = i" "unat (fp_j z) = j" "unat (fp_k z) = k"
    "i < unat msz" "unat msz \<le> j" "j < 2 * unat msz" "2 * unat msz \<le> k" "k < 3 * unat msz"
    using hash3_slots [OF assms(1), of h] assms(2) by (metis option.inject)
  then show ?thesis using assms(3) by (simp add: fp_match_def mem_simps xor3_def xor.assoc)
qed

section \<open>The filter\<close>

lemma attempt_ok:
  assumes "sane_size msz" "length keys < 2 ^ 64"
  shows "\<exists>ks R'. attempt msz keys (3 * unat msz) seed = Some ks \<and> peeled msz ks (rev (map (\<lambda>k. hashkey k seed) keys)) R'"
proof -
  define R where "R = rev (map (\<lambda>k. hashkey k seed) keys)"
  obtain H where H: "count_keys (map (\<lambda>k. hashkey k seed) keys) msz (replicate (3 * unat msz) \<lparr>xs_mask = 0, xs_n = 0\<rparr>) = Some H"
    "tab_ok msz R H"
    using count_keys_ok [OF assms(1) tab_ok_zero] by (auto simp: R_def)
  have lR: "length R < 2 ^ 64" using assms(2) by (simp add: R_def)
  have "entry_ok msz R e" if e: "e \<in> set (initial_q H)" for e
  proof -
    obtain i where i: "i < length H" "xs_n (H ! i) = 1" "e = \<lparr>ki_hash = xs_mask (H ! i), ki_idx = of_nat i\<rparr>"
      using e unfolding initial_q_def set_map set_filter by auto
    have l: "length (hits msz R i) < 2 ^ 64" using hits_len [of msz R i] lR by simp
    have c: "H ! i = cell (hits msz R i)" "length H = 3 * unat msz" using H(2) i(1) by (auto simp: tab_ok_def)
    then obtain h where h: "hits msz R i = [h]" using cell_n_eq_1 [OF l] i(2) by auto
    have "unat (of_nat i :: u64) = i" using i(1) c(2) assms(1) by (simp add: unat_of_nat sane_size_def)
    then show ?thesis using i c h by (simp add: entry_ok_def cell_def)
  qed
  then show ?thesis
    using peel_ok [OF assms(1) H(2) lR, of "initial_q H" "[]"] H(1) by (auto simp: attempt_def R_def)
qed

lemma init_loop_ok:
  assumes "sane_size msz" "length keys < 2 ^ 64"
  shows "\<exists>seed ks. init_loop seeds msz keys (3 * unat msz) left t = Some (seed, ks) \<and>
    (ks = [] \<or> peeled msz ks (rev (map (\<lambda>k. hashkey k seed) keys)) [])"
proof (induction left arbitrary: t)
  case (Suc left)
  obtain ks R' where a: "attempt msz keys (3 * unat msz) (seeds t) = Some ks" "peeled msz ks (rev (map (\<lambda>k. hashkey k (seeds t)) keys)) R'"
    using attempt_ok [OF assms] by blast
  then show ?case using Suc.IH [of "Suc t"] peeled_length [OF a(2)] by auto
qed simp

definition size_of :: "(nat \<Rightarrow> nat) \<Rightarrow> u64 list \<Rightarrow> bool" where
  "size_of sz keys \<longleftrightarrow> 0 < sz (length keys) \<and> 3 * sz (length keys) < 2 ^ 32 \<and> length keys < 2 ^ 64"

lemma xorfilter_init_ok:
  assumes "size_of sz keys"
  shows "\<exists>seed ks. xorfilter_init sz seeds keys = Some (seed, ks) \<and>
    (ks = [] \<or> peeled (of_nat (sz (length keys))) ks (rev (map (\<lambda>k. hashkey k seed) keys)) [])"
    and "sane_size (of_nat (sz (length keys)))" "unat (of_nat (sz (length keys)) :: u32) = sz (length keys)"
proof -
  show u: "unat (of_nat (sz (length keys)) :: u32) = sz (length keys)" using assms by (simp add: size_of_def unat_of_nat)
  have nz: "(of_nat (sz (length keys)) :: u32) \<noteq> 0" using u assms unfolding size_of_def by (metis less_irrefl unat_0)
  show s: "sane_size (of_nat (sz (length keys)))"
    unfolding sane_size_def u using nz assms by (simp add: size_of_def)
  show "\<exists>seed ks. xorfilter_init sz seeds keys = Some (seed, ks) \<and>
    (ks = [] \<or> peeled (of_nat (sz (length keys))) ks (rev (map (\<lambda>k. hashkey k seed) keys)) [])"
    using init_loop_ok [OF s, of keys seeds max_attempts 0] assms by (simp add: xorfilter_init_def Let_def u size_of_def)
qed

lemma fill_contains:
  fixes fp :: "u64 \<Rightarrow> 'w::len word"
  assumes "sane_size m" "unat m \<le> length keys" "peeled m ks (rev (map (\<lambda>k. hashkey k seed) keys)) []"
  shows "\<exists>b. fill_fp fp m (rev ks) (replicate (length ks * 3) 0) = Some b \<and>
    (\<forall>k\<in>set keys. Option.bind (hash3 (hashkey k seed) m) (fp_match fp b (hashkey k seed)) = Some True)"
proof -
  have "length ks = length keys" using peeled_length [OF assms(3)] by simp
  then have l: "3 * unat m \<le> length (replicate (length ks * 3) (0 :: 'w word))" using assms(2) by simp
  obtain b where b: "fill_fp fp m (rev ks) (replicate (length ks * 3) 0) = Some b" "length b = length ks * 3"
    "\<forall>h\<in>set (rev (map (\<lambda>k. hashkey k seed) keys)). xor3 b (slots3 m h) = fp h"
    using fill_fp_ok [OF assms(1) l assms(3), of fp] by auto
  have "Option.bind (hash3 (hashkey k seed) m) (fp_match fp b (hashkey k seed)) = Some True" if "k \<in> set keys" for k
  proof -
    obtain z where z: "hash3 (hashkey k seed) m = Some z" using hash3_slots [OF assms(1)] by metis
    show ?thesis using fp_match_xor3 [OF assms(1) z, of b fp] b l that z by simp
  qed
  then show ?thesis using b(1) by blast
qed

text \<open>
  C13: An Xor filter has no false negatives: when the third of the table is no larger than the number of keys (from about 19
  keys on), both constructors return, either the null pointer or a filter that contains every key; the peeling loop
  always ends, and neither construction nor lookup leaves the fingerprint array.
\<close>

theorem Xorfilter_no_false_negatives:
  assumes "size_of sz keys" "sz (length keys) \<le> length keys"
  shows "(\<exists>r. Xorfilter_new8 sz seeds keys = Some r \<and> (\<forall>x. r = Some x \<longrightarrow> (\<forall>k\<in>set keys. Xorfilter_contains x k = Some True))) \<and>
    (\<exists>r. Xorfilter_new16 sz seeds keys = Some r \<and> (\<forall>x. r = Some x \<longrightarrow> (\<forall>k\<in>set keys. Xorfilter_contains x k = Some True)))"
proof -
  define m where "m = (of_nat (sz (length keys)) :: u32)"
  obtain seed ks where ks: "xorfilter_init sz seeds keys = Some (seed, ks)"
    "ks = [] \<or> peeled m ks (rev (map (\<lambda>k. hashkey k seed) keys)) []"
    using xorfilter_init_ok(1) [OF assms(1), of seeds] unfolding m_def by blast
  have m: "sane_size m" "unat m \<le> length keys" using xorfilter_init_ok(2,3) [OF assms(1)] assms(2) by (simp_all add: m_def)
  have 8: "\<exists>r. Xorfilter_new8 sz seeds keys = Some r \<and> (\<forall>x. r = Some x \<longrightarrow> (\<forall>k\<in>set keys. Xorfilter_contains x k = Some True))"
    using fill_contains [OF m, of ks seed xfp8] ks by (cases "ks = []") (auto simp: Xorfilter_new8_def m_def Xorfilter_contains_def Let_def)
  have 16: "\<exists>r. Xorfilter_new16 sz seeds keys = Some r \<and> (\<forall>x. r = Some x \<longrightarrow> (\<forall>k\<in>set keys. Xorfilter_contains x k = Some True))"
    using fill_contains [OF m, of ks seed xfp16] ks by (cases "ks = []") (auto simp: Xorfilter_new16_def m_def Xorfilter_contains_def Let_def)
  show ?thesis using 8 16 by blast
qed

declare peel.simps [code]

lemma init_first:
  assumes "attempt msz keys cap (seeds 0) = Some ks" "length ks = length keys"
  shows "init_loop seeds msz keys cap max_attempts 0 = Some (seeds 0, ks)"
proof -
  obtain n where n: "max_attempts = Suc n" by (cases max_attempts) (simp_all add: max_attempts_def)
  show ?thesis unfolding n using assms by simp
qed

lemma demo_attempt: "\<exists>e. attempt 1 [5] 3 7 = Some [e]"
proof -
  have "(case attempt 1 [5] 3 7 of None \<Rightarrow> False | Some ks \<Rightarrow> length ks = 1)" by code_simp
  then show ?thesis by (auto split: option.splits simp: length_Suc_conv)
qed

theorem Xorfilter_no_false_negatives_witness:
  "\<exists>x. Xorfilter_new8 (\<lambda>n. 1) (\<lambda>t. 7) [5] = Some (Some x) \<and> Xorfilter_contains x 5 = Some True"
proof -
  have ok: "size_of (\<lambda>n. 1) [5]" by (simp add: size_of_def)
  obtain r where r: "Xorfilter_new8 (\<lambda>n. 1) (\<lambda>t. 7) [5] = Some r" "\<forall>x. r = Some x \<longrightarrow> Xorfilter_contains x 5 = Some True"
    using Xorfilter_no_false_negatives [OF ok, of "\<lambda>t. 7"] by auto
  obtain e where e: "attempt 1 [5] 3 7 = Some [e]" using demo_attempt by blast
  then have "xorfilter_init (\<lambda>n. 1) (\<lambda>t. 7) [5] = Some (7, [e])" by (simp add: xorfilter_init_def init_first)
  then have "r \<noteq> None" using r(1) by (auto simp: Xorfilter_new8_def bind_eq_Some_conv)
  then show ?thesis using r by auto
qed

text \<open>
  A key that occurs twice defeats the construction: every attempt leaves both copies unpeeled, and after a million
  attempts the constructors return the null pointer.
\<close>

theorem Xorfilter_rejects_duplicates:
  assumes "size_of sz keys" "\<not> distinct keys"
  shows "Xorfilter_new8 sz seeds keys = Some None \<and> Xorfilter_new16 sz seeds keys = Some None"
proof -
  define m where "m = (of_nat (sz (length keys)) :: u32)"
  obtain seed ks where ks: "xorfilter_init sz seeds keys = Some (seed, ks)"
    "ks = [] \<or> peeled m ks (rev (map (\<lambda>k. hashkey k seed) keys)) []"
    using xorfilter_init_ok(1) [OF assms(1), of seeds] unfolding m_def by blast
  obtain k xs ys zs where k: "keys = xs @ [k] @ ys @ [k] @ zs" using assms(2) not_distinct_decomp by blast
  have "slots3 m (hashkey k seed) \<noteq> []"
    using slots3_facts [of m "hashkey k seed"] xorfilter_init_ok(2) [OF assms(1)] by (auto simp: m_def)
  moreover have "2 \<le> count_list (rev (map (\<lambda>k. hashkey k seed) keys)) (hashkey k seed)" by (simp add: k)
  ultimately have "ks = []" using peeled_duplicate [of m ks _ "[]"] ks(2) by fastforce
  then show ?thesis using ks(1) by (simp add: Xorfilter_new8_def Xorfilter_new16_def)
qed

theorem Xorfilter_rejects_duplicates_witness: "Xorfilter_new8 (\<lambda>n. 11) (\<lambda>t. of_nat t) [3, 4, 3] = Some None"
  using Xorfilter_rejects_duplicates [of "\<lambda>n. 11" "[3, 4, 3]" "\<lambda>t. of_nat t"] by (simp add: size_of_def)

lemma fill_beyond: "hash3 (ki_hash e) m = Some z \<Longrightarrow> length b \<le> unat (fp_k z) \<Longrightarrow> fill_fp fp m (e # rest) b = None"
  by (simp add: bind_eq_None_conv)

text \<open>
  The fingerprint array is allocated with three entries per key instead of three per table third: for one to six keys,
  where \<open>xorfilter_calc_size\<close> gives at least 10, every successful peeling is followed by an access beyond the array.
\<close>

theorem Xorfilter_small_sets_overflow:
  assumes "size_of sz keys" "10 \<le> sz (length keys)" "length keys \<le> 6" "xorfilter_init sz seeds keys = Some (seed, ks)" "ks \<noteq> []"
  shows "Xorfilter_new8 sz seeds keys = None \<and> Xorfilter_new16 sz seeds keys = None"
proof -
  define m where "m = (of_nat (sz (length keys)) :: u32)"
  have p: "peeled m ks (rev (map (\<lambda>k. hashkey k seed) keys)) []"
    using xorfilter_init_ok(1) [OF assms(1), of seeds] assms(4,5) unfolding m_def by auto
  have m: "sane_size m" "10 \<le> unat m" using xorfilter_init_ok(2,3) [OF assms(1)] assms(2) by (simp_all add: m_def)
  have l: "length ks \<le> 6" using peeled_length [OF p] assms(3) by simp
  obtain e rest where e: "rev ks = e # rest" using assms(5) by (cases "rev ks") auto
  obtain z where z: "hash3 (ki_hash e) m = Some z" "2 * unat m \<le> unat (fp_k z)" using hash3_slots [OF m(1)] by metis
  have "length ks * 3 \<le> unat (fp_k z)" using z(2) m(2) l by simp
  then have "fill_fp xfp8 m (rev ks) (replicate (length ks * 3) 0) = None" "fill_fp xfp16 m (rev ks) (replicate (length ks * 3) 0) = None"
    unfolding e by (intro fill_beyond [OF z(1)]; simp)+
  then show ?thesis using assms(4,5) by (simp add: Xorfilter_new8_def Xorfilter_new16_def m_def Let_def)
qed

theorem Xorfilter_small_sets_overflow_witness: "Xorfilter_new8 (\<lambda>n. 11) (\<lambda>t. 7) [5] = None"
proof -
  have ok: "size_of (\<lambda>n. 11) [5]" by (simp add: size_of_def)
  have "(case attempt 11 [5] 33 7 of None \<Rightarrow> False | Some ks \<Rightarrow> length ks = 1)" by code_simp
  then obtain e where e: "attempt 11 [5] 33 7 = Some [e]" by (auto split: option.splits simp: length_Suc_conv)
  then have "xorfilter_init (\<lambda>n. 11) (\<lambda>t. 7) [5] = Some (7, [e])" by (simp add: xorfilter_init_def init_first)
  then show ?thesis using Xorfilter_small_sets_overflow [OF ok] by simp
qed

end
