(* ===== verification/Mpmc.thy ===== *)
theory Mpmc
  imports Bits
begin

text \<open>
  The multi-producer, multi-consumer queue of \<open>inc/fast/mpmc_bounded_queue.h\<close>. Any number of threads run the macros; one step
  of a thread is one atomic access to the shared memory (a load, a store, a compare-and-exchange or a fetch-and-add), or
  the plain access to a slot's data, and the steps of different threads interleave freely (sequential consistency). The
  control points of a macro are the constructors of \<open>pc\<close>; the local variables of the macro are their arguments.
\<close>

record 'a mslot =
  turn :: u64
  sdata :: 'a

record 'a mpmc_q =
  q_head :: u64
  q_tail :: u64
  q_sz :: u64
  q_mask :: u64
  q_slot :: "'a mslot list"

datatype 'a pc =
    Idle
  | Enq_load 'a | Enq_try 'a u64 | Enq_cas 'a u64 | Enq_reload 'a u64
  | Enq_write 'a u64 | Enq_publish u64 | Enq_done bool
  | Enqw_claim 'a | Enqw_spin 'a u64
  | Deq_load | Deq_try u64 | Deq_cas u64 | Deq_reload u64
  | Deq_read u64 | Deq_release u64 'a | Deq_done "'a option"
  | Deqw_claim | Deqw_spin u64

definition mpmc_q_idx :: "'a mpmc_q \<Rightarrow> u64 \<Rightarrow> nat" where
  "mpmc_q_idx q v = unat (v AND q_mask q)"

definition mpmc_q_turn :: "'a mpmc_q \<Rightarrow> u64 \<Rightarrow> u64" where
  "mpmc_q_turn q v = v div q_sz q"

definition enq_turn :: "'a mpmc_q \<Rightarrow> u64 \<Rightarrow> u64" where
  "enq_turn q h = mpmc_q_turn q h * 2"

definition deq_turn :: "'a mpmc_q \<Rightarrow> u64 \<Rightarrow> u64" where
  "deq_turn q t = 1 + mpmc_q_turn q t * 2"

definition set_turn :: "'a mpmc_q \<Rightarrow> nat \<Rightarrow> u64 \<Rightarrow> 'a mpmc_q option" where
  "set_turn q i v = do { s \<leftarrow> get_at (q_slot q) i; ss \<leftarrow> put_at (q_slot q) i (s\<lparr>turn := v\<rparr>); Some (q\<lparr>q_slot := ss\<rparr>) }"

definition set_sdata :: "'a mpmc_q \<Rightarrow> nat \<Rightarrow> 'a \<Rightarrow> 'a mpmc_q option" where
  "set_sdata q i v = do { s \<leftarrow> get_at (q_slot q) i; ss \<leftarrow> put_at (q_slot q) i (s\<lparr>sdata := v\<rparr>); Some (q\<lparr>q_slot := ss\<rparr>) }"

definition mpmc_q_init :: "'a mpmc_q \<Rightarrow> u64 \<Rightarrow> 'a mpmc_q option" where
  "mpmc_q_init q sz = (if sz AND (sz - 1) = 0 then Some (q\<lparr>q_sz := sz, q_mask := sz - 1\<rparr>) else None)"

definition mpmc_q_reset :: "'a mpmc_q \<Rightarrow> 'a mpmc_q" where
  "mpmc_q_reset q = q\<lparr>q_head := 0, q_tail := 0\<rparr>"

text \<open>\<open>__alloc\<close> returns zeroed memory: \<open>zero\<close> is the all-zero element.\<close>

definition MPMC_QUEUE_NEW :: "'a \<Rightarrow> u64 \<Rightarrow> 'a mpmc_q option" where
  "MPMC_QUEUE_NEW zero sz =
    (let n = NEXTPOW2 sz in
     mpmc_q_init \<lparr>q_head = 0, q_tail = 0, q_sz = 0, q_mask = 0, q_slot = replicate (unat n) \<lparr>turn = 0, sdata = zero\<rparr>\<rparr> n)"

text \<open>\<open>MPMC_QUEUE_ENQ\<close> and the second half of \<open>MPMC_QUEUE_ENQ_WAIT\<close>.\<close>

fun enq_step :: "'a pc \<Rightarrow> 'a mpmc_q \<Rightarrow> ('a pc \<times> 'a mpmc_q) option" where
  "enq_step (Enq_load e) q = Some (Enq_try e (q_head q), q)"
| "enq_step (Enq_try e h) q =
    do { s \<leftarrow> get_at (q_slot q) (mpmc_q_idx q h);
         Some (if turn s = enq_turn q h then Enq_cas e h else Enq_reload e h, q) }"
| "enq_step (Enq_cas e h) q =
    Some (if q_head q = h then (Enq_write e h, q\<lparr>q_head := h + 1\<rparr>) else (Enq_try e (q_head q), q))"
| "enq_step (Enq_reload e prev) q =
    Some (if q_head q = prev then Enq_done False else Enq_try e (q_head q), q)"
| "enq_step (Enq_write e h) q = do { q \<leftarrow> set_sdata q (mpmc_q_idx q h) e; Some (Enq_publish h, q) }"
| "enq_step (Enq_publish h) q =
    do { q \<leftarrow> set_turn q (mpmc_q_idx q h) (enq_turn q h + 1); Some (Enq_done True, q) }"
| "enq_step (Enqw_claim e) q = Some (Enqw_spin e (q_head q), q\<lparr>q_head := q_head q + 1\<rparr>)"
| "enq_step (Enqw_spin e h) q =
    do { s \<leftarrow> get_at (q_slot q) (mpmc_q_idx q h);
         Some (if turn s = enq_turn q h then Enq_write e h else Enqw_spin e h, q) }"
| "enq_step p q = Some (p, q)"

fun deq_step :: "'a pc \<Rightarrow> 'a mpmc_q \<Rightarrow> ('a pc \<times> 'a mpmc_q) option" where
  "deq_step Deq_load q = Some (Deq_try (q_tail q), q)"
| "deq_step (Deq_try t) q =
    do { s \<leftarrow> get_at (q_slot q) (mpmc_q_idx q t);
         Some (if turn s = deq_turn q t then Deq_cas t else Deq_reload t, q) }"
| "deq_step (Deq_cas t) q =
    Some (if q_tail q = t then (Deq_read t, q\<lparr>q_tail := t + 1\<rparr>) else (Deq_try (q_tail q), q))"
| "deq_step (Deq_reload prev) q =
    Some (if q_tail q = prev then Deq_done None else Deq_try (q_tail q), q)"
| "deq_step (Deq_read t) q = do { s \<leftarrow> get_at (q_slot q) (mpmc_q_idx q t); Some (Deq_release t (sdata s), q) }"
| "deq_step (Deq_release t v) q =
    do { q \<leftarrow> set_turn q (mpmc_q_idx q t) (deq_turn q t + 1); Some (Deq_done (Some v), q) }"
| "deq_step Deqw_claim q = Some (Deqw_spin (q_tail q), q\<lparr>q_tail := q_tail q + 1\<rparr>)"
| "deq_step (Deqw_spin t) q =
    do { s \<leftarrow> get_at (q_slot q) (mpmc_q_idx q t);
         Some (if turn s = deq_turn q t then Deq_read t else Deqw_spin t, q) }"
| "deq_step p q = Some (p, q)"

fun enqueuing :: "'a pc \<Rightarrow> bool" where
  "enqueuing (Enq_load e) \<longleftrightarrow> True"
| "enqueuing (Enq_try e h) \<longleftrightarrow> True"
| "enqueuing (Enq_cas e h) \<longleftrightarrow> True"
| "enqueuing (Enq_reload e h) \<longleftrightarrow> True"
| "enqueuing (Enq_write e h) \<longleftrightarrow> True"
| "enqueuing (Enq_publish h) \<longleftrightarrow> True"
| "enqueuing (Enqw_claim e) \<longleftrightarrow> True"
| "enqueuing (Enqw_spin e h) \<longleftrightarrow> True"
| "enqueuing p \<longleftrightarrow> False"

definition thread_step :: "'a pc \<Rightarrow> 'a mpmc_q \<Rightarrow> ('a pc \<times> 'a mpmc_q) option" where
  "thread_step p q = (if enqueuing p then enq_step p q else deq_step p q)"

definition mpmc_q_len :: "'a mpmc_q \<Rightarrow> u64" where
  "mpmc_q_len q =
    (let h = q_head q; t = q_tail q in
     if h < t then (NOT 0 - t) + h else h - t)"

definition mpmc_q_full_p :: "'a mpmc_q \<Rightarrow> bool" where
  "mpmc_q_full_p q \<longleftrightarrow> mpmc_q_len q = q_sz q"

definition mpmc_q_empty_p :: "'a mpmc_q \<Rightarrow> bool" where
  "mpmc_q_empty_p q \<longleftrightarrow> mpmc_q_len q = 0"

section \<open>Tickets\<close>

text \<open>
  A successful compare-and-exchange or a fetch-and-add on \<open>head\<close> (\<open>tail\<close>) hands its thread a ticket, the old value. Ticket \<open>t\<close>
  belongs to slot \<open>t mod n\<close> in lap \<open>t div n\<close>; a slot's turn is twice the lap while it is free for that lap's enqueuer,
  and one more while it holds that lap's element.
\<close>

fun enq_ticket :: "'a pc \<Rightarrow> nat option" where
  "enq_ticket (Enqw_spin e h) = Some (unat h)"
| "enq_ticket (Enq_write e h) = Some (unat h)"
| "enq_ticket (Enq_publish h) = Some (unat h)"
| "enq_ticket p = None"

fun deq_ticket :: "'a pc \<Rightarrow> nat option" where
  "deq_ticket (Deqw_spin t) = Some (unat t)"
| "deq_ticket (Deq_read t) = Some (unat t)"
| "deq_ticket (Deq_release t v) = Some (unat t)"
| "deq_ticket p = None"

text \<open>What a thread at \<open>p\<close> may rely on, with \<open>H\<close> and \<open>L\<close> the values of head and tail, \<open>T\<close> and \<open>D\<close> the turns and data of the
  slots, \<open>pt\<close> the values of the enqueue tickets and \<open>gt\<close> those the dequeue tickets delivered.\<close>

fun thr_ok :: "nat \<Rightarrow> nat \<Rightarrow> nat \<Rightarrow> (nat \<Rightarrow> nat) \<Rightarrow> (nat \<Rightarrow> 'a) \<Rightarrow> (nat \<rightharpoonup> 'a) \<Rightarrow> (nat \<rightharpoonup> 'a) \<Rightarrow> 'a pc \<Rightarrow> bool" where
  "thr_ok n H L T D pt gt (Enq_try e h) \<longleftrightarrow> unat h \<le> H"
| "thr_ok n H L T D pt gt (Enq_reload e h) \<longleftrightarrow> unat h \<le> H"
| "thr_ok n H L T D pt gt (Enq_cas e h) \<longleftrightarrow> unat h \<le> H \<and> (unat h = H \<longrightarrow> T (unat h mod n) = 2 * (unat h div n))"
| "thr_ok n H L T D pt gt (Enqw_spin e h) \<longleftrightarrow> unat h < H \<and> T (unat h mod n) \<le> 2 * (unat h div n) \<and> pt (unat h) = Some e"
| "thr_ok n H L T D pt gt (Enq_write e h) \<longleftrightarrow> unat h < H \<and> T (unat h mod n) = 2 * (unat h div n) \<and> pt (unat h) = Some e"
| "thr_ok n H L T D pt gt (Enq_publish h) \<longleftrightarrow>
     unat h < H \<and> T (unat h mod n) = 2 * (unat h div n) \<and> pt (unat h) = Some (D (unat h mod n))"
| "thr_ok n H L T D pt gt (Deq_try t) \<longleftrightarrow> unat t \<le> L"
| "thr_ok n H L T D pt gt (Deq_reload t) \<longleftrightarrow> unat t \<le> L"
| "thr_ok n H L T D pt gt (Deq_cas t) \<longleftrightarrow> unat t \<le> L \<and> (unat t = L \<longrightarrow> T (unat t mod n) = 2 * (unat t div n) + 1)"
| "thr_ok n H L T D pt gt (Deqw_spin t) \<longleftrightarrow> unat t < L \<and> T (unat t mod n) \<le> 2 * (unat t div n) + 1 \<and> gt (unat t) = None"
| "thr_ok n H L T D pt gt (Deq_read t) \<longleftrightarrow> unat t < L \<and> T (unat t mod n) = 2 * (unat t div n) + 1 \<and> gt (unat t) = None"
| "thr_ok n H L T D pt gt (Deq_release t v) \<longleftrightarrow> unat t < L \<and> T (unat t mod n) = 2 * (unat t div n) + 1 \<and> gt (unat t) = Some v"
| "thr_ok n H L T D pt gt p \<longleftrightarrow> True"

definition uniq :: "('a pc \<Rightarrow> nat option) \<Rightarrow> ('t \<Rightarrow> 'a pc) \<Rightarrow> bool" where
  "uniq k P \<longleftrightarrow> (\<forall>a b t. k (P a) = Some t \<longrightarrow> k (P b) = Some t \<longrightarrow> a = b)"

definition turns_ok :: "nat \<Rightarrow> nat \<Rightarrow> nat \<Rightarrow> (nat \<Rightarrow> nat) \<Rightarrow> bool" where
  "turns_ok n H L T \<longleftrightarrow> (\<forall>i<n. \<forall>k. (2 * k + 1 \<le> T i \<longrightarrow> k * n + i < H) \<and> (2 * k + 2 \<le> T i \<longrightarrow> k * n + i < L))"

text \<open>Every ticket is held by a thread or its work is done.\<close>

definition settled :: "nat \<Rightarrow> nat \<Rightarrow> nat \<Rightarrow> (nat \<Rightarrow> nat) \<Rightarrow> ('a pc \<Rightarrow> nat option) \<Rightarrow> ('t \<Rightarrow> 'a pc) \<Rightarrow> bool" where
  "settled n c H T k P \<longleftrightarrow> (\<forall>t<H. (\<exists>a. k (P a) = Some t) \<or> 2 * (t div n) + c \<le> T (t mod n))"

definition mp_inv ::
  "nat \<Rightarrow> nat \<Rightarrow> nat \<Rightarrow> (nat \<Rightarrow> nat) \<Rightarrow> (nat \<Rightarrow> 'a) \<Rightarrow> (nat \<rightharpoonup> 'a) \<Rightarrow> (nat \<rightharpoonup> 'a) \<Rightarrow> ('t \<Rightarrow> 'a pc) \<Rightarrow> bool" where
  "mp_inv n H L T D pt gt P \<longleftrightarrow> 0 < n \<and> turns_ok n H L T \<and> (\<forall>a. thr_ok n H L T D pt gt (P a)) \<and>
     uniq enq_ticket P \<and> uniq deq_ticket P \<and>
     settled n 1 H T enq_ticket P \<and> settled n 2 L T deq_ticket P \<and>
     (\<forall>i<n. \<forall>k. T i = 2 * k + 1 \<longrightarrow> pt (k * n + i) = Some (D i)) \<and>
     dom pt = {..<H} \<and> dom gt \<subseteq> {..<L} \<and> (\<forall>t v. gt t = Some v \<longrightarrow> pt t = Some v)"

lemma ticket_eqI: "t mod n = u mod n \<Longrightarrow> t div n = u div n \<Longrightarrow> t = (u :: nat)"
  by (metis div_mult_mod_eq)

lemma turns_okD:
  assumes "turns_ok n H L T" "0 < n"
  shows "2 * (t div n) + 1 \<le> T (t mod n) \<Longrightarrow> t < H" "2 * (t div n) + 2 \<le> T (t mod n) \<Longrightarrow> t < L"
  using assms unfolding turns_ok_def by (metis div_mult_mod_eq mod_less_divisor)+

lemma uniq_same:
  assumes "uniq k P" "k p = k (P x) \<or> k p = None"
  shows "uniq k (P(x := p))"
  using assms unfolding uniq_def by (auto split: if_splits) metis+

lemma uniq_new:
  assumes "uniq k P" "\<forall>a. k (P a) \<noteq> Some t" "k p = Some t"
  shows "uniq k (P(x := p))"
  using assms unfolding uniq_def by (auto split: if_splits)

lemma settled_keep:
  assumes "settled n c H T k P" "\<forall>i<n. T i \<le> T' i" "0 < n"
    "\<And>t. k (P x) = Some t \<Longrightarrow> k p = Some t \<or> 2 * (t div n) + c \<le> T' (t mod n)"
  shows "settled n c H T' k (P(x := p))"
  unfolding settled_def
proof (intro allI impI)
  fix t assume "t < H"
  then consider a where "k (P a) = Some t" | "2 * (t div n) + c \<le> T (t mod n)" using assms(1) by (auto simp: settled_def)
  then show "(\<exists>a. k ((P(x := p)) a) = Some t) \<or> 2 * (t div n) + c \<le> T' (t mod n)"
  proof cases
    case (1 a)
    then show ?thesis using assms(4) by (cases "a = x") (metis fun_upd_same, metis fun_upd_other)
  next
    case 2
    then show ?thesis using assms(2,3) by (metis mod_less_divisor order_trans)
  qed
qed

lemma settled_new:
  assumes "settled n c H T k P" "k (P x) = None" "k p = Some H"
  shows "settled n c (Suc H) T k (P(x := p))"
  unfolding settled_def
proof (intro allI impI)
  fix t assume "t < Suc H"
  show "(\<exists>a. k ((P(x := p)) a) = Some t) \<or> 2 * (t div n) + c \<le> T (t mod n)"
  proof (cases "t = H")
    case True
    then show ?thesis using assms(3) by (metis fun_upd_same)
  next
    case False
    then have "t < H" using \<open>t < Suc H\<close> by simp
    then consider a where "k (P a) = Some t" | "2 * (t div n) + c \<le> T (t mod n)" using assms(1) by (auto simp: settled_def)
    then show ?thesis
    proof cases
      case (1 a)
      then have "a \<noteq> x" using assms(2) by auto
      then show ?thesis using 1 by (metis fun_upd_other)
    qed simp
  qed
qed

section \<open>Transitions\<close>

text \<open>A step that changes only the thread's own state and keeps its tickets.\<close>

lemma inv_local:
  assumes "mp_inv n H L T D pt gt P" "thr_ok n H L T D pt gt p"
    "enq_ticket p = enq_ticket (P x)" "deq_ticket p = deq_ticket (P x)"
  shows "mp_inv n H L T D pt gt (P(x := p))"
proof -
  have "settled n 1 H T enq_ticket (P(x := p))" "settled n 2 L T deq_ticket (P(x := p))"
    using assms by (auto simp: mp_inv_def intro!: settled_keep [where T = T and T' = T])
  then show ?thesis using assms by (auto simp: mp_inv_def intro!: uniq_same)
qed

lemma thr_ok_claim_enq: "thr_ok n H L T D pt gt p \<Longrightarrow> thr_ok n (Suc H) L T D (pt(H \<mapsto> e)) gt p"
  by (cases "(n, H, L, T, D, pt, gt, p)" rule: thr_ok.cases) auto

lemma inv_claim_enq:
  assumes inv: "mp_inv n H L T D pt gt P" and P: "enq_ticket (P x) = None" "deq_ticket (P x) = None"
    and p: "p = Enqw_spin e h \<or> p = Enq_write e h \<and> T (unat h mod n) = 2 * (unat h div n)" and h: "unat h = H"
  shows "mp_inv n (Suc H) L T D (pt(H \<mapsto> e)) gt (P(x := p))"
proof -
  have i: "0 < n" "turns_ok n H L T" "\<forall>a. thr_ok n H L T D pt gt (P a)" "dom pt = {..<H}" using inv by (auto simp: mp_inv_def)
  have T: "T (H mod n) \<le> 2 * (H div n)" using turns_okD(1) [OF i(2,1), of H] by (metis add.commute less_irrefl not_less_eq_eq plus_1_eq_Suc)
  have tk: "enq_ticket p = Some H" "deq_ticket p = None" using p h by auto
  have new: "\<forall>a. enq_ticket (P a) \<noteq> Some H"
  proof
    fix a show "enq_ticket (P a) \<noteq> Some H"
      using i(3) by (cases "P a") (auto dest: spec [of _ a])
  qed
  have "thr_ok n (Suc H) L T D (pt(H \<mapsto> e)) gt p" using p h T by auto
  moreover have "turns_ok n (Suc H) L T" using i(2) by (auto simp: turns_ok_def less_Suc_eq)
  moreover have "pt t = None" if "\<not> t < H" for t using i(4) that by (metis domIff lessThan_iff)
  moreover have "settled n 1 (Suc H) T enq_ticket (P(x := p))" "settled n 2 L T deq_ticket (P(x := p))"
    using inv tk P by (auto simp: mp_inv_def intro!: settled_keep [where T = T and T' = T] settled_new)
  moreover have "uniq enq_ticket (P(x := p))" "uniq deq_ticket (P(x := p))"
    using inv tk P uniq_new [OF _ new tk(1)] by (auto simp: mp_inv_def intro!: uniq_same)
  moreover have "pt t = Some v \<Longrightarrow> t \<noteq> H" for t v using i(4) by (metis domI lessThan_iff less_irrefl)
  ultimately show ?thesis
    using inv thr_ok_claim_enq [of n H L T D pt gt _ e] unfolding mp_inv_def by (auto simp: less_Suc_eq)
qed

lemma mp_invD:
  assumes "mp_inv n H L T D pt gt P"
  shows "0 < n" "turns_ok n H L T" "thr_ok n H L T D pt gt (P a)" "uniq enq_ticket P" "uniq deq_ticket P"
    "settled n 1 H T enq_ticket P" "settled n 2 L T deq_ticket P" "i < n \<Longrightarrow> T i = 2 * k + 1 \<Longrightarrow> pt (k * n + i) = Some (D i)"
    "dom pt = {..<H}" "dom gt \<subseteq> {..<L}" "gt t = Some v \<Longrightarrow> pt t = Some v"
  using assms by (auto simp: mp_inv_def)

lemma mp_invI:
  assumes "0 < n" "turns_ok n H L T" "\<And>a. thr_ok n H L T D pt gt (P a)" "uniq enq_ticket P" "uniq deq_ticket P"
    "settled n 1 H T enq_ticket P" "settled n 2 L T deq_ticket P" "\<And>i k. i < n \<Longrightarrow> T i = 2 * k + 1 \<Longrightarrow> pt (k * n + i) = Some (D i)"
    "dom pt = {..<H}" "dom gt \<subseteq> {..<L}" "\<And>t v. gt t = Some v \<Longrightarrow> pt t = Some v"
  shows "mp_inv n H L T D pt gt P"
  using assms by (simp add: mp_inv_def)

lemma double_le [simp]: "Suc (2 * a) \<le> 2 * b \<longleftrightarrow> a < (b :: nat)" "Suc (Suc (2 * a)) \<le> 2 * b \<longleftrightarrow> a < b"
  by arith+

lemma uniqD: "uniq k P \<Longrightarrow> k (P a) = Some t \<Longrightarrow> k (P b) = Some t \<Longrightarrow> a = b"
  by (auto simp: uniq_def)

lemma inv_claim_deq:
  assumes inv: "mp_inv n H L T D pt gt P" and P: "enq_ticket (P x) = None" "deq_ticket (P x) = None"
    and p: "p = Deqw_spin t \<or> p = Deq_read t \<and> T (unat t mod n) = 2 * (unat t div n) + 1" and t: "unat t = L"
  shows "mp_inv n H (Suc L) T D pt gt (P(x := p))"
proof -
  note i = mp_invD [OF inv]
  have T: "T (L mod n) \<le> 2 * (L div n) + 1" using turns_okD(2) [OF i(2,1), of L] by fastforce
  have tk: "enq_ticket p = None" "deq_ticket p = Some L" using p t by auto
  have new: "\<forall>a. deq_ticket (P a) \<noteq> Some L"
  proof
    fix a show "deq_ticket (P a) \<noteq> Some L" using i(3) [of a] by (cases "P a") auto
  qed
  have gL: "gt L = None" using i(10) by (metis domIff lessThan_iff less_irrefl subsetD)
  show ?thesis
  proof (rule mp_invI)
    show "turns_ok n H (Suc L) T" using i(2) by (auto simp: turns_ok_def less_Suc_eq)
    have "thr_ok n H (Suc L) T D pt gt (P a)" for a
      using i(3) [of a] by (cases "(n, H, L, T, D, pt, gt, P a)" rule: thr_ok.cases) auto
    then show "thr_ok n H (Suc L) T D pt gt ((P(x := p)) a)" for a using p t T gL by auto
    show "settled n 1 H T enq_ticket (P(x := p))" using i P tk by (auto intro!: settled_keep [where T = T and T' = T])
    show "settled n 2 (Suc L) T deq_ticket (P(x := p))" using i(7) P(2) tk(2) by (rule settled_new)
    show "uniq enq_ticket (P(x := p))" using i(4) tk(1) by (auto intro: uniq_same)
    show "uniq deq_ticket (P(x := p))" using uniq_new [OF i(5) new tk(2)] .
  qed (use i in auto)
qed

text \<open>The thread that holds a slot: no other thread is at work in it.\<close>

lemma owner_enq:
  assumes "mp_inv n H L T D pt gt P" "enq_ticket (P x) = Some t" "T (t mod n) = 2 * (t div n)" "a \<noteq> x"
  shows "P a = Enq_write e h \<or> P a = Enq_publish h \<Longrightarrow> unat h mod n \<noteq> t mod n"
    "P a = Deq_read u \<or> P a = Deq_release u v \<Longrightarrow> unat u mod n \<noteq> t mod n"
proof -
  note i = mp_invD [OF assms(1)]
  show "P a = Enq_write e h \<or> P a = Enq_publish h \<Longrightarrow> unat h mod n \<noteq> t mod n"
    using i(3) [of a] uniqD [OF i(4), of a t x] assms(2-4) ticket_eqI [of "unat h" n t] by auto
  show "P a = Deq_read u \<or> P a = Deq_release u v \<Longrightarrow> unat u mod n \<noteq> t mod n"
    using i(3) [of a] assms(3) by (auto simp: Suc_double_not_eq_double double_not_eq_Suc_double)
qed

lemma owner_deq:
  assumes "mp_inv n H L T D pt gt P" "deq_ticket (P x) = Some t" "T (t mod n) = 2 * (t div n) + 1" "a \<noteq> x"
  shows "P a = Enq_write e h \<or> P a = Enq_publish h \<Longrightarrow> unat h mod n \<noteq> t mod n"
    "P a = Deq_read u \<or> P a = Deq_release u v \<Longrightarrow> unat u mod n \<noteq> t mod n"
proof -
  note i = mp_invD [OF assms(1)]
  show "P a = Deq_read u \<or> P a = Deq_release u v \<Longrightarrow> unat u mod n \<noteq> t mod n"
    using i(3) [of a] uniqD [OF i(5), of a t x] assms(2-4) ticket_eqI [of "unat u" n t] by auto
  show "P a = Enq_write e h \<or> P a = Enq_publish h \<Longrightarrow> unat h mod n \<noteq> t mod n"
    using i(3) [of a] assms(3) by (auto simp: Suc_double_not_eq_double double_not_eq_Suc_double)
qed

lemma inv_write:
  assumes inv: "mp_inv n H L T D pt gt P" and P: "P x = Enq_write e h"
  shows "mp_inv n H L T (D(unat h mod n := e)) pt gt (P(x := Enq_publish h))"
proof -
  note i = mp_invD [OF inv]
  have x: "unat h < H" "T (unat h mod n) = 2 * (unat h div n)" "pt (unat h) = Some e" using i(3) [of x] P by auto
  have tk: "enq_ticket (P x) = Some (unat h)" "deq_ticket (P x) = None" using P by auto
  have other: "thr_ok n H L T (D(unat h mod n := e)) pt gt (P a)" if "a \<noteq> x" for a
    using i(3) [of a] owner_enq(1) [OF inv tk(1) x(2) that]
    by (cases "(n, H, L, T, D, pt, gt, P a)" rule: thr_ok.cases) auto
  show ?thesis
  proof (rule mp_invI)
    show "thr_ok n H L T (D(unat h mod n := e)) pt gt ((P(x := Enq_publish h)) a)" for a using other x by auto
    show "settled n 1 H T enq_ticket (P(x := Enq_publish h))" "settled n 2 L T deq_ticket (P(x := Enq_publish h))"
      using i tk by (auto intro!: settled_keep [where T = T and T' = T])
    show "uniq enq_ticket (P(x := Enq_publish h))" "uniq deq_ticket (P(x := Enq_publish h))"
      using i(4,5) tk by (auto intro!: uniq_same)
    fix j k assume j: "j < n" "T j = 2 * k + 1"
    then have "j \<noteq> unat h mod n" using x(2) by (metis double_not_eq_Suc_double Suc_eq_plus1)
    then show "pt (k * n + j) = Some ((D(unat h mod n := e)) j)" using i(8) [OF j] by simp
  qed (use i in auto)
qed

lemma inv_publish:
  assumes inv: "mp_inv n H L T D pt gt P" and P: "P x = Enq_publish h"
  defines "T' \<equiv> T(unat h mod n := 2 * (unat h div n) + 1)"
  shows "mp_inv n H L T' D pt gt (P(x := Enq_done True))"
proof -
  note i = mp_invD [OF inv]
  define t where "t = unat h"
  have x: "t < H" "T (t mod n) = 2 * (t div n)" "pt t = Some (D (t mod n))" using i(3) [of x] P by (auto simp: t_def)
  have tk: "enq_ticket (P x) = Some t" "deq_ticket (P x) = None" using P by (auto simp: t_def)
  have T': "T' = T(t mod n := 2 * (t div n) + 1)" by (simp add: T'_def t_def)
  have later: "2 * (t div n) + 1 \<le> 2 * (u div n)" if "u mod n = t mod n" "T (t mod n) \<le> 2 * (u div n)" "u \<noteq> t" for u
    using that x(2) ticket_eqI [of u n t] by (cases "u div n = t div n") auto
  have other: "thr_ok n H L T' D pt gt (P a)" if "a \<noteq> x" for a
  proof (cases "P a")
    case (Enq_cas e g)
    then show ?thesis using i(3) [of a] later [of "unat g"] x(1,2) ticket_eqI [of "unat g" n t] by (auto simp: T')
  next
    case (Enqw_spin e g)
    moreover have "unat g \<noteq> t" using Enqw_spin tk(1) uniqD [OF i(4), of a t x] that by auto
    ultimately show ?thesis using i(3) [of a] later [of "unat g"] by (auto simp: T')
  next
    case (Deq_cas u)
    then show ?thesis using i(3) [of a] x(2) by (auto simp: T' Suc_double_not_eq_double double_not_eq_Suc_double)
  next
    case (Deqw_spin u)
    then show ?thesis using i(3) [of a] x(2) by (auto simp: T')
  qed (use i(3) [of a] owner_enq [OF inv tk(1) x(2) that] in \<open>auto simp: T'\<close>)
  show ?thesis
  proof (rule mp_invI)
    show "turns_ok n H L T'"
      unfolding turns_ok_def
    proof (intro allI impI)
      fix j k assume j: "j < n"
      show "(2 * k + 1 \<le> T' j \<longrightarrow> k * n + j < H) \<and> (2 * k + 2 \<le> T' j \<longrightarrow> k * n + j < L)"
      proof (cases "j = t mod n")
        case True
        have "k * n + j < H" if "k \<le> t div n"
        proof -
          have "k * n \<le> t div n * n" using that by simp
          then show ?thesis using True x(1) div_mult_mod_eq [of t n] by linarith
        qed
        moreover have "k * n + j < L" if "2 * k + 2 \<le> T j" using i(2) j that by (auto simp: turns_ok_def)
        ultimately show ?thesis using True x(2) by (auto simp: T')
      next
        case False
        then show ?thesis using i(2) j by (auto simp: T' turns_ok_def)
      qed
    qed
    show "thr_ok n H L T' D pt gt ((P(x := Enq_done True)) a)" for a using other by auto
    have mono: "\<forall>j<n. T j \<le> T' j" using x(2) by (auto simp: T')
    show "settled n 1 H T' enq_ticket (P(x := Enq_done True))"
      by (rule settled_keep [OF i(6) mono i(1)]) (use tk in \<open>auto simp: T'\<close>)
    show "settled n 2 L T' deq_ticket (P(x := Enq_done True))"
      by (rule settled_keep [OF i(7) mono i(1)]) (use tk in \<open>auto simp: T'\<close>)
    show "uniq enq_ticket (P(x := Enq_done True))" "uniq deq_ticket (P(x := Enq_done True))"
      using i(4,5) by (auto intro!: uniq_same)
    fix j k assume j: "j < n" "T' j = 2 * k + 1"
    show "pt (k * n + j) = Some (D j)"
    proof (cases "j = t mod n")
      case True
      then have "k = t div n" using j(2) by (simp add: T')
      then show ?thesis using x(3) True by simp
    next
      case False
      then show ?thesis using i(8) j by (simp add: T')
    qed
  qed (use i in auto)
qed

lemma inv_read:
  assumes inv: "mp_inv n H L T D pt gt P" and P: "P x = Deq_read u"
  shows "mp_inv n H L T D pt (gt(unat u \<mapsto> D (unat u mod n))) (P(x := Deq_release u (D (unat u mod n))))"
proof -
  note i = mp_invD [OF inv]
  define t v where "t = unat u" and "v = D (t mod n)"
  have x: "t < L" "T (t mod n) = 2 * (t div n) + 1" "gt t = None" using i(3) [of x] P by (auto simp: t_def)
  have tk: "enq_ticket (P x) = None" "deq_ticket (P x) = Some t" using P by (auto simp: t_def)
  have pv: "pt t = Some v" using i(8) [of "t mod n" "t div n"] i(1) x(2) by (simp add: v_def)
  have other: "thr_ok n H L T D pt (gt(t \<mapsto> v)) (P a)" if "a \<noteq> x" for a
    using i(3) [of a] uniqD [OF i(5), of a t x] tk(2) that
    by (cases "(n, H, L, T, D, pt, gt, P a)" rule: thr_ok.cases) auto
  have "mp_inv n H L T D pt (gt(t \<mapsto> v)) (P(x := Deq_release u v))"
  proof (rule mp_invI)
    show "thr_ok n H L T D pt (gt(t \<mapsto> v)) ((P(x := Deq_release u v)) a)" for a using other x by (auto simp: t_def)
    show "settled n 1 H T enq_ticket (P(x := Deq_release u v))" "settled n 2 L T deq_ticket (P(x := Deq_release u v))"
      using i tk by (auto intro!: settled_keep [where T = T and T' = T] simp: t_def)
    show "uniq enq_ticket (P(x := Deq_release u v))" "uniq deq_ticket (P(x := Deq_release u v))"
      using i(4,5) tk by (auto intro!: uniq_same simp: t_def)
  qed (use i x pv in \<open>auto split: if_splits\<close>)
  then show ?thesis by (simp add: t_def v_def)
qed

lemma inv_release:
  assumes inv: "mp_inv n H L T D pt gt P" and P: "P x = Deq_release u v"
  defines "T' \<equiv> T(unat u mod n := 2 * (unat u div n) + 2)"
  shows "mp_inv n H L T' D pt gt (P(x := Deq_done (Some v)))"
proof -
  note i = mp_invD [OF inv]
  define t where "t = unat u"
  have x: "t < L" "T (t mod n) = 2 * (t div n) + 1" using i(3) [of x] P by (auto simp: t_def)
  have tk: "enq_ticket (P x) = None" "deq_ticket (P x) = Some t" using P by (auto simp: t_def)
  have T': "T' = T(t mod n := 2 * (t div n) + 2)" by (simp add: T'_def t_def)
  have other: "thr_ok n H L T' D pt gt (P a)" if "a \<noteq> x" for a
  proof (cases "P a")
    case (Enq_cas e g)
    then show ?thesis using i(3) [of a] x(2) by (auto simp: T' Suc_double_not_eq_double double_not_eq_Suc_double)
  next
    case (Enqw_spin e g)
    then show ?thesis using i(3) [of a] x(2) by (auto simp: T')
  next
    case (Deq_cas w)
    then show ?thesis using i(3) [of a] x(1,2) ticket_eqI [of "unat w" n t] by (auto simp: T')
  next
    case (Deqw_spin w)
    moreover have "unat w \<noteq> t" using Deqw_spin tk(2) uniqD [OF i(5), of a t x] that by auto
    ultimately show ?thesis
      using i(3) [of a] x(2) ticket_eqI [of "unat w" n t] by (cases "unat w div n = t div n") (auto simp: T')
  qed (use i(3) [of a] owner_deq [OF inv tk(2) x(2) that] in \<open>auto simp: T'\<close>)
  show ?thesis
  proof (rule mp_invI)
    show "turns_ok n H L T'"
      unfolding turns_ok_def
    proof (intro allI impI)
      fix j k assume j: "j < n"
      show "(2 * k + 1 \<le> T' j \<longrightarrow> k * n + j < H) \<and> (2 * k + 2 \<le> T' j \<longrightarrow> k * n + j < L)"
      proof (cases "j = t mod n")
        case True
        have "k * n + j < L" if "k \<le> t div n"
        proof -
          have "k * n \<le> t div n * n" using that by simp
          then show ?thesis using True x(1) div_mult_mod_eq [of t n] by linarith
        qed
        moreover have "k * n + j < H" if "2 * k + 1 \<le> T j" using i(2) j that by (auto simp: turns_ok_def)
        ultimately show ?thesis using True x(2) by (auto simp: T')
      next
        case False
        then show ?thesis using i(2) j by (auto simp: T' turns_ok_def)
      qed
    qed
    show "thr_ok n H L T' D pt gt ((P(x := Deq_done (Some v))) a)" for a using other by auto
    have mono: "\<forall>j<n. T j \<le> T' j" using x(2) by (auto simp: T')
    show "settled n 1 H T' enq_ticket (P(x := Deq_done (Some v)))"
      by (rule settled_keep [OF i(6) mono i(1)]) (use tk in \<open>auto simp: T'\<close>)
    show "settled n 2 L T' deq_ticket (P(x := Deq_done (Some v)))"
      by (rule settled_keep [OF i(7) mono i(1)]) (use tk in \<open>auto simp: T'\<close>)
    show "uniq enq_ticket (P(x := Deq_done (Some v)))" "uniq deq_ticket (P(x := Deq_done (Some v)))"
      using i(4,5) by (auto intro!: uniq_same)
    fix j k assume j: "j < n" "T' j = 2 * k + 1"
    then have "j \<noteq> t mod n" by (auto simp: T' Suc_double_not_eq_double)
    then show "pt (k * n + j) = Some (D j)" using i(8) j by (simp add: T')
  qed (use i in auto)
qed

section \<open>The running system\<close>

record 'a msys =
  sq :: "'a mpmc_q"
  pcs :: "nat \<Rightarrow> 'a pc"
  put_val :: "nat \<rightharpoonup> 'a"
  got_val :: "nat \<rightharpoonup> 'a"

text \<open>The record of the values that enqueue tickets carry and dequeue tickets deliver.\<close>

fun note_put :: "'a pc \<Rightarrow> 'a pc \<Rightarrow> (nat \<rightharpoonup> 'a) \<Rightarrow> (nat \<rightharpoonup> 'a)" where
  "note_put (Enq_cas e h) (Enq_write e' h') m = m(unat h' \<mapsto> e')"
| "note_put (Enqw_claim e) (Enqw_spin e' h') m = m(unat h' \<mapsto> e')"
| "note_put p p' m = m"

fun note_got :: "'a pc \<Rightarrow> 'a pc \<Rightarrow> (nat \<rightharpoonup> 'a) \<Rightarrow> (nat \<rightharpoonup> 'a)" where
  "note_got (Deq_read t) (Deq_release t' v) m = m(unat t' \<mapsto> v)"
| "note_got p p' m = m"

definition sys_step :: "nat \<Rightarrow> 'a msys \<Rightarrow> 'a msys option" where
  "sys_step x s =
    do { (p, q) \<leftarrow> thread_step (pcs s x) (sq s);
         Some \<lparr>sq = q, pcs = (pcs s)(x := p), put_val = note_put (pcs s x) p (put_val s),
               got_val = note_got (pcs s x) p (got_val s)\<rparr> }"

fun resting :: "'a pc \<Rightarrow> bool" where
  "resting Idle \<longleftrightarrow> True"
| "resting (Enq_done r) \<longleftrightarrow> True"
| "resting (Deq_done r) \<longleftrightarrow> True"
| "resting p \<longleftrightarrow> False"

fun entry :: "'a pc \<Rightarrow> bool" where
  "entry (Enq_load e) \<longleftrightarrow> True"
| "entry (Enqw_claim e) \<longleftrightarrow> True"
| "entry Deq_load \<longleftrightarrow> True"
| "entry Deqw_claim \<longleftrightarrow> True"
| "entry p \<longleftrightarrow> False"

text \<open>The states reachable by \<open>N\<close> steps of any threads, which start the four operations in any order.\<close>

inductive mpmc_reach :: "nat \<Rightarrow> 'a msys \<Rightarrow> bool" where
  init: "MPMC_QUEUE_NEW zero sz = Some q \<Longrightarrow> 1 \<le> unat sz \<Longrightarrow> unat sz \<le> 2 ^ 32 \<Longrightarrow>
    mpmc_reach 0 \<lparr>sq = q, pcs = (\<lambda>x. Idle), put_val = Map.empty, got_val = Map.empty\<rparr>"
| call: "mpmc_reach N s \<Longrightarrow> resting (pcs s x) \<Longrightarrow> entry p \<Longrightarrow> mpmc_reach N (s\<lparr>pcs := (pcs s)(x := p)\<rparr>)"
| step: "mpmc_reach N s \<Longrightarrow> sys_step x s = Some s' \<Longrightarrow> mpmc_reach (Suc N) s'"

definition geom :: "nat \<Rightarrow> 'a mpmc_q \<Rightarrow> bool" where
  "geom e q \<longleftrightarrow> e \<le> 32 \<and> q_sz q = 2 ^ e \<and> q_mask q = 2 ^ e - 1 \<and> length (q_slot q) = 2 ^ e"

abbreviation (input) turns_of :: "'a mpmc_q \<Rightarrow> nat \<Rightarrow> nat" where
  "turns_of q \<equiv> \<lambda>i. unat (turn (q_slot q ! i))"

abbreviation (input) datas_of :: "'a mpmc_q \<Rightarrow> nat \<Rightarrow> 'a" where
  "datas_of q \<equiv> \<lambda>i. sdata (q_slot q ! i)"

definition sys_inv :: "nat \<Rightarrow> nat \<Rightarrow> 'a msys \<Rightarrow> bool" where
  "sys_inv e N s \<longleftrightarrow> geom e (sq s) \<and> unat (q_head (sq s)) \<le> N \<and> unat (q_tail (sq s)) \<le> N \<and>
     mp_inv (2 ^ e) (unat (q_head (sq s))) (unat (q_tail (sq s))) (turns_of (sq s)) (datas_of (sq s))
       (put_val s) (got_val s) (pcs s)"

lemma idx_mod: "geom e q \<Longrightarrow> mpmc_q_idx q v = unat v mod 2 ^ e"
proof -
  assume "geom e q"
  then have "v AND q_mask q = take_bit e v" by (simp add: geom_def take_bit_eq_mask mask_eq_exp_minus_1)
  then show ?thesis by (simp only: mpmc_q_idx_def unsigned_take_bit_eq) (simp add: take_bit_eq_mod)
qed

lemma idx_in: "geom e q \<Longrightarrow> unat v mod 2 ^ e < length (q_slot q)"
  by (simp add: geom_def)

lemma turn_nat:
  assumes "geom e q" "unat v < 2 ^ 62"
  shows "unat (enq_turn q v) = 2 * (unat v div 2 ^ e)" "unat (enq_turn q v + 1) = 2 * (unat v div 2 ^ e) + 1"
    "unat (deq_turn q v) = 2 * (unat v div 2 ^ e) + 1" "unat (deq_turn q v + 1) = 2 * (unat v div 2 ^ e) + 2"
proof -
  have "unat (2 ^ e :: u64) = 2 ^ e" using assms(1) by (intro unat_exp_u64) (simp add: geom_def)
  then have d: "unat (mpmc_q_turn q v) = unat v div 2 ^ e" using assms(1) by (simp add: mpmc_q_turn_def geom_def unat_div)
  have l: "2 * (unat v div 2 ^ e) + 2 < 2 ^ 64"
    using order.strict_trans1 [OF div_le_dividend assms(2), of "2 ^ e"] by simp
  show t: "unat (enq_turn q v) = 2 * (unat v div 2 ^ e)" using d l by (simp add: enq_turn_def unat_word_ariths)
  show "unat (enq_turn q v + 1) = 2 * (unat v div 2 ^ e) + 1" using t l by (simp add: unat_word_ariths)
  show t: "unat (deq_turn q v) = 2 * (unat v div 2 ^ e) + 1" using d l by (simp add: deq_turn_def unat_word_ariths)
  show "unat (deq_turn q v + 1) = 2 * (unat v div 2 ^ e) + 2" using t l by (simp add: unat_word_ariths)
qed

lemma turn_eq_iff:
  assumes "geom e q" "unat v < 2 ^ 62"
  shows "w = enq_turn q v \<longleftrightarrow> unat w = 2 * (unat v div 2 ^ e)" "w = deq_turn q v \<longleftrightarrow> unat w = 2 * (unat v div 2 ^ e) + 1"
  using turn_nat [OF assms] by (metis word_unat_eq_iff)+

lemma set_turn_eq:
  assumes "geom e q" "i < 2 ^ e"
  shows "\<exists>q'. set_turn q i v = Some q' \<and> geom e q' \<and> q_head q' = q_head q \<and> q_tail q' = q_tail q \<and>
    turns_of q' = (turns_of q)(i := unat v) \<and> datas_of q' = datas_of q"
proof -
  have "i < length (q_slot q)" using assms by (simp add: geom_def)
  then show ?thesis using assms(1) by (auto simp: set_turn_def mem_simps geom_def nth_list_update fun_eq_iff)
qed

lemma set_sdata_eq:
  assumes "geom e q" "i < 2 ^ e"
  shows "\<exists>q'. set_sdata q i v = Some q' \<and> geom e q' \<and> q_head q' = q_head q \<and> q_tail q' = q_tail q \<and>
    turns_of q' = turns_of q \<and> datas_of q' = (datas_of q)(i := v)"
proof -
  have "i < length (q_slot q)" using assms by (simp add: geom_def)
  then show ?thesis using assms(1) by (auto simp: set_sdata_def mem_simps geom_def nth_list_update fun_eq_iff)
qed

lemma succ_u64: "unat (v :: u64) < 2 ^ 62 \<Longrightarrow> unat (v + 1) = Suc (unat v)"
  by (simp add: unat_word_ariths)


lemma step_local:
  assumes inv: "sys_inv e N s" and st: "thread_step (pcs s x) (sq s) = Some (p, sq s)"
    and tk: "enq_ticket p = enq_ticket (pcs s x)" "deq_ticket p = deq_ticket (pcs s x)"
    and nt: "note_put (pcs s x) p (put_val s) = put_val s" "note_got (pcs s x) p (got_val s) = got_val s"
    and ok: "thr_ok (2 ^ e) (unat (q_head (sq s))) (unat (q_tail (sq s))) (turns_of (sq s)) (datas_of (sq s)) (put_val s) (got_val s) p"
  shows "\<exists>s'. sys_step x s = Some s' \<and> sys_inv e (Suc N) s'"
proof -
  have "mp_inv (2 ^ e) (unat (q_head (sq s))) (unat (q_tail (sq s))) (turns_of (sq s)) (datas_of (sq s))
       (put_val s) (got_val s) ((pcs s)(x := p))"
    using inv tk ok by (intro inv_local) (auto simp: sys_inv_def)
  then show ?thesis using inv st nt by (simp add: sys_step_def sys_inv_def)
qed

lemma step_enq:
  assumes inv: "sys_inv e N s" and N: "N < 2 ^ 62" and enq: "enqueuing (pcs s x)"
  shows "\<exists>s'. sys_step x s = Some s' \<and> sys_inv e (Suc N) s'"
proof -
  define q where "q = sq s"
  have g: "geom e q" and b: "unat (q_head q) \<le> N" "unat (q_tail q) \<le> N"
    and mp: "mp_inv (2 ^ e) (unat (q_head q)) (unat (q_tail q)) (turns_of q) (datas_of q) (put_val s) (got_val s) (pcs s)"
    using inv by (auto simp: sys_inv_def q_def)
  have th: "thr_ok (2 ^ e) (unat (q_head q)) (unat (q_tail q)) (turns_of q) (datas_of q) (put_val s) (got_val s) (pcs s x)"
    using mp_invD(3) [OF mp] .
  have lt: "unat h < 2 ^ 62" if "unat h \<le> unat (q_head q)" for h :: u64 using that b N by linarith
  have ix: "mpmc_q_idx q h = unat h mod 2 ^ e" "unat h mod 2 ^ e < length (q_slot q)" "unat h mod 2 ^ e < 2 ^ e" for h
    using g idx_mod idx_in by auto
  note ti = turn_eq_iff [OF g]
  show ?thesis
  proof (cases "pcs s x")
    case (Enq_load v)
    show ?thesis
      by (rule step_local [OF inv, of x "Enq_try v (q_head q)"]) (use Enq_load in \<open>simp_all add: thread_step_def flip: q_def\<close>)
  next
    case (Enq_try v h)
    then have h: "unat h \<le> unat (q_head q)" using th by simp
    show ?thesis
      by (rule step_local [OF inv, of x "if turn (q_slot q ! (unat h mod 2 ^ e)) = enq_turn q h then Enq_cas v h else Enq_reload v h"])
        (use Enq_try h ix [of h] ti [OF lt [OF h]] in \<open>auto simp: thread_step_def mem_simps simp flip: q_def\<close>)
  next
    case (Enq_cas v h)
    show ?thesis
    proof (cases "q_head q = h")
      case False
      show ?thesis
        by (rule step_local [OF inv, of x "Enq_try v (q_head q)"]) (use Enq_cas False in \<open>simp_all add: thread_step_def flip: q_def\<close>)
    next
      case True
      have h: "unat h = unat (q_head q)" by (simp add: True)
      have T: "turns_of q (unat h mod 2 ^ e) = 2 * (unat h div 2 ^ e)" using th Enq_cas h by simp
      have "mp_inv (2 ^ e) (Suc (unat (q_head q))) (unat (q_tail q)) (turns_of q) (datas_of q) ((put_val s)(unat (q_head q) \<mapsto> v))
          (got_val s) ((pcs s)(x := Enq_write v h))"
        by (rule inv_claim_enq [OF mp, where h = h]) (use Enq_cas T h in auto)
      moreover have "unat (h + 1) = Suc (unat (q_head q))" using succ_u64 [of h] lt [of h] h by simp
      ultimately have m: "mp_inv (2 ^ e) (unat (h + 1)) (unat (q_tail q)) (turns_of q) (datas_of q) ((put_val s)(unat h \<mapsto> v))
          (got_val s) ((pcs s)(x := Enq_write v h))" "unat (h + 1) \<le> Suc N" using b(1) h by simp_all
      have "sys_step x s = Some \<lparr>sq = q\<lparr>q_head := h + 1\<rparr>, pcs = (pcs s)(x := Enq_write v h),
          put_val = (put_val s)(unat h \<mapsto> v), got_val = got_val s\<rparr>"
        using Enq_cas True by (simp add: sys_step_def thread_step_def flip: q_def)
      then show ?thesis using m g b(2) by (simp add: sys_inv_def geom_def)
    qed
  next
    case (Enq_reload v h)
    show ?thesis
      by (rule step_local [OF inv, of x "if q_head q = h then Enq_done False else Enq_try v (q_head q)"])
        (use Enq_reload in \<open>simp_all add: thread_step_def flip: q_def\<close>)
  next
    case (Enq_write v h)
    obtain q' where q': "set_sdata q (unat h mod 2 ^ e) v = Some q'" "geom e q'" "q_head q' = q_head q" "q_tail q' = q_tail q"
      "turns_of q' = turns_of q" "datas_of q' = (datas_of q)(unat h mod 2 ^ e := v)"
      using set_sdata_eq [OF g ix(3)] by blast
    have "mp_inv (2 ^ e) (unat (q_head q)) (unat (q_tail q)) (turns_of q) ((datas_of q)(unat h mod 2 ^ e := v)) (put_val s)
        (got_val s) ((pcs s)(x := Enq_publish h))" by (rule inv_write [OF mp Enq_write])
    then show ?thesis
      using Enq_write q' b ix(1) by (simp add: sys_step_def thread_step_def sys_inv_def flip: q_def)
  next
    case (Enq_publish h)
    have h: "unat h < 2 ^ 62" using th Enq_publish lt [of h] by simp
    obtain q' where q': "set_turn q (unat h mod 2 ^ e) (enq_turn q h + 1) = Some q'" "geom e q'" "q_head q' = q_head q" "q_tail q' = q_tail q"
      "turns_of q' = (turns_of q)(unat h mod 2 ^ e := unat (enq_turn q h + 1))" "datas_of q' = datas_of q"
      using set_turn_eq [OF g ix(3)] by blast
    have "mp_inv (2 ^ e) (unat (q_head q)) (unat (q_tail q)) ((turns_of q)(unat h mod 2 ^ e := 2 * (unat h div 2 ^ e) + 1))
        (datas_of q) (put_val s) (got_val s) ((pcs s)(x := Enq_done True))" by (rule inv_publish [OF mp Enq_publish])
    then show ?thesis
      using Enq_publish q' b ix(1) turn_nat(2) [OF g h] by (simp add: sys_step_def thread_step_def sys_inv_def flip: q_def)
  next
    case (Enqw_claim v)
    define h where "h = q_head q"
    have h: "unat h = unat (q_head q)" by (simp add: h_def)
    have "mp_inv (2 ^ e) (Suc (unat (q_head q))) (unat (q_tail q)) (turns_of q) (datas_of q) ((put_val s)(unat (q_head q) \<mapsto> v))
        (got_val s) ((pcs s)(x := Enqw_spin v h))"
      by (rule inv_claim_enq [OF mp, where h = h]) (use Enqw_claim h in auto)
    moreover have "unat (h + 1) = Suc (unat (q_head q))" using succ_u64 [of h] lt [of h] h by simp
    ultimately show ?thesis
      using Enqw_claim g b h by (simp add: sys_step_def thread_step_def sys_inv_def geom_def h_def flip: q_def)
  next
    case (Enqw_spin v h)
    then have h: "unat h < 2 ^ 62" using th lt [of h] by simp
    show ?thesis
      by (rule step_local [OF inv, of x "if turn (q_slot q ! (unat h mod 2 ^ e)) = enq_turn q h then Enq_write v h else Enqw_spin v h"])
        (use Enqw_spin th ix [of h] ti [OF h] in \<open>simp_all add: thread_step_def mem_simps flip: q_def\<close>)
  qed (use enq in simp_all)
qed

lemma step_deq:
  assumes inv: "sys_inv e N s" and N: "N < 2 ^ 62" and deq: "\<not> enqueuing (pcs s x)"
  shows "\<exists>s'. sys_step x s = Some s' \<and> sys_inv e (Suc N) s'"
proof -
  define q where "q = sq s"
  have g: "geom e q" and b: "unat (q_head q) \<le> N" "unat (q_tail q) \<le> N"
    and mp: "mp_inv (2 ^ e) (unat (q_head q)) (unat (q_tail q)) (turns_of q) (datas_of q) (put_val s) (got_val s) (pcs s)"
    using inv by (auto simp: sys_inv_def q_def)
  have th: "thr_ok (2 ^ e) (unat (q_head q)) (unat (q_tail q)) (turns_of q) (datas_of q) (put_val s) (got_val s) (pcs s x)"
    using mp_invD(3) [OF mp] .
  have lt: "unat h < 2 ^ 62" if "unat h \<le> unat (q_tail q)" for h :: u64 using that b N by linarith
  have ix: "mpmc_q_idx q h = unat h mod 2 ^ e" "unat h mod 2 ^ e < length (q_slot q)" "unat h mod 2 ^ e < 2 ^ e" for h
    using g idx_mod idx_in by auto
  note ti = turn_eq_iff [OF g]
  show ?thesis
  proof (cases "pcs s x")
    case Deq_load
    show ?thesis
      by (rule step_local [OF inv, of x "Deq_try (q_tail q)"]) (use Deq_load in \<open>simp_all add: thread_step_def flip: q_def\<close>)
  next
    case (Deq_try t)
    then have t: "unat t \<le> unat (q_tail q)" using th by simp
    show ?thesis
      by (rule step_local [OF inv, of x "if turn (q_slot q ! (unat t mod 2 ^ e)) = deq_turn q t then Deq_cas t else Deq_reload t"])
        (use Deq_try t ix [of t] ti [OF lt [OF t]] in \<open>auto simp: thread_step_def mem_simps simp flip: q_def\<close>)
  next
    case (Deq_cas t)
    show ?thesis
    proof (cases "q_tail q = t")
      case False
      show ?thesis
        by (rule step_local [OF inv, of x "Deq_try (q_tail q)"]) (use Deq_cas False in \<open>simp_all add: thread_step_def flip: q_def\<close>)
    next
      case True
      have t: "unat t = unat (q_tail q)" by (simp add: True)
      have T: "turns_of q (unat t mod 2 ^ e) = 2 * (unat t div 2 ^ e) + 1" using th Deq_cas t by simp
      have "mp_inv (2 ^ e) (unat (q_head q)) (Suc (unat (q_tail q))) (turns_of q) (datas_of q) (put_val s)
          (got_val s) ((pcs s)(x := Deq_read t))"
        by (rule inv_claim_deq [OF mp, where t = t]) (use Deq_cas T t in auto)
      moreover have "unat (t + 1) = Suc (unat (q_tail q))" using succ_u64 [of t] lt [of t] t by simp
      ultimately have m: "mp_inv (2 ^ e) (unat (q_head q)) (unat (t + 1)) (turns_of q) (datas_of q) (put_val s)
          (got_val s) ((pcs s)(x := Deq_read t))" "unat (t + 1) \<le> Suc N" using b(2) t by simp_all
      have "sys_step x s = Some \<lparr>sq = q\<lparr>q_tail := t + 1\<rparr>, pcs = (pcs s)(x := Deq_read t),
          put_val = put_val s, got_val = got_val s\<rparr>"
        using Deq_cas True by (simp add: sys_step_def thread_step_def flip: q_def)
      then show ?thesis using m g b(1) by (simp add: sys_inv_def geom_def)
    qed
  next
    case (Deq_reload t)
    show ?thesis
      by (rule step_local [OF inv, of x "if q_tail q = t then Deq_done None else Deq_try (q_tail q)"])
        (use Deq_reload in \<open>simp_all add: thread_step_def flip: q_def\<close>)
  next
    case (Deq_read t)
    have "mp_inv (2 ^ e) (unat (q_head q)) (unat (q_tail q)) (turns_of q) (datas_of q) (put_val s)
        ((got_val s)(unat t \<mapsto> datas_of q (unat t mod 2 ^ e))) ((pcs s)(x := Deq_release t (datas_of q (unat t mod 2 ^ e))))"
      by (rule inv_read [OF mp Deq_read])
    then show ?thesis
      using Deq_read g b ix [of t] by (simp add: sys_step_def thread_step_def sys_inv_def mem_simps flip: q_def)
  next
    case (Deq_release t v)
    have t: "unat t < 2 ^ 62" using th Deq_release lt [of t] by simp
    obtain q' where q': "set_turn q (unat t mod 2 ^ e) (deq_turn q t + 1) = Some q'" "geom e q'" "q_head q' = q_head q" "q_tail q' = q_tail q"
      "turns_of q' = (turns_of q)(unat t mod 2 ^ e := unat (deq_turn q t + 1))" "datas_of q' = datas_of q"
      using set_turn_eq [OF g ix(3)] by blast
    have "mp_inv (2 ^ e) (unat (q_head q)) (unat (q_tail q)) ((turns_of q)(unat t mod 2 ^ e := 2 * (unat t div 2 ^ e) + 2))
        (datas_of q) (put_val s) (got_val s) ((pcs s)(x := Deq_done (Some v)))" by (rule inv_release [OF mp Deq_release])
    then show ?thesis
      using Deq_release q' b ix(1) turn_nat(4) [OF g t] by (simp add: sys_step_def thread_step_def sys_inv_def flip: q_def)
  next
    case Deqw_claim
    define t where "t = q_tail q"
    have t: "unat t = unat (q_tail q)" by (simp add: t_def)
    have "mp_inv (2 ^ e) (unat (q_head q)) (Suc (unat (q_tail q))) (turns_of q) (datas_of q) (put_val s)
        (got_val s) ((pcs s)(x := Deqw_spin t))"
      by (rule inv_claim_deq [OF mp, where t = t]) (use Deqw_claim t in auto)
    moreover have "unat (t + 1) = Suc (unat (q_tail q))" using succ_u64 [of t] lt [of t] t by simp
    ultimately show ?thesis
      using Deqw_claim g b t by (simp add: sys_step_def thread_step_def sys_inv_def geom_def t_def flip: q_def)
  next
    case (Deqw_spin t)
    then have t: "unat t < 2 ^ 62" using th lt [of t] by simp
    show ?thesis
      by (rule step_local [OF inv, of x "if turn (q_slot q ! (unat t mod 2 ^ e)) = deq_turn q t then Deq_read t else Deqw_spin t"])
        (use Deqw_spin th ix [of t] ti [OF t] in \<open>simp_all add: thread_step_def mem_simps flip: q_def\<close>)
  next
    case Idle
    then show ?thesis by (intro step_local [OF inv, of x Idle]) (simp_all add: thread_step_def)
  next
    case (Enq_done r)
    then show ?thesis by (intro step_local [OF inv, of x "Enq_done r"]) (simp_all add: thread_step_def)
  next
    case (Deq_done r)
    then show ?thesis by (intro step_local [OF inv, of x "Deq_done r"]) (simp_all add: thread_step_def)
  qed (use deq in simp_all)
qed

lemma sys_step_ok: "sys_inv e N s \<Longrightarrow> N < 2 ^ 62 \<Longrightarrow> \<exists>s'. sys_step x s = Some s' \<and> sys_inv e (Suc N) s'"
  using step_enq step_deq by blast

lemma call_ok:
  assumes "sys_inv e N s" "resting (pcs s x)" "entry p"
  shows "sys_inv e N (s\<lparr>pcs := (pcs s)(x := p)\<rparr>)"
proof -
  have "enq_ticket p = enq_ticket (pcs s x)" "deq_ticket p = deq_ticket (pcs s x)"
    using assms(2,3) by (cases "pcs s x"; cases p; simp)+
  moreover have "thr_ok n H L T D pt gt p" for n H L T D pt gt using assms(3) by (cases p) auto
  ultimately show ?thesis using assms(1) by (auto simp: sys_inv_def intro!: inv_local)
qed

lemma init_ok:
  assumes "MPMC_QUEUE_NEW zero sz = Some q" "1 \<le> unat sz" "unat sz \<le> 2 ^ 32"
  shows "\<exists>e. sys_inv e 0 \<lparr>sq = q, pcs = (\<lambda>x. Idle), put_val = Map.empty, got_val = Map.empty\<rparr>"
proof -
  define e where "e = bitlen (sz - 1)"
  have c: "unat (NEXTPOW2 sz) = 2 ^ e" "e \<le> 32" using NEXTPOW2_char [of sz] assms(2,3) by (auto simp: e_def)
  have q: "q = \<lparr>q_head = 0, q_tail = 0, q_sz = 2 ^ e, q_mask = 2 ^ e - 1, q_slot = replicate (2 ^ e) \<lparr>turn = 0, sdata = zero\<rparr>\<rparr>"
    using assms(1) c(1) NEXTPOW2_exp [of sz] by (auto simp: MPMC_QUEUE_NEW_def mpmc_q_init_def e_def Let_def split: if_splits)
  have "mp_inv (2 ^ e) 0 0 (\<lambda>i. if i < 2 ^ e then 0 else turns_of q i) (datas_of q) Map.empty Map.empty (\<lambda>x :: nat. Idle)"
    by (rule mp_invI) (auto simp: turns_ok_def uniq_def settled_def)
  moreover have "turns_ok (2 ^ e) 0 0 (turns_of q)" by (auto simp: turns_ok_def q)
  ultimately have "mp_inv (2 ^ e) 0 0 (turns_of q) (datas_of q) Map.empty Map.empty (\<lambda>x :: nat. Idle)"
    by (auto simp: mp_inv_def settled_def q)
  then show ?thesis using c(2) by (intro exI [of _ e]) (simp add: sys_inv_def geom_def q)
qed

lemma mpmc_reach_inv: "mpmc_reach N s \<Longrightarrow> N < 2 ^ 62 \<Longrightarrow> \<exists>e. sys_inv e N s"
proof (induction rule: mpmc_reach.induct)
  case (init zero sz q)
  then show ?case by (intro init_ok)
next
  case (call N s x p)
  then show ?case using call_ok by blast
next
  case (step N s x s')
  then obtain e where "sys_inv e N s" by auto
  then show ?case using sys_step_ok [of e N s x] step by auto
qed

section \<open>Safety\<close>

text \<open>The ticket of the slot a thread is reading or writing.\<close>

fun at_slot :: "'a pc \<Rightarrow> u64 option" where
  "at_slot (Enq_write e h) = Some h"
| "at_slot (Enq_publish h) = Some h"
| "at_slot (Deq_read t) = Some t"
| "at_slot (Deq_release t v) = Some t"
| "at_slot p = None"

lemma at_slot_apart:
  assumes mp: "mp_inv n H L T D pt gt P" and a: "at_slot (P x) = Some t" and b: "at_slot (P y) = Some u" and ne: "x \<noteq> y"
  shows "unat t mod n \<noteq> unat u mod n"
proof (cases "enq_ticket (P x)")
  case (Some w)
  then have "w = unat t" "T (w mod n) = 2 * (w div n)" using a mp_invD(3) [OF mp, of x] by (cases "P x"; auto)+
  then show ?thesis using owner_enq [OF mp Some _ ne [symmetric]] b by (cases "P y") auto
next
  case None
  then have d: "deq_ticket (P x) = Some (unat t)" "T (unat t mod n) = 2 * (unat t div n) + 1"
    using a mp_invD(3) [OF mp, of x] by (cases "P x"; auto)+
  show ?thesis using owner_deq [OF mp d ne [symmetric]] b by (cases "P y") auto
qed

text \<open>
  C4: Any interleaving of enqueues and dequeues, blocking or not, by any number of threads, is safe for \<open>2 ^ 62\<close> steps: no step
  leaves the slot array, no two threads are ever at work in the same slot, every claimed head ticket carries one value,
  and the thread with the \<open>t\<close>-th tail ticket gets the value of the thread with the \<open>t\<close>-th head ticket, so that elements are
  neither lost, nor duplicated, nor reordered.
\<close>

theorem mpmc_safe:
  assumes "mpmc_reach N s" "N < 2 ^ 62"
  shows "(\<forall>x. \<exists>s'. sys_step x s = Some s') \<and>
    (\<forall>x y t u. x \<noteq> y \<longrightarrow> at_slot (pcs s x) = Some t \<longrightarrow> at_slot (pcs s y) = Some u \<longrightarrow> mpmc_q_idx (sq s) t \<noteq> mpmc_q_idx (sq s) u) \<and>
    dom (put_val s) = {..<unat (q_head (sq s))} \<and> dom (got_val s) \<subseteq> {..<unat (q_tail (sq s))} \<and> got_val s \<subseteq>\<^sub>m put_val s"
proof -
  obtain e where inv: "sys_inv e N s" using mpmc_reach_inv [OF assms] by blast
  then have g: "geom e (sq s)" and mp: "mp_inv (2 ^ e) (unat (q_head (sq s))) (unat (q_tail (sq s))) (turns_of (sq s)) (datas_of (sq s))
       (put_val s) (got_val s) (pcs s)" by (auto simp: sys_inv_def)
  have "got_val s \<subseteq>\<^sub>m put_val s" using mp_invD(11) [OF mp] unfolding map_le_def by (auto simp: dom_def)
  then show ?thesis
    using sys_step_ok [OF inv assms(2)] at_slot_apart [OF mp] mp_invD(9,10) [OF mp] by (simp add: idx_mod [OF g]) blast
qed

definition mpmc_demo :: "nat msys" where
  "mpmc_demo = \<lparr>sq = the (MPMC_QUEUE_NEW 0 3), pcs = (\<lambda>x. Idle), put_val = Map.empty, got_val = Map.empty\<rparr>"

lemma mpmc_demo_reach: "mpmc_reach 0 mpmc_demo"
proof -
  have "(case MPMC_QUEUE_NEW (0 :: nat) 3 of None \<Rightarrow> False | Some q \<Rightarrow> True)" by code_simp
  then show ?thesis unfolding mpmc_demo_def
    by (intro mpmc_reach.init [where sz = 3 and zero = 0]) (auto split: option.splits)
qed

theorem mpmc_safe_witness: "\<exists>s :: nat msys. mpmc_reach 0 s \<and> (\<exists>s'. sys_step 7 s = Some s') \<and> got_val s \<subseteq>\<^sub>m put_val s"
  by (rule exI [of _ mpmc_demo]) (use mpmc_safe [OF mpmc_demo_reach] mpmc_demo_reach in auto)

section \<open>Operations on a quiescent queue\<close>

fun run_thread :: "nat \<Rightarrow> 'a pc \<Rightarrow> 'a mpmc_q \<Rightarrow> ('a pc \<times> 'a mpmc_q) option" where
  "run_thread 0 p q = Some (p, q)"
| "run_thread (Suc k) p q = do { (p, q) \<leftarrow> thread_step p q; run_thread k p q }"

lemma quiescent_turns:
  assumes mp: "mp_inv n H L T D pt gt P" and rest: "\<forall>x. resting (P x)"
  shows "L \<le> H" "H \<le> L + n" "T (H mod n) = 2 * (H div n) \<longleftrightarrow> H < L + n" "T (L mod n) = 2 * (L div n) + 1 \<longleftrightarrow> L < H"
proof -
  note i = mp_invD [OF mp]
  have nt: "enq_ticket (P x) = None" "deq_ticket (P x) = None" for x using rest by (cases "P x"; auto dest: spec [of _ x])+
  have e: "2 * (t div n) + 1 \<le> T (t mod n) \<longleftrightarrow> t < H" for t
    using i(6) turns_okD(1) [OF i(2,1), of t] nt by (auto simp: settled_def)
  have d: "2 * (t div n) + 2 \<le> T (t mod n) \<longleftrightarrow> t < L" for t
    using i(7) turns_okD(2) [OF i(2,1), of t] nt by (auto simp: settled_def)
  have dv: "(t + n) div n = t div n + 1" "(t + n) mod n = t mod n" for t using i(1) div_add_self2 [of n t] by simp_all
  show LH: "L \<le> H"
  proof (rule ccontr)
    assume "\<not> L \<le> H"
    then have "2 * (H div n) + 2 \<le> T (H mod n)" using d [of H] by simp
    then show False using e [of H] by simp
  qed
  have early: "t < L" if "t + n < H" for t
    using e [of "t + n"] d [of t] that dv [of t] by simp
  show "H \<le> L + n" using early [of L] by (cases "L + n < H") auto
  show "T (H mod n) = 2 * (H div n) \<longleftrightarrow> H < L + n"
  proof (cases "H < n")
    case True
    then show ?thesis using e [of H] by simp
  next
    case False
    define t where "t = H - n"
    have H: "H = t + n" using False by (simp add: t_def)
    have "T (H mod n) \<le> 2 * (H div n)" using e [of H] by simp
    moreover have "2 * (t div n) + 1 \<le> T (t mod n)" using e [of t] i(1) by (simp add: H)
    ultimately show ?thesis using d [of t] dv [of t] by (auto simp: H)
  qed
  show "T (L mod n) = 2 * (L div n) + 1 \<longleftrightarrow> L < H" using e [of L] d [of L] by auto
qed

lemma run_thread_simps:
  "run_thread 5 p q = do { (p, q) \<leftarrow> thread_step p q; (p, q) \<leftarrow> thread_step p q; (p, q) \<leftarrow> thread_step p q;
     (p, q) \<leftarrow> thread_step p q; thread_step p q }"
  by (simp add: eval_nat_numeral split: Option.bind_splits)

lemma solo_enq:
  assumes g: "geom e q" and h: "unat (q_head q) < 2 ^ 62"
  shows "\<exists>q'. run_thread 5 (Enq_load v) q =
    Some (Enq_done (turns_of q (unat (q_head q) mod 2 ^ e) = 2 * (unat (q_head q) div 2 ^ e)), q')"
proof -
  define i where "i = unat (q_head q) mod 2 ^ e"
  have i: "i < 2 ^ e" "i < length (q_slot q)" "mpmc_q_idx q (q_head q) = i" using idx_mod [OF g] idx_in [OF g] by (auto simp: i_def)
  show ?thesis
  proof (cases "turn (q_slot q ! i) = enq_turn q (q_head q)")
    case False
    then show ?thesis using i turn_eq_iff(1) [OF g h] by (simp add: run_thread_simps thread_step_def mem_simps flip: i_def)
  next
    case True
    define q1 where "q1 = q\<lparr>q_head := q_head q + 1\<rparr>"
    have g1: "geom e q1" using g by (simp add: geom_def q1_def)
    obtain q2 where q2: "set_sdata q1 i v = Some q2" "geom e q2" using set_sdata_eq [OF g1 i(1)] by blast
    obtain q3 where q3: "set_turn q2 i (enq_turn q2 (q_head q) + 1) = Some q3" using set_turn_eq [OF q2(2) i(1)] by blast
    have j: "mpmc_q_idx q1 (q_head q) = i" "mpmc_q_idx q2 (q_head q) = i" using idx_mod [OF g1] idx_mod [OF q2(2)] by (simp_all add: i_def)
    show ?thesis using True i j q2 q3 turn_eq_iff(1) [OF g h]
      by (simp add: run_thread_simps thread_step_def mem_simps flip: i_def q1_def)
  qed
qed

lemma solo_deq:
  assumes g: "geom e q" and h: "unat (q_tail q) < 2 ^ 62"
  shows "\<exists>q'. run_thread 5 Deq_load q =
    Some (Deq_done (if turns_of q (unat (q_tail q) mod 2 ^ e) = 2 * (unat (q_tail q) div 2 ^ e) + 1
                    then Some (datas_of q (unat (q_tail q) mod 2 ^ e)) else None), q')"
proof -
  define i where "i = unat (q_tail q) mod 2 ^ e"
  have i: "i < 2 ^ e" "i < length (q_slot q)" "mpmc_q_idx q (q_tail q) = i" using idx_mod [OF g] idx_in [OF g] by (auto simp: i_def)
  show ?thesis
  proof (cases "turn (q_slot q ! i) = deq_turn q (q_tail q)")
    case False
    then show ?thesis using i turn_eq_iff(2) [OF g h] by (simp add: run_thread_simps thread_step_def mem_simps flip: i_def)
  next
    case True
    define q1 where "q1 = q\<lparr>q_tail := q_tail q + 1\<rparr>"
    have g1: "geom e q1" "q_slot q1 = q_slot q" using g by (simp_all add: geom_def q1_def)
    obtain q3 where q3: "set_turn q1 i (deq_turn q1 (q_tail q) + 1) = Some q3" using set_turn_eq [OF g1(1) i(1)] by blast
    have j: "mpmc_q_idx q1 (q_tail q) = i" using idx_mod [OF g1(1)] by (simp add: i_def)
    show ?thesis using True i j q3 g1(2) turn_eq_iff(2) [OF g h]
      by (simp add: run_thread_simps thread_step_def mem_simps flip: i_def q1_def)
  qed
qed

text \<open>
  C36: When no thread is inside an operation, a single enqueue or dequeue ends within five steps; it succeeds exactly when
  the queue is not full (empty), a dequeue returns the oldest value not yet taken, and the reported length, full and empty
  conditions are exact.
\<close>

theorem mpmc_quiescent:
  assumes reach: "mpmc_reach N s" and N: "N < 2 ^ 62" and rest: "\<forall>x. resting (pcs s x)"
  shows "\<exists>n. n = unat (q_head (sq s)) - unat (q_tail (sq s)) \<and> unat (q_tail (sq s)) \<le> unat (q_head (sq s)) \<and>
    n \<le> unat (q_sz (sq s)) \<and>
    (\<exists>q'. run_thread 5 (Enq_load v) (sq s) = Some (Enq_done (n < unat (q_sz (sq s))), q')) \<and>
    (\<exists>q'. run_thread 5 Deq_load (sq s) = Some (Deq_done (if n = 0 then None else put_val s (unat (q_tail (sq s)))), q')) \<and>
    unat (mpmc_q_len (sq s)) = n \<and> mpmc_q_full_p (sq s) = (n = unat (q_sz (sq s))) \<and> mpmc_q_empty_p (sq s) = (n = 0)"
proof -
  define q H L where "q = sq s" "H = unat (q_head q)" "L = unat (q_tail q)"
  obtain e where inv: "sys_inv e N s" using mpmc_reach_inv [OF reach N] by blast
  then have g: "geom e q" and b: "H < 2 ^ 62" "L < 2 ^ 62"
    and mp: "mp_inv (2 ^ e) H L (turns_of q) (datas_of q) (put_val s) (got_val s) (pcs s)"
    using N by (auto simp: sys_inv_def q_H_L_def)
  note t = quiescent_turns [OF mp rest]
  have sz: "unat (q_sz q) = 2 ^ e" using g unat_exp_u64 [of e] by (simp add: geom_def)
  have val: "put_val s L = Some (datas_of q (L mod 2 ^ e))" if "L < H"
    using mp_invD(8) [OF mp, of "L mod 2 ^ e" "L div 2 ^ e"] t(4) that by (simp add: div_mult_mod_eq)
  have "q_tail q \<le> q_head q" using t(1) by (simp add: q_H_L_def word_le_nat_alt)
  then have len: "mpmc_q_len q = q_head q - q_tail q" "unat (q_head q - q_tail q) = H - L"
    by (auto simp: mpmc_q_len_def Let_def q_H_L_def unat_sub)
  have fe: "mpmc_q_full_p q = (H - L = 2 ^ e)" "mpmc_q_empty_p q = (H - L = 0)"
    using len sz by (metis mpmc_q_full_p_def word_unat_eq_iff, metis mpmc_q_empty_p_def unat_eq_0)
  have "\<exists>q'. run_thread 5 (Enq_load v) q = Some (Enq_done (H - L < 2 ^ e), q')"
    using solo_enq [OF g, of v] b(1) t(1,2,3) by (simp add: q_H_L_def less_diff_conv2 add.commute)
  moreover have "\<exists>q'. run_thread 5 Deq_load q = Some (Deq_done (if H - L = 0 then None else put_val s L), q')"
    using solo_deq [OF g] b(2) t(1,4) val by (auto simp: q_H_L_def)
  ultimately show ?thesis using t(1,2) len sz fe by (auto simp: q_H_L_def [symmetric] simp flip: q_H_L_def(1))
qed

theorem mpmc_quiescent_witness: "\<exists>q'. run_thread 5 (Enq_load 9) (sq mpmc_demo) = Some (Enq_done True, q')"
proof -
  have "(case MPMC_QUEUE_NEW (0 :: nat) 3 of None \<Rightarrow> False | Some q \<Rightarrow> unat (q_head q) = 0 \<and> unat (q_sz q) = 4)" by code_simp
  then have "unat (q_head (sq mpmc_demo)) = 0 \<and> unat (q_sz (sq mpmc_demo)) = 4"
    by (auto simp: mpmc_demo_def split: option.splits)
  then show ?thesis using mpmc_quiescent [OF mpmc_demo_reach, of 9] by (auto simp: mpmc_demo_def)
qed

end
