(* ===== verification/Cstring.thy ===== *)
theory Cstring
  imports Prelude
begin

text \<open>
  C strings in memory, the delimiter sets of \<open>src/bits.h\<close> and the in-place trimming loop of \<open>src/strtrim.c\<close>. A \<open>char\<close> is a byte, signed when it
  becomes an \<open>int\<close> (\<open>char_int\<close>); a C string argument is its bytes without the terminator. Character constants are written as
  numbers: 9 to 13 and 32 are the white space characters of the C locale.
\<close>

definition c_str :: "u8 list \<Rightarrow> u8 list option" where
  "c_str m = (if 0 \<in> set m then Some (takeWhile (\<lambda>b. b \<noteq> 0) m) else None)"

definition char_int :: "u8 \<Rightarrow> u32" where
  "char_int b = signed b"

definition isspace8 :: "u8 \<Rightarrow> bool" where
  "isspace8 b \<longleftrightarrow> b = 32 \<or> 9 \<le> b \<and> b \<le> 13"

definition isdigit8 :: "u8 \<Rightarrow> bool" where
  "isdigit8 c \<longleftrightarrow> 48 \<le> c \<and> c \<le> 57"

text \<open>\<open>struct delim\<close>: 256 bits in eight words, indexed by the value of an \<open>int\<close>.\<close>

definition init_delim :: "u32 list" where
  "init_delim = replicate 8 0"

definition bitp :: "u32 \<Rightarrow> u32" where
  "bitp c = push_bit (unat (c mod 32)) 1"

definition is_delim :: "u32 list \<Rightarrow> u32 \<Rightarrow> bool option" where
  "is_delim d c = do { w \<leftarrow> get_at d (unat (c div 32)); Some (w AND bitp c \<noteq> 0) }"

definition add_delim :: "u32 list \<Rightarrow> u32 \<Rightarrow> u32 list option" where
  "add_delim d c = do { w \<leftarrow> get_at d (unat (c div 32)); put_at d (unat (c div 32)) (w OR bitp c) }"

fun add_delims :: "u32 list \<Rightarrow> u32 list \<Rightarrow> u32 list option" where
  "add_delims d [] = Some d"
| "add_delims d (c # cs) = do { d \<leftarrow> add_delim d c; add_delims d cs }"

section \<open>Trimming\<close>

function skip_ws :: "u8 list \<Rightarrow> nat \<Rightarrow> nat option option" where
  "skip_ws m i =
    do { c \<leftarrow> get_at m i; if c = 0 then Some None else if isspace8 c then skip_ws m (i + 1) else Some (Some i) }"
  by pat_completeness auto
termination by (relation "measure (\<lambda>(m, i). length m - i)") auto

function trim_copy :: "u8 list \<Rightarrow> nat \<Rightarrow> nat \<Rightarrow> nat \<Rightarrow> (u8 list \<times> nat) option" where
  "trim_copy m ptr str str_end =
    do { c \<leftarrow> get_at m str;
         m \<leftarrow> put_at m ptr c;
         if c = 0 then Some (m, str_end)
         else trim_copy m (ptr + 1) (str + 1) (if isspace8 c then str_end else ptr) }"
  by pat_completeness auto
termination by (relation "measure (\<lambda>(m, p, s, e). length m - s)") auto

declare skip_ws.simps [simp del] trim_copy.simps [simp del]

definition strtrim :: "u8 list \<Rightarrow> u8 list option" where
  "strtrim m =
    do { r \<leftarrow> skip_ws m 0;
         case r of
           None \<Rightarrow> put_at m 0 0
         | Some i \<Rightarrow> do { (m, e) \<leftarrow> trim_copy m 0 i 0; put_at m (e + 1) 0 } }"

section \<open>Facts\<close>

definition rtrim :: "u8 list \<Rightarrow> u8 list" where
  "rtrim s = rev (dropWhile isspace8 (rev s))"

definition trim :: "u8 list \<Rightarrow> u8 list" where
  "trim s = rtrim (dropWhile isspace8 s)"

lemma takeWhile_upto_0: "0 \<notin> set s \<Longrightarrow> takeWhile (\<lambda>b. b \<noteq> (0 :: u8)) (s @ 0 # t) = s"
  by (induction s) auto

lemma c_str_app: "0 \<notin> set s \<Longrightarrow> c_str (s @ 0 # t) = Some s"
  by (simp add: c_str_def takeWhile_upto_0)

lemma c_str_SomeD: "c_str m = Some s \<Longrightarrow> \<exists>t. m = s @ 0 # t \<and> 0 \<notin> set s"
proof -
  assume a: "c_str m = Some s"
  then have s: "0 \<in> set m" "s = takeWhile (\<lambda>b. b \<noteq> 0) m" by (auto simp: c_str_def split: if_splits)
  then obtain u t where "m = u @ 0 # t" "0 \<notin> set u" by (meson split_list_first)
  then show ?thesis using s by (auto simp: takeWhile_upto_0)
qed

lemma rtrim_Cons: "rtrim (c # s) = (if rtrim s = [] \<and> isspace8 c then [] else c # rtrim s)"
proof (cases "\<forall>x \<in> set s. isspace8 x")
  case True
  then have "dropWhile isspace8 (rev s @ [c]) = dropWhile isspace8 [c]" by (subst dropWhile_append2) auto
  then show ?thesis using True by (auto simp: rtrim_def)
next
  case False
  then obtain x where "x \<in> set (rev s)" "\<not> isspace8 x" by auto
  then show ?thesis by (auto simp: rtrim_def dropWhile_append1)
qed

lemma rtrim_Nil [simp]: "rtrim [] = []"
  by (simp add: rtrim_def)

lemma take_rtrim: "take (length (rtrim s)) s = rtrim s"
  by (induction s) (auto simp: rtrim_Cons)

lemma skip_ws_eq:
  assumes "i \<le> length m" "drop i m = s @ 0 # t" "0 \<notin> set s"
  shows "skip_ws m i = Some (if dropWhile isspace8 s = [] then None else Some (i + length (takeWhile isspace8 s)))"
  using assms
proof (induction s arbitrary: i)
  case Nil
  then have "i < length m" "m ! i = 0" by (metis drop_eq_Nil le_less list.distinct(1) append_Nil, metis append_Nil drop_eq_Nil le_less list.distinct(1) nth_via_drop)
  then show ?case by (subst skip_ws.simps) (simp add: mem_simps)
next
  case (Cons c s)
  then have i: "i < length m" "m ! i = c" by (metis append_Cons drop_eq_Nil linorder_not_less list.distinct(1), metis append_Cons nth_via_drop)
  have "drop (i + 1) m = s @ 0 # t" using Cons.prems(2) by (metis Suc_eq_plus1 append_Cons drop_Suc list.sel(3) tl_drop)
  then have "skip_ws m (i + 1) = Some (if dropWhile isspace8 s = [] then None else Some (i + 1 + length (takeWhile isspace8 s)))"
    using Cons.IH [of "i + 1"] Cons.prems i by simp
  then show ?case using i Cons.prems(3) by (subst skip_ws.simps) (simp add: mem_simps)
qed

lemma trim_copy_eq:
  assumes "p \<le> q" "drop q m = s @ 0 # t" "0 \<notin> set s" "q < length m"
  shows "trim_copy m p q e = Some (take p m @ s @ [0] @ drop (p + length s + 1) m, if rtrim s = [] then e else p + length (rtrim s) - 1)"
  using assms
proof (induction s arbitrary: m p q e)
  case Nil
  then have "m ! q = 0" by (simp add: nth_via_drop)
  then show ?case using Nil by (subst trim_copy.simps) (simp add: mem_simps upd_conv_take_nth_drop)
next
  case (Cons c s)
  define m' where "m' = m[p := c]"
  have q: "m ! q = c" "c \<noteq> 0" using Cons.prems by (auto simp: nth_via_drop)
  have d: "drop (Suc q) m = s @ 0 # t" using Cons.prems(2) by (metis append_Cons drop_Suc list.sel(3) tl_drop)
  then have "Suc q < length m" by (metis append_is_Nil_conv drop_eq_Nil linorder_not_less list.distinct(1))
  then have "trim_copy m' (Suc p) (Suc q) e' = Some (take (Suc p) m' @ s @ [0] @ drop (Suc p + length s + 1) m',
      if rtrim s = [] then e' else Suc p + length (rtrim s) - 1)" for e'
    using Cons.IH [of "Suc p" "Suc q" m' e'] Cons.prems d by (simp add: m'_def)
  moreover have "take (Suc p) m' = take p m @ [c]" using Cons.prems by (simp add: m'_def take_Suc_conv_app_nth)
  moreover have "drop (Suc p + length s + 1) m' = drop (p + length (c # s) + 1) m" by (simp add: m'_def)
  ultimately show ?case using q Cons.prems by (subst trim_copy.simps) (auto simp: mem_simps rtrim_Cons simp flip: m'_def)
qed

lemma trimmed_buffer:
  assumes m: "m = s @ 0 # t" "0 \<notin> set s" and i: "skip_ws m 0 = Some (Some i)"
  shows "\<exists>m1 e. trim_copy m 0 i 0 = Some (m1, e) \<and> e + 1 < length m1 \<and> length m1 = length m \<and> e + 1 = length (trim s) \<and>
    take (e + 1) (m1[e + 1 := 0]) = trim s"
proof -
  define u where "u = dropWhile isspace8 s"
  have "skip_ws m 0 = Some (if u = [] then None else Some (length (takeWhile isspace8 s)))"
    using skip_ws_eq [of 0 m s t] m by (simp add: u_def)
  then have u: "u \<noteq> []" "i = length (takeWhile isspace8 s)" using i by (auto split: if_splits)
  have "s = takeWhile isspace8 s @ u" by (simp add: u_def)
  then have s: "drop i m = u @ 0 # t" "length s = i + length u" "0 \<notin> set u" using m u(2)
    by (metis append_assoc append_eq_conv_conj, metis length_append, metis Un_iff set_append)
  have "trim_copy m 0 i 0 = Some (u @ [0] @ drop (length u + 1) m, if rtrim u = [] then 0 else length (rtrim u) - 1)"
    using trim_copy_eq [of 0 i m u t 0] s m by simp
  moreover obtain c v where c: "u = c # v" using u(1) by (cases u) auto
  moreover have "\<not> isspace8 c" using c by (metis u_def hd_dropWhile list.sel(1) u(1))
  ultimately have tc: "trim_copy m 0 i 0 = Some (u @ [0] @ drop (length u + 1) m, length (rtrim u) - 1)" "rtrim u \<noteq> []"
    by (auto simp: rtrim_Cons)
  have l: "length (rtrim u) \<le> length u" "0 < length (rtrim u)" using take_rtrim [of u] tc(2) by (metis length_take min.cobounded1, simp)
  define m1 where "m1 = u @ [0] @ drop (length u + 1) m"
  have "take (length (rtrim u)) (m1[length (rtrim u) := 0]) = rtrim u"
    using l(1) take_rtrim [of u] by (simp add: m1_def)
  moreover have "length m1 = length m" "length (rtrim u) < length m" using s(2) m(1) l(1) by (simp_all add: m1_def)
  moreover have "trim_copy m 0 i 0 = Some (m1, length (rtrim u) - 1)" using tc(1) by (simp add: m1_def)
  ultimately show ?thesis using l(2) by (simp add: trim_def u_def [symmetric])
qed

section \<open>Delimiter sets\<close>

lemma bitp_index: "unat c < 256 \<Longrightarrow> unat (c div 32) < 8" "bitp c = push_bit (unat c mod 32) 1"
  by (auto simp: bitp_def unat_div unat_mod)

lemma and_bitp: "w AND bitp c \<noteq> 0 \<longleftrightarrow> bit w (unat c mod 32)"
  by (simp add: bitp_index(2) and_exp_eq_0_iff_not_bit)

lemma bit_or_bitp: "bit (w OR bitp c) (unat x mod 32) \<longleftrightarrow> bit w (unat x mod 32) \<or> unat x mod 32 = unat c mod 32"
proof -
  have "unat c mod 32 < 32" by simp
  then show ?thesis unfolding bitp_index(2) by (auto simp: bit_or_iff bit_simps)
qed

lemma add_delim_ok:
  assumes "length d = 8" "unat c < 256"
  shows "\<exists>d'. add_delim d c = Some d' \<and> length d' = 8 \<and>
    (\<forall>x. unat x < 256 \<longrightarrow> is_delim d' x = map_option (\<lambda>b. b \<or> x = c) (is_delim d x))"
proof -
  have i: "unat c div 32 < length d" using assms by simp
  define d' where "d' = d[unat c div 32 := d ! (unat c div 32) OR bitp c]"
  have "is_delim d' x = map_option (\<lambda>b. b \<or> x = c) (is_delim d x)" if x: "unat x < 256" for x
  proof -
    have "unat x div 32 < length d" using x assms(1) by simp
    moreover have "x = c \<longleftrightarrow> unat x div 32 = unat c div 32 \<and> unat x mod 32 = unat c mod 32"
      by (metis div_mult_mod_eq unat_inj)
    ultimately show ?thesis
      using i by (auto simp: is_delim_def and_bitp bit_or_bitp mem_simps unat_div d'_def nth_list_update)
  qed
  then show ?thesis using i assms(1) by (auto simp: add_delim_def mem_simps unat_div d'_def)
qed

lemma add_delims_ok:
  assumes "length d = 8" "\<forall>c \<in> set cs. unat c < 256"
  shows "\<exists>d'. add_delims d cs = Some d' \<and> length d' = 8 \<and>
    (\<forall>x. unat x < 256 \<longrightarrow> is_delim d' x = map_option (\<lambda>b. b \<or> x \<in> set cs) (is_delim d x))"
  using assms
proof (induction cs arbitrary: d)
  case (Cons c cs)
  obtain d1 where d1: "add_delim d c = Some d1" "length d1 = 8" "\<forall>x. unat x < 256 \<longrightarrow> is_delim d1 x = map_option (\<lambda>b. b \<or> x = c) (is_delim d x)"
    using add_delim_ok [of d c] Cons.prems by auto
  obtain d2 where "add_delims d1 cs = Some d2" "length d2 = 8" "\<forall>x. unat x < 256 \<longrightarrow> is_delim d2 x = map_option (\<lambda>b. b \<or> x \<in> set cs) (is_delim d1 x)"
    using Cons.IH [OF d1(2)] Cons.prems by auto
  then show ?case using d1 by (auto simp: option.map_comp comp_def intro!: option.map_cong)
qed (auto simp: option.map_id0 intro: option.map_ident [symmetric])

lemma delims_of:
  assumes "\<forall>c \<in> set cs. unat c < 256"
  shows "\<exists>d. add_delims init_delim cs = Some d \<and> (\<forall>x. unat x < 256 \<longrightarrow> is_delim d x = Some (x \<in> set cs))"
proof -
  have "is_delim init_delim x = Some False" if "unat x < 256" for x
    using that by (simp add: is_delim_def init_delim_def mem_simps unat_div)
  then show ?thesis using add_delims_ok [of init_delim cs] assms by (fastforce simp: init_delim_def)
qed

lemma unat_char: "unat (ucast (c :: u8) :: u32) < 256"
proof -
  have "unat c < 256" using unsigned_less [of c, where 'a = nat] by simp
  then show ?thesis by (simp add: unsigned_ucast_eq take_bit_nat_eq_self)
qed

lemma char_int_ascii: "c < 128 \<Longrightarrow> char_int c = ucast c"
proof -
  assume "c < 128"
  then have "unat c < 128" by (simp add: word_less_nat_alt)
  then have "\<not> bit (unat c) 7" by (simp add: bit_iff_odd)
  then have "\<not> bit c 7" by (simp add: bit_unsigned_iff)
  moreover have "n = 7" if "bit c n" "7 \<le> n" for n using bit_imp_le_length [OF that(1)] that(2) by simp
  ultimately show ?thesis unfolding char_int_def by (intro bit_word_eqI) (auto simp: bit_simps min_def)
qed

lemma char_int_high:
  assumes "128 \<le> b"
  shows "2 ^ 31 \<le> unat (char_int b)"
proof -
  have "b AND 128 \<noteq> 0"
  proof -
    have "unat b < 256" "128 \<le> unat b" using assms unsigned_less [of b, where 'a = nat] by (simp_all add: word_le_nat_alt)
    then have "unat b div 128 = 1" by simp
    then have "bit (unat b) 7" by (simp add: bit_iff_odd)
    then have "bit b 7" by (simp add: bit_unsigned_iff)
    then show ?thesis using and_exp_eq_0_iff_not_bit [of b 7] by simp
  qed
  then have "bit b 7" using and_exp_eq_0_iff_not_bit [of b 7] by simp
  then have "bit (char_int b) 31" unfolding char_int_def by (simp add: bit_simps)
  then have "bit (unat (char_int b)) 31" by (simp add: bit_unsigned_iff)
  then have "unat (char_int b) div 2 ^ 31 \<noteq> 0" by (metis bit_iff_odd even_zero)
  then show ?thesis by (simp add: div_eq_0_iff)
qed

lemma is_delim_high: "length d = 8 \<Longrightarrow> 128 \<le> b \<Longrightarrow> is_delim d (char_int b) = None"
proof -
  assume "length d = 8" "128 \<le> b"
  moreover have "8 \<le> unat (char_int b) div 32" using char_int_high [OF \<open>128 \<le> b\<close>] by simp
  ultimately show ?thesis by (simp add: is_delim_def get_at_def unat_div)
qed

end
