(* ===== verification/Gstring.thy ===== *)
theory Gstring
  imports Cstring Alloc Bits Map_Spec
begin

text \<open>
  The growable strings of \<open>src/gstring.c\<close>. The buffer \<open>g_str\<close> is a list of \<open>g_cap\<close> bytes; \<open>E\<close> is the allocator's part (\<open>Alloc\<close>), used with elements of one
  byte. A buffer access out of range and a failing assertion are \<open>None\<close>. A C string argument is its bytes without the
  terminator; a pointer that may be null is an option. Two distinct strings do not share a buffer.
\<close>

record gstr =
  g_str :: "u8 list"
  g_len :: u64
  g_cap :: u64

definition grow_if :: "u8 venv \<Rightarrow> gstr \<Rightarrow> u32 \<Rightarrow> gstr option" where
  "grow_if E g n =
    (let want = g_len g + signed n + 1 in
     if g_cap g < want
     then let want = NEXTPOW2 want; s = RENEWA E (g_str g) want
          in if ve_ok E then Some (g\<lparr>g_str := s, g_cap := want\<rparr>) else None
     else Some g)"

definition init_gstr :: "u8 venv \<Rightarrow> u64 \<Rightarrow> u8 list option \<Rightarrow> gstr option" where
  "init_gstr E n src =
    (let n = (if n = 0 then 63 else n); cap = NEXTPOW2 (n + 1); s = NEWZA E cap in
     if \<not> ve_ok E then None
     else case src of
       Some t \<Rightarrow> do { s \<leftarrow> copy_into s 0 (t @ [0]) (length t + 1); Some \<lparr>g_str = s, g_len = of_nat (length t), g_cap = cap\<rparr> }
     | None \<Rightarrow> Some \<lparr>g_str = s, g_len = 0, g_cap = cap\<rparr>)"

definition gstr_init :: "u8 venv \<Rightarrow> u64 \<Rightarrow> gstr option" where
  "gstr_init E n = init_gstr E n None"

definition gstr_dup :: "u8 venv \<Rightarrow> gstr \<Rightarrow> gstr option" where
  "gstr_dup E s = do { t \<leftarrow> c_str (g_str s); init_gstr E (g_len s) (Some t) }"

definition gstr_init_from :: "u8 venv \<Rightarrow> u8 list option \<Rightarrow> gstr option" where
  "gstr_init_from E s = (let n = (case s of Some t \<Rightarrow> of_nat (length t) | None \<Rightarrow> 0) in init_gstr E n s)"

definition gstr_fini :: "gstr \<Rightarrow> gstr" where
  "gstr_fini g = \<lparr>g_str = [], g_len = 0, g_cap = 0\<rparr>"

definition append_mem :: "u8 venv \<Rightarrow> gstr \<Rightarrow> u8 list \<Rightarrow> u64 \<Rightarrow> (u64 \<times> gstr) option" where
  "append_mem E g str n =
    do { g \<leftarrow> grow_if E g (ucast (n + 1));
         s \<leftarrow> copy_into (g_str g) (unat (g_len g)) str (unat (n + 1));
         let g = g\<lparr>g_str := s, g_len := g_len g + n\<rparr> in Some (g_len g, g) }"

definition gstr_append_str :: "u8 venv \<Rightarrow> gstr \<Rightarrow> u8 list option \<Rightarrow> (u64 \<times> gstr) option" where
  "gstr_append_str E g str =
    (case str of Some t \<Rightarrow> append_mem E g (t @ [0]) (of_nat (length t)) | None \<Rightarrow> Some (g_len g, g))"

definition gstr_append :: "u8 venv \<Rightarrow> gstr \<Rightarrow> gstr option \<Rightarrow> (u32 \<times> gstr) option" where
  "gstr_append E g that =
    (case that of Some t \<Rightarrow> map_option (apfst ucast) (append_mem E g (g_str t) (g_len t)) | None \<Rightarrow> Some (ucast (g_len g), g))"

definition gstr_append_ch :: "u8 venv \<Rightarrow> gstr \<Rightarrow> u32 \<Rightarrow> (u32 \<times> gstr) option" where
  "gstr_append_ch E g ch =
    do { g \<leftarrow> grow_if E g 1;
         s \<leftarrow> put_at (g_str g) (unat (g_len g)) (ucast ch);
         let n = g_len g + 1 in
         do { s \<leftarrow> put_at s (unat n) 0; Some (ucast n, g\<lparr>g_str := s, g_len := n\<rparr>) } }"

definition gstr_truncate :: "gstr \<Rightarrow> u64 \<Rightarrow> (u32 \<times> gstr) option" where
  "gstr_truncate g n =
    (if g_len g > n then do { s \<leftarrow> put_at (g_str g) (unat n) 0; Some (ucast n, g\<lparr>g_str := s, g_len := n\<rparr>) }
     else Some (ucast (g_len g), g))"

definition gstr_reset :: "gstr \<Rightarrow> gstr option" where
  "gstr_reset g = do { s \<leftarrow> put_at (g_str g) 0 0; Some (g\<lparr>g_len := 0, g_str := s\<rparr>) }"

text \<open>\<open>g->str[--g->len] = 0\<close>\<close>

definition drop_last :: "gstr \<Rightarrow> gstr option" where
  "drop_last g = (let n = g_len g - 1 in do { s \<leftarrow> put_at (g_str g) (unat n) 0; Some (g\<lparr>g_str := s, g_len := n\<rparr>) })"

definition last_char :: "gstr \<Rightarrow> u8 option" where
  "last_char g = get_at (g_str g) (unat (g_len g - 1))"

definition gstr_chop :: "gstr \<Rightarrow> (u32 \<times> gstr) option" where
  "gstr_chop g =
    (if g_len g > 0
     then do { c \<leftarrow> last_char g;
               g \<leftarrow> (if c = 10 then drop_last g else Some g);
               if g_len g > 0
               then do { cr \<leftarrow> last_char g;
                         if cr = 13 then do { g \<leftarrow> drop_last g; Some (char_int cr, g) } else Some (char_int c, g) }
               else Some (char_int c, g) }
     else Some (0, g))"

definition gstr_chop_if :: "gstr \<Rightarrow> u8 list \<Rightarrow> (u32 \<times> gstr) option" where
  "gstr_chop_if g s =
    (if g_len g = 0 then Some (0, g)
     else do { c \<leftarrow> last_char g;
               g \<leftarrow> (if c \<noteq> 0 \<and> c \<in> set s then drop_last g else Some g);
               Some (char_int c, g) })"

definition gstr_copy :: "u8 venv \<Rightarrow> gstr \<Rightarrow> gstr \<Rightarrow> gstr option" where
  "gstr_copy E dest src =
    do { dest \<leftarrow> grow_if E (dest\<lparr>g_len := 0\<rparr>) (ucast (g_len src + 1));
         s \<leftarrow> copy_into (g_str dest) 0 (g_str src) (unat (g_len src + 1));
         Some (dest\<lparr>g_str := s\<rparr>) }"

definition gstr_trim :: "gstr \<Rightarrow> gstr option" where
  "gstr_trim g =
    do { r \<leftarrow> skip_ws (g_str g) 0;
         case r of
           None \<Rightarrow> do { s \<leftarrow> put_at (g_str g) 0 0; Some (g\<lparr>g_str := s, g_len := 0\<rparr>) }
         | Some i \<Rightarrow> do { (s, e) \<leftarrow> trim_copy (g_str g) 0 i 0;
                        s \<leftarrow> put_at s (e + 1) 0;
                        Some (g\<lparr>g_str := s, g_len := of_nat (e + 1)\<rparr>) } }"

definition gstr_unquote :: "gstr \<Rightarrow> (u32 \<times> gstr) option" where
  "gstr_unquote g =
    do { q \<leftarrow> get_at (g_str g) 0;
         if q \<noteq> 34 \<and> q \<noteq> 39 then Some (0, g)
         else do { z \<leftarrow> last_char g;
                   if z \<noteq> q then Some (- 1, g)
                   else do { g \<leftarrow> drop_last g;
                             s \<leftarrow> copy_into (g_str g) 0 (drop 1 (g_str g)) (unat (g_len g));
                             Some (char_int q, g\<lparr>g_str := s\<rparr>) } } }"

text \<open>
  \<open>gstr_readline\<close>: the stream is the list of the bytes before the end of file; the result is \<open>- ENOMEM\<close> or the length, with the
  string and the rest of the stream.
\<close>

fun read_loop :: "u8 venv \<Rightarrow> u32 list \<Rightarrow> gstr \<Rightarrow> nat \<Rightarrow> u8 list \<Rightarrow> (bool \<times> gstr \<times> nat \<times> u8 list) option" where
  "read_loop E d g n [] = Some (True, g, n, [])"
| "read_loop E d g n (c # cs) =
    (if unat (g_cap g) \<le> n \<and> \<not> ve_ok E then Some (False, g, n, cs)
     else let g = (if unat (g_cap g) \<le> n
                   then let cap = g_cap g * 2 in g\<lparr>g_str := RENEWA E (g_str g) cap, g_cap := cap\<rparr> else g)
          in do { stop \<leftarrow> is_delim d (ucast c);
                  if stop then Some (True, g, n, cs)
                  else do { s \<leftarrow> put_at (g_str g) n c; read_loop E d (g\<lparr>g_str := s\<rparr>) (n + 1) cs } })"

definition gstr_readline :: "u8 venv \<Rightarrow> gstr \<Rightarrow> u8 list \<Rightarrow> u8 list \<Rightarrow> (u32 res \<times> gstr \<times> u8 list) option" where
  "gstr_readline E g fp tok =
    do { d \<leftarrow> add_delims init_delim (map char_int tok);
         (ok, g, n, fp) \<leftarrow> read_loop E d (g\<lparr>g_len := 0\<rparr>) 0 fp;
         if \<not> ok then Some (Inl ENOMEM, g, fp)
         else do { s \<leftarrow> put_at (g_str g) n 0; Some (Inr (of_nat n), g\<lparr>g_str := s, g_len := of_nat n\<rparr>, fp) } }"

definition gstr_eq :: "gstr \<Rightarrow> gstr \<Rightarrow> bool" where
  "gstr_eq a b \<longleftrightarrow> g_len a = g_len b \<and> take (unat (g_len a)) (g_str a) = take (unat (g_len a)) (g_str b)"

definition gstr_eq_str :: "gstr \<Rightarrow> u8 list \<Rightarrow> bool option" where
  "gstr_eq_str a s = map_option (\<lambda>t. t = s) (c_str (g_str a))"

section \<open>Representation\<close>

definition genv_ok :: "u8 venv \<Rightarrow> bool" where
  "genv_ok E \<longleftrightarrow> ve_ok E \<and> ve_sizeof E = 1 \<and> ve_zero E = 0"

text \<open>The buffer holds the string \<open>s\<close>, its terminator, and anything behind it.\<close>

definition g_rep :: "gstr \<Rightarrow> u8 list \<Rightarrow> bool" where
  "g_rep g s \<longleftrightarrow> (\<exists>t. g_str g = s @ 0 # t) \<and> 0 \<notin> set s \<and> unat (g_len g) = length s \<and>
     length (g_str g) = unat (g_cap g) \<and> unat (g_cap g) \<le> 2 ^ 40"

definition text_of :: "gstr \<Rightarrow> u8 list" where
  "text_of g = take (unat (g_len g)) (g_str g)"

definition g_ok :: "gstr \<Rightarrow> bool" where
  "g_ok g \<longleftrightarrow> g_rep g (text_of g)"

lemma g_rep_text: "g_rep g s \<Longrightarrow> g_ok g \<and> text_of g = s"
  by (auto simp: g_rep_def g_ok_def text_of_def)

lemma g_repD:
  assumes "g_rep g s"
  shows "unat (g_len g) = length s" "length s < length (g_str g)" "g_str g ! length s = 0" "take (length s) (g_str g) = s" "0 \<notin> set s"
    "c_str (g_str g) = Some s"
  using assms c_str_app by (auto simp: g_rep_def)

text \<open>To establish the representation after an update of the buffer: the string and its terminator are there.\<close>

lemma g_repI:
  assumes "take (length s) m = s" "length s < length m" "m ! length s = 0" "0 \<notin> set s" "unat n = length s"
    "length m = unat (g_cap g)" "unat (g_cap g) \<le> 2 ^ 40"
  shows "g_rep (g\<lparr>g_str := m, g_len := n\<rparr>) s"
proof -
  have "m = s @ 0 # drop (Suc (length s)) m" using assms(1-3) id_take_nth_drop [of "length s" m] by simp
  then have "\<exists>t. m = s @ 0 # t" by blast
  then show ?thesis using assms(4-7) by (simp add: g_rep_def)
qed

lemma signed_pos: "unat (n :: u32) < 2 ^ 31 \<Longrightarrow> unat (signed n :: u64) = unat n"
proof -
  assume n: "unat n < 2 ^ 31"
  have "(signed n :: u64) = of_int (sint n)" by simp
  also have "\<dots> = of_nat (unat n)" using sint_small [OF n] by simp
  finally show ?thesis using n by (simp add: unat_of_nat)
qed

lemma grow_if_ok:
  assumes E: "genv_ok E" and g: "g_rep g s" and n: "unat n \<le> 2 ^ 30" and l: "length s \<le> 2 ^ 38"
  shows "\<exists>g'. grow_if E g n = Some g' \<and> g_rep g' s \<and> g_len g' = g_len g \<and> length s + unat n + 1 \<le> unat (g_cap g')"
proof -
  define want where "want = g_len g + signed n + 1"
  have w: "unat want = length s + unat n + 1" using n l g_repD(1) [OF g] signed_pos [of n] by (simp add: want_def unat_word_ariths)
  show ?thesis
  proof (cases "g_cap g < want")
    case False
    then show ?thesis using g w by (simp add: grow_if_def word_less_nat_alt flip: want_def)
  next
    case True
    have e: "unat (NEXTPOW2 want) = 2 ^ bitlen (want - 1)" "unat want \<le> 2 ^ bitlen (want - 1)" "bitlen (want - 1) \<le> 39"
      using NEXTPOW2_char [of want] w n l by auto
    have le: "unat (NEXTPOW2 want) \<le> 2 ^ 39" using e by (simp only:) (rule power_increasing, simp_all)
    have c: "count_of E (NEXTPOW2 want) = unat (NEXTPOW2 want)" using count_of_eq [of E "NEXTPOW2 want"] E le by (simp add: env_ok_def genv_ok_def)
    obtain t where t: "g_str g = s @ 0 # t" "length (g_str g) = unat (g_cap g)" using g by (auto simp: g_rep_def)
    have lt: "length (g_str g) < unat (NEXTPOW2 want)" using True t(2) e(1,2) by (simp add: word_less_nat_alt)
    define m where "m = RENEWA E (g_str g) (NEXTPOW2 want)"
    have m: "m = s @ 0 # t @ map (ve_junk E) [length (g_str g)..<unat (NEXTPOW2 want)]"
      using E c lt t(1) by (simp add: m_def RENEWA_def genv_ok_def)
    moreover have "length m = unat (NEXTPOW2 want)" using E c lt by (simp add: m_def RENEWA_def genv_ok_def)
    ultimately have "g_rep (g\<lparr>g_str := m, g_cap := NEXTPOW2 want\<rparr>) s" using g le by (auto simp: g_rep_def)
    then show ?thesis using True E e(1,2) w by (simp add: grow_if_def Let_def genv_ok_def flip: want_def m_def)
  qed
qed

lemma gstr_init_ok:
  assumes E: "genv_ok E" and n: "unat n \<le> 2 ^ 38"
  shows "\<exists>g. gstr_init E n = Some g \<and> g_rep g []"
proof -
  define k where "k = (if n = 0 then 63 else n)"
  have k: "unat (k + 1) = unat k + 1" "0 < unat k" "unat k \<le> 2 ^ 38" using n by (auto simp: k_def unat_word_ariths unat_gt_0)
  have e: "unat (NEXTPOW2 (k + 1)) = 2 ^ bitlen (k + 1 - 1)" "bitlen (k + 1 - 1) \<le> 39"
    using NEXTPOW2_char [of "k + 1"] k by auto
  have le: "unat (NEXTPOW2 (k + 1)) \<le> 2 ^ 39" using e by (simp only:) (rule power_increasing, simp_all)
  obtain j where j: "unat (NEXTPOW2 (k + 1)) = Suc j" using e(1) by (metis not0_implies_Suc power_not_zero zero_neq_numeral)
  then have "NEWZA E (NEXTPOW2 (k + 1)) = 0 # replicate j 0" using E by (simp add: NEWZA_def genv_ok_def)
  then show ?thesis using E le j by (simp add: gstr_init_def init_gstr_def Let_def genv_ok_def g_rep_def flip: k_def)
qed

section \<open>The operations\<close>

lemma append_mem_ok:
  assumes E: "genv_ok E" and g: "g_rep g s" and x: "x = u @ 0 # t" "0 \<notin> set u" and n: "unat n = length u" "length u < 2 ^ 30"
    and l: "length s \<le> 2 ^ 38"
  shows "\<exists>g'. append_mem E g x n = Some (g_len g', g') \<and> g_rep g' (s @ u)"
proof -
  have n1: "unat (n + 1) = length u + 1" "unat (ucast (n + 1) :: u32) = length u + 1"
    using n by (simp_all add: unat_word_ariths unsigned_ucast_eq take_bit_nat_eq_self_iff)
  obtain g1 where g1: "grow_if E g (ucast (n + 1)) = Some g1" "g_rep g1 s" "g_len g1 = g_len g" "length s + (length u + 1) + 1 \<le> unat (g_cap g1)"
    using grow_if_ok [OF E g, of "ucast (n + 1)"] n n1 l by auto
  note d = g_repD [OF g1(2)]
  have lm: "length (g_str g1) = unat (g_cap g1)" "unat (g_cap g1) \<le> 2 ^ 40" using g1(2) by (auto simp: g_rep_def)
  define m where "m = s @ u @ 0 # drop (length s + length u + 1) (g_str g1)"
  have "copy_into (g_str g1) (unat (g_len g1)) x (unat (n + 1)) = Some m"
    using d g1(4) lm x(1) n1(1) by (simp add: copy_into_eq m_def)
  then have "append_mem E g x n = Some (g_len g1 + n, g1\<lparr>g_str := m, g_len := g_len g1 + n\<rparr>)"
    using g1(1) by (simp add: append_mem_def Let_def)
  moreover have "g_rep (g1\<lparr>g_str := m, g_len := g_len g1 + n\<rparr>) (s @ u)"
    by (rule g_repI) (use d x(2) n l lm g1(4) in \<open>auto simp: m_def unat_word_ariths nth_append\<close>)
  ultimately show ?thesis by auto
qed

lemma append_ch_ok:
  assumes E: "genv_ok E" and g: "g_rep g s" and c: "ucast c \<noteq> (0 :: u8)" and l: "length s \<le> 2 ^ 38"
  shows "\<exists>g'. gstr_append_ch E g c = Some (ucast (g_len g'), g') \<and> g_rep g' (s @ [ucast c])"
proof -
  obtain g1 where g1: "grow_if E g 1 = Some g1" "g_rep g1 s" "g_len g1 = g_len g" "length s + 1 + 1 \<le> unat (g_cap g1)"
    using grow_if_ok [OF E g, of 1] l by auto
  note d = g_repD [OF g1(2)]
  have lm: "length (g_str g1) = unat (g_cap g1)" "unat (g_cap g1) \<le> 2 ^ 40" using g1(2) by (auto simp: g_rep_def)
  have n: "unat (g_len g1 + 1) = length s + 1" using d(1) l by (simp add: unat_word_ariths)
  define m where "m = (g_str g1)[length s := ucast c, length s + 1 := 0]"
  have "gstr_append_ch E g c = Some (ucast (g_len g1 + 1), g1\<lparr>g_str := m, g_len := g_len g1 + 1\<rparr>)"
    using g1(1,4) d(1) lm n by (simp add: gstr_append_ch_def Let_def mem_simps m_def)
  moreover have "take (length s + 1) m = s @ [ucast c]" using d g1(4) lm by (simp add: m_def take_Suc_conv_app_nth)
  then have "g_rep (g1\<lparr>g_str := m, g_len := g_len g1 + 1\<rparr>) (s @ [ucast c])"
    by (intro g_repI) (use d c n lm g1(4) in \<open>auto simp: m_def\<close>)
  ultimately show ?thesis by auto
qed

lemma append_few:
  assumes "genv_ok E" "g_rep g s" "0 \<notin> set u" "length u \<le> 2 ^ 20" "length s \<le> 2 ^ 38"
  shows "\<exists>r g'. gstr_append_str E g (Some u) = Some (r, g') \<and> g_rep g' (s @ u)"
proof -
  have "unat (of_nat (length u) :: u64) = length u" using assms(4) by (simp add: unat_of_nat)
  then show ?thesis using append_mem_ok [OF assms(1,2) _ assms(3), of "u @ [0]" "[]" "of_nat (length u)"] assms(4,5)
    by (auto simp: gstr_append_str_def)
qed

lemma cut_ok:
  assumes g: "g_rep g s" and k: "k \<le> length s" "unat n = k"
  shows "g_rep (g\<lparr>g_str := (g_str g)[k := 0], g_len := n\<rparr>) (take k s)" "k < length (g_str g)"
proof -
  note d = g_repD [OF g]
  show "k < length (g_str g)" using d k by simp
  have "take k (g_str g) = take k s" using d(4) k(1) by (metis min.absorb1 take_take)
  then show "g_rep (g\<lparr>g_str := (g_str g)[k := 0], g_len := n\<rparr>) (take k s)"
    by (intro g_repI) (use d k g in \<open>auto simp: g_rep_def dest: in_set_takeD\<close>)
qed

lemma drop_last_ok:
  assumes g: "g_rep g s" and s: "s \<noteq> []"
  shows "last_char g = Some (last s)" "\<exists>g'. drop_last g = Some g' \<and> g_rep g' (butlast s)"
proof -
  note d = g_repD [OF g]
  have n: "unat (g_len g - 1) = length s - 1" using d(1) s by (simp add: unat_pred_u64 Suc_le_eq)
  have "last s = g_str g ! (length s - 1)" using d(4) s by (metis diff_less last_conv_nth length_greater_0_conv nth_take zero_less_one)
  then show "last_char g = Some (last s)" using n d(2) by (simp add: last_char_def mem_simps)
  show "\<exists>g'. drop_last g = Some g' \<and> g_rep g' (butlast s)"
    using cut_ok [OF g _ n] n by (simp add: drop_last_def Let_def mem_simps butlast_conv_take)
qed

definition chop_spec :: "u8 list \<Rightarrow> u8 \<times> u8 list" where
  "chop_spec s =
    (if s = [] then (0, s)
     else let u = (if last s = 10 then butlast s else s)
          in if u \<noteq> [] \<and> last u = 13 then (13, butlast u) else (last s, u))"

lemma len_pos: "g_rep g s \<Longrightarrow> g_len g > 0 \<longleftrightarrow> s \<noteq> []" "g_rep g s \<Longrightarrow> g_len g = 0 \<longleftrightarrow> s = []"
  using g_repD(1) [of g s] by (simp_all add: word_less_nat_alt, metis length_0_conv unat_0 unat_eq_0)

lemma chop_ok:
  assumes g: "g_rep g s"
  shows "\<exists>g'. gstr_chop g = Some (char_int (fst (chop_spec s)), g') \<and> g_rep g' (snd (chop_spec s))"
proof (cases "s = []")
  case True
  then show ?thesis using g len_pos [OF g] by (simp add: gstr_chop_def chop_spec_def char_int_def)
next
  case False
  define u where "u = (if last s = 10 then butlast s else s)"
  obtain g1 where g1: "(if last s = 10 then drop_last g else Some g) = Some g1" "g_rep g1 u"
    using drop_last_ok(2) [OF g False] g by (cases "last s = 10") (auto simp: u_def)
  have c: "gstr_chop g = (if g_len g1 > 0 then do { cr \<leftarrow> last_char g1;
      if cr = 13 then do { g \<leftarrow> drop_last g1; Some (char_int cr, g) } else Some (char_int (last s), g1) } else Some (char_int (last s), g1))"
    using False len_pos(1) [OF g] drop_last_ok(1) [OF g False] g1(1) by (simp add: gstr_chop_def split del: if_split)
  show ?thesis
  proof (cases "u = []")
    case True
    then show ?thesis using c g1(2) len_pos(1) [OF g1(2)] False by (simp add: chop_spec_def Let_def flip: u_def)
  next
    case ne: False
    obtain g2 where "drop_last g1 = Some g2" "g_rep g2 (butlast u)" using drop_last_ok(2) [OF g1(2) ne] by blast
    then show ?thesis using c g1(2) len_pos(1) [OF g1(2)] drop_last_ok(1) [OF g1(2) ne] False ne
      by (simp add: chop_spec_def Let_def flip: u_def)
  qed
qed

lemma chop_if_ok:
  assumes g: "g_rep g s"
  shows "\<exists>g'. gstr_chop_if g cs = Some (if s = [] then 0 else char_int (last s), g') \<and>
    g_rep g' (if s \<noteq> [] \<and> last s \<in> set cs then butlast s else s)"
proof (cases "s = []")
  case True
  then show ?thesis using g len_pos(2) [OF g] by (simp add: gstr_chop_if_def)
next
  case False
  have "last s \<noteq> 0" using g_repD(5) [OF g] False by (metis last_in_set)
  then show ?thesis using False len_pos(2) [OF g] drop_last_ok [OF g False] g by (auto simp: gstr_chop_if_def)
qed

lemma truncate_ok:
  assumes g: "g_rep g s"
  shows "\<exists>g'. gstr_truncate g n = Some (ucast (g_len g'), g') \<and> g_rep g' (take (unat n) s)"
proof (cases "g_len g > n")
  case True
  then have "unat n \<le> length s" using g_repD(1) [OF g] by (simp add: word_less_nat_alt)
  from cut_ok [OF g this refl] show ?thesis using True by (simp add: gstr_truncate_def mem_simps)
next
  case False
  then have "take (unat n) s = s" using g_repD(1) [OF g] by (simp add: word_less_nat_alt)
  then show ?thesis using False g by (auto simp: gstr_truncate_def)
qed

lemma reset_ok:
  assumes g: "g_rep g s"
  shows "\<exists>g'. gstr_reset g = Some g' \<and> g_rep g' []"
  using cut_ok [OF g, of 0 0] by (simp add: gstr_reset_def mem_simps g_rep_def)

lemma trim_ok:
  assumes g: "g_rep g s"
  shows "\<exists>g'. gstr_trim g = Some g' \<and> g_rep g' (trim s)"
proof -
  obtain t where t: "g_str g = s @ 0 # t" "length (g_str g) = unat (g_cap g)" "unat (g_cap g) \<le> 2 ^ 40" "0 \<notin> set s" using g by (auto simp: g_rep_def)
  have sk: "skip_ws (g_str g) 0 = Some (if dropWhile isspace8 s = [] then None else Some (length (takeWhile isspace8 s)))"
    using skip_ws_eq [of 0 "g_str g" s t] t by simp
  show ?thesis
  proof (cases "dropWhile isspace8 s = []")
    case True
    then have "trim s = []" by (simp only: trim_def rtrim_Nil)
    then show ?thesis using cut_ok [OF g, of 0 0] sk True by (simp add: gstr_trim_def mem_simps)
  next
    case False
    have i: "skip_ws (g_str g) 0 = Some (Some (length (takeWhile isspace8 s)))" unfolding sk using False by simp
    obtain m e where m: "trim_copy (g_str g) 0 (length (takeWhile isspace8 s)) 0 = Some (m, e)" "e + 1 < length m"
      "length m = length (g_str g)" "e + 1 = length (trim s)" "take (e + 1) (m[e + 1 := 0]) = trim s"
      using trimmed_buffer [OF t(1,4) i] by blast
    have sub: "set (trim s) \<subseteq> set s" unfolding trim_def rtrim_def by (auto dest!: set_dropWhileD)
    have "gstr_trim g = Some (g\<lparr>g_str := m[e + 1 := 0], g_len := of_nat (e + 1)\<rparr>)"
      using i m(1,2) by (simp add: gstr_trim_def mem_simps)
    moreover have "g_rep (g\<lparr>g_str := m[e + 1 := 0], g_len := of_nat (e + 1)\<rparr>) (trim s)"
    proof (rule g_repI)
      show "take (length (trim s)) (m[e + 1 := 0]) = trim s" "m[e + 1 := 0] ! length (trim s) = 0" using m by simp_all
      show "unat (of_nat (e + 1) :: u64) = length (trim s)" using m t by (simp add: unat_of_nat)
    qed (use m t sub in auto)
    ultimately show ?thesis by blast
  qed
qed

section \<open>Sequences of operations\<close>

text \<open>
  \<open>gstr_chop\<close> is left out: \<open>gstring.h\<close> and \<open>gstring.c\<close> document different functions of that name (\<open>chop_ok\<close> says what it does). \<open>gstr_chop_if\<close> is documented
  to return the chopped character; what it returns when nothing is chopped is not recorded, but for the empty string.
\<close>

datatype gop =
    GAppendStr "u8 venv" "u8 list" | GAppend "u8 venv" gstr | GAppendCh "u8 venv" u8 | GTruncate u64 | GChopIf "u8 list"
  | GTrim | GReset

datatype gres = GLen nat | GChar u32 | GDone

fun gstr_op :: "gop \<Rightarrow> gstr \<Rightarrow> (gres \<times> gstr) option" where
  "gstr_op (GAppendStr E s) g = map_option (apfst (\<lambda>n. GLen (unat n))) (gstr_append_str E g (Some s))"
| "gstr_op (GAppend E h) g = map_option (\<lambda>(n, g). (GDone, g)) (gstr_append E g (Some h))"
| "gstr_op (GAppendCh E c) g = map_option (\<lambda>(n, g). (GDone, g)) (gstr_append_ch E g (char_int c))"
| "gstr_op (GTruncate n) g = map_option (\<lambda>(n, g). (GLen (unat (g_len g)), g)) (gstr_truncate g n)"
| "gstr_op (GChopIf s) g =
    map_option (\<lambda>(c, g'). (if g_len g = 0 \<or> g_len g' \<noteq> g_len g then GChar c else GDone, g')) (gstr_chop_if g s)"
| "gstr_op GTrim g = map_option (Pair GDone) (gstr_trim g)"
| "gstr_op GReset g = map_option (Pair GDone) (gstr_reset g)"

fun gstr_spec :: "gop \<Rightarrow> u8 list \<Rightarrow> gres \<times> u8 list" where
  "gstr_spec (GAppendStr E s) x = (GLen (length (x @ s)), x @ s)"
| "gstr_spec (GAppend E h) x = (GDone, x @ text_of h)"
| "gstr_spec (GAppendCh E c) x = (GDone, x @ [c])"
| "gstr_spec (GTruncate n) x = (GLen (length (take (unat n) x)), take (unat n) x)"
| "gstr_spec (GChopIf s) x =
    (if x = [] then (GChar 0, []) else if last x \<in> set s then (GChar (char_int (last x)), butlast x) else (GDone, x))"
| "gstr_spec GTrim x = (GDone, trim x)"
| "gstr_spec GReset x = (GDone, [])"

fun gop_ok :: "gop \<Rightarrow> bool" where
  "gop_ok (GAppendStr E s) \<longleftrightarrow> genv_ok E \<and> 0 \<notin> set s \<and> length s \<le> 2 ^ 20"
| "gop_ok (GAppend E h) \<longleftrightarrow> genv_ok E \<and> g_ok h \<and> length (text_of h) \<le> 2 ^ 20"
| "gop_ok (GAppendCh E c) \<longleftrightarrow> genv_ok E \<and> c \<noteq> 0"
| "gop_ok x \<longleftrightarrow> True"

definition gstr_inv :: "nat \<Rightarrow> gstr \<Rightarrow> bool" where
  "gstr_inv n g \<longleftrightarrow> g_ok g \<and> length (text_of g) \<le> n * 2 ^ 20"

lemma ucast_char_int [simp]: "ucast (char_int c) = c"
  unfolding char_int_def by (rule bit_word_eqI) (auto simp: bit_simps)

lemma length_trim: "length (trim s) \<le> length s"
proof -
  have "length (rtrim u) \<le> length u" for u using take_rtrim [of u] by (metis length_take min.cobounded1)
  then show ?thesis using length_dropWhile_le [of isspace8 s] unfolding trim_def by (meson order_trans)
qed


lemma gstr_op_refines:
  assumes inv: "gstr_inv n g" and n: "n < 2 ^ 17" and ok: "gop_ok x"
  shows "\<exists>r g'. gstr_op x g = Some (r, g') \<and> gstr_inv (Suc n) g' \<and> (r, text_of g') = gstr_spec x (text_of g)"
proof -
  define s where "s = text_of g"
  have g: "g_rep g s" and l: "length s \<le> n * 2 ^ 20" using inv by (auto simp: gstr_inv_def g_ok_def s_def)
  have b: "length s \<le> 2 ^ 38" using l n by simp
  have fin: "gstr_inv (Suc n) g' \<and> text_of g' = u" if "g_rep g' u" "length u \<le> length s + 2 ^ 20" for g' u
    using that l g_rep_text [OF that(1)] by (simp add: gstr_inv_def)
  show ?thesis
  proof (cases x)
    case (GAppendStr E u)
    then have u: "genv_ok E" "0 \<notin> set u" "length u \<le> 2 ^ 20" using ok by auto
    have "unat (of_nat (length u) :: u64) = length u" using u(3) by (simp add: unat_of_nat)
    then obtain g' where g': "append_mem E g (u @ [0]) (of_nat (length u)) = Some (g_len g', g')" "g_rep g' (s @ u)"
      using append_mem_ok [OF u(1) g _ u(2), of "u @ [0]" "[]" "of_nat (length u)"] u(3) b by auto
    then show ?thesis using GAppendStr fin [OF g'(2)] u(3) g_repD(1) [OF g'(2)] by (simp add: gstr_append_str_def flip: s_def)
  next
    case (GAppend E h)
    then have h: "genv_ok E" "g_rep h (text_of h)" "length (text_of h) \<le> 2 ^ 20" using ok by (auto simp: g_ok_def)
    obtain t where "g_str h = text_of h @ 0 # t" using h(2) by (auto simp: g_rep_def)
    then obtain g' where g': "append_mem E g (g_str h) (g_len h) = Some (g_len g', g')" "g_rep g' (s @ text_of h)"
      using append_mem_ok [OF h(1) g _ g_repD(5) [OF h(2)], of "g_str h" t "g_len h"] g_repD(1) [OF h(2)] h(3) b by auto
    then show ?thesis using GAppend fin [OF g'(2)] h(3) by (simp add: gstr_append_def flip: s_def)
  next
    case (GAppendCh E c)
    then have c: "genv_ok E" "c \<noteq> 0" using ok by auto
    obtain g' where g': "gstr_append_ch E g (char_int c) = Some (ucast (g_len g'), g')" "g_rep g' (s @ [c])"
      using append_ch_ok [OF c(1) g, of "char_int c"] c b by auto
    then show ?thesis using GAppendCh fin [OF g'(2)] by (simp flip: s_def)
  next
    case (GTruncate k)
    obtain g' where g': "gstr_truncate g k = Some (ucast (g_len g'), g')" "g_rep g' (take (unat k) s)" using truncate_ok [OF g] by blast
    then show ?thesis using GTruncate fin [OF g'(2)] g_repD(1) [OF g'(2)] by (simp flip: s_def)
  next
    case (GChopIf cs)
    obtain g' where g': "gstr_chop_if g cs = Some (if s = [] then 0 else char_int (last s), g')"
      "g_rep g' (if s \<noteq> [] \<and> last s \<in> set cs then butlast s else s)" using chop_if_ok [OF g] by blast
    have "g_len g' \<noteq> g_len g \<longleftrightarrow> s \<noteq> [] \<and> last s \<in> set cs"
      using g_repD(1) [OF g] g_repD(1) [OF g'(2)] word_unat_eq_iff [of "g_len g'" "g_len g"] by (cases s) (auto split: if_splits)
    then show ?thesis using GChopIf g'(1) fin [OF g'(2)] len_pos(2) [OF g] by (auto simp flip: s_def split: if_splits)
  next
    case GTrim
    then show ?thesis using trim_ok [OF g] fin length_trim [of s] by (fastforce simp flip: s_def)
  next
    case GReset
    then show ?thesis using reset_ok [OF g] fin by (fastforce simp flip: s_def)
  qed
qed

interpretation gst: simulation gstr_op gstr_spec gstr_inv text_of gop_ok "2 ^ 17"
  by unfold_locales (rule gstr_op_refines)

section \<open>Reading lines\<close>

text \<open>The buffer after the check for room.\<close>

lemma grow2:
  assumes E: "genv_ok E" and m: "length (g_str g) = unat (g_cap g)" "n \<le> length (g_str g)" "0 < unat (g_cap g)" "unat (g_cap g) \<le> 2 ^ 39"
    and l: "n \<le> 2 ^ 38" and full: "unat (g_cap g) \<le> n"
  shows "length (RENEWA E (g_str g) (g_cap g * 2)) = unat (g_cap g * 2)" "n < unat (g_cap g * 2)" "unat (g_cap g * 2) \<le> 2 ^ 39"
    "take n (RENEWA E (g_str g) (g_cap g * 2)) = take n (g_str g)"
proof -
  have c: "unat (g_cap g * 2) = 2 * unat (g_cap g)" using m(4) by (simp add: unat_word_ariths)
  have n: "n = unat (g_cap g)" using full m(1,2) by simp
  have "count_of E (g_cap g * 2) = unat (g_cap g * 2)" using count_of_eq [of E "g_cap g * 2"] E c n l by (simp add: env_ok_def genv_ok_def)
  then show "length (RENEWA E (g_str g) (g_cap g * 2)) = unat (g_cap g * 2)" "n < unat (g_cap g * 2)" "unat (g_cap g * 2) \<le> 2 ^ 39"
    "take n (RENEWA E (g_str g) (g_cap g * 2)) = take n (g_str g)"
    using E c n l m by (simp_all add: RENEWA_def genv_ok_def)
qed

lemma read_loop_ok:
  assumes E: "genv_ok E" and d: "\<And>x. unat x < 256 \<Longrightarrow> is_delim d x = Some (x \<in> D)" and D: "\<forall>b \<in> set line. ucast b \<notin> D" "ucast c \<in> D"
    and m: "length (g_str g) = unat (g_cap g)" "n \<le> length (g_str g)" "0 < unat (g_cap g)" "unat (g_cap g) \<le> 2 ^ 39" and l: "n + length line \<le> 2 ^ 38"
  shows "\<exists>g'. read_loop E d g n (line @ c # rest) = Some (True, g', n + length line, rest) \<and> length (g_str g') = unat (g_cap g') \<and>
    n + length line < length (g_str g') \<and> take (n + length line) (g_str g') = take n (g_str g) @ line \<and> unat (g_cap g') \<le> 2 ^ 39"
  using D(1) m l
proof (induction line arbitrary: g n)
  case Nil
  define g1 where "g1 = (if unat (g_cap g) \<le> n then g\<lparr>g_str := RENEWA E (g_str g) (g_cap g * 2), g_cap := g_cap g * 2\<rparr> else g)"
  have g1: "length (g_str g1) = unat (g_cap g1)" "n < length (g_str g1)" "take n (g_str g1) = take n (g_str g)" "unat (g_cap g1) \<le> 2 ^ 39"
    using grow2 [OF E Nil.prems(2-5)] Nil.prems(2-6) by (auto simp: g1_def)
  have "read_loop E d g n (c # rest) = Some (True, g1, n, rest)"
    using E D(2) d [of "ucast c"] unat_char [of c] by (auto simp: g1_def genv_ok_def Let_def)
  then show ?case using g1 by simp
next
  case (Cons b line)
  define g1 where "g1 = (if unat (g_cap g) \<le> n then g\<lparr>g_str := RENEWA E (g_str g) (g_cap g * 2), g_cap := g_cap g * 2\<rparr> else g)"
  have g1: "length (g_str g1) = unat (g_cap g1)" "n < length (g_str g1)" "take n (g_str g1) = take n (g_str g)" "unat (g_cap g1) \<le> 2 ^ 39"
    using grow2 [OF E Cons.prems(2-5)] Cons.prems(2-6) by (auto simp: g1_def)
  define g2 where "g2 = g1\<lparr>g_str := (g_str g1)[n := b]\<rparr>"
  have g2: "length (g_str g2) = unat (g_cap g2)" "Suc n \<le> length (g_str g2)" "take (Suc n) (g_str g2) = take n (g_str g) @ [b]" "unat (g_cap g2) \<le> 2 ^ 39"
    "0 < unat (g_cap g2)"
    using g1 by (auto simp: g2_def take_Suc_conv_app_nth)
  have "read_loop E d g n ((b # line) @ c # rest) = read_loop E d g2 (Suc n) (line @ c # rest)"
    using E Cons.prems(1) d [of "ucast b"] unat_char [of b] g1(2) by (auto simp: g1_def g2_def genv_ok_def Let_def mem_simps)
  then show ?case using Cons.IH [OF _ g2(1,2,5,4)] Cons.prems(1,6) g2(3) by auto
qed

lemma ucast_char8 [simp]: "ucast (ucast (b :: u8) :: u32) = b"
  by (rule bit_word_eqI) (simp add: bit_simps)

lemma gstr_readline_ok:
  assumes E: "genv_ok E" and g: "g_rep g s" and tok: "\<forall>b \<in> set tok. b < 128" and line: "\<forall>b \<in> set line. b \<notin> set tok" "c \<in> set tok" "0 \<notin> set line"
    and l: "length line \<le> 2 ^ 30" "unat (g_cap g) \<le> 2 ^ 39"
  shows "\<exists>g'. gstr_readline E g (line @ c # rest) tok = Some (Inr (of_nat (length line)), g', rest) \<and> g_rep g' line"
proof -
  have toks: "set (map char_int tok) = ucast ` set tok" using tok char_int_ascii by auto
  obtain d where d: "add_delims init_delim (map char_int tok) = Some d" "\<And>x. unat x < 256 \<Longrightarrow> is_delim d x = Some (x \<in> ucast ` set tok)"
    using delims_of [of "map char_int tok"] unat_char tok toks by (auto simp: char_int_ascii)
  have inj: "(ucast (b :: u8) :: u32) \<in> ucast ` set tok \<longleftrightarrow> b \<in> set tok" for b
    by (metis (no_types, lifting) imageE image_eqI ucast_char8)
  have cap: "length (g_str g) = unat (g_cap g)" "0 < unat (g_cap g)" using g by (auto simp: g_rep_def)
  define g0 where "g0 = g\<lparr>g_len := 0\<rparr>"
  have "\<exists>g'. read_loop E d g0 0 (line @ c # rest) = Some (True, g', 0 + length line, rest) \<and> length (g_str g') = unat (g_cap g') \<and>
    0 + length line < length (g_str g') \<and> take (0 + length line) (g_str g') = take 0 (g_str g0) @ line \<and> unat (g_cap g') \<le> 2 ^ 39"
    by (rule read_loop_ok [OF E d(2)]) (use line inj cap l in \<open>auto simp: g0_def\<close>)
  then obtain g1 where g1: "read_loop E d g0 0 (line @ c # rest) = Some (True, g1, length line, rest)" "length (g_str g1) = unat (g_cap g1)"
    "length line < length (g_str g1)" "take (length line) (g_str g1) = line" "unat (g_cap g1) \<le> 2 ^ 39" by auto
  define g2 where "g2 = g1\<lparr>g_str := (g_str g1)[length line := 0], g_len := of_nat (length line)\<rparr>"
  have "g_rep g2 line" unfolding g2_def by (rule g_repI) (use g1 line l in \<open>auto simp: unat_of_nat\<close>)
  moreover have "gstr_readline E g (line @ c # rest) tok = Some (Inr (of_nat (length line)), g2, rest)"
    using d(1) g1(1,3) by (simp add: gstr_readline_def mem_simps g2_def flip: g0_def)
  ultimately show ?thesis by blast
qed

lemma read_full:
  assumes d: "\<And>x. unat x < 256 \<Longrightarrow> is_delim d x = Some (x \<in> D)" and D: "\<forall>b \<in> set fp. ucast b \<notin> D"
    and m: "length (g_str g) = unat (g_cap g)" "n + length fp = unat (g_cap g)"
  shows "\<exists>g'. read_loop E d g n fp = Some (True, g', n + length fp, []) \<and> length (g_str g') = unat (g_cap g)"
  using D m
proof (induction fp arbitrary: g n)
  case (Cons b fp)
  have "read_loop E d g n (b # fp) = read_loop E d (g\<lparr>g_str := (g_str g)[n := b]\<rparr>) (Suc n) fp"
    using Cons.prems d [of "ucast b"] unat_char [of b] by (auto simp: Let_def mem_simps)
  then show ?case using Cons.IH [of "g\<lparr>g_str := (g_str g)[n := b]\<rparr>" "Suc n"] Cons.prems by auto
qed simp

text \<open>Growing a string whose length was just set to 0 keeps the buffer large enough.\<close>

lemma grow_copy:
  assumes E: "genv_ok E" and g: "g_rep g s" and n: "unat n \<le> 2 ^ 30"
  shows "\<exists>g'. grow_if E (g\<lparr>g_len := 0\<rparr>) n = Some g' \<and> g_len g' = 0 \<and> unat n + 1 \<le> length (g_str g')"
proof -
  define g0 where "g0 = g\<lparr>g_str := (g_str g)[0 := 0], g_len := 0\<rparr>"
  have g0: "g_rep g0 []" using cut_ok [OF g, of 0 0] by (simp add: g0_def)
  obtain g1 where g1: "grow_if E g0 n = Some g1" "g_rep g1 []" "unat n + 1 \<le> unat (g_cap g1)" using grow_if_ok [OF E g0 n] by auto
  have "\<exists>g'. grow_if E (g\<lparr>g_len := 0\<rparr>) n = Some g' \<and> g_len g' = g_len g1 \<and> length (g_str g') = length (g_str g1)"
    using g1(1) by (auto simp: grow_if_def g0_def Let_def RENEWA_def split: if_splits)
  moreover have "g_len g1 = 0" "length (g_str g1) = unat (g_cap g1)" using g1(1,2) by (auto simp: grow_if_def g0_def Let_def g_rep_def split: if_splits)
  ultimately show ?thesis using g1(3) by auto
qed

lemma gstr_copy_eq:
  assumes E: "genv_ok E" and r: "g_rep d s" "g_rep g u" and l: "length u \<le> 2 ^ 29"
  shows "\<exists>d'. gstr_copy E d g = Some d' \<and> g_len d' = 0 \<and> c_str (g_str d') = Some u"
proof -
  define d0 where "d0 = d\<lparr>g_str := (g_str d)[0 := 0], g_len := 0\<rparr>"
  have n: "unat (g_len g + 1) = length u + 1" "unat (ucast (g_len g + 1) :: u32) = length u + 1"
    using g_repD(1) [OF r(2)] l by (simp_all add: unat_word_ariths unsigned_ucast_eq take_bit_nat_eq_self_iff)
  obtain t where t: "g_str g = u @ 0 # t" using r(2) by (auto simp: g_rep_def)
  obtain d1 where d1: "grow_if E (d\<lparr>g_len := 0\<rparr>) (ucast (g_len g + 1)) = Some d1" "g_len d1 = 0" "length u + 1 \<le> length (g_str d1)"
    using grow_copy [OF E r(1), of "ucast (g_len g + 1)"] n l by auto
  have "copy_into (g_str d1) 0 (g_str g) (length u + 1) = Some (u @ 0 # drop (length u + 1) (g_str d1))"
    using d1(3) t by (simp add: copy_into_eq)
  then show ?thesis using d1(1,2) n(1) c_str_app [OF g_repD(5) [OF r(2)]] by (simp add: gstr_copy_def)
qed

lemma gstr_unquote_eq:
  assumes r: "g_rep g u" and u: "u = q # s @ [q]" "q \<in> {34, 39}"
  shows "\<exists>g'. gstr_unquote g = Some (char_int q, g') \<and> text_of g' = s @ [0]"
proof -
  obtain t where t: "g_str g = u @ 0 # t" using r by (auto simp: g_rep_def)
  have n: "unat (g_len g - 1) = Suc (length s)" using g_repD(1) [OF r] u(1) by (simp add: unat_pred_u64)
  have "g_str g ! 0 = q" "last_char g = Some q" "0 < length (g_str g)" using t u(1) drop_last_ok(1) [OF r] by auto
  moreover define g1 where "g1 = g\<lparr>g_str := q # s @ 0 # 0 # t, g_len := g_len g - 1\<rparr>"
  have "drop_last g = Some g1" using n t u(1) by (simp add: drop_last_def Let_def mem_simps g1_def list_update_append)
  moreover have "copy_into (g_str g1) 0 (drop 1 (g_str g1)) (unat (g_len g1)) = Some (s @ 0 # 0 # 0 # t)"
    using n by (simp add: g1_def copy_into_def)
  ultimately show ?thesis using u(2) n by (auto simp: gstr_unquote_def mem_simps text_of_def g1_def)
qed

section \<open>Properties\<close>

text \<open>
  C16: A growable string behaves as a byte string: any sequence of up to \<open>2^17\<close> appends (of strings of up to \<open>2^20\<close> bytes), truncations,
  conditional chops (\<open>gstr_chop_if\<close>), trims and resets on a fresh string stays inside the buffer, keeps the terminator and the length right, and gives the results of the
  abstract operations, whatever \<open>realloc\<close> leaves in new memory.
\<close>

theorem gstr_run_refines:
  assumes "genv_ok E" "unat n \<le> 2 ^ 38" "length ops \<le> 2 ^ 17" "list_all gop_ok ops"
  shows "\<exists>g rs g'. gstr_init E n = Some g \<and> table_ops gstr_op ops g = Some (rs, g') \<and>
    (rs, text_of g') = spec_ops gstr_spec ops [] \<and> gstr_eq_str g' (text_of g') = Some True"
proof -
  obtain g where g: "gstr_init E n = Some g" "g_rep g []" using gstr_init_ok [OF assms(1,2)] by blast
  then have "gstr_inv 0 g" "text_of g = []" using g_rep_text [OF g(2)] by (auto simp: gstr_inv_def)
  then obtain rs g' where r: "table_ops gstr_op ops g = Some (rs, g')" "gstr_inv (length ops) g'" "(rs, text_of g') = spec_ops gstr_spec ops []"
    using gst.run_refines [of 0 g ops] assms(3,4) by auto
  have "g_rep g' (text_of g')" using r(2) by (simp add: gstr_inv_def g_ok_def)
  then have "gstr_eq_str g' (text_of g') = Some True" using g_repD(6) by (simp add: gstr_eq_str_def)
  then show ?thesis using g(1) r by blast
qed

definition byte_env :: "u8 venv" where
  "byte_env = \<lparr>ve_sizeof = 1, ve_zero = 0, ve_ok = True, ve_junk = (\<lambda>i. 170)\<rparr>"

lemma byte_env_ok: "genv_ok byte_env"
  by (simp add: genv_ok_def byte_env_def)

theorem gstr_run_refines_witness:
  "\<exists>g g'. gstr_init byte_env 3 = Some g \<and>
     table_ops gstr_op [GAppendStr byte_env [32, 65, 66], GAppendCh byte_env 32, GTrim, GAppendCh byte_env 10, GChopIf [13, 10], GChopIf [13, 10]] g =
       Some ([GLen 3, GDone, GDone, GDone, GChar 10, GDone], g') \<and> text_of g' = [65, 66]"
proof -
  have "spec_ops gstr_spec [GAppendStr byte_env [32, 65, 66], GAppendCh byte_env 32, GTrim, GAppendCh byte_env 10, GChopIf [13, 10], GChopIf [13, 10]] [] =
      ([GLen 3, GDone, GDone, GDone, GChar 10, GDone], [65, 66])"
    by (simp add: trim_def rtrim_def isspace8_def char_int_def)
  then show ?thesis
    using gstr_run_refines [OF byte_env_ok, of 3 "[GAppendStr byte_env [32, 65, 66], GAppendCh byte_env 32, GTrim, GAppendCh byte_env 10, GChopIf [13, 10], GChopIf [13, 10]]"]
      byte_env_ok by auto
qed

text \<open>
  \<open>gstr_readline\<close> returns the bytes before the first delimiter, growing the buffer as needed, and leaves the stream just behind
  the delimiter; the delimiters are ASCII characters and the line has no NUL.
\<close>

theorem gstr_readline_line:
  assumes "genv_ok E" "g_ok g" "unat (g_cap g) \<le> 2 ^ 39" "\<forall>b \<in> set tok. b < 128" "c \<in> set tok" "set line \<inter> set tok = {}" "0 \<notin> set line"
    "length line \<le> 2 ^ 30"
  shows "\<exists>g'. gstr_readline E g (line @ c # rest) tok = Some (Inr (of_nat (length line)), g', rest) \<and> g_ok g' \<and> text_of g' = line"
proof -
  have "\<forall>b \<in> set line. b \<notin> set tok" using assms(6) by auto
  from gstr_readline_ok [OF assms(1) assms(2) [unfolded g_ok_def] assms(4) this assms(5,7,8,3)]
  show ?thesis using g_rep_text by blast
qed

theorem gstr_readline_line_witness:
  "\<exists>g'. gstr_readline byte_env \<lparr>g_str = [0, 7], g_len = 0, g_cap = 2\<rparr> [65, 66, 67, 10, 68] [13, 10] = Some (Inr 3, g', [68]) \<and>
     text_of g' = [65, 66, 67]"
proof -
  have "g_ok \<lparr>g_str = [0, 7], g_len = 0, g_cap = 2\<rparr>" by (simp add: g_ok_def text_of_def g_rep_def)
  then show ?thesis
    using gstr_readline_line [OF byte_env_ok, of "\<lparr>g_str = [0, 7], g_len = 0, g_cap = 2\<rparr>" "[13, 10]" 10 "[65, 66, 67]" "[68]"] by auto
qed

text \<open>
  Three traps. \<open>gstr_copy\<close> copies the bytes but leaves the length of the destination 0; \<open>gstr_unquote\<close> leaves the length one too large, so that the
  terminator becomes part of the string; and \<open>gstr_readline\<close> writes behind the buffer when the stream ends after exactly as many bytes as the buffer holds.
\<close>

theorem gstr_traps:
  assumes E: "genv_ok E" and d: "g_ok d" and g: "g_ok g" "length (text_of g) \<le> 2 ^ 29"
  shows "(\<exists>d'. gstr_copy E d g = Some d' \<and> g_len d' = 0 \<and> c_str (g_str d') = Some (text_of g)) \<and>
    (\<forall>q s. q \<in> {34, 39} \<longrightarrow> text_of g = q # s @ [q] \<longrightarrow>
       (\<exists>g'. gstr_unquote g = Some (char_int q, g') \<and> text_of g' = s @ [0])) \<and>
    (\<forall>fp. length fp = unat (g_cap d) \<longrightarrow> 10 \<notin> set fp \<longrightarrow> gstr_readline E d fp [10] = None)"
proof (intro conjI allI impI)
  have r: "g_rep d (text_of d)" "g_rep g (text_of g)" using d g(1) by (auto simp: g_ok_def)
  show "\<exists>d'. gstr_copy E d g = Some d' \<and> g_len d' = 0 \<and> c_str (g_str d') = Some (text_of g)"
    by (rule gstr_copy_eq [OF E r g(2)])
  show "\<exists>g'. gstr_unquote g = Some (char_int q, g') \<and> text_of g' = s @ [0]"
    if "q \<in> {34, 39}" "text_of g = q # s @ [q]" for q s
    using gstr_unquote_eq [OF r(2) that(2,1)] .
  show "gstr_readline E d fp [10] = None" if fp: "length fp = unat (g_cap d)" "10 \<notin> set fp" for fp
  proof -
    obtain ds where ds: "add_delims init_delim (map char_int [10]) = Some ds" "\<And>x. unat x < 256 \<Longrightarrow> is_delim ds x = Some (x \<in> {10})"
      using delims_of [of "map char_int [10]"] by (auto simp: char_int_def)
    have m: "length (g_str d) = unat (g_cap d)" using r(1) by (simp add: g_rep_def)
    have "(ucast b :: u32) \<notin> {10}" if "b \<in> set fp" for b :: u8
      using that fp(2) ucast_char8 [of b] by (auto simp: dest: arg_cong [where f = "ucast :: u32 \<Rightarrow> u8"])
    then show ?thesis using read_full [OF ds(2), where fp = fp and n = 0 and g = "d\<lparr>g_len := 0\<rparr>" and E = E] fp(1) m ds(1)
      by (auto simp: gstr_readline_def put_at_def)
  qed
qed

theorem gstr_traps_witness:
  "gstr_readline byte_env \<lparr>g_str = [0, 0], g_len = 0, g_cap = 2\<rparr> [65, 66] [10] = None"
proof -
  have "g_ok \<lparr>g_str = [0, 0], g_len = 0, g_cap = 2\<rparr>" by (simp add: g_ok_def text_of_def g_rep_def)
  then show ?thesis using gstr_traps [OF byte_env_ok, of "\<lparr>g_str = [0, 0], g_len = 0, g_cap = 2\<rparr>" "\<lparr>g_str = [0, 0], g_len = 0, g_cap = 2\<rparr>"]
    by (auto simp: text_of_def)
qed

end
