(* ===== verification/Escape.thy ===== *)
theory Escape
  imports Gstring
begin

text \<open>
  Escaping and unescaping of growable strings, \<open>src/escape.c\<close> and \<open>src/unescape.c\<close>. \<open>gstr_escape\<close> builds a new buffer; \<open>gstr_unescape\<close> works in place,
  reading at \<open>ptr\<close> and writing at \<open>out\<close>. The escape character is an \<open>int\<close>. Character constants are written as numbers.
\<close>

text \<open>The switch of \<open>gstr_escape\<close>: the letters of the named control characters.\<close>

definition esc_letter :: "u8 \<Rightarrow> u8 option" where
  "esc_letter b =
    (if b = 7 then Some 97 else if b = 8 then Some 98 else if b = 12 then Some 102 else if b = 10 then Some 110
     else if b = 13 then Some 114 else if b = 9 then Some 116 else if b = 11 then Some 118 else None)"

text \<open>\<open>snprintf(buf, sizeof buf, "%c0%3.3o", esc_char, c)\<close> for \<open>0 \<le> c < 512\<close>.\<close>

definition octal_esc :: "u32 \<Rightarrow> u32 \<Rightarrow> u8 list" where
  "octal_esc esc c =
    takeWhile (\<lambda>b. b \<noteq> 0) [ucast esc, 48, 48 + ucast (c div 64), 48 + ucast (c div 8 mod 8), 48 + ucast (c mod 8)]"

fun escape_loop :: "u8 venv \<Rightarrow> u32 list \<Rightarrow> u32 \<Rightarrow> gstr \<Rightarrow> u8 list \<Rightarrow> gstr option" where
  "escape_loop E d esc g [] = Some g"
| "escape_loop E d esc g (b # bs) =
    (let c = char_int b in
     if c = esc
     then do { (_, g) \<leftarrow> gstr_append_ch E g c; (_, g) \<leftarrow> gstr_append_ch E g c; escape_loop E d esc g bs }
     else do { del \<leftarrow> is_delim d c;
               if del
               then do { (_, g) \<leftarrow> gstr_append_ch E g esc;
                         g \<leftarrow> (case esc_letter b of
                                 Some l \<Rightarrow> map_option snd (gstr_append_ch E g (char_int l))
                               | None \<Rightarrow> map_option snd (gstr_append_str E g (Some (octal_esc esc c))));
                         escape_loop E d esc g bs }
               else do { (_, g) \<leftarrow> gstr_append_ch E g c; escape_loop E d esc g bs } })"

definition gstr_escape :: "u8 venv \<Rightarrow> gstr \<Rightarrow> u8 list \<Rightarrow> u32 \<Rightarrow> gstr option" where
  "gstr_escape E g escset esc =
    do { d \<leftarrow> add_delims init_delim (map char_int escset);
         bad \<leftarrow> is_delim d esc;
         _ \<leftarrow> (if bad \<or> \<not> ve_ok E then None else Some ());
         src \<leftarrow> c_str (g_str g);
         escape_loop E d esc (g\<lparr>g_str := NEWZA E (g_cap g), g_len := 0\<rparr>) src }"

section \<open>Unescaping\<close>

text \<open>The digit loops return the value and the new position; \<open>n\<close> is the number of digits they may still read.\<close>

fun extract_octal :: "u8 list \<Rightarrow> nat \<Rightarrow> nat \<Rightarrow> u32 \<Rightarrow> (u32 \<times> nat) option" where
  "extract_octal m ptr 0 val = Some (val AND 255, ptr)"
| "extract_octal m ptr (Suc n) val =
    do { c \<leftarrow> get_at m ptr;
         if c = 0 \<or> \<not> (48 \<le> c \<and> c \<le> 55) then Some (val AND 255, ptr)
         else extract_octal m (ptr + 1) n (push_bit 3 val + (char_int c - 48)) }"

fun extract_decimal :: "u8 list \<Rightarrow> nat \<Rightarrow> nat \<Rightarrow> u32 \<Rightarrow> (u32 \<times> nat) option" where
  "extract_decimal m ptr 0 val = Some (val AND 255, ptr)"
| "extract_decimal m ptr (Suc n) val =
    do { c \<leftarrow> get_at m ptr;
         if c = 0 \<or> \<not> (48 \<le> c \<and> c \<le> 57) then Some (val AND 255, ptr)
         else extract_decimal m (ptr + 1) n (val * 10 + (char_int c - 48)) }"

definition hex_digit :: "u8 \<Rightarrow> u32 option" where
  "hex_digit c =
    (if 48 \<le> c \<and> c \<le> 57 then Some (char_int c - 48)
     else if 97 \<le> c \<and> c \<le> 102 then Some (char_int c - 97)
     else if 65 \<le> c \<and> c \<le> 70 then Some (char_int c - 65)
     else None)"

fun extract_hex :: "u8 list \<Rightarrow> nat \<Rightarrow> nat \<Rightarrow> u32 \<Rightarrow> (u32 \<times> nat) option" where
  "extract_hex m ptr 0 val = Some (val AND 255, ptr)"
| "extract_hex m ptr (Suc n) val =
    do { c \<leftarrow> get_at m ptr;
         case hex_digit c of
           None \<Rightarrow> Some (val AND 255, ptr)
         | Some z \<Rightarrow> extract_hex m (ptr + 1) n (push_bit 4 val + z) }"

text \<open>\<open>parse_esc\<close>: the value of the escape at \<open>ptr\<close>, just behind the escape character, and the position after it. The branch of the source that puts the
  characters back is unreachable: the digit loops never return a null pointer.\<close>

definition esc_value :: "u8 list \<Rightarrow> nat \<Rightarrow> u32 \<Rightarrow> (u8 \<times> nat) option" where
  "esc_value m src esc =
    do { c \<leftarrow> get_at m src;
         let ptr = src + 1 in
         if c = 97 then Some (7, ptr)
         else if c = 98 then Some (8, ptr)
         else if c = 101 \<or> c = 69 then Some (27, ptr)
         else if c = 102 then Some (12, ptr)
         else if c = 110 then Some (10, ptr)
         else if c = 114 then Some (13, ptr)
         else if c = 116 then Some (9, ptr)
         else if c = 118 then Some (11, ptr)
         else if c = 0 then Some (ucast esc, ptr)
         else if c = 48 then map_option (apfst ucast) (extract_octal m ptr 3 0)
         else if c = 120 then map_option (apfst ucast) (extract_hex m ptr 2 0)
         else if 49 \<le> c \<and> c \<le> 57 then map_option (apfst ucast) (extract_decimal m src 3 0)
         else Some (c, ptr) }"

definition parse_esc :: "u8 list \<Rightarrow> nat \<Rightarrow> nat \<Rightarrow> u32 \<Rightarrow> (u8 list \<times> nat \<times> nat) option" where
  "parse_esc m out src esc = do { (v, ptr) \<leftarrow> esc_value m src esc; m \<leftarrow> put_at m out v; Some (m, out + 1, ptr) }"

lemma extract_advances:
  "extract_octal m p n v = Some (w, q) \<Longrightarrow> p \<le> q" "extract_hex m p n v = Some (w, q) \<Longrightarrow> p \<le> q"
  "extract_decimal m p n v = Some (w, q) \<Longrightarrow> p \<le> q"
  by (induction n arbitrary: p v) (fastforce split: if_splits option.splits bind_splits)+

lemma esc_value_advances: "esc_value m src esc = Some (v, q) \<Longrightarrow> src < q"
proof -
  assume a: "esc_value m src esc = Some (v, q)"
  then obtain c where c: "get_at m src = Some c" by (auto simp: esc_value_def bind_eq_Some_conv)
  have "src < q'" if e: "extract_decimal m src 3 0 = Some (w, q')" and d: "49 \<le> c" "c \<le> 57" for w q'
  proof -
    have "c \<noteq> 0" "48 \<le> c" using d(1) by (auto intro: order_trans [of _ 49])
    then have "extract_decimal m src (Suc 2) 0 = extract_decimal m (src + 1) 2 (0 * 10 + (char_int c - 48))"
      unfolding extract_decimal.simps(2) using c d(2) by (auto simp: get_at_def)
    moreover have "Suc 2 = 3" by simp
    ultimately have "extract_decimal m src 3 0 = extract_decimal m (src + 1) 2 (0 * 10 + (char_int c - 48))" by (simp only:)
    then have "extract_decimal m (src + 1) 2 (0 * 10 + (char_int c - 48)) = Some (w, q')" using e by (simp only:)
    from extract_advances(3) [OF this] show ?thesis by simp
  qed
  then show ?thesis using a c extract_advances(1,2) [of m "src + 1"]
    by (fastforce simp: esc_value_def Let_def split: if_splits)
qed

function unescape_loop :: "u8 list \<Rightarrow> nat \<Rightarrow> nat \<Rightarrow> nat \<Rightarrow> u32 \<Rightarrow> (u8 list \<times> nat) option" where
  "unescape_loop m ptr e out esc =
    (if ptr < e
     then do { c \<leftarrow> get_at m ptr;
               if c = 0 then None
               else if char_int c = esc
               then do { (m, out, ptr) \<leftarrow> parse_esc m out (ptr + 1) esc; unescape_loop m ptr e out esc }
               else do { m \<leftarrow> put_at m out c; unescape_loop m (ptr + 1) e (out + 1) esc } }
     else Some (m, out))"
  by pat_completeness auto
termination
  by (relation "measure (\<lambda>(m, ptr, e, out, esc). e - ptr)")
    (auto simp: parse_esc_def split: bind_splits dest!: esc_value_advances)

declare unescape_loop.simps [simp del]

definition gstr_unescape :: "gstr \<Rightarrow> u32 \<Rightarrow> gstr option" where
  "gstr_unescape g esc =
    do { (m, out) \<leftarrow> unescape_loop (g_str g) 0 (unat (g_len g)) 0 esc;
         m \<leftarrow> put_at m out 0;
         Some (g\<lparr>g_str := m, g_len := of_nat out\<rparr>) }"

section \<open>What escaping writes\<close>

definition enc1 :: "u8 set \<Rightarrow> u8 \<Rightarrow> u8 \<Rightarrow> u8 list" where
  "enc1 D e b =
    (if b = e then [e, e]
     else if b \<in> D then e # (case esc_letter b of Some l \<Rightarrow> [l] | None \<Rightarrow> octal_esc (char_int e) (char_int b))
     else [b])"

lemma char_int_inj [simp]: "char_int a = char_int b \<longleftrightarrow> a = b"
  by (metis ucast_char_int)

lemma length_enc1: "length (enc1 D e b) \<le> 6"
  unfolding enc1_def octal_esc_def by (auto split: option.splits intro: order_trans [OF length_takeWhile_le])

lemma enc1_no_nul: "e \<noteq> 0 \<Longrightarrow> b \<noteq> 0 \<Longrightarrow> 0 \<notin> set (enc1 D e b)"
  by (auto simp: enc1_def octal_esc_def esc_letter_def dest!: set_takeWhileD split: if_splits option.splits)

lemma append_single:
  assumes "genv_ok E" "g_rep g s" "b \<noteq> 0" "length s \<le> 2 ^ 38"
  shows "\<exists>r g'. gstr_append_ch E g (char_int b) = Some (r, g') \<and> g_rep g' (s @ [b])"
  using append_ch_ok [OF assms(1,2), of "char_int b"] assms(3,4) by auto

text \<open>One round of the loop.\<close>

lemma escape_round:
  assumes E: "genv_ok E" and g: "g_rep g s" "length s + 6 \<le> 2 ^ 38" and e: "e \<noteq> 0" "b \<noteq> 0"
    and d: "is_delim d (char_int b) = Some (b \<in> D)"
  shows "\<exists>g'. escape_loop E d (char_int e) g (b # bs) = escape_loop E d (char_int e) g' bs \<and> g_rep g' (s @ enc1 D e b)"
proof -
  consider "b = e" | "b \<noteq> e" "b \<in> D" | "b \<noteq> e" "b \<notin> D" by auto
  then show ?thesis
  proof cases
    case 1
    obtain r1 g1 where g1: "gstr_append_ch E g (char_int b) = Some (r1, g1)" "g_rep g1 (s @ [b])" using append_single [OF E g(1) e(2)] g(2) by auto
    obtain r2 g2 where g2: "gstr_append_ch E g1 (char_int b) = Some (r2, g2)" "g_rep g2 ((s @ [b]) @ [b])" using append_single [OF E g1(2) e(2)] g(2) by auto
    show ?thesis using 1 g1(1) g2 by (auto simp: enc1_def Let_def)
  next
    case 2
    obtain r1 g1 where g1: "gstr_append_ch E g (char_int e) = Some (r1, g1)" "g_rep g1 (s @ [e])" using append_single [OF E g(1) e(1)] g(2) by auto
    define u where "u = (case esc_letter b of Some l \<Rightarrow> [l] | None \<Rightarrow> octal_esc (char_int e) (char_int b))"
    have u: "enc1 D e b = e # u" "0 \<notin> set u" "length u \<le> 5" using 2 length_enc1 [of D e b] enc1_no_nul [OF e, of D] by (auto simp: enc1_def u_def)
    obtain g2 where g2: "(case esc_letter b of Some l \<Rightarrow> map_option snd (gstr_append_ch E g1 (char_int l))
        | None \<Rightarrow> map_option snd (gstr_append_str E g1 (Some (octal_esc (char_int e) (char_int b))))) = Some g2" "g_rep g2 ((s @ [e]) @ u)"
    proof (cases "esc_letter b")
      case None
      then show ?thesis using append_few [OF E g1(2) u(2)] u(3) g(2) that by (fastforce simp: u_def)
    next
      case (Some l)
      then have "l \<noteq> 0" using u(2) by (auto simp: u_def)
      then show ?thesis using append_single [OF E g1(2), of l] g(2) that Some by (fastforce simp: u_def)
    qed
    show ?thesis using 2 d g1(1) g2 u(1) by (auto simp: Let_def)
  next
    case 3
    obtain r1 g1 where g1: "gstr_append_ch E g (char_int b) = Some (r1, g1)" "g_rep g1 (s @ [b])" using append_single [OF E g(1) e(2)] g(2) by auto
    show ?thesis using 3 d g1 by (auto simp: enc1_def Let_def)
  qed
qed

lemma escape_loop_ok:
  assumes "genv_ok E" "e \<noteq> 0" "\<And>b. b \<in> set bs \<Longrightarrow> b \<noteq> 0 \<and> is_delim d (char_int b) = Some (b \<in> D)"
    "g_rep g s" "length s + 6 * length bs \<le> 2 ^ 38"
  shows "\<exists>g'. escape_loop E d (char_int e) g bs = Some g' \<and> g_rep g' (s @ concat (map (enc1 D e) bs))"
  using assms(3-5)
proof (induction bs arbitrary: g s)
  case (Cons b bs)
  obtain g1 where g1: "escape_loop E d (char_int e) g (b # bs) = escape_loop E d (char_int e) g1 bs" "g_rep g1 (s @ enc1 D e b)"
    using escape_round [OF assms(1) Cons.prems(2) _ assms(2), of b d D bs] Cons.prems(1,3) by auto
  have "length (s @ enc1 D e b) + 6 * length bs \<le> 2 ^ 38" using length_enc1 [of D e b] Cons.prems(3) by simp
  then show ?case using Cons.IH [OF _ g1(2)] Cons.prems(1) g1(1) by simp
qed auto

lemma gstr_escape_ok:
  assumes E: "genv_ok E" and g: "g_rep g s" "length s \<le> 2 ^ 30" and asc: "\<forall>b \<in> set s. b < 128" "\<forall>b \<in> set escset. b < 128"
    and e: "e \<noteq> 0" "e < 128" "e \<notin> set escset"
  shows "\<exists>g'. gstr_escape E g escset (char_int e) = Some g' \<and> g_rep g' (concat (map (enc1 (set escset) e) s))"
proof -
  have small: "unat (char_int b) < 256" if "b < 128" for b using that unat_char by (simp add: char_int_ascii)
  obtain d where d: "add_delims init_delim (map char_int escset) = Some d"
    "\<And>x. unat x < 256 \<Longrightarrow> is_delim d x = Some (x \<in> set (map char_int escset))"
    using delims_of [of "map char_int escset"] asc(2) small by auto
  have mem: "is_delim d (char_int b) = Some (b \<in> set escset)" if "b < 128" for b
  proof -
    have "char_int b \<in> set (map char_int escset) \<longleftrightarrow> b \<in> set escset" by auto
    then show ?thesis using d(2) [OF small [OF that]] by simp
  qed
  note r = g_repD [OF g(1)]
  obtain k where k: "unat (g_cap g) = Suc k" "unat (g_cap g) \<le> 2 ^ 40" using g(1) by (cases "unat (g_cap g)") (auto simp: g_rep_def)
  define g0 where "g0 = g\<lparr>g_str := NEWZA E (g_cap g), g_len := 0\<rparr>"
  have g0: "g_rep g0 []" using E k by (simp add: g0_def g_rep_def NEWZA_def genv_ok_def)
  have "\<exists>g'. escape_loop E d (char_int e) g0 s = Some g' \<and> g_rep g' ([] @ concat (map (enc1 (set escset) e) s))"
    by (rule escape_loop_ok [OF E e(1) _ g0]) (use asc(1) r(5) mem g(2) in auto)
  then show ?thesis using d(1) mem [OF e(2)] e(3) r(6) E by (auto simp: gstr_escape_def genv_ok_def g0_def)
qed

section \<open>Unescaping what was escaped\<close>

text \<open>Escape characters that do not themselves start an escape, and the control characters with a letter.\<close>

definition good_esc :: "u8 \<Rightarrow> bool" where
  "good_esc e \<longleftrightarrow> e \<noteq> 0 \<and> e < 128 \<and> e \<notin> {69, 97, 98, 101, 102, 110, 114, 116, 118, 120} \<and> \<not> (48 \<le> e \<and> e \<le> 57)"

lemma esc_value_self:
  assumes "good_esc e" "src < length m" "m ! src = e"
  shows "esc_value m src (char_int e) = Some (e, src + 1)"
proof -
  have "e \<noteq> 48" "\<not> (49 \<le> e \<and> e \<le> 57)" using assms(1) by (auto simp: good_esc_def intro: order_trans [of 48 49])
  then show ?thesis using assms by (auto simp: esc_value_def mem_simps Let_def good_esc_def)
qed

lemma esc_value_letter:
  assumes "esc_letter b = Some (m ! src)" "src < length m"
  shows "esc_value m src esc = Some (b, src + 1)"
  using assms by (auto simp: esc_value_def mem_simps Let_def esc_letter_def split: if_splits)

lemma unescape_round:
  assumes e: "good_esc e" and b: "b \<noteq> 0" "b \<in> D \<longrightarrow> b = e \<or> esc_letter b \<noteq> None" and m: "drop p m = enc1 D e b @ w" and o: "out \<le> p"
    and n: "p + length (enc1 D e b) \<le> n"
  shows "unescape_loop m p n out (char_int e) = unescape_loop (m[out := b]) (p + length (enc1 D e b)) n (out + 1) (char_int e)"
proof -
  have ne: "enc1 D e b \<noteq> []" by (simp add: enc1_def)
  then have "0 < length (enc1 D e b)" by simp
  moreover have "length m - p = length (enc1 D e b) + length w" using arg_cong [OF m, of length] by simp
  ultimately have p: "p < n" "p < length m" using n by linarith+
  have nth: "m ! (p + i) = enc1 D e b ! i" "p + i < length m" if "i < length (enc1 D e b)" for i
  proof -
    have "length (drop p m) = length (enc1 D e b) + length w" using m by simp
    then show "p + i < length m" using that by simp
    have "m ! (p + i) = drop p m ! i" using p(2) by simp
    then show "m ! (p + i) = enc1 D e b ! i" using that by (simp add: m nth_append)
  qed
  consider "b = e" | l where "b \<noteq> e" "b \<in> D" "esc_letter b = Some l" | "b \<noteq> e" "b \<notin> D" using b(2) by auto
  then show ?thesis
  proof cases
    case 1
    then have x: "enc1 D e b = [e, e]" by (simp add: enc1_def)
    have "esc_value m (p + 1) (char_int e) = Some (e, p + 2)" using esc_value_self [OF e, of "p + 1" m] nth [of 1] x by simp
    then show ?thesis using 1 p o nth [of 0] x e by (subst unescape_loop.simps) (simp add: parse_esc_def mem_simps good_esc_def)
  next
    case 2
    then have x: "enc1 D e b = [e, l]" by (simp add: enc1_def)
    have "esc_value m (p + 1) (char_int e) = Some (b, p + 2)" using esc_value_letter [of b m "p + 1"] nth [of 1] x 2 by simp
    then show ?thesis using p o nth [of 0] x e by (subst unescape_loop.simps) (simp add: parse_esc_def mem_simps good_esc_def)
  next
    case 3
    then have x: "enc1 D e b = [b]" by (simp add: enc1_def)
    then show ?thesis using 3 p o nth [of 0] b(1) by (subst unescape_loop.simps) (simp add: mem_simps)
  qed
qed

lemma unescape_loop_ok:
  assumes e: "good_esc e" and s: "\<forall>b \<in> set s. b \<noteq> 0 \<and> (b \<in> D \<longrightarrow> b = e \<or> esc_letter b \<noteq> None)"
    and m: "drop p m = concat (map (enc1 D e) s) @ 0 # t" and o: "out \<le> p" "p < length m" and n: "n = p + length (concat (map (enc1 D e) s))"
  shows "\<exists>m'. unescape_loop m p n out (char_int e) = Some (m', out + length s) \<and> length m' = length m \<and>
    take (out + length s) m' = take out m @ s \<and> out + length s < length m"
  using s m o n
proof (induction s arbitrary: m p out)
  case Nil
  then show ?case by (subst unescape_loop.simps) simp
next
  case (Cons b s)
  define k where "k = length (enc1 D e b)"
  define m1 where "m1 = m[out := b]"
  have k: "1 \<le> k" by (simp add: k_def enc1_def)
  have d: "drop (p + k) m = concat (map (enc1 D e) s) @ 0 # t"
    using arg_cong [OF Cons.prems(2), of "drop k"] by (simp add: k_def add.commute)
  have 1: "unescape_loop m p n out (char_int e) = unescape_loop m1 (p + k) n (out + 1) (char_int e)"
    using unescape_round [OF e, of b D p m _ out n] Cons.prems by (auto simp: k_def m1_def)
  have d1: "drop (p + k) m1 = concat (map (enc1 D e) s) @ 0 # t" using d k Cons.prems(3) by (simp add: m1_def)
  then have "p + k < length m1" by (metis append_is_Nil_conv drop_eq_Nil linorder_not_less list.distinct(1))
  then obtain m2 where "unescape_loop m1 (p + k) n (out + 1) (char_int e) = Some (m2, out + 1 + length s)" "length m2 = length m1"
    "take (out + 1 + length s) m2 = take (out + 1) m1 @ s" "out + 1 + length s < length m1"
    using Cons.IH [OF _ d1, of "out + 1"] Cons.prems k by (auto simp: k_def)
  moreover have "take (out + 1) m1 = take out m @ [b]" using Cons.prems(3,4) by (simp add: m1_def take_Suc_conv_app_nth)
  ultimately show ?case using 1 by (auto simp: m1_def)
qed

lemma gstr_unescape_ok:
  assumes e: "good_esc e" and s: "\<forall>b \<in> set s. b \<noteq> 0 \<and> (b \<in> D \<longrightarrow> b = e \<or> esc_letter b \<noteq> None)"
    and g: "g_rep g (concat (map (enc1 D e) s))" and l: "length s \<le> 2 ^ 38"
  shows "\<exists>g'. gstr_unescape g (char_int e) = Some g' \<and> g_rep g' s"
proof -
  note r = g_repD [OF g]
  obtain t where t: "g_str g = concat (map (enc1 D e) s) @ 0 # t" "length (g_str g) = unat (g_cap g)" "unat (g_cap g) \<le> 2 ^ 40"
    using g by (auto simp: g_rep_def)
  obtain m where m: "unescape_loop (g_str g) 0 (unat (g_len g)) 0 (char_int e) = Some (m, length s)" "length m = length (g_str g)"
    "take (length s) m = s" "length s < length (g_str g)"
    using unescape_loop_ok [OF e s, of 0 "g_str g" t 0 "unat (g_len g)"] t r(1) by auto
  define g' where "g' = g\<lparr>g_str := m[length s := 0], g_len := of_nat (length s)\<rparr>"
  have "g_rep g' s" unfolding g'_def by (rule g_repI) (use m t s l in \<open>auto simp: unat_of_nat\<close>)
  moreover have "gstr_unescape g (char_int e) = Some g'" using m by (simp add: gstr_unescape_def mem_simps g'_def)
  ultimately show ?thesis by blast
qed

lemma ctl_cases: "b \<in> {7..13 :: u8} \<Longrightarrow> b \<in> {7, 8, 9, 10, 11, 12, 13}"
proof -
  assume "b \<in> {7..13}"
  then have "unat b \<in> {7..13}" by (simp add: word_le_nat_alt)
  then have "unat b \<in> {7, 8, 9, 10, 11, 12, 13}" by auto
  moreover have "b = of_nat (unat b)" by simp
  ultimately show ?thesis by (elim insertE emptyE) (metis insertCI of_nat_numeral)+
qed

section \<open>Properties\<close>

text \<open>
  C21: Round trip. Escaping an ASCII string with a set of the seven named control characters removes all of them from the string, and
  unescaping the result gives the string back; the escape character is neither in the set nor a letter or digit that starts an escape.
\<close>

theorem gstr_escape_roundtrip:
  assumes "genv_ok E" "g_ok g" "length (text_of g) \<le> 2 ^ 30" "\<forall>b \<in> set (text_of g). b < 128" "good_esc e" "set escset \<subseteq> {7..13}" "e \<notin> set escset"
  shows "\<exists>g1 g2. gstr_escape E g escset (char_int e) = Some g1 \<and> set (text_of g1) \<inter> set escset = {} \<and>
    gstr_unescape g1 (char_int e) = Some g2 \<and> g_ok g2 \<and> text_of g2 = text_of g"
proof -
  define s D where "s = text_of g" "D = set escset"
  have g: "g_rep g s" using assms(2) by (simp add: g_ok_def s_D_def)
  have ctl: "esc_letter b \<noteq> None" if "b \<in> D" for b
  proof -
    have "b \<in> {7..13}" using that assms(6) by (auto simp: s_D_def)
    then have "b \<in> {7, 8, 9, 10, 11, 12, 13}" by (rule ctl_cases)
    then show ?thesis by (auto simp: esc_letter_def)
  qed
  have asc: "\<forall>b \<in> set escset. b < 128"
  proof
    fix b assume "b \<in> set escset"
    then have "b \<le> 13" using assms(6) by auto
    then show "b < 128" by (rule order.strict_trans1) simp
  qed
  obtain g1 where g1: "gstr_escape E g escset (char_int e) = Some g1" "g_rep g1 (concat (map (enc1 D e) s))"
    using gstr_escape_ok [OF assms(1) g _ _ asc, of e] assms(3,4,5,7) by (auto simp: s_D_def good_esc_def)
  have nz: "\<forall>b \<in> set s. b \<noteq> 0 \<and> (b \<in> D \<longrightarrow> b = e \<or> esc_letter b \<noteq> None)" using g_repD(5) [OF g] ctl by auto
  obtain g2 where g2: "gstr_unescape g1 (char_int e) = Some g2" "g_rep g2 s"
    using gstr_unescape_ok [OF assms(5) nz g1(2)] assms(3) by (auto simp: s_D_def)
  have "x \<notin> D" if "x \<in> set (enc1 D e b)" for x b
  proof (cases "b = e \<or> b \<notin> D")
    case True
    then show ?thesis using that assms(7) by (auto simp: enc1_def s_D_def split: if_splits)
  next
    case False
    then obtain l where l: "esc_letter b = Some l" using ctl by blast
    then have "13 < l" by (auto simp: esc_letter_def split: if_splits)
    then have "l \<notin> D" using assms(6) unfolding s_D_def by (meson atLeastAtMost_iff linorder_not_less subsetD)
    then show ?thesis using that False l assms(7) by (auto simp: enc1_def s_D_def)
  qed
  then have "set (text_of g1) \<inter> D = {}" using g_rep_text [OF g1(2)] by auto
  then show ?thesis using g1(1) g2(1) g_rep_text [OF g2(2)] by (auto simp: s_D_def)
qed

theorem gstr_escape_roundtrip_witness:
  "\<exists>g1 g2. gstr_escape byte_env \<lparr>g_str = [65, 10, 92, 0], g_len = 3, g_cap = 4\<rparr> [10, 9] (char_int 92) = Some g1 \<and>
     gstr_unescape g1 (char_int 92) = Some g2 \<and> text_of g2 = [65, 10, 92]"
proof -
  let ?g = "\<lparr>g_str = [65, 10, 92, 0], g_len = 3, g_cap = 4\<rparr>"
  have t: "g_ok ?g" "text_of ?g = [65, 10, 92]" by (simp_all add: g_ok_def text_of_def g_rep_def)
  have "good_esc 92" "set [10, 9] \<subseteq> {7..13 :: u8}" "92 \<notin> set [10, 9 :: u8]" by (simp_all add: good_esc_def)
  then have "\<exists>g1 g2. gstr_escape byte_env ?g [10, 9] (char_int 92) = Some g1 \<and> set (text_of g1) \<inter> set [10, 9] = {} \<and>
      gstr_unescape g1 (char_int 92) = Some g2 \<and> g_ok g2 \<and> text_of g2 = text_of ?g"
    by (intro gstr_escape_roundtrip [OF byte_env_ok]) (use t in simp_all)
  then show ?thesis using t by (simp only:) blast
qed

section \<open>Traps\<close>

lemma bind_all_None: "(\<And>x. f x = None) \<Longrightarrow> Option.bind m f = None"
  by (cases m) auto

lemma escape_loop_faults: "b \<in> set bs \<Longrightarrow> b \<noteq> e \<Longrightarrow> is_delim d (char_int b) = None \<Longrightarrow> escape_loop E d (char_int e) g bs = None"
proof (induction bs arbitrary: g)
  case (Cons a bs)
  then show ?case by (cases "a = b") (auto simp: Let_def split_beta intro!: bind_all_None)
qed simp

lemma octal_esc_digits:
  assumes "e \<noteq> 0" "b < 128"
  shows "\<exists>x y z. octal_esc (char_int e) (char_int b) = [e, 48, x, y, z] \<and> set [x, y, z] \<subseteq> {48..55}"
proof -
  have b: "unat (char_int b) < 128" using assms(2) by (simp add: char_int_ascii word_less_nat_alt unsigned_ucast_eq take_bit_nat_eq_self)
  have dig: "48 + ucast v \<in> {48..55 :: u8} \<and> 48 + ucast v \<noteq> (0 :: u8)" if "unat v < 8" for v :: u32
  proof -
    have "unat (ucast v :: u8) = unat v" using that by (simp add: unsigned_ucast_eq take_bit_nat_eq_self)
    then have "unat (48 + ucast v :: u8) = 48 + unat v" using that by (simp add: unat_word_ariths)
    then show ?thesis using that by (auto simp: word_le_nat_alt)
  qed
  have "unat (char_int b div 64) < 8" "unat (char_int b div 8 mod 8) < 8" "unat (char_int b mod 8) < 8"
    using b by (simp_all add: unat_div unat_mod)
  then show ?thesis using dig assms(1) by (auto simp: octal_esc_def)
qed

lemma octal_form_lost:
  assumes E: "genv_ok E" and r: "g_rep g [b]" and e: "good_esc e" and b: "b < 128" "esc_letter b = None" "b \<noteq> e"
  shows "\<exists>g1 g2. gstr_escape E g [b] (char_int e) = Some g1 \<and> gstr_unescape g1 (char_int e) = Some g2 \<and> length (text_of g2) = 5"
proof -
  have e0: "e \<noteq> 0" using e by (auto simp: good_esc_def)
  obtain x y z where o: "octal_esc (char_int e) (char_int b) = [e, 48, x, y, z]" "set [x, y, z] \<subseteq> {48..55}"
    using octal_esc_digits [OF e0 b(1)] by blast
  obtain g1 where g1: "gstr_escape E g [b] (char_int e) = Some g1" "g_rep g1 (concat (map (enc1 (set [b]) e) [b]))"
    using gstr_escape_ok [OF E r, of "[b]" e] b e0 e by (auto simp: good_esc_def)
  have dig: "v \<noteq> e \<and> v \<noteq> 0" if "v \<in> {48..55}" for v
  proof -
    have "v \<le> 57" using that by (auto intro: order_trans [of _ 55])
    then show ?thesis using that e by (auto simp: good_esc_def)
  qed
  then have "concat (map (enc1 (set [b]) e) [b]) = concat (map (enc1 {} e) [e, 48, x, y, z])"
    using o b(2,3) dig [of 48] by (auto simp: enc1_def)
  then have "g_rep g1 (concat (map (enc1 {} e) [e, 48, x, y, z]))" using g1(2) by (simp only:)
  moreover have "\<forall>v \<in> set [e, 48, x, y, z]. v \<noteq> 0 \<and> (v \<in> {} \<longrightarrow> v = e \<or> esc_letter v \<noteq> None)" using o(2) dig e0 by auto
  ultimately obtain g2 where "gstr_unescape g1 (char_int e) = Some g2" "g_rep g2 [e, 48, x, y, z]"
    using gstr_unescape_ok [OF e, of "[e, 48, x, y, z]" "{}" g1] by (auto simp del: concat.simps list.map)
  then show ?thesis using g1(1) g_rep_text [of g2 "[e, 48, x, y, z]"] by auto
qed

lemma high_byte_faults:
  assumes r: "g_rep g s" and e: "good_esc e" and b: "b \<in> set s" "128 \<le> b" "\<forall>x \<in> set escset. x < 128"
  shows "gstr_escape E g escset (char_int e) = None"
proof -
  have "\<forall>c \<in> set (map char_int escset). unat c < 256" using b(3) unat_char by (auto simp: char_int_ascii)
  then obtain d where "add_delims init_delim (map char_int escset) = Some d" "length d = 8"
    using add_delims_ok [of init_delim "map char_int escset"] by (auto simp: init_delim_def)
  moreover have "b \<noteq> e" using b(2) e by (auto simp: good_esc_def)
  ultimately show ?thesis using escape_loop_faults [OF b(1) _ is_delim_high [OF _ b(2)]] g_repD(6) [OF r]
    by (auto simp: gstr_escape_def bind_eq_None_conv)
qed

lemma hex_letter_lost:
  assumes r: "g_rep g [e, 120, 97]" and e: "good_esc e"
  shows "map_option text_of (gstr_unescape g (char_int e)) = Some [0]"
proof -
  have e0: "e \<noteq> 0" using e by (auto simp: good_esc_def)
  obtain u where u: "g_str g = [e, 120, 97, 0] @ u" "unat (g_len g) = 3" using r by (auto simp: g_rep_def)
  have v: "esc_value (g_str g) 1 (char_int e) = Some (0, 3)"
  proof -
    have "extract_hex (g_str g) 2 (Suc (Suc 0)) 0 = Some (0, 3)"
      by (simp add: u(1) get_at_def hex_digit_def char_int_def)
    moreover have "Suc (Suc 0) = 2" by simp
    ultimately have "extract_hex (g_str g) 2 2 0 = Some (0, 3)" by (simp only:)
    moreover have "get_at (g_str g) 1 = Some 120" by (simp add: u(1))
    moreover have "1 + 1 = (2 :: nat)" by simp
    ultimately show ?thesis unfolding esc_value_def by (simp only: bind.bind_lunit Let_def) simp
  qed
  have "unescape_loop (g_str g) 0 3 0 (char_int e) = unescape_loop (0 # 120 # 97 # 0 # u) 3 3 1 (char_int e)"
    using v e0 by (subst unescape_loop.simps) (simp add: u(1) parse_esc_def mem_simps)
  also have "\<dots> = Some (0 # 120 # 97 # 0 # u, 1)" by (subst unescape_loop.simps) simp
  finally show ?thesis by (simp add: gstr_unescape_def u(2) mem_simps text_of_def)
qed

text \<open>
  Three traps. A character of the set that has no letter is written with a doubled escape character, so unescaping does not give it back;
  a byte above 127 makes \<open>gstr_escape\<close> read outside the delimiter set (a signed \<open>char\<close> is used as an index); and \<open>gstr_unescape\<close> reads the
  hex digits \<open>a\<close> to \<open>f\<close> as 0 to 5.
\<close>

theorem gstr_escape_traps:
  assumes E: "genv_ok E" and g: "g_ok g" and e: "good_esc e"
  shows "(\<forall>b. text_of g = [b] \<longrightarrow> b < 128 \<longrightarrow> esc_letter b = None \<longrightarrow> b \<noteq> e \<longrightarrow>
       (\<exists>g1 g2. gstr_escape E g [b] (char_int e) = Some g1 \<and> gstr_unescape g1 (char_int e) = Some g2 \<and> length (text_of g2) = 5)) \<and>
    (\<forall>b escset. b \<in> set (text_of g) \<longrightarrow> 128 \<le> b \<longrightarrow> (\<forall>x \<in> set escset. x < 128) \<longrightarrow> gstr_escape E g escset (char_int e) = None) \<and>
    (text_of g = [e, 120, 97] \<longrightarrow> map_option text_of (gstr_unescape g (char_int e)) = Some [0])"
proof (intro conjI allI impI)
  have r: "g_rep g (text_of g)" using g by (simp add: g_ok_def)
  show "\<exists>g1 g2. gstr_escape E g [b] (char_int e) = Some g1 \<and> gstr_unescape g1 (char_int e) = Some g2 \<and> length (text_of g2) = 5"
    if "text_of g = [b]" "b < 128" "esc_letter b = None" "b \<noteq> e" for b
    using octal_form_lost [OF E _ e] r that by simp
  show "gstr_escape E g escset (char_int e) = None"
    if "b \<in> set (text_of g)" "128 \<le> b" "\<forall>x \<in> set escset. x < 128" for b escset
    using high_byte_faults [OF r e] that by blast
  show "map_option text_of (gstr_unescape g (char_int e)) = Some [0]" if "text_of g = [e, 120, 97]"
    using hex_letter_lost [OF _ e] r that by simp
qed

theorem gstr_escape_traps_witness:
  "gstr_escape byte_env \<lparr>g_str = [200, 0], g_len = 1, g_cap = 2\<rparr> [34] (char_int 92) = None"
proof -
  let ?g = "\<lparr>g_str = [200, 0], g_len = 1, g_cap = 2\<rparr>"
  have t: "g_ok ?g" "text_of ?g = [200]" by (simp_all add: g_ok_def text_of_def g_rep_def)
  have "good_esc 92" by (simp add: good_esc_def)
  from gstr_escape_traps [OF byte_env_ok t(1) this] show ?thesis unfolding t(2) by simp
qed

end
