(* ===== verification/Gstring_Var.thy ===== *)
theory Gstring_Var
  imports Gstring
begin

text \<open>
  Variable expansion in growable strings, \<open>src/gstring_var.c\<close>. A pointer into the NUL-terminated string is the rest of the string from there; the
  lookup function and its cookie are the argument \<open>lookup\<close>. Character constants are written as numbers: 36 is a dollar sign, 92 a backslash, 123 and 125 the braces.
\<close>

definition isalnum8 :: "u8 \<Rightarrow> bool" where
  "isalnum8 c \<longleftrightarrow> (48 \<le> c \<and> c \<le> 57) \<or> (65 \<le> c \<and> c \<le> 90) \<or> (97 \<le> c \<and> c \<le> 122)"

text \<open>\<open>$ # @ ? * ! < > % ^ & - _ | : .\<close> and the alphanumeric characters.\<close>

definition is_varch :: "u8 \<Rightarrow> bool" where
  "is_varch c \<longleftrightarrow> c \<in> {36, 35, 64, 63, 42, 33, 60, 62, 37, 94, 38, 45, 95, 124, 58, 46} \<or> isalnum8 c"

fun brace_loop :: "u8 venv \<Rightarrow> gstr \<Rightarrow> nat \<Rightarrow> u8 list \<Rightarrow> (nat \<times> gstr) option" where
  "brace_loop E v i [] = do { v \<leftarrow> gstr_reset v; Some (i + 1, v) }"
| "brace_loop E v i (c # cs) =
    (if c = 125 then Some (i + 1, v) else do { (_, v) \<leftarrow> gstr_append_ch E v (char_int c); brace_loop E v (i + 1) cs })"

fun name_loop :: "u8 venv \<Rightarrow> gstr \<Rightarrow> nat \<Rightarrow> u8 list \<Rightarrow> (nat \<times> gstr) option" where
  "name_loop E v i [] = Some (i, v)"
| "name_loop E v i (c # cs) =
    (if is_varch c then do { (_, v) \<leftarrow> gstr_append_ch E v (char_int c); name_loop E v (i + 1) cs } else Some (i, v))"

definition getvar :: "u8 venv \<Rightarrow> gstr \<Rightarrow> u8 list \<Rightarrow> (nat \<times> gstr) option" where
  "getvar E v s =
    do { v \<leftarrow> gstr_reset v;
         case s of
           [] \<Rightarrow> Some (0, v)
         | c # cs \<Rightarrow> if c = 123 then (if cs = [] then Some (1, v) else brace_loop E v 1 cs) else name_loop E v 0 s }"

function varexp_loop :: "u8 venv \<Rightarrow> (u8 list \<Rightarrow> u8 list option) \<Rightarrow> gstr \<Rightarrow> gstr \<Rightarrow> u8 \<Rightarrow> u8 list \<Rightarrow> gstr res option" where
  "varexp_loop E lookup g v prev [] = Some (Inr g)"
| "varexp_loop E lookup g v prev (c # s) =
    (if c \<noteq> 36 then do { (_, g) \<leftarrow> gstr_append_ch E g (char_int c); varexp_loop E lookup g v c s }
     else if prev = 92
     then do { m \<leftarrow> put_at (g_str g) (unat (g_len g - 1)) 36; varexp_loop E lookup (g\<lparr>g_str := m\<rparr>) v c s }
     else do { (n, v) \<leftarrow> getvar E v s;
               if g_len v = 0 then Some (Inl EINVAL)
               else do { name \<leftarrow> c_str (g_str v);
                         case lookup name of
                           None \<Rightarrow> Some (Inl ENOENT)
                         | Some z \<Rightarrow> do { (_, g) \<leftarrow> gstr_append_str E g (Some z); varexp_loop E lookup g v c (drop n s) } } })"
  by pat_completeness auto
termination by (relation "measure (\<lambda>(E, lookup, g, v, prev, s). length s)") auto

definition gstr_varexp :: "u8 venv \<Rightarrow> (u8 list \<Rightarrow> u8 list option) \<Rightarrow> gstr \<Rightarrow> (unit res \<times> gstr) option" where
  "gstr_varexp E lookup g0 =
    do { s \<leftarrow> c_str (g_str g0);
         g \<leftarrow> gstr_init E (g_len g0);
         v \<leftarrow> gstr_init E 64;
         r \<leftarrow> varexp_loop E lookup g v 0 s;
         case r of
           Inr g \<Rightarrow> Some (Inr (), g0\<lparr>g_str := g_str g, g_len := g_len g, g_cap := g_cap g\<rparr>)
         | Inl e \<Rightarrow> do { m \<leftarrow> put_at (g_str g0) 0 0; Some (Inl e, g0\<lparr>g_str := m, g_len := 0\<rparr>) } }"

section \<open>Specification\<close>

text \<open>The name behind a dollar sign and the number of characters it takes; an empty name is an error.\<close>

fun var_name :: "u8 list \<Rightarrow> u8 list \<times> nat" where
  "var_name [] = ([], 0)"
| "var_name (c # cs) =
    (if c = 123
     then if 125 \<in> set cs then (takeWhile (\<lambda>x. x \<noteq> 125) cs, length (takeWhile (\<lambda>x. x \<noteq> 125) cs) + 2) else ([], 0)
     else (takeWhile is_varch (c # cs), length (takeWhile is_varch (c # cs))))"

function expand :: "(u8 list \<Rightarrow> u8 list option) \<Rightarrow> u8 list \<Rightarrow> u8 \<Rightarrow> u8 list \<Rightarrow> u8 list res" where
  "expand lookup acc prev [] = Inr acc"
| "expand lookup acc prev (c # s) =
    (if c \<noteq> 36 then expand lookup (acc @ [c]) c s
     else if prev = 92 then expand lookup (butlast acc @ [36]) 36 s
     else if fst (var_name s) = [] then Inl EINVAL
     else case lookup (fst (var_name s)) of
       None \<Rightarrow> Inl ENOENT
     | Some z \<Rightarrow> expand lookup (acc @ z) 36 (drop (snd (var_name s)) s))"
  by pat_completeness auto
termination by (relation "measure (\<lambda>(lookup, acc, prev, s). length s)") auto

lemma brace_loop_ok:
  assumes E: "genv_ok E"
  shows "g_rep v x \<Longrightarrow> 0 \<notin> set cs \<Longrightarrow> length x + length cs \<le> 2 ^ 30 \<Longrightarrow>
    \<exists>n v'. brace_loop E v i cs = Some (n, v') \<and>
      (if 125 \<in> set cs then g_rep v' (x @ takeWhile (\<lambda>x. x \<noteq> 125) cs) \<and> n = i + length (takeWhile (\<lambda>x. x \<noteq> 125) cs) + 1 else g_rep v' [])"
proof (induction cs arbitrary: v x i)
  case Nil
  then show ?case using reset_ok [OF Nil(1)] by auto
next
  case (Cons c cs)
  show ?case
  proof (cases "c = 125")
    case True
    then show ?thesis using Cons.prems by simp
  next
    case False
    have "c \<noteq> 0" "length x \<le> 2 ^ 38" using Cons.prems by auto
    then obtain r v1 where v1: "gstr_append_ch E v (char_int c) = Some (r, v1)" "g_rep v1 (x @ [c])"
      using append_ch_ok [OF E Cons.prems(1), of "char_int c"] by auto
    show ?thesis using Cons.IH [OF v1(2), of "i + 1"] Cons.prems False v1(1) by (auto split: if_splits)
  qed
qed

lemma name_loop_ok:
  assumes E: "genv_ok E"
  shows "g_rep v x \<Longrightarrow> 0 \<notin> set cs \<Longrightarrow> length x + length cs \<le> 2 ^ 30 \<Longrightarrow>
    \<exists>v'. name_loop E v i cs = Some (i + length (takeWhile is_varch cs), v') \<and> g_rep v' (x @ takeWhile is_varch cs)"
proof (induction cs arbitrary: v x i)
  case (Cons c cs)
  show ?case
  proof (cases "is_varch c")
    case False
    then show ?thesis using Cons.prems by simp
  next
    case True
    have "c \<noteq> 0" "length x \<le> 2 ^ 38" using Cons.prems by auto
    then obtain r v1 where v1: "gstr_append_ch E v (char_int c) = Some (r, v1)" "g_rep v1 (x @ [c])"
      using append_ch_ok [OF E Cons.prems(1), of "char_int c"] by auto
    show ?thesis using Cons.IH [OF v1(2), of "i + 1"] Cons.prems True v1(1) by auto
  qed
qed simp

lemma getvar_ok:
  assumes E: "genv_ok E" and v: "g_rep v x" and s: "0 \<notin> set s" "length s \<le> 2 ^ 30"
  shows "\<exists>n v'. getvar E v s = Some (n, v') \<and> g_rep v' (fst (var_name s)) \<and> (fst (var_name s) \<noteq> [] \<longrightarrow> n = snd (var_name s))"
proof -
  obtain v0 where v0: "gstr_reset v = Some v0" "g_rep v0 []" using reset_ok [OF v] by blast
  show ?thesis
  proof (cases s)
    case Nil
    then show ?thesis using v0 by (simp add: getvar_def)
  next
    case (Cons c cs)
    show ?thesis
    proof (cases "c = 123")
      case True
      then show ?thesis using brace_loop_ok [OF E v0(2), of cs 1] s v0 Cons
        by (cases "cs = []") (auto simp: getvar_def split: if_splits)
    next
      case False
      then show ?thesis using name_loop_ok [OF E v0(2), of s 0] s v0 Cons by (auto simp: getvar_def)
    qed
  qed
qed

text \<open>Writing \<open>$\<close> over the backslash in front of it.\<close>

lemma put_last_ok:
  assumes g: "g_rep g s" and s: "s \<noteq> []" and c: "c \<noteq> 0"
  shows "\<exists>m. put_at (g_str g) (unat (g_len g - 1)) c = Some m \<and> g_rep (g\<lparr>g_str := m\<rparr>) (butlast s @ [c])"
proof -
  note d = g_repD [OF g]
  obtain u x where u: "s = u @ [x]" using s by (cases s rule: rev_cases) auto
  obtain t where t: "g_str g = u @ x # 0 # t" using g u by (auto simp: g_rep_def)
  have n: "unat (g_len g - 1) = length u" using d(1) u by (simp add: unat_pred_u64)
  have "g_rep (g\<lparr>g_str := u @ c # 0 # t\<rparr>) (u @ [c])" using g c u t by (auto simp: g_rep_def)
  then show ?thesis using n t u by (simp add: put_at_def list_update_append)
qed

definition lookup_ok :: "(u8 list \<Rightarrow> u8 list option) \<Rightarrow> bool" where
  "lookup_ok lookup \<longleftrightarrow> (\<forall>k z. lookup k = Some z \<longrightarrow> 0 \<notin> set z \<and> length z \<le> 2 ^ 20)"

lemma varexp_loop_ok:
  assumes E: "genv_ok E"
  shows "lookup_ok lookup \<Longrightarrow> g_rep g acc \<Longrightarrow> g_rep v x \<Longrightarrow> 0 \<notin> set s \<Longrightarrow> (prev = 92 \<longrightarrow> acc \<noteq> []) \<Longrightarrow> length acc + length s * 2 ^ 20 \<le> 2 ^ 37 \<Longrightarrow>
    \<exists>r. varexp_loop E lookup g v prev s = Some r \<and>
      (case expand lookup acc prev s of Inl e \<Rightarrow> r = Inl e | Inr t \<Rightarrow> \<exists>g'. r = Inr g' \<and> g_rep g' t)"
proof (induction lookup acc prev s arbitrary: g v x rule: expand.induct)
  case (1 lookup acc prev)
  then show ?case by simp
next
  case (2 lookup acc prev c s)
  have ns: "c \<noteq> 0" "0 \<notin> set s" "length acc \<le> 2 ^ 38" "length s \<le> 2 ^ 30" using "2.prems"(4,6) by auto
  consider "c \<noteq> 36" | "c = 36" "prev = 92" | "c = 36" "prev \<noteq> 92" by auto
  then show ?case
  proof cases
    case 1
    obtain r g1 where g1: "gstr_append_ch E g (char_int c) = Some (r, g1)" "g_rep g1 (acc @ [c])"
      using append_ch_ok [OF E "2.prems"(2), of "char_int c"] ns by auto
    show ?thesis using "2.IH"(1) [OF 1 "2.prems"(1) g1(2) "2.prems"(3) ns(2)] "2.prems"(6) 1 g1(1) by simp
  next
    case 2
    obtain m where m: "put_at (g_str g) (unat (g_len g - 1)) 36 = Some m" "g_rep (g\<lparr>g_str := m\<rparr>) (butlast acc @ [36])"
      using put_last_ok [OF "2.prems"(2), of 36] "2.prems"(5) 2 by auto
    have "c \<noteq> 36 \<Longrightarrow> False" using 2 by simp
    then show ?thesis using "2.IH"(2) [OF _ 2(2) "2.prems"(1) m(2) "2.prems"(3) ns(2)] "2.prems"(6) 2 m(1) by (simp add: mem_simps)
  next
    case 3
    obtain n v1 where v1: "getvar E v s = Some (n, v1)" "g_rep v1 (fst (var_name s))" "fst (var_name s) \<noteq> [] \<longrightarrow> n = snd (var_name s)"
      using getvar_ok [OF E "2.prems"(3) ns(2,4)] by blast
    show ?thesis
    proof (cases "fst (var_name s) = []")
      case True
      then show ?thesis using 3 v1 len_pos(2) [OF v1(2)] by simp
    next
      case False
      have nm: "c_str (g_str v1) = Some (fst (var_name s))" using g_repD(6) [OF v1(2)] .
      show ?thesis
      proof (cases "lookup (fst (var_name s))")
        case None
        then show ?thesis using 3 v1 len_pos(2) [OF v1(2)] False nm by simp
      next
        case (Some z)
        have z: "0 \<notin> set z" "length z \<le> 2 ^ 20" using "2.prems"(1) Some by (auto simp: lookup_ok_def)
        obtain r g1 where g1: "gstr_append_str E g (Some z) = Some (r, g1)" "g_rep g1 (acc @ z)"
          using append_few [OF E "2.prems"(2) z ns(3)] by blast
        have sn: "0 \<notin> set (drop n s)" using ns(2) by (meson in_set_dropD)
        have "length (acc @ z) + length (drop n s) * 2 ^ 20 \<le> length acc + length (c # s) * 2 ^ 20" using z(2) by simp
        then have l: "length (acc @ z) + length (drop n s) * 2 ^ 20 \<le> 2 ^ 37" using "2.prems"(6) by linarith
        have "\<exists>r. varexp_loop E lookup g1 v1 36 (drop n s) = Some r \<and>
            (case expand lookup (acc @ z) 36 (drop n s) of Inl e \<Rightarrow> r = Inl e | Inr t \<Rightarrow> \<exists>g'. r = Inr g' \<and> g_rep g' t)"
          using "2.IH"(3) [OF _ 3(2) False Some "2.prems"(1) g1(2) v1(2)] sn l 3(1) v1(3) False by simp
        then show ?thesis using 3 v1 len_pos(2) [OF v1(2)] False nm Some g1(1) by simp
      qed
    qed
  qed
qed

text \<open>
  \<open>gstr_varexp\<close> on every text: it replaces every variable \<open>$NAME\<close> or \<open>${NAME}\<close> by its value and \<open>\$\<close> by a dollar sign, as \<open>expand\<close> says; it returns \<open>-EINVAL\<close> for a missing
  name or brace and \<open>-ENOENT\<close> for an unknown variable, and then leaves an empty string. It never leaves its buffers.
\<close>

lemma varexp_expands:
  assumes "genv_ok E" "lookup_ok lookup" "g_ok g" "length (text_of g) \<le> 2 ^ 17"
  shows "\<exists>r g'. gstr_varexp E lookup g = Some (r, g') \<and> g_ok g' \<and>
    (case expand lookup [] 0 (text_of g) of Inl e \<Rightarrow> r = Inl e \<and> text_of g' = [] | Inr t \<Rightarrow> r = Inr () \<and> text_of g' = t)"
proof -
  define s where "s = text_of g"
  have g: "g_rep g s" using assms(3) by (simp add: g_ok_def s_def)
  note d = g_repD [OF g]
  have "unat (g_len g) \<le> 2 ^ 38" using d(1) assms(4) by (simp add: s_def)
  then obtain h where h: "gstr_init E (g_len g) = Some h" "g_rep h []" using gstr_init_ok [OF assms(1)] by blast
  obtain v where v: "gstr_init E 64 = Some v" "g_rep v []" using gstr_init_ok [OF assms(1), of 64] by auto
  obtain r where r: "varexp_loop E lookup h v 0 s = Some r"
    "case expand lookup [] 0 s of Inl e \<Rightarrow> r = Inl e | Inr t \<Rightarrow> \<exists>g'. r = Inr g' \<and> g_rep g' t"
    using varexp_loop_ok [OF assms(1,2) h(2) v(2) d(5), of 0] assms(4) by (auto simp: s_def)
  show ?thesis
  proof (cases r)
    case (Inl e)
    then have "expand lookup [] 0 s = Inl e" using r(2) by (auto split: sum.splits)
    moreover have "g_rep (g\<lparr>g_str := (g_str g)[0 := 0], g_len := 0\<rparr>) []" "0 < length (g_str g)" using cut_ok [OF g, of 0 0] by simp_all
    ultimately show ?thesis using Inl h(1) v(1) r(1) d(6) g_rep_text by (fastforce simp: gstr_varexp_def mem_simps s_def)
  next
    case (Inr g')
    then obtain t where t: "expand lookup [] 0 s = Inr t" "g_rep g' t" using r(2) by (auto split: sum.splits)
    have "g_rep (g\<lparr>g_str := g_str g', g_len := g_len g', g_cap := g_cap g'\<rparr>) t" using t(2) by (simp add: g_rep_def)
    then show ?thesis using Inr h(1) v(1) r(1) d(6) t(1) g_rep_text by (fastforce simp: gstr_varexp_def s_def)
  qed
qed

section \<open>Templates\<close>

text \<open>
  A template is written from literal text, \<open>\$\<close>, \<open>$NAME\<close> and \<open>${NAME}\<close>. Literal text has no dollar sign and no backslash; a name outside braces is
  alphanumeric and ends where the text ends or before a character that the code takes into no name (other characters that follow a name are where the code and its comment,
  which allows only alphanumeric characters, differ); a name in braces is any text without a closing brace.
\<close>

datatype seg = Lit "u8 list" | Esc | Var "u8 list" | Braced "u8 list"

fun seg_text :: "seg \<Rightarrow> u8 list" where
  "seg_text (Lit s) = s"
| "seg_text Esc = [92, 36]"
| "seg_text (Var n) = 36 # n"
| "seg_text (Braced n) = 36 # 123 # n @ [125]"

definition template :: "seg list \<Rightarrow> u8 list" where
  "template ss = concat (map seg_text ss)"

definition ends_name :: "u8 list \<Rightarrow> bool" where
  "ends_name t \<longleftrightarrow> t = [] \<or> \<not> is_varch (hd t)"

fun segs_ok :: "seg list \<Rightarrow> bool" where
  "segs_ok [] \<longleftrightarrow> True"
| "segs_ok (Lit s # ss) \<longleftrightarrow> 0 \<notin> set s \<and> 36 \<notin> set s \<and> 92 \<notin> set s \<and> segs_ok ss"
| "segs_ok (Esc # ss) \<longleftrightarrow> segs_ok ss"
| "segs_ok (Var n # ss) \<longleftrightarrow> n \<noteq> [] \<and> list_all isalnum8 n \<and> ends_name (template ss) \<and> segs_ok ss"
| "segs_ok (Braced n # ss) \<longleftrightarrow> n \<noteq> [] \<and> 0 \<notin> set n \<and> 125 \<notin> set n \<and> segs_ok ss"

fun fill :: "(u8 list \<Rightarrow> u8 list option) \<Rightarrow> seg list \<Rightarrow> u8 list option" where
  "fill lookup [] = Some []"
| "fill lookup (Lit s # ss) = map_option ((@) s) (fill lookup ss)"
| "fill lookup (Esc # ss) = map_option ((#) 36) (fill lookup ss)"
| "fill lookup (Var n # ss) = do { z \<leftarrow> lookup n; map_option ((@) z) (fill lookup ss) }"
| "fill lookup (Braced n # ss) = do { z \<leftarrow> lookup n; map_option ((@) z) (fill lookup ss) }"

lemma template_simps [simp]: "template [] = []" "template (x # ss) = seg_text x @ template ss"
  by (simp_all add: template_def)

lemma expand_lit:
  "36 \<notin> set s \<Longrightarrow> expand lookup acc prev (s @ t) = expand lookup (acc @ s) (if s = [] then prev else last s) t"
  by (induction s arbitrary: acc prev) auto

lemma var_name_plain:
  assumes "n \<noteq> []" "list_all isalnum8 n" "ends_name t"
  shows "var_name (n @ t) = (n, length n)"
proof -
  have v: "\<forall>c \<in> set n. is_varch c" using assms(2) by (auto simp: list_all_iff is_varch_def)
  have t: "takeWhile is_varch (n @ t) = n" using v assms(3) by (cases t) (auto simp: ends_name_def takeWhile_append)
  obtain c cs where n: "n = c # cs" using assms(1) by (cases n) auto
  have "c \<noteq> 123" using assms(2) n by (auto simp: isalnum8_def)
  then show ?thesis using t unfolding n by simp
qed

lemma var_name_braced: "125 \<notin> set n \<Longrightarrow> var_name (123 # n @ 125 # t) = (n, length n + 2)"
proof -
  assume "125 \<notin> set n"
  then have "takeWhile (\<lambda>x. x \<noteq> 125) (n @ 125 # t) = n" by (induction n) auto
  then show ?thesis by simp
qed

lemma expand_template:
  assumes "segs_ok ss" "prev \<noteq> 92"
  shows "expand lookup acc prev (template ss) = (case fill lookup ss of None \<Rightarrow> Inl ENOENT | Some z \<Rightarrow> Inr (acc @ z))"
  using assms
proof (induction ss arbitrary: acc prev rule: segs_ok.induct)
  case (2 s ss)
  have "(if s = [] then prev else last s) \<noteq> 92" using 2(2,3) last_in_set [of s] by (metis segs_ok.simps(2))
  then show ?case using 2 by (simp add: expand_lit split: option.split)
next
  case (3 ss)
  then show ?case by (simp split: option.split)
next
  case (4 n ss)
  then have "var_name (n @ template ss) = (n, length n)" by (intro var_name_plain) simp_all
  then show ?case using 4 by (simp split: option.split)
next
  case (5 n ss)
  then have "var_name (123 # n @ 125 # template ss) = (n, length n + 2)" by (intro var_name_braced) simp
  then show ?case using 5 by (simp del: var_name.simps split: option.split)
qed simp

text \<open>
  C23: \<open>gstr_varexp\<close> of a template (literal text without dollar signs and backslashes, \<open>\$\<close>, \<open>$NAME\<close> with an alphanumeric name that is followed by the end or a character no
  name contains, and \<open>${NAME}\<close>) puts the value of every variable in the place of its name, and a dollar sign in the place of \<open>\$\<close>; if a variable is unknown it returns \<open>-ENOENT\<close> and leaves the
  empty string. It never leaves its buffers. The text has at most \<open>2^17\<close> bytes, values have at most \<open>2^20\<close>, and allocations succeed.
\<close>

theorem gstr_varexp_fills:
  assumes "genv_ok E" "lookup_ok lookup" "g_ok g" "length (text_of g) \<le> 2 ^ 17" "text_of g = template ss" "segs_ok ss"
  shows "\<exists>r g'. gstr_varexp E lookup g = Some (r, g') \<and> g_ok g' \<and>
    (case fill lookup ss of None \<Rightarrow> r = Inl ENOENT \<and> text_of g' = [] | Some t \<Rightarrow> r = Inr () \<and> text_of g' = t)"
  using varexp_expands [OF assms(1-4)] expand_template [OF assms(6), of 0 lookup "[]"] assms(5) by (auto split: option.splits)

theorem gstr_varexp_fills_witness:
  "\<exists>g'. gstr_varexp byte_env (\<lambda>k. if k = [65] then Some [66, 67] else None)
      \<lparr>g_str = [36, 65, 32, 36, 123, 65, 125, 120, 92, 36, 0], g_len = 10, g_cap = 11\<rparr> = Some (Inr (), g') \<and> text_of g' = [66, 67, 32, 66, 67, 120, 36]"
proof -
  let ?g = "\<lparr>g_str = [36, 65, 32, 36, 123, 65, 125, 120, 92, 36, 0], g_len = 10, g_cap = 11\<rparr>" and ?ss = "[Var [65], Lit [32], Braced [65], Lit [120], Esc]"
  let ?f = "\<lambda>k. if k = [65 :: u8] then Some [66, 67 :: u8] else None"
  have t: "g_ok ?g" "text_of ?g = template ?ss" "lookup_ok ?f" "segs_ok ?ss"
    by (simp_all add: g_ok_def text_of_def g_rep_def lookup_ok_def isalnum8_def ends_name_def is_varch_def)
  have x: "fill ?f ?ss = Some [66, 67, 32, 66, 67, 120, 36]" by simp
  obtain r g' where "gstr_varexp byte_env ?f ?g = Some (r, g')"
    "case fill ?f ?ss of None \<Rightarrow> r = Inl ENOENT \<and> text_of g' = [] | Some t \<Rightarrow> r = Inr () \<and> text_of g' = t"
    using gstr_varexp_fills [OF byte_env_ok t(3,1) _ t(2,4)] t(2) by auto
  then show ?thesis unfolding x by auto
qed

end
