(* ===== verification/Base64.thy ===== *)
theory Base64
  imports Encdec
begin

text \<open>
  Base64: \<open>src/b64_encode.c\<close> and \<open>src/b64_decode.c\<close> (types in \<open>inc/utils/base64.h\<close>). Both are resumable state machines: a text may be passed in pieces,
  and the \<open>step\<close> and the bits of an unfinished byte are carried in the state from call to call. Output goes through a \<open>cursor\<close> of
  \<open>Encdec\<close>; the source pieces are byte lists. A \<open>char\<close> is signed. The reference is \<open>b64_ref\<close>, the encoding of RFC 4648 by arithmetic on 24-bit groups.
\<close>

section \<open>Encoder\<close>

datatype encodestep = step_A | step_B | step_C

record encode_state =
  be_stepcount :: u32
  be_step :: encodestep
  be_result :: u8

definition encoding :: "u8 list" where
  "encoding = map of_nat ([65..<91] @ [97..<123] @ [48..<58] @ [43, 47])"

definition base64_encode_value :: "int \<Rightarrow> u8 option" where
  "base64_encode_value v = (if 63 < v then Some 61 else if v < 0 then None else get_at encoding (nat v))"

definition base64_encode_init :: encode_state where
  "base64_encode_init = \<lparr>be_stepcount = 0, be_step = step_A, be_result = 0\<rparr>"

definition put_value :: "u8 \<Rightarrow> cursor \<Rightarrow> cursor option" where
  "put_value result c = do { v \<leftarrow> base64_encode_value (sint result); put_byte v c }"

fun base64_encode_block :: "encode_state \<Rightarrow> u8 list \<Rightarrow> cursor \<Rightarrow> (encode_state \<times> cursor) option" where
  "base64_encode_block st [] c = Some (st, c)"
| "base64_encode_block st (fragment # plain) c =
    (case be_step st of
       step_A \<Rightarrow> do {
         c \<leftarrow> put_value (drop_bit 2 (fragment AND 0xfc)) c;
         base64_encode_block (st\<lparr>be_step := step_B, be_result := push_bit 4 (fragment AND 0x03)\<rparr>) plain c }
     | step_B \<Rightarrow> do {
         c \<leftarrow> put_value (be_result st OR drop_bit 4 (fragment AND 0xf0)) c;
         base64_encode_block (st\<lparr>be_step := step_C, be_result := push_bit 2 (fragment AND 0x0f)\<rparr>) plain c }
     | step_C \<Rightarrow> do {
         c \<leftarrow> put_value (be_result st OR drop_bit 6 (fragment AND 0xc0)) c;
         c \<leftarrow> put_value (fragment AND 0x3f) c;
         let n = be_stepcount st + 1;
         let st = st\<lparr>be_step := step_A, be_result := fragment AND 0x3f\<rparr>;
         if n = 72 div 4
         then do { c \<leftarrow> put_byte 10 c; base64_encode_block (st\<lparr>be_stepcount := 0\<rparr>) plain c }
         else base64_encode_block (st\<lparr>be_stepcount := n\<rparr>) plain c })"

definition base64_encode_finish :: "encode_state \<Rightarrow> cursor \<Rightarrow> cursor option" where
  "base64_encode_finish st c = do {
     c \<leftarrow> (case be_step st of
             step_B \<Rightarrow> do { c \<leftarrow> put_value (be_result st) c; c \<leftarrow> put_byte 61 c; put_byte 61 c }
           | step_C \<Rightarrow> do { c \<leftarrow> put_value (be_result st) c; put_byte 61 c }
           | step_A \<Rightarrow> Some c);
     c \<leftarrow> put_byte 10 c;
     m \<leftarrow> put_at (cu_mem c) (cu_pos c) 0;
     Some (c\<lparr>cu_mem := m\<rparr>) }"

text \<open>\<open>destlen\<close> is an \<open>int\<close>; \<open>2*srclen\<close> is evaluated as an \<open>int\<close> and must not overflow.\<close>

definition base64_encode_buf :: "u8 list \<Rightarrow> int \<Rightarrow> u8 list \<Rightarrow> (nat res \<times> u8 list) option" where
  "base64_encode_buf dest destlen src =
    (if 2 ^ 31 \<le> 2 * int (length src) then None
     else if destlen < 2 * int (length src) then Some (Inl ENOMEM, dest)
     else do {
       (st, c) \<leftarrow> base64_encode_block base64_encode_init src \<lparr>cu_mem = dest, cu_pos = 0\<rparr>;
       if int (cu_pos c) < destlen + 5
       then do { c \<leftarrow> base64_encode_finish st c; Some (Inr (cu_pos c), cu_mem c) }
       else None })"

section \<open>Decoder\<close>

datatype decodestep = step_a | step_b | step_c | step_d

record decode_state =
  bd_step :: decodestep
  bd_plainchar :: u8

definition decoding :: "int list" where
  "decoding =
    [62, -1, -1, -1, 63, 52, 53, 54, 55, 56, 57, 58, 59, 60, 61,
     -1, -1, -1, -2, -1, -1, -1, 0, 1, 2, 3, 4, 5, 6, 7, 8, 9, 10,
     11, 12, 13, 14, 15, 16, 17, 18, 19, 20, 21, 22, 23, 24, 25, -1,
     -1, -1, -1, -1, -1, 26, 27, 28, 29, 30, 31, 32, 33, 34, 35, 36,
     37, 38, 39, 40, 41, 42, 43, 44, 45, 46, 47, 48, 49, 50, 51]"

definition base64_decode_value :: "int \<Rightarrow> int option" where
  "base64_decode_value value_in =
    (let v = value_in - 43 in if v < 0 \<or> int (length decoding) < v then Some (-1) else get_at decoding (nat v))"

definition base64_decode_init :: decode_state where
  "base64_decode_init = \<lparr>bd_step = step_a, bd_plainchar = 0\<rparr>"

text \<open>\<open>*plainchar = v\<close> and \<open>*plainchar++ |= v\<close>.\<close>

definition poke :: "u8 \<Rightarrow> cursor \<Rightarrow> cursor option" where
  "poke v c = do { m \<leftarrow> put_at (cu_mem c) (cu_pos c) v; Some (c\<lparr>cu_mem := m\<rparr>) }"

definition or_next :: "u8 \<Rightarrow> cursor \<Rightarrow> cursor option" where
  "or_next v c = do { x \<leftarrow> get_at (cu_mem c) (cu_pos c); put_byte (x OR v) c }"

fun decode_loop :: "decodestep \<Rightarrow> u8 list \<Rightarrow> cursor \<Rightarrow> (decode_state \<times> cursor) option" where
  "decode_loop step [] c = do { x \<leftarrow> get_at (cu_mem c) (cu_pos c); Some (\<lparr>bd_step = step, bd_plainchar = x\<rparr>, c) }"
| "decode_loop step (ch # code) c = do {
     v \<leftarrow> base64_decode_value (sint ch);
     if v < 0 then decode_loop step code c
     else let fragment = (of_int v :: u8) in
       case step of
         step_a \<Rightarrow> do { c \<leftarrow> poke (push_bit 2 (fragment AND 0x3f)) c; decode_loop step_b code c }
       | step_b \<Rightarrow> do { c \<leftarrow> or_next (drop_bit 4 (fragment AND 0x30)) c; c \<leftarrow> poke (push_bit 4 (fragment AND 0x0f)) c; decode_loop step_c code c }
       | step_c \<Rightarrow> do { c \<leftarrow> or_next (drop_bit 2 (fragment AND 0x3c)) c; c \<leftarrow> poke (push_bit 6 (fragment AND 0x03)) c; decode_loop step_d code c }
       | step_d \<Rightarrow> do { c \<leftarrow> or_next (fragment AND 0x3f) c; decode_loop step_a code c } }"

definition base64_decode_block :: "decode_state \<Rightarrow> u8 list \<Rightarrow> cursor \<Rightarrow> (decode_state \<times> cursor) option" where
  "base64_decode_block st code c = do { c \<leftarrow> poke (bd_plainchar st) c; decode_loop (bd_step st) code c }"

definition base64_decode_buf :: "u8 list \<Rightarrow> int \<Rightarrow> u8 list \<Rightarrow> (nat res \<times> u8 list) option" where
  "base64_decode_buf buf destlen src =
    (if destlen < int (length src) div 2 then Some (Inl ENOMEM, buf)
     else do {
       (st, c) \<leftarrow> base64_decode_block base64_decode_init src \<lparr>cu_mem = buf, cu_pos = 0\<rparr>;
       Some (Inr (cu_pos c), cu_mem c) })"

section \<open>Reference\<close>

definition b64_char :: "nat \<Rightarrow> u8" where
  "b64_char n = encoding ! n"

definition quad :: "u8 \<Rightarrow> u8 \<Rightarrow> u8 \<Rightarrow> u8 list" where
  "quad x y z = (let n = unat x * 65536 + unat y * 256 + unat z in
     map b64_char [n div 262144, n div 4096 mod 64, n div 64 mod 64, n mod 64])"

fun b64_ref :: "u8 list \<Rightarrow> u8 list" where
  "b64_ref (x # y # z # xs) = quad x y z @ b64_ref xs"
| "b64_ref [x, y] = take 3 (quad x y 0) @ [61]"
| "b64_ref [x] = take 2 (quad x 0 0) @ [61, 61]"
| "b64_ref [] = []"

text \<open>The text with its line breaks: a line ends after 18 full groups, and the last line always ends. \<open>k\<close> counts the groups of the current line.\<close>

fun b64_text :: "nat \<Rightarrow> u8 list \<Rightarrow> u8 list" where
  "b64_text k (x # y # z # xs) = quad x y z @ (if k = 17 then 10 # b64_text 0 xs else b64_text (Suc k) xs)"
| "b64_text k [x, y] = b64_ref [x, y] @ [10]"
| "b64_text k [x] = b64_ref [x] @ [10]"
| "b64_text k [] = [10]"

text \<open>Calls that pass a text in pieces.\<close>

fun encode_pieces :: "encode_state \<Rightarrow> u8 list list \<Rightarrow> cursor \<Rightarrow> cursor option" where
  "encode_pieces st [] c = base64_encode_finish st c"
| "encode_pieces st (p # ps) c = do { (st, c) \<leftarrow> base64_encode_block st p c; encode_pieces st ps c }"

fun decode_pieces :: "decode_state \<Rightarrow> u8 list list \<Rightarrow> cursor \<Rightarrow> cursor option" where
  "decode_pieces st [] c = Some c"
| "decode_pieces st (p # ps) c = do { (st, c) \<leftarrow> base64_decode_block st p c; decode_pieces st ps c }"

section \<open>Digits\<close>

definition digits :: "u8 \<Rightarrow> u8 \<Rightarrow> u8 \<Rightarrow> u8 list" where
  "digits x y z =
    [drop_bit 2 (x AND 0xfc), push_bit 4 (x AND 0x03) OR drop_bit 4 (y AND 0xf0),
     push_bit 2 (y AND 0x0f) OR drop_bit 6 (z AND 0xc0), z AND 0x3f]"

lemma digits_decode:
  "push_bit 2 (digits x y z ! 0 AND 0x3f) OR drop_bit 4 (digits x y z ! 1 AND 0x30) = x"
  "push_bit 4 (digits x y z ! 1 AND 0x0f) OR drop_bit 2 (digits x y z ! 2 AND 0x3c) = y"
  "push_bit 6 (digits x y z ! 2 AND 0x03) OR (digits x y z ! 3 AND 0x3f) = z"
  by (rule u8_eqI; simp add: digits_def bit_simps bit_numeral_rec)+

lemma digits_nat:
  "map unat (digits x y z) =
    [unat x div 4, unat x mod 4 * 16 + unat y div 16, unat y mod 16 * 4 + unat z div 64, unat z mod 64]"
proof -
  have m: "drop_bit 2 (x AND 0xfc) = drop_bit 2 x" "x AND 3 = take_bit 2 x" "drop_bit 4 (y AND 0xf0) = drop_bit 4 y"
    "y AND 15 = take_bit 4 y" "drop_bit 6 (z AND 0xc0) = drop_bit 6 z" "z AND 63 = take_bit 6 z"
    by (rule u8_eqI; simp add: bit_simps bit_numeral_rec u8_no_bit)+
  have t: "unat (take_bit n w) = unat w mod 2 ^ n" for n and w :: u8
    by (simp only: unsigned_take_bit_eq) (simp only: take_bit_eq_mod)
  have p: "unat (push_bit k (take_bit n w)) = unat w mod 2 ^ n * 2 ^ k" if "n + k \<le> 8" for n k and w :: u8
  proof -
    have "unat w mod 2 ^ n * 2 ^ k < 2 ^ n * 2 ^ k" by simp
    also have "\<dots> \<le> 256" using power_increasing [OF that, of "2 :: nat"] by (simp add: power_add)
    finally have lt: "unat w mod 2 ^ n * 2 ^ k < 256" .
    have "unat (push_bit k (take_bit n w)) = take_bit 8 (push_bit k (unat (take_bit n w)))" by (simp add: unsigned_push_bit_eq)
    then show ?thesis using lt unfolding t by (simp add: push_bit_eq_mult take_bit_nat_eq_self)
  qed
  have d: "unat (drop_bit k w) = unat w div 2 ^ k" for k and w :: u8
    using unat_u8_less [of w] by (simp only: unsigned_drop_bit_eq) (simp add: drop_bit_eq_div take_bit_nat_eq_self)
  have "push_bit 4 (take_bit 2 x) AND drop_bit 4 y = 0" "push_bit 2 (take_bit 4 y) AND drop_bit 6 z = 0"
    by (rule u8_eqI; simp add: bit_simps u8_no_bit)+
  moreover have "unat x mod 4 * 16 + unat y div 16 < 256" "unat y mod 16 * 4 + unat z div 64 < 256"
    using unat_u8_less [of y] unat_u8_less [of z] by simp_all
  ultimately show ?thesis
    using p [of 2 4 x] p [of 4 2 y] unfolding digits_def m by (simp add: d u8_or_add t)
qed

lemma mod_cut: "q < d \<Longrightarrow> (a * d + q) mod (d * e) = a mod e * d + q" for a :: nat
  by (simp add: mod_mult2_eq)

lemma quad_digits: "quad x y z = map (b64_char \<circ> unat) (digits x y z)"
proof -
  define a b c where "a = unat x" "b = unat y" "c = unat z"
  have lt: "b < 256" "c < 256" unfolding a_b_c_def by (rule unat_u8_less)+
  have 1: "(a * 65536 + b * 256 + c) div 256 = a * 256 + b" using lt by linarith
  have 2: "(a * 65536 + b * 256 + c) div 4096 = a * 16 + b div 16" using 1 by linarith
  have 3: "(a * 65536 + b * 256 + c) div 64 = a * 1024 + b * 4 + c div 64" by linarith
  have "(a * 65536 + b * 256 + c) div 262144 = a div 4" using lt by linarith
  moreover have "(a * 65536 + b * 256 + c) div 4096 mod 64 = a mod 4 * 16 + b div 16" unfolding 2 using mod_cut [of "b div 16" 16 a 4] lt by simp
  moreover have "(a * 65536 + b * 256 + c) div 64 mod 64 = b mod 16 * 4 + c div 64" unfolding 3 using mod_cut [of "c div 64" 4 "a * 256 + b" 16] lt mod_mult_self3 [of "a * 16" 16 b] by (simp add: algebra_simps)
  moreover have "(a * 65536 + b * 256 + c) mod 64 = c mod 64"
    using mod_mult_self3 [of "a * 1024 + b * 4" 64 c] by (simp add: algebra_simps)
  ultimately have "quad x y z = map b64_char [a div 4, a mod 4 * 16 + b div 16, b mod 16 * 4 + c div 64, c mod 64]"
    by (simp only: quad_def Let_def a_b_c_def)
  also have "\<dots> = map b64_char (map unat (digits x y z))" by (simp only: digits_nat a_b_c_def)
  finally show ?thesis by simp
qed

lemma length_quad [simp]: "length (quad x y z) = 4"
  by (simp add: quad_def Let_def)

lemma put_value_small: "unat r < 64 \<Longrightarrow> put_value r c = put_byte (b64_char (unat r)) c"
proof -
  assume r: "unat r < 64"
  have "int (unat r) < int 64" using r by (simp only: of_nat_less_iff)
  then have "uint r < 64" "0 \<le> uint r" by simp_all
  then have "- (2 ^ 7) \<le> uint r" "uint r < 2 ^ 7" by (auto intro: order_trans [of _ 0])
  then have "signed_take_bit 7 (uint r) = uint r" by (rule signed_take_bit_int_eq_self)
  then have "sint r = int (unat r)" by (simp add: sint_uint)
  moreover have "length encoding = 64" by (simp add: encoding_def)
  ultimately show ?thesis using r \<open>uint r < 64\<close> by (simp add: put_value_def base64_encode_value_def get_at_def b64_char_def)
qed

lemma digits_small: "\<forall>d \<in> set (digits x y z). unat d < 64"
proof -
  have "\<forall>n \<in> set (map unat (digits x y z)). n < 64"
    using unat_u8_less [of x] unat_u8_less [of y] unat_u8_less [of z] unfolding digits_nat by auto
  then show ?thesis by simp
qed

section \<open>Encoding\<close>

lemma encode_block_append:
  "base64_encode_block st (p @ q) c = do { (st, c) \<leftarrow> base64_encode_block st p c; base64_encode_block st q c }"
  by (induction st p c rule: base64_encode_block.induct) (auto simp: Let_def split: encodestep.splits bind_splits)

lemma encode_pieces_eq:
  "encode_pieces st ps c = do { (st, c) \<leftarrow> base64_encode_block st (concat ps) c; base64_encode_finish st c }"
  by (induction ps arbitrary: st c) (auto simp: encode_block_append split_beta intro!: bind_ext)

definition encode_end :: "u8 list \<Rightarrow> cursor \<Rightarrow> cursor option" where
  "encode_end t c = do { c \<leftarrow> put_bytes t c; m \<leftarrow> put_at (cu_mem c) (cu_pos c) 0; Some (c\<lparr>cu_mem := m\<rparr>) }"

lemma put_quad:
  "put_bytes (quad x y z) c = do {
     c \<leftarrow> put_value (digits x y z ! 0) c; c \<leftarrow> put_value (digits x y z ! 1) c;
     c \<leftarrow> put_value (digits x y z ! 2) c; put_value (digits x y z ! 3) c }"
  "put_bytes (take 3 (quad x y z)) c = do {
     c \<leftarrow> put_value (digits x y z ! 0) c; c \<leftarrow> put_value (digits x y z ! 1) c; put_value (digits x y z ! 2) c }"
  "put_bytes (take 2 (quad x y z)) c = do { c \<leftarrow> put_value (digits x y z ! 0) c; put_value (digits x y z ! 1) c }"
  using digits_small [of x y z] by (simp_all add: quad_digits) (simp_all add: digits_def put_value_small put_bytes_eta)

lemma encode_group:
  assumes "be_step st = step_A"
  shows "base64_encode_block st (x # y # z # xs) c = do {
     c \<leftarrow> put_bytes (quad x y z) c;
     let st' = st\<lparr>be_step := step_A, be_result := z AND 0x3f\<rparr>;
     if be_stepcount st + 1 = 18
     then do { c \<leftarrow> put_byte 10 c; base64_encode_block (st'\<lparr>be_stepcount := 0\<rparr>) xs c }
     else base64_encode_block (st'\<lparr>be_stepcount := be_stepcount st + 1\<rparr>) xs c }"
  using assms by (auto simp: put_quad Let_def digits_def intro!: bind_ext)

lemma encode_text:
  assumes "be_step st = step_A" "be_stepcount st = of_nat k" "k < 18"
  shows "do { (st, c) \<leftarrow> base64_encode_block st xs c; base64_encode_finish st c } = encode_end (b64_text k xs) c"
  using assms
proof (induction k xs arbitrary: st c rule: b64_text.induct)
  case (1 k x y z xs)
  have k: "be_stepcount st + 1 = of_nat (Suc k)" using "1.prems" by simp
  have k18: "be_stepcount st + 1 = 18 \<longleftrightarrow> k = 17"
  proof -
    have "unat (be_stepcount st + 1) = Suc k" using "1.prems"(3) unfolding k by (simp add: unat_of_nat del: of_nat_Suc)
    then have "be_stepcount st + 1 = 18 \<longleftrightarrow> Suc k = unat (18 :: u32)" by (metis unat_inj)
    then show ?thesis by simp
  qed
  show ?case
  proof (cases "k = 17")
    case True
    then show ?thesis using "1.prems" k18 "1.IH"(1) [OF True]
      by (simp add: encode_group encode_end_def put_bytes_append del: base64_encode_block.simps)
  next
    case False
    then show ?thesis using "1.prems" k18 k "1.IH"(2) [OF False]
      by (simp add: encode_group encode_end_def put_bytes_append del: base64_encode_block.simps)
  qed
next
  case (4 k)
  then show ?case by (simp add: base64_encode_finish_def encode_end_def put_bytes_eta)
next
  case (3 k x)
  then show ?case by (simp add: base64_encode_finish_def encode_end_def put_bytes_append put_quad put_bytes_eta) (simp add: digits_def)
next
  case (2 k x y)
  then show ?case by (simp add: base64_encode_finish_def encode_end_def put_bytes_append put_quad put_bytes_eta) (simp add: digits_def)
qed

lemma decode_encoding: "map (\<lambda>c. base64_decode_value (sint c)) encoding = map (Some \<circ> int) [0..<64]"
  by code_simp

lemma decode_skips: "base64_decode_value (sint (10 :: u8)) = Some (-1)" "base64_decode_value (sint (61 :: u8)) = Some (-2)"
  by code_simp+

lemma encoding_plain: "10 \<notin> set encoding"
  by code_simp

lemma length_encoding: "length encoding = 64"
  by (simp add: encoding_def)

lemma decode_char: "n < 64 \<Longrightarrow> base64_decode_value (sint (b64_char n)) = Some (int n)"
proof -
  assume n: "n < 64"
  then have "map (\<lambda>c. base64_decode_value (sint c)) encoding ! n = map (Some \<circ> int) [0..<64] ! n" by (simp only: decode_encoding)
  then show ?thesis using n by (simp add: length_encoding b64_char_def)
qed

lemma quad_plain: "10 \<notin> set (quad x y z)"
  using digits_small [of x y z] encoding_plain nth_mem [of _ encoding]
  by (fastforce simp: quad_digits b64_char_def length_encoding)

lemma text_unwrapped: "filter (\<lambda>b. b \<noteq> 10) (b64_text k xs) = b64_ref xs"
proof -
  have f: "filter (\<lambda>b. b \<noteq> 10) (take n (quad x y z)) = take n (quad x y z)" for n x y z
    using quad_plain [of x y z] by (auto simp: filter_id_conv dest: in_set_takeD)
  have "filter (\<lambda>b. b \<noteq> 10) (quad x y z) = quad x y z" for x y z using quad_plain [of x y z] by (auto simp: filter_id_conv)
  then show ?thesis by (induction k xs rule: b64_text.induct) (simp_all add: f)
qed

lemma length_text: "k < 18 \<Longrightarrow> length (b64_text k xs) = 4 * ((length xs + 2) div 3) + 1 + (k + length xs div 3) div 18"
proof (induction k xs rule: b64_text.induct)
  case (1 k x y z xs)
  have "length (x # y # z # xs) div 3 = Suc (length xs div 3)" "(length (x # y # z # xs) + 2) div 3 = Suc ((length xs + 2) div 3)"
    by simp_all
  then show ?case using "1.prems" "1.IH" div_add_self1 [of 18 "length xs div 3"] by (cases "k = 17") simp_all
qed simp_all

section \<open>Decoding\<close>

lemma decode_loop_room: "decode_loop s cs c = Some r \<Longrightarrow> cu_pos c < length (cu_mem c)"
proof (induction s cs c rule: decode_loop.induct)
  case (1 s c)
  then show ?case by (auto split: bind_splits)
next
  case (2 s ch cs c)
  then obtain v where v: "base64_decode_value (sint ch) = Some v" by (auto split: bind_splits)
  show ?case
  proof (cases "v < 0")
    case True
    then show ?thesis using "2.IH"(1) [OF v] "2.prems" v by simp
  next
    case False
    then show ?thesis using "2.prems" v by (cases s) (auto simp: Let_def poke_def or_next_def bind_eq_Some_conv)
  qed
qed

lemma decode_block_append:
  assumes "decode_loop s (p @ q) c = Some r"
  shows "\<exists>st c'. decode_loop s p c = Some (st, c') \<and> base64_decode_block st q c' = Some r"
  using assms
proof (induction s p c rule: decode_loop.induct)
  case (1 s c)
  have "cu_pos c < length (cu_mem c)" using decode_loop_room "1.prems" by fastforce
  then show ?case using "1.prems" by (simp add: base64_decode_block_def poke_def mem_simps)
next
  case (2 s ch cs c)
  then show ?case by (cases s) (auto simp: Let_def split: bind_splits if_splits)
qed

lemma decode_pieces_eq:
  assumes "base64_decode_block st (concat ps) c = Some (st', c')" "ps \<noteq> []"
  shows "decode_pieces st ps c = Some c'"
  using assms
proof (induction ps arbitrary: st c)
  case (Cons p ps)
  show ?case
  proof (cases "ps = []")
    case False
    obtain c1 where c1: "poke (bd_plainchar st) c = Some c1" "decode_loop (bd_step st) (p @ concat ps) c1 = Some (st', c')"
      using Cons.prems(1) by (auto simp: base64_decode_block_def split: bind_splits)
    then obtain st2 c2 where "decode_loop (bd_step st) p c1 = Some (st2, c2)" "base64_decode_block st2 (concat ps) c2 = Some (st', c')"
      using decode_block_append by blast
    then show ?thesis using Cons.IH False c1(1) by (simp add: base64_decode_block_def)
  qed (use Cons.prems in simp)
qed simp

lemma decode_digit:
  assumes "unat d < 64"
  shows "decode_loop step (b64_char (unat d) # cs) c =
    (case step of
       step_a \<Rightarrow> do { c \<leftarrow> poke (push_bit 2 (d AND 0x3f)) c; decode_loop step_b cs c }
     | step_b \<Rightarrow> do { c \<leftarrow> or_next (drop_bit 4 (d AND 0x30)) c; c \<leftarrow> poke (push_bit 4 (d AND 0x0f)) c; decode_loop step_c cs c }
     | step_c \<Rightarrow> do { c \<leftarrow> or_next (drop_bit 2 (d AND 0x3c)) c; c \<leftarrow> poke (push_bit 6 (d AND 0x03)) c; decode_loop step_d cs c }
     | step_d \<Rightarrow> do { c \<leftarrow> or_next (d AND 0x3f) c; decode_loop step_a cs c })"
proof -
  have "of_int (int (unat d)) = d" by simp
  then show ?thesis by (simp only: decode_loop.simps decode_char [OF assms] bind.bind_lunit Let_def of_nat_less_0_iff if_False)
qed

lemma decode_skip: "decode_loop step (10 # cs) c = decode_loop step cs c" "decode_loop step (61 # cs) c = decode_loop step cs c"
  by (simp_all only: decode_loop.simps decode_skips bind.bind_lunit) simp_all

lemma quad_cases:
  obtains d0 d1 d2 d3 where "quad x y z = map (b64_char \<circ> unat) [d0, d1, d2, d3]" "unat d0 < 64" "unat d1 < 64" "unat d2 < 64" "unat d3 < 64"
    "push_bit 2 (d0 AND 0x3f) OR drop_bit 4 (d1 AND 0x30) = x"
    "push_bit 4 (d1 AND 0x0f) OR drop_bit 2 (d2 AND 0x3c) = y"
    "push_bit 6 (d2 AND 0x03) OR (d3 AND 0x3f) = z"
proof -
  let ?d = "digits x y z"
  have "?d = [?d ! 0, ?d ! 1, ?d ! 2, ?d ! 3]" by (simp add: digits_def)
  then have q: "quad x y z = map (b64_char \<circ> unat) [?d ! 0, ?d ! 1, ?d ! 2, ?d ! 3]" unfolding quad_digits by (rule arg_cong)
  have "unat (?d ! i) < 64" if "i < 4" for i
  proof -
    have "?d ! i \<in> set ?d" using that by (intro nth_mem) (simp add: digits_def)
    then show ?thesis using digits_small by blast
  qed
  then have "unat (?d ! 0) < 64" "unat (?d ! 1) < 64" "unat (?d ! 2) < 64" "unat (?d ! 3) < 64" by simp_all
  from that [OF q this digits_decode] show ?thesis .
qed

lemma decode_quad:
  assumes "p + 2 < length m"
  shows "decode_loop step_a (quad x y z @ cs) \<lparr>cu_mem = m, cu_pos = p\<rparr> =
      decode_loop step_a cs \<lparr>cu_mem = m[p := x, Suc p := y, Suc (Suc p) := z], cu_pos = Suc (Suc (Suc p))\<rparr>"
proof (rule quad_cases [of x y z])
  fix d0 d1 d2 d3
  assume d: "quad x y z = map (b64_char \<circ> unat) [d0, d1, d2, d3]" "unat d0 < 64" "unat d1 < 64" "unat d2 < 64" "unat d3 < 64"
    "push_bit 2 (d0 AND 0x3f) OR drop_bit 4 (d1 AND 0x30) = x"
    "push_bit 4 (d1 AND 0x0f) OR drop_bit 2 (d2 AND 0x3c) = y"
    "push_bit 6 (d2 AND 0x03) OR (d3 AND 0x3f) = z"
  show ?thesis unfolding d(1) using assms d(2-8)
    by (simp add: decode_digit poke_def or_next_def put_byte_def mem_simps nth_list_update list_update_swap del: decode_loop.simps)
qed

lemma decode_tail:
  "p + 2 < length m \<Longrightarrow> \<exists>v st. decode_loop step_a (take 3 (quad x y z) @ [61, 10]) \<lparr>cu_mem = m, cu_pos = p\<rparr> =
      Some (st, \<lparr>cu_mem = m[p := x, Suc p := y, Suc (Suc p) := v], cu_pos = Suc (Suc p)\<rparr>)"
  "p + 1 < length m \<Longrightarrow> \<exists>v st. decode_loop step_a (take 2 (quad x y z) @ [61, 61, 10]) \<lparr>cu_mem = m, cu_pos = p\<rparr> =
      Some (st, \<lparr>cu_mem = m[p := x, Suc p := v], cu_pos = Suc p\<rparr>)"
proof -
  obtain d0 d1 d2 d3 where d: "quad x y z = map (b64_char \<circ> unat) [d0, d1, d2, d3]" "unat d0 < 64" "unat d1 < 64" "unat d2 < 64" "unat d3 < 64"
    "push_bit 2 (d0 AND 0x3f) OR drop_bit 4 (d1 AND 0x30) = x" "push_bit 4 (d1 AND 0x0f) OR drop_bit 2 (d2 AND 0x3c) = y"
    by (rule quad_cases [of x y z])
  have nil: "decode_loop s [] \<lparr>cu_mem = m, cu_pos = p\<rparr> = Some (\<lparr>bd_step = s, bd_plainchar = m ! p\<rparr>, \<lparr>cu_mem = m, cu_pos = p\<rparr>)" if "p < length m" for s m p
    using that by (simp add: mem_simps)
  show "\<exists>v st. decode_loop step_a (take 3 (quad x y z) @ [61, 10]) \<lparr>cu_mem = m, cu_pos = p\<rparr> =
      Some (st, \<lparr>cu_mem = m[p := x, Suc p := y, Suc (Suc p) := v], cu_pos = Suc (Suc p)\<rparr>)" if "p + 2 < length m"
    unfolding d(1) using that d(2-7)
    by (simp add: decode_digit decode_skip nil poke_def or_next_def put_byte_def mem_simps nth_list_update list_update_swap del: decode_loop.simps) blast
  show "\<exists>v st. decode_loop step_a (take 2 (quad x y z) @ [61, 61, 10]) \<lparr>cu_mem = m, cu_pos = p\<rparr> =
      Some (st, \<lparr>cu_mem = m[p := x, Suc p := v], cu_pos = Suc p\<rparr>)" if "p + 1 < length m"
    unfolding d(1) using that d(2-7)
    by (simp add: decode_digit decode_skip nil poke_def or_next_def put_byte_def mem_simps nth_list_update list_update_swap del: decode_loop.simps) blast
qed

lemma decode_text:
  "p + length xs < length m \<Longrightarrow> \<exists>st m'. decode_loop step_a (b64_text k xs) \<lparr>cu_mem = m, cu_pos = p\<rparr> = Some (st, \<lparr>cu_mem = m', cu_pos = p + length xs\<rparr>) \<and>
      take (p + length xs) m' = take p m @ xs \<and> length m' = length m"
proof (induction k xs arbitrary: p m rule: b64_text.induct)
  case (1 k x y z xs)
  let ?m = "m[p := x, Suc p := y, Suc (Suc p) := z]"
  have t: "take (Suc (Suc (Suc p))) ?m = take p m @ [x, y, z]" using "1.prems" by (simp add: take_Suc_conv_app_nth nth_list_update)
  have IH: "\<exists>st m'. decode_loop step_a (if k = 17 then 10 # b64_text 0 xs else b64_text (Suc k) xs) \<lparr>cu_mem = ?m, cu_pos = Suc (Suc (Suc p))\<rparr> =
      Some (st, \<lparr>cu_mem = m', cu_pos = Suc (Suc (Suc p)) + length xs\<rparr>) \<and>
      take (Suc (Suc (Suc p)) + length xs) m' = take (Suc (Suc (Suc p))) ?m @ xs \<and> length m' = length ?m"
    using "1.IH"(1) [of "Suc (Suc (Suc p))" ?m] "1.IH"(2) [of "Suc (Suc (Suc p))" ?m] "1.prems" by (simp add: decode_skip del: decode_loop.simps)
  then show ?case using "1.prems" unfolding t by (simp add: decode_quad del: decode_loop.simps)
next
  case (4 k)
  then show ?case by (simp add: decode_skip mem_simps del: decode_loop.simps(2))
next
  case (3 k x)
  then show ?case using decode_tail(2) [of p m x 0 0] by (fastforce simp: take_Suc_conv_app_nth simp del: decode_loop.simps)
next
  case (2 k x y)
  then show ?case using decode_tail(1) [of p m x y 0] by (fastforce simp: take_Suc_conv_app_nth nth_list_update simp del: decode_loop.simps)
qed

section \<open>Properties\<close>

lemma encode_pieces_text: "encode_pieces base64_encode_init ps c = encode_end (b64_text 0 (concat ps)) c"
  using encode_text [of base64_encode_init 0 "concat ps" c] by (simp add: encode_pieces_eq base64_encode_init_def)

lemma encode_end_eq:
  "encode_end t \<lparr>cu_mem = m, cu_pos = 0\<rparr> =
    (if length t < length m then Some \<lparr>cu_mem = (t @ drop (length t) m)[length t := 0], cu_pos = length t\<rparr> else None)"
  by (auto simp: encode_end_def put_bytes_Some put_at_def)

lemma put_keeps_bounds:
  "put_byte v c = Some c' \<Longrightarrow> cu_pos c' \<le> length (cu_mem c') \<and> length (cu_mem c') = length (cu_mem c)"
  "put_value v c = Some c' \<Longrightarrow> cu_pos c' \<le> length (cu_mem c') \<and> length (cu_mem c') = length (cu_mem c)"
  by (auto simp: put_byte_def put_value_def bind_eq_Some_conv)

lemma encode_block_pos:
  "base64_encode_block st p c = Some (st', c') \<Longrightarrow> cu_pos c \<le> length (cu_mem c) \<Longrightarrow>
   cu_pos c' \<le> length (cu_mem c') \<and> length (cu_mem c') = length (cu_mem c)"
proof (induction p arbitrary: st c)
  case (Cons x p)
  obtain c1 st1 where 1: "base64_encode_block st1 p c1 = Some (st', c')" "cu_pos c1 \<le> length (cu_mem c1) \<and> length (cu_mem c1) = length (cu_mem c)"
  proof (cases "be_step st")
    case step_A
    then show ?thesis using Cons.prems(1) put_keeps_bounds(2) by (auto simp: bind_eq_Some_conv intro: that)
  next
    case step_B
    then show ?thesis using Cons.prems(1) put_keeps_bounds(2) by (auto simp: bind_eq_Some_conv intro: that)
  next
    case step_C
    then obtain v w c2 c3 where p: "put_value v c = Some c2" "put_value w c2 = Some c3" and
      r: "(if be_stepcount st + 1 = 18 then put_byte 10 c3 \<bind> base64_encode_block (st\<lparr>be_step := step_A, be_result := x AND 0x3f, be_stepcount := 0\<rparr>) p
         else base64_encode_block (st\<lparr>be_step := step_A, be_result := x AND 0x3f, be_stepcount := be_stepcount st + 1\<rparr>) p c3) = Some (st', c')"
      using Cons.prems(1) by (auto simp: bind_eq_Some_conv Let_def)
    have "cu_pos c3 \<le> length (cu_mem c3) \<and> length (cu_mem c3) = length (cu_mem c)" using p put_keeps_bounds(2) by metis
    then show ?thesis using r that by (auto simp: bind_eq_Some_conv split: if_splits dest: put_keeps_bounds(1))
  qed
  then show ?case using Cons.IH by fastforce
qed simp

lemma encode_buf_eq:
  assumes "2 * length src < 2 ^ 31" "2 * length src \<le> length dest"
  shows "base64_encode_buf dest (int (length dest)) src =
    map_option (\<lambda>c. (Inr (cu_pos c), cu_mem c)) (encode_end (b64_text 0 src) \<lparr>cu_mem = dest, cu_pos = 0\<rparr>)"
proof -
  let ?b = "base64_encode_block base64_encode_init src \<lparr>cu_mem = dest, cu_pos = 0\<rparr>"
  have e: "do { (st, c) \<leftarrow> ?b; base64_encode_finish st c } = encode_end (b64_text 0 src) \<lparr>cu_mem = dest, cu_pos = 0\<rparr>"
    using encode_pieces_text [of "[src]"] by (simp add: encode_pieces_eq)
  have n: "\<not> 2 ^ 31 \<le> 2 * int (length src)" "\<not> int (length dest) < 2 * int (length src)" using assms by simp_all
  show ?thesis
  proof (cases ?b)
    case None
    then show ?thesis using e n by (simp add: base64_encode_buf_def)
  next
    case (Some r)
    obtain st c where r: "r = (st, c)" by fastforce
    have "int (cu_pos c) < int (length dest) + 5" using encode_block_pos [of _ _ _ st c] Some r by fastforce
    then show ?thesis unfolding e [symmetric] using Some n r by (cases "base64_encode_finish st c") (simp_all add: base64_encode_buf_def)
  qed
qed

text \<open>
  C20: Base64 round trip. However a text is cut into pieces, the encoder writes its RFC 4648 encoding (\<open>b64_ref\<close>) in lines of 72 characters; and however
  those lines are cut into pieces, the decoder gives the text back. One byte of room beyond the result is enough for both.
\<close>

theorem base64_roundtrip:
  assumes "length (b64_text 0 (concat ps)) < length out" "length (concat ps) < length buf"
  shows "\<exists>out' n. encode_pieces base64_encode_init ps \<lparr>cu_mem = out, cu_pos = 0\<rparr> = Some \<lparr>cu_mem = out', cu_pos = n\<rparr> \<and>
    take n out' = b64_text 0 (concat ps) \<and> out' ! n = 0 \<and> filter (\<lambda>b. b \<noteq> 10) (take n out') = b64_ref (concat ps) \<and>
    (\<forall>qs. concat qs = take n out' \<longrightarrow> (\<exists>buf'. decode_pieces base64_decode_init qs \<lparr>cu_mem = buf, cu_pos = 0\<rparr> =
       Some \<lparr>cu_mem = buf', cu_pos = length (concat ps)\<rparr> \<and> take (length (concat ps)) buf' = concat ps))"
proof -
  define t where "t = b64_text 0 (concat ps)"
  have "t \<noteq> []" using length_text [of 0 "concat ps"] unfolding t_def by auto
  have dec: "\<exists>buf'. decode_pieces base64_decode_init qs \<lparr>cu_mem = buf, cu_pos = 0\<rparr> =
       Some \<lparr>cu_mem = buf', cu_pos = length (concat ps)\<rparr> \<and> take (length (concat ps)) buf' = concat ps" if qs: "concat qs = t" for qs
  proof -
    have "buf \<noteq> []" using assms(2) by auto
    then obtain st buf' where b: "base64_decode_block base64_decode_init t \<lparr>cu_mem = buf, cu_pos = 0\<rparr> = Some (st, \<lparr>cu_mem = buf', cu_pos = length (concat ps)\<rparr>)"
      "take (length (concat ps)) buf' = concat ps"
      using decode_text [of 0 "concat ps" "buf[0 := 0]" 0] assms(2)
      by (auto simp: t_def base64_decode_block_def base64_decode_init_def poke_def mem_simps simp del: decode_loop.simps)
    moreover have "qs \<noteq> []" using qs \<open>t \<noteq> []\<close> by auto
    ultimately show ?thesis using decode_pieces_eq [of base64_decode_init qs] qs by blast
  qed
  have "encode_pieces base64_encode_init ps \<lparr>cu_mem = out, cu_pos = 0\<rparr> = Some \<lparr>cu_mem = (t @ drop (length t) out)[length t := 0], cu_pos = length t\<rparr>"
    using assms(1) by (simp add: encode_pieces_text encode_end_eq t_def)
  moreover have k: "take (length t) ((t @ drop (length t) out)[length t := 0]) = t" by simp
  moreover have "(t @ drop (length t) out)[length t := 0] ! length t = 0" using assms(1) by (simp add: t_def)
  ultimately show ?thesis using dec text_unwrapped [of 0 "concat ps"] unfolding t_def [symmetric]
    by (intro exI [of _ "(t @ drop (length t) out)[length t := 0]"] exI [of _ "length t"]) (auto simp only: k)
qed

theorem base64_roundtrip_witness:
  "\<exists>buf'. decode_pieces base64_decode_init [[77, 68], [69, 61, 10]] \<lparr>cu_mem = replicate 8 7, cu_pos = 0\<rparr> = Some \<lparr>cu_mem = buf', cu_pos = 2\<rparr> \<and> take 2 buf' = [48, 49]"
proof -
  have t: "b64_text 0 (concat [[48], [49]]) = [77, 68, 69, 61, 10]" by (simp add: quad_def b64_char_def encoding_def nth_append)
  have l: "length (b64_text 0 (concat [[48], [49]])) < length (replicate 8 (0 :: u8))" "length (concat [[48], [49 :: u8]]) < length (replicate 8 (7 :: u8))"
    unfolding t by simp_all
  have "concat [[77, 68], [69, 61, 10]] = [77, 68, 69, 61, 10 :: u8]" by simp
  moreover have "length (concat [[48], [49 :: u8]]) = 2" "concat [[48], [49 :: u8]] = [48, 49]" by simp_all
  moreover obtain out' n where "take n out' = [77, 68, 69, 61, 10]" "\<forall>qs. concat qs = take n out' \<longrightarrow>
      (\<exists>buf'. decode_pieces base64_decode_init qs \<lparr>cu_mem = replicate 8 7, cu_pos = 0\<rparr> =
        Some \<lparr>cu_mem = buf', cu_pos = length (concat [[48], [49 :: u8]])\<rparr> \<and> take (length (concat [[48], [49 :: u8]])) buf' = concat [[48], [49]])"
    using base64_roundtrip [OF l] unfolding t by blast
  ultimately show ?thesis by metis
qed

text \<open>
  The size check of \<open>base64_encode_buf\<close> (twice the length of the input) keeps it inside the output buffer for every input length except 0, 1, 2 and 4,
  where it may write behind the buffer.
\<close>

theorem base64_encode_buf_bound:
  assumes "2 * length src < 2 ^ 31"
  shows "(\<forall>dest. 2 * length src \<le> length dest \<longrightarrow> base64_encode_buf dest (int (length dest)) src \<noteq> None) \<longleftrightarrow> length src \<notin> {0, 1, 2, 4}"
proof -
  let ?n = "length src"
  have l: "length (b64_text 0 src) = 4 * ((?n + 2) div 3) + 1 + ?n div 3 div 18" using length_text [of 0 src] by simp
  have iff: "base64_encode_buf dest (int (length dest)) src \<noteq> None \<longleftrightarrow> length (b64_text 0 src) < length dest" if "2 * ?n \<le> length dest" for dest
    using assms that by (simp add: encode_buf_eq encode_end_eq)
  have "(\<forall>dest. 2 * ?n \<le> length dest \<longrightarrow> base64_encode_buf dest (int (length dest)) src \<noteq> None) \<longleftrightarrow> length (b64_text 0 src) < 2 * ?n"
  proof
    assume a: "\<forall>dest. 2 * ?n \<le> length dest \<longrightarrow> base64_encode_buf dest (int (length dest)) src \<noteq> None"
    then have "base64_encode_buf (replicate (2 * ?n) 0) (int (length (replicate (2 * ?n) (0 :: u8)))) src \<noteq> None" by (metis length_replicate order_refl)
    then show "length (b64_text 0 src) < 2 * ?n" using iff [of "replicate (2 * ?n) 0"] by simp
  qed (use iff in fastforce)
  also have "\<dots> \<longleftrightarrow> ?n \<notin> {0, 1, 2, 4}"
  proof (cases "?n < 8")
    case True
    then have "?n \<in> {0, 1, 2, 3, 4, 5, 6, 7}" unfolding insert_iff empty_iff by linarith
    then show ?thesis unfolding l by (auto simp del: length_0_conv)
  next
    case False
    then show ?thesis unfolding l by auto
  qed
  finally show ?thesis .
qed

theorem base64_encode_buf_bound_witness:
  "\<not> (\<forall>dest. 2 * length [65 :: u8] \<le> length dest \<longrightarrow> base64_encode_buf dest (int (length dest)) [65] \<noteq> None)"
  using base64_encode_buf_bound [of "[65]"] by simp

end
