(* ===== verification/HashTab_Iter.thy ===== *)
theory HashTab_Iter
  imports HashTab
begin

text \<open>
  The iterators of \<open>src/hashtable/hashtab_iter.c\<close> over the chained hash table of \<open>HashTab\<close>. The table is not changed between the calls, so the
  node pointer \<open>cur\<close> is the rest of the chain from that node on (\<open>[]\<close> for NULL). The iterator's table of functions is the tag \<open>it_op\<close>; the members of its
  union are separate fields. \<open>qsort\<close> is an argument, and so is \<open>qcmp\<close>, what the policy's comparison function answers for the addresses of the
  data pointers of two nodes: that is what \<open>qsort_cmp\<close> passes to it. Results 0 and \<open>EOF\<close> are true and false.
\<close>

datatype iter_op = VANILLA_ITER | SORTED_ITER | BUCKET_ITER

record 'd hash_table_iter =
  it_op :: iter_op
  it_cur :: "'d hash_node list"
  it_bucket :: u32
  it_index :: u64
  it_max :: u64
  it_nodes :: "'d hash_node list"
  it_chain :: "'d hash_node list"

definition zero_iter :: "iter_op \<Rightarrow> 'd hash_table_iter" where
  "zero_iter op = \<lparr>it_op = op, it_cur = [], it_bucket = 0, it_index = 0, it_max = 0, it_nodes = [], it_chain = []\<rparr>"

section \<open>Unsorted iterator\<close>

function find_next_node :: "'d hash_table \<Rightarrow> 'd hash_table_iter \<Rightarrow> nat \<Rightarrow> 'd hash_table_iter option" where
  "find_next_node tab it i =
    (if i < unat (tb_size tab)
     then do { b \<leftarrow> get_at (tb_buckets tab) i;
               let it = it\<lparr>it_cur := bk_head b\<rparr>;
               if it_cur it \<noteq> [] then Some (it\<lparr>it_bucket := of_nat i\<rparr>) else find_next_node tab it (i + 1) }
     else Some it)"
  by pat_completeness auto
termination by (relation "measure (\<lambda>(tab, it, i). unat (tb_size tab) - i)") auto

declare find_next_node.simps [simp del]

definition vanilla_iter_begin :: "'d hash_table \<Rightarrow> 'd hash_table_iter \<Rightarrow> (bool \<times> 'd hash_table_iter) option" where
  "vanilla_iter_begin tab it =
    do { it \<leftarrow> find_next_node tab (it\<lparr>it_bucket := -1, it_cur := []\<rparr>) 0; Some (it_cur it \<noteq> [], it) }"

definition vanilla_iter_end :: "'d hash_table_iter \<Rightarrow> 'd hash_table_iter" where
  "vanilla_iter_end it = it\<lparr>it_bucket := -1, it_cur := []\<rparr>"

text \<open>\<open>bucket+1\<close> is an \<open>int\<close> that becomes a \<open>size_t\<close>; it overflows at the largest \<open>int\<close>.\<close>

definition vanilla_iter_next :: "'d hash_table \<Rightarrow> 'd hash_table_iter \<Rightarrow> (bool \<times> 'd hash_table_iter) option" where
  "vanilla_iter_next tab it =
    (let it = it\<lparr>it_cur := tl (it_cur it)\<rparr> in
     if it_cur it \<noteq> [] then Some (True, it)
     else if it_bucket it = 0x7fffffff then None
     else do { it \<leftarrow> find_next_node tab it (unat (scast (it_bucket it + 1) :: u64)); Some (it_cur it \<noteq> [], it) })"

definition cur_item :: "'d hash_table_iter \<Rightarrow> 'd option" where
  "cur_item it = (case it_cur it of [] \<Rightarrow> None | p # ps \<Rightarrow> Some (nd_data p))"

section \<open>Sorted iterator\<close>

fun collect_nodes :: "bool \<Rightarrow> 'd hash_bucket list \<Rightarrow> 'd hash_node list option" where
  "collect_nodes on [] = Some []"
| "collect_nodes on (b # bs) =
    do { held \<leftarrow> lockmgr_lock on (bk_held b); ps \<leftarrow> collect_nodes on bs; Some (bk_head b @ ps) }"

text \<open>
  The array has room for \<open>stats.nodes\<close> entries: more nodes overrun it, fewer leave entries that are read uninitialised. An allocation that
  fails is not noticed, and the first node is written through NULL.
\<close>

definition sorted_iter_init ::
  "(('d hash_node \<Rightarrow> 'd hash_node \<Rightarrow> int) \<Rightarrow> 'd hash_node list \<Rightarrow> 'd hash_node list) \<Rightarrow> ('d hash_node \<Rightarrow> 'd hash_node \<Rightarrow> int) \<Rightarrow>
   bool \<Rightarrow> 'd hash_table \<Rightarrow> 'd hash_table_iter \<Rightarrow> 'd hash_table_iter option" where
  "sorted_iter_init qsort qcmp alloc tab it =
    do { held \<leftarrow> lockmgr_lock (tb_locking tab) (tb_held tab);
         let it = it\<lparr>it_max := hs_nodes (tb_stats tab)\<rparr>;
         if it_max it = 0 then Some it
         else do {
           nodes \<leftarrow> collect_nodes (tb_locking tab) (take (unat (tb_size tab)) (tb_buckets tab));
           if \<not> alloc \<or> length nodes \<noteq> unat (it_max it) then None
           else Some (it\<lparr>it_nodes := if 1 < it_max it then qsort qcmp nodes else nodes\<rparr>) } }"

definition sorted_iter_begin :: "'d hash_table_iter \<Rightarrow> (bool \<times> 'd hash_table_iter) option" where
  "sorted_iter_begin it = (let it = it\<lparr>it_index := 0\<rparr> in Some (it_index it < it_max it, it))"

definition sorted_iter_end :: "'d hash_table_iter \<Rightarrow> 'd hash_table_iter" where
  "sorted_iter_end it = it\<lparr>it_max := 0, it_nodes := []\<rparr>"

definition sorted_iter_next :: "'d hash_table_iter \<Rightarrow> (bool \<times> 'd hash_table_iter) option" where
  "sorted_iter_next it =
    (let i = it_index it + 1 in
     if it_max it \<le> i then Some (False, it\<lparr>it_index := it_max it\<rparr>) else Some (True, it\<lparr>it_index := i\<rparr>))"

definition sorted_iter_item :: "'d hash_table_iter \<Rightarrow> 'd option option" where
  "sorted_iter_item it =
    (if it_index it < it_max it then do { p \<leftarrow> get_at (it_nodes it) (unat (it_index it)); Some (Some (nd_data p)) } else Some None)"

section \<open>Bucket iterator\<close>

definition bucket_iter_init :: "('d \<Rightarrow> u32) \<Rightarrow> 'd hash_table \<Rightarrow> 'd \<Rightarrow> 'd hash_table_iter \<Rightarrow> 'd hash_table_iter option" where
  "bucket_iter_init hash tab key it =
    do { b \<leftarrow> get_at (tb_buckets tab) (slot_of (tb_size tab) (hash key)); Some (it\<lparr>it_chain := bk_head b, it_cur := bk_head b\<rparr>) }"

definition bucket_iter_begin :: "'d hash_table_iter \<Rightarrow> (bool \<times> 'd hash_table_iter) option" where
  "bucket_iter_begin it = (let it = it\<lparr>it_cur := it_chain it\<rparr> in Some (it_cur it \<noteq> [], it))"

definition bucket_iter_end :: "'d hash_table_iter \<Rightarrow> 'd hash_table_iter" where
  "bucket_iter_end it = it"

definition bucket_iter_next :: "'d hash_table_iter \<Rightarrow> (bool \<times> 'd hash_table_iter) option" where
  "bucket_iter_next it =
    (case it_cur it of [] \<Rightarrow> None | p # ps \<Rightarrow> let it = it\<lparr>it_cur := ps\<rparr> in Some (it_cur it \<noteq> [], it))"

section \<open>Interface\<close>

text \<open>Every call takes the table's lock and releases it.\<close>

definition mk_iter ::
  "(('d hash_node \<Rightarrow> 'd hash_node \<Rightarrow> int) \<Rightarrow> 'd hash_node list \<Rightarrow> 'd hash_node list) \<Rightarrow> ('d hash_node \<Rightarrow> 'd hash_node \<Rightarrow> int) \<Rightarrow>
   ('d \<Rightarrow> u32) \<Rightarrow> bool \<Rightarrow> bool \<Rightarrow> 'd hash_table \<Rightarrow> iter_op \<Rightarrow> 'd option \<Rightarrow> 'd hash_table_iter res option" where
  "mk_iter qsort qcmp hash alloc_iter alloc_nodes tab op param =
    do { held \<leftarrow> lockmgr_lock (tb_locking tab) (tb_held tab);
         if \<not> alloc_iter then Some (Inl ENOMEM)
         else let it = zero_iter op in
           map_option Inr
             (case op of
                VANILLA_ITER \<Rightarrow> Some it
              | SORTED_ITER \<Rightarrow> sorted_iter_init qsort qcmp alloc_nodes (tab\<lparr>tb_held := held\<rparr>) it
              | BUCKET_ITER \<Rightarrow> do { k \<leftarrow> param; bucket_iter_init hash tab k it }) }"

definition hash_table_iter_new ::
  "(('d hash_node \<Rightarrow> 'd hash_node \<Rightarrow> int) \<Rightarrow> 'd hash_node list \<Rightarrow> 'd hash_node list) \<Rightarrow> ('d hash_node \<Rightarrow> 'd hash_node \<Rightarrow> int) \<Rightarrow>
   ('d \<Rightarrow> u32) \<Rightarrow> bool \<Rightarrow> bool \<Rightarrow> 'd hash_table option \<Rightarrow> bool \<Rightarrow> 'd hash_table_iter res option" where
  "hash_table_iter_new qsort qcmp hash ai an tab srt =
    (case tab of None \<Rightarrow> Some (Inl EINVAL)
     | Some tab \<Rightarrow> mk_iter qsort qcmp hash ai an tab (if srt then SORTED_ITER else VANILLA_ITER) None)"

definition hash_table_bucket_iter_new ::
  "(('d hash_node \<Rightarrow> 'd hash_node \<Rightarrow> int) \<Rightarrow> 'd hash_node list \<Rightarrow> 'd hash_node list) \<Rightarrow> ('d hash_node \<Rightarrow> 'd hash_node \<Rightarrow> int) \<Rightarrow>
   ('d \<Rightarrow> u32) \<Rightarrow> bool \<Rightarrow> bool \<Rightarrow> 'd hash_table option \<Rightarrow> 'd option \<Rightarrow> 'd hash_table_iter res option" where
  "hash_table_bucket_iter_new qsort qcmp hash ai an tab k =
    (case tab of None \<Rightarrow> Some (Inl EINVAL) | Some tab \<Rightarrow> mk_iter qsort qcmp hash ai an tab BUCKET_ITER k)"

definition hash_table_iter_first :: "'d hash_table \<Rightarrow> 'd hash_table_iter \<Rightarrow> (bool \<times> 'd hash_table_iter) option" where
  "hash_table_iter_first tab it =
    do { held \<leftarrow> lockmgr_lock (tb_locking tab) (tb_held tab);
         case it_op it of
           VANILLA_ITER \<Rightarrow> vanilla_iter_begin tab it | SORTED_ITER \<Rightarrow> sorted_iter_begin it | BUCKET_ITER \<Rightarrow> bucket_iter_begin it }"

definition hash_table_iter_next :: "'d hash_table \<Rightarrow> 'd hash_table_iter \<Rightarrow> (bool \<times> 'd hash_table_iter) option" where
  "hash_table_iter_next tab it =
    do { held \<leftarrow> lockmgr_lock (tb_locking tab) (tb_held tab);
         case it_op it of
           VANILLA_ITER \<Rightarrow> vanilla_iter_next tab it | SORTED_ITER \<Rightarrow> sorted_iter_next it | BUCKET_ITER \<Rightarrow> bucket_iter_next it }"

definition hash_table_iter_item :: "'d hash_table \<Rightarrow> 'd hash_table_iter \<Rightarrow> 'd option option" where
  "hash_table_iter_item tab it =
    do { held \<leftarrow> lockmgr_lock (tb_locking tab) (tb_held tab);
         case it_op it of VANILLA_ITER \<Rightarrow> Some (cur_item it) | SORTED_ITER \<Rightarrow> sorted_iter_item it | BUCKET_ITER \<Rightarrow> Some (cur_item it) }"

definition hash_table_iter_delete :: "'d hash_table \<Rightarrow> 'd hash_table_iter \<Rightarrow> 'd hash_table_iter option" where
  "hash_table_iter_delete tab it =
    do { held \<leftarrow> lockmgr_lock (tb_locking tab) (tb_held tab);
         Some (case it_op it of
           VANILLA_ITER \<Rightarrow> vanilla_iter_end it | SORTED_ITER \<Rightarrow> sorted_iter_end it | BUCKET_ITER \<Rightarrow> bucket_iter_end it) }"

section \<open>The contract of an iterator\<close>

text \<open>The loop every client writes: first, then item and next until the end.\<close>

fun walk :: "('i \<Rightarrow> (bool \<times> 'i) option) \<Rightarrow> ('i \<Rightarrow> 'd option option) \<Rightarrow> nat \<Rightarrow> bool \<times> 'i \<Rightarrow> 'd list option" where
  "walk next item 0 st = None"
| "walk next item (Suc n) (ok, it) =
    (if \<not> ok then Some []
     else do { x \<leftarrow> item it; x \<leftarrow> x; st \<leftarrow> next it; xs \<leftarrow> walk next item n st; Some (x # xs) })"

locale table_iterator =
  fixes first :: "'i \<Rightarrow> (bool \<times> 'i) option"
    and nxt :: "'i \<Rightarrow> (bool \<times> 'i) option"
    and item :: "'i \<Rightarrow> 'd option option"
    and rest :: "'i \<Rightarrow> 'd list \<Rightarrow> bool"
    and fresh :: "'i \<Rightarrow> 'd list \<Rightarrow> bool"
  assumes first: "fresh it ds \<Longrightarrow> \<exists>it'. first it = Some (ds \<noteq> [], it') \<and> rest it' ds"
    and nxt: "rest it (d # ds) \<Longrightarrow> \<exists>it'. nxt it = Some (ds \<noteq> [], it') \<and> rest it' ds"
    and item: "rest it (d # ds) \<Longrightarrow> item it = Some (Some d)"
begin

lemma walk_rest: "rest it ds \<Longrightarrow> length ds < n \<Longrightarrow> walk nxt item n (ds \<noteq> [], it) = Some ds"
proof (induction ds arbitrary: it n)
  case Nil
  then show ?case by (cases n) simp_all
next
  case (Cons d ds)
  obtain it' where it': "nxt it = Some (ds \<noteq> [], it')" "rest it' ds" using nxt [OF Cons.prems(1)] by blast
  obtain m where m: "n = Suc m" "length ds < m" using Cons.prems(2) by (cases n) simp_all
  show ?case using it' m Cons.IH [OF it'(2) m(2)] item [OF Cons.prems(1)] by simp
qed

lemma walk_all: "fresh it ds \<Longrightarrow> length ds < n \<Longrightarrow> (first it \<bind> walk nxt item n) = Some ds"
  using first [of it ds] walk_rest by fastforce

end

section \<open>The iterators meet the contract\<close>

definition iter_ready :: "'d hash_table \<Rightarrow> bool" where
  "iter_ready tab \<longleftrightarrow> \<not> tb_held tab \<and> length (tb_buckets tab) = unat (tb_size tab) \<and> unat (tb_size tab) < 2 ^ 31"

definition iter_rest :: "'d hash_table \<Rightarrow> 'd hash_table_iter \<Rightarrow> 'd list \<Rightarrow> bool" where
  "iter_rest tab it ds \<longleftrightarrow> iter_ready tab \<and>
    (case it_op it of
       VANILLA_ITER \<Rightarrow> ds = [] \<or> (\<exists>j<unat (tb_size tab). it_bucket it = of_nat j \<and> it_cur it \<noteq> [] \<and>
                                ds = map nd_data (it_cur it @ all_nodes (drop (Suc j) (tb_buckets tab))))
     | SORTED_ITER \<Rightarrow> length (it_nodes it) = unat (it_max it) \<and> ds = map nd_data (drop (unat (it_index it)) (it_nodes it))
     | BUCKET_ITER \<Rightarrow> ds = map nd_data (it_cur it))"

definition iter_fresh :: "'d hash_table \<Rightarrow> 'd hash_table_iter \<Rightarrow> 'd list \<Rightarrow> bool" where
  "iter_fresh tab it ds \<longleftrightarrow> iter_ready tab \<and>
    (case it_op it of
       VANILLA_ITER \<Rightarrow> ds = map nd_data (all_nodes (tb_buckets tab))
     | SORTED_ITER \<Rightarrow> length (it_nodes it) = unat (it_max it) \<and> ds = map nd_data (it_nodes it)
     | BUCKET_ITER \<Rightarrow> ds = map nd_data (it_chain it))"

lemma unat_scast_small: "unat (x :: u32) < 2 ^ 31 \<Longrightarrow> unat (scast x :: u64) = unat x"
proof -
  assume x: "unat x < 2 ^ 31"
  have "(scast x :: u64) = of_int (sint x)" by simp
  also have "\<dots> = of_nat (unat x)" unfolding sint_small [OF x] by simp
  finally show ?thesis using x by (simp add: unat_of_nat)
qed

lemma find_next_node_ok:
  assumes "length (tb_buckets tab) = unat (tb_size tab)" "i \<le> unat (tb_size tab)" "it_cur it = []"
  shows "\<exists>it'. find_next_node tab it i = Some it' \<and> it_op it' = it_op it \<and>
    (if all_nodes (drop i (tb_buckets tab)) = [] then it_cur it' = []
     else \<exists>j<unat (tb_size tab). it_bucket it' = of_nat j \<and> it_cur it' \<noteq> [] \<and>
       all_nodes (drop i (tb_buckets tab)) = it_cur it' @ all_nodes (drop (Suc j) (tb_buckets tab)))"
  using assms
proof (induction tab it i rule: find_next_node.induct)
  case (1 tab it i)
  show ?case
  proof (cases "i < unat (tb_size tab)")
    case True
    let ?b = "tb_buckets tab ! i"
    have b: "get_at (tb_buckets tab) i = Some ?b" using True "1.prems"(1) by simp
    have d: "drop i (tb_buckets tab) = ?b # drop (Suc i) (tb_buckets tab)" using True "1.prems"(1) by (simp add: Cons_nth_drop_Suc)
    show ?thesis
    proof (cases "bk_head ?b = []")
      case True
      have "find_next_node tab it i = find_next_node tab (it\<lparr>it_cur := bk_head ?b\<rparr>) (i + 1)"
        using \<open>i < unat (tb_size tab)\<close> True b by (subst find_next_node.simps) (simp add: Let_def mem_simps)
      then show ?thesis using "1.IH" [OF \<open>i < unat (tb_size tab)\<close> b refl] "1.prems" True \<open>i < unat (tb_size tab)\<close> d
        by (simp cong del: if_weak_cong)
    next
      case False
      have "find_next_node tab it i = Some (it\<lparr>it_cur := bk_head ?b, it_bucket := of_nat i\<rparr>)"
        using \<open>i < unat (tb_size tab)\<close> False b by (subst find_next_node.simps) (simp add: Let_def mem_simps)
      then show ?thesis using False d \<open>i < unat (tb_size tab)\<close> by auto
    qed
  next
    case False
    then show ?thesis using "1.prems" by (subst find_next_node.simps) simp
  qed
qed

lemma iter_first_ok: "iter_fresh tab it ds \<Longrightarrow> \<exists>it'. hash_table_iter_first tab it = Some (ds \<noteq> [], it') \<and> iter_rest tab it' ds"
proof (cases "it_op it")
  case VANILLA_ITER
  assume f: "iter_fresh tab it ds"
  have "length (tb_buckets tab) = unat (tb_size tab)" using f by (simp add: iter_fresh_def iter_ready_def)
  from find_next_node_ok [OF this, of 0 "it\<lparr>it_bucket := -1, it_cur := []\<rparr>"] show ?thesis
    using f VANILLA_ITER by (fastforce simp: hash_table_iter_first_def vanilla_iter_begin_def iter_fresh_def iter_rest_def iter_ready_def split: if_splits)
next
  case SORTED_ITER
  assume f: "iter_fresh tab it ds"
  have "0 < it_max it \<longleftrightarrow> ds \<noteq> []" using f SORTED_ITER unat_gt_0 [of "it_max it"] by (auto simp: iter_fresh_def word_gt_0)
  then show ?thesis using f SORTED_ITER
    by (auto simp: hash_table_iter_first_def sorted_iter_begin_def iter_fresh_def iter_rest_def iter_ready_def Let_def)
next
  case BUCKET_ITER
  assume "iter_fresh tab it ds"
  then show ?thesis using BUCKET_ITER
    by (auto simp: hash_table_iter_first_def bucket_iter_begin_def iter_fresh_def iter_rest_def iter_ready_def Let_def)
qed

lemma vanilla_next_ok:
  assumes "iter_rest tab it (d # ds)" "it_op it = VANILLA_ITER"
  shows "\<exists>it'. vanilla_iter_next tab it = Some (ds \<noteq> [], it') \<and> iter_rest tab it' ds"
proof -
  obtain j where j: "j < unat (tb_size tab)" "it_bucket it = of_nat j" "it_cur it \<noteq> []"
    "d # ds = map nd_data (it_cur it @ all_nodes (drop (Suc j) (tb_buckets tab)))" and
    r: "iter_ready tab" using assms by (auto simp: iter_rest_def)
  have ds: "ds = map nd_data (tl (it_cur it) @ all_nodes (drop (Suc j) (tb_buckets tab)))" using j(3,4) by (cases "it_cur it") auto
  have len: "length (tb_buckets tab) = unat (tb_size tab)" and sz: "unat (tb_size tab) < 2 ^ 31" using r by (auto simp: iter_ready_def)
  show ?thesis
  proof (cases "tl (it_cur it) = []")
    case False
    then show ?thesis using j(1,2) ds r assms(2) by (auto simp: vanilla_iter_next_def iter_rest_def)
  next
    case True
    have "unat (it_bucket it) = j" using j(1,2) sz by (simp add: unat_of_nat)
    moreover have "unat (it_bucket it + 1) = Suc j" using j(1,2) sz by (simp add: unat_word_ariths unat_of_nat)
    ultimately have n: "unat (scast (it_bucket it + 1) :: u64) = Suc j" "it_bucket it \<noteq> 0x7fffffff"
      using unat_scast_small [of "it_bucket it + 1"] j(1) sz by auto
    obtain it' where it': "find_next_node tab (it\<lparr>it_cur := []\<rparr>) (Suc j) = Some it'" "it_op it' = VANILLA_ITER"
      "if all_nodes (drop (Suc j) (tb_buckets tab)) = [] then it_cur it' = []
       else \<exists>j'<unat (tb_size tab). it_bucket it' = of_nat j' \<and> it_cur it' \<noteq> [] \<and>
         all_nodes (drop (Suc j) (tb_buckets tab)) = it_cur it' @ all_nodes (drop (Suc j') (tb_buckets tab))"
      using find_next_node_ok [OF len, of "Suc j" "it\<lparr>it_cur := []\<rparr>"] j(1) assms(2) by auto
    then show ?thesis using True n ds r by (auto simp: vanilla_iter_next_def iter_rest_def split: if_splits)
  qed
qed

lemma iter_next_ok: "iter_rest tab it (d # ds) \<Longrightarrow> \<exists>it'. hash_table_iter_next tab it = Some (ds \<noteq> [], it') \<and> iter_rest tab it' ds"
proof (cases "it_op it")
  case VANILLA_ITER
  assume r: "iter_rest tab it (d # ds)"
  then show ?thesis using vanilla_next_ok [OF r VANILLA_ITER] VANILLA_ITER by (auto simp: hash_table_iter_next_def iter_rest_def iter_ready_def)
next
  case SORTED_ITER
  assume r: "iter_rest tab it (d # ds)"
  let ?i = "unat (it_index it)"
  have l: "length (it_nodes it) = unat (it_max it)" and d: "d # ds = map nd_data (drop ?i (it_nodes it))"
    using r SORTED_ITER by (auto simp: iter_rest_def)
  have i: "?i < unat (it_max it)" using d l by (metis drop_all list.distinct(1) list.simps(8) not_le)
  have ds: "ds = map nd_data (drop (Suc ?i) (it_nodes it))" using d i l by (metis drop_Suc list.sel(3) map_tl tl_drop)
  have u: "unat (it_index it + 1) = Suc ?i" using i unat_u64_less [of "it_max it"] by (simp add: unat_word_ariths)
  have "it_max it \<le> it_index it + 1 \<longleftrightarrow> ds = []" using u ds l by (auto simp: word_le_nat_alt)
  then show ?thesis using r SORTED_ITER u ds l
    by (auto simp: hash_table_iter_next_def sorted_iter_next_def iter_rest_def iter_ready_def Let_def)
next
  case BUCKET_ITER
  assume "iter_rest tab it (d # ds)"
  then show ?thesis using BUCKET_ITER
    by (auto simp: hash_table_iter_next_def bucket_iter_next_def iter_rest_def iter_ready_def Let_def split: list.splits)
qed

lemma iter_item_ok: "iter_rest tab it (d # ds) \<Longrightarrow> hash_table_iter_item tab it = Some (Some d)"
proof (cases "it_op it")
  case VANILLA_ITER
  assume "iter_rest tab it (d # ds)"
  then show ?thesis using VANILLA_ITER
    by (auto simp: hash_table_iter_item_def cur_item_def iter_rest_def iter_ready_def split: list.splits)
next
  case SORTED_ITER
  assume r: "iter_rest tab it (d # ds)"
  let ?i = "unat (it_index it)"
  have l: "length (it_nodes it) = unat (it_max it)" and d: "d # ds = map nd_data (drop ?i (it_nodes it))"
    using r SORTED_ITER by (auto simp: iter_rest_def)
  have i: "?i < length (it_nodes it)" using d by (metis drop_all list.distinct(1) list.simps(8) not_le)
  have "d = nd_data (it_nodes it ! ?i)" using d i by (metis Cons_nth_drop_Suc list.inject list.simps(9))
  then show ?thesis using r SORTED_ITER i l
    by (auto simp: hash_table_iter_item_def sorted_iter_item_def iter_rest_def iter_ready_def mem_simps word_less_nat_alt)
next
  case BUCKET_ITER
  assume "iter_rest tab it (d # ds)"
  then show ?thesis using BUCKET_ITER
    by (auto simp: hash_table_iter_item_def cur_item_def iter_rest_def iter_ready_def)
qed

interpretation hti: table_iterator "hash_table_iter_first tab" "hash_table_iter_next tab" "hash_table_iter_item tab" "iter_rest tab" "iter_fresh tab"
  for tab :: "'d hash_table"
  by unfold_locales (fact iter_first_ok iter_next_ok iter_item_ok)+

section \<open>Properties\<close>

text \<open>What \<open>qsort\<close> promises: it permutes the array, and orders it when the comparison is a total preorder.\<close>

definition total_order :: "('a \<Rightarrow> 'a \<Rightarrow> int) \<Rightarrow> bool" where
  "total_order f \<longleftrightarrow> (\<forall>a b. f a b \<le> 0 \<or> f b a \<le> 0) \<and> (\<forall>a b c. f a b \<le> 0 \<longrightarrow> f b c \<le> 0 \<longrightarrow> f a c \<le> 0)"

definition qsort_ok :: "(('a \<Rightarrow> 'a \<Rightarrow> int) \<Rightarrow> 'a list \<Rightarrow> 'a list) \<Rightarrow> bool" where
  "qsort_ok qsort \<longleftrightarrow> (\<forall>f xs. mset (qsort f xs) = mset xs \<and> (total_order f \<longrightarrow> sorted_wrt (\<lambda>a b. f a b \<le> 0) (qsort f xs)))"

lemma collect_nodes_ok: "\<forall>b \<in> set bs. \<not> bk_held b \<Longrightarrow> collect_nodes on bs = Some (all_nodes bs)"
  by (induction bs) simp_all

lemma tab_wf_ready:
  assumes "tab_wf key hk n tab" "unat (tb_size tab) < 2 ^ 31" "n < 2 ^ 64"
  shows "iter_ready tab" "\<forall>b \<in> set (tb_buckets tab). \<not> bk_held b" "unat (hs_nodes (tb_stats tab)) = length (all_nodes (tb_buckets tab))"
proof -
  have ok: "bks_ok key (tab_hv hk tab) (tb_size tab) (tb_buckets tab)" "\<not> tb_held tab"
    "hs_nodes (tb_stats tab) = of_nat (length (all_nodes (tb_buckets tab)))" "length (all_nodes (tb_buckets tab)) \<le> n"
    using assms(1) counters_ok_len [of n tab] by (simp_all add: tab_wf_def tab_core_def tab_inv_def)
  then show "iter_ready tab" using assms(2) by (simp add: iter_ready_def bks_ok_def)
  show "\<forall>b \<in> set (tb_buckets tab). \<not> bk_held b" using ok(1) by (auto simp: bks_ok_def bucket_ok_def in_set_conv_nth)
  show "unat (hs_nodes (tb_stats tab)) = length (all_nodes (tb_buckets tab))" using ok(3,4) assms(3) by (simp add: unat_of_nat)
qed

lemma sorted_init_ok:
  assumes "tab_wf key hk n tab" "unat (tb_size tab) < 2 ^ 31" "n < 2 ^ 64" "\<not> tb_locking tab" "qsort_ok qsort" "total_order qcmp"
  shows "\<exists>it. sorted_iter_init qsort qcmp True tab (zero_iter SORTED_ITER) = Some it \<and> it_op it = SORTED_ITER \<and>
    length (it_nodes it) = unat (it_max it) \<and> mset (it_nodes it) = mset (all_nodes (tb_buckets tab)) \<and> sorted_wrt (\<lambda>a b. qcmp a b \<le> 0) (it_nodes it)"
proof -
  note r = tab_wf_ready [OF assms(1-3)]
  let ?ps = "all_nodes (tb_buckets tab)"
  have c: "collect_nodes (tb_locking tab) (take (unat (tb_size tab)) (tb_buckets tab)) = Some ?ps"
    using r(1,2) by (simp add: iter_ready_def collect_nodes_ok)
  have m: "hs_nodes (tb_stats tab) = 0 \<longleftrightarrow> ?ps = []" using r(3) unat_eq_zero [of "hs_nodes (tb_stats tab)"] by simp
  have one: "sorted_wrt (\<lambda>a b. qcmp a b \<le> 0) ?ps" if "\<not> 1 < hs_nodes (tb_stats tab)"
  proof -
    have "length ?ps \<le> 1" using that r(3) by (simp add: word_less_nat_alt)
    then show ?thesis by (cases ?ps) auto
  qed
  have q: "mset (qsort qcmp ?ps) = mset ?ps" "sorted_wrt (\<lambda>a b. qcmp a b \<le> 0) (qsort qcmp ?ps)" using assms(5,6) by (auto simp: qsort_ok_def)
  have "length (qsort qcmp ?ps) = length ?ps" using mset_eq_length [OF q(1)] .
  then show ?thesis using r c m one q assms(4) by (auto simp: sorted_iter_init_def zero_iter_def iter_ready_def Let_def)
qed

text \<open>
  Both table iterators visit every element of the table exactly once; the sorted one needs a table without locks, and visits the elements in the order of
  \<open>qcmp\<close>, which is what the policy's comparison answers for addresses of data pointers, not the order of the keys.
\<close>

theorem iterators_complete:
  assumes "tab_wf key hk n tab" "unat (tb_size tab) < 2 ^ 31" "n < 2 ^ 64" "srt \<longrightarrow> \<not> tb_locking tab" "qsort_ok qsort" "total_order qcmp"
  shows "\<exists>it ps. hash_table_iter_new qsort qcmp hash True True (Some tab) srt = Some (Inr it) \<and>
    (hash_table_iter_first tab it \<bind> walk (hash_table_iter_next tab) (hash_table_iter_item tab) (Suc (unat (hs_nodes (tb_stats tab))))) = Some (map nd_data ps) \<and>
    distinct (map (key \<circ> nd_data) ps) \<and> nd_data ` set ps = ran (tab_abs key tab) \<and> (srt \<longrightarrow> sorted_wrt (\<lambda>a b. qcmp a b \<le> 0) ps)"
proof -
  note r = tab_wf_ready [OF assms(1-3)]
  let ?ps = "all_nodes (tb_buckets tab)"
  have ok: "bks_ok key (tab_hv hk tab) (tb_size tab) (tb_buckets tab)" using assms(1) by (simp add: tab_wf_def tab_core_def tab_inv_def)
  obtain it ps where it: "hash_table_iter_new qsort qcmp hash True True (Some tab) srt = Some (Inr it)" "mset ps = mset ?ps"
    "iter_fresh tab it (map nd_data ps)" "srt \<longrightarrow> sorted_wrt (\<lambda>a b. qcmp a b \<le> 0) ps"
  proof (cases srt)
    case True
    with sorted_init_ok [OF assms(1-3) _ assms(5,6)] assms(4) obtain it where
      "sorted_iter_init qsort qcmp True tab (zero_iter SORTED_ITER) = Some it" "it_op it = SORTED_ITER" "length (it_nodes it) = unat (it_max it)"
      "mset (it_nodes it) = mset ?ps" "sorted_wrt (\<lambda>a b. qcmp a b \<le> 0) (it_nodes it)" by blast
    moreover have "tab\<lparr>tb_held := False\<rparr> = tab" using r(1) by (cases tab) (simp add: iter_ready_def)
    ultimately show ?thesis using that [of it "it_nodes it"] True r(1) assms(4)
      by (auto simp: hash_table_iter_new_def mk_iter_def iter_fresh_def iter_ready_def)
  next
    case False
    then show ?thesis using that [of "zero_iter VANILLA_ITER" ?ps] r(1)
      by (auto simp: hash_table_iter_new_def mk_iter_def iter_fresh_def iter_ready_def zero_iter_def)
  qed
  have "distinct (map (nkey key) ps)" using bks_ok_distinct [OF ok] mset_eq_imp_distinct_iff [of "map (nkey key) ps" "map (nkey key) ?ps"] it(2) by simp
  moreover have "nd_data ` set ps = ran (tab_abs key tab)"
    using nodes_distinct_ent [OF ok] mset_eq_setD [OF it(2)] by (simp add: tab_abs_def ran_distinct ent_nodes image_image)
  moreover have "length (map nd_data ps) < Suc (unat (hs_nodes (tb_stats tab)))" using mset_eq_length [OF it(2)] r(3) by simp
  ultimately show ?thesis using hti.walk_all [OF it(3)] it(1,4) by (auto simp: comp_def)
qed

text \<open>
  C29: The unsorted iterator visits every element of a table exactly once: on a well-formed table of fewer than \<open>2^31\<close> buckets, with or without locks, the
  client's loop (first, then item and next until the end) over a new iterator ends after as many rounds as there are elements, the keys it visits are distinct and its
  elements are the values of the abstract map. The table is not changed during the walk, and the iterator's allocation succeeds.
\<close>

theorem hash_table_iter_complete:
  assumes "tab_wf key hk n tab" "unat (tb_size tab) < 2 ^ 31" "n < 2 ^ 64"
  shows "\<exists>it ds. hash_table_iter_new qsort qcmp hash True True (Some tab) False = Some (Inr it) \<and>
    (hash_table_iter_first tab it \<bind> walk (hash_table_iter_next tab) (hash_table_iter_item tab) (Suc (unat (hs_nodes (tb_stats tab))))) = Some ds \<and>
    distinct (map key ds) \<and> set ds = ran (tab_abs key tab)"
proof -
  note r = tab_wf_ready [OF assms]
  let ?ps = "all_nodes (tb_buckets tab)"
  have ok: "bks_ok key (tab_hv hk tab) (tb_size tab) (tb_buckets tab)" using assms(1) by (simp add: tab_wf_def tab_core_def tab_inv_def)
  have it: "hash_table_iter_new qsort qcmp hash True True (Some tab) False = Some (Inr (zero_iter VANILLA_ITER))"
    "iter_fresh tab (zero_iter VANILLA_ITER) (map nd_data ?ps)"
    using r(1) by (auto simp: hash_table_iter_new_def mk_iter_def iter_fresh_def iter_ready_def zero_iter_def)
  have "distinct (map key (map nd_data ?ps))" using bks_ok_distinct [OF ok] by (simp add: comp_def)
  moreover have "set (map nd_data ?ps) = ran (tab_abs key tab)"
    using nodes_distinct_ent [OF ok] by (simp add: tab_abs_def ran_distinct ent_nodes image_image)
  moreover have "length (map nd_data ?ps) < Suc (unat (hs_nodes (tb_stats tab)))" using r(3) by simp
  ultimately show ?thesis using hti.walk_all [OF it(2)] it(1) by blast
qed

text \<open>
  Two defects. On a table with locks the sorted iterator cannot be created: its initialisation takes the lock its caller holds. The bucket iterator of a
  key leaves out the table's seed: it visits the key exactly when the seed does not change the key's bucket.
\<close>

theorem hash_table_iter_traps:
  assumes "policy_ok key hk hash cmp" "tab_wf key hk n tab" "unat (tb_size tab) < 2 ^ 31" "n < 2 ^ 64" "tab_abs key tab (key k) = Some w"
  shows "(tb_locking tab \<longrightarrow> hash_table_iter_new qsort qcmp hash True an (Some tab) True = None) \<and>
    (\<exists>it ds. hash_table_bucket_iter_new qsort qcmp hash True an (Some tab) (Some k) = Some (Inr it) \<and>
       (hash_table_iter_first tab it \<bind> walk (hash_table_iter_next tab) (hash_table_iter_item tab) (Suc n)) = Some ds \<and>
       (w \<in> set ds \<longleftrightarrow> slot_of (tb_size tab) (hash k) = slot_of (tb_size tab) (hashfunc hash tab k)))"
proof (intro conjI impI)
  have inv: "tab_inv key hk tab" "length (all_nodes (tb_buckets tab)) \<le> n" "\<not> tb_held tab"
    using assms(2) counters_ok_len [of n tab] by (simp_all add: tab_wf_def tab_core_def)
  show "hash_table_iter_new qsort qcmp hash True an (Some tab) True = None" if "tb_locking tab"
    using that inv(3) by (simp add: hash_table_iter_new_def mk_iter_def sorted_iter_init_def lockmgr_lock_def)
  let ?i = "slot_of (tb_size tab) (hash k)" and ?j = "slot_of (tb_size tab) (hashfunc hash tab k)"
  let ?b = "tb_buckets tab ! ?i" and ?c = "tb_buckets tab ! ?j"
  note rd = tab_wf_ready [OF assms(2-4)]
  have bks: "length (tb_buckets tab) = unat (tb_size tab)" "\<forall>i<length (tb_buckets tab). bucket_ok key (tab_hv hk tab) (tb_size tab) i (tb_buckets tab ! i)"
    "0 < tb_size tab" using inv(1) by (auto simp: tab_inv_def bks_ok_def)
  have i: "?i < length (tb_buckets tab)" using slot_less [OF bks(3)] bks(1) by simp
  let ?it = "(zero_iter BUCKET_ITER)\<lparr>it_chain := bk_head ?b, it_cur := bk_head ?b\<rparr>"
  have new: "hash_table_bucket_iter_new qsort qcmp hash True an (Some tab) (Some k) = Some (Inr ?it)"
    using i inv(3) by (simp add: hash_table_bucket_iter_new_def mk_iter_def bucket_iter_init_def mem_simps)
  have "iter_fresh tab ?it (map nd_data (bk_head ?b))" using rd(1) by (simp add: iter_fresh_def zero_iter_def)
  moreover have "length (map nd_data (bk_head ?b)) < Suc n" using chain_le [OF i] inv(2) by simp
  ultimately have walk: "(hash_table_iter_first tab ?it \<bind> walk (hash_table_iter_next tab) (hash_table_iter_item tab) (Suc n)) = Some (map nd_data (bk_head ?b))"
    by (rule hti.walk_all)
  have "map_of (bk_ent key ?c) (key k) = Some w" using tab_bucket(3) [OF inv(1) assms(1)] assms(5) by simp
  then obtain p where p: "p \<in> set (bk_head ?c)" "nd_data p = w" "key w = key k" by (auto simp: bk_ent_def dest!: map_of_SomeD)
  have "?i = ?j" if w: "w \<in> nd_data ` set (bk_head ?b)"
  proof -
    have "slot_of (tb_size tab) (tab_hv hk tab (key w)) = ?i" using w bks(2) i by (auto simp: bucket_ok_def)
    then show ?thesis using p(3) assms(1) by (simp add: hashfunc_def seeded_def policy_ok_def)
  qed
  moreover have "w \<in> nd_data ` set (bk_head ?b)" if "?i = ?j" using p that by auto
  ultimately show "\<exists>it ds. hash_table_bucket_iter_new qsort qcmp hash True an (Some tab) (Some k) = Some (Inr it) \<and>
       (hash_table_iter_first tab it \<bind> walk (hash_table_iter_next tab) (hash_table_iter_item tab) (Suc n)) = Some ds \<and>
       (w \<in> set ds \<longleftrightarrow> ?i = ?j)" using new walk by (metis list.set_map)
qed

text \<open>An insertion sort, to show that the promise of \<open>qsort\<close> can be kept.\<close>

fun ins_by :: "('a \<Rightarrow> 'a \<Rightarrow> int) \<Rightarrow> 'a \<Rightarrow> 'a list \<Rightarrow> 'a list" where
  "ins_by f x [] = [x]"
| "ins_by f x (y # ys) = (if f x y \<le> 0 then x # y # ys else y # ins_by f x ys)"

definition isort_by :: "('a \<Rightarrow> 'a \<Rightarrow> int) \<Rightarrow> 'a list \<Rightarrow> 'a list" where
  "isort_by f xs = foldr (ins_by f) xs []"

lemma mset_ins_by: "mset (ins_by f x ys) = add_mset x (mset ys)"
  by (induction ys) simp_all

lemma sorted_ins_by:
  assumes "total_order f" "sorted_wrt (\<lambda>a b. f a b \<le> 0) ys"
  shows "sorted_wrt (\<lambda>a b. f a b \<le> 0) (ins_by f x ys)"
  using assms(2)
proof (induction ys)
  case (Cons y ys)
  have t: "f a c \<le> 0" if "f a b \<le> 0" "f b c \<le> 0" for a b c using assms(1) that unfolding total_order_def by blast
  have "f y x \<le> 0" if "\<not> f x y \<le> 0" using assms(1) that unfolding total_order_def by blast
  moreover have "set (ins_by f x ys) = insert x (set ys)" using mset_ins_by [of f x ys] by (metis set_mset_add_mset_insert set_mset_mset)
  ultimately show ?case using Cons t by auto
qed simp

lemma isort_by_ok: "qsort_ok isort_by"
proof -
  have "mset (isort_by f xs) = mset xs \<and> (total_order f \<longrightarrow> sorted_wrt (\<lambda>a b. f a b \<le> 0) (isort_by f xs))" for f :: "'a \<Rightarrow> 'a \<Rightarrow> int" and xs
    by (induction xs) (simp_all add: isort_by_def mset_ins_by sorted_ins_by)
  then show ?thesis by (simp add: qsort_ok_def)
qed

abbreviation by_data :: "nat hash_node \<Rightarrow> nat hash_node \<Rightarrow> int" where
  "by_data p q \<equiv> int (nd_data p) - int (nd_data q)"

text \<open>A table with locks, four elements and an empty bucket.\<close>

definition four_key_tab :: "nat hash_table" where
  "four_key_tab = (let node = (\<lambda>k. \<lparr>nd_hash = word_of_nat k, nd_data = k\<rparr>) in
    \<lparr>tb_buckets = [zero_bucket, \<lparr>bk_head = [node 9, node 1, node 5], bk_count = 3, bk_held = False\<rparr>, zero_bucket,
       \<lparr>bk_head = [node 7], bk_count = 1, bk_held = False\<rparr>],
     tb_size = 4, tb_fillmax = 80, tb_random = 0, tb_dtor = False, tb_dtored = [], tb_locking = True, tb_held = False,
     tb_stats = zero_stat\<lparr>hs_nodes := 4, hs_fill := 2, hs_inserts := 4\<rparr>\<rparr>)"

lemma four_key_tab_wf: "tab_wf id word_of_nat 4 four_key_tab" "ran (tab_abs id four_key_tab) = {1, 5, 7, 9}"
proof -
  have "bucket_ok id (tab_hv word_of_nat four_key_tab) 4 i (tb_buckets four_key_tab ! i)" if "i < 4" for i
  proof -
    consider "i = 0" | "i = 1" | "i = 2" | "i = 3" using \<open>i < 4\<close> by linarith
    then show ?thesis by cases (simp_all add: four_key_tab_def Let_def bucket_ok_def zero_bucket_def seeded_def slot_of_def)
  qed
  then show "tab_wf id word_of_nat 4 four_key_tab"
    by (simp add: tab_wf_def tab_core_def tab_inv_def bks_ok_def)
       (simp add: four_key_tab_def Let_def counters_ok_def zero_bucket_def zero_stat_def filled_def)
  have "entries (bk_ent id) (tb_buckets four_key_tab) = [(9, 9), (1, 1), (5, 5), (7, 7)]"
    by (simp add: four_key_tab_def Let_def bk_ent_def zero_bucket_def)
  then show "ran (tab_abs id four_key_tab) = {1, 5, 7, 9}" unfolding tab_abs_def by (subst ran_distinct) auto
qed

theorem hash_table_iter_complete_witness:
  "\<exists>it ds. hash_table_iter_new isort_by by_data word_of_nat True True (Some four_key_tab) False = Some (Inr it) \<and>
    (hash_table_iter_first four_key_tab it \<bind> walk (hash_table_iter_next four_key_tab) (hash_table_iter_item four_key_tab) 5) = Some ds \<and>
    distinct ds \<and> set ds = {1, 5, 7, 9}"
proof -
  have f: "unat (tb_size four_key_tab) < 2 ^ 31" "(4 :: nat) < 2 ^ 64" and n: "Suc (unat (hs_nodes (tb_stats four_key_tab))) = 5"
    by (simp_all add: four_key_tab_def Let_def)
  show ?thesis using hash_table_iter_complete [OF four_key_tab_wf(1) f, of isort_by by_data word_of_nat] unfolding n four_key_tab_wf(2) by simp
qed

theorem hash_table_iter_traps_witness:
  "hash_table_iter_new isort_by by_data word_of_nat True True (Some (one_key_tab True)) True = None"
proof -
  have "unat (tb_size (one_key_tab True)) < 2 ^ 31" "tb_locking (one_key_tab True)" by (simp_all add: one_key_tab_def)
  then show ?thesis using hash_table_iter_traps [OF nat_policy one_key_tab_wf(1), of True 1 1 isort_by by_data True] one_key_tab_wf(2) [of True] by auto
qed

end
