(* ===== verification/Parse_Ip.thy ===== *)
theory Parse_Ip
  imports Encdec Cstring
begin

text \<open>
  IPv4 addresses and masks: \<open>src/parse-ip.c\<close>. Strings are byte lists without their terminator; the local buffers \<open>x\<close>, \<open>p\<close>, \<open>as\<close> and \<open>ms\<close> have the sizes the
  source gives them. A result \<open>Some None\<close> is the return value 0 (failure), \<open>None\<close> a fault.
\<close>

section \<open>Helpers\<close>

text \<open>The loop of \<open>safe_strcpy\<close>: \<open>i\<close> is the offset of \<open>dst\<close>, \<open>sz\<close> the value before the decrement.\<close>

fun safe_copy :: "u8 list \<Rightarrow> nat \<Rightarrow> nat \<Rightarrow> u8 list \<Rightarrow> (int \<times> u8 list) option" where
  "safe_copy dst i 0 src = None"
| "safe_copy dst i (Suc 0) src =
    do { c \<leftarrow> get_at src 0; dst \<leftarrow> put_at dst i 0; Some (if c \<noteq> 0 then -1 else int i, dst) }"
| "safe_copy dst i (Suc (Suc sz)) src =
    do { c \<leftarrow> get_at src 0;
         dst \<leftarrow> put_at dst i c;
         if c = 0 then Some (int i, dst) else safe_copy dst (i + 1) (Suc sz) (tl src) }"

definition safe_strcpy :: "u8 list \<Rightarrow> nat \<Rightarrow> u8 list \<Rightarrow> (int \<times> u8 list) option" where
  "safe_strcpy dst sz src = (if 0 < sz then safe_copy dst 0 sz (src @ [0]) else None)"

fun dtoi :: "u64 \<Rightarrow> u8 list \<Rightarrow> u64 option" where
  "dtoi n [] = Some n"
| "dtoi n (c # s) = (if isdigit8 c then dtoi (n * 10 + ucast (c - 48)) s else None)"

section \<open>Addresses\<close>

text \<open>An octet from the characters collected in \<open>x\<close>; \<open>None\<close> makes the caller return 0.\<close>

definition ip_octet :: "u8 list \<Rightarrow> u8 option" where
  "ip_octet x = do { z \<leftarrow> dtoi 0 x; if 255 < z then None else Some (ucast (z AND 0xff)) }"

text \<open>The loop over the string: \<open>n\<close> octets stored in \<open>p\<close>, the characters \<open>x[0..m-1]\<close> of the next one.\<close>

fun ip_loop :: "u8 list \<Rightarrow> nat \<Rightarrow> u8 list \<Rightarrow> u8 list \<Rightarrow> (nat \<times> u8 list \<times> u8 list) option option" where
  "ip_loop [] n x p = Some (Some (n, x, p))"
| "ip_loop (c # s) n x p =
    (if 3 < n \<or> 3 < length x then Some None
     else if c \<noteq> 46 then (if length x < 8 then ip_loop s n (x @ [c]) p else None)
     else if 8 \<le> length x then None
     else case ip_octet x of
            None \<Rightarrow> Some None
          | Some z \<Rightarrow> do { p \<leftarrow> put_at p n z; ip_loop s (n + 1) [] p })"

definition parse_ipv4 :: "u8 list \<Rightarrow> u32 option option" where
  "parse_ipv4 sx =
    do { r \<leftarrow> ip_loop sx 0 [] [0, 0, 0, 0];
         case r of None \<Rightarrow> Some None
         | Some (n, x, p) \<Rightarrow>
             do { r \<leftarrow> (if x \<noteq> []
                        then if 8 \<le> length x then None
                             else case ip_octet x of
                                    None \<Rightarrow> Some None
                                  | Some z \<Rightarrow> do { p \<leftarrow> put_at p n z; Some (Some (n + 1, p)) }
                        else Some (Some (n, p)));
                  case r of None \<Rightarrow> Some None
                  | Some (n, p) \<Rightarrow> if n < 4 then Some None else map_option Some (dec_BE_u32 p 0) } }"

section \<open>Masks\<close>

text \<open>\<open>0xffffffff << (32 - z)\<close>; a shift by 32 is undefined.\<close>

definition prefix_mask :: "u64 \<Rightarrow> u32 option" where
  "prefix_mask z = (let k = 32 - (ucast z :: u32) in if k < 32 then Some (push_bit (unat k) 0xffffffff) else None)"

definition parse_ipv4_and_mask :: "u8 list \<Rightarrow> (u32 \<times> u32) option option" where
  "parse_ipv4_and_mask str =
    do { parts \<leftarrow>
           (if 47 \<notin> set str
            then do { (r, as) \<leftarrow> safe_strcpy (replicate 32 0) 32 str;
                      as \<leftarrow> c_str as;
                      Some (if r < 0 then None else Some (as, [])) }
            else let n = length (takeWhile (\<lambda>c. c \<noteq> 47) str) in
                 if 15 < n then Some None
                 else do { (r, ms) \<leftarrow> safe_strcpy (replicate 32 0) 32 (drop (n + 1) str);
                           ms \<leftarrow> c_str ms;
                           Some (Some (take n str, ms)) });
         case parts of None \<Rightarrow> Some None
         | Some (as, ms) \<Rightarrow>
             do { a \<leftarrow> parse_ipv4 as;
                  case a of None \<Rightarrow> Some None
                  | Some a \<Rightarrow>
                      if 46 \<in> set ms
                      then map_option (map_option (Pair a)) (parse_ipv4 ms)
                      else if ms = [] then map_option (\<lambda>m. Some (a, m)) (prefix_mask 32)
                      else case dtoi 0 ms of
                             None \<Rightarrow> Some None
                           | Some z \<Rightarrow> if 32 < z then Some None else map_option (\<lambda>m. Some (a, m)) (prefix_mask z) } }"

text \<open>\<open>mask_to_cidr4\<close>: the leading ones of an octet, then octet by octet. The bits at and above the lowest one shrink in both loops.\<close>

definition bits_from :: "nat \<Rightarrow> 'a::len word \<Rightarrow> nat set" where
  "bits_from L w = {i. i < L \<and> (\<exists>j\<le>i. bit w j)}"

lemma bits_from_shift: "w \<noteq> 0 \<Longrightarrow> 0 < k \<Longrightarrow> card (bits_from LENGTH('a) (push_bit k w)) < card (bits_from LENGTH('a) (w :: 'a::len word))"
proof (rule psubset_card_mono)
  assume w: "w \<noteq> 0" and k: "0 < k"
  show "finite (bits_from LENGTH('a) w)" by (simp add: bits_from_def)
  obtain n where "bit w n" using w by (metis bit_eqI bit_0_eq bot_apply bot_bool_def)
  define l where "l = (LEAST n. bit w n)"
  have l: "bit w l" "\<And>j. bit w j \<Longrightarrow> l \<le> j" using \<open>bit w n\<close> unfolding l_def by (auto intro: LeastI Least_le)
  have "l < LENGTH('a)" using l(1) by (rule bit_imp_le_length)
  then have "l \<in> bits_from LENGTH('a) w" using l(1) by (auto simp: bits_from_def)
  moreover have "l \<notin> bits_from LENGTH('a) (push_bit k w)" using l(2) k by (fastforce simp: bits_from_def bit_simps)
  moreover have "bits_from LENGTH('a) (push_bit k w) \<subseteq> bits_from LENGTH('a) w"
    by (auto simp: bits_from_def bit_simps) (meson diff_le_self order_trans)
  ultimately show "bits_from LENGTH('a) (push_bit k w) \<subset> bits_from LENGTH('a) w" by auto
qed

function leading_ones :: "u8 \<Rightarrow> u32 \<Rightarrow> u8 \<times> u32" where
  "leading_ones v n = (if v AND 0x80 \<noteq> 0 then leading_ones (push_bit 1 v AND 0xff) (n + 1) else (v, n))"
  by pat_completeness auto
termination
proof (relation "measure (\<lambda>(v, n). card (bits_from 8 v))")
  fix v :: u8 and n :: u32
  assume "v AND 0x80 \<noteq> 0"
  then have "v \<noteq> 0" by auto
  moreover have "push_bit 1 v AND 0xff = push_bit 1 v" by (rule u8_eqI; simp add: bit_simps bit_numeral_rec)
  ultimately show "((push_bit 1 v AND 0xff, n + 1), v, n) \<in> measure (\<lambda>(v, n). card (bits_from 8 v))"
    using bits_from_shift [of v 1] by simp
qed simp

function cidr_loop :: "u32 \<Rightarrow> u32 \<Rightarrow> u32 option" where
  "cidr_loop msk n =
    (if 0 < msk
     then let v = (ucast (drop_bit 24 (0xff000000 AND msk)) :: u8); msk = push_bit 8 msk in
          if v = 0xff then cidr_loop msk (n + 8)
          else let (v, n) = leading_ones v n in if v \<noteq> 0 \<or> msk \<noteq> 0 then None else Some n
     else Some n)"
  by pat_completeness auto
termination
proof (relation "measure (\<lambda>(msk, n). card (bits_from 32 msk))")
  fix msk n :: u32 and v :: u8 and m :: u32
  assume "0 < msk" "m = push_bit 8 msk"
  then show "((m, n + 8), msk, n) \<in> measure (\<lambda>(msk, n). card (bits_from 32 msk))"
    using bits_from_shift [of msk 8] by (simp add: word_gt_0)
qed simp

declare leading_ones.simps [simp del] cidr_loop.simps [simp del]

definition mask_to_cidr4 :: "u32 \<Rightarrow> u32 option" where
  "mask_to_cidr4 msk = cidr_loop msk 0"

section \<open>Printing\<close>

text \<open>\<open>str_ipv4\<close> formats with \<open>snprintf\<close> and \<open>"%d.%d.%d.%d"\<close>: the bytes it writes into a buffer of \<open>sz\<close> bytes.\<close>

fun dec_string :: "nat \<Rightarrow> u8 list" where
  "dec_string n = (if n < 10 then [48 + of_nat n] else dec_string (n div 10) @ [48 + of_nat (n mod 10)])"

declare dec_string.simps [simp del]

definition quad_octet :: "u32 \<Rightarrow> nat \<Rightarrow> nat" where
  "quad_octet a i = unat (drop_bit (i * 8) a AND 0xff)"

definition dotted :: "u32 \<Rightarrow> u8 list" where
  "dotted a = dec_string (quad_octet a 3) @ [46] @ dec_string (quad_octet a 2) @ [46] @ dec_string (quad_octet a 1) @ [46] @ dec_string (quad_octet a 0)"

definition str_ipv4 :: "nat \<Rightarrow> u32 \<Rightarrow> u8 list" where
  "str_ipv4 sz a = (if sz = 0 then [] else take (sz - 1) (dotted a) @ [0])"

section \<open>Decimal numbers\<close>

lemma dtoi_append: "dtoi n (xs @ ys) = do { m \<leftarrow> dtoi n xs; dtoi m ys }"
  by (induction xs arbitrary: n) simp_all

lemma digit_byte: "d < 10 \<Longrightarrow> isdigit8 (48 + of_nat d) \<and> ucast (48 + of_nat d - 48 :: u8) = (of_nat d :: u64)"
proof -
  assume d: "d < 10"
  have "unat (48 + of_nat d :: u8) = 48 + d" using d by (simp add: unat_word_ariths unat_of_nat)
  moreover have "(ucast (of_nat d :: u8) :: u64) = of_nat d"
  proof -
    have "unat (of_nat d :: u8) = d" using d by (simp add: unat_of_nat)
    then show ?thesis by (metis of_nat_unat)
  qed
  ultimately show ?thesis using d by (simp add: isdigit8_def word_le_nat_alt)
qed

lemma dtoi_dec: "dtoi 0 (dec_string n) = Some (of_nat n)"
proof (induction n rule: dec_string.induct)
  case (1 n)
  show ?case
  proof (cases "n < 10")
    case True
    then show ?thesis using digit_byte [of n] by (subst dec_string.simps) simp
  next
    case False
    have "of_nat (n div 10) * 10 + of_nat (n mod 10) = (of_nat n :: u64)"
      using div_mult_mod_eq [of n 10] by (metis of_nat_add of_nat_mult of_nat_numeral)
    then show ?thesis using False 1 digit_byte [of "n mod 10"] by (subst dec_string.simps) (simp add: dtoi_append)
  qed
qed

lemma dec_string_digits: "\<forall>c \<in> set (dec_string n). isdigit8 c"
proof (induction n rule: dec_string.induct)
  case (1 n)
  show ?case
  proof (cases "n < 10")
    case True
    then show ?thesis using digit_byte [of n] by (subst dec_string.simps) simp
  next
    case False
    then show ?thesis using 1 digit_byte [of "n mod 10"] by (subst dec_string.simps) auto
  qed
qed

lemma dec_string_plain: "46 \<notin> set (dec_string n)" "47 \<notin> set (dec_string n)" "0 \<notin> set (dec_string n)"
  using dec_string_digits [of n] by (auto simp: isdigit8_def)

lemma dec_string_nonempty: "dec_string n \<noteq> []"
  by (subst dec_string.simps) simp

lemma dec_string_length: "n < 10 ^ k \<Longrightarrow> 0 < k \<Longrightarrow> length (dec_string n) \<le> k"
proof (induction k arbitrary: n)
  case (Suc k)
  show ?case
  proof (cases "n < 10")
    case True
    then show ?thesis by (subst dec_string.simps) simp
  next
    case False
    then have "0 < k" using Suc.prems by (cases k) auto
    moreover have "n div 10 < 10 ^ k" using Suc.prems(1) by (simp add: less_mult_imp_div_less mult.commute)
    ultimately show ?thesis using Suc.IH [of "n div 10"] False by (subst dec_string.simps) simp
  qed
qed simp

section \<open>Addresses\<close>

lemma ip_octet_dec: "n < 256 \<Longrightarrow> ip_octet (dec_string n) = Some (of_nat n)"
proof -
  assume n: "n < 256"
  have "unat (of_nat n :: u64) = n" using n by (simp add: unat_of_nat)
  then have "\<not> 255 < (of_nat n :: u64)" using n by (simp add: word_less_nat_alt)
  moreover have "(ucast (of_nat n AND 0xff :: u64) :: u8) = of_nat n"
    using ucast_lane(3) [of "of_nat n"] \<open>unat (of_nat n :: u64) = n\<close> by (metis and.commute of_nat_unat)
  ultimately show ?thesis by (simp add: ip_octet_def dtoi_dec)
qed

lemma ip_loop_digits:
  "46 \<notin> set xs \<Longrightarrow> n \<le> 3 \<Longrightarrow> length x + length xs \<le> 4 \<Longrightarrow> ip_loop (xs @ s) n x p = ip_loop s n (x @ xs) p"
  by (induction xs arbitrary: x) auto

lemma ip_loop_octet:
  assumes "d < 256" "n \<le> 3" "n < length p"
  shows "ip_loop (dec_string d @ 46 # s) n [] p = ip_loop s (n + 1) [] (p[n := of_nat d])"
proof -
  have "length (dec_string d) \<le> 3" using dec_string_length [of d 3] assms(1) by simp
  then show ?thesis using assms ip_loop_digits [OF dec_string_plain(1), of n "[]" d "46 # s"] by (simp add: ip_octet_dec mem_simps)
qed

lemma quad_octet_less: "quad_octet a i < 256"
  using word_and_le1 [of "drop_bit (i * 8) a" "0xff"] by (simp add: quad_octet_def word_le_nat_alt)

lemma quad_octet_byte: "of_nat (quad_octet a i) = (ucast (drop_bit (8 * i) a) :: u8)"
  using ucast_lane(2) [of "drop_bit (8 * i) a"] by (simp add: quad_octet_def mult.commute and.commute)

lemma parse_dotted: "parse_ipv4 (dotted a) = Some (Some a)"
proof -
  let ?o = "\<lambda>i. quad_octet a i"
  have "length (dec_string (?o 0)) \<le> 3" using dec_string_length [of "?o 0" 3] quad_octet_less [of a 0] by simp
  then have "ip_loop (dotted a) 0 [] [0, 0, 0, 0] = Some (Some (3, dec_string (?o 0), [of_nat (?o 3), of_nat (?o 2), of_nat (?o 1), 0]))"
    using ip_loop_digits [OF dec_string_plain(1), of 3 "[]" "?o 0" "[]"]
    by (simp add: dotted_def ip_loop_octet quad_octet_less numeral_3_eq_3)
  moreover have "[of_nat (?o 3), of_nat (?o 2), of_nat (?o 1), of_nat (?o 0)] = rev (le32 a)"
    by (simp add: quad_octet_byte le32_def upt_rec)
  ultimately show ?thesis
    using be32.dec_lanes [of "[]" a "[]"] dec_string_nonempty [of "?o 0"] \<open>length (dec_string (?o 0)) \<le> 3\<close>
    by (simp add: parse_ipv4_def ip_octet_dec quad_octet_less mem_simps)
qed

lemma ip_loop_safe:
  "length p = 4 \<Longrightarrow> n \<le> 4 \<Longrightarrow> length x \<le> 4 \<Longrightarrow> (n = 4 \<longrightarrow> x = []) \<Longrightarrow>
   \<exists>r. ip_loop s n x p = Some r \<and> (\<forall>n' x' p'. r = Some (n', x', p') \<longrightarrow> length p' = 4 \<and> n' \<le> 4 \<and> length x' \<le> 4 \<and> (n' = 4 \<longrightarrow> x' = []))"
proof (induction s n x p rule: ip_loop.induct)
  case (2 c s n x p)
  show ?case
  proof (cases "3 < n \<or> 3 < length x")
    case False
    show ?thesis
    proof (cases "c = 46")
      case True
      show ?thesis
      proof (cases "ip_octet x")
        case (Some z)
        then show ?thesis using False True "2.prems" "2.IH"(2) [of z "p[n := z]"] by (simp add: mem_simps)
      qed (use False True in simp)
    next
      case c: False
      then show ?thesis using False "2.prems" "2.IH"(1) by simp
    qed
  qed simp
qed simp

lemma parse_ipv4_safe: "parse_ipv4 s \<noteq> None"
proof -
  obtain r where r: "ip_loop s 0 [] [0, 0, 0, 0] = Some r"
    "\<forall>n' x' p'. r = Some (n', x', p') \<longrightarrow> length p' = 4 \<and> n' \<le> 4 \<and> length x' \<le> 4 \<and> (n' = 4 \<longrightarrow> x' = [])"
    using ip_loop_safe [of "[0, 0, 0, 0]" 0 "[]" s] by auto
  have dec: "dec_BE_u32 p 0 \<noteq> None" if "length p = 4" for p using that by (simp add: dec_BE_u32_def mem_simps)
  show ?thesis
  proof (cases r)
    case (Some t)
    obtain n x p where t: "t = (n, x, p)" by (cases t) auto
    have f: "length p = 4" "n \<le> 4" "length x \<le> 4" "n = 4 \<longrightarrow> x = []" using r(2) Some t by auto
    show ?thesis
    proof (cases "x = []")
      case True
      then show ?thesis using r(1) Some t dec [OF f(1)] by (auto simp: parse_ipv4_def)
    next
      case False
      then have "n < length p" using f by auto
      then show ?thesis using r(1) Some t False f dec by (auto simp: parse_ipv4_def mem_simps split: option.splits)
    qed
  qed (use r(1) in \<open>simp add: parse_ipv4_def\<close>)
qed

section \<open>Copying\<close>

lemma safe_copy_ok:
  assumes "0 \<notin> set src" "0 < sz" "i + sz \<le> length dst"
  shows "\<exists>r rest. safe_copy dst i sz (src @ [0]) = Some (r, take i dst @ take (sz - 1) src @ 0 # rest) \<and> (r < 0 \<longleftrightarrow> sz \<le> length src)"
  using assms
proof (induction dst i sz "src @ [0]" arbitrary: src rule: safe_copy.induct)
  case (2 dst i)
  have "(dst[i := 0]) = take i dst @ 0 # drop (Suc i) dst" using "2.prems" by (simp add: upd_conv_take_nth_drop)
  then show ?case using "2.prems" by (cases src) (auto simp: get_at_def mem_simps)
next
  case (3 dst i sz)
  show ?case
  proof (cases src)
    case Nil
    have "(dst[i := 0]) = take i dst @ 0 # drop (Suc i) dst" using "3.prems" by (simp add: upd_conv_take_nth_drop)
    then show ?thesis using "3.prems" Nil by (auto simp: get_at_def mem_simps)
  next
    case (Cons c s)
    have "take (i + 1) (dst[i := c]) = take i dst @ [c]" using "3.prems" by (simp add: take_Suc_conv_app_nth)
    moreover have "\<exists>r rest. safe_copy (dst[i := c]) (i + 1) (Suc sz) (s @ [0]) =
        Some (r, take (i + 1) (dst[i := c]) @ take (Suc sz - 1) s @ 0 # rest) \<and> (r < 0 \<longleftrightarrow> Suc sz \<le> length s)"
      using "3.prems" Cons by (intro "3.hyps") (auto simp: get_at_def)
    ultimately show ?thesis using "3.prems" Cons by (auto simp: get_at_def mem_simps)
  qed
qed simp

lemma safe_strcpy_ok:
  assumes "0 \<notin> set src" "0 < sz" "sz \<le> length dst"
  shows "\<exists>r dst'. safe_strcpy dst sz src = Some (r, dst') \<and> c_str dst' = Some (take (sz - 1) src) \<and> (r < 0 \<longleftrightarrow> sz \<le> length src)"
proof -
  obtain r rest where "safe_copy dst 0 sz (src @ [0]) = Some (r, take (sz - 1) src @ 0 # rest)" "r < 0 \<longleftrightarrow> sz \<le> length src"
    using safe_copy_ok [of src sz 0 dst] assms by auto
  moreover have "0 \<notin> set (take (sz - 1) src)" using assms(1) by (auto dest: in_set_takeD)
  ultimately show ?thesis using assms(2) by (simp add: safe_strcpy_def c_str_app)
qed

section \<open>Masks\<close>

definition netmask :: "nat \<Rightarrow> u32" where
  "netmask k = push_bit (32 - k) 0xffffffff"

lemma bit_netmask: "k \<le> 32 \<Longrightarrow> bit (netmask k) i \<longleftrightarrow> i < 32 \<and> 32 - k \<le> i"
proof -
  have "bit (0xffffffff :: u32) j" if "j < 32" for j
  proof -
    have "(0xffffffff :: u32) = -1" by simp
    then show ?thesis using that by (simp only: bit_minus_1_iff) simp
  qed
  then show "k \<le> 32 \<Longrightarrow> ?thesis" by (auto simp: netmask_def bit_simps)
qed

lemma octet_bits: "(ucast (drop_bit 24 (0xff000000 AND m :: u32)) :: u8) = ucast (drop_bit 24 m)"
  by (rule u8_eqI; simp add: bit_simps bit_numeral_rec)

lemma leading_ones_ok:
  "leading_ones v n = (v', n') \<Longrightarrow> \<exists>k\<le>8. n' = n + of_nat k \<and> (\<forall>i<8. 8 - k \<le> i \<longrightarrow> bit v i) \<and> v' = push_bit k v"
proof (induction v n arbitrary: v' n' rule: leading_ones.induct)
  case (1 v n)
  have m: "push_bit 1 v AND 0xff = push_bit 1 v" by (rule u8_eqI; simp add: bit_simps bit_numeral_rec)
  have b7: "v AND 0x80 \<noteq> 0 \<longleftrightarrow> bit v 7" using and_exp_eq_0_iff_not_bit [of v 7] by simp
  show ?case
  proof (cases "bit v 7")
    case True
    then have "leading_ones (push_bit 1 v AND 0xff) (n + 1) = (v', n')" using "1.prems" b7 by (subst (asm) leading_ones.simps) simp
    from "1.IH" [OF _ this] True b7 obtain k where k: "k \<le> 8" "n' = n + 1 + of_nat k"
      "\<forall>i<8. 8 - k \<le> i \<longrightarrow> bit (push_bit 1 v) i" "v' = push_bit k (push_bit 1 v)" unfolding m by blast
    have pb: "bit (push_bit 1 v) j \<longleftrightarrow> 0 < j \<and> j < 8 \<and> bit v (j - 1)" for j by (simp only: bit_push_bit_iff) (auto simp: Suc_le_eq)
    have "k \<noteq> 8" using k(3)[rule_format, of 0] pb [of 0] by auto
    moreover have "bit v i" if "i < 8" "8 - Suc k \<le> i" for i
      using k(3)[rule_format, of "Suc i"] pb [of "Suc i"] that True \<open>k \<noteq> 8\<close> k(1) by (cases "i = 7") auto
    ultimately show ?thesis using k(1,2,4) by (intro exI [of _ "Suc k"]) (simp add: push_bit_push_bit ac_simps)
  next
    case False
    then show ?thesis using "1.prems" b7 by (intro exI [of _ 0]) (simp add: leading_ones.simps)
  qed
qed

lemma cidr_loop_ok: "cidr_loop m n = Some r \<Longrightarrow> \<exists>k\<le>32. r = n + of_nat k \<and> m = netmask k"
proof (induction m n rule: cidr_loop.induct)
  case (1 m n)
  define v where "v = (ucast (drop_bit 24 (0xff000000 AND m)) :: u8)"
  have vv: "v = ucast (drop_bit 24 m)" unfolding v_def octet_bits ..
  have vb: "bit v j \<longleftrightarrow> j < 8 \<and> bit m (24 + j)" for j unfolding vv by (auto simp: bit_simps)
  have mb: "bit m i \<longleftrightarrow> bit (push_bit 8 m) (i + 8)" if "i < 24" for i using that by (simp add: bit_simps)
  have eq: "m = netmask k" if "k \<le> 32" "\<And>i. i < 24 \<Longrightarrow> bit m i \<longleftrightarrow> 32 - k \<le> i" "\<And>j. j < 8 \<Longrightarrow> bit v j \<longleftrightarrow> 32 - k \<le> 24 + j" for k
  proof (rule bit_word_eqI)
    fix i assume "i < LENGTH(32)"
    then show "bit m i \<longleftrightarrow> bit (netmask k) i" using that vb [of "i - 24"] by (cases "i < 24") (auto simp: bit_netmask)
  qed
  consider "m = 0" | "0 < m" "v = 0xff" | "0 < m" "v \<noteq> 0xff" by (auto simp: word_gt_0)
  then show ?case
  proof cases
    case 1
    then show ?thesis using "1.prems" by (intro exI [of _ 0]) (simp add: cidr_loop.simps netmask_def)
  next
    case 2
    then have "cidr_loop (push_bit 8 m) (n + 8) = Some r" using "1.prems" by (subst (asm) cidr_loop.simps) (simp add: vv [symmetric] Let_def)
    then obtain k where k: "k \<le> 32" "r = n + 8 + of_nat k" "push_bit 8 m = netmask k"
      using "1.IH" [OF 2(1) _ refl, of v] 2(2) v_def by auto
    have "k \<le> 24"
    proof (rule ccontr)
      assume "\<not> k \<le> 24"
      then have "bit (push_bit 8 m) (32 - k)" using k(1) by (simp add: k(3) bit_netmask)
      then have "8 \<le> 32 - k" by (simp add: bit_simps)
      then show False using \<open>\<not> k \<le> 24\<close> by linarith
    qed
    moreover have "bit v j" if "j < 8" for j using that 2(2) by (auto simp: less_Suc_eq numeral_eq_Suc bit_numeral_rec)
    ultimately have "m = netmask (k + 8)" using mb k(1,3) by (intro eq) (auto simp: bit_netmask)
    then show ?thesis using k(2) \<open>k \<le> 24\<close> by (intro exI [of _ "k + 8"]) simp
  next
    case 3
    obtain v' n' where l: "leading_ones v n = (v', n')" by fastforce
    have r: "v' = 0" "push_bit 8 m = 0" "r = n'" using 3 "1.prems" l
      by (subst (asm) cidr_loop.simps; simp add: vv [symmetric] Let_def split: if_splits)+
    obtain k where k: "k \<le> 8" "n' = n + of_nat k" "\<forall>i<8. 8 - k \<le> i \<longrightarrow> bit v i" "v' = push_bit k v"
      using leading_ones_ok [OF l] by blast
    have "bit v j \<longleftrightarrow> 8 - k \<le> j" if "j < 8" for j
    proof -
      have "\<not> bit (push_bit k v) (j + k)" using r(1) k(4) by simp
      then have "j + k < 8 \<Longrightarrow> \<not> bit v j" by (simp add: bit_simps)
      moreover have "j + k < 8 \<longleftrightarrow> \<not> 8 - k \<le> j" by linarith
      ultimately show ?thesis using k(3) that by blast
    qed
    then have "m = netmask k" using mb r(2) k(1) by (intro eq) auto
    then show ?thesis using k(1,2) r(3) by (intro exI [of _ k]) simp
  qed
qed

lemma cidr_netmask: "k \<le> 32 \<Longrightarrow> mask_to_cidr4 (netmask k) = Some (of_nat k)"
proof -
  have "\<forall>k \<in> set [0..<33]. mask_to_cidr4 (netmask k) = Some (of_nat k)" by code_simp
  then show "k \<le> 32 \<Longrightarrow> ?thesis" by auto
qed

section \<open>Properties\<close>

lemma prefix_mask_eq: "0 < k \<Longrightarrow> k \<le> 32 \<Longrightarrow> prefix_mask (of_nat k) = Some (netmask k)" "prefix_mask 0 = None"
proof -
  assume k: "0 < k" "k \<le> 32"
  have "unat (of_nat k :: u64) = k" using k by (simp add: unat_of_nat)
  then have "(ucast (of_nat k :: u64) :: u32) = of_nat k" by (metis of_nat_unat)
  moreover have "unat (32 - of_nat k :: u32) = 32 - k"
  proof -
    have "unat (of_nat k :: u32) = k" using k by (simp add: unat_of_nat)
    then show ?thesis using k by (subst unat_sub) (simp_all add: word_le_nat_alt)
  qed
  ultimately show "prefix_mask (of_nat k) = Some (netmask k)" using k by (simp add: prefix_mask_def Let_def netmask_def word_less_nat_alt)
qed (simp add: prefix_mask_def)

lemma dotted_plain: "47 \<notin> set (dotted a)" "length (dotted a) \<le> 15"
proof -
  have "length (dec_string (quad_octet a i)) \<le> 3" for i using dec_string_length [of "quad_octet a i" 3] quad_octet_less [of a i] by simp
  then have "length (dec_string (quad_octet a 3)) \<le> 3" "length (dec_string (quad_octet a 2)) \<le> 3" "length (dec_string (quad_octet a 1)) \<le> 3"
    "length (dec_string (quad_octet a 0)) \<le> 3" by blast+
  then show "length (dotted a) \<le> 15" by (simp add: dotted_def)
qed (simp add: dotted_def dec_string_plain)

text \<open>
  C22: Addresses print and parse back: \<open>parse_ipv4\<close> inverts the dotted form that \<open>str_ipv4\<close> writes, never leaves its buffers on any string, and with a prefix length
  \<open>parse_ipv4_and_mask\<close> gives the address and the mask of that many ones, from which \<open>mask_to_cidr4\<close> recovers the length. Lengths above
  32 are refused; the length 0 shifts a 32-bit number by 32, which is undefined.
\<close>

theorem ip_roundtrip:
  "take (length (dotted a)) (str_ipv4 16 a) = dotted a \<and> parse_ipv4 (dotted a) = Some (Some a) \<and> (\<forall>s. parse_ipv4 s \<noteq> None) \<and>
   (\<forall>k < 2 ^ 64. parse_ipv4_and_mask (dotted a @ 47 # dec_string k) =
      (if k = 0 then None else if k \<le> 32 then Some (Some (a, netmask k)) else Some None)) \<and>
   (\<forall>k \<le> 32. mask_to_cidr4 (netmask k) = Some (of_nat k))"
proof (intro conjI allI impI)
  show "take (length (dotted a)) (str_ipv4 16 a) = dotted a" using dotted_plain(2) [of a] by (simp add: str_ipv4_def)
  show "parse_ipv4 (dotted a) = Some (Some a)" by (rule parse_dotted)
  show "mask_to_cidr4 (netmask k) = Some (of_nat k)" if "k \<le> 32" for k using that by (rule cidr_netmask)
  show "parse_ipv4 s \<noteq> None" for s by (rule parse_ipv4_safe)
  show "parse_ipv4_and_mask (dotted a @ 47 # dec_string k) = (if k = 0 then None else if k \<le> 32 then Some (Some (a, netmask k)) else Some None)"
    if k: "k < 2 ^ 64" for k
  proof -
    have n: "takeWhile (\<lambda>c. c \<noteq> 47) (dotted a @ 47 # dec_string k) = dotted a"
      using dotted_plain(1) [of a] by (subst takeWhile_tail) (auto simp: takeWhile_eq_all_conv)
    have "length (dec_string k) \<le> 20" using dec_string_length [of k 20] k by simp
    then obtain r ms where ms: "safe_strcpy (replicate 32 0) 32 (dec_string k) = Some (r, ms)" "c_str ms = Some (dec_string k)"
      using safe_strcpy_ok [OF dec_string_plain(3), of 32 "replicate 32 0" k] by auto
    have z: "32 < (of_nat k :: u64) \<longleftrightarrow> 32 < k" using k by (simp add: word_less_nat_alt unat_of_nat)
    show ?thesis using n ms z dotted_plain(2) [of a] prefix_mask_eq dec_string_plain(1) [of k] dec_string_nonempty [of k]
      by (simp add: parse_ipv4_and_mask_def parse_dotted dtoi_dec Let_def)
  qed
qed

theorem ip_roundtrip_witness:
  "parse_ipv4_and_mask (dotted 0xc0a80001 @ 47 # dec_string 24) = Some (Some (0xc0a80001, 0xffffff00))"
proof -
  have "netmask 24 = 0xffffff00" by (simp add: netmask_def)
  then show ?thesis using ip_roundtrip [of "0xc0a80001"] by auto
qed

text \<open>\<open>mask_to_cidr4\<close> accepts exactly the masks that are ones followed by zeroes, and returns the number of ones.\<close>

theorem mask_to_cidr4_iff: "mask_to_cidr4 m = Some r \<longleftrightarrow> (\<exists>k\<le>32. r = of_nat k \<and> m = netmask k)"
  using cidr_loop_ok [of m 0 r] cidr_netmask by (auto simp: mask_to_cidr4_def)

theorem mask_to_cidr4_iff_witness: "mask_to_cidr4 0xfffff000 = Some 20"
proof -
  have "20 = (of_nat 20 :: u32)" "0xfffff000 = netmask 20" by (simp_all add: netmask_def)
  then show ?thesis using mask_to_cidr4_iff [of "0xfffff000" 20] by (auto intro!: exI [of _ "20 :: nat"])
qed

end
