(* ===== verification/Strtosize.thy ===== *)
theory Strtosize
  imports Parse_Ip
begin

text \<open>
  Numbers with a size suffix: \<open>src/strtosize.c\<close>. A string is its bytes without the terminator, and a pointer into it the bytes from there on (\<open>[]\<close> points at
  the terminator). \<open>strtou64\<close> returns its result and what it stores in \<open>*endptr\<close> (\<open>None\<close> where it stores nothing).
\<close>

definition isupper8 :: "u8 \<Rightarrow> bool" where
  "isupper8 c \<longleftrightarrow> 65 \<le> c \<and> c \<le> 90"

definition isalpha8 :: "u8 \<Rightarrow> bool" where
  "isalpha8 c \<longleftrightarrow> isupper8 c \<or> 97 \<le> c \<and> c \<le> 122"

definition digit_value :: "u8 \<Rightarrow> u64 option" where
  "digit_value c =
    (if isdigit8 c then Some (ucast (c - 48))
     else if isalpha8 c then Some (ucast (if isupper8 c then c - 55 else c - 87))
     else None)"

fun u64_loop :: "u64 \<Rightarrow> u64 \<Rightarrow> u8 list \<Rightarrow> u64 res \<times> u8 list" where
  "u64_loop mult val [] = (Inr val, [])"
| "u64_loop mult val (ch # s) =
    (let cutoff = - 1 div mult; cutchar = - 1 mod mult in
     case digit_value ch of
       None \<Rightarrow> (Inl EINVAL, ch # s)
     | Some c \<Rightarrow>
         if mult \<le> c then (Inr val, ch # s)
         else if cutoff < val \<or> val = cutoff \<and> cutchar < c then (Inl ERANGE, ch # s)
         else u64_loop mult (val * mult + c) s)"

text \<open>The part behind the sign.\<close>

definition number_at :: "int \<Rightarrow> bool \<Rightarrow> u8 list \<Rightarrow> u64 res \<times> u8 list option" where
  "number_at base neg s =
    (let hex = ((base = 0 \<or> base = 16) \<and> take 1 s = [48] \<and> take 1 (drop 1 s) \<in> {[120], [88]});
         mult = (if hex then 16 else if base = 0 then (if take 1 s = [48] then 8 else 10) else of_int base);
         (r, end) = u64_loop mult 0 (if hex then drop 2 s else s)
     in (map_sum id (\<lambda>val. if neg then - val else val) r, Some end))"

definition strtou64 :: "u8 list \<Rightarrow> int \<Rightarrow> u64 res \<times> u8 list option" where
  "strtou64 str base =
    (if base < 0 \<or> 36 < base \<or> base = 1 then (Inl EINVAL, None)
     else case dropWhile isspace8 str of
       [] \<Rightarrow> (Inr 0, Some [])
     | c # s \<Rightarrow> number_at base (c = 45) (if c = 45 \<or> c = 43 then s else c # s))"

definition suffix_mult :: "u8 \<Rightarrow> u64 option" where
  "suffix_mult c =
    (if c = 32 then Some 1
     else if c = 107 \<or> c = 75 then Some (2 ^ 10)
     else if c = 77 then Some (2 ^ 20)
     else if c = 71 then Some (2 ^ 30)
     else if c = 84 then Some (2 ^ 40)
     else if c = 80 then Some (2 ^ 50)
     else if c = 69 then Some (2 ^ 60)
     else None)"

definition strtosize :: "u8 list \<Rightarrow> int \<Rightarrow> u64 res" where
  "strtosize str base =
    (case strtou64 str base of
       (Inl e, endptr) \<Rightarrow> Inl e
     | (Inr v, endptr) \<Rightarrow>
         (let mult =
            (case endptr of
               Some (c # rest) \<Rightarrow>
                 (case suffix_mult c of
                    None \<Rightarrow> None
                  | Some mult \<Rightarrow>
                      (case rest of
                         [] \<Rightarrow> Some mult
                       | d # _ \<Rightarrow> if d = 66 then Some mult else if d = 98 then Some (mult div 8)
                                 else if isspace8 d then Some mult else None))
             | _ \<Rightarrow> Some 1)
          in case mult of
               None \<Rightarrow> Inl EINVAL
             | Some mult \<Rightarrow>
                 let res = v * mult in
                 if 0 < v \<and> (res < v \<or> res < mult) then Inl ERANGE else Inr res))"

section \<open>Values of digit strings\<close>

fun value_of :: "nat \<Rightarrow> nat \<Rightarrow> u8 list \<Rightarrow> nat" where
  "value_of b v [] = v"
| "value_of b v (ch # s) = value_of b (v * b + (case digit_value ch of Some c \<Rightarrow> unat c | None \<Rightarrow> 0)) s"

definition digit_of_base :: "nat \<Rightarrow> u8 \<Rightarrow> bool" where
  "digit_of_base b ch \<longleftrightarrow> (\<exists>c. digit_value ch = Some c \<and> unat c < b)"

lemma value_of_mono: "0 < b \<Longrightarrow> v \<le> value_of b v s"
proof (induction s arbitrary: v)
  case (Cons ch s)
  have "v \<le> v * b + (case digit_value ch of Some c \<Rightarrow> unat c | None \<Rightarrow> 0)" using Cons.prems by (simp add: trans_le_add1)
  then show ?case unfolding value_of.simps using Cons.IH [OF Cons.prems] by (rule order_trans)
qed simp

text \<open>The cutoff test of the loop is exactly that the next value does not fit in 64 bits.\<close>

lemma cutoff_exact:
  fixes v b d M :: nat
  assumes "d < b"
  shows "(M div b < v \<or> v = M div b \<and> M mod b < d) \<longleftrightarrow> M < v * b + d"
proof -
  define q r where "q = M div b" and "r = M mod b"
  have M: "M = q * b + r" "r < b" using assms by (simp_all add: q_def r_def)
  have "(q < v \<or> v = q \<and> r < d) \<longleftrightarrow> q * b + r < v * b + d"
  proof (cases v q rule: linorder_cases)
    case less
    then have "Suc v * b \<le> q * b" by (intro mult_le_mono1) simp
    then show ?thesis using less assms by simp
  next
    case greater
    then have "Suc q * b \<le> v * b" by (intro mult_le_mono1) simp
    then show ?thesis using greater M(2) by simp
  qed simp
  then show ?thesis by (simp only: q_def [symmetric] r_def [symmetric] M(1) [symmetric])
qed

lemma u64_loop_digits:
  assumes "\<forall>ch \<in> set s. digit_of_base (unat mult) ch" "s' = [] \<or> (\<exists>c. digit_value (hd s') = Some c \<and> mult \<le> c)"
  shows "fst (u64_loop mult val (s @ s')) = (if value_of (unat mult) (unat val) s < 2 ^ 64 then Inr (of_nat (value_of (unat mult) (unat val) s)) else Inl ERANGE) \<and>
    (value_of (unat mult) (unat val) s < 2 ^ 64 \<longrightarrow> snd (u64_loop mult val (s @ s')) = s')"
  using assms(1)
proof (induction s arbitrary: val)
  case Nil
  show ?case using assms(2) unat_u64_less [of val] by (cases s') auto
next
  case (Cons ch s)
  obtain c where c: "digit_value ch = Some c" "unat c < unat mult" using Cons.prems by (auto simp: digit_of_base_def)
  have m: "unat (-1 div mult) = (2 ^ 64 - 1) div unat mult" "unat (-1 mod mult) = (2 ^ 64 - 1) mod unat mult" 
    by (simp_all add: unat_div unat_mod unsigned_minus_1_eq_mask mask_eq_exp_minus_1)
  have cut: "(-1 div mult < val \<or> val = -1 div mult \<and> -1 mod mult < c) \<longleftrightarrow> 2 ^ 64 - 1 < unat val * unat mult + unat c"
    using cutoff_exact [OF c(2), of "2 ^ 64 - 1" "unat val"] by (simp only: word_less_nat_alt m word_unat_eq_iff)
  let ?v = "unat val * unat mult + unat c"
  have "\<not> mult \<le> c" using c(2) by (simp add: word_le_nat_alt)
  then have step: "u64_loop mult val ((ch # s) @ s') = (if 2 ^ 64 - 1 < ?v then (Inl ERANGE, ch # s @ s') else u64_loop mult (val * mult + c) (s @ s'))"
    by (simp only: append_Cons u64_loop.simps Let_def c(1) option.case cut if_False)
  have v: "value_of (unat mult) (unat val) (ch # s) = value_of (unat mult) ?v s" by (simp add: c(1))
  show ?case
  proof (cases "?v < 2 ^ 64")
    case True
    have "unat (val * mult + c) = ?v" using True by (simp add: unat_word_ariths)
    moreover have "\<not> 2 ^ 64 - 1 < ?v" using True by linarith
    ultimately show ?thesis using Cons.IH [of "val * mult + c"] Cons.prems unfolding step v by (simp only: if_False) simp
  next
    case False
    have "\<not> value_of (unat mult) ?v s < 2 ^ 64" using value_of_mono [of "unat mult" ?v s] False c(2) by linarith
    moreover have "2 ^ 64 - 1 < ?v" using False by simp
    ultimately show ?thesis unfolding step v by simp
  qed
qed

section \<open>Properties\<close>

lemma digit_plain: "digit_of_base b ch \<Longrightarrow> \<not> isspace8 ch \<and> ch \<noteq> 45 \<and> ch \<noteq> 43"
  by (auto simp: digit_of_base_def digit_value_def isdigit8_def isalpha8_def isupper8_def isspace8_def word_le_nat_alt split: if_splits)

lemma strtou64_digits:
  assumes "2 \<le> b" "b \<le> 36" "\<forall>ch \<in> set ws. isspace8 ch" "sg \<in> {[], [43], [45]}" "ds \<noteq> []" "\<forall>ch \<in> set ds. digit_of_base b ch"
    "s' = [] \<or> (\<exists>c. digit_value (hd s') = Some c \<and> b \<le> unat c)" "b = 16 \<longrightarrow> s' = []"
  shows "strtou64 (ws @ sg @ ds @ s') (int b) = (let (r, end) = u64_loop (of_nat b) 0 (ds @ s') in (map_sum id (\<lambda>v. if sg = [45] then - v else v) r, Some end))"
proof -
  obtain d ds' where ds: "ds = d # ds'" using assms(5) by (cases ds) auto
  have d: "\<not> isspace8 d" "d \<noteq> 45" "d \<noteq> 43" using digit_plain [of b d] assms(6) ds by auto
  have sp: "\<not> isspace8 43" "\<not> isspace8 45" by (simp_all add: isspace8_def)
  have dw: "dropWhile isspace8 (ws @ sg @ ds @ s') = sg @ ds @ s'" using assms(3,4) d(1) sp ds by (auto simp: dropWhile_append)
  have nohex: "\<not> (b = 16 \<and> take 1 (drop 1 (ds @ s')) \<in> {[120], [88]})"
  proof
    assume a: "b = 16 \<and> take 1 (drop 1 (ds @ s')) \<in> {[120], [88]}"
    then obtain e es where e: "ds' = e # es" "e \<in> {120, 88}" using assms(8) ds by (cases ds') auto
    moreover have "\<not> digit_of_base 16 120" "\<not> digit_of_base 16 88"
      by (simp_all add: digit_of_base_def digit_value_def isdigit8_def isalpha8_def isupper8_def)
    ultimately show False using assms(6) a ds by auto
  qed
  have hexf: "((int b = 0 \<or> int b = 16) \<and> take 1 (ds @ s') = [48] \<and> take 1 (drop 1 (ds @ s')) \<in> {[120], [88]}) = False"
    using nohex assms(1) by auto
  have n: "number_at (int b) neg (ds @ s') = (let (r, end) = u64_loop (of_nat b) 0 (ds @ s') in (map_sum id (\<lambda>v. if neg then - v else v) r, Some end))" for neg
    unfolding number_at_def hexf Let_def using assms(1) by simp
  have "strtou64 (ws @ sg @ ds @ s') (int b) = number_at (int b) (sg = [45]) (ds @ s')"
    using assms(1,2,4) dw d ds by (auto simp: strtou64_def)
  then show ?thesis unfolding n .
qed

text \<open>
  C40: \<open>strtou64\<close> reads a number of digits in any base from 2 to 36, after white space and a sign, to exactly its value when that fits in 64 bits, and returns
  \<open>-ERANGE\<close> when it does not: the precomputed cutoff is neither too early nor too late.
\<close>

theorem strtou64_exact:
  assumes "2 \<le> b" "b \<le> 36" "\<forall>ch \<in> set ws. isspace8 ch" "sg \<in> {[], [43], [45]}" "ds \<noteq> []" "\<forall>ch \<in> set ds. digit_of_base b ch"
  shows "fst (strtou64 (ws @ sg @ ds) (int b)) =
    (if value_of b 0 ds < 2 ^ 64 then Inr (if sg = [45] then - of_nat (value_of b 0 ds) else of_nat (value_of b 0 ds)) else Inl ERANGE)"
proof -
  have u: "unat (of_nat b :: u64) = b" using assms(2) by (simp add: unat_of_nat)
  show ?thesis using strtou64_digits [OF assms, of "[]"] u64_loop_digits [of ds "of_nat b" "[]" 0] assms(6) u by (simp add: split_beta)
qed

theorem strtou64_exact_witness: "fst (strtou64 [32, 45, 50, 53] 10) = Inr (-25)"
proof -
  have v: "value_of 10 0 [50, 53] = 25" by (simp add: digit_value_def isdigit8_def)
  have d: "\<forall>ch \<in> set [50, 53]. digit_of_base 10 ch" by (simp add: digit_of_base_def digit_value_def isdigit8_def)
  from strtou64_exact [of 10 "[32]" "[45]" "[50, 53]", OF _ _ _ _ _ d] show ?thesis unfolding v by (simp add: isspace8_def)
qed

lemma value_of_append: "value_of b v (s @ s') = value_of b (value_of b v s) s'"
  by (induction s arbitrary: v) simp_all

lemma digit_value_dec: "d < 10 \<Longrightarrow> digit_value (48 + of_nat d) = Some (of_nat d)"
  using digit_byte [of d] by (simp add: digit_value_def)

lemma value_of_dec: "value_of 10 0 (dec_string n) = n"
proof (induction n rule: dec_string.induct)
  case (1 n)
  have u: "unat (of_nat d :: u64) = d" if "d < 10" for d using that by (simp add: unat_of_nat)
  show ?case
  proof (cases "n < 10")
    case True
    then show ?thesis by (subst dec_string.simps) (simp add: digit_value_dec u)
  next
    case False
    then show ?thesis using 1 by (subst dec_string.simps) (simp add: value_of_append digit_value_dec u)
  qed
qed

lemma dec_string_base: "\<forall>ch \<in> set (dec_string n). digit_of_base 10 ch"
proof
  fix ch assume "ch \<in> set (dec_string n)"
  then have c: "isdigit8 ch" using dec_string_digits by blast
  then have "unat (ch - 48) = unat ch - 48" "unat ch \<le> 57" using unat_sub [of 48 ch] by (simp_all add: isdigit8_def word_le_nat_alt)
  then have "unat (ch - 48) < 10" by linarith
  then show "digit_of_base 10 ch" using c by (simp add: digit_of_base_def digit_value_def unsigned_ucast_eq take_bit_nat_eq_self)
qed

lemma strtou64_dec:
  assumes "s' = [] \<or> (\<exists>c. digit_value (hd s') = Some c \<and> 10 \<le> unat c)" "n < 2 ^ 64"
  shows "strtou64 (dec_string n @ s') 10 = (Inr (of_nat n), Some s')"
proof -
  have h: "s' = [] \<or> (\<exists>c. digit_value (hd s') = Some c \<and> (10 :: u64) \<le> c)" using assms(1) by (auto simp: word_le_nat_alt)
  have "u64_loop 10 0 (dec_string n @ s') = (Inr (of_nat n), s')"
    using u64_loop_digits [of "dec_string n" 10 s' 0] h assms(2) dec_string_base [of n] by (simp add: value_of_dec prod_eq_iff)
  then show ?thesis using strtou64_digits [of 10 "[]" "[]" "dec_string n" s'] assms(1) dec_string_base [of n] dec_string_nonempty [of n] by (simp add: map_sum.identity)
qed

lemma suffix_breaks: "suffix_mult c = Some m \<Longrightarrow> c \<noteq> 32 \<Longrightarrow> \<exists>d. digit_value c = Some d \<and> 10 \<le> unat d"
  by (auto simp: suffix_mult_def digit_value_def isdigit8_def isalpha8_def isupper8_def split: if_splits)

text \<open>
  \<open>strtosize\<close> multiplies the number by its suffix exactly whenever the product fits in 64 bits. Its overflow test is not exact: some products that
  do not fit are returned modulo \<open>2^64\<close>.
\<close>

theorem strtosize_exact:
  assumes "n < 2 ^ 64" "suffix_mult c = Some m" "c \<noteq> 32"
  shows "strtosize (dec_string n) 10 = Inr (of_nat n) \<and>
    (n * unat m < 2 ^ 64 \<longrightarrow> strtosize (dec_string n @ [c]) 10 = Inr (of_nat (n * unat m))) \<and>
    strtosize (dec_string (2 ^ 54 + 2 ^ 45) @ [75]) 10 = Inr (2 ^ 55)"
proof (intro conjI impI)
  show "strtosize (dec_string n) 10 = Inr (of_nat n)"
    using strtou64_dec [of "[]" n] assms(1) by (simp add: strtosize_def Let_def) (auto simp: word_less_nat_alt)
  have sz: "strtosize (dec_string k @ [c']) 10 =
      (if 0 < (of_nat k :: u64) \<and> (of_nat k * m' < of_nat k \<or> of_nat k * m' < m') then Inl ERANGE else Inr (of_nat k * m'))"
    if "k < 2 ^ 64" "suffix_mult c' = Some m'" "c' \<noteq> 32" for k c' m'
    using strtou64_dec [of "[c']" k] suffix_breaks [OF that(2,3)] that(1,2) by (simp add: strtosize_def Let_def)
  show "strtosize (dec_string n @ [c]) 10 = Inr (of_nat (n * unat m))" if p: "n * unat m < 2 ^ 64"
  proof -
    have n: "unat (of_nat n :: u64) = n" using assms(1) by (simp add: unat_of_nat)
    have "0 < m" using assms(2) by (auto simp: suffix_mult_def split: if_splits)
    then have m: "0 < unat m" by (simp add: word_less_nat_alt)
    have r: "unat (of_nat n * m :: u64) = n * unat m" using p n by (simp add: unat_word_ariths)
    have "\<not> (0 < (of_nat n :: u64) \<and> (of_nat n * m < of_nat n \<or> of_nat n * m < m))"
      using m r n by (auto simp: word_less_nat_alt)
    moreover have "of_nat n * m = (of_nat (n * unat m) :: u64)" using r by (metis of_nat_unat ucast_id)
    ultimately show ?thesis unfolding sz [OF assms] by (simp only: if_False)
  qed
  show "strtosize (dec_string (2 ^ 54 + 2 ^ 45) @ [75]) 10 = Inr (2 ^ 55)"
    using sz [of "2 ^ 54 + 2 ^ 45" 75 "2 ^ 10"] by (simp add: suffix_mult_def)
qed

theorem strtosize_exact_witness: "strtosize (dec_string 3 @ [77]) 10 = Inr 3145728"
  using strtosize_exact [of 3 77 "2 ^ 20"] by (simp add: suffix_mult_def)

end
