(* ===== verification/Idents.thy ===== *)
theory Idents
  imports Encdec
begin

text \<open>
  Identifiers as text: hexadecimal strings (\<open>src/str2hex.c\<close>), UUIDs (\<open>src/uuid2str.c\<close>) and ULIDs (\<open>src/ulid.c\<close>). Strings are byte lists without their
  terminator; output goes through a \<open>cursor\<close> of \<open>Encdec\<close>. The clock and the entropy of \<open>ulid_generate\<close> are arguments.
\<close>

section \<open>Hexadecimal strings\<close>

definition nybble :: "u8 \<Rightarrow> u8 option" where
  "nybble c =
    (if 48 \<le> c \<and> c \<le> 57 then Some (c - 48)
     else if 97 \<le> c \<and> c \<le> 102 then Some (c - 97 + 10)
     else if 65 \<le> c \<and> c \<le> 70 then Some (c - 65 + 10)
     else None)"

fun hex_loop :: "u8 list \<Rightarrow> u8 \<Rightarrow> nat \<Rightarrow> cursor \<Rightarrow> (unit res \<times> cursor) option" where
  "hex_loop [] byte shift out = (if shift \<noteq> 4 then map_option (Pair (Inr ())) (put_byte byte out) else Some (Inr (), out))"
| "hex_loop (c # str) byte shift out =
    (case nybble c of
       None \<Rightarrow> Some (Inl EINVAL, out)
     | Some v \<Rightarrow>
         let byte = byte OR push_bit shift v in
         if shift = 0 then do { out \<leftarrow> put_byte byte out; hex_loop str 0 4 out }
         else hex_loop str byte (shift - 4) out)"

definition str2hex :: "u8 list \<Rightarrow> nat \<Rightarrow> u8 list \<Rightarrow> (nat res \<times> u8 list) option" where
  "str2hex out outlen str =
    (if outlen < (length str + 1) div 2 then Some (Inl ENOMEM, out)
     else do { (r, c) \<leftarrow> hex_loop str 0 4 \<lparr>cu_mem = out, cu_pos = 0\<rparr>;
               Some (map_sum id (\<lambda>_. cu_pos c) r, cu_mem c) })"

section \<open>UUIDs\<close>

definition hex :: "u8 list" where
  "hex = map of_nat ([48..<58] @ [65..<71])"

fun uuid_chunk :: "u8 list \<Rightarrow> cursor \<Rightarrow> cursor option" where
  "uuid_chunk [] s = Some s"
| "uuid_chunk (z # b) s =
    do { h \<leftarrow> get_at hex (unat (0xf AND drop_bit 4 z)); s \<leftarrow> put_byte h s;
         l \<leftarrow> get_at hex (unat (0xf AND z)); s \<leftarrow> put_byte l s;
         uuid_chunk b s }"

text \<open>\<open>chunk\<close> reads its bytes from the array of the UUID; \<open>uuid_at\<close> faults when they are not there.\<close>

definition uuid_at :: "u8 list \<Rightarrow> nat \<Rightarrow> nat \<Rightarrow> cursor \<Rightarrow> cursor option" where
  "uuid_at uuid i n s = (if i + n \<le> length uuid then uuid_chunk (take n (drop i uuid)) s else None)"

definition uuid2str :: "u8 list \<Rightarrow> nat \<Rightarrow> u8 list \<Rightarrow> (nat res \<times> u8 list) option" where
  "uuid2str out outsz uuid =
    (if outsz < 37 then Some (Inl ENOSPC, out)
     else do {
       p \<leftarrow> uuid_at uuid 0 4 \<lparr>cu_mem = out, cu_pos = 0\<rparr>;
       p \<leftarrow> put_byte 45 p;
       p \<leftarrow> uuid_at uuid 4 2 p;
       p \<leftarrow> put_byte 45 p;
       p \<leftarrow> uuid_at uuid 6 2 p;
       p \<leftarrow> put_byte 45 p;
       p \<leftarrow> uuid_at uuid 8 2 p;
       p \<leftarrow> put_byte 45 p;
       p \<leftarrow> uuid_at uuid 10 6 p;
       p \<leftarrow> put_byte 0 p;
       Some (Inr (cu_pos p), cu_mem p) })"

section \<open>ULIDs\<close>

text \<open>\<open>0xff && x\<close> is a logical operator: 1 if \<open>x\<close> is not zero.\<close>

definition andand :: "u64 \<Rightarrow> u8" where
  "andand x = (if x \<noteq> 0 then 1 else 0)"

definition ulid_generate :: "u8 list \<Rightarrow> nat \<Rightarrow> (u64 \<times> u64) option \<Rightarrow> errno \<Rightarrow> u8 list \<Rightarrow> (nat res \<times> u8 list) option" where
  "ulid_generate buf bsiz tv err entropy =
    (if bsiz < 16 then Some (Inl ENOSPC, buf)
     else case tv of
       None \<Rightarrow> Some (Inl err, buf)
     | Some (sec, usec) \<Rightarrow>
         let ms = sec * 1000 + usec div 1000;
             ms = ms AND NOT (push_bit 48 0xffff)
         in do { c \<leftarrow> put_bytes [andand (drop_bit 40 ms), andand (drop_bit 32 ms), andand (drop_bit 24 ms),
                                andand (drop_bit 16 ms), andand (drop_bit 8 ms), andand ms] \<lparr>cu_mem = buf, cu_pos = 0\<rparr>;
                 c \<leftarrow> put_bytes (take 10 entropy) c;
                 Some (Inr 16, cu_mem c) })"

definition Ulid_decoder :: "u8 list" where
  "Ulid_decoder =
    (let letters = [0x0A, 0x0B, 0x0C, 0x0D, 0x0E, 0x0F, 0x10, 0x11, 0xFF, 0x12, 0x13, 0xFF, 0x14, 0x15, 0xFF,
                    0x16, 0x17, 0x18, 0x19, 0x1A, 0xFF, 0x1B, 0x1C, 0x1D, 0x1E, 0x1F]
     in replicate 48 0xFF @ [0, 1, 2, 3, 4, 5, 6, 7, 8, 9] @ replicate 7 0xFF @ letters @ replicate 6 0xFF @ letters @ replicate 133 0xFF)"

text \<open>The unrolled decoder: for every byte, the characters it looks at, in order, and how it combines their values.\<close>

definition ulid_layout :: "(nat list \<times> ((nat \<Rightarrow> u8) \<Rightarrow> u8)) list" where
  "ulid_layout =
    [([0, 1], \<lambda>v. push_bit 5 (v 0) OR v 1),
     ([2, 3], \<lambda>v. push_bit 3 (v 2) OR drop_bit 2 (v 3)),
     ([3, 4, 5], \<lambda>v. push_bit 6 (v 3) OR push_bit 1 (v 4) OR drop_bit 4 (v 5)),
     ([5, 6], \<lambda>v. push_bit 4 (v 5) OR drop_bit 1 (v 6)),
     ([6, 7, 8], \<lambda>v. push_bit 7 (v 6) OR push_bit 2 (v 7) OR drop_bit 3 (v 8)),
     ([8, 9], \<lambda>v. push_bit 5 (v 8) OR v 9),
     ([10, 11], \<lambda>v. push_bit 3 (v 10) OR drop_bit 2 (v 11)),
     ([11, 12, 13], \<lambda>v. push_bit 6 (v 11) OR push_bit 1 (v 12) OR drop_bit 4 (v 13)),
     ([13, 14], \<lambda>v. push_bit 4 (v 13) OR drop_bit 1 (v 14)),
     ([14, 15, 16], \<lambda>v. push_bit 7 (v 14) OR push_bit 2 (v 15) OR drop_bit 3 (v 16)),
     ([16, 17], \<lambda>v. push_bit 5 (v 16) OR v 17),
     ([18, 19], \<lambda>v. push_bit 3 (v 18) OR drop_bit 2 (v 19)),
     ([19, 20, 21], \<lambda>v. push_bit 6 (v 19) OR push_bit 1 (v 20) OR drop_bit 4 (v 21)),
     ([21, 22], \<lambda>v. push_bit 4 (v 21) OR drop_bit 1 (v 22)),
     ([22, 23, 24], \<lambda>v. push_bit 7 (v 22) OR push_bit 2 (v 23) OR drop_bit 3 (v 24)),
     ([24, 25], \<lambda>v. push_bit 5 (v 24) OR v 25)]"

definition ulid_value :: "u8 list \<Rightarrow> nat \<Rightarrow> u8" where
  "ulid_value str i = Ulid_decoder ! unat (str ! i)"

fun ulid_decode :: "u8 list \<Rightarrow> (nat list \<times> ((nat \<Rightarrow> u8) \<Rightarrow> u8)) list \<Rightarrow> cursor \<Rightarrow> (unit res \<times> cursor) option" where
  "ulid_decode str [] c = Some (Inr (), c)"
| "ulid_decode str ((is, f) # ls) c =
    (if \<exists>i \<in> set is. ulid_value str i = 0xff then Some (Inl EINVAL, c)
     else do { c \<leftarrow> put_byte (f (ulid_value str)) c; ulid_decode str ls c })"

definition ulid_fromstring :: "u8 list \<Rightarrow> nat \<Rightarrow> u8 list \<Rightarrow> (nat res \<times> u8 list) option" where
  "ulid_fromstring buf bsiz str =
    (if bsiz < 16 then Some (Inl ENOSPC, buf)
     else if length str \<noteq> 26 then Some (Inl EINVAL, buf)
     else do { (r, c) \<leftarrow> ulid_decode str ulid_layout \<lparr>cu_mem = buf, cu_pos = 0\<rparr>;
               Some (map_sum id (\<lambda>_. 16) r, cu_mem c) })"

definition b32 :: "u8 list" where
  "b32 = map of_nat ([48..<58] @ [65..<73] @ [74, 75, 77, 78] @ [80..<85] @ [86..<91])"

text \<open>The 26 indices into \<open>b32\<close>, from the bytes of the identifier.\<close>

definition ulid_indices :: "(nat \<Rightarrow> u8) \<Rightarrow> u8 list" where
  "ulid_indices u =
    [drop_bit 5 (u 0 AND 224), u 0 AND 31, drop_bit 3 (u 1 AND 248), push_bit 2 (u 1 AND 7) OR drop_bit 6 (u 2 AND 192),
     drop_bit 1 (u 2 AND 62), push_bit 4 (u 3 AND 1) OR drop_bit 4 (u 3 AND 240), push_bit 1 (u 3 AND 15) OR drop_bit 7 (u 4 AND 128),
     drop_bit 2 (u 4 AND 124), push_bit 3 (u 4 AND 3) OR drop_bit 5 (u 5 AND 224), u 5 AND 31,
     drop_bit 3 (u 6 AND 248), push_bit 2 (u 6 AND 7) OR drop_bit 6 (u 7 AND 192), drop_bit 1 (u 7 AND 62),
     push_bit 4 (u 7 AND 1) OR drop_bit 4 (u 8 AND 240), push_bit 1 (u 8 AND 15) OR drop_bit 7 (u 9 AND 128), drop_bit 2 (u 9 AND 124),
     push_bit 3 (u 9 AND 3) OR drop_bit 5 (u 10 AND 224), u 10 AND 31,
     drop_bit 3 (u 11 AND 248), push_bit 2 (u 11 AND 7) OR drop_bit 6 (u 12 AND 192), drop_bit 1 (u 12 AND 62),
     push_bit 4 (u 12 AND 1) OR drop_bit 4 (u 13 AND 240), push_bit 1 (u 13 AND 15) OR drop_bit 7 (u 14 AND 128), drop_bit 2 (u 14 AND 124),
     push_bit 3 (u 14 AND 3) OR drop_bit 5 (u 15 AND 224), u 15 AND 31]"

fun put_b32 :: "u8 list \<Rightarrow> cursor \<Rightarrow> cursor option" where
  "put_b32 [] p = Some p"
| "put_b32 (i # is) p = do { ch \<leftarrow> get_at b32 (unat i); p \<leftarrow> put_byte ch p; put_b32 is p }"

definition ulid_tostring :: "u8 list \<Rightarrow> nat \<Rightarrow> u8 list \<Rightarrow> (nat res \<times> u8 list) option" where
  "ulid_tostring s bsiz u =
    (if bsiz < 27 then Some (Inl ENOSPC, s)
     else if length u < 16 then None
     else do { p \<leftarrow> put_b32 (ulid_indices ((!) u)) \<lparr>cu_mem = s, cu_pos = 0\<rparr>;
               m \<leftarrow> put_at (cu_mem p) (cu_pos p) 0;
               Some (Inr (cu_pos p), m) })"

section \<open>Hexadecimal digits\<close>

definition hexpair :: "u8 \<Rightarrow> u8 list" where
  "hexpair z = [hex ! unat (0xf AND drop_bit 4 z), hex ! unat (0xf AND z)]"

lemma low4: "unat (0xf AND z) < 16" for z :: u8
  using word_and_le2 [of "0xf" z] by (simp add: word_le_nat_alt and.commute)

lemma nybble_hex: "n < 16 \<Longrightarrow> nybble (hex ! n) = Some (of_nat n)"
proof -
  have "map nybble hex = map (Some \<circ> of_nat) [0..<16]" by code_simp
  then have "map nybble hex ! n = map (Some \<circ> of_nat) [0..<16] ! n" by (simp only:)
  moreover have "length hex = 16" by (simp add: hex_def)
  ultimately show "n < 16 \<Longrightarrow> ?thesis" by simp
qed

lemma uuid_chunk_bytes: "uuid_chunk b c = put_bytes (concat (map hexpair b)) c"
proof (induction b arbitrary: c)
  case (Cons z b)
  have "length hex = 16" by (simp add: hex_def)
  then show ?case using Cons low4 [of z] low4 [of "drop_bit 4 z"] by (auto simp: hexpair_def mem_simps intro!: bind_ext)
qed simp

lemma hex_loop_pair: "hex_loop (hexpair z @ s) 0 4 c = do { c \<leftarrow> put_byte z c; hex_loop s 0 4 c }"
proof -
  have v: "(of_nat (unat (0xf AND drop_bit 4 z)) :: u8) = 0xf AND drop_bit 4 z" "(of_nat (unat (0xf AND z)) :: u8) = 0xf AND z" by (metis of_nat_unat ucast_id)+
  have "(0 OR push_bit 4 (0xf AND drop_bit 4 z)) OR push_bit 0 (0xf AND z) = z"
    by (rule u8_eqI; simp add: bit_simps bit_numeral_rec)
  then show ?thesis unfolding hexpair_def by (simp only: append.simps hex_loop.simps nybble_hex [OF low4] v option.case Let_def) simp
qed

lemma hex_loop_bytes: "hex_loop (concat (map hexpair b)) 0 4 c = map_option (Pair (Inr ())) (put_bytes b c)"
proof (induction b arbitrary: c)
  case (Cons z b)
  then show ?case by (cases "put_byte z c") (simp_all add: hex_loop_pair)
qed simp

lemma hexpair_plain: "45 \<notin> set (hexpair z)"
proof -
  have "45 \<notin> set hex" "length hex = 16" by code_simp+
  then show ?thesis using low4 [of z] low4 [of "drop_bit 4 z"] nth_mem [of _ hex] by (metis empty_iff empty_set hexpair_def set_ConsD)
qed

lemma filter_hexpairs: "filter (\<lambda>c. c \<noteq> 45) (concat (map hexpair b)) = concat (map hexpair b)"
  using hexpair_plain by (auto simp: filter_id_conv)

section \<open>Properties\<close>

abbreviation hexes :: "u8 list \<Rightarrow> nat \<Rightarrow> nat \<Rightarrow> u8 list" where
  "hexes uuid i n \<equiv> concat (map hexpair (take n (drop i uuid)))"

definition uuid_text :: "u8 list \<Rightarrow> u8 list" where
  "uuid_text uuid = hexes uuid 0 4 @ 45 # hexes uuid 4 2 @ 45 # hexes uuid 6 2 @ 45 # hexes uuid 8 2 @ 45 # hexes uuid 10 6"

lemma length_hexes: "length (concat (map hexpair b)) = 2 * length b"
  by (induction b) (simp_all add: hexpair_def)

lemma uuid2str_bytes:
  assumes "length uuid = 16" "37 \<le> outsz"
  shows "uuid2str out outsz uuid = map_option (\<lambda>p. (Inr (cu_pos p), cu_mem p)) (put_bytes (uuid_text uuid @ [0]) \<lparr>cu_mem = out, cu_pos = 0\<rparr>)"
proof -
  have m: "map_option f x = do { p \<leftarrow> x; Some (f p) }" for f :: "cursor \<Rightarrow> 'x" and x by (cases x) simp_all
  show ?thesis using assms
    by (simp add: uuid2str_def uuid_at_def uuid_chunk_bytes uuid_text_def put_bytes_append m)
qed

text \<open>
  UUIDs. \<open>uuid2str\<close> writes 36 characters, two hexadecimal digits a byte in the groups 4-2-2-2-6, and a terminator; \<open>str2hex\<close> reads the digits back.
\<close>

theorem uuid_roundtrip:
  assumes "length uuid = 16" "37 \<le> outsz" "outsz \<le> length out" "16 \<le> n" "n \<le> length buf"
  shows "\<exists>out'. uuid2str out outsz uuid = Some (Inr 37, out') \<and> take 36 out' = uuid_text uuid \<and> length (uuid_text uuid) = 36 \<and>
    str2hex buf n (filter (\<lambda>c. c \<noteq> 45) (take 36 out')) = Some (Inr 16, uuid @ drop 16 buf)"
proof -
  have l: "length (uuid_text uuid) = 36" using assms(1) by (simp add: uuid_text_def length_hexes)
  have u: "take 4 uuid @ take 2 (drop 4 uuid) @ take 2 (drop 6 uuid) @ take 2 (drop 8 uuid) @ take 6 (drop 10 uuid) = uuid"
    using take_add [of 4 2 uuid] take_add [of 6 2 uuid] take_add [of 8 2 uuid] take_add [of 10 6 uuid] assms(1) by simp
  have f: "filter (\<lambda>c. c \<noteq> 45) (uuid_text uuid) = concat (map hexpair uuid)"
    unfolding uuid_text_def using filter_hexpairs by (subst (6) u [symmetric]) simp
  have "put_bytes uuid \<lparr>cu_mem = buf, cu_pos = 0\<rparr> = Some \<lparr>cu_mem = uuid @ drop 16 buf, cu_pos = 16\<rparr>"
    using put_bytes_fits [of "\<lparr>cu_mem = buf, cu_pos = 0\<rparr>" uuid] assms by simp
  then have "str2hex buf n (concat (map hexpair uuid)) = Some (Inr 16, uuid @ drop 16 buf)"
    using assms by (simp add: str2hex_def hex_loop_bytes length_hexes)
  moreover have "put_bytes (uuid_text uuid @ [0]) \<lparr>cu_mem = out, cu_pos = 0\<rparr> = Some \<lparr>cu_mem = uuid_text uuid @ [0] @ drop 37 out, cu_pos = 37\<rparr>"
    using put_bytes_fits [of "\<lparr>cu_mem = out, cu_pos = 0\<rparr>" "uuid_text uuid @ [0]"] assms l by simp
  ultimately show ?thesis using uuid2str_bytes [OF assms(1,2), of out] l f by simp
qed

theorem uuid_roundtrip_witness: "\<exists>out'. uuid2str (replicate 40 0) 40 (replicate 16 0xab) = Some (Inr 37, out') \<and>
    str2hex (replicate 16 0) 16 (filter (\<lambda>c. c \<noteq> 45) (take 36 out')) = Some (Inr 16, replicate 16 0xab)"
  using uuid_roundtrip [of "replicate 16 0xab" 40 "replicate 40 0" 16 "replicate 16 0"] by auto

section \<open>ULIDs\<close>

lemma and31: "x AND 31 = x \<Longrightarrow> unat (x :: u8) < 32"
  using word_and_le1 [of x 31] by (simp add: word_le_nat_alt)

lemma u8_bit_double: "bit (a * 2) n \<longleftrightarrow> n < 8 \<and> 0 < n \<and> bit a (n - 1)" for a :: u8
proof -
  have "a * 2 = push_bit 1 a" by simp
  then show ?thesis by (simp only: bit_push_bit_iff) auto
qed

lemma ulid_indices_less: "\<forall>x \<in> set (ulid_indices u). unat x < 32"
proof -
  have "\<forall>x \<in> set (ulid_indices u). x AND 31 = x"
    unfolding ulid_indices_def list.set ball_simps
    by (intro conjI TrueI; rule u8_eqI; simp add: bit_simps bit_numeral_rec u8_no_bit u8_bit_double)
  then show ?thesis using and31 by blast
qed

definition ulid_chars :: "u8 list \<Rightarrow> u8 list" where
  "ulid_chars is = map (\<lambda>i. b32 ! unat i) is"

lemma length_b32: "length b32 = 32"
  by (simp add: b32_def)

lemma put_b32_chars: "\<forall>i \<in> set is. unat i < 32 \<Longrightarrow> put_b32 is c = put_bytes (ulid_chars is) c"
  by (induction "is" arbitrary: c) (auto simp: ulid_chars_def mem_simps length_b32 intro!: bind_ext)

lemma decoder_b32: "n < 32 \<Longrightarrow> Ulid_decoder ! unat (b32 ! n) = of_nat n"
proof -
  have "map (\<lambda>c. Ulid_decoder ! unat c) b32 = map of_nat [0..<32]" by code_simp
  then have "map (\<lambda>c. Ulid_decoder ! unat c) b32 ! n = map of_nat [0..<32] ! n" by (simp only:)
  then show "n < 32 \<Longrightarrow> ?thesis" by (simp add: length_b32)
qed

lemma ulid_value_chars: "j < length is \<Longrightarrow> unat (is ! j) < 32 \<Longrightarrow> ulid_value (ulid_chars is) j = is ! j"
  by (simp add: ulid_value_def ulid_chars_def decoder_b32)

lemma ulid_decode_ok:
  "\<forall>(is, f) \<in> set ls. \<forall>i \<in> set is. ulid_value str i \<noteq> 0xff \<Longrightarrow>
   ulid_decode str ls c = map_option (Pair (Inr ())) (put_bytes (map (\<lambda>(is, f). f (ulid_value str)) ls) c)"
proof (induction ls arbitrary: c)
  case (Cons l ls)
  obtain js f where "l = (js, f)" by (cases l) auto
  then show ?case using Cons by (cases "put_byte (f (ulid_value str)) c") auto
qed simp

lemma ulid_bytes:
  fixes u :: "nat \<Rightarrow> u8"
  assumes v: "\<And>j. j < 26 \<Longrightarrow> w j = ulid_indices u ! j"
  shows "map (\<lambda>(is, f). f w) ulid_layout =
    [u 0, u 1, (u 2 AND 0xfe) OR (u 3 AND 1), u 3, u 4, u 5, u 6, u 7, u 8, u 9, u 10, u 11, u 12, u 13, u 14, u 15]"
  unfolding ulid_layout_def
  by (simp add: v, simp add: ulid_indices_def, (intro conjI; (rule u8_eqI; simp add: bit_simps bit_numeral_rec u8_no_bit u8_bit_double)))
    (simp_all add: numeral_2_eq_2 numeral_3_eq_3)

text \<open>
  ULIDs. \<open>ulid_tostring\<close> writes 26 characters and a terminator, and \<open>ulid_fromstring\<close> reads them back, except that the lowest bit of the third byte is
  replaced by the lowest bit of the fourth: the round trip is the identity exactly when these bits agree.
\<close>

theorem ulid_roundtrip:
  assumes "length u = 16" "27 \<le> bsiz" "bsiz \<le> length s" "16 \<le> n" "n \<le> length buf"
  shows "\<exists>s'. ulid_tostring s bsiz u = Some (Inr 26, s') \<and> s' ! 26 = 0 \<and>
    ulid_fromstring buf n (take 26 s') = Some (Inr 16, u[2 := (u ! 2 AND 0xfe) OR (u ! 3 AND 1)] @ drop 16 buf) \<and>
    (u[2 := (u ! 2 AND 0xfe) OR (u ! 3 AND 1)] = u \<longleftrightarrow> bit (u ! 2) 0 = bit (u ! 3) 0)"
proof -
  let ?is = "ulid_indices ((!) u)" and ?v = "u[2 := (u ! 2 AND 0xfe) OR (u ! 3 AND 1)]"
  let ?t = "ulid_chars ?is"
  have li: "length ?is = 26" by (simp add: ulid_indices_def)
  then have l: "length ?t = 26" by (simp add: ulid_chars_def)
  have "put_b32 ?is \<lparr>cu_mem = s, cu_pos = 0\<rparr> = Some \<lparr>cu_mem = ?t @ drop 26 s, cu_pos = 26\<rparr>"
    using put_bytes_fits [of "\<lparr>cu_mem = s, cu_pos = 0\<rparr>" ?t] l assms put_b32_chars [OF ulid_indices_less [of "(!) u"]] by simp
  then have to: "ulid_tostring s bsiz u = Some (Inr 26, (?t @ drop 26 s)[26 := 0])"
    using assms l by (simp add: ulid_tostring_def mem_simps)
  have val: "ulid_value ?t j = ?is ! j" "unat (?is ! j) < 32" if "j < 26" for j
    using ulid_value_chars [of j ?is] ulid_indices_less [of "(!) u"] that li nth_mem [of j ?is] by auto
  have "ulid_value ?t i \<noteq> 0xff" if "i < 26" for i
  proof
    assume "ulid_value ?t i = 0xff"
    then have "unat (?is ! i) = unat (0xff :: u8)" using val(1) [OF that] by (simp only:)
    then show False using val(2) [OF that] by simp
  qed
  then have ok: "\<forall>(is, f) \<in> set ulid_layout. \<forall>i \<in> set is. ulid_value ?t i \<noteq> 0xff" by (simp add: ulid_layout_def)
  have "?v = [u ! 0, u ! 1, (u ! 2 AND 0xfe) OR (u ! 3 AND 1), u ! 3, u ! 4, u ! 5, u ! 6, u ! 7, u ! 8, u ! 9, u ! 10, u ! 11, u ! 12, u ! 13, u ! 14, u ! 15]"
    using assms(1) by (intro nth_equalityI) (auto simp: nth_list_update nth_Cons' less_Suc_eq numeral_eq_Suc)
  then have b: "map (\<lambda>(is, f). f (ulid_value ?t)) ulid_layout = ?v" using ulid_bytes [OF val(1)] by simp
  have "put_bytes ?v \<lparr>cu_mem = buf, cu_pos = 0\<rparr> = Some \<lparr>cu_mem = ?v @ drop 16 buf, cu_pos = 16\<rparr>"
    using put_bytes_fits [of "\<lparr>cu_mem = buf, cu_pos = 0\<rparr>" ?v] assms by simp
  then have fr: "ulid_fromstring buf n ?t = Some (Inr 16, ?v @ drop 16 buf)"
    using ulid_decode_ok [OF ok] assms(4) l by (simp add: ulid_fromstring_def b)
  have low: "bit ((u ! 2 AND 0xfe) OR (u ! 3 AND 1)) 0 \<longleftrightarrow> bit (u ! 3) 0" by (simp add: bit_simps bit_numeral_rec)
  have "(u ! 2 AND 0xfe) OR (u ! 3 AND 1) = u ! 2" if "bit (u ! 2) 0 = bit (u ! 3) 0"
    using that by (intro u8_eqI) (simp_all add: bit_simps bit_numeral_rec)
  moreover have "?v = u \<longleftrightarrow> (u ! 2 AND 0xfe) OR (u ! 3 AND 1) = u ! 2" using assms(1) by (simp add: list_update_same_conv) (rule eq_commute)
  ultimately have "?v = u \<longleftrightarrow> bit (u ! 2) 0 = bit (u ! 3) 0" using low by metis
  moreover have "(?t @ drop 26 s)[26 := 0] ! 26 = 0" "take 26 ((?t @ drop 26 s)[26 := 0]) = ?t" using assms l by simp_all
  ultimately show ?thesis using to fr by simp
qed

theorem ulid_roundtrip_witness: "\<exists>s'. ulid_tostring (replicate 27 9) 27 (replicate 16 0x5a) = Some (Inr 26, s') \<and>
    ulid_fromstring (replicate 16 0) 16 (take 26 s') = Some (Inr 16, replicate 16 0x5a)"
proof -
  let ?u = "replicate 16 (0x5a :: u8)"
  have "?u[2 := (?u ! 2 AND 0xfe) OR (?u ! 3 AND 1)] = ?u" by (simp add: list_update_same_conv)
  then show ?thesis using ulid_roundtrip [of ?u 27 "replicate 27 9" 16 "replicate 16 0"] by auto
qed

end
