(* ===== verification/Syncq.thy ===== *)
theory Syncq
  imports Prelude
begin

text \<open>
  The blocking queue of \<open>inc/fast/syncq.h\<close>: a circular array, two semaphores that count free and filled slots, and a mutex. Any
  number of threads run the two macros; one step of a thread is one semaphore or mutex operation or one access to the shared object,
  and the steps of different threads interleave freely. The control points of a macro are the constructors of \<open>spc\<close>, its local
  variables their arguments. A thread at a semaphore of value 0 or at a locked mutex is blocked.
\<close>

section \<open>The queue\<close>

record 'a syncq =
  sy_rd :: u32
  sy_wr :: u32
  sy_sz :: u32
  sy_lock :: "nat option"
  sy_notempty :: nat
  sy_notfull :: nat
  sy_e :: "'a list"

datatype 'a spc =
    S_idle
  | SE_wait 'a | SE_lock 'a | SE_take 'a | SE_wrap 'a u32 | SE_store 'a u32 | SE_unlock | SE_post
  | SD_wait | SD_lock | SD_take | SD_wrap u32 | SD_read u32 | SD_unlock 'a | SD_post 'a | SD_done 'a

text \<open>
  \<open>mutex\<close> is what \<open>pthread_mutex_init\<close> returns and \<open>err\<close> the value of \<open>errno\<close>, an error of the caller's choice if the mutex cannot be
  initialised. \<open>sem_init\<close> accepts a value that is an \<open>unsigned int\<close> and at most \<open>SEM_VALUE_MAX\<close>, the largest \<open>int\<close>.
\<close>

definition SEM_VALUE_MAX :: nat where
  "SEM_VALUE_MAX = 2147483647"

definition syncobj_init :: "int \<Rightarrow> errno \<Rightarrow> u64 \<Rightarrow> 'a syncq \<Rightarrow> unit res \<times> 'a syncq" where
  "syncobj_init mutex err n q =
    (if mutex \<noteq> 0 then (Inl err, q)
     else if SEM_VALUE_MAX < unat (ucast n :: u32) then (Inl EINVAL, q\<lparr>sy_lock := None, sy_notempty := 0\<rparr>)
     else (Inr (), q\<lparr>sy_lock := None, sy_notempty := 0, sy_notfull := unat (ucast n :: u32), sy_rd := 0, sy_wr := 0, sy_sz := ucast n\<rparr>))"

fun sy_blocked :: "'a spc \<Rightarrow> 'a syncq \<Rightarrow> bool" where
  "sy_blocked (SE_wait obj) q \<longleftrightarrow> sy_notfull q = 0"
| "sy_blocked (SE_lock obj) q \<longleftrightarrow> sy_lock q \<noteq> None"
| "sy_blocked SD_wait q \<longleftrightarrow> sy_notempty q = 0"
| "sy_blocked SD_lock q \<longleftrightarrow> sy_lock q \<noteq> None"
| "sy_blocked p q \<longleftrightarrow> False"

text \<open>
  One step of thread \<open>me\<close>, if it is not blocked. The calls of the semaphores and the mutex succeed: the code ignores their results, so a
  \<open>sem_wait\<close> that a signal interrupts, which would let the thread go on without a slot, is outside this model.
\<close>

fun SYNCQ_ENQ :: "nat \<Rightarrow> 'a spc \<Rightarrow> 'a syncq \<Rightarrow> ('a spc \<times> 'a syncq) option" where
  "SYNCQ_ENQ me (SE_wait obj) q = Some (SE_lock obj, q\<lparr>sy_notfull := sy_notfull q - 1\<rparr>)"
| "SYNCQ_ENQ me (SE_lock obj) q = Some (SE_take obj, q\<lparr>sy_lock := Some me\<rparr>)"
| "SYNCQ_ENQ me (SE_take obj) q = Some (SE_wrap obj (sy_wr q), q\<lparr>sy_wr := sy_wr q + 1\<rparr>)"
| "SYNCQ_ENQ me (SE_wrap obj w) q = Some (SE_store obj w, if sy_wr q = sy_sz q then q\<lparr>sy_wr := 0\<rparr> else q)"
| "SYNCQ_ENQ me (SE_store obj w) q = do { e \<leftarrow> put_at (sy_e q) (unat w) obj; Some (SE_unlock, q\<lparr>sy_e := e\<rparr>) }"
| "SYNCQ_ENQ me SE_unlock q = Some (SE_post, q\<lparr>sy_lock := None\<rparr>)"
| "SYNCQ_ENQ me SE_post q = Some (S_idle, q\<lparr>sy_notempty := sy_notempty q + 1\<rparr>)"
| "SYNCQ_ENQ me p q = Some (p, q)"

fun SYNCQ_DEQ :: "nat \<Rightarrow> 'a spc \<Rightarrow> 'a syncq \<Rightarrow> ('a spc \<times> 'a syncq) option" where
  "SYNCQ_DEQ me SD_wait q = Some (SD_lock, q\<lparr>sy_notempty := sy_notempty q - 1\<rparr>)"
| "SYNCQ_DEQ me SD_lock q = Some (SD_take, q\<lparr>sy_lock := Some me\<rparr>)"
| "SYNCQ_DEQ me SD_take q = Some (SD_wrap (sy_rd q), q\<lparr>sy_rd := sy_rd q + 1\<rparr>)"
| "SYNCQ_DEQ me (SD_wrap r) q = Some (SD_read r, if sy_rd q = sy_sz q then q\<lparr>sy_rd := 0\<rparr> else q)"
| "SYNCQ_DEQ me (SD_read r) q = do { z \<leftarrow> get_at (sy_e q) (unat r); Some (SD_unlock z, q) }"
| "SYNCQ_DEQ me (SD_unlock z) q = Some (SD_post z, q\<lparr>sy_lock := None\<rparr>)"
| "SYNCQ_DEQ me (SD_post z) q = Some (SD_done z, q\<lparr>sy_notfull := sy_notfull q + 1\<rparr>)"
| "SYNCQ_DEQ me p q = Some (p, q)"

fun sy_enqueuing :: "'a spc \<Rightarrow> bool" where
  "sy_enqueuing (SE_wait obj) \<longleftrightarrow> True"
| "sy_enqueuing (SE_lock obj) \<longleftrightarrow> True"
| "sy_enqueuing (SE_take obj) \<longleftrightarrow> True"
| "sy_enqueuing (SE_wrap obj w) \<longleftrightarrow> True"
| "sy_enqueuing (SE_store obj w) \<longleftrightarrow> True"
| "sy_enqueuing SE_unlock \<longleftrightarrow> True"
| "sy_enqueuing SE_post \<longleftrightarrow> True"
| "sy_enqueuing p \<longleftrightarrow> False"

definition sy_thread :: "nat \<Rightarrow> 'a spc \<Rightarrow> 'a syncq \<Rightarrow> ('a spc \<times> 'a syncq) option" where
  "sy_thread me p q = (if sy_enqueuing p then SYNCQ_ENQ me p q else SYNCQ_DEQ me p q)"

text \<open>
  The system: the queue, the threads, and the objects stored and fetched so far, in the order of the accesses to the array.
\<close>

record 'a sy_sys =
  sy_q :: "'a syncq"
  sy_pcs :: "'a spc list"
  sy_ins :: "'a list"
  sy_outs :: "'a list"

fun sy_resting :: "'a spc \<Rightarrow> bool" where
  "sy_resting S_idle \<longleftrightarrow> True"
| "sy_resting (SD_done z) \<longleftrightarrow> True"
| "sy_resting p \<longleftrightarrow> False"

fun sy_stored :: "'a spc \<Rightarrow> 'a list" where
  "sy_stored (SE_store obj w) = [obj]"
| "sy_stored p = []"

fun sy_fetched :: "'a spc \<Rightarrow> 'a spc \<Rightarrow> 'a list" where
  "sy_fetched (SD_read r) (SD_unlock z) = [z]"
| "sy_fetched p p' = []"

definition sy_step :: "nat \<Rightarrow> 'a sy_sys \<Rightarrow> 'a sy_sys option" where
  "sy_step me s =
    do { p \<leftarrow> get_at (sy_pcs s) me;
         (p', q) \<leftarrow> sy_thread me p (sy_q s);
         Some (s\<lparr>sy_q := q, sy_pcs := (sy_pcs s)[me := p'], sy_ins := sy_ins s @ sy_stored p, sy_outs := sy_outs s @ sy_fetched p p'\<rparr>) }"

definition sy_can_step :: "nat \<Rightarrow> 'a sy_sys \<Rightarrow> bool" where
  "sy_can_step me s \<longleftrightarrow> me < length (sy_pcs s) \<and> \<not> sy_resting (sy_pcs s ! me) \<and> \<not> sy_blocked (sy_pcs s ! me) (sy_q s)"

inductive syncq_reach :: "nat \<Rightarrow> 'a sy_sys \<Rightarrow> bool" where
  init: "syncobj_init 0 err n q0 = (Inr (), q) \<Longrightarrow> 0 < n \<Longrightarrow> unat n < 2 ^ 32 \<Longrightarrow> length (sy_e q0) = unat n \<Longrightarrow>
    syncq_reach (unat n) \<lparr>sy_q = q, sy_pcs = replicate k S_idle, sy_ins = [], sy_outs = []\<rparr>"
| call: "syncq_reach n s \<Longrightarrow> me < length (sy_pcs s) \<Longrightarrow> sy_resting (sy_pcs s ! me) \<Longrightarrow> p = SE_wait obj \<or> p = SD_wait \<Longrightarrow>
    syncq_reach n (s\<lparr>sy_pcs := (sy_pcs s)[me := p]\<rparr>)"
| step: "syncq_reach n s \<Longrightarrow> sy_can_step me s \<Longrightarrow> sy_step me s = Some s' \<Longrightarrow> syncq_reach n s'"

section \<open>The invariant\<close>

text \<open>The threads that hold the mutex, and those between a semaphore and the matching change of the contents.\<close>

fun sy_crit :: "'a spc \<Rightarrow> bool" where
  "sy_crit (SE_take obj) \<longleftrightarrow> True"
| "sy_crit (SE_wrap obj w) \<longleftrightarrow> True"
| "sy_crit (SE_store obj w) \<longleftrightarrow> True"
| "sy_crit SE_unlock \<longleftrightarrow> True"
| "sy_crit SD_take \<longleftrightarrow> True"
| "sy_crit (SD_wrap r) \<longleftrightarrow> True"
| "sy_crit (SD_read r) \<longleftrightarrow> True"
| "sy_crit (SD_unlock z) \<longleftrightarrow> True"
| "sy_crit p \<longleftrightarrow> False"

fun room_claimed :: "'a spc \<Rightarrow> bool" where
  "room_claimed (SE_lock obj) \<longleftrightarrow> True"
| "room_claimed (SE_take obj) \<longleftrightarrow> True"
| "room_claimed (SE_wrap obj w) \<longleftrightarrow> True"
| "room_claimed (SE_store obj w) \<longleftrightarrow> True"
| "room_claimed (SD_unlock z) \<longleftrightarrow> True"
| "room_claimed (SD_post z) \<longleftrightarrow> True"
| "room_claimed p \<longleftrightarrow> False"

fun item_claimed :: "'a spc \<Rightarrow> bool" where
  "item_claimed SE_unlock \<longleftrightarrow> True"
| "item_claimed SE_post \<longleftrightarrow> True"
| "item_claimed SD_lock \<longleftrightarrow> True"
| "item_claimed SD_take \<longleftrightarrow> True"
| "item_claimed (SD_wrap r) \<longleftrightarrow> True"
| "item_claimed (SD_read r) \<longleftrightarrow> True"
| "item_claimed p \<longleftrightarrow> False"

text \<open>The write and the read index while a thread at \<open>p\<close> holds the mutex, after \<open>m\<close> (\<open>k\<close>) objects were stored (fetched).\<close>

fun wr_rel :: "nat \<Rightarrow> nat \<Rightarrow> nat \<Rightarrow> 'a spc \<Rightarrow> bool" where
  "wr_rel n m wr (SE_wrap obj w) \<longleftrightarrow> unat w = m mod n \<and> wr = Suc (m mod n)"
| "wr_rel n m wr (SE_store obj w) \<longleftrightarrow> unat w = m mod n \<and> wr = Suc m mod n"
| "wr_rel n m wr p \<longleftrightarrow> wr = m mod n"

fun rd_rel :: "nat \<Rightarrow> nat \<Rightarrow> nat \<Rightarrow> 'a spc \<Rightarrow> bool" where
  "rd_rel n k rd (SD_wrap r) \<longleftrightarrow> unat r = k mod n \<and> rd = Suc (k mod n)"
| "rd_rel n k rd (SD_read r) \<longleftrightarrow> unat r = k mod n \<and> rd = Suc k mod n"
| "rd_rel n k rd p \<longleftrightarrow> rd = k mod n"

definition cnt :: "('a \<Rightarrow> bool) \<Rightarrow> 'a list \<Rightarrow> nat" where
  "cnt f P = length (filter f P)"

definition sy_holder :: "nat option \<Rightarrow> 'a spc list \<Rightarrow> 'a spc" where
  "sy_holder l P = (case l of None \<Rightarrow> S_idle | Some i \<Rightarrow> P ! i)"

definition lock_ok :: "nat option \<Rightarrow> 'a spc list \<Rightarrow> bool" where
  "lock_ok l P \<longleftrightarrow> (\<forall>i<length P. sy_crit (P ! i) \<longleftrightarrow> l = Some i) \<and> (\<forall>i. l = Some i \<longrightarrow> i < length P)"

definition slots_ok :: "nat \<Rightarrow> 'a list \<Rightarrow> 'a list \<Rightarrow> 'a list \<Rightarrow> bool" where
  "slots_ok n e ins outs \<longleftrightarrow> outs = take (length outs) ins \<and> (\<forall>j<length ins. length outs \<le> j \<longrightarrow> e ! (j mod n) = ins ! j)"

definition sy_inv :: "nat \<Rightarrow> 'a sy_sys \<Rightarrow> bool" where
  "sy_inv n s \<longleftrightarrow> (let q = sy_q s; P = sy_pcs s; m = length (sy_ins s); k = length (sy_outs s) in
     0 < n \<and> n < 2 ^ 31 \<and> unat (sy_sz q) = n \<and> length (sy_e q) = n \<and>
     lock_ok (sy_lock q) P \<and>
     wr_rel n m (unat (sy_wr q)) (sy_holder (sy_lock q) P) \<and> rd_rel n k (unat (sy_rd q)) (sy_holder (sy_lock q) P) \<and>
     sy_notfull q + cnt room_claimed P + m = n + k \<and> sy_notempty q + cnt item_claimed P + k = m \<and>
     slots_ok n (sy_e q) (sy_ins s) (sy_outs s))"

lemma cnt_update: "i < length P \<Longrightarrow> cnt f (P[i := p]) + (if f (P ! i) then 1 else 0) = cnt f P + (if f p then 1 else 0)"
proof (induction P arbitrary: i)
  case (Cons x P)
  show ?case
  proof (cases i)
    case 0
    then show ?thesis by (simp add: cnt_def)
  next
    case (Suc j)
    then have "cnt f (P[j := p]) + (if f (P ! j) then 1 else 0) = cnt f P + (if f p then 1 else 0)" using Cons by simp
    then show ?thesis using Suc by (simp add: cnt_def split: if_splits)
  qed
qed simp

lemma cnt_pos: "i < length P \<Longrightarrow> f (P ! i) \<Longrightarrow> 0 < cnt f P"
  unfolding cnt_def by (simp add: filter_empty_conv) (meson nth_mem)

lemma lock_okD: "lock_ok l P \<Longrightarrow> i < length P \<Longrightarrow> sy_crit (P ! i) \<Longrightarrow> l = Some i \<and> sy_holder l P = P ! i"
  by (auto simp: lock_ok_def sy_holder_def)

lemma lock_ok_same: "lock_ok l P \<Longrightarrow> i < length P \<Longrightarrow> sy_crit p = sy_crit (P ! i) \<Longrightarrow> lock_ok l (P[i := p])"
  unfolding lock_ok_def by (auto simp: nth_list_update)

lemma lock_ok_take: "lock_ok None P \<Longrightarrow> i < length P \<Longrightarrow> sy_crit p \<Longrightarrow> lock_ok (Some i) (P[i := p])"
  unfolding lock_ok_def by (auto simp: nth_list_update)

lemma lock_ok_release: "lock_ok l P \<Longrightarrow> i < length P \<Longrightarrow> sy_crit (P ! i) \<Longrightarrow> \<not> sy_crit p \<Longrightarrow> lock_ok None (P[i := p])"
  unfolding lock_ok_def by (auto simp: nth_list_update)

lemma holder_other: "lock_ok l P \<Longrightarrow> i < length P \<Longrightarrow> \<not> sy_crit (P ! i) \<Longrightarrow> sy_holder l (P[i := p]) = sy_holder l P"
  unfolding lock_ok_def sy_holder_def by (auto split: option.splits simp: nth_list_update)

lemma slots_ok_store:
  assumes "slots_ok n e ins outs" "length e = n" "length ins < n + length outs" "length outs \<le> length ins"
  shows "slots_ok n (e[length ins mod n := x]) (ins @ [x]) outs"
proof -
  have "j mod n \<noteq> length ins mod n" if "j < length ins" "length outs \<le> j" for j
  proof
    assume "j mod n = length ins mod n"
    then have "n dvd length ins - j" using that(1) by (metis mod_eq_dvd_iff_nat less_imp_le)
    then have "n \<le> length ins - j" using that(1) by (auto intro: dvd_imp_le)
    then show False using that assms(3) by linarith
  qed
  moreover have "length ins mod n < n" using assms(3,4) by (cases "n = 0") auto
  ultimately show ?thesis using assms by (auto simp: slots_ok_def nth_append less_Suc_eq) (metis nth_list_update_neq)
qed

lemma slots_ok_fetch:
  assumes "slots_ok n e ins outs" "length outs < length ins"
  shows "slots_ok n e ins (outs @ [e ! (length outs mod n)])"
proof -
  have "e ! (length outs mod n) = ins ! length outs" using assms by (simp add: slots_ok_def)
  then have "outs @ [e ! (length outs mod n)] = take (Suc (length outs)) ins"
    using assms by (simp add: slots_ok_def take_Suc_conv_app_nth)
  then show ?thesis using assms by (simp add: slots_ok_def)
qed

section \<open>Every step keeps the invariant\<close>

lemma sy_invD:
  assumes "sy_inv n s"
  shows "0 < n" "n < 2 ^ 31" "unat (sy_sz (sy_q s)) = n" "length (sy_e (sy_q s)) = n" "lock_ok (sy_lock (sy_q s)) (sy_pcs s)"
    "wr_rel n (length (sy_ins s)) (unat (sy_wr (sy_q s))) (sy_holder (sy_lock (sy_q s)) (sy_pcs s))"
    "rd_rel n (length (sy_outs s)) (unat (sy_rd (sy_q s))) (sy_holder (sy_lock (sy_q s)) (sy_pcs s))"
    "sy_notfull (sy_q s) + cnt room_claimed (sy_pcs s) + length (sy_ins s) = n + length (sy_outs s)"
    "sy_notempty (sy_q s) + cnt item_claimed (sy_pcs s) + length (sy_outs s) = length (sy_ins s)"
    "slots_ok n (sy_e (sy_q s)) (sy_ins s) (sy_outs s)"
  using assms by (simp_all add: sy_inv_def Let_def)

text \<open>The index step of the macros is addition modulo the size.\<close>

lemma unat_suc_index:
  fixes w :: u32
  assumes "unat w < n" "n < 2 ^ 31"
  shows "unat (w + 1) = Suc (unat w)"
  using assms unat_add_u32 [of w 1] by simp

lemma wrap_index:
  fixes w sz :: u32
  assumes "unat w = Suc (m mod n)" "unat sz = n" "0 < n"
  shows "unat (if w = sz then 0 else w) = Suc m mod n"
proof -
  have "w = sz \<longleftrightarrow> Suc (m mod n) = n" using assms by (metis unat_inj)
  then show ?thesis using assms by (simp add: mod_Suc)
qed

text \<open>Outside the critical section: a step on a semaphore.\<close>

lemma inv_semaphore:
  assumes inv: "sy_inv n s" and me: "me < length (sy_pcs s)"
    and p: "\<not> sy_crit (sy_pcs s ! me)" "\<not> sy_crit p'"
    and f: "f + (if room_claimed p' then 1 else 0) = sy_notfull (sy_q s) + (if room_claimed (sy_pcs s ! me) then 1 else (0 :: nat))"
    and e: "e + (if item_claimed p' then 1 else 0) = sy_notempty (sy_q s) + (if item_claimed (sy_pcs s ! me) then 1 else (0 :: nat))"
  shows "sy_inv n (s\<lparr>sy_q := (sy_q s)\<lparr>sy_notfull := f, sy_notempty := e\<rparr>, sy_pcs := (sy_pcs s)[me := p']\<rparr>)"
proof -
  note i = sy_invD [OF inv]
  have "lock_ok (sy_lock (sy_q s)) ((sy_pcs s)[me := p'])" using lock_ok_same [OF i(5) me] p by simp
  moreover have "sy_holder (sy_lock (sy_q s)) ((sy_pcs s)[me := p']) = sy_holder (sy_lock (sy_q s)) (sy_pcs s)"
    using holder_other [OF i(5) me p(1)] .
  moreover have "f + cnt room_claimed ((sy_pcs s)[me := p']) + length (sy_ins s) = n + length (sy_outs s)"
    using cnt_update [OF me, of room_claimed p'] f i(8) by linarith
  moreover have "e + cnt item_claimed ((sy_pcs s)[me := p']) + length (sy_outs s) = length (sy_ins s)"
    using cnt_update [OF me, of item_claimed p'] e i(9) by linarith
  ultimately show ?thesis using i by (simp add: sy_inv_def Let_def)
qed

text \<open>The mutex is taken and released.\<close>

lemma inv_mutex:
  assumes inv: "sy_inv n s" and me: "me < length (sy_pcs s)"
    and l: "sy_lock (sy_q s) = None \<and> l = Some me \<and> sy_crit p' \<or> sy_crit (sy_pcs s ! me) \<and> l = None \<and> \<not> sy_crit p'"
    and idx: "\<And>m wr. wr_rel n m wr (sy_pcs s ! me) \<longleftrightarrow> wr = m mod n" "\<And>m rd. rd_rel n m rd (sy_pcs s ! me) \<longleftrightarrow> rd = m mod n"
      "\<And>m wr. wr_rel n m wr p' \<longleftrightarrow> wr = m mod n" "\<And>m rd. rd_rel n m rd p' \<longleftrightarrow> rd = m mod n"
    and f: "room_claimed p' = room_claimed (sy_pcs s ! me)" "item_claimed p' = item_claimed (sy_pcs s ! me)"
  shows "sy_inv n (s\<lparr>sy_q := (sy_q s)\<lparr>sy_lock := l\<rparr>, sy_pcs := (sy_pcs s)[me := p']\<rparr>)"
proof -
  note i = sy_invD [OF inv]
  have lk: "lock_ok l ((sy_pcs s)[me := p'])" using l lock_ok_take [OF _ me, of p'] lock_ok_release [OF i(5) me, of p'] i(5) by auto
  have "sy_holder (sy_lock (sy_q s)) (sy_pcs s) = S_idle \<or> sy_holder (sy_lock (sy_q s)) (sy_pcs s) = sy_pcs s ! me"
    using l lock_okD [OF i(5) me] by (auto simp: sy_holder_def)
  then have old: "unat (sy_wr (sy_q s)) = length (sy_ins s) mod n" "unat (sy_rd (sy_q s)) = length (sy_outs s) mod n"
    using i(6,7) idx by auto
  have "sy_holder l ((sy_pcs s)[me := p']) = S_idle \<or> sy_holder l ((sy_pcs s)[me := p']) = p'"
    using l me by (auto simp: sy_holder_def)
  then have "wr_rel n (length (sy_ins s)) (unat (sy_wr (sy_q s))) (sy_holder l ((sy_pcs s)[me := p']))"
    "rd_rel n (length (sy_outs s)) (unat (sy_rd (sy_q s))) (sy_holder l ((sy_pcs s)[me := p']))"
    using old idx by auto
  moreover have "cnt room_claimed ((sy_pcs s)[me := p']) = cnt room_claimed (sy_pcs s)" "cnt item_claimed ((sy_pcs s)[me := p']) = cnt item_claimed (sy_pcs s)"
    using cnt_update [OF me, of room_claimed p'] cnt_update [OF me, of item_claimed p'] f by auto
  ultimately show ?thesis using i lk by (simp add: sy_inv_def Let_def)
qed

text \<open>Inside the critical section: a step of the holder that moves an index or accesses a slot.\<close>

lemma inv_critical:
  assumes inv: "sy_inv n s" and me: "me < length (sy_pcs s)" and p: "sy_crit (sy_pcs s ! me)" "sy_crit p'"
    and wr: "wr_rel n (length ins) (unat wr) p'" and rd: "rd_rel n (length outs) (unat rd) p'" and e: "length e = n"
    and f: "(if room_claimed p' then 1 else 0) + length ins + length (sy_outs s) = (if room_claimed (sy_pcs s ! me) then 1 else 0) + length (sy_ins s) + length outs"
    and g: "(if item_claimed p' then 1 else 0) + length outs + length (sy_ins s) = (if item_claimed (sy_pcs s ! me) then 1 else 0) + length (sy_outs s) + length ins"
    and sl: "slots_ok n e ins outs"
  shows "sy_inv n (s\<lparr>sy_q := (sy_q s)\<lparr>sy_wr := wr, sy_rd := rd, sy_e := e\<rparr>, sy_pcs := (sy_pcs s)[me := p'], sy_ins := ins, sy_outs := outs\<rparr>)"
proof -
  note i = sy_invD [OF inv]
  have l: "sy_lock (sy_q s) = Some me" using lock_okD [OF i(5) me p(1)] by simp
  have "lock_ok (Some me) ((sy_pcs s)[me := p'])" using lock_ok_same [OF i(5) me] p l by simp
  moreover have "sy_holder (Some me) ((sy_pcs s)[me := p']) = p'" using me by (simp add: sy_holder_def)
  moreover have "sy_notfull (sy_q s) + cnt room_claimed ((sy_pcs s)[me := p']) + length ins = n + length outs"
    using cnt_update [OF me, of room_claimed p'] f i(8) by linarith
  moreover have "sy_notempty (sy_q s) + cnt item_claimed ((sy_pcs s)[me := p']) + length outs = length ins"
    using cnt_update [OF me, of item_claimed p'] g i(9) by linarith
  ultimately show ?thesis using i wr rd e sl l by (simp add: sy_inv_def Let_def)
qed

lemma thread_facts:
  assumes inv: "sy_inv n s" and me: "me < length (sy_pcs s)"
  shows "room_claimed (sy_pcs s ! me) \<Longrightarrow> length (sy_ins s) < n + length (sy_outs s)"
    "item_claimed (sy_pcs s ! me) \<Longrightarrow> length (sy_outs s) < length (sy_ins s)"
    "sy_crit (sy_pcs s ! me) \<Longrightarrow> wr_rel n (length (sy_ins s)) (unat (sy_wr (sy_q s))) (sy_pcs s ! me) \<and>
      rd_rel n (length (sy_outs s)) (unat (sy_rd (sy_q s))) (sy_pcs s ! me)"
    "length (sy_ins s) mod n < n" "length (sy_outs s) mod n < n"
proof -
  note i = sy_invD [OF inv]
  show "room_claimed (sy_pcs s ! me) \<Longrightarrow> length (sy_ins s) < n + length (sy_outs s)"
    using cnt_pos [OF me, of room_claimed] i(8) by linarith
  show "item_claimed (sy_pcs s ! me) \<Longrightarrow> length (sy_outs s) < length (sy_ins s)"
    using cnt_pos [OF me, of item_claimed] i(9) by linarith
  show "sy_crit (sy_pcs s ! me) \<Longrightarrow> wr_rel n (length (sy_ins s)) (unat (sy_wr (sy_q s))) (sy_pcs s ! me) \<and>
      rd_rel n (length (sy_outs s)) (unat (sy_rd (sy_q s))) (sy_pcs s ! me)"
    using lock_okD [OF i(5) me] i(6,7) by (auto simp: sy_holder_def)
qed (use sy_invD(1) [OF inv] in simp_all)

lemma sy_enq_inv:
  assumes inv: "sy_inv n s" and can: "sy_can_step me s" and who: "sy_enqueuing (sy_pcs s ! me)"
  shows "\<exists>s'. sy_step me s = Some s' \<and> sy_inv n s'"
proof -
  note i = sy_invD [OF inv]
  have me: "me < length (sy_pcs s)" using can by (simp add: sy_can_step_def)
  note room = thread_facts(1) [OF inv me] and item = thread_facts(2) [OF inv me] and hold = thread_facts(3) [OF inv me] and lt = thread_facts(4,5) [OF inv me]
  show ?thesis
  proof (cases "sy_pcs s ! me")
    case (SE_wait obj)
    then show ?thesis using can me inv_semaphore [OF inv me, of "SE_lock obj" "sy_notfull (sy_q s) - 1" "sy_notempty (sy_q s)"]
      by (auto simp: sy_can_step_def sy_step_def sy_thread_def mem_simps)
  next
    case (SE_lock obj)
    then show ?thesis using can me inv_mutex [OF inv me, of "Some me" "SE_take obj"]
      by (auto simp: sy_can_step_def sy_step_def sy_thread_def mem_simps)
  next
    case (SE_take obj)
    then show ?thesis using me hold lt i(2,4,10) unat_suc_index [of "sy_wr (sy_q s)" n]
        inv_critical [OF inv me, of "SE_wrap obj (sy_wr (sy_q s))" "sy_ins s" "sy_wr (sy_q s) + 1" "sy_outs s" "sy_rd (sy_q s)" "sy_e (sy_q s)"]
      by (auto simp: sy_step_def sy_thread_def mem_simps)
  next
    case (SE_wrap obj w)
    define wr where "wr = (if sy_wr (sy_q s) = sy_sz (sy_q s) then 0 else sy_wr (sy_q s))"
    have q: "(if sy_wr (sy_q s) = sy_sz (sy_q s) then (sy_q s)\<lparr>sy_wr := 0\<rparr> else sy_q s) = (sy_q s)\<lparr>sy_wr := wr\<rparr>" by (simp add: wr_def)
    show ?thesis using SE_wrap me hold lt i(1,4,10) wrap_index [OF _ i(3,1), of "sy_wr (sy_q s)" "length (sy_ins s)"]
        inv_critical [OF inv me, of "SE_store obj w" "sy_ins s" wr "sy_outs s" "sy_rd (sy_q s)" "sy_e (sy_q s)"]
      by (auto simp: sy_step_def sy_thread_def mem_simps q simp flip: wr_def)
  next
    case (SE_store obj w)
    then show ?thesis using me hold lt i(4,10) room slots_ok_store [OF i(10,4), of obj] i(9)
        inv_critical [OF inv me, of SE_unlock "sy_ins s @ [obj]" "sy_wr (sy_q s)" "sy_outs s" "sy_rd (sy_q s)" "(sy_e (sy_q s))[unat w := obj]"]
      by (auto simp: sy_step_def sy_thread_def mem_simps)
  next
    case SE_unlock
    then show ?thesis using me inv_mutex [OF inv me, of "None" "SE_post"]
      by (auto simp: sy_step_def sy_thread_def mem_simps)
  next
    case SE_post
    then show ?thesis using can me inv_semaphore [OF inv me, of "S_idle" "sy_notfull (sy_q s)" "sy_notempty (sy_q s) + 1"]
      by (auto simp: sy_can_step_def sy_step_def sy_thread_def mem_simps)
  qed (use can who in \<open>auto simp: sy_can_step_def\<close>)
qed

lemma sy_deq_inv:
  assumes inv: "sy_inv n s" and can: "sy_can_step me s" and who: "\<not> sy_enqueuing (sy_pcs s ! me)"
  shows "\<exists>s'. sy_step me s = Some s' \<and> sy_inv n s'"
proof -
  note i = sy_invD [OF inv]
  have me: "me < length (sy_pcs s)" using can by (simp add: sy_can_step_def)
  note room = thread_facts(1) [OF inv me] and item = thread_facts(2) [OF inv me] and hold = thread_facts(3) [OF inv me] and lt = thread_facts(4,5) [OF inv me]
  show ?thesis
  proof (cases "sy_pcs s ! me")
    case SD_wait
    then show ?thesis using can me inv_semaphore [OF inv me, of "SD_lock" "sy_notfull (sy_q s)" "sy_notempty (sy_q s) - 1"]
      by (auto simp: sy_can_step_def sy_step_def sy_thread_def mem_simps)
  next
    case SD_lock
    then show ?thesis using can me inv_mutex [OF inv me, of "Some me" SD_take]
      by (auto simp: sy_can_step_def sy_step_def sy_thread_def mem_simps)
  next
    case SD_take
    then show ?thesis using me hold lt i(2,4,10) unat_suc_index [of "sy_rd (sy_q s)" n]
        inv_critical [OF inv me, of "SD_wrap (sy_rd (sy_q s))" "sy_ins s" "sy_wr (sy_q s)" "sy_outs s" "sy_rd (sy_q s) + 1" "sy_e (sy_q s)"]
      by (auto simp: sy_step_def sy_thread_def mem_simps)
  next
    case (SD_wrap r)
    define rd where "rd = (if sy_rd (sy_q s) = sy_sz (sy_q s) then 0 else sy_rd (sy_q s))"
    have q: "(if sy_rd (sy_q s) = sy_sz (sy_q s) then (sy_q s)\<lparr>sy_rd := 0\<rparr> else sy_q s) = (sy_q s)\<lparr>sy_rd := rd\<rparr>" by (simp add: rd_def)
    show ?thesis using SD_wrap me hold lt i(1,4,10) wrap_index [OF _ i(3,1), of "sy_rd (sy_q s)" "length (sy_outs s)"]
        inv_critical [OF inv me, of "SD_read r" "sy_ins s" "sy_wr (sy_q s)" "sy_outs s" rd "sy_e (sy_q s)"]
      by (auto simp: sy_step_def sy_thread_def mem_simps q simp flip: rd_def)
  next
    case (SD_read r)
    then show ?thesis using me hold lt i(4,10) item slots_ok_fetch [OF i(10)]
        inv_critical [OF inv me, of "SD_unlock (sy_e (sy_q s) ! unat r)" "sy_ins s" "sy_wr (sy_q s)" "sy_outs s @ [sy_e (sy_q s) ! unat r]" "sy_rd (sy_q s)" "sy_e (sy_q s)"]
      by (auto simp: sy_step_def sy_thread_def mem_simps)
  next
    case (SD_unlock z)
    then show ?thesis using me inv_mutex [OF inv me, of "None" "SD_post z"]
      by (auto simp: sy_step_def sy_thread_def mem_simps)
  next
    case (SD_post z)
    then show ?thesis using can me inv_semaphore [OF inv me, of "SD_done z" "sy_notfull (sy_q s) + 1" "sy_notempty (sy_q s)"]
      by (auto simp: sy_can_step_def sy_step_def sy_thread_def mem_simps)
  qed (use can who in \<open>auto simp: sy_can_step_def\<close>)
qed

lemma sy_step_inv: "sy_inv n s \<Longrightarrow> sy_can_step me s \<Longrightarrow> \<exists>s'. sy_step me s = Some s' \<and> sy_inv n s'"
  using sy_enq_inv sy_deq_inv by blast

lemma syncq_reach_inv: "syncq_reach n s \<Longrightarrow> sy_inv n s"
proof (induction rule: syncq_reach.induct)
  case (init err n q0 q k)
  have "unat (ucast n :: u32) = unat n" using init(3) by (simp add: unsigned_ucast_eq take_bit_nat_eq_self_iff)
  moreover have "0 < unat n" using init(2) by (simp add: word_greater_zero_iff unat_gt_0)
  ultimately show ?case using init(1,4)
    by (auto simp: sy_inv_def syncobj_init_def SEM_VALUE_MAX_def lock_ok_def sy_holder_def cnt_def slots_ok_def filter_empty_conv split: if_splits)
next
  case (call n s me p obj)
  then have "sy_inv n (s\<lparr>sy_q := (sy_q s)\<lparr>sy_notfull := sy_notfull (sy_q s), sy_notempty := sy_notempty (sy_q s)\<rparr>, sy_pcs := (sy_pcs s)[me := p]\<rparr>)"
    by (intro inv_semaphore) (auto elim!: sy_resting.elims)
  then show ?case by simp
next
  case (step n s me s')
  then show ?case using sy_step_inv by fastforce
qed

section \<open>Safety and progress\<close>

text \<open>
  C6: The blocking queue. In every reachable state of any number of threads, a thread that is not blocked makes its step without
  leaving the array; at most one thread holds the mutex; the objects fetched are the first objects stored, in order; and the queue
  holds at most its capacity. No \<open>sem_wait\<close> is interrupted and no call of the mutex fails.
\<close>

theorem syncq_safe:
  assumes "syncq_reach n s"
  shows "(\<forall>me. sy_can_step me s \<longrightarrow> (\<exists>s'. sy_step me s = Some s')) \<and>
    (\<forall>i<length (sy_pcs s). \<forall>j<length (sy_pcs s). sy_crit (sy_pcs s ! i) \<longrightarrow> sy_crit (sy_pcs s ! j) \<longrightarrow> i = j) \<and>
    sy_outs s = take (length (sy_outs s)) (sy_ins s) \<and> length (sy_ins s) \<le> length (sy_outs s) + n"
proof -
  note inv = syncq_reach_inv [OF assms]
  note i = sy_invD [OF inv]
  have "length (sy_ins s) \<le> length (sy_outs s) + n" using i(8) by linarith
  moreover have "sy_outs s = take (length (sy_outs s)) (sy_ins s)" using i(10) by (simp add: slots_ok_def)
  moreover have "\<forall>i<length (sy_pcs s). \<forall>j<length (sy_pcs s). sy_crit (sy_pcs s ! i) \<longrightarrow> sy_crit (sy_pcs s ! j) \<longrightarrow> i = j"
    using i(5) unfolding lock_ok_def by (metis option.inject)
  ultimately show ?thesis using sy_step_inv [OF inv] by blast
qed

definition syncq_demo :: "nat spc \<Rightarrow> nat sy_sys" where
  "syncq_demo p = \<lparr>sy_q = \<lparr>sy_rd = 0, sy_wr = 0, sy_sz = 2, sy_lock = None, sy_notempty = 0, sy_notfull = 2, sy_e = [0, 0]\<rparr>,
     sy_pcs = [S_idle, p], sy_ins = [], sy_outs = []\<rparr>"

lemma syncq_demo_reach: "p = SE_wait obj \<or> p = SD_wait \<Longrightarrow> syncq_reach 2 (syncq_demo p)"
proof -
  let ?q = "\<lparr>sy_rd = 0, sy_wr = 0, sy_sz = 2, sy_lock = None, sy_notempty = 0, sy_notfull = 2, sy_e = [0, 0]\<rparr> :: nat syncq"
  assume p: "p = SE_wait obj \<or> p = SD_wait"
  have two: "replicate 2 S_idle = [S_idle, S_idle :: nat spc]" by (simp add: numeral_2_eq_2)
  have "syncobj_init 0 EINVAL 2 (?q\<lparr>sy_notfull := 9\<rparr>) = (Inr (), ?q)" by (simp add: syncobj_init_def SEM_VALUE_MAX_def)
  then have "syncq_reach (unat (2 :: u64)) \<lparr>sy_q = ?q, sy_pcs = replicate 2 S_idle, sy_ins = [], sy_outs = []\<rparr>"
    by (rule syncq_reach.init) simp_all
  then have "syncq_reach 2 (syncq_demo S_idle)" by (simp add: syncq_demo_def two)
  then show ?thesis using syncq_reach.call [of 2 "syncq_demo S_idle" 1 p obj] p by (simp add: syncq_demo_def)
qed

theorem syncq_safe_witness: "syncq_reach 2 (syncq_demo (SE_wait 7)) \<and> (\<exists>s'. sy_step 1 (syncq_demo (SE_wait 7)) = Some s')"
proof -
  have r: "syncq_reach 2 (syncq_demo (SE_wait 7))" by (rule syncq_demo_reach) simp
  moreover have "sy_can_step 1 (syncq_demo (SE_wait 7))" by (simp add: sy_can_step_def syncq_demo_def)
  ultimately show ?thesis using syncq_safe [OF r] by blast
qed

text \<open>
  C34: The blocking queue never deadlocks. When no thread can step, every thread is resting or waits at a semaphore; a thread waits
  to enqueue only if the queue is full, and to dequeue only if it is empty. No \<open>sem_wait\<close> is interrupted and no call of the mutex fails.
\<close>

theorem syncq_no_deadlock:
  assumes "syncq_reach n s" "\<forall>me. \<not> sy_can_step me s" "me < length (sy_pcs s)" "\<not> sy_resting (sy_pcs s ! me)"
  shows "(\<exists>obj. sy_pcs s ! me = SE_wait obj) \<and> length (sy_ins s) = length (sy_outs s) + n \<or>
    sy_pcs s ! me = SD_wait \<and> sy_ins s = sy_outs s"
proof -
  note i = sy_invD [OF syncq_reach_inv [OF assms(1)]]
  have stuck: "sy_resting (sy_pcs s ! j) \<or> sy_blocked (sy_pcs s ! j) (sy_q s)" if "j < length (sy_pcs s)" for j
    using assms(2) that by (auto simp: sy_can_step_def)
  have free: "sy_lock (sy_q s) = None"
  proof (cases "sy_lock (sy_q s)")
    case (Some j)
    then have "j < length (sy_pcs s)" "sy_crit (sy_pcs s ! j)" using i(5) by (auto simp: lock_ok_def)
    then show ?thesis using stuck [of j] by (cases "sy_pcs s ! j") auto
  qed
  have wait: "sy_resting p \<or> (\<exists>obj. p = SE_wait obj) \<or> p = SD_wait" if p: "p \<in> set (sy_pcs s)" for p
  proof -
    obtain j where "j < length (sy_pcs s)" "sy_pcs s ! j = p" using p by (auto simp: in_set_conv_nth)
    then show ?thesis using stuck [of j] free by (cases p) auto
  qed
  have "\<not> room_claimed p \<and> \<not> item_claimed p" if "p \<in> set (sy_pcs s)" for p using wait [OF that] by (cases p) auto
  then have "cnt room_claimed (sy_pcs s) = 0" "cnt item_claimed (sy_pcs s) = 0" by (auto simp: cnt_def filter_empty_conv)
  then have n: "sy_notfull (sy_q s) + length (sy_ins s) = n + length (sy_outs s)" "sy_notempty (sy_q s) + length (sy_outs s) = length (sy_ins s)"
    using i(8,9) by auto
  consider obj where "sy_pcs s ! me = SE_wait obj" | "sy_pcs s ! me = SD_wait" using wait [of "sy_pcs s ! me"] assms(3,4) by auto
  then show ?thesis
  proof cases
    case 1
    then show ?thesis using stuck [OF assms(3)] n by auto
  next
    case 2
    then have "length (sy_outs s) = length (sy_ins s)" using stuck [OF assms(3)] n by auto
    then show ?thesis using 2 i(10) by (simp add: slots_ok_def)
  qed
qed

theorem syncq_no_deadlock_witness: "\<not> sy_resting (sy_pcs (syncq_demo SD_wait) ! 1) \<and> sy_ins (syncq_demo SD_wait) = sy_outs (syncq_demo SD_wait)"
proof -
  have "\<forall>me. \<not> sy_can_step me (syncq_demo SD_wait)" by (auto simp: sy_can_step_def syncq_demo_def nth_Cons' less_Suc_eq)
  then show ?thesis using syncq_no_deadlock [OF syncq_demo_reach, of SD_wait undefined 1] by (simp add: syncq_demo_def)
qed

end
