(* ===== verification/Bitset.thy ===== *)
theory Bitset
  imports Map_Spec Bits
begin

text \<open>
  The dynamic bit sets of \<open>inc/fast/bitset.h\<close>. The binary operations take two pointers that may be equal, so they act on an explicit
  store of bit sets and read their operands word by word as the loops do. A store of bit sets then refines a list of finite sets.
\<close>

section \<open>Operations\<close>

record bitset =
  bs_n :: u64
  bs_w :: "u64 list"

definition BITSIZE_W :: "u64 \<Rightarrow> u64" where
  "BITSIZE_W n = ALIGN_UP n 64 div 64"

text \<open>The result of the allocation is used without a check; \<open>ok\<close> says whether \<open>calloc\<close> succeeds.\<close>

definition bitset_new :: "bool \<Rightarrow> u64 \<Rightarrow> bitset option" where
  "bitset_new ok n =
    (let m = BITSIZE_W n in
     if ok then Some \<lparr>bs_n = m, bs_w = replicate (unat m) 0\<rparr> else None)"

text \<open>\<open>memcpy\<close> of the words; its operands must not overlap.\<close>

definition bitset_copy :: "nat \<Rightarrow> nat \<Rightarrow> bitset list \<Rightarrow> bitset list option" where
  "bitset_copy a b st =
    do { A \<leftarrow> get_at st a; B \<leftarrow> get_at st b;
         if bs_n A \<noteq> bs_n B \<or> a = b \<or> length (bs_w A) < unat (bs_n A) \<or> length (bs_w B) < unat (bs_n A) then None
         else put_at st a (A\<lparr>bs_w := take (unat (bs_n A)) (bs_w B) @ drop (unat (bs_n A)) (bs_w A)\<rparr>) }"

definition bitset_dup :: "bool \<Rightarrow> bitset \<Rightarrow> bitset option" where
  "bitset_dup ok a =
    (if ok \<and> unat (bs_n a) \<le> length (bs_w a) then Some \<lparr>bs_n = bs_n a, bs_w = take (unat (bs_n a)) (bs_w a)\<rparr> else None)"

definition bitset_set :: "bitset \<Rightarrow> u64 \<Rightarrow> bitset option" where
  "bitset_set b i =
    (if i < 64 * bs_n b
     then do { w \<leftarrow> get_at (bs_w b) (unat (i div 64));
               ws \<leftarrow> put_at (bs_w b) (unat (i div 64)) (w OR push_bit (unat (i mod 64)) 1);
               Some (b\<lparr>bs_w := ws\<rparr>) }
     else None)"

definition bitset_clr :: "bitset \<Rightarrow> u64 \<Rightarrow> bitset option" where
  "bitset_clr b i =
    (if i < 64 * bs_n b
     then do { w \<leftarrow> get_at (bs_w b) (unat (i div 64));
               ws \<leftarrow> put_at (bs_w b) (unat (i div 64)) (w AND NOT (push_bit (unat (i mod 64)) 1));
               Some (b\<lparr>bs_w := ws\<rparr>) }
     else None)"

definition bitset_isset :: "bitset \<Rightarrow> u64 \<Rightarrow> bool option" where
  "bitset_isset b i =
    (if i < 64 * bs_n b
     then do { w \<leftarrow> get_at (bs_w b) (unat (i div 64)); Some (0 < w AND push_bit (unat (i mod 64)) 1) }
     else None)"

fun bitset_loop :: "(u64 \<Rightarrow> u64 \<Rightarrow> u64) \<Rightarrow> nat \<Rightarrow> nat \<Rightarrow> nat \<Rightarrow> nat \<Rightarrow> bitset list \<Rightarrow> bitset list option" where
  "bitset_loop f a b i 0 st = Some st"
| "bitset_loop f a b i (Suc k) st =
    do { A \<leftarrow> get_at st a; B \<leftarrow> get_at st b;
         x \<leftarrow> get_at (bs_w A) i; y \<leftarrow> get_at (bs_w B) i;
         w \<leftarrow> put_at (bs_w A) i (f x y);
         st \<leftarrow> put_at st a (A\<lparr>bs_w := w\<rparr>);
         bitset_loop f a b (Suc i) k st }"

definition bitset_binop :: "(u64 \<Rightarrow> u64 \<Rightarrow> u64) \<Rightarrow> nat \<Rightarrow> nat \<Rightarrow> bitset list \<Rightarrow> bitset list option" where
  "bitset_binop f a b st =
    do { A \<leftarrow> get_at st a; B \<leftarrow> get_at st b;
         if bs_n A \<noteq> bs_n B then None else bitset_loop f a b 0 (unat (bs_n A)) st }"

definition bitset_or :: "nat \<Rightarrow> nat \<Rightarrow> bitset list \<Rightarrow> bitset list option" where
  "bitset_or = bitset_binop (\<lambda>x y. x OR y)"

definition bitset_and :: "nat \<Rightarrow> nat \<Rightarrow> bitset list \<Rightarrow> bitset list option" where
  "bitset_and = bitset_binop (\<lambda>x y. x AND y)"

definition bitset_xor :: "nat \<Rightarrow> nat \<Rightarrow> bitset list \<Rightarrow> bitset list option" where
  "bitset_xor = bitset_binop (\<lambda>x y. x XOR y)"

definition bitset_andnot :: "nat \<Rightarrow> nat \<Rightarrow> bitset list \<Rightarrow> bitset list option" where
  "bitset_andnot = bitset_binop (\<lambda>x y. x AND NOT y)"

definition bitset_not :: "nat \<Rightarrow> bitset list \<Rightarrow> bitset list option" where
  "bitset_not a st = do { A \<leftarrow> get_at st a; bitset_loop (\<lambda>x y. NOT x) a a 0 (unat (bs_n A)) st }"

section \<open>Sets\<close>

datatype bitset_op =
    Bs_set nat u64 | Bs_clr nat u64 | Bs_isset nat u64
  | Bs_or nat nat | Bs_and nat nat | Bs_xor nat nat | Bs_andnot nat nat
  | Bs_copy nat nat | Bs_dup bool nat nat

text \<open>\<open>Bs_dup ok a b\<close> makes the pointer \<open>a\<close> point to a duplicate of \<open>b\<close>; \<open>ok\<close> says whether \<open>calloc\<close> succeeds.\<close>

fun bitset_step :: "bitset_op \<Rightarrow> bitset list \<Rightarrow> (bool \<times> bitset list) option" where
  "bitset_step (Bs_set a i) st = do { A \<leftarrow> get_at st a; A \<leftarrow> bitset_set A i; st \<leftarrow> put_at st a A; Some (True, st) }"
| "bitset_step (Bs_clr a i) st = do { A \<leftarrow> get_at st a; A \<leftarrow> bitset_clr A i; st \<leftarrow> put_at st a A; Some (True, st) }"
| "bitset_step (Bs_isset a i) st = do { A \<leftarrow> get_at st a; r \<leftarrow> bitset_isset A i; Some (r, st) }"
| "bitset_step (Bs_or a b) st = map_option (Pair True) (bitset_or a b st)"
| "bitset_step (Bs_and a b) st = map_option (Pair True) (bitset_and a b st)"
| "bitset_step (Bs_xor a b) st = map_option (Pair True) (bitset_xor a b st)"
| "bitset_step (Bs_andnot a b) st = map_option (Pair True) (bitset_andnot a b st)"
| "bitset_step (Bs_copy a b) st = map_option (Pair True) (bitset_copy a b st)"
| "bitset_step (Bs_dup ok a b) st = do { B \<leftarrow> get_at st b; A \<leftarrow> bitset_dup ok B; st \<leftarrow> put_at st a A; Some (True, st) }"

fun set_step :: "nat \<Rightarrow> bitset_op \<Rightarrow> nat set list \<Rightarrow> bool \<times> nat set list" where
  "set_step W (Bs_set a i) S = (True, S[a := insert (unat i) (S ! a)])"
| "set_step W (Bs_clr a i) S = (True, S[a := S ! a - {unat i}])"
| "set_step W (Bs_isset a i) S = (unat i \<in> S ! a, S)"
| "set_step W (Bs_or a b) S = (True, S[a := S ! a \<union> S ! b])"
| "set_step W (Bs_and a b) S = (True, S[a := S ! a \<inter> S ! b])"
| "set_step W (Bs_xor a b) S = (True, S[a := (S ! a - S ! b) \<union> (S ! b - S ! a)])"
| "set_step W (Bs_andnot a b) S = (True, S[a := S ! a - S ! b])"
| "set_step W (Bs_copy a b) S = (True, S[a := S ! b])"
| "set_step W (Bs_dup ok a b) S = (True, S[a := S ! b])"

text \<open>
  The pointers of an operation are in the store, its index is in the set, the operands of a copy differ (\<open>memcpy\<close> of overlapping memory is undefined)
  and the allocation of a duplicate succeeds (the code writes through its result unchecked).
\<close>

fun bitset_valid :: "nat \<Rightarrow> nat \<Rightarrow> bitset_op \<Rightarrow> bool" where
  "bitset_valid W K (Bs_set a i) \<longleftrightarrow> a < K \<and> unat i < 64 * W"
| "bitset_valid W K (Bs_clr a i) \<longleftrightarrow> a < K \<and> unat i < 64 * W"
| "bitset_valid W K (Bs_isset a i) \<longleftrightarrow> a < K \<and> unat i < 64 * W"
| "bitset_valid W K (Bs_or a b) \<longleftrightarrow> a < K \<and> b < K"
| "bitset_valid W K (Bs_and a b) \<longleftrightarrow> a < K \<and> b < K"
| "bitset_valid W K (Bs_xor a b) \<longleftrightarrow> a < K \<and> b < K"
| "bitset_valid W K (Bs_andnot a b) \<longleftrightarrow> a < K \<and> b < K"
| "bitset_valid W K (Bs_copy a b) \<longleftrightarrow> a < K \<and> b < K \<and> a \<noteq> b"
| "bitset_valid W K (Bs_dup ok a b) \<longleftrightarrow> a < K \<and> b < K \<and> ok"

definition bs_elems :: "u64 list \<Rightarrow> nat set" where
  "bs_elems w = {i. i < 64 * length w \<and> bit (w ! (i div 64)) (i mod 64)}"

definition bs_inv :: "nat \<Rightarrow> bitset \<Rightarrow> bool" where
  "bs_inv W b \<longleftrightarrow> unat (bs_n b) = W \<and> length (bs_w b) = W \<and> W < 2 ^ 58"

definition store_inv :: "nat \<Rightarrow> nat \<Rightarrow> nat \<Rightarrow> bitset list \<Rightarrow> bool" where
  "store_inv W K n st \<longleftrightarrow> length st = K \<and> (\<forall>b \<in> set st. bs_inv W b)"

abbreviation (input) store_sets :: "bitset list \<Rightarrow> nat set list" where
  "store_sets \<equiv> map (\<lambda>b. bs_elems (bs_w b))"

section \<open>The loops\<close>

lemma bitset_loop_eq:
  assumes "a < length st" "b < length st" "i + k = length (bs_w (st ! a))" "length (bs_w (st ! b)) = length (bs_w (st ! a))"
  shows "bitset_loop f a b i k st =
    Some (st[a := (st ! a)\<lparr>bs_w := map (\<lambda>j. if i \<le> j then f (bs_w (st ! a) ! j) (bs_w (st ! b) ! j) else bs_w (st ! a) ! j) [0..<length (bs_w (st ! a))]\<rparr>])"
  using assms
proof (induction k arbitrary: i st)
  case 0
  then have "map (\<lambda>j. if i \<le> j then f (bs_w (st ! a) ! j) (bs_w (st ! b) ! j) else bs_w (st ! a) ! j) [0..<length (bs_w (st ! a))] = bs_w (st ! a)"
    by (intro nth_equalityI) auto
  then show ?case by simp
next
  case (Suc k)
  define w v where "w = bs_w (st ! a)" and "v = bs_w (st ! b)"
  define st' where "st' = st[a := (st ! a)\<lparr>bs_w := w[i := f (w ! i) (v ! i)]\<rparr>]"
  have a': "bs_w (st' ! a) = w[i := f (w ! i) (v ! i)]" using Suc.prems by (simp add: st'_def)
  have b': "bs_w (st' ! b) = (if a = b then w[i := f (w ! i) (v ! i)] else v)" using Suc.prems by (simp add: st'_def v_def)
  have l: "i + Suc k = length w" "length v = length w" using Suc.prems by (simp_all add: w_def v_def)
  have "bitset_loop f a b i (Suc k) st = bitset_loop f a b (Suc i) k st'" using Suc.prems by (simp add: mem_simps st'_def w_def v_def)
  also have "\<dots> = Some (st'[a := (st' ! a)\<lparr>bs_w := map (\<lambda>j. if Suc i \<le> j then f (bs_w (st' ! a) ! j) (bs_w (st' ! b) ! j) else bs_w (st' ! a) ! j) [0..<length (bs_w (st' ! a))]\<rparr>])"
    by (rule Suc.IH) (use Suc.prems l a' b' in \<open>simp_all add: st'_def\<close>)
  also have "map (\<lambda>j. if Suc i \<le> j then f (bs_w (st' ! a) ! j) (bs_w (st' ! b) ! j) else bs_w (st' ! a) ! j) [0..<length (bs_w (st' ! a))] =
      map (\<lambda>j. if i \<le> j then f (w ! j) (v ! j) else w ! j) [0..<length w]"
    using l by (intro map_cong) (auto simp: a' b' nth_list_update w_def v_def Suc_le_eq le_eq_less_or_eq)
  finally show ?case using Suc.prems unfolding st'_def w_def [symmetric] v_def [symmetric] by (simp del: bitset_loop.simps)
qed

lemma bs_elems_map:
  assumes "length w = W" "length v = W" "\<And>x y i. i < 64 \<Longrightarrow> bit (f x y) i = g (bit x i) (bit y i)"
  shows "bs_elems (map (\<lambda>j. f (w ! j) (v ! j)) [0..<W]) = {i. i < 64 * W \<and> g (i \<in> bs_elems w) (i \<in> bs_elems v)}"
  using assms by (auto simp: bs_elems_def less_mult_imp_div_less mult.commute)

lemma bs_elems_update:
  assumes "i < 64 * length w" "\<And>j. j < 64 \<Longrightarrow> bit x j \<longleftrightarrow> (if j = i mod 64 then c else bit (w ! (i div 64)) j)"
  shows "bs_elems (w[i div 64 := x]) = (if c then insert i (bs_elems w) else bs_elems w - {i})"
proof (rule set_eqI)
  fix j
  have "j div 64 < length w \<longleftrightarrow> j < 64 * length w" "i div 64 < length w" using assms(1) by linarith+
  moreover have "j = i" if "j div 64 = i div 64" "j mod 64 = i mod 64" using that by (metis div_mult_mod_eq)
  ultimately show "j \<in> bs_elems (w[i div 64 := x]) \<longleftrightarrow> j \<in> (if c then insert i (bs_elems w) else bs_elems w - {i})"
    using assms by (cases "j div 64 = i div 64") (auto simp: bs_elems_def)
qed

section \<open>A store of bit sets refines a list of sets\<close>

lemma store_invD:
  assumes "store_inv W K n st" "a < K"
  shows "a < length st" "length (bs_w (st ! a)) = W" "unat (bs_n (st ! a)) = W" "W < 2 ^ 58"
proof -
  show "a < length st" using assms by (simp add: store_inv_def)
  then have "bs_inv W (st ! a)" using assms(1) by (simp add: store_inv_def)
  then show "length (bs_w (st ! a)) = W" "unat (bs_n (st ! a)) = W" "W < 2 ^ 58" by (simp_all add: bs_inv_def)
qed

lemma store_inv_update: "store_inv W K n st \<Longrightarrow> bs_inv W b \<Longrightarrow> store_inv W K (Suc n) (st[a := b])"
  unfolding store_inv_def by (auto dest!: set_update_subset_insert [THEN subsetD])

lemma index_parts:
  fixes i :: u64
  assumes "unat i < 64 * W" "unat n = W" "W < 2 ^ 58"
  shows "i < 64 * n" "unat (i div 64) = unat i div 64" "unat (i mod 64) = unat i mod 64" "unat i div 64 < W" "unat i mod 64 < 64"
proof -
  have "unat (64 * n) = 64 * W" using assms(2,3) by (simp add: unat_word_ariths)
  then show "i < 64 * n" using assms(1) by (simp add: word_less_nat_alt)
  show "unat (i div 64) = unat i div 64" "unat (i mod 64) = unat i mod 64" by (simp_all add: unat_div_distrib unat_mod_distrib)
  show "unat i div 64 < W" using assms(1) by linarith
  show "unat i mod 64 < 64" by simp
qed

lemma bitset_binop_refines:
  assumes inv: "store_inv W K n st" and ab: "a < K" "b < K" and f: "\<And>x y i. i < 64 \<Longrightarrow> bit (f x y) i = g (bit x i) (bit y i)"
  shows "\<exists>st'. bitset_loop f a b 0 W st = Some st' \<and> store_inv W K (Suc n) st' \<and>
    store_sets st' = (store_sets st)[a := {i. i < 64 * W \<and> g (i \<in> store_sets st ! a) (i \<in> store_sets st ! b)}]"
proof -
  note A = store_invD [OF inv ab(1)] and B = store_invD [OF inv ab(2)]
  let ?w = "map (\<lambda>j. f (bs_w (st ! a) ! j) (bs_w (st ! b) ! j)) [0..<W]"
  have "bitset_loop f a b 0 W st = Some (st[a := (st ! a)\<lparr>bs_w := ?w\<rparr>])" using A B by (simp add: bitset_loop_eq)
  moreover have "store_inv W K (Suc n) (st[a := (st ! a)\<lparr>bs_w := ?w\<rparr>])" using A by (intro store_inv_update [OF inv]) (simp add: bs_inv_def)
  ultimately show ?thesis using A(1) B(1) bs_elems_map [of _ W _ f g, OF A(2) B(2) f] by (simp add: map_update)
qed

lemma elems_bound: "store_inv W K n st \<Longrightarrow> a < K \<Longrightarrow> i \<in> bs_elems (bs_w (st ! a)) \<Longrightarrow> i < 64 * W"
  using store_invD [of W K n st a] by (simp add: bs_elems_def)

lemma word_elems:
  assumes inv: "store_inv W K n st" and a: "a < K" and i: "unat i < 64 * W"
    and x: "\<And>j. j < 64 \<Longrightarrow> bit x j \<longleftrightarrow> (if j = unat i mod 64 then c else bit (bs_w (st ! a) ! (unat i div 64)) j)"
  defines "A \<equiv> (st ! a)\<lparr>bs_w := (bs_w (st ! a))[unat i div 64 := x]\<rparr>"
  shows "store_inv W K (Suc n) (st[a := A]) \<and>
    store_sets (st[a := A]) = (store_sets st)[a := if c then insert (unat i) (store_sets st ! a) else store_sets st ! a - {unat i}]"
proof -
  note A = store_invD [OF inv a]
  have "store_inv W K (Suc n) (st[a := A])" using A by (intro store_inv_update [OF inv]) (simp add: bs_inv_def A_def)
  then show ?thesis using A bs_elems_update [of "unat i" "bs_w (st ! a)" x c] i x by (simp add: map_update A_def)
qed

lemma bit_single: "bit (push_bit k 1 :: u64) j \<longleftrightarrow> j = k \<and> j < 64" "bit (2 ^ k :: u64) j \<longleftrightarrow> j = k \<and> j < 64"
  by (auto simp: bit_simps)

lemma isset_bit: "k < 64 \<Longrightarrow> 0 < w AND push_bit k 1 \<longleftrightarrow> bit w k" for w :: u64
proof -
  assume k: "k < 64"
  have "w AND push_bit k 1 = (if bit w k then push_bit k 1 else 0)" by (rule bit_word_eqI) (auto simp: bit_simps)
  moreover have "push_bit k 1 \<noteq> (0 :: u64)" using k by (metis bit_single(1) bit_0_eq bot_apply bot_bool_def)
  ultimately show ?thesis by (simp add: word_greater_zero_iff)
qed

lemma bitset_set_refines:
  assumes inv: "store_inv W K n st" and a: "a < K" and i: "unat i < 64 * W"
  shows "\<exists>A. bitset_set (st ! a) i = Some A \<and> store_inv W K (Suc n) (st[a := A]) \<and>
    store_sets (st[a := A]) = (store_sets st)[a := insert (unat i) (store_sets st ! a)]"
proof -
  note A = store_invD [OF inv a] and I = index_parts [OF i store_invD(3,4) [OF inv a]]
  let ?x = "bs_w (st ! a) ! (unat i div 64) OR push_bit (unat i mod 64) 1"
  have "bitset_set (st ! a) i = Some ((st ! a)\<lparr>bs_w := (bs_w (st ! a))[unat i div 64 := ?x]\<rparr>)"
    using A I by (simp add: bitset_set_def mem_simps)
  moreover have "bit ?x j \<longleftrightarrow> (if j = unat i mod 64 then True else bit (bs_w (st ! a) ! (unat i div 64)) j)" if "j < 64" for j
    using that by (auto simp: bit_or_iff bit_single)
  ultimately show ?thesis using word_elems [OF inv a i, of ?x True] by auto
qed

lemma bitset_clr_refines:
  assumes inv: "store_inv W K n st" and a: "a < K" and i: "unat i < 64 * W"
  shows "\<exists>A. bitset_clr (st ! a) i = Some A \<and> store_inv W K (Suc n) (st[a := A]) \<and>
    store_sets (st[a := A]) = (store_sets st)[a := store_sets st ! a - {unat i}]"
proof -
  note A = store_invD [OF inv a] and I = index_parts [OF i store_invD(3,4) [OF inv a]]
  let ?x = "bs_w (st ! a) ! (unat i div 64) AND NOT (push_bit (unat i mod 64) 1)"
  have "bitset_clr (st ! a) i = Some ((st ! a)\<lparr>bs_w := (bs_w (st ! a))[unat i div 64 := ?x]\<rparr>)"
    using A I by (simp add: bitset_clr_def mem_simps)
  moreover have "bit ?x j \<longleftrightarrow> (if j = unat i mod 64 then False else bit (bs_w (st ! a) ! (unat i div 64)) j)" if "j < 64" for j
    using that by (auto simp: bit_and_iff bit_not_iff bit_single)
  ultimately show ?thesis using word_elems [OF inv a i, of ?x False] by auto
qed

lemma bitset_isset_refines:
  assumes inv: "store_inv W K n st" and a: "a < K" and i: "unat i < 64 * W"
  shows "bitset_isset (st ! a) i = Some (unat i \<in> store_sets st ! a)"
proof -
  note A = store_invD [OF inv a] and I = index_parts [OF i store_invD(3,4) [OF inv a]]
  show ?thesis using A I isset_bit [OF I(5), of "bs_w (st ! a) ! (unat i div 64)"] i by (simp add: bitset_isset_def mem_simps bs_elems_def)
qed

lemma bitset_ops_refine:
  assumes inv: "store_inv W K n st" and ab: "a < K" "b < K"
  defines "S \<equiv> store_sets st"
  shows "\<exists>st'. bitset_or a b st = Some st' \<and> store_inv W K (Suc n) st' \<and> store_sets st' = S[a := S ! a \<union> S ! b]"
    "\<exists>st'. bitset_and a b st = Some st' \<and> store_inv W K (Suc n) st' \<and> store_sets st' = S[a := S ! a \<inter> S ! b]"
    "\<exists>st'. bitset_xor a b st = Some st' \<and> store_inv W K (Suc n) st' \<and> store_sets st' = S[a := (S ! a - S ! b) \<union> (S ! b - S ! a)]"
    "\<exists>st'. bitset_andnot a b st = Some st' \<and> store_inv W K (Suc n) st' \<and> store_sets st' = S[a := S ! a - S ! b]"
    "\<exists>st'. bitset_not a st = Some st' \<and> store_inv W K (Suc n) st' \<and> store_sets st' = S[a := {..<64 * W} - S ! a]"
proof -
  note A = store_invD [OF inv ab(1)] and B = store_invD [OF inv ab(2)]
  have n: "bs_n (st ! a) = bs_n (st ! b)" using A(3) B(3) by (metis unat_inj)
  have bound: "i \<in> S ! a \<Longrightarrow> i < 64 * W" "i \<in> S ! b \<Longrightarrow> i < 64 * W" for i
    using elems_bound [OF inv ab(1)] elems_bound [OF inv ab(2)] A(1) B(1) by (simp_all add: S_def)
  have op: "\<exists>st'. bitset_binop f a b st = Some st' \<and> store_inv W K (Suc n) st' \<and> store_sets st' = S[a := T]"
    if "\<And>x y i. i < 64 \<Longrightarrow> bit (f x y) i = g (bit x i) (bit y i)" "T = {i. i < 64 * W \<and> g (i \<in> S ! a) (i \<in> S ! b)}" for f g T
    using bitset_binop_refines [OF inv ab, of f g] that A B n unfolding S_def by (simp add: bitset_binop_def mem_simps)
  show "\<exists>st'. bitset_or a b st = Some st' \<and> store_inv W K (Suc n) st' \<and> store_sets st' = S[a := S ! a \<union> S ! b]"
    unfolding bitset_or_def by (rule op [where g = "(\<or>)"]) (use bound in \<open>auto simp: bit_or_iff\<close>)
  show "\<exists>st'. bitset_and a b st = Some st' \<and> store_inv W K (Suc n) st' \<and> store_sets st' = S[a := S ! a \<inter> S ! b]"
    unfolding bitset_and_def by (rule op [where g = "(\<and>)"]) (use bound in \<open>auto simp: bit_and_iff\<close>)
  show "\<exists>st'. bitset_xor a b st = Some st' \<and> store_inv W K (Suc n) st' \<and> store_sets st' = S[a := (S ! a - S ! b) \<union> (S ! b - S ! a)]"
    unfolding bitset_xor_def by (rule op [where g = "(\<noteq>)"]) (use bound in \<open>auto simp: bit_xor_iff\<close>)
  show "\<exists>st'. bitset_andnot a b st = Some st' \<and> store_inv W K (Suc n) st' \<and> store_sets st' = S[a := S ! a - S ! b]"
    unfolding bitset_andnot_def by (rule op [where g = "\<lambda>p q. p \<and> \<not> q"]) (use bound in \<open>auto simp: bit_and_iff bit_not_iff\<close>)
  have "{..<64 * W} - S ! a = {i. i < 64 * W \<and> i \<notin> S ! a}" by auto
  then show "\<exists>st'. bitset_not a st = Some st' \<and> store_inv W K (Suc n) st' \<and> store_sets st' = S[a := {..<64 * W} - S ! a]"
    using bitset_binop_refines [OF inv ab(1,1), of "\<lambda>x y. NOT x" "\<lambda>p q. \<not> p"] A unfolding S_def
    by (simp add: bitset_not_def mem_simps bit_not_iff)
qed

lemma bitset_copy_refines:
  assumes inv: "store_inv W K n st" and ab: "a < K" "b < K"
  shows "store_inv W K (Suc n) (st[a := st ! b])" "bitset_dup True (st ! b) = Some (st ! b)"
    "a \<noteq> b \<Longrightarrow> bitset_copy a b st = Some (st[a := st ! b])" "store_sets (st[a := st ! b]) = (store_sets st)[a := store_sets st ! b]"
proof -
  note A = store_invD [OF inv ab(1)] and B = store_invD [OF inv ab(2)]
  have n: "bs_n (st ! a) = bs_n (st ! b)" using A(3) B(3) by (metis unat_inj)
  then have eq: "(st ! a)\<lparr>bs_w := bs_w (st ! b)\<rparr> = st ! b" by (simp add: bitset.equality)
  show "store_inv W K (Suc n) (st[a := st ! b])" using B by (intro store_inv_update [OF inv]) (simp add: bs_inv_def)
  show "bitset_dup True (st ! b) = Some (st ! b)" using B by (simp add: bitset_dup_def)
  show "a \<noteq> b \<Longrightarrow> bitset_copy a b st = Some (st[a := st ! b])" using A B n by (simp add: bitset_copy_def mem_simps) (subst eq, rule refl)
  show "store_sets (st[a := st ! b]) = (store_sets st)[a := store_sets st ! b]" using B by (simp add: map_update)
qed

lemma bitset_step_refines:
  assumes inv: "store_inv W K n st" and valid: "bitset_valid W K x"
  shows "\<exists>r st'. bitset_step x st = Some (r, st') \<and> store_inv W K (Suc n) st' \<and> (r, store_sets st') = set_step W x (store_sets st)"
proof -
  have len: "length st = K" and le: "store_inv W K (Suc n) st" using inv by (simp_all add: store_inv_def)
  note ops = bitset_ops_refine [OF inv] and bits = bitset_set_refines [OF inv] bitset_clr_refines [OF inv] and copies = bitset_copy_refines [OF inv]
  show ?thesis using valid
  proof (cases x)
    case (Bs_set a i)
    then show ?thesis using valid bits(1) [of a i] len by (auto simp: mem_simps)
  next
    case (Bs_clr a i)
    then show ?thesis using valid bits(2) [of a i] len by (auto simp: mem_simps)
  next
    case (Bs_isset a i)
    then show ?thesis using valid bitset_isset_refines [OF inv, of a i] len le by (auto simp: mem_simps)
  next
    case (Bs_or a b)
    then show ?thesis using valid ops(1) [of a b] by auto
  next
    case (Bs_and a b)
    then show ?thesis using valid ops(2) [of a b] by auto
  next
    case (Bs_xor a b)
    then show ?thesis using valid ops(3) [of a b] by auto
  next
    case (Bs_andnot a b)
    then show ?thesis using valid ops(4) [of a b] by auto
  next
    case (Bs_copy a b)
    then show ?thesis using valid copies [of a b] by auto
  next
    case (Bs_dup ok a b)
    then show ?thesis using valid copies [of a b] len by (auto simp: mem_simps)
  qed
qed

interpretation bss: simulation bitset_step "set_step W" "store_inv W K" store_sets "bitset_valid W K" budget for W K budget
  by unfold_locales (rule bitset_step_refines)

section \<open>Properties\<close>

text \<open>\<open>bitset_not\<close> complements the set, also the bits above the requested ones; its comment, "a &= ~a", describes the empty set.\<close>

lemma bitset_not_complements:
  "store_inv W K n st \<Longrightarrow> a < K \<Longrightarrow>
   \<exists>st'. bitset_not a st = Some st' \<and> store_inv W K (Suc n) st' \<and> store_sets st' = (store_sets st)[a := {..<64 * W} - store_sets st ! a]"
  using bitset_ops_refine(5) by blast

text \<open>\<open>_ALIGN_UP(n, 64) / 64\<close> rounds up, unless the sum wraps.\<close>

lemma BITSIZE_W_eq: "unat n + 63 < 2 ^ 64 \<Longrightarrow> unat (BITSIZE_W n) = (unat n + 63) div 64"
proof -
  assume n: "unat n + 63 < 2 ^ 64"
  show ?thesis using ALIGN_UP_exp [of 6 n] n by (simp add: BITSIZE_W_def unat_div_distrib)
qed

text \<open>
  C31: Bit sets are sets. On a store of bit sets of the same size, any sequence of set, clear and test of bits in range, union, intersection, symmetric
  difference and difference (also with equal operands), copies between different bit sets and duplications whose allocation succeeds runs
  without a fault and returns what the same operations return on sets; a new bit set is empty and has room for the requested bits. Out of range indices and
  a copy of a bit set to itself are outside the statement (the first fails an assertion, the second is an overlapping \<open>memcpy\<close>).
\<close>

theorem bitset_run_refines_sets:
  assumes "unat n + 63 < 2 ^ 64" "list_all (bitset_valid ((unat n + 63) div 64) K) xs"
  shows "\<exists>b rs st. bitset_new True n = Some b \<and> unat n \<le> 64 * ((unat n + 63) div 64) \<and>
    table_ops bitset_step xs (replicate K b) = Some (rs, st) \<and>
    (rs, store_sets st) = spec_ops (set_step ((unat n + 63) div 64)) xs (replicate K {})"
proof -
  let ?W = "(unat n + 63) div 64" and ?b = "\<lparr>bs_n = BITSIZE_W n, bs_w = replicate (unat (BITSIZE_W n)) 0\<rparr>"
  have W: "unat (BITSIZE_W n) = ?W" "?W < 2 ^ 58" using BITSIZE_W_eq [OF assms(1)] assms(1) by simp_all
  have "store_inv ?W K 0 (replicate K ?b)" using W by (simp add: store_inv_def bs_inv_def)
  moreover have "store_sets (replicate K ?b) = replicate K {}" using W by (simp add: bs_elems_def)
  ultimately obtain rs st where "table_ops bitset_step xs (replicate K ?b) = Some (rs, st)"
    "(rs, store_sets st) = spec_ops (set_step ?W) xs (replicate K {})"
    using bss.run_refines [of ?W K 0 "replicate K ?b" xs "length xs"] assms(2) by auto
  moreover have "unat n \<le> 64 * ?W" by linarith
  ultimately show ?thesis by (intro exI [of _ ?b] exI [of _ rs] exI [of _ st]) (simp add: bitset_new_def Let_def)
qed

theorem bitset_run_refines_sets_witness:
  "\<exists>b rs st. bitset_new True 100 = Some b \<and>
     table_ops bitset_step [Bs_set 0 99, Bs_or 1 0, Bs_xor 0 0, Bs_isset 1 99, Bs_isset 0 99, Bs_dup True 0 1, Bs_isset 0 99] (replicate 2 b) = Some (rs, st) \<and>
     rs = [True, True, True, True, False, True, True]"
proof -
  let ?xs = "[Bs_set 0 99, Bs_or 1 0, Bs_xor 0 0, Bs_isset 1 99, Bs_isset 0 99, Bs_dup True 0 1, Bs_isset 0 99]"
  have W: "(unat (100 :: u64) + 63) div 64 = 2" by simp
  obtain b rs st where "bitset_new True 100 = Some b" "table_ops bitset_step ?xs (replicate 2 b) = Some (rs, st)"
    "(rs, store_sets st) = spec_ops (set_step 2) ?xs (replicate 2 {})"
    using bitset_run_refines_sets [of 100 2 ?xs] by (auto simp: W)
  moreover have "replicate 2 {} = [{}, {} :: nat set]" by (simp add: numeral_2_eq_2)
  ultimately show ?thesis by auto
qed

end
