(* ===== verification/Arena.thy ===== *)
theory Arena
  imports Bits
begin

text \<open>
  The arena allocator of \<open>src/arena.c\<close>: objects are carved from chunks obtained with \<open>malloc\<close> and all freed together. Pointers are
  addresses; a node is known by its address, and the singly linked list of nodes is the list of them from its head. What \<open>malloc\<close> returns for
  a size is an argument; the reachable states assume what \<open>malloc\<close> promises.
\<close>

section \<open>The allocator\<close>

definition DEFAULT_CHUNK_SIZE :: u64 where
  "DEFAULT_CHUNK_SIZE = 128 * 1024"

record arena_node =
  an_addr :: u64
  an_total :: u64
  an_free :: u64
  an_end :: u64

record arena =
  ar_head :: "arena_node list"
  ar_chunk_size :: u64

definition SYS_ALIGNMENT :: u64 where
  "SYS_ALIGNMENT = 8"

definition sizeof_node :: u64 where
  "sizeof_node = 32"

text \<open>\<open>p_arena\<close> says whether the caller's pointer is not null, \<open>ok\<close> whether the allocation of the arena itself succeeds.\<close>

definition arena_new :: "bool \<Rightarrow> bool \<Rightarrow> u64 \<Rightarrow> arena res" where
  "arena_new p_arena ok chunk_size =
    (if \<not> p_arena then Inl EINVAL
     else let chunk_size = (if chunk_size \<le> 0 then DEFAULT_CHUNK_SIZE else chunk_size)
          in if ok then Inr \<lparr>ar_head = [], ar_chunk_size = chunk_size\<rparr> else Inl ENOMEM)"

definition avail :: "arena_node \<Rightarrow> u64" where
  "avail n = an_end n - an_free n"

text \<open>From the label \<open>_found\<close>: the memory and the node with its free area advanced.\<close>

definition carve :: "arena_node \<Rightarrow> u64 \<Rightarrow> u64 \<times> arena_node" where
  "carve n nbytes = (let mem = ALIGN_UP (an_free n) SYS_ALIGNMENT in (mem, n\<lparr>an_free := mem + nbytes\<rparr>))"

text \<open>The loop over the nodes: the first that has room.\<close>

fun first_fit :: "u64 \<Rightarrow> arena_node list \<Rightarrow> (u64 \<times> arena_node list) option" where
  "first_fit nbytes [] = None"
| "first_fit nbytes (n # ns) =
    (if avail n \<ge> nbytes then (let (mem, n) = carve n nbytes in Some (mem, n # ns))
     else map_option (apsnd ((#) n)) (first_fit nbytes ns))"

definition new_node :: "u64 \<Rightarrow> u64 \<Rightarrow> arena_node" where
  "new_node addr chunk =
    (let free = addr + sizeof_node in \<lparr>an_addr = addr, an_total = chunk, an_free = free, an_end = free + chunk\<rparr>)"

definition arena_alloc :: "(u64 \<Rightarrow> u64) \<Rightarrow> arena \<Rightarrow> u64 \<Rightarrow> u64 \<times> arena" where
  "arena_alloc malloc a nbytes =
    (let nbytes = ALIGN_UP nbytes SYS_ALIGNMENT in
     case first_fit nbytes (ar_head a) of
       Some (mem, ns) \<Rightarrow> (mem, a\<lparr>ar_head := ns\<rparr>)
     | None \<Rightarrow>
         (let chunk = (if nbytes < ar_chunk_size a then ar_chunk_size a else nbytes * 16);
              n = malloc (sizeof_node + chunk)
          in if n = 0 then (0, a)
             else let (mem, n) = carve (new_node n chunk) nbytes in (mem, a\<lparr>ar_head := n # ar_head a\<rparr>)))"

text \<open>The addresses that are freed, in order.\<close>

definition arena_delete :: "arena \<Rightarrow> u64 list" where
  "arena_delete a = map an_addr (ar_head a)"

section \<open>Reachable states\<close>

definition span :: "u64 \<Rightarrow> nat \<Rightarrow> nat set" where
  "span p k = {unat p..<unat p + k}"

definition node_span :: "arena_node \<Rightarrow> nat set" where
  "node_span n = span (an_addr n) (32 + unat (an_total n))"

text \<open>The size that \<open>arena_alloc\<close> asks \<open>malloc\<close> for when no chunk has room.\<close>

definition chunk_for :: "arena \<Rightarrow> u64 \<Rightarrow> u64" where
  "chunk_for a nb = (if nb < ar_chunk_size a then ar_chunk_size a else nb * 16)"

definition chunk_request :: "arena \<Rightarrow> u64 \<Rightarrow> u64" where
  "chunk_request a nbytes = sizeof_node + chunk_for a (ALIGN_UP nbytes SYS_ALIGNMENT)"

text \<open>
  What \<open>malloc\<close> promises of the answer \<open>p\<close> to a request of \<open>sz\<close> bytes while the chunks \<open>ns\<close> are in use: it is null, or aligned memory that does not
  wrap around the address space and is apart from them. The promise is about that one answer; it says nothing of other sizes.
\<close>

definition malloc_ok :: "u64 \<Rightarrow> u64 \<Rightarrow> arena_node list \<Rightarrow> bool" where
  "malloc_ok p sz ns \<longleftrightarrow>
    p = 0 \<or> unat p mod 8 = 0 \<and> unat p + unat sz < 2 ^ 64 \<and> (\<forall>n \<in> set ns. span p (unat sz) \<inter> node_span n = {})"

text \<open>The blocks handed out so far are recorded with the size that was requested.\<close>

inductive arena_reach :: "arena \<Rightarrow> (u64 \<times> u64) list \<Rightarrow> bool" where
  init: "arena_new True True chunk_size = Inr a \<Longrightarrow> unat chunk_size < 2 ^ 63 \<Longrightarrow> arena_reach a []"
| alloc: "arena_reach a bs \<Longrightarrow> unat nbytes < 2 ^ 59 \<Longrightarrow> malloc_ok (malloc (chunk_request a nbytes)) (chunk_request a nbytes) (ar_head a) \<Longrightarrow>
    arena_alloc malloc a nbytes = (mem, a') \<Longrightarrow>
    arena_reach a' (if mem = 0 then bs else (mem, nbytes) # bs)"

section \<open>The invariant\<close>

definition node_ok :: "arena_node \<Rightarrow> bool" where
  "node_ok n \<longleftrightarrow> unat (an_addr n) mod 8 = 0 \<and> unat (an_free n) mod 8 = 0 \<and> 0 < unat (an_addr n) \<and> unat (an_addr n) + 32 \<le> unat (an_free n) \<and>
     unat (an_free n) \<le> unat (an_end n) \<and> unat (an_end n) = unat (an_addr n) + 32 + unat (an_total n)"

definition used_span :: "arena_node \<Rightarrow> nat set" where
  "used_span n = {unat (an_addr n) + 32..<unat (an_free n)}"

abbreviation (input) apart :: "nat set list \<Rightarrow> bool" where
  "apart \<equiv> sorted_wrt (\<lambda>s t. s \<inter> t = {})"

definition block_span :: "u64 \<times> u64 \<Rightarrow> nat set" where
  "block_span b = span (fst b) (unat (snd b))"

definition arena_inv :: "arena \<Rightarrow> (u64 \<times> u64) list \<Rightarrow> bool" where
  "arena_inv a bs \<longleftrightarrow> unat (ar_chunk_size a) < 2 ^ 63 \<and> (\<forall>n \<in> set (ar_head a). node_ok n) \<and> apart (map node_span (ar_head a)) \<and>
     (\<forall>b \<in> set bs. unat (fst b) mod 8 = 0 \<and> (\<exists>n \<in> set (ar_head a). block_span b \<subseteq> used_span n)) \<and> apart (map block_span bs)"

lemma used_in_node: "node_ok n \<Longrightarrow> used_span n \<subseteq> node_span n"
  by (auto simp: used_span_def node_span_def span_def node_ok_def)

lemma align_8: "unat v + 7 < 2 ^ 64 \<Longrightarrow> unat (ALIGN_UP v SYS_ALIGNMENT) = (unat v + 7) div 8 * 8"
  using ALIGN_UP_exp [of 3 v] by (simp add: SYS_ALIGNMENT_def)

text \<open>Carving from a node with room: the block is the start of its free area.\<close>

lemma carve_ok:
  assumes n: "node_ok n" and room: "unat nb \<le> unat (an_end n) - unat (an_free n)" and nb: "unat nb mod 8 = 0" "k \<le> unat nb"
  shows "\<exists>n'. carve n nb = (an_free n, n') \<and> node_ok n' \<and> node_span n' = node_span n \<and> used_span n \<subseteq> used_span n' \<and>
    span (an_free n) k \<subseteq> used_span n' \<and> span (an_free n) k \<inter> used_span n = {}"
proof -
  have m8: "unat (an_free n) mod 8 = 0" using n by (simp add: node_ok_def)
  have "unat (an_free n) + 7 < 2 ^ 64" using m8 unat_u64_less [of "an_free n"] by simp presburger
  then have "unat (ALIGN_UP (an_free n) SYS_ALIGNMENT) = (unat (an_free n) + 7) div 8 * 8" by (rule align_8)
  also have "\<dots> = unat (an_free n)" using m8 by presburger
  finally have mem: "ALIGN_UP (an_free n) SYS_ALIGNMENT = an_free n" by simp
  have le: "unat (an_free n) + unat nb \<le> unat (an_end n)" using n room unfolding node_ok_def by linarith
  then have sum: "unat (an_free n + nb) = unat (an_free n) + unat nb" using unat_u64_less [of "an_end n"] by (simp add: unat_word_ariths)
  have m: "(unat (an_free n) + unat nb) mod 8 = 0" using n nb(1) by (simp add: node_ok_def mod_add_eq [symmetric])
  let ?n = "n\<lparr>an_free := an_free n + nb\<rparr>"
  have "node_ok ?n" using n le sum m by (simp add: node_ok_def)
  moreover have "node_span ?n = node_span n" by (simp add: node_span_def)
  moreover have "used_span n \<subseteq> used_span ?n" "span (an_free n) k \<subseteq> used_span ?n" "span (an_free n) k \<inter> used_span n = {}"
    using sum nb(2) n by (auto simp: used_span_def span_def node_ok_def)
  ultimately show ?thesis by (simp add: carve_def mem Let_def)
qed

lemma avail_eq: "node_ok n \<Longrightarrow> unat (avail n) = unat (an_end n) - unat (an_free n)"
  unfolding avail_def node_ok_def by (metis unat_sub word_le_nat_alt)

text \<open>One node of the list is replaced by one with the same span and a larger used part; \<open>s\<close> is what was added to it.\<close>

definition grows :: "arena_node list \<Rightarrow> arena_node list \<Rightarrow> nat set \<Rightarrow> bool" where
  "grows ns ns' s \<longleftrightarrow> (\<forall>n \<in> set ns'. node_ok n) \<and> map node_span ns' = map node_span ns \<and>
     (\<forall>n \<in> set ns. \<exists>n' \<in> set ns'. used_span n \<subseteq> used_span n') \<and> (\<exists>n \<in> set ns'. s \<subseteq> used_span n) \<and> (\<forall>n \<in> set ns. s \<inter> used_span n = {})"

lemma first_fit_ok:
  assumes "\<forall>n \<in> set ns. node_ok n" "apart (map node_span ns)" "unat nb mod 8 = 0" "k \<le> unat nb" "first_fit nb ns = Some (mem, ns')"
  shows "unat mem mod 8 = 0 \<and> mem \<noteq> 0 \<and> grows ns ns' (span mem k)"
  using assms
proof (induction ns arbitrary: ns')
  case (Cons n ns)
  have n: "node_ok n" and other: "\<forall>m \<in> set ns. node_span n \<inter> node_span m = {}" using Cons.prems(1,2) by auto
  show ?case
  proof (cases "avail n \<ge> nb")
    case True
    then obtain n' where n': "carve n nb = (an_free n, n')" "node_ok n'" "node_span n' = node_span n" "used_span n \<subseteq> used_span n'"
        "span (an_free n) k \<subseteq> used_span n'" "span (an_free n) k \<inter> used_span n = {}"
      using carve_ok [OF n _ Cons.prems(3,4)] avail_eq [OF n] by (auto simp: word_le_nat_alt)
    have "span (an_free n) k \<inter> used_span m = {}" if "m \<in> set ns" for m
      using n'(2,3,5) used_in_node [of n'] used_in_node [of m] other that Cons.prems(1) by auto blast
    moreover have "unat (an_free n) mod 8 = 0" "an_free n \<noteq> 0" using n by (auto simp: node_ok_def)
    moreover have "mem = an_free n" "ns' = n' # ns" using True n'(1) Cons.prems(5) by auto
    ultimately show ?thesis using n' Cons.prems(1) by (auto simp: grows_def)
  next
    case False
    then obtain ms where ms: "first_fit nb ns = Some (mem, ms)" "ns' = n # ms" using Cons.prems(5) by auto
    then have IH: "unat mem mod 8 = 0 \<and> mem \<noteq> 0 \<and> grows ns ms (span mem k)" using Cons.IH [OF _ _ Cons.prems(3,4)] Cons.prems(1,2) by auto
    then obtain m where m: "m \<in> set ms" "span mem k \<subseteq> used_span m" "node_ok m" by (auto simp: grows_def)
    have "node_span m \<in> node_span ` set ns" using IH m(1) unfolding grows_def by (metis image_eqI image_set)
    then have "span mem k \<inter> used_span n = {}" using other m used_in_node [of m] used_in_node [OF n] by blast
    then show ?thesis using IH ms(2) n m(1) by (auto simp: grows_def)
  qed
qed simp

lemma grows_inv:
  assumes inv: "arena_inv a bs" and g: "grows (ar_head a) ns (span mem (unat nbytes))" and mem: "unat mem mod 8 = 0"
  shows "arena_inv (a\<lparr>ar_head := ns\<rparr>) ((mem, nbytes) # bs)"
proof -
  have "\<exists>n \<in> set ns. block_span b \<subseteq> used_span n" if "b \<in> set bs" for b
    using inv g that unfolding arena_inv_def grows_def by (meson order_trans)
  moreover have "span mem (unat nbytes) \<inter> block_span b = {}" if "b \<in> set bs" for b
    using inv g that unfolding arena_inv_def grows_def by blast
  ultimately show ?thesis using inv g mem by (auto simp: arena_inv_def grows_def block_span_def)
qed

text \<open>A new chunk is a node with an empty used part.\<close>

lemma new_node_ok:
  assumes "unat p mod 8 = 0" "p \<noteq> 0" "unat p + (32 + unat chunk) < 2 ^ 64"
  shows "node_ok (new_node p chunk)" "used_span (new_node p chunk) = {}" "node_span (new_node p chunk) = span p (32 + unat chunk)"
    "an_end (new_node p chunk) - an_free (new_node p chunk) = chunk"
proof -
  have f: "unat (p + 32) = unat p + 32" using assms(3) by (simp add: unat_word_ariths)
  moreover have "unat (p + 32 + chunk) = unat p + 32 + unat chunk" using assms(3) by (simp add: unat_word_ariths)
  moreover have "(unat p + 32) mod 8 = 0" using assms(1) by presburger
  moreover have "0 < unat p" using assms(2) by (simp add: unat_gt_0)
  ultimately show "node_ok (new_node p chunk)" using assms(1) by (simp add: node_ok_def new_node_def Let_def sizeof_node_def)
  show "used_span (new_node p chunk) = {}" using f by (simp add: used_span_def new_node_def Let_def sizeof_node_def)
  show "node_span (new_node p chunk) = span p (32 + unat chunk)" "an_end (new_node p chunk) - an_free (new_node p chunk) = chunk"
    by (simp_all add: node_span_def new_node_def Let_def)
qed

lemma add_chunk_inv:
  assumes "arena_inv a bs" "node_ok n" "used_span n = {}" "\<forall>m \<in> set (ar_head a). node_span n \<inter> node_span m = {}"
  shows "arena_inv (a\<lparr>ar_head := n # ar_head a\<rparr>) bs"
  using assms by (auto simp: arena_inv_def)

text \<open>The size of a new chunk: it does not wrap and has room for the request.\<close>
lemma chunk_for_room:
  assumes "unat (ar_chunk_size a) < 2 ^ 63" "unat nb \<le> 2 ^ 59"
  shows "unat nb \<le> unat (chunk_for a nb)" "unat (sizeof_node + chunk_for a nb) = 32 + unat (chunk_for a nb)"
proof -
  show "unat nb \<le> unat (chunk_for a nb)" "unat (sizeof_node + chunk_for a nb) = 32 + unat (chunk_for a nb)"
    using assms by (auto simp: chunk_for_def sizeof_node_def word_less_nat_alt unat_word_ariths)
qed

lemma arena_alloc_ok:
  assumes inv: "arena_inv a bs" and nb: "unat nbytes < 2 ^ 59" and al: "arena_alloc malloc a nbytes = (mem, a')"
    and m: "malloc_ok (malloc (chunk_request a nbytes)) (chunk_request a nbytes) (ar_head a)"
  shows "mem = 0 \<and> a' = a \<and> malloc (chunk_request a nbytes) = 0 \<and> first_fit (ALIGN_UP nbytes SYS_ALIGNMENT) (ar_head a) = None \<or>
    mem \<noteq> 0 \<and> arena_inv a' ((mem, nbytes) # bs) \<and>
    (malloc (chunk_request a nbytes) \<noteq> 0 \<or> first_fit (ALIGN_UP nbytes SYS_ALIGNMENT) (ar_head a) \<noteq> None)"
proof -
  define n8 where "n8 = ALIGN_UP nbytes SYS_ALIGNMENT"
  have "unat n8 = (unat nbytes + 7) div 8 * 8" using align_8 [of nbytes] nb by (simp add: n8_def)
  then have n8: "unat n8 mod 8 = 0" "unat nbytes \<le> unat n8" "unat n8 \<le> 2 ^ 59" using nb by simp_all
  have i: "\<forall>n \<in> set (ar_head a). node_ok n" "apart (map node_span (ar_head a))" "unat (ar_chunk_size a) < 2 ^ 63" using inv by (auto simp: arena_inv_def)
  show ?thesis
  proof (cases "first_fit n8 (ar_head a)")
    case (Some r)
    then have "mem = fst r" "a' = a\<lparr>ar_head := snd r\<rparr>" using al by (auto simp: arena_alloc_def Let_def n8_def split: prod.splits)
    then show ?thesis using first_fit_ok [OF i(1,2) n8(1,2), of "fst r" "snd r"] Some [unfolded n8_def] Some grows_inv [OF inv, of "snd r" mem nbytes] by simp
  next
    case None
    define c where "c = chunk_for a n8"
    define p where "p = malloc (sizeof_node + c)"
    have req: "chunk_request a nbytes = sizeof_node + c" by (simp add: chunk_request_def c_def n8_def)
    note room = chunk_for_room [OF i(3) n8(3), folded c_def]
    show ?thesis
    proof (cases "p = 0")
      case True
      then have "mem = 0 \<and> a' = a" using None al by (auto simp: arena_alloc_def Let_def n8_def p_def c_def chunk_for_def)
      then show ?thesis using True None by (simp add: req p_def n8_def)
    next
      case False
      have "unat p mod 8 = 0 \<and> unat p + unat (sizeof_node + c) < 2 ^ 64 \<and> (\<forall>n \<in> set (ar_head a). span p (unat (sizeof_node + c)) \<inter> node_span n = {})"
        using m False unfolding malloc_ok_def p_def req by blast
      then have p: "unat p mod 8 = 0" "unat p + (32 + unat c) < 2 ^ 64" "\<forall>n \<in> set (ar_head a). span p (32 + unat c) \<inter> node_span n = {}"
        using room(2) by auto
      define n where "n = new_node p c"
      note nn = new_node_ok [OF p(1) False p(2), folded n_def]
      let ?b = "a\<lparr>ar_head := n # ar_head a\<rparr>"
      have inv2: "arena_inv ?b bs" using add_chunk_inv [OF inv nn(1,2)] nn(3) p(3) by simp
      have "n8 \<le> avail n" using room(1) nn(4) by (simp add: avail_def word_le_nat_alt)
      then have "first_fit n8 (n # ar_head a) = Some (mem, ar_head a')" "a' = ?b\<lparr>ar_head := ar_head a'\<rparr>"
        using None False al by (auto simp: arena_alloc_def Let_def n8_def [symmetric] chunk_for_def [symmetric] c_def [symmetric] p_def [symmetric] n_def split: prod.splits)
      moreover have "\<forall>m \<in> set (n # ar_head a). node_ok m" "apart (map node_span (n # ar_head a))" using inv2 by (auto simp: arena_inv_def)
      ultimately show ?thesis using first_fit_ok [of "n # ar_head a" n8 "unat nbytes" mem "ar_head a'"] n8 grows_inv [OF inv2, of "ar_head a'" mem nbytes] False
        by (auto simp: req p_def)
    qed
  qed
qed

lemma arena_reach_inv: "arena_reach a bs \<Longrightarrow> arena_inv a bs"
proof (induction rule: arena_reach.induct)
  case (init chunk_size a)
  then show ?case by (auto simp: arena_new_def arena_inv_def DEFAULT_CHUNK_SIZE_def Let_def split: if_splits)
next
  case (alloc a bs nbytes malloc mem a')
  then show ?case using arena_alloc_ok [of a bs nbytes malloc mem a'] by auto
qed

section \<open>Properties\<close>

lemma apart_distinct:
  assumes "apart (map node_span ns)" "\<forall>n \<in> set ns. node_ok n"
  shows "distinct (map an_addr ns)"
  using assms
proof (induction ns)
  case (Cons n ns)
  have "an_addr n \<noteq> an_addr m" if "m \<in> set ns" for m
  proof
    assume "an_addr n = an_addr m"
    then have "unat (an_addr n) \<in> node_span n \<inter> node_span m" by (simp add: node_span_def span_def)
    then show False using Cons.prems that by auto
  qed
  then show ?case using Cons by auto
qed simp

lemma first_fit_None: "first_fit nb ns = None \<longleftrightarrow> (\<forall>n \<in> set ns. avail n < nb)"
  by (induction ns) (auto simp: not_le split: prod.splits)

text \<open>
  C32: The arena. After any sequence of allocations of less than \<open>2^59\<close> bytes, every block handed out is aligned and lies in the usable part of a
  chunk, the blocks do not overlap, and deleting the arena frees every chunk once. The next request returns null exactly if no chunk has room for it and
  \<open>malloc\<close> answers null to the one request made of it, for the header and the chunk size of the arena, or 16 times the request if that is larger; the
  arena is then unchanged. Whatever \<open>malloc\<close> answers to that request is assumed aligned, in the address space and apart from the chunks in use.
\<close>

theorem arena_safe:
  assumes "arena_reach a bs"
  shows "(\<forall>b \<in> set bs. unat (fst b) mod 8 = 0 \<and>
      (\<exists>n \<in> set (ar_head a). block_span b \<subseteq> {unat (an_addr n) + 32..<unat (an_addr n) + 32 + unat (an_total n)})) \<and>
    sorted_wrt (\<lambda>b c. block_span b \<inter> block_span c = {}) bs \<and> distinct (arena_delete a) \<and>
    (\<forall>nbytes malloc. unat nbytes < 2 ^ 59 \<longrightarrow> malloc_ok (malloc (chunk_request a nbytes)) (chunk_request a nbytes) (ar_head a) \<longrightarrow>
       (fst (arena_alloc malloc a nbytes) = 0 \<longleftrightarrow>
          (\<forall>n \<in> set (ar_head a). avail n < ALIGN_UP nbytes SYS_ALIGNMENT) \<and> malloc (chunk_request a nbytes) = 0) \<and>
       (fst (arena_alloc malloc a nbytes) = 0 \<longrightarrow> snd (arena_alloc malloc a nbytes) = a))"
proof -
  note inv = arena_reach_inv [OF assms]
  then have i: "\<forall>n \<in> set (ar_head a). node_ok n" "apart (map node_span (ar_head a))" "apart (map block_span bs)"
    "\<forall>b \<in> set bs. unat (fst b) mod 8 = 0 \<and> (\<exists>n \<in> set (ar_head a). block_span b \<subseteq> used_span n)" by (auto simp: arena_inv_def)
  have "used_span n \<subseteq> {unat (an_addr n) + 32..<unat (an_addr n) + 32 + unat (an_total n)}" if "n \<in> set (ar_head a)" for n
    using i(1) that by (auto simp: used_span_def node_ok_def)
  then have "\<forall>b \<in> set bs. unat (fst b) mod 8 = 0 \<and>
      (\<exists>n \<in> set (ar_head a). block_span b \<subseteq> {unat (an_addr n) + 32..<unat (an_addr n) + 32 + unat (an_total n)})"
    using i(4) by (meson order_trans)
  moreover have "(fst (arena_alloc malloc a nbytes) = 0 \<longleftrightarrow>
        (\<forall>n \<in> set (ar_head a). avail n < ALIGN_UP nbytes SYS_ALIGNMENT) \<and> malloc (chunk_request a nbytes) = 0) \<and>
      (fst (arena_alloc malloc a nbytes) = 0 \<longrightarrow> snd (arena_alloc malloc a nbytes) = a)"
    if "unat nbytes < 2 ^ 59" "malloc_ok (malloc (chunk_request a nbytes)) (chunk_request a nbytes) (ar_head a)" for nbytes malloc
    using arena_alloc_ok [where malloc = malloc, OF inv that(1) surjective_pairing that(2)] unfolding first_fit_None by blast
  ultimately show ?thesis using i(3) apart_distinct [OF i(2,1)] unfolding sorted_wrt_map arena_delete_def by blast
qed

definition arena_demo :: "arena \<times> (u64 \<times> u64) list" where
  "arena_demo =
    (let m = (\<lambda>sz. 0x1000);
         a = \<lparr>ar_head = [], ar_chunk_size = 64\<rparr>;
         (p, a) = arena_alloc m a 5;
         (q, a) = arena_alloc (\<lambda>sz. 0) a 20
     in (a, [(q, 20), (p, 5)]))"

lemma arena_demo_reach: "arena_reach (fst arena_demo) (snd arena_demo)"
proof -
  define m :: "u64 \<Rightarrow> u64" where "m = (\<lambda>sz. 0x1000)"
  let ?a0 = "\<lparr>ar_head = [], ar_chunk_size = 64\<rparr>"
  have a0: "arena_reach ?a0 []" by (rule arena_reach.init [of 64]) (simp_all add: arena_new_def)
  define a1 where "a1 = snd (arena_alloc m ?a0 5)"
  have 1: "arena_alloc m ?a0 5 = (0x1020, a1)" unfolding a1_def m_def by code_simp
  have "chunk_request ?a0 5 = 96" by code_simp
  then have "malloc_ok (m (chunk_request ?a0 5)) (chunk_request ?a0 5) (ar_head ?a0)" by (simp add: malloc_ok_def m_def)
  then have a1: "arena_reach a1 [(0x1020, 5)]" using arena_reach.alloc [OF a0 _ _ 1] by simp
  define a2 where "a2 = snd (arena_alloc (\<lambda>sz. 0) a1 20)"
  have 2: "arena_alloc (\<lambda>sz. 0) a1 20 = (0x1028, a2)" unfolding a2_def a1_def m_def by code_simp
  have "arena_reach a2 [(0x1028, 20), (0x1020, 5)]" using arena_reach.alloc [OF a1 _ _ 2] by (simp add: malloc_ok_def)
  moreover have "arena_demo = (a2, [(0x1028, 20), (0x1020, 5)])" using 1 2 by (simp add: arena_demo_def m_def [symmetric] Let_def)
  ultimately show ?thesis by (metis fst_conv snd_conv)
qed

theorem arena_safe_witness:
  "length (snd arena_demo) = 2 \<and> sorted_wrt (\<lambda>b c. block_span b \<inter> block_span c = {}) (snd arena_demo) \<and>
   fst (arena_alloc (\<lambda>sz. 0) (fst arena_demo) 32) \<noteq> 0 \<and> fst (arena_alloc (\<lambda>sz. 0) (fst arena_demo) 33) = 0 \<and>
   fst (arena_alloc (\<lambda>sz. 0x2000) (fst arena_demo) 33) \<noteq> 0"
proof -
  note safe = arena_safe [OF arena_demo_reach]
  let ?n = "\<lparr>an_addr = 0x1000, an_total = 64, an_free = 0x1040, an_end = 0x1060\<rparr>"
  have 1: "length (snd arena_demo) = 2" by code_simp
  have 2: "malloc_ok 0 sz ns" for sz ns by (simp add: malloc_ok_def)
  have 3: "ar_head (fst arena_demo) = [?n]" "chunk_request (fst arena_demo) 33 = 96"
    "avail ?n < ALIGN_UP 33 SYS_ALIGNMENT" "\<not> avail ?n < ALIGN_UP 32 SYS_ALIGNMENT" by code_simp+
  have 4: "malloc_ok 0x2000 96 (ar_head (fst arena_demo))" unfolding 3(1) by (simp add: malloc_ok_def span_def node_span_def)
  have s2: "sorted_wrt (\<lambda>b c. block_span b \<inter> block_span c = {}) (snd arena_demo)" using safe by blast
  have s3: "(fst (arena_alloc m (fst arena_demo) n) = 0) =
      ((\<forall>n' \<in> set (ar_head (fst arena_demo)). avail n' < ALIGN_UP n SYS_ALIGNMENT) \<and> m (chunk_request (fst arena_demo) n) = 0)"
    if "unat n < 2 ^ 59" "malloc_ok (m (chunk_request (fst arena_demo) n)) (chunk_request (fst arena_demo) n) (ar_head (fst arena_demo))" for n m
    using safe that by blast
  show ?thesis using 1 s2 s3 [of 32 "\<lambda>sz. 0"] s3 [of 33 "\<lambda>sz. 0"] s3 [of 33 "\<lambda>sz. 0x2000"] 2 3 4 by simp
qed

text \<open>Without the limit on the request, the size of a new chunk wraps: a request of \<open>2^60\<close> bytes gets a chunk with no room at all.\<close>

theorem arena_huge_request_overflows:
  "\<exists>n. arena_alloc (\<lambda>sz. 0x1000) \<lparr>ar_head = [], ar_chunk_size = 64\<rparr> 0x1000000000000000 = (0x1020, \<lparr>ar_head = [n], ar_chunk_size = 64\<rparr>) \<and>
     an_total n = 0 \<and> an_end n = 0x1020 \<and> an_free n = 0x1000000000001020"
proof -
  have "arena_alloc (\<lambda>sz. 0x1000) \<lparr>ar_head = [], ar_chunk_size = 64\<rparr> 0x1000000000000000 =
    (0x1020, \<lparr>ar_head = [\<lparr>an_addr = 0x1000, an_total = 0, an_free = 0x1000000000001020, an_end = 0x1020\<rparr>], ar_chunk_size = 64\<rparr>)" by code_simp
  then show ?thesis by simp
qed

end
