(* ===== verification/Strsplit.thy ===== *)
theory Strsplit
  imports Cstring
begin

text \<open>
  Splitting a string at delimiters: \<open>src/strsplit.c\<close>. The string is a buffer of bytes up to a terminator, and the tokens are positions in it,
  kept in the vector \<open>stra\<close>. The capacity of a vector that cannot grow is negative, as in the code.
\<close>

section \<open>The vector of tokens\<close>

record stra =
  sa_arr :: "nat option list"
  sa_size :: int
  sa_cap :: int

definition stra_init :: "bool \<Rightarrow> stra" where
  "stra_init ok = \<lparr>sa_arr = (if ok then replicate 16 None else []), sa_size = 0, sa_cap = 16\<rparr>"

definition stra_init_from :: "nat option list \<Rightarrow> int \<Rightarrow> stra" where
  "stra_init_from v n = \<lparr>sa_arr = v, sa_size = 0, sa_cap = - n\<rparr>"

text \<open>\<open>assert(newarr)\<close>: a failed reallocation aborts, and so does a capacity that no longer is an \<open>int\<close>.\<close>

definition stra_resize :: "bool \<Rightarrow> stra \<Rightarrow> stra option" where
  "stra_resize ok a =
    (let newcap = sa_cap a * 2 in
     if \<not> ok \<or> 2 ^ 31 \<le> newcap then None
     else Some (a\<lparr>sa_arr := take (nat (sa_cap a)) (sa_arr a) @ replicate (nat (sa_cap a)) None, sa_cap := newcap\<rparr>))"

definition stra_resize_if :: "bool \<Rightarrow> stra \<Rightarrow> int \<Rightarrow> (bool \<times> stra) option" where
  "stra_resize_if ok a n =
    (let want = sa_size a + n in
     if sa_cap a < 0 then Some (want \<le> - sa_cap a, a)
     else if want \<ge> sa_cap a then map_option (Pair True) (stra_resize ok a)
     else Some (True, a))"

definition stra_put :: "stra \<Rightarrow> nat \<Rightarrow> stra option" where
  "stra_put a p = do { v \<leftarrow> put_at (sa_arr a) (nat (sa_size a)) (Some p); Some (a\<lparr>sa_arr := v, sa_size := sa_size a + 1\<rparr>) }"

section \<open>The two loops\<close>

text \<open>The last token, after the terminator was found: \<open>if (*begin)\<close>.\<close>

definition split_end :: "bool \<Rightarrow> u8 list \<Rightarrow> stra \<Rightarrow> nat \<Rightarrow> (bool \<times> u8 list \<times> stra) option" where
  "split_end ok m a begin =
    do { b \<leftarrow> get_at m begin;
         if b \<noteq> 0
         then do { (r, a) \<leftarrow> stra_resize_if ok a 1;
                   if r then do { a \<leftarrow> stra_put a begin; Some (True, m, a) } else Some (False, m, a) }
         else Some (True, m, a) }"

function split_loop :: "bool \<Rightarrow> u32 list \<Rightarrow> u8 list \<Rightarrow> stra \<Rightarrow> nat \<Rightarrow> nat \<Rightarrow> (bool \<times> u8 list \<times> stra) option" where
  "split_loop ok d m a begin str =
    do { c \<leftarrow> get_at m str;
         if c = 0 then split_end ok m a begin
         else do { t \<leftarrow> is_delim d (ucast c);
                   if t
                   then do { (r, a) \<leftarrow> stra_resize_if ok a 1;
                             if r
                             then do { m \<leftarrow> put_at m str 0;
                                       a \<leftarrow> stra_put a begin;
                                       split_loop ok d m a (str + 1) (str + 1) }
                             else Some (False, m, a) }
                   else split_loop ok d m a begin (str + 1) } }"
  by pat_completeness auto
termination by (relation "measure (\<lambda>(ok, d, m, a, begin, str). length m - str)") auto

function sqz_loop :: "bool \<Rightarrow> u32 list \<Rightarrow> u8 list \<Rightarrow> stra \<Rightarrow> nat \<Rightarrow> u8 \<Rightarrow> nat \<Rightarrow> (bool \<times> u8 list \<times> stra) option" where
  "sqz_loop ok d m a begin prev_c str =
    do { c \<leftarrow> get_at m str;
         if c = 0 then split_end ok m a begin
         else do { t \<leftarrow> is_delim d (ucast c);
                   if t then do { m \<leftarrow> put_at m str 0; sqz_loop ok d m a begin c (str + 1) }
                   else do { t \<leftarrow> is_delim d (ucast prev_c);
                             if t
                             then do { (r, a) \<leftarrow> stra_resize_if ok a 1;
                                       if r
                                       then do { a \<leftarrow> stra_put a begin; sqz_loop ok d m a str c (str + 1) }
                                       else Some (False, m, a) }
                             else sqz_loop ok d m a begin c (str + 1) } } }"
  by pat_completeness auto
termination by (relation "measure (\<lambda>(ok, d, m, a, begin, prev, str). length m - str)") auto

declare split_loop.simps [simp del] sqz_loop.simps [simp del]

definition split :: "bool \<Rightarrow> stra \<Rightarrow> u8 list \<Rightarrow> u32 list \<Rightarrow> (bool \<times> u8 list \<times> stra) option" where
  "split ok a m d = split_loop ok d m a 0 0"

definition split_sqz :: "bool \<Rightarrow> stra \<Rightarrow> u8 list \<Rightarrow> u32 list \<Rightarrow> (bool \<times> u8 list \<times> stra) option" where
  "split_sqz ok a m d = do { m \<leftarrow> strtrim m; sqz_loop ok d m a 0 0 0 }"

definition split_common :: "bool \<Rightarrow> stra \<Rightarrow> u8 list \<Rightarrow> u8 list \<Rightarrow> bool \<Rightarrow> (bool \<times> u8 list \<times> stra) option" where
  "split_common ok a m tok sqz_consec =
    do { d \<leftarrow> add_delims init_delim (map ucast tok);
         if sqz_consec then split_sqz ok a m d else split ok a m d }"

text \<open>\<open>strsplit_quick\<close> returns the number of tokens, or -1; \<open>strsplit\<close> returns the vector.\<close>

definition strsplit_quick :: "bool \<Rightarrow> nat option list \<Rightarrow> int \<Rightarrow> u8 list \<Rightarrow> u8 list \<Rightarrow> bool \<Rightarrow> (int \<times> u8 list \<times> nat option list) option" where
  "strsplit_quick ok strv n m tok sqz_consec =
    do { (r, m, a) \<leftarrow> split_common ok (stra_init_from strv n) m tok sqz_consec;
         Some (if r then sa_size a else - 1, m, sa_arr a) }"

definition strsplit :: "bool \<Rightarrow> u8 list \<Rightarrow> u8 list \<Rightarrow> bool \<Rightarrow> ((int \<times> nat option list) option \<times> u8 list) option" where
  "strsplit ok m tok sqz_consec =
    do { (r, m, a) \<leftarrow> split_common ok (stra_init ok) m tok sqz_consec;
         Some (if r then Some (sa_size a, sa_arr a) else None, m) }"

section \<open>What the tokens are\<close>

text \<open>The fields between delimiters; \<open>strsplit\<close> drops an empty field at the end.\<close>

fun split_fields :: "('a \<Rightarrow> bool) \<Rightarrow> 'a list \<Rightarrow> 'a list list" where
  "split_fields P [] = [[]]"
| "split_fields P (c # s) = (if P c then [] # split_fields P s else (c # hd (split_fields P s)) # tl (split_fields P s))"

definition split_tokens :: "('a \<Rightarrow> bool) \<Rightarrow> 'a list \<Rightarrow> 'a list list" where
  "split_tokens P s = (if last (split_fields P s) = [] then butlast (split_fields P s) else split_fields P s)"

definition split_words :: "('a \<Rightarrow> bool) \<Rightarrow> 'a list \<Rightarrow> 'a list list" where
  "split_words P s = filter (\<lambda>w. w \<noteq> []) (split_fields P s)"

text \<open>With squeezing, only a delimiter at the very start leaves an empty token.\<close>

definition sqz_tokens :: "('a \<Rightarrow> bool) \<Rightarrow> 'a list \<Rightarrow> 'a list list" where
  "sqz_tokens P s = (if s \<noteq> [] \<and> P (hd s) \<and> split_words P s \<noteq> [] then [] # split_words P s else split_words P s)"

text \<open>The positions that the loops store, \<open>nz\<close> telling whether the final buffer has a character at a position.\<close>

fun split_ptrs :: "('a \<Rightarrow> bool) \<Rightarrow> (nat \<Rightarrow> bool) \<Rightarrow> nat \<Rightarrow> nat \<Rightarrow> 'a list \<Rightarrow> nat list" where
  "split_ptrs P nz b i [] = (if nz b then [b] else [])"
| "split_ptrs P nz b i (c # s) = (if P c then b # split_ptrs P nz (Suc i) (Suc i) s else split_ptrs P nz b (Suc i) s)"

fun sqz_ptrs :: "('a \<Rightarrow> bool) \<Rightarrow> (nat \<Rightarrow> bool) \<Rightarrow> nat \<Rightarrow> bool \<Rightarrow> nat \<Rightarrow> 'a list \<Rightarrow> nat list" where
  "sqz_ptrs P nz b pd i [] = (if nz b then [b] else [])"
| "sqz_ptrs P nz b pd i (c # s) =
    (if P c then sqz_ptrs P nz b True (Suc i) s
     else if pd then b # sqz_ptrs P nz i False (Suc i) s else sqz_ptrs P nz b False (Suc i) s)"

abbreviation (input) cut :: "(u8 \<Rightarrow> bool) \<Rightarrow> u8 list \<Rightarrow> u8 list" where
  "cut P s \<equiv> map (\<lambda>c. if P c then 0 else c) s"

definition token_at :: "u8 list \<Rightarrow> nat \<Rightarrow> u8 list" where
  "token_at m p = takeWhile (\<lambda>b. b \<noteq> 0) (drop p m)"

lemma split_fields_ne [simp]: "split_fields P s \<noteq> []"
  by (induction s) auto

lemma split_fields_plain: "\<forall>c \<in> set u. \<not> P c \<Longrightarrow> split_fields P u = [u]"
  by (induction u) auto

lemma split_fields_app: "\<forall>c \<in> set u. \<not> P c \<Longrightarrow> P c \<Longrightarrow> split_fields P (u @ c # r) = u # split_fields P r"
  by (induction u) auto

lemma split_tokens_plain: "\<forall>c \<in> set u. \<not> P c \<Longrightarrow> split_tokens P u = (if u = [] then [] else [u])"
  by (simp add: split_tokens_def split_fields_plain)

lemma split_tokens_app: "\<forall>c \<in> set u. \<not> P c \<Longrightarrow> P c \<Longrightarrow> split_tokens P (u @ c # r) = u # split_tokens P r"
  by (simp add: split_tokens_def split_fields_app)

lemma token_at_plain:
  assumes "0 \<notin> set u" "length pre = p"
  shows "token_at (pre @ u @ 0 # t) p = u"
  using assms by (simp add: token_at_def takeWhile_upto_0)

lemma cut_plain: "\<forall>c \<in> set u. \<not> P c \<Longrightarrow> cut P u = u"
  by (induction u) auto

lemma split_ptrs_tokens:
  assumes "0 \<notin> set (u @ r)" "\<forall>c \<in> set u. \<not> P c"
  shows "map (token_at (pre @ cut P (u @ r) @ 0 # t))
    (split_ptrs P (\<lambda>b. (pre @ cut P (u @ r) @ 0 # t) ! b \<noteq> 0) (length pre) (length pre + length u) r) = split_tokens P (u @ r)"
  using assms
proof (induction r arbitrary: u pre)
  case Nil
  have "u \<noteq> [] \<longleftrightarrow> (pre @ u @ 0 # t) ! length pre \<noteq> 0" using Nil by (cases u) (auto simp: nth_append)
  then show ?case using Nil token_at_plain [of u pre] by (simp add: cut_plain split_tokens_plain)
next
  case (Cons c r)
  show ?case
  proof (cases "P c")
    case True
    have "token_at (pre @ u @ 0 # cut P r @ 0 # t) (length pre) = u" using Cons.prems by (intro token_at_plain) auto
    then show ?thesis using Cons.IH [of "[]" "pre @ u @ [0]"] True Cons.prems by (simp add: cut_plain split_tokens_app)
  next
    case False
    then show ?thesis using Cons.IH [of "u @ [c]" pre] Cons.prems by simp
  qed
qed

text \<open>The same for the squeezing loop; \<open>u\<close> is the token that starts at \<open>begin\<close>, \<open>g\<close> the zeros after it.\<close>

fun sqz_toks :: "('a \<Rightarrow> bool) \<Rightarrow> 'a list \<Rightarrow> bool \<Rightarrow> 'a list \<Rightarrow> 'a list list" where
  "sqz_toks P u pd [] = (if u \<noteq> [] then [u] else [])"
| "sqz_toks P u pd (c # s) =
    (if P c then sqz_toks P u True s else if pd then u # sqz_toks P [c] False s else sqz_toks P (u @ [c]) False s)"

lemma sqz_ptrs_toks:
  assumes "0 \<notin> set (u @ r)" "\<forall>c \<in> set u. \<not> P c" "pd \<longleftrightarrow> 0 < g"
  shows "map (token_at (pre @ u @ replicate g 0 @ cut P r @ 0 # t))
    (sqz_ptrs P (\<lambda>b. (pre @ u @ replicate g 0 @ cut P r @ 0 # t) ! b \<noteq> 0) (length pre) pd (length pre + length u + g) r) = sqz_toks P u pd r"
  using assms
proof (induction r arbitrary: u g pd pre)
  case Nil
  have "u \<noteq> [] \<longleftrightarrow> (pre @ u @ replicate g 0 @ 0 # t) ! length pre \<noteq> 0" using Nil by (cases u; cases g) (auto simp: nth_append)
  moreover have "token_at (pre @ u @ replicate g 0 @ 0 # t) (length pre) = u"
    using token_at_plain [of u pre "length pre"] Nil by (cases g) auto
  ultimately show ?case by simp
next
  case (Cons c r)
  have z: "replicate g 0 @ 0 # w = replicate (Suc g) 0 @ w" for w :: "u8 list" by (simp add: replicate_app_Cons_same)
  show ?case
  proof (cases "P c")
    case True
    then show ?thesis using Cons.IH [of u True "Suc g" pre] Cons.prems by (simp add: z del: replicate_Suc)
  next
    case False
    show ?thesis
    proof (cases pd)
      case True
      then obtain h where "g = Suc h" using Cons.prems(3) by (cases g) auto
      then have "token_at (pre @ u @ replicate g 0 @ c # cut P r @ 0 # t) (length pre) = u"
        using token_at_plain [of u pre "length pre"] Cons.prems by simp
      then show ?thesis using False True Cons.IH [of "[c]" False 0 "pre @ u @ replicate g 0"] Cons.prems by (simp add: add.assoc)
    next
      case nd: False
      then show ?thesis using False Cons.IH [of "u @ [c]" False 0 pre] Cons.prems by simp
    qed
  qed
qed

lemma words_plain: "\<forall>c \<in> set u. \<not> P c \<Longrightarrow> split_words P u = (if u = [] then [] else [u])"
  by (simp add: split_words_def split_fields_plain)

lemma words_app: "\<forall>c \<in> set u. \<not> P c \<Longrightarrow> P c \<Longrightarrow> split_words P (u @ c # r) = (if u = [] then [] else [u]) @ split_words P r"
  by (simp add: split_words_def split_fields_app)

lemma sqz_toks_words:
  assumes "\<forall>c \<in> set u. \<not> P c"
  shows "sqz_toks P u True r = (if split_words P r = [] then split_words P u else u # split_words P r)"
    "u \<noteq> [] \<Longrightarrow> sqz_toks P u False r = split_words P (u @ r)"
  using assms
proof (induction r arbitrary: u)
  case (Cons c r)
  { case 1
    show ?case
    proof (cases "P c")
      case True
      then show ?thesis using Cons.IH(1) [OF 1] words_app [of "[]" P c r] by simp
    next
      case False
      then have "split_words P (c # r) \<noteq> []" by (simp add: split_words_def)
      then show ?thesis using False Cons.IH(2) [of "[c]"] by simp
    qed }
  { case 2
    show ?case
    proof (cases "P c")
      case True
      then show ?thesis using Cons.IH(1) [OF 2(2)] words_app [OF 2(2) True, of r] words_plain [OF 2(2)] 2(1) by simp
    next
      case False
      then show ?thesis using Cons.IH(2) [of "u @ [c]"] 2 by simp
    qed }
qed (auto simp: split_fields_plain split_words_def)

lemma sqz_toks_tokens: "sqz_toks P [] False s = sqz_tokens P s"
proof (cases s)
  case (Cons c r)
  then show ?thesis using sqz_toks_words(1) [of "[]" P r] sqz_toks_words(2) [of "[c]" P r] words_app [of "[]" P c r]
    by (auto simp: sqz_tokens_def split_words_def)
qed (simp add: sqz_tokens_def split_words_def)

section \<open>The vector\<close>

fun push_all :: "bool \<Rightarrow> stra \<Rightarrow> nat list \<Rightarrow> (bool \<times> stra) option" where
  "push_all ok a [] = Some (True, a)"
| "push_all ok a (p # ps) =
    do { (r, a) \<leftarrow> stra_resize_if ok a 1;
         if r then do { a \<leftarrow> stra_put a p; push_all ok a ps } else Some (False, a) }"

definition stored :: "stra \<Rightarrow> nat option list" where
  "stored a = take (nat (sa_size a)) (sa_arr a)"

definition grow_inv :: "stra \<Rightarrow> bool" where
  "grow_inv a \<longleftrightarrow> 0 \<le> sa_size a \<and> sa_size a < sa_cap a \<and> int (length (sa_arr a)) = sa_cap a \<and> sa_cap a \<le> max 16 (2 * sa_size a + 2)"

definition fixed_inv :: "int \<Rightarrow> stra \<Rightarrow> bool" where
  "fixed_inv n a \<longleftrightarrow> 0 \<le> sa_size a \<and> sa_size a \<le> n \<and> sa_cap a = - n \<and> n \<le> int (length (sa_arr a))"

lemma put_stored:
  assumes "0 \<le> sa_size a" "sa_size a < int (length (sa_arr a))"
  shows "\<exists>a'. stra_put a p = Some a' \<and> stored a' = stored a @ [Some p] \<and> sa_size a' = sa_size a + 1 \<and> sa_cap a' = sa_cap a \<and>
    length (sa_arr a') = length (sa_arr a)"
proof -
  have i: "nat (sa_size a) < length (sa_arr a)" using assms by linarith
  have "nat (sa_size a + 1) = Suc (nat (sa_size a))" using assms(1) by simp
  then show ?thesis using i by (simp add: stra_put_def mem_simps stored_def take_Suc_conv_app_nth)
qed

lemma push_grow:
  assumes "grow_inv a" "sa_size a + int (length ps) < 2 ^ 29"
  shows "\<exists>a'. push_all True a ps = Some (True, a') \<and> grow_inv a' \<and> stored a' = stored a @ map Some ps \<and> sa_size a' = sa_size a + int (length ps)"
  using assms
proof (induction ps arbitrary: a)
  case (Cons p ps)
  have "\<exists>b. stra_resize_if True a 1 = Some (True, b) \<and> grow_inv b \<and> sa_size b + 1 < sa_cap b \<and> stored b = stored a \<and> sa_size b = sa_size a"
  proof (cases "sa_size a + 1 \<ge> sa_cap a")
    case True
    have "sa_cap a * 2 < 2 ^ 31" using Cons.prems by (auto simp: grow_inv_def)
    then show ?thesis using True Cons.prems(1)
      by (auto simp: stra_resize_if_def stra_resize_def grow_inv_def stored_def Let_def nat_mono)
  next
    case False
    then show ?thesis using Cons.prems(1) by (auto simp: stra_resize_if_def grow_inv_def Let_def)
  qed
  then obtain b where b: "stra_resize_if True a 1 = Some (True, b)" "grow_inv b" "sa_size b + 1 < sa_cap b" "stored b = stored a" "sa_size b = sa_size a"
    by blast
  then obtain c where c: "stra_put b p = Some c" "stored c = stored b @ [Some p]" "sa_size c = sa_size b + 1" "sa_cap c = sa_cap b"
      "length (sa_arr c) = length (sa_arr b)"
    using put_stored [of b p] by (auto simp: grow_inv_def)
  have "grow_inv c" using b(2,3) c by (auto simp: grow_inv_def)
  then show ?case using Cons.IH [of c] Cons.prems b c by (auto simp: algebra_simps)
qed simp

lemma push_fixed:
  assumes "fixed_inv n a" "0 < n"
  shows "\<exists>a'. push_all ok a ps = Some (sa_size a + int (length ps) \<le> n, a') \<and>
    (sa_size a + int (length ps) \<le> n \<longrightarrow> fixed_inv n a' \<and> stored a' = stored a @ map Some ps \<and> sa_size a' = sa_size a + int (length ps))"
  using assms
proof (induction ps arbitrary: a)
  case (Cons p ps)
  have r: "stra_resize_if ok a 1 = Some (sa_size a + 1 \<le> n, a)" using Cons.prems by (simp add: stra_resize_if_def fixed_inv_def Let_def)
  show ?case
  proof (cases "sa_size a + 1 \<le> n")
    case True
    then obtain c where c: "stra_put a p = Some c" "stored c = stored a @ [Some p]" "sa_size c = sa_size a + 1" "sa_cap c = sa_cap a"
        "length (sa_arr c) = length (sa_arr a)"
      using put_stored [of a p] Cons.prems by (auto simp: fixed_inv_def)
    then have "fixed_inv n c" using Cons.prems True by (auto simp: fixed_inv_def)
    then show ?thesis using Cons.IH [of c] Cons.prems r c True by (auto simp: algebra_simps)
  qed (use r in auto)
qed (auto simp: fixed_inv_def)

section \<open>The loops store the positions\<close>

text \<open>What a loop does, given the positions it stores and the buffer it leaves.\<close>

definition stores :: "bool \<Rightarrow> stra \<Rightarrow> nat list \<Rightarrow> u8 list \<Rightarrow> (bool \<times> u8 list \<times> stra) option \<Rightarrow> bool" where
  "stores ok a ps z r \<longleftrightarrow> (\<forall>b a'. push_all ok a ps = Some (b, a') \<longrightarrow> (\<exists>m. r = Some (b, m, a') \<and> (b \<longrightarrow> m = z)))"

lemma split_end_stores: "b < length z \<Longrightarrow> stores ok a (if z ! b \<noteq> 0 then [b] else []) z (split_end ok z a b)"
  by (auto simp: stores_def split_end_def mem_simps bind_eq_Some_conv split: if_splits)

lemma stores_Cons:
  assumes "\<And>a2. stores ok a2 ps z (f a2)"
    and "r = do { (r, a1) \<leftarrow> stra_resize_if ok a 1; if r then do { a2 \<leftarrow> stra_put a1 p; f a2 } else Some (False, m', a1) }"
  shows "stores ok a (p # ps) z r"
proof (cases "stra_resize_if ok a 1")
  case (Some x)
  then show ?thesis using assms(1,2) by (cases x; cases "stra_put (snd x) p") (auto simp: stores_def)
qed (simp add: stores_def)

lemma split_loop_stores:
  assumes "drop i m = r @ 0 # t" "0 \<notin> set r" "i \<le> length m" "b \<le> i" "\<And>c. is_delim d (ucast c) = Some (P c)"
  defines "z \<equiv> take i m @ cut P r @ 0 # t"
  shows "stores ok a (split_ptrs P (\<lambda>b. z ! b \<noteq> 0) b i r) z (split_loop ok d m a b i)"
  using assms(1-5) unfolding z_def
proof (induction r arbitrary: i m a b)
  case Nil
  then have "i < length m" "m ! i = 0" by (auto dest: drop_eq_ConsD)
  moreover have "take i m @ 0 # t = m" using Nil by (metis append_Nil append_take_drop_id)
  ultimately show ?case using Nil split_end_stores [of b m ok a] by (subst split_loop.simps) (simp add: mem_simps)
next
  case (Cons c r)
  have i: "i < length m" "m ! i = c" "drop (Suc i) m = r @ 0 # t" using Cons.prems(1)
    by (auto dest: drop_eq_ConsD)
  have c: "c \<noteq> 0" using Cons.prems(2) by auto
  show ?case
  proof (cases "P c")
    case True
    have "take (Suc i) (m[i := 0]) @ w = take i m @ 0 # w" for w using i(1) by (simp add: take_Suc_conv_app_nth)
    then have rest: "stores ok a2 (split_ptrs P (\<lambda>b. (take i m @ 0 # cut P r @ 0 # t) ! b \<noteq> 0) (Suc i) (Suc i) r) (take i m @ 0 # cut P r @ 0 # t)
        (split_loop ok d (m[i := 0]) a2 (Suc i) (Suc i))" for a2
      using Cons.IH [of "Suc i" "m[i := 0]" "Suc i" a2] Cons.prems i by simp
    have "split_loop ok d m a b i = do { (r, a1) \<leftarrow> stra_resize_if ok a 1;
        if r then do { a2 \<leftarrow> stra_put a1 b; split_loop ok d (m[i := 0]) a2 (Suc i) (Suc i) } else Some (False, m, a1) }"
      using True i c Cons.prems(5) by (subst split_loop.simps) (simp add: mem_simps cong del: if_weak_cong)
    from stores_Cons [OF rest this] show ?thesis using True by simp
  next
    case False
    have "take (Suc i) m @ w = take i m @ c # w" for w using i(1,2) by (simp add: take_Suc_conv_app_nth)
    then show ?thesis using False i c Cons.prems Cons.IH [of "Suc i" m b a] by (subst split_loop.simps) (simp add: mem_simps)
  qed
qed

lemma sqz_loop_stores:
  assumes "drop i m = r @ 0 # t" "0 \<notin> set r" "i \<le> length m" "b \<le> i" "\<And>c. is_delim d (ucast c) = Some (P c)" "pd = P pc"
  defines "z \<equiv> take i m @ cut P r @ 0 # t"
  shows "stores ok a (sqz_ptrs P (\<lambda>b. z ! b \<noteq> 0) b pd i r) z (sqz_loop ok d m a b pc i)"
  using assms(1-6) unfolding z_def
proof (induction r arbitrary: i m a b pd pc)
  case Nil
  then have "i < length m" "m ! i = 0" by (auto dest: drop_eq_ConsD)
  moreover have "take i m @ 0 # t = m" using Nil by (metis append_Nil append_take_drop_id)
  ultimately show ?case using Nil split_end_stores [of b m ok a] by (subst sqz_loop.simps) (simp add: mem_simps)
next
  case (Cons c r)
  have i: "i < length m" "m ! i = c" "drop (Suc i) m = r @ 0 # t" using Cons.prems(1)
    by (auto dest: drop_eq_ConsD)
  have c: "c \<noteq> 0" using Cons.prems(2) by auto
  have plain: "take (Suc i) m @ w = take i m @ c # w" for w using i(1,2) by (simp add: take_Suc_conv_app_nth)
  show ?case
  proof (cases "P c")
    case True
    have "take (Suc i) (m[i := 0]) @ w = take i m @ 0 # w" for w using i(1) by (simp add: take_Suc_conv_app_nth)
    then show ?thesis using True i c Cons.prems Cons.IH [of "Suc i" "m[i := 0]" b True c a] by (subst sqz_loop.simps) (simp add: mem_simps)
  next
    case False
    show ?thesis
    proof (cases pd)
      case True
      have rest: "stores ok a2 (sqz_ptrs P (\<lambda>b. (take i m @ c # cut P r @ 0 # t) ! b \<noteq> 0) i False (Suc i) r) (take i m @ c # cut P r @ 0 # t)
          (sqz_loop ok d m a2 i c (Suc i))" for a2
        using Cons.IH [of "Suc i" m i False c a2] Cons.prems i plain False by simp
      have "sqz_loop ok d m a b pc i = do { (r, a1) \<leftarrow> stra_resize_if ok a 1;
          if r then do { a2 \<leftarrow> stra_put a1 b; sqz_loop ok d m a2 i c (Suc i) } else Some (False, m, a1) }"
        using True False i c Cons.prems(5,6) by (subst sqz_loop.simps) (simp add: mem_simps cong del: if_weak_cong)
      from stores_Cons [OF rest this] show ?thesis using True False by simp
    next
      case nd: False
      then show ?thesis using False i c plain Cons.prems Cons.IH [of "Suc i" m b False c a] by (subst sqz_loop.simps) (simp add: mem_simps)
    qed
  qed
qed

section \<open>Trimming leaves the trimmed string\<close>

lemma strtrim_buffer:
  assumes m: "m = s @ 0 # t" "0 \<notin> set s"
  shows "\<exists>t'. strtrim m = Some (trim s @ 0 # t') \<and> 0 \<notin> set (trim s) \<and> length (trim s) \<le> length s"
proof (cases "dropWhile isspace8 s = []")
  case True
  then have "skip_ws m 0 = Some None" using skip_ws_eq [of 0 m s t] m by simp
  moreover have "m[0 := 0] = 0 # tl m" using m(1) by (cases s) auto
  moreover have "trim s = []" using True by (simp only: trim_def rtrim_Nil)
  ultimately show ?thesis using m by (simp add: strtrim_def mem_simps)
next
  case False
  then obtain i where i: "skip_ws m 0 = Some (Some i)" using skip_ws_eq [of 0 m s t] m by simp
  from trimmed_buffer [OF m i] obtain m1 e where e: "trim_copy m 0 i 0 = Some (m1, e)" "e + 1 < length m1" "length m1 = length m"
      "e + 1 = length (trim s)" "take (e + 1) (m1[e + 1 := 0]) = trim s" by blast
  have "m1[e + 1 := 0] = take (e + 1) (m1[e + 1 := 0]) @ 0 # drop (e + 2) m1"
    using e(2) by (simp add: upd_conv_take_nth_drop)
  then have "m1[e + 1 := 0] = trim s @ 0 # drop (e + 2) m1" unfolding e(5) .
  moreover have "set (trim s) \<subseteq> set s" unfolding trim_def rtrim_def by (auto dest!: set_dropWhileD)
  moreover have "length (trim s) \<le> length s" unfolding trim_def rtrim_def by (metis length_dropWhile_le length_rev order_trans)
  ultimately show ?thesis using i e m(2) by (auto simp: strtrim_def mem_simps)
qed

section \<open>Properties\<close>

lemma ucast_u8_inj [simp]: "(ucast c :: u32) = ucast x \<longleftrightarrow> c = x" for c x :: u8
proof -
  have "unat (ucast c :: u32) = unat c" for c :: u8 using unat_u8_less [of c] by (simp add: unsigned_ucast_eq take_bit_nat_eq_self)
  then show ?thesis by (metis unat_inj)
qed

lemma delim_set:
  shows "\<exists>d. add_delims init_delim (map ucast tok) = Some d \<and> (\<forall>c :: u8. is_delim d (ucast c) = Some (c \<in> set tok))"
proof -
  obtain d where d: "add_delims init_delim (map ucast tok) = Some d" "\<forall>x :: u32. unat x < 256 \<longrightarrow> is_delim d x = Some (x \<in> set (map ucast tok))"
    using delims_of [of "map ucast tok"] unat_char by auto
  then have "is_delim d (ucast c) = Some (c \<in> set tok)" for c :: u8 using unat_char [of c] by auto
  then show ?thesis using d(1) by blast
qed

text \<open>Both modes: the tokens, and the buffer the loop works on.\<close>

definition tokens_of :: "bool \<Rightarrow> u8 list \<Rightarrow> u8 list \<Rightarrow> u8 list list" where
  "tokens_of sqz tok s = (if sqz then sqz_tokens (\<lambda>c. c \<in> set tok) (trim s) else split_tokens (\<lambda>c. c \<in> set tok) s)"

lemma split_common_stores:
  assumes "m = s @ 0 # t" "0 \<notin> set s" "0 \<notin> set tok"
  shows "\<exists>ps z. map (token_at z) ps = tokens_of sqz tok s \<and> stores ok a ps z (split_common ok a m tok sqz)"
proof -
  let ?P = "\<lambda>c. c \<in> set tok"
  obtain d where d: "add_delims init_delim (map ucast tok) = Some d" "\<And>c :: u8. is_delim d (ucast c) = Some (?P c)" using delim_set [of tok] by blast
  show ?thesis
  proof (cases sqz)
    case True
    obtain t' where t: "strtrim m = Some (trim s @ 0 # t')" "0 \<notin> set (trim s)" using strtrim_buffer [OF assms(1,2)] by blast
    let ?z = "cut ?P (trim s) @ 0 # t'"
    have "stores ok a (sqz_ptrs ?P (\<lambda>b. ?z ! b \<noteq> 0) 0 False 0 (trim s)) ?z (sqz_loop ok d (trim s @ 0 # t') a 0 0 0)"
      using sqz_loop_stores [of 0 "trim s @ 0 # t'" "trim s" t' 0 d ?P False 0 ok a] t(2) d(2) assms(3) by simp
    moreover have "map (token_at ?z) (sqz_ptrs ?P (\<lambda>b. ?z ! b \<noteq> 0) 0 False 0 (trim s)) = sqz_tokens ?P (trim s)"
      using sqz_ptrs_toks [of "[]" "trim s" ?P False 0 "[]" t'] t(2) by (simp add: sqz_toks_tokens)
    ultimately show ?thesis using True d(1) t(1) by (auto simp: split_common_def split_sqz_def tokens_of_def)
  next
    case False
    let ?z = "cut ?P s @ 0 # t"
    have "stores ok a (split_ptrs ?P (\<lambda>b. ?z ! b \<noteq> 0) 0 0 s) ?z (split_loop ok d m a 0 0)"
      using split_loop_stores [of 0 m s t 0 d ?P ok a] assms d(2) by simp
    moreover have "map (token_at ?z) (split_ptrs ?P (\<lambda>b. ?z ! b \<noteq> 0) 0 0 s) = split_tokens ?P s"
      using split_ptrs_tokens [of "[]" s ?P "[]" t] assms(2) by simp
    ultimately show ?thesis using False d(1) by (auto simp: split_common_def split_def tokens_of_def)
  qed
qed

text \<open>For every string, also one that still starts with a delimiter after trimming, which leaves an empty first token when squeezing.\<close>

theorem strsplit_tokens_any:
  assumes "m = s @ 0 # t" "0 \<notin> set s" "0 \<notin> set tok" "length (tokens_of sqz tok s) < 2 ^ 29" "0 < n" "n \<le> int (length strv)"
  shows "(\<exists>k arr m'. strsplit True m tok sqz = Some (Some (k, arr), m') \<and> 0 \<le> k \<and> nat k \<le> length arr \<and>
      map (map_option (token_at m')) (take (nat k) arr) = map Some (tokens_of sqz tok s)) \<and>
    (\<exists>k arr m'. strsplit_quick ok strv n m tok sqz = Some (k, m', arr) \<and>
      (if int (length (tokens_of sqz tok s)) \<le> n
       then k = int (length (tokens_of sqz tok s)) \<and> map (map_option (token_at m')) (take (nat k) arr) = map Some (tokens_of sqz tok s)
       else k = - 1))"
proof
  obtain ps z where ps: "map (token_at z) ps = tokens_of sqz tok s" "stores True (stra_init True) ps z (split_common True (stra_init True) m tok sqz)"
    using split_common_stores [OF assms(1-3)] by blast
  then have l: "length ps = length (tokens_of sqz tok s)" by (metis length_map)
  have g: "grow_inv (stra_init True)" by (simp add: grow_inv_def stra_init_def)
  obtain a where a: "push_all True (stra_init True) ps = Some (True, a)" "grow_inv a" "stored a = map Some ps"
    using push_grow [OF g, of ps] l assms(4) by (auto simp: stra_init_def stored_def)
  have "strsplit True m tok sqz = Some (Some (sa_size a, sa_arr a), z)" using ps(2) a(1) by (auto simp: stores_def strsplit_def)
  moreover have "map (map_option (token_at z)) (take (nat (sa_size a)) (sa_arr a)) = map Some (tokens_of sqz tok s)"
    using a(3) ps(1) by (simp add: stored_def comp_def flip: ps(1))
  ultimately show "\<exists>k arr m'. strsplit True m tok sqz = Some (Some (k, arr), m') \<and> 0 \<le> k \<and> nat k \<le> length arr \<and>
      map (map_option (token_at m')) (take (nat k) arr) = map Some (tokens_of sqz tok s)"
    using a(2) by (intro exI [of _ "sa_size a"] exI [of _ "sa_arr a"] exI [of _ z]) (auto simp: grow_inv_def)
next
  let ?a = "stra_init_from strv n"
  obtain ps z where ps: "map (token_at z) ps = tokens_of sqz tok s" "stores ok ?a ps z (split_common ok ?a m tok sqz)"
    using split_common_stores [OF assms(1-3)] by blast
  then have l: "length ps = length (tokens_of sqz tok s)" by (metis length_map)
  have f: "fixed_inv n ?a" using assms(5,6) by (simp add: fixed_inv_def stra_init_from_def)
  obtain a where a: "push_all ok ?a ps = Some (int (length ps) \<le> n, a)"
      "int (length ps) \<le> n \<Longrightarrow> stored a = map Some ps \<and> sa_size a = int (length ps)"
    using push_fixed [OF f assms(5), of ok ps] by (auto simp: stra_init_from_def stored_def)
  obtain m' where m': "split_common ok ?a m tok sqz = Some (int (length ps) \<le> n, m', a)" "int (length ps) \<le> n \<Longrightarrow> m' = z"
    using ps(2) a(1) unfolding stores_def by blast
  have "map (map_option (token_at z)) (take (length ps) (sa_arr a)) = map Some (tokens_of sqz tok s)" if "int (length ps) \<le> n"
    using a(2) [OF that] by (auto simp: stored_def comp_def simp flip: ps(1))
  then show "\<exists>k arr m'. strsplit_quick ok strv n m tok sqz = Some (k, m', arr) \<and>
      (if int (length (tokens_of sqz tok s)) \<le> n
       then k = int (length (tokens_of sqz tok s)) \<and> map (map_option (token_at m')) (take (nat k) arr) = map Some (tokens_of sqz tok s)
       else k = - 1)"
    using m' a(2) by (auto simp: strsplit_quick_def l [symmetric])
qed

text \<open>The parts a caller expects: every delimiter ends a field, so no field follows a delimiter at the end; with squeezing, the words of the trimmed string.\<close>

definition parts_of :: "bool \<Rightarrow> u8 list \<Rightarrow> u8 list \<Rightarrow> u8 list list" where
  "parts_of sqz tok s = (if sqz then split_words (\<lambda>c. c \<in> set tok) (trim s) else split_tokens (\<lambda>c. c \<in> set tok) s)"

definition starts_delim :: "u8 list \<Rightarrow> u8 list \<Rightarrow> bool" where
  "starts_delim tok s \<longleftrightarrow> trim s \<noteq> [] \<and> hd (trim s) \<in> set tok"

lemma tokens_parts: "\<not> (sqz \<and> starts_delim tok s) \<Longrightarrow> tokens_of sqz tok s = parts_of sqz tok s"
  by (auto simp: tokens_of_def parts_of_def sqz_tokens_def starts_delim_def)

lemma strsplit_squeezed_start:
  "sqz \<Longrightarrow> starts_delim tok s \<Longrightarrow> parts_of sqz tok s \<noteq> [] \<Longrightarrow> tokens_of sqz tok s = [] # parts_of sqz tok s"
  by (simp add: tokens_of_def parts_of_def sqz_tokens_def starts_delim_def)

text \<open>
  C26: The tokens of a string that splits into less than \<open>2^29\<close> of them, whose trimmed form does not start with a delimiter if the call squeezes (there
  the code leaves an empty first token: \<open>strsplit_squeezed_start\<close>). \<open>strsplit\<close> returns positions of null-terminated strings in the buffer. Without
  squeezing they are the fields that the delimiters end, empty ones included, and what follows the last delimiter if that is not empty, as
  \<open>t_strsplit.c\<close> expects: a delimiter at the end starts no field. With squeezing they are exactly the words of the trimmed string. \<open>strsplit_quick\<close>
  with a vector of at least one slot does the same if the tokens fit into it, and returns -1 if not. The allocations of \<open>strsplit\<close> succeed.
\<close>

theorem strsplit_tokens:
  assumes "m = s @ 0 # t" "0 \<notin> set s" "0 \<notin> set tok" "\<not> (sqz \<and> starts_delim tok s)" "length (parts_of sqz tok s) < 2 ^ 29"
    "0 < n" "n \<le> int (length strv)"
  shows "(\<exists>k arr m'. strsplit True m tok sqz = Some (Some (k, arr), m') \<and> 0 \<le> k \<and> nat k \<le> length arr \<and>
      map (map_option (token_at m')) (take (nat k) arr) = map Some (parts_of sqz tok s)) \<and>
    (\<exists>k arr m'. strsplit_quick ok strv n m tok sqz = Some (k, m', arr) \<and>
      (if int (length (parts_of sqz tok s)) \<le> n
       then k = int (length (parts_of sqz tok s)) \<and> map (map_option (token_at m')) (take (nat k) arr) = map Some (parts_of sqz tok s)
       else k = - 1))"
  using strsplit_tokens_any [OF assms(1-3) _ assms(6,7), of sqz ok] assms(5) unfolding tokens_parts [OF assms(4)] .

theorem strsplit_tokens_witness:
  "(\<exists>k arr m'. strsplit True [97, 44, 44, 98, 44, 0] [44] False = Some (Some (k, arr), m') \<and>
     map (map_option (token_at m')) (take (nat k) arr) = [Some [97], Some [], Some [98]]) \<and>
   (\<exists>arr m'. strsplit_quick True [None, None, None] 3 [32, 97, 44, 44, 98, 44, 0] [44] True = Some (2, m', arr) \<and>
     map (map_option (token_at m')) (take (nat 2) arr) = [Some [97], Some [98]]) \<and>
   (\<exists>arr m'. strsplit_quick True [None] 1 [97, 44, 44, 98, 44, 0] [44] False = Some (- 1, m', arr))"
proof -
  have p: "parts_of False [44] [97, 44, 44, 98, 44 :: u8] = [[97], [], [98]]" "parts_of True [44] [32, 97, 44, 44, 98, 44 :: u8] = [[97], [98]]"
    "\<not> starts_delim [44] [32, 97, 44, 44, 98, 44]"
    by (simp_all add: parts_of_def split_tokens_def split_words_def starts_delim_def trim_def rtrim_def isspace8_def)
  have "\<exists>k arr m'. strsplit_quick True [None, None, None] 3 [32, 97, 44, 44, 98, 44, 0] [44] True = Some (k, m', arr) \<and>
      k = 2 \<and> map (map_option (token_at m')) (take (nat k) arr) = [Some [97], Some [98]]"
    using strsplit_tokens [of "[32, 97, 44, 44, 98, 44, 0]" "[32, 97, 44, 44, 98, 44]" "[]" "[44]" True 3 "[None, None, None]" True] p(2,3) by simp
  then show ?thesis
    using strsplit_tokens [of "[97, 44, 44, 98, 44, 0]" "[97, 44, 44, 98, 44]" "[]" "[44]" False 1 "[None]" True] p(1) by auto
qed

end
