(* ===== verification/Strcopy.thy ===== *)
theory Strcopy
  imports Cstring
begin

text \<open>
  Bounded string copies and unquoting: \<open>src/strlcpy.c\<close>, \<open>src/strcopy.c\<close> and \<open>src/strunquote.c\<close>.
\<close>

section \<open>Copies\<close>

text \<open>The loop of \<open>strlcpy\<close>, entered with \<open>n > 0\<close>; it returns the buffer, the positions after the copied bytes and the rest of \<open>n\<close>.\<close>

fun lcpy_loop :: "u8 list \<Rightarrow> nat \<Rightarrow> u8 list \<Rightarrow> nat \<Rightarrow> nat \<Rightarrow> (u8 list \<times> nat \<times> nat \<times> nat) option" where
  "lcpy_loop dst d src s 0 = Some (dst, d, s, 0)"
| "lcpy_loop dst d src s (Suc n) =
    do { c \<leftarrow> get_at src s;
         dst \<leftarrow> put_at dst d c;
         if c = 0 then Some (dst, d + 1, s + 1, Suc n) else lcpy_loop dst (d + 1) src (s + 1) n }"

function skip_string :: "u8 list \<Rightarrow> nat \<Rightarrow> nat option" where
  "skip_string src s = do { c \<leftarrow> get_at src s; if c = 0 then Some (s + 1) else skip_string src (s + 1) }"
  by pat_completeness auto
termination by (relation "measure (\<lambda>(src, s). length src - s)") auto

declare skip_string.simps [simp del]

definition strlcpy :: "u8 list \<Rightarrow> u8 list \<Rightarrow> nat \<Rightarrow> (nat \<times> u8 list) option" where
  "strlcpy dst src siz =
    do { (dst, d, s, n) \<leftarrow> lcpy_loop dst 0 src 0 (siz - 1);
         if n = 0
         then do { dst \<leftarrow> (if siz \<noteq> 0 then put_at dst d 0 else Some dst);
                   s \<leftarrow> skip_string src s;
                   Some (s - 1, dst) }
         else Some (s - 1, dst) }"

fun copy_loop :: "u8 list \<Rightarrow> nat \<Rightarrow> u8 list \<Rightarrow> nat \<Rightarrow> nat \<Rightarrow> (int \<times> u8 list) option" where
  "copy_loop dst d src s 0 = None"
| "copy_loop dst d src s (Suc sz) =
    do { c \<leftarrow> get_at src s;
         dst \<leftarrow> put_at dst d c;
         if c = 0 then Some (int d, dst)
         else if sz = 0 then do { dst \<leftarrow> put_at dst d 0; Some (- 1, dst) }
         else copy_loop dst (d + 1) src (s + 1) sz }"

text \<open>\<open>assert(sz > 0)\<close> is the first case of the loop.\<close>

definition strcopy :: "u8 list \<Rightarrow> nat \<Rightarrow> u8 list \<Rightarrow> (int \<times> u8 list) option" where
  "strcopy dst sz src = copy_loop dst 0 src 0 sz"

section \<open>Unquoting\<close>

text \<open>
  The result is the return value, the buffer and the start of the text if it is set. With \<open>n = 0\<close> the code reads before the string.
\<close>

definition strunquote :: "u8 list \<Rightarrow> (int \<times> u8 list \<times> nat option) option" where
  "strunquote m =
    do { q \<leftarrow> get_at m 0;
         if q \<noteq> 34 \<and> q \<noteq> 39 then Some (0, m, None)
         else do { w \<leftarrow> c_str (drop 1 m);
                   let n = length w in
                   if n = 0 then None
                   else do { e \<leftarrow> get_at m (n - 1);
                             if e \<noteq> q then Some (- 1, m, None)
                             else do { m \<leftarrow> put_at m (n - 1) 0; Some (int (unat q), m, Some 1) } } } }"

section \<open>Properties\<close>

lemma skip_string_end: "0 \<notin> set r \<Longrightarrow> drop s src = r @ 0 # t \<Longrightarrow> skip_string src s = Some (s + length r + 1)"
proof (induction r arbitrary: s)
  case Nil
  then have "s < length src" "src ! s = 0" by (auto dest: drop_eq_ConsD)
  then show ?case by (subst skip_string.simps) (simp add: mem_simps)
next
  case (Cons c r)
  have "s < length src" "src ! s = c" "drop (Suc s) src = r @ 0 # t" using Cons.prems(2)
    by (auto dest: drop_eq_ConsD)
  then show ?case using Cons.IH [of "Suc s"] Cons.prems by (subst skip_string.simps) (simp add: mem_simps)
qed

text \<open>Overwriting the front of a buffer byte by byte.\<close>

definition overlay :: "u8 list \<Rightarrow> nat \<Rightarrow> u8 list \<Rightarrow> u8 list" where
  "overlay dst d w = take d dst @ w @ drop (d + length w) dst"

lemma overlay_Nil [simp]: "overlay dst d [] = dst"
  by (simp add: overlay_def)

lemma overlay_one: "d < length dst \<Longrightarrow> dst[d := c] = overlay dst d [c]"
  by (simp add: overlay_def upd_conv_take_nth_drop)

lemma overlay_step: "d < length dst \<Longrightarrow> overlay (dst[d := c]) (Suc d) w = overlay dst d (c # w)"
  by (simp add: overlay_def take_Suc_conv_app_nth)

lemma lcpy_loop_eq:
  assumes "0 \<notin> set r" "drop s src = r @ 0 # t" "d + n \<le> length dst"
  shows "lcpy_loop dst d src s n =
    (if n \<le> length r then Some (overlay dst d (take n r), d + n, s + n, 0)
     else Some (overlay dst d (r @ [0]), d + length r + 1, s + length r + 1, n - length r))"
  using assms
proof (induction n arbitrary: dst d s r)
  case (Suc n)
  show ?case
  proof (cases r)
    case Nil
    then have "s < length src" "src ! s = 0" using Suc.prems(2) by (auto dest: drop_eq_ConsD)
    then show ?thesis using Nil Suc.prems(3) by (simp add: mem_simps overlay_one)
  next
    case (Cons c v)
    have "s < length src" "src ! s = c" "drop (Suc s) src = v @ 0 # t" using Suc.prems(2) Cons
      by (auto dest: drop_eq_ConsD)
    then show ?thesis using Cons Suc.prems Suc.IH [of v "Suc s" "Suc d" "dst[d := c]"] by (auto simp: mem_simps overlay_step)
  qed
qed simp

lemma copy_loop_eq:
  assumes "0 \<notin> set r" "drop s src = r @ 0 # t" "d + sz \<le> length dst" "0 < sz"
  shows "copy_loop dst d src s sz = Some (if length r < sz then int (d + length r) else - 1, overlay dst d (take (sz - 1) r @ [0]))"
  using assms
proof (induction sz arbitrary: dst d s r)
  case (Suc sz)
  show ?case
  proof (cases r)
    case Nil
    then have "s < length src" "src ! s = 0" using Suc.prems(2) by (auto dest: drop_eq_ConsD)
    then show ?thesis using Nil Suc.prems(3) by (simp add: mem_simps overlay_one)
  next
    case (Cons c v)
    have "s < length src" "src ! s = c" "drop (Suc s) src = v @ 0 # t" using Suc.prems(2) Cons
      by (auto dest: drop_eq_ConsD)
    then show ?thesis using Cons Suc.prems Suc.IH [of v "Suc s" "Suc d" "dst[d := c]"]
      by (cases "sz = 0") (auto simp: mem_simps overlay_step overlay_one [symmetric] take_Cons' split: if_splits)
  qed
qed simp

text \<open>
  Bounded copies. \<open>strlcpy\<close> and \<open>strcopy\<close> write the same bytes: as much of the source as fits before a terminator, and nothing outside the first
  \<open>siz\<close> bytes. \<open>strlcpy\<close> returns the length of the source, \<open>strcopy\<close> the number of bytes copied, or -1 if the source was truncated.
\<close>

theorem bounded_copies:
  assumes "src = r @ 0 # t" "0 \<notin> set r" "0 < siz" "siz \<le> length dst"
  defines "dst' \<equiv> take (siz - 1) r @ 0 # drop (min (length r) (siz - 1) + 1) dst"
  shows "strlcpy dst src siz = Some (length r, dst') \<and> strcopy dst siz src = Some (if length r < siz then int (length r) else - 1, dst') \<and>
    length dst' = length dst \<and> drop siz dst' = drop siz dst \<and> c_str dst' = Some (take (siz - 1) r)"
proof -
  have o: "overlay dst 0 (take (siz - 1) r @ [0]) = dst'" by (simp add: overlay_def dst'_def min.commute)
  have copy: "strcopy dst siz src = Some (if length r < siz then int (length r) else - 1, dst')"
    using copy_loop_eq [of r 0 src t 0 siz dst] assms(1-4) o by (simp add: strcopy_def)
  have lcpy: "strlcpy dst src siz = Some (length r, dst')"
  proof (cases "siz - 1 \<le> length r")
    case True
    have "drop (siz - 1) src = drop (siz - 1) r @ 0 # t" "0 \<notin> set (drop (siz - 1) r)" using assms(1,2) True by (auto dest: in_set_dropD)
    then have "skip_string src (siz - 1) = Some (length r + 1)" using skip_string_end [of "drop (siz - 1) r" "siz - 1" src t] True by simp
    moreover have "(overlay dst 0 (take (siz - 1) r))[siz - 1 := 0] = dst'" using True assms(3,4)
      by (simp add: overlay_def dst'_def list_update_append upd_conv_take_nth_drop min_absorb2 Suc_diff_Suc drop_Suc nth_tl tl_drop)
    ultimately show ?thesis using lcpy_loop_eq [of r 0 src t 0 "siz - 1" dst] assms(1-4) True
      by (simp add: strlcpy_def mem_simps overlay_def)
  next
    case False
    then have "\<not> siz \<le> Suc (length r)" by linarith
    then show ?thesis using lcpy_loop_eq [of r 0 src t 0 "siz - 1" dst] assms(1-4) o False by (simp add: strlcpy_def)
  qed
  have "drop siz dst' = drop siz dst"
  proof (cases "length r \<le> siz - 1")
    case True
    then show ?thesis using assms(3) by (simp add: dst'_def drop_Cons')
  qed (use assms(3) in \<open>simp add: dst'_def min_absorb2 drop_Cons'\<close>)
  moreover have "length dst' = length dst" using assms(3,4) by (auto simp: dst'_def)
  moreover have "c_str dst' = Some (take (siz - 1) r)" unfolding dst'_def using assms(2) by (intro c_str_app) (auto dest: in_set_takeD)
  ultimately show ?thesis using copy lcpy by simp
qed

theorem bounded_copies_witness:
  "strlcpy [9, 9, 9, 9] [97, 98, 99, 100, 0] 3 = Some (4, [97, 98, 0, 9]) \<and> strcopy [9, 9, 9, 9] 3 [97, 98, 99, 100, 0] = Some (- 1, [97, 98, 0, 9])"
  using bounded_copies [of "[97, 98, 99, 100, 0]" "[97, 98, 99, 100]" "[]" 3 "[9, 9, 9, 9]"] by simp

text \<open>
  \<open>strunquote\<close> looks for the closing quote one character too early: it rejects a correctly quoted text unless the text itself ends in the quote.
\<close>

theorem strunquote_rejects:
  assumes "q = 34 \<or> q = 39" "0 \<notin> set w" "w \<noteq> []" "last w \<noteq> q"
  shows "strunquote (q # w @ [q, 0]) = Some (- 1, q # w @ [q, 0], None)"
proof -
  have "c_str (w @ [q] @ 0 # []) = Some (w @ [q])" using assms(1,2) c_str_app [of "w @ [q]" "[]"] by auto
  then have c: "c_str (w @ [q, 0]) = Some (w @ [q])" by simp
  have "(q # w @ [q, 0]) ! length w = last w" using assms(3) by (simp add: last_conv_nth nth_Cons' nth_append)
  then show ?thesis using assms(1,4) c by (auto simp: strunquote_def mem_simps)
qed

end
