(* ===== verification/Csv.thy ===== *)
theory Csv
  imports Strsplit
begin

text \<open>
  Comma-separated values: \<open>src/strsplit_csv.c\<close>. The function unquotes in place: \<open>p\<close> is where the next character of the current field goes, \<open>str\<close> the
  character that is read, \<open>sub\<close> the start of the field and \<open>q\<close> the open quote (0 if there is none).
\<close>

section \<open>Splitting\<close>

text \<open>The separators are added one by one, and each is checked by an assertion.\<close>

fun csv_seps :: "u32 list \<Rightarrow> u8 list \<Rightarrow> u32 list option" where
  "csv_seps v [] = Some v"
| "csv_seps v (c # cs) =
    do { v \<leftarrow> add_delim v (char_int c);
         t \<leftarrow> is_delim v (char_int c);
         if t then csv_seps v cs else None }"

definition csv_end :: "u8 list \<Rightarrow> nat option list \<Rightarrow> nat \<Rightarrow> nat \<Rightarrow> u8 \<Rightarrow> nat \<Rightarrow> nat \<Rightarrow> (nat res \<times> u8 list \<times> nat option list) option" where
  "csv_end m sv sv_size k q sub p =
    (if sub \<noteq> p
     then if q \<noteq> 0 then Some (Inl EINVAL, m, sv)
          else if k = sv_size then Some (Inl ENOSPC, m, sv)
          else do { m \<leftarrow> put_at m p 0; sv \<leftarrow> put_at sv k (Some sub); Some (Inr (k + 1), m, sv) }
     else Some (Inr k, m, sv))"

function csv_loop :: "u32 list \<Rightarrow> nat \<Rightarrow> u8 list \<Rightarrow> nat option list \<Rightarrow> nat \<Rightarrow> u8 \<Rightarrow> nat \<Rightarrow> nat \<Rightarrow> nat \<Rightarrow> (nat res \<times> u8 list \<times> nat option list) option" where
  "csv_loop v sv_size m sv k q sub p str =
    do { c \<leftarrow> get_at m str;
         if c = 0 then csv_end m sv sv_size k q sub p
         else if c = 39 \<or> c = 34
         then if q = c
              then do { b \<leftarrow> (if str = 0 then None else get_at m (str - 1));
                        if b = 92
                        then do { m \<leftarrow> (if p = 0 then None else put_at m (p - 1) q); csv_loop v sv_size m sv k q sub p (str + 1) }
                        else csv_loop v sv_size m sv k 0 sub p (str + 1) }
              else if q \<noteq> 0
              then do { m \<leftarrow> put_at m p c; csv_loop v sv_size m sv k q sub (p + 1) (str + 1) }
              else csv_loop v sv_size m sv k c sub p (str + 1)
         else do { t \<leftarrow> is_delim v (char_int c);
                   if t \<and> q = 0
                   then if k = sv_size then Some (Inl ENOSPC, m, sv)
                        else do { m \<leftarrow> put_at m p 0;
                                  sv \<leftarrow> put_at sv k (Some sub);
                                  csv_loop v sv_size m sv (k + 1) q (p + 1) (p + 1) (str + 1) }
                   else do { m \<leftarrow> put_at m p c; csv_loop v sv_size m sv k q sub (p + 1) (str + 1) } } }"
  by pat_completeness auto
termination
  by (relation "measure (\<lambda>(v, n, m, sv, k, q, sub, p, str). length m - str)") (auto split: if_splits)

declare csv_loop.simps [simp del]

definition strsplit_csv :: "nat option list \<Rightarrow> nat \<Rightarrow> u8 list \<Rightarrow> u8 list option \<Rightarrow> (nat res \<times> u8 list \<times> nat option list) option" where
  "strsplit_csv sv sv_size m sep =
    do { v \<leftarrow> csv_seps init_delim (case sep of None \<Rightarrow> [44] | Some s \<Rightarrow> s);
         csv_loop v sv_size m sv 0 0 0 0 0 }"

section \<open>Written fields\<close>

text \<open>A field is written as it is, or between quotes with a backslash before every quote of the same kind.\<close>

datatype csv_field = Plain "u8 list" | Quoted u8 "u8 list"

fun csv_text :: "csv_field \<Rightarrow> u8 list" where
  "csv_text (Plain w) = w"
| "csv_text (Quoted q w) = w"

definition csv_escape :: "u8 \<Rightarrow> u8 list \<Rightarrow> u8 list" where
  "csv_escape q w = concat (map (\<lambda>c. if c = q then [92, c] else [c]) w)"

fun csv_write :: "csv_field \<Rightarrow> u8 list" where
  "csv_write (Plain w) = w"
| "csv_write (Quoted q w) = q # csv_escape q w @ [q]"

text \<open>What can be written: ASCII, no quote or separator in a plain field, no backslash in a quoted one.\<close>

fun csv_ok :: "(u8 \<Rightarrow> bool) \<Rightarrow> csv_field \<Rightarrow> bool" where
  "csv_ok P (Plain w) \<longleftrightarrow> (\<forall>c \<in> set w. c \<noteq> 0 \<and> c < 128 \<and> c \<noteq> 34 \<and> c \<noteq> 39 \<and> \<not> P c)"
| "csv_ok P (Quoted q w) \<longleftrightarrow> (q = 34 \<or> q = 39) \<and> (\<forall>c \<in> set w. c \<noteq> 0 \<and> c < 128 \<and> c \<noteq> 92)"

fun csv_line :: "u8 \<Rightarrow> csv_field list \<Rightarrow> u8 list" where
  "csv_line s [] = []"
| "csv_line s [f] = csv_write f"
| "csv_line s (f # fs) = csv_write f @ s # csv_line s fs"

section \<open>One character\<close>

text \<open>
  The buffer in the loop: the characters of the fields so far, those that were read but left no character, and the rest.
\<close>

definition moved :: "u8 list \<Rightarrow> u8 \<Rightarrow> u8 list" where
  "moved gap c = (if gap = [] then [] else tl gap @ [c])"

abbreviation (input) csv_at where
  "csv_at v n out gap rest sv k q sub \<equiv> csv_loop v n (out @ gap @ rest) sv k q sub (length out) (length out + length gap)"

lemma put_moved: "put_at (out @ gap @ c # rest) (length out) x = Some ((out @ [x]) @ moved gap c @ rest)"
  by (cases gap) (simp_all add: put_at_def moved_def list_update_append)

lemma length_moved [simp]: "length (moved gap c) = length gap"
  by (simp add: moved_def)

lemma moved_last: "gap \<noteq> [] \<Longrightarrow> last (moved gap c) = c" "moved gap c = [] \<longleftrightarrow> gap = []"
  by (auto simp: moved_def)

lemma get_here: "get_at (out @ gap @ c # rest) (length out + length gap) = Some c"
  by (simp add: get_at_def nth_append)

lemma get_before: "gap \<noteq> [] \<Longrightarrow> get_at (out @ gap @ rest) (length out + length gap - Suc 0) = Some (last gap)"
  by (cases gap rule: rev_cases) (simp_all add: get_at_def nth_append)

lemma csv_plain_char:
  assumes "c \<noteq> 0" "c \<noteq> 34" "c \<noteq> 39" "is_delim v (char_int c) = Some t" "\<not> t \<or> q \<noteq> 0"
  shows "csv_at v n out gap (c # rest) sv k q sub = csv_at v n (out @ [c]) (moved gap c) rest sv k q sub"
  using assms by (subst csv_loop.simps) (auto simp: get_here put_moved)

lemma csv_other_quote:
  assumes "c = 34 \<or> c = 39" "q \<noteq> 0" "q \<noteq> c"
  shows "csv_at v n out gap (c # rest) sv k q sub = csv_at v n (out @ [c]) (moved gap c) rest sv k q sub"
  using assms by (subst csv_loop.simps) (auto simp: get_here put_moved)

lemma csv_open_quote:
  assumes "c = 34 \<or> c = 39"
  shows "csv_at v n out gap (c # rest) sv k 0 sub = csv_at v n out (gap @ [c]) rest sv k c sub"
  using assms by (subst csv_loop.simps) (auto simp: get_here)

lemma csv_close_quote:
  assumes "c = 34 \<or> c = 39" "gap \<noteq> []" "last gap \<noteq> 92"
  shows "csv_at v n out gap (c # rest) sv k c sub = csv_at v n out (gap @ [c]) rest sv k 0 sub"
  using assms by (subst csv_loop.simps) (auto simp: get_here get_before)

lemma csv_escaped_quote:
  assumes "c = 34 \<or> c = 39" "gap \<noteq> []" "last gap = 92" "out \<noteq> []"
  shows "csv_at v n out gap (c # rest) sv k c sub = csv_at v n (butlast out @ [c]) (gap @ [c]) rest sv k c sub"
proof -
  have c: "c \<noteq> 0" "(c = 39 \<or> c = 34) = True" using assms(1) by auto
  have put: "put_at (out @ gap @ c # rest) (length out - Suc 0) c = Some (butlast out @ c # gap @ c # rest)"
    using assms(4) by (cases out rule: rev_cases) (simp_all add: put_at_def list_update_append)
  have "length out = Suc (length out - Suc 0)" using assms(4) by (cases out) auto
  then show ?thesis using assms(2-4) by (subst csv_loop.simps) (simp add: get_here get_before put c)
qed

lemma csv_separator:
  assumes "c \<noteq> 0" "c \<noteq> 34" "c \<noteq> 39" "is_delim v (char_int c) = Some True" "k < n" "n \<le> length sv"
  shows "csv_at v n out gap (c # rest) sv k 0 sub = csv_at v n (out @ [0]) (moved gap c) rest (sv[k := Some sub]) (k + 1) 0 (length out + 1)"
  using assms by (subst csv_loop.simps) (simp add: get_here put_moved mem_simps)

section \<open>One field\<close>

lemma csv_plain_field:
  assumes "\<forall>c \<in> set w. c \<noteq> 0 \<and> c \<noteq> 34 \<and> c \<noteq> 39 \<and> is_delim v (char_int c) = Some False"
  shows "\<exists>gap'. csv_at v n out gap (w @ rest) sv k 0 sub = csv_at v n (out @ w) gap' rest sv k 0 sub"
  using assms
proof (induction w arbitrary: out gap)
  case (Cons c w)
  then show ?case using csv_plain_char [of c v False 0 n out gap "w @ rest" sv k sub] Cons.IH [of "out @ [c]" "moved gap c"] by auto
qed auto

lemma csv_quoted_body:
  assumes "q = 34 \<or> q = 39" "gap \<noteq> []" "last gap \<noteq> 92"
    "\<forall>c \<in> set w. c \<noteq> 0 \<and> c \<noteq> 92 \<and> (c \<noteq> 34 \<and> c \<noteq> 39 \<longrightarrow> (\<exists>t. is_delim v (char_int c) = Some t))"
    "\<exists>t. is_delim v (char_int 92) = Some t"
  shows "\<exists>gap'. gap' \<noteq> [] \<and> last gap' \<noteq> 92 \<and>
    csv_at v n out gap (csv_escape q w @ rest) sv k q sub = csv_at v n (out @ w) gap' rest sv k q sub"
  using assms(2-4)
proof (induction w arbitrary: out gap)
  case (Cons c w)
  have q: "q \<noteq> 0" using assms(1) by auto
  have "\<exists>gap'. gap' \<noteq> [] \<and> last gap' \<noteq> 92 \<and>
      csv_at v n out gap ((if c = q then [92, c] else [c]) @ csv_escape q w @ rest) sv k q sub =
      csv_at v n (out @ [c]) gap' (csv_escape q w @ rest) sv k q sub"
  proof (cases "c = q")
    case True
    let ?g = "moved gap 92"
    have g: "?g \<noteq> []" "last ?g = 92" using moved_last [of gap 92] Cons.prems(1) by auto
    obtain t where t: "is_delim v (char_int 92) = Some t" using assms(5) by blast
    have "csv_at v n out gap (92 # c # csv_escape q w @ rest) sv k q sub = csv_at v n (out @ [92]) ?g (c # csv_escape q w @ rest) sv k q sub"
      by (rule csv_plain_char [OF _ _ _ t]) (use q in auto)
    also have "\<dots> = csv_at v n (butlast (out @ [92]) @ [c]) (?g @ [c]) (csv_escape q w @ rest) sv k q sub"
      using csv_escaped_quote [OF _ g, of c "out @ [92]"] assms(1) True by simp
    finally show ?thesis using True assms(1) by (intro exI [of _ "?g @ [c]"]) auto
  next
    case False
    have "csv_at v n out gap (c # csv_escape q w @ rest) sv k q sub = csv_at v n (out @ [c]) (moved gap c) (csv_escape q w @ rest) sv k q sub"
    proof (cases "c = 34 \<or> c = 39")
      case True
      then show ?thesis using csv_other_quote [of c q] q False by auto
    next
      case nq: False
      then obtain t where "is_delim v (char_int c) = Some t" using Cons.prems(3) by auto
      then show ?thesis using csv_plain_char [of c v t q] nq Cons.prems(3) q by auto
    qed
    then show ?thesis using False moved_last [of gap c] Cons.prems by (intro exI [of _ "moved gap c"]) auto
  qed
  then obtain g1 where g1: "g1 \<noteq> []" "last g1 \<noteq> 92" "csv_at v n out gap (csv_escape q (c # w) @ rest) sv k q sub =
      csv_at v n (out @ [c]) g1 (csv_escape q w @ rest) sv k q sub" by (auto simp: csv_escape_def)
  from Cons.IH [OF g1(1,2), of "out @ [c]"] Cons.prems(3) g1(3) show ?case by auto
qed (auto simp: csv_escape_def)

lemma csv_field:
  assumes P: "\<And>c. c < 128 \<Longrightarrow> is_delim v (char_int c) = Some (P c)" and f: "csv_ok P f"
  shows "\<exists>gap'. csv_at v n out gap (csv_write f @ rest) sv k 0 sub = csv_at v n (out @ csv_text f) gap' rest sv k 0 sub"
proof (cases f)
  case (Plain w)
  then show ?thesis using csv_plain_field [of w v n out gap rest sv k sub] P f by auto
next
  case (Quoted q w)
  then have q: "q = 34 \<or> q = 39" and w: "\<forall>c \<in> set w. c \<noteq> 0 \<and> c < 128 \<and> c \<noteq> 92" using f by auto
  have "\<exists>gap'. gap' \<noteq> [] \<and> last gap' \<noteq> 92 \<and> csv_at v n out (gap @ [q]) (csv_escape q w @ q # rest) sv k q sub = csv_at v n (out @ w) gap' (q # rest) sv k q sub"
    by (rule csv_quoted_body) (use q w P in auto)
  then obtain g where g: "g \<noteq> []" "last g \<noteq> 92" "csv_at v n out (gap @ [q]) (csv_escape q w @ q # rest) sv k q sub = csv_at v n (out @ w) g (q # rest) sv k q sub"
    by blast
  then show ?thesis using Quoted csv_open_quote [OF q, of v n out gap "csv_escape q w @ q # rest" sv k sub] csv_close_quote [OF q g(1,2), of v n "out @ w" rest sv k sub]
    by (intro exI [of _ "g @ [q]"]) simp
qed

section \<open>A line\<close>

fun csv_ptrs :: "nat \<Rightarrow> csv_field list \<Rightarrow> nat list" where
  "csv_ptrs b [] = []"
| "csv_ptrs b (f # fs) = b # csv_ptrs (b + length (csv_text f) + 1) fs"

definition csv_out :: "csv_field list \<Rightarrow> u8 list" where
  "csv_out fs = concat (map (\<lambda>f. csv_text f @ [0]) fs)"

lemma csv_ptrs_tokens:
  assumes "\<forall>f \<in> set fs. 0 \<notin> set (csv_text f)"
  shows "map (token_at (out @ csv_out fs @ junk)) (csv_ptrs (length out) fs) = map csv_text fs"
  using assms
proof (induction fs arbitrary: out)
  case (Cons f fs)
  have "token_at (out @ csv_text f @ 0 # (csv_out fs @ junk)) (length out) = csv_text f" using Cons.prems by (intro token_at_plain) auto
  then show ?case using Cons.IH [of "out @ csv_text f @ [0]"] Cons.prems by (simp add: csv_out_def)
qed simp

lemma csv_line_loop:
  assumes P: "\<And>c. c < 128 \<Longrightarrow> is_delim v (char_int c) = Some (P c)" and s: "P s" "s < 128" "s \<noteq> 0" "s \<noteq> 34" "s \<noteq> 39" and n: "n \<le> length sv"
    and fs: "fs \<noteq> []" "list_all (csv_ok P) fs" "csv_text (last fs) \<noteq> []" "k + length fs \<le> n"
  shows "\<exists>junk sv'. csv_at v n out gap (csv_line s fs @ 0 # t) sv k 0 (length out) = Some (Inr (k + length fs), out @ csv_out fs @ junk, sv') \<and>
    take (k + length fs) sv' = take k sv @ map Some (csv_ptrs (length out) fs)"
  using n fs
proof (induction fs arbitrary: out gap sv k)
  case (Cons f fs)
  define rest where "rest = (if fs = [] then 0 # t else s # csv_line s fs @ 0 # t)"
  have line: "csv_line s (f # fs) @ 0 # t = csv_write f @ rest" by (cases fs) (simp_all add: rest_def)
  obtain g where g: "csv_at v n out gap (csv_write f @ rest) sv k 0 (length out) = csv_at v n (out @ csv_text f) g rest sv k 0 (length out)"
    using csv_field [OF P, of f n out gap rest sv k "length out"] Cons.prems by auto
  show ?case
  proof (cases "fs = []")
    case True
    then have "csv_at v n (out @ csv_text f) g rest sv k 0 (length out) = Some (Inr (k + 1), (out @ csv_text f @ [0]) @ moved g 0 @ t, sv[k := Some (length out)])"
      using Cons.prems put_moved [of "out @ csv_text f" g 0 t 0] get_here [of "out @ csv_text f" g 0 t]
      by (subst csv_loop.simps) (simp add: csv_end_def mem_simps rest_def)
    then show ?thesis using True Cons.prems g line by (auto simp: csv_out_def take_Suc_conv_app_nth)
  next
    case False
    let ?out = "(out @ csv_text f) @ [0]" and ?sv = "sv[k := Some (length out)]"
    have k: "k < n" "k < length sv" using Cons.prems by auto
    have "csv_at v n (out @ csv_text f) g rest sv k 0 (length out) =
        csv_at v n ?out (moved g s) (csv_line s fs @ 0 # t) ?sv (k + 1) 0 (length ?out)"
      using csv_separator [of s v k n sv "out @ csv_text f" g "csv_line s fs @ 0 # t" "length out"] s P Cons.prems(1) k False by (simp add: rest_def)
    moreover obtain junk sv' where "csv_at v n ?out (moved g s) (csv_line s fs @ 0 # t) ?sv (k + 1) 0 (length ?out) =
        Some (Inr (k + 1 + length fs), ?out @ csv_out fs @ junk, sv')" "take (k + 1 + length fs) sv' = take (k + 1) ?sv @ map Some (csv_ptrs (length ?out) fs)"
      using Cons.IH [of ?sv "k + 1" ?out "moved g s"] Cons.prems False by auto
    ultimately show ?thesis using g line k by (simp add: csv_out_def take_Suc_conv_app_nth)
  qed
qed simp

section \<open>Properties\<close>

lemma csv_seps_ok:
  assumes "length v = 8" "\<forall>x. unat x < 256 \<longrightarrow> (\<exists>t. is_delim v x = Some t)" "\<forall>c \<in> set cs. c < 128"
  shows "\<exists>v'. csv_seps v cs = Some v' \<and> length v' = 8 \<and> (\<forall>x. unat x < 256 \<longrightarrow> is_delim v' x = map_option (\<lambda>b. b \<or> x \<in> set (map char_int cs)) (is_delim v x))"
  using assms
proof (induction cs arbitrary: v)
  case Nil
  then show ?case by (auto intro: option.map_ident [symmetric])
next
  case (Cons c cs)
  have c: "unat (char_int c) < 256" using Cons.prems(3) unat_char [of c] by (simp add: char_int_ascii)
  obtain w where w: "add_delim v (char_int c) = Some w" "length w = 8" "\<forall>x. unat x < 256 \<longrightarrow> is_delim w x = map_option (\<lambda>b. b \<or> x = char_int c) (is_delim v x)"
    using add_delim_ok [OF Cons.prems(1) c] by blast
  then have "is_delim w (char_int c) = Some True" "\<forall>x. unat x < 256 \<longrightarrow> (\<exists>t. is_delim w x = Some t)" using Cons.prems(2) c by auto
  then show ?case using Cons.IH [OF w(2)] Cons.prems(3) w by (auto simp: option.map_comp comp_def intro!: option.map_cong)
qed

lemma csv_sep_set:
  assumes "\<forall>c \<in> set cs. c < 128"
  shows "\<exists>v. csv_seps init_delim cs = Some v \<and> length v = 8 \<and> (\<forall>c. c < 128 \<longrightarrow> is_delim v (char_int c) = Some (c \<in> set cs))"
proof -
  have none: "is_delim init_delim x = Some False" if "unat x < 256" for x
    using that by (simp add: is_delim_def init_delim_def mem_simps unat_div)
  obtain v where v: "csv_seps init_delim cs = Some v" "length v = 8"
      "\<forall>x. unat x < 256 \<longrightarrow> is_delim v x = map_option (\<lambda>b. b \<or> x \<in> set (map char_int cs)) (is_delim init_delim x)"
    using csv_seps_ok [of init_delim cs] none assms by (auto simp: init_delim_def)
  have "is_delim v (char_int c) = Some (c \<in> set cs)" if c: "c < 128" for c
  proof -
    have "char_int c \<in> char_int ` set cs \<longleftrightarrow> c \<in> set cs" using c assms by (auto simp: char_int_ascii ucast_u8_inj)
    then show ?thesis using v(3) none [of "char_int c"] unat_char [of c] c by (simp add: char_int_ascii)
  qed
  then show ?thesis using v by blast
qed

lemma csv_ok_text: "csv_ok P f \<Longrightarrow> 0 \<notin> set (csv_text f)"
  by (cases f) auto

text \<open>
  C24: Comma-separated values. Take a line of ASCII fields joined by one of the separators, which are ASCII and no quote characters. A field is plain, without separators and quotes of
  either kind, or quoted, without backslashes, the quote characters of its own kind in it escaped. The last field is not empty (an empty one at the end of a line is not
  counted), and the number of fields fits the array. Then the line splits into exactly the texts of the fields, unquoted and unescaped in place, and their number is returned.
\<close>

theorem strsplit_csv_roundtrip:
  assumes "seps = (case sep of None \<Rightarrow> [44] | Some x \<Rightarrow> x)" "\<forall>c \<in> set seps. c < 128 \<and> c \<noteq> 0 \<and> c \<noteq> 34 \<and> c \<noteq> 39" "s \<in> set seps"
    "fs \<noteq> []" "list_all (csv_ok (\<lambda>c. c \<in> set seps)) fs" "csv_text (last fs) \<noteq> []" "length fs \<le> n" "n \<le> length sv"
  shows "\<exists>m' sv'. strsplit_csv sv n (csv_line s fs @ 0 # t) sep = Some (Inr (length fs), m', sv') \<and>
    map (map_option (token_at m')) (take (length fs) sv') = map (Some \<circ> csv_text) fs"
proof -
  obtain v where v: "csv_seps init_delim seps = Some v" "\<And>c. c < 128 \<Longrightarrow> is_delim v (char_int c) = Some (c \<in> set seps)"
    using csv_sep_set [of seps] assms(2) by auto
  obtain junk sv' where r: "csv_loop v n (csv_line s fs @ 0 # t) sv 0 0 0 0 0 = Some (Inr (length fs), csv_out fs @ junk, sv')"
      "take (length fs) sv' = map Some (csv_ptrs 0 fs)"
    using csv_line_loop [OF v(2), of s n sv fs 0 "[]" "[]" t] assms(2-8) by auto
  have "0 \<notin> set (csv_text f)" if "f \<in> set fs" for f using csv_ok_text assms(5) that by (metis list_all_iff)
  then have tok: "map (token_at (csv_out fs @ junk)) (csv_ptrs 0 fs) = map csv_text fs" using csv_ptrs_tokens [of fs "[]" junk] by simp
  have "map (map_option (token_at (csv_out fs @ junk))) (take (length fs) sv') = map Some (map (token_at (csv_out fs @ junk)) (csv_ptrs 0 fs))"
    by (simp add: r(2))
  then have "map (map_option (token_at (csv_out fs @ junk))) (take (length fs) sv') = map (Some \<circ> csv_text) fs" unfolding tok by simp
  then show ?thesis using r(1) v(1) assms(1) by (simp add: strsplit_csv_def)
qed

theorem strsplit_csv_roundtrip_witness:
  "\<exists>m' sv'. strsplit_csv [None, None] 2 [39, 97, 92, 39, 44, 39, 44, 98, 0] None = Some (Inr (Suc (Suc 0)), m', sv') \<and>
     map (map_option (token_at m')) (take (Suc (Suc 0)) sv') = [Some [97, 39, 44], Some [98]]"
  using strsplit_csv_roundtrip [of "[44]" None 44 "[Quoted 39 [97, 39, 44], Plain [98]]" 2 "[None, None]" "[]"] by (simp add: csv_escape_def)

text \<open>A byte above 127 is a negative \<open>char\<close>, and the test for a separator then reads far outside the set.\<close>

theorem strsplit_csv_high_byte_faults:
  assumes "128 \<le> c" "\<forall>c \<in> set seps. c < 128"
  shows "strsplit_csv sv n (c # m) (Some seps) = None"
proof -
  obtain v where v: "csv_seps init_delim seps = Some v" "length v = 8" using csv_sep_set [OF assms(2)] by blast
  have "c \<noteq> 0" "c \<noteq> 34" "c \<noteq> 39" using assms(1) by auto
  then show ?thesis using v is_delim_high [OF v(2) assms(1)] by (simp add: strsplit_csv_def) (subst csv_loop.simps, simp add: get_at_def)
qed

end
