(* ===== verification/Splitargs.thy ===== *)
theory Splitargs
  imports Strsplit
begin

text \<open>
  Splitting a command line as a shell does: \<open>src/splitargs.c\<close>. White space and closing quotes are overwritten with terminators, and the arguments are
  positions in the line.
\<close>

section \<open>The loop\<close>






section \<open>Command lines\<close>











section \<open>One character\<close>












section \<open>A whole line\<close>



section \<open>Properties\<close>









end
