(* ===== verification/Mapfile.thy ===== *)
theory Mapfile
  imports Encdec
begin

text \<open>
  Files that are written and read through \<open>mmap\<close>, as \<open>src/hashtable/xorfilter_marshal.c\<close> and \<open>src/hashtable/bloom_marshal.c\<close> do it: a temporary file is
  created, grown to its final size (which fills it with zeros), written in memory and renamed. A file system maps names to contents. Which
  of the system calls whose result the code looks at fail, and with which error, is the record \<open>fenv\<close>. The calls whose results the code ignores
  (\<open>munmap\<close>, \<open>fsync\<close>, \<open>fdatasync\<close>, \<open>close\<close> and \<open>unlink\<close>) are taken to succeed: a failing \<open>unlink\<close> would leave the temporary file behind, and what a crash leaves of a
  file that was not synchronised is not modelled.
\<close>

type_synonym filesys = "string \<rightharpoonup> u8 list"

record fenv =
  fe_tmp :: string
  fe_mkostemp :: "errno option"
  fe_ftruncate :: "errno option"
  fe_mmap :: "errno option"
  fe_rename :: "errno option"
  fe_fstat :: "errno option"
  fe_open :: "errno option"

text \<open>A return code: zero, a negative error as it is meant, or a positive one.\<close>

datatype rc = Rc_ok | Rc_neg errno | Rc_pos errno

text \<open>
  The common frame of the two writers; \<open>write\<close> fills the mapped memory and \<open>mm\<close> is the code of a failing \<open>mmap\<close>.
\<close>

definition marshal_file :: "fenv \<Rightarrow> (errno \<Rightarrow> rc) \<Rightarrow> u64 \<Rightarrow> (u8 list \<Rightarrow> u8 list option) \<Rightarrow> string \<Rightarrow> filesys \<Rightarrow> (rc \<times> filesys) option" where
  "marshal_file E mm filesz write fname fs =
    (case fe_mkostemp E of
       Some e \<Rightarrow> Some (Rc_neg e, fs)
     | None \<Rightarrow>
         let fs = fs(fe_tmp E \<mapsto> []) in
         case fe_ftruncate E of
           Some e \<Rightarrow> Some (Rc_neg e, fs(fe_tmp E := None))
         | None \<Rightarrow>
             let mptr = replicate (unat filesz) 0; fs = fs(fe_tmp E \<mapsto> mptr) in
             case fe_mmap E of
               Some e \<Rightarrow> Some (mm e, fs(fe_tmp E := None))
             | None \<Rightarrow>
                 do { mptr \<leftarrow> write mptr;
                      let fs = fs(fe_tmp E \<mapsto> mptr);
                      case fe_rename E of
                        Some e \<Rightarrow> Some (Rc_neg e, fs(fe_tmp E := None))
                      | None \<Rightarrow> Some (Rc_ok, fs(fe_tmp E := None, fname \<mapsto> mptr)) })"

text \<open>
  Opening and mapping a file for reading: the errors before its contents are looked at. A missing file cannot be opened; \<open>fe_open\<close> is any other failure of
  \<open>open\<close>.
\<close>

definition map_file :: "fenv \<Rightarrow> u64 \<Rightarrow> string \<Rightarrow> filesys \<Rightarrow> u8 list res" where
  "map_file E least fname fs =
    (case fs fname of
       None \<Rightarrow> Inl ENOENT
     | Some m \<Rightarrow>
         case fe_open E of
           Some e \<Rightarrow> Inl e
         | None \<Rightarrow>
             case fe_fstat E of
               Some e \<Rightarrow> Inl e
             | None \<Rightarrow> if length m < unat least then Inl EILSEQ
                       else case fe_mmap E of Some e \<Rightarrow> Inl e | None \<Rightarrow> Inr m)"

section \<open>Facts\<close>

definition no_error :: "fenv \<Rightarrow> bool" where
  "no_error E \<longleftrightarrow> fe_mkostemp E = None \<and> fe_ftruncate E = None \<and> fe_mmap E = None \<and> fe_rename E = None \<and> fe_fstat E = None"

text \<open>An error leaves the old file, and no temporary one.\<close>

lemma marshal_file_outcome:
  assumes "write (replicate (unat filesz) 0) = Some m" "fs (fe_tmp E) = None" "fe_tmp E \<noteq> fname" "\<And>e. mm e \<noteq> Rc_ok"
  shows "\<exists>r. marshal_file E mm filesz write fname fs = Some (r, if r = Rc_ok then fs(fname \<mapsto> m) else fs) \<and> (no_error E \<longrightarrow> r = Rc_ok)"
  using assms by (auto simp: marshal_file_def no_error_def Let_def fun_upd_idem_iff fun_upd_twist split: option.splits)

text \<open>Memory that is written from the front: \<open>out\<close> so far, \<open>k\<close> zeros left.\<close>

definition fresh :: "u8 list \<Rightarrow> nat \<Rightarrow> cursor" where
  "fresh out k = \<lparr>cu_mem = out @ replicate k 0, cu_pos = length out\<rparr>"

lemma start_fresh: "\<lparr>cu_mem = replicate k 0, cu_pos = 0\<rparr> = fresh [] k"
  by (simp add: fresh_def)

lemma put_fresh: "length bs \<le> k \<Longrightarrow> put_bytes bs (fresh out k) = Some (fresh (out @ bs) (k - length bs))"
  by (simp add: put_bytes_fits fresh_def)

lemma skip_fresh:
  assumes "length out \<le> p" "p \<le> length out + k"
  shows "(fresh out k)\<lparr>cu_pos := p\<rparr> = fresh (out @ replicate (p - length out) 0) (k - (p - length out))"
proof -
  have "replicate k (0 :: u8) = replicate (p - length out) 0 @ replicate (k - (p - length out)) 0" using assms by (simp add: replicate_add [symmetric])
  then show ?thesis using assms by (simp add: fresh_def)
qed

lemma fresh_sel [simp]: "cu_pos (fresh out k) = length out" "cu_mem (fresh out k) = out @ replicate k 0"
  by (simp_all add: fresh_def)

lemma length_le [simp]: "length (le64 a) = 8" "length (le32 b) = 4" "length (le16 c) = 2"
  using le64.length_lanes le32.length_lanes le16.length_lanes by simp_all

lemma enc_fresh:
  "8 \<le> k \<Longrightarrow> enc_LE_u64 (fresh out k) a = Some (fresh (out @ le64 a) (k - 8))"
  "4 \<le> k \<Longrightarrow> enc_LE_u32 (fresh out k) b = Some (fresh (out @ le32 b) (k - 4))"
  using put_fresh [of "le64 a" k out] put_fresh [of "le32 b" k out] le64.enc_lanes [of "fresh out k" a] le32.enc_lanes [of "fresh out k" b]
  by (simp_all add: le64.length_lanes le32.length_lanes)

lemma put_byte_fresh: "0 < k \<Longrightarrow> put_byte b (fresh out k) = Some (fresh (out @ [b]) (k - 1))"
  using put_fresh [of "[b]" k out] by (simp add: put_bytes_eta)

text \<open>Eight bytes read where only four were meant: the low half is right.\<close>

lemma dec_LE_u64_low:
  assumes "p + 8 \<le> length m"
  shows "\<exists>v. dec_LE_u64 m p = Some v \<and> dec_LE_u32 m p = Some (ucast v)"
proof -
  have i: "p + j < length m" if "j < 8" for j using assms that by linarith
  have "p < length m" using assms by linarith
  then show ?thesis using i [of 1] i [of 2] i [of 3] i [of 4] i [of 5] i [of 6] i [of 7]
    by (auto simp: dec_LE_u64_def dec_LE_u32_def mem_simps intro!: bit_word_eqI) (auto simp: bit_simps)
qed

end
