(* ===== verification/Xor_Marshal.thy ===== *)
theory Xor_Marshal
  imports Mapfile Xorfilter
begin

text \<open>
  Saving and loading Xor filters: \<open>src/hashtable/xorfilter_marshal.c\<close>. The page size, SHA256 (\<open>sha\<close>, the digest of the concatenated updates) and the
  floating-point \<open>xorfilter_calc_size\<close> (\<open>sz\<close>) are arguments.
\<close>

section \<open>Writing\<close>

definition SHASIZE :: u64 where
  "SHASIZE = 32"

text \<open>The fingerprints in the memory of a little-endian machine.\<close>

definition is_16 :: "Xorfilter \<Rightarrow> bool" where
  "is_16 x = (case xf_fp x of Fp16 b \<Rightarrow> True | Fp8 b \<Rightarrow> False)"

definition fp_image :: "Xorfilter \<Rightarrow> u8 list" where
  "fp_image x = (case xf_fp x of Fp8 b \<Rightarrow> b | Fp16 b \<Rightarrow> concat (map le16 b))"

text \<open>\<open>"XORF"\<close>.\<close>

definition xorf_magic :: "u8 list" where
  "xorf_magic = [88, 79, 82, 70]"

definition xor_wrhdr :: "u64 \<Rightarrow> Xorfilter \<Rightarrow> cursor \<Rightarrow> cursor option" where
  "xor_wrhdr pagesz x p =
    (let st = cu_pos p in
     do { p \<leftarrow> put_bytes xorf_magic p;
          p \<leftarrow> put_byte 1 p;
          p \<leftarrow> put_byte (if is_16 x then 1 else 0) p;
          let p = p\<lparr>cu_pos := cu_pos p + 2\<rparr>;
          p \<leftarrow> enc_LE_u64 p (xf_seed x);
          p \<leftarrow> enc_LE_u32 p (xf_size x);
          p \<leftarrow> enc_LE_u32 p (xf_n x);
          let pad = pagesz - of_nat (cu_pos p - st);
          Some (p\<lparr>cu_pos := cu_pos p + unat pad\<rparr>) })"

text \<open>The checksum covers the size of the file and everything before the checksum.\<close>

definition xor_sum :: "(u8 list \<Rightarrow> u8 list) \<Rightarrow> u64 \<Rightarrow> u8 list \<Rightarrow> u8 list option" where
  "xor_sum sha filesz m =
    do { sbuf \<leftarrow> enc_LE_u64 \<lparr>cu_mem = replicate 8 0, cu_pos = 0\<rparr> filesz;
         if length m < unat (filesz - SHASIZE) then None
         else Some (sha (cu_mem sbuf @ take (unat (filesz - SHASIZE)) m)) }"

definition xor_write :: "(u8 list \<Rightarrow> u8 list) \<Rightarrow> u64 \<Rightarrow> u64 \<Rightarrow> Xorfilter \<Rightarrow> u8 list \<Rightarrow> u8 list option" where
  "xor_write sha pagesz filesz x mptr =
    do { st \<leftarrow> xor_wrhdr pagesz x \<lparr>cu_mem = mptr, cu_pos = 0\<rparr>;
         let xsz = unat (xorfilter_size x);
         st \<leftarrow> (if length (fp_image x) < xsz then None else put_bytes (take xsz (fp_image x)) st);
         h \<leftarrow> xor_sum sha filesz (cu_mem st);
         st \<leftarrow> put_bytes h st;
         Some (cu_mem st) }"

definition Xorfilter_marshal ::
  "fenv \<Rightarrow> (u8 list \<Rightarrow> u8 list) \<Rightarrow> u64 \<Rightarrow> Xorfilter \<Rightarrow> string \<Rightarrow> filesys \<Rightarrow> (rc \<times> filesys) option" where
  "Xorfilter_marshal E sha pagesz x fname fs =
    (let filesz = xorfilter_size x; filesz = filesz + pagesz; filesz = filesz + SHASIZE in
     marshal_file E Rc_pos filesz (xor_write sha pagesz filesz x) fname fs)"

section \<open>Reading\<close>

record xor_hdr =
  xh_is16 :: u8
  xh_seed :: u64
  xh_size :: u32
  xh_n :: u32

definition hdr_size :: "xor_hdr \<Rightarrow> u64" where
  "hdr_size h = (let sz = ucast (3 * xh_size h) in if xh_is16 h \<noteq> 0 then sz * 2 else sz)"

text \<open>The two 32-bit fields are read as 64-bit integers. The result is the header and the position after it.\<close>

definition xor_rdhdr :: "u64 \<Rightarrow> u8 list \<Rightarrow> (xor_hdr \<times> nat) option option" where
  "xor_rdhdr pagesz m =
    (if length m < 4 then None
     else if take 4 m \<noteq> xorf_magic then Some None
     else do { v \<leftarrow> get_at m 4;
               if v \<noteq> 1 then Some None
               else do { t \<leftarrow> get_at m 5;
                         seed \<leftarrow> dec_LE_u64 m 8;
                         size \<leftarrow> dec_LE_u64 m 16;
                         n \<leftarrow> dec_LE_u64 m 20;
                         Some (Some (\<lparr>xh_is16 = t, xh_seed = seed, xh_size = ucast size, xh_n = ucast n\<rparr>, 24 + unat (pagesz - 24))) } })"

text \<open>
  The fingerprints at \<open>p\<close>: a copy, which reads all of them, or, with \<open>XORFILTER_MMAP\<close>, the mapped bytes themselves, as many as there are.
\<close>

definition fp_load :: "bool \<Rightarrow> xor_hdr \<Rightarrow> u8 list \<Rightarrow> nat \<Rightarrow> fingerprints option" where
  "fp_load do_mmap h m p =
    (let k = unat (hdr_size h); k = (if do_mmap then min k (length m - p) else k) in
     if length m < p + k then None
     else if xh_is16 h \<noteq> 0 then map_option Fp16 (dec_all dec_LE_u16 2 (k div 2) m p)
     else Some (Fp8 (take k (drop p m))))"

text \<open>\<open>ok\<close> says whether the allocations succeed: they are asserted to.\<close>

definition Xorfilter_unmarshal ::
  "fenv \<Rightarrow> bool \<Rightarrow> (u8 list \<Rightarrow> u8 list) \<Rightarrow> (nat \<Rightarrow> nat) \<Rightarrow> u64 \<Rightarrow> bool \<Rightarrow> string \<Rightarrow> filesys \<Rightarrow> Xorfilter res option" where
  "Xorfilter_unmarshal E ok sha sz pagesz do_mmap fname fs =
    (case map_file E (SHASIZE + pagesz) fname fs of
       Inl e \<Rightarrow> Some (Inl e)
     | Inr m \<Rightarrow>
         let st_size = of_nat (length m) in
         do { h \<leftarrow> xor_sum sha st_size m;
              if h \<noteq> take 32 (drop (unat (st_size - SHASIZE)) m) then Some (Inl EILSEQ)
              else do {
                r \<leftarrow> xor_rdhdr pagesz m;
                case r of
                  None \<Rightarrow> Some (Inl EINVAL)
                | Some (zx, p) \<Rightarrow>
                    if st_size - SHASIZE < hdr_size zx then Some (Inl E2BIG)
                    else if ucast (xh_size zx) \<noteq> (of_nat (sz (unat (xh_n zx))) :: u64) then Some (Inl EINVAL)
                    else if \<not> ok then None
                    else do { fp \<leftarrow> fp_load do_mmap zx m p;
                              Some (Inr \<lparr>xf_fp = fp, xf_seed = xh_seed zx, xf_size = xh_size zx, xf_n = xh_n zx\<rparr>) } } })"

section \<open>The contents of a file\<close>

definition xor_header :: "Xorfilter \<Rightarrow> u8 list" where
  "xor_header x = xorf_magic @ [1, if is_16 x then 1 else 0, 0, 0] @ le64 (xf_seed x) @ le32 (xf_size x) @ le32 (xf_n x)"

definition xor_body :: "u64 \<Rightarrow> Xorfilter \<Rightarrow> u8 list" where
  "xor_body pagesz x = xor_header x @ replicate (unat pagesz - 24) 0 @ take (unat (xorfilter_size x)) (fp_image x)"

definition xor_file :: "(u8 list \<Rightarrow> u8 list) \<Rightarrow> u64 \<Rightarrow> Xorfilter \<Rightarrow> u8 list" where
  "xor_file sha pagesz x =
    (let b = xor_body pagesz x in b @ sha (le64 (of_nat (length b + 32)) @ b))"

lemma length_xor_header [simp]: "length (xor_header x) = 24"
  by (simp add: xor_header_def xorf_magic_def)

lemma xor_wrhdr_eq:
  assumes "24 \<le> unat pagesz" "unat pagesz \<le> k"
  shows "xor_wrhdr pagesz x (fresh [] k) = Some (fresh (xor_header x @ replicate (unat pagesz - 24) 0) (k - unat pagesz))"
proof -
  have m: "length xorf_magic = 4" by (simp add: xorf_magic_def)
  have two: "replicate 2 (0 :: u8) = [0, 0]" by (simp add: numeral_2_eq_2)
  have "unat (pagesz - 24) = unat pagesz - 24" using assms(1) by (simp add: unat_sub word_le_nat_alt)
  then show ?thesis using assms
    by (simp add: xor_wrhdr_def put_fresh put_byte_fresh enc_fresh skip_fresh m xor_header_def two)
qed

text \<open>A filter with exactly the three blocks of fingerprints it uses.\<close>

definition xor_wf :: "(nat \<Rightarrow> nat) \<Rightarrow> Xorfilter \<Rightarrow> bool" where
  "xor_wf sz x \<longleftrightarrow> 3 * unat (xf_size x) < 2 ^ 32 \<and> unat (xf_size x) = sz (unat (xf_n x)) \<and>
    (case xf_fp x of Fp8 b \<Rightarrow> length b | Fp16 b \<Rightarrow> length b) = 3 * unat (xf_size x)"

lemma length_le16s [simp]: "length (concat (map le16 b)) = 2 * length b"
  by (induction b) simp_all

lemma unat_times3: "3 * unat (a :: u32) < 2 ^ 32 \<Longrightarrow> unat (ucast (3 * a) :: u64) = 3 * unat a"
  by (simp add: unat_word_ariths)

lemma xor_size_image:
  assumes "xor_wf sz x"
  shows "unat (xorfilter_size x) = length (fp_image x)" "length (fp_image x) < 2 ^ 33"
  using assms unat_times3 [of "xf_size x"]
  by (auto simp: xor_wf_def xorfilter_size_def fp_image_def unat_word_ariths split: fingerprints.splits)

text \<open>The size of the file does not wrap.\<close>

lemma file_size:
  assumes "xor_wf sz x" "unat pagesz < 2 ^ 62"
  shows "unat (xorfilter_size x + pagesz + SHASIZE) = length (fp_image x) + unat pagesz + 32"
    and "unat (xorfilter_size x + pagesz + SHASIZE - SHASIZE) = length (fp_image x) + unat pagesz"
  using xor_size_image [OF assms(1)] assms(2) by (simp_all add: SHASIZE_def unat_word_ariths)

lemma xor_write_eq:
  assumes "xor_wf sz x" "24 \<le> unat pagesz" "unat pagesz < 2 ^ 62" "\<And>m. length (sha m) = 32"
    and f: "filesz = xorfilter_size x + pagesz + SHASIZE"
  shows "xor_write sha pagesz filesz x (replicate (unat filesz) 0) = Some (xor_file sha pagesz x)"
proof -
  note sz = file_size [OF assms(1,3), folded f] and im = xor_size_image [OF assms(1)]
  have b: "xor_body pagesz x = xor_header x @ replicate (unat pagesz - 24) 0 @ fp_image x" "length (xor_body pagesz x) = length (fp_image x) + unat pagesz"
    using im assms(2) by (simp_all add: xor_body_def)
  have sum: "xor_sum sha filesz (xor_body pagesz x @ replicate 32 0) = Some (sha (le64 filesz @ xor_body pagesz x))"
    using sz b(2) by (simp add: xor_sum_def start_fresh enc_fresh)
  have "of_nat (unat filesz) = filesz" by simp
  then have fz: "of_nat (length (xor_body pagesz x) + 32) = filesz" by (simp only: sz(1) b(2))
  then have "xor_file sha pagesz x = xor_body pagesz x @ sha (le64 filesz @ xor_body pagesz x)" by (simp only: xor_file_def Let_def)
  then show ?thesis
    using assms(2,4) sz(1) im(1) sum by (simp add: xor_write_def start_fresh xor_wrhdr_eq put_fresh b)
qed

section \<open>Reading it back\<close>

lemma rdhdr_file:
  assumes "m = xor_header x @ r" "4 \<le> length r"
  shows "xor_rdhdr pagesz m = Some (Some (\<lparr>xh_is16 = if is_16 x then 1 else 0, xh_seed = xf_seed x, xh_size = xf_size x, xh_n = xf_n x\<rparr>, 24 + unat (pagesz - 24)))"
proof -
  let ?a = "xorf_magic @ [1, if is_16 x then 1 else 0, 0, 0]"
  have l: "length ?a = 8" "length m = 24 + length r" by (simp_all add: xorf_magic_def assms(1))
  have m: "m = ?a @ le64 (xf_seed x) @ le32 (xf_size x) @ le32 (xf_n x) @ r" by (simp add: assms(1) xor_header_def)
  have 8: "dec_LE_u64 m 8 = Some (xf_seed x)"
    using le64.dec_lanes [of ?a "xf_seed x" "le32 (xf_size x) @ le32 (xf_n x) @ r"] by (simp only: l m)
  have 16: "dec_LE_u32 m 16 = Some (xf_size x)"
    using le32.dec_lanes [of "?a @ le64 (xf_seed x)" "xf_size x" "le32 (xf_n x) @ r"] by (simp add: m l(1) [simplified])
  have 20: "dec_LE_u32 m 20 = Some (xf_n x)"
    using le32.dec_lanes [of "?a @ le64 (xf_seed x) @ le32 (xf_size x)" "xf_n x" r] by (simp add: m l(1) [simplified])
  have h: "take 4 m = xorf_magic" "get_at m 4 = Some 1" "get_at m 5 = Some (if is_16 x then 1 else 0)"
    by (simp_all add: m xorf_magic_def)
  obtain u v where "dec_LE_u64 m 16 = Some u" "ucast u = xf_size x" "dec_LE_u64 m 20 = Some v" "ucast v = xf_n x"
    using dec_LE_u64_low [of 16 m] dec_LE_u64_low [of 20 m] assms(2) l 16 20 by auto
  then show ?thesis using l(2) by (simp add: xor_rdhdr_def 8 h del: get_at_eq_Some)
qed

lemma fp_load_file:
  assumes "xor_wf sz x" "m = xs @ fp_image x @ ys" "xh_is16 h = (if is_16 x then 1 else 0)" "xh_size h = xf_size x"
  shows "unat (hdr_size h) = length (fp_image x)" "fp_load do_mmap h m (length xs) = Some (xf_fp x)"
proof -
  show s: "unat (hdr_size h) = length (fp_image x)"
    using assms(1,3,4) xor_size_image [OF assms(1)]
    by (auto simp: hdr_size_def xorfilter_size_def is_16_def Let_def split: fingerprints.splits)
  show "fp_load do_mmap h m (length xs) = Some (xf_fp x)"
  proof (cases "xf_fp x")
    case (Fp8 b)
    then show ?thesis using assms(2,3) s by (simp add: fp_load_def is_16_def fp_image_def Let_def)
  next
    case (Fp16 b)
    then show ?thesis using assms(2,3) s le16.dec_all_lanes [of b xs ys] by (simp add: fp_load_def is_16_def fp_image_def Let_def)
  qed
qed

text \<open>Loading what was written gives the filter back.\<close>

lemma unmarshal_file:
  assumes wf: "xor_wf sz x" and pg: "24 \<le> unat pagesz" "unat pagesz < 2 ^ 62" and sha: "\<And>m. length (sha m) = 32"
    and "fs fname = Some (xor_file sha pagesz x)" "fe_open E = None" "fe_fstat E = None" "fe_mmap E = None"
  shows "Xorfilter_unmarshal E True sha sz pagesz do_mmap fname fs = Some (Inr x)"
proof -
  let ?m = "xor_file sha pagesz x" and ?b = "xor_body pagesz x" and ?k = "length (fp_image x) + unat pagesz"
  let ?h = "\<lparr>xh_is16 = if is_16 x then 1 else 0, xh_seed = xf_seed x, xh_size = xf_size x, xh_n = xf_n x\<rparr>"
  note im = xor_size_image [OF wf]
  have b: "?b = (xor_header x @ replicate (unat pagesz - 24) 0) @ fp_image x" "length ?b = ?k"
    using im pg(1) by (simp_all add: xor_body_def)
  have m: "?m = ?b @ sha (le64 (of_nat (?k + 32)) @ ?b)" "length ?m = ?k + 32" by (simp_all add: xor_file_def b(2) sha Let_def)
  have k: "unat (of_nat (?k + 32) - SHASIZE :: u64) = ?k"
    using im(2) pg(2) by (simp add: SHASIZE_def unat_word_ariths unat_of_nat take_bit_nat_eq_self_iff)
  have sum: "xor_sum sha (of_nat (?k + 32)) ?m = Some (sha (le64 (of_nat (?k + 32)) @ ?b))"
    using k b(2) by (simp add: xor_sum_def start_fresh enc_fresh m(1) del: of_nat_add)
  have p: "24 + unat (pagesz - 24) = length (xor_header x @ replicate (unat pagesz - 24) 0)"
    using pg(1) by (simp add: unat_sub word_le_nat_alt)
  have rd: "xor_rdhdr pagesz ?m = Some (Some (?h, 24 + unat (pagesz - 24)))"
    by (rule rdhdr_file [of _ x "replicate (unat pagesz - 24) 0 @ fp_image x @ sha (le64 (of_nat (?k + 32)) @ ?b)"]) (simp_all add: m(1) sha, simp add: b)
  have "?m = (xor_header x @ replicate (unat pagesz - 24) 0) @ fp_image x @ sha (le64 (of_nat (?k + 32)) @ ?b)" unfolding m(1) by (simp add: b(1))
  note ld = fp_load_file [OF wf this, of ?h, folded p, simplified]
  have e: "\<not> of_nat (?k + 32) - SHASIZE < hdr_size ?h" by (simp only: word_less_nat_alt k ld(1) xor_hdr.simps not_less le_add1)
  have "sz (unat (xf_n x)) = unat (ucast (xf_size x) :: u64)" using wf by (simp add: xor_wf_def)
  then have z: "(of_nat (sz (unat (xf_n x))) :: u64) = ucast (xf_size x)" by simp
  have f: "map_file E (SHASIZE + pagesz) fname fs = Inr ?m" using assms m(2) pg by (simp add: map_file_def SHASIZE_def unat_word_ariths)
  have t: "take 32 (drop ?k ?m) = sha (le64 (of_nat (?k + 32)) @ ?b)" using b(2) by (simp add: m(1) sha)
  show ?thesis using e by (simp add: Xorfilter_unmarshal_def f m(2) sum k t rd z ld(2) Let_def del: of_nat_add)
qed

section \<open>Filters from the constructors\<close>

text \<open>
  The constructors allocate three fingerprints for each key, of which the filter uses three times its size: those are written, and those come back.
\<close>

definition trim :: "Xorfilter \<Rightarrow> Xorfilter" where
  "trim x = x\<lparr>xf_fp := (case xf_fp x of Fp8 b \<Rightarrow> Fp8 (take (3 * unat (xf_size x)) b) | Fp16 b \<Rightarrow> Fp16 (take (3 * unat (xf_size x)) b))\<rparr>"

definition xor_built :: "(nat \<Rightarrow> nat) \<Rightarrow> Xorfilter \<Rightarrow> bool" where
  "xor_built sz x \<longleftrightarrow> sane_size (xf_size x) \<and> unat (xf_size x) = sz (unat (xf_n x)) \<and>
    3 * unat (xf_size x) \<le> (case xf_fp x of Fp8 b \<Rightarrow> length b | Fp16 b \<Rightarrow> length b)"

lemma new_built:
  assumes "size_of sz keys" "sz (length keys) \<le> length keys" "length keys < 2 ^ 32"
    and "Xorfilter_new8 sz seeds keys = Some (Some x) \<or> Xorfilter_new16 sz seeds keys = Some (Some x)"
  shows "xor_built sz x"
proof -
  define m where "m = (of_nat (sz (length keys)) :: u32)"
  obtain seed ks where ks: "xorfilter_init sz seeds keys = Some (seed, ks)" "ks = [] \<or> peeled m ks (rev (map (\<lambda>k. hashkey k seed) keys)) []"
    using xorfilter_init_ok(1) [OF assms(1), of seeds] unfolding m_def by blast
  have m: "sane_size m" "unat m = sz (length keys)" using xorfilter_init_ok(2,3) [OF assms(1)] by (simp_all add: m_def)
  have n: "unat (of_nat (length keys) :: u32) = length keys" using assms(3) by (simp add: unat_of_nat take_bit_nat_eq_self_iff)
  have "ks \<noteq> []" using assms(4) ks(1) by (auto simp: Xorfilter_new8_def Xorfilter_new16_def)
  then have p: "peeled m ks (rev (map (\<lambda>k. hashkey k seed) keys)) []" "length ks = length keys" using ks(2) by (auto dest!: peeled_length)
  have l: "3 * unat m \<le> length (replicate (length ks * 3) (0 :: u8))" "3 * unat m \<le> length (replicate (length ks * 3) (0 :: u16))"
    using assms(2) m p(2) by simp_all
  obtain b c where b: "fill_fp xfp8 m (rev ks) (replicate (length ks * 3) 0) = Some b" "length b = length ks * 3"
    "fill_fp xfp16 m (rev ks) (replicate (length ks * 3) 0) = Some c" "length c = length ks * 3"
    using fill_fp_ok [OF m(1) l(1) p(1), of xfp8] fill_fp_ok [OF m(1) l(2) p(1), of xfp16] by auto
  show ?thesis
    using assms(2,4) \<open>ks \<noteq> []\<close> b m n p(2) by (auto simp: Xorfilter_new8_def Xorfilter_new16_def ks(1) m_def [symmetric] xor_built_def Let_def)
qed

lemma take_le16s: "take (2 * n) (concat (map le16 b)) = concat (map le16 (take n b))"
proof (induction b arbitrary: n)
  case (Cons v b)
  then show ?case by (cases n) simp_all
qed simp

lemma trim_sel [simp]: "xf_seed (trim x) = xf_seed x" "xf_size (trim x) = xf_size x" "xf_n (trim x) = xf_n x" "is_16 (trim x) = is_16 x"
  "xorfilter_size (trim x) = xorfilter_size x" "xor_header (trim x) = xor_header x"
  by (simp_all add: trim_def is_16_def xorfilter_size_def xor_header_def split: fingerprints.split)

lemma trim_wf: "xor_built sz x \<Longrightarrow> xor_wf sz (trim x)"
  by (auto simp: xor_built_def xor_wf_def sane_size_def trim_def split: fingerprints.splits)

lemma image_trim:
  assumes "xor_built sz x"
  shows "fp_image (trim x) = take (unat (xorfilter_size x)) (fp_image x)" "unat (xorfilter_size x) \<le> length (fp_image x)"
proof -
  have t: "unat (ucast (3 * xf_size x) :: u64) = 3 * unat (xf_size x)" "3 * unat (xf_size x) < 2 ^ 32"
    using assms unat_times3 [of "xf_size x"] by (simp_all add: xor_built_def sane_size_def)
  then have "unat ((ucast (3 * xf_size x) :: u64) * 2) = 2 * (3 * unat (xf_size x))" by (simp add: unat_word_ariths)
  then show "fp_image (trim x) = take (unat (xorfilter_size x)) (fp_image x)" "unat (xorfilter_size x) \<le> length (fp_image x)"
    using t assms take_le16s [of "3 * unat (xf_size x)"]
    by (auto simp: fp_image_def trim_def xorfilter_size_def xor_built_def split: fingerprints.splits)
qed

lemma write_trim:
  assumes "xor_built sz x"
  shows "xor_write sha pagesz filesz (trim x) = xor_write sha pagesz filesz x" "xor_file sha pagesz (trim x) = xor_file sha pagesz x"
  using image_trim [OF assms] xor_size_image(1) [OF trim_wf [OF assms]]
  by (auto simp: fun_eq_iff xor_write_def xor_wrhdr_def xor_file_def xor_body_def)

lemma match_take:
  assumes "sane_size m" "hash3 h m = Some z" "3 * unat m \<le> length b"
  shows "fp_match fp (take (3 * unat m) b) h z = fp_match fp b h z"
proof -
  have "unat (fp_i z) < 3 * unat m" "unat (fp_j z) < 3 * unat m" "unat (fp_k z) < 3 * unat m"
    using slots3_facts [OF assms(1), of h] assms(2) by (simp_all add: slots3_def)
  then show ?thesis using assms(3) by (simp add: fp_match_def mem_simps)
qed

lemma contains_trim:
  assumes "xor_built sz x"
  shows "Xorfilter_contains (trim x) key = Xorfilter_contains x key"
proof -
  have s: "sane_size (xf_size x)" using assms by (simp add: xor_built_def)
  obtain z where z: "hash3 (hashkey key (xf_seed x)) (xf_size x) = Some z" using hash3_slots [OF s] by metis
  show ?thesis
  proof (cases "xf_fp x")
    case (Fp8 b)
    then show ?thesis using assms z match_take [OF s z, of b] by (simp add: Xorfilter_contains_def xor_built_def trim_def)
  next
    case (Fp16 b)
    then show ?thesis using assms z match_take [OF s z, of b] by (simp add: Xorfilter_contains_def xor_built_def trim_def)
  qed
qed

text \<open>
  C15: saving and loading an Xor filter. For every set of failing calls among those whose result the code looks at (\<open>mkostemp\<close>, \<open>ftruncate\<close>, \<open>mmap\<close>, \<open>rename\<close>;
  \<open>fsync\<close>, \<open>close\<close> and \<open>unlink\<close>, whose results it ignores, succeed), \<open>Xorfilter_marshal\<close> either reports success and the file holds the
  image of the filter, or reports an error and leaves the file system as it was, without its temporary file; with no failing call it succeeds. From
  that image \<open>Xorfilter_unmarshal\<close>, copying or mapping the fingerprints, builds a filter with the same seed, size, number of keys and used fingerprints that answers every query
  as the saved one does. The filters of both constructors are such filters (\<open>new_built\<close>).
\<close>

theorem xor_marshal_roundtrip:
  assumes "xor_built sz x" "24 \<le> unat pagesz" "unat pagesz < 2 ^ 62" "\<And>m. length (sha m) = 32" "fs' = fs(fname \<mapsto> xor_file sha pagesz x)"
    and "fs (fe_tmp E) = None" "fe_tmp E \<noteq> fname"
  shows "(\<exists>r. Xorfilter_marshal E sha pagesz x fname fs = Some (r, if r = Rc_ok then fs' else fs) \<and> (no_error E \<longrightarrow> r = Rc_ok)) \<and>
    (fe_open E = None \<longrightarrow> fe_fstat E = None \<longrightarrow> fe_mmap E = None \<longrightarrow>
      (\<exists>x'. Xorfilter_unmarshal E True sha sz pagesz do_mmap fname fs' = Some (Inr x') \<and> x' = trim x \<and>
        (\<forall>key. Xorfilter_contains x' key = Xorfilter_contains x key)))"
proof -
  note wf = trim_wf [OF assms(1)]
  have "\<exists>r. Xorfilter_marshal E sha pagesz x fname fs = Some (r, if r = Rc_ok then fs' else fs) \<and> (no_error E \<longrightarrow> r = Rc_ok)"
    unfolding assms(5) Xorfilter_marshal_def Let_def
    using xor_write_eq [OF wf assms(2-4) refl] assms(6,7) by (intro marshal_file_outcome) (simp_all add: write_trim [OF assms(1)])
  then show ?thesis
    using unmarshal_file [OF wf assms(2-4), where fs = fs' and fname = fname and E = E and do_mmap = do_mmap] assms(5) contains_trim [OF assms(1)]
    by (simp add: write_trim [OF assms(1)])
qed

theorem xor_marshal_roundtrip_witness:
  "let E = \<lparr>fe_tmp = ''f.tmp'', fe_mkostemp = None, fe_ftruncate = None, fe_mmap = None, fe_rename = None, fe_fstat = None, fe_open = None\<rparr>;
       x = \<lparr>xf_fp = Fp16 [1, 2, 0xabcd, 4, 5, 6], xf_seed = 7, xf_size = 1, xf_n = 5\<rparr>; sha = (\<lambda>_. replicate 32 0) in
   \<exists>fs. Xorfilter_marshal E sha 4096 x ''f'' Map.empty = Some (Rc_ok, fs) \<and>
     Xorfilter_unmarshal E True sha (\<lambda>n. 1) 4096 True ''f'' fs = Some (Inr (x\<lparr>xf_fp := Fp16 [1, 2, 0xabcd]\<rparr>))"
proof -
  define E where "E = \<lparr>fe_tmp = ''f.tmp'', fe_mkostemp = None, fe_ftruncate = None, fe_mmap = None, fe_rename = None, fe_fstat = None, fe_open = None\<rparr>"
  define x :: Xorfilter where "x = \<lparr>xf_fp = Fp16 [1, 2, 0xabcd, 4, 5, 6], xf_seed = 7, xf_size = 1, xf_n = 5\<rparr>"
  have "xor_built (\<lambda>n. 1) x" by (simp add: xor_built_def sane_size_def x_def)
  from xor_marshal_roundtrip [where pagesz = 4096 and sha = "\<lambda>_. replicate 32 0" and fs = Map.empty and fname = "''f''" and E = E and do_mmap = True, OF this _ _ _ refl]
  have "\<exists>fs. Xorfilter_marshal E (\<lambda>_. replicate 32 0) 4096 x ''f'' Map.empty = Some (Rc_ok, fs) \<and>
     Xorfilter_unmarshal E True (\<lambda>_. replicate 32 0) (\<lambda>n. 1) 4096 True ''f'' fs = Some (Inr (trim x))"
    by (auto simp: E_def no_error_def)
  moreover have "trim x = x\<lparr>xf_fp := Fp16 [1, 2, 0xabcd]\<rparr>" by (simp add: trim_def x_def take_Suc_conv_app_nth numeral_3_eq_3)
  ultimately show ?thesis unfolding Let_def E_def [symmetric] x_def [symmetric] by simp
qed

text \<open>
  The check of the size leaves out the page of the header: a file that says it holds 60 bytes of fingerprints and holds none is accepted, and
  copying them reads past the end of the mapping.
\<close>

theorem xor_unmarshal_overrun:
  "let E = \<lparr>fe_tmp = ''f.tmp'', fe_mkostemp = None, fe_ftruncate = None, fe_mmap = None, fe_rename = None, fe_fstat = None, fe_open = None\<rparr>;
       x = \<lparr>xf_fp = Fp8 [], xf_seed = 7, xf_size = 20, xf_n = 5\<rparr> in
   Xorfilter_unmarshal E True (\<lambda>_. replicate 32 0) (\<lambda>n. 20) 64 False ''f'' [''f'' \<mapsto> xor_header x @ replicate 72 0] = None"
  by code_simp

end
