(* ===== verification/Bloom_Marshal.thy ===== *)
theory Bloom_Marshal
  imports Mapfile Bloom
begin

text \<open>
  Saving and loading Bloom filters: \<open>src/hashtable/bloom_marshal.c\<close>. What the code does with \<open>double\<close> (its bits, by the unions of \<open>fast/encdec.h\<close>, and
  \<open>make_e\<close>) is the argument \<open>D\<close>, the two hash functions of libsodium the argument \<open>H\<close>, indexed as the table \<open>Checksums\<close>; both digests
  have 32 bytes. The vector of offsets is a list.
\<close>

record 'e dbl =
  db_bits :: "'e \<Rightarrow> u64"
  db_of :: "u64 \<Rightarrow> 'e"
  db_zero :: 'e
  db_make_e :: "u64 \<Rightarrow> 'e"

definition enc_LE_float64 :: "'e dbl \<Rightarrow> cursor \<Rightarrow> 'e \<Rightarrow> cursor option" where
  "enc_LE_float64 D buf d = enc_LE_u64 buf (db_bits D d)"

definition dec_LE_float64 :: "'e dbl \<Rightarrow> u8 list \<Rightarrow> nat \<Rightarrow> 'e option" where
  "dec_LE_float64 D m p = map_option (db_of D) (dec_LE_u64 m p)"

definition HDRSIZ :: u64 where
  "HDRSIZ = 64"

definition FILT_HDRSIZ :: u64 where
  "FILT_HDRSIZ = 40"

definition CKSUMSZ :: u64 where
  "CKSUMSZ = 32"

record offpair =
  of_hdroff :: u64
  of_dataoff :: u64

record mstate =
  ms_datasize :: u64
  ms_offs :: "offpair list"

text \<open>\<open>"BLOM"\<close>, and the codes of the types.\<close>

definition blom_magic :: "u8 list" where
  "blom_magic = [66, 76, 79, 77]"

fun typ_code :: "'e filter \<Rightarrow> u8" where
  "typ_code (BLOOM_TYPE_COUNTING b) = 0"
| "typ_code (BLOOM_TYPE_QUICK b) = 1"
| "typ_code (BLOOM_TYPE_SCALE sb) = 2"

text \<open>The update functions hash the buffer and then its length.\<close>

definition cksum :: "(u8 \<Rightarrow> u8 list \<Rightarrow> u8 list) \<Rightarrow> u8 \<Rightarrow> u8 list \<Rightarrow> u64 \<Rightarrow> u8 list option" where
  "cksum H t buf sz =
    do { b0 \<leftarrow> enc_BE_u64 \<lparr>cu_mem = replicate 8 0, cu_pos = 0\<rparr> sz;
         if length buf < unat sz then None else Some (H t (take (unat sz) buf @ cu_mem b0)) }"

section \<open>Writing\<close>

text \<open>One filter: its header, then its bits at the next multiple of 64. The result is the pair of offsets and the size so far.\<close>

definition place_filter :: "u64 \<Rightarrow> 'e bloom \<Rightarrow> offpair \<times> u64" where
  "place_filter sz f =
    (let hdroff = sz; sz = sz + FILT_HDRSIZ; sz = ALIGN_UP sz 64; dataoff = sz; sz = sz + bl_bmsize f; sz = ALIGN_UP sz 64
     in (\<lparr>of_hdroff = hdroff, of_dataoff = dataoff\<rparr>, sz))"

fun place_filters :: "u64 \<Rightarrow> 'e bloom list \<Rightarrow> offpair list \<times> u64" where
  "place_filters sz [] = ([], sz)"
| "place_filters sz (f # fs) = (let (d, sz) = place_filter sz f; (ds, sz) = place_filters sz fs in (d # ds, sz))"

text \<open>The first \<open>len\<close> elements of an array, as the loops over \<open>i < sb->len\<close> read them.\<close>

definition firsts :: "u32 \<Rightarrow> 'a list \<Rightarrow> 'a list option" where
  "firsts len xs = (if length xs < unat len then None else Some (take (unat len) xs))"

fun calc_marshal_size :: "'e filter \<Rightarrow> mstate option" where
  "calc_marshal_size (BLOOM_TYPE_SCALE sb) =
    (let sz = HDRSIZ + 16; sz = sz + ucast (sb_len sb * 8); sz = ALIGN_UP sz 64 in
     do { fs \<leftarrow> firsts (sb_len sb) (sb_bfa sb);
          let (ds, sz) = place_filters sz fs;
          Some \<lparr>ms_datasize = sz, ms_offs = ds\<rparr> })"
| "calc_marshal_size (BLOOM_TYPE_COUNTING f) =
    (let sz = HDRSIZ + 16; sz = sz + 8; sz = ALIGN_UP sz 64; (d, sz) = place_filter sz f in Some \<lparr>ms_datasize = sz, ms_offs = [d]\<rparr>)"
| "calc_marshal_size (BLOOM_TYPE_QUICK f) =
    (let sz = HDRSIZ + 16; sz = sz + 8; sz = ALIGN_UP sz 64; (d, sz) = place_filter sz f in Some \<lparr>ms_datasize = sz, ms_offs = [d]\<rparr>)"

definition wrdir :: "'e dbl \<Rightarrow> 'e filter \<Rightarrow> offpair list \<Rightarrow> cursor \<Rightarrow> cursor option" where
  "wrdir D f ds ptr =
    (case f of
       BLOOM_TYPE_SCALE sb \<Rightarrow>
         do { ptr \<leftarrow> enc_LE_u32 ptr (sb_len sb);
              ptr \<leftarrow> enc_LE_u32 ptr (sb_scale sb);
              ptr \<leftarrow> enc_LE_float64 D ptr (sb_r sb);
              ds \<leftarrow> firsts (sb_len sb) ds;
              enc_all enc_LE_u64 (map of_hdroff ds) ptr }
     | _ \<Rightarrow>
         do { d \<leftarrow> get_at ds 0;
              ptr \<leftarrow> enc_LE_u32 ptr 1;
              let ptr = ptr\<lparr>cu_pos := cu_pos ptr + 12\<rparr>;
              enc_LE_u64 ptr (of_hdroff d) })"

definition bloom_wrhdr :: "'e dbl \<Rightarrow> 'e Bloom \<Rightarrow> mstate \<Rightarrow> u8 list \<Rightarrow> u8 list option" where
  "bloom_wrhdr D b m start =
    do { z \<leftarrow> put_bytes (replicate (unat HDRSIZ) 0) \<lparr>cu_mem = start, cu_pos = 0\<rparr>;
         let ptr = z\<lparr>cu_pos := 0\<rparr>;
         ptr \<leftarrow> put_bytes blom_magic ptr;
         ptr \<leftarrow> put_byte 0 ptr;
         ptr \<leftarrow> put_byte (typ_code (B_filter b)) ptr;
         ptr \<leftarrow> put_byte 0 ptr;
         ptr \<leftarrow> put_byte 0 ptr;
         ptr \<leftarrow> enc_LE_u64 ptr (B_n b);
         ptr \<leftarrow> enc_LE_float64 D ptr (B_e b);
         ptr \<leftarrow> enc_LE_u64 ptr (ms_datasize m);
         if unat HDRSIZ < cu_pos ptr then None
         else do { ptr \<leftarrow> wrdir D (B_filter b) (ms_offs m) (ptr\<lparr>cu_pos := unat HDRSIZ\<rparr>); Some (cu_mem ptr) } }"

definition wrfilter :: "u8 list \<Rightarrow> offpair \<Rightarrow> 'e bloom \<Rightarrow> u8 list option" where
  "wrfilter start d b =
    do { h \<leftarrow> enc_LE_u64 \<lparr>cu_mem = start, cu_pos = unat (of_hdroff d)\<rparr> (bl_m b);
         h \<leftarrow> enc_LE_u64 h (bl_k b);
         h \<leftarrow> enc_LE_u64 h (bl_salt b);
         h \<leftarrow> enc_LE_u64 h (bl_size b);
         h \<leftarrow> enc_LE_u64 h (bl_bmsize b);
         if length (bl_bitmap b) < unat (bl_bmsize b) then None
         else do { p \<leftarrow> put_bytes (take (unat (bl_bmsize b)) (bl_bitmap b)) (h\<lparr>cu_pos := unat (of_dataoff d)\<rparr>); Some (cu_mem p) } }"

fun wrfilters :: "u8 list \<Rightarrow> offpair list \<Rightarrow> 'e bloom list \<Rightarrow> u8 list option" where
  "wrfilters start [] fs = Some start"
| "wrfilters start (d # ds) [] = None"
| "wrfilters start (d # ds) (f # fs) = do { start \<leftarrow> wrfilter start d f; wrfilters start ds fs }"

definition wrbody :: "u8 list \<Rightarrow> offpair list \<Rightarrow> 'e filter \<Rightarrow> u8 list option" where
  "wrbody start ds f =
    (case f of
       BLOOM_TYPE_SCALE sb \<Rightarrow> wrfilters start ds (sb_bfa sb)
     | BLOOM_TYPE_COUNTING f \<Rightarrow> do { d \<leftarrow> get_at ds 0; wrfilter start d f }
     | BLOOM_TYPE_QUICK f \<Rightarrow> do { d \<leftarrow> get_at ds 0; wrfilter start d f })"

definition bloom_write :: "(u8 \<Rightarrow> u8 list \<Rightarrow> u8 list) \<Rightarrow> 'e dbl \<Rightarrow> 'e Bloom \<Rightarrow> mstate \<Rightarrow> u8 list \<Rightarrow> u8 list option" where
  "bloom_write H D b m start =
    do { start \<leftarrow> bloom_wrhdr D b m start;
         start \<leftarrow> wrbody start (ms_offs m) (B_filter b);
         c \<leftarrow> cksum H 0 start (ms_datasize m);
         p \<leftarrow> put_bytes c \<lparr>cu_mem = start, cu_pos = unat (ms_datasize m)\<rparr>;
         Some (cu_mem p) }"

definition Bloom_marshal ::
  "fenv \<Rightarrow> (u8 \<Rightarrow> u8 list \<Rightarrow> u8 list) \<Rightarrow> 'e dbl \<Rightarrow> 'e Bloom \<Rightarrow> string \<Rightarrow> filesys \<Rightarrow> (rc \<times> filesys) option" where
  "Bloom_marshal E H D b fname fs =
    do { m \<leftarrow> calc_marshal_size (B_filter b);
         marshal_file E Rc_neg (CKSUMSZ + ms_datasize m) (bloom_write H D b m) fname fs }"

section \<open>Reading\<close>

text \<open>
  A filter at its offsets: with \<open>BLOOM_BITMAP_MMAP\<close> the mapped bytes, as many as there are; otherwise a copy, which reads \<open>bmsize\<close> bytes, when
  it can be allocated (\<open>ok\<close>). The error comes with the filter, which has no bitmap then.
\<close>

definition rdfilter :: "'e dbl \<Rightarrow> bool \<Rightarrow> bool \<Rightarrow> u8 list \<Rightarrow> offpair \<Rightarrow> (errno option \<times> 'e bloom) option" where
  "rdfilter D do_mmap ok start d =
    (let h = unat (of_hdroff d); p = unat (of_dataoff d) in
     do { m \<leftarrow> dec_LE_u64 start h;
          k \<leftarrow> dec_LE_u64 start (h + 8);
          salt \<leftarrow> dec_LE_u64 start (h + 16);
          size \<leftarrow> dec_LE_u64 start (h + 24);
          bmsize \<leftarrow> dec_LE_u64 start (h + 32);
          let b = \<lparr>bl_m = m, bl_k = k, bl_salt = salt, bl_bitmap = [], bl_size = size, bl_bmsize = bmsize, bl_e = db_make_e D k\<rparr>;
          if do_mmap then Some (None, b\<lparr>bl_bitmap := take (unat bmsize) (drop p start)\<rparr>)
          else if \<not> ok then Some (Some ENOMEM, b)
          else if length start < p + unat bmsize then None
          else Some (None, b\<lparr>bl_bitmap := take (unat bmsize) (drop p start)\<rparr>) })"

text \<open>The directory: \<open>n\<close> offsets from \<open>p\<close> on, each checked against the size of the data.\<close>

fun rdoffs :: "u64 \<Rightarrow> u8 list \<Rightarrow> nat \<Rightarrow> nat \<Rightarrow> offpair list res option" where
  "rdoffs sz buf p 0 = Some (Inr [])"
| "rdoffs sz buf p (Suc n) =
    do { hdroff \<leftarrow> dec_LE_u64 buf p;
         let dataoff = ALIGN_UP (hdroff + FILT_HDRSIZ) 64;
         if hdroff \<ge> sz then Some (Inl EBADF)
         else if dataoff \<ge> sz then Some (Inl EBADF)
         else do { r \<leftarrow> rdoffs sz buf (p + 8) n;
                   Some (case r of Inl e \<Rightarrow> Inl e | Inr ds \<Rightarrow> Inr (\<lparr>of_hdroff = hdroff, of_dataoff = dataoff\<rparr> # ds)) } }"

definition alloc_bloom :: "'e dbl \<Rightarrow> u8 \<Rightarrow> u32 \<Rightarrow> 'e filter" where
  "alloc_bloom D typ n =
    (if typ = 2 then BLOOM_TYPE_SCALE (setup_scalable_bloom (db_zero D) n)
     else if typ = 0 then BLOOM_TYPE_COUNTING (zero_bloom (db_zero D))
     else BLOOM_TYPE_QUICK (zero_bloom (db_zero D)))"

definition rddir :: "'e dbl \<Rightarrow> u8 \<Rightarrow> u8 list \<Rightarrow> u64 \<Rightarrow> ('e filter \<times> offpair list) res option" where
  "rddir D typ buf sz =
    (if typ = 2 then
       do { n \<leftarrow> dec_LE_u32 buf 64;
            scale \<leftarrow> dec_LE_u32 buf 68;
            r \<leftarrow> dec_LE_float64 D buf 72;
            if n > 1048576 then Some (Inl E2BIG)
            else if sz - HDRSIZ - 16 < ucast (n * 8) then Some (Inl EBADF)
            else do {
              ds \<leftarrow> rdoffs sz buf 80 (unat n);
              Some (case ds of
                Inl e \<Rightarrow> Inl e
              | Inr ds \<Rightarrow>
                  Inr (case alloc_bloom D typ (NEXTPOW2_u32 n) of
                         BLOOM_TYPE_SCALE sb \<Rightarrow> BLOOM_TYPE_SCALE (sb\<lparr>sb_scale := scale, sb_len := n, sb_r := r\<rparr>)
                       | f \<Rightarrow> f, ds)) } }
     else
       do { n \<leftarrow> dec_LE_u32 buf 64;
            if n \<noteq> 1 then Some (Inl E2BIG)
            else do { ds \<leftarrow> rdoffs sz buf 80 1;
                      Some (case ds of Inl e \<Rightarrow> Inl e | Inr ds \<Rightarrow> Inr (alloc_bloom D typ (NEXTPOW2_u32 n), ds)) } })"

definition bloom_rdhdr :: "'e dbl \<Rightarrow> u8 list \<Rightarrow> u64 \<Rightarrow> ('e Bloom \<times> offpair list) res option" where
  "bloom_rdhdr D buf sz =
    (if sz < HDRSIZ + 16 then Some (Inl EBADF)
     else if length buf < 4 then None
     else if take 4 buf \<noteq> blom_magic then Some (Inl EBADF)
     else do { ver \<leftarrow> get_at buf 4;
               if ver \<noteq> 0 then Some (Inl EBADF)
               else do {
                 typ \<leftarrow> get_at buf 5;
                 if typ \<noteq> 2 \<and> typ \<noteq> 0 \<and> typ \<noteq> 1 then Some (Inl EBADF)
                 else do {
                   hash \<leftarrow> get_at buf 6;
                   if hash \<noteq> 0 then Some (Inl EBADF)
                   else do {
                     bn \<leftarrow> dec_LE_u64 buf 8;
                     be \<leftarrow> dec_LE_float64 D buf 16;
                     datasize \<leftarrow> dec_LE_u64 buf 24;
                     if datasize \<noteq> sz then Some (Inl EBADF)
                     else do {
                       r \<leftarrow> rddir D typ buf sz;
                       Some (case r of Inl e \<Rightarrow> Inl e | Inr (f, ds) \<Rightarrow> Inr (\<lparr>B_filter = f, B_n = bn, B_e = be\<rparr>, ds)) } } } } })"

text \<open>Checksum types: SHA256 and BLAKE2b.\<close>

definition is_valid_cktyp :: "u8 \<Rightarrow> bool" where
  "is_valid_cktyp t \<longleftrightarrow> t = 0 \<or> t = 1"

fun rdfilters :: "'e dbl \<Rightarrow> bool \<Rightarrow> (nat \<Rightarrow> bool) \<Rightarrow> u8 list \<Rightarrow> nat \<Rightarrow> offpair list \<Rightarrow> 'e bloom list \<Rightarrow> 'e bloom list res option" where
  "rdfilters D do_mmap ok start i [] bfa = Some (Inr bfa)"
| "rdfilters D do_mmap ok start i (d # ds) bfa =
    do { (e, f) \<leftarrow> rdfilter D do_mmap (ok i) start d;
         bfa \<leftarrow> put_at bfa i f;
         case e of Some e \<Rightarrow> Some (Inl e) | None \<Rightarrow> rdfilters D do_mmap ok start (Suc i) ds bfa }"

text \<open>The result of \<open>rdfilter\<close> is looked at for scalable filters only.\<close>

definition rdbody :: "'e dbl \<Rightarrow> bool \<Rightarrow> (nat \<Rightarrow> bool) \<Rightarrow> u8 list \<Rightarrow> offpair list \<Rightarrow> 'e filter \<Rightarrow> 'e filter res option" where
  "rdbody D do_mmap ok start ds f =
    (case f of
       BLOOM_TYPE_SCALE sb \<Rightarrow>
         do { r \<leftarrow> rdfilters D do_mmap ok start 0 ds (sb_bfa sb);
              Some (case r of Inl e \<Rightarrow> Inl e | Inr bfa \<Rightarrow> Inr (BLOOM_TYPE_SCALE (sb\<lparr>sb_bfa := bfa\<rparr>))) }
     | BLOOM_TYPE_COUNTING _ \<Rightarrow> do { d \<leftarrow> get_at ds 0; (_, g) \<leftarrow> rdfilter D do_mmap (ok 0) start d; Some (Inr (BLOOM_TYPE_COUNTING g)) }
     | BLOOM_TYPE_QUICK _ \<Rightarrow> do { d \<leftarrow> get_at ds 0; (_, g) \<leftarrow> rdfilter D do_mmap (ok 0) start d; Some (Inr (BLOOM_TYPE_QUICK g)) })"

definition Bloom_unmarshal ::
  "fenv \<Rightarrow> (nat \<Rightarrow> bool) \<Rightarrow> (u8 \<Rightarrow> u8 list \<Rightarrow> u8 list) \<Rightarrow> 'e dbl \<Rightarrow> bool \<Rightarrow> string \<Rightarrow> filesys \<Rightarrow> 'e Bloom res option" where
  "Bloom_unmarshal E ok H D do_mmap fname fs =
    (case map_file E (HDRSIZ + 16 + CKSUMSZ) fname fs of
       Inl e \<Rightarrow> Some (Inl e)
     | Inr start \<Rightarrow>
         do { t \<leftarrow> get_at start 7;
              if \<not> is_valid_cktyp t then Some (Inl EILSEQ)
              else do {
                let dsize = of_nat (length start) - CKSUMSZ;
                ck \<leftarrow> cksum H t start dsize;
                if ck \<noteq> take (unat CKSUMSZ) (drop (unat dsize) start) then Some (Inl EILSEQ)
                else do {
                  r \<leftarrow> bloom_rdhdr D start dsize;
                  case r of
                    Inl e \<Rightarrow> Some (Inl e)
                  | Inr (b, ds) \<Rightarrow>
                      do { r \<leftarrow> rdbody D do_mmap ok start ds (B_filter b);
                           Some (case r of Inl e \<Rightarrow> Inl e | Inr f \<Rightarrow> Inr (b\<lparr>B_filter := f\<rparr>)) } } } })"

section \<open>The contents of a file\<close>

definition pad64 :: "u8 list \<Rightarrow> u8 list" where
  "pad64 xs = xs @ replicate ((length xs + 63) div 64 * 64 - length xs) 0"

lemma length_pad64 [simp]: "length (pad64 xs) = (length xs + 63) div 64 * 64"
  by (simp add: pad64_def)

text \<open>A filter: header, zeros up to 64 bytes, and bits.\<close>

definition filt_hdr :: "'e bloom \<Rightarrow> u8 list" where
  "filt_hdr f = le64 (bl_m f) @ le64 (bl_k f) @ le64 (bl_salt f) @ le64 (bl_size f) @ le64 (bl_bmsize f)"

definition filt_image :: "'e bloom \<Rightarrow> u8 list" where
  "filt_image f = filt_hdr f @ replicate 24 0 @ bl_bitmap f"

definition filt_room :: "'e bloom \<Rightarrow> nat" where
  "filt_room f = 64 + (length (bl_bitmap f) + 63) div 64 * 64"

lemma length_filt [simp]: "length (filt_hdr f) = 40" "length (filt_image f) = 64 + length (bl_bitmap f)"
  by (simp_all add: filt_hdr_def filt_image_def)

lemma up64: "64 dvd p \<Longrightarrow> (p + n + 63) div 64 * 64 = p + (n + 63) div 64 * (64 :: nat)"
  by (auto simp: add.assoc distrib_right elim!: dvdE)

lemma length_filt_pad [simp]: "length (pad64 (filt_image f)) = filt_room f"
  using up64 [of 64 "length (bl_bitmap f)"] by (simp add: filt_room_def)

lemma filt_room_up [simp]: "(127 + length (bl_bitmap f)) div 64 * 64 = filt_room f"
  using length_filt_pad [of f] by simp

fun offs_at :: "nat \<Rightarrow> 'e bloom list \<Rightarrow> offpair list" where
  "offs_at p [] = []"
| "offs_at p (f # fs) = \<lparr>of_hdroff = of_nat p, of_dataoff = of_nat (p + 64)\<rparr> # offs_at (p + filt_room f) fs"

lemma length_offs_at [simp]: "length (offs_at p fs) = length fs"
  by (induction fs arbitrary: p) simp_all

lemma filt_room_dvd [simp]: "64 dvd filt_room f"
  by (simp add: filt_room_def)

subsection \<open>Offsets\<close>

lemma align64:
  assumes "n + 63 < 2 ^ 64"
  shows "ALIGN_UP (of_nat n) 64 = of_nat ((n + 63) div 64 * 64)"
proof -
  have n: "unat (of_nat n :: u64) = n" using assms by (simp add: unat_of_nat take_bit_nat_eq_self_iff)
  have "(n + 63) div 64 * 64 < 2 ^ 64" using assms by (meson div_times_less_eq_dividend le_less_trans)
  then have k: "unat (of_nat ((n + 63) div 64 * 64) :: u64) = (n + 63) div 64 * 64" by (simp only: unat_of_nat take_bit_nat_eq_self_iff) simp
  show ?thesis using ALIGN_UP_exp [of 6 "of_nat n"] assms by (simp only: word_unat_eq_iff n k) (simp add: n)
qed

lemma place_filter_eq:
  assumes "64 dvd p" "p + filt_room f < 2 ^ 63" "sized f"
  shows "place_filter (of_nat p) f = (\<lparr>of_hdroff = of_nat p, of_dataoff = of_nat (p + 64)\<rparr>, of_nat (p + filt_room f))"
proof -
  have b: "bl_bmsize f = of_nat (length (bl_bitmap f))" using assms(3) by (simp add: sized_def)
  have l: "length (bl_bitmap f) \<le> (length (bl_bitmap f) + 63) div 64 * 64" by linarith
  have 1: "ALIGN_UP (of_nat (p + 40)) 64 = of_nat (p + 64)"
    using align64 [of "p + 40"] assms(1,2) by (auto simp: filt_room_def elim!: dvdE)
  have "(p + 64 + length (bl_bitmap f) + 63) div 64 * 64 = p + filt_room f"
    using up64 [of "p + 64" "length (bl_bitmap f)"] assms(1) by (simp add: filt_room_def)
  then have 2: "ALIGN_UP (of_nat (p + 64 + length (bl_bitmap f))) 64 = of_nat (p + filt_room f)"
    using align64 [of "p + 64 + length (bl_bitmap f)"] assms(2) l by (simp add: filt_room_def)
  show ?thesis using 1 2 by (simp add: place_filter_def FILT_HDRSIZ_def b)
qed

lemma place_filters_eq:
  assumes "64 dvd p" "p + sum_list (map filt_room fs) < 2 ^ 63" "list_all sized fs"
  shows "place_filters (of_nat p) fs = (offs_at p fs, of_nat (p + sum_list (map filt_room fs)))"
  using assms
proof (induction fs arbitrary: p)
  case (Cons f fs)
  then have "place_filter (of_nat p) f = (\<lparr>of_hdroff = of_nat p, of_dataoff = of_nat (p + 64)\<rparr>, of_nat (p + filt_room f))"
    by (intro place_filter_eq) simp_all
  moreover have "place_filters (of_nat (p + filt_room f)) fs = (offs_at (p + filt_room f) fs, of_nat (p + filt_room f + sum_list (map filt_room fs)))"
    using Cons.prems by (intro Cons.IH) (simp_all add: add.assoc)
  ultimately show ?case by (simp add: add.assoc)
qed simp

fun parts :: "'e filter \<Rightarrow> 'e bloom list" where
  "parts (BLOOM_TYPE_SCALE sb) = take (unat (sb_len sb)) (sb_bfa sb)"
| "parts (BLOOM_TYPE_COUNTING f) = [f]"
| "parts (BLOOM_TYPE_QUICK f) = [f]"

text \<open>A filter that can be saved: bitmaps of the size they say, no more of them than the loader accepts, and sizes that fit in a file.\<close>

definition dir_room :: "'e filter \<Rightarrow> nat" where
  "dir_room f = (80 + 8 * length (parts f) + 63) div 64 * 64"

definition data_room :: "'e filter \<Rightarrow> nat" where
  "data_room f = dir_room f + sum_list (map filt_room (parts f))"

definition saveable :: "'e filter \<Rightarrow> bool" where
  "saveable f \<longleftrightarrow> filter_sized f \<and> 0 < length (parts f) \<and> length (parts f) \<le> 2 ^ 20 \<and> data_room f + 32 < 2 ^ 63 \<and>
    list_all (\<lambda>g. bl_bitmap g \<noteq> []) (parts f)"

lemma parts_len: "filter_sized (BLOOM_TYPE_SCALE sb) \<Longrightarrow> length (parts (BLOOM_TYPE_SCALE sb)) = unat (sb_len sb)"
  by simp

lemma parts_sized: "filter_sized f \<Longrightarrow> list_all sized (parts f)"
  by (cases f) simp_all

lemma dir_room_dvd [simp]: "64 dvd dir_room f"
  by (simp add: dir_room_def)

lemma calc_marshal_size_eq:
  assumes "saveable f"
  shows "calc_marshal_size f = Some \<lparr>ms_datasize = of_nat (data_room f), ms_offs = offs_at (dir_room f) (parts f)\<rparr>"
proof -
  have s: "filter_sized f" "length (parts f) \<le> 2 ^ 20" "data_room f < 2 ^ 63" using assms by (simp_all add: saveable_def)
  have p: "place_filters (of_nat (dir_room f)) (parts f) = (offs_at (dir_room f) (parts f), of_nat (data_room f))"
    using place_filters_eq [of "dir_room f" "parts f"] s parts_sized [OF s(1)] by (simp add: data_room_def)
  have a: "ALIGN_UP (of_nat (80 + 8 * length (parts f))) 64 = of_nat (dir_room f)"
    using s(2) by (simp only: dir_room_def) (rule align64, simp)
  show ?thesis
  proof (cases f)
    case (BLOOM_TYPE_SCALE sb)
    then have l: "unat (sb_len sb) = length (parts f)" "unat (sb_len sb) \<le> length (sb_bfa sb)" using s(1) by simp_all
    have "unat (sb_len sb * 8) = 8 * length (parts f)" using s(2) l(1) by (simp add: unat_word_ariths)
    then have "(ucast (sb_len sb * 8) :: u64) = of_nat (8 * length (parts f))" by (metis unat_ucast_up word_unat_eq_iff unat_u32_less unat_ucast_up of_nat_unat)
    then show ?thesis using BLOOM_TYPE_SCALE p a l(2) by (simp add: firsts_def HDRSIZ_def)
  qed (use p a in \<open>simp_all add: HDRSIZ_def split: prod.splits\<close>)
qed

section \<open>Writing it\<close>

definition hdr_image :: "'e dbl \<Rightarrow> 'e Bloom \<Rightarrow> u8 list" where
  "hdr_image D b = blom_magic @ [0, typ_code (B_filter b), 0, 0] @ le64 (B_n b) @ le64 (db_bits D (B_e b)) @
     le64 (of_nat (data_room (B_filter b))) @ replicate 32 0"

definition dir_bytes :: "'e dbl \<Rightarrow> 'e filter \<Rightarrow> u8 list" where
  "dir_bytes D f = (case f of
       BLOOM_TYPE_SCALE sb \<Rightarrow> le32 (sb_len sb) @ le32 (sb_scale sb) @ le64 (db_bits D (sb_r sb))
     | _ \<Rightarrow> le32 1 @ replicate 12 0) @ concat (map le64 (map of_hdroff (offs_at (dir_room f) (parts f))))"

lemma length_images [simp]:
  "length (hdr_image D b) = 64" "length (dir_bytes D f) = 16 + 8 * length (parts f)"
  using le64.length_all_lanes [of "map of_hdroff (offs_at (dir_room f) (parts f))"]
  by (simp_all add: hdr_image_def dir_bytes_def blom_magic_def split: filter.split)

lemma rewind_fresh: "(fresh (replicate j 0) k)\<lparr>cu_pos := 0\<rparr> = fresh [] (j + k)"
  by (simp add: fresh_def replicate_add)

lemma enc_all_fresh: "8 * length vs \<le> k \<Longrightarrow> enc_all enc_LE_u64 vs (fresh out k) = Some (fresh (out @ concat (map le64 vs)) (k - 8 * length vs))"
  using put_fresh [of "concat (map le64 vs)" k out] le64.length_all_lanes [of vs] by (simp add: le64.enc_all_lanes mult.commute)

lemma wrdir_fresh:
  assumes "saveable f" "16 + 8 * length (parts f) \<le> k"
  shows "wrdir D f (offs_at (dir_room f) (parts f)) (fresh out k) = Some (fresh (out @ dir_bytes D f) (k - (16 + 8 * length (parts f))))"
proof (cases f)
  case (BLOOM_TYPE_SCALE sb)
  then have "unat (sb_len sb) = length (parts f)" using assms(1) by (simp add: saveable_def)
  then have "firsts (sb_len sb) (offs_at (dir_room f) (parts f)) = Some (offs_at (dir_room f) (parts f))" by (simp add: firsts_def)
  then show ?thesis using assms(2) BLOOM_TYPE_SCALE by (simp add: wrdir_def enc_LE_float64_def enc_fresh enc_all_fresh dir_bytes_def)
qed (use assms(2) in \<open>simp_all add: wrdir_def enc_fresh dir_bytes_def get_at_def skip_fresh\<close>)

lemma wrhdr_fresh:
  assumes "saveable (B_filter b)" "dir_room (B_filter b) \<le> k"
  shows "bloom_wrhdr D b \<lparr>ms_datasize = of_nat (data_room (B_filter b)), ms_offs = offs_at (dir_room (B_filter b)) (parts (B_filter b))\<rparr> (replicate k 0) =
    Some (pad64 (hdr_image D b @ dir_bytes D (B_filter b)) @ replicate (k - dir_room (B_filter b)) 0)"
proof -
  let ?f = "B_filter b" and ?n = "length (parts (B_filter b))"
  have r: "80 + 8 * ?n \<le> dir_room ?f" unfolding dir_room_def by linarith
  have m: "length blom_magic = 4" by (simp add: blom_magic_def)
  have z: "(fresh (blom_magic @ [0, typ_code ?f, 0, 0] @ le64 (B_n b) @ le64 (db_bits D (B_e b)) @ le64 (of_nat (data_room ?f))) (k - 32))\<lparr>cu_pos := 64\<rparr>
      = fresh (hdr_image D b) (k - 64)"
    using r assms(2) by (subst skip_fresh) (simp_all add: m hdr_image_def)
  have w: "wrdir D ?f (offs_at (dir_room ?f) (parts ?f)) (fresh (hdr_image D b) (k - 64))
      = Some (fresh (hdr_image D b @ dir_bytes D ?f) (k - 64 - (16 + 8 * ?n)))"
    using wrdir_fresh [OF assms(1)] r assms(2) by simp
  have e: "replicate (k - (80 + 8 * ?n)) (0 :: u8) = replicate (dir_room ?f - (80 + 8 * ?n)) 0 @ replicate (k - dir_room ?f) 0"
    using r assms(2) by (simp add: replicate_add [symmetric])
  show ?thesis
    using r assms(2) z w e by (simp add: bloom_wrhdr_def HDRSIZ_def start_fresh put_fresh put_byte_fresh enc_fresh enc_LE_float64_def m rewind_fresh pad64_def)
      (simp add: dir_room_def)
qed

lemma at_fresh: "p = length out \<Longrightarrow> \<lparr>cu_mem = out @ replicate k 0, cu_pos = p\<rparr> = fresh out k"
  by (simp add: fresh_def)

lemma wrfilter_fresh:
  assumes "sized f" "length out + filt_room f < 2 ^ 63" "filt_room f \<le> k"
  shows "wrfilter (out @ replicate k 0) \<lparr>of_hdroff = of_nat (length out), of_dataoff = of_nat (length out + 64)\<rparr> f =
    Some (out @ pad64 (filt_image f) @ replicate (k - filt_room f) 0)"
proof -
  have n: "length (bl_bitmap f) = unat (bl_bmsize f)" using assms(1) by (simp add: sized_def)
  have r: "64 + length (bl_bitmap f) \<le> filt_room f" unfolding filt_room_def by linarith
  have u: "unat (of_nat (length out) :: u64) = length out" "unat (of_nat (length out + 64) :: u64) = length out + 64"
    using assms(2) r by (simp_all only: unat_of_nat take_bit_nat_eq_self_iff) simp_all
  have z: "(fresh (out @ filt_hdr f) (k - 40))\<lparr>cu_pos := length out + 64\<rparr> = fresh (out @ filt_hdr f @ replicate 24 0) (k - 64)"
    using r assms(3) by (subst skip_fresh) simp_all
  have d: "filt_room f = (64 + length (bl_bitmap f) + 63) div 64 * 64" by (metis length_filt(2) length_filt_pad length_pad64)
  have e: "replicate (k - (64 + length (bl_bitmap f))) (0 :: u8) = replicate (filt_room f - (64 + length (bl_bitmap f))) 0 @ replicate (k - filt_room f) 0"
    using r assms(3) by (simp add: replicate_add [symmetric])
  show ?thesis
    using r assms(3) z e by (simp add: wrfilter_def u at_fresh enc_fresh n [symmetric] filt_hdr_def put_fresh filt_image_def pad64_def d [symmetric] del: of_nat_add)
qed

lemma wrfilters_fresh:
  assumes "list_all sized fs" "length out + sum_list (map filt_room fs) < 2 ^ 63" "sum_list (map filt_room fs) \<le> k"
  shows "wrfilters (out @ replicate k 0) (offs_at (length out) fs) (fs @ gs) =
    Some (out @ concat (map (\<lambda>f. pad64 (filt_image f)) fs) @ replicate (k - sum_list (map filt_room fs)) 0)"
  using assms
proof (induction fs arbitrary: out k)
  case (Cons f fs)
  have "wrfilters (out @ replicate k 0) (offs_at (length out) (f # fs)) ((f # fs) @ gs) =
    wrfilters ((out @ pad64 (filt_image f)) @ replicate (k - filt_room f) 0) (offs_at (length (out @ pad64 (filt_image f))) fs) (fs @ gs)"
    using wrfilter_fresh [of f out k] Cons.prems by (simp del: of_nat_add)
  then show ?case using Cons.IH [of "out @ pad64 (filt_image f)" "k - filt_room f"] Cons.prems by (simp add: add.assoc)
qed simp

definition bloom_data :: "'e dbl \<Rightarrow> 'e Bloom \<Rightarrow> u8 list" where
  "bloom_data D b = pad64 (hdr_image D b @ dir_bytes D (B_filter b)) @ concat (map (\<lambda>f. pad64 (filt_image f)) (parts (B_filter b)))"

definition be64 :: "u64 \<Rightarrow> u8 list" where
  "be64 v = rev (le64 v)"

definition bloom_file :: "(u8 \<Rightarrow> u8 list \<Rightarrow> u8 list) \<Rightarrow> 'e dbl \<Rightarrow> 'e Bloom \<Rightarrow> u8 list" where
  "bloom_file H D b = (let d = bloom_data D b in d @ H 0 (d @ be64 (of_nat (length d))))"

lemma length_filters: "length (concat (map (\<lambda>f. pad64 (filt_image f)) fs)) = sum_list (map filt_room fs)"
  by (induction fs) simp_all

lemma length_bloom_data [simp]: "length (bloom_data D b) = data_room (B_filter b)"
  by (simp add: bloom_data_def data_room_def dir_room_def length_filters del: length_concat)

lemma cksum_eq:
  assumes "length d = n" "n < 2 ^ 64"
  shows "cksum H t (d @ r) (of_nat n) = Some (H t (d @ be64 (of_nat n)))"
proof -
  have "unat (of_nat n :: u64) = n" using assms(2) by (simp add: unat_of_nat take_bit_nat_eq_self_iff)
  then show ?thesis using assms(1) be64.enc_lanes [of "fresh [] 8" "of_nat n"] put_fresh [of "be64 (of_nat n)" 8 "[]"]
    by (simp add: cksum_def start_fresh be64_def)
qed

lemma write_bits:
  assumes "saveable (B_filter b)" "data_room (B_filter b) \<le> k"
  shows "wrbody (pad64 (hdr_image D b @ dir_bytes D (B_filter b)) @ replicate (k - dir_room (B_filter b)) 0)
      (offs_at (dir_room (B_filter b)) (parts (B_filter b))) (B_filter b)
    = Some (bloom_data D b @ replicate (k - data_room (B_filter b)) 0)"
proof -
  let ?f = "B_filter b" and ?out = "pad64 (hdr_image D b @ dir_bytes D (B_filter b))"
  have o: "length ?out = dir_room ?f" by (simp add: dir_room_def)
  have w: "wrfilters (?out @ replicate (k - dir_room ?f) 0) (offs_at (dir_room ?f) (parts ?f)) (parts ?f @ gs) = Some (bloom_data D b @ replicate (k - data_room ?f) 0)" for gs
    using wrfilters_fresh [of "parts ?f" ?out "k - dir_room ?f" gs] assms parts_sized [of ?f] unfolding o
    by (simp add: saveable_def data_room_def bloom_data_def)
  show ?thesis
  proof (cases ?f)
    case (BLOOM_TYPE_SCALE sb)
    then show ?thesis using w [of "drop (unat (sb_len sb)) (sb_bfa sb)"] by (simp add: wrbody_def)
  next
    case (BLOOM_TYPE_COUNTING f)
    then show ?thesis using w [of "[]"] by (simp add: wrbody_def get_at_def del: of_nat_add)
  next
    case (BLOOM_TYPE_QUICK f)
    then show ?thesis using w [of "[]"] by (simp add: wrbody_def get_at_def del: of_nat_add)
  qed
qed

lemma bloom_write_eq:
  assumes "saveable (B_filter b)" "\<And>t m. length (H t m) = 32"
  shows "bloom_write H D b \<lparr>ms_datasize = of_nat (data_room (B_filter b)), ms_offs = offs_at (dir_room (B_filter b)) (parts (B_filter b))\<rparr>
      (replicate (data_room (B_filter b) + 32) 0) = Some (bloom_file H D b)"
proof -
  let ?n = "data_room (B_filter b)"
  have n: "?n < 2 ^ 63" using assms(1) by (simp add: saveable_def)
  then have u: "unat (of_nat ?n :: u64) = ?n" by (simp add: unat_of_nat take_bit_nat_eq_self_iff)
  have h: "dir_room (B_filter b) \<le> ?n + 32" by (simp add: data_room_def)
  have c: "cksum H 0 (bloom_data D b @ replicate 32 0) (of_nat ?n) = Some (H 0 (bloom_data D b @ be64 (of_nat ?n)))"
    using n by (intro cksum_eq) simp_all
  show ?thesis
    using wrhdr_fresh [OF assms(1) h, of D] write_bits [OF assms(1), of "?n + 32" D] c assms(2)
    by (simp add: bloom_write_def u at_fresh put_fresh bloom_file_def Let_def)
qed

section \<open>Reading it back\<close>

text \<open>What the loader makes of a filter: the error rate is computed afresh, the array of a scalable filter is as long as needed.\<close>

definition reload_part :: "'e dbl \<Rightarrow> 'e bloom \<Rightarrow> 'e bloom" where
  "reload_part D g = g\<lparr>bl_e := db_make_e D (bl_k g)\<rparr>"

fun reload :: "'e dbl \<Rightarrow> 'e filter \<Rightarrow> 'e filter" where
  "reload D (BLOOM_TYPE_SCALE sb) =
    (let cap = NEXTPOW2_u32 (sb_len sb) in
     BLOOM_TYPE_SCALE (sb\<lparr>sb_bfa := map (reload_part D) (take (unat (sb_len sb)) (sb_bfa sb)) @ replicate (unat cap - unat (sb_len sb)) (zero_bloom (db_zero D)),
                          sb_cap := cap\<rparr>))"
| "reload D (BLOOM_TYPE_COUNTING f) = BLOOM_TYPE_COUNTING (reload_part D f)"
| "reload D (BLOOM_TYPE_QUICK f) = BLOOM_TYPE_QUICK (reload_part D f)"

lemma dec_at: "q = length xs \<Longrightarrow> dec_LE_u64 (xs @ le64 v @ ys) q = Some v" "q = length xs \<Longrightarrow> dec_LE_u32 (xs @ le32 w @ ys) q = Some w"
  by (simp_all add: le64.dec_lanes le32.dec_lanes)

lemma rdfilter_at:
  assumes m: "m = xs @ filt_image g @ ys" and g: "sized g" and p: "p = length xs" "p + filt_room g < 2 ^ 63" and ok: "do_mmap \<or> ok"
  shows "rdfilter D do_mmap ok m \<lparr>of_hdroff = of_nat p, of_dataoff = of_nat (p + 64)\<rparr> = Some (None, reload_part D g)"
proof -
  have r: "64 + length (bl_bitmap g) \<le> filt_room g" unfolding filt_room_def by linarith
  have u: "unat (of_nat p :: u64) = p" "unat (of_nat (p + 64) :: u64) = p + 64"
    using p(2) r by (simp_all only: unat_of_nat take_bit_nat_eq_self_iff) simp_all
  have d: "dec_LE_u64 m p = Some (bl_m g)" "dec_LE_u64 m (p + 8) = Some (bl_k g)" "dec_LE_u64 m (p + 16) = Some (bl_salt g)"
    "dec_LE_u64 m (p + 24) = Some (bl_size g)" "dec_LE_u64 m (p + 32) = Some (bl_bmsize g)"
    using dec_at(1) [of p xs "bl_m g"] dec_at(1) [of "p + 8" "xs @ le64 (bl_m g)" "bl_k g"] dec_at(1) [of "p + 16" "xs @ le64 (bl_m g) @ le64 (bl_k g)" "bl_salt g"]
      dec_at(1) [of "p + 24" "xs @ le64 (bl_m g) @ le64 (bl_k g) @ le64 (bl_salt g)" "bl_size g"]
      dec_at(1) [of "p + 32" "xs @ le64 (bl_m g) @ le64 (bl_k g) @ le64 (bl_salt g) @ le64 (bl_size g)" "bl_bmsize g"]
    by (simp_all add: m p(1) filt_image_def filt_hdr_def)
  have n: "unat (bl_bmsize g) = length (bl_bitmap g)" using g by (simp add: sized_def)
  have b: "take (length (bl_bitmap g)) (drop (p + 64) m) = bl_bitmap g" "p + 64 + length (bl_bitmap g) \<le> length m"
    by (simp_all add: m p(1) filt_image_def)
  have "g = \<lparr>bl_m = bl_m g, bl_k = bl_k g, bl_salt = bl_salt g, bl_bitmap = bl_bitmap g, bl_size = bl_size g, bl_bmsize = bl_bmsize g, bl_e = bl_e g\<rparr>" by simp
  then have e: "reload_part D g = \<lparr>bl_m = bl_m g, bl_k = bl_k g, bl_salt = bl_salt g, bl_bitmap = bl_bitmap g, bl_size = bl_size g, bl_bmsize = bl_bmsize g, bl_e = db_make_e D (bl_k g)\<rparr>"
    unfolding reload_part_def by (metis bloom.update_convs(7))
  show ?thesis using ok b(2) by (auto simp: rdfilter_def u d n b(1) e Let_def simp del: of_nat_add)
qed

lemma rdfilters_at:
  assumes "m = xs @ concat (map (\<lambda>f. pad64 (filt_image f)) fs) @ ys" "list_all sized fs" "length xs + sum_list (map filt_room fs) < 2 ^ 63"
    "\<forall>i. do_mmap \<or> ok i" "i + length fs \<le> length bfa"
  shows "rdfilters D do_mmap ok m i (offs_at (length xs) fs) bfa = Some (Inr (take i bfa @ map (reload_part D) fs @ drop (i + length fs) bfa))"
  using assms
proof (induction fs arbitrary: xs i bfa)
  case (Cons f fs)
  let ?bfa = "bfa[i := reload_part D f]"
  have "m = xs @ filt_image f @ (replicate (filt_room f - length (filt_image f)) 0 @ concat (map (\<lambda>f. pad64 (filt_image f)) fs) @ ys)"
    using Cons.prems(1) by (simp add: pad64_def)
  then have "rdfilter D do_mmap (ok i) m \<lparr>of_hdroff = of_nat (length xs), of_dataoff = of_nat (length xs + 64)\<rparr> = Some (None, reload_part D f)"
    using Cons.prems(2-4) by (intro rdfilter_at) auto
  moreover have "rdfilters D do_mmap ok m (Suc i) (offs_at (length (xs @ pad64 (filt_image f))) fs) ?bfa =
      Some (Inr (take (Suc i) ?bfa @ map (reload_part D) fs @ drop (Suc i + length fs) ?bfa))"
    using Cons.prems by (intro Cons.IH) (simp_all add: add.assoc)
  moreover have "take (Suc i) ?bfa = take i bfa @ [reload_part D f]" using Cons.prems(5) by (simp add: take_Suc_conv_app_nth)
  ultimately show ?case using Cons.prems(5) by (simp add: put_at_def del: of_nat_add)
qed simp

lemma rdoffs_at:
  assumes "m = xs @ concat (map le64 (map of_hdroff (offs_at p fs))) @ ys" "q = length xs" "64 dvd p" "p + sum_list (map filt_room fs) \<le> n" "n < 2 ^ 63"
    "list_all (\<lambda>g. bl_bitmap g \<noteq> []) fs"
  shows "rdoffs (of_nat n) m q (length fs) = Some (Inr (offs_at p fs))"
  using assms
proof (induction fs arbitrary: xs p q)
  case (Cons f fs)
  have r: "64 < filt_room f" using Cons.prems(6) unfolding filt_room_def by (cases "bl_bitmap f") simp_all
  have h: "dec_LE_u64 m q = Some (of_nat p)" using dec_at(1) [of q xs "of_nat p"] Cons.prems(1,2) by simp
  have a: "ALIGN_UP (of_nat p + FILT_HDRSIZ) 64 = of_nat (p + 64)"
    using align64 [of "p + 40"] Cons.prems(3-5) r by (auto simp: FILT_HDRSIZ_def elim!: dvdE)
  have l: "(of_nat p :: u64) < of_nat n" "(of_nat (p + 64) :: u64) < of_nat n"
    using Cons.prems(4,5) r by (simp_all only: word_less_nat_alt unat_of_nat take_bit_nat_eq_self_iff) (simp_all add: take_bit_nat_eq_self)
  have "rdoffs (of_nat n) m (q + 8) (length fs) = Some (Inr (offs_at (p + filt_room f) fs))"
    using Cons.prems by (intro Cons.IH [of "xs @ le64 (of_nat p)"]) simp_all
  then show ?case using l by (simp add: h a not_le [symmetric] del: of_nat_add)
qed simp

fun blank :: "'e dbl \<Rightarrow> 'e filter \<Rightarrow> 'e filter" where
  "blank D (BLOOM_TYPE_SCALE sb) =
    BLOOM_TYPE_SCALE ((setup_scalable_bloom (db_zero D) (NEXTPOW2_u32 (sb_len sb)))\<lparr>sb_scale := sb_scale sb, sb_len := sb_len sb, sb_r := sb_r sb\<rparr>)"
| "blank D (BLOOM_TYPE_COUNTING f) = BLOOM_TYPE_COUNTING (zero_bloom (db_zero D))"
| "blank D (BLOOM_TYPE_QUICK f) = BLOOM_TYPE_QUICK (zero_bloom (db_zero D))"

lemma rddir_at:
  assumes m: "m = xs @ dir_bytes D f @ ys" "length xs = 64" and f: "saveable f" and D: "\<And>d. db_of D (db_bits D d) = d"
  shows "rddir D (typ_code f) m (of_nat (data_room f)) = Some (Inr (blank D f, offs_at (dir_room f) (parts f)))"
proof -
  let ?ds = "offs_at (dir_room f) (parts f)" and ?n = "data_room f"
  have s: "length (parts f) \<le> 2 ^ 20" "?n < 2 ^ 63" "list_all (\<lambda>g. bl_bitmap g \<noteq> []) (parts f)" using f by (simp_all add: saveable_def)
  have ro: "rdoffs (of_nat ?n) m 80 (length (parts f)) = Some (Inr ?ds)" if "m = zs @ concat (map le64 (map of_hdroff ?ds)) @ ys" "length zs = 80" for zs
    using that s by (intro rdoffs_at) (simp_all add: data_room_def)
  show ?thesis
  proof (cases f)
    case (BLOOM_TYPE_SCALE sb)
    let ?a = "xs @ le32 (sb_len sb)" and ?b = "xs @ le32 (sb_len sb) @ le32 (sb_scale sb)"
    have l: "unat (sb_len sb) = length (parts f)" using f BLOOM_TYPE_SCALE by (simp add: saveable_def)
    have d: "dec_LE_u32 m 64 = Some (sb_len sb)" "dec_LE_u32 m 68 = Some (sb_scale sb)" "dec_LE_u64 m 72 = Some (db_bits D (sb_r sb))"
      using dec_at(2) [of 64 xs "sb_len sb"] dec_at(2) [of 68 ?a "sb_scale sb"] dec_at(1) [of 72 ?b "db_bits D (sb_r sb)"] m BLOOM_TYPE_SCALE
      by (simp_all add: dir_bytes_def)
    have k: "\<not> 1048576 < sb_len sb" using l s(1) by (simp add: word_less_nat_alt)
    have r: "80 + 8 * length (parts f) \<le> ?n" unfolding data_room_def dir_room_def by linarith
    have u: "unat (sb_len sb * 8) = 8 * length (parts f)" using l s(1) by (simp add: unat_word_ariths)
    have "unat (of_nat ?n - HDRSIZ - 16 :: u64) = ?n - 80"
    proof -
      have "(of_nat ?n :: u64) - HDRSIZ - 16 = of_nat (?n - 80)" using r by (simp add: HDRSIZ_def of_nat_diff)
      then show ?thesis using s(2) by (simp add: unat_of_nat take_bit_nat_eq_self_iff)
    qed
    then have a: "\<not> of_nat ?n - HDRSIZ - 16 < (ucast (sb_len sb * 8) :: u64)" using r u by (simp add: word_less_nat_alt)
    have "rdoffs (of_nat ?n) m 80 (unat (sb_len sb)) = Some (Inr ?ds)"
      unfolding l by (rule ro [of "?b @ le64 (db_bits D (sb_r sb))"]) (use m BLOOM_TYPE_SCALE in \<open>simp_all add: dir_bytes_def\<close>)
    then show ?thesis using k a d D BLOOM_TYPE_SCALE by (simp add: rddir_def dec_LE_float64_def alloc_bloom_def)
  next
    case (BLOOM_TYPE_COUNTING g)
    have "dec_LE_u32 m 64 = Some 1" "rdoffs (of_nat ?n) m 80 1 = Some (Inr ?ds)"
      using dec_at(2) [of 64 xs 1] ro [of "xs @ le32 1 @ replicate 12 0"] m BLOOM_TYPE_COUNTING by (simp_all add: dir_bytes_def)
    then show ?thesis using BLOOM_TYPE_COUNTING by (simp add: rddir_def alloc_bloom_def)
  next
    case (BLOOM_TYPE_QUICK g)
    have "dec_LE_u32 m 64 = Some 1" "rdoffs (of_nat ?n) m 80 1 = Some (Inr ?ds)"
      using dec_at(2) [of 64 xs 1] ro [of "xs @ le32 1 @ replicate 12 0"] m BLOOM_TYPE_QUICK by (simp_all add: dir_bytes_def)
    then show ?thesis using BLOOM_TYPE_QUICK by (simp add: rddir_def alloc_bloom_def)
  qed
qed

lemma data_room_least: "saveable f \<Longrightarrow> 80 \<le> data_room f"
  unfolding data_room_def dir_room_def by linarith

lemma rdhdr_at:
  assumes m: "m = hdr_image D b @ dir_bytes D (B_filter b) @ ys" and b: "saveable (B_filter b)" and D: "\<And>d. db_of D (db_bits D d) = d"
  shows "bloom_rdhdr D m (of_nat (data_room (B_filter b))) =
    Some (Inr (b\<lparr>B_filter := blank D (B_filter b)\<rparr>, offs_at (dir_room (B_filter b)) (parts (B_filter b))))"
proof -
  let ?n = "data_room (B_filter b)" and ?a = "blom_magic @ [0, typ_code (B_filter b), 0, 0]"
  have s: "?n < 2 ^ 63" using b by (simp add: saveable_def)
  have z: "\<not> (of_nat ?n :: u64) < HDRSIZ + 16" using s data_room_least [OF b] by (simp add: HDRSIZ_def word_less_nat_alt unat_of_nat take_bit_nat_eq_self)
  have l: "length ?a = 8" by (simp add: blom_magic_def)
  have e: "m = ?a @ le64 (B_n b) @ le64 (db_bits D (B_e b)) @ le64 (of_nat ?n) @ replicate 32 0 @ dir_bytes D (B_filter b) @ ys"
    by (simp add: m hdr_image_def)
  have d: "dec_LE_u64 m 8 = Some (B_n b)" "dec_LE_u64 m 16 = Some (db_bits D (B_e b))" "dec_LE_u64 m 24 = Some (of_nat ?n)"
    using dec_at(1) [of 8 ?a "B_n b"] dec_at(1) [of 16 "?a @ le64 (B_n b)" "db_bits D (B_e b)"]
      dec_at(1) [of 24 "?a @ le64 (B_n b) @ le64 (db_bits D (B_e b))" "of_nat ?n"] l
    by (simp_all only: e append_assoc length_append length_le) simp_all
  have t: "typ_code (B_filter b) = 2 \<or> typ_code (B_filter b) = 0 \<or> typ_code (B_filter b) = 1" by (cases "B_filter b") simp_all
  have g: "take 4 m = blom_magic" "get_at m 4 = Some 0" "get_at m 5 = Some (typ_code (B_filter b))" "get_at m 6 = Some 0" "\<not> length m < 4"
    by (simp_all add: e blom_magic_def)
  have r: "rddir D (typ_code (B_filter b)) m (of_nat ?n) = Some (Inr (blank D (B_filter b), offs_at (dir_room (B_filter b)) (parts (B_filter b))))"
    by (rule rddir_at [OF m _ b D]) simp
  show ?thesis using z t D by (auto simp: bloom_rdhdr_def g d r dec_LE_float64_def simp del: get_at_eq_Some not_less)
qed

lemma rdbody_at:
  assumes m: "m = xs @ concat (map (\<lambda>f. pad64 (filt_image f)) (parts f)) @ ys" "length xs = dir_room f" and f: "saveable f" and ok: "\<forall>i. do_mmap \<or> ok i"
  shows "rdbody D do_mmap ok m (offs_at (dir_room f) (parts f)) (blank D f) = Some (Inr (reload D f))"
proof -
  have s: "list_all sized (parts f)" "length xs + sum_list (map filt_room (parts f)) < 2 ^ 63" "length (parts f) \<le> 2 ^ 20" "0 < length (parts f)"
    using f parts_sized m(2) by (auto simp: saveable_def data_room_def)
  have rd: "rdfilters D do_mmap ok m 0 (offs_at (dir_room f) (parts f)) bfa = Some (Inr (map (reload_part D) (parts f) @ drop (length (parts f)) bfa))"
    if "length (parts f) \<le> length bfa" for bfa
    using rdfilters_at [OF m(1) s(1,2) ok, of 0 bfa D] that m(2) by simp
  have one: "rdfilter D do_mmap (ok 0) m \<lparr>of_hdroff = of_nat (dir_room f), of_dataoff = of_nat (dir_room f + 64)\<rparr> = Some (None, reload_part D g)" if "parts f = [g]" for g
    using rd [of "[g]"] that by (auto simp: bind_eq_Some_conv put_at_def simp del: of_nat_add split: option.splits)
  show ?thesis
  proof (cases f)
    case (BLOOM_TYPE_SCALE sb)
    let ?c = "NEXTPOW2_u32 (sb_len sb)"
    have l: "unat (sb_len sb) = length (parts f)" using f BLOOM_TYPE_SCALE by (simp add: saveable_def)
    then have "unat (sb_len sb) \<le> unat ?c" using s(3,4) by (intro NEXTPOW2_u32_range) (simp_all add: Suc_le_eq)
    moreover have "unat (sb_len sb) \<le> length (sb_bfa sb)" using f BLOOM_TYPE_SCALE by (simp add: saveable_def)
    ultimately show ?thesis using rd [of "replicate (unat ?c) (zero_bloom (db_zero D))"] BLOOM_TYPE_SCALE
      by (simp add: rdbody_def setup_scalable_bloom_def Let_def min_absorb2)
  qed (use one in \<open>simp_all add: rdbody_def get_at_def del: of_nat_add\<close>)
qed

lemma find_reload_part [simp]:
  "standard_bloom_find (reload_part D g) v = standard_bloom_find g v" "counting_bloom_find (reload_part D g) v = counting_bloom_find g v"
proof -
  have "slots (reload_part D g) v = slots g v" by (rule slots_cong) (simp_all add: reload_part_def)
  moreover have "bl_bitmap (reload_part D g) = bl_bitmap g" by (simp add: reload_part_def)
  ultimately show "standard_bloom_find (reload_part D g) v = standard_bloom_find g v" "counting_bloom_find (reload_part D g) v = counting_bloom_find g v"
    by (simp_all add: standard_bloom_find_def counting_bloom_find_def)
qed

lemma find_reload: "filter_sized f \<Longrightarrow> filter_find (reload D f) v = filter_find f v"
  by (cases f) (auto simp: scalable_find_def Let_def nth_append intro!: find_from_cong)

lemma bloom_unmarshal_file:
  assumes b: "saveable (B_filter b)" and D: "\<And>d. db_of D (db_bits D d) = d" and H: "\<And>t m. length (H t m) = 32"
    and fs: "fs fname = Some (bloom_file H D b)" "fe_open E = None" "fe_fstat E = None" "fe_mmap E = None" and ok: "\<forall>i. do_mmap \<or> ok i"
  shows "Bloom_unmarshal E ok H D do_mmap fname fs = Some (Inr (b\<lparr>B_filter := reload D (B_filter b)\<rparr>))"
proof -
  let ?f = "B_filter b" and ?n = "data_room (B_filter b)" and ?m = "bloom_file H D b"
  let ?h = "hdr_image D b @ dir_bytes D (B_filter b)" and ?c = "H 0 (bloom_data D b @ be64 (of_nat (data_room (B_filter b))))"
  have n: "?n + 32 < 2 ^ 63" "80 \<le> ?n" using b data_room_least [OF b] by (simp_all add: saveable_def)
  have m: "?m = bloom_data D b @ ?c" "length ?m = ?n + 32" by (simp_all add: bloom_file_def Let_def H)
  have f: "map_file E (HDRSIZ + 16 + CKSUMSZ) fname fs = Inr ?m" using fs m(2) n(2) by (simp add: map_file_def HDRSIZ_def CKSUMSZ_def)
  have z: "of_nat (length ?m) - CKSUMSZ = of_nat ?n" by (simp add: m(2) CKSUMSZ_def)
  have u: "unat (of_nat ?n :: u64) = ?n" "unat CKSUMSZ = 32" using n(1) by (simp_all add: unat_of_nat take_bit_nat_eq_self_iff CKSUMSZ_def)
  have c: "cksum H 0 ?m (of_nat ?n) = Some ?c" unfolding m(1) using n(1) by (intro cksum_eq) simp_all
  have t: "take 32 (drop ?n ?m) = ?c" by (simp add: m(1) H)
  have e: "?m = hdr_image D b @ dir_bytes D ?f @ (replicate (dir_room ?f - length ?h) 0 @ concat (map (\<lambda>f. pad64 (filt_image f)) (parts ?f)) @ ?c)"
    "?m = pad64 ?h @ concat (map (\<lambda>f. pad64 (filt_image f)) (parts ?f)) @ ?c"
    by (simp_all add: m(1) bloom_data_def pad64_def dir_room_def)
  have 7: "get_at ?m 7 = Some 0" unfolding e(1) by (simp add: hdr_image_def blom_magic_def)
  have r: "rdbody D do_mmap ok ?m (offs_at (dir_room ?f) (parts ?f)) (blank D ?f) = Some (Inr (reload D ?f))"
    by (rule rdbody_at [OF e(2) _ b ok]) (simp add: dir_room_def)
  show ?thesis
    using rdhdr_at [OF e(1) b D] by (simp add: Bloom_unmarshal_def f 7 z c u t r is_valid_cktyp_def del: get_at_eq_Some)
qed

text \<open>
  C14: saving and loading a Bloom filter of any of the three types. Whichever of the calls \<open>mkostemp\<close>, \<open>ftruncate\<close>, \<open>mmap\<close> and \<open>rename\<close> fail, \<open>Bloom_marshal\<close> returns, and
  if it reports success the file holds the image of the filter, nothing is left of its old contents, and no other file is changed; with no failing call it
  succeeds. From that image \<open>Bloom_unmarshal\<close>, copying or mapping the bits, builds a filter with the same type, parameters and bits that answers every query as the saved one does;
  the error rates kept in the parts are not restored but computed afresh from their number of hashes, and a scalable filter has room for the next power of two of its parts.
\<close>

theorem bloom_marshal_roundtrip:
  assumes "saveable (B_filter b)" "\<And>d. db_of D (db_bits D d) = d" "\<And>t m. length (H t m) = 32" "fs' = fs(fname \<mapsto> bloom_file H D b)"
    and "fs (fe_tmp E) = None" "fe_tmp E \<noteq> fname"
  shows "(\<exists>r fs1. Bloom_marshal E H D b fname fs = Some (r, fs1) \<and> (r = Rc_ok \<longrightarrow> fs1 = fs') \<and> (no_error E \<longrightarrow> r = Rc_ok)) \<and>
    (fe_open E = None \<longrightarrow> fe_fstat E = None \<longrightarrow> fe_mmap E = None \<longrightarrow> (\<forall>i. do_mmap \<or> ok i) \<longrightarrow>
      (\<exists>b'. Bloom_unmarshal E ok H D do_mmap fname fs' = Some (Inr b') \<and> b' = b\<lparr>B_filter := reload D (B_filter b)\<rparr> \<and>
        (\<forall>v. Bloom_find b' v = Bloom_find b v)))"
proof -
  have n: "unat (CKSUMSZ + of_nat (data_room (B_filter b))) = data_room (B_filter b) + 32"
    using assms(1) by (simp add: CKSUMSZ_def saveable_def unat_word_ariths unat_of_nat take_bit_nat_eq_self)
  have "\<exists>r. Bloom_marshal E H D b fname fs = Some (r, if r = Rc_ok then fs' else fs) \<and> (no_error E \<longrightarrow> r = Rc_ok)"
    unfolding assms(4) Bloom_marshal_def calc_marshal_size_eq [OF assms(1)] bind.bind_lunit mstate.simps
    using bloom_write_eq [where H = H and D = D, OF assms(1,3)] assms(5,6) by (intro marshal_file_outcome) (simp_all add: n)
  moreover have "Bloom_find (b\<lparr>B_filter := reload D (B_filter b)\<rparr>) v = Bloom_find b v" for v
    using assms(1) find_reload [of "B_filter b" D v] by (simp add: Bloom_find_def saveable_def)
  ultimately show ?thesis
    using bloom_unmarshal_file [where H = H and D = D and fs = fs' and fname = fname and E = E, OF assms(1-3)] assms(4) by auto
qed

definition dbl_demo :: "u64 dbl" where
  "dbl_demo = \<lparr>db_bits = id, db_of = id, db_zero = 0, db_make_e = (\<lambda>k. k)\<rparr>"

definition part_demo :: "u64 bloom" where
  "part_demo = \<lparr>bl_m = 32, bl_k = 2, bl_salt = 7, bl_bitmap = [1, 2, 3, 4, 5, 6, 7, 8], bl_size = 3, bl_bmsize = 8, bl_e = 1\<rparr>"

definition fenv_demo :: fenv where
  "fenv_demo = \<lparr>fe_tmp = ''f.tmp'', fe_mkostemp = None, fe_ftruncate = None, fe_mmap = None, fe_rename = None, fe_fstat = None, fe_open = None\<rparr>"

theorem bloom_marshal_roundtrip_witness:
  "let sb = \<lparr>sb_bfa = [part_demo, part_demo], sb_len = 2, sb_cap = 2, sb_scale = 2, sb_r = 9\<rparr>;
       b = \<lparr>B_filter = BLOOM_TYPE_SCALE sb, B_n = 5, B_e = 1\<rparr>; H = (\<lambda>_ _. replicate 32 0) in
   \<exists>fs b'. Bloom_marshal fenv_demo H dbl_demo b ''f'' Map.empty = Some (Rc_ok, fs) \<and>
     Bloom_unmarshal fenv_demo (\<lambda>_. True) H dbl_demo False ''f'' fs = Some (Inr b') \<and> Bloom_find b' 4 = Bloom_find b 4"
proof -
  define b where "b = \<lparr>B_filter = BLOOM_TYPE_SCALE \<lparr>sb_bfa = [part_demo, part_demo], sb_len = 2, sb_cap = 2, sb_scale = 2, sb_r = 9\<rparr>, B_n = 5, B_e = 1\<rparr>"
  have "saveable (B_filter b)" by (simp add: b_def saveable_def data_room_def dir_room_def filt_room_def part_demo_def sized_def)
  from bloom_marshal_roundtrip [where H = "\<lambda>_ _. replicate 32 0" and D = dbl_demo and E = fenv_demo and fname = "''f''" and fs = Map.empty and do_mmap = False
      and ok = "\<lambda>_. True", OF this _ _ refl]
  show ?thesis unfolding Let_def b_def [symmetric] by (auto simp: dbl_demo_def fenv_demo_def no_error_def)
qed

text \<open>
  Without memory for the bits, loading a standard filter reports success, and the filter has no bitmap: the first query faults.
\<close>

theorem bloom_unmarshal_ignores_enomem:
  "let b = \<lparr>B_filter = BLOOM_TYPE_QUICK part_demo, B_n = 5, B_e = 1\<rparr>; H = (\<lambda>_ _. replicate 32 0) in
   case Bloom_unmarshal fenv_demo (\<lambda>_. False) H dbl_demo False ''f'' [''f'' \<mapsto> bloom_file H dbl_demo b] of
     Some (Inr b') \<Rightarrow> Bloom_find b' 4 = None
   | _ \<Rightarrow> False"
  by code_simp

text \<open>
  The size of a bitmap is not compared with the size of the file: a file whose only filter says 1000 bytes and has 8 is accepted, and copying them reads
  past the end of the mapping.
\<close>

theorem bloom_unmarshal_overrun:
  "let b = \<lparr>B_filter = BLOOM_TYPE_QUICK (part_demo\<lparr>bl_bmsize := 1000\<rparr>), B_n = 5, B_e = 1\<rparr>; H = (\<lambda>_ _. replicate 32 0) in
   Bloom_unmarshal fenv_demo (\<lambda>_. True) H dbl_demo False ''f'' [''f'' \<mapsto> bloom_file H dbl_demo b] = None"
  by code_simp

end
