(* ===== verification/Str_Search.thy ===== *)
theory Str_Search
  imports Prelude "HOL-Library.Sublist"
begin

text \<open>
  Occurrences of a pattern in a text, and the loop that the algorithms of \<open>inc/utils/strmatch.h\<close> share: a window moves over the
  text from left to right; each window is compared with the pattern and tells how far to move. The locale \<open>window_search\<close> has what
  an algorithm must promise for the loop to end and to report every occurrence. A \<open>vector<int>\<close> of offsets is a list of numbers.
\<close>

datatype exn = Length_error

definition occ :: "'a list \<Rightarrow> 'a list \<Rightarrow> nat \<Rightarrow> bool" where
  "occ pat tx j \<longleftrightarrow> j + length pat \<le> length tx \<and> take (length pat) (drop j tx) = pat"

definition occurrences :: "'a list \<Rightarrow> 'a list \<Rightarrow> nat list" where
  "occurrences pat tx = filter (occ pat tx) [0..<Suc (length tx)]"

text \<open>\<open>while (j <= n)\<close>: \<open>probe\<close> says whether window \<open>j\<close> matches, how far to move and what to remember.\<close>

partial_function (option) window_loop ::
  "('s \<Rightarrow> nat \<Rightarrow> (bool \<times> nat \<times> 's) option) \<Rightarrow> int \<Rightarrow> 's \<Rightarrow> nat \<Rightarrow> nat list \<Rightarrow> nat list option" where
  "window_loop probe n s j r =
    (if int j \<le> n then
       do { (hit, shift, s) \<leftarrow> probe s j;
            window_loop probe n s (j + shift) (if hit then r @ [j] else r) }
     else Some r)"

declare window_loop.simps [code]

section \<open>Facts\<close>

lemma occ_nth: "occ pat tx j \<longleftrightarrow> j + length pat \<le> length tx \<and> (\<forall>i<length pat. tx ! (j + i) = pat ! i)"
  by (auto simp: occ_def list_eq_iff_nth_eq)

lemma occ_suffix:
  assumes "j + length pat \<le> length tx"
  shows "occ pat tx j \<longleftrightarrow> suffix pat (take (j + length pat) tx)"
proof -
  have l: "length (take (length pat) (drop j tx)) = length pat" using assms by simp
  have "suffix pat (take j tx @ take (length pat) (drop j tx)) \<longleftrightarrow> take (length pat) (drop j tx) = pat"
    unfolding suffix_def using append_eq_append_conv [OF disjI2 [OF l]] by auto
  then show ?thesis using assms by (simp add: occ_def take_add)
qed

lemma set_occurrences [simp]: "set (occurrences pat tx) = {j. occ pat tx j}"
  by (auto simp: occurrences_def occ_def simp del: upt_Suc)

lemma upt_split: "i \<le> j \<Longrightarrow> j \<le> k \<Longrightarrow> [i..<k] = [i..<j] @ [j..<k]"
  using upt_add_eq_append [of i j "k - j"] by simp

text \<open>An algorithm that moves on from every window and judges each of them rightly reports occurrences only.\<close>

locale window_scan =
  fixes pat tx :: "'a list" and probe :: "'s \<Rightarrow> nat \<Rightarrow> (bool \<times> nat \<times> 's) option" and good :: "nat \<Rightarrow> 's \<Rightarrow> bool"
  assumes probe: "good j s \<Longrightarrow> j + length pat \<le> length tx \<Longrightarrow> \<exists>k s'. probe s j = Some (occ pat tx j, k, s') \<and> 0 < k \<and> good (j + k) s'"
begin

lemma window_loop_sound:
  assumes "good j s"
  shows "\<exists>rs. window_loop probe (int (length tx) - int (length pat)) s j r = Some (r @ rs) \<and> sorted_wrt (<) rs \<and> (\<forall>p\<in>set rs. j \<le> p \<and> occ pat tx p)"
  using assms
proof (induction "Suc (length tx) - j" arbitrary: j s r rule: less_induct)
  case less
  let ?n = "int (length tx) - int (length pat)"
  show ?case
  proof (cases "int j \<le> ?n")
    case False
    then show ?thesis by (intro exI [of _ "[]"]) (subst window_loop.simps, simp)
  next
    case True
    then have j: "j + length pat \<le> length tx" by simp
    obtain k s' where k: "probe s j = Some (occ pat tx j, k, s')" "0 < k" "good (j + k) s'"
      using probe [OF less.prems j] by blast
    let ?h = "if occ pat tx j then [j] else []"
    obtain rs where rs: "window_loop probe ?n s' (j + k) (r @ ?h) = Some ((r @ ?h) @ rs)" "sorted_wrt (<) rs" "\<forall>p\<in>set rs. j + k \<le> p \<and> occ pat tx p"
      using less.hyps [of "j + k" s' "r @ ?h"] k(2,3) j by fastforce
    have "window_loop probe ?n s j r = window_loop probe ?n s' (j + k) (r @ ?h)"
      using True k(1) by (subst window_loop.simps) simp
    then show ?thesis using rs k(2) by (intro exI [of _ "?h @ rs"]) fastforce
  qed
qed

end

text \<open>When no occurrence is passed over, all of them are reported.\<close>

locale window_search = window_scan +
  assumes skip: "good j s \<Longrightarrow> j + length pat \<le> length tx \<Longrightarrow> probe s j = Some (h, k, s') \<Longrightarrow> j < i \<Longrightarrow> i < j + k \<Longrightarrow> \<not> occ pat tx i"
begin

lemma window_loop_finds:
  assumes "good j s"
  shows "window_loop probe (int (length tx) - int (length pat)) s j r = Some (r @ filter (occ pat tx) [j..<Suc (length tx)])"
  using assms
proof (induction "Suc (length tx) - j" arbitrary: j s r rule: less_induct)
  case less
  let ?n = "int (length tx) - int (length pat)"
  show ?case
  proof (cases "int j \<le> ?n")
    case False
    then have "filter (occ pat tx) [j..<Suc (length tx)] = []" by (auto simp: filter_empty_conv occ_def)
    then show ?thesis using False by (subst window_loop.simps) simp
  next
    case True
    then have j: "j + length pat \<le> length tx" by simp
    obtain k s' where k: "probe s j = Some (occ pat tx j, k, s')" "0 < k" "good (j + k) s'" "\<forall>i. j < i \<longrightarrow> i < j + k \<longrightarrow> \<not> occ pat tx i"
      using probe [OF less.prems j] skip [OF less.prems j] by blast
    have e: "filter (occ pat tx) [j..<Suc (length tx)] = (if occ pat tx j then [j] else []) @ filter (occ pat tx) [j + k..<Suc (length tx)]"
    proof (cases "j + k \<le> Suc (length tx)")
      case le: True
      have "[j..<Suc (length tx)] = j # [Suc j..<j + k] @ [j + k..<Suc (length tx)]"
        using upt_split [of j "j + k" "Suc (length tx)"] upt_conv_Cons [of j "j + k"] k(2) le by simp
      moreover have "filter (occ pat tx) [Suc j..<j + k] = []" using k(4) by (auto simp: filter_empty_conv)
      ultimately show ?thesis by simp
    next
      case gt: False
      have "[j..<Suc (length tx)] = j # [Suc j..<Suc (length tx)]" using j by (simp add: upt_conv_Cons del: upt_Suc)
      moreover have "filter (occ pat tx) [Suc j..<Suc (length tx)] = []" using k(4) gt by (auto simp: filter_empty_conv simp del: upt_Suc)
      ultimately show ?thesis using gt by (simp del: upt_Suc)
    qed
    have "window_loop probe ?n s' (j + k) (if occ pat tx j then r @ [j] else r) =
        Some ((if occ pat tx j then r @ [j] else r) @ filter (occ pat tx) [j + k..<Suc (length tx)])"
      using less.hyps [OF _ k(3)] k(2) j by (simp del: upt_Suc)
    then show ?thesis using True k(1) by (subst window_loop.simps) (simp add: e del: upt_Suc)
  qed
qed

lemma window_loop_all: "good 0 s \<Longrightarrow> window_loop probe (int (length tx) - int (length pat)) s 0 [] = Some (occurrences pat tx)"
  using window_loop_finds [of 0 s "[]"] by (simp add: occurrences_def del: upt_Suc)

end

end
