(* ===== verification/Kmp.thy ===== *)
theory Kmp
  imports Str_Search
begin

text \<open>
  The Knuth-Morris-Pratt search of \<open>inc/utils/strmatch.h\<close> (class \<open>kmp_search\<close>). Offsets and lengths never leave the range of \<open>int\<close>: they
  are at most the length of the text. \<open>None\<close> is an access outside an array or a loop that does not end.
\<close>

record 'a kmp_search =
  k_pat :: "'a list"
  k_prefix_tab :: "nat list"

text \<open>The inner loop and the comparison after it, common to both users of the table.\<close>

partial_function (option) fall_back :: "'a list \<Rightarrow> nat list \<Rightarrow> 'a \<Rightarrow> nat \<Rightarrow> nat option" where
  "fall_back pat tab c k =
    (if k > 0 then
       do { x \<leftarrow> get_at pat k;
            if x \<noteq> c then do { k \<leftarrow> get_at tab (k - 1); fall_back pat tab c k } else Some k }
     else Some k)"

declare fall_back.simps [code]

definition kmp_next :: "'a list \<Rightarrow> nat list \<Rightarrow> 'a \<Rightarrow> nat \<Rightarrow> nat option" where
  "kmp_next pat tab c k = do { k \<leftarrow> fall_back pat tab c k; x \<leftarrow> get_at pat k; Some (if x = c then k + 1 else k) }"

fun prefix_loop :: "'a list \<Rightarrow> nat \<Rightarrow> nat \<Rightarrow> nat \<Rightarrow> nat list \<Rightarrow> nat list option" where
  "prefix_loop pat 0 k q tab = Some tab"
| "prefix_loop pat (Suc left) k q tab =
    do { c \<leftarrow> get_at pat q; k \<leftarrow> kmp_next pat tab c k; tab \<leftarrow> put_at tab q k; prefix_loop pat left k (q + 1) tab }"

definition calc_prefix_table :: "'a list \<Rightarrow> nat list \<Rightarrow> nat list option" where
  "calc_prefix_table pat tab = prefix_loop pat (length pat - 1) 0 1 tab"

definition kmp_search_new :: "'a list \<Rightarrow> int \<Rightarrow> (exn + 'a kmp_search) option" where
  "kmp_search_new p plen =
    (if plen < 0 then Some (Inl Length_error)
     else if length p < nat plen then None
     else do { let pat = take (nat plen) p;
               tab \<leftarrow> calc_prefix_table pat (replicate (nat plen) 0);
               Some (Inr \<lparr>k_pat = pat, k_prefix_tab = tab\<rparr>) })"

text \<open>The offset of the match, when there is one; \<open>left\<close> elements from \<open>i\<close> on are left.\<close>

fun match_loop :: "'a kmp_search \<Rightarrow> 'a list \<Rightarrow> nat \<Rightarrow> nat \<Rightarrow> nat \<Rightarrow> nat option option" where
  "match_loop K tx 0 i q = Some None"
| "match_loop K tx (Suc left) i q =
    do { c \<leftarrow> get_at tx i;
         q \<leftarrow> kmp_next (k_pat K) (k_prefix_tab K) c q;
         if q = length (k_pat K) then Some (Some (i + 1 - length (k_pat K)))
         else match_loop K tx left (i + 1) q }"

definition kmp_match :: "'a kmp_search \<Rightarrow> 'a list \<Rightarrow> int \<Rightarrow> (exn + nat option) option" where
  "kmp_match K tx txlen = (if txlen < 0 then Some (Inl Length_error) else map_option Inr (match_loop K tx (nat txlen) 0 0))"

text \<open>\<open>tx\<close> is the rest of the text, \<open>off\<close> how much of it is consumed, \<open>r\<close> what was found so far.\<close>

partial_function (option) kmp_loop :: "'a kmp_search \<Rightarrow> 'a list \<Rightarrow> int \<Rightarrow> nat \<Rightarrow> nat list \<Rightarrow> (exn + nat list) option" where
  "kmp_loop K tx txlen off r =
    (if txlen > 0 then
       do { m \<leftarrow> kmp_match K tx txlen;
            case m of
              Inl e \<Rightarrow> Some (Inl e)
            | Inr None \<Rightarrow> Some (Inr r)
            | Inr (Some second) \<Rightarrow>
                let consume = second + length (k_pat K); matchoff = off + second in
                kmp_loop K (drop consume tx) (txlen - int consume) (off + consume) (r @ [matchoff]) }
     else Some (Inr r))"

declare kmp_loop.simps [code]

definition kmp_matchall :: "'a kmp_search \<Rightarrow> 'a list \<Rightarrow> int \<Rightarrow> (exn + nat list) option" where
  "kmp_matchall K tx txlen = kmp_loop K tx txlen 0 []"

section \<open>Longest matches\<close>

text \<open>The longest proper prefix of the pattern, below \<open>N\<close>, that ends the word \<open>w\<close>.\<close>

definition longest :: "'a list \<Rightarrow> nat \<Rightarrow> 'a list \<Rightarrow> nat \<Rightarrow> bool" where
  "longest pat N w k \<longleftrightarrow> k < N \<and> suffix (take k pat) w \<and> (\<forall>j. k < j \<longrightarrow> j < N \<longrightarrow> \<not> suffix (take j pat) w)"

definition tab_ok :: "'a list \<Rightarrow> nat list \<Rightarrow> nat \<Rightarrow> bool" where
  "tab_ok pat tab q \<longleftrightarrow> length tab = length pat \<and> (\<forall>j. 0 < j \<longrightarrow> j \<le> q \<longrightarrow> longest pat j (take j pat) (tab ! (j - 1)))"

lemma suffix_shorter:
  assumes "suffix (take k pat) w" "suffix (take j pat) w" "j \<le> k" "k \<le> length pat"
  shows "suffix (take j pat) (take k pat)"
  using assms by (auto intro: suffix_length_suffix)

lemma suffix_Suc: "k < length pat \<Longrightarrow> suffix (take (Suc k) pat) (w @ [c]) \<longleftrightarrow> suffix (take k pat) w \<and> pat ! k = c"
  by (auto simp: take_Suc_conv_app_nth)

lemma fall_back_longest:
  assumes "tab_ok pat tab k" "k < N" "N \<le> length pat" "suffix (take k pat) w" "\<forall>j. k < j \<longrightarrow> j < N \<longrightarrow> suffix (take j pat) w \<longrightarrow> pat ! j \<noteq> c"
  shows "\<exists>k'. fall_back pat tab c k = Some k' \<and> k' < N \<and> suffix (take k' pat) w \<and> (k' = 0 \<or> pat ! k' = c) \<and>
    (\<forall>j. k' < j \<longrightarrow> j < N \<longrightarrow> suffix (take j pat) w \<longrightarrow> pat ! j \<noteq> c)"
  using assms
proof (induction k rule: less_induct)
  case (less k)
  show ?case
  proof (cases "k > 0 \<and> pat ! k \<noteq> c")
    case False
    then show ?thesis using less.prems by (subst fall_back.simps) (auto simp: mem_simps)
  next
    case True
    let ?k = "tab ! (k - 1)"
    have l: "longest pat k (take k pat) ?k" "k - 1 < length tab" using less.prems(1-3) True by (auto simp: tab_ok_def)
    then have k: "?k < k" "suffix (take ?k pat) (take k pat)" by (auto simp: longest_def)
    have "pat ! j \<noteq> c" if j: "?k < j" "j < N" "suffix (take j pat) w" for j
    proof (cases "j < k")
      case True
      then have "suffix (take j pat) (take k pat)" using suffix_shorter [OF less.prems(4) j(3)] less.prems(2,3) by simp
      then show ?thesis using l(1) True j(1) by (auto simp: longest_def)
    next
      case False
      then show ?thesis using less.prems(5) j True by (cases "j = k") auto
    qed
    moreover have "tab_ok pat tab ?k" using less.prems(1) k(1) by (simp add: tab_ok_def)
    moreover have "suffix (take ?k pat) w" using k(2) less.prems(4) suffix_order.trans by blast
    ultimately have "\<exists>k'. fall_back pat tab c ?k = Some k' \<and> k' < N \<and> suffix (take k' pat) w \<and> (k' = 0 \<or> pat ! k' = c) \<and>
      (\<forall>j. k' < j \<longrightarrow> j < N \<longrightarrow> suffix (take j pat) w \<longrightarrow> pat ! j \<noteq> c)"
      using less.IH [OF k(1)] k(1) less.prems(2,3) by auto
    then show ?thesis using True less.prems(2,3) l(2) by (subst fall_back.simps) (auto simp: mem_simps)
  qed
qed

text \<open>One more element of the word.\<close>

lemma kmp_next_longest:
  assumes "tab_ok pat tab k" "longest pat N w k" "N \<le> length pat"
  shows "\<exists>k'. kmp_next pat tab c k = Some k' \<and> longest pat (Suc N) (w @ [c]) k'"
proof -
  have k: "k < N" "suffix (take k pat) w" "\<forall>j. k < j \<longrightarrow> j < N \<longrightarrow> \<not> suffix (take j pat) w" using assms(2) by (auto simp: longest_def)
  obtain k' where k': "fall_back pat tab c k = Some k'" "k' < N" "suffix (take k' pat) w" "k' = 0 \<or> pat ! k' = c"
    "\<forall>j. k' < j \<longrightarrow> j < N \<longrightarrow> suffix (take j pat) w \<longrightarrow> pat ! j \<noteq> c"
    using fall_back_longest [OF assms(1) k(1) assms(3) k(2), of c] k(3) by blast
  let ?r = "if pat ! k' = c then k' + 1 else k'"
  have "\<not> suffix (take j pat) (w @ [c])" if j: "?r < j" "j < Suc N" for j
  proof -
    obtain i where i: "j = Suc i" using j(1) by (cases j) auto
    then have "suffix (take i pat) w \<longrightarrow> pat ! i \<noteq> c" using k'(4,5) j by (cases "i = k'") (auto split: if_splits)
    then show ?thesis using i j(2) assms(3) suffix_Suc [of i pat w c] by (metis Suc_less_eq less_le_trans)
  qed
  moreover have "suffix (take ?r pat) (w @ [c])" using k'(2-4) assms(3) suffix_Suc [of k' pat w c] by auto
  ultimately have "longest pat (Suc N) (w @ [c]) ?r" using k'(2) by (auto simp: longest_def)
  then show ?thesis using k'(1,2) assms(3) by (simp add: kmp_next_def mem_simps)
qed

lemma tab_ok_extend:
  assumes "tab_ok pat tab q" "q < length pat" "longest pat (Suc q) (take (Suc q) pat) k"
  shows "tab_ok pat (tab[q := k]) (Suc q)"
  using assms by (auto simp: tab_ok_def nth_list_update le_Suc_eq)

lemma prefix_loop_ok:
  assumes "tab_ok pat tab q" "longest pat q (take q pat) k" "q + left = length pat"
  shows "\<exists>tab'. prefix_loop pat left k q tab = Some tab' \<and> tab_ok pat tab' (length pat)"
  using assms
proof (induction left arbitrary: k q tab)
  case (Suc left)
  let ?c = "pat ! q"
  have q: "q < length pat" "length tab = length pat" using Suc.prems by (auto simp: tab_ok_def)
  have t: "tab_ok pat tab k" using Suc.prems(1,2) by (auto simp: tab_ok_def longest_def)
  obtain k' where k': "kmp_next pat tab ?c k = Some k'" "longest pat (Suc q) (take (Suc q) pat) k'"
    using kmp_next_longest [OF t Suc.prems(2), of ?c] q(1) by (auto simp: take_Suc_conv_app_nth)
  then show ?case
    using Suc.IH [OF tab_ok_extend [OF Suc.prems(1) q(1) k'(2)] k'(2)] q Suc.prems(3) by (simp add: mem_simps)
qed simp

lemma calc_prefix_table_ok:
  assumes "pat \<noteq> []"
  shows "\<exists>tab. calc_prefix_table pat (replicate (length pat) 0) = Some tab \<and> tab_ok pat tab (length pat)"
proof -
  have o: "longest pat 1 (take 1 pat) 0" by (auto simp: longest_def)
  moreover have "tab_ok pat (replicate (length pat) 0) 1" using o assms by (auto simp: tab_ok_def le_Suc_eq)
  ultimately show ?thesis unfolding calc_prefix_table_def using assms by (intro prefix_loop_ok) (auto simp: Suc_le_eq)
qed

section \<open>Searching\<close>

definition kmp_ok :: "'a list \<Rightarrow> 'a kmp_search \<Rightarrow> bool" where
  "kmp_ok pat K \<longleftrightarrow> k_pat K = pat \<and> tab_ok pat (k_prefix_tab K) (length pat)"

definition first_occ :: "'a list \<Rightarrow> 'a list \<Rightarrow> nat option \<Rightarrow> bool" where
  "first_occ pat tx r \<longleftrightarrow> (case r of None \<Rightarrow> \<forall>j. \<not> occ pat tx j | Some p \<Rightarrow> occ pat tx p \<and> (\<forall>j<p. \<not> occ pat tx j))"

lemma match_loop_ok:
  assumes "kmp_ok pat K" "longest pat (length pat) (take i tx) q" "i + left = length tx" "\<forall>j. j + length pat \<le> i \<longrightarrow> \<not> occ pat tx j"
  shows "\<exists>r. match_loop K (tx @ ys) left i q = Some r \<and> first_occ pat tx r"
  using assms
proof (induction left arbitrary: i q)
  case 0
  then have "\<not> occ pat tx j" for j by (auto simp: occ_def)
  then show ?case by (simp add: first_occ_def)
next
  case (Suc left)
  let ?m = "length pat"
  have i: "i < length tx" using Suc.prems(3) by simp
  then have c: "get_at (tx @ ys) i = Some (tx ! i)" by (simp add: get_at_def nth_append)
  have K: "k_pat K = pat" "tab_ok pat (k_prefix_tab K) q" using Suc.prems(1,2) by (auto simp: kmp_ok_def tab_ok_def longest_def)
  obtain q' where q': "kmp_next pat (k_prefix_tab K) (tx ! i) q = Some q'" "longest pat (Suc ?m) (take (Suc i) tx) q'"
    using kmp_next_longest [OF K(2) Suc.prems(2) order_refl, of "tx ! i"] i by (auto simp: take_Suc_conv_app_nth)
  have e: "occ pat tx j \<longleftrightarrow> q' = ?m" if j: "j + ?m = Suc i" for j
  proof -
    have "occ pat tx j \<longleftrightarrow> suffix (take ?m pat) (take (Suc i) tx)" using occ_suffix [of j pat tx] i j by simp
    moreover have "q' < ?m \<Longrightarrow> \<not> suffix (take ?m pat) (take (Suc i) tx)" "q' \<le> ?m" "suffix (take q' pat) (take (Suc i) tx)"
      using q'(2) unfolding longest_def by auto
    ultimately show ?thesis by (cases "q' = ?m") auto
  qed
  show ?case
  proof (cases "q' = ?m")
    case True
    then have "suffix pat (take (Suc i) tx)" using q'(2) by (simp add: longest_def)
    then have l: "?m \<le> Suc i" using suffix_length_le i by fastforce
    have "\<not> occ pat tx j" if "j < Suc i - ?m" for j using Suc.prems(4) that by simp
    then have "first_occ pat tx (Some (Suc i - ?m))" using e [of "Suc i - ?m"] True l by (simp add: first_occ_def)
    then show ?thesis using True by (simp add: c K q' del: get_at_eq_Some)
  next
    case False
    then have n: "\<forall>j. j + ?m \<le> i + 1 \<longrightarrow> \<not> occ pat tx j" using e Suc.prems(4) by (metis Suc_eq_plus1 le_Suc_eq)
    have "longest pat ?m (take (i + 1) tx) q'" using q'(2) False by (auto simp: longest_def)
    then show ?thesis using Suc.IH [OF Suc.prems(1) _ _ n, of q'] Suc.prems(3) False by (simp add: c K q' del: get_at_eq_Some)
  qed
qed

lemma kmp_match_ok:
  assumes "kmp_ok pat K" "pat \<noteq> []"
  shows "\<exists>r. kmp_match K (tx @ ys) (int (length tx)) = Some (Inr r) \<and> first_occ pat tx r"
proof -
  have "longest pat (length pat) (take 0 tx) 0" using assms(2) by (auto simp: longest_def)
  moreover have "\<forall>j. j + length pat \<le> 0 \<longrightarrow> \<not> occ pat tx j" using assms(2) by simp
  ultimately show ?thesis using match_loop_ok [OF assms(1), of 0 tx 0 "length tx" ys] by (auto simp: kmp_match_def)
qed

text \<open>The occurrences a left-to-right search without overlaps reports.\<close>

definition leftmost :: "'a list \<Rightarrow> 'a list \<Rightarrow> nat list \<Rightarrow> bool" where
  "leftmost pat tx rs \<longleftrightarrow> sorted_wrt (\<lambda>a b. a + length pat \<le> b) rs \<and> (\<forall>p\<in>set rs. occ pat tx p) \<and>
    (\<forall>p. occ pat tx p \<longrightarrow> (\<exists>p0\<in>set rs. p0 \<le> p \<and> p < p0 + length pat))"

lemma occ_drop: "n \<le> length tx \<Longrightarrow> occ pat (drop n tx) p \<longleftrightarrow> occ pat tx (n + p)"
  by (auto simp: occ_def add.commute add.left_commute)

lemma leftmost_Cons:
  assumes "occ pat tx p" "\<forall>j<p. \<not> occ pat tx j" "leftmost pat (drop (p + length pat) tx) rs"
  shows "leftmost pat tx (p # map ((+) (p + length pat)) rs)"
proof -
  let ?n = "p + length pat"
  have n: "?n \<le> length tx" using assms(1) by (simp add: occ_def)
  have "\<exists>p0\<in>set (p # map ((+) ?n) rs). p0 \<le> j \<and> j < p0 + length pat" if j: "occ pat tx j" for j
  proof (cases "j < ?n")
    case True
    then show ?thesis using assms(2) j by (auto simp: not_less [symmetric])
  next
    case False
    then have "occ pat (drop ?n tx) (j - ?n)" using j occ_drop [OF n, of pat "j - ?n"] by simp
    then obtain p0 where "p0 \<in> set rs" "p0 \<le> j - ?n" "j - ?n < p0 + length pat" using assms(3) by (auto simp: leftmost_def)
    then show ?thesis using False by (intro bexI [of _ "?n + p0"]) auto
  qed
  then show ?thesis using assms(1,3) occ_drop [OF n, of pat] by (auto simp: leftmost_def sorted_wrt_map)
qed

lemma kmp_loop_ok:
  assumes "kmp_ok pat K" "pat \<noteq> []"
  shows "\<exists>rs. kmp_loop K (tx @ ys) (int (length tx)) off r = Some (Inr (r @ map ((+) off) rs)) \<and> leftmost pat tx rs"
proof (induction "length tx" arbitrary: tx off r rule: less_induct)
  case less
  obtain m where m: "kmp_match K (tx @ ys) (int (length tx)) = Some (Inr m)" "first_occ pat tx m" using kmp_match_ok [OF assms] by blast
  have K: "k_pat K = pat" using assms(1) by (simp add: kmp_ok_def)
  show ?case
  proof (cases "tx = [] \<or> m = None")
    case True
    then have "leftmost pat tx []" using m(2) assms(2) by (auto simp: leftmost_def first_occ_def occ_def)
    then show ?thesis using True m(1) by (intro exI [of _ "[]"]) (subst kmp_loop.simps, auto)
  next
    case False
    then obtain p where p: "m = Some p" "tx \<noteq> []" by auto
    let ?n = "p + length pat"
    have f: "occ pat tx p" "\<forall>j<p. \<not> occ pat tx j" using m(2) p(1) by (auto simp: first_occ_def)
    then have n: "?n \<le> length tx" "0 < ?n" using assms(2) by (auto simp: occ_def)
    obtain rs where rs: "kmp_loop K (drop ?n tx @ ys) (int (length (drop ?n tx))) (off + ?n) (r @ [off + p])
        = Some (Inr ((r @ [off + p]) @ map ((+) (off + ?n)) rs))" "leftmost pat (drop ?n tx) rs"
      using less.hyps [of "drop ?n tx" "off + ?n" "r @ [off + p]"] n p(2) by auto
    have "kmp_loop K (tx @ ys) (int (length tx)) off r = kmp_loop K (drop ?n tx @ ys) (int (length (drop ?n tx))) (off + ?n) (r @ [off + p])"
      using m(1) p n(1) by (subst kmp_loop.simps) (simp add: K Let_def of_nat_diff)
    then have "kmp_loop K (tx @ ys) (int (length tx)) off r = Some (Inr (r @ map ((+) off) (p # map ((+) ?n) rs)))"
      unfolding rs(1) by (simp add: o_def add.assoc)
    then show ?thesis using leftmost_Cons [OF f rs(2)] by blast
  qed
qed

text \<open>
  Building the searcher and searching a text, in general: \<open>matchall\<close> reports the occurrences from left to right without overlaps: every reported offset is an
  occurrence, two reported offsets are at least the length of the pattern apart, and every occurrence overlaps a reported one that does not start after it.
\<close>

lemma kmp_finds_leftmost:
  assumes "pat \<noteq> []"
  shows "\<exists>K rs r. kmp_search_new (pat @ xs) (int (length pat)) = Some (Inr K) \<and>
    kmp_match K (tx @ ys) (int (length tx)) = Some (Inr r) \<and> first_occ pat tx r \<and>
    kmp_matchall K (tx @ ys) (int (length tx)) = Some (Inr rs) \<and> leftmost pat tx rs"
proof -
  obtain tab where tab: "calc_prefix_table pat (replicate (length pat) 0) = Some tab" "tab_ok pat tab (length pat)"
    using calc_prefix_table_ok [OF assms] by blast
  define K where "K = \<lparr>k_pat = pat, k_prefix_tab = tab\<rparr>"
  have ok: "kmp_ok pat K" using tab(2) by (simp add: K_def kmp_ok_def)
  have "kmp_search_new (pat @ xs) (int (length pat)) = Some (Inr K)" using tab(1) by (simp add: kmp_search_new_def K_def)
  moreover obtain r where "kmp_match K (tx @ ys) (int (length tx)) = Some (Inr r)" "first_occ pat tx r"
    using kmp_match_ok [OF ok assms] by blast
  moreover obtain rs where "kmp_matchall K (tx @ ys) (int (length tx)) = Some (Inr rs)" "leftmost pat tx rs"
    using kmp_loop_ok [OF ok assms, of tx ys 0 "[]"] by (auto simp: kmp_matchall_def map_idI)
  ultimately show ?thesis by blast
qed

text \<open>Occurrences that do not overlap are all reported.\<close>

lemma leftmost_all:
  assumes "leftmost pat tx rs" "pat \<noteq> []" "\<forall>i j. occ pat tx i \<longrightarrow> occ pat tx j \<longrightarrow> i < j \<longrightarrow> i + length pat \<le> j"
  shows "rs = occurrences pat tx"
proof (rule sorted_distinct_set_unique)
  have s: "sorted_wrt (<) rs"
    using assms(1,2) unfolding leftmost_def by (auto elim!: sorted_wrt_mono_rel [rotated] simp: neq_Nil_conv)
  then show "sorted rs" "distinct rs" by (simp_all add: strict_sorted_iff)
  show "sorted (occurrences pat tx)" "distinct (occurrences pat tx)" by (simp_all add: occurrences_def sorted_wrt_filter del: upt_Suc)
  have "j \<in> set rs" if j: "occ pat tx j" for j
  proof -
    obtain p where p: "p \<in> set rs" "p \<le> j" "j < p + length pat" "occ pat tx p" using assms(1) j unfolding leftmost_def by blast
    then have "p = j" using assms(3) j by (metis le_neq_implies_less not_le)
    then show ?thesis using p(1) by simp
  qed
  then show "set rs = set (occurrences pat tx)" using assms(1) by (auto simp: leftmost_def)
qed

text \<open>
  C18: Knuth-Morris-Pratt. For a pattern that is not empty, building the searcher and searching a text end without an access outside the pattern, its table or the
  text; \<open>match\<close> returns the first occurrence or that there is none; what \<open>matchall\<close> returns is ascending and consists of occurrences, and if the occurrences in
  the text do not overlap it is all of them.
\<close>

theorem kmp_finds_all:
  assumes "pat \<noteq> []"
  shows "\<exists>K rs r. kmp_search_new (pat @ xs) (int (length pat)) = Some (Inr K) \<and>
    kmp_match K (tx @ ys) (int (length tx)) = Some (Inr r) \<and> first_occ pat tx r \<and>
    kmp_matchall K (tx @ ys) (int (length tx)) = Some (Inr rs) \<and> sorted_wrt (<) rs \<and> (\<forall>p \<in> set rs. occ pat tx p) \<and>
    ((\<forall>i j. occ pat tx i \<longrightarrow> occ pat tx j \<longrightarrow> i < j \<longrightarrow> i + length pat \<le> j) \<longrightarrow> rs = occurrences pat tx)"
proof -
  obtain K rs r where K: "kmp_search_new (pat @ xs) (int (length pat)) = Some (Inr K)" "kmp_match K (tx @ ys) (int (length tx)) = Some (Inr r)"
    "first_occ pat tx r" "kmp_matchall K (tx @ ys) (int (length tx)) = Some (Inr rs)" and l: "leftmost pat tx rs"
    using kmp_finds_leftmost [OF assms] by blast
  have "sorted_wrt (<) rs"
    using l assms unfolding leftmost_def by (auto elim!: sorted_wrt_mono_rel [rotated] simp: neq_Nil_conv)
  moreover have "\<forall>p \<in> set rs. occ pat tx p" using l by (simp add: leftmost_def)
  ultimately show ?thesis using K leftmost_all [OF l assms] by blast
qed

theorem kmp_finds_all_witness:
  "\<exists>K. kmp_search_new ''ab'' 2 = Some (Inr K) \<and> kmp_matchall K ''abxabab'' 7 = Some (Inr [0, 3, 5])"
proof -
  have "occurrences ''ab'' ''abxabab'' = [0, 3, 5]" by code_simp
  moreover from this have o: "occ ''ab'' ''abxabab'' i \<longleftrightarrow> i = 0 \<or> i = 3 \<or> i = 5" for i
    using set_occurrences [of "''ab''" "''abxabab''"] by (simp add: set_eq_iff)
  have "\<forall>i j. occ ''ab'' ''abxabab'' i \<longrightarrow> occ ''ab'' ''abxabab'' j \<longrightarrow> i < j \<longrightarrow> i + length ''ab'' \<le> j" unfolding o by auto
  ultimately show ?thesis using kmp_finds_all [of "''ab''" "[]" "''abxabab''" "[]"] by auto
qed

text \<open>Overlapping occurrences are not all reported, and an empty pattern is compared at an element it does not have.\<close>

theorem kmp_skips_overlaps:
  "(case kmp_search_new ''aa'' 2 of Some (Inr K) \<Rightarrow> kmp_matchall K ''aaa'' 3 = Some (Inr [0]) | _ \<Rightarrow> False) \<and> occurrences ''aa'' ''aaa'' = [0, 1] \<and>
   (case kmp_search_new [] 0 of Some (Inr K) \<Rightarrow> kmp_matchall K ''a'' 1 = None | _ \<Rightarrow> False)"
  by code_simp

end
