(* ===== verification/Rabin_Karp.thy ===== *)
theory Rabin_Karp
  imports Str_Search
begin

text \<open>
  The Rabin-Karp search of \<open>inc/utils/strmatch.h\<close> (class \<open>rabin_karp_search\<close>). The hash is an \<open>int\<close>: arithmetic on it that leaves the range of an \<open>int\<close>, and a
  left shift of a negative value or out of the range, are undefined (\<open>None\<close>). \<open>ix\<close> is the conversion of an element to \<open>int\<close>.
\<close>

section \<open>Arithmetic on \<open>int\<close>\<close>

definition as_int :: "int \<Rightarrow> int option" where
  "as_int x = (if - (2 ^ 31) \<le> x \<and> x < 2 ^ 31 then Some x else None)"

definition shl_int :: "int \<Rightarrow> nat \<Rightarrow> int option" where
  "shl_int x k = (if x < 0 \<or> 32 \<le> k then None else as_int (x * 2 ^ k))"

lemma as_int_pos [simp]: "0 \<le> x \<Longrightarrow> x < 2 ^ 31 \<Longrightarrow> as_int x = Some x"
  by (simp add: as_int_def)

section \<open>The search\<close>

definition rk_search_new :: "'a list \<Rightarrow> int \<Rightarrow> (exn + 'a list) option" where
  "rk_search_new p plen =
    (if plen < 0 then Some (Inl Length_error)
     else if length p < nat plen then None
     else Some (Inr (take (nat plen) p)))"

text \<open>The first hashes; \<open>left\<close> elements from \<open>i\<close> on are left.\<close>

fun rk_hash :: "('a \<Rightarrow> int) \<Rightarrow> 'a list \<Rightarrow> nat \<Rightarrow> nat \<Rightarrow> int \<Rightarrow> int option" where
  "rk_hash ix m 0 i h = Some h"
| "rk_hash ix m (Suc left) i h =
    do { c \<leftarrow> get_at m i; s \<leftarrow> shl_int h 1; h \<leftarrow> as_int (s + ix c); rk_hash ix m left (i + 1) h }"

definition rehash :: "int \<Rightarrow> int \<Rightarrow> int \<Rightarrow> int \<Rightarrow> int option" where
  "rehash d a b h = do { t \<leftarrow> as_int (a * d); t \<leftarrow> as_int (h - t); t \<leftarrow> shl_int t 1; as_int (t + b) }"

text \<open>\<open>memcmp\<close> of the pattern and the window at \<open>j\<close>.\<close>

definition same_window :: "'a list \<Rightarrow> 'a list \<Rightarrow> nat \<Rightarrow> bool option" where
  "same_window pat tx j = (if length tx < j + length pat then None else Some (take (length pat) (drop j tx) = pat))"

definition rk_probe :: "('a \<Rightarrow> int) \<Rightarrow> 'a list \<Rightarrow> int \<Rightarrow> int \<Rightarrow> 'a list \<Rightarrow> int \<Rightarrow> nat \<Rightarrow> (bool \<times> nat \<times> int) option" where
  "rk_probe ix pat d h_pat tx h_txt j =
    do { hit \<leftarrow> (if h_pat = h_txt then same_window pat tx j else Some False);
         a \<leftarrow> get_at tx j;
         b \<leftarrow> get_at tx (j + length pat);
         h_txt \<leftarrow> rehash d (ix a) (ix b) h_txt;
         Some (hit, 1, h_txt) }"

text \<open>A shift by \<open>m_patlen - 1\<close> is undefined for the empty pattern.\<close>

definition rk_matchall :: "('a \<Rightarrow> int) \<Rightarrow> 'a list \<Rightarrow> 'a list \<Rightarrow> int \<Rightarrow> nat list option" where
  "rk_matchall ix pat tx txlen =
    (if pat = [] then None
     else do {
       d \<leftarrow> shl_int 1 (length pat - 1);
       h_pat \<leftarrow> rk_hash ix pat (length pat) 0 0;
       h_txt \<leftarrow> rk_hash ix tx (length pat) 0 0;
       window_loop (rk_probe ix pat d h_pat tx) (txlen - int (length pat)) h_txt 0 [] })"

section \<open>The rolling hash\<close>

definition window_hash :: "('a \<Rightarrow> int) \<Rightarrow> 'a list \<Rightarrow> int" where
  "window_hash ix w = foldl (\<lambda>h c. 2 * h + ix c) 0 w"

lemma window_hash_snoc: "window_hash ix (w @ [c]) = 2 * window_hash ix w + ix c"
  by (simp add: window_hash_def)

lemma foldl_hash: "foldl (\<lambda>h c. 2 * h + ix c) h w = h * 2 ^ length w + window_hash ix w"
proof (induction w arbitrary: h)
  case (Cons c w)
  show ?case unfolding window_hash_def using Cons [of "2 * h + ix c"] Cons [of "ix c"] by (simp add: algebra_simps)
qed (simp add: window_hash_def)

lemma window_hash_Cons: "window_hash ix (c # w) = ix c * 2 ^ length w + window_hash ix w"
  using foldl_hash [of ix "ix c" w] by (simp add: window_hash_def)

text \<open>Elements from 0 to \<open>B\<close>, for which the hash of \<open>m\<close> of them stays in the range of an \<open>int\<close>.\<close>

definition hash_fits :: "('a \<Rightarrow> int) \<Rightarrow> int \<Rightarrow> nat \<Rightarrow> 'a set \<Rightarrow> bool" where
  "hash_fits ix B m S \<longleftrightarrow> 0 < B \<and> B * (2 ^ m - 1) < 2 ^ 31 \<and> (\<forall>c \<in> S. 0 \<le> ix c \<and> ix c \<le> B)"

lemma window_hash_bound:
  assumes "\<forall>c \<in> set w. 0 \<le> ix c \<and> ix c \<le> B"
  shows "0 \<le> window_hash ix w \<and> window_hash ix w \<le> B * (2 ^ length w - 1)"
  using assms
proof (induction w rule: rev_induct)
  case (snoc c w)
  then have "0 \<le> ix c" "ix c \<le> B" "0 \<le> window_hash ix w" "window_hash ix w \<le> B * (2 ^ length w - 1)" by auto
  then show ?case by (simp add: window_hash_snoc algebra_simps)
qed (simp add: window_hash_def)

lemma hash_fits_window:
  assumes "hash_fits ix B m S" "set w \<subseteq> S" "length w \<le> m"
  shows "0 \<le> window_hash ix w" "window_hash ix w < 2 ^ 31"
proof -
  have b: "0 \<le> window_hash ix w \<and> window_hash ix w \<le> B * (2 ^ length w - 1)"
    using assms(1,2) by (intro window_hash_bound) (auto simp: hash_fits_def)
  have "(2 :: int) ^ length w \<le> 2 ^ m" using assms(3) by (intro power_increasing) simp_all
  then have "(2 :: int) ^ length w - 1 \<le> 2 ^ m - 1" by (rule diff_right_mono)
  then have "B * (2 ^ length w - 1) \<le> B * (2 ^ m - 1)" using assms(1) mult_left_mono unfolding hash_fits_def by fastforce
  moreover have "B * (2 ^ m - 1) < 2 ^ 31" using assms(1) unfolding hash_fits_def by blast
  ultimately show "0 \<le> window_hash ix w" "window_hash ix w < 2 ^ 31" using b by linarith+
qed

lemma rk_hash_eq:
  assumes fit: "hash_fits ix B n (set m)" and len: "n \<le> length m" and j: "j \<le> n"
  shows "rk_hash ix m j (n - j) (window_hash ix (take (n - j) m)) = Some (window_hash ix (take n m))"
  using j
proof (induction j)
  case (Suc j)
  let ?w = "take (n - Suc j) m" and ?c = "m ! (n - Suc j)"
  have t: "take (n - j) m = ?w @ [?c]" using Suc.prems len by (metis Suc_diff_Suc Suc_le_lessD diff_le_self le_trans less_le_trans diff_Suc_less take_Suc_conv_app_nth zero_less_Suc order_less_le_trans)
  have c: "?c \<in> set m" "set ?w \<subseteq> set m" "Suc (n - Suc j) \<le> n" using Suc.prems len set_take_subset by (simp_all add: set_take_subset)
  have w: "0 \<le> window_hash ix (?w @ [?c])" "window_hash ix (?w @ [?c]) < 2 ^ 31" "0 \<le> window_hash ix ?w"
    using hash_fits_window [OF fit, of "?w @ [?c]"] hash_fits_window(1) [OF fit, of ?w] c len by simp_all
  have "0 \<le> ix ?c" using fit c by (simp add: hash_fits_def)
  then have "shl_int (window_hash ix ?w) 1 = Some (2 * window_hash ix ?w)" using w by (simp add: shl_int_def window_hash_snoc)
  moreover have "as_int (2 * window_hash ix ?w + ix ?c) = Some (window_hash ix (take (n - j) m))"
    using w unfolding t by (simp add: window_hash_snoc)
  moreover have "n - Suc j + 1 = n - j" using Suc.prems by simp
  moreover have "get_at m (n - Suc j) = Some ?c" using Suc.prems len by (simp add: get_at_def)
  ultimately show ?case using Suc by (simp del: get_at_eq_Some)
qed simp

lemma rehash_window:
  assumes fit: "hash_fits ix B (length w) S" and S: "set w \<subseteq> S" "b \<in> S" and w: "w = a # v"
  shows "rehash (2 ^ (length w - 1)) (ix a) (ix b) (window_hash ix w) = Some (window_hash ix (v @ [b]))"
proof -
  have h: "window_hash ix w = ix a * 2 ^ (length w - 1) + window_hash ix v" using w by (simp add: window_hash_Cons)
  have "0 \<le> ix a * 2 ^ (length w - 1)" "0 \<le> ix b" using fit S w by (auto simp: hash_fits_def)
  moreover have "0 \<le> window_hash ix v" "window_hash ix w < 2 ^ 31" using hash_fits_window [OF fit] S w by auto
  moreover have "0 \<le> window_hash ix (v @ [b])" "window_hash ix (v @ [b]) < 2 ^ 31" using hash_fits_window [OF fit, of "v @ [b]"] S w by auto
  ultimately show ?thesis using h by (simp add: rehash_def shl_int_def window_hash_snoc)
qed

text \<open>The hash of the current window, as long as it lies in the text.\<close>

definition rk_good :: "('a \<Rightarrow> int) \<Rightarrow> int \<Rightarrow> 'a list \<Rightarrow> 'a list \<Rightarrow> 'a list \<Rightarrow> nat \<Rightarrow> int \<Rightarrow> bool" where
  "rk_good ix B pat tx ys j h \<longleftrightarrow> pat \<noteq> [] \<and> ys \<noteq> [] \<and> hash_fits ix B (length pat) (set (tx @ ys)) \<and>
     (j + length pat \<le> length tx \<longrightarrow> h = window_hash ix (take (length pat) (drop j tx)))"

lemma rk_probe_ok:
  assumes "rk_good ix B pat tx ys j h" "j + length pat \<le> length tx"
  shows "\<exists>k h'. rk_probe ix pat (2 ^ (length pat - 1)) (window_hash ix pat) (tx @ ys) h j = Some (occ pat tx j, k, h') \<and>
    0 < k \<and> rk_good ix B pat tx ys (j + k) h' \<and> (\<forall>i. j < i \<longrightarrow> i < j + k \<longrightarrow> \<not> occ pat tx i)"
proof -
  let ?m = "length pat" and ?w = "take (length pat) (drop j tx)"
  let ?a = "(tx @ ys) ! j" and ?b = "(tx @ ys) ! (j + ?m)" and ?v = "take (?m - 1) (drop (j + 1) tx)"
  have ne: "pat \<noteq> []" "ys \<noteq> []" and h: "h = window_hash ix ?w" and fit: "hash_fits ix B ?m (set (tx @ ys))"
    using assms(1,2) by (simp_all add: rk_good_def)
  have w: "?w = ?a # ?v" "length ?w = ?m"
    using assms(2) ne(1) by (simp_all add: nth_append take_Cons' Cons_nth_drop_Suc [symmetric] neq_Nil_conv) (cases pat, simp_all)
  have l: "j + ?m < length (tx @ ys)" using assms(2) ne(2) by (cases ys) simp_all
  then have r: "get_at (tx @ ys) j = Some ?a" "get_at (tx @ ys) (j + ?m) = Some ?b" by (simp_all only: get_at_def if_True add_lessD1)
  have s: "same_window pat (tx @ ys) j = Some (occ pat tx j)" using assms(2) by (simp add: same_window_def occ_def)
  have o: "h \<noteq> window_hash ix pat \<Longrightarrow> \<not> occ pat tx j" using h by (auto simp: occ_def)
  have "?b \<in> set (tx @ ys)" using l by (rule nth_mem)
  moreover have "set ?w \<subseteq> set (tx @ ys)" by (auto dest!: in_set_takeD in_set_dropD)
  ultimately
  have hash: "rehash (2 ^ (?m - 1)) (ix ?a) (ix ?b) h = Some (window_hash ix (?v @ [?b]))"
    using rehash_window [of ix B ?w "set (tx @ ys)" ?b ?a ?v] fit w(1) unfolding w(2) h by blast
  have "rk_good ix B pat tx ys (j + 1) (window_hash ix (?v @ [?b]))"
    unfolding rk_good_def
  proof (intro conjI impI ne fit)
    assume "j + 1 + ?m \<le> length tx"
    then have "take ?m (drop (j + 1) tx) = ?v @ [?b]"
      using ne(1) by (cases pat) (simp_all add: take_Suc_conv_app_nth nth_append add.commute)
    then show "window_hash ix (?v @ [?b]) = window_hash ix (take ?m (drop (j + 1) tx))" by simp
  qed
  then show ?thesis using r s o hash by (auto simp: rk_probe_def simp del: get_at_eq_Some)
qed

interpretation rk: window_search pat tx "rk_probe ix pat (2 ^ (length pat - 1)) (window_hash ix pat) (tx @ ys)" "rk_good ix B pat tx ys"
  for pat tx ys ix B
proof unfold_locales
  fix j s h k s' i
  assume a: "rk_good ix B pat tx ys j s" "j + length pat \<le> length tx"
  note p = rk_probe_ok [OF a]
  show "\<exists>k s'. rk_probe ix pat (2 ^ (length pat - 1)) (window_hash ix pat) (tx @ ys) s j = Some (occ pat tx j, k, s') \<and> 0 < k \<and> rk_good ix B pat tx ys (j + k) s'"
    using p by blast
  show "\<not> occ pat tx i" if "rk_probe ix pat (2 ^ (length pat - 1)) (window_hash ix pat) (tx @ ys) s j = Some (h, k, s')" "j < i" "i < j + k"
    using p that by auto
qed

lemma hash_fits_length: "hash_fits ix B m S \<Longrightarrow> m \<le> 31"
proof (rule ccontr)
  assume a: "hash_fits ix B m S" "\<not> m \<le> 31"
  then have "(2 :: int) ^ 32 \<le> 2 ^ m" by (intro power_increasing) simp_all
  then have "2 ^ 32 - 1 \<le> B * (2 ^ m - 1)" using a(1) mult_mono [of 1 B "2 ^ 32 - 1" "2 ^ m - 1"] by (simp add: hash_fits_def)
  then show False using a(1) by (simp add: hash_fits_def)
qed

text \<open>
  C19: Rabin-Karp. Let the elements of the pattern and the text convert to numbers from 0 to \<open>B\<close>, where \<open>B * (2^m - 1)\<close> is below \<open>2^31\<close> for a pattern of
  \<open>m \<ge> 1\<close> elements (for bytes, up to 23 elements), and let the text be followed by at least one more readable element (as the terminator of a C string is)
  and not be shorter than the pattern counting these. Then the search runs without overflow of an \<open>int\<close> or a read out of bounds, ends, and returns exactly the
  occurrences, overlapping ones too, in ascending order.
\<close>

theorem rabin_karp_finds_all:
  assumes "pat \<noteq> []" "hash_fits ix B (length pat) (set (pat @ tx @ ys))" "ys \<noteq> []" "length pat \<le> length (tx @ ys)"
  shows "rk_search_new (pat @ xs) (int (length pat)) = Some (Inr pat) \<and>
    rk_matchall ix pat (tx @ ys) (int (length tx)) = Some (occurrences pat tx)"
proof -
  have fit: "hash_fits ix B (length pat) (set pat)" "hash_fits ix B (length pat) (set (tx @ ys))" using assms(2) by (auto simp: hash_fits_def)
  have h: "rk_hash ix pat (length pat) 0 0 = Some (window_hash ix pat)"
    "rk_hash ix (tx @ ys) (length pat) 0 0 = Some (window_hash ix (take (length pat) (tx @ ys)))"
    using rk_hash_eq [OF fit(1), of "length pat"] rk_hash_eq [OF fit(2), of "length pat"] assms(4) by (simp_all add: window_hash_def)
  have "(2 :: int) ^ (length pat - 1) < 2 ^ 31" using hash_fits_length [OF fit(1)] by (intro power_strict_increasing) auto
  then have d: "shl_int 1 (length pat - 1) = Some (2 ^ (length pat - 1))" using hash_fits_length [OF fit(1)] by (simp add: shl_int_def)
  have "rk_good ix B pat tx ys 0 (window_hash ix (take (length pat) (tx @ ys)))" using assms(1,3) fit(2) by (simp add: rk_good_def)
  then show ?thesis
    using rk.window_loop_all [of ix B pat tx ys] assms(1) d by (simp add: rk_matchall_def rk_search_new_def h)
qed

theorem rabin_karp_finds_all_witness:
  "rk_matchall (\<lambda>c. int (of_char c)) ''aa'' (''baaa'' @ [CHR 0x00]) 4 = Some (occurrences ''aa'' ''baaa'')"
proof -
  have "hash_fits (\<lambda>c. int (of_char c)) 255 (length ''aa'') (set (''aa'' @ ''baaa'' @ [CHR 0x00]))" by (simp add: hash_fits_def)
  then show ?thesis using rabin_karp_finds_all [of "''aa''" "\<lambda>c. int (of_char c)" 255 "''baaa''" "[CHR 0x00]" "[]"] by simp
qed

text \<open>With 25 letters the hash of the pattern alone overflows.\<close>

theorem rabin_karp_overflows: "rk_matchall (\<lambda>c. int (of_char c)) (replicate 25 (CHR ''z'')) (replicate 26 (CHR ''z'')) 25 = None"
  by code_simp

text \<open>The last window reads the element after the text: a text that ends with its buffer is read past its end.\<close>

lemma window_loop_faults:
  assumes "\<And>s. probe s n = None" "\<And>s j hit k s'. probe s j = Some (hit, k, s') \<Longrightarrow> k = 1" "j \<le> n"
  shows "window_loop probe (int n) s j r = None"
  using assms(3)
proof (induction "n - j" arbitrary: j s r)
  case 0
  then show ?case using assms(1) by (subst window_loop.simps) simp
next
  case (Suc d)
  have "probe s j = None \<or> (\<exists>hit s'. probe s j = Some (hit, 1, s'))" using assms(2) by (cases "probe s j") auto
  then show ?case
  proof
    assume "\<exists>hit s'. probe s j = Some (hit, 1, s')"
    then show ?thesis using Suc.hyps(1) [of "j + 1"] Suc.hyps(2) Suc.prems by (subst window_loop.simps) auto
  qed (use Suc.prems in \<open>subst window_loop.simps, simp\<close>)
qed

theorem rabin_karp_reads_past_end:
  assumes "length pat \<le> length tx"
  shows "rk_matchall ix pat tx (int (length tx)) = None"
proof -
  let ?n = "length tx - length pat"
  have p: "rk_probe ix pat d h tx s ?n = None" for d h s
    using assms by (simp add: rk_probe_def bind_eq_None_conv)
  have k: "k = 1" if "rk_probe ix pat d h tx s j = Some (hit, k, s')" for d h s j hit k s'
    using that by (auto simp: rk_probe_def bind_eq_Some_conv)
  have "window_loop (rk_probe ix pat d h tx) (int ?n) h' 0 [] = None" for d h h'
    by (rule window_loop_faults) (use p k in blast)+
  then have "window_loop (rk_probe ix pat d h tx) (int (length tx) - int (length pat)) h' 0 [] = None" for d h h' using assms by (simp add: of_nat_diff)
  then show ?thesis by (auto simp: rk_matchall_def bind_eq_None_conv)
qed

end
