(* ===== verification/Boyer_Moore.thy ===== *)
theory Boyer_Moore
  imports Str_Search
begin

text \<open>
  The Boyer-Moore search of \<open>inc/utils/strmatch.h\<close> (class \<open>boyer_moore_search\<close>), with its turbo mode. \<open>ix\<close> is the conversion of an element to the \<open>int\<close> that
  indexes the table of bad characters, and \<open>asz\<close> the size of that table; an element may have a negative index, which is a fault.
\<close>

definition get_ix :: "'b list \<Rightarrow> int \<Rightarrow> 'b option" where
  "get_ix xs i = (if i < 0 then None else get_at xs (nat i))"

definition put_ix :: "'b list \<Rightarrow> int \<Rightarrow> 'b \<Rightarrow> 'b list option" where
  "put_ix xs i v = (if i < 0 then None else put_at xs (nat i) v)"

record 'a bm_search =
  b_pat :: "'a list"
  b_bad_char :: "nat list"
  b_good_shift :: "nat list"

section \<open>Tables\<close>

fun bad_char_loop :: "('a \<Rightarrow> int) \<Rightarrow> 'a list \<Rightarrow> nat \<Rightarrow> nat \<Rightarrow> nat list \<Rightarrow> nat list option" where
  "bad_char_loop ix pat 0 i tab = Some tab"
| "bad_char_loop ix pat (Suc left) i tab =
    do { c \<leftarrow> get_at pat i; tab \<leftarrow> put_ix tab (ix c) (length pat - 1 - i); bad_char_loop ix pat left (i + 1) tab }"

definition calc_bad_char :: "('a \<Rightarrow> int) \<Rightarrow> nat \<Rightarrow> 'a list \<Rightarrow> nat list option" where
  "calc_bad_char ix asz pat = bad_char_loop ix pat (length pat - 1) 0 (replicate asz (length pat))"

text \<open>\<open>while (g >= 0 && m_pat[g] == m_pat[g + q]) --g\<close>\<close>

function suff_while :: "'a list \<Rightarrow> nat \<Rightarrow> int \<Rightarrow> int option" where
  "suff_while pat q g =
    (if g \<ge> 0 then
       do { a \<leftarrow> get_at pat (nat g); b \<leftarrow> get_at pat (nat g + q);
            if a = b then suff_while pat q (g - 1) else Some g }
     else Some g)"
  by pat_completeness auto

termination
  by (relation "measure (\<lambda>(_, _, g). nat (g + 1))") auto

declare suff_while.simps [simp del]

text \<open>The indices below the first argument are still to be done, from the highest down.\<close>

fun suff_loop :: "'a list \<Rightarrow> nat \<Rightarrow> nat \<Rightarrow> int \<Rightarrow> nat list \<Rightarrow> nat list option" where
  "suff_loop pat 0 f g suff = Some suff"
| "suff_loop pat (Suc i) f g suff =
    do { let m = length pat;
         s \<leftarrow> (if int i > g then get_at suff (i + m - 1 - f) else Some 0);
         if int i > g \<and> int s < int i - g then do { suff \<leftarrow> put_at suff i s; suff_loop pat i f g suff }
         else do {
           let g = (if int i < g then int i else g);
           let f = i;
           g \<leftarrow> suff_while pat (m - 1 - f) g;
           suff \<leftarrow> put_at suff i (nat (int f - g));
           suff_loop pat i f g suff } }"

definition calc_suffixes :: "'a list \<Rightarrow> nat list \<Rightarrow> nat list option" where
  "calc_suffixes pat suff =
    do { let g = int (length pat) - 1;
         suff \<leftarrow> put_ix suff g (length pat);
         suff_loop pat (length pat - 1) 0 g suff }"

text \<open>\<open>for (; j < k; ++j)\<close>, the first argument being \<open>k - j\<close>.\<close>

fun shift_fill :: "nat \<Rightarrow> nat \<Rightarrow> nat \<Rightarrow> nat \<Rightarrow> nat list \<Rightarrow> nat list option" where
  "shift_fill 0 m k j gs = Some gs"
| "shift_fill (Suc n) m k j gs =
    do { x \<leftarrow> get_at gs j;
         gs \<leftarrow> (if x = m then put_at gs j k else Some gs);
         shift_fill n m k (j + 1) gs }"

fun shift_loop1 :: "nat \<Rightarrow> nat list \<Rightarrow> nat \<Rightarrow> nat \<Rightarrow> nat list \<Rightarrow> nat list option" where
  "shift_loop1 m suff 0 j gs = Some gs"
| "shift_loop1 m suff (Suc i) j gs =
    do { s \<leftarrow> get_at suff i;
         if s = i + 1 then
           let k = m - 1 - i in
           do { gs \<leftarrow> shift_fill (k - j) m k j gs; shift_loop1 m suff i (max j k) gs }
         else shift_loop1 m suff i j gs }"

fun shift_loop2 :: "nat \<Rightarrow> nat list \<Rightarrow> nat \<Rightarrow> nat \<Rightarrow> nat list \<Rightarrow> nat list option" where
  "shift_loop2 m suff 0 i gs = Some gs"
| "shift_loop2 m suff (Suc left) i gs =
    do { s \<leftarrow> get_at suff i;
         gs \<leftarrow> put_ix gs (int m - 1 - int s) (m - 1 - i);
         shift_loop2 m suff left (i + 1) gs }"

definition calc_good_shift :: "'a list \<Rightarrow> nat list option" where
  "calc_good_shift pat =
    do { let m = length pat;
         suff \<leftarrow> calc_suffixes pat (replicate m 0);
         gs \<leftarrow> shift_loop1 m suff m 0 (replicate m m);
         shift_loop2 m suff (m - 1) 0 gs }"

definition bm_search_new :: "('a \<Rightarrow> int) \<Rightarrow> nat \<Rightarrow> 'a list \<Rightarrow> int \<Rightarrow> (exn + 'a bm_search) option" where
  "bm_search_new ix asz p plen =
    (if plen < 0 then Some (Inl Length_error)
     else if length p < nat plen then None
     else do { let pat = take (nat plen) p;
               gs \<leftarrow> calc_good_shift pat;
               bc \<leftarrow> calc_bad_char ix asz pat;
               Some (Inr \<lparr>b_pat = pat, b_bad_char = bc, b_good_shift = gs\<rparr>) })"

section \<open>Searching\<close>

text \<open>The comparison from the right; the result is one more than the index of the mismatch, 0 for a match.\<close>

fun bm_compare :: "'a list \<Rightarrow> 'a list \<Rightarrow> nat \<Rightarrow> nat \<Rightarrow> nat option" where
  "bm_compare pat tx j 0 = Some 0"
| "bm_compare pat tx j (Suc i) =
    do { a \<leftarrow> get_at pat i; b \<leftarrow> get_at tx (i + j); if a = b then bm_compare pat tx j i else Some (Suc i) }"

text \<open>\<open>m_bad_char[text[i+j]] - m_patlen + 1 + i\<close>\<close>

definition bc_shift :: "('a \<Rightarrow> int) \<Rightarrow> 'a bm_search \<Rightarrow> 'a list \<Rightarrow> nat \<Rightarrow> nat \<Rightarrow> int option" where
  "bc_shift ix B tx i j =
    do { c \<leftarrow> get_at tx (i + j); b \<leftarrow> get_ix (b_bad_char B) (ix c); Some (int b - int (length (b_pat B)) + 1 + int i) }"

definition bm_probe :: "('a \<Rightarrow> int) \<Rightarrow> 'a bm_search \<Rightarrow> 'a list \<Rightarrow> unit \<Rightarrow> nat \<Rightarrow> (bool \<times> nat \<times> unit) option" where
  "bm_probe ix B tx u j =
    do { r \<leftarrow> bm_compare (b_pat B) tx j (length (b_pat B));
         case r of
           0 \<Rightarrow> do { g \<leftarrow> get_at (b_good_shift B) 0; Some (True, g, ()) }
         | Suc i \<Rightarrow> do { g \<leftarrow> get_at (b_good_shift B) i; b \<leftarrow> bc_shift ix B tx i j; Some (False, nat (max (int g) b), ()) } }"

definition bm_matchall :: "('a \<Rightarrow> int) \<Rightarrow> 'a bm_search \<Rightarrow> 'a list \<Rightarrow> int \<Rightarrow> (exn + nat list) option" where
  "bm_matchall ix B tx txlen =
    (if txlen < 0 then Some (Inl Length_error)
     else map_option Inr (window_loop (bm_probe ix B tx) (txlen - int (length (b_pat B))) () 0 []))"

text \<open>Turbo mode: the comparison jumps over the remembered factor. \<open>i\<close> counts down to \<open>-1\<close>.\<close>

function turbo_compare :: "'a list \<Rightarrow> 'a list \<Rightarrow> nat \<Rightarrow> nat \<Rightarrow> nat \<Rightarrow> int \<Rightarrow> int option" where
  "turbo_compare pat tx j u shift i =
    (if i \<ge> 0 then
       do { a \<leftarrow> get_at pat (nat i); b \<leftarrow> get_at tx (nat i + j);
            if a = b then
              let i = i - 1; i = (if u \<noteq> 0 \<and> i = int (length pat) - 1 - int shift then i - int u else i)
              in turbo_compare pat tx j u shift i
            else Some i }
     else Some i)"
  by pat_completeness auto

termination
  by (relation "measure (\<lambda>(_, _, _, _, _, i). nat (i + 1))") (auto simp: Let_def)

declare turbo_compare.simps [simp del]

text \<open>What is remembered is \<open>(u, shift)\<close>.\<close>

definition turbo_probe :: "('a \<Rightarrow> int) \<Rightarrow> 'a bm_search \<Rightarrow> 'a list \<Rightarrow> nat \<times> nat \<Rightarrow> nat \<Rightarrow> (bool \<times> nat \<times> nat \<times> nat) option" where
  "turbo_probe ix B tx us j =
    (let (u, shift) = us; m = length (b_pat B) in
     do { i \<leftarrow> turbo_compare (b_pat B) tx j u shift (int m - 1);
          if i < 0 then do { shift \<leftarrow> get_at (b_good_shift B) 0; Some (True, shift, m - shift, shift) }
          else do {
            let v = m - 1 - nat i;
            let turbo_shift = int u - int v;
            bc \<leftarrow> bc_shift ix B tx (nat i) j;
            g \<leftarrow> get_at (b_good_shift B) (nat i);
            let shift = max turbo_shift bc;
            let shift = max shift (int g);
            let (shift, u) =
              (if shift = int g then (shift, min (m - nat shift) v)
               else (if turbo_shift < bc then max shift (int u + 1) else shift, 0));
            Some (False, nat shift, u, nat shift) } })"

definition turbo_matchall :: "('a \<Rightarrow> int) \<Rightarrow> 'a bm_search \<Rightarrow> 'a list \<Rightarrow> int \<Rightarrow> (exn + nat list) option" where
  "turbo_matchall ix B tx txlen =
    (if txlen < 0 then Some (Inl Length_error)
     else map_option Inr (window_loop (turbo_probe ix B tx) (txlen - int (length (b_pat B))) (0, length (b_pat B)) 0 []))"

section \<open>Common suffixes\<close>

text \<open>The longest common suffix of the pattern and of its first \<open>i + 1\<close> elements has length \<open>k\<close>.\<close>

definition is_suff :: "'a list \<Rightarrow> nat \<Rightarrow> nat \<Rightarrow> bool" where
  "is_suff pat i k \<longleftrightarrow> k \<le> Suc i \<and> (\<forall>t<k. pat ! (i - t) = pat ! (length pat - 1 - t)) \<and> (k \<le> i \<longrightarrow> pat ! (i - k) \<noteq> pat ! (length pat - 1 - k))"

lemma suff_while_ok:
  assumes "i < length pat" "n \<le> Suc i" "\<forall>t<n. pat ! (i - t) = pat ! (length pat - 1 - t)"
  shows "\<exists>k. suff_while pat (length pat - 1 - i) (int i - int n) = Some (int i - int k) \<and> is_suff pat i k"
  using assms
proof (induction "Suc i - n" arbitrary: n)
  case 0
  then have "n = Suc i" by simp
  then show ?case using 0 by (subst suff_while.simps) (auto simp: is_suff_def intro!: exI [of _ "Suc i"])
next
  case (Suc d)
  then have n: "n \<le> i" by simp
  have g: "nat (int i - int n) = i - n" "i - n < length pat" "i - n + (length pat - 1 - i) = length pat - 1 - n" "length pat - 1 - n < length pat"
    using n Suc.prems(1) by auto
  show ?case
  proof (cases "pat ! (i - n) = pat ! (length pat - 1 - n)")
    case True
    have "int i - int n - 1 = int i - int (Suc n)" by simp
    then have "\<exists>k. suff_while pat (length pat - 1 - i) (int i - int n - 1) = Some (int i - int k) \<and> is_suff pat i k"
      using Suc.hyps(1) [of "Suc n"] Suc.hyps(2) Suc.prems n True unfolding less_Suc_eq by (metis Suc_leI diff_Suc_Suc diff_Suc_eq_diff_pred diff_Suc_1 diff_commute le_imp_less_Suc)
    then show ?thesis using True n g by (subst suff_while.simps) (simp add: mem_simps del: of_nat_diff)
  next
    case False
    then show ?thesis using Suc.prems n g by (subst suff_while.simps) (auto simp: mem_simps is_suff_def simp del: of_nat_diff intro!: exI [of _ n])
  qed
qed

text \<open>
  Indices from \<open>n\<close> on are done; when the next one lies above \<open>g\<close>, then \<open>f\<close> is an index whose common suffix reaches down to \<open>g\<close>.
\<close>

definition suff_inv :: "'a list \<Rightarrow> nat \<Rightarrow> nat \<Rightarrow> int \<Rightarrow> nat list \<Rightarrow> bool" where
  "suff_inv pat n f g suff \<longleftrightarrow> length suff = length pat \<and> n < length pat \<and> (\<forall>i. n \<le> i \<longrightarrow> i < length pat \<longrightarrow> is_suff pat i (suff ! i)) \<and>
    (int n - 1 \<le> g \<or> n \<le> f \<and> f < length pat - 1 \<and> g = int f - int (suff ! f))"

text \<open>Inside the part that index \<open>f\<close> has matched, the pattern repeats its end.\<close>

lemma inside:
  assumes "is_suff pat f k" "f < length pat" "i < f" "int f - int k < int i - int t" "t \<le> i"
  shows "pat ! (i - t) = pat ! (i + (length pat - 1 - f) - t)"
proof -
  have "f - i + t < k" "f - (f - i + t) = i - t" "length pat - 1 - (f - i + t) = i + (length pat - 1 - f) - t" using assms by auto
  then show ?thesis using assms(1) unfolding is_suff_def by metis
qed

lemma suff_copy:
  assumes "is_suff pat f k" "f < length pat - 1" "i < f" "is_suff pat (i + (length pat - 1 - f)) s" "int s < int i - (int f - int k)"
  shows "is_suff pat i s"
proof -
  let ?j = "i + (length pat - 1 - f)"
  have k: "k \<le> Suc f" using assms(1) by (simp add: is_suff_def)
  have s: "s \<le> i" using assms(5) k by linarith
  have e: "pat ! (i - t) = pat ! (?j - t)" if "t \<le> s" for t using inside [OF assms(1) _ assms(3), of t] assms(2,5) s that by auto
  have "s \<le> ?j" using s by simp
  then have "\<forall>t < s. pat ! (?j - t) = pat ! (length pat - 1 - t)" "pat ! (?j - s) \<noteq> pat ! (length pat - 1 - s)"
    using assms(4) by (auto simp: is_suff_def)
  then show ?thesis using e s by (auto simp: is_suff_def)
qed

lemma suff_known:
  assumes "is_suff pat f k" "f < length pat - 1" "i < f" "is_suff pat (i + (length pat - 1 - f)) s" "int n \<le> int i - (int f - int k)" "n \<le> s" "t < n"
  shows "pat ! (i - t) = pat ! (length pat - 1 - t)"
proof -
  have k: "k \<le> Suc f" using assms(1) by (simp add: is_suff_def)
  have "pat ! (i - t) = pat ! (i + (length pat - 1 - f) - t)" using assms k by (intro inside [OF assms(1) _ assms(3)]) auto
  then show ?thesis using assms(4,6,7) by (simp add: is_suff_def)
qed

lemma suff_inv_put:
  assumes "suff_inv pat (Suc i) f0 g0 suff" "is_suff pat i k" "i \<le> f" "f < length pat - 1" "g = int f - int ((suff[i := k]) ! f)"
  shows "suff_inv pat i f g (suff[i := k])"
  using assms by (auto simp: suff_inv_def nth_list_update)

lemma suff_loop_ok:
  assumes "suff_inv pat n f g suff"
  shows "\<exists>suff'. suff_loop pat n f g suff = Some suff' \<and> length suff' = length pat \<and> (\<forall>i<length pat. is_suff pat i (suff' ! i))"
  using assms
proof (induction n arbitrary: f g suff)
  case 0
  then show ?case by (auto simp: suff_inv_def)
next
  case (Suc i)
  let ?m = "length pat"
  have l: "length suff = ?m" "Suc i < ?m" using Suc.prems by (auto simp: suff_inv_def)
  have above: "i < f \<and> f < ?m - 1 \<and> g = int f - int (suff ! f) \<and> is_suff pat f (suff ! f) \<and> is_suff pat (i + (?m - 1 - f)) (suff ! (i + (?m - 1 - f)))"
    if "int i > g"
    using Suc.prems that by (auto simp: suff_inv_def)
  have jx: "i + ?m - 1 - f = i + (?m - 1 - f)" if "int i > g" using above [OF that] l by auto
  define s where "s = (if int i > g then suff ! (i + (?m - 1 - f)) else 0)"
  have s: "(if int i > g then get_at suff (i + ?m - 1 - f) else Some 0) = Some s"
    using above l jx by (auto simp: s_def mem_simps)
  show ?case
  proof (cases "int i > g \<and> int s < int i - g")
    case True
    then have a: "i < f" "f < ?m - 1" "g = int f - int (suff ! f)" "is_suff pat f (suff ! f)" "is_suff pat (i + (?m - 1 - f)) s"
      using above by (auto simp: s_def)
    then have "is_suff pat i s" using suff_copy [OF a(4,2,1,5)] True by simp
    then have "suff_inv pat i f g (suff[i := s])" using a by (intro suff_inv_put [OF Suc.prems]) simp_all
    then show ?thesis using Suc.IH True l s by (simp add: mem_simps del: get_at_eq_Some)
  next
    case False
    define n where "n = (if int i > g then nat (int i - g) else 0)"
    have n: "n \<le> Suc i \<and> (\<forall>t<n. pat ! (i - t) = pat ! (?m - 1 - t)) \<and> (if int i < g then int i else g) = int i - int n"
    proof (cases "int i > g")
      case True
      then have a: "i < f" "f < ?m - 1" "g = int f - int (suff ! f)" "is_suff pat f (suff ! f)" "is_suff pat (i + (?m - 1 - f)) s"
        using above by (auto simp: s_def)
      have "suff ! f \<le> Suc f" using a(4) by (simp add: is_suff_def)
      moreover have "n \<le> s" "int n = int i - g" using True False by (auto simp: n_def)
      ultimately show ?thesis using suff_known [OF a(4,2,1,5), of n] a(3) True by auto
    qed (auto simp: n_def)
    obtain k where k: "suff_while pat (?m - 1 - i) (int i - int n) = Some (int i - int k)" "is_suff pat i k"
      using suff_while_ok [of i pat n] n l by auto
    then have "suff_inv pat i i (int i - int k) (suff[i := k])" using suff_inv_put [OF Suc.prems k(2), of i] l by simp
    moreover have "suff_loop pat (Suc i) f g suff = suff_loop pat i i (int i - int k) (suff[i := k])"
      using False l k(1) n by (auto simp: s mem_simps Let_def simp del: get_at_eq_Some)
    ultimately show ?thesis using Suc.IH by simp
  qed
qed

lemma calc_suffixes_ok:
  assumes "pat \<noteq> []"
  shows "\<exists>suff. calc_suffixes pat (replicate (length pat) 0) = Some suff \<and> length suff = length pat \<and> (\<forall>i<length pat. is_suff pat i (suff ! i))"
proof -
  let ?m = "length pat" and ?s = "(replicate (length pat) 0)[length pat - 1 := length pat]"
  have m: "0 < ?m" using assms by simp
  have "nat (int ?m - 1) = ?m - 1" "\<not> int ?m - 1 < 0" using m by auto
  then have p: "put_ix (replicate ?m 0) (int ?m - 1) ?m = Some ?s" using m by (simp add: put_ix_def mem_simps)
  have "is_suff pat (?m - 1) ?m" using assms by (cases pat) (simp_all add: is_suff_def)
  then have "is_suff pat i (?s ! i)" if "?m - 1 \<le> i" "i < ?m" for i
    using that m by (cases "i = ?m - 1") (auto simp: nth_list_update)
  then have "suff_inv pat (?m - 1) 0 (int ?m - 1) ?s" using m by (auto simp: suff_inv_def)
  then show ?thesis using suff_loop_ok p by (auto simp: calc_suffixes_def)
qed

section \<open>Safe shifts\<close>

text \<open>
  After a mismatch at \<open>i\<close>, a shift by \<open>s\<close> can lead to an occurrence only when the matched end meets an equal part of the pattern, and the element before it a different one.
\<close>

definition admissible :: "'a list \<Rightarrow> nat \<Rightarrow> nat \<Rightarrow> bool" where
  "admissible pat i s \<longleftrightarrow> (\<forall>t<length pat. i < t \<longrightarrow> s \<le> t \<longrightarrow> pat ! (t - s) = pat ! t) \<and> (s \<le> i \<longrightarrow> pat ! (i - s) \<noteq> pat ! i)"

definition shift_safe :: "'a list \<Rightarrow> nat list \<Rightarrow> bool" where
  "shift_safe pat gs \<longleftrightarrow> length gs = length pat \<and> (\<forall>i<length pat. 0 < gs ! i \<and> gs ! i \<le> length pat \<and> (\<forall>s. 0 < s \<longrightarrow> s < gs ! i \<longrightarrow> \<not> admissible pat i s) \<and>
    (gs ! i < length pat \<longrightarrow> admissible pat i (gs ! i)))"

text \<open>In terms of the common suffixes: \<open>full s\<close> when the rest after a shift by \<open>s\<close> is all matched.\<close>

definition full :: "nat \<Rightarrow> nat list \<Rightarrow> nat \<Rightarrow> bool" where
  "full m suff s \<longleftrightarrow> s < m \<and> suff ! (m - 1 - s) = m - s"

lemma suff_at:
  assumes "is_suff pat (length pat - 1 - s) k" "s < length pat"
  shows "k \<le> length pat - s" "length pat - 1 - k < x \<Longrightarrow> x < length pat \<Longrightarrow> pat ! (x - s) = pat ! x"
    "k < length pat - s \<Longrightarrow> pat ! (length pat - 1 - k - s) \<noteq> pat ! (length pat - 1 - k)"
proof -
  let ?m = "length pat"
  show k: "k \<le> ?m - s" using assms by (auto simp: is_suff_def)
  show "pat ! (x - s) = pat ! x" if x: "?m - 1 - k < x" "x < ?m"
  proof -
    have "?m - 1 - x < k" "?m - 1 - s - (?m - 1 - x) = x - s" "?m - 1 - (?m - 1 - x) = x" using x k by auto
    then show ?thesis using assms(1) unfolding is_suff_def by metis
  qed
  show "pat ! (?m - 1 - k - s) \<noteq> pat ! (?m - 1 - k)" if "k < ?m - s"
  proof -
    have "k \<le> ?m - 1 - s" "?m - 1 - s - k = ?m - 1 - k - s" using that by auto
    then show ?thesis using assms(1) unfolding is_suff_def by metis
  qed
qed

lemma admissible_suff:
  assumes "\<forall>i<length pat. is_suff pat i (suff ! i)" "admissible pat i s" "0 < s" "s < length pat" "i < length pat"
  shows "s \<le> i \<and> suff ! (length pat - 1 - s) = length pat - 1 - i \<or> i < s \<and> full (length pat) suff s"
proof -
  let ?m = "length pat"
  define k where "k = suff ! (?m - 1 - s)"
  have "is_suff pat (?m - 1 - s) k" unfolding k_def using assms(1,4) by simp
  note k = suff_at [OF this assms(4)]
  have low: "\<not> (i < ?m - 1 - k \<and> k < ?m - s)"
  proof
    assume l: "i < ?m - 1 - k \<and> k < ?m - s"
    then have "?m - 1 - k < ?m" "s \<le> ?m - 1 - k" by auto
    then show False using assms(2) k(3) l unfolding admissible_def by blast
  qed
  show ?thesis
  proof (cases "s \<le> i")
    case True
    then have "\<not> ?m - 1 - k < i" using assms(2,5) k(2) [of i] by (auto simp: admissible_def)
    then have "k = ?m - 1 - i" using low True assms(3-5) by linarith
    then show ?thesis using True unfolding k_def by simp
  next
    case False
    then have "k = ?m - s" using low k(1) assms(4) by linarith
    then show ?thesis using False assms(4) unfolding k_def full_def by simp
  qed
qed

lemma suff_admissible:
  assumes "\<forall>i<length pat. is_suff pat i (suff ! i)" "i < length pat" "0 < s" "s < length pat"
    "i < s \<and> full (length pat) suff s \<or> suff ! (length pat - 1 - s) = length pat - 1 - i"
  shows "admissible pat i s"
proof -
  let ?m = "length pat"
  define k where "k = suff ! (?m - 1 - s)"
  have "is_suff pat (?m - 1 - s) k" unfolding k_def using assms(1,4) by simp
  note k = suff_at [OF this assms(4)]
  have c: "i < s \<and> k = ?m - s \<or> k = ?m - 1 - i" using assms(5) by (auto simp: full_def k_def)
  have "pat ! (t - s) = pat ! t" if "t < ?m" "i < t" "s \<le> t" for t using c that k(2) [of t] by auto
  moreover have "pat ! (i - s) \<noteq> pat ! i" if "s \<le> i"
  proof -
    have "k = ?m - 1 - i" "?m - 1 - k = i" "k < ?m - s" using c that assms(2) by auto
    then show ?thesis using k(3) by simp
  qed
  ultimately show ?thesis by (simp add: admissible_def)
qed

text \<open>What the first loop achieves: the least full shift beyond each index.\<close>

definition border_inv :: "nat \<Rightarrow> nat list \<Rightarrow> nat \<Rightarrow> nat list \<Rightarrow> bool" where
  "border_inv m suff x gs \<longleftrightarrow> x < gs ! x \<and> gs ! x \<le> m \<and> (\<forall>s. x < s \<longrightarrow> s < gs ! x \<longrightarrow> \<not> full m suff s) \<and> (gs ! x = m \<or> full m suff (gs ! x))"

definition shift_inv :: "nat \<Rightarrow> nat list \<Rightarrow> nat \<Rightarrow> nat list \<Rightarrow> bool" where
  "shift_inv m suff x gs \<longleftrightarrow> 0 < gs ! x \<and> gs ! x \<le> m \<and> (\<forall>s. x < s \<longrightarrow> s < gs ! x \<longrightarrow> \<not> full m suff s) \<and>
    (gs ! x = m \<or> x < gs ! x \<and> full m suff (gs ! x) \<or> suff ! (m - 1 - gs ! x) = m - 1 - x)"

lemma shift_fill_ok:
  assumes "length gs = m" "j + n = k" "k \<le> m" "\<forall>x. j \<le> x \<longrightarrow> x < m \<longrightarrow> gs ! x = m"
  shows "\<exists>gs'. shift_fill n m k j gs = Some gs' \<and> length gs' = m \<and> (\<forall>x<m. gs' ! x = (if j \<le> x \<and> x < k then k else gs ! x))"
  using assms
proof (induction n arbitrary: j gs)
  case (Suc n)
  have j: "j < m" "gs ! j = m" using Suc.prems by auto
  obtain gs' where g: "shift_fill n m k (j + 1) (gs[j := k]) = Some gs'" "length gs' = m"
    "\<forall>x<m. gs' ! x = (if j + 1 \<le> x \<and> x < k then k else gs[j := k] ! x)"
    using Suc.IH [of "gs[j := k]" "j + 1"] Suc.prems by auto
  have "\<forall>x<m. gs' ! x = (if j \<le> x \<and> x < k then k else gs ! x)"
    using g(3) Suc.prems(1,2) by (auto simp: nth_list_update le_less Suc_le_eq)
  then show ?case using g(1,2) j Suc.prems(1) by (simp add: mem_simps)
qed simp

lemma shift_loop1_ok:
  assumes "length gs = m" "length suff = m" "i \<le> m" "j < m" "\<forall>x<j. border_inv m suff x gs" "\<forall>x. j \<le> x \<longrightarrow> x < m \<longrightarrow> gs ! x = m"
    "\<forall>s. full m suff s \<longrightarrow> s + i < m \<longrightarrow> s \<le> j" "j + i \<le> m"
  shows "\<exists>gs'. shift_loop1 m suff i j gs = Some gs' \<and> length gs' = m \<and> (\<forall>x<m. border_inv m suff x gs')"
  using assms
proof (induction i arbitrary: j gs)
  case 0
  have "border_inv m suff x gs" if "x < m" for x
  proof (cases "x < j")
    case False
    then have "gs ! x = m" using 0 that by simp
    then show ?thesis using 0(7) that False by (auto simp: border_inv_def full_def)
  qed (use 0 in simp)
  then show ?case using 0 by simp
next
  case (Suc i)
  let ?k = "m - 1 - i"
  have s: "get_at suff i = Some (suff ! i)" "suff ! i = i + 1 \<longleftrightarrow> full m suff ?k" using Suc.prems(2,3) by (auto simp: mem_simps full_def)
  have lt: "s = ?k" if "\<not> s + Suc i < m" "s + i < m" for s using that by simp
  show ?case
  proof (cases "suff ! i = i + 1")
    case False
    have "\<forall>s. full m suff s \<longrightarrow> s + i < m \<longrightarrow> s \<le> j" using Suc.prems(7) lt s(2) False by blast
    then have "\<exists>gs'. shift_loop1 m suff i j gs = Some gs' \<and> length gs' = m \<and> (\<forall>x<m. border_inv m suff x gs')"
      using Suc.prems by (intro Suc.IH) simp_all
    then show ?thesis using False s(1) by (simp del: get_at_eq_Some)
  next
    case True
    have j: "j \<le> ?k" using Suc.prems(8) by simp
    obtain gs' where g: "shift_fill (?k - j) m ?k j gs = Some gs'" "length gs' = m" "\<forall>x<m. gs' ! x = (if j \<le> x \<and> x < ?k then ?k else gs ! x)"
      using shift_fill_ok [of gs m j "?k - j" ?k] Suc.prems j by auto
    have b: "border_inv m suff x gs'" if "x < ?k" for x
    proof (cases "x < j")
      case True
      then show ?thesis using Suc.prems(4,5) g(3) by (simp add: border_inv_def)
    next
      case False
      then have "gs' ! x = ?k" using g(3) that by simp
      moreover have "\<not> full m suff s" if s: "x < s" "s < ?k" for s
      proof
        assume "full m suff s"
        moreover have "s + Suc i < m" using s(2) by simp
        ultimately have "s \<le> j" using Suc.prems(7) by blast
        then show False using s(1) False by simp
      qed
      ultimately show ?thesis using that True s(2) by (auto simp: border_inv_def)
    qed
    have "\<exists>gs''. shift_loop1 m suff i ?k gs' = Some gs'' \<and> length gs'' = m \<and> (\<forall>x<m. border_inv m suff x gs'')"
      using Suc.prems(2,3,6) b g j by (intro Suc.IH) auto
    then show ?thesis using True s(1) g(1) j by (simp add: max_absorb2 Let_def del: get_at_eq_Some)
  qed
qed

text \<open>The second loop stores the shifts up to the index, the least one last.\<close>

lemma shift_loop2_ok:
  assumes "length gs = m" "length suff = m" "i + left = m - 1" "0 < m" "\<forall>i<m. suff ! i \<le> Suc i" "\<forall>i<m - 1. suff ! i < m"
    "\<forall>x<m. shift_inv m suff x gs" "\<forall>i'<i. gs ! (m - 1 - suff ! i') \<le> m - 1 - i'"
  shows "\<exists>gs'. shift_loop2 m suff left i gs = Some gs' \<and> length gs' = m \<and>
    (\<forall>x<m. shift_inv m suff x gs') \<and> (\<forall>i'<m - 1. gs' ! (m - 1 - suff ! i') \<le> m - 1 - i')"
  using assms
proof (induction left arbitrary: i gs)
  case (Suc left)
  let ?x = "m - 1 - suff ! i" and ?k = "m - 1 - i"
  have i: "i < m - 1" "suff ! i < m" "suff ! i \<le> Suc i" using Suc.prems by auto
  have x: "int m - 1 - int (suff ! i) = int ?x" "?x < m" "?k \<le> Suc ?x" "0 < ?k" using i by auto
  have "\<exists>gs'. shift_loop2 m suff left (i + 1) (gs[?x := ?k]) = Some gs' \<and> length gs' = m \<and>
    (\<forall>x<m. shift_inv m suff x gs') \<and> (\<forall>i'<m - 1. gs' ! (m - 1 - suff ! i') \<le> m - 1 - i')"
  proof (rule Suc.IH)
    have "m - 1 - ?k = i" "m - 1 - ?x = suff ! i" using i by auto
    then have "shift_inv m suff ?x (gs[?x := ?k])" using x Suc.prems(1) by (auto simp: shift_inv_def)
    moreover have "shift_inv m suff y (gs[?x := ?k])" if "y < m" "y \<noteq> ?x" for y
      using Suc.prems(7) that by (simp add: shift_inv_def)
    ultimately show "\<forall>y<m. shift_inv m suff y (gs[?x := ?k])" by metis
    show "\<forall>i'<i + 1. gs[?x := ?k] ! (m - 1 - suff ! i') \<le> m - 1 - i'"
      using Suc.prems(1,8) x(2) by (auto simp: nth_list_update less_Suc_eq intro: le_trans)
  qed (use Suc.prems in auto)
  moreover have "put_ix gs (int m - 1 - int (suff ! i)) ?k = Some (gs[?x := ?k])"
    unfolding x(1) put_ix_def using x(2) Suc.prems(1) by (simp add: mem_simps)
  moreover have "get_at suff i = Some (suff ! i)" using i(1) Suc.prems(2) by (simp add: mem_simps)
  ultimately show ?case by (simp del: get_at_eq_Some)
qed auto

lemma calc_good_shift_ok:
  assumes "pat \<noteq> []"
  shows "\<exists>gs. calc_good_shift pat = Some gs \<and> shift_safe pat gs"
proof -
  let ?m = "length pat"
  have m: "0 < ?m" using assms by simp
  obtain suff where suff: "calc_suffixes pat (replicate ?m 0) = Some suff" "length suff = ?m" "\<forall>i<?m. is_suff pat i (suff ! i)"
    using calc_suffixes_ok [OF assms] by blast
  have le1: "\<forall>i<?m. suff ! i \<le> Suc i" using suff(3) by (simp add: is_suff_def)
  have le2: "suff ! i < ?m" if "i < ?m - 1" for i
  proof -
    have "i < ?m" "Suc i < ?m" using that by auto
    then show ?thesis using le1 by (meson le_less_trans)
  qed
  obtain gs where gs: "shift_loop1 ?m suff ?m 0 (replicate ?m ?m) = Some gs" "length gs = ?m" "\<forall>x<?m. border_inv ?m suff x gs"
    using shift_loop1_ok [of "replicate ?m ?m" ?m suff ?m 0] m suff(2) by auto
  then have "shift_inv ?m suff x gs" if "x < ?m" for x
    using that by (cases "gs ! x") (auto simp: border_inv_def shift_inv_def)
  then obtain gs' where g: "shift_loop2 ?m suff (?m - 1) 0 gs = Some gs'" "length gs' = ?m"
    "\<forall>x<?m. shift_inv ?m suff x gs'" "\<forall>i<?m - 1. gs' ! (?m - 1 - suff ! i) \<le> ?m - 1 - i"
    using shift_loop2_ok [of gs ?m suff 0 "?m - 1"] m gs(2) suff(2) le1 le2 by auto
  have "\<not> admissible pat i s" if "i < ?m" "0 < s" "s < gs' ! i" for i s
  proof
    assume a: "admissible pat i s"
    have s: "s < ?m" using g(3) that unfolding shift_inv_def by (meson less_le_trans)
    show False
    proof (rule disjE [OF admissible_suff [OF suff(3) a that(2) s that(1)]])
      assume b: "s \<le> i \<and> suff ! (?m - 1 - s) = ?m - 1 - i"
      have "?m - 1 - s < ?m - 1" "?m - 1 - (?m - 1 - i) = i" "?m - 1 - (?m - 1 - s) = s" using that s b by auto
      then have "gs' ! i \<le> s" using g(4) b by metis
      then show False using that(3) by simp
    next
      assume "i < s \<and> full ?m suff s"
      then show False using g(3) that unfolding shift_inv_def by blast
    qed
  qed
  moreover have "admissible pat i (gs' ! i)" if "i < ?m" "gs' ! i < ?m" for i
    using g(3) that suff_admissible [OF suff(3), of i "gs' ! i"] by (auto simp: shift_inv_def)
  ultimately have "shift_safe pat gs'" using g(2,3) by (auto simp: shift_safe_def shift_inv_def)
  then show ?thesis using suff(1) gs(1) g(1) by (auto simp: calc_good_shift_def)
qed

section \<open>Bad characters\<close>

definition in_alphabet :: "('a \<Rightarrow> int) \<Rightarrow> nat \<Rightarrow> 'a list \<Rightarrow> bool" where
  "in_alphabet ix asz cs \<longleftrightarrow> list_all (\<lambda>c. 0 \<le> ix c \<and> ix c < int asz) cs"

definition bad_safe :: "('a \<Rightarrow> int) \<Rightarrow> nat \<Rightarrow> 'a list \<Rightarrow> nat list \<Rightarrow> bool" where
  "bad_safe ix asz pat bc \<longleftrightarrow> length bc = asz \<and> (\<forall>x<asz. bc ! x \<le> length pat) \<and> (\<forall>l<length pat - 1. bc ! nat (ix (pat ! l)) \<le> length pat - 1 - l)"

lemma get_ix_in: "0 \<le> x \<Longrightarrow> x < int (length xs) \<Longrightarrow> get_ix xs x = Some (xs ! nat x)"
  "0 \<le> x \<Longrightarrow> x < int (length xs) \<Longrightarrow> put_ix xs x v = Some (xs[nat x := v])"
  by (simp_all add: get_ix_def put_ix_def mem_simps)

lemma bad_char_loop_ok:
  assumes "in_alphabet ix asz pat" "i + left = length pat - 1" "length tab = asz" "\<forall>x<asz. tab ! x \<le> length pat"
    "\<forall>l<i. tab ! nat (ix (pat ! l)) \<le> length pat - 1 - l"
  shows "\<exists>bc. bad_char_loop ix pat left i tab = Some bc \<and> bad_safe ix asz pat bc"
  using assms
proof (induction left arbitrary: i tab)
  case (Suc left)
  let ?c = "pat ! i" and ?v = "length pat - 1 - i"
  have i: "i < length pat" using Suc.prems(2) by simp
  have ix: "0 \<le> ix (pat ! l)" "ix (pat ! l) < int asz" if "l < length pat" for l
    using Suc.prems(1) that by (simp_all add: in_alphabet_def list_all_length)
  have "\<exists>bc. bad_char_loop ix pat left (i + 1) (tab[nat (ix ?c) := ?v]) = Some bc \<and> bad_safe ix asz pat bc"
  proof (rule Suc.IH)
    show "\<forall>l<i + 1. tab[nat (ix ?c) := ?v] ! nat (ix (pat ! l)) \<le> length pat - 1 - l"
    proof (intro allI impI)
      fix l assume l: "l < i + 1"
      have "nat (ix ?c) < length tab" using ix [OF i] Suc.prems(3) by linarith
      then show "tab[nat (ix ?c) := ?v] ! nat (ix (pat ! l)) \<le> length pat - 1 - l"
        using Suc.prems(5) l by (cases "l = i") (auto simp: nth_list_update intro: le_trans)
    qed
    show "\<forall>x<asz. tab[nat (ix ?c) := ?v] ! x \<le> length pat"
      using Suc.prems(3,4) by (metis diff_le_self le_trans nth_list_update nth_list_update_neq)
  qed (use Suc.prems in auto)
  then show ?case using i ix [OF i] Suc.prems(3) by (simp add: mem_simps get_ix_in)
qed (auto simp: bad_safe_def)

lemma calc_bad_char_ok:
  assumes "in_alphabet ix asz pat"
  shows "\<exists>bc. calc_bad_char ix asz pat = Some bc \<and> bad_safe ix asz pat bc"
  unfolding calc_bad_char_def using assms by (intro bad_char_loop_ok) auto

section \<open>One window\<close>

definition bm_ok :: "('a \<Rightarrow> int) \<Rightarrow> nat \<Rightarrow> 'a list \<Rightarrow> 'a bm_search \<Rightarrow> bool" where
  "bm_ok ix asz pat B \<longleftrightarrow> pat \<noteq> [] \<and> b_pat B = pat \<and> shift_safe pat (b_good_shift B) \<and> bad_safe ix asz pat (b_bad_char B)"

lemma bm_search_new_ok:
  assumes "pat \<noteq> []" "in_alphabet ix asz pat"
  shows "\<exists>B. bm_search_new ix asz (pat @ xs) (int (length pat)) = Some (Inr B) \<and> bm_ok ix asz pat B"
  using calc_good_shift_ok [OF assms(1)] calc_bad_char_ok [OF assms(2)] assms(1) by (auto simp: bm_search_new_def bm_ok_def)

text \<open>Everything from \<open>r\<close> on matches the window at \<open>j\<close>, and the element before does not.\<close>

definition tail_match :: "'a list \<Rightarrow> 'a list \<Rightarrow> nat \<Rightarrow> nat \<Rightarrow> bool" where
  "tail_match pat tx j r \<longleftrightarrow> (\<forall>t. r \<le> t \<longrightarrow> t < length pat \<longrightarrow> pat ! t = tx ! (t + j))"

lemma tail_match_0: "j + length pat \<le> length tx \<Longrightarrow> tail_match pat tx j 0 \<longleftrightarrow> occ pat tx j"
  by (auto simp: tail_match_def occ_nth add.commute)

lemma bm_compare_ok:
  assumes "j + length pat \<le> length tx" "n \<le> length pat" "tail_match pat tx j n"
  shows "\<exists>r\<le>n. bm_compare pat (tx @ ys) j n = Some r \<and> tail_match pat tx j r \<and> (\<forall>i. r = Suc i \<longrightarrow> pat ! i \<noteq> tx ! (i + j))"
  using assms
proof (induction n)
  case (Suc i)
  have r: "get_at pat i = Some (pat ! i)" "get_at (tx @ ys) (i + j) = Some (tx ! (i + j))"
    using Suc.prems by (simp_all add: get_at_def nth_append)
  show ?case
  proof (cases "pat ! i = tx ! (i + j)")
    case True
    have "tail_match pat tx j i" using Suc.prems(3) True unfolding tail_match_def by (metis le_neq_implies_less Suc_leI)
    then show ?thesis using Suc.IH Suc.prems True r by (auto simp del: get_at_eq_Some intro: le_SucI)
  next
    case False
    then show ?thesis using Suc.prems r by (auto simp del: get_at_eq_Some intro!: exI [of _ "Suc i"])
  qed
qed auto

lemma occ_after:
  assumes "occ pat tx (j + s)" "s \<le> t" "t < length pat + s"
  shows "pat ! (t - s) = tx ! (t + j)"
proof -
  have "t - s < length pat" using assms(2,3) by simp
  then have "tx ! (j + s + (t - s)) = pat ! (t - s)" using assms(1) unfolding occ_nth by blast
  moreover have "j + s + (t - s) = t + j" using assms(2) by simp
  ultimately show ?thesis by simp
qed

text \<open>A shift below that of the good suffix, or below that of the bad character, does not reach an occurrence.\<close>

lemma good_shift_skips:
  assumes "shift_safe pat gs" "i < length pat" "tail_match pat tx j (Suc i)" "pat ! i \<noteq> tx ! (i + j)" "0 < s" "s < gs ! i"
  shows "\<not> occ pat tx (j + s)"
proof
  assume o: "occ pat tx (j + s)"
  have "pat ! (t - s) = pat ! t" if "t < length pat" "i < t" "s \<le> t" for t
    using occ_after [OF o that(3)] assms(3) that by (simp add: tail_match_def)
  moreover have "pat ! (i - s) \<noteq> pat ! i" if "s \<le> i" using occ_after [OF o that] assms(2,4) by simp
  ultimately have "admissible pat i s" by (simp add: admissible_def)
  then show False using assms(1,2,5,6) by (simp add: shift_safe_def)
qed

lemma match_shift_skips:
  assumes "shift_safe pat gs" "pat \<noteq> []" "tail_match pat tx j 0" "0 < s" "s < gs ! 0"
  shows "\<not> occ pat tx (j + s)"
proof
  assume o: "occ pat tx (j + s)"
  have "pat ! (t - s) = pat ! t" if "t < length pat" "s \<le> t" for t
    using occ_after [OF o that(2)] assms(3) that by (simp add: tail_match_def)
  then have "admissible pat 0 s" using assms(4) by (simp add: admissible_def)
  then show False using assms(1,2,4,5) by (simp add: shift_safe_def)
qed

lemma bad_char_skips:
  assumes "bad_safe ix asz pat bc" "i < length pat" "0 < s" "int s < int (bc ! nat (ix (tx ! (i + j)))) - int (length pat) + 1 + int i"
    "nat (ix (tx ! (i + j))) < asz"
  shows "\<not> occ pat tx (j + s)"
proof
  assume o: "occ pat tx (j + s)"
  have "bc ! nat (ix (tx ! (i + j))) \<le> length pat" using assms(1,5) by (simp add: bad_safe_def)
  then have s: "s \<le> i" using assms(4) by linarith
  then have c: "pat ! (i - s) = tx ! (i + j)" using occ_after [OF o s] assms(2) by simp
  have "i - s < length pat - 1" using s assms(2,3) by linarith
  then have "bc ! nat (ix (tx ! (i + j))) \<le> length pat - 1 - (i - s)" using assms(1) c [symmetric] by (simp add: bad_safe_def)
  then show False using assms(2,4) s by linarith
qed

lemma bc_shift_eq:
  assumes "bm_ok ix asz pat B" "in_alphabet ix asz tx" "i + j < length tx"
  shows "bc_shift ix B (tx @ ys) i j = Some (int (b_bad_char B ! nat (ix (tx ! (i + j)))) - int (length pat) + 1 + int i)" "nat (ix (tx ! (i + j))) < asz"
proof -
  have c: "0 \<le> ix (tx ! (i + j))" "ix (tx ! (i + j)) < int asz" using assms(2,3) by (simp_all add: in_alphabet_def list_all_length)
  then show "nat (ix (tx ! (i + j))) < asz" by linarith
  have "get_at (tx @ ys) (i + j) = Some (tx ! (i + j))" using assms(3) by (simp add: get_at_def nth_append)
  then show "bc_shift ix B (tx @ ys) i j = Some (int (b_bad_char B ! nat (ix (tx ! (i + j)))) - int (length pat) + 1 + int i)"
    using c assms(1) get_ix_in(1) [of "ix (tx ! (i + j))" "b_bad_char B"] by (simp add: bc_shift_def bm_ok_def bad_safe_def del: get_at_eq_Some)
qed

definition bm_good :: "('a \<Rightarrow> int) \<Rightarrow> nat \<Rightarrow> 'a list \<Rightarrow> 'a bm_search \<Rightarrow> 'a list \<Rightarrow> nat \<Rightarrow> unit \<Rightarrow> bool" where
  "bm_good ix asz pat B tx j u \<longleftrightarrow> bm_ok ix asz pat B \<and> in_alphabet ix asz tx"

lemma bm_probe_ok:
  assumes "bm_good ix asz pat B tx j u" "j + length pat \<le> length tx"
  shows "\<exists>k. bm_probe ix B (tx @ ys) u j = Some (occ pat tx j, k, ()) \<and> 0 < k \<and> (\<forall>s. 0 < s \<longrightarrow> s < k \<longrightarrow> \<not> occ pat tx (j + s))"
proof -
  let ?m = "length pat" and ?g = "b_good_shift B"
  have B: "bm_ok ix asz pat B" "in_alphabet ix asz tx" using assms(1) by (simp_all add: bm_good_def)
  then have b: "pat \<noteq> []" "b_pat B = pat" "shift_safe pat ?g" "bad_safe ix asz pat (b_bad_char B)" by (simp_all add: bm_ok_def)
  have g: "get_at ?g i = Some (?g ! i)" "0 < ?g ! i" if "i < ?m" for i using b(3) that by (simp_all add: shift_safe_def mem_simps)
  have "tail_match pat tx j ?m" by (simp add: tail_match_def)
  then obtain r where r: "r \<le> ?m" "bm_compare pat (tx @ ys) j ?m = Some r" "tail_match pat tx j r" "\<forall>i. r = Suc i \<longrightarrow> pat ! i \<noteq> tx ! (i + j)"
    using bm_compare_ok [OF assms(2) order_refl, of ys] by blast
  show ?thesis
  proof (cases r)
    case 0
    then have "occ pat tx j" using r(3) tail_match_0 [OF assms(2)] by simp
    moreover have "\<forall>s. 0 < s \<longrightarrow> s < ?g ! 0 \<longrightarrow> \<not> occ pat tx (j + s)" using match_shift_skips [OF b(3,1)] r(3) 0 by blast
    ultimately show ?thesis using 0 r(2) g [of 0] b(1,2) by (simp add: bm_probe_def del: get_at_eq_Some)
  next
    case (Suc i)
    let ?b = "int (b_bad_char B ! nat (ix (tx ! (i + j)))) - int ?m + 1 + int i"
    have i: "i < ?m" "pat ! i \<noteq> tx ! (i + j)" "i + j < length tx" using r(1,4) Suc assms(2) by auto
    have "\<not> tail_match pat tx j 0" using i(1,2) by (auto simp: tail_match_def)
    then have no: "\<not> occ pat tx j" using tail_match_0 [OF assms(2)] by simp
    note c = bc_shift_eq [OF B i(3)]
    have "\<not> occ pat tx (j + s)" if s: "0 < s" "s < nat (max (int (?g ! i)) ?b)" for s
    proof (cases "s < ?g ! i")
      case True
      then show ?thesis using good_shift_skips [OF b(3) i(1)] r(3) Suc i(2) s(1) by blast
    next
      case False
      then have "int s < ?b" using s(2) by linarith
      then show ?thesis using bad_char_skips [OF b(4) i(1) s(1) _ c(2)] by blast
    qed
    moreover have "0 < nat (max (int (?g ! i)) ?b)" using g(2) [OF i(1)] by linarith
    ultimately show ?thesis using Suc r(2) g(1) [OF i(1)] no c(1) b(2) by (simp add: bm_probe_def del: get_at_eq_Some)
  qed
qed

interpretation bm: window_search pat tx "bm_probe ix B (tx @ ys)" "bm_good ix asz pat B tx"
  for pat tx ix asz B ys
proof unfold_locales
  fix j u h k u' i
  assume a: "bm_good ix asz pat B tx j u" "j + length pat \<le> length tx"
  note p = bm_probe_ok [OF a, of ys]
  show "\<exists>k s'. bm_probe ix B (tx @ ys) u j = Some (occ pat tx j, k, s') \<and> 0 < k \<and> bm_good ix asz pat B tx (j + k) s'"
    using p a by (auto simp: bm_good_def)
  show "\<not> occ pat tx i" if b: "bm_probe ix B (tx @ ys) u j = Some (h, k, u')" "j < i" "i < j + k"
  proof -
    have "0 < i - j" "i - j < k" "j + (i - j) = i" using b(2,3) by auto
    moreover have "\<forall>s. 0 < s \<longrightarrow> s < k \<longrightarrow> \<not> occ pat tx (j + s)" using p b(1) by auto
    ultimately show ?thesis by metis
  qed
qed

section \<open>Turbo mode\<close>

text \<open>The remembered factor matches the window.\<close>

definition turbo_good :: "('a \<Rightarrow> int) \<Rightarrow> nat \<Rightarrow> 'a list \<Rightarrow> 'a bm_search \<Rightarrow> 'a list \<Rightarrow> nat \<Rightarrow> nat \<times> nat \<Rightarrow> bool" where
  "turbo_good ix asz pat B tx j us \<longleftrightarrow> bm_ok ix asz pat B \<and> in_alphabet ix asz tx \<and>
    (case us of (u, shift) \<Rightarrow> u = 0 \<or> u + shift \<le> length pat \<and> (\<forall>t. length pat - shift - u \<le> t \<longrightarrow> t < length pat - shift \<longrightarrow> pat ! t = tx ! (t + j)))"

lemma turbo_compare_ok:
  assumes "j + length pat \<le> length tx" "- 1 \<le> i" "i < int (length pat)" "tail_match pat tx j (nat (i + 1))"
    "u = 0 \<or> u + shift \<le> length pat \<and> (\<forall>t. length pat - shift - u \<le> t \<longrightarrow> t < length pat - shift \<longrightarrow> pat ! t = tx ! (t + j))"
  shows "\<exists>i'. turbo_compare pat (tx @ ys) j u shift i = Some i' \<and> - 1 \<le> i' \<and> i' < int (length pat) \<and> tail_match pat tx j (nat (i' + 1)) \<and>
    (0 \<le> i' \<longrightarrow> pat ! nat i' \<noteq> tx ! (nat i' + j))"
  using assms(2-4)
proof (induction "nat (i + 1)" arbitrary: i rule: less_induct)
  case less
  show ?case
  proof (cases "0 \<le> i")
    case False
    then show ?thesis using less.prems by (subst turbo_compare.simps) auto
  next
    case True
    have r: "get_at pat (nat i) = Some (pat ! nat i)" "get_at (tx @ ys) (nat i + j) = Some (tx ! (nat i + j))"
      using less.prems True assms(1) by (auto simp: get_at_def nth_append)
    show ?thesis
    proof (cases "pat ! nat i = tx ! (nat i + j)")
      case False
      then show ?thesis using less.prems True r by (subst turbo_compare.simps) (auto simp del: get_at_eq_Some)
    next
      case eq: True
      let ?i = "if u \<noteq> 0 \<and> i - 1 = int (length pat) - 1 - int shift then i - 1 - int u else i - 1"
      have t: "tail_match pat tx j (nat i)"
        using less.prems(3) eq True unfolding tail_match_def by (metis Suc_leI Suc_nat_eq_nat_zadd1 add.commute le_neq_implies_less)
      have "tail_match pat tx j (nat (?i + 1)) \<and> - 1 \<le> ?i"
      proof (cases "u \<noteq> 0 \<and> i - 1 = int (length pat) - 1 - int shift")
        case s: True
        then have u: "u + shift \<le> length pat" "\<forall>t. length pat - shift - u \<le> t \<longrightarrow> t < length pat - shift \<longrightarrow> pat ! t = tx ! (t + j)"
          "nat i = length pat - shift" "nat (?i + 1) = length pat - shift - u" using assms(5) True by auto
        have "tail_match pat tx j (length pat - shift - u)" using t u(2) unfolding tail_match_def u(3) by (meson not_le)
        then show ?thesis using s u by auto
      qed (use t True in auto)
      then have "\<exists>i'. turbo_compare pat (tx @ ys) j u shift ?i = Some i' \<and> - 1 \<le> i' \<and> i' < int (length pat) \<and> tail_match pat tx j (nat (i' + 1)) \<and>
        (0 \<le> i' \<longrightarrow> pat ! nat i' \<noteq> tx ! (nat i' + j))"
        using True less.prems by (intro less.hyps) auto
      moreover have "turbo_compare pat (tx @ ys) j u shift i = turbo_compare pat (tx @ ys) j u shift ?i"
        using True eq r by (subst turbo_compare.simps) (simp add: Let_def del: get_at_eq_Some)
      ultimately show ?thesis by simp
    qed
  qed
qed

text \<open>A shift by the good suffix leaves a matching factor to remember.\<close>

lemma turbo_remember:
  assumes "shift_safe pat gs" "i < length pat" "\<forall>t. n \<le> t \<longrightarrow> t < length pat \<longrightarrow> pat ! t = tx ! (t + j)" "u \<le> length pat - n" "u + gs ! i \<le> length pat"
    "i < n \<or> i = 0 \<and> n = 0"
  shows "\<forall>t. length pat - gs ! i - u \<le> t \<longrightarrow> t < length pat - gs ! i \<longrightarrow> pat ! t = tx ! (t + (j + gs ! i))"
proof (intro allI impI)
  fix t assume t: "length pat - gs ! i - u \<le> t" "t < length pat - gs ! i"
  let ?x = "t + gs ! i"
  have g: "0 < gs ! i" "gs ! i < length pat" "admissible pat i (gs ! i)" using assms(1,2) t by (auto simp: shift_safe_def)
  have x: "n \<le> ?x" "?x < length pat" "i < ?x" "gs ! i \<le> ?x" using t assms(4-6) g(1) by auto
  then have "pat ! (?x - gs ! i) = pat ! ?x" using g(3) unfolding admissible_def by blast
  then show "pat ! t = tx ! (t + (j + gs ! i))" using assms(3) x(1,2) by (simp add: ac_simps)
qed

lemma turbo_probe_ok:
  assumes "turbo_good ix asz pat B tx j us" "j + length pat \<le> length tx"
  shows "\<exists>k us'. turbo_probe ix B (tx @ ys) us j = Some (occ pat tx j, k, us') \<and> 0 < k \<and> turbo_good ix asz pat B tx (j + k) us'"
proof -
  let ?m = "length pat" and ?g = "b_good_shift B"
  obtain u shift where us: "us = (u, shift)" by (cases us)
  have B: "bm_ok ix asz pat B" "in_alphabet ix asz tx" using assms(1) by (simp_all add: turbo_good_def)
  then have b: "pat \<noteq> []" "b_pat B = pat" "shift_safe pat ?g" by (simp_all add: bm_ok_def)
  have g: "get_at ?g i = Some (?g ! i)" "0 < ?g ! i" "?g ! i \<le> ?m" if "i < ?m" for i using b(3) that by (simp_all add: shift_safe_def mem_simps)
  have "tail_match pat tx j (nat (int ?m - 1 + 1))" by (simp add: tail_match_def)
  then obtain i where i: "turbo_compare pat (tx @ ys) j u shift (int ?m - 1) = Some i" "- 1 \<le> i" "i < int ?m" "tail_match pat tx j (nat (i + 1))"
    "0 \<le> i \<longrightarrow> pat ! nat i \<noteq> tx ! (nat i + j)"
    using turbo_compare_ok [OF assms(2), of "int ?m - 1" u shift ys] assms(1) b(1) by (auto simp: turbo_good_def us)
  show ?thesis
  proof (cases "i < 0")
    case True
    then have t: "tail_match pat tx j 0" using i(2,4) by simp
    have "turbo_good ix asz pat B tx (j + ?g ! 0) (?m - ?g ! 0, ?g ! 0)"
      using turbo_remember [OF b(3), of 0 0 tx j "?m - ?g ! 0"] t b(1) B g(3) [of 0] by (auto simp: turbo_good_def tail_match_def)
    then show ?thesis using True i(1) t tail_match_0 [OF assms(2)] g [of 0] b(1,2) by (simp add: turbo_probe_def us del: get_at_eq_Some)
  next
    case False
    define n where "n = nat i"
    have n: "i = int n" "n < ?m" "pat ! n \<noteq> tx ! (n + j)" "n + j < length tx" "nat (i + 1) = Suc n" using False i(3,5) assms(2) by (auto simp: n_def)
    have "\<not> tail_match pat tx j 0" using n(2,3) by (auto simp: tail_match_def)
    then have no: "\<not> occ pat tx j" using tail_match_0 [OF assms(2)] by simp
    obtain bc where bc: "bc_shift ix B (tx @ ys) n j = Some bc" using bc_shift_eq(1) [OF B n(4)] by blast
    let ?v = "?m - 1 - n"
    let ?s = "max (max (int u - int ?v) bc) (int (?g ! n))"
    let ?s' = "if int u - int ?v < bc then max ?s (int u + 1) else ?s"
    have pos: "0 < nat ?s" "0 < nat ?s'" using g(2) [OF n(2)] by (auto simp: less_max_iff_disj)
    have r: "turbo_probe ix B (tx @ ys) us j =
        Some (if ?s = int (?g ! n) then (False, nat ?s, min (?m - nat ?s) ?v, nat ?s) else (False, nat ?s', 0, nat ?s'))"
      using i(1) n(1) bc g(1) [OF n(2)] b(2) by (auto simp: turbo_probe_def us Let_def simp del: get_at_eq_Some)
    have kept: "turbo_good ix asz pat B tx (j + ?g ! n) (min (?m - ?g ! n) ?v, ?g ! n)"
      using turbo_remember [OF b(3) n(2), of "Suc n" tx j "min (?m - ?g ! n) ?v"] i(4) n(2,5) B g(3) [OF n(2)] by (auto simp: turbo_good_def tail_match_def)
    have forgot: "turbo_good ix asz pat B tx (j + k) (0, k)" for k using B by (simp add: turbo_good_def)
    show ?thesis
    proof (cases "?s = int (?g ! n)")
      case True
      then have "turbo_probe ix B (tx @ ys) us j = Some (occ pat tx j, ?g ! n, min (?m - ?g ! n) ?v, ?g ! n)" unfolding r using no by simp
      then show ?thesis using kept g(2) [OF n(2)] by blast
    next
      case False
      then have "turbo_probe ix B (tx @ ys) us j = Some (occ pat tx j, nat ?s', 0, nat ?s')" unfolding r using no by (simp only: if_False)
      then show ?thesis using forgot pos(2) by blast
    qed
  qed
qed

interpretation turbo: window_scan pat tx "turbo_probe ix B (tx @ ys)" "turbo_good ix asz pat B tx"
  for pat tx ix asz B ys
  by unfold_locales (rule turbo_probe_ok)

section \<open>Properties\<close>

text \<open>
  C17: Boyer-Moore. For a pattern that is not empty, when all elements of pattern and text have an index in the table of bad characters, building the tables and
  searching end without an access outside pattern, tables or text, and \<open>matchall\<close> returns exactly the occurrences, overlapping ones too, in
  ascending order.
\<close>

theorem boyer_moore_finds_all:
  assumes "pat \<noteq> []" "in_alphabet ix asz pat" "in_alphabet ix asz tx"
  shows "\<exists>B. bm_search_new ix asz (pat @ xs) (int (length pat)) = Some (Inr B) \<and>
    bm_matchall ix B (tx @ ys) (int (length tx)) = Some (Inr (occurrences pat tx))"
proof -
  obtain B where B: "bm_search_new ix asz (pat @ xs) (int (length pat)) = Some (Inr B)" "bm_ok ix asz pat B"
    using bm_search_new_ok [OF assms(1,2)] by blast
  then have "bm_good ix asz pat B tx 0 ()" "b_pat B = pat" using assms(3) by (simp_all add: bm_good_def bm_ok_def)
  then show ?thesis using B(1) bm.window_loop_all [of ix asz pat B tx "()" ys] by (simp add: bm_matchall_def)
qed

theorem boyer_moore_finds_all_witness:
  "\<exists>B. bm_search_new (\<lambda>c. int (of_char c)) 256 ''anan'' 4 = Some (Inr B) \<and>
    bm_matchall (\<lambda>c. int (of_char c)) B ''bananana'' 8 = Some (Inr (occurrences ''anan'' ''bananana''))"
  using boyer_moore_finds_all [of "''anan''" "\<lambda>c. int (of_char c)" 256 "''bananana''" "[]" "[]"] by (simp add: in_alphabet_def)

text \<open>
  C39: turbo mode of Boyer-Moore. Under the same conditions \<open>turbo_matchall\<close> ends without a fault and everything it reports is an occurrence, in ascending
  order. But it does not report all: of the two occurrences of \<open>abbcbabb\<close> in \<open>abbcbabbabbcbabb\<close> it misses the second, which \<open>matchall\<close> finds.
\<close>

theorem turbo_sound_not_complete:
  "(pat \<noteq> [] \<longrightarrow> in_alphabet ix asz pat \<longrightarrow> in_alphabet ix asz tx \<longrightarrow>
    (\<exists>B rs. bm_search_new ix asz (pat @ xs) (int (length pat)) = Some (Inr B) \<and>
      turbo_matchall ix B (tx @ ys) (int (length tx)) = Some (Inr rs) \<and> sorted_wrt (<) rs \<and> (\<forall>p\<in>set rs. occ pat tx p))) \<and>
   (case bm_search_new (\<lambda>c. int (of_char c)) 256 ''abbcbabb'' 8 of
      Some (Inr B) \<Rightarrow> turbo_matchall (\<lambda>c. int (of_char c)) B ''abbcbabbabbcbabb'' 16 = Some (Inr [0]) \<and>
        bm_matchall (\<lambda>c. int (of_char c)) B ''abbcbabbabbcbabb'' 16 = Some (Inr [0, 8])
    | _ \<Rightarrow> False)"
proof (intro conjI impI)
  assume a: "pat \<noteq> []" "in_alphabet ix asz pat" "in_alphabet ix asz tx"
  obtain B where B: "bm_search_new ix asz (pat @ xs) (int (length pat)) = Some (Inr B)" "bm_ok ix asz pat B"
    using bm_search_new_ok [OF a(1,2)] by blast
  then have "turbo_good ix asz pat B tx 0 (0, length pat)" "b_pat B = pat" using a(3) by (simp_all add: turbo_good_def bm_ok_def)
  then show "\<exists>B rs. bm_search_new ix asz (pat @ xs) (int (length pat)) = Some (Inr B) \<and>
      turbo_matchall ix B (tx @ ys) (int (length tx)) = Some (Inr rs) \<and> sorted_wrt (<) rs \<and> (\<forall>p\<in>set rs. occ pat tx p)"
    using B(1) turbo.window_loop_sound [of ix asz pat B tx 0 "(0, length pat)" ys "[]"] by (auto simp: turbo_matchall_def)
qed code_simp

theorem turbo_sound_not_complete_witness:
  "\<exists>B rs. bm_search_new (\<lambda>c. int (of_char c)) 256 ''anan'' 4 = Some (Inr B) \<and>
    turbo_matchall (\<lambda>c. int (of_char c)) B ''bananana'' 8 = Some (Inr rs) \<and> (\<forall>p\<in>set rs. occ ''anan'' ''bananana'' p)"
  using conjunct1 [OF turbo_sound_not_complete [of "''anan''" "\<lambda>c. int (of_char c)" 256 "''bananana''" "[]" "[]"]] by (auto simp: in_alphabet_def)

text \<open>
  Instantiated with \<open>char\<close>, a pattern with an element above 127 indexes the table of bad characters below its start.
\<close>

theorem boyer_moore_negative_index:
  assumes "length pat \<ge> 2" "ix (hd pat) < 0"
  shows "bm_search_new ix asz pat (int (length pat)) = None"
proof -
  obtain a b r where "pat = a # b # r" using assms(1) by (cases pat; cases "tl pat") auto
  then have "calc_bad_char ix asz pat = None" using assms(2) by (simp add: calc_bad_char_def put_ix_def get_at_def)
  then show ?thesis by (simp add: bm_search_new_def)
qed

end
