(* ===== verification/Pq_Spec.thy ===== *)
theory Pq_Spec
  imports Map_Spec "HOL-Library.Multiset"
begin

text \<open>
  What a bounded priority queue promises. The specification is a relation on multisets, because of several elements with the same least key any may be
  returned; the locale \<open>priority_queue\<close> gives from the laws of the two operations that every run is one of the specification, and that a queue that is
  drained yields its elements in order.
\<close>

datatype 'a pq_op = Pq_insert 'a | Pq_pop

datatype 'a pq_res = Pq_done bool | Pq_item "'a option"

inductive pq_step :: "('a \<Rightarrow> 'k::linorder) \<Rightarrow> nat \<Rightarrow> 'a multiset \<Rightarrow> 'a pq_op \<Rightarrow> 'a pq_res \<Rightarrow> 'a multiset \<Rightarrow> bool" for key cap where
  insert: "size M < cap \<Longrightarrow> pq_step key cap M (Pq_insert x) (Pq_done True) (add_mset x M)"
| full: "cap \<le> size M \<Longrightarrow> pq_step key cap M (Pq_insert x) (Pq_done False) M"
| pop: "\<forall>y \<in># M. key x \<le> key y \<Longrightarrow> pq_step key cap (add_mset x M) Pq_pop (Pq_item (Some x)) M"
| empty: "pq_step key cap {#} Pq_pop (Pq_item None) {#}"

inductive pq_run :: "('a \<Rightarrow> 'k::linorder) \<Rightarrow> nat \<Rightarrow> 'a multiset \<Rightarrow> 'a pq_op list \<Rightarrow> 'a pq_res list \<Rightarrow> 'a multiset \<Rightarrow> bool" for key cap where
  Nil: "pq_run key cap M [] [] M"
| Cons: "pq_step key cap M x r M' \<Longrightarrow> pq_run key cap M' xs rs M'' \<Longrightarrow> pq_run key cap M (x # xs) (r # rs) M''"

inductive_cases pq_pop_cases: "pq_step key cap M Pq_pop r M'"
inductive_cases pq_run_ConsE: "pq_run key cap M (x # xs) rs M''"
inductive_cases pq_run_NilE: "pq_run key cap M [] rs M''"

text \<open>Popping as often as there are elements returns them all, in order of their keys.\<close>

lemma pq_run_drain:
  assumes "pq_run key cap M (replicate n Pq_pop) rs M'" "n = size M"
  shows "\<exists>ys. rs = map (\<lambda>y. Pq_item (Some y)) ys \<and> mset ys = M \<and> sorted (map key ys) \<and> M' = {#}"
  using assms
proof (induction n arbitrary: M rs)
  case 0
  then show ?case by (auto elim: pq_run_NilE)
next
  case (Suc n)
  from Suc.prems(1) obtain r M1 rs1 where 1: "rs = r # rs1" "pq_step key cap M Pq_pop r M1" "pq_run key cap M1 (replicate n Pq_pop) rs1 M'"
    by (auto elim: pq_run_ConsE)
  from 1(2) Suc.prems(2) obtain x where x: "r = Pq_item (Some x)" "M = add_mset x M1" "\<forall>y \<in># M1. key x \<le> key y"
    by (cases rule: pq_pop_cases) auto
  from Suc.IH [OF 1(3)] Suc.prems(2) x(2) obtain ys where
    "rs1 = map (\<lambda>y. Pq_item (Some y)) ys" "mset ys = M1" "sorted (map key ys)" "M' = {#}" by auto
  then show ?case using 1(1) x by (intro exI [of _ "x # ys"]) auto
qed

definition pq_exec :: "('a \<Rightarrow> 's \<Rightarrow> (bool \<times> 's) option) \<Rightarrow> ('s \<Rightarrow> ('a option \<times> 's) option) \<Rightarrow> 'a pq_op \<Rightarrow> 's \<Rightarrow> ('a pq_res \<times> 's) option" where
  "pq_exec ins pop x s = (case x of Pq_insert a \<Rightarrow> map_option (map_prod Pq_done (\<lambda>s. s)) (ins a s) | Pq_pop \<Rightarrow> map_option (map_prod Pq_item (\<lambda>s. s)) (pop s))"

locale priority_queue =
  fixes ins :: "'a \<Rightarrow> 's \<Rightarrow> (bool \<times> 's) option" and pop :: "'s \<Rightarrow> ('a option \<times> 's) option"
    and key :: "'a \<Rightarrow> 'k::linorder" and pinv :: "nat \<Rightarrow> 's \<Rightarrow> bool" and elems :: "'s \<Rightarrow> 'a multiset"
  assumes ins_full: "pinv cap s \<Longrightarrow> cap \<le> size (elems s) \<Longrightarrow> ins x s = Some (False, s)"
    and ins_room: "pinv cap s \<Longrightarrow> size (elems s) < cap \<Longrightarrow>
      \<exists>s'. ins x s = Some (True, s') \<and> pinv cap s' \<and> elems s' = add_mset x (elems s)"
    and pop_empty: "pinv cap s \<Longrightarrow> elems s = {#} \<Longrightarrow> pop s = Some (None, s)"
    and pop_least: "pinv cap s \<Longrightarrow> elems s \<noteq> {#} \<Longrightarrow>
      \<exists>x s'. pop s = Some (Some x, s') \<and> pinv cap s' \<and> elems s = add_mset x (elems s') \<and> (\<forall>y \<in># elems s'. key x \<le> key y)"
begin

lemma exec_step:
  assumes "pinv cap s"
  shows "\<exists>r s'. pq_exec ins pop x s = Some (r, s') \<and> pinv cap s' \<and> pq_step key cap (elems s) x r (elems s')"
proof -
  consider (room) a where "x = Pq_insert a" "size (elems s) < cap" | (full) a where "x = Pq_insert a" "cap \<le> size (elems s)"
    | (least) "x = Pq_pop" "elems s \<noteq> {#}" | (none) "x = Pq_pop" "elems s = {#}"
    by (cases x) (auto simp: not_less [symmetric])
  then show ?thesis
  proof cases
    case room
    with ins_room [OF assms room(2), of a] obtain s' where "pq_exec ins pop x s = Some (Pq_done True, s')" "pinv cap s'" "elems s' = add_mset a (elems s)"
      by (auto simp: pq_exec_def)
    then show ?thesis using pq_step.insert [OF room(2), of key a] room(1) by auto
  next
    case full
    then have "pq_exec ins pop x s = Some (Pq_done False, s)" using ins_full [OF assms full(2), of a] by (simp add: pq_exec_def)
    then show ?thesis using pq_step.full [OF full(2), of key a] full(1) assms by auto
  next
    case least
    with pop_least [OF assms least(2)] obtain a s' where "pq_exec ins pop x s = Some (Pq_item (Some a), s')" "pinv cap s'"
      "elems s = add_mset a (elems s')" "\<forall>y \<in># elems s'. key a \<le> key y" by (auto simp: pq_exec_def)
    then show ?thesis using pq_step.pop [of "elems s'" key a cap] least(1) by auto
  next
    case none
    then have "pq_exec ins pop x s = Some (Pq_item None, s)" using pop_empty [OF assms none(2)] by (simp add: pq_exec_def)
    then show ?thesis using pq_step.empty [of key cap] none assms by auto
  qed
qed

theorem exec_run:
  assumes "pinv cap s"
  shows "\<exists>rs s'. table_ops (pq_exec ins pop) xs s = Some (rs, s') \<and> pinv cap s' \<and> pq_run key cap (elems s) xs rs (elems s')"
  using assms
proof (induction xs arbitrary: s)
  case Nil
  then show ?case by (simp add: pq_run.Nil)
next
  case (Cons x xs)
  from exec_step [OF Cons.prems] obtain r s1 where 1: "pq_exec ins pop x s = Some (r, s1)" "pinv cap s1" "pq_step key cap (elems s) x r (elems s1)"
    by blast
  from Cons.IH [OF 1(2)] obtain rs s2 where "table_ops (pq_exec ins pop) xs s1 = Some (rs, s2)" "pinv cap s2" "pq_run key cap (elems s1) xs rs (elems s2)"
    by blast
  then show ?case using 1 pq_run.Cons [OF 1(3)] by simp
qed

theorem drain_sorts:
  assumes "pinv cap s"
  shows "\<exists>ys s'. table_ops (pq_exec ins pop) (replicate (size (elems s)) Pq_pop) s = Some (map (\<lambda>y. Pq_item (Some y)) ys, s') \<and>
    mset ys = elems s \<and> sorted (map key ys)"
  using exec_run [OF assms, of "replicate (size (elems s)) Pq_pop"] pq_run_drain by blast

end

end
