(* ===== verification/Minheap.thy ===== *)
theory Minheap
  imports Pq_Spec
begin

text \<open>
  The array heap of \<open>inc/utils/minheap.h\<close>. What a user of the template supplies is the argument \<open>C\<close>: the comparisons \<open>Comp::gt\<close> and \<open>Comp::lt\<close>, and
  \<open>swap\<close>, which the header uses and does not declare. Positions never leave the range of \<open>int\<close>.
\<close>

record 'a comp =
  cgt :: "'a \<Rightarrow> 'a \<Rightarrow> bool"
  clt :: "'a \<Rightarrow> 'a \<Rightarrow> bool"
  cswap :: "'a list \<Rightarrow> nat \<Rightarrow> nat \<Rightarrow> 'a list option"

record 'a minheap =
  mh_heap :: "'a list"
  mh_size :: nat
  mh_n :: nat

definition isLeaf :: "nat \<Rightarrow> nat \<Rightarrow> bool" where
  "isLeaf n pos \<longleftrightarrow> pos \<ge> n div 2 \<and> pos < n"

definition leftchild :: "nat \<Rightarrow> nat" where
  "leftchild pos = 2 * pos + 1"

definition rightchild :: "nat \<Rightarrow> nat" where
  "rightchild pos = 2 * pos + 2"

text \<open>\<open>(pos - 1) / 2\<close> in \<open>int\<close>: zero for the root too.\<close>

definition parent :: "nat \<Rightarrow> nat" where
  "parent pos = (pos - 1) div 2"

text \<open>\<open>siftdown\<close>; a position that is no leaf and outside the heap goes on to children that do not exist.\<close>

partial_function (option) siftdown :: "'a comp \<Rightarrow> nat \<Rightarrow> 'a list \<Rightarrow> nat \<Rightarrow> 'a list option" where
  "siftdown C n h pos =
    (if isLeaf n pos then Some h
     else do {
       let j = leftchild pos;
       let rc = rightchild pos;
       j \<leftarrow> (if rc < n then do { a \<leftarrow> get_at h j; b \<leftarrow> get_at h rc; Some (if cgt C a b then rc else j) } else Some j);
       a \<leftarrow> get_at h pos;
       b \<leftarrow> get_at h j;
       if \<not> cgt C a b then Some h
       else do { h \<leftarrow> cswap C h pos j; siftdown C n h j } })"

declare siftdown.simps [code]









text \<open>\<open>remove\<close>: the loop that pushes the element up exchanges it with its parent but goes on at the same position.\<close>

partial_function (option) push_up :: "'a comp \<Rightarrow> 'a list \<Rightarrow> nat \<Rightarrow> 'a list option" where
  "push_up C h pos =
    (if pos \<noteq> 0 then
       do { a \<leftarrow> get_at h pos; b \<leftarrow> get_at h (parent pos);
            if clt C a b then do { h \<leftarrow> cswap C h pos (parent pos); push_up C h pos } else Some h }
     else Some h)"

declare push_up.simps [code]

definition heap_remove :: "'a comp \<Rightarrow> int \<Rightarrow> 'a minheap \<Rightarrow> ('a option \<times> 'a minheap) option" where
  "heap_remove C pos H =
    (if pos < 0 \<or> pos \<ge> int (mh_n H) then Some (None, H)
     else do { let n = mh_n H - 1;
               h \<leftarrow> cswap C (mh_heap H) (nat pos) n;
               h \<leftarrow> push_up C h (nat pos);
               h \<leftarrow> siftdown C n h (nat pos);
               it \<leftarrow> get_at h n;
               Some (Some it, H\<lparr>mh_heap := h, mh_n := n\<rparr>) })"

section \<open>Heap order\<close>

text \<open>What the supplied functions do: they compare keys, and exchange two elements.\<close>

definition exchange :: "'a list \<Rightarrow> nat \<Rightarrow> nat \<Rightarrow> 'a list option" where
  "exchange h i j = (if i < length h \<and> j < length h then Some (h[i := h ! j, j := h ! i]) else None)"

definition comp_ok :: "('a \<Rightarrow> 'k::linorder) \<Rightarrow> 'a comp \<Rightarrow> bool" where
  "comp_ok key C \<longleftrightarrow> (\<forall>a b. cgt C a b \<longleftrightarrow> key b < key a) \<and> (\<forall>a b. clt C a b \<longleftrightarrow> key a < key b) \<and> cswap C = exchange"

lemma comp_okD: "comp_ok key C \<Longrightarrow> cgt C a b \<longleftrightarrow> key b < key a" "comp_ok key C \<Longrightarrow> clt C a b \<longleftrightarrow> key a < key b"
  "comp_ok key C \<Longrightarrow> cswap C = exchange"
  by (simp_all add: comp_ok_def)

definition link_ok :: "('a \<Rightarrow> 'k::linorder) \<Rightarrow> 'a list \<Rightarrow> nat \<Rightarrow> bool" where
  "link_ok key h i \<longleftrightarrow> key (h ! parent i) \<le> key (h ! i)"

text \<open>Every element whose parent is at least \<open>lo\<close> is in order with it.\<close>

definition heap_from :: "('a \<Rightarrow> 'k::linorder) \<Rightarrow> nat \<Rightarrow> nat \<Rightarrow> 'a list \<Rightarrow> bool" where
  "heap_from key lo n h \<longleftrightarrow> (\<forall>i. 0 < i \<longrightarrow> i < n \<longrightarrow> lo \<le> parent i \<longrightarrow> link_ok key h i)"

lemma heap_from_code [code]: "heap_from key lo n h \<longleftrightarrow> list_all (\<lambda>i. lo \<le> parent i \<longrightarrow> link_ok key h i) [1..<n]"
  by (auto simp: heap_from_def list_all_iff)



text \<open>The first \<open>n\<close> elements are rearranged, the others stay.\<close>

definition rearranged :: "nat \<Rightarrow> 'a list \<Rightarrow> 'a list \<Rightarrow> bool" where
  "rearranged n h h' \<longleftrightarrow> length h' = length h \<and> mset (take n h') = mset (take n h) \<and> drop n h' = drop n h"

lemma rearranged_refl [simp]: "rearranged n h h"
  by (simp add: rearranged_def)



lemma parent_child [simp]: "parent (leftchild p) = p" "parent (rightchild p) = p"
  by (simp_all add: parent_def leftchild_def rightchild_def)


lemma parent_less [simp]: "0 < i \<Longrightarrow> parent i < i"
  unfolding parent_def by presburger





section \<open>Sifting\<close>

lemma parent_ne [simp]: "0 < i \<Longrightarrow> parent i \<noteq> i" "0 < i \<Longrightarrow> i \<noteq> parent i"
  unfolding parent_def by presburger+








section \<open>The heap as a priority queue\<close>

definition mh_inv :: "('a \<Rightarrow> 'k::linorder) \<Rightarrow> nat \<Rightarrow> 'a minheap \<Rightarrow> bool" where
  "mh_inv key cap H \<longleftrightarrow> mh_size H = cap \<and> mh_n H \<le> cap \<and> cap \<le> length (mh_heap H) \<and> heap_from key 0 (mh_n H) (mh_heap H)"








definition nat_comp :: "nat comp" where
  "nat_comp = \<lparr>cgt = \<lambda>a b. b < a, clt = \<lambda>a b. a < b, cswap = exchange\<rparr>"



section \<open>Removal at a position\<close>

text \<open>
  Removing the last element of a heap that fills its array always faults: the element is exchanged with itself, the heap shrinks, and \<open>siftdown\<close> starts at a
  position that is outside the heap, is no leaf for that reason, and so compares with children beyond the array.
\<close>

theorem heap_remove_last_faults:
  assumes C: "comp_ok key C" and inv: "mh_inv key cap H" and n: "mh_n H = length (mh_heap H)" "mh_n H \<noteq> 0"
  shows "heap_remove C (int (mh_n H - 1)) H = None"
proof -
  obtain m where m: "mh_n H = Suc m" using n(2) by (cases "mh_n H") auto
  let ?h = "mh_heap H"
  have "cswap C ?h m m = Some ?h" using m n by (simp add: comp_okD(3) [OF C] exchange_def)
  moreover have "push_up C ?h m = Some ?h"
  proof (cases "m = 0")
    case False
    then have "parent m < Suc m" "link_ok key ?h m" using inv m parent_less [of m] by (linarith, simp add: mh_inv_def heap_from_def)
    moreover have "\<not> clt C (?h ! m) (?h ! parent m)" using calculation(2) by (simp add: comp_okD(2) [OF C] link_ok_def not_less)
    ultimately show ?thesis using False m n by (subst push_up.simps) (simp add: get_at_def)
  qed (simp add: push_up.simps)
  moreover have "siftdown C m ?h m = None"
    using m n by (subst siftdown.simps) (simp add: isLeaf_def leftchild_def rightchild_def Let_def get_at_def)
  ultimately show ?thesis using m by (simp add: heap_remove_def Let_def)
qed

text \<open>
  And an element that moves up past its parent stays there: 4 replaces 40 below 20 and is exchanged with it, but not with 10, its new parent.
\<close>

theorem heap_remove_breaks_order:
  "map_option (mh_heap \<circ> snd)
     (heap_remove nat_comp 7 \<lparr>mh_heap = [0, 10, 1, 20, 30, 2, 3, 40, 50, 60, 70, 4], mh_size = 12, mh_n = 12\<rparr>) =
     Some [0, 10, 1, 4, 30, 2, 3, 20, 50, 60, 70, 40] \<and>
   mh_inv (\<lambda>x. x) 12 \<lparr>mh_heap = [0, 10, 1, 20, 30, 2, 3, 40, 50, 60, 70, 4 :: nat], mh_size = 12, mh_n = 12\<rparr> \<and>
   \<not> heap_from (\<lambda>x. x) 0 11 [0, 10, 1, 4, 30, 2, 3, 20, 50, 60, 70, 40 :: nat]"
  by code_simp

end
