(* ===== verification/Ringbuf.thy ===== *)
theory Ringbuf
  imports Bits Map_Spec
begin

text \<open>
  The ring of \<open>inc/fast/ringbuf.h\<close>: a table of objects with a head and a tail for the producers and for the consumers. One step of a thread is
  one atomic access to an index, or the copy of one object between the caller's table and the ring. The control points of the four functions
  \<open>__rte_ring_mp_do_enqueue\<close>, \<open>__rte_ring_sp_do_enqueue\<close>, \<open>__rte_ring_mc_do_dequeue\<close> and \<open>__rte_ring_sc_do_dequeue\<close> are the constructors of \<open>rpc\<close>, their local
  variables its arguments. This theory runs one operation at a time; \<open>Ringbuf_Threads\<close> interleaves the steps of any number of threads.
  The type \<open>uint_fast32_t\<close> of the indices has 64 bits.
\<close>

datatype behavior = RTE_RING_QUEUE_FIXED | RTE_RING_QUEUE_VARIABLE

record 'a rte_ring =
  rr_size :: u32
  rr_mask :: u32
  sp_enq :: bool
  sc_deq :: bool
  prod_head :: u64
  prod_tail :: u64
  cons_head :: u64
  cons_tail :: u64
  rr_ring :: "'a list"

text \<open>The three cache lines of \<open>struct rte_ring\<close> come before the table.\<close>

definition rte_ring_size :: "u32 \<Rightarrow> u64" where
  "rte_ring_size count = (let sz = 192 + ucast count * 8 in ALIGN_UP sz 64)"

definition rte_ring_init :: "u32 \<Rightarrow> u32 \<Rightarrow> 'a list \<Rightarrow> 'a rte_ring" where
  "rte_ring_init count flags tab =
    \<lparr>rr_size = count, rr_mask = count - 1, sp_enq = (flags AND 1 > 0), sc_deq = (flags AND 2 > 0),
     prod_head = 0, prod_tail = 0, cons_head = 0, cons_tail = 0, rr_ring = tab\<rparr>"

definition round_count :: "u32 \<Rightarrow> u32" where
  "round_count count = (if count AND (count - 1) \<noteq> 0 then NEXTPOW2_u32 count else count)"

text \<open>\<open>__alloc\<close> asserts that there is memory and returns it zeroed: \<open>zero\<close> is the null pointer.\<close>

definition rte_ring_create :: "bool \<Rightarrow> 'a \<Rightarrow> u32 \<Rightarrow> u32 \<Rightarrow> 'a rte_ring option" where
  "rte_ring_create mem zero count flags =
    (let count = round_count count in
     if mem then Some (rte_ring_init count flags (replicate (unat count) zero)) else None)"

text \<open>In the caller's buffer, \<open>tab\<close> is what the table finds there.\<close>

definition rte_ring_create_from :: "u32 \<Rightarrow> u32 \<Rightarrow> (u32 \<Rightarrow> 'a list) \<Rightarrow> u64 \<Rightarrow> 'a rte_ring option \<times> u64" where
  "rte_ring_create_from count flags tab memsz =
    (let count = round_count count; sz = rte_ring_size count in
     if memsz < sz then (None, memsz) else (Some (rte_ring_init count flags (tab count)), memsz - sz))"

section \<open>Copying\<close>

text \<open>
  \<open>__store_ring\<close> and \<open>__load_ring\<close> visit the same pairs of a position in the ring and one in the caller's table, in the same order: four at a time and a remainder
  when the range does not wrap, else one at a time. Every iteration of the unrolled loop advances by 4 below \<open>n & ~3\<close>.
\<close>

fun quads :: "nat \<Rightarrow> u32 \<Rightarrow> u32 \<Rightarrow> (u32 \<times> u32) list" where
  "quads 0 i idx = []"
| "quads (Suc k) i idx = (idx + 0, i + 0) # (idx + 1, i + 1) # (idx + 2, i + 2) # (idx + 3, i + 3) # quads k (i + 4) (idx + 4)"

definition mop_up :: "u32 \<Rightarrow> u32 \<Rightarrow> u32 \<Rightarrow> (u32 \<times> u32) list" where
  "mop_up c i idx =
    (if c = 3 then [(idx + 0, i + 0), (idx + 1, i + 1), (idx + 2, i + 2)]
     else if c = 2 then [(idx + 0, i + 0), (idx + 1, i + 1)]
     else if c = 1 then [(idx + 0, i + 0)]
     else [])"

fun wrapped :: "nat \<Rightarrow> u32 \<Rightarrow> u32 \<Rightarrow> u32 \<Rightarrow> (u32 \<times> u32) list" where
  "wrapped 0 msk i idx = []"
| "wrapped (Suc k) msk i idx = (idx AND msk, i) # wrapped k msk (i + 1) (idx + 1)"

definition copy_plan :: "u32 \<Rightarrow> u64 \<Rightarrow> u32 \<Rightarrow> (u32 \<times> u32) list" where
  "copy_plan msk head n =
    (let idx = ucast head AND msk in
     if idx + n \<le> msk then
       let loops = n AND NOT 3 in quads (unat loops div 4) 0 idx @ mop_up (n AND 3) loops (idx + loops)
     else wrapped (unat n) msk 0 idx)"

section \<open>Operations\<close>

datatype 'a rpc =
    R_idle
  | E_head bool behavior "'a list" u32
  | E_tail bool behavior "'a list" u32 u64
  | E_claim bool behavior "'a list" u32 u64 u32
  | E_store bool "'a list" u64 u32 "(u32 \<times> u32) list"
  | E_check bool "'a list" u64 u32
  | E_publish "'a list" u64 u32
  | E_ret "u32 res"
  | D_head bool behavior "'a list" u32
  | D_tail bool behavior "'a list" u32 u64
  | D_claim bool behavior "'a list" u32 u64 u32
  | D_load bool "'a list" u64 u32 "(u32 \<times> u32) list"
  | D_check bool "'a list" u64 u32
  | D_publish "'a list" u64 u32
  | D_ret "u32 res" "'a list"

text \<open>
  The first argument of the control points says whether the single-threaded function runs. The compare-and-exchange is the weak one: \<open>weak\<close> makes it fail for no reason.
  A failed assertion is \<open>None\<close>; while another thread has not finished, the multi-producer function stays where it is.
\<close>

fun do_enqueue :: "bool \<Rightarrow> 'a rpc \<Rightarrow> 'a rte_ring \<Rightarrow> ('a rpc \<times> 'a rte_ring) option" where
  "do_enqueue weak (E_head sp b obj n) r = Some (E_tail sp b obj n (prod_head r), r)"
| "do_enqueue weak (E_tail sp b obj n ph) r =
    (let free_entries = ucast (rr_mask r) + cons_tail r - ph in
     Some (if ucast n > free_entries then
             if b = RTE_RING_QUEUE_FIXED then E_ret (Inl ENOBUFS)
             else if free_entries = 0 then E_ret (Inr 0)
             else E_claim sp b obj n ph (ucast free_entries)
           else E_claim sp b obj n ph n, r))"
| "do_enqueue weak (E_claim sp b obj mx ph n) r =
    Some (if sp \<or> (prod_head r = ph \<and> \<not> weak)
          then (E_store sp obj ph n (copy_plan (rr_mask r) ph n), r\<lparr>prod_head := ph + ucast n\<rparr>)
          else (E_head sp b obj mx, r))"
| "do_enqueue weak (E_store sp obj ph n []) r = Some (E_check sp obj ph n, r)"
| "do_enqueue weak (E_store sp obj ph n ((d, s) # plan)) r =
    do { v \<leftarrow> get_at obj (unat s); t \<leftarrow> put_at (rr_ring r) (unat d) v; Some (E_store sp obj ph n plan, r\<lparr>rr_ring := t\<rparr>) }"
| "do_enqueue weak (E_check sp obj ph n) r =
    (if prod_tail r = ph then Some (E_publish obj ph n, r) else if sp then None else Some (E_check sp obj ph n, r))"
| "do_enqueue weak (E_publish obj ph n) r = Some (E_ret (Inr n), r\<lparr>prod_tail := ph + ucast n\<rparr>)"
| "do_enqueue weak p r = Some (p, r)"

fun do_dequeue :: "bool \<Rightarrow> 'a rpc \<Rightarrow> 'a rte_ring \<Rightarrow> ('a rpc \<times> 'a rte_ring) option" where
  "do_dequeue weak (D_head sc b obj n) r = Some (D_tail sc b obj n (cons_head r), r)"
| "do_dequeue weak (D_tail sc b obj n ch) r =
    (let entries = prod_tail r - ch in
     Some (if ucast n > entries then
             if b = RTE_RING_QUEUE_FIXED then D_ret (Inl ENOENT) obj
             else if entries = 0 then D_ret (Inr 0) obj
             else D_claim sc b obj n ch (ucast entries)
           else D_claim sc b obj n ch n, r))"
| "do_dequeue weak (D_claim sc b obj mx ch n) r =
    Some (if sc \<or> (cons_head r = ch \<and> \<not> weak)
          then (D_load sc obj ch n (copy_plan (rr_mask r) ch n), r\<lparr>cons_head := ch + ucast n\<rparr>)
          else (D_head sc b obj mx, r))"
| "do_dequeue weak (D_load sc obj ch n []) r = Some (D_check sc obj ch n, r)"
| "do_dequeue weak (D_load sc obj ch n ((s, d) # plan)) r =
    do { v \<leftarrow> get_at (rr_ring r) (unat s); t \<leftarrow> put_at obj (unat d) v; Some (D_load sc t ch n plan, r) }"
| "do_dequeue weak (D_check sc obj ch n) r =
    (if cons_tail r = ch then Some (D_publish obj ch n, r) else if sc then None else Some (D_check sc obj ch n, r))"
| "do_dequeue weak (D_publish obj ch n) r = Some (D_ret (Inr n) obj, r\<lparr>cons_tail := ch + ucast n\<rparr>)"
| "do_dequeue weak p r = Some (p, r)"

fun enqueues :: "'a rpc \<Rightarrow> bool" where
  "enqueues (E_head sp b obj n) \<longleftrightarrow> True"
| "enqueues (E_tail sp b obj n h) \<longleftrightarrow> True"
| "enqueues (E_claim sp b obj n h m) \<longleftrightarrow> True"
| "enqueues (E_store sp obj h n plan) \<longleftrightarrow> True"
| "enqueues (E_check sp obj h n) \<longleftrightarrow> True"
| "enqueues (E_publish obj h n) \<longleftrightarrow> True"
| "enqueues p \<longleftrightarrow> False"

definition ring_step :: "bool \<Rightarrow> 'a rpc \<Rightarrow> 'a rte_ring \<Rightarrow> ('a rpc \<times> 'a rte_ring) option" where
  "ring_step weak p r = (if enqueues p then do_enqueue weak p r else do_dequeue weak p r)"

subsection \<open>Calls\<close>

definition rte_ring_mp_enqueue_bulk :: "'a list \<Rightarrow> u32 \<Rightarrow> 'a rpc" where
  "rte_ring_mp_enqueue_bulk obj n = E_head False RTE_RING_QUEUE_FIXED obj n"

definition rte_ring_sp_enqueue_bulk :: "'a list \<Rightarrow> u32 \<Rightarrow> 'a rpc" where
  "rte_ring_sp_enqueue_bulk obj n = E_head True RTE_RING_QUEUE_FIXED obj n"

definition rte_ring_enqueue_bulk :: "'a rte_ring \<Rightarrow> 'a list \<Rightarrow> u32 \<Rightarrow> 'a rpc" where
  "rte_ring_enqueue_bulk r obj n = (if sp_enq r then rte_ring_sp_enqueue_bulk obj n else rte_ring_mp_enqueue_bulk obj n)"

definition rte_ring_mp_enqueue :: "'a \<Rightarrow> 'a rpc" where
  "rte_ring_mp_enqueue obj = rte_ring_mp_enqueue_bulk [obj] 1"

definition rte_ring_sp_enqueue :: "'a \<Rightarrow> 'a rpc" where
  "rte_ring_sp_enqueue obj = rte_ring_sp_enqueue_bulk [obj] 1"

definition rte_ring_enqueue :: "'a rte_ring \<Rightarrow> 'a \<Rightarrow> 'a rpc" where
  "rte_ring_enqueue r obj = (if sp_enq r then rte_ring_sp_enqueue_bulk [obj] 1 else rte_ring_mp_enqueue_bulk [obj] 1)"

definition rte_ring_mc_dequeue_bulk :: "'a list \<Rightarrow> u32 \<Rightarrow> 'a rpc" where
  "rte_ring_mc_dequeue_bulk obj n = D_head False RTE_RING_QUEUE_FIXED obj n"

definition rte_ring_sc_dequeue_bulk :: "'a list \<Rightarrow> u32 \<Rightarrow> 'a rpc" where
  "rte_ring_sc_dequeue_bulk obj n = D_head True RTE_RING_QUEUE_FIXED obj n"

definition rte_ring_dequeue_bulk :: "'a rte_ring \<Rightarrow> 'a list \<Rightarrow> u32 \<Rightarrow> 'a rpc" where
  "rte_ring_dequeue_bulk r obj n = (if sc_deq r then rte_ring_sc_dequeue_bulk obj n else rte_ring_mc_dequeue_bulk obj n)"

definition rte_ring_mc_dequeue :: "'a \<Rightarrow> 'a rpc" where
  "rte_ring_mc_dequeue obj = rte_ring_mc_dequeue_bulk [obj] 1"

definition rte_ring_sc_dequeue :: "'a \<Rightarrow> 'a rpc" where
  "rte_ring_sc_dequeue obj = rte_ring_sc_dequeue_bulk [obj] 1"

definition rte_ring_dequeue :: "'a rte_ring \<Rightarrow> 'a \<Rightarrow> 'a rpc" where
  "rte_ring_dequeue r obj = (if sc_deq r then rte_ring_sc_dequeue_bulk [obj] 1 else rte_ring_mc_dequeue_bulk [obj] 1)"

definition rte_ring_mp_enqueue_burst :: "'a list \<Rightarrow> u32 \<Rightarrow> 'a rpc" where
  "rte_ring_mp_enqueue_burst obj n = E_head False RTE_RING_QUEUE_VARIABLE obj n"

definition rte_ring_sp_enqueue_burst :: "'a list \<Rightarrow> u32 \<Rightarrow> 'a rpc" where
  "rte_ring_sp_enqueue_burst obj n = E_head True RTE_RING_QUEUE_VARIABLE obj n"

definition rte_ring_enqueue_burst :: "'a rte_ring \<Rightarrow> 'a list \<Rightarrow> u32 \<Rightarrow> 'a rpc" where
  "rte_ring_enqueue_burst r obj n = (if sp_enq r then rte_ring_sp_enqueue_burst obj n else rte_ring_mp_enqueue_burst obj n)"

definition rte_ring_mc_dequeue_burst :: "'a list \<Rightarrow> u32 \<Rightarrow> 'a rpc" where
  "rte_ring_mc_dequeue_burst obj n = D_head False RTE_RING_QUEUE_VARIABLE obj n"

definition rte_ring_sc_dequeue_burst :: "'a list \<Rightarrow> u32 \<Rightarrow> 'a rpc" where
  "rte_ring_sc_dequeue_burst obj n = D_head True RTE_RING_QUEUE_VARIABLE obj n"

definition rte_ring_dequeue_burst :: "'a rte_ring \<Rightarrow> 'a list \<Rightarrow> u32 \<Rightarrow> 'a rpc" where
  "rte_ring_dequeue_burst r obj n = (if sc_deq r then rte_ring_sc_dequeue_burst obj n else rte_ring_mc_dequeue_burst obj n)"

definition rte_ring_count :: "'a rte_ring \<Rightarrow> u32" where
  "rte_ring_count r = ucast ((prod_tail r - cons_tail r) AND ucast (rr_mask r))"

definition rte_ring_free_count :: "'a rte_ring \<Rightarrow> u32" where
  "rte_ring_free_count r = rr_mask r - rte_ring_count r"

definition rte_ring_full :: "'a rte_ring \<Rightarrow> bool" where
  "rte_ring_full r \<longleftrightarrow> rte_ring_free_count r = 0"

definition rte_ring_empty :: "'a rte_ring \<Rightarrow> bool" where
  "rte_ring_empty r \<longleftrightarrow> rte_ring_count r = 0"

text \<open>One operation that runs alone, from its call to its return.\<close>

fun returned :: "'a rpc \<Rightarrow> bool" where
  "returned R_idle \<longleftrightarrow> True"
| "returned (E_ret x) \<longleftrightarrow> True"
| "returned (D_ret x obj) \<longleftrightarrow> True"
| "returned p \<longleftrightarrow> False"

partial_function (option) ring_run :: "'a rpc \<Rightarrow> 'a rte_ring \<Rightarrow> ('a rpc \<times> 'a rte_ring) option" where
  "ring_run p r = (if returned p then Some (p, r) else do { (p, r) \<leftarrow> ring_step False p r; ring_run p r })"

declare ring_run.simps [code]

section \<open>The copied positions\<close>

lemma pow2_nat: "0 < x \<Longrightarrow> x AND (x - 1) = 0 \<Longrightarrow> \<exists>e. x = 2 ^ e" for x :: nat
proof (induction x rule: less_induct)
  case (less x)
  define y where "y = x div 2"
  show ?case
  proof (cases "even x")
    case True
    then have x: "x = 2 * y" "0 < y" using less.prems(1) by (auto simp: y_def)
    have "(2 * y - 1) div 2 = y - 1" using x(2) by arith
    then have "y AND (y - 1) = 0" using less.prems(2) x(1) by (simp add: and_nat_rec [of "2 * y"])
    then obtain e where "y = 2 ^ e" using less.IH [of y] x by auto
    then show ?thesis using x(1) by (intro exI [of _ "Suc e"]) simp
  next
    case False
    then have "x = 2 * y + 1" by (simp add: y_def)
    then have "y = 0" using less.prems(2) by (simp add: and_nat_rec [of "2 * y + 1"] and_nat_rec [of "Suc (2 * y)"])
    then show ?thesis using \<open>x = 2 * y + 1\<close> by (intro exI [of _ 0]) simp
  qed
qed

lemma round_count_ok:
  assumes "count \<noteq> 0" "unat count \<le> 2 ^ 31"
  obtains e where "e \<le> 31" "unat (round_count count) = 2 ^ e" "unat count \<le> 2 ^ e"
proof (cases "count AND (count - 1) = 0")
  case True
  have pos: "0 < unat count" using assms(1) by (simp add: unat_gt_0)
  have "unat (count AND (count - 1)) = unat count AND (unat count - 1)"
    using assms(1) by (simp add: unsigned_and_eq unat_minus_one)
  then obtain e where e: "unat count = 2 ^ e" using pow2_nat [OF pos] True by auto
  then have "e \<le> 31" using assms(2) power_le_imp_le_exp [of 2 e 31] by simp
  then show ?thesis using that [of e] e True by (simp add: round_count_def)
next
  case False
  let ?w = "ucast count :: u64" and ?e = "bitlen (ucast count - 1 :: u64)"
  have "1 \<le> unat count" using assms(1) by (simp add: Suc_le_eq unat_gt_0)
  then have c: "unat (NEXTPOW2 ?w) = 2 ^ ?e" "unat count \<le> 2 ^ ?e" "?e \<le> 31"
    using NEXTPOW2_char [of ?w] assms by (auto simp del: One_nat_def)
  then have "(2 :: nat) ^ ?e \<le> 2 ^ 31" by (intro power_increasing) simp_all
  then have "unat (NEXTPOW2_u32 count) = 2 ^ ?e" using c by (simp add: NEXTPOW2_u32_def unsigned_ucast_eq take_bit_nat_eq_self)
  then show ?thesis using that [OF c(3)] c(2) False by (simp add: round_count_def)
qed

abbreviation plan_of :: "(u32 \<times> u32) list \<Rightarrow> (nat \<times> nat) list" where
  "plan_of \<equiv> map (map_prod unat unat)"

definition span :: "nat \<Rightarrow> nat \<Rightarrow> nat \<Rightarrow> nat \<Rightarrow> (nat \<times> nat) list" where
  "span e h j n = map (\<lambda>i. ((h + i) mod 2 ^ e, i)) [j..<n]"

lemma span_Nil [simp]: "n \<le> j \<Longrightarrow> span e h j n = []"
  by (simp add: span_def)

lemma span_Cons: "j < n \<Longrightarrow> span e h j n = ((h + j) mod 2 ^ e, j) # span e h (Suc j) n"
  by (simp add: span_def upt_conv_Cons)

lemma unat_plus_u32: "unat (a :: u32) + k < 2 ^ 32 \<Longrightarrow> unat (a + of_nat k) = unat a + k"
  by (simp add: unat_word_ariths unat_of_nat)

lemma upt_small: "[0..<1] = [0::nat]" "[0..<2] = [0::nat, 1]" "[0..<3] = [0::nat, 1, 2]" "[0..<4] = [0::nat, 1, 2, 3]"
  by code_simp+

lemma unat_and_mask: "unat msk = 2 ^ e - 1 \<Longrightarrow> unat (a AND msk) = unat a mod 2 ^ e"
  by (simp only: unsigned_and_eq mask_eq_exp_minus_1 [symmetric] take_bit_eq_mask [symmetric] take_bit_eq_mod)

lemma unat_and_not3: "unat (n AND NOT 3) = unat n - unat (n AND 3)" for n :: u32
proof -
  have "(n AND 3) OR (n AND NOT 3) = n" by (rule bit_word_eqI) (auto simp: bit_simps)
  moreover have "(n AND 3) AND (n AND NOT 3) = 0" by (rule bit_word_eqI) (auto simp: bit_simps)
  ultimately have n: "n AND NOT 3 = n - (n AND 3)" by (metis add_diff_cancel_left' disjunctive_add_eq_or)
  show ?thesis unfolding n by (rule unat_sub) (rule word_and_le2)
qed

lemma quads_plan:
  assumes "unat idx + 4 * k < 2 ^ 32" "unat i + 4 * k < 2 ^ 32"
  shows "plan_of (quads k i idx) = map (\<lambda>j. (unat idx + j, unat i + j)) [0..<4 * k]"
  using assms
proof (induction k arbitrary: i idx)
  case (Suc k)
  have "unat (a + 1) = unat a + 1" "unat (a + 2) = unat a + 2" "unat (a + 3) = unat a + 3" "unat (a + 4) = unat a + 4"
    if "unat a + 4 * Suc k < 2 ^ 32" for a :: u32
    using that unat_plus_u32 [of a 1] unat_plus_u32 [of a 2] unat_plus_u32 [of a 3] unat_plus_u32 [of a 4] by simp_all
  note n = this [OF Suc.prems(1)] this [OF Suc.prems(2)]
  have "[0..<4 * Suc k] = [0, 1, 2, 3] @ map (\<lambda>j. j + 4) [0..<4 * k]"
    using upt_add_eq_append [of 0 4 "4 * k"] upt_small by (simp add: map_add_upt add.commute)
  then show ?case using Suc.IH [of "idx + 4" "i + 4"] Suc.prems n by (simp add: ac_simps)
qed simp

lemma mop_up_plan:
  assumes "unat c < 4" "unat idx + unat c < 2 ^ 32" "unat i + unat c < 2 ^ 32"
  shows "plan_of (mop_up c i idx) = map (\<lambda>j. (unat idx + j, unat i + j)) [0..<unat c]"
proof -
  have p: "unat (a + 1) = unat a + 1" if "unat a + 1 < 2 ^ 32" for a :: u32 using unat_plus_u32 [OF that] by simp
  have q: "unat (a + 2) = unat a + 2" if "unat a + 2 < 2 ^ 32" for a :: u32 using unat_plus_u32 [OF that] by simp
  have "unat c = 0 \<or> unat c = 1 \<or> unat c = 2 \<or> unat c = 3" using assms(1) by linarith
  then consider "c = 0" | "c = 1" | "c = 2" | "c = 3" by (auto simp: word_unat_eq_iff)
  then show ?thesis
  proof cases
    case 3
    then show ?thesis using p [of idx] p [of i] assms by (simp add: mop_up_def upt_small(2))
  next
    case 4
    then show ?thesis using p [of idx] p [of i] q [of idx] q [of i] assms by (simp add: mop_up_def upt_small(3))
  qed (simp_all add: mop_up_def)
qed

lemma wrapped_plan:
  assumes "e \<le> 31" "unat msk = 2 ^ e - 1" "unat idx + k < 2 ^ 32" "unat i + k < 2 ^ 32"
  shows "plan_of (wrapped k msk i idx) = map (\<lambda>j. ((unat idx + j) mod 2 ^ e, unat i + j)) [0..<k]"
  using assms(3,4)
proof (induction k arbitrary: i idx)
  case (Suc k)
  note m = unat_and_mask [OF assms(2), of idx]
  have n: "unat (a + 1) = unat a + 1" if "unat a + Suc k < 2 ^ 32" for a :: u32 using that unat_plus_u32 [of a 1] by simp
  have "[0..<Suc k] = 0 # map Suc [0..<k]" by (simp add: map_Suc_upt upt_conv_Cons)
  then show ?case using Suc.IH [of "idx + 1" "i + 1"] Suc.prems n [OF Suc.prems(1)] n [OF Suc.prems(2)] m by simp
qed simp

lemma copy_plan_eq:
  assumes e: "e \<le> 31" and msk: "unat msk = 2 ^ e - 1" and n: "unat n < 2 ^ e"
  shows "plan_of (copy_plan msk head n) = span e (unat head) 0 (unat n)"
proof -
  define idx :: u32 where "idx = ucast head AND msk"
  have "(2 :: nat) ^ e \<le> 2 ^ 31" using e by (intro power_increasing) simp_all
  then have b: "(2 :: nat) ^ e \<le> 2147483648" by simp
  have "unat (ucast head :: u32) mod 2 ^ e = unat head mod 2 ^ e"
    using mod_mod_cancel [OF le_imp_power_dvd [of e 32 2], of "unat head"] e by (simp add: unsigned_ucast_eq take_bit_eq_mod)
  then have idx: "unat idx = unat head mod 2 ^ e"
    using unat_and_mask [OF msk] by (simp add: idx_def)
  then have idx_less: "unat idx < 2 ^ e" by simp
  have sum: "unat (idx + n) = unat idx + unat n" using idx_less n b by (simp add: unat_word_ariths)
  have slot: "(unat idx + j) mod 2 ^ e = (unat head + j) mod 2 ^ e" for j by (simp add: idx mod_add_left_eq)
  show ?thesis
  proof (cases "idx + n \<le> msk")
    case True
    then have le: "unat idx + unat n < 2 ^ e" using sum msk zero_less_power [of "2 :: nat" e] unfolding word_le_nat_alt by linarith
    define k where "k = unat n div 4"
    have c: "unat (n AND 3) = unat n mod 4" using unat_and_mask [of "3 :: u32" 2 n] by simp
    have loops: "unat (n AND NOT 3) = 4 * k" using unat_and_not3 [of n] c by (simp add: k_def minus_mod_eq_mult_div)
    have n4: "4 * k + unat (n AND 3) = unat n" by (simp add: c k_def)
    have b2: "unat idx + 4 * k < 2 ^ 32" "unat (idx + (n AND NOT 3)) = unat idx + 4 * k"
      using le b n4 loops by (simp_all add: unat_word_ariths)
    have "copy_plan msk head n = quads k 0 idx @ mop_up (n AND 3) (n AND NOT 3) (idx + (n AND NOT 3))"
      using True loops by (simp add: copy_plan_def Let_def idx_def)
    moreover have "plan_of (quads k 0 idx) = map (\<lambda>j. (unat idx + j, j)) [0..<4 * k]" using quads_plan [OF b2(1), of 0] le b n4 by simp
    moreover have "plan_of (mop_up (n AND 3) (n AND NOT 3) (idx + (n AND NOT 3))) =
        map (\<lambda>j. (unat idx + j, j)) (map (\<lambda>j. j + 4 * k) [0..<unat (n AND 3)])"
      using mop_up_plan [of "n AND 3" "idx + (n AND NOT 3)" "n AND NOT 3", unfolded loops b2(2)] c le b n4 by (simp add: comp_def ac_simps)
    ultimately have "plan_of (copy_plan msk head n) = map (\<lambda>j. (unat idx + j, j)) ([0..<4 * k] @ map (\<lambda>j. j + 4 * k) [0..<unat (n AND 3)])"
      by simp
    also have "\<dots> = map (\<lambda>j. (unat idx + j, j)) [0..<unat n]"
      using upt_add_eq_append [of 0 "4 * k" "unat (n AND 3)"] n4 by (simp only: map_add_upt add.commute [of "unat (n AND 3)"])
    also have "\<dots> = span e (unat head) 0 (unat n)" using le slot by (auto simp: span_def simp flip: slot)
    finally show ?thesis .
  next
    case False
    then show ?thesis using wrapped_plan [OF e msk, of idx "unat n" 0] idx_less n b slot
      by (simp add: copy_plan_def span_def Let_def flip: idx_def)
  qed
qed

section \<open>One operation at a time\<close>

definition geom :: "nat \<Rightarrow> 'a rte_ring \<Rightarrow> bool" where
  "geom e r \<longleftrightarrow> e \<le> 31 \<and> unat (rr_mask r) = 2 ^ e - 1 \<and> length (rr_ring r) = 2 ^ e"

lemma geomD:
  assumes "geom e r"
  shows "e \<le> 31" "unat (rr_mask r) = 2 ^ e - 1" "length (rr_ring r) = 2 ^ e" "(2 :: nat) ^ e \<le> 2147483648" "0 < (2 :: nat) ^ e"
    "i mod 2 ^ e < length (rr_ring r)"
proof -
  show g: "e \<le> 31" "unat (rr_mask r) = 2 ^ e - 1" "length (rr_ring r) = 2 ^ e" using assms by (simp_all add: geom_def)
  have "(2 :: nat) ^ e \<le> 2 ^ 31" using g(1) by (intro power_increasing) simp_all
  then show "(2 :: nat) ^ e \<le> 2147483648" "0 < (2 :: nat) ^ e" "i mod 2 ^ e < length (rr_ring r)" using g(3) by simp_all
qed

lemma unat_add_mod: "e \<le> 64 \<Longrightarrow> unat (a + b :: u64) mod 2 ^ e = (unat a + unat b) mod 2 ^ e"
  using mod_mod_cancel [OF le_imp_power_dvd [of e 64 2], of "unat a + unat b"] by (simp add: unat_word_ariths)

text \<open>Two positions less than a round apart have different slots.\<close>

lemma slot_inj:
  assumes "(x :: nat) mod s = y mod s" "c \<le> x" "x < c + s" "c \<le> y" "y < c + s"
  shows "x = y"
proof -
  have "x - y < s" "y - x < s" using assms(2-5) by linarith+
  moreover have "s dvd x - y" "s dvd y - x" using assms(1) by (metis mod_eq_dvd_iff_nat nat_le_linear diff_is_0_eq dvd_0_right)+
  ultimately show ?thesis by (metis diff_is_0_eq' diffs0_imp_equal nat_dvd_not_less neq0_conv)
qed

lemma ring_run_step:
  "\<not> returned p \<Longrightarrow> ring_step False p r = Some (p', r') \<Longrightarrow> ring_run p r = ring_run p' r'"
  by (subst ring_run.simps) simp

lemma ring_run_ret [simp]: "ring_run (E_ret x) r = Some (E_ret x, r)" "ring_run (D_ret x obj) r = Some (D_ret x obj, r)"
  by (simp_all add: ring_run.simps)

lemma store_run:
  assumes "geom e r" "plan_of plan = span e h j n" "n \<le> length obj" "n \<le> j + 2 ^ e" "j \<le> n"
  obtains t where "ring_run (E_store sp obj ph k plan) r = ring_run (E_check sp obj ph k) (r\<lparr>rr_ring := t\<rparr>)" "length t = 2 ^ e"
    "\<forall>i. j \<le> i \<longrightarrow> i < n \<longrightarrow> t ! ((h + i) mod 2 ^ e) = obj ! i"
    "\<forall>x. (\<forall>i. j \<le> i \<longrightarrow> i < n \<longrightarrow> x \<noteq> (h + i) mod 2 ^ e) \<longrightarrow> t ! x = rr_ring r ! x"
  using assms
proof (induction plan arbitrary: j r thesis)
  case Nil
  then have "j = n" by (cases "j < n") (simp_all add: span_Cons)
  then show ?case using Nil.prems(1) [of "rr_ring r"] geomD(3) [OF Nil.prems(2)]
    by (simp add: ring_run_step [where p = "E_store sp obj ph k []"] ring_step_def)
next
  case (Cons a plan)
  have jn: "j < n" using Cons.prems(3) by (cases "j < n") simp_all
  obtain d s where a: "a = (d, s)" by (cases a)
  have ds: "unat d = (h + j) mod 2 ^ e" "unat s = j" and plan: "plan_of plan = span e h (Suc j) n"
    using Cons.prems(3) jn by (simp_all add: a span_Cons)
  define t1 where "t1 = (rr_ring r)[(h + j) mod 2 ^ e := obj ! j]"
  have step: "ring_run (E_store sp obj ph k (a # plan)) r = ring_run (E_store sp obj ph k plan) (r\<lparr>rr_ring := t1\<rparr>)"
    using ds jn Cons.prems(4) geomD(6) [OF Cons.prems(2)]
    by (intro ring_run_step) (simp_all add: ring_step_def a t1_def get_at_in put_at_in del: get_at_eq_Some put_at_eq_Some)
  have g1: "geom e (r\<lparr>rr_ring := t1\<rparr>)" using Cons.prems(2) by (simp add: geom_def t1_def)
  obtain t where t: "ring_run (E_store sp obj ph k plan) (r\<lparr>rr_ring := t1\<rparr>) = ring_run (E_check sp obj ph k) (r\<lparr>rr_ring := t\<rparr>)"
    "length t = 2 ^ e" "\<forall>i. Suc j \<le> i \<longrightarrow> i < n \<longrightarrow> t ! ((h + i) mod 2 ^ e) = obj ! i"
    "\<forall>x. (\<forall>i. Suc j \<le> i \<longrightarrow> i < n \<longrightarrow> x \<noteq> (h + i) mod 2 ^ e) \<longrightarrow> t ! x = t1 ! x"
    using Cons.IH [OF _ g1 plan Cons.prems(4)] Cons.prems(5) jn by auto
  have "(h + j) mod 2 ^ e \<noteq> (h + i) mod 2 ^ e" if "Suc j \<le> i" "i < n" for i
    using slot_inj [of "h + j" "2 ^ e" "h + i" "h + j"] that Cons.prems(5) by auto
  then have "t ! ((h + j) mod 2 ^ e) = obj ! j" using t(4) geomD(6) [OF Cons.prems(2)] by (simp add: t1_def)
  then have "\<forall>i. j \<le> i \<longrightarrow> i < n \<longrightarrow> t ! ((h + i) mod 2 ^ e) = obj ! i" using t(3) by (metis le_eq_less_or_eq Suc_le_eq)
  moreover have "t ! x = rr_ring r ! x" if "\<forall>i. j \<le> i \<longrightarrow> i < n \<longrightarrow> x \<noteq> (h + i) mod 2 ^ e" for x
  proof -
    have "x \<noteq> (h + j) mod 2 ^ e" using that jn by blast
    then show ?thesis using t(4) that by (simp add: t1_def)
  qed
  ultimately show ?case using Cons.prems(1) [of t] step t(1,2) by simp
qed

lemma load_run:
  assumes "geom e r" "plan_of plan = span e h j n" "n \<le> length obj" "j \<le> n"
  obtains obj' where "ring_run (D_load sc obj ch k plan) r = ring_run (D_check sc obj' ch k) r" "length obj' = length obj"
    "\<forall>i. i < length obj \<longrightarrow> obj' ! i = (if j \<le> i \<and> i < n then rr_ring r ! ((h + i) mod 2 ^ e) else obj ! i)"
  using assms
proof (induction plan arbitrary: j obj thesis)
  case Nil
  then have "j = n" by (cases "j < n") (simp_all add: span_Cons)
  then show ?case
    by (intro Nil.prems(1) [of obj]) (auto simp: ring_run_step [where p = "D_load sc obj ch k []"] ring_step_def)
next
  case (Cons a plan)
  have jn: "j < n" using Cons.prems(3) by (cases "j < n") simp_all
  obtain s d where a: "a = (s, d)" by (cases a)
  have ds: "unat s = (h + j) mod 2 ^ e" "unat d = j" and plan: "plan_of plan = span e h (Suc j) n"
    using Cons.prems(3) jn by (simp_all add: a span_Cons)
  define o1 where "o1 = obj[j := rr_ring r ! ((h + j) mod 2 ^ e)]"
  have step: "ring_run (D_load sc obj ch k (a # plan)) r = ring_run (D_load sc o1 ch k plan) r"
    using ds jn Cons.prems(4) geomD(6) [OF Cons.prems(2)]
    by (intro ring_run_step) (simp_all add: ring_step_def a o1_def get_at_in put_at_in del: get_at_eq_Some put_at_eq_Some)
  obtain obj' where o: "ring_run (D_load sc o1 ch k plan) r = ring_run (D_check sc obj' ch k) r" "length obj' = length o1"
    "\<forall>i. i < length o1 \<longrightarrow> obj' ! i = (if Suc j \<le> i \<and> i < n then rr_ring r ! ((h + i) mod 2 ^ e) else o1 ! i)"
    using Cons.IH [OF _ Cons.prems(2) plan, of o1] Cons.prems(4) jn by (auto simp: o1_def)
  then have "\<forall>i. i < length obj \<longrightarrow> obj' ! i = (if j \<le> i \<and> i < n then rr_ring r ! ((h + i) mod 2 ^ e) else obj ! i)"
    using jn by (auto simp: o1_def nth_list_update le_Suc_eq not_less_eq_eq dest: le_antisym)
  then show ?case using Cons.prems(1) [of obj'] step o(1,2) by (simp add: o1_def)
qed

text \<open>
  The ring between operations, and the list it holds. A call is the control point where a function starts; its specification is on lists of
  at most \<open>cap\<close> elements.
\<close>

definition ring_ok :: "nat \<Rightarrow> 'a rte_ring \<Rightarrow> bool" where
  "ring_ok e r \<longleftrightarrow> geom e r \<and> prod_head r = prod_tail r \<and> cons_head r = cons_tail r \<and> unat (prod_tail r - cons_tail r) < 2 ^ e"

definition ring_list :: "'a rte_ring \<Rightarrow> 'a list" where
  "ring_list r = map (\<lambda>i. rr_ring r ! ((unat (cons_tail r) + i) mod (unat (rr_mask r) + 1))) [0..<unat (prod_tail r - cons_tail r)]"

fun ring_spec :: "nat \<Rightarrow> 'a rpc \<Rightarrow> 'a list \<Rightarrow> 'a rpc \<times> 'a list" where
  "ring_spec cap (E_head sp b obj n) q =
    (let free = cap - length q in
     if unat n \<le> free then (E_ret (Inr n), q @ take (unat n) obj)
     else if b = RTE_RING_QUEUE_FIXED then (E_ret (Inl ENOBUFS), q)
     else (E_ret (Inr (of_nat free)), q @ take free obj))"
| "ring_spec cap (D_head sc b obj n) q =
    (if unat n \<le> length q then (D_ret (Inr n) (take (unat n) q @ drop (unat n) obj), drop (unat n) q)
     else if b = RTE_RING_QUEUE_FIXED then (D_ret (Inl ENOENT) obj, q)
     else (D_ret (Inr (of_nat (length q))) (q @ drop (length q) obj), []))"
| "ring_spec cap p q = (p, q)"

fun ring_call :: "'a rpc \<Rightarrow> bool" where
  "ring_call (E_head sp b obj n) \<longleftrightarrow> unat n \<le> length obj"
| "ring_call (D_head sc b obj n) \<longleftrightarrow> unat n \<le> length obj"
| "ring_call p \<longleftrightarrow> False"

lemma ring_list_nth:
  assumes "ring_ok e r"
  shows "length (ring_list r) = unat (prod_tail r - cons_tail r)"
    "i < length (ring_list r) \<Longrightarrow> ring_list r ! i = rr_ring r ! ((unat (cons_tail r) + i) mod 2 ^ e)"
  using assms by (simp_all add: ring_list_def ring_ok_def geom_def)

lemma unat_ucast_u64 [simp]: "unat (ucast (n :: u32) :: u64) = unat n"
  by simp

lemma enq_commit:
  assumes ok: "ring_ok e r" and m: "unat m \<le> length obj" "unat m + length (ring_list r) < 2 ^ e"
  shows "\<exists>r'. ring_run (E_claim sp b obj mx (prod_head r) m) r = Some (E_ret (Inr m), r') \<and> ring_ok e r' \<and>
    ring_list r' = ring_list r @ take (unat m) obj"
proof -
  let ?ph = "prod_head r" and ?c = "length (ring_list r)"
  note g = geomD [of e r] and len = ring_list_nth [OF ok]
  have ge: "geom e r" and q: "?ph = prod_tail r" "cons_head r = cons_tail r" using ok by (simp_all add: ring_ok_def)
  define r1 where "r1 = r\<lparr>prod_head := ?ph + ucast m\<rparr>"
  have claim: "ring_run (E_claim sp b obj mx ?ph m) r = ring_run (E_store sp obj ?ph m (copy_plan (rr_mask r) ?ph m)) r1"
    by (intro ring_run_step) (simp_all add: ring_step_def r1_def)
  have g1: "geom e r1" using ge by (simp add: geom_def r1_def)
  have plan: "plan_of (copy_plan (rr_mask r) ?ph m) = span e (unat ?ph) 0 (unat m)" using m by (intro copy_plan_eq g(1,2) ge) simp
  obtain t where t: "ring_run (E_store sp obj ?ph m (copy_plan (rr_mask r) ?ph m)) r1 = ring_run (E_check sp obj ?ph m) (r1\<lparr>rr_ring := t\<rparr>)"
    "length t = 2 ^ e" "\<forall>i. i < unat m \<longrightarrow> t ! ((unat ?ph + i) mod 2 ^ e) = obj ! i"
    "\<forall>x. (\<forall>i. i < unat m \<longrightarrow> x \<noteq> (unat ?ph + i) mod 2 ^ e) \<longrightarrow> t ! x = rr_ring r ! x"
  proof (rule store_run [OF g1 plan m(1), of sp ?ph m])
    show "unat m \<le> 0 + 2 ^ e" using m(2) by simp
  qed (auto simp: r1_def intro: that)
  define r' where "r' = r1\<lparr>rr_ring := t, prod_tail := ?ph + ucast m\<rparr>"
  have check: "ring_run (E_check sp obj ?ph m) (r1\<lparr>rr_ring := t\<rparr>) = ring_run (E_publish obj ?ph m) (r1\<lparr>rr_ring := t\<rparr>)"
    using q(1) by (intro ring_run_step) (simp_all add: ring_step_def r1_def)
  have publish: "ring_run (E_publish obj ?ph m) (r1\<lparr>rr_ring := t\<rparr>) = Some (E_ret (Inr m), r')"
    using ring_run_step [of "E_publish obj ?ph m" "r1\<lparr>rr_ring := t\<rparr>" "E_ret (Inr m)" r'] by (simp add: ring_step_def r'_def)
  have cnt: "prod_tail r' - cons_tail r' = (prod_tail r - cons_tail r) + ucast m" by (simp add: r'_def r1_def q(1))
  have cnt': "unat (prod_tail r' - cons_tail r') = ?c + unat m"
    unfolding cnt using len(1) m g(4) [OF ge] by (simp add: unat_word_ariths)
  have ok': "ring_ok e r'" using ge t(2) q m cnt' by (auto simp: ring_ok_def geom_def r'_def r1_def add.commute)
  have pt: "(unat ?ph + j) mod 2 ^ e = (unat (cons_tail r) + (?c + j)) mod 2 ^ e" for j
  proof -
    have "unat ?ph mod 2 ^ e = (unat (cons_tail r) + ?c) mod 2 ^ e"
      using unat_add_mod [of e "cons_tail r" "prod_tail r - cons_tail r"] g(1) [OF ge] q(1) len(1) by simp
    then have "(unat ?ph + j) mod 2 ^ e = (unat (cons_tail r) + ?c + j) mod 2 ^ e" by (rule mod_add_cong) (rule refl)
    then show ?thesis by (simp only: add.assoc)
  qed
  have "ring_list r' = ring_list r @ take (unat m) obj"
  proof (rule nth_equalityI)
    show "length (ring_list r') = length (ring_list r @ take (unat m) obj)" using ring_list_nth(1) [OF ok'] cnt' m(1) by simp
    fix i assume "i < length (ring_list r')"
    then have i: "i < ?c + unat m" and v: "ring_list r' ! i = t ! ((unat (cons_tail r) + i) mod 2 ^ e)"
      using ring_list_nth [OF ok'] cnt' by (simp_all add: r'_def r1_def)
    show "ring_list r' ! i = (ring_list r @ take (unat m) obj) ! i"
    proof (cases "i < ?c")
      case True
      have "(unat (cons_tail r) + i) mod 2 ^ e \<noteq> (unat ?ph + j) mod 2 ^ e" if "j < unat m" for j
        using slot_inj [of "unat (cons_tail r) + i" "2 ^ e" "unat (cons_tail r) + (?c + j)" "unat (cons_tail r)"] that True m(2) unfolding pt by auto
      then show ?thesis using t(4) len(2) [OF True] True v by (simp add: nth_append)
    next
      case False
      then show ?thesis using t(3) [rule_format, of "i - ?c"] i v m(1) unfolding pt by (simp add: nth_append)
    qed
  qed
  then show ?thesis using claim t(1) check publish ok' by auto
qed

lemma enq_run:
  assumes ok: "ring_ok e r" and n: "unat n \<le> length obj"
  shows "\<exists>x r'. ring_run (E_head sp b obj n) r = Some (x, r') \<and> ring_ok e r' \<and>
    (x, ring_list r') = ring_spec (2 ^ e - 1) (E_head sp b obj n) (ring_list r)"
proof -
  let ?c = "length (ring_list r)"
  have ge: "geom e r" and q: "prod_head r = prod_tail r" using ok by (simp_all add: ring_ok_def)
  note g = geomD [OF ge] and len = ring_list_nth [OF ok]
  define free where "free = ucast (rr_mask r) + cons_tail r - prod_head r"
  have c: "?c < 2 ^ e" using ok len(1) by (simp add: ring_ok_def)
  have "free = ucast (rr_mask r) - (prod_tail r - cons_tail r)" by (simp add: free_def q)
  moreover have "prod_tail r - cons_tail r \<le> ucast (rr_mask r)" using c len(1) g(2) by (simp add: word_le_nat_alt)
  ultimately have free: "unat free = 2 ^ e - 1 - ?c" using len(1) g(2) by (simp add: unat_sub)
  have run: "ring_run (E_head sp b obj n) r = ring_run
     (if ucast n > free then if b = RTE_RING_QUEUE_FIXED then E_ret (Inl ENOBUFS) else if free = 0 then E_ret (Inr 0)
        else E_claim sp b obj n (prod_head r) (ucast free) else E_claim sp b obj n (prod_head r) n) r"
  proof -
    have "ring_run (E_head sp b obj n) r = ring_run (E_tail sp b obj n (prod_head r)) r" by (intro ring_run_step) (simp_all add: ring_step_def)
    also have "\<dots> = ring_run (if ucast n > free then if b = RTE_RING_QUEUE_FIXED then E_ret (Inl ENOBUFS) else if free = 0 then E_ret (Inr 0)
        else E_claim sp b obj n (prod_head r) (ucast free) else E_claim sp b obj n (prod_head r) n) r"
      by (intro ring_run_step) (simp_all add: ring_step_def free_def Let_def)
    finally show ?thesis .
  qed
  have gt: "ucast n > free \<longleftrightarrow> \<not> unat n \<le> 2 ^ e - 1 - ?c" using free by (simp add: word_less_nat_alt not_le)
  consider "unat n \<le> 2 ^ e - 1 - ?c" | "\<not> unat n \<le> 2 ^ e - 1 - ?c" "b = RTE_RING_QUEUE_FIXED"
    | "\<not> unat n \<le> 2 ^ e - 1 - ?c" "b \<noteq> RTE_RING_QUEUE_FIXED" "free = 0" | "\<not> unat n \<le> 2 ^ e - 1 - ?c" "b \<noteq> RTE_RING_QUEUE_FIXED" "free \<noteq> 0" by blast
  then show ?thesis
  proof cases
    case 1
    then show ?thesis using enq_commit [OF ok n, of sp b n] c gt run by (auto simp: Let_def)
  next
    case 2
    then show ?thesis using ok gt run by (simp add: Let_def)
  next
    case 3
    then have "2 ^ e - 1 - ?c = 0" using free by simp
    then show ?thesis using ok gt run 3 by (simp add: Let_def)
  next
    case 4
    have u: "unat (ucast free :: u32) = 2 ^ e - 1 - ?c" using free g(4) c by (simp add: unsigned_ucast_eq take_bit_nat_eq_self)
    then have w: "(ucast free :: u32) = of_nat (2 ^ e - 1 - ?c)" by (simp only: u [symmetric]) simp
    show ?thesis using enq_commit [OF ok, of "ucast free" obj sp b n] 4 n c gt run u by (auto simp: Let_def w)
  qed
qed

lemma deq_commit:
  assumes ok: "ring_ok e r" and m: "unat m \<le> length obj" "unat m \<le> length (ring_list r)"
  shows "\<exists>r'. ring_run (D_claim sc b obj mx (cons_head r) m) r = Some (D_ret (Inr m) (take (unat m) (ring_list r) @ drop (unat m) obj), r') \<and>
    ring_ok e r' \<and> ring_list r' = drop (unat m) (ring_list r)"
proof -
  let ?ch = "cons_head r" and ?c = "length (ring_list r)"
  have ge: "geom e r" and q: "prod_head r = prod_tail r" "?ch = cons_tail r" and cl: "?c < 2 ^ e"
    using ok ring_list_nth(1) [OF ok] by (simp_all add: ring_ok_def)
  note g = geomD [OF ge] and len = ring_list_nth [OF ok]
  define r1 where "r1 = r\<lparr>cons_head := ?ch + ucast m\<rparr>"
  have claim: "ring_run (D_claim sc b obj mx ?ch m) r = ring_run (D_load sc obj ?ch m (copy_plan (rr_mask r) ?ch m)) r1"
    by (intro ring_run_step) (simp_all add: ring_step_def r1_def)
  have g1: "geom e r1" using ge by (simp add: geom_def r1_def)
  have plan: "plan_of (copy_plan (rr_mask r) ?ch m) = span e (unat ?ch) 0 (unat m)" using m cl by (intro copy_plan_eq g(1,2)) simp
  obtain obj' where o: "ring_run (D_load sc obj ?ch m (copy_plan (rr_mask r) ?ch m)) r1 = ring_run (D_check sc obj' ?ch m) r1"
    "length obj' = length obj" "\<forall>i. i < length obj \<longrightarrow> obj' ! i = (if 0 \<le> i \<and> i < unat m then rr_ring r1 ! ((unat ?ch + i) mod 2 ^ e) else obj ! i)"
    by (rule load_run [OF g1 plan m(1), of sc ?ch m]) simp
  have obj': "obj' = take (unat m) (ring_list r) @ drop (unat m) obj"
    using o(2,3) m len(2) q(2) by (intro nth_equalityI) (auto simp: nth_append r1_def)
  define r' where "r' = r1\<lparr>cons_tail := ?ch + ucast m\<rparr>"
  have check: "ring_run (D_check sc obj' ?ch m) r1 = ring_run (D_publish obj' ?ch m) r1"
    using q(2) by (intro ring_run_step) (simp_all add: ring_step_def r1_def)
  have publish: "ring_run (D_publish obj' ?ch m) r1 = Some (D_ret (Inr m) obj', r')"
    using ring_run_step [of "D_publish obj' ?ch m" r1 "D_ret (Inr m) obj'" r'] by (simp add: ring_step_def r'_def)
  have "prod_tail r' - cons_tail r' = (prod_tail r - cons_tail r) - ucast m" by (simp add: r'_def r1_def q(2))
  moreover have "ucast m \<le> prod_tail r - cons_tail r" using m(2) len(1) by (simp add: word_le_nat_alt)
  ultimately have cnt: "unat (prod_tail r' - cons_tail r') = ?c - unat m" using len(1) by (simp add: unat_sub)
  have ok': "ring_ok e r'" using ge q cl cnt by (auto simp: ring_ok_def geom_def r'_def r1_def)
  have ct: "(unat (cons_tail r') + i) mod 2 ^ e = (unat (cons_tail r) + (unat m + i)) mod 2 ^ e" for i
  proof -
    have "unat (cons_tail r') mod 2 ^ e = (unat (cons_tail r) + unat m) mod 2 ^ e"
      using unat_add_mod [of e "cons_tail r" "ucast m"] g(1) q(2) by (simp add: r'_def)
    then have "(unat (cons_tail r') + i) mod 2 ^ e = (unat (cons_tail r) + unat m + i) mod 2 ^ e" by (rule mod_add_cong) (rule refl)
    then show ?thesis by (simp only: add.assoc)
  qed
  have "ring_list r' = drop (unat m) (ring_list r)"
  proof (rule nth_equalityI)
    show "length (ring_list r') = length (drop (unat m) (ring_list r))" using ring_list_nth(1) [OF ok'] cnt by simp
    fix i assume i: "i < length (ring_list r')"
    then have "unat m + i < ?c" using ring_list_nth(1) [OF ok'] cnt by simp
    moreover have "rr_ring r' = rr_ring r" by (simp add: r'_def r1_def)
    ultimately show "ring_list r' ! i = drop (unat m) (ring_list r) ! i" using ring_list_nth(2) [OF ok' i] len(2) ct by simp
  qed
  then show ?thesis using claim o(1) check publish ok' obj' by auto
qed

lemma deq_run:
  assumes ok: "ring_ok e r" and n: "unat n \<le> length obj"
  shows "\<exists>x r'. ring_run (D_head sc b obj n) r = Some (x, r') \<and> ring_ok e r' \<and>
    (x, ring_list r') = ring_spec (2 ^ e - 1) (D_head sc b obj n) (ring_list r)"
proof -
  let ?c = "length (ring_list r)"
  have ge: "geom e r" and q: "cons_head r = cons_tail r" using ok by (simp_all add: ring_ok_def)
  note g = geomD [OF ge] and len = ring_list_nth [OF ok]
  define entries where "entries = prod_tail r - cons_head r"
  have entries: "unat entries = ?c" using len(1) q by (simp add: entries_def)
  have c: "?c < 2 ^ e" using ok len(1) by (simp add: ring_ok_def)
  have run: "ring_run (D_head sc b obj n) r = ring_run
     (if ucast n > entries then if b = RTE_RING_QUEUE_FIXED then D_ret (Inl ENOENT) obj else if entries = 0 then D_ret (Inr 0) obj
        else D_claim sc b obj n (cons_head r) (ucast entries) else D_claim sc b obj n (cons_head r) n) r"
  proof -
    have "ring_run (D_head sc b obj n) r = ring_run (D_tail sc b obj n (cons_head r)) r" by (intro ring_run_step) (simp_all add: ring_step_def)
    also have "\<dots> = ring_run (if ucast n > entries then if b = RTE_RING_QUEUE_FIXED then D_ret (Inl ENOENT) obj else if entries = 0 then D_ret (Inr 0) obj
        else D_claim sc b obj n (cons_head r) (ucast entries) else D_claim sc b obj n (cons_head r) n) r"
      by (intro ring_run_step) (simp_all add: ring_step_def entries_def Let_def)
    finally show ?thesis .
  qed
  have gt: "ucast n > entries \<longleftrightarrow> \<not> unat n \<le> ?c" using entries by (simp add: word_less_nat_alt not_le)
  consider "unat n \<le> ?c" | "\<not> unat n \<le> ?c" "b = RTE_RING_QUEUE_FIXED"
    | "\<not> unat n \<le> ?c" "b \<noteq> RTE_RING_QUEUE_FIXED" "entries = 0" | "\<not> unat n \<le> ?c" "b \<noteq> RTE_RING_QUEUE_FIXED" "entries \<noteq> 0" by blast
  then show ?thesis
  proof cases
    case 1
    then show ?thesis using deq_commit [OF ok n, of sc b n] gt run by auto
  next
    case 2
    then show ?thesis using ok gt run by simp
  next
    case 3
    then have "ring_list r = []" using entries by simp
    then show ?thesis using ok gt run 3 by simp
  next
    case 4
    have u: "unat (ucast entries :: u32) = ?c" using entries g(4) c by (simp add: unsigned_ucast_eq take_bit_nat_eq_self)
    then have w: "(ucast entries :: u32) = of_nat ?c" by (simp only: u [symmetric]) simp
    show ?thesis using deq_commit [OF ok, of "ucast entries" obj sc b n] 4 n gt run u by (auto simp: w)
  qed
qed

text \<open>
  What the client of a call sees. The header documents 0 for a bulk call that succeeds and the code returns the number of objects
  (\<open>ring_bulk_returns_n\<close> below): both say that it succeeded, which is \<open>Done\<close>. A burst returns the number of objects moved. A dequeue also leaves
  the objects in the caller's table.
\<close>

datatype ring_outcome = Done | Moved u32 | Refused errno

fun ring_out :: "'a rpc \<Rightarrow> 'a rpc \<Rightarrow> ring_outcome \<times> 'a list" where
  "ring_out (E_head sp b obj n) (E_ret (Inr k)) = (if b = RTE_RING_QUEUE_FIXED then Done else Moved k, obj)"
| "ring_out (E_head sp b obj n) (E_ret (Inl e)) = (Refused e, obj)"
| "ring_out (D_head sc b obj n) (D_ret (Inr k) os) = (if b = RTE_RING_QUEUE_FIXED then Done else Moved k, os)"
| "ring_out (D_head sc b obj n) (D_ret (Inl e) os) = (Refused e, os)"
| "ring_out _ _ = (Refused EINVAL, [])"

definition ring_do :: "'a rpc \<Rightarrow> 'a rte_ring \<Rightarrow> ((ring_outcome \<times> 'a list) \<times> 'a rte_ring) option" where
  "ring_do c r = map_option (apfst (ring_out c)) (ring_run c r)"

fun list_do :: "nat \<Rightarrow> 'a rpc \<Rightarrow> 'a list \<Rightarrow> (ring_outcome \<times> 'a list) \<times> 'a list" where
  "list_do cap (E_head sp RTE_RING_QUEUE_FIXED obj n) q =
    (if unat n \<le> cap - length q then ((Done, obj), q @ take (unat n) obj) else ((Refused ENOBUFS, obj), q))"
| "list_do cap (E_head sp RTE_RING_QUEUE_VARIABLE obj n) q =
    (let k = min (unat n) (cap - length q) in ((Moved (of_nat k), obj), q @ take k obj))"
| "list_do cap (D_head sc RTE_RING_QUEUE_FIXED obj n) q =
    (if unat n \<le> length q then ((Done, take (unat n) q @ drop (unat n) obj), drop (unat n) q) else ((Refused ENOENT, obj), q))"
| "list_do cap (D_head sc RTE_RING_QUEUE_VARIABLE obj n) q =
    (let k = min (unat n) (length q) in ((Moved (of_nat k), take k q @ drop k obj), drop k q))"
| "list_do cap p q = ((Refused EINVAL, []), q)"

lemma list_do_eq: "ring_call c \<Longrightarrow> list_do cap c q = apfst (ring_out c) (ring_spec cap c q)"
  by (induction cap c q rule: list_do.induct) (auto simp: Let_def min_def)

interpretation ring: simulation ring_do "list_do (2 ^ e - 1)" "\<lambda>n. ring_ok e" ring_list ring_call budget
  for e budget
proof (unfold_locales, goal_cases)
  case (1 n s x)
  then have "\<exists>r s'. ring_run x s = Some (r, s') \<and> ring_ok e s' \<and> (r, ring_list s') = ring_spec (2 ^ e - 1) x (ring_list s)"
    using enq_run [of e s] deq_run [of e s] by (cases x rule: ring_call.cases) auto
  then obtain r s' where "ring_run x s = Some (r, s')" "ring_ok e s'" "ring_spec (2 ^ e - 1) x (ring_list s) = (r, ring_list s')" by metis
  then show ?case using list_do_eq [OF 1(3), of "2 ^ e - 1" "ring_list s"] by (simp add: ring_do_def)
qed

lemma ring_created:
  assumes "count \<noteq> 0" "unat count \<le> 2 ^ 31" "length tab = unat (round_count count)"
  obtains e where "ring_ok e (rte_ring_init (round_count count) flags tab)" "2 ^ e = unat (round_count count)" "unat count \<le> 2 ^ e"
proof -
  obtain e where e: "e \<le> 31" "unat (round_count count) = 2 ^ e" "unat count \<le> 2 ^ e" using round_count_ok [OF assms(1,2)] .
  have "round_count count \<noteq> 0" using e(2) by (metis unat_0 power_not_zero zero_neq_numeral)
  then have "unat (round_count count - 1) = 2 ^ e - 1" using e(2) by (simp add: unat_minus_one)
  then have "ring_ok e (rte_ring_init (round_count count) flags tab)"
    using e(1,2) assms(3) by (simp add: ring_ok_def geom_def rte_ring_init_def)
  then show ?thesis using that e(2,3) by metis
qed

lemma ring_counts:
  assumes "ring_ok e r"
  shows "unat (rte_ring_count r) = length (ring_list r)" "unat (rte_ring_free_count r) = 2 ^ e - 1 - length (ring_list r)"
proof -
  have ge: "geom e r" using assms by (simp add: ring_ok_def)
  note g = geomD [OF ge] and len = ring_list_nth(1) [OF assms]
  have c: "length (ring_list r) < 2 ^ e" using assms len by (simp add: ring_ok_def)
  have "unat ((prod_tail r - cons_tail r) AND ucast (rr_mask r)) = length (ring_list r)"
    using unat_and_mask [of "ucast (rr_mask r) :: u64" e "prod_tail r - cons_tail r"] g(2) len c by simp
  then show n: "unat (rte_ring_count r) = length (ring_list r)"
    using c g(4) by (simp add: rte_ring_count_def unsigned_ucast_eq take_bit_nat_eq_self)
  have "rte_ring_count r \<le> rr_mask r" using n c g(2) by (simp add: word_le_nat_alt)
  then show "unat (rte_ring_free_count r) = 2 ^ e - 1 - length (ring_list r)" using n g(2) by (simp add: rte_ring_free_count_def unat_sub)
qed

section \<open>Properties\<close>

text \<open>
  C12: operations that run one after the other, of any mix of the single and multi variants, bulk and burst, on a ring from either constructor with a size from 1 to
  \<open>2^31\<close>, never fault, end, and do what a list bounded by one less than the rounded size does, however often the indices wrap around: a bulk call moves all its
  objects and succeeds or is refused with \<open>-ENOBUFS\<close> or \<open>-ENOENT\<close> and moves none, a burst moves as many as it can and returns their number. The counts are
  exact at the end. Whether a successful bulk call returns 0 or the number of objects is not part of the statement.
\<close>

theorem ring_run_refines_list:
  assumes "count \<noteq> 0" "unat count \<le> 2 ^ 31" "list_all ring_call cs" "cap = unat (round_count count) - 1"
    "rte_ring_create True zero count flags = Some r \<or>
     fst (rte_ring_create_from count flags tab memsz) = Some r \<and> (\<forall>c. length (tab c) = unat c)"
  shows "\<exists>rs r'. table_ops ring_do cs r = Some (rs, r') \<and> (rs, ring_list r') = spec_ops (list_do cap) cs [] \<and> unat count \<le> cap + 1 \<and>
    length (ring_list r') \<le> cap \<and> unat (rte_ring_count r') = length (ring_list r') \<and> unat (rte_ring_free_count r') = cap - length (ring_list r') \<and>
    (rte_ring_full r' \<longleftrightarrow> length (ring_list r') = cap) \<and> (rte_ring_empty r' \<longleftrightarrow> ring_list r' = [])"
proof -
  obtain t where r: "r = rte_ring_init (round_count count) flags t" and t: "length t = unat (round_count count)"
    using assms(5) by (auto simp: rte_ring_create_def rte_ring_create_from_def Let_def split: if_splits)
  obtain e where e: "ring_ok e r" "2 ^ e = unat (round_count count)" "unat count \<le> 2 ^ e"
    using ring_created [OF assms(1,2) t, of flags] r by auto
  have cap: "cap = 2 ^ e - 1" using assms(4) e(2) by simp
  have "ring_list r = []" by (simp add: r ring_list_def rte_ring_init_def)
  then obtain rs r' where run: "table_ops ring_do cs r = Some (rs, r')" "ring_ok e r'" "(rs, ring_list r') = spec_ops (list_do cap) cs []"
    using ring.run_refines [of e r 0 cs "length cs"] e(1) assms(3) unfolding cap by auto
  note cnt = ring_counts [OF run(2), folded cap]
  have le: "length (ring_list r') \<le> cap" using ring_list_nth(1) [OF run(2)] run(2) unfolding ring_ok_def cap by linarith
  have "rte_ring_full r' \<longleftrightarrow> length (ring_list r') = cap" using cnt(2) le by (simp add: rte_ring_full_def flip: unat_eq_0) linarith
  moreover have "rte_ring_empty r' \<longleftrightarrow> ring_list r' = []" using cnt(1) by (simp add: rte_ring_empty_def flip: unat_eq_0)
  ultimately show ?thesis using run(1,3) cnt le e(3) cap by auto
qed

theorem ring_run_refines_list_witness:
  "\<exists>rs r'. table_ops ring_do [rte_ring_mp_enqueue_burst [7, 8, 9, 5] 4, rte_ring_sp_enqueue_bulk [1] 1, rte_ring_sc_dequeue_bulk [0, 0] 2,
       rte_ring_mc_dequeue_burst [0, 0, 0] 3, rte_ring_mc_dequeue 6]
     (rte_ring_init 4 0 [0, 0, 0, 0 :: nat]) = Some (rs, r') \<and>
   rs = [(Moved 3, [7, 8, 9, 5]), (Refused ENOBUFS, [1]), (Done, [7, 8]), (Moved 1, [9, 0, 0]), (Refused ENOENT, [6])] \<and> rte_ring_empty r'"
proof -
  let ?cs = "[rte_ring_mp_enqueue_burst [7, 8, 9, 5] 4, rte_ring_sp_enqueue_bulk [1] 1, rte_ring_sc_dequeue_bulk [0, 0] 2,
       rte_ring_mc_dequeue_burst [0, 0, 0] 3, rte_ring_mc_dequeue (6 :: nat)]"
  have c: "list_all ring_call ?cs" "3 = unat (round_count 3) - 1"
    "rte_ring_create True 0 3 0 = Some (rte_ring_init 4 0 [0, 0, 0, 0 :: nat])"
    "spec_ops (list_do 3) ?cs [] =
      ([(Moved 3, [7, 8, 9, 5]), (Refused ENOBUFS, [1]), (Done, [7, 8]), (Moved 1, [9, 0, 0]), (Refused ENOENT, [6])], [])"
    by code_simp+
  show ?thesis using ring_run_refines_list [of 3 ?cs 3 0 0 "rte_ring_init 4 0 [0, 0, 0, 0]"] c by auto
qed

text \<open>A successful bulk call returns the number of objects, where the header documents 0.\<close>

theorem ring_bulk_returns_n:
  assumes "ring_ok e r" "unat n \<le> length obj" "unat n \<le> 2 ^ e - 1 - length (ring_list r)"
  shows "\<exists>r'. ring_run (rte_ring_mp_enqueue_bulk obj n) r = Some (E_ret (Inr n), r')"
  using enq_run [OF assms(1,2), of False RTE_RING_QUEUE_FIXED] assms(3) by (auto simp: rte_ring_mp_enqueue_bulk_def)

text \<open>
  A size of zero, or one that rounds to zero, gives a ring without slots whose mask is \<open>2 ^ 32 - 1\<close>: it takes everything and writes outside.
\<close>

theorem ring_size_zero_faults:
  "map_option (\<lambda>r. (rr_mask r, length (rr_ring r), ring_run (rte_ring_enqueue r 7) r)) (rte_ring_create True (0 :: nat) 0 0) = Some (0xffffffff, 0, None)"
  "round_count 0x80000001 = 0"
  by code_simp+

end
