(* ===== verification/Ringbuf_Threads.thy ===== *)
theory Ringbuf_Threads
  imports Ringbuf
begin

text \<open>
  Any number of threads on one ring of \<open>inc/fast/ringbuf.h\<close>, whose steps interleave freely. Producers claim ranges of positions by moving \<open>prod.head\<close>, fill them, and publish
  them in order by moving \<open>prod.tail\<close>; consumers do the same with the indices \<open>cons\<close>. The invariant says that the claimed ranges tile the gap between tail and head, which
  gives exclusive access to the slots and first-in first-out order over all threads.
\<close>

text \<open>Besides the ring and the threads, the log of all elements that were published, and of all that were handed out.\<close>

record 'a rsys =
  rs_ring :: "'a rte_ring"
  rs_pcs :: "nat \<Rightarrow> 'a rpc"
  rs_in :: "'a list"
  rs_out :: "'a list"

fun published :: "'a rpc \<Rightarrow> 'a list" where
  "published (E_publish obj h n) = take (unat n) obj"
| "published p = []"

fun delivered :: "'a rpc \<Rightarrow> 'a list" where
  "delivered (D_publish obj h n) = take (unat n) obj"
| "delivered p = []"

definition rsys_step :: "bool \<Rightarrow> nat \<Rightarrow> 'a rsys \<Rightarrow> 'a rsys option" where
  "rsys_step weak t s =
    (let p = rs_pcs s t in
     do { (p', r) \<leftarrow> ring_step weak p (rs_ring s);
          Some \<lparr>rs_ring = r, rs_pcs = (rs_pcs s)(t := p'), rs_in = rs_in s @ published p, rs_out = rs_out s @ delivered p\<rparr> })"

text \<open>
  The threads in \<open>ps\<close> enqueue and those in \<open>cs\<close> dequeue; the single-producer (single-consumer) functions are for a thread that is the only one. No call asks for zero elements.
\<close>

fun call_ok :: "nat set \<Rightarrow> nat set \<Rightarrow> nat \<Rightarrow> 'a rpc \<Rightarrow> bool" where
  "call_ok ps cs t (E_head sp b obj n) \<longleftrightarrow> t \<in> ps \<and> 0 < unat n \<and> unat n \<le> length obj \<and> (sp \<longrightarrow> ps = {t})"
| "call_ok ps cs t (D_head sc b obj n) \<longleftrightarrow> t \<in> cs \<and> 0 < unat n \<and> unat n \<le> length obj \<and> (sc \<longrightarrow> cs = {t})"
| "call_ok ps cs t p \<longleftrightarrow> False"

text \<open>The reachable states; \<open>N\<close> counts the elements claimed by producers.\<close>

inductive ring_reach :: "nat set \<Rightarrow> nat set \<Rightarrow> nat \<Rightarrow> 'a rsys \<Rightarrow> bool" for ps cs where
  init: "rte_ring_create True zero count flags = Some r \<Longrightarrow> count \<noteq> 0 \<Longrightarrow> unat count \<le> 2 ^ 31 \<Longrightarrow>
    ring_reach ps cs 0 \<lparr>rs_ring = r, rs_pcs = \<lambda>_. R_idle, rs_in = [], rs_out = []\<rparr>"
| call: "ring_reach ps cs N s \<Longrightarrow> returned (rs_pcs s t) \<Longrightarrow> call_ok ps cs t c \<Longrightarrow> ring_reach ps cs N (s\<lparr>rs_pcs := (rs_pcs s)(t := c)\<rparr>)"
| step: "ring_reach ps cs N s \<Longrightarrow> rsys_step weak t s = Some s' \<Longrightarrow>
    ring_reach ps cs (N + unat (prod_head (rs_ring s') - prod_head (rs_ring s))) s'"

section \<open>Claimed ranges\<close>

definition claims :: "('t \<Rightarrow> (nat \<times> nat) option) \<Rightarrow> nat \<Rightarrow> nat \<Rightarrow> bool" where
  "claims c lo hi \<longleftrightarrow>
    (\<forall>t h n. c t = Some (h, n) \<longrightarrow> lo \<le> h \<and> 0 < n \<and> h + n \<le> hi) \<and>
    (\<forall>t u h n k m. c t = Some (h, n) \<longrightarrow> c u = Some (k, m) \<longrightarrow> t \<noteq> u \<longrightarrow> h + n \<le> k \<or> k + m \<le> h) \<and>
    (\<forall>i. lo \<le> i \<longrightarrow> i < hi \<longrightarrow> (\<exists>t h n. c t = Some (h, n) \<and> h \<le> i \<and> i < h + n))"

lemma claimsD:
  assumes "claims c lo hi"
  shows "c t = Some (h, n) \<Longrightarrow> lo \<le> h" "c t = Some (h, n) \<Longrightarrow> 0 < n" "c t = Some (h, n) \<Longrightarrow> h + n \<le> hi"
    "c t = Some (h, n) \<Longrightarrow> c u = Some (k, m) \<Longrightarrow> t \<noteq> u \<Longrightarrow> h + n \<le> k \<or> k + m \<le> h"
    "lo \<le> i \<Longrightarrow> i < hi \<Longrightarrow> \<exists>t h n. c t = Some (h, n) \<and> h \<le> i \<and> i < h + n"
  using assms unfolding claims_def by blast+

lemma claimsI:
  assumes "\<And>t h n. c t = Some (h, n) \<Longrightarrow> lo \<le> h \<and> 0 < n \<and> h + n \<le> hi"
    "\<And>t u h n k m. c t = Some (h, n) \<Longrightarrow> c u = Some (k, m) \<Longrightarrow> t \<noteq> u \<Longrightarrow> h + n \<le> k \<or> k + m \<le> h"
    "\<And>i. lo \<le> i \<Longrightarrow> i < hi \<Longrightarrow> \<exists>t h n. c t = Some (h, n) \<and> h \<le> i \<and> i < h + n"
  shows "claims c lo hi"
  using assms unfolding claims_def by blast

lemma claims_none: "claims (\<lambda>_. None) lo lo"
  by (simp add: claims_def)

lemma claims_new:
  assumes c: "claims c lo hi" and t: "c t = None" and n: "0 < n" "lo \<le> hi"
  shows "claims (c(t \<mapsto> (hi, n))) lo (hi + n)"
proof (rule claimsI)
  fix u h m assume "(c(t \<mapsto> (hi, n))) u = Some (h, m)"
  then show "lo \<le> h \<and> 0 < m \<and> h + m \<le> hi + n" using claimsD(1-3) [OF c, of u h m] n by (auto split: if_splits)
next
  fix u v h m k l
  assume "(c(t \<mapsto> (hi, n))) u = Some (h, m)" "(c(t \<mapsto> (hi, n))) v = Some (k, l)" "u \<noteq> v"
  then show "h + m \<le> k \<or> k + l \<le> h"
    using claimsD(3) [OF c, of u h m] claimsD(3) [OF c, of v k l] claimsD(4) [OF c, of u h m v k l] by (auto split: if_splits)
next
  fix i assume i: "lo \<le> i" "i < hi + n"
  show "\<exists>u h m. (c(t \<mapsto> (hi, n))) u = Some (h, m) \<and> h \<le> i \<and> i < h + m"
  proof (cases "i < hi")
    case True
    then obtain u h m where "c u = Some (h, m)" "h \<le> i" "i < h + m" using claimsD(5) [OF c i(1)] by blast
    then show ?thesis using t by (intro exI [of _ u] exI [of _ h] exI [of _ m]) auto
  next
    case False
    then show ?thesis using i by (intro exI [of _ t] exI [of _ hi] exI [of _ n]) simp
  qed
qed

text \<open>The range at the lower end is given back.\<close>

lemma claims_done:
  assumes c: "claims c lo hi" and t: "c t = Some (lo, n)"
  shows "claims (c(t := None)) (lo + n) hi" "\<And>u h m. u \<noteq> t \<Longrightarrow> c u = Some (h, m) \<Longrightarrow> lo + n \<le> h"
proof -
  show up: "lo + n \<le> h" if "u \<noteq> t" "c u = Some (h, m)" for u h m
    using claimsD(4) [OF c t that(2)] claimsD(1,2) [OF c that(2)] that(1) by auto
  show "claims (c(t := None)) (lo + n) hi"
  proof (rule claimsI)
    fix u h m assume "(c(t := None)) u = Some (h, m)"
    then show "lo + n \<le> h \<and> 0 < m \<and> h + m \<le> hi" using claimsD(2,3) [OF c, of u h m] up [of u h m] by (auto split: if_splits)
  next
    fix u v h m k l assume "(c(t := None)) u = Some (h, m)" "(c(t := None)) v = Some (k, l)" "u \<noteq> v"
    then show "h + m \<le> k \<or> k + l \<le> h" using claimsD(4) [OF c, of u h m v k l] by (auto split: if_splits)
  next
    fix i assume i: "lo + n \<le> i" "i < hi"
    then obtain u h m where u: "c u = Some (h, m)" "h \<le> i" "i < h + m" using claimsD(5) [OF c, of i] by auto
    then have "u \<noteq> t" using t i by auto
    then show "\<exists>u h m. (c(t := None)) u = Some (h, m) \<and> h \<le> i \<and> i < h + m" using u by auto
  qed
qed

text \<open>Whoever holds the lower end can go on.\<close>

lemma claims_first: "claims c lo hi \<Longrightarrow> lo < hi \<Longrightarrow> \<exists>t n. c t = Some (lo, n)"
  using claimsD(1,5) [of c lo hi] by (metis le_antisym order_refl)

section \<open>The invariant\<close>

fun ecl :: "'a rpc \<Rightarrow> (nat \<times> nat) option" where
  "ecl (E_store sp obj h n plan) = Some (unat h, unat n)"
| "ecl (E_check sp obj h n) = Some (unat h, unat n)"
| "ecl (E_publish obj h n) = Some (unat h, unat n)"
| "ecl p = None"

fun dcl :: "'a rpc \<Rightarrow> (nat \<times> nat) option" where
  "dcl (D_load sc obj h n plan) = Some (unat h, unat n)"
| "dcl (D_check sc obj h n) = Some (unat h, unat n)"
| "dcl (D_publish obj h n) = Some (unat h, unat n)"
| "dcl p = None"

definition role :: "nat set \<Rightarrow> nat \<Rightarrow> bool \<Rightarrow> 'a list \<Rightarrow> u32 \<Rightarrow> bool" where
  "role ts t single obj n \<longleftrightarrow> t \<in> ts \<and> 0 < unat n \<and> unat n \<le> length obj \<and> (single \<longrightarrow> ts = {t})"

definition stored :: "nat \<Rightarrow> 'a list \<Rightarrow> 'a list \<Rightarrow> nat \<Rightarrow> nat \<Rightarrow> bool" where
  "stored e tab obj h j \<longleftrightarrow> (\<forall>i<j. tab ! ((h + i) mod 2 ^ e) = obj ! i)"

definition loaded :: "'a list \<Rightarrow> 'a list \<Rightarrow> nat \<Rightarrow> nat \<Rightarrow> bool" where
  "loaded L obj h j \<longleftrightarrow> (\<forall>i<j. obj ! i = L ! (h + i))"

text \<open>What a thread may rely on; \<open>L\<close> is the log of the published elements.\<close>

fun thr_ok :: "nat set \<Rightarrow> nat set \<Rightarrow> nat \<Rightarrow> 'a rte_ring \<Rightarrow> 'a list \<Rightarrow> nat \<Rightarrow> 'a rpc \<Rightarrow> bool" where
  "thr_ok ps cs e r L t (E_head sp b obj n) \<longleftrightarrow> role ps t sp obj n"
| "thr_ok ps cs e r L t (E_tail sp b obj n h) \<longleftrightarrow> role ps t sp obj n \<and> unat h \<le> unat (prod_head r) \<and> (sp \<longrightarrow> h = prod_head r)"
| "thr_ok ps cs e r L t (E_claim sp b obj mx h n) \<longleftrightarrow> role ps t sp obj mx \<and> 0 < unat n \<and> unat n \<le> unat mx \<and>
     unat h \<le> unat (prod_head r) \<and> (sp \<longrightarrow> h = prod_head r) \<and> (h = prod_head r \<longrightarrow> unat h + unat n < unat (cons_tail r) + 2 ^ e)"
| "thr_ok ps cs e r L t (E_store sp obj h n plan) \<longleftrightarrow> role ps t sp obj n \<and>
     (\<exists>j\<le>unat n. plan_of plan = span e (unat h) j (unat n) \<and> stored e (rr_ring r) obj (unat h) j)"
| "thr_ok ps cs e r L t (E_check sp obj h n) \<longleftrightarrow> role ps t sp obj n \<and> stored e (rr_ring r) obj (unat h) (unat n)"
| "thr_ok ps cs e r L t (E_publish obj h n) \<longleftrightarrow> role ps t False obj n \<and> h = prod_tail r \<and> stored e (rr_ring r) obj (unat h) (unat n)"
| "thr_ok ps cs e r L t (D_head sc b obj n) \<longleftrightarrow> role cs t sc obj n"
| "thr_ok ps cs e r L t (D_tail sc b obj n h) \<longleftrightarrow> role cs t sc obj n \<and> unat h \<le> unat (cons_head r) \<and> (sc \<longrightarrow> h = cons_head r)"
| "thr_ok ps cs e r L t (D_claim sc b obj mx h n) \<longleftrightarrow> role cs t sc obj mx \<and> 0 < unat n \<and> unat n \<le> unat mx \<and>
     unat h \<le> unat (cons_head r) \<and> (sc \<longrightarrow> h = cons_head r) \<and> (h = cons_head r \<longrightarrow> unat h + unat n \<le> unat (prod_tail r))"
| "thr_ok ps cs e r L t (D_load sc obj h n plan) \<longleftrightarrow> role cs t sc obj n \<and>
     (\<exists>j\<le>unat n. plan_of plan = span e (unat h) j (unat n) \<and> loaded L obj (unat h) j)"
| "thr_ok ps cs e r L t (D_check sc obj h n) \<longleftrightarrow> role cs t sc obj n \<and> loaded L obj (unat h) (unat n)"
| "thr_ok ps cs e r L t (D_publish obj h n) \<longleftrightarrow> role cs t False obj n \<and> h = cons_tail r \<and> loaded L obj (unat h) (unat n)"
| "thr_ok ps cs e r L t p \<longleftrightarrow> True"

definition ring_inv :: "nat set \<Rightarrow> nat set \<Rightarrow> nat \<Rightarrow> 'a rte_ring \<Rightarrow> 'a list \<Rightarrow> (nat \<Rightarrow> 'a rpc) \<Rightarrow> bool" where
  "ring_inv ps cs e r L P \<longleftrightarrow> geom e r \<and>
     unat (cons_tail r) \<le> unat (cons_head r) \<and> unat (cons_head r) \<le> unat (prod_tail r) \<and> unat (prod_tail r) \<le> unat (prod_head r) \<and>
     unat (prod_head r) < unat (cons_tail r) + 2 ^ e \<and> length L = unat (prod_tail r) \<and>
     (\<forall>i. unat (cons_tail r) \<le> i \<longrightarrow> i < unat (prod_tail r) \<longrightarrow> rr_ring r ! (i mod 2 ^ e) = L ! i) \<and>
     claims (ecl \<circ> P) (unat (prod_tail r)) (unat (prod_head r)) \<and> claims (dcl \<circ> P) (unat (cons_tail r)) (unat (cons_head r)) \<and>
     (\<forall>t. thr_ok ps cs e r L t (P t))"

lemma ring_invD:
  assumes "ring_inv ps cs e r L P"
  shows "geom e r" "unat (cons_tail r) \<le> unat (cons_head r)" "unat (cons_head r) \<le> unat (prod_tail r)" "unat (prod_tail r) \<le> unat (prod_head r)"
    "unat (prod_head r) < unat (cons_tail r) + 2 ^ e" "length L = unat (prod_tail r)"
    "unat (cons_tail r) \<le> i \<Longrightarrow> i < unat (prod_tail r) \<Longrightarrow> rr_ring r ! (i mod 2 ^ e) = L ! i"
    "claims (ecl \<circ> P) (unat (prod_tail r)) (unat (prod_head r))" "claims (dcl \<circ> P) (unat (cons_tail r)) (unat (cons_head r))"
    "thr_ok ps cs e r L t (P t)"
  using assms unfolding ring_inv_def by blast+

lemma ring_invI:
  assumes "geom e r" "unat (cons_tail r) \<le> unat (cons_head r)" "unat (cons_head r) \<le> unat (prod_tail r)" "unat (prod_tail r) \<le> unat (prod_head r)"
    "unat (prod_head r) < unat (cons_tail r) + 2 ^ e" "length L = unat (prod_tail r)"
    "\<And>i. unat (cons_tail r) \<le> i \<Longrightarrow> i < unat (prod_tail r) \<Longrightarrow> rr_ring r ! (i mod 2 ^ e) = L ! i"
    "claims (ecl \<circ> P) (unat (prod_tail r)) (unat (prod_head r))" "claims (dcl \<circ> P) (unat (cons_tail r)) (unat (cons_head r))"
    "\<And>t. thr_ok ps cs e r L t (P t)"
  shows "ring_inv ps cs e r L P"
  using assms unfolding ring_inv_def by blast

lemma cl_upd: "k \<circ> P(t := p) = (k \<circ> P)(t := k p)" "(k \<circ> P)(t := k (P t)) = k \<circ> P"
  by (auto simp: fun_eq_iff)

text \<open>A step that changes only the thread's own state and keeps its claims.\<close>

lemma range_local:
  assumes "ring_inv ps cs e r L P" "thr_ok ps cs e r L t p" "ecl p = ecl (P t)" "dcl p = dcl (P t)"
  shows "ring_inv ps cs e r L (P(t := p))"
  using assms unfolding ring_inv_def cl_upd by (simp add: cl_upd(2))

lemma unat_add_u64: "unat (a :: u64) + unat (b :: u32) < 2 ^ 64 \<Longrightarrow> unat (a + ucast b) = unat a + unat b"
  by (simp add: unat_word_ariths)

lemma range_claim_enq:
  assumes inv: "ring_inv ps cs e r L P" and p: "P t = E_claim sp b obj mx h n" and h: "h = prod_head r"
    and fit: "unat h + unat n < 2 ^ 64"
  shows "ring_inv ps cs e (r\<lparr>prod_head := h + ucast n\<rparr>) L (P(t := E_store sp obj h n (copy_plan (rr_mask r) h n)))"
proof -
  let ?r = "r\<lparr>prod_head := h + ucast n\<rparr>" and ?p = "E_store sp obj h n (copy_plan (rr_mask r) h n)"
  note i = ring_invD [OF inv] and g = geomD [OF ring_invD(1) [OF inv]]
  have t: "role ps t sp obj mx" "0 < unat n" "unat n \<le> unat mx" "unat h + unat n < unat (cons_tail r) + 2 ^ e"
    using i(10) [of t] h by (simp_all add: p)
  have hn: "unat (h + ucast n) = unat (prod_head r) + unat n" using unat_add_u64 [OF fit] h by simp
  have "unat n < 2 ^ e" using t(4) i(2,3,4) unfolding h by linarith
  then have plan: "plan_of (copy_plan (rr_mask r) h n) = span e (unat h) 0 (unat n)" by (rule copy_plan_eq [OF g(1,2)])
  have others: "thr_ok ps cs e ?r L u (P u)" if "u \<noteq> t" for u
  proof -
    have ns: "ps \<noteq> {u}" using t(1) that by (auto simp: role_def)
    have hd: "k \<noteq> h + ucast n" if "unat k \<le> unat (prod_head r)" for k using hn t(2) that by auto
    show ?thesis using i(10) [of u] ns hn hd by (cases "P u") (auto simp: role_def)
  qed
  moreover have "thr_ok ps cs e ?r L t ?p" using t plan by (auto simp: role_def stored_def)
  moreover have "claims ((ecl \<circ> P)(t := ecl ?p)) (unat (prod_tail r)) (unat (prod_head r) + unat n)"
    using claims_new [OF i(8) _ t(2) i(4), of t] p h by simp
  moreover have "(dcl \<circ> P)(t := dcl ?p) = dcl \<circ> P" using p cl_upd(2) [of dcl P t] by simp
  ultimately show ?thesis using inv hn t(4) h unfolding ring_inv_def cl_upd by (auto simp: geom_def)
qed

lemma range_claim_deq:
  assumes inv: "ring_inv ps cs e r L P" and p: "P t = D_claim sc b obj mx h n" and h: "h = cons_head r"
  shows "ring_inv ps cs e (r\<lparr>cons_head := h + ucast n\<rparr>) L (P(t := D_load sc obj h n (copy_plan (rr_mask r) h n)))"
proof -
  let ?r = "r\<lparr>cons_head := h + ucast n\<rparr>" and ?p = "D_load sc obj h n (copy_plan (rr_mask r) h n)"
  note i = ring_invD [OF inv] and g = geomD [OF ring_invD(1) [OF inv]]
  have t: "role cs t sc obj mx" "0 < unat n" "unat n \<le> unat mx" "unat h + unat n \<le> unat (prod_tail r)"
    using i(10) [of t] h by (simp_all add: p)
  have "unat h + unat n < 2 ^ 64" using t(4) unat_u64_less [of "prod_tail r"] by simp
  then have hn: "unat (h + ucast n) = unat (cons_head r) + unat n" using unat_add_u64 [of h n] h by simp
  have "unat n < 2 ^ e" using t(4) i(2,4,5) unfolding h by linarith
  then have plan: "plan_of (copy_plan (rr_mask r) h n) = span e (unat h) 0 (unat n)" by (rule copy_plan_eq [OF g(1,2)])
  have others: "thr_ok ps cs e ?r L u (P u)" if "u \<noteq> t" for u
  proof -
    have ns: "cs \<noteq> {u}" using t(1) that by (auto simp: role_def)
    have hd: "k \<noteq> h + ucast n" if "unat k \<le> unat (cons_head r)" for k using hn t(2) that by auto
    show ?thesis using i(10) [of u] ns hn hd by (cases "P u") (auto simp: role_def)
  qed
  moreover have "thr_ok ps cs e ?r L t ?p" using t plan by (auto simp: role_def loaded_def)
  moreover have "claims ((dcl \<circ> P)(t := dcl ?p)) (unat (cons_tail r)) (unat (cons_head r) + unat n)"
    using claims_new [OF i(9) _ t(2) i(2), of t] p h by simp
  moreover have "(ecl \<circ> P)(t := ecl ?p) = ecl \<circ> P" using p cl_upd(2) [of ecl P t] by simp
  ultimately show ?thesis using inv hn t(4) h unfolding ring_inv_def cl_upd by (auto simp: geom_def)
qed

lemma span_head:
  assumes "plan_of ((d, s) # plan) = span e h j n"
  shows "j < n" "unat d = (h + j) mod 2 ^ e" "unat s = j" "plan_of plan = span e h (Suc j) n"
proof -
  show jn: "j < n" using assms by (cases "j < n") simp_all
  show "unat d = (h + j) mod 2 ^ e" "unat s = j" "plan_of plan = span e h (Suc j) n" using assms jn by (simp_all add: span_Cons)
qed

lemma range_write:
  assumes inv: "ring_inv ps cs e r L P" and p: "P t = E_store sp obj h n ((d, s) # plan)"
  shows "\<exists>v tab. get_at obj (unat s) = Some v \<and> put_at (rr_ring r) (unat d) v = Some tab \<and>
    ring_inv ps cs e (r\<lparr>rr_ring := tab\<rparr>) L (P(t := E_store sp obj h n plan))"
proof -
  note i = ring_invD [OF inv] and g = geomD [OF ring_invD(1) [OF inv]]
  obtain j where j: "plan_of ((d, s) # plan) = span e (unat h) j (unat n)" "stored e (rr_ring r) obj (unat h) j" and ro: "role ps t sp obj n"
    using i(10) [of t] by (auto simp: p)
  note sp = span_head [OF j(1)]
  have cl: "(ecl \<circ> P) t = Some (unat h, unat n)" by (simp add: p)
  note c = claimsD(1,3) [OF i(8) cl]
  let ?x = "(unat h + j) mod 2 ^ e" and ?tab = "(rr_ring r)[(unat h + j) mod 2 ^ e := obj ! j]"
  have apart: "k mod 2 ^ e \<noteq> ?x" if "unat (cons_tail r) \<le> k" "k < unat (prod_head r)" "k \<noteq> unat h + j" for k
    using slot_inj [of k "2 ^ e" "unat h + j" "unat (cons_tail r)"] that c sp(1) i(2,3,4,5) by force
  have stored: "stored e ?tab ob (unat k) m" if "stored e (rr_ring r) ob (unat k) m" "(ecl \<circ> P) u = Some (unat k, m')" "u \<noteq> t" "m \<le> m'" for ob k m m' u
    unfolding stored_def
  proof (intro allI impI)
    fix x assume x: "x < m"
    have "(unat k + x) mod 2 ^ e \<noteq> ?x"
      using claimsD(1,3) [OF i(8) that(2)] claimsD(4) [OF i(8) cl that(2)] that(3,4) x sp(1) i(2,3) by (intro apart) auto
    then show "?tab ! ((unat k + x) mod 2 ^ e) = ob ! x" using that(1) x by (simp add: stored_def)
  qed
  have "thr_ok ps cs e (r\<lparr>rr_ring := ?tab\<rparr>) L u (P u)" if "u \<noteq> t" for u
    using i(10) [of u] stored [of _ _ _ u] that by (cases "P u") fastforce+
  moreover have "stored e ?tab obj (unat h) (Suc j)"
    unfolding stored_def
  proof (intro allI impI)
    fix x assume x: "x < Suc j"
    then have "(unat h + x) mod 2 ^ e \<noteq> ?x" if "x \<noteq> j" using that c sp(1) i(2,3) by (intro apart) auto
    then show "?tab ! ((unat h + x) mod 2 ^ e) = obj ! x" using j(2) x g(6) by (cases "x = j") (auto simp: stored_def)
  qed
  then have "thr_ok ps cs e (r\<lparr>rr_ring := ?tab\<rparr>) L t (E_store sp obj h n plan)" using ro sp by (auto intro!: exI [of _ "Suc j"])
  moreover have "?tab ! (k mod 2 ^ e) = L ! k" if "unat (cons_tail r) \<le> k" "k < unat (prod_tail r)" for k
    using apart [of k] i(7) [OF that] that i(4) c(1) by simp
  moreover have "(ecl \<circ> P)(t := ecl (E_store sp obj h n plan)) = ecl \<circ> P" "(dcl \<circ> P)(t := dcl (E_store sp obj h n plan)) = dcl \<circ> P"
    using p cl_upd(2) [of ecl P t] cl_upd(2) [of dcl P t] by simp_all
  ultimately have "ring_inv ps cs e (r\<lparr>rr_ring := ?tab\<rparr>) L (P(t := E_store sp obj h n plan))"
    using inv unfolding ring_inv_def cl_upd by (auto simp: geom_def)
  then show ?thesis using sp ro g(6) by (auto simp: role_def)
qed

lemma inv_publish_enq:
  assumes inv: "ring_inv ps cs e r L P" and p: "P t = E_publish obj h n"
  shows "ring_inv ps cs e (r\<lparr>prod_tail := h + ucast n\<rparr>) (L @ take (unat n) obj) (P(t := E_ret x))"
    "unat (h + ucast n) = unat (prod_tail r) + unat n"
proof -
  let ?r = "r\<lparr>prod_tail := h + ucast n\<rparr>" and ?L = "L @ take (unat n) obj"
  note i = ring_invD [OF inv]
  have t: "role ps t False obj n" "h = prod_tail r" "stored e (rr_ring r) obj (unat h) (unat n)" using i(10) [of t] p by auto
  have cl: "(ecl \<circ> P) t = Some (unat (prod_tail r), unat n)" by (simp add: p t(2))
  have le: "unat (prod_tail r) + unat n \<le> unat (prod_head r)" using claimsD(3) [OF i(8) cl] .
  then show hn: "unat (h + ucast n) = unat (prod_tail r) + unat n" using unat_add_u64 [of h n] unat_u64_less [of "prod_head r"] t(2) by simp
  note up = claims_done [where c = "ecl \<circ> P", OF i(8) cl]
  have later: "unat (prod_tail r) + unat n \<le> unat k" if "u \<noteq> t" "ecl (P u) = Some (unat k, m)" for u k m using up(2) [of u] that by simp
  have len: "length (take (unat n) obj) = unat n" using t(1) by (simp add: role_def)
  have load: "loaded ?L ob k m" if "loaded L ob k m" "k + m \<le> length L" for ob k m using that by (simp add: loaded_def nth_append)
  have dl: "k + m \<le> length L" if "dcl (P u) = Some (k, m)" for u k m using claimsD(3) [OF i(9), of u k m] that i(3,6) by simp
  have "thr_ok ps cs e ?r ?L u (P u)" if "u \<noteq> t" for u
  proof (cases "P u")
    case (E_publish ob k m)
    then show ?thesis using i(10) [of u] later [OF that, of k "unat m"] t(1) by (simp add: role_def)
  next
    case (D_load sc ob k m pl)
    then obtain j where "j \<le> unat m" "plan_of pl = span e (unat k) j (unat m)" "loaded L ob (unat k) j" "role cs u sc ob m" using i(10) [of u] by auto
    then show ?thesis using D_load load [of ob "unat k" j] dl [of u "unat k" "unat m"] by auto
  qed (use i(10) [of u] hn load dl [of u] in auto)
  moreover have "rr_ring r ! (k mod 2 ^ e) = ?L ! k" if k: "unat (cons_tail r) \<le> k" "k < unat (prod_tail r) + unat n" for k
  proof (cases "k < unat (prod_tail r)")
    case True
    then show ?thesis using i(6) i(7) [OF k(1)] by (simp add: nth_append)
  next
    case False
    then show ?thesis using t(2,3) k(2) i(6) unfolding stored_def by (auto simp: nth_append dest: spec [of _ "k - unat (prod_tail r)"])
  qed
  moreover have "ecl \<circ> P(t := E_ret x) = (ecl \<circ> P)(t := None)" "dcl \<circ> P(t := E_ret x) = dcl \<circ> P" using p by (auto simp: fun_eq_iff)
  ultimately show "ring_inv ps cs e ?r ?L (P(t := E_ret x))"
    using i(1-6,9) hn le up(1) len by (intro ring_invI) (auto simp: geom_def)
qed

lemma inv_publish_deq:
  assumes inv: "ring_inv ps cs e r L P" and p: "P t = D_publish obj h n"
  shows "ring_inv ps cs e (r\<lparr>cons_tail := h + ucast n\<rparr>) L (P(t := D_ret x obj))"
    "unat (h + ucast n) = unat (cons_tail r) + unat n" "take (unat n) obj = take (unat n) (drop (unat (cons_tail r)) L)"
proof -
  let ?r = "r\<lparr>cons_tail := h + ucast n\<rparr>"
  note i = ring_invD [OF inv]
  have t: "role cs t False obj n" "h = cons_tail r" "loaded L obj (unat h) (unat n)" using i(10) [of t] p by auto
  have cl: "(dcl \<circ> P) t = Some (unat (cons_tail r), unat n)" by (simp add: p t(2))
  have le: "unat (cons_tail r) + unat n \<le> unat (cons_head r)" using claimsD(3) [OF i(9) cl] .
  then show hn: "unat (h + ucast n) = unat (cons_tail r) + unat n" using unat_add_u64 [of h n] unat_u64_less [of "cons_head r"] t(2) by simp
  show "take (unat n) obj = take (unat n) (drop (unat (cons_tail r)) L)"
    using t le i(3,6) by (intro nth_equalityI) (auto simp: role_def loaded_def)
  note up = claims_done [where c = "dcl \<circ> P", OF i(9) cl]
  have later: "unat (cons_tail r) + unat n \<le> unat k" if "u \<noteq> t" "dcl (P u) = Some (unat k, m)" for u k m using up(2) [of u] that by simp
  have "thr_ok ps cs e ?r L u (P u)" if "u \<noteq> t" for u
  proof (cases "P u")
    case (D_publish ob k m)
    then show ?thesis using i(10) [of u] later [OF that, of k "unat m"] t(1) by (simp add: role_def)
  qed (use i(10) [of u] hn in auto)
  moreover have "dcl \<circ> P(t := D_ret x obj) = (dcl \<circ> P)(t := None)" "ecl \<circ> P(t := D_ret x obj) = ecl \<circ> P" using p by (auto simp: fun_eq_iff)
  ultimately show "ring_inv ps cs e ?r L (P(t := D_ret x obj))"
    using i(1-8) hn le up(1) by (intro ring_invI) (auto simp: geom_def)
qed

section \<open>Steps\<close>

definition steps_to :: "nat set \<Rightarrow> nat set \<Rightarrow> nat \<Rightarrow> 'a rte_ring \<Rightarrow> 'a list \<Rightarrow> (nat \<Rightarrow> 'a rpc) \<Rightarrow> nat \<Rightarrow> 'a rpc \<Rightarrow> 'a rte_ring \<Rightarrow> bool" where
  "steps_to ps cs e r L P t p' r' \<longleftrightarrow>
    (unat (prod_head r) + unat (prod_head r' - prod_head r) < 2 ^ 64 \<longrightarrow>
     ring_inv ps cs e r' (L @ published (P t)) (P(t := p')) \<and>
     unat (prod_head r') = unat (prod_head r) + unat (prod_head r' - prod_head r) \<and>
     take (unat (cons_tail r')) (L @ published (P t)) = take (unat (cons_tail r)) L @ delivered (P t))"

lemma steps_local:
  assumes "ring_inv ps cs e r L P" "thr_ok ps cs e r L t p'" "ecl p' = ecl (P t)" "dcl p' = dcl (P t)" "published (P t) = []" "delivered (P t) = []"
  shows "steps_to ps cs e r L P t p' r"
  using range_local [OF assms(1-4)] assms(5,6) by (simp add: steps_to_def)

lemma ecl_role: "thr_ok ps cs e r L u p \<Longrightarrow> ecl p = Some x \<Longrightarrow> u \<in> ps"
  by (cases p) (auto simp: role_def)

lemma dcl_role: "thr_ok ps cs e r L u p \<Longrightarrow> dcl p = Some x \<Longrightarrow> u \<in> cs"
  by (cases p) (auto simp: role_def)

text \<open>A single producer finds its own range at the tail, so the assertion holds.\<close>

lemma single_at_tail:
  assumes inv: "ring_inv ps cs e r L P" and t: "ecl (P t) = Some (h, n)" "ps = {t}"
  shows "h = unat (prod_tail r)"
proof -
  note i = ring_invD [OF inv]
  have c: "(ecl \<circ> P) t = Some (h, n)" using t(1) by simp
  have "unat (prod_tail r) < unat (prod_head r)" using claimsD(1-3) [OF i(8) c] by linarith
  then obtain u m where u: "(ecl \<circ> P) u = Some (unat (prod_tail r), m)" using claims_first [OF i(8)] by blast
  then have "u = t" using ecl_role [OF i(10) [of u]] t(2) by simp
  then show ?thesis using u c by simp
qed

lemma single_at_tail_deq:
  assumes inv: "ring_inv ps cs e r L P" and t: "dcl (P t) = Some (h, n)" "cs = {t}"
  shows "h = unat (cons_tail r)"
proof -
  note i = ring_invD [OF inv]
  have c: "(dcl \<circ> P) t = Some (h, n)" using t(1) by simp
  have "unat (cons_tail r) < unat (cons_head r)" using claimsD(1-3) [OF i(9) c] by linarith
  then obtain u m where u: "(dcl \<circ> P) u = Some (unat (cons_tail r), m)" using claims_first [OF i(9)] by blast
  then have "u = t" using dcl_role [OF i(10) [of u]] t(2) by simp
  then show ?thesis using u c by simp
qed

lemma clamp:
  assumes "0 < unat (n :: u32)" "ucast n > (f :: u64)" "f \<noteq> 0"
  shows "0 < unat (ucast f :: u32)" "unat (ucast f :: u32) \<le> unat n" "unat (ucast f :: u32) = unat f"
proof -
  have "unat f < unat n" using assms(2) by (simp add: word_less_nat_alt)
  moreover from this have "unat f < 2 ^ 32" using unat_u32_less [of n] by simp
  ultimately show "unat (ucast f :: u32) = unat f" by (simp add: unsigned_ucast_eq take_bit_nat_eq_self)
  then show "0 < unat (ucast f :: u32)" "unat (ucast f :: u32) \<le> unat n" using assms(3) \<open>unat f < unat n\<close> by (simp_all add: unat_gt_0)
qed

lemma enq_step_ok:
  assumes inv: "ring_inv ps cs e r L P" and en: "enqueues (P t)"
  shows "\<exists>p' r'. do_enqueue weak (P t) r = Some (p', r') \<and> steps_to ps cs e r L P t p' r'"
proof -
  note i = ring_invD [OF inv] and g = geomD [OF ring_invD(1) [OF inv]]
  have ok: "thr_ok ps cs e r L t (P t)" by (rule i(10))
  show ?thesis
  proof (cases "P t")
    case (E_head sp b obj n)
    then show ?thesis using ok steps_local [OF inv, of t "E_tail sp b obj n (prod_head r)"] by (auto simp: role_def)
  next
    case (E_tail sp b obj n h)
    define free where "free = ucast (rr_mask r) + cons_tail r - h"
    have fr: "unat h + unat free < unat (cons_tail r) + 2 ^ e" if "h = prod_head r"
    proof -
      have w: "free = ucast (rr_mask r) - (h - cons_tail r)" by (simp add: free_def)
      have "cons_tail r \<le> h" using i(2-4) that by (simp add: word_le_nat_alt)
      then have d: "unat (h - cons_tail r) = unat h - unat (cons_tail r)" by (rule unat_sub)
      then have "h - cons_tail r \<le> ucast (rr_mask r)" using i(5) that g(2) by (simp add: word_le_nat_alt)
      then have "unat free = 2 ^ e - 1 - (unat h - unat (cons_tail r))" using d g(2) by (simp add: w unat_sub)
      then show ?thesis using i(2-5) g(5) unfolding that by linarith
    qed
    have base: "role ps t sp obj n" "unat h \<le> unat (prod_head r)" "sp \<longrightarrow> h = prod_head r" using ok by (auto simp: E_tail)
    have n0: "0 < unat n" using base(1) by (simp add: role_def)
    have "thr_ok ps cs e r L t (E_claim sp b obj n h (ucast free))" if "ucast n > free" "free \<noteq> 0"
      using base clamp [OF n0 that] fr by auto
    moreover have "thr_ok ps cs e r L t (E_claim sp b obj n h n)" if "\<not> ucast n > free"
      using base n0 fr that by (auto simp: word_less_nat_alt not_less)
    ultimately show ?thesis using E_tail inv by (auto simp: Let_def free_def [symmetric] intro!: steps_local)
  next
    case (E_claim sp b obj mx h n)
    show ?thesis
    proof (cases "sp \<or> (prod_head r = h \<and> \<not> weak)")
      case True
      then have h: "h = prod_head r" using ok by (auto simp: E_claim)
      then show ?thesis using True E_claim range_claim_enq [OF inv E_claim h] unat_add_u64 [of h n] by (auto simp: steps_to_def)
    next
      case False
      then show ?thesis using ok E_claim steps_local [OF inv, of t "E_head sp b obj mx"] by auto
    qed
  next
    case (E_store sp obj h n plan)
    show ?thesis
    proof (cases plan)
      case Nil
      then obtain j where "j \<le> unat n" "span e (unat h) j (unat n) = []" "stored e (rr_ring r) obj (unat h) j" using ok E_store by auto
      moreover from this have "j = unat n" by (cases "j < unat n") (simp_all add: span_Cons)
      ultimately show ?thesis using Nil ok E_store steps_local [OF inv, of t "E_check sp obj h n"] by auto
    next
      case (Cons a plan')
      obtain d s where a: "a = (d, s)" by (cases a)
      then have p: "P t = E_store sp obj h n ((d, s) # plan')" using Cons E_store by simp
      obtain v tab where "get_at obj (unat s) = Some v" "put_at (rr_ring r) (unat d) v = Some tab"
        "ring_inv ps cs e (r\<lparr>rr_ring := tab\<rparr>) L (P(t := E_store sp obj h n plan'))" using range_write [OF inv p] by blast
      then show ?thesis by (simp add: p steps_to_def del: get_at_eq_Some put_at_eq_Some)
    qed
  next
    case (E_check sp obj h n)
    have "prod_tail r = h" if sp
    proof -
      have "ecl (P t) = Some (unat h, unat n)" "ps = {t}" using ok that by (simp_all add: E_check role_def)
      then have "unat h = unat (prod_tail r)" by (rule single_at_tail [OF inv])
      then show ?thesis by (simp only: word_unat_eq_iff)
    qed
    moreover have "steps_to ps cs e r L P t (E_publish obj h n) r" if "prod_tail r = h"
      using ok that by (intro steps_local [OF inv]) (auto simp: E_check role_def)
    moreover have "steps_to ps cs e r L P t (E_check sp obj h n) r" using ok by (intro steps_local [OF inv]) (simp_all add: E_check)
    ultimately show ?thesis unfolding E_check do_enqueue.simps by (cases sp; cases "prod_tail r = h") simp_all
  next
    case (E_publish obj h n)
    note p = inv_publish_enq [OF inv E_publish]
    have "unat (cons_tail r) \<le> length L" using i(2,3,6) by simp
    then show ?thesis using E_publish p(1) [of "Inr n"] by (simp add: steps_to_def)
  qed (use en in simp_all)
qed

lemma deq_step_ok:
  assumes inv: "ring_inv ps cs e r L P" and en: "\<not> enqueues (P t)"
  shows "\<exists>p' r'. do_dequeue weak (P t) r = Some (p', r') \<and> steps_to ps cs e r L P t p' r'"
proof -
  note i = ring_invD [OF inv] and g = geomD [OF ring_invD(1) [OF inv]]
  have ok: "thr_ok ps cs e r L t (P t)" by (rule i(10))
  show ?thesis
  proof (cases "P t")
    case (D_head sc b obj n)
    then show ?thesis using ok steps_local [OF inv, of t "D_tail sc b obj n (cons_head r)"] by (auto simp: role_def)
  next
    case (D_tail sc b obj n h)
    define entries where "entries = prod_tail r - h"
    have en: "unat h + unat entries = unat (prod_tail r)" if "h = cons_head r"
      using i(3) that by (simp add: entries_def unat_sub word_le_nat_alt)
    have base: "role cs t sc obj n" "unat h \<le> unat (cons_head r)" "sc \<longrightarrow> h = cons_head r" using ok by (auto simp: D_tail)
    have n0: "0 < unat n" using base(1) by (simp add: role_def)
    have "thr_ok ps cs e r L t (D_claim sc b obj n h (ucast entries))" if "ucast n > entries" "entries \<noteq> 0"
      using base clamp [OF n0 that] en by auto
    moreover have "thr_ok ps cs e r L t (D_claim sc b obj n h n)" if "\<not> ucast n > entries"
      using base n0 en that by (auto simp: word_less_nat_alt not_less)
    ultimately show ?thesis using D_tail inv by (auto simp: Let_def entries_def [symmetric] intro!: steps_local)
  next
    case (D_claim sc b obj mx h n)
    show ?thesis
    proof (cases "sc \<or> (cons_head r = h \<and> \<not> weak)")
      case True
      then have h: "h = cons_head r" using ok by (auto simp: D_claim)
      then show ?thesis using True D_claim range_claim_deq [OF inv D_claim h] by (auto simp: steps_to_def)
    next
      case False
      then show ?thesis using ok D_claim steps_local [OF inv, of t "D_head sc b obj mx"] by auto
    qed
  next
    case (D_load sc obj h n plan)
    have ro: "role cs t sc obj n" using ok by (simp add: D_load)
    obtain j where j: "j \<le> unat n" "plan_of plan = span e (unat h) j (unat n)" "loaded L obj (unat h) j" using ok D_load by auto
    show ?thesis
    proof (cases plan)
      case Nil
      then have "j = unat n" using j by (cases "j < unat n") (simp_all add: span_Cons)
      then show ?thesis using Nil ok D_load j steps_local [OF inv, of t "D_check sc obj h n"] by auto
    next
      case (Cons a plan')
      obtain x d where a: "a = (x, d)" by (cases a)
      note sp = span_head [OF j(2) [unfolded Cons a]]
      have cl: "(dcl \<circ> P) t = Some (unat h, unat n)" by (simp add: D_load)
      have v: "rr_ring r ! ((unat h + j) mod 2 ^ e) = L ! (unat h + j)"
        using claimsD(1,3) [OF i(9) cl] sp(1) i(3) by (intro i(7)) linarith+
      define ob where "ob = obj[j := L ! (unat h + j)]"
      have "do_dequeue weak (P t) r = Some (D_load sc ob h n plan', r)"
        using sp ro v g(6) by (simp add: D_load Cons a ob_def role_def get_at_in put_at_in del: get_at_eq_Some put_at_eq_Some)
      moreover have "loaded L ob (unat h) (Suc j)" using j(3) sp(1) ro by (auto simp: loaded_def ob_def role_def less_Suc_eq)
      then have "steps_to ps cs e r L P t (D_load sc ob h n plan') r"
        using sp ro by (intro steps_local [OF inv]) (auto simp: D_load ob_def role_def intro!: exI [of _ "Suc j"])
      ultimately show ?thesis by blast
    qed
  next
    case (D_check sc obj h n)
    have "cons_tail r = h" if sc
    proof -
      have "dcl (P t) = Some (unat h, unat n)" "cs = {t}" using ok that by (simp_all add: D_check role_def)
      then have "unat h = unat (cons_tail r)" by (rule single_at_tail_deq [OF inv])
      then show ?thesis by (simp only: word_unat_eq_iff)
    qed
    moreover have "steps_to ps cs e r L P t (D_publish obj h n) r" if "cons_tail r = h"
      using ok that by (intro steps_local [OF inv]) (auto simp: D_check role_def)
    moreover have "steps_to ps cs e r L P t (D_check sc obj h n) r" using ok by (intro steps_local [OF inv]) (simp_all add: D_check)
    ultimately show ?thesis unfolding D_check do_dequeue.simps by (cases sc; cases "cons_tail r = h") simp_all
  next
    case (D_publish obj h n)
    note p = inv_publish_deq [OF inv D_publish]
    have "take (unat (cons_tail r) + unat n) L = take (unat (cons_tail r)) L @ take (unat n) obj" unfolding p(3) by (rule take_add)
    then show ?thesis using D_publish p(1) [of "Inr n"] p(2) by (simp add: steps_to_def)
  qed (use en steps_local [OF inv, of t "P t"] ok in simp_all)
qed

lemma ring_step_ok:
  assumes "ring_inv ps cs e r L P"
  shows "\<exists>p' r'. ring_step weak (P t) r = Some (p', r') \<and> steps_to ps cs e r L P t p' r'"
  using enq_step_ok [OF assms] deq_step_ok [OF assms] by (auto simp: ring_step_def)

definition rsys_inv :: "nat set \<Rightarrow> nat set \<Rightarrow> nat \<Rightarrow> nat \<Rightarrow> 'a rsys \<Rightarrow> bool" where
  "rsys_inv ps cs e N s \<longleftrightarrow> ring_inv ps cs e (rs_ring s) (rs_in s) (rs_pcs s) \<and> unat (prod_head (rs_ring s)) = N \<and>
     rs_out s = take (unat (cons_tail (rs_ring s))) (rs_in s)"

lemma call_inv:
  assumes "ring_inv ps cs e r L P" "returned (P t)" "call_ok ps cs t c"
  shows "ring_inv ps cs e r L (P(t := c))"
proof (rule range_local [OF assms(1)])
  show "thr_ok ps cs e r L t c" using assms(3) by (cases c) (auto simp: role_def)
  show "ecl c = ecl (P t)" "dcl c = dcl (P t)" using assms(2,3) by (cases c; cases "P t"; simp)+
qed

lemma ring_reach_inv: "ring_reach ps cs N s \<Longrightarrow> N < 2 ^ 64 \<Longrightarrow> \<exists>e. rsys_inv ps cs e N s"
proof (induction rule: ring_reach.induct)
  case (init zero count flags r)
  obtain e where "ring_ok e r" using ring_created [OF init(2,3), of "replicate (unat (round_count count)) zero" flags] init(1)
    by (auto simp: rte_ring_create_def Let_def)
  moreover have "prod_head r = 0" "prod_tail r = 0" "cons_head r = 0" "cons_tail r = 0"
    using init(1) by (auto simp: rte_ring_create_def Let_def rte_ring_init_def)
  moreover have "claims (ecl \<circ> (\<lambda>_. R_idle)) 0 0" "claims (dcl \<circ> (\<lambda>_. R_idle)) 0 0" using claims_none by (simp_all add: comp_def)
  ultimately show ?case by (intro exI [of _ e]) (simp add: rsys_inv_def ring_inv_def ring_ok_def)
next
  case (call N s t c)
  then show ?case using call_inv by (fastforce simp: rsys_inv_def)
next
  case (step N s weak t s')
  then obtain e where e: "ring_inv ps cs e (rs_ring s) (rs_in s) (rs_pcs s)" "unat (prod_head (rs_ring s)) = N"
    "rs_out s = take (unat (cons_tail (rs_ring s))) (rs_in s)" by (auto simp: rsys_inv_def)
  obtain p' r' where st: "ring_step weak (rs_pcs s t) (rs_ring s) = Some (p', r')" "steps_to ps cs e (rs_ring s) (rs_in s) (rs_pcs s) t p' r'"
    using ring_step_ok [OF e(1)] by blast
  then have s': "s' = \<lparr>rs_ring = r', rs_pcs = (rs_pcs s)(t := p'), rs_in = rs_in s @ published (rs_pcs s t), rs_out = rs_out s @ delivered (rs_pcs s t)\<rparr>"
    using step.hyps(2) by (simp add: rsys_step_def Let_def)
  then show ?case using st(2) step.prems e by (intro exI [of _ e]) (simp add: rsys_inv_def steps_to_def)
qed

section \<open>Properties\<close>

text \<open>The slot that the next step of a thread copies to or from.\<close>

fun touches :: "'a rpc \<Rightarrow> nat option" where
  "touches (E_store sp obj h n ((d, s) # plan)) = Some (unat d)"
| "touches (D_load sc obj h n ((s, d) # plan)) = Some (unat s)"
| "touches p = None"

lemma touches_claim:
  assumes inv: "ring_inv ps cs e r L P" and x: "touches (P t) = Some x"
  obtains i h n where "x = i mod 2 ^ e" "h \<le> i" "i < h + n" "ecl (P t) = Some (h, n) \<or> dcl (P t) = Some (h, n)"
proof -
  have ok: "thr_ok ps cs e r L t (P t)" using ring_invD(10) [OF inv] .
  consider sp obj h n d s plan where "P t = E_store sp obj h n ((d, s) # plan)" | sc obj h n s d plan where "P t = D_load sc obj h n ((s, d) # plan)"
    using x by (cases "P t" rule: touches.cases) auto
  then show ?thesis
  proof cases
    case 1
    then obtain j where "plan_of ((d, s) # plan) = span e (unat h) j (unat n)" using ok by auto
    from span_head [OF this] show ?thesis using that [of "unat h + j" "unat h" "unat n"] x by (simp add: 1)
  next
    case 2
    then obtain j where "plan_of ((s, d) # plan) = span e (unat h) j (unat n)" using ok by auto
    from span_head [OF this] show ?thesis using that [of "unat h + j" "unat h" "unat n"] x by (simp add: 2)
  qed
qed

lemma touches_apart:
  assumes inv: "ring_inv ps cs e r L P" and tu: "t \<noteq> u" "touches (P t) = Some x"
  shows "touches (P u) \<noteq> Some x"
proof
  assume xu: "touches (P u) = Some x"
  obtain j k m where u: "x = j mod 2 ^ e" "k \<le> j" "j < k + m" "ecl (P u) = Some (k, m) \<or> dcl (P u) = Some (k, m)" using touches_claim [OF inv xu] .
  obtain i h n where t: "x = i mod 2 ^ e" "h \<le> i" "i < h + n" "ecl (P t) = Some (h, n) \<or> dcl (P t) = Some (h, n)" using touches_claim [OF inv tu(2)] .
  note c = ring_invD [OF inv]
  note E = claimsD(1,3,4) [OF c(8), unfolded comp_apply] and D = claimsD(1,3,4) [OF c(9), unfolded comp_apply]
  have "unat (cons_tail r) \<le> i \<and> i < unat (cons_tail r) + 2 ^ e" using t(2-4) E(1,2) [of t h n] D(1,2) [of t h n] c(2-5) by auto
  moreover have "unat (cons_tail r) \<le> j \<and> j < unat (cons_tail r) + 2 ^ e" using u(2-4) E(1,2) [of u k m] D(1,2) [of u k m] c(2-5) by auto
  ultimately have "i = j" using slot_inj [of i "2 ^ e" j "unat (cons_tail r)"] t(1) u(1) by simp
  then show False
    using t u tu(1) E(3) [of t h n u k m] D(3) [of t h n u k m] E(1) [of t h n] E(1) [of u k m] D(2) [of t h n] D(2) [of u k m] c(3) by auto
qed

text \<open>
  C5: on a ring that any threads share, while fewer than \<open>2 ^ 64\<close> elements were claimed and every request is for at least one object (with a request for zero
  objects the statement fails, \<open>ring_zero_request_loses\<close> below), and the single-threaded functions are called by one thread only: no step faults, neither outside the table nor in the assertions of the
  single-threaded functions; no two threads copy to or from the same slot at the same time; and the elements handed out so far, over all consumers, are
  the first elements that were published, over all producers, in the same order, with at most \<open>size - 1\<close> elements in between.
\<close>
theorem ring_threads_safe:
  assumes "ring_reach ps cs N s" "N < 2 ^ 64"
  shows "(\<forall>weak t. rsys_step weak t s \<noteq> None) \<and>
    (\<forall>t u x. t \<noteq> u \<longrightarrow> touches (rs_pcs s t) = Some x \<longrightarrow> touches (rs_pcs s u) \<noteq> Some x) \<and>
    (\<exists>rest. rs_in s = rs_out s @ rest \<and> length rest \<le> unat (rr_mask (rs_ring s)))"
proof (intro conjI)
  obtain e where e: "ring_inv ps cs e (rs_ring s) (rs_in s) (rs_pcs s)" "rs_out s = take (unat (cons_tail (rs_ring s))) (rs_in s)"
    using ring_reach_inv [OF assms] by (auto simp: rsys_inv_def)
  note i = ring_invD [OF e(1)]
  show "\<forall>weak t. rsys_step weak t s \<noteq> None" 
  proof (intro allI)
    fix weak t
    obtain p' r' where "ring_step weak (rs_pcs s t) (rs_ring s) = Some (p', r')" using ring_step_ok [OF e(1)] by blast
    then show "rsys_step weak t s \<noteq> None" by (simp add: rsys_step_def Let_def)
  qed
  show "\<forall>t u x. t \<noteq> u \<longrightarrow> touches (rs_pcs s t) = Some x \<longrightarrow> touches (rs_pcs s u) \<noteq> Some x" using touches_apart [OF e(1)] by blast
  have "length (rs_in s) - unat (cons_tail (rs_ring s)) \<le> unat (rr_mask (rs_ring s))" using i(4,5,6) geomD(2) [OF i(1)] by simp
  then show "\<exists>rest. rs_in s = rs_out s @ rest \<and> length rest \<le> unat (rr_mask (rs_ring s))"
    using e(2) by (intro exI [of _ "drop (unat (cons_tail (rs_ring s))) (rs_in s)"]) simp
qed

definition ring_demo :: "nat rsys" where
  "ring_demo = \<lparr>rs_ring = rte_ring_init 4 0 [0, 0, 0, 0], rs_pcs = (\<lambda>_. R_idle)(1 := rte_ring_mp_enqueue_bulk [7, 8] 2), rs_in = [], rs_out = []\<rparr>"

lemma ring_demo_reach: "ring_reach {1, 2} {3} 0 ring_demo"
proof -
  have "rte_ring_create True 0 3 0 = Some (rte_ring_init 4 0 [0, 0, 0, 0 :: nat])" by code_simp
  then have "ring_reach {1, 2} {3} 0 \<lparr>rs_ring = rte_ring_init 4 0 [0, 0, 0, 0 :: nat], rs_pcs = \<lambda>_. R_idle, rs_in = [], rs_out = []\<rparr>"
    by (rule ring_reach.init) simp_all
  from ring_reach.call [OF this, where t = 1 and c = "rte_ring_mp_enqueue_bulk [7, 8] 2"] show ?thesis
    by (simp add: ring_demo_def rte_ring_mp_enqueue_bulk_def)
qed

theorem ring_threads_safe_witness: "ring_reach {1, 2} {3} 0 ring_demo \<and> rsys_step False 1 ring_demo \<noteq> None"
  using ring_threads_safe [OF ring_demo_reach] ring_demo_reach by simp

text \<open>A thread that waits for others to publish.\<close>

fun waits :: "'a rte_ring \<Rightarrow> 'a rpc \<Rightarrow> bool" where
  "waits r (E_check sp obj h n) \<longleftrightarrow> prod_tail r \<noteq> h"
| "waits r (D_check sc obj h n) \<longleftrightarrow> cons_tail r \<noteq> h"
| "waits r p \<longleftrightarrow> False"

lemma moves:
  assumes "ring_step False p r = Some (p', r')" "\<not> returned p" "\<not> waits r p"
  shows "p' \<noteq> p"
proof (cases p)
  case (E_store sp obj h n plan)
  then show ?thesis using assms(1) by (cases plan) (auto simp: ring_step_def bind_eq_Some_conv)
next
  case (D_load sc obj h n plan)
  then show ?thesis using assms(1) by (cases plan) (auto simp: ring_step_def bind_eq_Some_conv)
qed (use assms in \<open>auto simp: ring_step_def Let_def split: if_splits\<close>)

lemma first_runs:
  "ecl p = Some (unat (prod_tail r), m) \<Longrightarrow> \<not> returned p \<and> \<not> waits r p"
  "dcl p = Some (unat (cons_tail r), m) \<Longrightarrow> \<not> returned p \<and> \<not> waits r p"
  using word_unat_eq_iff [THEN iffD2, of "prod_tail r"] word_unat_eq_iff [THEN iffD2, of "cons_tail r"]
  by (cases p; fastforce dest: sym)+

text \<open>
  C35: the ring cannot deadlock while every request is for at least one object: whenever a thread is inside an operation, some thread inside an operation can
  take a step that is not waiting. After a request for zero objects producers may wait for ever (\<open>ring_zero_request_loses\<close> below). Fewer than \<open>2 ^ 64\<close> elements are
  claimed, and the single-threaded functions are called by one thread only.
\<close>
theorem ring_no_deadlock:
  assumes "ring_reach ps cs N s" "N < 2 ^ 64" "\<not> returned (rs_pcs s t)"
  shows "\<exists>u s'. \<not> returned (rs_pcs s u) \<and> rsys_step False u s = Some s' \<and> rs_pcs s' u \<noteq> rs_pcs s u"
proof -
  obtain e where inv: "ring_inv ps cs e (rs_ring s) (rs_in s) (rs_pcs s)" using ring_reach_inv [OF assms(1,2)] by (auto simp: rsys_inv_def)
  note i = ring_invD [OF inv]
  obtain u where u: "\<not> returned (rs_pcs s u)" "\<not> waits (rs_ring s) (rs_pcs s u)"
  proof (cases "waits (rs_ring s) (rs_pcs s t)")
    case True
    consider sp obj h n where "rs_pcs s t = E_check sp obj h n" | sc obj h n where "rs_pcs s t = D_check sc obj h n"
      using True by (cases "rs_pcs s t") auto
    then show ?thesis
    proof cases
      case 1
      have "unat (prod_tail (rs_ring s)) < unat (prod_head (rs_ring s))" using claimsD(1-3) [OF i(8), of t "unat h" "unat n"] by (simp add: 1)
      then obtain u m where "ecl (rs_pcs s u) = Some (unat (prod_tail (rs_ring s)), m)" using claims_first [OF i(8)] by auto
      then show ?thesis using that [of u] first_runs(1) by blast
    next
      case 2
      have "unat (cons_tail (rs_ring s)) < unat (cons_head (rs_ring s))" using claimsD(1-3) [OF i(9), of t "unat h" "unat n"] by (simp add: 2)
      then obtain u m where "dcl (rs_pcs s u) = Some (unat (cons_tail (rs_ring s)), m)" using claims_first [OF i(9)] by auto
      then show ?thesis using that [of u] first_runs(2) by blast
    qed
  qed (use that assms(3) in blast)
  obtain p' r' where st: "ring_step False (rs_pcs s u) (rs_ring s) = Some (p', r')" using ring_step_ok [OF inv] by blast
  then show ?thesis using moves [OF st u] u(1) by (intro exI [of _ u]) (simp add: rsys_step_def Let_def)
qed

theorem ring_no_deadlock_witness: "\<exists>u s'. \<not> returned (rs_pcs ring_demo u) \<and> rsys_step False u ring_demo = Some s' \<and> rs_pcs s' u \<noteq> rs_pcs ring_demo u"
  by (rule ring_no_deadlock [OF ring_demo_reach, of 1]) (simp_all add: ring_demo_def rte_ring_mp_enqueue_bulk_def)

text \<open>
  A request for zero elements is what the theorems exclude. Thread 1 enqueues nothing and finds the tail at its head; before it publishes, thread 2 enqueues an element at the same
  head and publishes it; then thread 1 stores the old tail again. All have returned, the element is gone, and the next producer waits for ever.
\<close>

fun rsys_run :: "nat list \<Rightarrow> 'a rsys \<Rightarrow> 'a rsys option" where
  "rsys_run [] s = Some s"
| "rsys_run (t # ts) s = do { s \<leftarrow> rsys_step False t s; rsys_run ts s }"

definition zero_demo :: "nat rsys" where
  "zero_demo = \<lparr>rs_ring = rte_ring_init 4 0 [0, 0, 0, 0],
     rs_pcs = (\<lambda>_. R_idle)(1 := rte_ring_mp_enqueue_bulk [] 0, 2 := rte_ring_mp_enqueue_bulk [7] 1), rs_in = [], rs_out = []\<rparr>"

theorem ring_zero_request_loses:
  "map_option (\<lambda>s. (rs_pcs s 1, rs_pcs s 2, prod_head (rs_ring s), prod_tail (rs_ring s), rs_in s,
      map_option fst (ring_run (rte_ring_mc_dequeue 0) (rs_ring s))))
    (rsys_run [1, 1, 1, 1, 1, 2, 2, 2, 2, 2, 2, 2, 1] zero_demo) =
   Some (E_ret (Inr 0), E_ret (Inr 1), 1, 0, [7], Some (D_ret (Inl ENOENT) [0]))"
  by code_simp

end
