(* ===== verification/Spec2Isabelle.thy ===== *)
theory Spec2Isabelle
  imports FastQueue SpscQueue Encdec FastHT HashTab Pack Bloom Fast_List Vect Mempool Xorfilter Mpmc Escape Gstring_Var Base64 HashTab_Iter Parse_Ip Strtosize Idents Syncq Bitset Arena Strsplit Strcopy Csv Splitargs Mapfile Xor_Marshal Bloom_Marshal Kmp Rabin_Karp Boyer_Moore Minheap Ringbuf_Threads
begin

text \<open>
  \<^bold>\<open>Verification of the portable C library's core\<close>

  The repository is a library of independent C components (sources under \<open>src/src\<close>, header-only templates under
  \<open>src/inc/fast\<close>, interfaces under \<open>src/inc/utils\<close>): hash tables, filters, queues, lists, vectors, strings, allocators, a packer
  and small utilities. This development models the components that keep state and proves what makes each of them correct. There is
  one theory per component, after a few theories of shared vocabulary.

  \<^bold>\<open>Shared theories\<close>

  \<^item> \<open>Prelude\<close>: machine integers as words, checked array accesses (\<open>get_at\<close>, \<open>put_at\<close>), circular sequences and the
    arithmetic of a read and a write index.
  \<^item> \<open>Fifo_Spec\<close>: the abstract bounded FIFO and the locale \<open>bounded_fifo\<close> that both array queues interpret.
  \<^item> \<open>Map_Spec\<close>: the abstract map, the locale \<open>simulation\<close> (forward simulation of a sequence of operations) and its
    instance \<open>hash_map\<close>; \<open>Buckets\<close>: tables of buckets, shared by the two hash tables.
  \<^item> \<open>Alloc\<close>: allocation and reallocation (\<open>inc/utils/new.h\<close>) as used by the vectors and the growable strings; the answers of the allocator are
    an argument.
  \<^item> \<open>Cstring\<close>: null-terminated strings, the 256-bit character sets of \<open>src/bits.h\<close> and the in-place trim of \<open>src/strtrim.c\<close>.
  \<^item> \<open>Bits\<close>: \<open>NEXTPOW2\<close> and \<open>_ALIGN_UP\<close> of \<open>inc/utils/typeutils.h\<close>, used by the tables, filters and queues.

  \<^bold>\<open>Components\<close>

  \<^item> \<open>FastHT\<close> and \<open>FastHT_Match\<close>: \<open>src/hashtable/fast-ht.c\<close>. A table is the record \<open>ht\<close> of buckets of bags. Both implementations of
    \<open>__find_matches\<close> satisfy the locale \<open>matcher\<close>, and for either of them the table is a \<open>hash_map\<close>: every run of probe, find,
    replace and remove returns what the abstract map returns, through every resize.
  \<^item> \<open>HashTab\<close>: \<open>src/hashtable/hashtab.c\<close> with its locks. Every run of the operations of an unlocked table simulates the abstract map and
    keeps the statistics exact; the return code of \<open>hash_table_remove\<close>, which its documentation states otherwise, is a lemma of its own. Conditional removal, failed
    growth, and a lock that a duplicate insertion never releases.
  \<^item> \<open>Bloom\<close>: \<open>src/hashtable/bloom.c\<close>. The locale \<open>approx_set\<close> (no false negatives) is interpreted for the standard and the scalable filter;
    a counting filter tracks the multiset of live keys while no counter wraps.
  \<^item> \<open>Xorfilter\<close>: \<open>src/hashtable/xorfilter.c\<close>. The peeling construction ends, and the filter it returns accepts every key it was built from.
  \<^item> \<open>Mapfile\<close>, \<open>Bloom_Marshal\<close> and \<open>Xor_Marshal\<close>: \<open>src/hashtable/bloom_marshal.c\<close> and \<open>src/hashtable/xorfilter_marshal.c\<close>. Files written through a mapping and
    renamed; saving either fails and leaves the old file or replaces it as a whole, under failures of every call whose result the code tests, and a loaded filter answers
    as the saved one.
  \<^item> \<open>FastQueue\<close>: \<open>inc/fast/queue.h\<close>, an interpretation of \<open>bounded_fifo\<close>.
  \<^item> \<open>SpscQueue\<close>: \<open>inc/fast/spsc_bounded_queue.h\<close>. One producer and one consumer whose steps interleave; every schedule is
    linearizable to the abstract FIFO, and uninterrupted operations interpret \<open>bounded_fifo\<close>.
  \<^item> \<open>Mpmc\<close>: \<open>inc/fast/mpmc_bounded_queue.h\<close>. Any number of threads, one atomic access per step; the reachable states are the inductive
    predicate \<open>mpmc_reach\<close>, with an invariant on tickets, turns and slots.
  \<^item> \<open>Ringbuf\<close> and \<open>Ringbuf_Threads\<close>: \<open>inc/fast/ringbuf.h\<close>. The steps of the four core functions, with the unrolled copies as a list of positions. Operations that
    run alone interpret \<open>simulation\<close> over bounded lists, across wrap-around; any number of threads: the ranges they claim tile the gap between tail and head, which gives
    exclusive slots, first-in first-out order and freedom from deadlock. A request for zero objects breaks all of it and is excluded. The return value of the bulk
    functions, which their documentation states otherwise, is a lemma of its own.
  \<^item> \<open>Syncq\<close>: \<open>inc/fast/syncq.h\<close>. Any number of threads, one semaphore, mutex or memory access per step; the reachable states are \<open>syncq_reach\<close>, with an
    invariant that accounts for the semaphores, mutual exclusion and the contents; first-in first-out order and freedom from deadlock. The calls of the semaphores and the
    mutex do not fail.
  \<^item> \<open>Bitset\<close>: \<open>inc/fast/bitset.h\<close>, a store of bit sets as an interpretation of \<open>simulation\<close> over sets of numbers; the complement, whose comment says otherwise,
    is a lemma of its own.
  \<^item> \<open>Fast_List\<close>: the doubly linked lists of \<open>inc/fast/list.h\<close> on an explicit heap of links, shown to act as lists; the locale
    \<open>intrusive_queue\<close> is what the allocator uses of them.
  \<^item> \<open>Mempool\<close>: \<open>src/mempool.c\<close>. The free list lives in the freed blocks themselves. Blocks in use are aligned, disjoint and with all
    their bytes inside a chunk in every reachable state, whatever clients write into them; capacity is exact.
  \<^item> \<open>Arena\<close>: \<open>src/arena.c\<close>. Blocks are aligned, inside their chunk and disjoint, whatever addresses \<open>malloc\<close> returns within its contract, which is stated
    of the one request a call makes; a call fails exactly if it makes a request and \<open>malloc\<close> refuses it.
  \<^item> \<open>Vect\<close>: \<open>inc/fast/vect.h\<close>, an interpretation of \<open>simulation\<close> over lists, with the growth loop, element size and reallocated memory explicit.
  \<^item> \<open>Gstring\<close>: \<open>src/gstring.c\<close>, an interpretation of \<open>simulation\<close> over byte strings; reading lines from a stream; three off-by-one defects.
  \<^item> \<open>Escape\<close>: \<open>src/escape.c\<close> and \<open>src/unescape.c\<close>. Unescaping inverts escaping for the named control characters; where it does not.
  \<^item> \<open>Gstring_Var\<close>: \<open>src/gstring_var.c\<close>. Variable expansion agrees with a recursive description of it, and fills templates of plain text and references as the
    comments of the source promise.
  \<^item> \<open>HashTab_Iter\<close>: \<open>src/hashtable/hashtab_iter.c\<close>. The locale \<open>table_iterator\<close>: an iterator visits every node of the table exactly once
    and then ends; the property is about the unsorted iterator.
  \<^item> \<open>Base64\<close>: \<open>src/b64_encode.c\<close> and \<open>src/b64_decode.c\<close> with their streaming state. Decoding inverts encoding however both are cut into
    blocks, and the encoder never writes past the size it announces.
  \<^item> \<open>Parse_Ip\<close>: \<open>src/parse-ip.c\<close>, \<open>Strtosize\<close>: \<open>src/strtosize.c\<close>, \<open>Idents\<close>: \<open>src/str2hex.c\<close>, \<open>src/uuid2str.c\<close> and \<open>src/ulid.c\<close>. Round trips of
    parsing and printing, exact limits of the 64-bit parser, and two defects of the size parser and the ULID printer.
  \<^item> \<open>Strsplit\<close>: \<open>src/strsplit.c\<close>, \<open>Csv\<close>: \<open>src/strsplit_csv.c\<close>, \<open>Splitargs\<close>: \<open>src/splitargs.c\<close>. In-place splitting: the positions that are returned are
    those of exactly the tokens that a description of the text names. \<open>Strcopy\<close>: \<open>src/strlcpy.c\<close>, \<open>src/strcopy.c\<close>, \<open>src/strunquote.c\<close>.
  \<^item> \<open>Str_Search\<close>, \<open>Kmp\<close>, \<open>Rabin_Karp\<close> and \<open>Boyer_Moore\<close>: \<open>inc/utils/strmatch.h\<close>. The locales \<open>window_scan\<close> and \<open>window_search\<close> hold what a window that
    slides over a text owes; Boyer-Moore and Rabin-Karp (as long as its hash does not leave the range of \<open>int\<close>, which is a fault) find every occurrence,
    Knuth-Morris-Pratt the leftmost ones that do not overlap, which are all of them where none overlap, and the turbo mode of Boyer-Moore only
    occurrences, but not all of them.
  \<^item> \<open>Pq_Spec\<close> and \<open>Minheap\<close>: \<open>inc/utils/minheap.h\<close>, an interpretation of the locale \<open>priority_queue\<close>; removal at a position faults or breaks the order.
  \<^item> \<open>Pack\<close> and \<open>Encdec\<close>: \<open>src/pack.c\<close> and \<open>inc/fast/encdec.h\<close>. What \<open>Pack\<close> writes for a format, \<open>Unpack\<close> reads back, for the formats that the property names; the
    integer codecs are
    interpretations of the locale \<open>codec\<close>.

  \<^bold>\<open>Conventions\<close>

  The platform is LP64 with assertions enabled. \<open>None\<close> is a fault: an access outside an object, a failing assertion, a division by zero,
  a signed overflow that the theorems have to exclude, a deadlock or a loop that does not end; theorems that an operation works state that its result is \<open>Some\<close>. Errors that the code returns
  are values (\<open>errno\<close>, \<open>Inl\<close>). What the code takes from outside is an argument of the definitions: answers of the allocator,
  the contents of reallocated memory, random salts and seeds, the policy's hash and comparison functions, \<open>qsort\<close>, failures of system calls, checksums, and the floating-point
  computations that size the filters. Calls whose result the code ignores (\<open>fsync\<close>, \<open>close\<close>, \<open>munmap\<close>, \<open>unlink\<close>, \<open>sem_wait\<close>, \<open>pthread_mutex_lock\<close>)
  succeed.

  \<^bold>\<open>Bounds\<close>

  Counters are machine words, so runs of operations carry a budget below which none of them wraps: \<open>2 ^ 52\<close> operations for \<open>FastHT\<close>, less than \<open>2 ^ 31\<close> for
  \<open>HashTab\<close>, whose counters are of type \<open>int\<close>, \<open>2 ^ 62\<close> steps for \<open>Mpmc\<close>, \<open>2 ^ 64\<close> elements for \<open>Ringbuf_Threads\<close>, \<open>2 ^ 25\<close> operations of up to \<open>2 ^ 20\<close> elements of up to \<open>2 ^ 16\<close> bytes for \<open>Vect\<close>, \<open>2 ^ 17\<close> operations of
  up to \<open>2 ^ 20\<close> bytes for \<open>Gstring\<close>; requests of an arena are below \<open>2 ^ 59\<close> bytes and a vector of tokens below \<open>2 ^ 29\<close> entries. No definition uses
  fuel except where the code itself limits its attempts (the construction of a Xor filter); the doubling loop of \<open>Vect\<close> is a partial
  function, and its termination is proved.

  \<^bold>\<open>Not modelled\<close>

  Memory orders weaker than sequential consistency in the lock-free queues; floating-point arithmetic; printing;
  hash functions and random number generators as such, whose contract is statistical; ports of third-party code
  (\<open>fts.c\<close>, \<open>getopt_long.c\<close>, \<open>emb-printf.c\<close>, \<open>llist.h\<close>); wrappers of system calls (\<open>posix\<close>, \<open>win32\<close>, terminals, sockets,
  zlib); tests and tools.
\<close>

end
